(* ===== verification/Prelude.thy ===== *)
theory Prelude
  imports Main "HOL-Library.Word" "HOL-Library.Multiset"
begin

text \<open>
  Shared vocabulary of the development: the fixed-width scalar types of libmdbx and how they are
  read here, the return codes of \<^verbatim>\<open>mdbx.h\<close>, the constants of \<^verbatim>\<open>mdbx-internals.h\<close> that several
  components use, and generic lemmas on lists that are updated in place.

  Page numbers (\<^verbatim>\<open>pgno_t\<close>, 32 bits), transaction ids (\<^verbatim>\<open>txnid_t\<close>, 64 bits) and sizes
  (\<^verbatim>\<open>size_t\<close>, 64 bits) are natural numbers wherever the code compares them and adds small
  constants under guards that exclude wrap-around; where a subtraction may wrap, the wrap-around is
  written out with \<open>sub32\<close>, \<open>sub64\<close> and \<open>dec64\<close> below. Components whose subject is the bit level
  use words.
\<close>

type_synonym pgno = nat
type_synonym txnid = nat
type_synonym rc = int

subsection \<open>Return codes\<close>

definition MDBX_SUCCESS :: rc where "MDBX_SUCCESS = 0"
definition MDBX_RESULT_FALSE :: rc where "MDBX_RESULT_FALSE = 0"
definition MDBX_RESULT_TRUE :: rc where "MDBX_RESULT_TRUE = -1"
definition MDBX_TXN_FULL :: rc where "MDBX_TXN_FULL = -30788"
definition MDBX_PROBLEM :: rc where "MDBX_PROBLEM = -30779"
definition MDBX_ENOMEM :: rc where "MDBX_ENOMEM = 12"
definition MDBX_EINVAL :: rc where "MDBX_EINVAL = 22"
definition MDBX_EACCESS :: rc where "MDBX_EACCESS = 13"
definition MDBX_EPERM :: rc where "MDBX_EPERM = 1"
definition MDBX_EBADSIGN :: rc where "MDBX_EBADSIGN = -30420"
definition MDBX_PANIC :: rc where "MDBX_PANIC = -30795"
definition MDBX_MAP_FULL :: rc where "MDBX_MAP_FULL = -30792"
definition MDBX_TOO_LARGE :: rc where "MDBX_TOO_LARGE = -30417"
definition MDBX_CORRUPTED :: rc where "MDBX_CORRUPTED = -30796"
definition MDBX_VERSION_MISMATCH :: rc where "MDBX_VERSION_MISMATCH = -30794"
definition MDBX_INVALID :: rc where "MDBX_INVALID = -30793"
definition MDBX_BAD_TXN :: rc where "MDBX_BAD_TXN = -30782"
definition MDBX_NOTFOUND :: rc where "MDBX_NOTFOUND = -30798"
definition MDBX_PAGE_NOTFOUND :: rc where "MDBX_PAGE_NOTFOUND = -30797"
definition MDBX_CURSOR_FULL :: rc where "MDBX_CURSOR_FULL = -30787"
definition MDBX_INCOMPATIBLE :: rc where "MDBX_INCOMPATIBLE = -30784"
definition MDBX_UNABLE_EXTEND_MAPSIZE :: rc where "MDBX_UNABLE_EXTEND_MAPSIZE = -30785"

named_theorems rc_defs \<open>the numeric values of the return codes\<close>

declare MDBX_SUCCESS_def [rc_defs] MDBX_RESULT_FALSE_def [rc_defs] MDBX_RESULT_TRUE_def [rc_defs]
  MDBX_TXN_FULL_def [rc_defs] MDBX_PROBLEM_def [rc_defs] MDBX_ENOMEM_def [rc_defs]
  MDBX_EINVAL_def [rc_defs] MDBX_EACCESS_def [rc_defs] MDBX_EPERM_def [rc_defs]
  MDBX_EBADSIGN_def [rc_defs] MDBX_PANIC_def [rc_defs] MDBX_MAP_FULL_def [rc_defs]
  MDBX_TOO_LARGE_def [rc_defs] MDBX_CORRUPTED_def [rc_defs] MDBX_VERSION_MISMATCH_def [rc_defs]
  MDBX_INVALID_def [rc_defs] MDBX_INCOMPATIBLE_def [rc_defs]

lemma rc_distinct [simp]:
  "MDBX_SUCCESS \<noteq> MDBX_RESULT_TRUE" "MDBX_RESULT_TRUE \<noteq> MDBX_SUCCESS"
  "MDBX_SUCCESS \<noteq> MDBX_TXN_FULL" "MDBX_TXN_FULL \<noteq> MDBX_SUCCESS"
  "MDBX_SUCCESS \<noteq> MDBX_PROBLEM" "MDBX_PROBLEM \<noteq> MDBX_SUCCESS"
  "MDBX_SUCCESS \<noteq> MDBX_ENOMEM" "MDBX_ENOMEM \<noteq> MDBX_SUCCESS"
  "MDBX_RESULT_TRUE \<noteq> MDBX_ENOMEM" "MDBX_ENOMEM \<noteq> MDBX_RESULT_TRUE"
  "MDBX_RESULT_TRUE \<noteq> MDBX_TXN_FULL" "MDBX_TXN_FULL \<noteq> MDBX_RESULT_TRUE"
  "MDBX_RESULT_TRUE \<noteq> MDBX_PROBLEM" "MDBX_PROBLEM \<noteq> MDBX_RESULT_TRUE"
  by (simp_all add: rc_defs)

lemma rc_not_success [simp]:
  "MDBX_EINVAL \<noteq> MDBX_SUCCESS" "MDBX_EACCESS \<noteq> MDBX_SUCCESS" "MDBX_EPERM \<noteq> MDBX_SUCCESS"
  "MDBX_EBADSIGN \<noteq> MDBX_SUCCESS" "MDBX_PANIC \<noteq> MDBX_SUCCESS" "MDBX_MAP_FULL \<noteq> MDBX_SUCCESS"
  "MDBX_TOO_LARGE \<noteq> MDBX_SUCCESS" "MDBX_CORRUPTED \<noteq> MDBX_SUCCESS"
  "MDBX_VERSION_MISMATCH \<noteq> MDBX_SUCCESS" "MDBX_INVALID \<noteq> MDBX_SUCCESS"
  "MDBX_INCOMPATIBLE \<noteq> MDBX_SUCCESS"
  by (simp_all add: rc_defs)

subsection \<open>Constants of the data model\<close>

definition UINT64_MAX :: nat where "UINT64_MAX = 2 ^ 64 - 1"
definition MIN_TXNID :: txnid where "MIN_TXNID = 1"
definition INVALID_TXNID :: txnid where "INVALID_TXNID = UINT64_MAX"
definition MAX_TXNID :: txnid where "MAX_TXNID = 0xffffFFFF00000000 - 1"
definition NUM_METAS :: nat where "NUM_METAS = 3"
definition MIN_PAGENO :: pgno where "MIN_PAGENO = NUM_METAS"
definition MAX_PAGENO :: pgno where "MAX_PAGENO = 0x7FFFffff"
definition P_INVALID :: pgno where "P_INVALID = 2 ^ 32 - 1"
definition PAGELIST_LIMIT :: nat where "PAGELIST_LIMIT = MAX_PAGENO"
definition CURSOR_STACK_SIZE :: nat where "CURSOR_STACK_SIZE = 16 + 64 div 4"

subsection \<open>Unsigned subtraction with its wrap-around\<close>

definition sub32 :: "nat \<Rightarrow> nat \<Rightarrow> nat" where
  "sub32 a b = (if b \<le> a then a - b else a + 2 ^ 32 - b)"

definition sub64 :: "nat \<Rightarrow> nat \<Rightarrow> nat" where
  "sub64 a b = (if b \<le> a then a - b else a + 2 ^ 64 - b)"

definition dec64 :: "nat \<Rightarrow> nat" where
  "dec64 a = sub64 a 1"

lemma sub32_le [simp]: "b \<le> a \<Longrightarrow> sub32 a b = a - b"
  by (simp add: sub32_def)

lemma sub64_le [simp]: "b \<le> a \<Longrightarrow> sub64 a b = a - b"
  by (simp add: sub64_def)

lemma dec64_pos [simp]: "0 < a \<Longrightarrow> dec64 a = a - 1"
  by (simp add: dec64_def)

lemma dec64_0: "dec64 0 = UINT64_MAX"
  by (simp add: dec64_def sub64_def UINT64_MAX_def)

text \<open>The C semantics: subtraction modulo the width of the type.\<close>

lemma sub32_mod: "a < 2 ^ 32 \<Longrightarrow> b < 2 ^ 32 \<Longrightarrow> sub32 a b = (a + 2 ^ 32 - b) mod 2 ^ 32"
  by (auto simp: sub32_def mod_if)

lemma sub64_mod: "a < 2 ^ 64 \<Longrightarrow> b < 2 ^ 64 \<Longrightarrow> sub64 a b = (a + 2 ^ 64 - b) mod 2 ^ 64"
  by (auto simp: sub64_def mod_if)

subsection \<open>Rounding to a granularity\<close>

text \<open>
  \<^verbatim>\<open>floor_powerof2\<close> masks with \<^verbatim>\<open>~(granularity - 1)\<close>; every granularity is a power of two, where the mask
  drops the remainder of the division.
\<close>

definition floor_powerof2 :: "nat \<Rightarrow> nat \<Rightarrow> nat" where
  "floor_powerof2 v granularity = v div granularity * granularity"

definition ceil_powerof2 :: "nat \<Rightarrow> nat \<Rightarrow> nat" where
  "ceil_powerof2 v granularity = floor_powerof2 (v + granularity - 1) granularity"

lemma ceil_powerof2_bounds:
  assumes "0 < u"
  shows "v \<le> ceil_powerof2 v u" "ceil_powerof2 v u < v + u" "u dvd ceil_powerof2 v u"
proof -
  define w where "w = v + u - 1"
  have c: "ceil_powerof2 v u = w div u * u" by (simp add: ceil_powerof2_def floor_powerof2_def w_def)
  have "w div u * u + w mod u = w" by (rule div_mult_mod_eq)
  moreover have "w mod u < u" "w + 1 = v + u" using assms by (simp_all add: w_def)
  ultimately show "v \<le> ceil_powerof2 v u" "ceil_powerof2 v u < v + u" unfolding c by linarith+
  show "u dvd ceil_powerof2 v u" by (simp add: ceil_powerof2_def floor_powerof2_def)
qed

subsection \<open>Lists updated in place\<close>

lemma take_update_ge [simp]: "n \<le> i \<Longrightarrow> take n (xs[i := v]) = take n xs"
  by (simp add: list_eq_iff_nth_eq nth_list_update)

lemma drop_update_lt [simp]: "i < n \<Longrightarrow> drop n (xs[i := v]) = drop n xs"
  by (simp add: list_eq_iff_nth_eq nth_list_update)

lemma take_Suc_update: "i < length xs \<Longrightarrow> take (Suc i) (xs[i := v]) = take i xs @ [v]"
  by (simp add: take_Suc_conv_app_nth)

text \<open>
  The element-wise copy loops of the code, inside one array: \<open>copy_fwd\<close> runs upwards
  (\<^verbatim>\<open>while (t < end) *f++ = *t++\<close>) and closes a gap, \<open>copy_bwd\<close> runs downwards and opens one;
  \<open>write_run\<close> stores \<open>n\<close> consecutive numbers. Each is characterised by what the array is after it.
\<close>

fun copy_fwd :: "'a list \<Rightarrow> nat \<Rightarrow> nat \<Rightarrow> nat \<Rightarrow> 'a list" where
  "copy_fwd xs d s 0 = xs"
| "copy_fwd xs d s (Suc n) = copy_fwd (xs[d := xs ! s]) (Suc d) (Suc s) n"

fun copy_bwd :: "'a list \<Rightarrow> nat \<Rightarrow> nat \<Rightarrow> nat \<Rightarrow> 'a list" where
  "copy_bwd xs d s 0 = xs"
| "copy_bwd xs d s (Suc n) = copy_bwd (xs[d + n := xs ! (s + n)]) d s n"

fun write_run :: "nat list \<Rightarrow> nat \<Rightarrow> nat \<Rightarrow> nat \<Rightarrow> nat list" where
  "write_run xs pos v 0 = xs"
| "write_run xs pos v (Suc n) = write_run (xs[pos := v]) (Suc pos) (Suc v) n"

lemma length_copy_fwd [simp]: "length (copy_fwd xs d s n) = length xs"
  by (induction xs d s n rule: copy_fwd.induct) auto

lemma length_copy_bwd [simp]: "length (copy_bwd xs d s n) = length xs"
  by (induction xs d s n rule: copy_bwd.induct) auto

lemma length_write_run [simp]: "length (write_run xs pos v n) = length xs"
  by (induction xs pos v n rule: write_run.induct) auto

lemma nth_copy_fwd:
  "d \<le> s \<Longrightarrow> s + n \<le> length xs \<Longrightarrow> i < length xs \<Longrightarrow>
   copy_fwd xs d s n ! i = (if d \<le> i \<and> i < d + n then xs ! (s + (i - d)) else xs ! i)"
  by (induction xs d s n rule: copy_fwd.induct) 
    (auto simp: nth_list_update Suc_diff_le intro!: arg_cong[where f = "nth _"])

lemma nth_copy_bwd:
  "s \<le> d \<Longrightarrow> d + n \<le> length xs \<Longrightarrow> i < length xs \<Longrightarrow>
   copy_bwd xs d s n ! i = (if d \<le> i \<and> i < d + n then xs ! (s + (i - d)) else xs ! i)"
  by (induction xs d s n rule: copy_bwd.induct) (auto simp: nth_list_update less_Suc_eq)

lemma nth_write_run:
  "pos + n \<le> length xs \<Longrightarrow> i < length xs \<Longrightarrow>
   write_run xs pos v n ! i = (if pos \<le> i \<and> i < pos + n then v + (i - pos) else xs ! i)"
  by (induction xs pos v n rule: write_run.induct) (auto simp: nth_list_update)

lemma sorted_wrt_less_distinct: "sorted_wrt (<) (xs :: nat list) \<Longrightarrow> distinct xs"
  by (induction xs) auto

lemma sorted_wrt_gr_distinct: "sorted_wrt (>) (xs :: nat list) \<Longrightarrow> distinct xs"
  by (induction xs) auto

lemma sorted_wrt_less_nth:
  "sorted_wrt (<) (xs :: nat list) \<Longrightarrow> i < j \<Longrightarrow> j < length xs \<Longrightarrow> xs ! i < xs ! j"
  by (rule sorted_wrt_nth_less)

lemma sorted_wrt_gr_nth:
  "sorted_wrt (>) (xs :: nat list) \<Longrightarrow> i < j \<Longrightarrow> j < length xs \<Longrightarrow> xs ! j < xs ! i"
  by (rule sorted_wrt_nth_less)

lemma sorted_wrt_gr_ge:
  "sorted_wrt (>) (xs :: nat list) \<Longrightarrow> i \<le> j \<Longrightarrow> j < length xs \<Longrightarrow> xs ! j \<le> xs ! i"
  using sorted_wrt_gr_nth[of xs i j] by (cases "i = j") auto

lemma sorted_wrt_appendI:
  "sorted_wrt P xs \<Longrightarrow> sorted_wrt P ys \<Longrightarrow> (\<And>x y. x \<in> set xs \<Longrightarrow> y \<in> set ys \<Longrightarrow> P x y)
    \<Longrightarrow> sorted_wrt P (xs @ ys)"
  by (simp add: sorted_wrt_append)

lemma take_drop_copy_fwd:
  assumes "f \<le> t" "t \<le> len" "len \<le> length xs"
  shows "take (len - (t - f)) (copy_fwd xs f t (len - t)) = take f (take len xs) @ drop t (take len xs)"
proof (rule nth_equalityI)
  show "length (take (len - (t - f)) (copy_fwd xs f t (len - t))) = length (take f (take len xs) @ drop t (take len xs))"
    using assms by simp
  fix i assume "i < length (take (len - (t - f)) (copy_fwd xs f t (len - t)))"
  then have i: "i < len - (t - f)" using assms by simp
  then have "take (len - (t - f)) (copy_fwd xs f t (len - t)) ! i = (if f \<le> i then xs ! (t + (i - f)) else xs ! i)"
  proof -
    have "i < f + (len - t)" "i < length xs" using i assms by linarith+
    then show ?thesis using i assms by (simp add: nth_copy_fwd[OF assms(1)])
  qed
  also have "\<dots> = (take f (take len xs) @ drop t (take len xs)) ! i"
  proof (cases "f \<le> i")
    case True
    then have "t + (i - f) < len" using i assms by linarith
    then show ?thesis using True assms by (simp add: nth_append min_def)
  next
    case False
    then show ?thesis using i assms by (simp add: nth_append min_def)
  qed
  finally show "take (len - (t - f)) (copy_fwd xs f t (len - t)) ! i = (take f (take len xs) @ drop t (take len xs)) ! i" .
qed

lemma sorted_wrt_less_le:
  "sorted_wrt (<) (xs :: nat list) \<Longrightarrow> i \<le> j \<Longrightarrow> j < length xs \<Longrightarrow> xs ! i \<le> xs ! j"
  using sorted_wrt_less_nth[of xs i j] by (cases "i = j") auto

lemma take_copy_fwd:
  assumes "d \<le> s" "s + n \<le> length xs"
  shows "take (d + n) (copy_fwd xs d s n) = take d xs @ take n (drop s xs)"
  by (rule nth_equalityI) (use assms in \<open>auto simp: nth_copy_fwd nth_append\<close>)

lemma drop_copy_fwd:
  assumes "d \<le> s" "s + n \<le> length xs" "d + n \<le> q"
  shows "drop q (copy_fwd xs d s n) = drop q xs"
  by (rule nth_equalityI) (use assms in \<open>auto simp: nth_copy_fwd\<close>)

lemma take_write_run:
  assumes "pos + n \<le> length xs"
  shows "take (pos + n) (write_run xs pos v n) = take pos xs @ [v ..< v + n]"
  by (rule nth_equalityI) (use assms in \<open>auto simp: nth_write_run nth_append\<close>)

lemma drop_write_run:
  assumes "pos + n \<le> length xs" "pos + n \<le> q"
  shows "drop q (write_run xs pos v n) = drop q xs"
  by (rule nth_equalityI) (use assms in \<open>auto simp: nth_write_run\<close>)

lemma take_copy_bwd:
  assumes "s \<le> d" "d + n \<le> length xs" "q \<le> d"
  shows "take q (copy_bwd xs d s n) = take q xs"
  by (rule nth_equalityI) (use assms in \<open>auto simp: nth_copy_bwd\<close>)

lemma take_drop_copy_bwd:
  assumes "s \<le> d" "d + n \<le> length xs"
  shows "take n (drop d (copy_bwd xs d s n)) = take n (drop s xs)"
  by (rule nth_equalityI) (use assms in \<open>auto simp: nth_copy_bwd\<close>)

lemma drop_copy_bwd:
  assumes "s \<le> d" "d + n \<le> length xs" "d + n \<le> q"
  shows "drop q (copy_bwd xs d s n) = drop q xs"
  by (rule nth_equalityI) (use assms in \<open>auto simp: nth_copy_bwd\<close>)

lemma sorted_wrt_less_take_drop:
  assumes "sorted_wrt (<) (L :: nat list)" "f \<le> t"
  shows "sorted_wrt (<) (take f L @ drop t L)"
proof (rule sorted_wrt_appendI)
  show "sorted_wrt (<) (take f L)" using assms by (simp add: sorted_wrt_take)
  show "sorted_wrt (<) (drop t L)" using assms by (simp add: sorted_wrt_drop)
  fix x y assume x: "x \<in> set (take f L)" and y: "y \<in> set (drop t L)"
  obtain i where "i < length (take f L)" "take f L ! i = x" using x by (metis in_set_conv_nth)
  moreover obtain j where "j < length (drop t L)" "drop t L ! j = y" using y by (metis in_set_conv_nth)
  ultimately have "i < f" "i < length L" "x = L ! i" "t + j < length L" "y = L ! (t + j)" by auto
  then show "x < y" using sorted_wrt_less_nth[OF assms(1), of i "t + j"] assms(2) by simp
qed

lemma in_take_drop_nth:
  assumes "x \<in> set (take f L @ drop t L)"
  obtains j where "j < f \<or> t \<le> j" "j < length L" "x = L ! j"
proof -
  have "x \<in> set (take f L) \<or> x \<in> set (drop t L)" using assms by simp
  then show ?thesis
  proof
    assume "x \<in> set (take f L)"
    then obtain i where "i < length (take f L)" "take f L ! i = x" by (metis in_set_conv_nth)
    then show ?thesis by (intro that[of i]) auto
  next
    assume "x \<in> set (drop t L)"
    then obtain i where "i < length (drop t L)" "drop t L ! i = x" by (metis in_set_conv_nth)
    then show ?thesis by (intro that[of "t + i"]) auto
  qed
qed

end
