(* ===== verification/Search.thy ===== *)
theory Search
  imports Prelude
begin

text \<open>
  The binary search template of \<^verbatim>\<open>src/libmdbx/mdbx.c\<close> (\<^verbatim>\<open>SEARCH_IMPL\<close>), which the page number
  lists, the txnid lists, the dirty page lists and the move lists instantiate with their own
  comparison. \<open>xs\<close> is the array the code searches from its begin and a result \<open>r\<close> stands for the
  returned pointer \<^verbatim>\<open>begin + r\<close>. Both loops of the template are modelled: the branch-free one
  (\<^verbatim>\<open>MDBX_HAVE_CMOV\<close>), which runs its body once before it tests the length, and the branching one.
\<close>

subsection \<open>The two loops and the completion step\<close>

function search_loop_cmov :: "('a \<Rightarrow> 'b \<Rightarrow> bool) \<Rightarrow> 'a list \<Rightarrow> 'b \<Rightarrow> nat \<Rightarrow> nat \<Rightarrow> nat \<times> nat" where
  "search_loop_cmov cmp xs item it len =
     (let middle = it + len div 2;
          len' = (len + 1) div 2;
          it' = (if cmp (xs ! middle) item then middle else it)
      in if len' > 2 then search_loop_cmov cmp xs item it' len' else (it', len'))"
  by pat_completeness auto
termination
  by (relation "measure (\<lambda>(cmp, xs, item, it, len). len)") auto

function search_loop_branch :: "('a \<Rightarrow> 'b \<Rightarrow> bool) \<Rightarrow> 'a list \<Rightarrow> 'b \<Rightarrow> nat \<Rightarrow> nat \<Rightarrow> nat \<times> nat" where
  "search_loop_branch cmp xs item it len =
     (if len > 2
      then let middle = it + len div 2;
               len' = (len + 1) div 2
           in if cmp (xs ! middle) item
              then search_loop_branch cmp xs item (middle + 1) (len' - 1)
              else search_loop_branch cmp xs item it len'
      else (it, len))"
  by pat_completeness auto
termination
  by (relation "measure (\<lambda>(cmp, xs, item, it, len). len)") auto

declare search_loop_cmov.simps [simp del] search_loop_branch.simps [simp del]

definition search_finish :: "('a \<Rightarrow> 'b \<Rightarrow> bool) \<Rightarrow> 'a list \<Rightarrow> 'b \<Rightarrow> nat \<times> nat \<Rightarrow> nat" where
  "search_finish cmp xs item s =
     (let (it, len) = s;
          it = it + (if len > 1 \<and> cmp (xs ! it) item then 1 else 0)
      in it + (if len > 0 \<and> cmp (xs ! it) item then 1 else 0))"

definition search_impl :: "bool \<Rightarrow> ('a \<Rightarrow> 'b \<Rightarrow> bool) \<Rightarrow> 'a list \<Rightarrow> 'b \<Rightarrow> nat" where
  "search_impl have_cmov cmp xs item =
     search_finish cmp xs item
       (if have_cmov then search_loop_cmov cmp xs item 0 (length xs)
        else search_loop_branch cmp xs item 0 (length xs))"

subsection \<open>What the loops keep: the boundary stays in the window\<close>

text \<open>
  \<open>p\<close> is the boundary: the entries before it compare true with the item, the ones from it on
  compare false.
\<close>

definition boundary :: "('a \<Rightarrow> 'b \<Rightarrow> bool) \<Rightarrow> 'a list \<Rightarrow> 'b \<Rightarrow> nat \<Rightarrow> bool" where
  "boundary cmp xs item p \<longleftrightarrow>
     p \<le> length xs \<and> (\<forall>i < p. cmp (xs ! i) item) \<and> (\<forall>i. p \<le> i \<and> i < length xs \<longrightarrow> \<not> cmp (xs ! i) item)"

lemma boundary_cmp: "boundary cmp xs item p \<Longrightarrow> i < length xs \<Longrightarrow> cmp (xs ! i) item \<longleftrightarrow> i < p"
  by (auto simp: boundary_def not_less)

lemma boundary_unique: "boundary cmp xs item p \<Longrightarrow> boundary cmp xs item q \<Longrightarrow> p = q"
  by (metis boundary_def linorder_neqE_nat order_less_le_trans order_refl)

lemma search_loop_cmov_window:
  assumes "boundary cmp xs item p" "it \<le> p" "p \<le> it + len" "it + len \<le> length xs"
    and "search_loop_cmov cmp xs item it len = (it', len')"
  shows "it' \<le> p \<and> p \<le> it' + len' \<and> it' + len' \<le> length xs \<and> len' \<le> 2"
  using assms
proof (induction cmp xs item it len rule: search_loop_cmov.induct)
  case (1 cmp xs item it len)
  define mid where "mid = it + len div 2"
  define nit where "nit = (if cmp (xs ! mid) item then mid else it)"
  define nlen where "nlen = (len + 1) div 2"
  have window: "nit \<le> p \<and> p \<le> nit + nlen \<and> nit + nlen \<le> length xs"
  proof (cases "len = 0")
    case True
    with 1 show ?thesis by (auto simp: nit_def nlen_def mid_def)
  next
    case False
    then have "mid < length xs" using "1.prems" by (simp add: mid_def)
    then have "cmp (xs ! mid) item \<longleftrightarrow> mid < p" using "1.prems"(1) by (simp add: boundary_cmp)
    then show ?thesis using "1.prems" by (auto simp: nit_def nlen_def mid_def)
  qed
  show ?case
  proof (cases "nlen > 2")
    case True
    then have "search_loop_cmov cmp xs item nit nlen = (it', len')"
      using "1.prems"(5)
      by (simp add: search_loop_cmov.simps[of cmp xs item it len] nit_def nlen_def mid_def Let_def
          split: if_splits)
    with "1.IH"[OF mid_def nlen_def nit_def True "1.prems"(1)] window show ?thesis by blast
  next
    case False
    then have "it' = nit \<and> len' = nlen"
      using "1.prems"(5) by (simp add: search_loop_cmov.simps[of cmp xs item it len] nit_def nlen_def mid_def Let_def
          split: if_splits)
    with False window show ?thesis by simp
  qed
qed

lemma search_loop_branch_window:
  assumes "boundary cmp xs item p" "it \<le> p" "p \<le> it + len" "it + len \<le> length xs"
    and "search_loop_branch cmp xs item it len = (it', len')"
  shows "it' \<le> p \<and> p \<le> it' + len' \<and> it' + len' \<le> length xs \<and> len' \<le> 2"
  using assms
proof (induction cmp xs item it len rule: search_loop_branch.induct)
  case (1 cmp xs item it len)
  show ?case
  proof (cases "len > 2")
    case True
    define mid where "mid = it + len div 2"
    define nlen where "nlen = (len + 1) div 2"
    have "mid < length xs" using "1.prems" True by (simp add: mid_def)
    then have b: "cmp (xs ! mid) item \<longleftrightarrow> mid < p" using "1.prems"(1) by (simp add: boundary_cmp)
    show ?thesis
    proof (cases "cmp (xs ! mid) item")
      case c: True
      have "search_loop_branch cmp xs item (mid + 1) (nlen - 1) = (it', len')"
        using "1.prems"(5) True c
        by (simp add: search_loop_branch.simps[of cmp xs item it len] nlen_def mid_def)
      moreover have "mid + 1 \<le> p" "p \<le> mid + 1 + (nlen - 1)" "mid + 1 + (nlen - 1) \<le> length xs"
        using b c "1.prems" True by (auto simp: mid_def nlen_def)
      ultimately show ?thesis using "1.IH"(1)[OF True mid_def nlen_def c "1.prems"(1)] by blast
    next
      case c: False
      have "search_loop_branch cmp xs item it nlen = (it', len')"
        using "1.prems"(5) True c
        by (simp add: search_loop_branch.simps[of cmp xs item it len] nlen_def mid_def)
      moreover have "p \<le> it + nlen" "it + nlen \<le> length xs"
        using b c "1.prems" True by (auto simp: mid_def nlen_def)
      ultimately show ?thesis
        using "1.IH"(2)[OF True mid_def nlen_def c "1.prems"(1,2)] by blast
    qed
  next
    case False
    then show ?thesis using "1.prems" by (simp add: search_loop_branch.simps[of cmp xs item it len])
  qed
qed

lemma search_finish_boundary:
  assumes "boundary cmp xs item p" "it \<le> p" "p \<le> it + len" "it + len \<le> length xs" "len \<le> 2"
  shows "search_finish cmp xs item (it, len) = p"
proof -
  have c: "cmp (xs ! i) item \<longleftrightarrow> i < p" if "i < length xs" for i
    using assms(1) that by (rule boundary_cmp)
  consider "len = 0" | "len = 1" | "len = 2" using assms(5) by linarith
  then show ?thesis
  proof cases
    case 1
    then show ?thesis using assms by (simp add: search_finish_def)
  next
    case 2
    then have "it < length xs" using assms by simp
    then show ?thesis using 2 assms c[of it] by (auto simp: search_finish_def)
  next
    case 3
    then have "it < length xs" "it + 1 < length xs" using assms by simp_all
    then show ?thesis using 3 assms c[of it] c[of "it + 1"] by (auto simp: search_finish_def)
  qed
qed

text \<open>Both variants of the template return the boundary, whatever the comparison is.\<close>

lemma search_impl_boundary: "boundary cmp xs item p \<Longrightarrow> search_impl have_cmov cmp xs item = p"
proof -
  assume p: "boundary cmp xs item p"
  then have le: "p \<le> length xs" by (simp add: boundary_def)
  obtain i l where s: "(if have_cmov then search_loop_cmov cmp xs item 0 (length xs)
                        else search_loop_branch cmp xs item 0 (length xs)) = (i, l)"
    by (meson surj_pair)
  have "i \<le> p \<and> p \<le> i + l \<and> i + l \<le> length xs \<and> l \<le> 2"
    using search_loop_cmov_window[OF p, of 0 "length xs" i l]
      search_loop_branch_window[OF p, of 0 "length xs" i l] s le
    by (auto split: if_splits)
  then show ?thesis using s p by (simp add: search_impl_def search_finish_boundary)
qed

subsection \<open>The interface: an array ordered for a comparison\<close>

text \<open>
  What a client of the template provides: a comparison \<open>cmp\<close> of an entry with an item and the
  predicate \<open>ordered\<close> its arrays satisfy, under which the comparison is true on a prefix.
\<close>

locale search_order =
  fixes cmp :: "'a \<Rightarrow> 'b \<Rightarrow> bool"
    and ordered :: "'a list \<Rightarrow> bool"
  assumes prefix_closed: "ordered xs \<Longrightarrow> i < j \<Longrightarrow> j < length xs \<Longrightarrow> cmp (xs ! j) item \<Longrightarrow> cmp (xs ! i) item"
begin

lemma boundary_takeWhile:
  assumes "ordered xs"
  shows "boundary cmp xs item (length (takeWhile (\<lambda>x. cmp x item) xs))"
proof -
  let ?p = "length (takeWhile (\<lambda>x. cmp x item) xs)"
  have le: "?p \<le> length xs" by (rule length_takeWhile_le)
  have lo: "cmp (xs ! i) item" if "i < ?p" for i
    using that nth_mem[of i "takeWhile (\<lambda>x. cmp x item) xs"]
    by (auto simp: takeWhile_nth dest: set_takeWhileD)
  have hi: "\<not> cmp (xs ! i) item" if "?p \<le> i" "i < length xs" for i
  proof
    assume c: "cmp (xs ! i) item"
    have "\<not> cmp (xs ! ?p) item" using that by (intro nth_length_takeWhile) simp
    moreover have "cmp (xs ! ?p) item"
      using c that assms prefix_closed[of xs ?p i item] by (cases "?p = i") auto
    ultimately show False by simp
  qed
  show ?thesis using le lo hi by (simp add: boundary_def)
qed

lemma search_correct: "ordered xs \<Longrightarrow> search_impl have_cmov cmp xs item = length (takeWhile (\<lambda>x. cmp x item) xs)"
  by (rule search_impl_boundary) (rule boundary_takeWhile)

lemma search_le: "ordered xs \<Longrightarrow> search_impl have_cmov cmp xs item \<le> length xs"
  by (simp add: search_correct length_takeWhile_le)

lemma search_before:
  "ordered xs \<Longrightarrow> i < search_impl have_cmov cmp xs item \<Longrightarrow> cmp (xs ! i) item"
  using boundary_takeWhile[of xs item] by (simp add: search_correct boundary_def)

lemma search_after:
  "ordered xs \<Longrightarrow> search_impl have_cmov cmp xs item \<le> i \<Longrightarrow> i < length xs \<Longrightarrow> \<not> cmp (xs ! i) item"
  using boundary_takeWhile[of xs item] by (simp add: search_correct boundary_def)

lemma search_variants_agree:
  "ordered xs \<Longrightarrow> search_impl True cmp xs item = search_impl False cmp xs item"
  by (simp add: search_correct)

end

end
