(* ===== verification/Rkl.thy ===== *)
theory Rkl
  imports Search
begin

text \<open>
  The sorted set of transaction ids (\<^verbatim>\<open>rkl_t\<close> of \<^verbatim>\<open>src/libmdbx/mdbx.c\<close>): one continuous interval
  \<open>solid_begin ..< solid_end\<close> beside an ascending list of single ids. The garbage collector keeps the
  ids of the reclaimed records in it. The buffer behind \<^verbatim>\<open>list\<close> is \<open>cells\<close>, all of it
  (\<open>list_limit\<close> entries); its first \<open>list_length\<close> entries are the list. \<open>on_heap\<close> says whether
  \<^verbatim>\<open>list != inplace\<close>. The allocator is not code of the repository: it is the parameter \<open>alloc\<close>,
  which maps a size in bytes to the cells of the block it returns, or to \<open>None\<close> when it fails.
\<close>

subsection \<open>State\<close>

record rkl =
  solid_begin :: txnid
  solid_end :: txnid
  list_length :: nat
  list_limit :: nat
  cells :: "txnid list"
  on_heap :: bool

type_synonym allocator = "nat \<Rightarrow> txnid list option"

text \<open>Documented behaviour of \<^verbatim>\<open>malloc\<close>/\<^verbatim>\<open>realloc\<close>: a returned block holds at least the bytes asked for.\<close>

definition malloc_ok :: "allocator \<Rightarrow> bool" where
  "malloc_ok alloc \<longleftrightarrow> (\<forall>bytes blk. alloc bytes = Some blk \<longrightarrow> bytes div 8 \<le> length blk)"

definition rkl_inplace_size :: nat where "rkl_inplace_size = 4 + 8"
definition txl_granulate :: nat where "txl_granulate = 32"
definition malloc_overhead :: nat where "malloc_overhead = 16"
definition txl_max :: nat where "txl_max = 2 ^ 26 - 2 - malloc_overhead div 8"

definition rkl_size2bytes :: "nat \<Rightarrow> nat" where
  "rkl_size2bytes n = ceil_powerof2 (malloc_overhead + 8 * n) (txl_granulate * 8) - malloc_overhead"

definition rkl_bytes2size :: "nat \<Rightarrow> nat" where
  "rkl_bytes2size bytes = bytes div 8"

definition rkl_list :: "rkl \<Rightarrow> txnid list" where
  "rkl_list r = take (list_length r) (cells r)"

definition rkl_bsearch :: "txnid list \<Rightarrow> txnid \<Rightarrow> nat" where
  "rkl_bsearch xs item = search_impl True (<) xs item"

subsection \<open>Life cycle\<close>

definition rkl_clear :: "rkl \<Rightarrow> rkl" where
  "rkl_clear r = r\<lparr>solid_begin := UINT64_MAX, solid_end := 0, list_length := 0\<rparr>"

text \<open>\<open>inplace\<close> is the content of the embedded array, which \<^verbatim>\<open>rkl_init\<close> does not write.\<close>

definition rkl_init :: "txnid list \<Rightarrow> rkl" where
  "rkl_init inplace = rkl_clear
     \<lparr>solid_begin = 0, solid_end = 0, list_length = 0, list_limit = rkl_inplace_size,
      cells = inplace, on_heap = False\<rparr>"

definition rkl_clear_and_shrink :: "txnid list \<Rightarrow> rkl \<Rightarrow> rkl" where
  "rkl_clear_and_shrink inplace r =
     rkl_clear (if on_heap r
       then r\<lparr>list_limit := rkl_inplace_size, cells := inplace, on_heap := False\<rparr> else r)"

definition solid_empty :: "rkl \<Rightarrow> bool" where
  "solid_empty r \<longleftrightarrow> \<not> solid_begin r < solid_end r"

definition rkl_empty :: "rkl \<Rightarrow> bool" where
  "rkl_empty r \<longleftrightarrow> solid_begin r > solid_end r"

text \<open>
  \<^verbatim>\<open>rkl_destructive_move\<close>: the destination takes over the buffer of the source (a heap block) or a
  copy of it (the embedded array); the source is initialised again. The result is the pair
  (source, destination); \<open>inplace\<close> is the embedded array of the source.
\<close>

definition rkl_destructive_move :: "txnid list \<Rightarrow> rkl \<Rightarrow> rkl \<times> rkl" where
  "rkl_destructive_move inplace src =
     (rkl_init inplace,
      \<lparr>solid_begin = solid_begin src, solid_end = solid_end src, list_length = list_length src,
       list_limit = (if on_heap src then list_limit src else rkl_inplace_size),
       cells = cells src, on_heap = on_heap src\<rparr>)"

text \<open>
  \<^verbatim>\<open>rkl_resize\<close>: the new block starts with the old cells (\<^verbatim>\<open>realloc\<close>, or \<^verbatim>\<open>memcpy\<close> from the
  embedded array), the rest of it is what the allocator left there.
\<close>

definition rkl_resize :: "allocator \<Rightarrow> rkl \<Rightarrow> nat \<Rightarrow> rc \<times> rkl" where
  "rkl_resize alloc r wanna_size =
     (if wanna_size > txl_max then (MDBX_TXN_FULL, r)
      else if wanna_size < list_length r then (MDBX_PROBLEM, r)
      else if wanna_size \<le> rkl_inplace_size then
        (if on_heap r
         then (MDBX_SUCCESS, r\<lparr>cells := take rkl_inplace_size (cells r),
                               list_limit := rkl_inplace_size, on_heap := False\<rparr>)
         else (MDBX_SUCCESS, r))
      else if wanna_size \<noteq> list_limit r then
        (case alloc (rkl_size2bytes wanna_size) of
           None \<Rightarrow> (MDBX_ENOMEM, r)
         | Some blk \<Rightarrow>
             (MDBX_SUCCESS, r\<lparr>list_limit := rkl_bytes2size (8 * length blk),
                              cells := take (length blk) (cells r) @ drop (length (cells r)) blk,
                              on_heap := True\<rparr>))
      else (MDBX_SUCCESS, r))"

definition rkl_reserve :: "allocator \<Rightarrow> rkl \<Rightarrow> nat \<Rightarrow> rc \<times> rkl" where
  "rkl_reserve alloc r wanna_size =
     (if wanna_size > list_limit r then rkl_resize alloc r wanna_size else (MDBX_SUCCESS, r))"

definition rkl_copy :: "allocator \<Rightarrow> txnid list \<Rightarrow> rkl \<Rightarrow> rc \<times> rkl" where
  "rkl_copy alloc inplace src =
     (let dst = rkl_init inplace in
      if rkl_empty src then (MDBX_SUCCESS, dst)
      else
        let (err, dst) = (if list_limit dst < list_length src
                          then rkl_resize alloc dst (list_limit src) else (MDBX_SUCCESS, dst))
        in if err \<noteq> MDBX_SUCCESS then (err, dst)
           else (MDBX_SUCCESS,
             dst\<lparr>cells := take (list_length src) (cells src) @ drop (list_length src) (cells dst),
                 list_length := list_length src,
                 solid_begin := solid_begin src, solid_end := solid_end src\<rparr>))"

subsection \<open>Queries\<close>

definition rkl_len :: "rkl \<Rightarrow> nat" where
  "rkl_len r = (if rkl_empty r then 0 else solid_end r - solid_begin r + list_length r)"

definition rkl_contain :: "rkl \<Rightarrow> txnid \<Rightarrow> bool" where
  "rkl_contain r k =
     (if k \<ge> solid_begin r \<and> k < solid_end r then True
      else if list_length r > 0 then
        (let it = rkl_bsearch (rkl_list r) k in
         if it \<noteq> list_length r then cells r ! it = k else False)
      else False)"

definition rkl_lowest :: "rkl \<Rightarrow> txnid" where
  "rkl_lowest r =
     (if list_length r > 0
      then (if solid_empty r \<or> cells r ! 0 < solid_begin r then cells r ! 0 else solid_begin r)
      else if \<not> solid_empty r then solid_begin r else INVALID_TXNID)"

definition rkl_highest :: "rkl \<Rightarrow> txnid" where
  "rkl_highest r =
     (if list_length r > 0
      then (if solid_empty r \<or> cells r ! (list_length r - 1) \<ge> solid_end r
            then cells r ! (list_length r - 1) else solid_end r - 1)
      else if \<not> solid_empty r then solid_end r - 1 else 0)"

definition rkl_edge :: "rkl \<Rightarrow> bool \<Rightarrow> txnid" where
  "rkl_edge r highest_not_lowest = (if highest_not_lowest then rkl_highest r else rkl_lowest r)"

subsection \<open>Adding an id\<close>

text \<open>The two scans of \<^verbatim>\<open>extend_solid\<close>; \<open>None\<close> is its early return of \<^verbatim>\<open>MDBX_RESULT_TRUE\<close>.\<close>

fun extend_down :: "txnid list \<Rightarrow> nat \<Rightarrow> txnid \<Rightarrow> (nat \<times> txnid) option" where
  "extend_down l 0 sb = Some (0, sb)"
| "extend_down l (Suc f) sb =
     (if l ! f \<ge> dec64 sb
      then (if l ! f \<noteq> dec64 sb then None else extend_down l f (dec64 sb))
      else Some (Suc f, sb))"

function extend_up :: "txnid list \<Rightarrow> nat \<Rightarrow> nat \<Rightarrow> txnid \<Rightarrow> (nat \<times> txnid) option" where
  "extend_up l len t se =
     (if t < len \<and> l ! t \<le> se
      then (if l ! t \<noteq> se then None else extend_up l len (t + 1) (se + 1))
      else Some (t, se))"
  by pat_completeness auto
termination
  by (relation "measure (\<lambda>(l, len, t, se). len - t)") auto

declare extend_up.simps [simp del]

definition extend_solid :: "rkl \<Rightarrow> txnid \<Rightarrow> txnid \<Rightarrow> txnid \<Rightarrow> rc \<times> rkl" where
  "extend_solid r sb se k =
     (if list_length r > 0 then
        let i = rkl_bsearch (rkl_list r) k in
        (case extend_down (cells r) i sb of
           None \<Rightarrow> (MDBX_RESULT_TRUE, r)
         | Some (f, sb') \<Rightarrow>
             (case extend_up (cells r) (list_length r) i se of
                None \<Rightarrow> (MDBX_RESULT_TRUE, r)
              | Some (t, se') \<Rightarrow>
                  (MDBX_SUCCESS,
                   (if f < t
                    then r\<lparr>cells := copy_fwd (cells r) f t (list_length r - t),
                           list_length := list_length r - (t - f)\<rparr>
                    else r)\<lparr>solid_begin := sb', solid_end := se'\<rparr>)))
      else (MDBX_SUCCESS, r\<lparr>solid_begin := sb, solid_end := se\<rparr>))"

text \<open>The insertion loop: shifts the greater entries up; the flag says that it met the id itself.\<close>

fun insert_shift :: "txnid list \<Rightarrow> txnid \<Rightarrow> nat \<Rightarrow> txnid list \<times> nat \<times> bool" where
  "insert_shift l k 0 = (l, 0, False)"
| "insert_shift l k (Suc i) =
     (if k < l ! i then insert_shift (l[Suc i := l ! i]) k i
      else (l, Suc i, k = l ! i))"

fun run_down :: "txnid list \<Rightarrow> nat \<Rightarrow> txnid \<Rightarrow> nat \<times> txnid" where
  "run_down l 0 b = (0, b)"
| "run_down l (Suc from) b =
     (if l ! from = dec64 b then run_down l from (dec64 b) else (Suc from, b))"

function run_up :: "txnid list \<Rightarrow> nat \<Rightarrow> nat \<Rightarrow> txnid \<Rightarrow> nat \<times> txnid" where
  "run_up l len to e = (if to < len \<and> l ! to = e then run_up l len (to + 1) (e + 1) else (to, e))"
  by pat_completeness auto
termination
  by (relation "measure (\<lambda>(l, len, to, e). len - to)") auto

declare run_up.simps [simp del]

text \<open>
  The exchange of a run that grew inside the list (entries \<open>from ..< to\<close>) with the interval:
  the elements between the two places move, the interval is written out, the tail moves down.
\<close>

definition swap_cells :: "txnid list \<Rightarrow> nat \<Rightarrow> nat \<Rightarrow> nat \<Rightarrow> nat \<Rightarrow> txnid \<Rightarrow> nat \<Rightarrow> txnid list" where
  "swap_cells l len from to old_solid_pos sb old_solid_len =
     (let new_solid_len = to - from in
      if from > old_solid_pos then
        let moved = from - old_solid_pos;
            l = copy_bwd l (old_solid_pos + old_solid_len) old_solid_pos moved;
            l = write_run l old_solid_pos sb old_solid_len;
            from = old_solid_pos + old_solid_len
        in copy_fwd l (moved + from) to (len - to)
      else
        let n = (if from + new_solid_len < old_solid_pos then old_solid_pos - new_solid_len - from else 0);
            l = copy_fwd l from to n;
            from = from + n;
            to = to + n;
            l = write_run l from sb old_solid_len;
            from = from + old_solid_len
        in copy_fwd l from to (len - to))"

definition swap_solid :: "rkl \<Rightarrow> nat \<Rightarrow> txnid \<Rightarrow> rkl" where
  "swap_solid r i k =
     (if list_length r > 16 \<and>
         (i > 0 \<and> cells r ! (i - 1) = dec64 k \<or>
          i + 1 < list_length r \<and> cells r ! (i + 1) = k + 1)
      then
        let (from, new_begin) = run_down (cells r) i k;
            (to, new_end) = run_up (cells r) (list_length r) (i + 1) (k + 1);
            new_solid_len = to - from;
            old_solid_len = solid_end r - solid_begin r
        in if new_solid_len > 3 \<and> new_solid_len > old_solid_len then
             let old_solid_pos = rkl_bsearch (rkl_list r) (solid_begin r);
                 swap_cost = list_length r - to
                   + (if from > old_solid_pos then from - old_solid_pos else 0) + old_solid_len;
                 new_insert_cost = list_length r - i
             in if swap_cost < new_insert_cost then
                  r\<lparr>cells := swap_cells (cells r) (list_length r) from to old_solid_pos
                               (solid_begin r) old_solid_len,
                    list_length := list_length r - new_solid_len + old_solid_len,
                    solid_begin := new_begin, solid_end := new_end\<rparr>
                else r
           else r
      else r)"

definition grow_size :: "rkl \<Rightarrow> nat" where
  "grow_size r =
     (let x2 = (list_limit r + 1) * 2;
          x2 = (if x2 > 62 then x2 else 62);
          x2 = (if x2 < txl_max then x2 else txl_max)
      in if x2 > list_length r then x2 else list_length r + 42)"

definition push_list :: "allocator \<Rightarrow> rkl \<Rightarrow> txnid \<Rightarrow> rc \<times> rkl" where
  "push_list alloc r k =
     (if list_length r = 1 \<and> solid_end r = solid_begin r + 1 \<and>
         (cells r ! 0 = k + 1 \<or> cells r ! 0 = dec64 k)
      then
        let couple = (if cells r ! 0 = dec64 k then dec64 k else k)
        in (MDBX_SUCCESS, r\<lparr>cells := (cells r)[0 := solid_begin r],
                           solid_begin := couple, solid_end := couple + 2\<rparr>)
      else
        let (err, r) = (if list_length r = list_limit r then rkl_resize alloc r (grow_size r)
                        else (MDBX_SUCCESS, r))
        in if err \<noteq> MDBX_SUCCESS then (err, r)
           else
             let (l, i, dup) = insert_shift (cells r) k (list_length r) in
             if dup then
               (MDBX_RESULT_TRUE, r\<lparr>cells := copy_fwd l i (i + 1) (list_length r - 1 - i)\<rparr>)
             else
               (MDBX_SUCCESS,
                swap_solid (r\<lparr>cells := l[i := k], list_length := list_length r + 1\<rparr>) i k))"

definition rkl_push :: "allocator \<Rightarrow> rkl \<Rightarrow> txnid \<Rightarrow> rc \<times> rkl" where
  "rkl_push alloc r k =
     (if solid_begin r \<ge> solid_end r then extend_solid r k (k + 1) k
      else if k < solid_begin r then
        (if k + 1 = solid_begin r then extend_solid r k (solid_end r) k else push_list alloc r k)
      else if k \<ge> solid_end r then
        (if k = solid_end r then extend_solid r (solid_begin r) (k + 1) k else push_list alloc r k)
      else (MDBX_RESULT_TRUE, r))"

subsection \<open>Removing an edge\<close>

definition list_remove_first :: "rkl \<Rightarrow> txnid \<times> rkl" where
  "list_remove_first r =
     (cells r ! 0, r\<lparr>list_length := list_length r - 1,
                     cells := copy_fwd (cells r) 0 1 (list_length r - 1)\<rparr>)"

definition after_cut :: "rkl \<Rightarrow> rkl" where
  "after_cut r =
     (if list_length r = 0 \<and> solid_begin r = solid_end r
      then r\<lparr>solid_end := 0, solid_begin := UINT64_MAX\<rparr> else r)"

definition rkl_pop_solid :: "rkl \<Rightarrow> bool \<Rightarrow> txnid \<times> rkl" where
  "rkl_pop_solid r highest_not_lowest =
     (if \<not> solid_empty r then
        (if highest_not_lowest
         then (solid_end r - 1, after_cut (r\<lparr>solid_end := solid_end r - 1\<rparr>))
         else (solid_begin r, after_cut (r\<lparr>solid_begin := solid_begin r + 1\<rparr>)))
      else (0, r))"

definition rkl_pop :: "rkl \<Rightarrow> bool \<Rightarrow> txnid \<times> rkl" where
  "rkl_pop r highest_not_lowest =
     (if list_length r > 0 \<and> highest_not_lowest \<and>
         (solid_empty r \<or> solid_end r < cells r ! (list_length r - 1))
      then (cells r ! (list_length r - 1), after_cut (r\<lparr>list_length := list_length r - 1\<rparr>))
      else if list_length r > 0 \<and> \<not> highest_not_lowest \<and>
         (solid_empty r \<or> solid_begin r > cells r ! 0)
      then (let (first, r) = list_remove_first r in (first, after_cut r))
      else rkl_pop_solid r highest_not_lowest)"

subsection \<open>Merging\<close>

text \<open>Pushes the ids in turn; a duplicate is passed over when \<open>ign\<close>, any other code stops the loop.\<close>

fun push_all :: "('s \<Rightarrow> txnid \<Rightarrow> rc \<times> 's) \<Rightarrow> bool \<Rightarrow> txnid list \<Rightarrow> 's \<Rightarrow> rc \<times> 's" where
  "push_all push ign [] dst = (MDBX_SUCCESS, dst)"
| "push_all push ign (k # ids) dst =
     (let (err, dst) = push dst k in
      if err \<noteq> MDBX_SUCCESS \<and> (\<not> ign \<or> err \<noteq> MDBX_RESULT_TRUE) then (err, dst)
      else push_all push ign ids dst)"

definition rkl_merge :: "allocator \<Rightarrow> rkl \<Rightarrow> rkl \<Rightarrow> bool \<Rightarrow> rc \<times> rkl" where
  "rkl_merge alloc src dst ignore_duplicates =
     (let (err, dst) = push_all (rkl_push alloc) ignore_duplicates (rev (rkl_list src)) dst in
      if err \<noteq> MDBX_SUCCESS then (err, dst)
      else push_all (rkl_push alloc) ignore_duplicates [solid_begin src ..< solid_end src] dst)"

subsection \<open>Iterators\<close>

text \<open>
  \<^verbatim>\<open>rkl_iter_t\<close> without its pointer to the set, which every operation gets as \<open>r\<close>. The fields are
  32-bit: a step back from position 0 wraps to \<^verbatim>\<open>UINT_MAX\<close>, which is then beyond the length.
\<close>

record rkl_iter =
  pos :: nat
  solid_offset :: nat

definition rkl_iterator :: "rkl \<Rightarrow> bool \<Rightarrow> rkl_iter" where
  "rkl_iterator r reverse =
     \<lparr>pos = (if reverse then rkl_len r else 0),
      solid_offset = (if \<not> solid_empty r \<and> list_length r > 0
                      then rkl_bsearch (rkl_list r) (solid_begin r) else 0)\<rparr>"

definition rkl_find :: "rkl \<Rightarrow> txnid \<Rightarrow> bool \<times> rkl_iter" where
  "rkl_find r k =
     (let iter = rkl_iterator r False in
      if k \<ge> solid_begin r \<and> k < solid_end r
      then (True, iter\<lparr>pos := solid_offset iter + (k - solid_begin r)\<rparr>)
      else
        let iter = (if k \<ge> solid_begin r then iter\<lparr>pos := sub64 (solid_end r) (solid_begin r) mod 2 ^ 32\<rparr> else iter)
        in if list_length r > 0 then
             let it = rkl_bsearch (rkl_list r) k;
                 iter = iter\<lparr>pos := pos iter + it\<rparr>
             in (if it \<noteq> list_length r then cells r ! it = k else False, iter)
           else (False, iter))"

text \<open>
  Positions are \<^verbatim>\<open>unsigned\<close> in the code; \<open>rkl_turn\<close> and \<open>rkl_hole\<close> store them without the wrap, which is the same
  for a set of less than \<open>2 ^ 32\<close> ids.
\<close>

definition rkl_turn :: "rkl \<Rightarrow> rkl_iter \<Rightarrow> bool \<Rightarrow> txnid \<times> rkl_iter" where
  "rkl_turn r iter reverse =
     (let p = (if reverse then sub32 (pos iter) 1 else pos iter) in
      if p \<ge> rkl_len r then (0, iter)
      else
        let iter' = iter\<lparr>pos := (if reverse then p else p + 1)\<rparr>;
            solid_len = solid_end r - solid_begin r
        in if list_length r > 0 then
             (if p < solid_offset iter then cells r ! p
              else if p < solid_offset iter + solid_len then solid_begin r + p - solid_offset iter
              else cells r ! (p - solid_len), iter')
           else (solid_begin r + p, iter'))"

definition rkl_left :: "rkl \<Rightarrow> rkl_iter \<Rightarrow> bool \<Rightarrow> nat" where
  "rkl_left r iter reverse = (if reverse then pos iter else rkl_len r - pos iter)"

text \<open>
  One round of the loop of \<^verbatim>\<open>rkl_hole\<close>: it returns a hole with the new position, or reaches the edge
  of the set with the id it stands at (\<^verbatim>\<open>here\<close>), or goes on from \<^verbatim>\<open>next\<close>. A hole is
  \<open>(begin, end)\<close>, the ids \<open>begin ..< end\<close>.
\<close>

datatype hole_step = Hole "txnid \<times> txnid" nat | Edge txnid | Next nat

definition hole_step :: "rkl \<Rightarrow> nat \<Rightarrow> bool \<Rightarrow> nat \<Rightarrow> hole_step" where
  "hole_step r off reverse p =
     (let len = rkl_len r;
          solid_len = solid_end r - solid_begin r;
          nxt = (if reverse then sub64 p 1 else p + 1);
          judge = (\<lambda>here there nxt.
            let hb = (if reverse then there else here) + 1;
                he = (if reverse then here else there)
            in if hb < he then Hole (hb, he) nxt else Next nxt)
      in if p < off then
           (let here = cells r ! p in
            if nxt = off then Hole (here + 1, solid_begin r) (nxt + solid_len - 1)
            else if nxt \<ge> len then Edge here
            else judge here (cells r ! nxt) nxt)
         else if p \<ge> off + solid_len then
           (let here = (if p < len then cells r ! (p - solid_len) else MAX_TXNID) in
            if nxt \<ge> len then Edge here
            else if nxt + 1 = off + solid_len then Hole (solid_end r, here) off
            else judge here (cells r ! (nxt - solid_len)) nxt)
         else if reverse then
           (let nxt = sub32 off 1; here = solid_begin r in
            if nxt \<ge> len then Edge here else judge here (cells r ! nxt) nxt)
         else
           (let nxt = off + solid_len; here = solid_end r - 1 in
            if nxt \<ge> len then Edge here else judge here (cells r ! (nxt - solid_len)) nxt))"

text \<open>The loop; \<open>None\<close> when the fuel runs out.\<close>

fun hole_loop :: "rkl \<Rightarrow> nat \<Rightarrow> bool \<Rightarrow> nat \<Rightarrow> nat \<Rightarrow> ((txnid \<times> txnid) \<times> nat) option" where
  "hole_loop r off reverse 0 p = None"
| "hole_loop r off reverse (Suc fuel) p =
     (case hole_step r off reverse p of
        Hole h p' \<Rightarrow> Some (h, p')
      | Edge here \<Rightarrow> Some (if reverse then ((1, here), 0) else ((here + 1, MAX_TXNID), rkl_len r))
      | Next p' \<Rightarrow> hole_loop r off reverse fuel p')"

definition rkl_hole :: "rkl \<Rightarrow> rkl_iter \<Rightarrow> bool \<Rightarrow> ((txnid \<times> txnid) \<times> rkl_iter) option" where
  "rkl_hole r iter reverse =
     (let len = rkl_len r; p = pos iter in
      if p \<ge> len \<and> len = 0 then Some ((1, MAX_TXNID), iter\<lparr>pos := 0\<rparr>)
      else if p \<ge> len \<and> \<not> (p = len \<and> reverse) then
        (if reverse then Some ((1, 1), iter\<lparr>pos := 0\<rparr>)
         else Some ((MAX_TXNID, MAX_TXNID), iter\<lparr>pos := len\<rparr>))
      else if list_length r > 0 then
        map_option (\<lambda>(h, p'). (h, iter\<lparr>pos := p'\<rparr>)) (hole_loop r (solid_offset iter) reverse (len + 1) p)
      else if reverse \<and> p < len then Some ((1, solid_begin r), iter\<lparr>pos := 0\<rparr>)
      else Some ((solid_end r, MAX_TXNID), iter\<lparr>pos := if reverse then 0 else len\<rparr>))"

subsection \<open>The code's own check\<close>

definition rkl_check :: "rkl \<Rightarrow> bool" where
  "rkl_check r =
     (if \<not> on_heap r \<and> list_limit r \<noteq> rkl_inplace_size then False
      else if list_limit r < rkl_inplace_size then False
      else if rkl_empty r then list_length r = 0 \<and> solid_empty r
      else if list_length r > 0 then
        list_all (\<lambda>i. cells r ! (i - 1) < cells r ! i) [1 ..< list_length r] \<and>
        (if \<not> solid_empty r \<and> dec64 (solid_begin r) \<le> cells r ! (list_length r - 1) \<and>
            solid_end r \<ge> cells r ! 0
         then let it = rkl_bsearch (rkl_list r) (solid_begin r) in
           \<not> (it > 0 \<and> cells r ! (it - 1) \<ge> solid_begin r) \<and>
           \<not> (it < list_length r \<and> cells r ! it \<le> solid_end r)
         else True)
      else True)"

end
