(* ===== verification/Rkl_Set.thy ===== *)
theory Rkl_Set
  imports Rkl
begin

text \<open>
  Correctness of the txnid sets of \<open>Rkl\<close>: the set a state stands for (\<open>rkl_set\<close>), the invariant
  \<open>rkl_inv\<close> (buffer, order, ids in range, interval and list apart) and what each operation does to
  the set, on every branch.
\<close>

subsection \<open>Searching the list, scanning for neighbours\<close>

interpretation rkl_order: search_order "(<) :: nat \<Rightarrow> nat \<Rightarrow> bool" "sorted_wrt (<)"
  by unfold_locales (metis order_less_trans sorted_wrt_less_nth)

lemma rkl_bsearch_le: "sorted_wrt (<) L \<Longrightarrow> rkl_bsearch L k \<le> length L"
  unfolding rkl_bsearch_def by (rule rkl_order.search_le)

lemma rkl_bsearch_before: "sorted_wrt (<) L \<Longrightarrow> i < rkl_bsearch L k \<Longrightarrow> L ! i < k"
  unfolding rkl_bsearch_def by (rule rkl_order.search_before)

lemma rkl_bsearch_after: "sorted_wrt (<) L \<Longrightarrow> rkl_bsearch L k \<le> i \<Longrightarrow> i < length L \<Longrightarrow> k \<le> L ! i"
  unfolding rkl_bsearch_def using rkl_order.search_after[of L True k i] by simp

lemma rkl_bsearch_mem:
  assumes "sorted_wrt (<) L"
  shows "k \<in> set L \<longleftrightarrow> rkl_bsearch L k < length L \<and> L ! rkl_bsearch L k = k"
proof
  assume "k \<in> set L"
  then obtain j where j: "j < length L" "L ! j = k" by (auto simp: in_set_conv_nth)
  let ?p = "rkl_bsearch L k"
  have "?p \<le> j" using rkl_bsearch_before[OF assms, of j k] j by (meson not_le less_irrefl)
  then have "?p < length L" using j by simp
  moreover have "k \<le> L ! ?p" using rkl_bsearch_after[OF assms] calculation by simp
  moreover have "L ! ?p \<le> k" using sorted_wrt_less_nth[OF assms, of ?p j] j \<open>?p \<le> j\<close>
    by (cases "?p = j") auto
  ultimately show "?p < length L \<and> L ! ?p = k" by simp
next
  assume "rkl_bsearch L k < length L \<and> L ! rkl_bsearch L k = k"
  then show "k \<in> set L" by (metis nth_mem)
qed

lemma extend_down_spec:
  assumes "\<And>i j. i < j \<Longrightarrow> j < f \<Longrightarrow> l ! i < l ! j" "\<And>j. j < f \<Longrightarrow> l ! j < sb" "\<And>j. j < f \<Longrightarrow> 0 < l ! j" 
  shows "\<exists>f' \<le> f. f - f' \<le> sb \<and> extend_down l f sb = Some (f', sb - (f - f')) \<and>
           (\<forall>j. f' \<le> j \<and> j < f \<longrightarrow> l ! j = sb - (f - j)) \<and>
           (\<forall>j < f'. l ! j + 1 < sb - (f - f'))"
  using assms
proof (induction f arbitrary: sb)
  case 0
  then show ?case by simp
next
  case (Suc f)
  have sb: "0 < sb" "l ! f < sb" "0 < l ! f" using Suc.prems(2)[of f] Suc.prems(3)[of f] by auto
  show ?case
  proof (cases "l ! f \<ge> dec64 sb")
    case True
    then have eq: "l ! f = sb - 1" using sb by simp
    have below: "\<And>j. j < f \<Longrightarrow> l ! j < sb - 1" using Suc.prems(1)[of _ f] eq by auto
    obtain f' where f': "f' \<le> f" "f - f' \<le> sb - 1" "extend_down l f (sb - 1) = Some (f', sb - 1 - (f - f'))"
        "\<forall>j. f' \<le> j \<and> j < f \<longrightarrow> l ! j = sb - 1 - (f - j)" "\<forall>j < f'. l ! j + 1 < sb - 1 - (f - f')"
      using Suc.IH[of "sb - 1"] Suc.prems below by (metis less_SucI)
    have "sb - 1 - (f - f') = sb - (Suc f - f')" using f'(1) by (simp add: Suc_diff_le)
    moreover have "\<forall>j. f' \<le> j \<and> j < Suc f \<longrightarrow> l ! j = sb - (Suc f - j)"
      using f'(4) eq by (auto simp: less_Suc_eq Suc_diff_le)
    ultimately show ?thesis using f' True eq sb
      by (intro exI[of _ f']) (auto simp: Suc_diff_le)
  next
    case False
    then have "l ! f + 1 < sb" using sb by simp
    moreover have "\<forall>j < f. l ! j < l ! f" using Suc.prems(1) by simp
    ultimately have "\<forall>j < Suc f. l ! j + 1 < sb" by (auto simp: less_Suc_eq intro: order_less_trans)
    with False show ?thesis by (intro exI[of _ "Suc f"]) auto
  qed
qed

lemma extend_up_spec:
  assumes "\<And>i j. t \<le> i \<Longrightarrow> i < j \<Longrightarrow> j < len \<Longrightarrow> l ! i < l ! j" "\<And>j. t \<le> j \<Longrightarrow> j < len \<Longrightarrow> se \<le> l ! j" "t \<le> len"
  shows "\<exists>t'. t \<le> t' \<and> t' \<le> len \<and> extend_up l len t se = Some (t', se + (t' - t)) \<and>
           (\<forall>j. t \<le> j \<and> j < t' \<longrightarrow> l ! j = se + (j - t)) \<and>
           (\<forall>j. t' \<le> j \<and> j < len \<longrightarrow> se + (t' - t) < l ! j)"
  using assms
proof (induction l len t se rule: extend_up.induct)
  case (1 l len t se)
  show ?case
  proof (cases "t < len \<and> l ! t \<le> se")
    case True
    then have eq: "l ! t = se" using "1.prems"(2)[of t] by simp
    have up: "\<And>j. t + 1 \<le> j \<Longrightarrow> j < len \<Longrightarrow> se + 1 \<le> l ! j"
      using "1.prems"(1)[of t] eq by (metis Suc_eq_plus1 Suc_le_eq order_refl)
    obtain t' where t': "t + 1 \<le> t'" "t' \<le> len" "extend_up l len (t + 1) (se + 1) = Some (t', se + 1 + (t' - (t + 1)))"
        "\<forall>j. t + 1 \<le> j \<and> j < t' \<longrightarrow> l ! j = se + 1 + (j - (t + 1))"
        "\<forall>j. t' \<le> j \<and> j < len \<longrightarrow> se + 1 + (t' - (t + 1)) < l ! j"
      using "1.IH"[OF True] eq "1.prems"(1) up True by (auto simp: Suc_le_eq)
    have "se + 1 + (t' - (t + 1)) = se + (t' - t)" using t'(1) by simp
    moreover have "\<forall>j. t \<le> j \<and> j < t' \<longrightarrow> l ! j = se + (j - t)"
    proof (intro allI impI)
      fix j assume j: "t \<le> j \<and> j < t'"
      show "l ! j = se + (j - t)"
      proof (cases "j = t")
        case False
        then have "t + 1 \<le> j" using j by simp
        then show ?thesis using t'(4) j by simp
      qed (use eq in simp)
    qed
    ultimately show ?thesis using t' True eq
      by (intro exI[of _ t']) (auto simp: extend_up.simps[of l len t se])
  next
    case False
    have "\<forall>j. t \<le> j \<and> j < len \<longrightarrow> se < l ! j"
    proof (intro allI impI)
      fix j assume j: "t \<le> j \<and> j < len"
      then have "se < l ! t" using False by auto
      then show "se < l ! j" using j "1.prems"(1)[of t j] by (cases "t = j") auto
    qed
    with False "1.prems" show ?thesis
      by (intro exI[of _ t]) (auto simp: extend_up.simps[of l len t se])
  qed
qed

lemma extend_up_dup: "t < len \<Longrightarrow> l ! t < se \<Longrightarrow> extend_up l len t se = None"
  by (simp add: extend_up.simps[of l len t se])

subsection \<open>The set, the invariant, and growing the interval\<close>

definition rkl_set :: "rkl \<Rightarrow> txnid set" where
  "rkl_set r = {solid_begin r ..< solid_end r} \<union> set (rkl_list r)"

definition rkl_buf :: "rkl \<Rightarrow> bool" where
  "rkl_buf r \<longleftrightarrow> length (cells r) = list_limit r \<and> list_length r \<le> list_limit r \<and>
     rkl_inplace_size \<le> list_limit r \<and> (\<not> on_heap r \<longrightarrow> list_limit r = rkl_inplace_size)"

definition apart :: "txnid \<Rightarrow> txnid \<Rightarrow> txnid list \<Rightarrow> bool" where
  "apart sb se L \<longleftrightarrow> (\<forall>x \<in> set L. x + 1 < sb \<or> se < x)"

definition rkl_inv :: "rkl \<Rightarrow> bool" where
  "rkl_inv r \<longleftrightarrow> rkl_buf r \<and> sorted_wrt (<) (rkl_list r) \<and>
     (\<forall>x \<in> rkl_set r. MIN_TXNID \<le> x \<and> x < INVALID_TXNID) \<and>
     (if solid_begin r < solid_end r then apart (solid_begin r) (solid_end r) (rkl_list r)
      else if list_length r = 0 then solid_begin r = UINT64_MAX \<and> solid_end r = 0
      else solid_begin r = solid_end r)"

lemma length_rkl_list [simp]: "rkl_buf r \<Longrightarrow> length (rkl_list r) = list_length r"
  by (simp add: rkl_list_def rkl_buf_def)

lemma nth_rkl_list: "rkl_buf r \<Longrightarrow> i < list_length r \<Longrightarrow> rkl_list r ! i = cells r ! i"
  by (simp add: rkl_list_def rkl_buf_def)

lemma set_split4:
  assumes "f \<le> i" "i \<le> t" "t \<le> length L"
    and "\<And>j. f \<le> j \<Longrightarrow> j < i \<Longrightarrow> L ! j = b - (i - j)" "i - f \<le> b"
    and "\<And>j. i \<le> j \<Longrightarrow> j < t \<Longrightarrow> L ! j = e + (j - i)"
  shows "set L = set (take f L @ drop t L) \<union> {b - (i - f) ..< b} \<union> {e ..< e + (t - i)}" (is "_ = ?R")
proof (intro equalityI subsetI)
  fix x assume "x \<in> set L"
  then obtain j where j: "j < length L" "x = L ! j" by (auto simp: in_set_conv_nth)
  consider "j < f" | "f \<le> j" "j < i" | "i \<le> j" "j < t" | "t \<le> j" by linarith
  then show "x \<in> ?R"
  proof cases
    case 1
    then have "x \<in> set (take f L)" using j by (auto simp: in_set_conv_nth intro!: exI[of _ j])
    then show ?thesis by simp
  next
    case 2
    then show ?thesis using assms(4)[of j] assms(5) j by auto
  next
    case 3
    then show ?thesis using assms(6)[of j] j by auto
  next
    case 4
    then have "x \<in> set (drop t L)" using j by (auto simp: in_set_conv_nth intro!: exI[of _ "j - t"])
    then show ?thesis by simp
  qed
next
  fix x assume "x \<in> ?R"
  then consider "x \<in> set (take f L)" | "x \<in> set (drop t L)" | "b - (i - f) \<le> x" "x < b" | "e \<le> x" "x < e + (t - i)"
    by auto
  then show "x \<in> set L"
  proof cases
    case 3
    then have "L ! (i - (b - x)) = x" "i - (b - x) < length L" using assms(1,2,3,5) assms(4)[of "i - (b - x)"] by auto
    then show ?thesis by (metis nth_mem)
  next
    case 4
    then have "L ! (i + (x - e)) = x" "i + (x - e) < length L" using assms(2,3) assms(6)[of "i + (x - e)"] by auto
    then show ?thesis by (metis nth_mem)
  qed (auto dest: in_set_takeD in_set_dropD)
qed

lemma ivl_extend:
  "b < e \<Longrightarrow> {b - m ..< e + n} = {b ..< e} \<union> {b - m ..< b} \<union> {e ..< e + n}" for b e m n :: nat
  by auto

lemma extend_solid_ok:
  assumes buf: "rkl_buf r" and so: "sorted_wrt (<) (rkl_list r)"
    and pos: "\<forall>x \<in> set (rkl_list r). 0 < x"
    and iv: "0 < sb" "sb < se"
    and below: "\<And>x. x \<in> set (rkl_list r) \<Longrightarrow> x < k \<Longrightarrow> x < sb"
    and above: "\<And>x. x \<in> set (rkl_list r) \<Longrightarrow> k \<le> x \<Longrightarrow> se \<le> x"
  shows "\<exists>r'. extend_solid r sb se k = (MDBX_SUCCESS, r') \<and> rkl_buf r' \<and> list_limit r' = list_limit r \<and>
           sorted_wrt (<) (rkl_list r') \<and> solid_begin r' < solid_end r' \<and>
           apart (solid_begin r') (solid_end r') (rkl_list r') \<and>
           rkl_set r' = {sb ..< se} \<union> set (rkl_list r)"
proof (cases "list_length r > 0")
  case False
  then have "rkl_list r = []" by (simp add: rkl_list_def)
  moreover have "rkl_list (r\<lparr>solid_begin := sb, solid_end := se\<rparr>) = []" using False by (simp add: rkl_list_def)
  ultimately show ?thesis using False buf iv
    by (simp add: extend_solid_def rkl_buf_def apart_def rkl_set_def)
next
  case True
  let ?L = "rkl_list r" and ?n = "list_length r"
  define i where "i = rkl_bsearch ?L k"
  have len: "length ?L = ?n" using buf by simp
  have nth: "\<And>j. j < ?n \<Longrightarrow> cells r ! j = ?L ! j" using buf by (simp add: nth_rkl_list)
  have il: "i \<le> ?n" using rkl_bsearch_le[OF so, of k] len by (simp add: i_def)
  have lo: "\<And>j. j < i \<Longrightarrow> cells r ! j < sb"
    using rkl_bsearch_before[OF so, of _ k] below il nth len by (metis i_def nth_mem order_less_le_trans)
  have hi: "\<And>j. i \<le> j \<Longrightarrow> j < ?n \<Longrightarrow> se \<le> cells r ! j"
    using rkl_bsearch_after[OF so, of k] above nth len by (metis i_def nth_mem)
  have srt: "cells r ! a < cells r ! b" if "a < b" "b < ?n" for a b
    using sorted_wrt_less_nth[OF so that(1)] that nth len by simp
  have pos': "\<And>j. j < i \<Longrightarrow> 0 < cells r ! j" using pos nth len il by (metis nth_mem order_less_le_trans)
  obtain f where f: "f \<le> i" "i - f \<le> sb" "extend_down (cells r) i sb = Some (f, sb - (i - f))"
      "\<forall>j. f \<le> j \<and> j < i \<longrightarrow> cells r ! j = sb - (i - j)" "\<forall>j < f. cells r ! j + 1 < sb - (i - f)"
    using extend_down_spec[of i "cells r", OF srt lo pos'] il by auto
  obtain t where t: "i \<le> t" "t \<le> ?n" "extend_up (cells r) ?n i se = Some (t, se + (t - i))"
      "\<forall>j. i \<le> j \<and> j < t \<longrightarrow> cells r ! j = se + (j - i)" "\<forall>j. t \<le> j \<and> j < ?n \<longrightarrow> se + (t - i) < cells r ! j"
    using extend_up_spec[OF srt hi il] by auto
  define c where "c = (if f < t then copy_fwd (cells r) f t (?n - t) else cells r)"
  define r' where "r' = (if f < t
       then r\<lparr>cells := copy_fwd (cells r) f t (?n - t), list_length := ?n - (t - f)\<rparr> else r)
       \<lparr>solid_begin := sb - (i - f), solid_end := se + (t - i)\<rparr>"
  have ev: "extend_solid r sb se k = (MDBX_SUCCESS, r')"
    using True f(3) t(3) by (simp add: extend_solid_def i_def[symmetric] r'_def)
  have ft: "f \<le> t" using f(1) t(1) by simp
  have L': "rkl_list r' = take f ?L @ drop t ?L"
  proof (cases "f < t")
    case True
    then show ?thesis using take_drop_copy_fwd[of f t ?n "cells r"] t(2) buf
      by (simp add: r'_def rkl_list_def rkl_buf_def)
  next
    case False
    then have "f = t" using ft by simp
    then have "rkl_list r' = ?L" by (simp add: r'_def rkl_list_def)
    then show ?thesis using \<open>f = t\<close> by simp
  qed
  have "set ?L = set (take f ?L @ drop t ?L) \<union> {sb - (i - f) ..< sb} \<union> {se ..< se + (t - i)}"
    using f t nth len il by (intro set_split4) auto
  moreover have "{sb - (i - f) ..< se + (t - i)} = {sb ..< se} \<union> {sb - (i - f) ..< sb} \<union> {se ..< se + (t - i)}"
    using iv(2) by (rule ivl_extend)
  moreover have "rkl_set r' = {sb - (i - f) ..< se + (t - i)} \<union> set (rkl_list r')"
    by (simp add: rkl_set_def r'_def)
  ultimately have "rkl_set r' = {sb ..< se} \<union> set ?L" unfolding L' by blast
  moreover have "sorted_wrt (<) (rkl_list r')" unfolding L' by (rule sorted_wrt_less_take_drop[OF so ft])
  moreover have "rkl_buf r'" using buf by (auto simp: r'_def rkl_buf_def)
  moreover have "apart (solid_begin r') (solid_end r') (rkl_list r')"
  proof (unfold apart_def, intro ballI)
    fix x assume "x \<in> set (rkl_list r')"
    then have x: "x \<in> set (take f ?L @ drop t ?L)" by (simp add: L')
    show "x + 1 < solid_begin r' \<or> solid_end r' < x"
    proof (rule in_take_drop_nth[OF x])
      fix j assume j: "j < f \<or> t \<le> j" "j < length ?L" "x = ?L ! j"
      then have "x = cells r ! j" "j < ?n" using nth len by simp_all
      then show ?thesis using j(1) f(5) t(5) by (auto simp: r'_def)
    qed
  qed
  moreover have "solid_begin r' < solid_end r'" using iv by (simp add: r'_def less_le_trans)
  moreover have "list_limit r' = list_limit r" by (simp add: r'_def)
  ultimately show ?thesis using ev by blast
qed

lemma extend_solid_dup:
  assumes buf: "rkl_buf r" and so: "sorted_wrt (<) (rkl_list r)"
    and pos: "\<forall>x \<in> set (rkl_list r). 0 < x" and k: "k \<in> set (rkl_list r)"
  shows "extend_solid r k (k + 1) k = (MDBX_RESULT_TRUE, r)"
proof -
  let ?L = "rkl_list r" and ?n = "list_length r"
  define i where "i = rkl_bsearch ?L k"
  have len: "length ?L = ?n" using buf by simp
  have nth: "\<And>j. j < ?n \<Longrightarrow> cells r ! j = ?L ! j" using buf by (simp add: nth_rkl_list)
  have i: "i < ?n" "cells r ! i = k" using rkl_bsearch_mem[OF so, of k] k len nth by (auto simp: i_def)
  have "\<And>j. j < i \<Longrightarrow> cells r ! j < k" using rkl_bsearch_before[OF so, of _ k] i nth by (simp add: i_def)
  moreover have "\<And>j. j < i \<Longrightarrow> 0 < cells r ! j" using pos nth len i by (metis nth_mem order_less_trans)
  moreover have "cells r ! a < cells r ! b" if "a < b" "b < i" for a b
    using sorted_wrt_less_nth[OF so that(1)] that i nth len by simp
  ultimately obtain f where "extend_down (cells r) i k = Some (f, k - (i - f))"
    using extend_down_spec[of i "cells r" k] by blast
  moreover have "extend_up (cells r) ?n i (k + 1) = None" using i by (simp add: extend_up_dup)
  ultimately show ?thesis using i by (simp add: extend_solid_def i_def[symmetric])
qed

subsection \<open>The loops of the insertion\<close>

lemma insert_shift_spec:
  assumes "insert_shift l k n = (l', i, dup)" "n < length l"
  shows "i \<le> n \<and> length l' = length l \<and>
     (\<forall>j < length l. l' ! j = (if i < j \<and> j \<le> n then l ! (j - 1) else l ! j)) \<and>
     (\<forall>j. i \<le> j \<and> j < n \<longrightarrow> k < l ! j) \<and> (0 < i \<longrightarrow> l ! (i - 1) \<le> k) \<and>
     dup = (0 < i \<and> l ! (i - 1) = k)"
  using assms
proof (induction l k n rule: insert_shift.induct)
  case (1 l k)
  then show ?case by auto
next
  case (2 l k m)
  show ?case
  proof (cases "k < l ! m")
    case True
    let ?l = "l[Suc m := l ! m]"
    have nth: "?l ! j = (if j = Suc m then l ! m else l ! j)" if "j < length l" for j
      using that by (auto simp: nth_list_update)
    have IH: "i \<le> m \<and> length l' = length ?l \<and>
        (\<forall>j < length ?l. l' ! j = (if i < j \<and> j \<le> m then ?l ! (j - 1) else ?l ! j)) \<and>
        (\<forall>j. i \<le> j \<and> j < m \<longrightarrow> k < ?l ! j) \<and> (0 < i \<longrightarrow> ?l ! (i - 1) \<le> k) \<and>
        dup = (0 < i \<and> ?l ! (i - 1) = k)"
      using "2.IH"[OF True] "2.prems" True by simp
    then have i: "i \<le> m" "length l' = length l" by simp_all
    have "l' ! j = (if i < j \<and> j \<le> Suc m then l ! (j - 1) else l ! j)" if j: "j < length l" for j
    proof -
      have "l' ! j = (if i < j \<and> j \<le> m then ?l ! (j - 1) else ?l ! j)" using IH j by simp
      then show ?thesis using i j "2.prems"(2) nth[of j] nth[of "j - 1"] by (auto simp: le_Suc_eq)
    qed
    moreover have "k < l ! j" if "i \<le> j" "j < Suc m" for j
      using IH that nth[of j] True "2.prems"(2) by (cases "j = m") auto
    moreover have "?l ! (i - 1) = l ! (i - 1)" using i by simp
    ultimately show ?thesis using IH i by simp
  next
    case False
    then show ?thesis using 2 by auto
  qed
qed

lemma run_down_spec:
  assumes "run_down l i b = (f, b')" "\<And>j. j < i \<Longrightarrow> 0 < l ! j" "0 < b"
  shows "f \<le> i \<and> i - f < b \<and> b' = b - (i - f) \<and> (\<forall>j. f \<le> j \<and> j < i \<longrightarrow> l ! j = b - (i - j)) \<and>
     (0 < f \<longrightarrow> l ! (f - 1) + 1 \<noteq> b')"
  using assms
proof (induction l i b rule: run_down.induct)
  case (1 l b)
  then show ?case by simp
next
  case (2 l m b)
  show ?case
  proof (cases "l ! m = dec64 b")
    case True
    then have e: "l ! m = b - 1" using "2.prems" by simp
    have d: "dec64 b = b - 1" using "2.prems" by simp
    have b1: "0 < b - 1" using "2.prems"(2)[of m] e by simp
    have IH: "f \<le> m \<and> m - f < b - 1 \<and> b' = b - 1 - (m - f) \<and>
        (\<forall>j. f \<le> j \<and> j < m \<longrightarrow> l ! j = b - 1 - (m - j)) \<and> (0 < f \<longrightarrow> l ! (f - 1) + 1 \<noteq> b')"
    proof (rule "2.IH"[OF True, unfolded d])
      show "run_down l m (b - 1) = (f, b')" using "2.prems"(1) True e by simp
    qed (use "2.prems" b1 in auto)
    then have f: "f \<le> m" "b' = b - (Suc m - f)" by auto
    have stop: "0 < f \<longrightarrow> l ! (f - 1) + 1 \<noteq> b'" using IH by blast
    have "l ! j = b - (Suc m - j)" if "f \<le> j" "j < Suc m" for j
      using IH that e f by (cases "j = m") (auto simp: Suc_diff_le)
    then have "\<forall>j. f \<le> j \<and> j < Suc m \<longrightarrow> l ! j = b - (Suc m - j)" by blast
    moreover have "f \<le> Suc m" "Suc m - f < b" using IH by auto
    ultimately show ?thesis using f(2) stop by blast
  next
    case False
    then show ?thesis using "2.prems" by auto
  qed
qed

lemma run_up_spec:
  assumes "run_up l len i e = (t, e')" "i \<le> len"
  shows "i \<le> t \<and> t \<le> len \<and> e' = e + (t - i) \<and> (\<forall>j. i \<le> j \<and> j < t \<longrightarrow> l ! j = e + (j - i)) \<and>
     (t < len \<longrightarrow> l ! t \<noteq> e')"
  using assms
proof (induction l len i e rule: run_up.induct)
  case (1 l len i e)
  show ?case
  proof (cases "i < len \<and> l ! i = e")
    case True
    have IH: "i + 1 \<le> t \<and> t \<le> len \<and> e' = e + 1 + (t - (i + 1)) \<and>
       (\<forall>j. i + 1 \<le> j \<and> j < t \<longrightarrow> l ! j = e + 1 + (j - (i + 1))) \<and> (t < len \<longrightarrow> l ! t \<noteq> e')"
    proof (rule "1.IH"[OF True])
      show "run_up l len (i + 1) (e + 1) = (t, e')"
        using "1.prems"(1) True by (simp add: run_up.simps[of l len i e])
    qed (use True in simp)
    then have "i \<le> t" "t \<le> len" "e' = e + (t - i)" by auto
    moreover have "t < len \<longrightarrow> l ! t \<noteq> e'" using IH by blast
    moreover have "l ! j = e + (j - i)" if "i \<le> j" "j < t" for j
      using IH that True by (cases "j = i") auto
    ultimately show ?thesis by blast
  next
    case False
    then show ?thesis using "1.prems" by (auto simp: run_up.simps[of l len i e])
  qed
qed

subsection \<open>Exchanging a run of the list with the interval\<close>

lemma swap_cells_list:
  assumes "len \<le> length l" "from \<le> to" "to \<le> len" "osl < to - from" "p \<le> from \<or> to \<le> p" "p \<le> len"
  defines "R \<equiv> take from (take len l) @ drop to (take len l)"
    and "q \<equiv> (if p \<le> from then p else p - (to - from))"
  shows "take (len - (to - from) + osl) (swap_cells l len from to p sb osl)
    = take q R @ [sb ..< sb + osl] @ drop q R"
proof (cases "p < from")
  case True
  define m where "m = from - p"
  define l1 where "l1 = copy_bwd l (p + osl) p m"
  define l2 where "l2 = write_run l1 p sb osl"
  have m: "p + m = from" "from + osl \<le> to" "p \<le> from" using True assms(2,4) by (simp_all add: m_def)
  have length_l2: "length l2 = length l" by (simp add: l1_def l2_def)
  have e: "swap_cells l len from to p sb osl = copy_fwd l2 (from + osl) to (len - to)"
    using True m by (simp add: swap_cells_def l2_def l1_def m_def Let_def)
  have h: "take (from + osl) l2 = take (p + osl) l2 @ take m (drop (p + osl) l2)"
  proof -
    have "from + osl = p + osl + m" using m by simp
    then show ?thesis by (simp only: take_add)
  qed
  have a: "take (p + osl) l2 = take p l1 @ [sb ..< sb + osl]"
    unfolding l2_def by (rule take_write_run) (use m assms in \<open>simp add: l1_def\<close>)
  have b: "take p l1 = take p l" unfolding l1_def by (rule take_copy_bwd) (use m assms in auto)
  have c: "take m (drop (p + osl) l2) = take m (drop p l)"
  proof -
    have "drop (p + osl) l2 = drop (p + osl) l1"
      unfolding l2_def by (rule drop_write_run) (use m assms in \<open>auto simp: l1_def\<close>)
    moreover have "take m (drop (p + osl) l1) = take m (drop p l)"
      unfolding l1_def by (rule take_drop_copy_bwd) (use m assms in auto)
    ultimately show ?thesis by simp
  qed
  have d: "drop to l2 = drop to l"
  proof -
    have "drop to l2 = drop to l1"
      unfolding l2_def by (rule drop_write_run) (use m assms in \<open>auto simp: l1_def\<close>)
    moreover have "drop to l1 = drop to l"
      unfolding l1_def by (rule drop_copy_bwd) (use m assms in auto)
    ultimately show ?thesis by simp
  qed
  have "len - (to - from) + osl = from + osl + (len - to)" using assms(2,3) by simp
  then have "take (len - (to - from) + osl) (swap_cells l len from to p sb osl)
      = take (from + osl) l2 @ take (len - to) (drop to l2)"
    unfolding e using m assms(1,3) by (simp only: take_copy_fwd length_l2 le_add_diff_inverse)
  also have "\<dots> = take p l @ [sb ..< sb + osl] @ take m (drop p l) @ take (len - to) (drop to l)"
    by (simp add: h a b c d)
  also have "\<dots> = take q R @ [sb ..< sb + osl] @ drop q R"
    using m assms by (simp add: drop_take m_def)
  finally show ?thesis .
next
  case False
  define n where "n = (if from + (to - from) < p then p - (to - from) - from else 0)"
  have q: "q = from + n" using False assms(2-5) by (auto simp: q_def n_def)
  have m: "from + n \<le> p" "from + osl < to" "to + n = (if p = from then to else p)"
    using False assms by (auto simp: n_def)
  have tn: "to + n \<le> len" using m(3) assms by (auto split: if_splits)
  define l1 where "l1 = copy_fwd l from to n"
  define l2 where "l2 = write_run l1 (from + n) sb osl"
  have length_l2: "length l2 = length l" by (simp add: l1_def l2_def)
  have e: "swap_cells l len from to p sb osl = copy_fwd l2 (from + n + osl) (to + n) (len - (to + n))"
    using False by (simp add: swap_cells_def l2_def l1_def n_def Let_def)
  have a: "take (from + n + osl) l2 = take (from + n) l1 @ [sb ..< sb + osl]"
    unfolding l2_def by (rule take_write_run) (use m tn assms in \<open>simp add: l1_def\<close>)
  have b: "take (from + n) l1 = take from l @ take n (drop to l)"
    unfolding l1_def by (rule take_copy_fwd) (use tn assms in auto)
  have d: "drop (to + n) l2 = drop (to + n) l"
  proof -
    have "drop (to + n) l2 = drop (to + n) l1"
      unfolding l2_def by (rule drop_write_run) (use m tn assms in \<open>auto simp: l1_def\<close>)
    moreover have "drop (to + n) l1 = drop (to + n) l"
      unfolding l1_def by (rule drop_copy_fwd) (use tn assms in auto)
    ultimately show ?thesis by simp
  qed
  have "len - (to - from) + osl = from + n + osl + (len - (to + n))" using tn assms(2) by simp
  then have "take (len - (to - from) + osl) (swap_cells l len from to p sb osl)
      = take (from + n + osl) l2 @ take (len - (to + n)) (drop (to + n) l2)"
    unfolding e using m tn assms(1) by (simp only: take_copy_fwd length_l2 le_add_diff_inverse)
  also have "\<dots> = take from l @ take n (drop to l) @ [sb ..< sb + osl] @ take (len - (to + n)) (drop (to + n) l)"
    by (simp add: a b d)
  also have "\<dots> = take q R @ [sb ..< sb + osl] @ drop q R"
  proof -
    have "length (take from l) = from" "take from (take len l) = take from l" using assms(1-3) by simp_all
    moreover have "take n (take (len - to) (drop to l)) = take n (drop to l)" using tn by simp
    moreover have "drop n (take (len - to) (drop to l)) = take (len - (to + n)) (drop (to + n) l)"
      by (simp add: drop_take add.commute)
    ultimately show ?thesis by (simp add: q R_def drop_take)
  qed
  finally show ?thesis .
qed

lemma length_swap_cells [simp]: "length (swap_cells l len from to p sb osl) = length l"
  by (simp add: swap_cells_def Let_def)

text \<open>The run around the new id that \<open>swap_solid\<close> takes out of the list.\<close>

definition list_run :: "txnid list \<Rightarrow> nat \<Rightarrow> nat \<Rightarrow> nat \<Rightarrow> txnid \<Rightarrow> bool" where
  "list_run L fr i to k \<longleftrightarrow> fr \<le> i \<and> i < to \<and> to \<le> length L \<and> i - fr < k \<and>
     (\<forall>j. fr \<le> j \<and> j < to \<longrightarrow> L ! j + i = k + j) \<and>
     (0 < fr \<longrightarrow> L ! (fr - 1) + 1 \<noteq> k - (i - fr)) \<and> (to < length L \<longrightarrow> L ! to \<noteq> k + (to - i))"

lemma list_run_intro:
  assumes buf: "rkl_buf r" and pos: "\<forall>x \<in> set (rkl_list r). 0 < x"
    and i: "i < list_length r" "cells r ! i = k"
    and d: "run_down (cells r) i k = (fr, nb)" and u: "run_up (cells r) (list_length r) (i + 1) (k + 1) = (to, ne)"
  shows "list_run (rkl_list r) fr i to k \<and> nb = k - (i - fr) \<and> ne = k + (to - i)"
proof -
  let ?L = "rkl_list r" and ?n = "list_length r"
  have len: "length ?L = ?n" using buf by simp
  have nth: "\<And>j. j < ?n \<Longrightarrow> cells r ! j = ?L ! j" using buf by (simp add: nth_rkl_list)
  have p: "\<And>j. j < i \<Longrightarrow> 0 < cells r ! j" using pos nth len i by (metis nth_mem order_less_trans)
  have k: "0 < k" using pos nth[of i] i len by (metis nth_mem)
  note D = run_down_spec[OF d p k] and U = run_up_spec[OF u Suc_leI[OF i(1), unfolded Suc_eq_plus1]]
  have "?L ! j + i = k + j" if "fr \<le> j" "j < to" for j
  proof (cases "j < i")
    case True
    then have "cells r ! j = k - (i - j)" using D that by simp
    moreover have "i - j \<le> i - fr" using that by simp
    ultimately show ?thesis using D True nth[of j] i by auto
  next
    case False
    then show ?thesis using U that nth[of j] i by (cases "j = i") auto
  qed
  then have r: "\<forall>j. fr \<le> j \<and> j < to \<longrightarrow> ?L ! j + i = k + j" by blast
  have "0 < fr \<longrightarrow> cells r ! (fr - 1) + 1 \<noteq> nb" "nb = k - (i - fr)" "fr \<le> i" "i - fr < k" using D by blast+
  moreover have "to < ?n \<longrightarrow> cells r ! to \<noteq> ne" "ne = k + 1 + (to - (i + 1))" "i + 1 \<le> to" "to \<le> ?n" using U by blast+
  moreover have "ne = k + (to - i)" using calculation by simp
  ultimately show ?thesis using r len nth[of "fr - 1"] nth[of to] i unfolding list_run_def by auto
qed

lemma list_run_nth:
  assumes "list_run L fr i to k" "fr \<le> j" "j < to"
  shows "L ! j + i = k + j" "i - fr < k" "fr \<le> i" "i < to" "j < length L"
  using assms by (auto simp: list_run_def)

lemma list_run_apart:
  assumes "list_run L fr i to k" "sorted_wrt (<) L" "j < fr \<or> to \<le> j" "j < length L"
  shows "L ! j + 1 < k - (i - fr) \<or> k + (to - i) < L ! j"
proof (cases "j < fr")
  case True
  have b: "fr \<le> i" "i < to" "to \<le> length L" using assms(1) by (simp_all add: list_run_def)
  have "L ! fr + i = k + fr" "i - fr < k" using list_run_nth[OF assms(1), of fr] b by simp_all
  then have f: "L ! fr = k - (i - fr)" "fr < length L" using b by linarith+
  have "L ! (fr - 1) < L ! fr" using sorted_wrt_less_nth[OF assms(2), of "fr - 1" fr] True f by simp
  then have "L ! (fr - 1) + 1 < k - (i - fr)" using assms(1) True f unfolding list_run_def by linarith
  moreover have "L ! j \<le> L ! (fr - 1)"
    using True f by (intro sorted_wrt_less_le[OF assms(2)]) auto
  ultimately show ?thesis by simp
next
  case False
  then have j: "to \<le> j" "to < length L" using assms(3,4) by auto
  have b: "fr \<le> i" "i < to" "to \<le> length L" using assms(1) by (simp_all add: list_run_def)
  have "L ! (to - 1) + i = k + (to - 1)" using list_run_nth[OF assms(1), of "to - 1"] b by simp
  then have t: "L ! (to - 1) + 1 = k + (to - i)" "0 < to" using b by linarith+
  have "L ! (to - 1) < L ! to" using sorted_wrt_less_nth[OF assms(2), of "to - 1" to] j t by simp
  then have "k + (to - i) < L ! to" using assms(1) j t unfolding list_run_def by linarith
  moreover have "L ! to \<le> L ! j"
    using j assms(4) by (intro sorted_wrt_less_le[OF assms(2)]) auto
  ultimately show ?thesis by simp
qed

lemma list_run_set:
  assumes "list_run L fr i to k"
  shows "set L = set (take fr L @ drop to L) \<union> {k - (i - fr) ..< k + (to - i)}"
proof -
  have r: "L ! j + i = k + j" if "fr \<le> j" "j < to" for j using assms that by (simp add: list_run_def)
  have b: "fr \<le> i" "i < to" "to \<le> length L" "i - fr < k" using assms by (simp_all add: list_run_def)
  have "set L = set (take fr L @ drop to L) \<union> {k - (i - fr) ..< k} \<union> {k ..< k + (to - i)}"
  proof (rule set_split4)
    fix j assume "fr \<le> j" "j < i"
    then show "L ! j = k - (i - j)" using r[of j] b by simp
  next
    fix j assume "i \<le> j" "j < to"
    then show "L ! j = k + (j - i)" using r[of j] b by simp
  qed (use assms in \<open>auto simp: list_run_def\<close>)
  moreover have "{k - (i - fr) ..< k} \<union> {k ..< k + (to - i)} = {k - (i - fr) ..< k + (to - i)}"
    by (rule ivl_disj_un) auto
  ultimately show ?thesis by (simp add: Un_assoc)
qed

text \<open>Where the old interval goes: entirely before or entirely after the run.\<close>

lemma list_run_side:
  assumes "list_run L fr i to k" "sorted_wrt (<) L" "apart sb se L" "sb < se"
  defines "p \<equiv> rkl_bsearch L sb"
  shows "p \<le> fr \<and> se < k - (i - fr) \<or> to \<le> p \<and> k + (to - i) < sb"
proof -
  have r: "L ! j + i = k + j" if "fr \<le> j" "j < to" for j using assms(1) that by (simp add: list_run_def)
  have b: "fr \<le> i" "i < to" "to \<le> length L" "i - fr < k" using assms(1) by (simp_all add: list_run_def)
  have lt: "L ! j + 1 < sb" if "j < p" for j
  proof -
    have "j < length L" using that rkl_bsearch_le[OF assms(2), of sb] by (simp add: p_def)
    then have "L ! j + 1 < sb \<or> se < L ! j" using assms(3) by (simp add: apart_def)
    then show ?thesis using rkl_bsearch_before[OF assms(2), of j sb] that assms(4) by (auto simp: p_def)
  qed
  have ge: "se < L ! j" if "p \<le> j" "j < length L" for j
  proof -
    have "L ! j + 1 < sb \<or> se < L ! j" using assms(3) that by (simp add: apart_def)
    then show ?thesis using rkl_bsearch_after[OF assms(2), of sb j] that by (auto simp: p_def)
  qed
  consider "p \<le> fr" | "to \<le> p" | "fr < p" "p < to" by linarith
  then show ?thesis
  proof cases
    case 1
    have "se < L ! fr" using ge[of fr] 1 b by simp
    then show ?thesis using 1 r[of fr] b by linarith
  next
    case 2
    have "L ! (to - 1) + 1 < sb" using lt[of "to - 1"] 2 b by simp
    moreover have "L ! (to - 1) + i = k + (to - 1)" using r[of "to - 1"] b by simp
    ultimately show ?thesis using 2 b by linarith
  next
    case 3
    then have "L ! (p - 1) + i = k + (p - 1)" "L ! p + i = k + p" using r[of "p - 1"] r[of p] by simp_all
    then have "L ! (p - 1) + 1 = L ! p" using 3 by linarith
    then show ?thesis using lt[of "p - 1"] ge[of p] 3 b assms(4) by simp
  qed
qed

lemma swapped_list_ok:
  assumes run: "list_run L fr i to k" and so: "sorted_wrt (<) L" and ap: "apart sb se L" and iv: "sb < se"
  defines "p \<equiv> rkl_bsearch L sb"
  defines "R \<equiv> take fr L @ drop to L" and "q \<equiv> (if p \<le> fr then p else p - (to - fr))"
  defines "N \<equiv> take q R @ [sb ..< se] @ drop q R"
  shows "sorted_wrt (<) N" "apart (k - (i - fr)) (k + (to - i)) N"
    "set N \<union> {k - (i - fr) ..< k + (to - i)} = set L \<union> {sb ..< se}"
proof -
  have b: "fr \<le> i" "i < to" "to \<le> length L" using run by (simp_all add: list_run_def)
  have side: "p \<le> fr \<and> se < k - (i - fr) \<or> to \<le> p \<and> k + (to - i) < sb"
    unfolding p_def by (rule list_run_side[OF run so ap iv])
  have pl: "p \<le> length L" unfolding p_def by (rule rkl_bsearch_le[OF so])
  have sR: "sorted_wrt (<) R" unfolding R_def by (rule sorted_wrt_less_take_drop[OF so]) (use b in simp)
  have lenR: "length R = length L - (to - fr)" using b by (simp add: R_def)
  have nthR: "R ! j = (if j < fr then L ! j else L ! (j + (to - fr)))" if "j < length R" for j
    using that b lenR by (auto simp: R_def nth_append algebra_simps)
  have lo: "x < sb" if x: "x \<in> set (take q R)" for x
  proof -
    obtain j where j: "j < q" "j < length R" "x = R ! j" using x by (metis in_set_conv_nth length_take min_less_iff_conj nth_take)
    then have "(if j < fr then j else j + (to - fr)) < p" using side b by (auto simp: q_def split: if_splits)
    then show ?thesis using rkl_bsearch_before[OF so, of _ sb] nthR[OF j(2)] j(3) by (auto simp: p_def split: if_splits)
  qed
  have hi: "se \<le> x" if x: "x \<in> set (drop q R)" for x
  proof -
    obtain j where j: "q \<le> j" "j < length R" "x = R ! j"
    proof -
      obtain j0 where "j0 < length (drop q R)" "drop q R ! j0 = x" using x by (metis in_set_conv_nth)
      then show thesis by (intro that[of "q + j0"]) auto
    qed
    define j' where "j' = (if j < fr then j else j + (to - fr))"
    have "p \<le> j'" "j' < length L" using side b j lenR by (auto simp: q_def j'_def split: if_splits)
    moreover have "x = L ! j'" using nthR[OF j(2)] j(3) by (simp add: j'_def)
    moreover have "x + 1 < sb \<or> se < x" using ap calculation by (simp add: apart_def)
    ultimately show ?thesis using rkl_bsearch_after[OF so, of sb j'] by (auto simp: p_def)
  qed
  show "sorted_wrt (<) N" unfolding N_def
  proof (intro sorted_wrt_appendI)
    show "sorted_wrt (<) (take q R)" "sorted_wrt (<) (drop q R)" using sR by (simp_all add: sorted_wrt_take sorted_wrt_drop)
    show "sorted_wrt (<) [sb ..< se]" by simp
  qed (use lo hi iv in \<open>force+\<close>)
  have "set N = set (take q R) \<union> set (drop q R) \<union> {sb ..< se}" by (auto simp: N_def)
  then have setN: "set N = set R \<union> {sb ..< se}" by (metis set_append append_take_drop_id)
  then show "set N \<union> {k - (i - fr) ..< k + (to - i)} = set L \<union> {sb ..< se}"
    using list_run_set[OF run] by (auto simp: R_def)
  show "apart (k - (i - fr)) (k + (to - i)) N"
    unfolding apart_def setN
  proof
    fix x assume "x \<in> set R \<union> {sb ..< se}"
    then consider "x \<in> set R" | "sb \<le> x" "x < se" by auto
    then show "x + 1 < k - (i - fr) \<or> k + (to - i) < x"
    proof cases
      case 1
      then obtain j where "j < fr \<or> to \<le> j" "j < length L" "x = L ! j"
        unfolding R_def by (rule in_take_drop_nth)
      then show ?thesis using list_run_apart[OF run so] by simp
    next
      case 2
      then show ?thesis using side by linarith
    qed
  qed
qed

lemma nested_if:
  "x = (if A then if B \<and> C then if D then s else r else r else r) \<Longrightarrow> x \<noteq> r \<Longrightarrow> x = s \<and> C"
  by (auto split: if_splits)

lemma swap_solid_ok:
  assumes buf: "rkl_buf r" and so: "sorted_wrt (<) (rkl_list r)" and pos: "\<forall>x \<in> set (rkl_list r). 0 < x"
    and ap: "apart (solid_begin r) (solid_end r) (rkl_list r)" and iv: "solid_begin r < solid_end r"
    and i: "i < list_length r" "cells r ! i = k"
  defines "r' \<equiv> swap_solid r i k"
  shows "rkl_buf r' \<and> list_limit r' = list_limit r \<and> sorted_wrt (<) (rkl_list r') \<and>
     solid_begin r' < solid_end r' \<and> apart (solid_begin r') (solid_end r') (rkl_list r') \<and> rkl_set r' = rkl_set r"
proof (cases "r' = r")
  case True
  then show ?thesis using buf so ap iv by simp
next
  case False
  obtain fr nb where d: "run_down (cells r) i k = (fr, nb)" by (meson surj_pair)
  obtain to ne where u: "run_up (cells r) (list_length r) (i + 1) (k + 1) = (to, ne)" by (meson surj_pair)
  let ?L = "rkl_list r" and ?n = "list_length r" and ?o = "solid_end r - solid_begin r"
  define p where "p = rkl_bsearch ?L (solid_begin r)"
  define s where "s = r\<lparr>cells := swap_cells (cells r) ?n fr to p (solid_begin r) ?o,
                    list_length := ?n - (to - fr) + ?o, solid_begin := nb, solid_end := ne\<rparr>"
  have "r' = s \<and> ?o < to - fr"
  proof (rule nested_if[OF _ False])
    show "r' = (if 16 < ?n \<and> (0 < i \<and> cells r ! (i - 1) = dec64 k \<or> i + 1 < ?n \<and> cells r ! (i + 1) = k + 1)
      then if 3 < to - fr \<and> ?o < to - fr
           then if ?n - to + (if p < fr then fr - p else 0) + ?o < ?n - i then s else r
           else r
      else r)"
      unfolding r'_def swap_solid_def d u prod.case Let_def s_def p_def by (rule refl)
  qed
  then have longer: "?o < to - fr" and r': "r' = r\<lparr>cells := swap_cells (cells r) ?n fr to p (solid_begin r) ?o,
                    list_length := ?n - (to - fr) + ?o, solid_begin := nb, solid_end := ne\<rparr>"
    by (simp_all add: s_def)
  have run: "list_run ?L fr i to k" and nb: "nb = k - (i - fr)" and ne: "ne = k + (to - i)"
    using list_run_intro[OF buf pos i d u] by simp_all
  have len: "length ?L = ?n" using buf by simp
  have b: "fr \<le> i" "i < to" "to \<le> ?n" using run len by (simp_all add: list_run_def)
  have pl: "p \<le> ?n" using rkl_bsearch_le[OF so, of "solid_begin r"] len by (simp add: p_def)
  have side: "p \<le> fr \<or> to \<le> p" using list_run_side[OF run so ap iv] by (auto simp: p_def)
  define R where "R = take fr ?L @ drop to ?L"
  define q where "q = (if p \<le> fr then p else p - (to - fr))"
  have L': "rkl_list r' = take q R @ [solid_begin r ..< solid_end r] @ drop q R"
  proof -
    have "rkl_list r' = take q (take fr (take ?n (cells r)) @ drop to (take ?n (cells r)))
        @ [solid_begin r ..< solid_begin r + ?o] @ drop q (take fr (take ?n (cells r)) @ drop to (take ?n (cells r)))"
      unfolding r' q_def by (subst swap_cells_list[symmetric]) (use buf b longer side pl in \<open>auto simp: rkl_list_def rkl_buf_def\<close>)
    then show ?thesis using iv by (simp add: R_def rkl_list_def)
  qed
  note S = swapped_list_ok[OF run so ap iv, folded p_def, folded R_def q_def, folded L']
  have "?n - (to - fr) + ?o \<le> ?n" using longer b by linarith
  then have "rkl_buf r'" using buf by (auto simp: r' rkl_buf_def)
  moreover have sb: "solid_begin r' = nb" "solid_end r' = ne" and "list_limit r' = list_limit r" by (simp_all add: r')
  moreover have "nb < ne" using nb ne b run by (simp add: list_run_def)
  moreover have "rkl_set r' = rkl_set r"
    unfolding rkl_set_def sb nb ne using S(3) by (simp only: Un_commute)
  ultimately show ?thesis using S(1,2) by (simp only: nb ne)
qed

subsection \<open>Growing the buffer, inserting into the list\<close>

lemma rkl_size2bytes_ge: "n \<le> rkl_size2bytes n div 8"
proof -
  have "v \<le> ceil_powerof2 v g" if "0 < g" for v g :: nat
  proof -
    have "(v + g - 1) div g * g + (v + g - 1) mod g = v + g - 1" by simp
    moreover have "(v + g - 1) mod g < g" using that by simp
    ultimately show ?thesis unfolding ceil_powerof2_def floor_powerof2_def by linarith
  qed
  then have "malloc_overhead + 8 * n \<le> ceil_powerof2 (malloc_overhead + 8 * n) (txl_granulate * 8)"
    by (simp add: txl_granulate_def)
  then show ?thesis by (simp add: rkl_size2bytes_def)
qed

lemma rkl_resize_cases:
  assumes buf: "rkl_buf r" and m: "malloc_ok alloc" and e: "rkl_resize alloc r w = (err, r')"
  shows "err = MDBX_SUCCESS \<and> list_length r \<le> w \<and> w \<le> txl_max \<and> rkl_buf r' \<and> rkl_list r' = rkl_list r \<and>
          list_length r' = list_length r \<and> w \<le> list_limit r' \<and>
          solid_begin r' = solid_begin r \<and> solid_end r' = solid_end r
       \<or> err \<in> {MDBX_TXN_FULL, MDBX_PROBLEM, MDBX_ENOMEM} \<and> r' = r \<and> (err = MDBX_PROBLEM \<longrightarrow> w < list_length r)"
proof -
  consider "w > txl_max" | "w \<le> txl_max" "w < list_length r"
    | "w \<le> txl_max" "list_length r \<le> w" "w \<le> rkl_inplace_size"
    | "w \<le> txl_max" "list_length r \<le> w" "w > rkl_inplace_size" "w = list_limit r"
    | "w \<le> txl_max" "list_length r \<le> w" "w > rkl_inplace_size" "w \<noteq> list_limit r" by linarith
  then show ?thesis
  proof cases
    case 5
    show ?thesis
    proof (cases "alloc (rkl_size2bytes w)")
      case None
      then show ?thesis using 5 e by (auto simp: rkl_resize_def rc_defs)
    next
      case (Some blk)
      have "w \<le> length blk" using m Some rkl_size2bytes_ge[of w] unfolding malloc_ok_def by (meson order_trans)
      moreover have "r' = r\<lparr>list_limit := length blk,
            cells := take (length blk) (cells r) @ drop (length (cells r)) blk, on_heap := True\<rparr>" "err = MDBX_SUCCESS"
        using 5 e Some by (simp_all add: rkl_resize_def rkl_bytes2size_def)
      ultimately show ?thesis using 5 buf by (auto simp: rkl_buf_def rkl_list_def min_def)
    qed
  qed (use e buf in \<open>auto simp: rkl_resize_def rkl_buf_def rkl_list_def rc_defs min_def split: if_splits\<close>)
qed

lemma grow_size_gt: "list_length r < grow_size r" "rkl_inplace_size < grow_size r"
  by (auto simp: grow_size_def rkl_inplace_size_def txl_max_def malloc_overhead_def)

lemma inserted_list:
  assumes "insert_shift l k n = (l', i, dup)" "n < length l"
  shows "take (n + 1) (l'[i := k]) = take i (take n l) @ k # drop i (take n l)"
proof (rule nth_equalityI)
  note S = insert_shift_spec[OF assms]
  show "length (take (n + 1) (l'[i := k])) = length (take i (take n l) @ k # drop i (take n l))"
    using S assms(2) by simp
  fix j assume "j < length (take (n + 1) (l'[i := k]))"
  then have j: "j \<le> n" "j < length l" using S assms(2) by auto
  have "take (n + 1) (l'[i := k]) ! j = (if j = i then k else if i < j then l ! (j - 1) else l ! j)"
    using S j by (simp add: nth_list_update)
  also have "\<dots> = (take i (take n l) @ k # drop i (take n l)) ! j"
    using S j assms(2) by (auto simp: nth_append nth_Cons')
  finally show "take (n + 1) (l'[i := k]) ! j = (take i (take n l) @ k # drop i (take n l)) ! j" .
qed

lemma undone_list:
  assumes "insert_shift l k n = (l', i, True)" "n < length l"
  shows "take n (copy_fwd l' i (i + 1) (n - 1 - i)) =
     (if i + 1 < n then (take n l)[n - 1 := l ! (n - 2)] else take n l)" (is "_ = ?R")
proof (rule nth_equalityI)
  note S = insert_shift_spec[OF assms]
  show "length (take n (copy_fwd l' i (i + 1) (n - 1 - i))) = length ?R" using S assms(2) by simp
  fix j assume "j < length (take n (copy_fwd l' i (i + 1) (n - 1 - i)))"
  then have j: "j < n" "j < length l" using S assms(2) by auto
  have "take n (copy_fwd l' i (i + 1) (n - 1 - i)) ! j =
      (if i \<le> j \<and> j < n - 1 then l' ! (j + 1) else l' ! j)"
    using S j assms(2) by (auto simp: nth_copy_fwd)
  also have "\<dots> = ?R ! j"
  proof -
    consider "j < i" | "i \<le> j" "j < n - 1" | "i \<le> j" "j = n - 1" using j by linarith
    then show ?thesis
    proof cases
      case 3
      then show ?thesis using S j assms(2) by (auto simp: nth_list_update numeral_2_eq_2)
    qed (use S j assms(2) in \<open>auto simp: nth_list_update\<close>)
  qed
  finally show "take n (copy_fwd l' i (i + 1) (n - 1 - i)) ! j = ?R ! j" .
qed

lemma insert_shift_dup:
  assumes "insert_shift l k n = (l', i, dup)" "n < length l" "sorted_wrt (<) (take n l)"
  shows "dup \<longleftrightarrow> k \<in> set (take n l)"
proof
  note S = insert_shift_spec[OF assms(1,2)]
  { assume dup
    then have "0 < i" "i - 1 < n" "l ! (i - 1) = k" using S by auto
    then show "k \<in> set (take n l)" using assms(2) by (auto simp: in_set_conv_nth intro!: exI[of _ "i - 1"]) }
  assume "k \<in> set (take n l)"
  then obtain j where j: "j < n" "l ! j = k" using assms(2) by (auto simp: in_set_conv_nth)
  then have "j < i" using S by (meson less_irrefl not_le)
  moreover have "take n l ! j \<le> take n l ! (i - 1)"
    using S assms(2) calculation by (intro sorted_wrt_less_le[OF assms(3)]) auto
  ultimately show dup using S j assms(2) by (auto simp: le_antisym)
qed

subsection \<open>Pushing an id\<close>

text \<open>A set whose interval is not empty, kept in normal form: nothing in the list touches the interval.\<close>

definition rkl_norm :: "rkl \<Rightarrow> bool" where
  "rkl_norm r \<longleftrightarrow> rkl_buf r \<and> sorted_wrt (<) (rkl_list r) \<and> solid_begin r < solid_end r \<and>
     apart (solid_begin r) (solid_end r) (rkl_list r) \<and> (\<forall>x \<in> rkl_set r. 0 < x)"

lemma rkl_norm_pos: "rkl_norm r \<Longrightarrow> \<forall>x \<in> set (rkl_list r). 0 < x"
  by (simp add: rkl_norm_def rkl_set_def)

lemma rkl_list_nil: "rkl_buf r \<Longrightarrow> list_length r = 0 \<longleftrightarrow> rkl_list r = []"
  using length_rkl_list[of r] by (metis length_0_conv)

lemma couple_ok:
  assumes n: "rkl_norm r" and one: "list_length r = 1" "solid_end r = solid_begin r + 1"
    and adj: "cells r ! 0 = k + 1 \<or> cells r ! 0 = dec64 k" and k: "0 < k" "k + 1 < solid_begin r \<or> solid_end r < k"
  defines "c \<equiv> (if cells r ! 0 = dec64 k then dec64 k else k)"
  defines "r' \<equiv> r\<lparr>cells := (cells r)[0 := solid_begin r], solid_begin := c, solid_end := c + 2\<rparr>"
  shows "rkl_norm r' \<and> rkl_set r' = insert k (rkl_set r)"
proof -
  have buf: "rkl_buf r" using n by (simp add: rkl_norm_def)
  have cl: "0 < length (cells r)" using buf by (simp add: rkl_buf_def rkl_inplace_size_def)
  have L: "rkl_list r = [cells r ! 0]"
    using one buf by (intro nth_equalityI) (auto simp: nth_rkl_list)
  have buf': "rkl_buf r'" using buf by (simp add: rkl_buf_def r'_def)
  have L': "rkl_list r' = [solid_begin r]"
    using one buf' cl by (intro nth_equalityI) (auto simp: nth_rkl_list r'_def)
  have ap: "cells r ! 0 + 1 < solid_begin r \<or> solid_end r < cells r ! 0"
    using n L by (simp add: rkl_norm_def apart_def)
  have pos: "0 < cells r ! 0" "0 < solid_begin r" using n L by (auto simp: rkl_norm_def rkl_set_def)
  have c: "c = k - 1 \<and> cells r ! 0 = k - 1 \<or> c = k \<and> cells r ! 0 = k + 1" "0 < c"
    using adj k(1) pos by (auto simp: c_def)
  have s: "rkl_set r' = {c, c + 1, solid_begin r}" unfolding rkl_set_def L' by (auto simp: r'_def)
  have t: "rkl_set r = {solid_begin r, cells r ! 0}" by (auto simp: rkl_set_def L one)
  have "rkl_set r' = insert k (rkl_set r)" unfolding s t using c(1) k(1) by auto
  moreover have "rkl_norm r'" unfolding rkl_norm_def s
    using buf' L' c pos one ap k by (auto simp: r'_def apart_def)
  ultimately show ?thesis by simp
qed

lemma push_list_fresh:
  assumes n: "rkl_norm r" and m: "malloc_ok alloc" and e: "push_list alloc r k = (err, r')"
    and k: "0 < k" "k + 1 < solid_begin r \<or> solid_end r < k" "k \<notin> set (rkl_list r)"
  shows "err = MDBX_SUCCESS \<and> rkl_norm r' \<and> rkl_set r' = insert k (rkl_set r)
       \<or> err \<in> {MDBX_TXN_FULL, MDBX_ENOMEM} \<and> r' = r"
proof (cases "list_length r = 1 \<and> solid_end r = solid_begin r + 1 \<and> (cells r ! 0 = k + 1 \<or> cells r ! 0 = dec64 k)")
  case True
  then show ?thesis using couple_ok[OF n _ _ _ k(1,2)] e by (auto simp: push_list_def Let_def)
next
  case False
  have buf: "rkl_buf r" using n by (simp add: rkl_norm_def)
  obtain er r1 where g: "(if list_length r = list_limit r then rkl_resize alloc r (grow_size r) else (MDBX_SUCCESS, r)) = (er, r1)"
    by (meson surj_pair)
  have G: "er = MDBX_SUCCESS \<and> rkl_buf r1 \<and> rkl_list r1 = rkl_list r \<and> list_length r1 = list_length r \<and>
      list_length r < list_limit r1 \<and> solid_begin r1 = solid_begin r \<and> solid_end r1 = solid_end r
    \<or> er \<in> {MDBX_TXN_FULL, MDBX_ENOMEM} \<and> r1 = r"
  proof (cases "list_length r = list_limit r")
    case True
    then have "rkl_resize alloc r (grow_size r) = (er, r1)" using g by simp
    from rkl_resize_cases[OF buf m this] show ?thesis using grow_size_gt[of r] by auto
  next
    case False
    then show ?thesis using g buf by (auto simp: rkl_buf_def)
  qed
  show ?thesis
  proof (cases "er = MDBX_SUCCESS")
    case er: False
    then show ?thesis using G e[unfolded push_list_def g if_not_P[OF False]] by auto
  next
    case er: True
    then have G1: "rkl_buf r1" "rkl_list r1 = rkl_list r" "list_length r1 = list_length r"
      "list_length r1 < list_limit r1" "solid_begin r1 = solid_begin r" "solid_end r1 = solid_end r"
      using G by (auto simp: rc_defs)
    obtain l i dup where s: "insert_shift (cells r1) k (list_length r1) = (l, i, dup)" by (metis prod_cases3)
    have cl: "list_length r1 < length (cells r1)" using G1 by (simp add: rkl_buf_def)
    let ?L = "rkl_list r"
    have L1: "take (list_length r1) (cells r1) = ?L" using G1(2) by (simp add: rkl_list_def)
    have so: "sorted_wrt (<) ?L" and ap: "apart (solid_begin r) (solid_end r) ?L"
      and iv: "solid_begin r < solid_end r" and pos: "\<forall>x \<in> rkl_set r. 0 < x" using n by (simp_all add: rkl_norm_def)
    have "\<not> dup" using insert_shift_dup[OF s cl] so k(3) L1 by simp
    define r2 where "r2 = r1\<lparr>cells := l[i := k], list_length := list_length r1 + 1\<rparr>"
    have ev: "err = MDBX_SUCCESS" "r' = swap_solid r2 i k"
      using e[unfolded push_list_def g if_not_P[OF False]] er s \<open>\<not> dup\<close> by (simp_all add: r2_def)
    note S = insert_shift_spec[OF s cl]
    have i: "i \<le> list_length r1" "length l = length (cells r1)" using S by simp_all
    have L2: "rkl_list r2 = take i ?L @ k # drop i ?L"
      using inserted_list[OF s cl] L1 by (simp add: r2_def rkl_list_def)
    have lenL: "length ?L = list_length r1" using G1 length_rkl_list by metis
    have set2: "set (rkl_list r2) = insert k (set ?L)"
      unfolding L2 by (metis append_take_drop_id list.simps(15) set_append Un_insert_right)
    have nthL: "cells r1 ! j = ?L ! j" if "j < list_length r1" for j using that G1 nth_rkl_list by metis
    have so2: "sorted_wrt (<) (rkl_list r2)"
    proof -
      have lo: "x < k" if x: "x \<in> set (take i ?L)" for x
      proof -
        obtain j where j: "j < i" "x = ?L ! j" using x i lenL by (auto simp: in_set_conv_nth)
        have "?L ! (i - 1) \<le> k" using S j nthL[of "i - 1"] i by auto
        moreover have "?L ! (i - 1) \<in> set ?L" using j i lenL by auto
        moreover have "?L ! j \<le> ?L ! (i - 1)" using j i lenL by (intro sorted_wrt_less_le[OF so]) auto
        ultimately show ?thesis using k(3) j(2) by (metis le_neq_implies_less order_le_less_trans)
      qed
      have hi: "k < x" if x: "x \<in> set (drop i ?L)" for x
      proof -
        obtain j where "j < length (drop i ?L)" "drop i ?L ! j = x" using x by (metis in_set_conv_nth)
        then have "i + j < length ?L" "x = ?L ! (i + j)" by auto
        moreover have "k < cells r1 ! (i + j)" using S calculation(1) lenL by simp
        ultimately show ?thesis using nthL[of "i + j"] lenL by simp
      qed
      show ?thesis unfolding L2 using lo hi sorted_wrt_take[OF so] sorted_wrt_drop[OF so]
        by (intro sorted_wrt_appendI) (auto intro: order_less_trans)
    qed
    have buf2: "rkl_buf r2" using G1 i by (simp add: rkl_buf_def r2_def)
    have s2: "solid_begin r2 = solid_begin r" "solid_end r2 = solid_end r" "list_length r2 = list_length r1 + 1"
      using G1 by (simp_all add: r2_def)
    have ap2: "apart (solid_begin r2) (solid_end r2) (rkl_list r2)" using ap k(2) by (auto simp: apart_def set2 s2)
    have rs: "rkl_set r2 = insert k (rkl_set r)" by (simp add: rkl_set_def set2 s2)
    have pos2: "\<forall>x \<in> set (rkl_list r2). 0 < x" using pos k(1) by (auto simp: set2 rkl_set_def)
    have "cells r2 ! i = k" using i cl by (simp add: r2_def)
    moreover have "i < list_length r2" "solid_begin r2 < solid_end r2" using i s2 iv by simp_all
    ultimately have "rkl_buf r' \<and> list_limit r' = list_limit r2 \<and> sorted_wrt (<) (rkl_list r') \<and>
     solid_begin r' < solid_end r' \<and> apart (solid_begin r') (solid_end r') (rkl_list r') \<and> rkl_set r' = rkl_set r2"
      unfolding ev(2) by (intro swap_solid_ok buf2 so2 pos2 ap2)
    then show ?thesis using rs pos k(1) ev(1) by (simp add: rkl_norm_def)
  qed
qed

definition valid_txnid :: "txnid \<Rightarrow> bool" where
  "valid_txnid k \<longleftrightarrow> MIN_TXNID \<le> k \<and> k < INVALID_TXNID"

lemma valid_txnid_pos: "valid_txnid k \<Longrightarrow> 0 < k"
  by (simp add: valid_txnid_def MIN_TXNID_def)

lemma rkl_inv_norm: "rkl_inv r \<Longrightarrow> solid_begin r < solid_end r \<Longrightarrow> rkl_norm r"
  by (auto simp: rkl_inv_def rkl_norm_def MIN_TXNID_def Suc_le_eq)

lemma rkl_norm_inv: "rkl_norm r \<Longrightarrow> \<forall>x \<in> rkl_set r. valid_txnid x \<Longrightarrow> rkl_inv r"
  by (simp add: rkl_inv_def rkl_norm_def valid_txnid_def)

lemma rkl_inv_valid: "rkl_inv r \<Longrightarrow> x \<in> rkl_set r \<Longrightarrow> valid_txnid x"
  by (simp add: rkl_inv_def valid_txnid_def)

lemma rkl_inv_basic:
  assumes "rkl_inv r"
  shows "rkl_buf r" "sorted_wrt (<) (rkl_list r)" "\<forall>x \<in> set (rkl_list r). 0 < x"
  using assms by (auto simp: rkl_inv_def rkl_set_def MIN_TXNID_def Suc_le_eq)

lemma extend_solid_norm:
  assumes inv: "rkl_inv r" and iv: "0 < sb" "sb < se" "valid_txnid k"
    and below: "\<And>x. x \<in> set (rkl_list r) \<Longrightarrow> x < k \<Longrightarrow> x < sb"
    and above: "\<And>x. x \<in> set (rkl_list r) \<Longrightarrow> k \<le> x \<Longrightarrow> se \<le> x"
    and new: "{sb ..< se} = insert k {solid_begin r ..< solid_end r}"
  shows "\<exists>r'. extend_solid r sb se k = (MDBX_SUCCESS, r') \<and> rkl_inv r' \<and> rkl_set r' = insert k (rkl_set r)"
proof -
  obtain r' where e: "extend_solid r sb se k = (MDBX_SUCCESS, r')" "rkl_buf r'" "sorted_wrt (<) (rkl_list r')"
      "solid_begin r' < solid_end r'" "apart (solid_begin r') (solid_end r') (rkl_list r')"
      "rkl_set r' = {sb ..< se} \<union> set (rkl_list r)"
    using extend_solid_ok[OF rkl_inv_basic[OF inv] iv(1,2) below above] by blast
  have s: "rkl_set r' = insert k (rkl_set r)" unfolding e(6) new by (auto simp: rkl_set_def)
  have "\<forall>x \<in> rkl_set r'. valid_txnid x" using s iv(3) rkl_inv_valid[OF inv] by auto
  then have "rkl_inv r'" using e by (intro rkl_norm_inv) (auto simp: rkl_norm_def dest: valid_txnid_pos)
  then show ?thesis using e(1) s by blast
qed

lemma rkl_push_fresh:
  assumes inv: "rkl_inv r" and m: "malloc_ok alloc" and v: "valid_txnid k" and new: "k \<notin> rkl_set r"
    and e: "rkl_push alloc r k = (err, r')"
  shows "err = MDBX_SUCCESS \<and> rkl_inv r' \<and> rkl_set r' = insert k (rkl_set r)
       \<or> err \<in> {MDBX_TXN_FULL, MDBX_ENOMEM} \<and> r' = r"
proof -
  let ?L = "rkl_list r"
  have kL: "k \<notin> set ?L" and kS: "\<not> (solid_begin r \<le> k \<and> k < solid_end r)" using new by (auto simp: rkl_set_def)
  have k0: "0 < k" by (rule valid_txnid_pos[OF v])
  have neq: "x \<noteq> k" if "x \<in> set ?L" for x using that kL by blast
  consider "solid_end r \<le> solid_begin r"
    | "solid_begin r < solid_end r" "k + 1 = solid_begin r"
    | "solid_begin r < solid_end r" "k = solid_end r"
    | "solid_begin r < solid_end r" "k + 1 < solid_begin r \<or> solid_end r < k"
    using kS by linarith
  then show ?thesis
  proof cases
    case 1
    have "\<exists>r'. extend_solid r k (k + 1) k = (MDBX_SUCCESS, r') \<and> rkl_inv r' \<and> rkl_set r' = insert k (rkl_set r)"
    proof (rule extend_solid_norm[OF inv k0 _ v])
      show "k + 1 \<le> x" if "x \<in> set ?L" "k \<le> x" for x using that neq[of x] by simp
    qed (use 1 in auto)
    then show ?thesis using 1 e by (auto simp: rkl_push_def)
  next
    case 2
    have n: "rkl_norm r" by (rule rkl_inv_norm[OF inv 2(1)])
    have "\<exists>r'. extend_solid r k (solid_end r) k = (MDBX_SUCCESS, r') \<and> rkl_inv r' \<and> rkl_set r' = insert k (rkl_set r)"
    proof (rule extend_solid_norm[OF inv k0 _ v])
      show "solid_end r \<le> x" if "x \<in> set ?L" "k \<le> x" for x
        using that neq[of x] n 2 by (auto simp: rkl_norm_def apart_def)
    qed (use 2 in auto)
    then show ?thesis using 2 e by (auto simp: rkl_push_def)
  next
    case 3
    have n: "rkl_norm r" by (rule rkl_inv_norm[OF inv 3(1)])
    have "\<exists>r'. extend_solid r (solid_begin r) (k + 1) k = (MDBX_SUCCESS, r') \<and> rkl_inv r' \<and> rkl_set r' = insert k (rkl_set r)"
    proof (rule extend_solid_norm[OF inv _ _ v])
      show "0 < solid_begin r" using n 3 by (auto simp: rkl_norm_def rkl_set_def)
      show "x < solid_begin r" if "x \<in> set ?L" "x < k" for x
        using that n 3 by (auto simp: rkl_norm_def apart_def)
      show "k + 1 \<le> x" if "x \<in> set ?L" "k \<le> x" for x using that neq[of x] by simp
    qed (use 3 in auto)
    then show ?thesis using 3 e by (auto simp: rkl_push_def)
  next
    case 4
    have n: "rkl_norm r" by (rule rkl_inv_norm[OF inv 4(1)])
    have "push_list alloc r k = (err, r')" using 4 e by (auto simp: rkl_push_def split: if_splits)
    from push_list_fresh[OF n m this k0 4(2) kL] show ?thesis
      using rkl_inv_valid[OF inv] v by (auto intro!: rkl_norm_inv)
  qed
qed

text \<open>
  Pushing an id that is already there. The interval never changes; the list is restored except for
  its last cell, which the undo loop of the insertion leaves overwritten by its predecessor when at
  least two greater ids follow the duplicate.
\<close>

lemma rkl_push_dup_solid:
  "solid_begin r \<le> k \<Longrightarrow> k < solid_end r \<Longrightarrow> rkl_push alloc r k = (MDBX_RESULT_TRUE, r)"
  by (simp add: rkl_push_def)

lemma rkl_push_dup_list:
  assumes inv: "rkl_inv r" and iv: "solid_begin r < solid_end r" and k: "k \<in> set (rkl_list r)"
    and room: "list_length r < list_limit r" and e: "rkl_push alloc r k = (err, r')"
  shows "err = MDBX_RESULT_TRUE \<and> solid_begin r' = solid_begin r \<and> solid_end r' = solid_end r \<and>
     list_length r' = list_length r \<and>
     rkl_list r' = (if rkl_bsearch (rkl_list r) k + 2 < list_length r
       then (rkl_list r)[list_length r - 1 := rkl_list r ! (list_length r - 2)] else rkl_list r)"
proof -
  let ?L = "rkl_list r" and ?n = "list_length r"
  have n: "rkl_norm r" by (rule rkl_inv_norm[OF inv iv])
  note B = rkl_inv_basic[OF inv]
  have ap: "k + 1 < solid_begin r \<or> solid_end r < k" using n k by (simp add: rkl_norm_def apart_def)
  have e1: "push_list alloc r k = (err, r')" using e ap iv by (auto simp: rkl_push_def split: if_splits)
  have len: "length ?L = ?n" using B(1) by simp
  obtain l i dup where s: "insert_shift (cells r) k ?n = (l, i, dup)" by (metis prod_cases3)
  have cl: "?n < length (cells r)" using room B(1) by (simp add: rkl_buf_def)
  have L: "take ?n (cells r) = ?L" by (simp add: rkl_list_def)
  have d: dup using insert_shift_dup[OF s cl] B(2) k L by simp
  note S = insert_shift_spec[OF s cl]
  have i: "0 < i" "i \<le> ?n" "?L ! (i - 1) = k" using S d B(1) by (auto simp: nth_rkl_list)
  have "rkl_bsearch ?L k = i - 1"
  proof -
    have "rkl_bsearch ?L k \<le> i - 1"
      using rkl_bsearch_before[OF B(2), of "i - 1" k] i(3) by (meson less_irrefl not_le)
    moreover have "i - 1 \<le> rkl_bsearch ?L k"
    proof (rule ccontr)
      assume "\<not> i - 1 \<le> rkl_bsearch ?L k"
      then have "?L ! rkl_bsearch ?L k < k"
        using sorted_wrt_less_nth[OF B(2), of "rkl_bsearch ?L k" "i - 1"] i len by simp
      moreover have "k \<le> ?L ! rkl_bsearch ?L k" using rkl_bsearch_mem[OF B(2), of k] k by simp
      ultimately show False by simp
    qed
    ultimately show ?thesis by simp
  qed
  moreover have nc: "\<not> (?n = 1 \<and> solid_end r = solid_begin r + 1 \<and> (cells r ! 0 = k + 1 \<or> cells r ! 0 = dec64 k))"
  proof
    assume a: "?n = 1 \<and> solid_end r = solid_begin r + 1 \<and> (cells r ! 0 = k + 1 \<or> cells r ! 0 = dec64 k)"
    then have "?L = [cells r ! 0]" using B(1) by (intro nth_equalityI) (auto simp: nth_rkl_list)
    moreover have "0 < k" using B(3) k by blast
    ultimately show False using a k by auto
  qed
  moreover have "err = MDBX_RESULT_TRUE" "r' = r\<lparr>cells := copy_fwd l i (i + 1) (?n - 1 - i)\<rparr>"
    using e1[unfolded push_list_def if_not_P[OF nc]] room s d by simp_all
  moreover have "take ?n (copy_fwd l i (i + 1) (?n - 1 - i)) =
     (if i + 1 < ?n then ?L[?n - 1 := ?L ! (?n - 2)] else ?L)"
    using undone_list[of "cells r" k ?n l i] s d cl by (simp add: rkl_list_def)
  moreover have "i + 1 < ?n \<longleftrightarrow> (i - 1) + 2 < ?n" using i(1) by simp
  ultimately show ?thesis by (simp add: rkl_list_def)
qed

lemma rkl_push_dup_only_list:
  assumes "rkl_inv r" "\<not> solid_begin r < solid_end r" "k \<in> set (rkl_list r)"
  shows "rkl_push alloc r k = (MDBX_RESULT_TRUE, r)"
  using extend_solid_dup[OF rkl_inv_basic[OF assms(1)] assms(3)] assms(2) by (simp add: rkl_push_def)

end
