(* ===== verification/Rkl_Ops.thy ===== *)
theory Rkl_Ops
  imports Rkl_Set
begin

text \<open>
  The remaining operations of the txnid sets, specified over \<open>rkl_set\<close>: membership, size and edges,
  removal of an edge, merging (through the interface \<open>id_sink\<close>), iteration in both directions, the
  search for a gap and the code's own check; and the properties of the component.
\<close>

subsection \<open>Queries\<close>

text \<open>The ids in ascending order: the list with the interval spliced in.\<close>

definition rkl_elems :: "rkl \<Rightarrow> txnid list" where
  "rkl_elems r = (if solid_empty r then rkl_list r
     else let off = rkl_bsearch (rkl_list r) (solid_begin r)
          in take off (rkl_list r) @ [solid_begin r ..< solid_end r] @ drop off (rkl_list r))"

lemma solid_empty_iff: "solid_empty r \<longleftrightarrow> \<not> solid_begin r < solid_end r"
  by (simp add: solid_empty_def)

lemma set_rkl_elems: "set (rkl_elems r) = rkl_set r"
proof (cases "solid_empty r")
  case False
  have "set (take n xs) \<union> set (drop n xs) = set xs" for n and xs :: "txnid list"
    by (metis append_take_drop_id set_append)
  then show ?thesis using False by (auto simp: rkl_elems_def rkl_set_def Let_def)
qed (simp add: rkl_elems_def rkl_set_def solid_empty_iff)

text \<open>A list element before the place of the interval is below it, one after it is above it.\<close>

lemma solid_place:
  assumes n: "rkl_norm r" and j: "j < list_length r"
  shows "if j < rkl_bsearch (rkl_list r) (solid_begin r) then rkl_list r ! j + 1 < solid_begin r
         else solid_end r < rkl_list r ! j"
proof -
  have buf: "rkl_buf r" and so: "sorted_wrt (<) (rkl_list r)" and iv: "solid_begin r < solid_end r"
    and ap: "apart (solid_begin r) (solid_end r) (rkl_list r)" using n by (simp_all add: rkl_norm_def)
  have "rkl_list r ! j + 1 < solid_begin r \<or> solid_end r < rkl_list r ! j"
    using ap j buf by (simp add: apart_def)
  then show ?thesis
    using rkl_bsearch_before[OF so, of j "solid_begin r"] rkl_bsearch_after[OF so, of "solid_begin r" j] j buf iv
    by (auto split: if_splits)
qed

lemma sorted_rkl_elems:
  assumes "rkl_inv r"
  shows "sorted_wrt (<) (rkl_elems r)"
proof (cases "solid_empty r")
  case True
  then show ?thesis using rkl_inv_basic[OF assms] by (simp add: rkl_elems_def)
next
  case False
  then have n: "rkl_norm r" using assms by (intro rkl_inv_norm) (simp_all add: solid_empty_iff)
  then have so: "sorted_wrt (<) (rkl_list r)" and len: "length (rkl_list r) = list_length r"
    and iv: "solid_begin r < solid_end r" by (simp_all add: rkl_norm_def)
  define off where "off = rkl_bsearch (rkl_list r) (solid_begin r)"
  have lo: "x < solid_begin r" if x: "x \<in> set (take off (rkl_list r))" for x
  proof -
    obtain j where "j < length (take off (rkl_list r))" "take off (rkl_list r) ! j = x" using x by (metis in_set_conv_nth)
    then show ?thesis using solid_place[OF n, of j] len by (simp add: off_def)
  qed
  have hi: "solid_end r \<le> x" if x: "x \<in> set (drop off (rkl_list r))" for x
  proof -
    obtain j where "j < length (drop off (rkl_list r))" "drop off (rkl_list r) ! j = x" using x by (metis in_set_conv_nth)
    moreover have "off + j < list_length r" using calculation(1) len by simp
    ultimately show ?thesis using solid_place[OF n, of "off + j"] len by (simp add: off_def)
  qed
  have "sorted_wrt (<) (take off (rkl_list r) @ [solid_begin r ..< solid_end r] @ drop off (rkl_list r))"
    using lo hi iv sorted_wrt_take[OF so] sorted_wrt_drop[OF so] by (intro sorted_wrt_appendI) force+
  then show ?thesis using False by (simp add: rkl_elems_def off_def Let_def)
qed

lemma strict_sorted_eq:
  assumes "sorted_wrt (<) (xs :: nat list)"
  shows "xs = sorted_list_of_set (set xs)"
  using assms sorted_list_of_set.idem_if_sorted_distinct strict_sorted_iff by metis

lemma rkl_elems_eq: "rkl_inv r \<Longrightarrow> rkl_elems r = sorted_list_of_set (rkl_set r)"
  using strict_sorted_eq[OF sorted_rkl_elems] by (simp add: set_rkl_elems)

lemma finite_rkl_set [simp]: "finite (rkl_set r)"
  by (simp add: rkl_set_def)

lemma rkl_inv_empty: "rkl_inv r \<Longrightarrow> rkl_empty r \<longleftrightarrow> rkl_set r = {}"
  using rkl_list_nil[of r] by (auto simp: rkl_inv_def rkl_empty_def rkl_set_def UINT64_MAX_def split: if_splits)

lemma length_rkl_elems:
  assumes "rkl_inv r"
  shows "length (rkl_elems r) = rkl_len r"
proof (cases "rkl_empty r")
  case True
  then have "set (rkl_elems r) = {}" using rkl_inv_empty[OF assms] by (simp add: set_rkl_elems)
  then show ?thesis using True by (simp add: rkl_len_def)
next
  case False
  then show ?thesis using assms rkl_inv_basic[OF assms]
    by (auto simp: rkl_len_def rkl_elems_def solid_empty_iff rkl_empty_def Let_def)
qed

lemma rkl_len_card: "rkl_inv r \<Longrightarrow> rkl_len r = card (rkl_set r)"
  using length_rkl_elems[of r] rkl_elems_eq[of r] by (metis finite_rkl_set sorted_list_of_set.length_sorted_key_list_of_set)

lemma rkl_contain_iff:
  assumes "rkl_inv r"
  shows "rkl_contain r k \<longleftrightarrow> k \<in> rkl_set r"
proof -
  note B = rkl_inv_basic[OF assms]
  have le: "rkl_bsearch (rkl_list r) k \<le> list_length r" using rkl_bsearch_le[OF B(2)] B(1) by simp
  have "k \<in> set (rkl_list r) \<longleftrightarrow> rkl_bsearch (rkl_list r) k < list_length r \<and> cells r ! rkl_bsearch (rkl_list r) k = k"
    using rkl_bsearch_mem[OF B(2), of k] B(1) nth_rkl_list[OF B(1)] by auto
  moreover have "rkl_bsearch (rkl_list r) k < list_length r \<longleftrightarrow> 0 < list_length r \<and> rkl_bsearch (rkl_list r) k \<noteq> list_length r"
    using le by auto
  ultimately show ?thesis by (auto simp: rkl_contain_def rkl_set_def Let_def)
qed

lemma nth_rkl_elems:
  fixes dir :: bool
  assumes inv: "rkl_inv r" and p: "p < rkl_len r"
  defines "off \<equiv> solid_offset (rkl_iterator r dir)"
  shows "rkl_elems r ! p =
    (if list_length r > 0 then
       if p < off then cells r ! p
       else if p < off + (solid_end r - solid_begin r) then solid_begin r + p - off
       else cells r ! (p - (solid_end r - solid_begin r))
     else solid_begin r + p)"
proof -
  note B = rkl_inv_basic[OF inv]
  have nil: "list_length r = 0 \<longleftrightarrow> rkl_list r = []" by (rule rkl_list_nil[OF B(1)])
  have len: "length (rkl_list r) = list_length r" using B(1) by simp
  have e: "\<not> rkl_empty r" using p by (auto simp: rkl_len_def)
  then have p': "p < solid_end r - solid_begin r + list_length r" using p by (simp add: rkl_len_def)
  show ?thesis
  proof (cases "solid_empty r")
    case True
    then have "off = 0" "solid_end r - solid_begin r = 0" "rkl_elems r = rkl_list r"
      by (simp_all add: off_def rkl_iterator_def rkl_elems_def solid_empty_iff)
    then show ?thesis using p' B(1) by (auto simp: nth_rkl_list)
  next
    case False
    show ?thesis
    proof (cases "list_length r > 0")
      case l: True
      then have off: "off = rkl_bsearch (rkl_list r) (solid_begin r)" using False by (simp add: off_def rkl_iterator_def)
      have "off \<le> list_length r" using rkl_bsearch_le[OF B(2)] len off by metis
      then show ?thesis using False l p' len off nth_rkl_list[OF B(1)]
        by (auto simp: rkl_elems_def nth_append Let_def)
    next
      case l: False
      then show ?thesis using False nil p' by (simp add: rkl_elems_def)
    qed
  qed
qed

subsection \<open>Edges and removal\<close>

lemma rkl_list_solid [simp]:
  "rkl_list (r\<lparr>solid_end := e\<rparr>) = rkl_list r" "rkl_list (r\<lparr>solid_begin := b\<rparr>) = rkl_list r"
  by (simp_all add: rkl_list_def)

lemma rkl_buf_solid [simp]:
  "rkl_buf (r\<lparr>solid_end := e\<rparr>) = rkl_buf r" "rkl_buf (r\<lparr>solid_begin := b\<rparr>) = rkl_buf r"
  by (simp_all add: rkl_buf_def)

lemma after_cut_ok:
  assumes "rkl_buf r" "sorted_wrt (<) (rkl_list r)" "\<forall>x \<in> rkl_set r. valid_txnid x"
    "solid_begin r < solid_end r \<Longrightarrow> apart (solid_begin r) (solid_end r) (rkl_list r)"
    "solid_begin r \<le> solid_end r"
  shows "rkl_inv (after_cut r) \<and> rkl_set (after_cut r) = rkl_set r"
proof (cases "list_length r = 0 \<and> solid_begin r = solid_end r")
  case True
  then have "rkl_list r = []" by (simp add: rkl_list_def)
  then have "after_cut r = r\<lparr>solid_end := 0, solid_begin := UINT64_MAX\<rparr>" "rkl_set r = {}"
    "rkl_list (after_cut r) = []" using True by (simp_all add: after_cut_def rkl_set_def rkl_list_def)
  then show ?thesis using assms(1) True by (simp add: rkl_inv_def rkl_buf_def rkl_set_def)
next
  case False
  then have "after_cut r = r" by (auto simp: after_cut_def)
  then show ?thesis using assms False by (auto simp: rkl_inv_def valid_txnid_def)
qed

lemma rkl_list_butlast:
  assumes "rkl_buf r" "0 < list_length r"
  shows "rkl_list (r\<lparr>list_length := list_length r - 1\<rparr>) = butlast (rkl_list r)"
    "cells r ! (list_length r - 1) = last (rkl_list r)"
proof -
  have n: "rkl_list r \<noteq> []" using rkl_list_nil[OF assms(1)] assms(2) by simp
  show "rkl_list (r\<lparr>list_length := list_length r - 1\<rparr>) = butlast (rkl_list r)"
    using assms by (simp add: rkl_list_def rkl_buf_def butlast_take)
  show "cells r ! (list_length r - 1) = last (rkl_list r)"
    using assms n nth_rkl_list[OF assms(1), of "list_length r - 1"] by (simp add: last_conv_nth)
qed

lemma rkl_list_tl:
  assumes "rkl_buf r" "0 < list_length r"
  shows "rkl_list (snd (list_remove_first r)) = tl (rkl_list r)" "fst (list_remove_first r) = hd (rkl_list r)"
    "rkl_buf (snd (list_remove_first r))"
proof -
  have n: "rkl_list r \<noteq> []" using rkl_list_nil[OF assms(1)] assms(2) by simp
  show "fst (list_remove_first r) = hd (rkl_list r)"
    using assms n nth_rkl_list[OF assms(1), of 0] by (simp add: hd_conv_nth list_remove_first_def)
  show "rkl_buf (snd (list_remove_first r))" using assms(1) by (simp add: rkl_buf_def list_remove_first_def le_diff_conv)
  have "rkl_list (snd (list_remove_first r)) = take (list_length r - 1) (copy_fwd (cells r) 0 1 (list_length r - 1))"
    by (simp add: rkl_list_def list_remove_first_def)
  also have "\<dots> = take (list_length r - 1) (drop 1 (cells r))"
    using take_copy_fwd[of 0 1 "list_length r - 1" "cells r"] assms by (simp add: rkl_buf_def)
  also have "\<dots> = drop 1 (take (list_length r) (cells r))" by (simp add: drop_take)
  also have "\<dots> = tl (rkl_list r)" by (simp add: rkl_list_def drop_Suc)
  finally show "rkl_list (snd (list_remove_first r)) = tl (rkl_list r)" .
qed

lemma sorted_wrt_less_ends:
  assumes "sorted_wrt (<) (xs :: nat list)" "xs \<noteq> []"
  shows "set (butlast xs) = set xs - {last xs}" "\<forall>x \<in> set xs. x \<le> last xs"
    "set (tl xs) = set xs - {hd xs}" "\<forall>x \<in> set xs. hd xs \<le> x" "sorted_wrt (<) (butlast xs)" "sorted_wrt (<) (tl xs)"
proof -
  have d: "distinct xs" by (rule sorted_wrt_less_distinct[OF assms(1)])
  show "set (butlast xs) = set xs - {last xs}" "\<forall>x \<in> set xs. x \<le> last xs" "sorted_wrt (<) (butlast xs)"
    using assms d by (cases xs rule: rev_cases; auto simp: sorted_wrt_append less_imp_le)+
  show "set (tl xs) = set xs - {hd xs}" "\<forall>x \<in> set xs. hd xs \<le> x" "sorted_wrt (<) (tl xs)"
    using assms d by (cases xs; auto simp: less_imp_le)+
qed

lemma rkl_inv_solid_le: "rkl_inv r \<Longrightarrow> 0 < list_length r \<Longrightarrow> solid_begin r \<le> solid_end r"
  by (auto simp: rkl_inv_def split: if_splits)

lemma rkl_inv_apart:
  "rkl_inv r \<Longrightarrow> solid_begin r < solid_end r \<Longrightarrow> apart (solid_begin r) (solid_end r) (rkl_list r)"
  by (simp add: rkl_inv_def)

lemma apart_subset: "apart sb se L \<Longrightarrow> set L' \<subseteq> set L \<Longrightarrow> sb \<le> sb' \<Longrightarrow> se' \<le> se \<Longrightarrow> apart sb' se' L'"
  by (fastforce simp: apart_def)

lemma rkl_pop_list_ok:
  assumes inv: "rkl_inv r" and l: "0 < list_length r" and buf: "rkl_buf r'"
    and s: "solid_begin r' = solid_begin r" "solid_end r' = solid_end r"
    and L: "set (rkl_list r') = set (rkl_list r) - {k}" "sorted_wrt (<) (rkl_list r')" and k: "k \<notin> {solid_begin r ..< solid_end r}"
  shows "rkl_inv (after_cut r') \<and> rkl_set (after_cut r') = rkl_set r - {k}"
proof -
  have "rkl_set r' = rkl_set r - {k}" using k by (auto simp: rkl_set_def s L)
  moreover have "rkl_inv (after_cut r') \<and> rkl_set (after_cut r') = rkl_set r'"
    using buf L(2) rkl_inv_solid_le[OF inv l] calculation rkl_inv_valid[OF inv] rkl_inv_apart[OF inv] s L(1)
    by (intro after_cut_ok) (auto intro: apart_subset)
  ultimately show ?thesis by simp
qed

lemma rkl_pop_highest:
  assumes inv: "rkl_inv r" and ne: "rkl_set r \<noteq> {}" and e: "rkl_pop r True = (k, r')"
  shows "k = Max (rkl_set r) \<and> rkl_inv r' \<and> rkl_set r' = rkl_set r - {k}"
proof -
  note B = rkl_inv_basic[OF inv]
  have maxI: "k = Max (rkl_set r)" if "k \<in> rkl_set r" "\<And>x. x \<in> rkl_set r \<Longrightarrow> x \<le> k"
    using that by (intro Max_eqI[symmetric]) auto
  show ?thesis
  proof (cases "list_length r > 0 \<and> (solid_empty r \<or> solid_end r < cells r ! (list_length r - 1))")
    case True
    then have l: "0 < list_length r" "rkl_list r \<noteq> []" using rkl_list_nil[OF B(1)] by auto
    note E = sorted_wrt_less_ends[OF B(2) l(2)] and U = rkl_list_butlast[OF B(1) l(1)]
    let ?r = "r\<lparr>list_length := list_length r - 1\<rparr>"
    have k: "k = last (rkl_list r)" and r': "r' = after_cut ?r"
      using e True by (simp_all add: rkl_pop_def U(2)[symmetric])
    have out: "k \<notin> {solid_begin r ..< solid_end r}" using True U(2) k by (auto simp: solid_empty_iff)
    have "rkl_inv r' \<and> rkl_set r' = rkl_set r - {k}" unfolding r'
    proof (rule rkl_pop_list_ok[OF inv l(1) _ _ _ _ _ out])
      show "rkl_buf ?r" using B(1) by (auto simp: rkl_buf_def)
    qed (use U(1) E k in simp_all)
    moreover have "k = Max (rkl_set r)"
    proof (rule maxI)
      show "k \<in> rkl_set r" using l(2) k by (simp add: rkl_set_def)
      fix x assume "x \<in> rkl_set r"
      then show "x \<le> k" using E(2) k True U(2) by (auto simp: rkl_set_def solid_empty_iff)
    qed
    ultimately show ?thesis by simp
  next
    case False
    have iv: "solid_begin r < solid_end r"
    proof (rule ccontr)
      assume "\<not> ?thesis"
      then have "list_length r = 0" "{solid_begin r ..< solid_end r} = {}" using False by (auto simp: solid_empty_iff)
      then show False using ne rkl_list_nil[OF B(1)] by (simp add: rkl_set_def)
    qed
    let ?r = "r\<lparr>solid_end := solid_end r - 1\<rparr>"
    have k: "k = solid_end r - 1" and r': "r' = after_cut ?r"
      using e False iv by (auto simp: rkl_pop_def rkl_pop_solid_def solid_empty_iff split: if_splits)
    have ap: "apart (solid_begin r) (solid_end r) (rkl_list r)" by (rule rkl_inv_apart[OF inv iv])
    have set': "rkl_set ?r = rkl_set r - {k}" using ap iv by (auto simp: rkl_set_def k apart_def)
    have "rkl_inv r' \<and> rkl_set r' = rkl_set ?r" unfolding r'
    proof (rule after_cut_ok)
      show "rkl_buf ?r" using B(1) by (simp add: rkl_buf_def)
      show "apart (solid_begin ?r) (solid_end ?r) (rkl_list ?r)" using ap by (rule apart_subset) simp_all
    qed (use B set' iv rkl_inv_valid[OF inv] in auto)
    moreover have "k = Max (rkl_set r)"
    proof (rule maxI)
      show "k \<in> rkl_set r" using iv k by (auto simp: rkl_set_def)
      fix x assume x: "x \<in> rkl_set r"
      have "y \<le> solid_end r" if "y \<in> set (rkl_list r)" for y
      proof -
        have "0 < list_length r" "rkl_list r \<noteq> []" using that rkl_list_nil[OF B(1)] by fastforce+
        then show ?thesis using that False iv sorted_wrt_less_ends(2)[OF B(2)] rkl_list_butlast(2)[OF B(1)]
          by (force simp: solid_empty_iff)
      qed
      then have "x \<in> set (rkl_list r) \<Longrightarrow> x + 1 < solid_begin r" using ap by (force simp: apart_def)
      then show "x \<le> k" using x k iv by (auto simp: rkl_set_def)
    qed
    ultimately show ?thesis using set' by simp
  qed
qed

lemma rkl_pop_lowest:
  assumes inv: "rkl_inv r" and ne: "rkl_set r \<noteq> {}" and e: "rkl_pop r False = (k, r')"
  shows "k = Min (rkl_set r) \<and> rkl_inv r' \<and> rkl_set r' = rkl_set r - {k}"
proof -
  note B = rkl_inv_basic[OF inv]
  have minI: "k = Min (rkl_set r)" if "k \<in> rkl_set r" "\<And>x. x \<in> rkl_set r \<Longrightarrow> k \<le> x"
    using that by (intro Min_eqI[symmetric]) auto
  show ?thesis
  proof (cases "list_length r > 0 \<and> (solid_empty r \<or> solid_begin r > cells r ! 0)")
    case True
    then have l: "0 < list_length r" "rkl_list r \<noteq> []" using rkl_list_nil[OF B(1)] by auto
    note E = sorted_wrt_less_ends[OF B(2) l(2)] and U = rkl_list_tl[OF B(1) l(1)]
    let ?r = "snd (list_remove_first r)"
    have h: "cells r ! 0 = hd (rkl_list r)" using U(2) by (simp add: list_remove_first_def)
    have k: "k = hd (rkl_list r)" and r': "r' = after_cut ?r"
      using e True by (auto simp: rkl_pop_def list_remove_first_def h split: if_splits)
    have out: "k \<notin> {solid_begin r ..< solid_end r}" using True h k by (auto simp: solid_empty_iff)
    have "rkl_inv r' \<and> rkl_set r' = rkl_set r - {k}" unfolding r'
    proof (rule rkl_pop_list_ok[OF inv l(1) U(3) _ _ _ _ out])
      show "solid_begin ?r = solid_begin r" "solid_end ?r = solid_end r" by (simp_all add: list_remove_first_def)
    qed (use U(1) E k in simp_all)
    moreover have "k = Min (rkl_set r)"
    proof (rule minI)
      show "k \<in> rkl_set r" using l(2) k by (simp add: rkl_set_def)
      fix x assume "x \<in> rkl_set r"
      then show "k \<le> x" using E(4) k True h by (auto simp: rkl_set_def solid_empty_iff)
    qed
    ultimately show ?thesis by simp
  next
    case False
    have iv: "solid_begin r < solid_end r"
    proof (rule ccontr)
      assume "\<not> ?thesis"
      then have "list_length r = 0" "{solid_begin r ..< solid_end r} = {}" using False by (auto simp: solid_empty_iff)
      then show False using ne rkl_list_nil[OF B(1)] by (simp add: rkl_set_def)
    qed
    let ?r = "r\<lparr>solid_begin := solid_begin r + 1\<rparr>"
    have k: "k = solid_begin r" and r': "r' = after_cut ?r"
      using e False iv by (auto simp: rkl_pop_def rkl_pop_solid_def solid_empty_iff split: if_splits)
    have ap: "apart (solid_begin r) (solid_end r) (rkl_list r)" by (rule rkl_inv_apart[OF inv iv])
    have set': "rkl_set ?r = rkl_set r - {k}" using ap iv by (auto simp: rkl_set_def k apart_def)
    have "rkl_inv r' \<and> rkl_set r' = rkl_set ?r" unfolding r'
    proof (rule after_cut_ok)
      show "apart (solid_begin ?r) (solid_end ?r) (rkl_list ?r)" using ap by (rule apart_subset) simp_all
    qed (use B set' iv rkl_inv_valid[OF inv] in auto)
    moreover have "k = Min (rkl_set r)"
    proof (rule minI)
      show "k \<in> rkl_set r" using iv k by (auto simp: rkl_set_def)
      fix x assume x: "x \<in> rkl_set r"
      have "solid_begin r \<le> y" if "y \<in> set (rkl_list r)" for y
      proof -
        have "0 < list_length r" "rkl_list r \<noteq> []" using that rkl_list_nil[OF B(1)] by fastforce+
        then show ?thesis using that False iv sorted_wrt_less_ends(4)[OF B(2)] rkl_list_tl(2)[OF B(1)]
          by (force simp: solid_empty_iff list_remove_first_def)
      qed
      then show "k \<le> x" using x k by (force simp: rkl_set_def)
    qed
    ultimately show ?thesis using set' by simp
  qed
qed

lemma rkl_pop_empty: "rkl_inv r \<Longrightarrow> rkl_set r = {} \<Longrightarrow> rkl_pop r dir = (0, r)"
  using rkl_list_nil[of r] by (auto simp: rkl_pop_def rkl_pop_solid_def solid_empty_iff rkl_set_def rkl_inv_def split: if_splits)

lemma rkl_highest_Max:
  assumes inv: "rkl_inv r" and ne: "rkl_set r \<noteq> {}"
  shows "rkl_highest r = Max (rkl_set r)"
proof -
  obtain k r' where e: "rkl_pop r True = (k, r')" by (meson surj_pair)
  have "rkl_highest r = k"
  proof -
    have "cells r ! (list_length r - 1) \<noteq> solid_end r" if "0 < list_length r" "solid_begin r < solid_end r"
    proof -
      have "last (rkl_list r) \<in> set (rkl_list r)" using rkl_list_nil[OF rkl_inv_basic(1)[OF inv]] that(1) by (intro last_in_set) simp
      then show ?thesis using rkl_inv_apart[OF inv that(2)] rkl_list_butlast(2)[OF rkl_inv_basic(1)[OF inv] that(1)] that(2)
        by (auto simp: apart_def)
    qed
    then show ?thesis using e ne rkl_pop_empty[OF inv] rkl_list_nil[OF rkl_inv_basic(1)[OF inv]]
      by (auto simp: rkl_pop_def rkl_pop_solid_def rkl_highest_def solid_empty_iff rkl_set_def split: if_splits)
  qed
  then show ?thesis using rkl_pop_highest[OF inv ne e] by simp
qed

lemma rkl_lowest_Min:
  assumes inv: "rkl_inv r" and ne: "rkl_set r \<noteq> {}"
  shows "rkl_lowest r = Min (rkl_set r)"
proof -
  obtain k r' where e: "rkl_pop r False = (k, r')" by (meson surj_pair)
  have "rkl_lowest r = k"
    using e ne rkl_pop_empty[OF inv] rkl_list_nil[OF rkl_inv_basic(1)[OF inv]]
    by (auto simp: rkl_pop_def rkl_pop_solid_def rkl_lowest_def list_remove_first_def solid_empty_iff rkl_set_def split: if_splits)
  then show ?thesis using rkl_pop_lowest[OF inv ne e] by simp
qed

subsection \<open>The interface of an id sink, and merging into one\<close>

text \<open>
  What a loop that feeds ids into a container relies on: a fresh valid id is either added or refused
  with a code other than success and duplicate, and a refusal changes nothing.
\<close>

locale id_sink =
  fixes push :: "'s \<Rightarrow> txnid \<Rightarrow> rc \<times> 's"
    and sink_inv :: "'s \<Rightarrow> bool"
    and elems :: "'s \<Rightarrow> txnid set"
  assumes push_fresh: "sink_inv s \<Longrightarrow> valid_txnid k \<Longrightarrow> k \<notin> elems s \<Longrightarrow> push s k = (err, s') \<Longrightarrow>
    err = MDBX_SUCCESS \<and> sink_inv s' \<and> elems s' = insert k (elems s)
    \<or> err \<in> {MDBX_TXN_FULL, MDBX_ENOMEM} \<and> s' = s"
begin


lemma push_all_fresh:
  "sink_inv s \<Longrightarrow> distinct ids \<Longrightarrow> \<forall>k \<in> set ids. valid_txnid k \<and> k \<notin> elems s \<Longrightarrow>
   push_all push ign ids s = (err, s') \<Longrightarrow>
   sink_inv s' \<and> (err = MDBX_SUCCESS \<and> elems s' = elems s \<union> set ids
     \<or> err \<in> {MDBX_TXN_FULL, MDBX_ENOMEM} \<and> (\<exists>n < length ids. elems s' = elems s \<union> set (take n ids)))"
proof (induction ids arbitrary: s)
  case Nil
  then show ?case by auto
next
  case (Cons k ids)
  obtain er s1 where p: "push s k = (er, s1)" by (meson surj_pair)
  have P: "er = MDBX_SUCCESS \<and> sink_inv s1 \<and> elems s1 = insert k (elems s)
      \<or> er \<in> {MDBX_TXN_FULL, MDBX_ENOMEM} \<and> s1 = s"
    using push_fresh[OF Cons.prems(1) _ _ p] Cons.prems(3) by simp
  show ?case
  proof (cases "er = MDBX_SUCCESS")
    case True
    then have s1: "sink_inv s1" "elems s1 = insert k (elems s)" using P by (auto simp: rc_defs)
    have "push_all push ign ids s1 = (err, s')" using Cons.prems(4) p True by simp
    then have "sink_inv s' \<and> (err = MDBX_SUCCESS \<and> elems s' = elems s1 \<union> set ids
     \<or> err \<in> {MDBX_TXN_FULL, MDBX_ENOMEM} \<and> (\<exists>n < length ids. elems s' = elems s1 \<union> set (take n ids)))"
      using Cons.prems(2,3) s1 by (intro Cons.IH) auto
    moreover have "\<exists>m < length (k # ids). elems s' = elems s \<union> set (take m (k # ids))"
      if "n < length ids" "elems s' = elems s1 \<union> set (take n ids)" for n
      using that s1(2) by (intro exI[of _ "Suc n"]) auto
    ultimately show ?thesis using s1(2) by auto
  next
    case False
    then have "er \<in> {MDBX_TXN_FULL, MDBX_ENOMEM}" "s1 = s" using P by auto
    moreover have "err = er" "s' = s1" using Cons.prems(4) p calculation by (auto simp: rc_defs)
    ultimately show ?thesis using Cons.prems(1) by (auto intro!: exI[of _ 0])
  qed
qed

end

interpretation rkl_sink: id_sink "rkl_push alloc" "\<lambda>r. malloc_ok alloc \<and> rkl_inv r" rkl_set for alloc
  by unfold_locales (use rkl_push_fresh in blast)

lemma rkl_merge_fresh:
  assumes src: "rkl_inv src" and dst: "rkl_inv dst" and m: "malloc_ok alloc"
    and disj: "rkl_set src \<inter> rkl_set dst = {}" and e: "rkl_merge alloc src dst ign = (err, dst')"
  shows "rkl_inv dst' \<and> (err = MDBX_SUCCESS \<and> rkl_set dst' = rkl_set dst \<union> rkl_set src
     \<or> err \<in> {MDBX_TXN_FULL, MDBX_ENOMEM} \<and> rkl_set dst \<subseteq> rkl_set dst' \<and> rkl_set dst' \<subset> rkl_set dst \<union> rkl_set src)"
proof -
  note B = rkl_inv_basic[OF src]
  let ?S = "[solid_begin src ..< solid_end src]"
  obtain er d1 where p: "push_all (rkl_push alloc) ign (rev (rkl_list src)) dst = (er, d1)" by (meson surj_pair)
  have dL: "distinct (rev (rkl_list src))" using sorted_wrt_less_distinct[OF B(2)] by simp
  have vL: "\<forall>k \<in> set (rev (rkl_list src)). valid_txnid k \<and> k \<notin> rkl_set dst"
    using disj rkl_inv_valid[OF src] by (auto simp: rkl_set_def[of src])
  note P = rkl_sink.push_all_fresh[OF conjI[OF m dst] dL vL p]
  have LS: "set (rkl_list src) \<inter> set ?S = {}"
  proof (cases "solid_begin src < solid_end src")
    case True
    then show ?thesis using rkl_inv_apart[OF src True] by (fastforce simp: apart_def)
  qed simp
  have new: "k \<in> rkl_set src" "k \<notin> rkl_set dst" if "k \<in> set (rkl_list src) \<union> set ?S" for k
    using that disj by (auto simp: rkl_set_def[of src])
  show ?thesis
  proof (cases "er = MDBX_SUCCESS")
    case True
    then have d1: "rkl_inv d1" "rkl_set d1 = rkl_set dst \<union> set (rkl_list src)" using P by (auto simp: rc_defs)
    have "push_all (rkl_push alloc) ign ?S d1 = (err, dst')" using e p True by (simp add: rkl_merge_def)
    moreover have "\<forall>k \<in> set ?S. valid_txnid k \<and> k \<notin> rkl_set d1"
      using LS new(2) rkl_inv_valid[OF src new(1)] by (auto simp: d1)
    ultimately have Q: "rkl_inv dst' \<and> (err = MDBX_SUCCESS \<and> rkl_set dst' = rkl_set d1 \<union> set ?S \<or>
      err \<in> {MDBX_TXN_FULL, MDBX_ENOMEM} \<and> (\<exists>n < length ?S. rkl_set dst' = rkl_set d1 \<union> set (take n ?S)))"
      using rkl_sink.push_all_fresh[OF conjI[OF m d1(1)] distinct_upt] by blast
    show ?thesis
    proof (cases "err = MDBX_SUCCESS")
      case True
      then show ?thesis using Q d1(2) by (auto simp: rkl_set_def[of src] rc_defs)
    next
      case False
      then obtain n where n: "n < length ?S" "rkl_set dst' = rkl_set d1 \<union> set (take n ?S)" using Q by auto
      have "?S ! n \<in> set ?S" using n(1) nth_mem by blast
      moreover have "?S ! n \<notin> set (take n ?S)" using n(1) by (auto simp: in_set_conv_nth)
      ultimately have "?S ! n \<in> rkl_set src - rkl_set dst'" using n(2) d1(2) LS new[of "?S ! n"] by auto
      moreover have "rkl_set dst' \<subseteq> rkl_set dst \<union> rkl_set src"
        using n(2) d1(2) set_take_subset[of n ?S] by (auto simp: rkl_set_def[of src])
      ultimately show ?thesis using False Q n(2) d1(2) by auto
    qed
  next
    case False
    then have d1: "rkl_inv d1" "er \<in> {MDBX_TXN_FULL, MDBX_ENOMEM}" using P by auto
    obtain n where n: "n < length (rkl_list src)" "rkl_set d1 = rkl_set dst \<union> set (take n (rev (rkl_list src)))"
      using P False by auto
    have ev: "err = er" "dst' = d1" using e p False by (simp_all add: rkl_merge_def)
    have "rev (rkl_list src) ! n \<in> set (rkl_list src)" using n(1) by (metis length_rev nth_mem set_rev)
    moreover have "rev (rkl_list src) ! n \<notin> set (take n (rev (rkl_list src)))"
      using n(1) dL by (auto simp: in_set_conv_nth nth_eq_iff_index_eq)
    ultimately have "rev (rkl_list src) ! n \<in> rkl_set src - rkl_set dst'" using n(2) ev new by auto
    moreover have "rkl_set dst' \<subseteq> rkl_set dst \<union> rkl_set src"
      using n(2) ev set_take_subset[of n "rev (rkl_list src)"] by (auto simp: rkl_set_def[of src])
    ultimately show ?thesis using ev d1 n(2) by auto
  qed
qed

subsection \<open>Iterating\<close>

lemma rkl_turn_fwd:
  assumes "rkl_inv r" "p < rkl_len r"
  shows "rkl_turn r ((rkl_iterator r dir)\<lparr>pos := p\<rparr>) False =
    (rkl_elems r ! p, (rkl_iterator r dir)\<lparr>pos := p + 1\<rparr>)"
proof -
  define d where "d = solid_end r - solid_begin r"
  show ?thesis unfolding nth_rkl_elems[OF assms, of dir] rkl_turn_def Let_def d_def[symmetric]
    using assms(2) by simp
qed

lemma rkl_turn_rev:
  assumes "rkl_inv r" "0 < p" "p \<le> rkl_len r"
  shows "rkl_turn r ((rkl_iterator r dir)\<lparr>pos := p\<rparr>) True =
    (rkl_elems r ! (p - 1), (rkl_iterator r dir)\<lparr>pos := p - 1\<rparr>)"
proof -
  obtain q where q: "p = Suc q" "q < rkl_len r" using assms(2,3) by (cases p) auto
  define d where "d = solid_end r - solid_begin r"
  show ?thesis unfolding q(1) diff_Suc_1 nth_rkl_elems[OF assms(1) q(2), of dir] rkl_turn_def Let_def d_def[symmetric]
    using q(2) by simp
qed

text \<open>\<open>n\<close> turns in a row.\<close>

fun rkl_turns :: "rkl \<Rightarrow> bool \<Rightarrow> nat \<Rightarrow> rkl_iter \<Rightarrow> txnid list" where
  "rkl_turns r reverse 0 iter = []"
| "rkl_turns r reverse (Suc n) iter =
     (let (k, iter) = rkl_turn r iter reverse in k # rkl_turns r reverse n iter)"

lemma rkl_turns_fwd:
  "rkl_inv r \<Longrightarrow> p + n \<le> rkl_len r \<Longrightarrow>
   rkl_turns r False n ((rkl_iterator r dir)\<lparr>pos := p\<rparr>) = take n (drop p (rkl_elems r))"
proof (induction n arbitrary: p)
  case (Suc n)
  then have "take (Suc n) (drop p (rkl_elems r)) = rkl_elems r ! p # take n (drop (p + 1) (rkl_elems r))"
    using length_rkl_elems[OF Suc.prems(1)] by (simp add: Cons_nth_drop_Suc[symmetric])
  then show ?case using Suc rkl_turn_fwd[OF Suc.prems(1), of p dir] by simp
qed simp

lemma rkl_turns_rev:
  "rkl_inv r \<Longrightarrow> n \<le> p \<Longrightarrow> p \<le> rkl_len r \<Longrightarrow>
   rkl_turns r True n ((rkl_iterator r dir)\<lparr>pos := p\<rparr>) = take n (rev (take p (rkl_elems r)))"
proof (induction n arbitrary: p)
  case (Suc n)
  then have "take p (rkl_elems r) = take (p - 1) (rkl_elems r) @ [rkl_elems r ! (p - 1)]"
    using length_rkl_elems[OF Suc.prems(1)] take_Suc_conv_app_nth[of "p - 1" "rkl_elems r"] by simp
  then have "take (Suc n) (rev (take p (rkl_elems r))) = rkl_elems r ! (p - 1) # take n (rev (take (p - 1) (rkl_elems r)))"
    by simp
  then show ?case using Suc rkl_turn_rev[OF Suc.prems(1), of p dir] by simp
qed simp

lemma rkl_iterator_pos [simp]: "pos (rkl_iterator r dir) = (if dir then rkl_len r else 0)"
  by (simp add: rkl_iterator_def)

lemma rkl_turns_all:
  assumes "rkl_inv r"
  shows "rkl_turns r False (rkl_len r) (rkl_iterator r False) = sorted_list_of_set (rkl_set r)"
    "rkl_turns r True (rkl_len r) (rkl_iterator r True) = rev (sorted_list_of_set (rkl_set r))"
proof -
  have i: "(rkl_iterator r False)\<lparr>pos := 0\<rparr> = rkl_iterator r False"
    "(rkl_iterator r True)\<lparr>pos := rkl_len r\<rparr> = rkl_iterator r True"
    by (simp_all add: rkl_iterator_def)
  show "rkl_turns r False (rkl_len r) (rkl_iterator r False) = sorted_list_of_set (rkl_set r)"
    using rkl_turns_fwd[OF assms, of 0 "rkl_len r" False] rkl_elems_eq[OF assms] length_rkl_elems[OF assms] by (simp add: i)
  show "rkl_turns r True (rkl_len r) (rkl_iterator r True) = rev (sorted_list_of_set (rkl_set r))"
    using rkl_turns_rev[OF assms, of "rkl_len r" "rkl_len r" True] rkl_elems_eq[OF assms] length_rkl_elems[OF assms]
    by (simp add: i)
qed

subsection \<open>The code's check accepts every reachable state\<close>

lemma rkl_inv_check:
  assumes inv: "rkl_inv r"
  shows "rkl_check r"
proof -
  note B = rkl_inv_basic[OF inv]
  have e: "rkl_empty r \<Longrightarrow> list_length r = 0 \<and> solid_empty r"
    using inv by (auto simp: rkl_empty_def solid_empty_iff rkl_inv_def split: if_splits)
  have s: "list_all (\<lambda>i. cells r ! (i - 1) < cells r ! i) [1 ..< list_length r]"
    using sorted_wrt_less_nth[OF B(2)] B(1) by (force simp: list_all_iff nth_rkl_list[symmetric])
  have p: "\<not> (off > 0 \<and> cells r ! (off - 1) \<ge> solid_begin r)" "\<not> (off < list_length r \<and> cells r ! off \<le> solid_end r)"
    if off: "off = rkl_bsearch (rkl_list r) (solid_begin r)" and iv: "\<not> solid_empty r" for off
  proof -
    have n: "rkl_norm r" using inv iv by (intro rkl_inv_norm) (simp_all add: solid_empty_iff)
    have "off \<le> list_length r" using rkl_bsearch_le[OF B(2)] B(1) off by simp
    then show "\<not> (off > 0 \<and> cells r ! (off - 1) \<ge> solid_begin r)" "\<not> (off < list_length r \<and> cells r ! off \<le> solid_end r)"
      using solid_place[OF n, of "off - 1", folded off] solid_place[OF n, of off, folded off] nth_rkl_list[OF B(1)]
      by (cases "0 < off"; cases "off < list_length r"; force)+
  qed
  have "\<not> (\<not> on_heap r \<and> list_limit r \<noteq> rkl_inplace_size)" "\<not> list_limit r < rkl_inplace_size"
    using B(1) by (auto simp: rkl_buf_def)
  then show ?thesis using e s p[OF refl] by (simp only: rkl_check_def if_False Let_def) (simp split: if_splits)
qed

lemma rkl_init_inv: "length inplace = rkl_inplace_size \<Longrightarrow> rkl_inv (rkl_init inplace) \<and> rkl_set (rkl_init inplace) = {}"
  by (simp add: rkl_init_def rkl_clear_def rkl_inv_def rkl_buf_def rkl_set_def rkl_list_def rkl_inplace_size_def)

lemma rkl_clear_inv: "rkl_inv r \<Longrightarrow> rkl_inv (rkl_clear r) \<and> rkl_set (rkl_clear r) = {}"
  by (simp add: rkl_clear_def rkl_inv_def rkl_buf_def rkl_set_def rkl_list_def)

subsection \<open>Holes\<close>

text \<open>The entries from \<open>a\<close> to \<open>b\<close> follow each other without a gap.\<close>

definition consecutive :: "txnid list \<Rightarrow> nat \<Rightarrow> nat \<Rightarrow> bool" where
  "consecutive xs a b \<longleftrightarrow> (\<forall>q. a \<le> q \<and> q < b \<longrightarrow> xs ! (q + 1) = xs ! q + 1)"

lemma consecutive_refl [simp]: "consecutive xs a a"
  by (simp add: consecutive_def)

lemma consecutive_trans: "consecutive xs a b \<Longrightarrow> consecutive xs b c \<Longrightarrow> consecutive xs a c"
  by (auto simp: consecutive_def) (meson linorder_not_le)

lemma consecutive_one: "consecutive xs a (a + 1) \<longleftrightarrow> xs ! (a + 1) = xs ! a + 1"
  by (auto simp: consecutive_def le_antisym less_Suc_eq_le)

lemma consecutive_nth: "consecutive xs a b \<Longrightarrow> a \<le> q \<Longrightarrow> q \<le> b \<Longrightarrow> xs ! q = xs ! a + (q - a)"
proof (induction q)
  case (Suc q)
  then show ?case by (cases "a = Suc q") (auto simp: consecutive_def)
qed simp

text \<open>The layout of the enumeration when the list is not empty.\<close>

lemma rkl_layout:
  fixes dir :: bool
  assumes inv: "rkl_inv r" and l: "0 < list_length r"
  defines "off \<equiv> solid_offset (rkl_iterator r dir)" and "d \<equiv> solid_end r - solid_begin r"
  shows "rkl_len r = d + list_length r" "off \<le> list_length r"
    "p < off \<Longrightarrow> cells r ! p = rkl_elems r ! p"
    "off + d \<le> p \<Longrightarrow> p < rkl_len r \<Longrightarrow> cells r ! (p - d) = rkl_elems r ! p"
    "off \<le> p \<Longrightarrow> p < off + d \<Longrightarrow> rkl_elems r ! p = solid_begin r + (p - off)"
    "0 < off \<Longrightarrow> 0 < d"
    "0 < d \<Longrightarrow> solid_begin r < solid_end r"
proof -
  note B = rkl_inv_basic[OF inv]
  have e: "\<not> rkl_empty r" using rkl_inv_solid_le[OF inv l] by (simp add: rkl_empty_def)
  show n: "rkl_len r = d + list_length r" using e by (simp add: rkl_len_def d_def)
  show ol: "off \<le> list_length r"
    using rkl_bsearch_le[OF B(2)] B(1) by (auto simp: off_def rkl_iterator_def)
  show d0: "0 < off \<Longrightarrow> 0 < d" by (auto simp: off_def rkl_iterator_def d_def solid_empty_iff split: if_splits)
  show "0 < d \<Longrightarrow> solid_begin r < solid_end r" by (simp add: d_def)
  note nth = nth_rkl_elems[OF inv, of _ dir, folded off_def d_def]
  show "p < off \<Longrightarrow> cells r ! p = rkl_elems r ! p" using nth[of p] n ol l by simp
  show "off + d \<le> p \<Longrightarrow> p < rkl_len r \<Longrightarrow> cells r ! (p - d) = rkl_elems r ! p" using nth[of p] l by auto
  assume p: "off \<le> p" "p < off + d"
  then have "p < rkl_len r" using n ol by simp
  then have "rkl_elems r ! p = solid_begin r + p - off" using nth[of p] p l by simp
  then show "rkl_elems r ! p = solid_begin r + (p - off)" using p by simp
qed

lemma rkl_elems_step:
  "rkl_inv r \<Longrightarrow> q + 1 < rkl_len r \<Longrightarrow> rkl_elems r ! q + 1 \<le> rkl_elems r ! (q + 1)"
  using sorted_wrt_less_nth[OF sorted_rkl_elems, of r q "q + 1"] length_rkl_elems[of r] by simp

lemma solid_consecutive:
  fixes dir :: bool
  assumes inv: "rkl_inv r" and l: "0 < list_length r"
  defines "off \<equiv> solid_offset (rkl_iterator r dir)" and "d \<equiv> solid_end r - solid_begin r"
  shows "off \<le> p \<Longrightarrow> p' < off + d \<Longrightarrow> consecutive (rkl_elems r) p p'"
  using rkl_layout(5)[OF inv l, where dir = dir, folded off_def d_def] by (auto simp: consecutive_def Suc_diff_le)

lemma hole_step_fwd:
  fixes dir :: bool
  assumes inv: "rkl_inv r" and l: "0 < list_length r" and p: "p < rkl_len r"
  defines "off \<equiv> solid_offset (rkl_iterator r dir)" and "E \<equiv> rkl_elems r"
  shows "case hole_step r off False p of
      Hole h p' \<Rightarrow> (\<exists>j. p \<le> j \<and> j + 1 < rkl_len r \<and> h = (E ! j + 1, E ! (j + 1)) \<and> E ! j + 1 < E ! (j + 1) \<and>
         consecutive E p j \<and> j < p' \<and> p' < rkl_len r)
    | Edge here \<Rightarrow> here = E ! (rkl_len r - 1) \<and> consecutive E p (rkl_len r - 1)
    | Next p' \<Rightarrow> p < p' \<and> p' < rkl_len r \<and> consecutive E p p'"
proof -
  define d where "d = solid_end r - solid_begin r"
  note Y = rkl_layout(1)[OF inv l, folded d_def] rkl_layout(2-6)[OF inv l, where dir = dir, folded off_def d_def E_def]
    rkl_layout(7)[OF inv l, folded d_def]
  note S = solid_consecutive[OF inv l, where dir = dir, folded off_def d_def E_def]
  note step = rkl_elems_step[OF inv, folded E_def]
  define n where "n = rkl_len r"
  consider "p < off" "p + 1 = off" | "p < off" "p + 1 \<noteq> off" | "off + d \<le> p" | "off \<le> p" "p < off + d" by linarith
  then show ?thesis
  proof cases
    case 1
    have iv: "0 < d" "solid_begin r < solid_end r" using Y(6,7) 1 by auto
    have sb: "E ! (p + 1) = solid_begin r" using Y(5)[of off] iv 1 by simp
    have off: "off = rkl_bsearch (rkl_list r) (solid_begin r)"
      using iv l by (simp add: off_def rkl_iterator_def solid_empty_iff)
    have "E ! p + 1 < solid_begin r"
      using solid_place[OF rkl_inv_norm[OF inv iv(2)], of p] 1 Y(1,2) Y(3)[of p] off nth_rkl_list[OF rkl_inv_basic(1)[OF inv], of p]
      by (simp split: if_splits)
    then show ?thesis using 1 Y(1,2) Y(3)[of p] iv sb unfolding hole_step_def Let_def d_def[symmetric]
      by (auto intro!: exI[of _ p])
  next
    case 2
    then have "p + 1 < n" "cells r ! p = E ! p" "cells r ! (p + 1) = E ! (p + 1)" using Y(1,2,3) by (auto simp: n_def)
    then show ?thesis using 2 step[of p] unfolding hole_step_def Let_def d_def[symmetric] n_def[symmetric]
      by (auto simp: consecutive_one[of E p, simplified] intro!: exI[of _ p])
  next
    case 3
    then have h: "cells r ! (p - d) = E ! p" using Y(4) p by simp
    show ?thesis
    proof (cases "p + 1 < n")
      case True
      then have "cells r ! (p + 1 - d) = E ! (p + 1)" using Y(4)[of "p + 1"] 3 by (simp add: n_def)
      then show ?thesis using 3 True h p step[of p] unfolding hole_step_def Let_def d_def[symmetric] n_def[symmetric]
        by (auto simp: consecutive_one[of E p, simplified] intro!: exI[of _ p])
    next
      case False
      then have "p = n - 1" using p by (simp add: n_def)
      then show ?thesis using 3 False h p unfolding hole_step_def Let_def d_def[symmetric] n_def[symmetric] by auto
    qed
  next
    case 4
    then have iv: "0 < d" "solid_begin r < solid_end r" using Y(7) by auto
    have here: "E ! (off + d - 1) = solid_end r - 1" using Y(5)[of "off + d - 1"] iv by (simp add: d_def)
    have c: "consecutive E p (off + d - 1)" using S[of p "off + d - 1"] 4 by simp
    show ?thesis
    proof (cases "off + d < n")
      case True
      then have t: "cells r ! off = E ! (off + d)" using Y(4)[of "off + d"] by (simp add: n_def)
      have st: "E ! (off + d - 1) + 1 \<le> E ! (off + d)" using step[of "off + d - 1"] True iv by (simp add: n_def)
      have c2: "consecutive E p (off + d)" if "E ! (off + d) = solid_end r"
        using consecutive_trans[OF c, of "off + d"] consecutive_one[of E "off + d - 1"] here that iv by simp
      have "hole_step r off False p = (if solid_end r < E ! (off + d) then Hole (solid_end r, E ! (off + d)) (off + d) else Next (off + d))"
        using 4 True t iv unfolding hole_step_def Let_def d_def[symmetric] n_def[symmetric] by simp
      then show ?thesis using 4 True here st c c2 iv unfolding n_def[symmetric]
        by (auto intro!: exI[of _ "off + d - 1"])
    next
      case False
      then have "off + d = n" using Y(1,2) by (simp add: n_def)
      then show ?thesis using 4 c here unfolding hole_step_def Let_def d_def[symmetric] n_def[symmetric] by auto
    qed
  qed
qed

lemma hole_loop_fwd:
  fixes dir :: bool
  assumes inv: "rkl_inv r" and l: "0 < list_length r"
  defines "off \<equiv> solid_offset (rkl_iterator r dir)" and "E \<equiv> rkl_elems r"
  shows "p < rkl_len r \<Longrightarrow> rkl_len r - p \<le> fuel \<Longrightarrow>
    \<exists>j e p'. hole_loop r off False fuel p = Some ((E ! j + 1, e), p') \<and> p \<le> j \<and> j < rkl_len r \<and> consecutive E p j \<and>
      (j + 1 < rkl_len r \<and> e = E ! (j + 1) \<and> E ! j + 1 < e \<or> j + 1 = rkl_len r \<and> e = MAX_TXNID) \<and>
      p < p' \<and> p' \<le> rkl_len r"
proof (induction fuel arbitrary: p)
  case (Suc fuel)
  note S = hole_step_fwd[OF inv l Suc.prems(1), of dir, folded off_def E_def]
  show ?case
  proof (cases "hole_step r off False p")
    case (Hole h p')
    then show ?thesis using S by fastforce
  next
    case (Edge here)
    then show ?thesis using S Suc.prems(1) by (auto intro!: exI[of _ "rkl_len r - 1"])
  next
    case (Next p1)
    then have n: "p < p1" "p1 < rkl_len r" "consecutive E p p1" using S by auto
    have le: "rkl_len r - p1 \<le> fuel" using n(1) Suc.prems by linarith
    obtain j e p' where "hole_loop r off False fuel p1 = Some ((E ! j + 1, e), p')" "p1 \<le> j" "j < rkl_len r"
      "consecutive E p1 j" "j + 1 < rkl_len r \<and> e = E ! (j + 1) \<and> E ! j + 1 < e \<or> j + 1 = rkl_len r \<and> e = MAX_TXNID"
      "p1 < p'" "p' \<le> rkl_len r"
      using Suc.IH[OF n(2) le] by blast
    then show ?thesis using Next n consecutive_trans[OF n(3)] by (intro exI[of _ j] exI[of _ e] exI[of _ p']) auto
  qed
qed simp

lemma rkl_hole_entries:
  fixes dir :: bool
  assumes inv: "rkl_inv r" and p: "p < rkl_len r"
  defines "it \<equiv> rkl_iterator r dir" and "E \<equiv> rkl_elems r"
  shows "\<exists>j e p'. rkl_hole r (it\<lparr>pos := p\<rparr>) False = Some ((E ! j + 1, e), it\<lparr>pos := p'\<rparr>) \<and>
      p \<le> j \<and> j < rkl_len r \<and> consecutive E p j \<and>
      (j + 1 < rkl_len r \<and> e = E ! (j + 1) \<and> E ! j + 1 < e \<or> j + 1 = rkl_len r \<and> e = MAX_TXNID) \<and>
      p < p' \<and> p' \<le> rkl_len r"
proof (cases "0 < list_length r")
  case True
  then show ?thesis using hole_loop_fwd[OF inv True p, of "rkl_len r + 1" dir] p unfolding rkl_hole_def it_def E_def
    by (fastforce simp: Let_def)
next
  case False
  then have L: "rkl_list r = []" by (simp add: rkl_list_def)
  have iv: "solid_begin r < solid_end r" using p False by (auto simp: rkl_len_def rkl_empty_def split: if_splits)
  have E: "E = [solid_begin r ..< solid_end r]" using iv L by (simp add: E_def rkl_elems_def solid_empty_iff)
  have n: "rkl_len r = solid_end r - solid_begin r" using iv False by (simp add: rkl_len_def rkl_empty_def)
  have "rkl_hole r (it\<lparr>pos := p\<rparr>) False = Some ((solid_end r, MAX_TXNID), it\<lparr>pos := rkl_len r\<rparr>)"
    using p False unfolding rkl_hole_def by (simp add: Let_def)
  moreover have "E ! (rkl_len r - 1) + 1 = solid_end r" using iv by (simp add: E n)
  moreover have "consecutive E p (rkl_len r - 1)" by (auto simp: consecutive_def E n)
  ultimately show ?thesis using p
    by (intro exI[of _ "rkl_len r - 1"] exI[of _ MAX_TXNID] exI[of _ "rkl_len r"]) auto
qed

lemma rkl_hole_forward:
  assumes inv: "rkl_inv r" and p: "p < rkl_len r"
  shows "\<exists>b e p'. rkl_hole r ((rkl_iterator r dir)\<lparr>pos := p\<rparr>) False = Some ((b, e), (rkl_iterator r dir)\<lparr>pos := p'\<rparr>) \<and>
     {rkl_elems r ! p ..< b} \<subseteq> rkl_set r \<and> {b ..< e} \<inter> rkl_set r = {} \<and>
     (b < e \<and> e \<in> rkl_set r \<or> e = MAX_TXNID \<and> (\<forall>x \<in> rkl_set r. x < b)) \<and>
     rkl_elems r ! p < b \<and> p < p' \<and> p' \<le> rkl_len r"
proof -
  let ?E = "rkl_elems r" and ?n = "rkl_len r"
  obtain j e p' where H: "rkl_hole r ((rkl_iterator r dir)\<lparr>pos := p\<rparr>) False = Some ((?E ! j + 1, e), (rkl_iterator r dir)\<lparr>pos := p'\<rparr>)"
      "p \<le> j" "j < ?n" "consecutive ?E p j"
      "j + 1 < ?n \<and> e = ?E ! (j + 1) \<and> ?E ! j + 1 < e \<or> j + 1 = ?n \<and> e = MAX_TXNID" "p < p'" "p' \<le> ?n"
    using rkl_hole_entries[OF assms, of dir] by blast
  note so = sorted_rkl_elems[OF inv] and len = length_rkl_elems[OF inv] and st = set_rkl_elems[of r]
  have nth: "?E ! q = ?E ! p + (q - p)" if "p \<le> q" "q \<le> j" for q using consecutive_nth[OF H(4) that] .
  have "{?E ! p ..< ?E ! j + 1} \<subseteq> rkl_set r"
  proof
    fix x assume x: "x \<in> {?E ! p ..< ?E ! j + 1}"
    then have "?E ! (p + (x - ?E ! p)) = x" "p + (x - ?E ! p) < length ?E"
      using nth[of j] nth[of "p + (x - ?E ! p)"] H(2,3) len by auto
    then show "x \<in> rkl_set r" using st nth_mem by metis
  qed
  moreover have out: "x \<le> ?E ! j \<or> j + 1 < ?n \<and> ?E ! (j + 1) \<le> x" if x: "x \<in> rkl_set r" for x
  proof -
    obtain q where q: "q < ?n" "?E ! q = x" using x st len by (metis in_set_conv_nth)
    show ?thesis
      using sorted_wrt_less_le[OF so, of q j] sorted_wrt_less_le[OF so, of "j + 1" q] q H(3) len by (cases "q \<le> j") auto
  qed
  then have "{?E ! j + 1 ..< e} \<inter> rkl_set r = {}" using H(5) by fastforce
  moreover have "?E ! j + 1 < e \<and> e \<in> rkl_set r \<or> e = MAX_TXNID \<and> (\<forall>x \<in> rkl_set r. x < ?E ! j + 1)"
    using H(5) out st nth_mem[of "j + 1" ?E] len by fastforce
  moreover have "?E ! p < ?E ! j + 1" using nth[of j] H(2) by simp
  ultimately show ?thesis using H(1,6,7) by blast
qed

subsection \<open>The properties\<close>

text \<open>
  C13. Adding an id. On a well-formed set, a valid id that is not in it is added, and nothing else
  changes in the set; or the call reports that memory or the size limit is exhausted and the set
  is what it was. This covers every placement the code distinguishes: growing the interval at either
  end (absorbing neighbours of the list), exchanging a pair, inserting into the list and exchanging
  a long run of the list with the interval.
\<close>

theorem rkl_push_adds:
  assumes "rkl_inv r" "malloc_ok alloc" "valid_txnid k" "k \<notin> rkl_set r" "rkl_push alloc r k = (err, r')"
  shows "err = MDBX_SUCCESS \<and> rkl_inv r' \<and> rkl_set r' = insert k (rkl_set r)
       \<or> err \<in> {MDBX_TXN_FULL, MDBX_ENOMEM} \<and> r' = r"
  by (rule rkl_push_fresh[OF assms])

definition no_mem :: allocator where "no_mem bytes = None"

definition rkl_sample :: rkl where
  "rkl_sample = \<lparr>solid_begin = 5, solid_end = 7, list_length = 3, list_limit = 12,
     cells = [10, 20, 30, 0, 0, 0, 0, 0, 0, 0, 0, 0], on_heap = False\<rparr>"

lemma no_mem_ok: "malloc_ok no_mem"
  by (simp add: malloc_ok_def no_mem_def)

lemma rkl_sample_ok:
  "rkl_inv rkl_sample" "rkl_set rkl_sample = {5, 6, 10, 20, 30}" "rkl_list rkl_sample = [10, 20, 30]"
  by (auto simp: rkl_sample_def rkl_inv_def rkl_buf_def rkl_inplace_size_def rkl_set_def rkl_list_def apart_def
      MIN_TXNID_def INVALID_TXNID_def UINT64_MAX_def)

lemma valid_small: "1 \<le> k \<Longrightarrow> k < 1000 \<Longrightarrow> valid_txnid k"
  by (simp add: valid_txnid_def MIN_TXNID_def INVALID_TXNID_def UINT64_MAX_def)

lemma rkl_push_adds_witness:
  "fst (rkl_push no_mem rkl_sample 7) = MDBX_SUCCESS \<and> rkl_inv (snd (rkl_push no_mem rkl_sample 7)) \<and>
     rkl_set (snd (rkl_push no_mem rkl_sample 7)) = insert 7 {5, 6, 10, 20, 30}
   \<or> fst (rkl_push no_mem rkl_sample 7) \<in> {MDBX_TXN_FULL, MDBX_ENOMEM} \<and> snd (rkl_push no_mem rkl_sample 7) = rkl_sample"
  using rkl_push_adds[OF rkl_sample_ok(1) no_mem_ok valid_small[of 7] _ surjective_pairing[of "rkl_push no_mem rkl_sample 7"]]
  by (simp add: rkl_sample_ok(2))

text \<open>
  C36. Pushing an id that the list already holds, with room in the buffer: the call returns the code
  for a duplicate, but the loop that shifts the greater entries back stops one short. When at least
  two greater entries follow the duplicate, the last entry stays overwritten by its predecessor, so
  the greatest id of the list is lost.
\<close>

theorem rkl_push_duplicate_effect:
  assumes "rkl_inv r" "solid_begin r < solid_end r" "k \<in> set (rkl_list r)" "list_length r < list_limit r"
    and "rkl_push alloc r k = (err, r')"
  shows "err = MDBX_RESULT_TRUE \<and> solid_begin r' = solid_begin r \<and> solid_end r' = solid_end r \<and>
     list_length r' = list_length r \<and>
     rkl_list r' = (if rkl_bsearch (rkl_list r) k + 2 < list_length r
       then (rkl_list r)[list_length r - 1 := rkl_list r ! (list_length r - 2)] else rkl_list r)"
  by (rule rkl_push_dup_list[OF assms])

lemma rkl_push_duplicate_effect_witness:
  "fst (rkl_push no_mem rkl_sample 10) = MDBX_RESULT_TRUE \<and> rkl_list (snd (rkl_push no_mem rkl_sample 10)) = [10, 20, 20]"
proof -
  have "rkl_bsearch [10, 20, 30] 10 = 0"
    unfolding rkl_bsearch_def by (subst rkl_order.search_correct) simp_all
  moreover have "solid_begin rkl_sample < solid_end rkl_sample" "list_length rkl_sample < list_limit rkl_sample"
    "list_length rkl_sample = 3" by (simp_all add: rkl_sample_def)
  ultimately show ?thesis
    using rkl_push_duplicate_effect[OF rkl_sample_ok(1) _ _ _ surjective_pairing[of "rkl_push no_mem rkl_sample 10"]]
    by (simp add: rkl_sample_ok(3))
qed

text \<open>
  C16. Removing an edge. From a non-empty well-formed set, the highest (lowest) id comes out, it is the
  maximum (minimum), exactly it is removed and the set stays well-formed.
\<close>

theorem rkl_pop_extreme:
  assumes "rkl_inv r" "rkl_set r \<noteq> {}" "rkl_pop r highest = (k, r')"
  shows "k = (if highest then Max (rkl_set r) else Min (rkl_set r)) \<and> rkl_inv r' \<and> rkl_set r' = rkl_set r - {k}"
  using assms rkl_pop_highest[of r k r'] rkl_pop_lowest[of r k r'] by (cases highest) auto

lemma rkl_pop_extreme_witness:
  "fst (rkl_pop rkl_sample True) = 30 \<and> rkl_set (snd (rkl_pop rkl_sample True)) = {5, 6, 10, 20}"
proof -
  have "Max {5, 6, 10, 20, 30 :: nat} = 30" "{5, 6, 10, 20, 30 :: nat} - {30} = {5, 6, 10, 20}" by auto
  moreover have "rkl_set rkl_sample \<noteq> {}" by (simp add: rkl_sample_ok(2))
  ultimately show ?thesis
    using rkl_pop_extreme[OF rkl_sample_ok(1) _ surjective_pairing[of "rkl_pop rkl_sample True"]]
    by (simp only: rkl_sample_ok(2) if_True) simp
qed

text \<open>
  C14. Merging one set into another that shares no id with it: success gives the union; on exhausted
  memory the destination is still well-formed, keeps what it had and lacks at least one id.
\<close>

theorem rkl_merge_union:
  assumes "rkl_inv src" "rkl_inv dst" "malloc_ok alloc" "rkl_set src \<inter> rkl_set dst = {}"
    and "rkl_merge alloc src dst ign = (err, dst')"
  shows "rkl_inv dst' \<and> (err = MDBX_SUCCESS \<and> rkl_set dst' = rkl_set dst \<union> rkl_set src
     \<or> err \<in> {MDBX_TXN_FULL, MDBX_ENOMEM} \<and> rkl_set dst \<subseteq> rkl_set dst' \<and> rkl_set dst' \<subset> rkl_set dst \<union> rkl_set src)"
  by (rule rkl_merge_fresh[OF assms])

definition rkl_sample2 :: rkl where
  "rkl_sample2 = \<lparr>solid_begin = 8, solid_end = 9, list_length = 1, list_limit = 12,
     cells = [40, 0, 0, 0, 0, 0, 0, 0, 0, 0, 0, 0], on_heap = False\<rparr>"

lemma rkl_sample2_ok: "rkl_inv rkl_sample2" "rkl_set rkl_sample2 = {8, 40}"
  by (auto simp: rkl_sample2_def rkl_inv_def rkl_buf_def rkl_inplace_size_def rkl_set_def rkl_list_def apart_def
      MIN_TXNID_def INVALID_TXNID_def UINT64_MAX_def)

lemma rkl_merge_union_witness:
  "rkl_inv (snd (rkl_merge no_mem rkl_sample2 rkl_sample False))"
  using rkl_merge_union[OF rkl_sample2_ok(1) rkl_sample_ok(1) no_mem_ok _
      surjective_pairing[of "rkl_merge no_mem rkl_sample2 rkl_sample False"]]
  by (simp add: rkl_sample_ok(2) rkl_sample2_ok(2))

text \<open>
  Iterating from either end with as many turns as the set has elements yields every id once, in
  ascending (descending) order, across the list part, the interval and the rest of the list.
\<close>

theorem rkl_iteration_order:
  assumes "rkl_inv r"
  shows "rkl_turns r False (rkl_len r) (rkl_iterator r False) = sorted_list_of_set (rkl_set r) \<and>
     rkl_turns r True (rkl_len r) (rkl_iterator r True) = rev (sorted_list_of_set (rkl_set r))"
  using rkl_turns_all[OF assms] by simp

lemma rkl_iteration_order_witness:
  "rkl_turns rkl_sample False (rkl_len rkl_sample) (rkl_iterator rkl_sample False) = [5, 6, 10, 20, 30]"
  using rkl_iteration_order[OF rkl_sample_ok(1)]
  by (simp add: rkl_sample_ok(2) sorted_list_of_set_insert_remove)

text \<open>
  C15. Searching for a gap forward from a position inside the set always ends: the result is the first
  maximal run of absent ids above the id at the position. The ids from there to the begin of the hole are
  all present, none of the hole is, and it ends at a present id or, past the last one, at the limit.
\<close>

theorem rkl_hole_first_gap:
  assumes "rkl_inv r" "p < rkl_len r"
  shows "\<exists>b e p'. rkl_hole r ((rkl_iterator r reverse)\<lparr>pos := p\<rparr>) False = Some ((b, e), (rkl_iterator r reverse)\<lparr>pos := p'\<rparr>) \<and>
     {rkl_elems r ! p ..< b} \<subseteq> rkl_set r \<and> {b ..< e} \<inter> rkl_set r = {} \<and>
     (b < e \<and> e \<in> rkl_set r \<or> e = MAX_TXNID \<and> (\<forall>x \<in> rkl_set r. x < b)) \<and>
     rkl_elems r ! p < b \<and> p < p' \<and> p' \<le> rkl_len r"
  by (rule rkl_hole_forward[OF assms])

lemma rkl_hole_first_gap_witness:
  "\<exists>b e p'. rkl_hole rkl_sample ((rkl_iterator rkl_sample False)\<lparr>pos := 1\<rparr>) False
     = Some ((b, e), (rkl_iterator rkl_sample False)\<lparr>pos := p'\<rparr>) \<and> {b ..< e} \<inter> rkl_set rkl_sample = {} \<and>
       p' \<le> rkl_len rkl_sample"
proof -
  have "1 < rkl_len rkl_sample" by (simp add: rkl_len_card[OF rkl_sample_ok(1)] rkl_sample_ok(2))
  from rkl_hole_first_gap[OF rkl_sample_ok(1) this, of False] show ?thesis by blast
qed

text \<open>
  The queries read the set: membership, number of elements, lowest and highest id; and every
  well-formed state passes the code's own check.
\<close>

theorem rkl_queries_exact:
  assumes "rkl_inv r"
  shows "rkl_contain r k = (k \<in> rkl_set r) \<and> rkl_len r = card (rkl_set r) \<and>
     (rkl_set r \<noteq> {} \<longrightarrow> rkl_lowest r = Min (rkl_set r) \<and> rkl_highest r = Max (rkl_set r)) \<and> rkl_check r"
  using assms by (simp add: rkl_contain_iff rkl_len_card rkl_lowest_Min rkl_highest_Max rkl_inv_check)

lemma rkl_queries_exact_witness:
  "rkl_contain rkl_sample 20 \<and> rkl_len rkl_sample = 5 \<and> rkl_lowest rkl_sample = 5 \<and> rkl_check rkl_sample"
  using rkl_queries_exact[OF rkl_sample_ok(1), of 20] by (simp add: rkl_sample_ok(2))

end
