(* ===== verification/Pnl.thy ===== *)
theory Pnl
  imports Search
begin

text \<open>
  Page number lists (\<^verbatim>\<open>pnl_t\<close> of \<^verbatim>\<open>src/libmdbx/mdbx-internals.h\<close> and \<^verbatim>\<open>mdbx.c\<close>), built for the
  descending order the code supports (\<^verbatim>\<open>MDBX_PNL_ASCENDING = 0\<close>). A list is one allocated array:
  \<open>alloclen\<close> is \<^verbatim>\<open>pnl[-1]\<close>, and \<open>slots\<close> is the array from \<^verbatim>\<open>pnl[0]\<close> on, so \<open>slots ! 0\<close> is the number of
  entries and \<open>slots ! i\<close> is \<^verbatim>\<open>pnl[i]\<close>. The build options are those of a default 64-bit build:
  \<^verbatim>\<open>MDBX_PNL_PREALLOC_FOR_RADIXSORT = 1\<close>, \<^verbatim>\<open>MDBX_HAVE_CMOV = 1\<close>, \<^verbatim>\<open>MDBX_DEBUG = 0\<close>.
  The allocator is a parameter that maps a size in bytes to the 32-bit cells of the block or to \<open>None\<close>.
\<close>

subsection \<open>State\<close>

record pnl =
  alloclen :: nat
  slots :: "pgno list"

type_synonym pgno_allocator = "nat \<Rightarrow> pgno list option"

text \<open>Documented behaviour of \<^verbatim>\<open>malloc\<close>/\<^verbatim>\<open>realloc\<close>: a returned block holds at least the bytes asked for.\<close>

definition pgno_malloc_ok :: "pgno_allocator \<Rightarrow> bool" where
  "pgno_malloc_ok alloc \<longleftrightarrow> (\<forall>bytes blk. alloc bytes = Some blk \<longrightarrow> bytes div 4 \<le> length blk)"

definition pnl_size :: "pnl \<Rightarrow> nat" where
  "pnl_size p = slots p ! 0"

definition pnl_setsize :: "pnl \<Rightarrow> nat \<Rightarrow> pnl" where
  "pnl_setsize p n = p\<lparr>slots := (slots p)[0 := n]\<rparr>"

definition pnl_list :: "pnl \<Rightarrow> pgno list" where
  "pnl_list p = take (pnl_size p) (drop 1 (slots p))"

definition pnl_overhead :: nat where "pnl_overhead = 16"
definition MDBX_PNL_GRANULATE :: nat where "MDBX_PNL_GRANULATE = 2 ^ 10"
definition MDBX_PNL_INITIAL :: nat where "MDBX_PNL_INITIAL = MDBX_PNL_GRANULATE - 2 - pnl_overhead div 4"

definition pnl_bytes2size :: "nat \<Rightarrow> nat" where
  "pnl_bytes2size bytes = (bytes div 4 - 3) div 2"

definition pnl_size2bytes :: "nat \<Rightarrow> nat" where
  "pnl_size2bytes wanna_size =
     (let bytes = pnl_overhead + 4 * (wanna_size + wanna_size + 3); g = MDBX_PNL_GRANULATE * 4
      in (bytes + g - 1) div g * g - pnl_overhead)"

subsection \<open>Allocation\<close>

definition pnl_of_block :: "pgno list \<Rightarrow> pnl" where
  "pnl_of_block blk = \<lparr>alloclen = pnl_bytes2size (4 * length blk), slots = drop 1 blk\<rparr>"

definition pnl_alloc :: "pgno_allocator \<Rightarrow> nat \<Rightarrow> pnl option" where
  "pnl_alloc alloc n =
     map_option (\<lambda>blk. pnl_setsize (pnl_of_block blk) 0) (alloc (pnl_size2bytes n))"

definition pnl_realloc :: "pgno_allocator \<Rightarrow> pnl \<Rightarrow> nat \<Rightarrow> pnl option" where
  "pnl_realloc alloc p bytes =
     map_option (\<lambda>blk. let old = alloclen p # slots p in
       pnl_of_block (take (length blk) old @ drop (length old) blk)) (alloc bytes)"

definition pnl_clone :: "pgno_allocator \<Rightarrow> pnl \<Rightarrow> pnl option" where
  "pnl_clone alloc src =
     map_option (\<lambda>p. p\<lparr>slots := take (pnl_size src + 1) (slots src) @ drop (pnl_size src + 1) (slots p)\<rparr>)
       (pnl_alloc alloc (alloclen src))"

definition pnl_shrink :: "pgno_allocator \<Rightarrow> pnl \<Rightarrow> pnl" where
  "pnl_shrink alloc p =
     (let p = pnl_setsize p 0 in
      if alloclen p > MDBX_PNL_INITIAL * 8 - 64 div 4
      then (case pnl_realloc alloc p (pnl_size2bytes (MDBX_PNL_INITIAL * 2)) of None \<Rightarrow> p | Some q \<Rightarrow> q)
      else p)"

text \<open>The variable \<^verbatim>\<open>*ppnl\<close> may be null: \<open>None\<close>.\<close>

definition pnl_reserve :: "pgno_allocator \<Rightarrow> pnl option \<Rightarrow> nat \<Rightarrow> rc \<times> pnl option" where
  "pnl_reserve alloc ppnl wanna =
     (case ppnl of
        None \<Rightarrow> (case pnl_alloc alloc wanna of None \<Rightarrow> (MDBX_ENOMEM, None) | Some p \<Rightarrow> (MDBX_SUCCESS, Some p))
      | Some p \<Rightarrow>
          let allocated = alloclen p in
          if allocated \<ge> wanna then (MDBX_SUCCESS, Some p)
          else if wanna > PAGELIST_LIMIT then (MDBX_TXN_FULL, Some p)
          else
            let n = (if wanna + wanna - allocated < PAGELIST_LIMIT then wanna + wanna - allocated else PAGELIST_LIMIT)
            in (case pnl_realloc alloc p (pnl_size2bytes n) of
                  None \<Rightarrow> (MDBX_ENOMEM, Some p)
                | Some q \<Rightarrow> (MDBX_SUCCESS, Some q)))"

definition pnl_need :: "pgno_allocator \<Rightarrow> pnl option \<Rightarrow> nat \<Rightarrow> rc \<times> pnl option" where
  "pnl_need alloc ppnl extra =
     (case ppnl of
        None \<Rightarrow> pnl_reserve alloc None extra
      | Some p \<Rightarrow>
          let extra = extra + pnl_size p in
          if alloclen p \<ge> extra then (MDBX_SUCCESS, Some p) else pnl_reserve alloc (Some p) extra)"

subsection \<open>Appending and inserting\<close>

definition pnl_append_prereserved :: "pnl \<Rightarrow> pgno \<Rightarrow> pnl" where
  "pnl_append_prereserved p pgno =
     (let n = pnl_size p + 1 in p\<lparr>slots := (slots p)[0 := n, n := pgno]\<rparr>)"

text \<open>Runs \<open>op\<close> on the list once \<^verbatim>\<open>pnl_need\<close> has made room for \<open>n\<close> more entries.\<close>

definition with_room :: "pgno_allocator \<Rightarrow> pnl option \<Rightarrow> nat \<Rightarrow> (pnl \<Rightarrow> pnl) \<Rightarrow> rc \<times> pnl option" where
  "with_room alloc ppnl n op =
     (let (err, ppnl) = pnl_need alloc ppnl n in
      if err \<noteq> MDBX_SUCCESS then (err, ppnl) else (MDBX_SUCCESS, map_option op ppnl))"

definition pnl_append :: "pgno_allocator \<Rightarrow> pnl option \<Rightarrow> pgno \<Rightarrow> rc \<times> pnl option" where
  "pnl_append alloc ppnl pgno = with_room alloc ppnl 1 (\<lambda>p. pnl_append_prereserved p pgno)"

text \<open>\<^verbatim>\<open>do pnl[w--] = pgno, pgno += step; while (--n)\<close>\<close>

fun fill_down :: "pgno list \<Rightarrow> nat \<Rightarrow> nat \<Rightarrow> pgno \<Rightarrow> nat \<Rightarrow> pgno list" where
  "fill_down xs w step pgno 0 = xs"
| "fill_down xs w step pgno (Suc n) = fill_down (xs[w := pgno]) (w - 1) step (pgno + step) n"

definition pnl_append_stepped :: "pgno_allocator \<Rightarrow> nat \<Rightarrow> pnl option \<Rightarrow> pgno \<Rightarrow> nat \<Rightarrow> rc \<times> pnl option" where
  "pnl_append_stepped alloc step ppnl pgno n =
     with_room alloc ppnl n (\<lambda>p.
       if n = 1 then pnl_append_prereserved p pgno
       else let w = pnl_size p + n; p = pnl_setsize p w in p\<lparr>slots := fill_down (slots p) w step pgno n\<rparr>)"

definition spill_append_span :: "pgno_allocator \<Rightarrow> pnl option \<Rightarrow> pgno \<Rightarrow> nat \<Rightarrow> rc \<times> pnl option" where
  "spill_append_span alloc ppnl pgno n = pnl_append_stepped alloc 2 ppnl (pgno * 2) n"

definition pnl_append_span :: "pgno_allocator \<Rightarrow> pnl option \<Rightarrow> pgno \<Rightarrow> nat \<Rightarrow> rc \<times> pnl option" where
  "pnl_append_span alloc ppnl pgno n = pnl_append_stepped alloc 1 ppnl pgno n"

definition pnl_append_pnl :: "pgno_allocator \<Rightarrow> pnl option \<Rightarrow> pnl \<Rightarrow> rc \<times> pnl option" where
  "pnl_append_pnl alloc pdst src =
     (if pnl_size src > 0 then
        let n = (case pdst of None \<Rightarrow> 0 | Some d \<Rightarrow> pnl_size d) + pnl_size src;
            (err, pdst) = pnl_reserve alloc pdst n
        in if err \<noteq> MDBX_SUCCESS then (err, pdst)
           else (MDBX_SUCCESS, map_option (\<lambda>d. pnl_setsize
             (d\<lparr>slots := take (pnl_size d + 1) (slots d) @ pnl_list src @ drop (pnl_size d + 1 + pnl_size src) (slots d)\<rparr>)
             n) pdst)
      else (MDBX_SUCCESS, pdst))"

text \<open>The shift of \<^verbatim>\<open>pnl_insert_span\<close>: entries not above \<open>pgno\<close> move up by \<open>n\<close>; the result is \<^verbatim>\<open>r\<close>.\<close>

fun insert_shift_span :: "pgno list \<Rightarrow> pgno \<Rightarrow> nat \<Rightarrow> nat \<Rightarrow> pgno list \<times> nat" where
  "insert_shift_span xs pgno n 0 = (xs, 0)"
| "insert_shift_span xs pgno n (Suc r) =
     (if xs ! Suc r \<le> pgno then insert_shift_span (xs[Suc r + n := xs ! Suc r]) pgno n r
      else (xs, Suc r))"

definition insert_span_at :: "pnl \<Rightarrow> pgno \<Rightarrow> nat \<Rightarrow> pnl" where
  "insert_span_at p pgno n =
     (let r = pnl_size p;
          p = pnl_setsize p (r + n);
          (xs, r) = insert_shift_span (slots p) pgno n r
      in p\<lparr>slots := fill_down xs (r + n) 1 pgno n\<rparr>)"

definition pnl_insert_span :: "pgno_allocator \<Rightarrow> pnl option \<Rightarrow> pgno \<Rightarrow> nat \<Rightarrow> rc \<times> pnl option" where
  "pnl_insert_span alloc ppnl pgno n = with_room alloc ppnl n (\<lambda>p. insert_span_at p pgno n)"

subsection \<open>Searching\<close>

definition pnl_search_nochk :: "pnl \<Rightarrow> pgno \<Rightarrow> nat" where
  "pnl_search_nochk p pgno = search_impl True (>) (pnl_list p) pgno + 1"

definition pnl_search :: "pnl \<Rightarrow> pgno \<Rightarrow> nat" where
  "pnl_search p pgno = pnl_search_nochk p pgno"

definition pnl_search_exact :: "pnl \<Rightarrow> pgno \<Rightarrow> nat" where
  "pnl_search_exact p pgno =
     (let n = pnl_search_nochk p pgno in if n \<le> pnl_size p \<and> slots p ! n = pgno then n else 0)"

definition pnl_contains :: "pnl \<Rightarrow> pgno \<Rightarrow> bool" where
  "pnl_contains p pgno = (let n = pnl_search_nochk p pgno in n \<le> pnl_size p \<and> slots p ! n = pgno)"

definition contiguous :: "pgno \<Rightarrow> pgno \<Rightarrow> nat \<Rightarrow> bool" where
  "contiguous prev nxt span \<longleftrightarrow> sub32 prev nxt = span"

definition pnl_contains_span :: "pnl \<Rightarrow> pgno \<Rightarrow> nat \<Rightarrow> bool" where
  "pnl_contains_span p pgno span =
     (let n = pnl_search_nochk p pgno in
      n \<ge> span \<and> slots p ! n = pgno \<and> contiguous (slots p ! (n - span + 1)) (slots p ! n) (span - 1))"

definition pnl_check :: "pnl \<Rightarrow> nat \<Rightarrow> bool" where
  "pnl_check p limit =
     (if pnl_size p > 0 then
        \<not> pnl_size p > PAGELIST_LIMIT \<and> \<not> slots p ! pnl_size p < MIN_PAGENO \<and> \<not> slots p ! 1 \<ge> limit \<and>
        list_all (\<lambda>i. slots p ! i > slots p ! (i + 1)) [1 ..< pnl_size p]
      else True)"

subsection \<open>Merging two lists\<close>

text \<open>
  \<^verbatim>\<open>pnl_merge_inner\<close>: fills the destination from its end at \<open>w\<close> with the smaller of the entries at
  \<open>a\<close> (destination) and \<open>b\<close> (source) until the source is used up; \<open>dst ! 0\<close> is the detent.
\<close>

fun merge_inner :: "pgno list \<Rightarrow> pgno list \<Rightarrow> nat \<Rightarrow> nat \<Rightarrow> nat \<Rightarrow> pgno list" where
  "merge_inner dst src 0 a b = dst"
| "merge_inner dst src (Suc w) a b =
     (let flag = src ! b > dst ! a;
          dst = dst[Suc w := if flag then dst ! a else src ! b];
          b = (if flag then b else b - 1);
          a = (if flag then a - 1 else a)
      in if b > 0 then merge_inner dst src w a b else dst)"

definition pnl_merge :: "pnl \<Rightarrow> pnl \<Rightarrow> pnl" where
  "pnl_merge dst src =
     (let src_len = pnl_size src; dst_len = pnl_size dst; total = dst_len + src_len;
          inner = dst\<lparr>slots := merge_inner ((slots dst)[0 := P_INVALID]) (slots src) total dst_len src_len\<rparr>
      in if src_len > 0 then
           pnl_setsize
             (if total < 21 then inner
              else if dst_len = 0 \<or> slots dst ! dst_len > slots src ! 1 then
                dst\<lparr>slots := take (dst_len + 1) (slots dst) @ pnl_list src @ drop (total + 1) (slots dst)\<rparr>
              else if slots src ! src_len > slots dst ! 1 then
                dst\<lparr>slots := take 1 (slots dst) @ pnl_list src @ pnl_list dst @ drop (total + 1) (slots dst)\<rparr>
              else inner) total
         else dst)"

subsection \<open>Runs of consecutive pages\<close>

text \<open>The loop of \<^verbatim>\<open>pnl_maxspan\<close>: \<open>left\<close> counts down, \<open>scan\<close> is the index of the begin of the window.\<close>

fun maxspan_loop :: "pgno list \<Rightarrow> nat \<Rightarrow> nat \<Rightarrow> nat \<Rightarrow> nat" where
  "maxspan_loop xs 0 scan span = span"
| "maxspan_loop xs (Suc left) scan span =
     (if contiguous (xs ! scan) (xs ! (scan + span)) span then maxspan_loop xs left scan (span + 1)
      else maxspan_loop xs left (scan + 1) span)"

definition pnl_maxspan :: "pnl \<Rightarrow> nat" where
  "pnl_maxspan p =
     (let len = pnl_size p in if len > 1 then maxspan_loop (slots p) (len - 1) 1 1 else len)"

function scan_span :: "pgno list \<Rightarrow> nat \<Rightarrow> nat \<Rightarrow> nat \<Rightarrow> nat" where
  "scan_span xs len from_pos span =
     (if from_pos + span \<le> len \<and> contiguous (xs ! from_pos) (xs ! (from_pos + span)) span
      then scan_span xs len from_pos (span + 1) else span)"
  by pat_completeness auto
termination
  by (relation "measure (\<lambda>(xs, len, from_pos, span). len + 1 - (from_pos + span))") auto

declare scan_span.simps [simp del]

definition pnl_scan_span :: "pnl \<Rightarrow> nat \<Rightarrow> nat" where
  "pnl_scan_span p from_pos = scan_span (slots p) (pnl_size p) from_pos 1"

definition pnl_cut :: "pnl \<Rightarrow> nat \<Rightarrow> nat \<Rightarrow> pnl" where
  "pnl_cut p cut_pos span =
     (if span > 0 then
        let len = pnl_size p - span; p = pnl_setsize p len
        in p\<lparr>slots := copy_fwd (slots p) cut_pos (cut_pos + span) (len + 1 - cut_pos)\<rparr>
      else p)"

definition pnl_crop_tail_sequence :: "pnl \<Rightarrow> pnl \<times> nat" where
  "pnl_crop_tail_sequence p =
     (let span = scan_span (slots p) (pnl_size p) 1 1 in (pnl_cut p 1 span, span))"

text \<open>
  The inner loop of \<^verbatim>\<open>pnl_get_best_sequence\<close> measures the run that ends at \<open>i\<close>; the cell
  \<^verbatim>\<open>pnl[0]\<close> it may read before it tests the index is the length of the list.
\<close>

function run_at :: "pgno list \<Rightarrow> nat \<Rightarrow> nat \<Rightarrow> nat" where
  "run_at xs i span =
     (if contiguous (xs ! (i - span)) (xs ! i) span \<and> i - span > 0 then run_at xs i (span + 1) else span)"
  by pat_completeness auto
termination
  by (relation "measure (\<lambda>(xs, i, span). i - span)") auto

declare run_at.simps [simp del]

lemma run_at_ge: "span \<le> run_at xs i span"
proof (induction xs i span rule: run_at.induct)
  case (1 xs i span)
  then show ?case by (subst run_at.simps) (auto dest: 1)
qed

text \<open>
  The outer loop; the result is the best position and its number of superfluous pages. The callers pass
  \<open>seq > 0\<close>, so the test \<open>i > 0\<close> is implied there.
\<close>

function best_loop :: "pgno list \<Rightarrow> nat \<Rightarrow> nat \<Rightarrow> nat \<Rightarrow> nat \<Rightarrow> nat \<Rightarrow> nat \<times> nat" where
  "best_loop xs seq detent i best_pos best_extra =
     (if i \<ge> seq \<and> xs ! i \<le> sub64 detent seq \<and> i > 0 then
        let span = run_at xs i 1
        in if span \<ge> seq \<and> span - seq < best_extra then
             (if span - seq = 0 then (i, 0) else best_loop xs seq detent (i - span) i (span - seq))
           else best_loop xs seq detent (i - span) best_pos best_extra
      else (best_pos, best_extra))"
  by pat_completeness auto
termination
proof (relation "measure (\<lambda>(xs, seq, detent, i, best_pos, best_extra). i)", goal_cases)
  case 1 show ?case by simp
next
  case (2 xs seq detent i best_pos best_extra span)
  then show ?case using run_at_ge[of 1 xs i] by simp
next
  case (3 xs seq detent i best_pos best_extra span)
  then show ?case using run_at_ge[of 1 xs i] by simp
qed

declare best_loop.simps [simp del]

definition pnl_get_best_sequence :: "pnl \<Rightarrow> nat \<Rightarrow> pgno \<Rightarrow> pgno \<times> pnl" where
  "pnl_get_best_sequence p seq defrag_detent =
     (let (best_pos, best_extra) = best_loop (slots p) seq defrag_detent (pnl_size p) 0 MAX_PAGENO in
      if best_pos \<noteq> 0 then (slots p ! best_pos, pnl_cut p (best_pos - seq + 1) seq) else (0, p))"

subsection \<open>Removing pages\<close>

text \<open>
  \<^verbatim>\<open>pnl_sift\<close> in three loops: \<open>sift_scan\<close> looks for the first common page and returns its positions in
  both lists, \<open>sift_update\<close> compacts the rest. \<open>fe\<close> is one past the end of the filter.
\<close>

function sift_scan :: "pgno list \<Rightarrow> pgno list \<Rightarrow> nat \<Rightarrow> nat \<Rightarrow> nat \<Rightarrow> nat \<Rightarrow> (nat \<times> nat) option" where
  "sift_scan xs fo len fe r f =
     (if r \<le> len \<and> f < fe then
        (if xs ! r \<noteq> fo ! f then
           (if xs ! r > fo ! f then sift_scan xs fo len fe (r + 1) f else sift_scan xs fo len fe r (f + 1))
         else Some (r, f))
      else None)"
  by pat_completeness auto
termination
  by (relation "measure (\<lambda>(xs, fo, len, fe, r, f). (len + 1 - r) + (fe - f))") auto

function sift_update :: "pgno list \<Rightarrow> pgno list \<Rightarrow> nat \<Rightarrow> nat \<Rightarrow> nat \<Rightarrow> nat \<Rightarrow> nat \<Rightarrow> pgno list \<times> nat" where
  "sift_update xs fo len fe w r f =
     (if r \<le> len then
        (if f \<ge> fe then sift_update (xs[w := xs ! r]) fo len fe (w + 1) (r + 1) f
         else if xs ! r > fo ! f then sift_update (xs[w := xs ! r]) fo len fe (w + 1) (r + 1) f
         else if xs ! r < fo ! f then sift_update xs fo len fe w r (f + 1)
         else sift_update xs fo len fe w (r + 1) (f + 1))
      else (xs, w))"
  by pat_completeness auto
termination
  by (relation "measure (\<lambda>(xs, fo, len, fe, w, r, f). (len + 1 - r) + (fe - f))") auto

declare sift_scan.simps [simp del] sift_update.simps [simp del]

definition pnl_sift :: "pnl \<Rightarrow> pnl \<Rightarrow> pnl" where
  "pnl_sift p fo =
     (if pnl_size p > 0 \<and> pnl_size fo > 0 then
        let fe = pnl_size fo + 1; len = pnl_size p
        in (case sift_scan (slots p) (slots fo) len fe (pnl_search p (slots fo ! 1)) 1 of
              None \<Rightarrow> p
            | Some (r, f) \<Rightarrow>
                let (xs, w) = sift_update (slots p) (slots fo) len fe r (r + 1) (f + 1)
                in pnl_setsize (p\<lparr>slots := xs\<rparr>) (w - 1))
      else p)"

text \<open>The loop of \<^verbatim>\<open>pnl_cut_range\<close> that appends to the destination; \<open>Inl\<close> is its early return.\<close>

function cut_range_loop :: "pgno_allocator \<Rightarrow> pgno list \<Rightarrow> nat \<Rightarrow> pgno \<Rightarrow> nat \<Rightarrow> pnl option \<Rightarrow> rc \<times> nat \<times> pnl option" where
  "cut_range_loop alloc xs len range_begin to dest =
     (if to \<le> len \<and> \<not> xs ! to < range_begin then
        let (err, dest) = pnl_append alloc dest (xs ! to)
        in if err \<noteq> MDBX_SUCCESS then (err, to, dest) else cut_range_loop alloc xs len range_begin (to + 1) dest
      else (MDBX_SUCCESS, to, dest))"
  by pat_completeness auto
termination
  by (relation "measure (\<lambda>(alloc, xs, len, range_begin, to, dest). len + 1 - to)") auto

declare cut_range_loop.simps [simp del]

definition pnl_cut_range :: "pgno_allocator \<Rightarrow> pnl \<Rightarrow> pnl option \<Rightarrow> pgno \<Rightarrow> pgno \<Rightarrow> rc \<times> pnl \<times> pnl option" where
  "pnl_cut_range alloc p dest range_begin range_end =
     (let from_pos = pnl_search p (range_end - 1);
          (err, to, dest) = cut_range_loop alloc (slots p) (pnl_size p) range_begin from_pos dest
      in if err \<noteq> MDBX_SUCCESS then (err, p, dest)
         else (MDBX_SUCCESS, if from_pos < to then pnl_cut p from_pos (to - from_pos) else p, dest))"

text \<open>
  \<^verbatim>\<open>refund_reclaimed\<close>: gives the pages at the end of the file back, as long as the list starts with
  them. \<open>i\<close> counts the pages taken; the result is the list and the new first unallocated page.
\<close>

function refund_loop :: "pgno list \<Rightarrow> nat \<Rightarrow> pgno \<Rightarrow> nat \<Rightarrow> pgno \<times> nat" where
  "refund_loop xs len first_unallocated i =
     (let first_unallocated = first_unallocated - 1; i = i + 1 in
      if i \<le> len \<and> xs ! i = first_unallocated - 1 then refund_loop xs len first_unallocated i
      else (first_unallocated, i))"
  by pat_completeness auto
termination
  by (relation "measure (\<lambda>(xs, len, fu, i). len - i)") auto

declare refund_loop.simps [simp del]

definition refund_reclaimed :: "pnl \<Rightarrow> pgno \<Rightarrow> pnl \<times> pgno" where
  "refund_reclaimed p first_unallocated =
     (let (fu, i) = refund_loop (slots p) (pnl_size p) first_unallocated 1;
          len = pnl_size p - (i - 1);
          p = pnl_setsize p len
      in (p\<lparr>slots := copy_fwd (slots p) 1 i len\<rparr>, fu))"

end
