(* ===== verification/Pnl_Set.thy ===== *)
theory Pnl_Set
  imports Pnl
begin

text \<open>
  Correctness of the page number lists of \<open>Pnl\<close> over \<open>pnl_list\<close>, the entries in array order
  (descending when \<open>pnl_desc\<close>): allocation, appending, inserting, searching, merging, runs, removal.
\<close>

subsection \<open>The invariant\<close>

definition pnl_ok :: "pnl \<Rightarrow> bool" where
  "pnl_ok p \<longleftrightarrow> pnl_size p \<le> alloclen p \<and> alloclen p + 2 \<le> length (slots p)"

abbreviation pnl_desc :: "pnl \<Rightarrow> bool" where
  "pnl_desc p \<equiv> sorted_wrt (>) (pnl_list p)"

definition opt_list :: "pnl option \<Rightarrow> pgno list" where
  "opt_list ppnl = (case ppnl of None \<Rightarrow> [] | Some p \<Rightarrow> pnl_list p)"

definition opt_ok :: "pnl option \<Rightarrow> bool" where
  "opt_ok ppnl = (case ppnl of None \<Rightarrow> True | Some p \<Rightarrow> pnl_ok p)"

lemma length_pnl_list [simp]: "pnl_ok p \<Longrightarrow> length (pnl_list p) = pnl_size p"
  by (auto simp: pnl_list_def pnl_ok_def)

lemma nth_pnl_list: "pnl_ok p \<Longrightarrow> i < pnl_size p \<Longrightarrow> pnl_list p ! i = slots p ! (i + 1)"
  by (simp add: pnl_list_def pnl_ok_def)

lemma slots_pnl_list: "pnl_ok p \<Longrightarrow> 0 < i \<Longrightarrow> i \<le> pnl_size p \<Longrightarrow> slots p ! i = pnl_list p ! (i - 1)"
  using nth_pnl_list[of p "i - 1"] by simp

lemma pnl_size_setsize [simp]: "slots p \<noteq> [] \<Longrightarrow> pnl_size (pnl_setsize p n) = n"
  by (simp add: pnl_size_def pnl_setsize_def)

lemma alloclen_setsize [simp]: "alloclen (pnl_setsize p n) = alloclen p"
  "length (slots (pnl_setsize p n)) = length (slots p)"
  by (simp_all add: pnl_setsize_def)

lemma slots_setsize: "slots (pnl_setsize p n) = (slots p)[0 := n]"
  by (simp add: pnl_setsize_def)

lemma pnl_ok_nonempty: "pnl_ok p \<Longrightarrow> slots p \<noteq> []"
  by (auto simp: pnl_ok_def)

text \<open>What a list is when its array, from cell 1 on, starts with \<open>xs\<close> and cell 0 holds their number.\<close>

lemma pnl_of_slots:
  assumes "slots p \<noteq> []" "slots p ! 0 = length xs" "take (length xs + 1) (slots p) = slots p ! 0 # xs"
  shows "pnl_list p = xs" "pnl_size p = length xs"
proof -
  show s: "pnl_size p = length xs" using assms(2) by (simp add: pnl_size_def)
  have "pnl_list p = drop 1 (take (length xs + 1) (slots p))" by (simp add: pnl_list_def s drop_take)
  then show "pnl_list p = xs" using assms(3) by simp
qed

lemma take_slots:
  assumes "pnl_ok p" "r \<le> pnl_size p"
  shows "take (r + 1) (slots p) = pnl_size p # take r (pnl_list p)"
  using assms by (cases "slots p") (auto simp: pnl_list_def pnl_size_def pnl_ok_def min_def)

lemma take_slots_nth:
  assumes "length xs = n" "n < length s" "s ! 0 = v" "\<And>i. i < n \<Longrightarrow> s ! (i + 1) = xs ! i"
  shows "take (n + 1) s = v # xs"
  by (rule nth_equalityI) (use assms in \<open>auto simp: nth_Cons split: nat.split\<close>)

lemma pnl_list_nthI:
  assumes "slots p \<noteq> []" "slots p ! 0 = length xs" "length xs < length (slots p)"
    "\<And>i. i < length xs \<Longrightarrow> slots p ! (i + 1) = xs ! i"
  shows "pnl_list p = xs" "pnl_size p = length xs"
  using pnl_of_slots[OF assms(1,2) take_slots_nth[OF refl assms(3) refl assms(4)]] by simp_all

subsection \<open>Allocation\<close>

lemma pnl_bytes_roundtrip: "n \<le> pnl_bytes2size (pnl_size2bytes n)" "2 * n + 3 \<le> pnl_size2bytes n div 4"
proof -
  let ?v = "pnl_overhead + 4 * (n + n + 3)" and ?g = "MDBX_PNL_GRANULATE * 4"
  have "(?v + ?g - 1) div ?g * ?g + (?v + ?g - 1) mod ?g = ?v + ?g - 1" by (rule div_mult_mod_eq)
  moreover have "(?v + ?g - 1) mod ?g < ?g" by (simp add: MDBX_PNL_GRANULATE_def)
  ultimately have "?v \<le> (?v + ?g - 1) div ?g * ?g" by linarith
  then have "4 * (n + n + 3) \<le> pnl_size2bytes n" unfolding pnl_size2bytes_def Let_def by linarith
  then have "4 * (n + n + 3) div 4 \<le> pnl_size2bytes n div 4" by (rule div_le_mono)
  then show "2 * n + 3 \<le> pnl_size2bytes n div 4" by simp
  then show "n \<le> pnl_bytes2size (pnl_size2bytes n)" unfolding pnl_bytes2size_def by linarith
qed

lemma pnl_of_block_room:
  assumes "2 * n + 3 \<le> length blk"
  shows "n \<le> alloclen (pnl_of_block blk)" "alloclen (pnl_of_block blk) + 2 \<le> length (slots (pnl_of_block blk))"
  using assms by (auto simp: pnl_of_block_def pnl_bytes2size_def)

lemma pnl_alloc_ok:
  assumes "pgno_malloc_ok alloc" "pnl_alloc alloc n = Some p"
  shows "pnl_ok p \<and> pnl_list p = [] \<and> pnl_size p = 0 \<and> n \<le> alloclen p"
proof -
  obtain blk where b: "alloc (pnl_size2bytes n) = Some blk" "p = pnl_setsize (pnl_of_block blk) 0"
    using assms(2) by (auto simp: pnl_alloc_def)
  have "2 * n + 3 \<le> length blk"
    using assms(1) b(1) pnl_bytes_roundtrip(2)[of n] unfolding pgno_malloc_ok_def by (meson order_trans)
  note R = pnl_of_block_room[OF this]
  have ne: "slots (pnl_of_block blk) \<noteq> []" using R by auto
  then have "pnl_size p = 0" by (simp add: b(2))
  then show ?thesis using R by (simp add: b(2) pnl_ok_def pnl_list_def)
qed

lemma pnl_realloc_ok:
  assumes "pgno_malloc_ok alloc" "pnl_ok p" "pnl_size p \<le> n" "pnl_realloc alloc p (pnl_size2bytes n) = Some q"
  shows "pnl_ok q \<and> pnl_list q = pnl_list p \<and> pnl_size q = pnl_size p \<and> n \<le> alloclen q"
proof -
  obtain blk where b: "alloc (pnl_size2bytes n) = Some blk"
    "q = pnl_of_block (take (length blk) (alloclen p # slots p) @ drop (length (alloclen p # slots p)) blk)"
    using assms(4) by (auto simp: pnl_realloc_def Let_def)
  have l: "2 * n + 3 \<le> length blk"
    using assms(1) b(1) pnl_bytes_roundtrip(2)[of n] unfolding pgno_malloc_ok_def by (meson order_trans)
  let ?b = "take (length blk) (alloclen p # slots p) @ drop (length (alloclen p # slots p)) blk"
  have lb: "length ?b = length blk" by simp
  note R = pnl_of_block_room[of n ?b, unfolded lb, OF l]
  have q: "slots q = take (length blk - 1) (slots p) @ drop (length (slots p) + 1) blk"
    using l by (cases "length blk") (simp_all add: b(2) pnl_of_block_def)
  have "take (pnl_size p + 1) (slots q) = take (pnl_size p + 1) (slots p)"
  proof -
    have "pnl_size p + 1 \<le> length blk - 1" "pnl_size p + 1 \<le> length (slots p)"
      using l assms(2,3) by (auto simp: pnl_ok_def)
    then show ?thesis by (simp add: q)
  qed
  then have t: "take (pnl_size p + 1) (slots q) = pnl_size p # pnl_list p"
    using take_slots[OF assms(2) order_refl] assms(2) by simp
  then have h: "slots q ! 0 = pnl_size p" by (metis Suc_eq_plus1 nth_Cons_0 nth_take zero_less_Suc)
  have ne: "slots q \<noteq> []" using R by (auto simp: b(2))
  have "pnl_list q = pnl_list p" "pnl_size q = pnl_size p"
    using pnl_of_slots[OF ne, of "pnl_list p"] h t assms(2) by simp_all
  then show ?thesis using R assms(3) by (simp add: b(2) pnl_ok_def)
qed

lemma pnl_need_ok:
  assumes m: "pgno_malloc_ok alloc" and ok: "opt_ok ppnl" and e: "pnl_need alloc ppnl n = (err, ppnl')"
  shows "(\<exists>q. err = MDBX_SUCCESS \<and> ppnl' = Some q \<and> pnl_ok q \<and> pnl_list q = opt_list ppnl \<and> pnl_size q + n \<le> alloclen q)
       \<or> err \<in> {MDBX_TXN_FULL, MDBX_ENOMEM} \<and> ppnl' = ppnl"
proof (cases ppnl)
  case None
  show ?thesis
  proof (cases "pnl_alloc alloc n")
    case n: None
    then show ?thesis using e None by (auto simp: pnl_need_def pnl_reserve_def)
  next
    case (Some q)
    then have "err = MDBX_SUCCESS" "ppnl' = Some q" using e None by (auto simp: pnl_need_def pnl_reserve_def)
    then show ?thesis using None pnl_alloc_ok[OF m Some] by (auto simp: opt_list_def)
  qed
next
  case (Some p)
  then have p: "pnl_ok p" using ok by (simp add: opt_ok_def)
  let ?w = "n + pnl_size p"
  show ?thesis
  proof (cases "?w \<le> alloclen p")
    case True
    then show ?thesis using e Some p by (auto simp: pnl_need_def opt_list_def)
  next
    case False
    define g where "g = (if ?w + ?w - alloclen p < PAGELIST_LIMIT then ?w + ?w - alloclen p else PAGELIST_LIMIT)"
    show ?thesis
    proof (cases "?w > PAGELIST_LIMIT")
      case True
      then show ?thesis using e Some False by (auto simp: pnl_need_def pnl_reserve_def)
    next
      case le: False
      then have w: "?w \<le> g" "pnl_size p \<le> g" using False by (auto simp: g_def)
      show ?thesis
      proof (cases "pnl_realloc alloc p (pnl_size2bytes g)")
        case None
        then show ?thesis using e Some False le by (auto simp: pnl_need_def pnl_reserve_def g_def[symmetric] Let_def)
      next
        case r: (Some q)
        then have "err = MDBX_SUCCESS" "ppnl' = Some q"
          using e Some False le by (auto simp: pnl_need_def pnl_reserve_def g_def[symmetric] Let_def)
        then show ?thesis using pnl_realloc_ok[OF m p w(2) r] w(1) Some by (auto simp: opt_list_def)
      qed
    qed
  qed
qed

text \<open>The operations that make room first, given what their second half does to a list with room.\<close>

lemma with_room_ok:
  assumes m: "pgno_malloc_ok alloc" and ok: "opt_ok ppnl" and e: "with_room alloc ppnl n op = (err, ppnl')"
    and op: "\<And>q. pnl_ok q \<Longrightarrow> pnl_list q = opt_list ppnl \<Longrightarrow> pnl_size q + n \<le> alloclen q \<Longrightarrow> pnl_ok (op q) \<and> Q (pnl_list (op q))"
  shows "(\<exists>q. err = MDBX_SUCCESS \<and> ppnl' = Some q \<and> pnl_ok q \<and> Q (pnl_list q))
       \<or> err \<in> {MDBX_TXN_FULL, MDBX_ENOMEM} \<and> ppnl' = ppnl"
proof -
  obtain er p1 where r: "pnl_need alloc ppnl n = (er, p1)" by (meson surj_pair)
  from pnl_need_ok[OF m ok r] show ?thesis
  proof
    assume "\<exists>q. er = MDBX_SUCCESS \<and> p1 = Some q \<and> pnl_ok q \<and> pnl_list q = opt_list ppnl \<and> pnl_size q + n \<le> alloclen q"
    then obtain q where q: "er = MDBX_SUCCESS" "p1 = Some q" "pnl_ok q" "pnl_list q = opt_list ppnl" "pnl_size q + n \<le> alloclen q"
      by blast
    then show ?thesis using op[OF q(3,4,5)] e r by (auto simp: with_room_def)
  next
    assume "er \<in> {MDBX_TXN_FULL, MDBX_ENOMEM} \<and> p1 = ppnl"
    then show ?thesis using e r by (auto simp: with_room_def)
  qed
qed

subsection \<open>Appending and inserting\<close>

lemma pnl_list_by_nth:
  "slots p \<noteq> [] \<Longrightarrow> slots p ! 0 = length xs \<Longrightarrow> length xs < length (slots p) \<Longrightarrow>
   (\<And>i. i < length xs \<Longrightarrow> slots p ! (i + 1) = xs ! i) \<Longrightarrow> pnl_list p = xs \<and> pnl_size p = length xs"
  using pnl_list_nthI by blast

lemma pnl_append_prereserved_ok:
  assumes "pnl_ok q" "pnl_size q + 1 \<le> alloclen q"
  shows "pnl_ok (pnl_append_prereserved q pgno) \<and> pnl_list (pnl_append_prereserved q pgno) = pnl_list q @ [pgno]"
proof -
  let ?q = "pnl_append_prereserved q pgno"
  have s: "slots ?q = (slots q)[0 := pnl_size q + 1, pnl_size q + 1 := pgno]"
    and l: "pnl_size q + 2 < length (slots q)" "0 < length (slots q)"
    using assms by (auto simp: pnl_append_prereserved_def pnl_ok_def)
  have n: "pnl_size ?q = pnl_size q + 1" using l s unfolding pnl_size_def[of ?q] by (simp add: nth_list_update)
  have "pnl_list ?q = pnl_list q @ [pgno]"
  proof (rule pnl_list_nthI)
    show "slots ?q ! 0 = length (pnl_list q @ [pgno])" using n assms(1) by (simp add: pnl_size_def)
    show "slots ?q ! (i + 1) = (pnl_list q @ [pgno]) ! i" if "i < length (pnl_list q @ [pgno])" for i
      using that l assms(1) nth_pnl_list[OF assms(1), of i] unfolding s by (auto simp: nth_append nth_list_update less_Suc_eq)
  qed (use l assms(1) s in auto)
  moreover have "pnl_ok ?q" using assms n s by (simp add: pnl_ok_def) (simp add: pnl_append_prereserved_def)
  ultimately show ?thesis by simp
qed

lemma length_fill_down [simp]: "length (fill_down xs w step pgno n) = length xs"
  by (induction xs w step pgno n rule: fill_down.induct) auto

lemma nth_fill_down:
  "n \<le> w \<Longrightarrow> w < length xs \<Longrightarrow> i < length xs \<Longrightarrow>
   fill_down xs w step pgno n ! i = (if w - n < i \<and> i \<le> w then pgno + step * (w - i) else xs ! i)"
proof (induction xs w step pgno n rule: fill_down.induct)
  case (2 xs w step pgno n)
  have "fill_down (xs[w := pgno]) (w - 1) step (pgno + step) n ! i =
      (if w - 1 - n < i \<and> i \<le> w - 1 then pgno + step + step * (w - 1 - i) else xs[w := pgno] ! i)"
    using 2 by simp
  moreover have "pgno + step + step * (w - 1 - i) = pgno + step * (w - i)" if "i \<le> w - 1"
  proof -
    have "w - i = Suc (w - 1 - i)" using that "2.prems" by simp
    then show ?thesis by simp
  qed
  ultimately show ?case using "2.prems" by (auto simp: nth_list_update)
qed simp

lemma insert_shift_span_spec:
  assumes "insert_shift_span xs pgno n r = (xs', r')" "r + n < length xs" "0 < n"
  shows "r' \<le> r \<and> length xs' = length xs \<and>
    (\<forall>j < length xs. xs' ! j = (if r' + n < j \<and> j \<le> r + n then xs ! (j - n) else xs ! j)) \<and>
    (\<forall>j. r' < j \<and> j \<le> r \<longrightarrow> xs ! j \<le> pgno) \<and> (0 < r' \<longrightarrow> pgno < xs ! r')"
  using assms
proof (induction xs pgno n r rule: insert_shift_span.induct)
  case (1 xs pgno n)
  then show ?case by auto
next
  case (2 xs pgno n r)
  show ?case
  proof (cases "xs ! Suc r \<le> pgno")
    case True
    let ?xs = "xs[Suc r + n := xs ! Suc r]"
    have IH: "r' \<le> r \<and> length xs' = length ?xs \<and>
      (\<forall>j < length ?xs. xs' ! j = (if r' + n < j \<and> j \<le> r + n then ?xs ! (j - n) else ?xs ! j)) \<and>
      (\<forall>j. r' < j \<and> j \<le> r \<longrightarrow> ?xs ! j \<le> pgno) \<and> (0 < r' \<longrightarrow> pgno < ?xs ! r')"
    proof (rule "2.IH"[OF True])
      show "insert_shift_span ?xs pgno n r = (xs', r')" using "2.prems"(1) True by simp
    qed (use "2.prems" in simp_all)
    then have r: "r' \<le> r" "length xs' = length xs" by simp_all
    have nth: "?xs ! j = (if j = Suc r + n then xs ! Suc r else xs ! j)" if "j < length xs" for j
      using that by (auto simp: nth_list_update)
    have "xs' ! j = (if r' + n < j \<and> j \<le> Suc r + n then xs ! (j - n) else xs ! j)" if j: "j < length xs" for j
    proof -
      have "xs' ! j = (if r' + n < j \<and> j \<le> r + n then ?xs ! (j - n) else ?xs ! j)" using IH j by simp
      moreover have "?xs ! (j - n) = xs ! (j - n)" if "j \<le> r + n" using nth[of "j - n"] that j by auto
      ultimately show ?thesis using nth[OF j] r(1) by (auto simp: le_Suc_eq)
    qed
    moreover have "xs ! j \<le> pgno" if "r' < j" "j \<le> Suc r" for j
      using IH that nth[of j] "2.prems"(2,3) True by (cases "j = Suc r") auto
    moreover have "0 < r' \<longrightarrow> pgno < xs ! r'"
    proof -
      have "?xs ! r' = xs ! r'" by (rule nth_list_update_neq) (use r in simp)
      moreover have "0 < r' \<longrightarrow> pgno < ?xs ! r'" using IH by blast
      ultimately show ?thesis by metis
    qed
    ultimately show ?thesis using r by (metis le_SucI)
  next
    case False
    then show ?thesis using 2 by auto
  qed
qed

lemma insert_span_at_ok:
  fixes pgno :: pgno
  assumes ok: "pnl_ok q" and d: "pnl_desc q" and room: "pnl_size q + n \<le> alloclen q" and n: "0 < n"
  defines "r \<equiv> length (takeWhile (\<lambda>x. pgno < x) (pnl_list q))"
  shows "pnl_ok (insert_span_at q pgno n) \<and>
     pnl_list (insert_span_at q pgno n) = take r (pnl_list q) @ rev [pgno ..< pgno + n] @ drop r (pnl_list q)"
proof -
  let ?L = "pnl_list q" and ?m = "pnl_size q"
  have len: "length ?L = ?m" using ok by simp
  have sl: "?m + n + 1 < length (slots q)" using ok room by (simp add: pnl_ok_def)
  let ?s = "(slots q)[0 := ?m + n]"
  obtain xs r' where e: "insert_shift_span ?s pgno n ?m = (xs, r')" by (meson surj_pair)
  have S: "r' \<le> ?m \<and> length xs = length ?s \<and>
    (\<forall>j < length ?s. xs ! j = (if r' + n < j \<and> j \<le> ?m + n then ?s ! (j - n) else ?s ! j)) \<and>
    (\<forall>j. r' < j \<and> j \<le> ?m \<longrightarrow> ?s ! j \<le> pgno) \<and> (0 < r' \<longrightarrow> pgno < ?s ! r')"
    by (rule insert_shift_span_spec[OF e]) (use sl n in simp_all)
  have sL: "?s ! (j + 1) = ?L ! j" if "j < ?m" for j using nth_pnl_list[OF ok that] sl by (simp add: nth_list_update)
  have "r = r'"
  proof -
    have "?L ! j \<le> pgno" if "r' \<le> j" "j < ?m" for j
    proof -
      have "?s ! (j + 1) \<le> pgno" using S that by (metis add.commute less_Suc_eq_le plus_1_eq_Suc Suc_leI)
      then show ?thesis using sL[OF that(2)] by simp
    qed
    moreover have "pgno < ?L ! j" if "j < r'" for j
    proof -
      have "pgno < ?L ! (r' - 1)" using S sL[of "r' - 1"] that by auto
      moreover have "?L ! (r' - 1) \<le> ?L ! j"
        using that S len by (intro sorted_wrt_gr_ge[OF d]) auto
      ultimately show ?thesis by simp
    qed
    ultimately have "takeWhile (\<lambda>x. pgno < x) ?L = take r' ?L"
      using S len by (intro takeWhile_eq_take_P_nth) (auto simp: not_less)
    then show ?thesis using S len by (simp add: r_def)
  qed
  let ?q = "insert_span_at q pgno n"
  have q: "slots ?q = fill_down xs (r' + n) 1 pgno n" "alloclen ?q = alloclen q"
    using e by (simp_all add: insert_span_at_def pnl_setsize_def)
  let ?N = "take r' ?L @ rev [pgno ..< pgno + n] @ drop r' ?L"
  have lN: "length ?N = ?m + n" using S len by simp
  have nth: "slots ?q ! i = (if r' < i \<and> i \<le> r' + n then pgno + (r' + n - i)
       else if r' + n < i \<and> i \<le> ?m + n then ?s ! (i - n) else ?s ! i)" if "i < length ?s" for i
    using S that sl nth_fill_down[of n "r' + n" xs i 1 pgno] unfolding q by auto
  have "pnl_list ?q = ?N \<and> pnl_size ?q = length ?N"
  proof (rule pnl_list_by_nth)
    show "slots ?q \<noteq> []" using S sl unfolding q by (metis length_0_conv length_fill_down length_list_update not_less_zero)
    show "slots ?q ! 0 = length ?N" using nth[of 0] pnl_ok_nonempty[OF ok] unfolding lN by auto
    show "length ?N < length (slots ?q)" using S sl unfolding q lN by simp
    fix i assume "i < length ?N"
    then have i: "i < ?m + n" unfolding lN .
    have lt: "i + 1 < length ?s" using i sl by simp
    consider "i < r'" | "r' \<le> i" "i < r' + n" | "r' + n \<le> i" by linarith
    then show "slots ?q ! (i + 1) = ?N ! i"
    proof cases
      case 1
      then show ?thesis using nth[OF lt] S sL[of i] len by (simp add: nth_append)
    next
      case 2
      then have "?N ! i = rev [pgno ..< pgno + n] ! (i - r')" using S len by (simp add: nth_append)
      also have "\<dots> = pgno + (n - Suc (i - r'))" using 2 by (simp add: rev_nth)
      finally show ?thesis using nth[OF lt] 2 by simp
    next
      case 3
      then have "?N ! i = ?L ! (i - n)" using S len by (auto simp: nth_append)
      moreover have "?s ! (i + 1 - n) = ?L ! (i - n)" using sL[of "i - n"] 3 i by (simp add: Suc_diff_le)
      ultimately show ?thesis using nth[OF lt] 3 i by simp
    qed
  qed
  moreover have "pnl_ok ?q" using calculation q S sl room lN ok by (auto simp: pnl_ok_def)
  ultimately show ?thesis using \<open>r = r'\<close> by simp
qed

lemma pnl_append_ok:
  assumes "pgno_malloc_ok alloc" "opt_ok ppnl" "pnl_append alloc ppnl pgno = (err, ppnl')"
  shows "(\<exists>q. err = MDBX_SUCCESS \<and> ppnl' = Some q \<and> pnl_ok q \<and> pnl_list q = opt_list ppnl @ [pgno])
       \<or> err \<in> {MDBX_TXN_FULL, MDBX_ENOMEM} \<and> ppnl' = ppnl"
  by (rule with_room_ok[OF assms(1,2) assms(3)[unfolded pnl_append_def], where Q = "\<lambda>l. l = opt_list ppnl @ [pgno]"])
    (use pnl_append_prereserved_ok in simp)

lemma pnl_append_span_ok:
  assumes m: "pgno_malloc_ok alloc" and ok: "opt_ok ppnl" and n: "0 < n"
    and e: "pnl_append_stepped alloc step ppnl pgno n = (err, ppnl')"
  shows "(\<exists>q. err = MDBX_SUCCESS \<and> ppnl' = Some q \<and> pnl_ok q \<and>
          pnl_list q = opt_list ppnl @ rev (map (\<lambda>i. pgno + step * i) [0 ..< n]))
       \<or> err \<in> {MDBX_TXN_FULL, MDBX_ENOMEM} \<and> ppnl' = ppnl"
proof (rule with_room_ok[OF m ok e[unfolded pnl_append_stepped_def],
      where Q = "\<lambda>l. l = opt_list ppnl @ rev (map (\<lambda>i. pgno + step * i) [0 ..< n])"])
  fix q assume ok: "pnl_ok q" and L: "pnl_list q = opt_list ppnl" and room: "pnl_size q + n \<le> alloclen q"
  let ?p = "if n = 1 then pnl_append_prereserved q pgno
       else let w = pnl_size q + n; p = pnl_setsize q w in p\<lparr>slots := fill_down (slots p) w step pgno n\<rparr>"
  let ?N = "pnl_list q @ rev (map (\<lambda>i. pgno + step * i) [0 ..< n])"
  show "pnl_ok ?p \<and> pnl_list ?p = opt_list ppnl @ rev (map (\<lambda>i. pgno + step * i) [0 ..< n])"
  proof (cases "n = 1")
    case True
    then show ?thesis using pnl_append_prereserved_ok[OF ok, of pgno] room L by simp
  next
    case False
    let ?m = "pnl_size q"
    have sl: "?m + n + 1 < length (slots q)" using ok room by (simp add: pnl_ok_def)
    have s: "slots ?p = fill_down ((slots q)[0 := ?m + n]) (?m + n) step pgno n" "alloclen ?p = alloclen q"
      using False by (simp_all add: Let_def pnl_setsize_def)
    have lN: "length ?N = ?m + n" using ok by simp
    have nth: "slots ?p ! i = (if ?m < i \<and> i \<le> ?m + n then pgno + step * (?m + n - i) else (slots q)[0 := ?m + n] ! i)"
      if "i < length (slots q)" for i
      unfolding s using nth_fill_down[of n "?m + n" "(slots q)[0 := ?m + n]" i step pgno] that sl by simp
    have "pnl_list ?p = ?N \<and> pnl_size ?p = length ?N"
    proof (rule pnl_list_by_nth)
      show "slots ?p \<noteq> []" unfolding s using sl by (metis length_fill_down length_list_update list.size(3) not_less_zero)
      show "slots ?p ! 0 = length ?N" unfolding lN using nth[of 0] pnl_ok_nonempty[OF ok] by simp
      show "length ?N < length (slots ?p)" unfolding s lN using sl by simp
      fix i assume "i < length ?N"
      then have i: "i < ?m + n" unfolding lN .
      then have lt: "i + 1 < length (slots q)" using sl by simp
      show "slots ?p ! (i + 1) = ?N ! i"
      proof (cases "i < ?m")
        case True
        then show ?thesis using nth[OF lt] nth_pnl_list[OF ok True] ok by (simp add: nth_append)
      next
        case f: False
        then have "?N ! i = rev (map (\<lambda>i. pgno + step * i) [0 ..< n]) ! (i - ?m)" using ok by (simp add: nth_append)
        also have "\<dots> = pgno + step * (n - Suc (i - ?m))"
        proof -
          have "i - ?m < n" "n - Suc (i - ?m) < n" using i f by linarith+
          then show ?thesis by (simp add: rev_nth del: diff_Suc_eq_diff_pred)
        qed
        also have "n - Suc (i - ?m) = ?m + n - (i + 1)" using i f by simp
        finally show ?thesis using nth[OF lt] i f by simp
      qed
    qed
    then show ?thesis using s ok room lN sl L by (auto simp: pnl_ok_def)
  qed
qed

lemma pnl_append_pnl_ok:
  assumes m: "pgno_malloc_ok alloc" and ok: "opt_ok pdst" "pnl_ok src"
    and e: "pnl_append_pnl alloc pdst src = (err, pdst')" and d: "pdst = Some d"
  shows "(\<exists>q. err = MDBX_SUCCESS \<and> pdst' = Some q \<and> pnl_ok q \<and> pnl_list q = pnl_list d @ pnl_list src)
       \<or> err \<in> {MDBX_TXN_FULL, MDBX_ENOMEM} \<and> pdst' = pdst"
proof (cases "pnl_size src > 0")
  case False
  then have "pnl_list src = []" by (simp add: pnl_list_def)
  then show ?thesis using e False ok(1) d by (auto simp: pnl_append_pnl_def opt_ok_def)
next
  case True
  let ?n = "pnl_size d + pnl_size src"
  obtain er p1 where r: "pnl_reserve alloc pdst ?n = (er, p1)" by (meson surj_pair)
  have need: "pnl_need alloc pdst (pnl_size src) = (if ?n \<le> alloclen d then (MDBX_SUCCESS, pdst) else (er, p1))"
    using d r by (simp add: pnl_need_def add.commute)
  have er: "er = MDBX_SUCCESS \<and> p1 = pdst" if "?n \<le> alloclen d" using r d that by (auto simp: pnl_reserve_def)
  have "(\<exists>q. er = MDBX_SUCCESS \<and> p1 = Some q \<and> pnl_ok q \<and> pnl_list q = opt_list pdst \<and> pnl_size q + pnl_size src \<le> alloclen q)
       \<or> er \<in> {MDBX_TXN_FULL, MDBX_ENOMEM} \<and> p1 = pdst"
    by (rule pnl_need_ok[OF m ok(1)]) (use need er in auto)
  then show ?thesis
  proof
    assume "\<exists>q. er = MDBX_SUCCESS \<and> p1 = Some q \<and> pnl_ok q \<and> pnl_list q = opt_list pdst \<and> pnl_size q + pnl_size src \<le> alloclen q"
    then obtain q where q: "er = MDBX_SUCCESS" "p1 = Some q" "pnl_ok q" "pnl_list q = pnl_list d"
        "pnl_size q + pnl_size src \<le> alloclen q" using d by (auto simp: opt_list_def)
    have sz: "pnl_size q = pnl_size d" using q(3,4) ok(1) d by (metis length_pnl_list opt_ok_def option.simps(5))
    define s where "s = take (pnl_size q + 1) (slots q) @ pnl_list src @ drop (pnl_size q + 1 + pnl_size src) (slots q)"
    have ev: "err = MDBX_SUCCESS" "pdst' = Some (pnl_setsize (q\<lparr>slots := s\<rparr>) ?n)"
      using e True r q(1,2) d by (simp_all add: pnl_append_pnl_def s_def)
    have sl: "?n + 1 < length (slots q)" using q(3,5) sz by (simp add: pnl_ok_def)
    have s': "s = pnl_size q # pnl_list q @ pnl_list src @ drop (pnl_size q + 1 + pnl_size src) (slots q)"
      unfolding s_def using take_slots[OF q(3) order_refl] q(3) by simp
    have ls: "length s = length (slots q)" unfolding s_def using sl sz ok(2) by simp
    have "pnl_list (pnl_setsize (q\<lparr>slots := s\<rparr>) ?n) = pnl_list d @ pnl_list src
      \<and> pnl_size (pnl_setsize (q\<lparr>slots := s\<rparr>) ?n) = length (pnl_list d @ pnl_list src)"
    proof (rule pnl_list_by_nth)
      have lN: "length (pnl_list d @ pnl_list src) = ?n" using q(3,4) sz ok(2) by (metis length_append length_pnl_list)
      show "slots (pnl_setsize (q\<lparr>slots := s\<rparr>) ?n) \<noteq> []" by (simp add: slots_setsize s')
      show "slots (pnl_setsize (q\<lparr>slots := s\<rparr>) ?n) ! 0 = length (pnl_list d @ pnl_list src)"
        unfolding lN by (simp add: slots_setsize s')
      show "length (pnl_list d @ pnl_list src) < length (slots (pnl_setsize (q\<lparr>slots := s\<rparr>) ?n))"
        unfolding lN using sl ls by (simp add: slots_setsize)
      fix i assume "i < length (pnl_list d @ pnl_list src)"
      then have "i < length (pnl_list d) \<or> i - length (pnl_list d) < length (pnl_list src)" by auto
      then show "slots (pnl_setsize (q\<lparr>slots := s\<rparr>) ?n) ! (i + 1) = (pnl_list d @ pnl_list src) ! i"
        unfolding slots_setsize by (elim disjE) (auto simp: s' q(4) nth_append)
    qed
    moreover have "pnl_ok (pnl_setsize (q\<lparr>slots := s\<rparr>) ?n)"
    proof -
      have "pnl_size (pnl_setsize (q\<lparr>slots := s\<rparr>) ?n) = ?n" by (simp add: s')
      then show ?thesis using q(3,5) sz ls by (simp add: pnl_ok_def)
    qed
    ultimately show ?thesis using ev by blast
  next
    assume "er \<in> {MDBX_TXN_FULL, MDBX_ENOMEM} \<and> p1 = pdst"
    then show ?thesis using e r True d by (auto simp: pnl_append_pnl_def)
  qed
qed

lemma takeWhile_gr_split:
  assumes "sorted_wrt (>) (L :: nat list)" "\<And>x. x \<in> set L \<Longrightarrow> \<not> (pgno \<le> x \<and> x < pgno + n)"
  defines "r \<equiv> length (takeWhile (\<lambda>x. pgno < x) L)"
  shows "\<forall>x \<in> set (take r L). pgno + n \<le> x" "\<forall>x \<in> set (drop r L). x < pgno \<or> n = 0 \<and> x \<le> pgno"
proof -
  have t: "take r L = takeWhile (\<lambda>x. pgno < x) L" "drop r L = dropWhile (\<lambda>x. pgno < x) L"
    unfolding r_def by (simp_all add: takeWhile_eq_take[symmetric] dropWhile_eq_drop[symmetric])
  show "\<forall>x \<in> set (take r L). pgno + n \<le> x"
    using assms(2) unfolding t by (metis less_imp_le_nat linorder_not_le set_takeWhileD)
  have "x \<le> pgno" if "x \<in> set (dropWhile (\<lambda>x. pgno < x) L)" for x
    using assms(1) that
  proof (induction L)
    case (Cons y L)
    then show ?case by (cases "pgno < y") auto
  qed simp
  then show "\<forall>x \<in> set (drop r L). x < pgno \<or> n = 0 \<and> x \<le> pgno"
    using assms(2) unfolding t by (metis le_neq_implies_less less_add_same_cancel1 gr0I order_refl set_dropWhileD)
qed

lemma pnl_insert_span_ok:
  assumes m: "pgno_malloc_ok alloc" and ok: "opt_ok ppnl" and d: "sorted_wrt (>) (opt_list ppnl)" and n: "0 < n"
    and new: "set (opt_list ppnl) \<inter> {pgno ..< pgno + n} = {}"
    and e: "pnl_insert_span alloc ppnl pgno n = (err, ppnl')"
  shows "(\<exists>q. err = MDBX_SUCCESS \<and> ppnl' = Some q \<and> pnl_ok q \<and> pnl_desc q \<and>
            set (pnl_list q) = set (opt_list ppnl) \<union> {pgno ..< pgno + n})
       \<or> err \<in> {MDBX_TXN_FULL, MDBX_ENOMEM} \<and> ppnl' = ppnl"
proof -
  let ?L = "opt_list ppnl"
  define r where "r = length (takeWhile (\<lambda>x. pgno < x) ?L)"
  let ?N = "take r ?L @ rev [pgno ..< pgno + n] @ drop r ?L"
  have "(\<exists>q. err = MDBX_SUCCESS \<and> ppnl' = Some q \<and> pnl_ok q \<and> pnl_list q = ?N)
       \<or> err \<in> {MDBX_TXN_FULL, MDBX_ENOMEM} \<and> ppnl' = ppnl"
    by (rule with_room_ok[OF m ok e[unfolded pnl_insert_span_def]])
      (use insert_span_at_ok[of _ n pgno] d n in \<open>simp add: r_def\<close>)
  moreover have "set ?N = set ?L \<union> {pgno ..< pgno + n}"
    by (metis (no_types, lifting) Un_assoc Un_commute append_take_drop_id atLeastLessThan_upt set_append set_rev)
  moreover have "sorted_wrt (>) ?N"
  proof (intro sorted_wrt_appendI)
    have "\<not> (pgno \<le> x \<and> x < pgno + n)" if "x \<in> set ?L" for x using new that by fastforce
    note S = takeWhile_gr_split[OF d this, folded r_def]
    show "sorted_wrt (>) (take r ?L)" "sorted_wrt (>) (drop r ?L)" using d by (simp_all add: sorted_wrt_take sorted_wrt_drop)
    show "sorted_wrt (>) (rev [pgno ..< pgno + n])" by (simp add: sorted_wrt_rev)
    show "y < x" if "x \<in> set (rev [pgno ..< pgno + n])" "y \<in> set (drop r ?L)" for x y using S(2) that n by fastforce
    show "y < x" if "x \<in> set (take r ?L)" "y \<in> set (rev [pgno ..< pgno + n] @ drop r ?L)" for x y
      using S that n by fastforce
  qed
  ultimately show ?thesis by metis
qed

subsection \<open>Searching\<close>

interpretation pnl_order: search_order "(>) :: nat \<Rightarrow> nat \<Rightarrow> bool" "sorted_wrt (>)"
  by unfold_locales (metis order_less_trans sorted_wrt_gr_nth)

lemma pnl_search_correct:
  assumes "pnl_ok p" "pnl_desc p"
  shows "pnl_search_nochk p pgno = length (takeWhile (\<lambda>x. pgno < x) (pnl_list p)) + 1"
    "1 \<le> pnl_search_nochk p pgno" "pnl_search_nochk p pgno \<le> pnl_size p + 1"
    "0 < i \<Longrightarrow> i < pnl_search_nochk p pgno \<Longrightarrow> pgno < slots p ! i"
    "pnl_search_nochk p pgno \<le> i \<Longrightarrow> i \<le> pnl_size p \<Longrightarrow> slots p ! i \<le> pgno"
proof -
  show "pnl_search_nochk p pgno = length (takeWhile (\<lambda>x. pgno < x) (pnl_list p)) + 1"
    unfolding pnl_search_nochk_def using pnl_order.search_correct[OF assms(2), of True pgno] by simp
  show "1 \<le> pnl_search_nochk p pgno" by (simp add: pnl_search_nochk_def)
  show le: "pnl_search_nochk p pgno \<le> pnl_size p + 1"
    unfolding pnl_search_nochk_def using pnl_order.search_le[OF assms(2), of True pgno] assms(1) by simp
  show "0 < i \<Longrightarrow> i < pnl_search_nochk p pgno \<Longrightarrow> pgno < slots p ! i"
    using pnl_order.search_before[OF assms(2), of "i - 1" True pgno] slots_pnl_list[OF assms(1), of i] le
    by (simp add: pnl_search_nochk_def)
  show "pnl_search_nochk p pgno \<le> i \<Longrightarrow> i \<le> pnl_size p \<Longrightarrow> slots p ! i \<le> pgno"
    using pnl_order.search_after[OF assms(2), of True pgno "i - 1"] slots_pnl_list[OF assms(1), of i] assms(1)
    by (cases i) (auto simp: pnl_search_nochk_def)
qed

lemma in_pnl_list_slots:
  assumes "pnl_ok p"
  shows "x \<in> set (pnl_list p) \<longleftrightarrow> (\<exists>i. 0 < i \<and> i \<le> pnl_size p \<and> slots p ! i = x)"
proof
  assume "x \<in> set (pnl_list p)"
  then obtain i where "i < pnl_size p" "pnl_list p ! i = x" using assms by (auto simp: in_set_conv_nth)
  then show "\<exists>i. 0 < i \<and> i \<le> pnl_size p \<and> slots p ! i = x"
    using nth_pnl_list[OF assms, of i] by (intro exI[of _ "i + 1"]) simp
next
  assume "\<exists>i. 0 < i \<and> i \<le> pnl_size p \<and> slots p ! i = x"
  then show "x \<in> set (pnl_list p)" using slots_pnl_list[OF assms] assms
    by (metis One_nat_def Suc_diff_1 Suc_le_lessD length_pnl_list nth_mem)
qed

lemma pnl_slots_desc:
  assumes "pnl_ok p" "pnl_desc p" "0 < i" "i < j" "j \<le> pnl_size p"
  shows "slots p ! j < slots p ! i"
  using sorted_wrt_gr_nth[OF assms(2), of "i - 1" "j - 1"] slots_pnl_list[OF assms(1)] assms by simp

lemma pnl_contains_iff:
  assumes "pnl_ok p" "pnl_desc p"
  shows "pnl_contains p pgno \<longleftrightarrow> pgno \<in> set (pnl_list p)"
proof
  assume "pnl_contains p pgno"
  then show "pgno \<in> set (pnl_list p)" unfolding pnl_contains_def Let_def in_pnl_list_slots[OF assms(1)]
    using pnl_search_correct(2)[OF assms, of pgno] by (metis One_nat_def Suc_le_lessD)
next
  assume "pgno \<in> set (pnl_list p)"
  then obtain i where i: "0 < i" "i \<le> pnl_size p" "slots p ! i = pgno" unfolding in_pnl_list_slots[OF assms(1)] by blast
  let ?n = "pnl_search_nochk p pgno"
  have "?n \<le> i" using pnl_search_correct(4)[OF assms, of i pgno] i by (meson less_irrefl not_le)
  moreover have "slots p ! ?n \<le> pgno" using pnl_search_correct(5)[OF assms, of pgno ?n] calculation i by simp
  moreover have "i \<le> ?n"
  proof (rule ccontr)
    assume "\<not> i \<le> ?n"
    then have "slots p ! i < slots p ! ?n" using pnl_slots_desc[OF assms, of ?n i] pnl_search_correct(2)[OF assms, of pgno] i by simp
    then show False using calculation i by simp
  qed
  ultimately show "pnl_contains p pgno" using i by (simp add: pnl_contains_def)
qed

lemma pnl_search_exact_iff:
  assumes "pnl_ok p" "pnl_desc p"
  shows "pnl_search_exact p pgno = 0 \<longleftrightarrow> pgno \<notin> set (pnl_list p)"
    "pgno \<in> set (pnl_list p) \<Longrightarrow> slots p ! pnl_search_exact p pgno = pgno"
  using pnl_contains_iff[OF assms, of pgno] pnl_search_correct(2)[OF assms, of pgno]
  by (auto simp: pnl_search_exact_def pnl_contains_def Let_def)

text \<open>In a descending list the entries \<open>d\<close> apart differ by at least \<open>d\<close>; if by exactly \<open>d\<close>, they are a run.\<close>

lemma pnl_gap:
  assumes "pnl_ok p" "pnl_desc p" "0 < i"
  shows "i + d \<le> pnl_size p \<Longrightarrow> slots p ! (i + d) + d \<le> slots p ! i"
proof (induction d)
  case (Suc d)
  then show ?case using pnl_slots_desc[OF assms(1,2), of "i + d" "i + Suc d"] assms(3) by simp
qed simp

lemma pnl_run:
  assumes "pnl_ok p" "pnl_desc p" "0 < i" "i + d \<le> pnl_size p" "slots p ! (i + d) + d = slots p ! i" "k \<le> d"
  shows "slots p ! (i + k) + k = slots p ! i"
proof -
  have "slots p ! (i + k) + k \<le> slots p ! i" using pnl_gap[OF assms(1-3), of k] assms by simp
  moreover have "slots p ! (i + k + (d - k)) + (d - k) \<le> slots p ! (i + k)"
    using pnl_gap[OF assms(1,2), of "i + k" "d - k"] assms by simp
  ultimately show ?thesis using assms by simp
qed

lemma contiguous_iff: "next_pg \<le> prev \<Longrightarrow> contiguous prev next_pg span \<longleftrightarrow> prev = next_pg + span"
  by (auto simp: contiguous_def)

lemma pnl_contains_span_iff:
  assumes "pnl_ok p" "pnl_desc p" "0 < span" and "pnl_search_nochk p pgno \<le> pnl_size p"
  shows "pnl_contains_span p pgno span \<longleftrightarrow> {pgno ..< pgno + span} \<subseteq> set (pnl_list p)"
proof -
  let ?n = "pnl_search_nochk p pgno"
  note S = pnl_search_correct[OF assms(1,2), of pgno]
  have n1: "1 \<le> ?n" using S(2) by auto
  show ?thesis
  proof
    assume "pnl_contains_span p pgno span"
    then have c: "span \<le> ?n" "slots p ! ?n = pgno" "contiguous (slots p ! (?n - span + 1)) (slots p ! ?n) (span - 1)"
      unfolding pnl_contains_span_def Let_def by blast+
    define i where "i = ?n - span + 1"
    have i: "0 < i" "i + (span - 1) = ?n" using c(1) assms(3) by (simp_all add: i_def)
    have "slots p ! ?n \<le> slots p ! i" using pnl_gap[OF assms(1,2) i(1), of "span - 1"] i assms(4) by simp
    then have r: "slots p ! (i + (span - 1)) + (span - 1) = slots p ! i" using c i contiguous_iff unfolding i_def by metis
    show "{pgno ..< pgno + span} \<subseteq> set (pnl_list p)"
    proof
      fix x assume x: "x \<in> {pgno ..< pgno + span}"
      define k where "k = span - 1 - (x - pgno)"
      have k: "k \<le> span - 1" by (simp add: k_def)
      have "slots p ! (i + k) + k = slots p ! i"
        using pnl_run[OF assms(1,2) i(1) _ r k] i(2) assms(4) by simp
      moreover have "slots p ! i = pgno + (span - 1)" using r i(2) c(2) by metis
      moreover have "k + (x - pgno) = span - 1" "pgno \<le> x" using x by (auto simp: k_def)
      ultimately have "slots p ! (i + k) = x" by linarith
      moreover have "0 < i + k" "i + k \<le> pnl_size p" using i k assms(4) by simp_all
      ultimately show "x \<in> set (pnl_list p)" unfolding in_pnl_list_slots[OF assms(1)] by blast
    qed
  next
    assume sub: "{pgno ..< pgno + span} \<subseteq> set (pnl_list p)"
    have "pgno \<in> set (pnl_list p)" using sub assms(3) by auto
    then have at: "slots p ! ?n = pgno" using pnl_contains_iff[OF assms(1,2), of pgno] by (simp add: pnl_contains_def Let_def)
    have "pgno + (span - 1) \<in> set (pnl_list p)" using sub assms(3) by auto
    then obtain j where j: "0 < j" "j \<le> pnl_size p" "slots p ! j = pgno + (span - 1)" unfolding in_pnl_list_slots[OF assms(1)] by blast
    have jn: "j \<le> ?n"
    proof (rule ccontr)
      assume "\<not> j \<le> ?n"
      then have "slots p ! j < slots p ! ?n" using pnl_slots_desc[OF assms(1,2), of ?n j] j n1 by simp
      then show False using j at by simp
    qed
    have "{pgno ..< pgno + span} \<subseteq> (\<lambda>i. slots p ! i) ` {j .. ?n}"
    proof
      fix x assume x: "x \<in> {pgno ..< pgno + span}"
      have "x \<in> set (pnl_list p)" by (rule subsetD[OF sub x])
      then obtain i where i: "0 < i" "i \<le> pnl_size p" "slots p ! i = x" by (auto simp: in_pnl_list_slots[OF assms(1)])
      have "j \<le> i"
      proof (rule ccontr)
        assume "\<not> j \<le> i"
        then have "slots p ! j < slots p ! i" using pnl_slots_desc[OF assms(1,2), of i j] i j by simp
        then show False using i j x by simp
      qed
      moreover have "i \<le> ?n"
      proof (rule ccontr)
        assume "\<not> i \<le> ?n"
        then have "slots p ! i < slots p ! ?n" using pnl_slots_desc[OF assms(1,2), of ?n i] i n1 by simp
        then show False using i at x by simp
      qed
      ultimately show "x \<in> (\<lambda>i. slots p ! i) ` {j .. ?n}" using i(3) by auto
    qed
    then have "card {pgno ..< pgno + span} \<le> card ((\<lambda>i. slots p ! i) ` {j .. ?n})" by (rule card_mono[rotated]) simp
    also have "\<dots> \<le> card {j .. ?n}" by (rule card_image_le) simp
    finally have c: "span \<le> ?n + 1 - j" by simp
    have g: "slots p ! (j + (?n - j)) + (?n - j) \<le> slots p ! j" using pnl_gap[OF assms(1,2) j(1), of "?n - j"] jn assms(4) by simp
    then have "j = ?n - span + 1" using c jn at j assms(3) by simp
    then show "pnl_contains_span p pgno span" unfolding pnl_contains_span_def Let_def
      using at j c jn assms(3) by (simp add: contiguous_iff)
  qed
qed

subsection \<open>Cutting\<close>

lemma pnl_cut_ok:
  assumes ok: "pnl_ok p" and c: "0 < i" "i + span \<le> pnl_size p + 1"
  shows "pnl_ok (pnl_cut p i span) \<and> alloclen (pnl_cut p i span) = alloclen p \<and>
    pnl_list (pnl_cut p i span) = take (i - 1) (pnl_list p) @ drop (i - 1 + span) (pnl_list p)"
proof (cases "span > 0")
  case False
  then show ?thesis using ok by (simp add: pnl_cut_def)
next
  case True
  let ?m = "pnl_size p - span"
  let ?s = "(slots p)[0 := ?m]" and ?q = "pnl_cut p i span"
  let ?N = "take (i - 1) (pnl_list p) @ drop (i - 1 + span) (pnl_list p)"
  have q: "slots ?q = copy_fwd ?s i (i + span) (?m + 1 - i)" "alloclen ?q = alloclen p"
    using True by (simp_all add: pnl_cut_def pnl_setsize_def Let_def)
  have sl: "pnl_size p + 1 < length (slots p)" using ok by (simp add: pnl_ok_def)
  have lN: "length ?N = ?m" using ok c by simp
  have nth: "slots ?q ! j = (if i \<le> j \<and> j < i + (?m + 1 - i) then ?s ! (i + span + (j - i)) else ?s ! j)"
    if "j < length (slots p)" for j
    unfolding q using nth_copy_fwd[of i "i + span" "?m + 1 - i" ?s j] that sl c by simp
  have "pnl_list ?q = ?N \<and> pnl_size ?q = length ?N"
  proof (rule pnl_list_by_nth)
    show "slots ?q \<noteq> []" unfolding q using sl by (metis length_copy_fwd length_list_update list.size(3) not_less_zero)
    show "slots ?q ! 0 = length ?N" unfolding lN using nth[of 0] sl c(1) pnl_ok_nonempty[OF ok] by simp
    show "length ?N < length (slots ?q)" unfolding lN q using sl by simp
    fix j assume "j < length ?N"
    then have j: "j < ?m" unfolding lN .
    show "slots ?q ! (j + 1) = ?N ! j"
    proof (cases "j < i - 1")
      case True
      then have "j + 1 < i" by simp
      then have "slots ?q ! (j + 1) = slots p ! (j + 1)" using nth[of "j + 1"] j sl by simp
      then show ?thesis using True j nth_pnl_list[OF ok, of j] ok by (simp add: nth_append)
    next
      case False
      then have "?N ! j = pnl_list p ! (j + span)" using ok c j by (simp add: nth_append add.commute)
      also have "\<dots> = slots p ! (j + span + 1)" using nth_pnl_list[OF ok, of "j + span"] j by simp
      also have "\<dots> = ?s ! (i + span + (j + 1 - i))" using False c by (simp add: add.commute)
      finally have N: "?N ! j = ?s ! (i + span + (j + 1 - i))" .
      have "i \<le> j + 1 \<and> j + 1 < i + (?m + 1 - i)" "j + 1 < length (slots p)" using False j c sl by auto
      then show ?thesis unfolding N by (simp only: nth if_True simp_thms)
    qed
  qed
  moreover have "pnl_ok ?q" using calculation q ok lN by (auto simp: pnl_ok_def)
  ultimately show ?thesis using q by simp
qed

subsection \<open>Merging\<close>

definition cells_from :: "pgno list \<Rightarrow> nat \<Rightarrow> pgno list" where
  "cells_from xs n = take n (drop 1 xs)"

lemma cells_from_snoc: "Suc n < length xs \<Longrightarrow> cells_from xs (Suc n) = cells_from xs n @ [xs ! Suc n]"
  by (simp add: cells_from_def take_Suc_conv_app_nth)

lemma cells_from_update: "n < k \<Longrightarrow> cells_from (xs[k := v]) n = cells_from xs n"
  by (simp add: cells_from_def drop_update_swap)

lemma length_merge_inner [simp]: "length (merge_inner dst src w a b) = length dst"
  by (induction dst src w a b rule: merge_inner.induct) (auto simp: Let_def)

lemma merge_inner_spec:
  assumes "w = a + b" "0 < b" "w < length dst" "b < length src"
    "sorted_wrt (\<ge>) (cells_from dst a)" "sorted_wrt (\<ge>) (cells_from src b)"
    "\<forall>x \<in> set (cells_from src b). x \<le> dst ! 0"
  shows "\<exists>M. cells_from (merge_inner dst src w a b) w = M \<and> mset M = mset (cells_from dst a) + mset (cells_from src b) \<and>
     sorted_wrt (\<ge>) M \<and> merge_inner dst src w a b ! 0 = dst ! 0 \<and>
     drop (w + 1) (merge_inner dst src w a b) = drop (w + 1) dst"
  using assms
proof (induction dst src w a b rule: merge_inner.induct)
  case (2 dst src w a b)
  obtain b' where b': "b = Suc b'" using "2.prems"(2) by (cases b) auto
  have B: "cells_from src b = cells_from src b' @ [src ! b]" using "2.prems"(4) b' by (simp add: cells_from_snoc)
  have srcb: "src ! b \<le> dst ! 0" using "2.prems"(7) B by simp
  have Bs: "sorted_wrt (\<ge>) (cells_from src b')" "\<forall>x \<in> set (cells_from src b'). src ! b \<le> x"
    using "2.prems"(6) unfolding B by (auto simp: sorted_wrt_append)
  show ?case
  proof (cases "dst ! a < src ! b")
    case True
    then obtain a' where a': "a = Suc a'" using srcb by (cases a) auto
    have A: "cells_from dst a = cells_from dst a' @ [dst ! a]" using "2.prems"(1,3) a' by (simp add: cells_from_snoc)
    have As: "sorted_wrt (\<ge>) (cells_from dst a')" "\<forall>x \<in> set (cells_from dst a'). dst ! a \<le> x"
      using "2.prems"(5) unfolding A by (auto simp: sorted_wrt_append)
    let ?d = "dst[Suc w := dst ! a]"
    have wa: "a' < Suc w" "w = a' + b" using "2.prems"(1) a' by auto
    have cA: "cells_from ?d a' = cells_from dst a'" using wa by (simp add: cells_from_update)
    have ev: "merge_inner dst src (Suc w) a b = merge_inner ?d src w a' b"
      using True a' "2.prems"(2) by (simp add: Let_def)
    have "\<exists>M. cells_from (merge_inner ?d src w a' b) w = M \<and>
        mset M = mset (cells_from ?d a') + mset (cells_from src b) \<and> sorted_wrt (\<ge>) M \<and>
        merge_inner ?d src w a' b ! 0 = ?d ! 0 \<and> drop (w + 1) (merge_inner ?d src w a' b) = drop (w + 1) ?d"
      using True a' wa "2.prems" As cA by (intro "2.IH") (auto simp: Let_def)
    then obtain M where M: "cells_from (merge_inner ?d src w a' b) w = M"
        "mset M = mset (cells_from dst a') + mset (cells_from src b)" "sorted_wrt (\<ge>) M"
        "merge_inner ?d src w a' b ! 0 = dst ! 0" "drop (w + 1) (merge_inner ?d src w a' b) = drop (w + 1) ?d"
      unfolding cA by auto
    let ?R = "merge_inner ?d src w a' b"
    have last: "?R ! Suc w = dst ! a"
    proof -
      have "drop (w + 1) ?R ! 0 = drop (w + 1) ?d ! 0" using M(5) by simp
      then show ?thesis using "2.prems"(3) by simp
    qed
    have "cells_from ?R (Suc w) = M @ [dst ! a]" using "2.prems"(3) M(1) last by (simp add: cells_from_snoc)
    moreover have "mset (M @ [dst ! a]) = mset (cells_from dst a) + mset (cells_from src b)" using M(2) A by simp
    moreover have "dst ! a \<le> x" if "x \<in> set M" for x
    proof -
      have "x \<in># mset M" using that by simp
      then have "x \<in> set (cells_from dst a') \<or> x \<in> set (cells_from src b)" unfolding M(2) by simp
      then show ?thesis using As(2) Bs(2) B True by fastforce
    qed
    then have "sorted_wrt (\<ge>) (M @ [dst ! a])" using M(3) by (simp add: sorted_wrt_append)
    moreover have "drop (Suc w + 1) ?R = drop (Suc w + 1) dst"
    proof -
      have "drop 1 (drop (w + 1) ?R) = drop 1 (drop (w + 1) ?d)" using M(5) by simp
      then show ?thesis by (simp add: drop_update_lt)
    qed
    ultimately show ?thesis using M(4) unfolding ev by blast
  next
    case False
    let ?d = "dst[Suc w := src ! b]"
    have wa: "a < Suc w" "w = a + b'" using "2.prems"(1) b' by auto
    have cA: "cells_from ?d a = cells_from dst a" using wa by (simp add: cells_from_update)
    have ub: "src ! b \<le> x" if x: "x \<in> set (cells_from dst a)" for x
    proof -
      obtain a' where a': "a = Suc a'" using x by (cases a) (auto simp: cells_from_def)
      have "cells_from dst a = cells_from dst a' @ [dst ! a]" using "2.prems"(1,3) a' by (simp add: cells_from_snoc)
      then show ?thesis using "2.prems"(5) x False by (auto simp: sorted_wrt_append)
    qed
    have ev: "merge_inner dst src (Suc w) a b = (if 0 < b' then merge_inner ?d src w a b' else ?d)"
      using False b' by (simp add: Let_def)
    define R where "R = merge_inner dst src (Suc w) a b"
    have "\<exists>M. cells_from R w = M \<and> mset M = mset (cells_from dst a) + mset (cells_from src b') \<and> sorted_wrt (\<ge>) M \<and>
        R ! 0 = dst ! 0 \<and> drop (w + 1) R = drop (w + 1) ?d"
    proof (cases "0 < b'")
      case True
      have "\<exists>M. cells_from (merge_inner ?d src w a b') w = M \<and>
          mset M = mset (cells_from ?d a) + mset (cells_from src b') \<and> sorted_wrt (\<ge>) M \<and>
          merge_inner ?d src w a b' ! 0 = ?d ! 0 \<and> drop (w + 1) (merge_inner ?d src w a b') = drop (w + 1) ?d"
        using False b' wa "2.prems" Bs B cA True by (intro "2.IH") (auto simp: Let_def)
      then show ?thesis using True unfolding R_def ev cA by simp
    next
      case f: False
      then have "R = ?d" "w = a" "cells_from src b' = []" using ev wa by (simp_all add: R_def cells_from_def)
      then show ?thesis using cA "2.prems"(5) by simp
    qed
    then obtain M where M: "cells_from R w = M" "mset M = mset (cells_from dst a) + mset (cells_from src b')"
        "sorted_wrt (\<ge>) M" "R ! 0 = dst ! 0" "drop (w + 1) R = drop (w + 1) ?d" by blast
    have lR: "length R = length dst" unfolding R_def by (rule length_merge_inner)
    have last: "R ! Suc w = src ! b"
    proof -
      have "drop (w + 1) R ! 0 = drop (w + 1) ?d ! 0" using M(5) by simp
      then show ?thesis using "2.prems"(3) lR by simp
    qed
    have "cells_from R (Suc w) = M @ [src ! b]" using "2.prems"(3) M(1) last lR by (simp add: cells_from_snoc)
    moreover have "mset (M @ [src ! b]) = mset (cells_from dst a) + mset (cells_from src b)" using M(2) B by simp
    moreover have "src ! b \<le> x" if "x \<in> set M" for x
    proof -
      have "x \<in># mset M" using that by simp
      then have "x \<in> set (cells_from dst a) \<or> x \<in> set (cells_from src b')" unfolding M(2) by simp
      then show ?thesis using ub Bs(2) by blast
    qed
    then have "sorted_wrt (\<ge>) (M @ [src ! b])" using M(3) by (simp add: sorted_wrt_append)
    moreover have "drop (Suc w + 1) R = drop (Suc w + 1) dst"
    proof -
      have "drop 1 (drop (w + 1) R) = drop 1 (drop (w + 1) ?d)" using M(5) by simp
      then show ?thesis by (simp add: drop_update_lt)
    qed
    ultimately show ?thesis using M(4) unfolding R_def by blast
  qed
qed simp

lemma cells_from_pnl_list: "pnl_list p = cells_from (slots p) (pnl_size p)"
  by (simp add: cells_from_def pnl_list_def)

lemma sorted_wrt_ge_strict: "sorted_wrt (\<ge>) (xs :: nat list) \<Longrightarrow> distinct xs \<Longrightarrow> sorted_wrt (>) xs"
  by (induction xs) (auto simp: le_less)

lemma sorted_wrt_gr_weak: "sorted_wrt (>) (xs :: nat list) \<Longrightarrow> sorted_wrt (\<ge>) xs"
  by (induction xs) (auto simp: less_imp_le)

lemma pnl_merge_mset:
  assumes d: "pnl_ok dst" "pnl_desc dst" and s: "pnl_ok src" "pnl_desc src"
    and room: "pnl_size dst + pnl_size src \<le> alloclen dst" and b: "\<forall>x \<in> set (pnl_list src). x \<le> P_INVALID"
  shows "pnl_ok (pnl_merge dst src) \<and> alloclen (pnl_merge dst src) = alloclen dst \<and>
    mset (pnl_list (pnl_merge dst src)) = mset (pnl_list dst) + mset (pnl_list src) \<and>
    sorted_wrt (\<ge>) (pnl_list (pnl_merge dst src))"
proof (cases "pnl_size src > 0")
  case False
  then have "pnl_list src = []" by (simp add: pnl_list_def)
  then show ?thesis using False d by (simp add: pnl_merge_def sorted_wrt_gr_weak)
next
  case True
  let ?a = "pnl_size dst" and ?b = "pnl_size src" and ?D = "slots dst" and ?S = "slots src"
  let ?t = "?a + ?b"
  have sl: "?t + 1 < length ?D" "?b + 1 < length ?S" using d(1) s(1) room by (auto simp: pnl_ok_def)
  let ?q = "pnl_merge dst src"
  \<comment> \<open>it is enough to know the array, with the new size in cell 0\<close>
  have fin: ?thesis
    if X: "?q = pnl_setsize (dst\<lparr>slots := X\<rparr>) ?t" "length X = length ?D" "mset (cells_from X ?t) = mset (pnl_list dst) + mset (pnl_list src)"
      "sorted_wrt (\<ge>) (cells_from X ?t)" for X
  proof -
    have ne: "X \<noteq> []" using X(2) sl by auto
    then have sz: "pnl_size ?q = ?t" by (simp add: X(1))
    have "pnl_list ?q = cells_from X ?t"
      using sz unfolding cells_from_pnl_list[of ?q] by (simp add: X(1) slots_setsize cells_from_def)
    then show ?thesis using X sl room sz d(1) by (simp add: pnl_ok_def)
  qed
  have inner: ?thesis if q: "?q = pnl_setsize (dst\<lparr>slots := merge_inner (?D[0 := P_INVALID]) ?S ?t ?a ?b\<rparr>) ?t"
  proof -
    let ?D0 = "?D[0 := P_INVALID]"
    have c: "cells_from ?D0 ?a = pnl_list dst" by (simp add: cells_from_def pnl_list_def)
    obtain M where M: "cells_from (merge_inner ?D0 ?S ?t ?a ?b) ?t = M"
        "mset M = mset (cells_from ?D0 ?a) + mset (cells_from ?S ?b)" "sorted_wrt (\<ge>) M"
      using merge_inner_spec[of ?t ?a ?b ?D0 ?S] True sl d(2) s(2) b pnl_ok_nonempty[OF d(1)]
      by (auto simp: c cells_from_pnl_list[symmetric] sorted_wrt_gr_weak)
    show ?thesis by (rule fin[OF q]) (use M c in \<open>simp_all add: cells_from_pnl_list[symmetric]\<close>)
  qed
  note md = pnl_merge_def[of dst src, unfolded Let_def]
  consider "?t < 21" | "\<not> ?t < 21" "?a = 0 \<or> ?D ! ?a > ?S ! 1"
    | "\<not> ?t < 21" "\<not> (?a = 0 \<or> ?D ! ?a > ?S ! 1)" "?S ! ?b > ?D ! 1"
    | "\<not> ?t < 21" "\<not> (?a = 0 \<or> ?D ! ?a > ?S ! 1)" "\<not> ?S ! ?b > ?D ! 1" by blast
  then show ?thesis
  proof cases
    case 2
    let ?X = "take (?a + 1) ?D @ pnl_list src @ drop (?t + 1) ?D"
    have cx: "cells_from ?X ?t = pnl_list dst @ pnl_list src"
      using take_slots[OF d(1) order_refl] d(1) s(1) by (simp add: cells_from_def)
    have "sorted_wrt (>) (pnl_list dst @ pnl_list src)"
    proof (intro sorted_wrt_appendI d(2) s(2))
      fix x y assume xy: "x \<in> set (pnl_list dst)" "y \<in> set (pnl_list src)"
      obtain i where i: "0 < i" "i \<le> ?a" "?D ! i = x" using xy(1) by (auto simp: in_pnl_list_slots[OF d(1)])
      obtain j where j: "0 < j" "j \<le> ?b" "?S ! j = y" using xy(2) by (auto simp: in_pnl_list_slots[OF s(1)])
      have "?D ! ?a \<le> x" using pnl_slots_desc[OF d i(1), of ?a] i by (cases "i = ?a") auto
      moreover have "y \<le> ?S ! 1" using pnl_slots_desc[OF s, of 1 j] j by (cases "j = 1") auto
      ultimately show "y < x" using 2(2) i by auto
    qed
    then show ?thesis using 2 True md cx sl d(1) s(1)
      by (intro fin[of ?X]) (auto simp: sorted_wrt_gr_weak)
  next
    case 3
    let ?X = "take 1 ?D @ pnl_list src @ pnl_list dst @ drop (?t + 1) ?D"
    have cx: "cells_from ?X ?t = pnl_list src @ pnl_list dst"
      using d(1) s(1) sl by (cases ?D) (simp_all add: cells_from_def)
    have "sorted_wrt (>) (pnl_list src @ pnl_list dst)"
    proof (intro sorted_wrt_appendI d(2) s(2))
      fix x y assume xy: "x \<in> set (pnl_list src)" "y \<in> set (pnl_list dst)"
      obtain i where i: "0 < i" "i \<le> ?a" "?D ! i = y" using xy(2) by (auto simp: in_pnl_list_slots[OF d(1)])
      obtain j where j: "0 < j" "j \<le> ?b" "?S ! j = x" using xy(1) by (auto simp: in_pnl_list_slots[OF s(1)])
      have "?S ! ?b \<le> x" using pnl_slots_desc[OF s j(1), of ?b] j by (cases "j = ?b") auto
      moreover have "y \<le> ?D ! 1" using pnl_slots_desc[OF d, of 1 i] i by (cases "i = 1") auto
      ultimately show "y < x" using 3(3) by simp
    qed
    then show ?thesis using 3 True md cx sl d(1) s(1)
      by (intro fin[of ?X]) (auto simp: sorted_wrt_gr_weak)
  next
    case 1
    show ?thesis by (rule inner) (use 1 True md in simp)
  next
    case 4
    show ?thesis by (rule inner) (use 4 True md in auto)
  qed
qed

lemma pnl_merge_ok:
  assumes "pnl_ok dst" "pnl_desc dst" "pnl_ok src" "pnl_desc src"
    and "pnl_size dst + pnl_size src \<le> alloclen dst" "\<forall>x \<in> set (pnl_list src). x \<le> P_INVALID"
    and "set (pnl_list dst) \<inter> set (pnl_list src) = {}"
  shows "pnl_ok (pnl_merge dst src) \<and> pnl_desc (pnl_merge dst src) \<and>
    set (pnl_list (pnl_merge dst src)) = set (pnl_list dst) \<union> set (pnl_list src)"
proof -
  note M = pnl_merge_mset[OF assms(1-6)]
  have "distinct (pnl_list dst @ pnl_list src)" using assms(2,4,7) by (simp add: sorted_wrt_gr_distinct)
  then have "distinct (pnl_list (pnl_merge dst src))"
    using M by (metis mset_append mset_eq_imp_distinct_iff)
  moreover have "set (pnl_list (pnl_merge dst src)) = set (pnl_list dst) \<union> set (pnl_list src)"
    using M by (metis mset_append set_append set_mset_mset)
  ultimately show ?thesis using M by (simp add: sorted_wrt_ge_strict)
qed

end
