(* ===== verification/Pnl_Ops.thy ===== *)
theory Pnl_Ops
  imports Pnl_Set
begin

text \<open>
  The page allocator's view of the page number lists: runs of consecutive pages (\<open>pnl_maxspan\<close>,
  \<open>pnl_get_best_sequence\<close>), removal of the pages of another list (\<open>pnl_sift\<close>), of a range
  (\<open>pnl_cut_range\<close>) and of the tail of the file (\<open>refund_reclaimed\<close>); and the properties of the
  component.
\<close>

subsection \<open>Runs of consecutive pages\<close>

lemma pnl_slots_le:
  assumes "pnl_ok p" "pnl_desc p" "0 < i" "i \<le> j" "j \<le> pnl_size p"
  shows "slots p ! j \<le> slots p ! i"
  using pnl_slots_desc[OF assms(1-3), of j] assms(4,5) by (cases "i = j") auto

definition run_from :: "pnl \<Rightarrow> nat \<Rightarrow> nat \<Rightarrow> bool" where
  "run_from p i n \<longleftrightarrow> 0 < i \<and> 0 < n \<and> i + n \<le> pnl_size p + 1 \<and> slots p ! (i + (n - 1)) + (n - 1) = slots p ! i"

lemma run_from_subset:
  assumes "pnl_ok p" "pnl_desc p" "run_from p i n"
  shows "{slots p ! (i + (n - 1)) ..< slots p ! (i + (n - 1)) + n} \<subseteq> set (pnl_list p)"
proof
  fix x assume x: "x \<in> {slots p ! (i + (n - 1)) ..< slots p ! (i + (n - 1)) + n}"
  have r: "0 < i" "0 < n" "i + (n - 1) \<le> pnl_size p" "slots p ! (i + (n - 1)) + (n - 1) = slots p ! i"
    using assms(3) by (auto simp: run_from_def)
  define k where "k = slots p ! i - x"
  have k: "k \<le> n - 1" "k + x = slots p ! i" using x r by (auto simp: k_def)
  have "slots p ! (i + k) + k = slots p ! i" by (rule pnl_run[OF assms(1,2) r(1,3,4) k(1)])
  then have "slots p ! (i + k) = x" using k by simp
  moreover have "0 < i + k" "i + k \<le> pnl_size p" using r k by simp_all
  ultimately show "x \<in> set (pnl_list p)" unfolding in_pnl_list_slots[OF assms(1)] by blast
qed

text \<open>Every run of pages in the list is a run of entries.\<close>

lemma subset_run_from:
  assumes ok: "pnl_ok p" and d: "pnl_desc p" and n: "0 < n" and sub: "{x ..< x + n} \<subseteq> set (pnl_list p)"
  shows "\<exists>i. run_from p i n \<and> slots p ! (i + (n - 1)) = x"
proof -
  have x: "x \<in> set (pnl_list p)" "x + (n - 1) \<in> set (pnl_list p)" using sub n by auto
  obtain j where j: "0 < j" "j \<le> pnl_size p" "slots p ! j = x" using x(1) by (auto simp: in_pnl_list_slots[OF ok])
  obtain i where i: "0 < i" "i \<le> pnl_size p" "slots p ! i = x + (n - 1)" using x(2) by (auto simp: in_pnl_list_slots[OF ok])
  have ij: "i \<le> j"
  proof (rule ccontr)
    assume "\<not> i \<le> j"
    then have "slots p ! i < slots p ! j" using pnl_slots_desc[OF ok d, of j i] i j by simp
    then show False using i j by simp
  qed
  have "{x ..< x + n} \<subseteq> (\<lambda>k. slots p ! k) ` {i .. j}"
  proof
    fix y assume y: "y \<in> {x ..< x + n}"
    have "y \<in> set (pnl_list p)" by (rule subsetD[OF sub y])
    then obtain k where k: "0 < k" "k \<le> pnl_size p" "slots p ! k = y" by (auto simp: in_pnl_list_slots[OF ok])
    have "\<not> k < i" using pnl_slots_desc[OF ok d, of k i] i k y by auto
    moreover have "\<not> j < k" using pnl_slots_desc[OF ok d, of j k] j k y by auto
    ultimately show "y \<in> (\<lambda>k. slots p ! k) ` {i .. j}" using k(3) by (intro image_eqI[of _ _ k]) auto
  qed
  then have "card {x ..< x + n} \<le> card ((\<lambda>k. slots p ! k) ` {i .. j})" by (rule card_mono[rotated]) simp
  also have "\<dots> \<le> card {i .. j}" by (rule card_image_le) simp
  finally have c: "n \<le> j + 1 - i" by simp
  have "slots p ! (i + (j - i)) + (j - i) \<le> slots p ! i" using pnl_gap[OF ok d i(1), of "j - i"] ij j by simp
  then have "j = i + (n - 1)" using c ij j i n by auto
  then show ?thesis using i j n by (intro exI[of _ i]) (auto simp: run_from_def)
qed

lemma maxspan_loop_spec:
  assumes "pnl_ok p" "pnl_desc p"
  shows "0 < scan \<Longrightarrow> scan + span + left = pnl_size p + 1 \<Longrightarrow> (\<exists>i \<le> scan. run_from p i span) \<Longrightarrow>
    (\<forall>i < scan. \<not> run_from p i (span + 1)) \<Longrightarrow> m = maxspan_loop (slots p) left scan span \<Longrightarrow>
    (\<exists>i. run_from p i m) \<and> (\<forall>i. \<not> run_from p i (m + 1))"
proof (induction left arbitrary: scan span)
  case 0
  have "\<not> run_from p i (span + 1)" for i using 0(2,4) by (cases "i < scan") (auto simp: run_from_def)
  then show ?case using 0 by auto
next
  case (Suc left)
  obtain i where i: "i \<le> scan" "run_from p i span" using Suc.prems(3) by blast
  have le: "scan + span \<le> pnl_size p" "0 < span" using Suc.prems(2) i(2) by (simp_all add: run_from_def)
  have "slots p ! (scan + span) + span \<le> slots p ! scan" using pnl_gap[OF assms Suc.prems(1) le(1)] .
  then have c: "contiguous (slots p ! scan) (slots p ! (scan + span)) span \<longleftrightarrow> run_from p scan (span + 1)"
    using contiguous_iff[of "slots p ! (scan + span)" "slots p ! scan" span] Suc.prems(1) le by (auto simp: run_from_def)
  show ?case
  proof (cases "run_from p scan (span + 1)")
    case True
    have "\<not> run_from p j (span + 1 + 1)" if j: "j < scan" for j
    proof
      assume r: "run_from p j (span + 1 + 1)"
      then have "slots p ! (j + span) + span = slots p ! j"
        using pnl_run[OF assms, of j "span + 1" span] by (simp add: run_from_def)
      then have "run_from p j (span + 1)" using r by (simp add: run_from_def)
      then show False using Suc.prems(4) j by simp
    qed
    then show ?thesis using Suc.IH[of scan "span + 1"] Suc.prems True c by auto
  next
    case False
    then have "\<forall>i < scan + 1. \<not> run_from p i (span + 1)" using Suc.prems(4) by (auto simp: less_Suc_eq)
    moreover have "\<exists>i \<le> scan + 1. run_from p i span" using i by (intro exI[of _ i]) auto
    ultimately show ?thesis using Suc.prems False c by (intro Suc.IH[of "scan + 1" span]) auto
  qed
qed

lemma pnl_maxspan_max:
  assumes "pnl_ok p" "pnl_desc p"
  defines "S \<equiv> set (pnl_list p)"
  shows "(\<exists>x. {x ..< x + pnl_maxspan p} \<subseteq> S) \<and> (\<forall>x. \<not> {x ..< x + (pnl_maxspan p + 1)} \<subseteq> S)"
proof (cases "pnl_size p = 0")
  case True
  then have "S = {}" "pnl_maxspan p = 0" by (simp_all add: S_def pnl_list_def pnl_maxspan_def)
  then show ?thesis by auto
next
  case False
  have "(\<exists>i. run_from p i (pnl_maxspan p)) \<and> (\<forall>i. \<not> run_from p i (pnl_maxspan p + 1))"
  proof (cases "pnl_size p = 1")
    case True
    then have "pnl_maxspan p = 1" "run_from p 1 1" by (simp_all add: pnl_maxspan_def run_from_def)
    moreover have "\<not> run_from p i (1 + 1)" for i using True by (auto simp: run_from_def)
    ultimately show ?thesis by metis
  next
    case f: False
    show ?thesis
    proof (rule maxspan_loop_spec[OF assms(1,2), of 1 1 "pnl_size p - 1"])
      show "\<exists>i \<le> 1. run_from p i 1" using False by (auto simp: run_from_def)
      show "\<forall>i < 1. \<not> run_from p i (1 + 1)" by (simp add: run_from_def)
      show "pnl_maxspan p = maxspan_loop (slots p) (pnl_size p - 1) 1 1" using f False by (simp add: pnl_maxspan_def)
    qed (use f False in auto)
  qed
  then show ?thesis unfolding S_def
    using run_from_subset[OF assms(1,2)] subset_run_from[OF assms(1,2), of "pnl_maxspan p + 1"] by (meson less_add_one add_gr_0 zero_less_one)
qed

subsection \<open>Taking the best sequence\<close>

definition max_run :: "pnl \<Rightarrow> nat \<Rightarrow> nat \<Rightarrow> bool" where
  "max_run p j n \<longleftrightarrow> 0 < n \<and> n \<le> j \<and> j \<le> pnl_size p \<and> (\<forall>k < n. slots p ! (j - k) = slots p ! j + k) \<and>
     (n < j \<longrightarrow> slots p ! (j - n) \<noteq> slots p ! j + n) \<and> (j < pnl_size p \<longrightarrow> slots p ! (j + 1) + 1 \<noteq> slots p ! j)"

lemma run_at_spec:
  assumes "pnl_ok p" "pnl_desc p"
  shows "j \<le> pnl_size p \<Longrightarrow> 0 < span \<Longrightarrow> span \<le> j \<Longrightarrow> (\<forall>k < span. slots p ! (j - k) = slots p ! j + k) \<Longrightarrow> n = run_at (slots p) j span \<Longrightarrow>
    span \<le> n \<and> n \<le> j \<and> (\<forall>k < n. slots p ! (j - k) = slots p ! j + k) \<and> (n < j \<longrightarrow> slots p ! (j - n) \<noteq> slots p ! j + n)"
proof (induction "slots p" j span rule: run_at.induct)
  case (1 j span)
  have c: "contiguous (slots p ! (j - span)) (slots p ! j) span \<longleftrightarrow> slots p ! (j - span) = slots p ! j + span" if "0 < j - span"
  proof (rule contiguous_iff)
    have "slots p ! j < slots p ! (j - span)" by (rule pnl_slots_desc[OF assms(1,2)]) (use that 1(2,3,4) in auto)
    then show "slots p ! j \<le> slots p ! (j - span)" by simp
  qed
  show ?case
  proof (cases "contiguous (slots p ! (j - span)) (slots p ! j) span \<and> 0 < j - span")
    case True
    then have "\<forall>k < span + 1. slots p ! (j - k) = slots p ! j + k" using 1(5) c by (auto simp: less_Suc_eq)
    moreover have "n = run_at (slots p) j (span + 1)" using 1(6) True by (subst (asm) run_at.simps) simp
    ultimately show ?thesis using 1(1)[OF True 1(2)] True by auto
  next
    case False
    then have "n = span" using 1(6) run_at.simps[of "slots p" j span] by presburger
    then show ?thesis using 1 False c by auto
  qed
qed


text \<open>A maximal run in terms of the set of pages.\<close>

lemma max_run_set:
  assumes ok: "pnl_ok p" and d: "pnl_desc p" and r: "max_run p j n"
  shows "{slots p ! j ..< slots p ! j + n} \<subseteq> set (pnl_list p)" "slots p ! j + n \<notin> set (pnl_list p)"
proof -
  have b: "0 < n" "n \<le> j" "j \<le> pnl_size p" "\<forall>k < n. slots p ! (j - k) = slots p ! j + k"
    "n < j \<longrightarrow> slots p ! (j - n) \<noteq> slots p ! j + n" using r by (simp_all add: max_run_def)
  show "{slots p ! j ..< slots p ! j + n} \<subseteq> set (pnl_list p)"
  proof
    fix x assume x: "x \<in> {slots p ! j ..< slots p ! j + n}"
    then have "x - slots p ! j < n" "slots p ! j + (x - slots p ! j) = x" by auto
    then have "slots p ! (j - (x - slots p ! j)) = x" "x - slots p ! j < n" using b(4) by metis+
    moreover have "0 < j - (x - slots p ! j)" "j - (x - slots p ! j) \<le> pnl_size p" using calculation b by auto
    ultimately show "x \<in> set (pnl_list p)" unfolding in_pnl_list_slots[OF ok] by blast
  qed
  show "slots p ! j + n \<notin> set (pnl_list p)"
  proof
    assume "slots p ! j + n \<in> set (pnl_list p)"
    then obtain i where i: "0 < i" "i \<le> pnl_size p" "slots p ! i = slots p ! j + n" by (auto simp: in_pnl_list_slots[OF ok])
    have "n - 1 < n" using b(1) by simp
    then have top: "slots p ! (j - (n - 1)) = slots p ! j + (n - 1)" using b(4) by blast
    have "i < j - (n - 1)"
    proof (rule ccontr)
      assume "\<not> ?thesis"
      then consider "i = j - (n - 1)" | "j - (n - 1) < i" by linarith
      then show False
      proof cases
        case 1
        then show False using i(3) top b(1) by simp
      next
        case 2
        then have "slots p ! i < slots p ! (j - (n - 1))" using pnl_slots_desc[OF ok d _ 2 i(2)] b by simp
        then show False using i(3) top b(1) by linarith
      qed
    qed
    then have nj: "i \<le> j - n" "n < j" using i(1) b by auto
    have "slots p ! (j - n) \<le> slots p ! i" using pnl_slots_le[OF ok d i(1) nj(1)] b by simp
    moreover have "slots p ! (j - (n - 1)) < slots p ! (j - n)" using pnl_slots_desc[OF ok d, of "j - n" "j - (n - 1)"] nj b by simp
    ultimately show False using i(3) top b nj by auto
  qed
qed

lemma max_run_exists:
  assumes ok: "pnl_ok p" and d: "pnl_desc p" and q: "q \<in> set (pnl_list p)" "0 < q" "q - 1 \<notin> set (pnl_list p)"
  shows "\<exists>j n. max_run p j n \<and> slots p ! j = q"
proof -
  obtain j where j: "0 < j" "j \<le> pnl_size p" "slots p ! j = q" using q(1) by (auto simp: in_pnl_list_slots[OF ok])
  define n where "n = run_at (slots p) j 1"
  have "1 \<le> n \<and> n \<le> j \<and> (\<forall>k < n. slots p ! (j - k) = slots p ! j + k) \<and> (n < j \<longrightarrow> slots p ! (j - n) \<noteq> slots p ! j + n)"
    by (rule run_at_spec[OF ok d j(2)]) (use j in \<open>auto simp: n_def\<close>)
  moreover have "slots p ! (j + 1) + 1 \<noteq> slots p ! j" if "j < pnl_size p"
  proof
    assume "slots p ! (j + 1) + 1 = slots p ! j"
    then have "slots p ! (j + 1) = q - 1" using j by simp
    then have "q - 1 \<in> set (pnl_list p)" unfolding in_pnl_list_slots[OF ok] using that by (intro exI[of _ "j + 1"]) simp
    then show False using q(3) by simp
  qed
  ultimately show ?thesis using j by (intro exI[of _ j] exI[of _ n]) (simp add: max_run_def)
qed

lemma max_run_unique:
  assumes "max_run p j n" "max_run p j m" shows "n = m"
proof (rule ccontr)
  assume "n \<noteq> m"
  then consider "n < m" | "m < n" by linarith
  then show False using assms by cases (auto simp: max_run_def)
qed

lemma best_loop_spec:
  assumes ok: "pnl_ok p" and d: "pnl_desc p"
  shows "0 < seq \<Longrightarrow> seq \<le> detent \<Longrightarrow> i \<le> pnl_size p \<Longrightarrow> (i < pnl_size p \<longrightarrow> 0 < i \<longrightarrow> slots p ! (i + 1) + 1 \<noteq> slots p ! i) \<Longrightarrow>
    best_loop (slots p) seq detent i bp be = (bp', be') \<Longrightarrow>
    (bp' = bp \<and> be' = be \<or> (\<exists>n. max_run p bp' n \<and> bp' \<le> i \<and> seq \<le> n \<and> be' = n - seq \<and> slots p ! bp' \<le> detent - seq \<and> be' < be))
    \<and> be' \<le> be \<and> (\<forall>j n. max_run p j n \<and> j \<le> i \<and> seq \<le> n \<and> slots p ! j \<le> detent - seq \<longrightarrow> be' \<le> n - seq)"
proof (induction "slots p" seq detent i bp be rule: best_loop.induct)
  case (1 seq detent i bp be)
  have s64: "sub64 detent seq = detent - seq" using 1(4) by simp
  show ?case
  proof (cases "seq \<le> i \<and> slots p ! i \<le> sub64 detent seq \<and> 0 < i")
    case False
    then have "bp' = bp" "be' = be" using 1(7) by (subst (asm) best_loop.simps, simp)+
    moreover have False if m: "max_run p j n" "j \<le> i" "seq \<le> n" "slots p ! j \<le> detent - seq" for j n
    proof -
      have "seq \<le> i" "0 < j" "0 < i" using m 1(3) by (auto simp: max_run_def)
      then have "detent - seq < slots p ! i" using False s64 by simp
      moreover have "slots p ! i \<le> slots p ! j"
        using pnl_slots_desc[OF ok d \<open>0 < j\<close>, of i] m(2) 1(5) by (cases "j = i") auto
      ultimately show False using m(4) by simp
    qed
    ultimately show ?thesis by auto
  next
    case True
    define n where "n = run_at (slots p) i 1"
    have "1 \<le> n \<and> n \<le> i \<and> (\<forall>k < n. slots p ! (i - k) = slots p ! i + k) \<and> (n < i \<longrightarrow> slots p ! (i - n) \<noteq> slots p ! i + n)"
      by (rule run_at_spec[OF ok d 1(5)]) (use True in \<open>auto simp: n_def\<close>)
    then have r: "max_run p i n" using 1(5,6) True by (auto simp: max_run_def)
    then have n: "0 < n" "n \<le> i" by (auto simp: max_run_def)
    \<comment> \<open>the rest of the list ends at the begin of this run\<close>
    have nxt: "i - n < pnl_size p \<longrightarrow> 0 < i - n \<longrightarrow> slots p ! (i - n + 1) + 1 \<noteq> slots p ! (i - n)"
    proof (intro impI)
      assume "0 < i - n"
      then have "slots p ! (i - n) \<noteq> slots p ! i + n" "i - (n - 1) = i - n + 1" "n - 1 < n"
        using r n by (auto simp: max_run_def)
      moreover have "slots p ! (i - (n - 1)) = slots p ! i + (n - 1)"
        using r calculation(3) unfolding max_run_def by blast
      ultimately show "slots p ! (i - n + 1) + 1 \<noteq> slots p ! (i - n)" using n by simp
    qed
    have only: "j \<le> i - n \<or> j = i \<and> m = n" if "max_run p j m" "j \<le> i" for j m
    proof (rule ccontr)
      assume a: "\<not> ?thesis"
      then have ji: "i - n < j" "j < i" using that max_run_unique[OF r, of m] by (cases "j = i"; auto)+
      then have "slots p ! j = slots p ! i + (i - j)" "slots p ! (j + 1) = slots p ! i + (i - (j + 1))"
      proof -
        have rk: "slots p ! (i - k) = slots p ! i + k" if "k < n" for k using r that unfolding max_run_def by blast
        show "slots p ! j = slots p ! i + (i - j)" using rk[of "i - j"] ji n by simp
        show "slots p ! (j + 1) = slots p ! i + (i - (j + 1))" using rk[of "i - (j + 1)"] ji n by simp
      qed
      then have "slots p ! (j + 1) + 1 = slots p ! j" using ji by simp
      then show False using that(1) ji 1(5) by (simp add: max_run_def)
    qed
    have step: "best_loop (slots p) seq detent i bp be =
        (if seq \<le> n \<and> n - seq < be then
           if n - seq = 0 then (i, 0) else best_loop (slots p) seq detent (i - n) i (n - seq)
         else best_loop (slots p) seq detent (i - n) bp be)"
      by (rule trans[OF best_loop.simps]) (simp only: if_P[OF True] Let_def n_def[symmetric])
    show ?thesis
    proof (cases "seq \<le> n \<and> n - seq < be")
      case better: True
      show ?thesis
      proof (cases "n - seq = 0")
        case True0: True
        then have "bp' = i" "be' = 0"
          using 1(7) better by (simp_all add: step)
        then show ?thesis using r better True s64 True0 by auto
      next
        case False
        then have e: "best_loop (slots p) seq detent (i - n) i (n - seq) = (bp', be')"
          using 1(7) better unfolding step by simp
        have "(bp' = i \<and> be' = n - seq \<or> (\<exists>m. max_run p bp' m \<and> bp' \<le> i - n \<and> seq \<le> m \<and> be' = m - seq \<and> slots p ! bp' \<le> detent - seq \<and> be' < n - seq))
          \<and> be' \<le> n - seq \<and> (\<forall>j m. max_run p j m \<and> j \<le> i - n \<and> seq \<le> m \<and> slots p ! j \<le> detent - seq \<longrightarrow> be' \<le> m - seq)"
          by (rule 1(1)[OF True n_def better False 1(3,4) _ nxt e]) (use 1(5) in simp)
        then show ?thesis using r better True s64 only by (auto 4 4)
      qed
    next
      case worse: False
      then have e: "best_loop (slots p) seq detent (i - n) bp be = (bp', be')"
        using 1(7) unfolding step by (simp only: worse if_False)
      have H: "(bp' = bp \<and> be' = be \<or> (\<exists>m. max_run p bp' m \<and> bp' \<le> i - n \<and> seq \<le> m \<and> be' = m - seq \<and> slots p ! bp' \<le> detent - seq \<and> be' < be))
          \<and> be' \<le> be \<and> (\<forall>j m. max_run p j m \<and> j \<le> i - n \<and> seq \<le> m \<and> slots p ! j \<le> detent - seq \<longrightarrow> be' \<le> m - seq)"
        by (rule 1(2)[OF True n_def worse 1(3,4) _ nxt e]) (use 1(5) in simp)
      have "be' \<le> m - seq" if m: "max_run p j m" "j \<le> i" "seq \<le> m" "slots p ! j \<le> detent - seq" for j m
        using only[OF m(1,2)]
      proof
        assume "j \<le> i - n"
        then show ?thesis using H m by blast
      next
        assume "j = i \<and> m = n"
        then have "be \<le> m - seq" using worse m(3) by simp
        then show ?thesis using H by linarith
      qed
      moreover have "bp' = bp \<and> be' = be \<or> (\<exists>m. max_run p bp' m \<and> bp' \<le> i \<and> seq \<le> m \<and> be' = m - seq \<and>
          slots p ! bp' \<le> detent - seq \<and> be' < be)" "be' \<le> be"
        using H le_trans[OF _ diff_le_self[of i n]] by blast+
      ultimately show ?thesis by blast
    qed
  qed
qed

definition run_len :: "nat set \<Rightarrow> nat \<Rightarrow> nat" where
  "run_len S q = (LEAST n. q + n \<notin> S)"

definition seq_candidate :: "nat set \<Rightarrow> nat \<Rightarrow> nat \<Rightarrow> nat \<Rightarrow> bool" where
  "seq_candidate S n detent q \<longleftrightarrow> q \<in> S \<and> q - 1 \<notin> S \<and> {q ..< q + n} \<subseteq> S \<and> q + n \<le> detent"

lemma run_lenI: "{q ..< q + n} \<subseteq> S \<Longrightarrow> q + n \<notin> S \<Longrightarrow> run_len S q = n"
  unfolding run_len_def
proof (rule Least_equality)
  fix y assume sub: "{q ..< q + n} \<subseteq> S" and y: "q + y \<notin> S"
  show "n \<le> y"
  proof (rule ccontr)
    assume "\<not> n \<le> y"
    then have "q + y \<in> {q ..< q + n}" by simp
    then show False using sub y by blast
  qed
qed

lemma distinct_cut_set:
  assumes "distinct L" "a \<le> b"
  shows "set (take a L @ drop b L) = set L - set (take (b - a) (drop a L))"
proof -
  have L: "L = take a L @ take (b - a) (drop a L) @ drop b L"
    using assms(2) append_take_drop_id[of "b - a" "drop a L"] by simp
  have "distinct (take a L @ take (b - a) (drop a L) @ drop b L)" using assms(1) L by simp
  then have "set (take a L @ drop b L) = set (take a L @ take (b - a) (drop a L) @ drop b L) - set (take (b - a) (drop a L))"
    by auto
  then show ?thesis using L by simp
qed

lemma sorted_wrt_take_drop:
  assumes "sorted_wrt P L" "a \<le> b"
  shows "sorted_wrt P (take a L @ drop b L)"
proof -
  have "L = take a L @ take (b - a) (drop a L) @ drop b L"
    using assms(2) append_take_drop_id[of "b - a" "drop a L"] by simp
  then show ?thesis using assms(1) by (metis sorted_wrt_append UnCI set_append)
qed

lemma pnl_cut_set:
  assumes ok: "pnl_ok p" and d: "pnl_desc p" and c: "0 < i" "i + span \<le> pnl_size p + 1"
  shows "pnl_ok (pnl_cut p i span) \<and> pnl_desc (pnl_cut p i span) \<and>
    set (pnl_list (pnl_cut p i span)) = set (pnl_list p) - (\<lambda>k. slots p ! k) ` {i ..< i + span}"
proof -
  note C = pnl_cut_ok[OF ok c]
  have "pnl_desc (pnl_cut p i span)" using C sorted_wrt_take_drop[OF d, of "i - 1" "i - 1 + span"] by simp
  moreover have "set (take span (drop (i - 1) (pnl_list p))) = (\<lambda>k. slots p ! k) ` {i ..< i + span}"
  proof (intro equalityI subsetI)
    fix x assume "x \<in> set (take span (drop (i - 1) (pnl_list p)))"
    then obtain k where "k < length (take span (drop (i - 1) (pnl_list p)))" "take span (drop (i - 1) (pnl_list p)) ! k = x"
      by (metis in_set_conv_nth)
    then have "k < span" "i - 1 + k < pnl_size p" "pnl_list p ! (i - 1 + k) = x" using ok by auto
    then show "x \<in> (\<lambda>k. slots p ! k) ` {i ..< i + span}"
      using nth_pnl_list[OF ok, of "i - 1 + k"] c(1) by (intro image_eqI[of _ _ "i + k"]) auto
  next
    fix x assume "x \<in> (\<lambda>k. slots p ! k) ` {i ..< i + span}"
    then obtain k where k: "i \<le> k" "k < i + span" "x = slots p ! k" by auto
    then have "x = take span (drop (i - 1) (pnl_list p)) ! (k - i)" "k - i < length (take span (drop (i - 1) (pnl_list p)))"
      using slots_pnl_list[OF ok, of k] c ok by auto
    then show "x \<in> set (take span (drop (i - 1) (pnl_list p)))" by (metis nth_mem)
  qed
  ultimately show ?thesis
    using C distinct_cut_set[OF sorted_wrt_gr_distinct[OF d], of "i - 1" "i - 1 + span"] by simp
qed

lemma best_sequence_ok:
  assumes ok: "pnl_ok p" and d: "pnl_desc p" and lo: "\<forall>x \<in> set (pnl_list p). 0 < x" and sz: "pnl_size p \<le> PAGELIST_LIMIT"
    and n: "0 < n" "n \<le> detent" and e: "pnl_get_best_sequence p n detent = (pgno, p')"
  defines "S \<equiv> set (pnl_list p)"
  shows "(pgno = 0 \<and> p' = p \<and> (\<forall>q. \<not> seq_candidate S n detent q)) \<or>
     (seq_candidate S n detent pgno \<and> (\<forall>q. seq_candidate S n detent q \<longrightarrow> run_len S pgno \<le> run_len S q) \<and>
      pnl_ok p' \<and> pnl_desc p' \<and> set (pnl_list p') = S - {pgno ..< pgno + n})"
proof -
  obtain bp be where b: "best_loop (slots p) n detent (pnl_size p) 0 MAX_PAGENO = (bp, be)" by (meson surj_pair)
  note R = best_loop_spec[OF ok d n order_refl _ b, simplified]
  have cand: "\<exists>j m. max_run p j m \<and> slots p ! j = q \<and> n \<le> m \<and> run_len S q = m \<and> slots p ! j \<le> detent - n"
    if c: "seq_candidate S n detent q" for q
  proof -
    have q: "q \<in> set (pnl_list p)" "0 < q" "q - 1 \<notin> set (pnl_list p)" using c lo by (auto simp: seq_candidate_def S_def)
    obtain j m where r: "max_run p j m" "slots p ! j = q" using max_run_exists[OF ok d q] by blast
    note M = max_run_set[OF ok d r(1), folded S_def, unfolded r(2)]
    have "n \<le> m"
    proof (rule ccontr)
      assume "\<not> n \<le> m"
      then have "q + m \<in> {q ..< q + n}" by simp
      moreover have "{q ..< q + n} \<subseteq> S" using c by (simp add: seq_candidate_def)
      ultimately show False using M(2) by blast
    qed
    moreover have "run_len S q = m" by (rule run_lenI[OF M])
    moreover have "slots p ! j \<le> detent - n" using c r(2) unfolding seq_candidate_def by linarith
    ultimately show ?thesis using r by blast
  qed
  show ?thesis
  proof (cases "bp = 0")
    case True
    have be: "be = MAX_PAGENO" using R True by (auto simp: max_run_def)
    have "\<not> seq_candidate S n detent q" for q
    proof
      assume "seq_candidate S n detent q"
      then obtain j m where j: "max_run p j m" "n \<le> m" "slots p ! j \<le> detent - n" using cand by blast
      then have "be \<le> m - n" "m \<le> pnl_size p" using R by (auto simp: max_run_def)
      then show False using be sz n(1) j(2) by (simp add: PAGELIST_LIMIT_def MAX_PAGENO_def)
    qed
    then show ?thesis using e b True by (simp add: pnl_get_best_sequence_def)
  next
    case False
    then obtain m where m: "max_run p bp m" "n \<le> m" "be = m - n" "slots p ! bp \<le> detent - n" using R by blast
    have ev: "pgno = slots p ! bp" "p' = pnl_cut p (bp - n + 1) n" using e b False by (simp_all add: pnl_get_best_sequence_def)
    note M = max_run_set[OF ok d m(1), folded S_def ev(1)]
    have bd: "m \<le> bp" "bp \<le> pnl_size p" using m(1) by (auto simp: max_run_def)
    have down: "slots p ! (bp - k) = pgno + k" if "k < m" for k using m(1) that unfolding max_run_def ev by blast
    have inS: "pgno \<in> S" using M(1) m(2) n(1) by (auto simp: subset_iff)
    have "pgno - 1 \<notin> S"
    proof
      assume "pgno - 1 \<in> S"
      then obtain i where i: "0 < i" "i \<le> pnl_size p" "slots p ! i = pgno - 1" by (auto simp: S_def in_pnl_list_slots[OF ok])
      have "0 < pgno" using inS lo by (simp add: S_def)
      have "bp < i" using pnl_slots_le[OF ok d i(1), of bp] i bd ev \<open>0 < pgno\<close> by (cases "i \<le> bp") auto
      then have "slots p ! i \<le> slots p ! (bp + 1)" using pnl_slots_le[OF ok d _ _ i(2), of "bp + 1"] by simp
      moreover have "slots p ! (bp + 1) < pgno" using pnl_slots_desc[OF ok d, of bp "bp + 1"] bd m(2) n(1) \<open>bp < i\<close> i(2) ev by simp
      ultimately have "slots p ! (bp + 1) + 1 = pgno" using i(3) \<open>0 < pgno\<close> by simp
      then show False using m(1) \<open>bp < i\<close> i(2) ev by (simp add: max_run_def)
    qed
    then have c: "seq_candidate S n detent pgno" using inS M(1) m n ev by (auto simp: seq_candidate_def subset_iff)
    have best: "run_len S pgno \<le> run_len S q" if cq: "seq_candidate S n detent q" for q
    proof -
      obtain j k where j: "max_run p j k" "n \<le> k" "run_len S q = k" "slots p ! j \<le> detent - n" using cand[OF cq] by blast
      have "be \<le> k - n" using R j by (auto simp: max_run_def)
      then show ?thesis using run_lenI[OF M] j m(2,3) by simp
    qed
    have img: "(\<lambda>k. slots p ! k) ` {bp - n + 1 ..< bp - n + 1 + n} = {pgno ..< pgno + n}"
    proof (intro equalityI subsetI)
      fix x assume "x \<in> (\<lambda>k. slots p ! k) ` {bp - n + 1 ..< bp - n + 1 + n}"
      then obtain k where k: "bp - n + 1 \<le> k" "k < bp - n + 1 + n" "x = slots p ! k" by auto
      then have k': "bp - (bp - k) = k" "bp - k < n" using m(2) bd by auto
      then have "slots p ! k = pgno + (bp - k)" using down[of "bp - k"] m(2) by simp
      then show "x \<in> {pgno ..< pgno + n}" using k(3) k'(2) by simp
    next
      fix x assume x: "x \<in> {pgno ..< pgno + n}"
      then have "slots p ! (bp - (x - pgno)) = x" using down[of "x - pgno"] m(2) by auto
      moreover have "bp - (x - pgno) \<in> {bp - n + 1 ..< bp - n + 1 + n}" using x m(2) bd by auto
      ultimately show "x \<in> (\<lambda>k. slots p ! k) ` {bp - n + 1 ..< bp - n + 1 + n}" by (metis image_eqI)
    qed
    have "pnl_ok p' \<and> pnl_desc p' \<and> set (pnl_list p') = S - {pgno ..< pgno + n}"
      unfolding ev(2) S_def using pnl_cut_set[OF ok d, of "bp - n + 1" n] bd m(2) img by simp
    then show ?thesis using c best by blast
  qed
qed

subsection \<open>Sifting, cutting a range, refunding\<close>

lemma sift_update_spec:
  "sift_update xs fo len fe w r f = (xs', w') \<Longrightarrow> w < r \<Longrightarrow> r \<le> len + 1 \<Longrightarrow> len < length xs \<Longrightarrow> fe \<le> length fo \<Longrightarrow>
   sorted_wrt (>) (drop r (take (len + 1) xs)) \<Longrightarrow> sorted_wrt (>) (drop f (take fe fo)) \<Longrightarrow>
   length xs' = length xs \<and> w \<le> w' \<and> w' \<le> len + 1 \<and>
   take w' xs' = take w xs @ filter (\<lambda>x. x \<notin> set (drop f (take fe fo))) (drop r (take (len + 1) xs))"
proof (induction xs fo len fe w r f rule: sift_update.induct)
  case (1 xs fo len fe w r f)
  show ?case
  proof (cases "r \<le> len")
    case False
    then have "xs' = xs" "w' = w" "drop r (take (len + 1) xs) = []" using "1.prems"(1) by (simp_all add: sift_update.simps)
    then show ?thesis using "1.prems" by simp
  next
    case True
    have seg: "drop r (take (len + 1) xs) = xs ! r # drop (r + 1) (take (len + 1) xs)"
      using True "1.prems"(4) by (simp add: Cons_nth_drop_Suc[symmetric])
    let ?F = "set (drop f (take fe fo))"
    have so1: "sorted_wrt (>) (drop (r + 1) (take (len + 1) xs))" "\<forall>x \<in> set (drop (r + 1) (take (len + 1) xs)). x < xs ! r"
      using "1.prems"(6) unfolding seg by auto
    let ?x = "xs[w := xs ! r]"
    have segw: "drop (r + 1) (take (len + 1) ?x) = drop (r + 1) (take (len + 1) xs)"
      using "1.prems"(2) by (simp add: take_update_swap)
    have tw: "take (w + 1) ?x = take w xs @ [xs ! r]" using "1.prems"(2,4) True by (simp add: take_Suc_update)
    have copy: ?thesis if e: "sift_update ?x fo len fe (w + 1) (r + 1) f = (xs', w')" and "xs ! r \<notin> ?F"
      and IH: "length xs' = length ?x \<and> w + 1 \<le> w' \<and> w' \<le> len + 1 \<and>
         take w' xs' = take (w + 1) ?x @ filter (\<lambda>x. x \<notin> ?F) (drop (r + 1) (take (len + 1) ?x))"
      using IH that(2) unfolding tw segw seg by simp
    show ?thesis
    proof (cases "fe \<le> f")
      case fe: True
      then have e: "sift_update ?x fo len fe (w + 1) (r + 1) f = (xs', w')"
        using "1.prems"(1) True by (simp add: sift_update.simps[of xs])
      have "xs ! r \<notin> ?F" using fe by simp
      moreover have "length xs' = length ?x \<and> w + 1 \<le> w' \<and> w' \<le> len + 1 \<and>
         take w' xs' = take (w + 1) ?x @ filter (\<lambda>x. x \<notin> ?F) (drop (r + 1) (take (len + 1) ?x))"
        by (rule "1.IH"(1)[OF True fe e]) (use "1.prems" True so1 segw in simp_all)
      ultimately show ?thesis by (rule copy[OF e])
    next
      case fe: False
      have fseg: "drop f (take fe fo) = fo ! f # drop (f + 1) (take fe fo)"
        using fe "1.prems"(5) by (simp add: Cons_nth_drop_Suc[symmetric])
      have so2: "sorted_wrt (>) (drop (f + 1) (take fe fo))" "\<forall>x \<in> set (drop (f + 1) (take fe fo)). x < fo ! f"
        using "1.prems"(7) unfolding fseg by auto
      consider "xs ! r > fo ! f" | "xs ! r < fo ! f" | "xs ! r = fo ! f" by linarith
      then show ?thesis
      proof cases
        case c: 1
        then have e: "sift_update ?x fo len fe (w + 1) (r + 1) f = (xs', w')"
          using "1.prems"(1) True fe by (simp add: sift_update.simps[of xs])
        have "xs ! r \<notin> ?F" unfolding fseg using c so2(2) by fastforce
        moreover have "length xs' = length ?x \<and> w + 1 \<le> w' \<and> w' \<le> len + 1 \<and>
           take w' xs' = take (w + 1) ?x @ filter (\<lambda>x. x \<notin> ?F) (drop (r + 1) (take (len + 1) ?x))"
          by (rule "1.IH"(2)[OF True fe c e]) (use "1.prems" True so1 segw in simp_all)
        ultimately show ?thesis by (rule copy[OF e])
      next
        case c: 2
        then have e: "sift_update xs fo len fe w r (f + 1) = (xs', w')"
          using "1.prems"(1) True fe by (simp add: sift_update.simps[of xs])
        have "length xs' = length xs \<and> w \<le> w' \<and> w' \<le> len + 1 \<and>
           take w' xs' = take w xs @ filter (\<lambda>x. x \<notin> set (drop (f + 1) (take fe fo))) (drop r (take (len + 1) xs))"
          by (rule "1.IH"(3)[OF True fe _ c e]) (use "1.prems" so2 c in simp_all)
        moreover have "filter (\<lambda>x. x \<notin> set (drop (f + 1) (take fe fo))) (drop r (take (len + 1) xs))
            = filter (\<lambda>x. x \<notin> ?F) (drop r (take (len + 1) xs))"
          unfolding fseg by (rule filter_cong[OF refl]) (use c so1(2) seg in fastforce)
        ultimately show ?thesis by simp
      next
        case c: 3
        then have e: "sift_update xs fo len fe w (r + 1) (f + 1) = (xs', w')"
          using "1.prems"(1) True fe by (simp add: sift_update.simps[of xs])
        have "length xs' = length xs \<and> w \<le> w' \<and> w' \<le> len + 1 \<and>
           take w' xs' = take w xs @ filter (\<lambda>x. x \<notin> set (drop (f + 1) (take fe fo))) (drop (r + 1) (take (len + 1) xs))"
          by (rule "1.IH"(4)[OF True fe _ _ e]) (use "1.prems" True so1 so2 c in simp_all)
        moreover have "filter (\<lambda>x. x \<notin> set (drop (f + 1) (take fe fo))) (drop (r + 1) (take (len + 1) xs))
            = filter (\<lambda>x. x \<notin> ?F) (drop r (take (len + 1) xs))"
          unfolding fseg seg using c by (simp, intro filter_cong[OF refl]) (use so1(2) c in fastforce)
        ultimately show ?thesis by simp
      qed
    qed
  qed
qed

lemma sift_scan_spec:
  "0 < r \<Longrightarrow> len < length xs \<Longrightarrow> fe \<le> length fo \<Longrightarrow>
   sorted_wrt (>) (drop r (take (len + 1) xs)) \<Longrightarrow> sorted_wrt (>) (drop f (take fe fo)) \<Longrightarrow>
   (case sift_scan xs fo len fe r f of
      None \<Rightarrow> filter (\<lambda>x. x \<notin> set (drop f (take fe fo))) (drop r (take (len + 1) xs)) = drop r (take (len + 1) xs)
    | Some (r', f') \<Rightarrow> r \<le> r' \<and> r' \<le> len \<and> f \<le> f' \<and> f' < fe \<and>
        filter (\<lambda>x. x \<notin> set (drop f (take fe fo))) (drop r (take (len + 1) xs)) =
          drop r (take r' xs) @ filter (\<lambda>x. x \<notin> set (drop (f' + 1) (take fe fo))) (drop (r' + 1) (take (len + 1) xs)))"
proof (induction xs fo len fe r f rule: sift_scan.induct)
  case (1 xs fo len fe r f)
  show ?case
  proof (cases "r \<le> len \<and> f < fe")
    case False
    have "sift_scan xs fo len fe r f = None"
      by (rule trans[OF sift_scan.simps]) (simp only: if_not_P[OF False])
    moreover have "drop r (take (len + 1) xs) = [] \<or> drop f (take fe fo) = []" using False by auto
    ultimately show ?thesis by auto
  next
    case True
    have seg: "drop r (take (len + 1) xs) = xs ! r # drop (r + 1) (take (len + 1) xs)"
      using True "1.prems"(2) by (simp add: Cons_nth_drop_Suc[symmetric])
    have fseg: "drop f (take fe fo) = fo ! f # drop (f + 1) (take fe fo)"
      using True "1.prems"(3) by (simp add: Cons_nth_drop_Suc[symmetric])
    have so1: "sorted_wrt (>) (drop (r + 1) (take (len + 1) xs))" "\<forall>x \<in> set (drop (r + 1) (take (len + 1) xs)). x < xs ! r"
      using "1.prems"(4) unfolding seg by auto
    have so2: "sorted_wrt (>) (drop (f + 1) (take fe fo))" "\<forall>x \<in> set (drop (f + 1) (take fe fo)). x < fo ! f"
      using "1.prems"(5) unfolding fseg by auto
    consider "xs ! r > fo ! f" | "xs ! r < fo ! f" | "xs ! r = fo ! f" by linarith
    then show ?thesis
    proof cases
      case c: 1
      have ev: "sift_scan xs fo len fe r f = sift_scan xs fo len fe (r + 1) f"
        using True c by (simp add: sift_scan.simps[of xs fo len fe r])
      have "xs ! r \<notin> set (drop f (take fe fo))" unfolding fseg using c so2(2) by fastforce
      moreover have "drop r (take r' xs) = xs ! r # drop (r + 1) (take r' xs)" if "r + 1 \<le> r'" "r' \<le> len" for r'
        using that "1.prems"(2) by (simp add: Cons_nth_drop_Suc[symmetric])
      moreover note "1.IH"(1)[OF True _ c _ "1.prems"(2,3) so1(1) "1.prems"(5)] c
      ultimately show ?thesis unfolding ev seg by (auto split: option.splits)
    next
      case c: 2
      have ev: "sift_scan xs fo len fe r f = sift_scan xs fo len fe r (f + 1)"
        using True c by (simp add: sift_scan.simps[of xs fo len fe r])
      have "filter (\<lambda>x. x \<notin> set (drop f (take fe fo))) (drop r (take (len + 1) xs))
          = filter (\<lambda>x. x \<notin> set (drop (f + 1) (take fe fo))) (drop r (take (len + 1) xs))"
        unfolding fseg by (rule filter_cong[OF refl]) (use c so1(2) seg in fastforce)
      moreover have "\<not> fo ! f < xs ! r" using c by simp
      moreover note "1.IH"(2)[OF True _ _ "1.prems"(1,2,3,4) so2(1)] c
      ultimately show ?thesis unfolding ev by (auto split: option.splits)
    next
      case c: 3
      have ev: "sift_scan xs fo len fe r f = Some (r, f)"
        using True c by (simp add: sift_scan.simps[of xs fo len fe r])
      have "filter (\<lambda>x. x \<notin> set (drop f (take fe fo))) (drop (r + 1) (take (len + 1) xs))
          = filter (\<lambda>x. x \<notin> set (drop (f + 1) (take fe fo))) (drop (r + 1) (take (len + 1) xs))"
        unfolding fseg by (rule filter_cong[OF refl]) (use c so1(2) in fastforce)
      moreover have "xs ! r \<in> set (drop f (take fe fo))" unfolding fseg using c by simp
      ultimately show ?thesis unfolding ev using True seg by simp
    qed
  qed
qed

lemma pnl_list_drop: "pnl_list p = drop 1 (take (pnl_size p + 1) (slots p))"
  by (simp add: pnl_list_def drop_take)

lemma pnl_sift_ok:
  assumes ok: "pnl_ok p" "pnl_ok fo" and d: "pnl_desc p" "pnl_desc fo"
  shows "pnl_ok (pnl_sift p fo) \<and> pnl_list (pnl_sift p fo) = filter (\<lambda>x. x \<notin> set (pnl_list fo)) (pnl_list p)"
proof (cases "pnl_size p > 0 \<and> pnl_size fo > 0")
  case False
  then have "pnl_list p = [] \<or> pnl_list fo = []" by (auto simp: pnl_list_def)
  then show ?thesis using False ok by (auto simp: pnl_sift_def)
next
  case True
  let ?n = "pnl_size p" and ?fe = "pnl_size fo + 1" and ?xs = "slots p" and ?fo = "slots fo"
  define r0 where "r0 = pnl_search p (?fo ! 1)"
  have r0: "1 \<le> r0" "r0 \<le> ?n + 1" using pnl_search_correct(2,3)[OF ok(1) d(1)] by (simp_all add: r0_def pnl_search_def)
  have FO: "drop 1 (take ?fe ?fo) = pnl_list fo" by (simp add: pnl_list_drop)
  have len: "?n < length ?xs" "?fe \<le> length ?fo" using ok by (auto simp: pnl_ok_def)
  have split: "pnl_list p = drop 1 (take r0 ?xs) @ drop r0 (take (?n + 1) ?xs)"
  proof -
    have "take (?n + 1) ?xs = take r0 ?xs @ drop r0 (take (?n + 1) ?xs)"
      using append_take_drop_id[of r0 "take (?n + 1) ?xs"] r0(2) by (simp add: min_absorb1)
    then have "drop 1 (take (?n + 1) ?xs) = drop 1 (take r0 ?xs @ drop r0 (take (?n + 1) ?xs))" by simp
    moreover have "length (take r0 ?xs) \<ge> 1" using r0(1) len(1) by simp
    ultimately show ?thesis unfolding pnl_list_drop by simp
  qed
  \<comment> \<open>the entries before the position found are above every entry of the filter\<close>
  have head: "filter (\<lambda>x. x \<notin> set (pnl_list fo)) (drop 1 (take r0 ?xs)) = drop 1 (take r0 ?xs)"
  proof (rule filter_True, rule ballI)
    fix x assume "x \<in> set (drop 1 (take r0 ?xs))"
    then obtain k where "k < length (drop 1 (take r0 ?xs))" "drop 1 (take r0 ?xs) ! k = x" by (metis in_set_conv_nth)
    moreover have "1 \<le> length (take r0 ?xs)" using r0(1) len(1) by simp
    ultimately have k: "k + 1 < r0" "?xs ! (k + 1) = x" by (auto simp: nth_drop)
    have "?fo ! 1 < x" using pnl_search_correct(4)[OF ok(1) d(1), of "k + 1" "?fo ! 1"] k by (simp add: r0_def pnl_search_def)
    moreover have "y \<le> ?fo ! 1" if y: "y \<in> set (pnl_list fo)" for y
    proof -
      obtain j where "0 < j" "j \<le> pnl_size fo" "?fo ! j = y" using y by (auto simp: in_pnl_list_slots[OF ok(2)])
      then show ?thesis using pnl_slots_le[OF ok(2) d(2), of 1 j] by simp
    qed
    ultimately show "x \<notin> set (pnl_list fo)" by fastforce
  qed
  have so: "sorted_wrt (>) (drop r0 (take (?n + 1) ?xs))" using d(1) unfolding split sorted_wrt_append by blast
  have "0 < r0" using r0(1) by simp
  note SC = sift_scan_spec[OF this len so, of 1, unfolded FO, OF d(2)]
  show ?thesis
  proof (cases "sift_scan ?xs ?fo ?n ?fe r0 1")
    case None
    then have "filter (\<lambda>x. x \<notin> set (pnl_list fo)) (drop r0 (take (?n + 1) ?xs)) = drop r0 (take (?n + 1) ?xs)"
      using SC by (simp only: option.case None)
    then have "filter (\<lambda>x. x \<notin> set (pnl_list fo)) (pnl_list p) = pnl_list p" unfolding split filter_append head by simp
    moreover have "pnl_sift p fo = p"
      unfolding pnl_sift_def Let_def if_P[OF True] r0_def[symmetric] None option.case by (rule refl)
    ultimately show ?thesis using ok(1) by simp
  next
    case (Some rf)
    obtain r f where rf: "rf = (r, f)" by (meson surj_pair)
    have R: "r0 \<le> r" "r \<le> ?n" "1 \<le> f" "f < ?fe"
      "filter (\<lambda>x. x \<notin> set (pnl_list fo)) (drop r0 (take (?n + 1) ?xs)) =
        drop r0 (take r ?xs) @ filter (\<lambda>x. x \<notin> set (drop (f + 1) (take ?fe ?fo))) (drop (r + 1) (take (?n + 1) ?xs))"
      using SC unfolding Some rf option.case prod.case by blast+
    obtain xs' w where u: "sift_update ?xs ?fo ?n ?fe r (r + 1) (f + 1) = (xs', w)" by (meson surj_pair)
    have so1: "sorted_wrt (>) (drop (r + 1) (take (?n + 1) ?xs))"
      using sorted_wrt_drop[OF so, of "r + 1 - r0"] R(1) by simp
    have so2: "sorted_wrt (>) (drop (f + 1) (take ?fe ?fo))"
      using sorted_wrt_drop[OF d(2), of f] R(3) unfolding FO[symmetric] by simp
    note U = sift_update_spec[OF u _ _ len so1 so2, simplified]
    have U: "length xs' = length ?xs" "r \<le> w" "w \<le> ?n + 1"
      "take w xs' = take r ?xs @ filter (\<lambda>x. x \<notin> set (drop (f + 1) (take ?fe ?fo))) (drop (r + 1) (take (?n + 1) ?xs))"
      using U R(2) by simp_all
    let ?q = "pnl_setsize (p\<lparr>slots := xs'\<rparr>) (w - 1)"
    have q: "pnl_sift p fo = ?q"
      unfolding pnl_sift_def Let_def if_P[OF True] r0_def[symmetric] Some rf option.case prod.case u by (rule refl)
    have w: "0 < w" using r0 R(1) U(2) by simp
    have sq: "pnl_size ?q = w - 1" using U(1) len(1) by (intro pnl_size_setsize) auto
    have "pnl_list ?q = drop 1 (take w (xs'[0 := w - 1]))" unfolding pnl_list_drop sq using w by (simp add: slots_setsize)
    also have "\<dots> = drop 1 (take w xs')" by (simp add: take_update_swap)
    also have "\<dots> = drop 1 (take r ?xs) @ filter (\<lambda>x. x \<notin> set (drop (f + 1) (take ?fe ?fo))) (drop (r + 1) (take (?n + 1) ?xs))"
      using r0 R(1,2) len(1) unfolding U(4) by simp
    also have "\<dots> = drop 1 (take r0 ?xs) @ drop r0 (take r ?xs) @
        filter (\<lambda>x. x \<notin> set (drop (f + 1) (take ?fe ?fo))) (drop (r + 1) (take (?n + 1) ?xs))"
    proof -
      have "take r ?xs = take r0 ?xs @ drop r0 (take r ?xs)"
        using append_take_drop_id[of r0 "take r ?xs"] R(1) by (simp add: min_absorb1)
      then have "drop 1 (take r ?xs) = drop 1 (take r0 ?xs @ drop r0 (take r ?xs))" by simp
      moreover have "length (take r0 ?xs) \<ge> 1" using r0(1) len(1) by simp
      ultimately show ?thesis by simp
    qed
    also have "\<dots> = filter (\<lambda>x. x \<notin> set (pnl_list fo)) (pnl_list p)" unfolding split filter_append head R(5) by simp
    finally have "pnl_list ?q = filter (\<lambda>x. x \<notin> set (pnl_list fo)) (pnl_list p)" .
    moreover have "pnl_ok ?q" using sq U(1,3) ok(1) unfolding pnl_ok_def by auto
    ultimately show ?thesis unfolding q by simp
  qed
qed

lemma cut_range_loop_spec:
  assumes ok: "pnl_ok p" and d: "pnl_desc p"
  shows "cut_range_loop alloc (slots p) (pnl_size p) b t dest = (err, t', dest') \<Longrightarrow> pgno_malloc_ok alloc \<Longrightarrow> opt_ok dest \<Longrightarrow>
    0 < t \<Longrightarrow> t \<le> pnl_size p + 1 \<Longrightarrow>
    opt_ok dest' \<and> t \<le> t' \<and> t' \<le> pnl_size p + 1 \<and> (\<forall>k. t \<le> k \<and> k < t' \<longrightarrow> b \<le> slots p ! k) \<and>
    opt_list dest' = opt_list dest @ map (\<lambda>k. slots p ! k) [t ..< t'] \<and>
    (err = MDBX_SUCCESS \<and> (t' \<le> pnl_size p \<longrightarrow> slots p ! t' < b) \<or> err \<in> {MDBX_TXN_FULL, MDBX_ENOMEM})"
proof (induction alloc "slots p" "pnl_size p" b t dest rule: cut_range_loop.induct)
  case (1 alloc b t dest)
  show ?case
  proof (cases "t \<le> pnl_size p \<and> \<not> slots p ! t < b")
    case False
    have "cut_range_loop alloc (slots p) (pnl_size p) b t dest = (MDBX_SUCCESS, t, dest)"
      by (rule trans[OF cut_range_loop.simps]) (simp only: if_not_P[OF False])
    then have "err = MDBX_SUCCESS" "t' = t" "dest' = dest" using "1.prems"(1) by auto
    then show ?thesis using "1.prems" False by auto
  next
    case True
    obtain er d1 where a: "pnl_append alloc dest (slots p ! t) = (er, d1)" by (meson surj_pair)
    have step: "cut_range_loop alloc (slots p) (pnl_size p) b t dest =
        (if er \<noteq> MDBX_SUCCESS then (er, t, d1) else cut_range_loop alloc (slots p) (pnl_size p) b (t + 1) d1)"
      by (rule trans[OF cut_range_loop.simps]) (simp only: if_P[OF True] a Let_def prod.case)
    have A: "(\<exists>q. er = MDBX_SUCCESS \<and> d1 = Some q \<and> pnl_ok q \<and> pnl_list q = opt_list dest @ [slots p ! t])
       \<or> er \<in> {MDBX_TXN_FULL, MDBX_ENOMEM} \<and> d1 = dest"
      by (rule pnl_append_ok[OF "1.prems"(2,3) a])
    show ?thesis
    proof (cases "er = MDBX_SUCCESS")
      case f: False
      then have "err = er" "t' = t" "dest' = d1" using "1.prems"(1) unfolding step by auto
      then show ?thesis using A f "1.prems"(3,5) by auto
    next
      case s: True
      then have d1: "opt_ok d1" "opt_list d1 = opt_list dest @ [slots p ! t]"
        using A by (auto simp: opt_ok_def opt_list_def rc_defs)
      have e: "cut_range_loop alloc (slots p) (pnl_size p) b (t + 1) d1 = (err, t', dest')"
        using "1.prems"(1) s unfolding step by simp
      have IH: "opt_ok dest' \<and> t + 1 \<le> t' \<and> t' \<le> pnl_size p + 1 \<and> (\<forall>k. t + 1 \<le> k \<and> k < t' \<longrightarrow> b \<le> slots p ! k) \<and>
        opt_list dest' = opt_list d1 @ map (\<lambda>k. slots p ! k) [t + 1 ..< t'] \<and>
        (err = MDBX_SUCCESS \<and> (t' \<le> pnl_size p \<longrightarrow> slots p ! t' < b) \<or> err \<in> {MDBX_TXN_FULL, MDBX_ENOMEM})"
        using "1.hyps"[OF True a[symmetric] refl] s e "1.prems"(2) d1(1) True by simp
      have "b \<le> slots p ! k" if "t \<le> k" "k < t'" for k using IH that True by (cases "k = t") auto
      moreover have "opt_list dest' = opt_list dest @ map (\<lambda>k. slots p ! k) [t ..< t']"
        using IH d1(2) by (simp add: upt_conv_Cons)
      ultimately show ?thesis using IH by auto
    qed
  qed
qed

lemma pnl_cut_range_ok:
  assumes m: "pgno_malloc_ok alloc" and ok: "pnl_ok p" and d: "pnl_desc p" and od: "opt_ok dest"
    and r: "b < e" and ev: "pnl_cut_range alloc p dest b e = (err, p', dest')"
  shows "opt_ok dest' \<and>
    (err = MDBX_SUCCESS \<and> pnl_ok p' \<and> pnl_desc p' \<and> set (pnl_list p') = {x \<in> set (pnl_list p). x < b \<or> e \<le> x} \<and>
       (\<exists>xs. opt_list dest' = opt_list dest @ xs \<and> sorted_wrt (>) xs \<and> set xs = {x \<in> set (pnl_list p). b \<le> x \<and> x < e})
     \<or> err \<in> {MDBX_TXN_FULL, MDBX_ENOMEM} \<and> p' = p)"
proof -
  define t where "t = pnl_search p (e - 1)"
  note S = pnl_search_correct(2-)[OF ok d, where pgno = "e - 1", folded t_def[unfolded pnl_search_def]]
  obtain er t' d1 where l: "cut_range_loop alloc (slots p) (pnl_size p) b t dest = (er, t', d1)" by (metis prod_cases3)
  note L = cut_range_loop_spec[OF ok d l m od]
  have L: "opt_ok d1" "t \<le> t'" "t' \<le> pnl_size p + 1" "\<forall>k. t \<le> k \<and> k < t' \<longrightarrow> b \<le> slots p ! k"
    "opt_list d1 = opt_list dest @ map (\<lambda>k. slots p ! k) [t ..< t']"
    "er = MDBX_SUCCESS \<and> (t' \<le> pnl_size p \<longrightarrow> slots p ! t' < b) \<or> er \<in> {MDBX_TXN_FULL, MDBX_ENOMEM}"
    using L S(1,2) by auto
  have st: "(err, p', dest') = (if er \<noteq> MDBX_SUCCESS then (er, p, d1)
      else (MDBX_SUCCESS, if t < t' then pnl_cut p t (t' - t) else p, d1))"
    unfolding ev[symmetric] pnl_cut_range_def Let_def t_def[symmetric] l prod.case by (rule refl)
  show ?thesis
  proof (cases "er = MDBX_SUCCESS")
    case False
    then have "err = er" "p' = p" "dest' = d1" using st by simp_all
    then show ?thesis using L False by auto
  next
    case True
    then have q: "err = MDBX_SUCCESS" "dest' = d1" "p' = pnl_cut p t (t' - t)"
      using st L(2) by (auto simp: pnl_cut_def)
    have C: "pnl_ok p' \<and> pnl_desc p' \<and> set (pnl_list p') = set (pnl_list p) - (\<lambda>k. slots p ! k) ` {t ..< t'}"
      using pnl_cut_set[OF ok d, of t "t' - t"] S(1) L(2,3) unfolding q by simp
    have img: "(\<lambda>k. slots p ! k) ` {t ..< t'} = {x \<in> set (pnl_list p). b \<le> x \<and> x < e}"
    proof (intro equalityI subsetI)
      fix x assume "x \<in> (\<lambda>k. slots p ! k) ` {t ..< t'}"
      then obtain k where k: "t \<le> k" "k < t'" "x = slots p ! k" by auto
      then have "x \<in> set (pnl_list p)" using S(1) L(3) by (auto simp: in_pnl_list_slots[OF ok] intro!: exI[of _ k])
      moreover have "x \<le> e - 1" using S(4)[of k] k L(3) by simp
      ultimately show "x \<in> {x \<in> set (pnl_list p). b \<le> x \<and> x < e}" using L(4) k r by auto
    next
      fix x assume "x \<in> {x \<in> set (pnl_list p). b \<le> x \<and> x < e}"
      then obtain k where k: "0 < k" "k \<le> pnl_size p" "slots p ! k = x" "b \<le> x" "x < e" by (auto simp: in_pnl_list_slots[OF ok])
      have "t \<le> k"
      proof (rule ccontr)
        assume "\<not> t \<le> k"
        then have "e - 1 < slots p ! k" using S(3)[of k] k by simp
        then show False using k by simp
      qed
      moreover have "k < t'"
      proof (rule ccontr)
        assume "\<not> k < t'"
        then have "slots p ! t' < b" "slots p ! k \<le> slots p ! t'"
          using L(2,6) True S(1) k pnl_slots_le[OF ok d, of t' k] by (auto simp: rc_defs)
        then show False using k by simp
      qed
      ultimately show "x \<in> (\<lambda>k. slots p ! k) ` {t ..< t'}" using k(3) by (intro image_eqI[of _ _ k]) auto
    qed
    have "sorted_wrt (>) (map (\<lambda>k. slots p ! k) [t ..< t'])"
      using pnl_slots_desc[OF ok d] S(1) L(3) by (auto simp: sorted_wrt_map sorted_wrt_iff_nth_less)
    moreover have "set (map (\<lambda>k. slots p ! k) [t ..< t']) = {x \<in> set (pnl_list p). b \<le> x \<and> x < e}" using img by simp
    moreover have "set (pnl_list p') = {x \<in> set (pnl_list p). x < b \<or> e \<le> x}" using C img by auto
    ultimately show ?thesis using q C L(1,5) by blast
  qed
qed

lemma refund_loop_spec:
  assumes ok: "pnl_ok p" and d: "pnl_desc p"
  shows "refund_loop (slots p) (pnl_size p) fu i = (fu', i') \<Longrightarrow> 0 < i \<Longrightarrow> i \<le> pnl_size p \<Longrightarrow> slots p ! i + 1 = fu \<Longrightarrow>
    i < i' \<and> i' \<le> pnl_size p + 1 \<and> fu' + (i' - i) = fu \<and> (\<forall>k. i \<le> k \<and> k < i' \<longrightarrow> slots p ! k + 1 + (k - i) = fu) \<and>
    (i' \<le> pnl_size p \<longrightarrow> slots p ! i' + 1 < fu')"
proof (induction "slots p" "pnl_size p" fu i rule: refund_loop.induct)
  case (1 fu i)
  show ?case
  proof (cases "i + 1 \<le> pnl_size p \<and> slots p ! (i + 1) = fu - 1 - 1")
    case True
    have s: "slots p ! (i + 1) < slots p ! i" by (rule pnl_slots_desc[OF ok d]) (use 1 True in auto)
    have "refund_loop (slots p) (pnl_size p) (fu - 1) (i + 1) = (fu', i')"
      using "1.prems"(1) True by (simp add: refund_loop.simps[of "slots p" "pnl_size p" fu i])
    moreover have "slots p ! (i + 1) + 1 = fu - 1" using s True "1.prems"(4) by linarith
    ultimately have IH: "i + 1 < i' \<and> i' \<le> pnl_size p + 1 \<and> fu' + (i' - (i + 1)) = fu - 1 \<and>
       (\<forall>k. i + 1 \<le> k \<and> k < i' \<longrightarrow> slots p ! k + 1 + (k - (i + 1)) = fu - 1) \<and> (i' \<le> pnl_size p \<longrightarrow> slots p ! i' + 1 < fu')"
      using "1.hyps"[OF refl refl True] True by simp
    have "slots p ! k + 1 + (k - i) = fu" if k: "i \<le> k" "k < i'" for k
    proof (cases "k = i")
      case False
      then have "slots p ! k + 1 + (k - (i + 1)) = fu - 1" using IH k by simp
      then show ?thesis using False k "1.prems"(4) by linarith
    qed (use "1.prems"(4) in simp)
    moreover have "fu' + (i' - i) = fu" using IH "1.prems"(4) by linarith
    ultimately show ?thesis using IH by simp
  next
    case False
    have r: "fu' = fu - 1" "i' = i + 1"
      using "1.prems"(1) False by (auto simp: refund_loop.simps[of "slots p" "pnl_size p" fu i] Let_def split: if_splits)
    have "slots p ! (i + 1) + 1 < fu - 1" if "i + 1 \<le> pnl_size p"
      using pnl_slots_desc[OF ok d "1.prems"(2), of "i + 1"] that False "1.prems"(4) by simp
    then show ?thesis using r "1.prems" by (auto simp: less_Suc_eq_le le_antisym)
  qed
qed

lemma refund_reclaimed_ok:
  assumes ok: "pnl_ok p" and d: "pnl_desc p" and sz: "0 < pnl_size p" and top: "slots p ! 1 + 1 = fu"
    and e: "refund_reclaimed p fu = (p', fu')"
  shows "pnl_ok p' \<and> pnl_desc p' \<and> fu' < fu \<and> {fu' ..< fu} \<subseteq> set (pnl_list p) \<and>
     set (pnl_list p') = {x \<in> set (pnl_list p). x < fu'} \<and> fu' - 1 \<notin> set (pnl_list p')"
proof -
  obtain i where l: "refund_loop (slots p) (pnl_size p) fu 1 = (fu', i)" using e by (auto simp: refund_reclaimed_def Let_def split: prod.splits)
  have L: "1 < i" "i \<le> pnl_size p + 1" "fu' + (i - 1) = fu" "\<forall>k. 1 \<le> k \<and> k < i \<longrightarrow> slots p ! k + 1 + (k - 1) = fu"
    "i \<le> pnl_size p \<longrightarrow> slots p ! i + 1 < fu'"
    using refund_loop_spec[OF ok d l] sz top by auto
  have p': "p' = pnl_cut p 1 (i - 1)"
  proof -
    have "p' = (pnl_setsize p (pnl_size p - (i - 1)))
        \<lparr>slots := copy_fwd (slots (pnl_setsize p (pnl_size p - (i - 1)))) 1 i (pnl_size p - (i - 1))\<rparr>"
      using e unfolding refund_reclaimed_def l prod.case Let_def by blast
    moreover have "pnl_size p - (i - 1) + 1 - 1 = pnl_size p - (i - 1)" "1 + (i - 1) = i" "0 < i - 1" using L(1) by auto
    ultimately show ?thesis unfolding pnl_cut_def Let_def by (simp only: if_True)
  qed
  have C: "pnl_ok p' \<and> pnl_desc p' \<and> set (pnl_list p') = set (pnl_list p) - (\<lambda>k. slots p ! k) ` {1 ..< i}"
    unfolding p' using pnl_cut_set[OF ok d, of 1 "i - 1"] L(1,2) by simp
  have img: "(\<lambda>k. slots p ! k) ` {1 ..< i} = {fu' ..< fu}"
  proof (intro equalityI subsetI)
    fix x assume "x \<in> (\<lambda>k. slots p ! k) ` {1 ..< i}"
    then obtain k where "1 \<le> k" "k < i" "x = slots p ! k" by auto
    then show "x \<in> {fu' ..< fu}" using L(3) L(4)[rule_format, of k] by auto
  next
    fix x assume x: "x \<in> {fu' ..< fu}"
    then have "1 \<le> fu - x" "fu - x < i" using L(3) by auto
    moreover have "slots p ! (fu - x) = x" using L(4)[rule_format, of "fu - x"] calculation x by auto
    ultimately show "x \<in> (\<lambda>k. slots p ! k) ` {1 ..< i}" by (intro image_eqI[of _ _ "fu - x"]) auto
  qed
  have rest: "x + 1 < fu'" if x: "x \<in> set (pnl_list p)" "x \<notin> {fu' ..< fu}" for x
  proof -
    obtain k where k: "0 < k" "k \<le> pnl_size p" "slots p ! k = x" using x(1) by (auto simp: in_pnl_list_slots[OF ok])
    have "\<not> k < i" using x(2) k unfolding img[symmetric] by auto
    then show ?thesis using pnl_slots_le[OF ok d _ _ k(2), of i] L(1,5) k by auto
  qed
  have "{fu' ..< fu} \<subseteq> set (pnl_list p)"
  proof
    fix x assume "x \<in> {fu' ..< fu}"
    then obtain k where "k \<in> {1 ..< i}" "x = slots p ! k" unfolding img[symmetric] by blast
    then show "x \<in> set (pnl_list p)"
      unfolding in_pnl_list_slots[OF ok] using L(2) by (intro exI[of _ k]) auto
  qed
  moreover have "set (pnl_list p') = {x \<in> set (pnl_list p). x < fu'}" using C img rest by fastforce
  moreover have "fu' - 1 \<notin> set (pnl_list p')"
  proof
    assume "fu' - 1 \<in> set (pnl_list p')"
    then have "fu' - 1 \<in> set (pnl_list p)" "fu' - 1 \<notin> {fu' ..< fu}" using C img by auto
    then show False using rest by fastforce
  qed
  ultimately show ?thesis using C L(1,3) by auto
qed

subsection \<open>The properties\<close>

definition pnl_sample :: pnl where
  "pnl_sample = \<lparr>alloclen = 12, slots = [6, 19, 9, 8, 7, 5, 4, 0, 0, 0, 0, 0, 0, 0]\<rparr>"

definition pnl_sample2 :: pnl where
  "pnl_sample2 = \<lparr>alloclen = 6, slots = [2, 8, 6, 0, 0, 0, 0, 0]\<rparr>"

definition no_pages :: pgno_allocator where "no_pages bytes = None"

lemma no_pages_ok: "pgno_malloc_ok no_pages"
  by (simp add: pgno_malloc_ok_def no_pages_def)

lemma pnl_sample_ok:
  "pnl_ok pnl_sample" "pnl_list pnl_sample = [19, 9, 8, 7, 5, 4]" "pnl_size pnl_sample = 6" "pnl_desc pnl_sample"
  "pnl_ok pnl_sample2" "pnl_list pnl_sample2 = [8, 6]" "pnl_size pnl_sample2 = 2" "pnl_desc pnl_sample2"
  by (simp_all add: pnl_ok_def pnl_sample_def pnl_sample2_def pnl_size_def pnl_list_def)

text \<open>
  Inserting a span of new pages into a descending list: the list stays descending and holds exactly
  its pages and the span; or memory (or the size limit) is exhausted and the list is unchanged.
\<close>

theorem pnl_insert_span_adds:
  assumes "pgno_malloc_ok alloc" "opt_ok ppnl" "sorted_wrt (>) (opt_list ppnl)" "0 < n"
    and "set (opt_list ppnl) \<inter> {pgno ..< pgno + n} = {}" "pnl_insert_span alloc ppnl pgno n = (err, ppnl')"
  shows "(\<exists>q. err = MDBX_SUCCESS \<and> ppnl' = Some q \<and> pnl_ok q \<and> pnl_desc q \<and>
            set (pnl_list q) = set (opt_list ppnl) \<union> {pgno ..< pgno + n})
       \<or> err \<in> {MDBX_TXN_FULL, MDBX_ENOMEM} \<and> ppnl' = ppnl"
  by (rule pnl_insert_span_ok[OF assms])

lemma pnl_insert_span_adds_witness:
  "(\<exists>q. snd (pnl_insert_span no_pages (Some pnl_sample) 11 2) = Some q \<and>
      set (pnl_list q) = {19, 9, 8, 7, 5, 4} \<union> {11 ..< 13})
   \<or> snd (pnl_insert_span no_pages (Some pnl_sample) 11 2) = Some pnl_sample"
  using pnl_insert_span_adds[of no_pages "Some pnl_sample" 2 11, OF no_pages_ok _ _ _ _ surjective_pairing]
  by (auto simp: opt_ok_def opt_list_def pnl_sample_ok)

text \<open>
  C23. Merging a descending list into another that has room for it: the result holds the pages of both,
  with multiplicity, in descending order, whether by the inner loop with its detent or by the block
  moves the code uses for long lists that do not interleave.
\<close>

theorem pnl_merge_sorts:
  assumes "pnl_ok dst" "pnl_desc dst" "pnl_ok src" "pnl_desc src"
    and "pnl_size dst + pnl_size src \<le> alloclen dst" "\<forall>x \<in> set (pnl_list src). x \<le> P_INVALID"
  shows "pnl_ok (pnl_merge dst src) \<and> alloclen (pnl_merge dst src) = alloclen dst \<and>
    mset (pnl_list (pnl_merge dst src)) = mset (pnl_list dst) + mset (pnl_list src) \<and>
    sorted_wrt (\<ge>) (pnl_list (pnl_merge dst src))"
  by (rule pnl_merge_mset[OF assms])

lemma pnl_merge_sorts_witness:
  "mset (pnl_list (pnl_merge pnl_sample pnl_sample2)) = {#19, 9, 8, 7, 5, 4, 8, 6#}"
proof -
  have r: "pnl_size pnl_sample + pnl_size pnl_sample2 \<le> alloclen pnl_sample" by (simp add: pnl_sample_ok) (simp add: pnl_sample_def)
  have "\<forall>x \<in> set (pnl_list pnl_sample2). x \<le> P_INVALID" by (simp add: pnl_sample_ok P_INVALID_def)
  from pnl_merge_sorts[OF pnl_sample_ok(1,4,5,8) r this] show ?thesis by (simp add: pnl_sample_ok)
qed

text \<open>
  C22. Taking a sequence of \<open>n\<close> pages below a limit is a best fit: the pages returned are in the list, they
  start a maximal run, no other run that fits is shorter, and exactly they are removed; nothing is
  returned only when no run below the limit is long enough.
\<close>

theorem pnl_best_sequence_fit:
  assumes "pnl_ok p" "pnl_desc p" "\<forall>x \<in> set (pnl_list p). 0 < x" "pnl_size p \<le> PAGELIST_LIMIT"
    and "0 < n" "n \<le> detent" "pnl_get_best_sequence p n detent = (pgno, p')"
  shows "(pgno = 0 \<and> p' = p \<and> (\<forall>q. \<not> seq_candidate (set (pnl_list p)) n detent q)) \<or>
     (seq_candidate (set (pnl_list p)) n detent pgno \<and>
      (\<forall>q. seq_candidate (set (pnl_list p)) n detent q \<longrightarrow> run_len (set (pnl_list p)) pgno \<le> run_len (set (pnl_list p)) q) \<and>
      pnl_ok p' \<and> pnl_desc p' \<and> set (pnl_list p') = set (pnl_list p) - {pgno ..< pgno + n})"
  by (rule best_sequence_ok[OF assms])

lemma pnl_best_sequence_fit_witness:
  "fst (pnl_get_best_sequence pnl_sample 2 100) = 0 \<or>
   set (pnl_list (snd (pnl_get_best_sequence pnl_sample 2 100)))
     = {19, 9, 8, 7, 5, 4} - {fst (pnl_get_best_sequence pnl_sample 2 100) ..< fst (pnl_get_best_sequence pnl_sample 2 100) + 2}"
proof -
  have "\<forall>x \<in> set (pnl_list pnl_sample). 0 < x" "pnl_size pnl_sample \<le> PAGELIST_LIMIT"
    by (simp_all add: pnl_sample_ok PAGELIST_LIMIT_def MAX_PAGENO_def)
  from pnl_best_sequence_fit[OF pnl_sample_ok(1,4) this _ _ surjective_pairing[of "pnl_get_best_sequence pnl_sample 2 100"]]
  show ?thesis by (auto simp: pnl_sample_ok)
qed

text \<open>The longest span: the list holds that many consecutive pages, and never one more.\<close>

theorem pnl_maxspan_longest:
  assumes "pnl_ok p" "pnl_desc p"
  shows "(\<exists>x. {x ..< x + pnl_maxspan p} \<subseteq> set (pnl_list p)) \<and>
    (\<forall>x. \<not> {x ..< x + (pnl_maxspan p + 1)} \<subseteq> set (pnl_list p))"
  by (rule pnl_maxspan_max[OF assms])

lemma pnl_maxspan_longest_witness: "\<not> {6 ..< 6 + (pnl_maxspan pnl_sample + 1)} \<subseteq> {19, 9, 8, 7, 5, 4}"
  using pnl_maxspan_longest[OF pnl_sample_ok(1,4)] unfolding pnl_sample_ok(2) by (simp only: set_simps) blast

text \<open>Sifting removes from a list exactly the pages of another list and keeps the order of the rest.\<close>

theorem pnl_sift_filters:
  assumes "pnl_ok p" "pnl_ok fo" "pnl_desc p" "pnl_desc fo"
  shows "pnl_ok (pnl_sift p fo) \<and> pnl_list (pnl_sift p fo) = filter (\<lambda>x. x \<notin> set (pnl_list fo)) (pnl_list p)"
  by (rule pnl_sift_ok[OF assms])

lemma pnl_sift_filters_witness: "pnl_list (pnl_sift pnl_sample pnl_sample2) = [19, 9, 7, 5, 4]"
  using pnl_sift_filters[OF pnl_sample_ok(1,5,4,8)] by (simp add: pnl_sample_ok)

text \<open>
  Cutting a range moves exactly its pages, in order, to the end of the destination; when the
  destination cannot grow the source list is unchanged.
\<close>

theorem pnl_cut_range_moves:
  assumes "pgno_malloc_ok alloc" "pnl_ok p" "pnl_desc p" "opt_ok dest" "b < e"
    and "pnl_cut_range alloc p dest b e = (err, p', dest')"
  shows "opt_ok dest' \<and>
    (err = MDBX_SUCCESS \<and> pnl_ok p' \<and> pnl_desc p' \<and> set (pnl_list p') = {x \<in> set (pnl_list p). x < b \<or> e \<le> x} \<and>
       (\<exists>xs. opt_list dest' = opt_list dest @ xs \<and> sorted_wrt (>) xs \<and> set xs = {x \<in> set (pnl_list p). b \<le> x \<and> x < e})
     \<or> err \<in> {MDBX_TXN_FULL, MDBX_ENOMEM} \<and> p' = p)"
  by (rule pnl_cut_range_ok[OF assms])

lemma pnl_cut_range_moves_witness:
  "opt_ok (snd (snd (pnl_cut_range no_pages pnl_sample (Some pnl_sample2) 5 8)))"
proof -
  obtain err p' dest' where e: "pnl_cut_range no_pages pnl_sample (Some pnl_sample2) 5 8 = (err, p', dest')"
    by (metis prod_cases3)
  have "opt_ok (Some pnl_sample2)" by (simp add: opt_ok_def pnl_sample_ok(5))
  from pnl_cut_range_moves[OF no_pages_ok pnl_sample_ok(1,4) this _ e] show ?thesis by (simp add: e)
qed

text \<open>
  C24. Refunding gives back the whole run of free pages at the end of the file: the pages given back were
  in the list, exactly they leave it, and the page before the new end is not free.
\<close>

theorem refund_reclaimed_tail:
  assumes "pnl_ok p" "pnl_desc p" "0 < pnl_size p" "slots p ! 1 + 1 = fu" "refund_reclaimed p fu = (p', fu')"
  shows "pnl_ok p' \<and> pnl_desc p' \<and> fu' < fu \<and> {fu' ..< fu} \<subseteq> set (pnl_list p) \<and>
     set (pnl_list p') = {x \<in> set (pnl_list p). x < fu'} \<and> fu' - 1 \<notin> set (pnl_list p')"
  by (rule refund_reclaimed_ok[OF assms])

lemma refund_reclaimed_tail_witness:
  "snd (refund_reclaimed pnl_sample 20) < 20 \<and>
   set (pnl_list (fst (refund_reclaimed pnl_sample 20))) = {x \<in> {19, 9, 8, 7, 5, 4}. x < snd (refund_reclaimed pnl_sample 20)}"
proof -
  have "slots pnl_sample ! 1 + 1 = 20" by (simp add: pnl_sample_def)
  from refund_reclaimed_tail[OF pnl_sample_ok(1,4) _ this surjective_pairing] show ?thesis by (simp add: pnl_sample_ok)
qed

text \<open>
  Membership: \<open>pnl_contains\<close> and \<open>pnl_search_exact\<close> decide it by binary search, the latter gives the
  position of the page.
\<close>

theorem pnl_membership:
  assumes "pnl_ok p" "pnl_desc p"
  shows "pnl_contains p pgno = (pgno \<in> set (pnl_list p)) \<and>
    (if pgno \<in> set (pnl_list p) then slots p ! pnl_search_exact p pgno = pgno \<and> pnl_search_exact p pgno \<noteq> 0
     else pnl_search_exact p pgno = 0)"
  using pnl_contains_iff[OF assms] pnl_search_exact_iff[OF assms] by simp

lemma pnl_membership_witness: "pnl_contains pnl_sample 7 \<and> \<not> pnl_contains pnl_sample 6"
  using pnl_membership[OF pnl_sample_ok(1,4), of 7] pnl_membership[OF pnl_sample_ok(1,4), of 6] by (simp add: pnl_sample_ok)

text \<open>
  A span is found exactly when all its pages are in the list, provided the search for its first page
  ends inside the list.
\<close>

theorem pnl_span_membership:
  assumes "pnl_ok p" "pnl_desc p" "0 < span" "pnl_search_nochk p pgno \<le> pnl_size p"
  shows "pnl_contains_span p pgno span = ({pgno ..< pgno + span} \<subseteq> set (pnl_list p))"
  by (rule pnl_contains_span_iff[OF assms])

lemma pnl_span_membership_witness: "pnl_contains_span pnl_sample 7 3"
proof -
  have "pnl_search_nochk pnl_sample 7 = 4"
    by (subst pnl_search_correct(1)[OF pnl_sample_ok(1,4)]) (simp add: pnl_sample_ok)
  then have "pnl_search_nochk pnl_sample 7 \<le> pnl_size pnl_sample" by (simp add: pnl_sample_ok)
  from pnl_span_membership[OF pnl_sample_ok(1,4) _ this, of 3] show ?thesis by (auto simp: pnl_sample_ok)
qed

end
