(* ===== verification/Sort.thy ===== *)
theory Sort
  imports Prelude
begin

text \<open>
  The sorting template of \<^verbatim>\<open>src/libmdbx/mdbx.c\<close> (\<^verbatim>\<open>SORT_IMPL\<close>), which the lists of page numbers, of dirty pages, of
  moved pages and of transaction ids instantiate with their comparison: quicksort with the median of three, an explicit
  stack, and sorting networks for up to eight elements. A pointer into the array is its distance from the begin. \<open>None\<close> is
  an access outside the array or a push on the full stack, so that a result says that neither happens. All instances
  pass \<^verbatim>\<open>false\<close> for \<^verbatim>\<open>EXPECT_LOW_CARDINALITY_OR_PRESORTED\<close>.
\<close>

subsection \<open>Sorting networks\<close>

definition SORT_CMP_SWAP :: "('a \<Rightarrow> 'a \<Rightarrow> bool) \<Rightarrow> nat \<Rightarrow> nat \<Rightarrow> 'a list \<Rightarrow> 'a list" where
  "SORT_CMP_SWAP cmp a b xs =
     (let swap_tmp = xs ! a; swap_cmp = cmp swap_tmp (xs ! b)
      in xs[a := if swap_cmp then swap_tmp else xs ! b, b := if swap_cmp then xs ! b else swap_tmp])"

definition SORT_NETWORK_3 :: "(nat \<times> nat) list" where "SORT_NETWORK_3 = [(1, 2), (0, 2), (0, 1)]"
definition SORT_NETWORK_4 :: "(nat \<times> nat) list" where "SORT_NETWORK_4 = [(0, 1), (2, 3), (0, 2), (1, 3), (1, 2)]"

definition SORT_NETWORK_5 :: "(nat \<times> nat) list" where
  "SORT_NETWORK_5 = [(0, 4), (1, 3), (0, 2), (2, 4), (0, 1), (2, 3), (1, 4), (1, 2), (3, 4)]"

definition SORT_NETWORK_6 :: "(nat \<times> nat) list" where
  "SORT_NETWORK_6 = [(1, 2), (4, 5), (0, 2), (3, 5), (0, 1), (3, 4), (2, 5), (0, 3), (1, 4), (2, 4), (1, 3), (2, 3)]"

definition SORT_NETWORK_7 :: "(nat \<times> nat) list" where
  "SORT_NETWORK_7 = [(0, 4), (1, 5), (2, 6), (0, 2), (1, 3), (4, 6), (2, 4), (3, 5), (0, 1), (2, 3), (4, 5), (1, 4), (3, 6),
     (1, 2), (3, 4), (5, 6)]"

definition SORT_NETWORK_8 :: "(nat \<times> nat) list" where
  "SORT_NETWORK_8 = [(0, 4), (1, 5), (2, 6), (3, 7), (0, 2), (1, 3), (4, 6), (5, 7), (2, 4), (3, 5), (0, 1), (6, 7), (2, 3),
     (4, 5), (1, 4), (3, 6), (1, 2), (3, 4), (5, 6)]"

definition sort_network :: "nat \<Rightarrow> (nat \<times> nat) list" where
  "sort_network len =
     (if len \<le> 1 then [] else if len = 2 then [(0, 1)] else if len = 3 then SORT_NETWORK_3 else if len = 4 then SORT_NETWORK_4
      else if len = 5 then SORT_NETWORK_5 else if len = 6 then SORT_NETWORK_6 else if len = 7 then SORT_NETWORK_7
      else SORT_NETWORK_8)"

definition run_network :: "('a \<Rightarrow> 'a \<Rightarrow> bool) \<Rightarrow> (nat \<times> nat) list \<Rightarrow> nat \<Rightarrow> 'a list \<Rightarrow> 'a list" where
  "run_network cmp net begin xs = fold (\<lambda>(a, b). SORT_CMP_SWAP cmp (begin + a) (begin + b)) net xs"

definition SORT_INNER :: "('a \<Rightarrow> 'a \<Rightarrow> bool) \<Rightarrow> int \<Rightarrow> int \<Rightarrow> 'a list \<Rightarrow> 'a list" where
  "SORT_INNER cmp begin len xs = run_network cmp (sort_network (nat len)) (nat begin) xs"

subsection \<open>Partition\<close>

text \<open>The two scans towards the middle.\<close>

function scan_left :: "('a \<Rightarrow> 'a \<Rightarrow> bool) \<Rightarrow> 'a list \<Rightarrow> int \<Rightarrow> int \<Rightarrow> int option" where
  "scan_left cmp xs mid left =
     (if left < 0 \<or> int (length xs) \<le> left then None
      else if cmp (xs ! nat left) (xs ! nat mid) then scan_left cmp xs mid (left + 1) else Some left)"
  by pat_completeness auto
termination
  by (relation "measure (\<lambda>(cmp, xs, mid, left). nat (int (length xs) - left))") auto

function scan_right :: "('a \<Rightarrow> 'a \<Rightarrow> bool) \<Rightarrow> 'a list \<Rightarrow> int \<Rightarrow> int \<Rightarrow> int option" where
  "scan_right cmp xs mid right =
     (if right < 0 \<or> int (length xs) \<le> right then None
      else if cmp (xs ! nat mid) (xs ! nat right) then scan_right cmp xs mid (right - 1) else Some right)"
  by pat_completeness auto
termination
  by (relation "measure (\<lambda>(cmp, xs, mid, right). nat (right + 1))") auto

declare scan_left.simps [simp del] scan_right.simps [simp del]

lemma scan_left_ge: "scan_left cmp xs mid left = Some l \<Longrightarrow> left \<le> l"
proof (induction cmp xs mid left rule: scan_left.induct)
  case (1 cmp xs mid left)
  then show ?case using scan_left.simps[of cmp xs mid left] by (auto split: if_splits)
qed

lemma scan_right_le: "scan_right cmp xs mid right = Some r \<Longrightarrow> r \<le> right"
proof (induction cmp xs mid right rule: scan_right.induct)
  case (1 cmp xs mid right)
  then show ?case using scan_right.simps[of cmp xs mid right] by (auto split: if_splits)
qed

text \<open>The exchange of elements on the wrong sides; \<open>mid\<close> follows the pivot.\<close>

definition sort_swap :: "int \<Rightarrow> int \<Rightarrow> 'a list \<Rightarrow> 'a list" where
  "sort_swap a b xs = xs[nat a := xs ! nat b, nat b := xs ! nat a]"

function partition_loop :: "('a \<Rightarrow> 'a \<Rightarrow> bool) \<Rightarrow> 'a list \<Rightarrow> int \<Rightarrow> int \<Rightarrow> int \<Rightarrow> ('a list \<times> int \<times> int) option" where
  "partition_loop cmp xs mid left right =
     (case scan_left cmp xs mid left of
        None \<Rightarrow> None
      | Some left' \<Rightarrow>
          (case scan_right cmp xs mid right of
             None \<Rightarrow> None
           | Some right' \<Rightarrow>
               if right' < left' then Some (xs, left', right')
               else partition_loop cmp (sort_swap left' right' xs)
                      (if mid = left' then right' else if mid = right' then left' else mid) (left' + 1) (right' - 1)))"
  by pat_completeness auto
termination
  by (relation "measure (\<lambda>(cmp, xs, mid, left, right). nat (right - left + 1))") (auto dest!: scan_left_ge scan_right_le)

declare partition_loop.simps [simp del]

definition partition_range :: "('a \<Rightarrow> 'a \<Rightarrow> bool) \<Rightarrow> int \<Rightarrow> int \<Rightarrow> 'a list \<Rightarrow> ('a list \<times> int \<times> int) option" where
  "partition_range cmp lo hi xs =
     (let mid = lo + (hi - lo) div 2; l = nat lo; m = nat mid; h = nat hi;
          xs = SORT_CMP_SWAP cmp l m xs; xs = SORT_CMP_SWAP cmp m h xs; xs = SORT_CMP_SWAP cmp l m xs
      in partition_loop cmp xs mid (lo + 1) (hi - 1))"

lemma partition_loop_apart: "partition_loop cmp xs mid left right = Some (ys, l, r) \<Longrightarrow> left \<le> l \<and> r \<le> right \<and> r < l"
proof (induction cmp xs mid left right rule: partition_loop.induct)
  case (1 cmp xs mid left right)
  then show ?case using partition_loop.simps[of cmp xs mid left right]
    by (fastforce split: option.splits if_splits dest: scan_left_ge scan_right_le)
qed

lemma partition_range_apart: "partition_range cmp lo hi xs = Some (ys, l, r) \<Longrightarrow> lo < l \<and> r < hi \<and> r < l"
  unfolding partition_range_def Let_def by (drule partition_loop_apart) simp

subsection \<open>Sorting\<close>

text \<open>The number of elements of a range, and the work that ranges stand for.\<close>

definition range_size :: "int \<times> int \<Rightarrow> nat" where "range_size r = nat (snd r - fst r + 1)"

definition ranges_work :: "(int \<times> int) list \<Rightarrow> nat" where
  "ranges_work rs = (\<Sum>r \<leftarrow> rs. 2 * range_size r - 1)"

lemma range_split: "lo < l \<Longrightarrow> r < hi \<Longrightarrow> r < l \<Longrightarrow> 8 \<le> hi - lo \<Longrightarrow>
    (2 * range_size (lo, r) - 1) + (2 * range_size (l, hi) - 1) < 2 * range_size (lo, hi) - 1"
proof -
  assume a: "lo < l" "r < hi" "r < l" "8 \<le> hi - lo"
  define u where "u = range_size (lo, r)"
  define v where "v = range_size (l, hi)"
  define s where "s = range_size (lo, hi)"
  have "u < s" "v < s" "u + v \<le> s" using a unfolding u_def v_def s_def range_size_def by auto
  then have "(2 * u - 1) + (2 * v - 1) < 2 * s - 1" by (cases "u = 0"; cases "v = 0") auto
  then show ?thesis by (simp add: u_def v_def s_def)
qed

definition SORT_STACK :: nat where "SORT_STACK = 64"

function sort_loop :: "('a \<Rightarrow> 'a \<Rightarrow> bool) \<Rightarrow> int \<Rightarrow> int \<Rightarrow> (int \<times> int) list \<Rightarrow> 'a list \<Rightarrow> 'a list option" where
  "sort_loop cmp lo hi stack xs =
     (let len = hi - lo
      in if len < 8
         then let xs' = SORT_INNER cmp lo (len + 1) xs
              in (case stack of [] \<Rightarrow> Some xs' | (lo', hi') # rest \<Rightarrow> sort_loop cmp lo' hi' rest xs')
         else (case partition_range cmp lo hi xs of
             None \<Rightarrow> None
           | Some (xs', left, right) \<Rightarrow>
               if length stack = SORT_STACK then None
               else if hi - left < right - lo then sort_loop cmp left hi ((lo, right) # stack) xs'
               else sort_loop cmp lo right ((left, hi) # stack) xs'))"
  by pat_completeness auto
termination
  by (relation "measures [\<lambda>(cmp, lo, hi, stack, xs). ranges_work ((lo, hi) # stack), \<lambda>(cmp, lo, hi, stack, xs). length stack]")
    (auto simp: ranges_work_def dest!: partition_range_apart dest: range_split)

declare sort_loop.simps [simp del]

definition sort_impl :: "('a \<Rightarrow> 'a \<Rightarrow> bool) \<Rightarrow> 'a list \<Rightarrow> 'a list option" where
  "sort_impl cmp xs = sort_loop cmp 0 (int (length xs) - 1) [] xs"

end
