(* ===== verification/Sort_Network.thy ===== *)
theory Sort_Network
  imports Sort "HOL-Library.Multiset"
begin

text \<open>
  The contract of a comparison that sorts, as a locale, and the sorting networks: by the 0-1 principle each of them sorts
  everything that its comparison orders, because it sorts all lists of truth values.
\<close>

subsection \<open>The order\<close>

text \<open>What a comparison must satisfy: a strict order whose incomparable elements are equivalent.\<close>

locale sort_order =
  fixes cmp :: "'a \<Rightarrow> 'a \<Rightarrow> bool"
  assumes irrefl: "\<not> cmp x x"
    and trans: "cmp x y \<Longrightarrow> cmp y z \<Longrightarrow> cmp x z"
    and between: "cmp x z \<Longrightarrow> cmp x y \<or> cmp y z"
begin

text \<open>Not greater, a total preorder.\<close>

definition le :: "'a \<Rightarrow> 'a \<Rightarrow> bool" where "le x y \<longleftrightarrow> \<not> cmp y x"

lemma le_refl: "le x x" by (simp add: le_def irrefl)
lemma le_trans: "le x y \<Longrightarrow> le y z \<Longrightarrow> le x z" using between by (auto simp: le_def)
lemma cmp_le: "cmp x y \<Longrightarrow> le x y" using trans irrefl by (auto simp: le_def)
lemma not_cmp: "\<not> cmp x y \<Longrightarrow> le y x" by (simp add: le_def)

end

subsection \<open>Networks\<close>

lemma cmp_swap_length [simp]: "length (SORT_CMP_SWAP cmp a b xs) = length xs"
  by (simp add: SORT_CMP_SWAP_def Let_def)

lemma run_network_Nil [simp]: "run_network cmp [] begin xs = xs"
  and run_network_Cons [simp]:
    "run_network cmp ((a, b) # net) begin xs = run_network cmp net begin (SORT_CMP_SWAP cmp (begin + a) (begin + b) xs)"
  by (simp_all add: run_network_def)

lemma run_network_length [simp]: "length (run_network cmp net begin xs) = length xs"
  by (induction net arbitrary: xs) auto

lemma cmp_swap_mset:
  assumes "a < length xs" "b < length xs"
  shows "mset (SORT_CMP_SWAP cmp a b xs) = mset xs"
proof (cases "a = b")
  case False
  have "mset (xs[a := xs ! b, b := xs ! a]) = mset xs" using mset_swap[OF assms(2,1)] False by (simp add: list_update_swap)
  then show ?thesis by (simp add: SORT_CMP_SWAP_def Let_def)
qed (simp add: SORT_CMP_SWAP_def Let_def)

text \<open>Inside a longer array a network works on its part only.\<close>

lemma cmp_swap_slice:
  assumes "a < length ys" "b < length ys"
  shows "SORT_CMP_SWAP cmp (length us + a) (length us + b) (us @ ys @ vs) = us @ SORT_CMP_SWAP cmp a b ys @ vs"
  using assms by (simp add: SORT_CMP_SWAP_def Let_def nth_append list_update_append)

lemma run_network_slice:
  assumes "list_all (\<lambda>(a, b). a < length ys \<and> b < length ys) net"
  shows "run_network cmp net (length us) (us @ ys @ vs) = us @ run_network cmp net 0 ys @ vs"
  using assms
proof (induction net arbitrary: ys)
  case (Cons c net)
  obtain a b where c: "c = (a, b)" by (cases c)
  then show ?case using Cons.IH[of "SORT_CMP_SWAP cmp a b ys"] Cons.prems cmp_swap_slice[of a ys b] by simp
qed simp

lemma run_network_mset:
  assumes "list_all (\<lambda>(a, b). a < length ys \<and> b < length ys) net"
  shows "mset (run_network cmp net 0 ys) = mset ys"
  using assms
proof (induction net arbitrary: ys)
  case (Cons c net)
  obtain a b where c: "c = (a, b)" by (cases c)
  then show ?case using Cons cmp_swap_mset[of a ys b] by simp
qed simp

text \<open>The 0-1 principle: a network that sorts all lists of truth values sorts everything.\<close>

abbreviation bool_less :: "bool \<Rightarrow> bool \<Rightarrow> bool" where "bool_less x y \<equiv> \<not> x \<and> y"

context sort_order
begin

definition above :: "'a \<Rightarrow> 'a \<Rightarrow> bool" where "above c x \<longleftrightarrow> \<not> cmp x c"

lemma cmp_swap_map:
  assumes "a < length xs" "b < length xs"
  shows "map (above c) (SORT_CMP_SWAP cmp a b xs) = SORT_CMP_SWAP bool_less a b (map (above c) xs)"
proof -
  have "cmp x y \<Longrightarrow> above c x \<Longrightarrow> above c y" for x y using trans unfolding above_def by blast
  moreover have "\<not> cmp x y \<Longrightarrow> above c y \<Longrightarrow> above c x" for x y using between unfolding above_def by blast
  ultimately have "above c (if cmp x y then x else y) = (if bool_less (above c x) (above c y) then above c x else above c y)"
    "above c (if cmp x y then y else x) = (if bool_less (above c x) (above c y) then above c y else above c x)" for x y
    by (metis (full_types))+
  then show ?thesis unfolding SORT_CMP_SWAP_def Let_def map_update using assms by (simp only: nth_map)
qed

lemma run_network_map:
  assumes "list_all (\<lambda>(a, b). a < length xs \<and> b < length xs) net"
  shows "map (above c) (run_network cmp net 0 xs) = run_network bool_less net 0 (map (above c) xs)"
  using assms
proof (induction net arbitrary: xs)
  case (Cons d net)
  obtain a b where d: "d = (a, b)" by (cases d)
  then show ?case using Cons cmp_swap_map[of a xs b c] by simp
qed simp

lemma zero_one:
  assumes net: "list_all (\<lambda>(a, b). a < length xs \<and> b < length xs) net"
    and bools: "\<And>bs. length bs = length xs \<Longrightarrow> sorted (run_network bool_less net 0 bs)"
  shows "sorted_wrt le (run_network cmp net 0 xs)"
proof -
  let ?ys = "run_network cmp net 0 xs"
  have "le (?ys ! i) (?ys ! j)" if ij: "i < j" "j < length ?ys" for i j
  proof (rule ccontr)
    assume "\<not> le (?ys ! i) (?ys ! j)"
    then have c: "\<not> above (?ys ! i) (?ys ! j)" "above (?ys ! i) (?ys ! i)" by (simp_all add: le_def above_def irrefl)
    have "sorted (map (above (?ys ! i)) ?ys)" unfolding run_network_map[OF net] by (rule bools) simp
    then have "above (?ys ! i) (?ys ! i) \<le> above (?ys ! i) (?ys ! j)" using ij sorted_nth_mono[of "map (above (?ys ! i)) ?ys" i j] by simp
    then show False using c by simp
  qed
  then show ?thesis by (simp add: sorted_wrt_iff_nth_less)
qed

end

text \<open>The networks of the code, on all lists of truth values.\<close>

lemma swap_bools: "SORT_CMP_SWAP bool_less a b xs = (let x = xs ! a; y = xs ! b in xs[a := x \<and> y, b := x \<or> y])"
proof -
  have "(if bool_less (xs ! a) (xs ! b) then xs ! a else xs ! b) = (xs ! a \<and> xs ! b)"
    "(if bool_less (xs ! a) (xs ! b) then xs ! b else xs ! a) = (xs ! a \<or> xs ! b)" by auto
  then show ?thesis by (simp only: SORT_CMP_SWAP_def Let_def)
qed

lemmas network_simps = SORT_NETWORK_3_def SORT_NETWORK_4_def SORT_NETWORK_5_def SORT_NETWORK_6_def SORT_NETWORK_7_def
  SORT_NETWORK_8_def swap_bools numeral_eq_Suc Let_def

lemma network_2: "sorted (run_network bool_less [(0, 1)] 0 [b0, b1])"
  by (cases b0; cases b1; simp add: network_simps)

lemma network_3: "sorted (run_network bool_less SORT_NETWORK_3 0 [b0, b1, b2])"
  by (cases b0; cases b1; cases b2; simp add: network_simps)

lemma network_4: "sorted (run_network bool_less SORT_NETWORK_4 0 [b0, b1, b2, b3])"
  by (cases b0; cases b1; cases b2; cases b3; simp add: network_simps)

lemma network_5: "sorted (run_network bool_less SORT_NETWORK_5 0 [b0, b1, b2, b3, b4])"
  by (cases b0; cases b1; cases b2; cases b3; cases b4; simp add: network_simps)

lemma network_6: "sorted (run_network bool_less SORT_NETWORK_6 0 [b0, b1, b2, b3, b4, b5])"
  by (cases b0; cases b1; cases b2; cases b3; cases b4; cases b5; simp add: network_simps)

lemma network_7: "sorted (run_network bool_less SORT_NETWORK_7 0 [b0, b1, b2, b3, b4, b5, b6])"
  by (cases b0; cases b1; cases b2; cases b3; cases b4; cases b5; cases b6; simp add: network_simps)

lemma network_8: "sorted (run_network bool_less SORT_NETWORK_8 0 [b0, b1, b2, b3, b4, b5, b6, b7])"
  by (cases b0; cases b1; cases b2; cases b3; cases b4; cases b5; cases b6; cases b7; simp add: network_simps)

lemma network_sorts_bools:
  assumes "length bs \<le> 8"
  shows "sorted (run_network bool_less (sort_network (length bs)) 0 bs)"
proof -
  have two: "sort_network 2 = [(0, 1)]" and small: "n \<le> 1 \<Longrightarrow> sort_network n = []" for n by (simp_all add: sort_network_def)
  have net: "sort_network 3 = SORT_NETWORK_3" "sort_network 4 = SORT_NETWORK_4" "sort_network 5 = SORT_NETWORK_5"
    "sort_network 6 = SORT_NETWORK_6" "sort_network 7 = SORT_NETWORK_7" "sort_network 8 = SORT_NETWORK_8"
    by (simp_all add: sort_network_def)
  have len: "length bs = n \<Longrightarrow> bs = map (\<lambda>i. bs ! i) [0..<n]" for n by (metis map_nth)
  consider "length bs \<le> 1" | "length bs = 2" | "length bs = 3" | "length bs = 4" | "length bs = 5" | "length bs = 6" | "length bs = 7" | "length bs = 8"
    using assms by linarith
  then show ?thesis
  proof cases
    case 1
    then show ?thesis by (cases bs) (auto simp: small)
  next
    case 2
    then show ?thesis using network_2[of "bs ! 0" "bs ! 1"] len[OF 2] unfolding 2 two by (simp add: upt_rec)
  next
    case 3
    then show ?thesis using network_3[of "bs ! 0" "bs ! 1" "bs ! 2"] len[OF 3] unfolding 3 net by (simp add: upt_rec numeral_eq_Suc)
  next
    case 4
    then show ?thesis using network_4[of "bs ! 0" "bs ! 1" "bs ! 2" "bs ! 3"] len[OF 4] unfolding 4 net by (simp add: upt_rec numeral_eq_Suc)
  next
    case 5
    then show ?thesis using network_5[of "bs ! 0" "bs ! 1" "bs ! 2" "bs ! 3" "bs ! 4"] len[OF 5] unfolding 5 net by (simp add: upt_rec numeral_eq_Suc)
  next
    case 6
    then show ?thesis using network_6[of "bs ! 0" "bs ! 1" "bs ! 2" "bs ! 3" "bs ! 4" "bs ! 5"] len[OF 6] unfolding 6 net
      by (simp add: upt_rec numeral_eq_Suc)
  next
    case 7
    then show ?thesis using network_7[of "bs ! 0" "bs ! 1" "bs ! 2" "bs ! 3" "bs ! 4" "bs ! 5" "bs ! 6"] len[OF 7] unfolding 7 net
      by (simp add: upt_rec numeral_eq_Suc)
  next
    case 8
    then show ?thesis using network_8[of "bs ! 0" "bs ! 1" "bs ! 2" "bs ! 3" "bs ! 4" "bs ! 5" "bs ! 6" "bs ! 7"] len[OF 8] unfolding 8 net
      by (simp add: upt_rec numeral_eq_Suc)
  qed
qed

lemma networks_in_range: "n \<le> 8 \<Longrightarrow> list_all (\<lambda>(a, b). a < n \<and> b < n) (sort_network n)"
  by (auto simp: sort_network_def SORT_NETWORK_3_def SORT_NETWORK_4_def SORT_NETWORK_5_def SORT_NETWORK_6_def
      SORT_NETWORK_7_def SORT_NETWORK_8_def)

end
