(* ===== verification/Sort_Ops.thy ===== *)
theory Sort_Ops
  imports Sort_Network
begin

text \<open>
  The sorting template sorts, for every comparison that meets the contract: the result is a rearrangement in order, no scan
  leaves its range, and the stack of 64 ranges is never full, because of two parts the larger is pushed.
\<close>

subsection \<open>Rearranging a range\<close>

text \<open>A range of pointers as a set of indexes.\<close>

definition range_set :: "int \<times> int \<Rightarrow> nat set" where "range_set r = {k. fst r \<le> int k \<and> int k \<le> snd r}"

lemma in_range_set [simp]: "k \<in> range_set (lo, hi) \<longleftrightarrow> lo \<le> int k \<and> int k \<le> hi" by (simp add: range_set_def)

text \<open>\<open>ys\<close> has the elements of \<open>xs\<close>, and those outside \<open>A\<close> in their place.\<close>

definition rearr :: "nat set \<Rightarrow> 'a list \<Rightarrow> 'a list \<Rightarrow> bool" where
  "rearr A xs ys \<longleftrightarrow> mset ys = mset xs \<and> (\<forall>k < length xs. k \<notin> A \<longrightarrow> ys ! k = xs ! k) \<and>
     (\<forall>k \<in> A. k < length xs \<longrightarrow> (\<exists>k' \<in> A. k' < length xs \<and> ys ! k = xs ! k'))"

lemma rearr_length: "rearr A xs ys \<Longrightarrow> length ys = length xs"
  unfolding rearr_def by (metis size_mset)

lemma rearr_refl: "rearr A xs xs" by (auto simp: rearr_def)

lemma rearr_trans: "rearr A xs ys \<Longrightarrow> rearr A ys zs \<Longrightarrow> rearr A xs zs"
  using rearr_length[of A xs ys] unfolding rearr_def by (metis (no_types, lifting))

lemma rearr_swap: "i \<in> A \<Longrightarrow> j \<in> A \<Longrightarrow> i < length xs \<Longrightarrow> j < length xs \<Longrightarrow> rearr A xs (xs[i := xs ! j, j := xs ! i])"
  unfolding rearr_def by (auto simp: mset_swap nth_list_update)

lemma cmp_swap_cases: "SORT_CMP_SWAP cmp a b xs = (if cmp (xs ! a) (xs ! b) then xs else xs[a := xs ! b, b := xs ! a])"
  by (simp add: SORT_CMP_SWAP_def Let_def)

lemma rearr_cmp_swap: "a \<in> A \<Longrightarrow> b \<in> A \<Longrightarrow> a < length xs \<Longrightarrow> b < length xs \<Longrightarrow> rearr A xs (SORT_CMP_SWAP cmp a b xs)"
  unfolding cmp_swap_cases by (simp add: rearr_swap[of a A b] rearr_refl)

context sort_order
begin

subsection \<open>Small ranges\<close>

lemma SORT_INNER_sorts:
  assumes range: "0 \<le> lo" "hi < int (length xs)" "hi - lo < 8"
  shows "rearr (range_set (lo, hi)) xs (SORT_INNER cmp lo (hi - lo + 1) xs)"
    "lo \<le> int i \<Longrightarrow> i < j \<Longrightarrow> int j \<le> hi \<Longrightarrow> le (SORT_INNER cmp lo (hi - lo + 1) xs ! i) (SORT_INNER cmp lo (hi - lo + 1) xs ! j)"
proof -
  define n where "n = nat (hi - lo + 1)"
  define b where "b = nat lo"
  define us where "us = take b xs"
  define ys where "ys = take n (drop b xs)"
  define vs where "vs = drop (b + n) xs"
  define zs where "zs = run_network cmp (sort_network n) 0 ys"
  have n: "n \<le> 8" "n = 0 \<or> b + n \<le> length xs" using range by (auto simp: n_def b_def)
  have len: "n \<noteq> 0 \<Longrightarrow> length us = b" "length ys = n \<or> n = 0 \<and> ys = []" using n(2) by (auto simp: us_def ys_def)
  have lys: "length ys = n" using len(2) by auto
  have xs: "xs = us @ ys @ vs" unfolding us_def ys_def vs_def by (metis add.commute append_take_drop_id drop_drop)
  have net: "list_all (\<lambda>(a, b). a < length ys \<and> b < length ys) (sort_network n)" using networks_in_range[OF n(1)] lys by simp
  have out: "SORT_INNER cmp lo (hi - lo + 1) xs = us @ zs @ vs"
  proof (cases "n = 0")
    case True
    then have "sort_network n = []" by (simp add: sort_network_def)
    then show ?thesis unfolding SORT_INNER_def n_def[symmetric] zs_def by (simp add: xs[symmetric])
  next
    case False
    then show ?thesis unfolding SORT_INNER_def n_def[symmetric] b_def[symmetric] zs_def
      using run_network_slice[OF net, of cmp us vs] len(1) xs by metis
  qed
  have lz: "length zs = n" by (simp add: zs_def lys)
  have mz: "mset zs = mset ys" unfolding zs_def by (rule run_network_mset[OF net])
  have sorted: "sorted_wrt le zs" unfolding zs_def
    by (rule zero_one[OF net]) (use network_sorts_bools n(1) lys in metis)
  have inside: "k \<in> range_set (lo, hi) \<longleftrightarrow> b \<le> k \<and> k < b + n" for k using range(1) by (auto simp: b_def n_def)
  show "rearr (range_set (lo, hi)) xs (SORT_INNER cmp lo (hi - lo + 1) xs)"
    unfolding rearr_def out
  proof (intro conjI allI impI ballI)
    show "mset (us @ zs @ vs) = mset xs" by (subst xs) (simp add: mz)
  next
    fix k assume k: "k < length xs" "k \<notin> range_set (lo, hi)"
    then have "k < b \<or> b + n \<le> k" unfolding inside by linarith
    then show "(us @ zs @ vs) ! k = xs ! k"
    proof (cases "n = 0")
      case True
      then show ?thesis using lz lys xs by (metis length_0_conv)
    next
      case False
      then show ?thesis using \<open>k < b \<or> b + n \<le> k\<close> lz lys len(1) unfolding xs by (auto simp: nth_append)
    qed
  next
    fix k assume k: "k \<in> range_set (lo, hi)" "k < length xs"
    then have n0: "n \<noteq> 0" and kb: "b \<le> k" "k - b < n" unfolding inside by auto
    then have "zs ! (k - b) \<in> set ys" using lz mz nth_mem[of "k - b" zs] by (metis mset_eq_setD)
    then obtain m where m: "m < n" "ys ! m = zs ! (k - b)" using lys by (auto simp: in_set_conv_nth)
    have "xs ! (b + m) = ys ! m" by (subst xs) (use m(1) lys len(1) n0 in \<open>simp add: nth_append\<close>)
    moreover have "(us @ zs @ vs) ! k = zs ! (k - b)" using kb lz len(1) n0 by (simp add: nth_append)
    moreover have "b + m \<in> range_set (lo, hi)" unfolding inside using m(1) by simp
    moreover have "b + m < length xs" using n(2) n0 m(1) by auto
    ultimately show "\<exists>k' \<in> range_set (lo, hi). k' < length xs \<and> (us @ zs @ vs) ! k = xs ! k'" using m(2) by metis
  qed
  assume ij: "lo \<le> int i" "i < j" "int j \<le> hi"
  have "b \<le> i" "j < b + n" "n \<noteq> 0" using ij range(1) by (auto simp: b_def n_def)
  moreover from this have "i - b < n" "j - b < n" using ij(2) by linarith+
  ultimately show "le (SORT_INNER cmp lo (hi - lo + 1) xs ! i) (SORT_INNER cmp lo (hi - lo + 1) xs ! j)"
    using sorted_wrt_nth_less[OF sorted, of "i - b" "j - b"] ij(2) lz len(1) unfolding out by (simp add: nth_append)
qed

end

subsection \<open>Partition\<close>

context sort_order
begin

lemma scan_left_stops:
  assumes "0 \<le> left" "left \<le> stop" "stop < int (length xs)" "\<not> cmp (xs ! nat stop) (xs ! nat mid)"
  shows "\<exists>l. scan_left cmp xs mid left = Some l \<and> left \<le> l \<and> l \<le> stop \<and> \<not> cmp (xs ! nat l) (xs ! nat mid) \<and>
    (\<forall>k. left \<le> int k \<and> int k < l \<longrightarrow> cmp (xs ! k) (xs ! nat mid))"
  using assms
proof (induction cmp xs mid left rule: scan_left.induct)
  case (1 cmp xs mid left)
  show ?case
  proof (cases "cmp (xs ! nat left) (xs ! nat mid)")
    case True
    then have "left \<noteq> stop" using "1.prems"(4) by auto
    then obtain l where l: "scan_left cmp xs mid (left + 1) = Some l" "left + 1 \<le> l" "l \<le> stop" "\<not> cmp (xs ! nat l) (xs ! nat mid)"
      "\<forall>k. left + 1 \<le> int k \<and> int k < l \<longrightarrow> cmp (xs ! k) (xs ! nat mid)"
      using "1.IH" "1.prems" True by fastforce
    have "cmp (xs ! k) (xs ! nat mid)" if "left \<le> int k" "int k < l" for k
    proof (cases "int k = left")
      case True
      then show ?thesis using \<open>cmp (xs ! nat left) (xs ! nat mid)\<close> by (metis nat_int)
    qed (use l(5) that in force)
    then show ?thesis using l True "1.prems" scan_left.simps[of cmp xs mid left] by auto
  qed (use "1.prems" scan_left.simps[of cmp xs mid left] in auto)
qed

lemma scan_right_stops:
  assumes "right < int (length xs)" "stop \<le> right" "0 \<le> stop" "\<not> cmp (xs ! nat mid) (xs ! nat stop)"
  shows "\<exists>r. scan_right cmp xs mid right = Some r \<and> r \<le> right \<and> stop \<le> r \<and> \<not> cmp (xs ! nat mid) (xs ! nat r) \<and>
    (\<forall>k. r < int k \<and> int k \<le> right \<longrightarrow> cmp (xs ! nat mid) (xs ! k))"
  using assms
proof (induction cmp xs mid right rule: scan_right.induct)
  case (1 cmp xs mid right)
  show ?case
  proof (cases "cmp (xs ! nat mid) (xs ! nat right)")
    case True
    then have "right \<noteq> stop" using "1.prems"(4) by auto
    then obtain r where r: "scan_right cmp xs mid (right - 1) = Some r" "r \<le> right - 1" "stop \<le> r" "\<not> cmp (xs ! nat mid) (xs ! nat r)"
      "\<forall>k. r < int k \<and> int k \<le> right - 1 \<longrightarrow> cmp (xs ! nat mid) (xs ! k)"
      using "1.IH" "1.prems" True by fastforce
    have "cmp (xs ! nat mid) (xs ! k)" if "r < int k" "int k \<le> right" for k
    proof (cases "int k = right")
      case True
      then show ?thesis using \<open>cmp (xs ! nat mid) (xs ! nat right)\<close> by (metis nat_int)
    qed (use r(5) that in force)
    then show ?thesis using r True "1.prems" scan_right.simps[of cmp xs mid right] by auto
  qed (use "1.prems" scan_right.simps[of cmp xs mid right] in auto)
qed

text \<open>
  What the loop of the partition keeps: the elements that were passed on the left are not greater than the pivot, those
  on the right not less. They stop the scans, so no scan leaves the range.
\<close>

definition parting :: "int \<Rightarrow> int \<Rightarrow> 'a \<Rightarrow> 'a list \<Rightarrow> int \<Rightarrow> int \<Rightarrow> int \<Rightarrow> bool" where
  "parting lo hi p xs mid left right \<longleftrightarrow>
     0 \<le> lo \<and> hi < int (length xs) \<and> lo < left \<and> left \<le> hi \<and> lo \<le> right \<and> right < hi \<and> left \<le> right + 2 \<and>
     lo \<le> mid \<and> mid \<le> hi \<and> xs ! nat mid = p \<and>
     (\<forall>k. lo \<le> int k \<and> int k < left \<longrightarrow> le (xs ! k) p) \<and> (\<forall>k. right < int k \<and> int k \<le> hi \<longrightarrow> le p (xs ! k))"

definition parted :: "int \<Rightarrow> int \<Rightarrow> 'a list \<Rightarrow> int \<Rightarrow> int \<Rightarrow> bool" where
  "parted lo hi ys l r \<longleftrightarrow> (\<exists>p. lo < l \<and> l \<le> hi \<and> lo \<le> r \<and> r < hi \<and> r < l \<and>
     (\<forall>k. lo \<le> int k \<and> int k < l \<longrightarrow> le (ys ! k) p) \<and> (\<forall>k. r < int k \<and> int k \<le> hi \<longrightarrow> le p (ys ! k)))"

lemma partition_loop_parts:
  assumes "parting lo hi p xs mid left right"
  shows "\<exists>ys l r. partition_loop cmp xs mid left right = Some (ys, l, r) \<and> rearr (range_set (lo, hi)) xs ys \<and> parted lo hi ys l r"
  using assms
proof (induction "nat (right - left + 3)" arbitrary: xs mid left right rule: less_induct)
  case less
  note inv = less.prems[unfolded parting_def]
  let ?stop = "max left (right + 1)"
  have stop: "right < ?stop" "?stop \<le> hi" "0 \<le> ?stop" using inv by auto
  then have "le p (xs ! nat ?stop)" using inv by simp
  then have "\<not> cmp (xs ! nat ?stop) (xs ! nat mid)" using inv by (simp add: le_def)
  then obtain l where l: "scan_left cmp xs mid left = Some l" "left \<le> l" "l \<le> ?stop" "\<not> cmp (xs ! nat l) p"
    "\<forall>k. left \<le> int k \<and> int k < l \<longrightarrow> cmp (xs ! k) p"
    using scan_left_stops[of left ?stop xs mid] inv stop by auto
  have low: "le (xs ! k) p" if "lo \<le> int k" "int k < l" for k
    using that inv l(5) cmp_le by (cases "int k < left") auto
  let ?stop' = "min right (l - 1)"
  have stop': "lo \<le> ?stop'" "?stop' < l" using inv l(2) by auto
  then have "le (xs ! nat ?stop') p" using low[of "nat ?stop'"] inv by simp
  then have "\<not> cmp (xs ! nat mid) (xs ! nat ?stop')" using inv by (simp add: le_def)
  then obtain r where r: "scan_right cmp xs mid right = Some r" "r \<le> right" "?stop' \<le> r" "\<not> cmp p (xs ! nat r)"
    "\<forall>k. r < int k \<and> int k \<le> right \<longrightarrow> cmp p (xs ! k)"
    using scan_right_stops[of right xs ?stop' mid] inv stop' by auto
  have high: "le p (xs ! k)" if "r < int k" "int k \<le> hi" for k
    using that inv r(5) cmp_le by (cases "int k \<le> right") auto
  have ends: "lo < l" "l \<le> hi" "lo \<le> r" "r < hi" using l(2) stop(2) l(3) r(2,3) stop'(1) inv by linarith+
  show ?case
  proof (cases "r < l")
    case True
    have "parted lo hi xs l r" unfolding parted_def using low high ends True by blast
    then show ?thesis using l(1) r(1) True rearr_refl by (subst partition_loop.simps) auto
  next
    case False
    let ?ys = "sort_swap l r xs" let ?mid = "if mid = l then r else if mid = r then l else mid"
    have ij: "nat l < length xs" "nat r < length xs" "nat l = nat r \<longleftrightarrow> l = r" using ends inv False by auto
    have nth: "?ys ! k = (if int k = l then xs ! nat r else if int k = r then xs ! nat l else xs ! k)" if "k < length xs" for k
      using ij that ends inv unfolding sort_swap_def by (auto simp: nth_list_update)
    have re: "rearr (range_set (lo, hi)) xs ?ys" unfolding sort_swap_def
      by (rule rearr_swap) (use ends ij inv False in auto)
    have "parting lo hi p ?ys ?mid (l + 1) (r - 1)" unfolding parting_def
    proof (intro conjI)
      show "?ys ! nat ?mid = p" using nth[of "nat ?mid"] inv ends ij by auto
      show "\<forall>k. lo \<le> int k \<and> int k < l + 1 \<longrightarrow> le (?ys ! k) p"
      proof (intro allI impI)
        fix k assume k: "lo \<le> int k \<and> int k < l + 1"
        then have "k < length xs" using ends inv by linarith
        then show "le (?ys ! k) p" using nth[of k] k low not_cmp[OF r(4)] False by auto
      qed
      show "\<forall>k. r - 1 < int k \<and> int k \<le> hi \<longrightarrow> le p (?ys ! k)"
      proof (intro allI impI)
        fix k assume k: "r - 1 < int k \<and> int k \<le> hi"
        then have "k < length xs" using inv by linarith
        then show "le p (?ys ! k)" using nth[of k] k high not_cmp[OF l(4)] False by auto
      qed
    qed (use inv ends False rearr_length[OF re] in auto)
    moreover have "nat ((r - 1) - (l + 1) + 3) < nat (right - left + 3)" using l(2) r(2) False by linarith
    ultimately obtain zs l' r' where "partition_loop cmp ?ys ?mid (l + 1) (r - 1) = Some (zs, l', r')"
      "rearr (range_set (lo, hi)) ?ys zs" "parted lo hi zs l' r'"
      using less.hyps by blast
    then show ?thesis using l(1) r(1) False rearr_trans[OF re] by (subst partition_loop.simps) auto
  qed
qed

lemma partition_range_parts:
  assumes range: "0 \<le> lo" "hi < int (length xs)" "8 \<le> hi - lo"
  shows "\<exists>ys l r. partition_range cmp lo hi xs = Some (ys, l, r) \<and> rearr (range_set (lo, hi)) xs ys \<and> parted lo hi ys l r"
proof -
  define mid where "mid = lo + (hi - lo) div 2"
  have mid: "lo < mid" "mid < hi" using range(3) by (auto simp: mid_def)
  let ?l = "nat lo" and ?m = "nat mid" and ?h = "nat hi" and ?A = "range_set (lo, hi)"
  have idx: "?l < length xs" "?m < length xs" "?h < length xs" "?l \<noteq> ?m" "?m \<noteq> ?h" "?l \<noteq> ?h" using range mid by auto
  define x1 where "x1 = SORT_CMP_SWAP cmp ?l ?m xs"
  define x2 where "x2 = SORT_CMP_SWAP cmp ?m ?h x1"
  define x3 where "x3 = SORT_CMP_SWAP cmp ?l ?m x2"
  have len: "length x1 = length xs" "length x2 = length xs" "length x3 = length xs" by (simp_all add: x1_def x2_def x3_def)
  have "rearr ?A xs x1" "rearr ?A x1 x2" "rearr ?A x2 x3"
    unfolding x1_def[symmetric] x2_def[symmetric] x3_def[symmetric]
    by (simp_all add: x1_def x2_def x3_def, (rule rearr_cmp_swap, use idx mid range in auto)+)
  then have re: "rearr ?A xs x3" using rearr_trans by metis
  have swapped: "le (SORT_CMP_SWAP cmp a b zs ! a) (SORT_CMP_SWAP cmp a b zs ! b)" if "a < length zs" "b < length zs" "a \<noteq> b" for a b zs
    using that cmp_le not_cmp by (simp add: cmp_swap_cases)
  have lm: "le (x3 ! ?l) (x3 ! ?m)" using swapped[of ?l x2 ?m] idx len by (simp add: x3_def)
  have "le (x2 ! ?m) (x2 ! ?h)" using swapped[of ?m x1 ?h] idx len by (simp add: x2_def)
  moreover have "le (x2 ! ?l) (x2 ! ?h)"
  proof -
    have 1: "le (x1 ! ?l) (x1 ! ?m)" using swapped[of ?l xs ?m] idx by (simp add: x1_def)
    have "x2 ! ?l = x1 ! ?l" "le (x1 ! ?m) (x2 ! ?h)"
      using idx len cmp_le le_refl by (auto simp: x2_def cmp_swap_cases)
    then show ?thesis using le_trans[OF 1] by simp
  qed
  ultimately have mh: "le (x3 ! ?m) (x3 ! ?h)" using idx len by (auto simp: x3_def cmp_swap_cases)
  have "parting lo hi (x3 ! ?m) x3 mid (lo + 1) (hi - 1)" unfolding parting_def
  proof (intro conjI)
    show "\<forall>k. lo \<le> int k \<and> int k < lo + 1 \<longrightarrow> le (x3 ! k) (x3 ! ?m)"
    proof (intro allI impI)
      fix k assume "lo \<le> int k \<and> int k < lo + 1"
      then have "k = ?l" by linarith
      then show "le (x3 ! k) (x3 ! ?m)" using lm by simp
    qed
    show "\<forall>k. hi - 1 < int k \<and> int k \<le> hi \<longrightarrow> le (x3 ! ?m) (x3 ! k)"
    proof (intro allI impI)
      fix k assume "hi - 1 < int k \<and> int k \<le> hi"
      then have "k = ?h" by linarith
      then show "le (x3 ! ?m) (x3 ! k)" using mh by simp
    qed
  qed (use range mid len in auto)
  from partition_loop_parts[OF this] show ?thesis
    unfolding partition_range_def Let_def mid_def[symmetric] x1_def[symmetric] x2_def[symmetric] x3_def[symmetric]
    using rearr_trans[OF re] by blast
qed

end

subsection \<open>Sorting\<close>

text \<open>The depth of the stack: each range on it, and the current one before it, halves the one below.\<close>

fun halving :: "nat \<Rightarrow> (int \<times> int) list \<Rightarrow> bool" where
  "halving n [] = True"
| "halving n (r # rs) = (range_size r * 2 ^ length rs \<le> n \<and> halving n rs)"

context sort_order
begin

text \<open>Two elements in the wrong order are in one of the ranges that are still to be sorted; these are apart.\<close>

definition pending :: "(int \<times> int) list \<Rightarrow> 'a list \<Rightarrow> bool" where
  "pending rs xs \<longleftrightarrow>
     (\<forall>r \<in> set rs. 0 \<le> fst r \<and> snd r < int (length xs)) \<and>
     sorted_wrt (\<lambda>r s. range_set r \<inter> range_set s = {}) rs \<and>
     (\<forall>i j. i < j \<and> j < length xs \<and> (\<forall>r \<in> set rs. \<not> (i \<in> range_set r \<and> j \<in> range_set r)) \<longrightarrow> le (xs ! i) (xs ! j))"

lemma pending_rearr:
  assumes pend: "pending ((lo, hi) # rs) xs" and re: "rearr (range_set (lo, hi)) xs ys"
    and new: "\<forall>r \<in> set new. 0 \<le> fst r \<and> snd r < int (length xs) \<and> range_set r \<subseteq> range_set (lo, hi)"
      "sorted_wrt (\<lambda>r s. range_set r \<inter> range_set s = {}) new"
    and sorted: "\<And>i j. lo \<le> int i \<Longrightarrow> i < j \<Longrightarrow> int j \<le> hi \<Longrightarrow> (\<forall>r \<in> set new. \<not> (i \<in> range_set r \<and> j \<in> range_set r)) \<Longrightarrow> le (ys ! i) (ys ! j)"
  shows "pending (new @ rs) ys"
proof -
  let ?A = "range_set (lo, hi)"
  note len = rearr_length[OF re]
  note old = pend[unfolded pending_def]
  have apart: "range_set s \<inter> ?A = {}" if "s \<in> set rs" for s using old that by auto
  have out: "ys ! k = xs ! k" if "k \<notin> ?A" "k < length xs" for k using re that unfolding rearr_def by blast
  have inn: "\<exists>k' \<in> ?A. k' < length xs \<and> ys ! k = xs ! k'" if "k \<in> ?A" "k < length xs" for k using re that unfolding rearr_def by blast
  have ok: "le (xs ! i) (xs ! j)" if "i < j" "j < length xs" "\<not> (i \<in> ?A \<and> j \<in> ?A)" "\<forall>s \<in> set rs. \<not> (i \<in> range_set s \<and> j \<in> range_set s)" for i j
    using old that by auto
  have "le (ys ! i) (ys ! j)" if ij: "i < j" "j < length ys" and free: "\<forall>r \<in> set (new @ rs). \<not> (i \<in> range_set r \<and> j \<in> range_set r)" for i j
  proof -
    have j: "j < length xs" "i < length xs" using ij len by auto
    consider "i \<in> ?A" "j \<in> ?A" | "i \<in> ?A" "j \<notin> ?A" | "i \<notin> ?A" "j \<in> ?A" | "i \<notin> ?A" "j \<notin> ?A" by blast
    then show ?thesis
    proof cases
      case 1
      then show ?thesis using sorted ij(1) free by auto
    next
      case 2
      obtain k where k: "k \<in> ?A" "ys ! i = xs ! k" using inn 2(1) j by blast
      have "k < j" using k(1) 2 ij(1) by auto
      then have "le (xs ! k) (xs ! j)" using ok[of k j] j 2(2) k(1) apart by blast
      then show ?thesis using k(2) out[OF 2(2) j(1)] by simp
    next
      case 3
      obtain k where k: "k \<in> ?A" "k < length xs" "ys ! j = xs ! k" using inn 3(2) j by blast
      have "i < k" using k(1) 3 ij(1) by auto
      then have "le (xs ! i) (xs ! k)" using ok[of i k] 3(1) k(1,2) apart by blast
      then show ?thesis using k(3) out[OF 3(1) j(2)] by simp
    next
      case 4
      then show ?thesis using ok[OF ij(1) j(1)] free out j by auto
    qed
  qed
  moreover have "sorted_wrt (\<lambda>r s. range_set r \<inter> range_set s = {}) (new @ rs)"
  proof -
    have "range_set r \<inter> range_set s = {}" if "r \<in> set new" "s \<in> set rs" for r s using new(1) apart that by fastforce
    then show ?thesis using new(2) old by (auto simp: sorted_wrt_append)
  qed
  ultimately show ?thesis using old new(1) len unfolding pending_def by auto
qed

lemma parted_sizes:
  assumes "parted lo hi ys l r"
  shows "hi - l < r - lo \<Longrightarrow> range_size (l, hi) * 2 \<le> range_size (lo, hi)" "\<not> hi - l < r - lo \<Longrightarrow> range_size (lo, r) * 2 \<le> range_size (lo, hi)"
    "range_size (lo, r) \<le> range_size (lo, hi)" "range_size (l, hi) \<le> range_size (lo, hi)"
  using assms by (auto simp: parted_def range_size_def)

lemma sort_loop_sorts:
  assumes "c = cmp" "pending ((lo, hi) # stack) xs" "halving n ((lo, hi) # stack)" "n < 2 ^ 64"
  shows "\<exists>ys. sort_loop c lo hi stack xs = Some ys \<and> mset ys = mset xs \<and> sorted_wrt le ys"
  using assms
proof (induction c lo hi stack xs rule: sort_loop.induct)
  case (1 c lo hi stack xs)
  note c = "1.prems"(1)
  have range: "0 \<le> lo" "hi < int (length xs)" using "1.prems"(2) by (simp_all add: pending_def)
  have half: "range_size (lo, hi) * 2 ^ length stack \<le> n" "halving n stack" using "1.prems"(3) by simp_all
  show ?case
  proof (cases "hi - lo < 8")
    case True
    let ?xs = "SORT_INNER cmp lo (hi - lo + 1) xs"
    note inner = SORT_INNER_sorts[OF range True]
    have pend: "pending stack ?xs"
      using pending_rearr[OF "1.prems"(2) inner(1), of "[]"] inner(2) by simp
    have m: "mset ?xs = mset xs" using inner(1) by (simp add: rearr_def)
    show ?thesis
    proof (cases stack)
      case Nil
      have "sorted_wrt le ?xs" using pend unfolding Nil pending_def by (simp add: sorted_wrt_iff_nth_less)
      then show ?thesis using True m c Nil by (subst sort_loop.simps) (simp add: Let_def)
    next
      case (Cons r rest)
      obtain lo' hi' where r: "r = (lo', hi')" by (cases r)
      have "\<exists>ys. sort_loop c lo' hi' rest ?xs = Some ys \<and> mset ys = mset ?xs \<and> sorted_wrt le ys"
        using "1.IH"(1)[OF refl True refl Cons r[symmetric] c _ _ "1.prems"(4)] c pend half(2) Cons r by simp
      then show ?thesis using True m c Cons r by (subst sort_loop.simps) (simp add: Let_def)
    qed
  next
    case False
    then have big: "8 \<le> hi - lo" by simp
    obtain ys l r where part: "partition_range cmp lo hi xs = Some (ys, l, r)" "rearr (range_set (lo, hi)) xs ys" "parted lo hi ys l r"
      using partition_range_parts[OF range big] by blast
    have ends: "lo < l" "l \<le> hi" "lo \<le> r" "r < hi" "r < l" using part(3) by (auto simp: parted_def)
    have m: "mset ys = mset xs" using part(2) by (simp add: rearr_def)
    have room: "length stack \<noteq> SORT_STACK"
    proof
      assume "length stack = SORT_STACK"
      then have "range_size (lo, hi) * 2 ^ 64 \<le> n" using half(1) by (simp add: SORT_STACK_def)
      moreover have "1 \<le> range_size (lo, hi)" using big by (simp add: range_size_def)
      ultimately have "2 ^ 64 \<le> n" by (metis order.trans mult_le_mono1 nat_mult_1)
      then show False using "1.prems"(4) by simp
    qed
    have ordered: "le (ys ! i) (ys ! j)" if "lo \<le> int i" "i < j" "int j \<le> hi"
      "\<not> (i \<in> range_set (lo, r) \<and> j \<in> range_set (lo, r))" "\<not> (i \<in> range_set (l, hi) \<and> j \<in> range_set (l, hi))" for i j
    proof -
      obtain p where p: "\<forall>k. lo \<le> int k \<and> int k < l \<longrightarrow> le (ys ! k) p" "\<forall>k. r < int k \<and> int k \<le> hi \<longrightarrow> le p (ys ! k)"
        using part(3) by (auto simp: parted_def)
      have "int i < l" "r < int j" using that by auto
      then show ?thesis using p that(1-3) le_trans by force
    qed
    have new: "pending ((l, hi) # (lo, r) # stack) ys" "pending ((lo, r) # (l, hi) # stack) ys"
      using pending_rearr[OF "1.prems"(2) part(2), of "[(l, hi), (lo, r)]"] pending_rearr[OF "1.prems"(2) part(2), of "[(lo, r), (l, hi)]"]
        ordered ends range by (fastforce simp: range_set_def)+
    note sizes = parted_sizes[OF part(3)]
    have halve: "halving n (s # t # stack)" if "range_size t \<le> range_size (lo, hi)" "range_size s * 2 \<le> range_size (lo, hi)" for s t
    proof -
      have "range_size t * 2 ^ length stack \<le> n" using that(1) half(1) by (meson order.trans mult_le_mono1)
      moreover have "range_size s * 2 * 2 ^ length stack \<le> n" using that(2) half(1) by (meson order.trans mult_le_mono1)
      ultimately show ?thesis using half(2) by simp
    qed
    show ?thesis
    proof (cases "hi - l < r - lo")
      case True
      have "\<exists>zs. sort_loop c l hi ((lo, r) # stack) ys = Some zs \<and> mset zs = mset ys \<and> sorted_wrt le zs"
        using "1.IH"(2)[OF refl False part(1)[folded c] refl refl room True c new(1) _ "1.prems"(4)] halve sizes True by blast
      then show ?thesis using False part(1) room True m c by (subst sort_loop.simps) (simp add: Let_def)
    next
      case right: False
      have "\<exists>zs. sort_loop c lo r ((l, hi) # stack) ys = Some zs \<and> mset zs = mset ys \<and> sorted_wrt le zs"
        using "1.IH"(3)[OF refl False part(1)[folded c] refl refl room right c new(2) _ "1.prems"(4)] halve sizes right by blast
      then show ?thesis using False part(1) room right m c by (subst sort_loop.simps) (simp add: Let_def)
    qed
  qed
qed

lemma sort_impl_sorts:
  assumes "length xs < 2 ^ 64"
  shows "\<exists>ys. sort_impl cmp xs = Some ys \<and> mset ys = mset xs \<and> sorted_wrt le ys"
proof -
  have "pending [(0, int (length xs) - 1)] xs" by (auto simp: pending_def)
  moreover have "halving (length xs) [(0, int (length xs) - 1)]" by (simp add: range_size_def)
  ultimately show ?thesis using sort_loop_sorts[OF refl _ _ assms] unfolding sort_impl_def by blast
qed

end

end
