(* ===== verification/Radix.thy ===== *)
theory Radix
  imports Prelude
begin

text \<open>
  The radix sort template of \<^verbatim>\<open>src/libmdbx/mdbx.c\<close> (\<^verbatim>\<open>RADIXSORT_IMPL\<close>) for arrays that have room for a copy
  behind them, as all lists of the build have: two bytes of the key at a time, by counting, from the array to the buffer
  by the lower byte and back by the higher. \<open>extract_key\<close> is the macro's argument. \<open>None\<close> is a loop that runs past an
  empty array, or a shift of a \<^verbatim>\<open>size_t\<close> by its width. A result is the array and what is left in the buffer.
\<close>

unbundle bit_operations_syntax

type_synonym counters = "nat list"

definition inc_counter :: "nat \<Rightarrow> counters \<Rightarrow> counters" where
  "inc_counter d c = c[d := (c ! d + 1) mod 2 ^ 32]"

text \<open>One pass over the keys: how often each byte occurs, and the bits in which neighbours differ.\<close>

definition radix_count :: "('a \<Rightarrow> nat) \<Rightarrow> nat \<Rightarrow> 'a list \<Rightarrow> counters \<times> counters \<times> nat \<times> nat" where
  "radix_count extract_key key_shift xs =
     fold (\<lambda>x (a, b, key_diff_mask, prev_key).
         let key = drop_bit key_shift (extract_key x)
         in (inc_counter (key AND 255) a, inc_counter (drop_bit 8 key AND 255) b, key_diff_mask OR (prev_key XOR key), key))
       xs (replicate 256 0, replicate 256 0, 0, drop_bit key_shift (extract_key (hd xs)))"

text \<open>Counters become the positions of the first element with each byte.\<close>

definition radix_starts :: "counters \<Rightarrow> counters" where
  "radix_starts c = fst (fold (\<lambda>i (c, t). (c[i := t], (t + c ! i) mod 2 ^ 32)) [0..<256] (c, 0))"

definition radix_place :: "('a \<Rightarrow> nat) \<Rightarrow> 'a list \<Rightarrow> counters \<Rightarrow> 'a list \<Rightarrow> 'a list" where
  "radix_place digit from_list c to_list =
     fst (fold (\<lambda>x (ys, c). (ys[c ! digit x := x], inc_counter (digit x) c)) from_list (to_list, c))"

function radix_loop :: "('a \<Rightarrow> nat) \<Rightarrow> nat \<Rightarrow> 'a list \<Rightarrow> 'a list \<Rightarrow> ('a list \<times> 'a list) option" where
  "radix_loop extract_key key_shift tmp xs =
     (if xs = [] \<or> 64 \<le> key_shift then None
      else case radix_count extract_key key_shift xs of (a, b, key_diff_mask, _) \<Rightarrow>
        let tmp = radix_place (\<lambda>x. drop_bit key_shift (extract_key x) AND 255) xs (radix_starts a) tmp
        in if key_diff_mask < 256 then Some (tmp, tmp)
           else let xs = radix_place (\<lambda>x. drop_bit 8 (drop_bit key_shift (extract_key x)) AND 255) tmp (radix_starts b) xs
                in if drop_bit 16 key_diff_mask \<noteq> 0 then radix_loop extract_key (key_shift + 16) tmp xs else Some (xs, tmp))"
  by pat_completeness auto
termination
  by (relation "measure (\<lambda>(extract_key, key_shift, tmp, xs). 64 - key_shift)") auto

declare radix_loop.simps [simp del]

definition radixsort :: "('a \<Rightarrow> nat) \<Rightarrow> 'a list \<Rightarrow> 'a list \<Rightarrow> ('a list \<times> 'a list) option" where
  "radixsort extract_key tmp xs = radix_loop extract_key 0 tmp xs"

definition MDBX_RADIXSORT_THRESHOLD :: nat where "MDBX_RADIXSORT_THRESHOLD = 142"

end
