(* ===== verification/Radix_Ops.thy ===== *)
theory Radix_Ops
  imports Radix "HOL-Library.Multiset"
begin

text \<open>
  The radix sort is the stable sort by the key: counting and placing by one byte is \<open>sort_key\<close> by that byte, two stable
  sorts by parts of the key are one by both, and the mask of differing bits stops the loop when the rest is the same.
\<close>

unbundle bit_operations_syntax

subsection \<open>Counting\<close>

lemma inc_counter_length [simp]: "length (inc_counter d c) = length c" by (simp add: inc_counter_def)

lemma inc_counter_nth: "d < length c \<Longrightarrow> inc_counter d c ! e = (if d = e then (c ! d + 1) mod 2 ^ 32 else c ! e)"
  by (simp add: inc_counter_def)

text \<open>The number of elements with a byte, and the number with a smaller one.\<close>

definition with_digit :: "('a \<Rightarrow> nat) \<Rightarrow> nat \<Rightarrow> 'a list \<Rightarrow> 'a list" where "with_digit digit d xs = filter (\<lambda>x. digit x = d) xs"
definition below_digit :: "('a \<Rightarrow> nat) \<Rightarrow> nat \<Rightarrow> 'a list \<Rightarrow> nat" where "below_digit digit d xs = length (filter (\<lambda>x. digit x < d) xs)"

lemma below_digit_0: "below_digit digit 0 xs = 0" by (simp add: below_digit_def)

lemma below_digit_Suc: "below_digit digit (Suc d) xs = below_digit digit d xs + length (with_digit digit d xs)"
  unfolding below_digit_def with_digit_def by (induction xs) auto

lemma below_digit_le: "below_digit digit d xs \<le> length xs" by (simp add: below_digit_def)

lemma with_digit_snoc: "with_digit digit d (xs @ [x]) = with_digit digit d xs @ (if digit x = d then [x] else [])"
  by (simp add: with_digit_def)

lemma with_digit_le: "length (with_digit digit d xs) \<le> length xs" by (simp add: with_digit_def)

lemma and_255: "(n :: nat) AND 255 = n mod 256" "n AND 255 < (256 :: nat)"
proof -
  have "(n :: nat) AND mask 8 = take_bit 8 n" by (rule take_bit_eq_mask[symmetric])
  then show "(n :: nat) AND 255 = n mod 256" by (simp add: mask_eq_exp_minus_1 take_bit_eq_mod)
  then show "n AND 255 < (256 :: nat)" by simp
qed

lemma radix_count_counts:
  fixes f :: "'a \<Rightarrow> nat" and s :: nat
  assumes "xs \<noteq> []" "length xs < 2 ^ 32"
  defines "da \<equiv> \<lambda>x. drop_bit s (f x) AND 255" and "db \<equiv> \<lambda>x. drop_bit 8 (drop_bit s (f x)) AND 255"
  shows "\<exists>a b m p. radix_count f s xs = (a, b, m, p) \<and> length a = 256 \<and> length b = 256 \<and>
    (\<forall>d < 256. a ! d = length (with_digit da d xs) \<and> b ! d = length (with_digit db d xs)) \<and>
    (\<forall>k. drop_bit k m = 0 \<longleftrightarrow> (\<forall>x \<in> set xs. drop_bit k (drop_bit s (f x)) = drop_bit k (drop_bit s (f (hd xs)))))"
proof -
  define step where "step = (\<lambda>x (a, b, key_diff_mask, prev_key).
         let key = drop_bit s (f x)
         in (inc_counter (key AND 255) a, inc_counter (drop_bit 8 key AND 255) b, key_diff_mask OR (prev_key XOR key), key))"
  define k0 where "k0 = drop_bit s (f (hd xs))"
  have zero_xor: "drop_bit k (x XOR y) = 0 \<longleftrightarrow> drop_bit k x = drop_bit k y" for k and x y :: nat
    by (auto simp: bit_eq_iff bit_drop_bit_eq bit_xor_iff)
  have zero_or: "drop_bit k (x OR y) = 0 \<longleftrightarrow> drop_bit k x = 0 \<and> drop_bit k y = 0" for k and x y :: nat
    by (simp add: drop_bit_or or_eq_0_iff)
  have "\<exists>a b m p. fold step us (replicate 256 0, replicate 256 0, 0, k0) = (a, b, m, p) \<and> length a = 256 \<and> length b = 256 \<and>
      (\<forall>d < 256. a ! d = length (with_digit da d us) \<and> b ! d = length (with_digit db d us)) \<and>
      (\<forall>k. (drop_bit k m = 0 \<longleftrightarrow> (\<forall>x \<in> set us. drop_bit k (drop_bit s (f x)) = drop_bit k k0)) \<and> (drop_bit k m = 0 \<longrightarrow> drop_bit k p = drop_bit k k0))"
    if "length us < 2 ^ 32" for us
    using that
  proof (induction us rule: rev_induct)
    case Nil
    then show ?case by (simp add: with_digit_def)
  next
    case (snoc x us)
    obtain a b m p where ih: "fold step us (replicate 256 0, replicate 256 0, 0, k0) = (a, b, m, p)" "length a = 256" "length b = 256"
      "\<forall>d < 256. a ! d = length (with_digit da d us) \<and> b ! d = length (with_digit db d us)"
      "\<forall>k. (drop_bit k m = 0 \<longleftrightarrow> (\<forall>x \<in> set us. drop_bit k (drop_bit s (f x)) = drop_bit k k0)) \<and> (drop_bit k m = 0 \<longrightarrow> drop_bit k p = drop_bit k k0)"
      using snoc by auto
    have small: "length (with_digit g d us) + 1 < 2 ^ 32" for g :: "'a \<Rightarrow> nat" and d
      using with_digit_le[of g d us] snoc.prems by simp
    have digits: "da x < 256" "db x < 256" by (simp_all add: da_def db_def and_255)
    have F: "fold step (us @ [x]) (replicate 256 0, replicate 256 0, 0, k0) =
        (inc_counter (da x) a, inc_counter (db x) b, m OR (p XOR drop_bit s (f x)), drop_bit s (f x))"
      using ih(1) by (simp add: step_def da_def db_def Let_def)
    have C: "inc_counter (da x) a ! d = length (with_digit da d (us @ [x]))"
      "inc_counter (db x) b ! d = length (with_digit db d (us @ [x]))" if "d < 256" for d
      using ih(2,3,4) digits small[of da d] small[of db d] that by (simp_all add: inc_counter_nth with_digit_snoc)
    have M: "(drop_bit k (m OR (p XOR drop_bit s (f x))) = 0 \<longleftrightarrow> (\<forall>y \<in> set (us @ [x]). drop_bit k (drop_bit s (f y)) = drop_bit k k0)) \<and>
        (drop_bit k (m OR (p XOR drop_bit s (f x))) = 0 \<longrightarrow> drop_bit k (drop_bit s (f x)) = drop_bit k k0)" for k
    proof -
      have "(\<forall>y \<in> set (us @ [x]). drop_bit k (drop_bit s (f y)) = c) \<longleftrightarrow> (\<forall>y \<in> set us. drop_bit k (drop_bit s (f y)) = c) \<and> drop_bit k (drop_bit s (f x)) = c"
        for c by auto
      then show ?thesis unfolding zero_or zero_xor using ih(5)[rule_format, of k] by metis
    qed
    show ?case unfolding F by (intro exI conjI allI impI, rule refl)
        (use ih(2,3) C M in \<open>blast | simp\<close>)+
  qed
  from this[OF assms(2)] obtain a b m p where r: "fold step xs (replicate 256 0, replicate 256 0, 0, k0) = (a, b, m, p)"
    "length a = 256" "length b = 256" "\<forall>d < 256. a ! d = length (with_digit da d xs) \<and> b ! d = length (with_digit db d xs)"
    "\<forall>k. drop_bit k m = 0 \<longleftrightarrow> (\<forall>x \<in> set xs. drop_bit k (drop_bit s (f x)) = drop_bit k k0)"
    by (elim exE conjE) (rule that, assumption+, blast)
  show ?thesis unfolding radix_count_def step_def[symmetric] k0_def[symmetric]
    by (intro exI[of _ a] exI[of _ b] exI[of _ m] exI[of _ p] conjI r)
qed

lemma radix_starts_positions:
  assumes "length c = 256" "\<forall>d < 256. c ! d = length (with_digit digit d xs)" "length xs < 2 ^ 32"
  shows "length (radix_starts c) = 256 \<and> (\<forall>d < 256. radix_starts c ! d = below_digit digit d xs)"
proof -
  have "\<exists>c' t. fold (\<lambda>i (c, t). (c[i := t], (t + c ! i) mod 2 ^ 32)) [0..<n] (c, 0) = (c', t) \<and> length c' = 256 \<and>
      t = below_digit digit n xs \<and> (\<forall>d < n. c' ! d = below_digit digit d xs) \<and> (\<forall>d. n \<le> d \<longrightarrow> c' ! d = c ! d)" if "n \<le> 256" for n
    using that
  proof (induction n)
    case 0
    then show ?case using assms(1) by (simp add: below_digit_0)
  next
    case (Suc n)
    then obtain c' t where ih: "fold (\<lambda>i (c, t). (c[i := t], (t + c ! i) mod 2 ^ 32)) [0..<n] (c, 0) = (c', t)" "length c' = 256"
      "t = below_digit digit n xs" "\<forall>d < n. c' ! d = below_digit digit d xs" "\<forall>d. n \<le> d \<longrightarrow> c' ! d = c ! d" by auto
    have "t + c' ! n = below_digit digit (Suc n) xs" using ih(3,5) assms(2) Suc.prems by (simp add: below_digit_Suc)
    moreover have "below_digit digit (Suc n) xs < 2 ^ 32" using below_digit_le[of digit "Suc n" xs] assms(3) by linarith
    ultimately have "(t + c' ! n) mod 2 ^ 32 = below_digit digit (Suc n) xs" by simp
    then show ?case using ih Suc.prems by (auto simp: nth_list_update less_Suc_eq)
  qed
  from this[of 256] show ?thesis unfolding radix_starts_def by fastforce
qed

subsection \<open>Placing\<close>

lemma below_digit_mono: "d \<le> e \<Longrightarrow> below_digit digit d xs \<le> below_digit digit e xs"
  by (induction e) (auto simp: below_digit_Suc le_Suc_eq)

text \<open>A position belongs to one digit, and to one place among its elements.\<close>

lemma position_exists: "i < below_digit digit n xs \<Longrightarrow> \<exists>d < n. \<exists>j < length (with_digit digit d xs). i = below_digit digit d xs + j"
proof (induction n)
  case (Suc n)
  show ?case
  proof (cases "i < below_digit digit n xs")
    case False
    then have "i = below_digit digit n xs + (i - below_digit digit n xs)" "i - below_digit digit n xs < length (with_digit digit n xs)"
      using Suc.prems by (auto simp: below_digit_Suc)
    then show ?thesis by blast
  qed (use Suc.IH less_SucI in blast)
qed (simp add: below_digit_0)

lemma position_unique:
  assumes "j < length (with_digit digit d xs)" "k < length (with_digit digit e xs)"
    and "below_digit digit d xs + j = below_digit digit e xs + k"
  shows "d = e \<and> j = k"
proof -
  have "\<not> d < e" using below_digit_mono[of "Suc d" e digit xs] assms by (auto simp: below_digit_Suc)
  moreover have "\<not> e < d" using below_digit_mono[of "Suc e" d digit xs] assms by (auto simp: below_digit_Suc)
  ultimately show ?thesis using assms(3) by simp
qed

text \<open>The buckets one after the other, which is the stable order by the digit.\<close>

definition buckets :: "('a \<Rightarrow> nat) \<Rightarrow> nat \<Rightarrow> 'a list \<Rightarrow> 'a list" where
  "buckets digit n xs = concat (map (\<lambda>d. with_digit digit d xs) [0..<n])"

lemma buckets_Suc: "buckets digit (Suc n) xs = buckets digit n xs @ with_digit digit n xs" by (simp add: buckets_def)

lemma buckets_length: "length (buckets digit n xs) = below_digit digit n xs"
  by (induction n) (auto simp: buckets_Suc below_digit_Suc below_digit_0, simp add: buckets_def)

lemma buckets_nth: "d < n \<Longrightarrow> j < length (with_digit digit d xs) \<Longrightarrow> buckets digit n xs ! (below_digit digit d xs + j) = with_digit digit d xs ! j"
proof (induction n)
  case (Suc n)
  show ?case
  proof (cases "d = n")
    case True
    then show ?thesis by (simp add: buckets_Suc nth_append buckets_length)
  next
    case False
    then have "d < n" using Suc.prems by simp
    moreover have "below_digit digit d xs + j < below_digit digit n xs"
      using below_digit_mono[of "Suc d" n digit xs] \<open>d < n\<close> Suc.prems(2) by (simp add: below_digit_Suc)
    ultimately show ?thesis using Suc by (simp add: buckets_Suc nth_append buckets_length)
  qed
qed simp

lemma buckets_sort_key:
  assumes "\<forall>x \<in> set xs. digit x < n"
  shows "buckets digit n xs = sort_key digit xs"
proof -
  have m: "mset (buckets digit k xs) = mset (filter (\<lambda>x. digit x < k) xs)" for k
  proof (induction k)
    case (Suc k)
    have "filter_mset (\<lambda>x. digit x < Suc k) (mset xs) = filter_mset (\<lambda>x. digit x < k) (mset xs) + filter_mset (\<lambda>x. digit x = k) (mset xs)"
      by (induction xs) (auto simp: less_Suc_eq)
    then show ?case using Suc by (simp add: buckets_Suc with_digit_def)
  qed (simp add: buckets_def)
  have f: "filter (\<lambda>x. digit x = c) (buckets digit k xs) = (if c < k then filter (\<lambda>x. digit x = c) xs else [])" for c k
  proof (induction k)
    case (Suc k)
    have "filter (\<lambda>x. digit x = c) (with_digit digit k xs) = (if c = k then filter (\<lambda>x. digit x = c) xs else [])"
      by (auto simp: with_digit_def intro: filter_cong)
    then show ?case using Suc by (auto simp: buckets_Suc)
  qed (simp add: buckets_def)
  have s: "sorted (map digit (buckets digit k xs)) \<and> (\<forall>x \<in> set (buckets digit k xs). digit x < k)" for k
  proof (induction k)
    case (Suc k)
    have "map digit (with_digit digit k xs) = replicate (length (with_digit digit k xs)) k"
      by (rule map_replicate_const[THEN subst[where P = "\<lambda>x. _ = x"]]) (auto simp: with_digit_def)
    then have "sorted (map digit (with_digit digit k xs))" by (metis sorted_replicate)
    then show ?case using Suc by (auto simp: buckets_Suc sorted_append with_digit_def less_SucI)
  qed (simp add: buckets_def)
  have all: "filter (\<lambda>x. digit x < n) xs = xs" using assms by (simp add: filter_id_conv)
  have "sort_key digit xs = buckets digit n xs"
  proof (rule properties_for_sort_key)
    show "mset (buckets digit n xs) = mset xs" using m[of n] all by simp
    show "filter (\<lambda>x. digit k = digit x) (buckets digit n xs) = filter (\<lambda>x. digit k = digit x) xs" if "k \<in> set (buckets digit n xs)" for k
      using f[of "digit k" n] s[of n] that by (simp add: eq_commute)
    show "sorted (map digit (buckets digit n xs))" using s by blast
  qed
  then show ?thesis by simp
qed

lemma radix_place_sorts:
  assumes "length c = 256" "\<forall>d < 256. c ! d = below_digit digit d xs" "\<forall>x \<in> set xs. digit x < 256"
    and "length xs < 2 ^ 32" "length ys = length xs"
  shows "radix_place digit xs c ys = sort_key digit xs"
proof -
  define step where "step = (\<lambda>x (ys, c). (ys[c ! digit x := x], inc_counter (digit x) c))"
  have inv: "\<exists>zs c'. fold step us (ys, c) = (zs, c') \<and> length zs = length xs \<and> length c' = 256 \<and>
      (\<forall>d < 256. c' ! d = below_digit digit d xs + length (with_digit digit d us)) \<and>
      (\<forall>d < 256. \<forall>j < length (with_digit digit d us). zs ! (below_digit digit d xs + j) = with_digit digit d us ! j)"
    if "xs = us @ vs" for us vs
    using that
  proof (induction us arbitrary: vs rule: rev_induct)
    case Nil
    then show ?case using assms by (simp add: with_digit_def)
  next
    case (snoc x us)
    let ?d = "digit x" let ?q = "below_digit digit ?d xs + length (with_digit digit ?d us)"
    obtain zs c' where ih: "fold step us (ys, c) = (zs, c')" "length zs = length xs" "length c' = 256"
      "\<forall>d < 256. c' ! d = below_digit digit d xs + length (with_digit digit d us)"
      "\<forall>d < 256. \<forall>j < length (with_digit digit d us). zs ! (below_digit digit d xs + j) = with_digit digit d us ! j"
      using snoc.IH[of "x # vs"] snoc.prems by auto
    have d: "?d < 256" using assms(3) snoc.prems by simp
    have sub: "length (with_digit digit d us) \<le> length (with_digit digit d xs)" for d using snoc.prems by (simp add: with_digit_def)
    have room: "length (with_digit digit ?d us) < length (with_digit digit ?d xs)" using snoc.prems by (simp add: with_digit_def)
    have q: "?q < length xs"
      using room below_digit_le[of digit "Suc ?d" xs] by (simp add: below_digit_Suc)
    have step: "fold step (us @ [x]) (ys, c) = (zs[?q := x], inc_counter ?d c')" using ih(1,4) d by (simp add: step_def)
    have "inc_counter ?d c' ! e = below_digit digit e xs + length (with_digit digit e (us @ [x]))" if "e < 256" for e
    proof -
      have "(?q + 1) mod 2 ^ 32 = ?q + 1" using q assms(4) by simp
      then show ?thesis using ih(3,4) that d by (cases "e = ?d") (simp_all add: inc_counter_nth with_digit_snoc)
    qed
    moreover have "zs[?q := x] ! (below_digit digit e xs + j) = with_digit digit e (us @ [x]) ! j"
      if "e < 256" "j < length (with_digit digit e (us @ [x]))" for e j
    proof (cases "e = ?d \<and> j = length (with_digit digit ?d us)")
      case True
      then show ?thesis using q ih(2) by (simp add: with_digit_snoc nth_append)
    next
      case False
      then have j: "j < length (with_digit digit e us)" using that(2) by (auto simp: with_digit_snoc split: if_splits)
      then have "below_digit digit e xs + j \<noteq> ?q" using position_unique[of j digit e xs _ ?d] sub[of e] room False by force
      then show ?thesis using ih(5) that(1) j by (simp add: with_digit_snoc nth_append)
    qed
    ultimately show ?case using step ih(2,3) by simp
  qed
  obtain zs c' where zs: "fold step xs (ys, c) = (zs, c')" "length zs = length xs"
    "\<forall>d < 256. \<forall>j < length (with_digit digit d xs). zs ! (below_digit digit d xs + j) = with_digit digit d xs ! j"
    using inv[of xs "[]"] by auto
  have all: "below_digit digit 256 xs = length xs" using assms(3) by (simp add: below_digit_def filter_id_conv)
  have "zs = buckets digit 256 xs"
  proof (rule nth_equalityI)
    show "length zs = length (buckets digit 256 xs)" by (simp add: buckets_length all zs(2))
    fix i assume "i < length zs"
    then obtain d j where "d < 256" "j < length (with_digit digit d xs)" "i = below_digit digit d xs + j"
      using position_exists[of i digit 256 xs] all zs(2) by auto
    then show "zs ! i = buckets digit 256 xs ! i" using zs(3) buckets_nth[of d 256 j digit xs] by simp
  qed
  then show ?thesis using zs(1) buckets_sort_key[OF assms(3)] unfolding radix_place_def step_def by simp
qed

subsection \<open>Sorting by parts of the key\<close>

text \<open>Stable sorting by the lower part and then by the higher is sorting by both.\<close>

lemma sort_key_same_filter: "filter (\<lambda>x. f x = k) (sort_key f xs) = filter (\<lambda>x. f x = k) xs"
  by (rule sort_key_stable)

lemma sorted_by_parts:
  assumes "sorted (map g xs)" "\<And>c. sorted (map f (filter (\<lambda>x. g x = c) xs))" "\<forall>x \<in> set xs. f x < (m :: nat)"
  shows "sorted (map (\<lambda>x. g x * m + f x) xs)"
  using assms
proof (induction xs)
  case (Cons x xs)
  have "g x * m + f x \<le> g y * m + f y" if y: "y \<in> set xs" for y
  proof (cases "g x = g y")
    case True
    then have "f x \<le> f y" using Cons.prems(2)[of "g x"] y by auto
    then show ?thesis using True by simp
  next
    case False
    then have "Suc (g x) \<le> g y" using Cons.prems(1) y by (auto simp: le_less)
    then have "Suc (g x) * m \<le> g y * m" by (rule mult_le_mono1)
    then show ?thesis using Cons.prems(3) by simp
  qed
  moreover have "sorted (map f (filter (\<lambda>x. g x = c) xs))" for c using Cons.prems(2)[of c] by (auto split: if_splits)
  then have "sorted (map (\<lambda>x. g x * m + f x) xs)" using Cons by simp
  ultimately show ?case by simp
qed simp

lemma sort_key_parts:
  assumes "\<forall>x \<in> set xs. f x < (m :: nat)"
  shows "sort_key g (sort_key f xs) = sort_key (\<lambda>x. g x * m + f x) xs"
proof -
  let ?ys = "sort_key g (sort_key f xs)"
  have stable: "filter (\<lambda>x. g x = c) ?ys = filter (\<lambda>x. g x = c) (sort_key f xs)" for c by (rule sort_key_stable)
  have "sort_key (\<lambda>x. g x * m + f x) xs = ?ys"
  proof (rule properties_for_sort_key)
    show "mset ?ys = mset xs" by simp
    show "sorted (map (\<lambda>x. g x * m + f x) ?ys)"
    proof (rule sorted_by_parts)
      show "sorted (map f (filter (\<lambda>x. g x = c) ?ys))" for c unfolding stable by (rule sorted_filter) simp
    qed (use assms in simp_all)
    fix k assume "k \<in> set ?ys"
    then have "f k < m" using assms by simp
    have eq: "(g k * m + f k = g x * m + f x) = (f x = f k \<and> g x = g k)" if "x \<in> set xs" for x
    proof
      assume e: "g k * m + f k = g x * m + f x"
      have "f x < m" using assms that by blast
      then have "g k = (g k * m + f k) div m" "g x = (g x * m + f x) div m" using \<open>f k < m\<close> by simp_all
      then show "f x = f k \<and> g x = g k" using e by simp
    qed simp
    have "filter (\<lambda>x. g k * m + f k = g x * m + f x) ?ys = filter (\<lambda>x. f x = f k) (filter (\<lambda>x. g x = g k) ?ys)"
      unfolding filter_filter by (rule filter_cong) (use eq in auto)
    also have "\<dots> = filter (\<lambda>x. g x = g k) (filter (\<lambda>x. f x = f k) (sort_key f xs))"
      unfolding stable by (simp add: conj_commute)
    also have "\<dots> = filter (\<lambda>x. g x = g k) (filter (\<lambda>x. f x = f k) xs)" by (simp only: sort_key_stable)
    also have "\<dots> = filter (\<lambda>x. g k * m + f k = g x * m + f x) xs" unfolding filter_filter by (rule filter_cong) (use eq in auto)
    finally show "filter (\<lambda>x. g k * m + f k = g x * m + f x) ?ys = filter (\<lambda>x. g k * m + f k = g x * m + f x) xs" .
  qed
  then show ?thesis by simp
qed

text \<open>A part of the key that is the same everywhere does not matter.\<close>

lemma sort_key_common:
  assumes "\<forall>x \<in> set xs. f x = c + g x"
  shows "sort_key f xs = sort_key (g :: 'a \<Rightarrow> nat) xs"
proof (rule properties_for_sort_key)
  show "mset (sort_key g xs) = mset xs" by simp
  show "filter (\<lambda>x. f k = f x) (sort_key g xs) = filter (\<lambda>x. f k = f x) xs" if "k \<in> set (sort_key g xs)" for k
  proof -
    have eq: "f k = f x \<longleftrightarrow> g x = g k" if "x \<in> set xs" for x using assms \<open>k \<in> set (sort_key g xs)\<close> that by auto
    then have "filter (\<lambda>x. f k = f x) (sort_key g xs) = filter (\<lambda>x. g x = g k) (sort_key g xs)" "filter (\<lambda>x. f k = f x) xs = filter (\<lambda>x. g x = g k) xs"
      by (intro filter_cong refl, simp add: eq)+
    then show ?thesis by (simp only: sort_key_stable)
  qed
  have "sorted_wrt (\<lambda>x y. g x \<le> g y) (sort_key g xs)" using sorted_sort_key[of g xs] unfolding sorted_map .
  then have "sorted_wrt (\<lambda>x y. f x \<le> f y) (sort_key g xs)" by (rule sorted_wrt_mono_rel[rotated]) (use assms in simp)
  then show "sorted (map f (sort_key g xs))" by (simp add: sorted_map)
qed

subsection \<open>The loop\<close>

lemma mod_shift_parts: "(n div 2 ^ s) mod 2 ^ w * 2 ^ s + n mod 2 ^ s = n mod (2 ^ (s + w) :: nat)"
proof -
  have "n mod (2 ^ s * 2 ^ w) = 2 ^ s * (n div 2 ^ s mod 2 ^ w) + n mod 2 ^ s" by (rule mod_mult2_eq)
  then show ?thesis by (simp add: power_add mult.commute)
qed

text \<open>One digit of \<open>w\<close> bits on top of the \<open>s\<close> bits that are in order.\<close>

lemma sort_key_digit:
  fixes f :: "'a \<Rightarrow> nat"
  shows "sort_key (\<lambda>x. (f x div 2 ^ s) mod 2 ^ w) (sort_key (\<lambda>x. f x mod 2 ^ s) xs) = sort_key (\<lambda>x. f x mod 2 ^ (s + w)) xs"
  using sort_key_parts[of xs "\<lambda>x. f x mod 2 ^ s" "2 ^ s" "\<lambda>x. (f x div 2 ^ s) mod 2 ^ w"] by (simp add: mod_shift_parts)

lemma sort_key_top:
  fixes f :: "'a \<Rightarrow> nat"
  assumes "\<forall>x \<in> set xs. f x div 2 ^ s = c"
  shows "sort_key (\<lambda>x. f x mod 2 ^ s) xs = sort_key f xs"
proof -
  have "\<forall>x \<in> set xs. f x = c * 2 ^ s + f x mod 2 ^ s" using assms div_mult_mod_eq by metis
  then show ?thesis by (rule sort_key_common[symmetric])
qed

lemma digit_div: "drop_bit s n AND 255 = n div 2 ^ s mod (2 ^ 8 :: nat)" "drop_bit 8 (drop_bit s n) AND 255 = n div 2 ^ (s + 8) mod (2 ^ 8 :: nat)"
  by (simp_all add: and_255 drop_bit_eq_div div_mult2_eq[symmetric] power_add)

lemma radix_loop_sorts:
  assumes "xs \<noteq> []" "length xs < 2 ^ 32" "length tmp = length xs" "\<forall>x \<in> set xs. f x < 2 ^ 64" "s mod 16 = 0" "s < 64"
    and "xs = sort_key (\<lambda>x. f x mod 2 ^ s) zs"
  shows "\<exists>buf. radix_loop f s tmp xs = Some (sort_key f zs, buf) \<and> length buf = length xs"
  using assms
proof (induction f s tmp xs rule: radix_loop.induct)
  case (1 f s tmp xs)
  let ?da = "\<lambda>x. drop_bit s (f x) AND 255" and ?db = "\<lambda>x. drop_bit 8 (drop_bit s (f x)) AND 255"
  obtain a b m p where c: "radix_count f s xs = (a, b, m, p)" "length a = 256" "length b = 256"
    "\<forall>d < 256. a ! d = length (with_digit ?da d xs) \<and> b ! d = length (with_digit ?db d xs)"
    "\<forall>k. drop_bit k m = 0 \<longleftrightarrow> (\<forall>x \<in> set xs. drop_bit k (drop_bit s (f x)) = drop_bit k (drop_bit s (f (hd xs))))"
    using radix_count_counts[OF "1.prems"(1,2), where s = s and f = f] by blast
  have sets: "set xs = set zs" using "1.prems"(7) by simp
  have lens: "length xs = length zs" using "1.prems"(7) by simp
  have same: "\<exists>e. \<forall>x \<in> set zs. f x div 2 ^ (s + k) = e" if "drop_bit k m = 0" for k
    using c(5) that sets by (auto simp: drop_bit_eq_div div_mult2_eq[symmetric] power_add)
  define tmp' where "tmp' = radix_place ?da xs (radix_starts a) tmp"
  have st: "length (radix_starts a) = 256 \<and> (\<forall>d < 256. radix_starts a ! d = below_digit ?da d xs)"
    using radix_starts_positions[OF c(2) _ "1.prems"(2)] c(4) by blast
  have "tmp' = sort_key ?da xs" unfolding tmp'_def
    by (rule radix_place_sorts) (use st "1.prems"(2,3) in \<open>auto simp: and_255\<close>)
  then have t: "tmp' = sort_key (\<lambda>x. f x mod 2 ^ (s + 8)) zs"
    unfolding "1.prems"(7) digit_div(1) by (simp only: sort_key_digit)
  show ?case
  proof (cases "m < 256")
    case True
    then have "drop_bit 8 m = 0" by (simp add: drop_bit_eq_div)
    then obtain e where "\<forall>x \<in> set zs. f x div 2 ^ (s + 8) = e" using same by blast
    then have "tmp' = sort_key f zs" unfolding t by (rule sort_key_top)
    then show ?thesis using True c(1) "1.prems"(1,6) lens by (subst radix_loop.simps) (simp add: tmp'_def Let_def)
  next
    case False
    define xs' where "xs' = radix_place ?db tmp' (radix_starts b) xs"
    have mt: "mset tmp' = mset xs" using t "1.prems"(7) by simp
    have count: "length (with_digit ?db d tmp') = length (with_digit ?db d xs)" for d
      unfolding with_digit_def using mt by (metis mset_filter size_mset)
    have lt: "length tmp' = length xs" using mt by (metis size_mset)
    have st': "length (radix_starts b) = 256 \<and> (\<forall>d < 256. radix_starts b ! d = below_digit ?db d tmp')"
      by (rule radix_starts_positions[OF c(3)]) (use c(4) count lt "1.prems"(2) in auto)
    have "xs' = sort_key ?db tmp'" unfolding xs'_def
      by (rule radix_place_sorts) (use st' lt "1.prems"(2) in \<open>auto simp: and_255\<close>)
    moreover have "s + 8 + 8 = s + 16" by simp
    ultimately have x: "xs' = sort_key (\<lambda>x. f x mod 2 ^ (s + 16)) zs" unfolding t digit_div(2) sort_key_digit by (simp only:)
    show ?thesis
    proof (cases "drop_bit 16 m = 0")
      case True
      then obtain e where "\<forall>x \<in> set zs. f x div 2 ^ (s + 16) = e" using same by blast
      then have "xs' = sort_key f zs" unfolding x by (rule sort_key_top)
      then show ?thesis using True False c(1) "1.prems"(1,6) lt by (subst radix_loop.simps) (simp add: tmp'_def xs'_def Let_def)
    next
      case more: False
      have "s + 16 < 64"
      proof (rule ccontr)
        assume "\<not> s + 16 < 64"
        then have s: "s = 48" using "1.prems"(5,6) by presburger
        have "drop_bit 16 (drop_bit s (f x)) = 0" if "x \<in> set xs" for x
        proof -
          have "f x < 2 ^ 64" using "1.prems"(4) that by blast
          then show ?thesis unfolding s by (simp add: drop_bit_eq_div div_mult2_eq[symmetric])
        qed
        moreover from this have "drop_bit 16 (drop_bit s (f (hd xs))) = 0" using "1.prems"(1) by simp
        ultimately show False using c(5) more by auto
      qed
      moreover have "xs' \<noteq> []" using x lens "1.prems"(1) by (metis length_0_conv length_sort)
      ultimately have "\<exists>buf. radix_loop f (s + 16) tmp' xs' = Some (sort_key f zs, buf) \<and> length buf = length xs"
        using "1.IH"[OF _ c(1)[symmetric] refl refl tmp'_def False xs'_def more] "1.prems" x lt sets lens by auto
      then show ?thesis using more False c(1) "1.prems"(1,6) by (subst radix_loop.simps) (simp add: tmp'_def xs'_def Let_def)
    qed
  qed
qed

lemma radixsort_spec:
  assumes "xs \<noteq> []" "length xs < 2 ^ 32" "length tmp = length xs" "\<forall>x \<in> set xs. key x < 2 ^ 64"
  shows "\<exists>buf. radixsort key tmp xs = Some (sort_key key xs, buf) \<and> length buf = length xs"
proof -
  have "sort_key (\<lambda>x. key x mod 2 ^ 0) xs = xs" by (rule sort_key_id_if_sorted) (simp add: sorted_map)
  then show ?thesis unfolding radixsort_def using radix_loop_sorts[of xs tmp key 0 xs] assms by simp
qed

end
