(* ===== verification/Pnl_Sort.thy ===== *)
theory Pnl_Sort
  imports Pnl_Set Sort_Ops Radix_Ops
begin

text \<open>
  The sorting templates on the code's own lists: quicksort for comparisons by a key, the radix sort as the stable sort by
  its key, and the sort of a page number list, which takes the one or the other by the length.
\<close>

subsection \<open>The sort of a page number list\<close>

definition pnl_key :: "pgno \<Rightarrow> nat" where "pnl_key pgno = P_INVALID - pgno"

text \<open>\<open>None\<close> also when the buffer of the radix sort is not in the block.\<close>

definition pnl_sort_nochk :: "pnl \<Rightarrow> pnl option" where
  "pnl_sort_nochk p =
     (let n = pnl_size p; xs = pnl_list p; cells = slots p
      in if n < MDBX_RADIXSORT_THRESHOLD
         then map_option (\<lambda>ys. p\<lparr>slots := take 1 cells @ ys @ drop (n + 1) cells\<rparr>) (sort_impl (>) xs)
         else if length cells < n + n + 1 then None
         else map_option (\<lambda>(ys, buf). p\<lparr>slots := take 1 cells @ ys @ buf @ drop (n + n + 1) cells\<rparr>)
                (radixsort pnl_key (take n (drop (n + 1) cells)) xs))"

interpretation descending: sort_order "(>) :: nat \<Rightarrow> nat \<Rightarrow> bool"
  by unfold_locales auto

interpretation by_key: sort_order "\<lambda>a b. (key a :: nat) < key b" for key
  by unfold_locales auto

lemma descending_le: "sorted_wrt descending.le ys \<longleftrightarrow> sorted (rev ys)"
proof -
  have "descending.le = (\<lambda>x y. y \<le> x)" by (intro ext) (simp add: descending.le_def not_less)
  then show ?thesis unfolding sorted_wrt_rev by (simp only:)
qed

lemma descending_is: "mset ys = mset xs \<Longrightarrow> sorted (rev ys) \<Longrightarrow> ys = rev (sort xs)"
  by (metis mset_rev properties_for_sort rev_rev_ident)

text \<open>The radix sort by the complement of the number.\<close>

lemma sort_complement:
  assumes "\<forall>x \<in> set xs. x \<le> P_INVALID"
  shows "sort_key pnl_key xs = rev (sort xs)"
proof (rule descending_is)
  have "sorted (map pnl_key (sort_key pnl_key xs))" by simp
  then have "sorted_wrt (\<lambda>x y. pnl_key x \<le> pnl_key y) (sort_key pnl_key xs)" unfolding sorted_map .
  then have "sorted_wrt (\<lambda>x y. y \<le> x) (sort_key pnl_key xs)"
    by (rule sorted_wrt_mono_rel[rotated]) (use assms in \<open>auto simp: pnl_key_def\<close>)
  then show "sorted (rev (sort_key pnl_key xs))" by (simp add: sorted_wrt_rev)
qed simp

lemma pnl_list_replaced:
  assumes "0 < length (slots p)" "length ys = pnl_size p"
  shows "pnl_list (p\<lparr>slots := take 1 (slots p) @ ys @ zs\<rparr>) = ys" "pnl_size (p\<lparr>slots := take 1 (slots p) @ ys @ zs\<rparr>) = pnl_size p"
  using assms by (cases "slots p"; simp add: pnl_list_def pnl_size_def)+

lemma pnl_sort_spec:
  assumes ok: "pnl_ok p" and room: "2 * pnl_size p < length (slots p)" and range: "pnl_size p < 2 ^ 32" "\<forall>x \<in> set (pnl_list p). x \<le> P_INVALID"
  shows "\<exists>q. pnl_sort_nochk p = Some q \<and> pnl_ok q \<and> alloclen q = alloclen p \<and> length (slots q) = length (slots p) \<and>
    pnl_list q = rev (sort (pnl_list p))"
proof -
  let ?n = "pnl_size p" and ?xs = "pnl_list p"
  have len: "length ?xs = ?n" "0 < length (slots p)" "?n + 1 \<le> length (slots p)" using ok by (simp, auto simp: pnl_ok_def)
  have fin: "\<exists>q. Some (p\<lparr>slots := take 1 (slots p) @ rev (sort ?xs) @ zs\<rparr>) = Some q \<and> pnl_ok q \<and> alloclen q = alloclen p \<and>
      length (slots q) = length (slots p) \<and> pnl_list q = rev (sort ?xs)" if "length zs + ?n + 1 = length (slots p)" for zs
    using pnl_list_replaced[of p "rev (sort ?xs)" zs] len that ok by (simp add: pnl_ok_def)
  show ?thesis
  proof (cases "?n < MDBX_RADIXSORT_THRESHOLD")
    case True
    obtain ys where ys: "sort_impl (>) ?xs = Some ys" "mset ys = mset ?xs" "sorted_wrt descending.le ys"
      using descending.sort_impl_sorts[of ?xs] len range(1) by auto
    then have "ys = rev (sort ?xs)" using descending_is descending_le by blast
    then have "pnl_sort_nochk p = Some (p\<lparr>slots := take 1 (slots p) @ rev (sort ?xs) @ drop (?n + 1) (slots p)\<rparr>)"
      using True ys(1) unfolding pnl_sort_nochk_def Let_def by simp
    then show ?thesis using fin[of "drop (?n + 1) (slots p)"] len by simp
  next
    case False
    then have ne: "?xs \<noteq> []" using len(1) by (auto simp: MDBX_RADIXSORT_THRESHOLD_def)
    let ?tmp = "take ?n (drop (?n + 1) (slots p))"
    have t: "length ?tmp = length ?xs" using room len by simp
    have k: "\<forall>x \<in> set ?xs. pnl_key x < 2 ^ 64" by (auto simp: pnl_key_def P_INVALID_def intro: le_less_trans[OF diff_le_self])
    obtain buf where buf: "radixsort pnl_key ?tmp ?xs = Some (sort_key pnl_key ?xs, buf)" "length buf = length ?xs"
      using radixsort_spec[OF ne _ t k] len range(1) by auto
    then have "pnl_sort_nochk p = Some (p\<lparr>slots := take 1 (slots p) @ rev (sort ?xs) @ (buf @ drop (?n + ?n + 1) (slots p))\<rparr>)"
      using False room sort_complement[OF range(2)] unfolding pnl_sort_nochk_def Let_def by simp
    then show ?thesis using fin[of "buf @ drop (?n + ?n + 1) (slots p)"] buf(2) len room by simp
  qed
qed

text \<open>
  C31. Quicksort with networks sorts by every key: no access leaves the array, the stack of 64 ranges never overflows, and
  the result has the same elements in order.
\<close>

theorem sort_impl_by_key:
  assumes "length xs < 2 ^ 64"
  shows "\<exists>ys. sort_impl (\<lambda>a b. (key a :: nat) < key b) xs = Some ys \<and> mset ys = mset xs \<and> sorted (map key ys)"
proof -
  have "sort_order.le (\<lambda>a b. key a < key b) = (\<lambda>x y. key x \<le> key y)" by (intro ext) (simp add: by_key.le_def not_less)
  then show ?thesis using by_key.sort_impl_sorts[OF assms, of key] unfolding sorted_map by (simp only:)
qed

theorem sort_impl_by_key_witness: "\<exists>ys. sort_impl (\<lambda>a b. (id a :: nat) < id b) [2, 3, 1] = Some ys \<and> sorted (map id ys)"
  using sort_impl_by_key[of "[2, 3, 1]" id] by auto

text \<open>
  C32. The radix sort is the stable sort by the key, for keys of 64 bits, whatever is in the buffer.
\<close>

theorem radixsort_stable:
  assumes "xs \<noteq> []" "length xs < 2 ^ 32" "length tmp = length xs" "\<forall>x \<in> set xs. key x < 2 ^ 64"
  shows "\<exists>buf. radixsort key tmp xs = Some (sort_key key xs, buf) \<and> length buf = length xs"
  using assms by (rule radixsort_spec)

theorem radixsort_stable_witness:
  "\<exists>buf. radixsort (\<lambda>x. x div 2) [0, 0, 0] [5, 4, 300] = Some ([5, 4, 300], buf)"
  using radixsort_stable[of "[5, 4, 300]" "[0, 0, 0]" "\<lambda>x. x div 2"] by auto

text \<open>
  C33. Sorting a page number list puts its numbers in descending order, by either sort, and keeps the list in its block.
\<close>

theorem pnl_sort_descends:
  assumes "pnl_ok p" "2 * pnl_size p < length (slots p)" "pnl_size p < 2 ^ 32" "\<forall>x \<in> set (pnl_list p). x \<le> P_INVALID"
  shows "\<exists>q. pnl_sort_nochk p = Some q \<and> pnl_ok q \<and> alloclen q = alloclen p \<and> length (slots q) = length (slots p) \<and>
    pnl_list q = rev (sort (pnl_list p))"
  using assms by (rule pnl_sort_spec)

theorem pnl_sort_descends_witness:
  "\<exists>q. pnl_sort_nochk \<lparr>alloclen = 4, slots = [3, 4, 9, 6, 0, 0, 0, 0]\<rparr> = Some q \<and> pnl_list q = [9, 6, 4]"
  using pnl_sort_descends[of "\<lparr>alloclen = 4, slots = [3, 4, 9, 6, 0, 0, 0, 0]\<rparr>"]
  by (auto simp: pnl_ok_def pnl_size_def pnl_list_def P_INVALID_def)

end
