(* ===== verification/Dpl.thy ===== *)
theory Dpl
  imports Search Sort Radix Pnl
begin

text \<open>
  The list of dirty pages of a writing transaction (\<^verbatim>\<open>dpl_t\<close>): an array whose head is sorted by page number and whose
  tail is not, with a stub before the first entry and one behind the last. The array is kept whole, with the room behind
  the entries that the sorting uses. A pointer to a page is its address, and nothing is read through it. The block never grows by a write: a copy that does not
  fit into it, and a merge that leaves it, is \<open>None\<close>, as is what the sorting templates call an error of memory. Entries cache the number of pages
  (\<^verbatim>\<open>MDBX_DPL_CACHE_NPAGES = 1\<close>) and the room is preallocated (\<^verbatim>\<open>MDBX_DPL_PREALLOC_FOR_RADIXSORT = 1\<close>).
\<close>

unbundle bit_operations_syntax

subsection \<open>State\<close>

record dp =
  dp_ptr :: nat
  dp_pgno :: pgno
  dp_npages :: nat

record dpl =
  dl_sorted :: nat
  dl_length :: nat
  dl_pages_including_loose :: nat
  dl_detent :: nat
  dl_items :: "dp list"

definition dpl_gap_edging :: nat where "dpl_gap_edging = 2"
definition dpl_gap_mergesort :: nat where "dpl_gap_mergesort = 16"
definition dpl_reserve_gap :: nat where "dpl_reserve_gap = dpl_gap_mergesort + dpl_gap_edging"
definition dpl_insertion_threshold :: nat where "dpl_insertion_threshold = 42"

text \<open>The addresses of the two static stub pages.\<close>

definition dpl_stub_pageB :: nat where "dpl_stub_pageB = 1"
definition dpl_stub_pageE :: nat where "dpl_stub_pageE = 2"

definition dpl_list :: "dpl \<Rightarrow> dp list" where "dpl_list dl = take (dl_length dl) (drop 1 (dl_items dl))"

definition dpl_setlen :: "nat \<Rightarrow> dpl \<Rightarrow> dpl" where
  "dpl_setlen len dl =
     dl\<lparr>dl_length := len, dl_items := (dl_items dl)[len + 1 := \<lparr>dp_ptr = dpl_stub_pageE, dp_pgno = P_INVALID, dp_npages = 1\<rparr>]\<rparr>"

definition dpl_init :: "dpl \<Rightarrow> dpl" where
  "dpl_init dl =
     (let dl = dl\<lparr>dl_pages_including_loose := 0,
                  dl_items := (dl_items dl)[0 := \<lparr>dp_ptr = dpl_stub_pageB, dp_pgno = 0, dp_npages = 1\<rparr>]\<rparr>
      in (dpl_setlen 0 dl)\<lparr>dl_sorted := 0\<rparr>)"

definition dpl_npages :: "dpl \<Rightarrow> nat \<Rightarrow> nat" where "dpl_npages dl i = dp_npages (dl_items dl ! i)"

definition dpl_endpgno :: "dpl \<Rightarrow> nat \<Rightarrow> pgno" where
  "dpl_endpgno dl i = (dpl_npages dl i + dp_pgno (dl_items dl ! i)) mod 2 ^ 32"

subsection \<open>Allocation\<close>

text \<open>
  The block of \<^verbatim>\<open>osal_realloc\<close>: the cells for entries behind the 32 bytes of the other fields, or no block. Documented:
  it has the bytes asked for, and the content of the old one as far as both reach.
\<close>

type_synonym dp_allocator = "nat \<Rightarrow> dp list option"

definition dp_malloc_ok :: "dp_allocator \<Rightarrow> bool" where
  "dp_malloc_ok alloc \<longleftrightarrow> (\<forall>bytes blk. alloc bytes = Some blk \<longrightarrow> bytes \<le> 32 + 16 * length blk)"

definition sizeof_dpl :: nat where "sizeof_dpl = 32 + 16 * dpl_reserve_gap"

definition dpl_size2bytes :: "nat \<Rightarrow> nat" where
  "dpl_size2bytes sz =
     (let sz = sz + sz in ceil_powerof2 (16 + sizeof_dpl + sz * 16) (MDBX_PNL_GRANULATE * 8 * 2) - 16)"

definition dpl_bytes2size :: "nat \<Rightarrow> nat" where
  "dpl_bytes2size bytes = drop_bit 1 ((bytes - sizeof_dpl) div 16)"

definition txn_dpl_reserve :: "dp_allocator \<Rightarrow> dpl option \<Rightarrow> nat \<Rightarrow> dpl option" where
  "txn_dpl_reserve alloc dirtylist sz =
     (case alloc (dpl_size2bytes (if sz < PAGELIST_LIMIT then sz else PAGELIST_LIMIT)) of
        None \<Rightarrow> None
      | Some blk \<Rightarrow>
          let old = (case dirtylist of None \<Rightarrow> [] | Some dl \<Rightarrow> dl_items dl);
              dl = (case dirtylist of
                      None \<Rightarrow> \<lparr>dl_sorted = 0, dl_length = 0, dl_pages_including_loose = 0, dl_detent = 0, dl_items = []\<rparr>
                    | Some dl \<Rightarrow> dl)
          in Some (dl\<lparr>dl_items := take (length blk) old @ drop (length old) blk,
                      dl_detent := dpl_bytes2size (32 + 16 * length blk)\<rparr>))"

definition txn_dpl_alloc :: "dp_allocator \<Rightarrow> bool \<Rightarrow> nat \<Rightarrow> pgno \<Rightarrow> dpl option \<Rightarrow> rc \<times> dpl option" where
  "txn_dpl_alloc alloc nested dp_initial upper dirtylist =
     (let wanna = (if \<not> nested then if dp_initial < upper then dp_initial else upper else CURSOR_STACK_SIZE);
          fits = (case dirtylist of None \<Rightarrow> False | Some dl \<Rightarrow> \<not> (dl_detent dl < wanna \<or> wanna + wanna < dl_detent dl))
      in if fits then (MDBX_SUCCESS, map_option dpl_init dirtylist)
         else case txn_dpl_reserve alloc dirtylist wanna of
             None \<Rightarrow> (MDBX_ENOMEM, dirtylist)
           | Some dl \<Rightarrow> (MDBX_SUCCESS, Some (dpl_init dl)))"

subsection \<open>Sorting\<close>

definition DP_SORT_CMP :: "dp \<Rightarrow> dp \<Rightarrow> bool" where "DP_SORT_CMP a b \<longleftrightarrow> dp_pgno a < dp_pgno b"

text \<open>A copy into the block; \<open>None\<close> when a cell of it is outside.\<close>

definition overwritten :: "nat \<Rightarrow> 'a list \<Rightarrow> 'a list \<Rightarrow> 'a list" where
  "overwritten i xs ys = take i ys @ xs @ drop (i + length xs) ys"

definition overwrite :: "nat \<Rightarrow> 'a list \<Rightarrow> 'a list \<Rightarrow> 'a list option" where
  "overwrite i xs ys = (if i + length xs \<le> length ys then Some (overwritten i xs ys) else None)"

text \<open>
  The merge of two sorted parts, from the end of the array to its begin; \<open>None\<close> when it reads or writes outside the block.
\<close>

function dpl_merge :: "nat \<Rightarrow> nat \<Rightarrow> nat \<Rightarrow> dp list \<Rightarrow> dp list option" where
  "dpl_merge w l r items =
     (if length items \<le> w \<or> length items \<le> l \<or> length items \<le> r then None
      else let cmp = dp_pgno (items ! r) < dp_pgno (items ! l);
               items = items[w := if cmp then items ! l else items ! r];
               l = (if cmp then l - 1 else l); r = (if cmp then r else r - 1); w = w - 1
           in if l < w then dpl_merge w l r items else Some items)"
  by pat_completeness auto
termination
  by (relation "measure (\<lambda>(w, l, r, items). w)") auto

declare dpl_merge.simps [simp del]

definition txn_dpl_sort_slowpath :: "dpl \<Rightarrow> dpl option" where
  "txn_dpl_sort_slowpath dl =
     (let len = dl_length dl; head = dl_sorted dl; unsorted = len - head; items = dl_items dl
      in case if unsorted < MDBX_RADIXSORT_THRESHOLD
              then if unsorted div 4 + 4 < head
                   then let e = len + len + 1; tmp = e - unsorted
                        in case sort_impl DP_SORT_CMP (take unsorted (drop (1 + head) items)) of
                             None \<Rightarrow> None
                           | Some xs \<Rightarrow> Option.bind (overwrite tmp xs items) (dpl_merge len head (e - 1))
                   else Option.bind (sort_impl DP_SORT_CMP (dpl_list dl)) (\<lambda>xs. overwrite 1 xs items)
              else let tmp = 1 + len + 1
                   in if length items < tmp + len then None
                      else case radixsort dp_pgno (take len (drop tmp items)) (dpl_list dl) of
                             None \<Rightarrow> None
                           | Some (xs, buf) \<Rightarrow> Option.bind (overwrite 1 xs items) (overwrite tmp buf) of
           None \<Rightarrow> None
         | Some items \<Rightarrow> Some (dl\<lparr>dl_items := items, dl_sorted := len\<rparr>))"

definition txn_dpl_sort :: "dpl \<Rightarrow> dpl option" where
  "txn_dpl_sort dl = (if dl_sorted dl = dl_length dl then Some dl else txn_dpl_sort_slowpath dl)"

subsection \<open>Searching\<close>

definition DP_SEARCH_CMP :: "dp \<Rightarrow> pgno \<Rightarrow> bool" where "DP_SEARCH_CMP d pgno \<longleftrightarrow> dp_pgno d < pgno"

definition dp_bsearch :: "dpl \<Rightarrow> pgno \<Rightarrow> nat" where
  "dp_bsearch dl pgno = 1 + search_impl True DP_SEARCH_CMP (take (dl_sorted dl) (drop 1 (dl_items dl))) pgno"

text \<open>A tail of at most seven is scanned, a longer one is sorted into the head first.\<close>

definition txn_dpl_search :: "dpl \<Rightarrow> pgno \<Rightarrow> (nat \<times> dpl) option" where
  "txn_dpl_search dl pgno =
     (let unsorted = dl_length dl - dl_sorted dl
      in if 7 < unsorted then map_option (\<lambda>dl. (dp_bsearch dl pgno, dl)) (txn_dpl_sort_slowpath dl)
         else case find (\<lambda>i. dp_pgno (dl_items dl ! i) = pgno) [dl_sorted dl + 1..<dl_length dl + 1] of
             Some i \<Rightarrow> Some (i, dl)
           | None \<Rightarrow> Some (dp_bsearch dl pgno, dl))"

definition txn_dpl_exist :: "dpl \<Rightarrow> pgno \<Rightarrow> (nat \<times> dpl) option" where
  "txn_dpl_exist dl pgno =
     map_option (\<lambda>(i, dl). (if dp_pgno (dl_items dl ! i) = pgno then i else 0, dl)) (txn_dpl_search dl pgno)"

definition debug_txn_dpl_find :: "dpl \<Rightarrow> pgno \<Rightarrow> nat option" where
  "debug_txn_dpl_find dl pgno =
     (case find (\<lambda>i. dp_pgno (dl_items dl ! i) = pgno) (rev [dl_sorted dl + 1..<dl_length dl + 1]) of
        Some i \<Rightarrow> Some (dp_ptr (dl_items dl ! i))
      | None \<Rightarrow>
          if dl_sorted dl = 0 then None
          else let i = dp_bsearch dl pgno
               in if dp_pgno (dl_items dl ! i) = pgno then Some (dp_ptr (dl_items dl ! i)) else None)"

definition txn_dpl_intersect :: "dpl \<Rightarrow> pgno \<Rightarrow> nat \<Rightarrow> (bool \<times> dpl) option" where
  "txn_dpl_intersect dl pgno npages =
     map_option (\<lambda>(n, dl). (dp_pgno (dl_items dl ! n) < pgno + npages \<or> pgno < dpl_endpgno dl (n - 1), dl)) (txn_dpl_search dl pgno)"

subsection \<open>Changing the list\<close>

definition txn_dpl_remove_ex :: "nat \<Rightarrow> nat \<Rightarrow> dpl \<Rightarrow> dpl option" where
  "txn_dpl_remove_ex i npages dl =
     (let len = dl_length dl - 1; n = len + 2 - i
      in if length (dl_items dl) < i + 1 + n then None
         else map_option (\<lambda>items. dl\<lparr>dl_pages_including_loose := sub64 (dl_pages_including_loose dl) npages,
                                  dl_sorted := dl_sorted dl - (if i \<le> dl_sorted dl then 1 else 0), dl_length := len,
                                  dl_items := items\<rparr>)
                (overwrite i (take n (drop (i + 1) (dl_items dl))) (dl_items dl)))"

definition txn_dpl_remove :: "nat \<Rightarrow> dpl \<Rightarrow> dpl option" where
  "txn_dpl_remove i dl = txn_dpl_remove_ex i (dpl_npages dl i) dl"

text \<open>Shifting the tail, then the sorted entries that are greater; the index is of the last entry that stays.\<close>

fun dpl_shift_tail :: "nat \<Rightarrow> dp list \<Rightarrow> nat \<Rightarrow> dp list \<times> nat" where
  "dpl_shift_tail head items 0 = (items, 0)"
| "dpl_shift_tail head items (Suc i) =
     (if head \<le> Suc i then dpl_shift_tail head (items[Suc i + 1 := items ! Suc i]) i else (items, Suc i))"

fun dpl_shift_greater :: "pgno \<Rightarrow> dp list \<Rightarrow> nat \<Rightarrow> dp list \<times> nat" where
  "dpl_shift_greater pgno items 0 = (items, 0)"
| "dpl_shift_greater pgno items (Suc i) =
     (if pgno < dp_pgno (items ! Suc i) then dpl_shift_greater pgno (items[Suc i + 1 := items ! Suc i]) i else (items, Suc i))"

definition dpl_insert :: "dp \<Rightarrow> dpl \<Rightarrow> dpl" where
  "dpl_insert d dl =
     (let i = dl_length dl; items = dl_items dl;
          pivot = int i - int dpl_insertion_threshold;
          pivot_pgno = dp_pgno (items ! (if i < dpl_insertion_threshold then 0 else i - dpl_insertion_threshold));
          items = items[i + 2 := items ! (i + 1)];
          near = (pivot \<le> int (dl_sorted dl) \<and> pivot_pgno < dp_pgno d);
          head = (if near then dl_sorted dl + 1 else dl_sorted dl);
          (items, i) = (if near then case dpl_shift_tail head items i of (items, i) \<Rightarrow> dpl_shift_greater (dp_pgno d) items i
                        else (items, i))
      in dl\<lparr>dl_pages_including_loose := (dl_pages_including_loose dl + dp_npages d) mod 2 ^ 64, dl_length := dl_length dl + 1,
            dl_sorted := head, dl_items := items[i + 1 := d]\<rparr>)"

text \<open>
  Growing when the list is full, then inserting. The mark of the last use, which the code stores in front of the page's
  memory, is not part of the list.
\<close>

definition txn_dpl_append :: "dp_allocator \<Rightarrow> dp \<Rightarrow> dpl \<Rightarrow> rc \<times> dpl" where
  "txn_dpl_append alloc d dl =
     (if dl_length dl = dl_detent dl
      then if PAGELIST_LIMIT \<le> dl_detent dl then (MDBX_TXN_FULL, dl)
           else let sz = (if dl_detent dl < MDBX_PNL_INITIAL * 42 then dl_detent dl + dl_detent dl
                            else dl_detent dl + dl_detent dl div 2)
                in case txn_dpl_reserve alloc (Some dl) sz of
                     None \<Rightarrow> (MDBX_ENOMEM, dl)
                   | Some dl \<Rightarrow> (MDBX_SUCCESS, dpl_insert d dl)
      else (MDBX_SUCCESS, dpl_insert d dl))"

text \<open>
  Dropping what a list of page numbers names, the numbers ascending: the list of a nested transaction that spilled pages
  keeps them doubled, with a bit of its own. The pages given up are returned, for the memory of their copies.
\<close>

function dpl_sift_scan :: "nat \<Rightarrow> dpl \<Rightarrow> pgno list \<Rightarrow> nat \<Rightarrow> (nat \<times> pgno list) option" where
  "dpl_sift_scan spilled dl ps r =
     (case ps of [] \<Rightarrow> None
      | p # qs \<Rightarrow>
          if dl_length dl < r then None
          else let pl_pgno = drop_bit spilled p; dp_pgno = dp_pgno (dl_items dl ! r)
            in if dp_pgno = pl_pgno then Some (r, ps)
               else if dp_pgno < pl_pgno then dpl_sift_scan spilled dl ps (r + 1)
               else dpl_sift_scan spilled dl qs r)"
  by pat_completeness auto
termination
  by (relation "measure (\<lambda>(spilled, dl, ps, r). dl_length dl + 1 - r + length ps)") auto

declare dpl_sift_scan.simps [simp del]

function dpl_sift_update :: "nat \<Rightarrow> nat \<Rightarrow> pgno list \<Rightarrow> nat \<Rightarrow> nat \<Rightarrow> dp list \<Rightarrow> nat \<Rightarrow> dp list \<Rightarrow> nat \<times> nat \<times> dp list \<times> nat \<times> dp list" where
  "dpl_sift_update spilled len ps w r items pages released =
     (if len < r then (w, r, items, pages, released)
      else case ps of
          [] \<Rightarrow> dpl_sift_update spilled len [] (w + 1) (r + 1) (items[w := items ! r]) pages released
        | p # qs \<Rightarrow>
            let pl_pgno = drop_bit spilled p; dp_pgno = dp_pgno (items ! r)
            in if dp_pgno < pl_pgno then dpl_sift_update spilled len ps (w + 1) (r + 1) (items[w := items ! r]) pages released
               else if pl_pgno < dp_pgno then dpl_sift_update spilled len qs w r items pages released
               else dpl_sift_update spilled len qs w (r + 1) items (sub64 pages (dp_npages (items ! r))) (released @ [items ! r]))"
  by pat_completeness auto
termination
  by (relation "measure (\<lambda>(spilled, len, ps, w, r, items, pages, released). len + 1 - r + length ps)") auto

declare dpl_sift_update.simps [simp del]

definition txn_dpl_sift :: "pnl \<Rightarrow> bool \<Rightarrow> nat \<Rightarrow> dpl \<Rightarrow> (dpl \<times> nat \<times> dp list) option" where
  "txn_dpl_sift pl spilled dirtyroom dl =
     (if pnl_size pl = 0 \<or> dl_length dl = 0 then Some (dl, dirtyroom, [])
      else let sh = of_bool spilled; ps = rev (pnl_list pl)
        in case txn_dpl_sort dl of None \<Rightarrow> None
         | Some dl \<Rightarrow>
             (case txn_dpl_search dl (drop_bit sh (hd ps)) of None \<Rightarrow> None
              | Some (r, dl) \<Rightarrow>
                  (case dpl_sift_scan sh dl ps r of None \<Rightarrow> Some (dl, dirtyroom, [])
                   | Some (r, ps) \<Rightarrow>
                       (case dpl_sift_update sh (dl_length dl) ps r r (dl_items dl) (dl_pages_including_loose dl) [] of
                          (w, r, items, pages, released) \<Rightarrow>
                            Some ((dpl_setlen (w - 1) (dl\<lparr>dl_items := items, dl_pages_including_loose := pages\<rparr>))\<lparr>dl_sorted := w - 1\<rparr>,
                                  dirtyroom + (r - w), released)))))"

text \<open>Emptying the list; the pages whose memory is given back unless the transaction is nested or works in the map.\<close>

definition txn_dpl_clear :: "bool \<Rightarrow> dpl \<Rightarrow> dpl \<times> dp list" where
  "txn_dpl_clear shadows dl = ((dpl_setlen 0 dl)\<lparr>dl_sorted := 0\<rparr>, if shadows then dpl_list dl else [])"

end
