(* ===== verification/Dpl_Set.thy ===== *)
theory Dpl_Set
  imports Dpl Sort_Ops Radix_Ops
begin

text \<open>
  What holds of a list of dirty pages between its operations, and its sorting and searching: whichever way the sort takes,
  the entries are the same ones in ascending order, and a search finds an entry in the head or in the tail.
\<close>

unbundle bit_operations_syntax

subsection \<open>The invariant\<close>

abbreviation ascending :: "dp list \<Rightarrow> bool" where "ascending ds \<equiv> sorted_wrt DP_SORT_CMP ds"

text \<open>
  The stubs are in place, the entries are apart and their head ascends; the array has the room that sorting uses.
\<close>

definition dpl_ok :: "dpl \<Rightarrow> bool" where
  "dpl_ok dl \<longleftrightarrow>
     dl_sorted dl \<le> dl_length dl \<and> dl_length dl \<le> dl_detent dl \<and> 0 < dl_detent dl \<and>
     2 * dl_detent dl + dpl_reserve_gap \<le> length (dl_items dl) \<and>
     dp_pgno (dl_items dl ! 0) = 0 \<and> dp_npages (dl_items dl ! 0) = 1 \<and> dp_pgno (dl_items dl ! (dl_length dl + 1)) = P_INVALID \<and>
     distinct (map dp_pgno (dpl_list dl)) \<and> (\<forall>d \<in> set (dpl_list dl). 0 < dp_pgno d \<and> dp_pgno d < P_INVALID) \<and>
     ascending (take (dl_sorted dl) (dpl_list dl))"

lemma dpl_reserve_gap_eq: "dpl_reserve_gap = 18"
  by (simp add: dpl_reserve_gap_def dpl_gap_mergesort_def dpl_gap_edging_def)

lemma dpl_room:
  assumes "dpl_ok dl"
  shows "2 * dl_length dl + 18 \<le> length (dl_items dl)" "length (dpl_list dl) = dl_length dl" "dl_length dl < 2 ^ 32"
proof -
  show r: "2 * dl_length dl + 18 \<le> length (dl_items dl)" using assms by (auto simp: dpl_ok_def dpl_reserve_gap_eq)
  then show n: "length (dpl_list dl) = dl_length dl" by (simp add: dpl_list_def)
  have "dp_pgno ` set (dpl_list dl) \<subseteq> {1..<P_INVALID}" using assms by (auto simp: dpl_ok_def)
  then have "card (dp_pgno ` set (dpl_list dl)) \<le> card {1..<P_INVALID}" by (intro card_mono) simp_all
  moreover have "card (dp_pgno ` set (dpl_list dl)) = dl_length dl"
    using distinct_card[of "map dp_pgno (dpl_list dl)"] assms n by (simp add: dpl_ok_def)
  ultimately show "dl_length dl < 2 ^ 32" by (simp add: P_INVALID_def)
qed

text \<open>The array in its parts.\<close>

definition dpl_rest :: "dpl \<Rightarrow> dp list" where "dpl_rest dl = drop (dl_length dl + 2) (dl_items dl)"

lemma dpl_parts:
  assumes "dpl_ok dl"
  shows "dl_items dl = (dl_items dl ! 0) # dpl_list dl @ (dl_items dl ! (dl_length dl + 1)) # dpl_rest dl"
proof -
  let ?I = "dl_items dl" and ?n = "dl_length dl"
  have n: "?n + 1 < length ?I" using dpl_room(1)[OF assms] by simp
  have "?I = ?I ! 0 # drop 1 ?I" using n by (cases ?I) auto
  moreover have "drop 1 ?I = take ?n (drop 1 ?I) @ drop (?n + 1) ?I"
    by (metis append_take_drop_id drop_drop)
  moreover have "drop (?n + 1) ?I = ?I ! (?n + 1) # drop (?n + 2) ?I" using Cons_nth_drop_Suc[OF n] by simp
  ultimately show ?thesis unfolding dpl_list_def dpl_rest_def by metis
qed

lemma dpl_listI:
  assumes "dl_items dl = b # ds @ e # rest" "length ds = dl_length dl"
  shows "dpl_list dl = ds" "dl_items dl ! 0 = b" "dl_items dl ! (dl_length dl + 1) = e" "dpl_rest dl = rest"
  using assms by (simp_all add: dpl_list_def dpl_rest_def nth_append)

lemma dpl_nth: "dpl_ok dl \<Longrightarrow> 0 < i \<Longrightarrow> i \<le> dl_length dl \<Longrightarrow> dl_items dl ! i = dpl_list dl ! (i - 1)"
  using dpl_room(1)[of dl] by (simp add: dpl_list_def)

text \<open>How a list that has new entries meets the invariant.\<close>

lemma dpl_okI:
  assumes ok: "dpl_ok dl" and parts: "dl_items dl' = b # ds @ e # rest" "length ds = dl_length dl'"
    and "dp_pgno b = 0" "dp_npages b = 1" "dp_pgno e = P_INVALID" "dl_length dl' \<le> dl_detent dl'" "dl_sorted dl' \<le> dl_length dl'"
    and "dl_detent dl \<le> dl_detent dl'" "2 * dl_detent dl' + 18 \<le> length (dl_items dl')"
    and "distinct (map dp_pgno ds)" "\<forall>d \<in> set ds. 0 < dp_pgno d \<and> dp_pgno d < P_INVALID" "ascending (take (dl_sorted dl') ds)"
  shows "dpl_ok dl'"
  unfolding dpl_ok_def dpl_listI[OF parts] using assms by (simp add: dpl_ok_def dpl_reserve_gap_eq)

subsection \<open>Sorting\<close>

interpretation dp_order: sort_order DP_SORT_CMP
  by unfold_locales (auto simp: DP_SORT_CMP_def)

lemma ascending_iff: "ascending ds \<longleftrightarrow> sorted (map dp_pgno ds) \<and> distinct (map dp_pgno ds)"
proof -
  have "DP_SORT_CMP = (\<lambda>x y. dp_pgno x < dp_pgno y)" by (intro ext) (simp add: DP_SORT_CMP_def)
  then have "ascending ds \<longleftrightarrow> sorted_wrt (<) (map dp_pgno ds)" unfolding sorted_wrt_map by (simp only:)
  then show ?thesis by (simp only: strict_sorted_iff)
qed

lemma dp_le: "sorted_wrt dp_order.le ds \<longleftrightarrow> sorted (map dp_pgno ds)"
proof -
  have "dp_order.le = (\<lambda>x y. dp_pgno x \<le> dp_pgno y)" by (intro ext) (simp add: dp_order.le_def DP_SORT_CMP_def not_less)
  then show ?thesis unfolding sorted_map by (simp only:)
qed

lemma overwrite_inside: "i + length xs \<le> length ys \<Longrightarrow> overwrite i xs ys = Some (overwritten i xs ys)"
  by (simp add: overwrite_def)

lemma overwrite_list: "length xs = length ds \<Longrightarrow> overwrite 1 xs (b # ds @ vs) = Some (b # xs @ vs)"
  by (simp add: overwrite_def overwritten_def)

lemma overwritten_behind:
  assumes "i = length us"
  shows "overwritten i xs (us @ vs) = us @ overwritten 0 xs vs"
  by (simp add: overwritten_def assms)

text \<open>The merge. What it has not yet filled is as long as what is left of the right part.\<close>

lemma dpl_merge_merges:
  assumes "length gap = length rs" "rs \<noteq> []" "ascending ls" "ascending rs" "\<forall>r \<in> set rs. dp_pgno z < dp_pgno r"
    and "w = length ls + length gap" "l = length ls" "r = length ls + length gap + length mid + length rs"
    and "distinct (map dp_pgno (ls @ rs))"
  shows "\<exists>ms. dpl_merge w l r (z # ls @ gap @ mid @ rs @ rest) = Some (z # ms @ mid @ rs @ rest) \<and> mset ms = mset (ls @ rs) \<and> ascending ms"
  using assms
proof (induction "length ls + length rs" arbitrary: ls gap mid rs rest w l r rule: less_induct)
  case less
  obtain gs g where gap: "gap = gs @ [g]" using less.prems(1,2) by (metis length_0_conv rev_exhaust)
  obtain us u where rs: "rs = us @ [u]" using less.prems(2) by (metis rev_exhaust)
  let ?items = "z # ls @ gap @ mid @ rs @ rest"
  have inside: "\<not> (length ?items \<le> w \<or> length ?items \<le> l \<or> length ?items \<le> r)"
    unfolding less.prems(6,7,8) by (simp add: rs gap)
  have u: "?items ! r = u" unfolding less.prems(8) rs by (simp add: nth_append)
  have len: "length gs = length us" using less.prems(1) by (simp add: gap rs)
  have big: "\<forall>x \<in> set us. dp_pgno x < dp_pgno u" using less.prems(4) by (auto simp: rs sorted_wrt_append DP_SORT_CMP_def)
  show ?case
  proof (cases "ls \<noteq> [] \<and> dp_pgno u < dp_pgno (last ls)")
    case True
    then obtain ks k where ls: "ls = ks @ [k]" by (metis rev_exhaust)
    have k: "?items ! l = k" unfolding less.prems(7) ls by (simp add: nth_append)
    have items: "?items[w := k] = z # ks @ (k # gs) @ (k # mid) @ rs @ rest"
      unfolding less.prems(6) ls gap by (simp add: list_update_append)
    have step: "dpl_merge w l r ?items = dpl_merge (w - 1) (l - 1) r (z # ks @ (k # gs) @ (k # mid) @ rs @ rest)"
    proof -
      have "dp_pgno u < dp_pgno k" "l - 1 < w - 1" using True less.prems(6,7) by (simp_all add: ls gap)
      then show ?thesis by (subst dpl_merge.simps) (simp only: inside Let_def u k items if_True if_False)
    qed
    have "length ks + length rs < length ls + length rs" by (simp add: ls)
    then have "\<exists>ms. dpl_merge (w - 1) (l - 1) r (z # ks @ (k # gs) @ (k # mid) @ rs @ rest) = Some (z # ms @ (k # mid) @ rs @ rest) \<and>
      mset ms = mset (ks @ rs) \<and> ascending ms"
      by (rule less.hyps) (use less.prems in \<open>simp_all add: ls gap sorted_wrt_append\<close>)
    then obtain ms where ms: "dpl_merge (w - 1) (l - 1) r (z # ks @ (k # gs) @ (k # mid) @ rs @ rest) = Some (z # ms @ (k # mid) @ rs @ rest)"
      "mset ms = mset (ks @ rs)" "ascending ms" by blast
    have "dp_pgno x < dp_pgno k" if "x \<in> set ms" for x
    proof -
      have "x \<in> set ks \<or> x \<in> set rs" using that mset_eq_setD[OF ms(2)] by auto
      then show ?thesis using less.prems(3) big True by (auto simp: ls rs sorted_wrt_append DP_SORT_CMP_def)
    qed
    then have "ascending (ms @ [k])" using ms(3) by (simp add: sorted_wrt_append DP_SORT_CMP_def)
    moreover have "mset (ms @ [k]) = mset (ls @ rs)" using ms(2) by (simp add: ls)
    ultimately show ?thesis using step ms(1) by (intro exI[of _ "ms @ [k]"]) simp
  next
    case False
    have cmp: "\<not> dp_pgno u < dp_pgno (?items ! l)"
    proof (cases "ls = []")
      case True
      then show ?thesis using less.prems(5,7) by (simp add: rs)
    next
      case ne: False
      then have "?items ! l = last ls" unfolding less.prems(7) by (simp add: nth_append last_conv_nth nth_Cons')
      then show ?thesis using False ne by simp
    qed
    have items: "?items[w := u] = z # ls @ gs @ (u # mid) @ us @ (u # rest)"
      unfolding less.prems(6) gap rs by (simp add: list_update_append)
    have under: "\<forall>x \<in> set ls. dp_pgno x < dp_pgno u"
    proof
      fix x assume x: "x \<in> set ls"
      then have "dp_pgno x \<le> dp_pgno (last ls)"
        using less.prems(3) by (cases ls rule: rev_cases) (auto simp: sorted_wrt_append DP_SORT_CMP_def)
      moreover have "dp_pgno (last ls) \<le> dp_pgno u" using False x by auto
      moreover have "dp_pgno u \<notin> dp_pgno ` set ls" using less.prems(9) by (simp add: rs)
      then have "dp_pgno x \<noteq> dp_pgno u" using x by (metis imageI)
      ultimately show "dp_pgno x < dp_pgno u" by linarith
    qed
    show ?thesis
    proof (cases "us = []")
      case True
      then have "gs = []" using len by simp
      then have "dpl_merge w l r ?items = Some (z # (ls @ [u]) @ mid @ rs @ rest)"
      proof -
        have "\<not> l < w - 1" using \<open>gs = []\<close> less.prems(6,7) by (simp add: gap)
        then have "dpl_merge w l r ?items = Some (?items[w := u])" using cmp by (subst dpl_merge.simps) (simp only: inside Let_def u if_False)
        then show ?thesis unfolding items using True \<open>gs = []\<close> by (simp add: rs)
      qed
      moreover have "ascending (ls @ [u])" using less.prems(3) under by (simp add: sorted_wrt_append DP_SORT_CMP_def)
      ultimately show ?thesis using True by (intro exI[of _ "ls @ [u]"]) (simp add: rs)
    next
      case ne: False
      then have "gs \<noteq> []" using len by auto
      then have step: "dpl_merge w l r ?items = dpl_merge (w - 1) l (r - 1) (z # ls @ gs @ (u # mid) @ us @ (u # rest))"
      proof -
        have "l < w - 1" using \<open>gs \<noteq> []\<close> less.prems(6,7) by (simp add: gap)
        then show ?thesis using cmp by (subst dpl_merge.simps) (simp only: inside Let_def u items if_False if_True)
      qed
      have "length ls + length us < length ls + length rs" by (simp add: rs)
      then have "\<exists>ms. dpl_merge (w - 1) l (r - 1) (z # ls @ gs @ (u # mid) @ us @ (u # rest)) = Some (z # ms @ (u # mid) @ us @ (u # rest)) \<and>
        mset ms = mset (ls @ us) \<and> ascending ms"
        by (rule less.hyps) (use less.prems ne len in \<open>simp_all add: rs gap sorted_wrt_append\<close>)
      then obtain ms where ms: "dpl_merge (w - 1) l (r - 1) (z # ls @ gs @ (u # mid) @ us @ (u # rest)) = Some (z # ms @ (u # mid) @ us @ (u # rest))"
        "mset ms = mset (ls @ us)" "ascending ms" by blast
      have "dp_pgno x < dp_pgno u" if "x \<in> set ms" for x
        using that mset_eq_setD[OF ms(2)] under big by auto
      then have "ascending (ms @ [u])" using ms(3) by (simp add: sorted_wrt_append DP_SORT_CMP_def)
      then show ?thesis using step ms(1,2) by (intro exI[of _ "ms @ [u]"]) (simp add: rs)
    qed
  qed
qed

text \<open>The list with its entries replaced by as many, all of them sorted.\<close>

definition dpl_built :: "dpl \<Rightarrow> dp list \<Rightarrow> dp list \<Rightarrow> dpl" where
  "dpl_built dl xs rest =
     dl\<lparr>dl_items := (dl_items dl ! 0) # xs @ (dl_items dl ! (dl_length dl + 1)) # rest, dl_sorted := dl_length dl\<rparr>"

abbreviation dpl_sorts_to :: "dpl \<Rightarrow> bool" where
  "dpl_sorts_to dl \<equiv> \<exists>xs rest. txn_dpl_sort_slowpath dl = Some (dpl_built dl xs rest) \<and> mset xs = mset (dpl_list dl) \<and>
     ascending xs \<and> length rest = length (dpl_rest dl)"

lemma dpl_ok_parts:
  assumes "dpl_ok dl"
  shows "length (dpl_rest dl) + dl_length dl + 2 = length (dl_items dl)" "dl_length dl + 16 \<le> length (dpl_rest dl)"
    "distinct (map dp_pgno (dpl_list dl))" "\<forall>d \<in> set (dpl_list dl). 0 < dp_pgno d \<and> dp_pgno d < P_INVALID"
    "dp_pgno (dl_items dl ! 0) = 0" "dl_sorted dl \<le> dl_length dl"
    "length xs \<le> dl_length dl \<Longrightarrow> length xs < 2 ^ 64"
  using dpl_room[OF assms] assms by (simp_all add: dpl_rest_def dpl_ok_def)

lemma dpl_built_ok:
  assumes ok: "dpl_ok dl" and xs: "mset xs = mset (dpl_list dl)" "ascending xs" and rest: "length rest = length (dpl_rest dl)"
  shows "dpl_ok (dpl_built dl xs rest)" "dpl_list (dpl_built dl xs rest) = xs"
proof -
  have len: "length xs = dl_length dl" using size_mset[of xs] xs(1) dpl_room(2)[OF ok] by (metis size_mset)
  have set: "set xs = set (dpl_list dl)" "distinct (map dp_pgno xs)" using xs mset_eq_setD ascending_iff by blast+
  have parts: "dl_items (dpl_built dl xs rest) = (dl_items dl ! 0) # xs @ (dl_items dl ! (dl_length dl + 1)) # rest"
    "length xs = dl_length (dpl_built dl xs rest)" by (simp_all add: dpl_built_def len)
  show "dpl_list (dpl_built dl xs rest) = xs" by (rule dpl_listI(1)[OF parts])
  have room: "2 * dl_detent dl + 18 \<le> length (dl_items dl)" using ok by (simp add: dpl_ok_def dpl_reserve_gap_eq)
  show "dpl_ok (dpl_built dl xs rest)"
    by (rule dpl_okI[OF ok parts]) (use ok set xs rest len room dpl_ok_parts(1)[OF ok] in \<open>simp_all add: dpl_built_def dpl_ok_def\<close>)
qed

lemma dp_sorted: "mset xs = mset ds \<Longrightarrow> sorted_wrt dp_order.le xs \<Longrightarrow> distinct (map dp_pgno ds) \<Longrightarrow> ascending xs"
  unfolding ascending_iff dp_le by (metis mset_map mset_eq_imp_distinct_iff)

lemma dpl_sort_whole:
  assumes ok: "dpl_ok dl" and u: "dl_length dl - dl_sorted dl < MDBX_RADIXSORT_THRESHOLD"
    and head: "\<not> (dl_length dl - dl_sorted dl) div 4 + 4 < dl_sorted dl"
  shows "dpl_sorts_to dl"
proof -
  let ?ds = "dpl_list dl" and ?b = "dl_items dl ! 0" and ?e = "dl_items dl ! (dl_length dl + 1)" and ?rest = "dpl_rest dl"
  obtain xs where xs: "sort_impl DP_SORT_CMP ?ds = Some xs" "mset xs = mset ?ds" "sorted_wrt dp_order.le xs"
    using dp_order.sort_impl_sorts[OF dpl_ok_parts(7)[OF ok], of ?ds] dpl_room(2)[OF ok] by auto
  have "overwrite 1 xs (?b # ?ds @ ?e # ?rest) = Some (?b # xs @ ?e # ?rest)"
    by (rule overwrite_list) (metis xs(2) size_mset)
  then have "overwrite 1 xs (dl_items dl) = Some (?b # xs @ ?e # ?rest)" using dpl_parts[OF ok] by simp
  then have "txn_dpl_sort_slowpath dl = Some (dpl_built dl xs ?rest)"
    unfolding txn_dpl_sort_slowpath_def Let_def using u head xs(1) by (simp add: dpl_built_def)
  then show ?thesis using xs(2) dp_sorted[OF xs(2,3) dpl_ok_parts(3)[OF ok]] by blast
qed

lemma dpl_sort_radix:
  assumes ok: "dpl_ok dl" and u: "\<not> dl_length dl - dl_sorted dl < MDBX_RADIXSORT_THRESHOLD"
  shows "dpl_sorts_to dl"
proof -
  let ?ds = "dpl_list dl" and ?b = "dl_items dl ! 0" and ?e = "dl_items dl ! (dl_length dl + 1)" and ?rest = "dpl_rest dl"
  let ?n = "dl_length dl" and ?s = "sort_key dp_pgno (dpl_list dl)"
  note items = dpl_parts[OF ok] and n = dpl_room(2,3)[OF ok] and p = dpl_ok_parts[OF ok]
  have ne: "?ds \<noteq> []" using u n by (auto simp: MDBX_RADIXSORT_THRESHOLD_def)
  have tmp: "take ?n (drop (1 + ?n + 1) (dl_items dl)) = take ?n ?rest" "length (take ?n ?rest) = length ?ds"
    using n(1) p(2) by (simp_all add: dpl_rest_def)
  have key: "\<forall>d \<in> set ?ds. dp_pgno d < 2 ^ 64" using p(4) by (auto simp: P_INVALID_def)
  obtain buf where buf: "radixsort dp_pgno (take ?n ?rest) ?ds = Some (?s, buf)" "length buf = length ?ds"
    using radixsort_spec[OF ne _ tmp(2) key] n by auto
  have one: "overwrite 1 ?s (dl_items dl) = Some ((?b # ?s @ [?e]) @ ?rest)"
    by (subst items, subst overwrite_list) simp_all
  have "overwritten (1 + ?n + 1) buf ((?b # ?s @ [?e]) @ ?rest) = (?b # ?s @ [?e]) @ overwritten 0 buf ?rest"
    by (rule overwritten_behind) (simp add: n(1))
  then have two: "overwrite (1 + ?n + 1) buf ((?b # ?s @ [?e]) @ ?rest) = Some (?b # ?s @ ?e # (buf @ drop ?n ?rest))"
    using buf(2) n(1) p(2) by (subst overwrite_inside) (simp_all add: overwritten_def)
  have inside: "\<not> length (dl_items dl) < 1 + ?n + 1 + ?n" using p(1,2) by simp
  have "txn_dpl_sort_slowpath dl = Some (dpl_built dl ?s (buf @ drop ?n ?rest))"
    unfolding txn_dpl_sort_slowpath_def Let_def tmp(1) using u buf(1) one two inside by (simp add: dpl_built_def)
  moreover have "ascending ?s" unfolding ascending_iff using p(3) by (simp add: distinct_map)
  moreover have "length (buf @ drop ?n ?rest) = length ?rest" using buf(2) n(1) p(2) by simp
  ultimately show ?thesis by (metis mset_sort)
qed

lemma dpl_sort_merge:
  assumes ok: "dpl_ok dl" and tail: "dl_sorted dl < dl_length dl" and u: "dl_length dl - dl_sorted dl < MDBX_RADIXSORT_THRESHOLD"
    and head: "(dl_length dl - dl_sorted dl) div 4 + 4 < dl_sorted dl"
  shows "dpl_sorts_to dl"
proof -
  define n where "n = dl_length dl"
  define b where "b = dl_items dl ! 0"
  define e where "e = dl_items dl ! (n + 1)"
  define rest where "rest = dpl_rest dl"
  define ls where "ls = take (dl_sorted dl) (dpl_list dl)"
  define us where "us = drop (dl_sorted dl) (dpl_list dl)"
  define k where "k = n - dl_sorted dl"
  note p = dpl_ok_parts[OF ok]
  have len: "length (dpl_list dl) = n" "n + 16 \<le> length rest" using dpl_room(2)[OF ok] p(2) by (simp_all add: n_def rest_def)
  have ds: "dpl_list dl = ls @ us" "length ls = dl_sorted dl" "length us = k" "0 < k" "k < n" "dl_sorted dl + k = n"
    using len p(6) tail head by (simp_all add: ls_def us_def k_def n_def)
  have items: "dl_items dl = b # (ls @ us) @ e # rest"
    using dpl_parts[OF ok] by (simp add: b_def e_def n_def rest_def ds(1))
  have cut: "take k (drop (1 + dl_sorted dl) (dl_items dl)) = us" unfolding items using ds by simp
  obtain xs where xs: "sort_impl DP_SORT_CMP us = Some xs" "mset xs = mset us" "sorted_wrt dp_order.le xs"
    using dp_order.sort_impl_sorts[OF p(7), of us] ds(3,5) by (auto simp: n_def)
  have lx: "length xs = k" using xs(2) ds(3) by (metis size_mset)
  have asc: "ascending xs" "ascending ls" using dp_sorted[OF xs(2,3)] p(3) ok by (simp_all add: ds(1)) (simp add: dpl_ok_def ls_def)
  define mid where "mid = e # take (n - k - 1) rest"
  define tail' where "tail' = drop (n - 1) rest"
  have over: "overwrite (n + n + 1 - k) xs (dl_items dl) = Some (b # ls @ us @ mid @ xs @ tail')"
  proof -
    have "rest = take (n - k - 1) rest @ drop (n - k - 1) rest" by simp
    then have "dl_items dl = (b # ls @ us @ mid) @ drop (n - k - 1) rest" by (simp add: mid_def items)
    moreover have "length (b # ls @ us @ mid) = n + n + 1 - k" using ds len by (simp add: mid_def)
    ultimately have "overwritten (n + n + 1 - k) xs (dl_items dl) = (b # ls @ us @ mid) @ overwritten 0 xs (drop (n - k - 1) rest)"
      using overwritten_behind by metis
    moreover have "overwritten 0 xs (drop (n - k - 1) rest) = xs @ tail'" using lx ds(5) by (simp add: overwritten_def tail'_def)
    moreover have "n + n + 1 - k + length xs \<le> length (dl_items dl)" using p(1,2) lx ds(5) by (simp add: n_def)
    ultimately show ?thesis by (simp add: overwrite_inside)
  qed
  have "mset (map dp_pgno (ls @ xs)) = mset (map dp_pgno (dpl_list dl))" using xs(2) by (simp add: ds(1))
  then have "distinct (map dp_pgno (ls @ xs))" using p(3) by (metis mset_eq_imp_distinct_iff)
  moreover have "\<forall>r \<in> set xs. dp_pgno b < dp_pgno r" using p(4,5) mset_eq_setD[OF xs(2)] by (simp add: ds(1) b_def)
  ultimately have "\<exists>ms. dpl_merge n (dl_sorted dl) (n + n + 1 - 1) (b # ls @ us @ mid @ xs @ tail') = Some (b # ms @ mid @ xs @ tail') \<and>
      mset ms = mset (ls @ xs) \<and> ascending ms"
    by (intro dpl_merge_merges) (use lx ds asc len in \<open>auto simp: mid_def\<close>)
  then obtain ms where ms: "dpl_merge n (dl_sorted dl) (n + n + 1 - 1) (b # ls @ us @ mid @ xs @ tail') = Some (b # ms @ mid @ xs @ tail')"
    "mset ms = mset (ls @ xs)" "ascending ms" by blast
  have "txn_dpl_sort_slowpath dl = Some (dpl_built dl ms (take (n - k - 1) rest @ xs @ tail'))"
    unfolding txn_dpl_sort_slowpath_def Let_def n_def[symmetric] k_def[symmetric] 
    using u head cut xs(1) over ms(1) by (simp add: dpl_built_def mid_def n_def[symmetric] k_def b_def e_def)
  moreover have "mset ms = mset (dpl_list dl)" using ms(2) xs(2) by (simp add: ds(1))
  moreover have "length (take (n - k - 1) rest @ xs @ tail') = length rest" using len lx ds(5) by (simp add: tail'_def)
  ultimately show ?thesis using ms(3) unfolding rest_def by blast
qed

lemma txn_dpl_sort_slowpath_spec:
  assumes ok: "dpl_ok dl" and tail: "dl_sorted dl < dl_length dl"
  shows "\<exists>xs rest. txn_dpl_sort_slowpath dl = Some (dpl_built dl xs rest) \<and> dpl_ok (dpl_built dl xs rest) \<and>
    dpl_list (dpl_built dl xs rest) = xs \<and> mset xs = mset (dpl_list dl) \<and> ascending xs \<and>
    length (dl_items (dpl_built dl xs rest)) = length (dl_items dl)"
proof -
  have "dpl_sorts_to dl" using dpl_sort_radix[OF ok] dpl_sort_whole[OF ok] dpl_sort_merge[OF ok tail] by blast
  then obtain xs rest where r: "txn_dpl_sort_slowpath dl = Some (dpl_built dl xs rest)" "mset xs = mset (dpl_list dl)"
    "ascending xs" "length rest = length (dpl_rest dl)" by blast
  have "length xs = dl_length dl" using r(2) dpl_room(2)[OF ok] by (metis size_mset)
  then have "length (dl_items (dpl_built dl xs rest)) = length (dl_items dl)"
    using r(4) dpl_ok_parts(1)[OF ok] by (simp add: dpl_built_def)
  then show ?thesis using dpl_built_ok[OF ok r(2-4)] r by blast
qed

subsection \<open>Searching\<close>

interpretation dp_search: search_order DP_SEARCH_CMP ascending
proof unfold_locales
  fix xs :: "dp list" and i j item
  assume a: "ascending xs" "i < j" "j < length xs" "DP_SEARCH_CMP (xs ! j) item"
  have "DP_SORT_CMP (xs ! i) (xs ! j)" using a(1-3) by (simp add: sorted_wrt_nth_less)
  then show "DP_SEARCH_CMP (xs ! i) item" using a(4) by (simp add: DP_SORT_CMP_def DP_SEARCH_CMP_def)
qed

text \<open>The bounds of what the binary search returns, and the entry it finds.\<close>

lemma dp_bsearch_position:
  fixes pgno :: pgno
  assumes ok: "dpl_ok dl"
  defines "i \<equiv> dp_bsearch dl pgno"
  shows "1 \<le> i" "i \<le> dl_sorted dl + 1" "0 < pgno \<or> 1 < i \<Longrightarrow> dp_pgno (dl_items dl ! (i - 1)) < pgno"
    "i \<le> dl_sorted dl \<Longrightarrow> pgno \<le> dp_pgno (dl_items dl ! i)"
proof -
  define xs where "xs = take (dl_sorted dl) (dpl_list dl)"
  have asc: "ascending xs" using ok by (simp add: xs_def dpl_ok_def)
  have len: "length xs = dl_sorted dl" using dpl_room(2)[OF ok] dpl_ok_parts(6)[OF ok] by (simp add: xs_def)
  have "take (dl_sorted dl) (drop 1 (dl_items dl)) = xs"
    using dpl_ok_parts(6)[OF ok] by (simp add: xs_def dpl_list_def min_def)
  then have i: "i = 1 + search_impl True DP_SEARCH_CMP xs pgno" by (simp only: i_def dp_bsearch_def)
  have nth: "dl_items dl ! k = xs ! (k - 1)" if "0 < k" "k \<le> dl_sorted dl" for k
    using dpl_nth[OF ok, of k] that dpl_ok_parts(6)[OF ok] by (simp add: xs_def)
  show "1 \<le> i" by (simp add: i)
  show le: "i \<le> dl_sorted dl + 1" using dp_search.search_le[OF asc, of True pgno] by (simp add: i len)
  show "pgno \<le> dp_pgno (dl_items dl ! i)" if "i \<le> dl_sorted dl"
    using dp_search.search_after[OF asc, of True pgno "i - 1"] nth[of i] that by (simp add: i len DP_SEARCH_CMP_def not_less)
  show "dp_pgno (dl_items dl ! (i - 1)) < pgno" if "0 < pgno \<or> 1 < i"
  proof (cases "i = 1")
    case True
    then show ?thesis using dpl_ok_parts(5)[OF ok] that by simp
  next
    case False
    then show ?thesis using dp_search.search_before[OF asc, of "i - 2" True pgno] nth[of "i - 1"] le
      by (simp add: i DP_SEARCH_CMP_def numeral_2_eq_2)
  qed
qed

lemma dpl_nth_ascending:
  assumes ok: "dpl_ok dl" and "0 < a" "a < b" "b \<le> dl_sorted dl"
  shows "dp_pgno (dl_items dl ! a) < dp_pgno (dl_items dl ! b)"
proof -
  have "ascending (take (dl_sorted dl) (dpl_list dl))" using ok by (simp add: dpl_ok_def)
  from sorted_wrt_nth_less[OF this, of "a - 1" "b - 1"] show ?thesis
    using assms dpl_room(2)[OF ok] dpl_ok_parts(6)[OF ok] dpl_nth[OF ok, of a] dpl_nth[OF ok, of b] by (simp add: DP_SORT_CMP_def)
qed

text \<open>An entry in the head is found there; the stubs on both sides never match a page.\<close>

lemma dp_bsearch_hit:
  assumes ok: "dpl_ok dl" and j: "0 < j" "j \<le> dl_sorted dl" and pgno: "dp_pgno (dl_items dl ! j) = pgno"
  shows "dp_bsearch dl pgno = j"
proof -
  let ?i = "dp_bsearch dl pgno"
  have pos: "0 < pgno" using dpl_ok_parts(4,6)[OF ok] dpl_nth[OF ok, of j] dpl_room(2)[OF ok] j pgno by auto
  note b = dp_bsearch_position[OF ok, where pgno = pgno]
  have "\<not> j < ?i"
  proof
    assume "j < ?i"
    then have "j = ?i - 1 \<or> j < ?i - 1" by linarith
    then have "pgno \<le> dp_pgno (dl_items dl ! (?i - 1))"
      using dpl_nth_ascending[OF ok, of j "?i - 1"] j(1) b(2) pgno by (metis le_diff_conv less_imp_le order_refl)
    then show False using b(3) pos by simp
  qed
  moreover have "\<not> ?i < j" using dpl_nth_ascending[OF ok, of ?i j] b(1,4) j(2) pgno by auto
  ultimately show ?thesis by simp
qed

definition dpl_index :: "dpl \<Rightarrow> pgno \<Rightarrow> nat \<Rightarrow> bool" where
  "dpl_index dl pgno i \<longleftrightarrow>
     0 < i \<and> i \<le> dl_length dl + 1 \<and>
     (if pgno \<in> dp_pgno ` set (dpl_list dl) then i \<le> dl_length dl \<and> dp_pgno (dl_items dl ! i) = pgno
      else dp_pgno (dl_items dl ! i) \<noteq> pgno)"

lemma dpl_entry:
  assumes ok: "dpl_ok dl"
  shows "pgno \<in> dp_pgno ` set (dpl_list dl) \<longleftrightarrow> (\<exists>j. 0 < j \<and> j \<le> dl_length dl \<and> dp_pgno (dl_items dl ! j) = pgno)"
proof -
  have "pgno \<in> dp_pgno ` set (dpl_list dl) \<longleftrightarrow> (\<exists>k < dl_length dl. dp_pgno (dpl_list dl ! k) = pgno)"
    unfolding set_map[symmetric] set_conv_nth using dpl_room(2)[OF ok] by auto
  also have "\<dots> \<longleftrightarrow> (\<exists>j. 0 < j \<and> j \<le> dl_length dl \<and> dp_pgno (dl_items dl ! j) = pgno)"
    using dpl_nth[OF ok] by (metis Suc_diff_1 Suc_le_eq diff_Suc_1 zero_less_Suc)
  finally show ?thesis .
qed

lemma dpl_index_bsearch:
  assumes ok: "dpl_ok dl" and pgno: "pgno < P_INVALID"
    and tail: "\<forall>j. dl_sorted dl < j \<and> j \<le> dl_length dl \<longrightarrow> dp_pgno (dl_items dl ! j) \<noteq> pgno"
  shows "dpl_index dl pgno (dp_bsearch dl pgno)"
proof -
  let ?i = "dp_bsearch dl pgno"
  have i: "0 < ?i" "?i \<le> dl_sorted dl + 1" "dl_sorted dl \<le> dl_length dl"
    using dp_bsearch_position(1,2)[OF ok, of pgno] dpl_ok_parts(6)[OF ok] by simp_all
  show ?thesis
  proof (cases "pgno \<in> dp_pgno ` set (dpl_list dl)")
    case True
    then obtain j where j: "0 < j" "j \<le> dl_length dl" "dp_pgno (dl_items dl ! j) = pgno" using dpl_entry[OF ok] by blast
    then have "j \<le> dl_sorted dl" using tail by (metis not_less)
    then show ?thesis using dp_bsearch_hit[OF ok j(1) _ j(3)] j True by (simp add: dpl_index_def)
  next
    case False
    have "dp_pgno (dl_items dl ! (dl_length dl + 1)) = P_INVALID" using ok by (simp add: dpl_ok_def)
    then have "dp_pgno (dl_items dl ! ?i) \<noteq> pgno" if "?i = dl_length dl + 1" using that pgno by simp
    moreover have "dp_pgno (dl_items dl ! ?i) \<noteq> pgno" if "?i \<le> dl_length dl" using that False i(1) dpl_entry[OF ok] by blast
    ultimately have "dp_pgno (dl_items dl ! ?i) \<noteq> pgno" using i by linarith
    then show ?thesis using False i by (simp add: dpl_index_def)
  qed
qed

lemma txn_dpl_search_spec:
  assumes ok: "dpl_ok dl" and pgno: "pgno < P_INVALID"
  shows "\<exists>i dl'. txn_dpl_search dl pgno = Some (i, dl') \<and> dpl_ok dl' \<and> mset (dpl_list dl') = mset (dpl_list dl) \<and>
    dpl_index dl' pgno i \<and> (dl_sorted dl = dl_length dl \<longrightarrow> dl' = dl \<and> i = dp_bsearch dl pgno)"
proof (cases "7 < dl_length dl - dl_sorted dl")
  case True
  then have "dl_sorted dl < dl_length dl" by simp
  then obtain xs rest where s: "txn_dpl_sort_slowpath dl = Some (dpl_built dl xs rest)" "dpl_ok (dpl_built dl xs rest)"
    "dpl_list (dpl_built dl xs rest) = xs" "mset xs = mset (dpl_list dl)"
    using txn_dpl_sort_slowpath_spec[OF ok] by blast
  have "dpl_index (dpl_built dl xs rest) pgno (dp_bsearch (dpl_built dl xs rest) pgno)"
    by (rule dpl_index_bsearch[OF s(2) pgno]) (simp add: dpl_built_def)
  then show ?thesis using s True unfolding txn_dpl_search_def Let_def by auto
next
  case short: False
  show ?thesis
  proof (cases "find (\<lambda>i. dp_pgno (dl_items dl ! i) = pgno) [dl_sorted dl + 1..<dl_length dl + 1]")
    case None
    then have "dp_pgno (dl_items dl ! j) \<noteq> pgno" if "j \<in> {dl_sorted dl + 1..<dl_length dl + 1}" for j
      using that unfolding find_None_iff by (simp only: set_upt) blast
    then have "dpl_index dl pgno (dp_bsearch dl pgno)"
      by (intro dpl_index_bsearch[OF ok pgno]) simp
    then show ?thesis using None short ok by (simp add: txn_dpl_search_def)
  next
    case (Some i)
    then have i: "dl_sorted dl < i" "i \<le> dl_length dl" "dp_pgno (dl_items dl ! i) = pgno"
      by (auto simp: find_Some_iff nth_append less_Suc_eq_le)
    then have "dpl_index dl pgno i" using dpl_entry[OF ok, of pgno] by (auto simp: dpl_index_def)
    then show ?thesis using Some short ok i by (simp add: txn_dpl_search_def)
  qed
qed

lemma txn_dpl_sort_spec:
  assumes ok: "dpl_ok dl"
  shows "\<exists>dl'. txn_dpl_sort dl = Some dl' \<and> dpl_ok dl' \<and> mset (dpl_list dl') = mset (dpl_list dl) \<and> ascending (dpl_list dl') \<and>
    dl_sorted dl' = dl_length dl' \<and> dl_length dl' = dl_length dl \<and> dl_pages_including_loose dl' = dl_pages_including_loose dl \<and>
    length (dl_items dl') = length (dl_items dl)"
proof (cases "dl_sorted dl = dl_length dl")
  case True
  then show ?thesis using ok dpl_room(2)[OF ok] by (simp add: txn_dpl_sort_def dpl_ok_def)
next
  case False
  then have "dl_sorted dl < dl_length dl" using dpl_ok_parts(6)[OF ok] by simp
  then obtain xs rest where "txn_dpl_sort_slowpath dl = Some (dpl_built dl xs rest)" "dpl_ok (dpl_built dl xs rest)"
    "dpl_list (dpl_built dl xs rest) = xs" "mset xs = mset (dpl_list dl)" "ascending xs"
    "length (dl_items (dpl_built dl xs rest)) = length (dl_items dl)"
    using txn_dpl_sort_slowpath_spec[OF ok] by blast
  then show ?thesis using False by (simp add: txn_dpl_sort_def) (simp add: dpl_built_def)
qed

end
