(* ===== verification/Dpl_Ops.thy ===== *)
theory Dpl_Ops
  imports Dpl_Set Pnl_Set
begin

text \<open>
  The operations that change the list of dirty pages: emptying and growing it, appending, removing and sifting, and the
  properties of the list. Each keeps what \<^const>\<open>dpl_ok\<close> states, and the count of pages that the list carries.
\<close>

unbundle bit_operations_syntax

subsection \<open>The count of pages\<close>

text \<open>The count of pages that the list keeps, and what is left of it when some entries go.\<close>

definition dpl_counted :: "dpl \<Rightarrow> bool" where
  "dpl_counted dl \<longleftrightarrow> dl_pages_including_loose dl = sum_list (map dp_npages (dpl_list dl))"

lemma foldl_sub64: "sum_list ns \<le> a \<Longrightarrow> foldl sub64 a ns = a - sum_list ns"
  by (induction ns arbitrary: a) (simp_all add: sub64_def)

lemma sum_list_parts:
  "sum_list (map f (filter P xs)) + sum_list (map f (filter (\<lambda>x. \<not> P x) xs)) = (sum_list (map f xs) :: nat)"
  by (induction xs) simp_all

lemma drop_bit_mono: "(a :: nat) \<le> b \<Longrightarrow> drop_bit n a \<le> drop_bit n b"
  by (simp add: drop_bit_eq_div div_le_mono)

subsection \<open>Appending\<close>

lemma dpl_shift_tail_spec:
  "\<exists>y. dpl_shift_tail (length hs + 1) (b # hs @ ts @ x # r) (length hs + length ts) = (b # hs @ y # ts @ r, length hs)"
proof (induction ts arbitrary: x r rule: rev_induct)
  case Nil
  show ?case by (cases "length hs") simp_all
next
  case (snoc u us)
  have i: "length hs + length (us @ [u]) = Suc (length hs + length us)" by simp
  have "(b # hs @ (us @ [u]) @ x # r) ! Suc (length hs + length us) = u" by (simp add: nth_append)
  moreover have "(b # hs @ (us @ [u]) @ x # r)[Suc (length hs + length us) + 1 := u] = b # hs @ us @ u # (u # r)"
    by (simp add: list_update_append)
  ultimately have "dpl_shift_tail (length hs + 1) (b # hs @ (us @ [u]) @ x # r) (length hs + length (us @ [u])) =
      dpl_shift_tail (length hs + 1) (b # hs @ us @ u # (u # r)) (length hs + length us)"
    unfolding i dpl_shift_tail.simps by (simp only: if_True le_add1 Suc_eq_plus1 add_le_mono1)
  then show ?case using snoc.IH[of u "u # r"] by simp
qed

lemma dpl_shift_greater_spec:
  assumes "\<forall>g \<in> set gs. pgno < dp_pgno g" "\<forall>l \<in> set ls. \<not> pgno < dp_pgno l"
  shows "\<exists>y. dpl_shift_greater pgno (b # ls @ gs @ x # r) (length ls + length gs) = (b # ls @ y # gs @ r, length ls)"
  using assms(1)
proof (induction gs arbitrary: x r rule: rev_induct)
  case Nil
  show ?case
  proof (cases ls rule: rev_cases)
    case (snoc ks k)
    then have "(b # ls @ x # r) ! Suc (length ks) = k" by (simp add: nth_append)
    then show ?thesis using assms(2) snoc by simp
  qed simp
next
  case (snoc u us)
  have i: "length ls + length (us @ [u]) = Suc (length ls + length us)" by simp
  have "(b # ls @ (us @ [u]) @ x # r) ! Suc (length ls + length us) = u" by (simp add: nth_append)
  moreover have "(b # ls @ (us @ [u]) @ x # r)[Suc (length ls + length us) + 1 := u] = b # ls @ us @ u # (u # r)"
    by (simp add: list_update_append)
  moreover have "pgno < dp_pgno u" using snoc.prems by simp
  ultimately have "dpl_shift_greater pgno (b # ls @ (us @ [u]) @ x # r) (length ls + length (us @ [u])) =
      dpl_shift_greater pgno (b # ls @ us @ u # (u # r)) (length ls + length us)"
    unfolding i dpl_shift_greater.simps by (simp only: if_True)
  then show ?case using snoc.IH[of u "u # r"] snoc.prems by simp
qed

text \<open>An entry goes behind the others, or to its place in the head; what follows the stub is not reached.\<close>

lemma dpl_insert_parts:
  assumes ok: "dpl_ok dl" and d: "dp_pgno d \<notin> dp_pgno ` set (dpl_list dl)"
  shows "\<exists>ds. dl_items (dpl_insert d dl) = (dl_items dl ! 0) # ds @ (dl_items dl ! (dl_length dl + 1)) # tl (dpl_rest dl) \<and>
    mset ds = add_mset d (mset (dpl_list dl)) \<and> ascending (take (dl_sorted (dpl_insert d dl)) ds) \<and>
    dl_sorted (dpl_insert d dl) \<le> dl_length dl + 1"
proof -
  define b where "b = dl_items dl ! 0"
  define e where "e = dl_items dl ! (dl_length dl + 1)"
  define n where "n = dl_length dl"
  define hs where "hs = take (dl_sorted dl) (dpl_list dl)"
  define ts where "ts = drop (dl_sorted dl) (dpl_list dl)"
  note p = dpl_ok_parts[OF ok]
  obtain x r where r: "dpl_rest dl = x # r" using p(2) by (cases "dpl_rest dl") auto
  have ds: "dpl_list dl = hs @ ts" by (simp add: hs_def ts_def)
  have len: "length hs = dl_sorted dl" "length hs + length ts = n" using p(6) dpl_room(2)[OF ok] by (simp_all add: hs_def ts_def n_def)
  have asc: "ascending hs" using ok by (simp add: hs_def dpl_ok_def)
  have items: "dl_items dl = b # hs @ ts @ e # x # r"
    using dpl_parts[OF ok] by (simp add: b_def e_def r ds)
  have stub: "(dl_items dl)[n + 2 := dl_items dl ! (n + 1)] = b # hs @ ts @ e # e # r"
    unfolding items using len by (simp add: list_update_append nth_append)
  define near where "near \<longleftrightarrow> int n - int dpl_insertion_threshold \<le> int (dl_sorted dl) \<and>
    dp_pgno (dl_items dl ! (if n < dpl_insertion_threshold then 0 else n - dpl_insertion_threshold)) < dp_pgno d"
  show ?thesis
  proof (cases near)
    case False
    have "length (b # hs @ ts) = n + 1" using len by simp
    then have "(b # hs @ ts @ e # e # r)[n + 1 := d] = b # (hs @ ts @ [d]) @ e # r"
      using list_update_length[of "b # hs @ ts" e "e # r" d] by simp
    then have "dl_items (dpl_insert d dl) = b # (hs @ ts @ [d]) @ e # r \<and> dl_sorted (dpl_insert d dl) = dl_sorted dl"
      unfolding dpl_insert_def Let_def n_def[symmetric] stub near_def[symmetric] using False by simp
    then show ?thesis using asc len p(6) by (intro exI[of _ "hs @ ts @ [d]"]) (simp add: b_def e_def r ds n_def)
  next
    case True
    define ls where "ls = takeWhile (\<lambda>x. \<not> dp_pgno d < dp_pgno x) hs"
    define gs where "gs = dropWhile (\<lambda>x. \<not> dp_pgno d < dp_pgno x) hs"
    have hs: "hs = ls @ gs" by (simp add: ls_def gs_def)
    have small: "\<forall>l \<in> set ls. \<not> dp_pgno d < dp_pgno l" by (auto simp: ls_def dest: set_takeWhileD)
    have great: "\<forall>g \<in> set gs. dp_pgno d < dp_pgno g"
    proof (cases gs)
      case (Cons g gs')
      then have "dp_pgno d < dp_pgno g" using hd_dropWhile[of "\<lambda>x. \<not> dp_pgno d < dp_pgno x" hs] by (simp add: gs_def)
      then show ?thesis using asc Cons by (auto simp: hs sorted_wrt_append DP_SORT_CMP_def)
    qed simp
    have "\<forall>l \<in> set ls. dp_pgno l < dp_pgno d" using small d by (metis Un_iff ds hs imageI linorder_neqE_nat set_append)
    then have asc': "ascending (ls @ d # gs)" using asc great by (auto simp: hs sorted_wrt_append DP_SORT_CMP_def)
    obtain y where y: "dpl_shift_tail (dl_sorted dl + 1) (b # hs @ ts @ e # e # r) n = (b # hs @ y # ts @ e # r, dl_sorted dl)"
      using dpl_shift_tail_spec[of hs b ts e "e # r"] len by auto
    obtain z where z: "dpl_shift_greater (dp_pgno d) (b # hs @ y # ts @ e # r) (dl_sorted dl) = (b # ls @ z # gs @ ts @ e # r, length ls)"
      using dpl_shift_greater_spec[OF great small, of b y "ts @ e # r"] len(1) by (auto simp: hs)
    have "(b # ls @ z # gs @ ts @ e # r)[length ls + 1 := d] = b # (ls @ d # gs @ ts) @ e # r" by (simp add: list_update_append)
    then have "dl_items (dpl_insert d dl) = b # (ls @ d # gs @ ts) @ e # r \<and> dl_sorted (dpl_insert d dl) = dl_sorted dl + 1"
      unfolding dpl_insert_def Let_def n_def[symmetric] stub near_def[symmetric] using True y z by simp
    moreover have "take (dl_sorted dl + 1) (ls @ d # gs @ ts) = ls @ d # gs"
      using len(1) by (simp add: hs Suc_diff_le flip: len(1))
    ultimately show ?thesis using asc' len p(6)
      by (intro exI[of _ "ls @ d # gs @ ts"]) (simp del: take_append add: b_def e_def r ds n_def hs)
  qed
qed

lemma dpl_insert_ok:
  assumes ok: "dpl_ok dl" and d: "dp_pgno d \<notin> dp_pgno ` set (dpl_list dl)" "0 < dp_pgno d" "dp_pgno d < P_INVALID"
    and room: "dl_length dl < dl_detent dl"
  shows "dpl_ok (dpl_insert d dl)" "mset (dpl_list (dpl_insert d dl)) = add_mset d (mset (dpl_list dl))"
    "dl_length (dpl_insert d dl) = dl_length dl + 1" "dl_detent (dpl_insert d dl) = dl_detent dl"
    "dl_pages_including_loose (dpl_insert d dl) = (dl_pages_including_loose dl + dp_npages d) mod 2 ^ 64"
proof -
  show fields: "dl_length (dpl_insert d dl) = dl_length dl + 1" "dl_detent (dpl_insert d dl) = dl_detent dl"
    "dl_pages_including_loose (dpl_insert d dl) = (dl_pages_including_loose dl + dp_npages d) mod 2 ^ 64"
    by (simp_all add: dpl_insert_def Let_def split: prod.splits)
  obtain ds where parts: "dl_items (dpl_insert d dl) = (dl_items dl ! 0) # ds @ (dl_items dl ! (dl_length dl + 1)) # tl (dpl_rest dl)"
    and ds: "mset ds = add_mset d (mset (dpl_list dl))" "ascending (take (dl_sorted (dpl_insert d dl)) ds)"
      "dl_sorted (dpl_insert d dl) \<le> dl_length dl + 1"
    using dpl_insert_parts[OF ok d(1)] by blast
  have len: "length ds = dl_length (dpl_insert d dl)"
    using ds(1) dpl_room(2)[OF ok] fields(1) by (metis Suc_eq_plus1 size_add_mset size_mset)
  show "mset (dpl_list (dpl_insert d dl)) = add_mset d (mset (dpl_list dl))" using dpl_listI(1)[OF parts len] ds(1) by simp
  have set: "set ds = insert d (set (dpl_list dl))" using ds(1) by (metis set_mset_add_mset_insert set_mset_mset)
  have "mset (map dp_pgno ds) = mset (dp_pgno d # map dp_pgno (dpl_list dl))" using ds(1) by simp
  moreover have "distinct (dp_pgno d # map dp_pgno (dpl_list dl))" using d(1) ok by (simp add: dpl_ok_def)
  ultimately have dist: "distinct (map dp_pgno ds)" by (metis mset_eq_imp_distinct_iff)
  show "dpl_ok (dpl_insert d dl)"
    by (rule dpl_okI[OF ok parts len])
      (use ok set d dist ds len room fields dpl_ok_parts(1,2)[OF ok] in \<open>auto simp: parts dpl_ok_def dpl_reserve_gap_eq\<close>)
qed

subsection \<open>Room\<close>

lemma dpl_size2bytes_bound: "320 + 32 * sz \<le> dpl_size2bytes sz"
proof -
  have "16 + sizeof_dpl + (sz + sz) * 16 \<le> ceil_powerof2 (16 + sizeof_dpl + (sz + sz) * 16) (MDBX_PNL_GRANULATE * 8 * 2)"
    by (rule ceil_powerof2_bounds(1)) (simp add: MDBX_PNL_GRANULATE_def)
  then show ?thesis unfolding dpl_size2bytes_def Let_def sizeof_dpl_def dpl_reserve_gap_eq by simp
qed

lemma txn_dpl_reserve_items:
  assumes alloc: "dp_malloc_ok alloc" "alloc (dpl_size2bytes (min sz PAGELIST_LIMIT)) = Some blk"
  shows "\<exists>dl'. txn_dpl_reserve alloc dirtylist sz = Some dl' \<and> min sz PAGELIST_LIMIT \<le> dl_detent dl' \<and>
    2 * dl_detent dl' + 18 \<le> length (dl_items dl') \<and>
    (\<forall>dl. dirtylist = Some dl \<longrightarrow> dl_items dl' = take (length blk) (dl_items dl) @ drop (length (dl_items dl)) blk \<and>
       dl_length dl' = dl_length dl \<and> dl_sorted dl' = dl_sorted dl \<and> dl_pages_including_loose dl' = dl_pages_including_loose dl)"
proof -
  define m where "m = min sz PAGELIST_LIMIT"
  have bytes: "dpl_size2bytes m \<le> 32 + 16 * length blk" using alloc by (auto simp: dp_malloc_ok_def m_def)
  have blk: "18 + 2 * m \<le> length blk" using dpl_size2bytes_bound[of m] bytes by linarith
  define n where "n = dpl_bytes2size (32 + 16 * length blk)"
  have "(32 + 16 * length blk - sizeof_dpl) div 16 = length blk - 18"
  proof -
    have "32 + 16 * length blk - sizeof_dpl = (length blk - 18) * 16" using blk by (simp add: sizeof_dpl_def dpl_reserve_gap_eq)
    then show ?thesis by simp
  qed
  then have "n = (length blk - 18) div 2" by (simp add: n_def dpl_bytes2size_def drop_bit_eq_div)
  then have n: "m \<le> n" "2 * n + 18 \<le> length blk" using blk by auto
  have "(if sz < PAGELIST_LIMIT then sz else PAGELIST_LIMIT) = m" by (simp add: m_def)
  then show ?thesis
    using alloc(2) n unfolding txn_dpl_reserve_def m_def[symmetric] n_def by (auto simp: Let_def split: option.split)
qed

lemma txn_dpl_reserve_ok:
  assumes ok: "dpl_ok dl" and alloc: "dp_malloc_ok alloc" "alloc (dpl_size2bytes (min sz PAGELIST_LIMIT)) = Some blk"
    and sz: "dl_length dl \<le> min sz PAGELIST_LIMIT" "0 < min sz PAGELIST_LIMIT"
  shows "\<exists>dl'. txn_dpl_reserve alloc (Some dl) sz = Some dl' \<and> dpl_ok dl' \<and> dpl_list dl' = dpl_list dl \<and> dl_length dl' = dl_length dl \<and>
    dl_sorted dl' = dl_sorted dl \<and> dl_pages_including_loose dl' = dl_pages_including_loose dl \<and> min sz PAGELIST_LIMIT \<le> dl_detent dl'"
proof -
  obtain dl' where r: "txn_dpl_reserve alloc (Some dl) sz = Some dl'" "min sz PAGELIST_LIMIT \<le> dl_detent dl'"
    "2 * dl_detent dl' + 18 \<le> length (dl_items dl')" "dl_items dl' = take (length blk) (dl_items dl) @ drop (length (dl_items dl)) blk"
    "dl_length dl' = dl_length dl" "dl_sorted dl' = dl_sorted dl" "dl_pages_including_loose dl' = dl_pages_including_loose dl"
    using txn_dpl_reserve_items[OF alloc, of "Some dl"] by auto
  define b where "b = dl_items dl ! 0"
  define e where "e = dl_items dl ! (dl_length dl + 1)"
  have "length (dl_items dl') = length blk" unfolding r(4) by simp
  moreover have fits: "dl_length dl \<le> dl_detent dl'" using sz(1) r(2) by (rule order_trans)
  ultimately have big: "dl_length dl + 2 \<le> length blk" using r(3) by linarith
  have items: "dl_items dl = (b # dpl_list dl @ [e]) @ dpl_rest dl" using dpl_parts[OF ok] by (simp add: b_def e_def)
  have "length (b # dpl_list dl @ [e]) = dl_length dl + 2" using dpl_room(2)[OF ok] by simp
  then have "take (length blk) (dl_items dl) = (b # dpl_list dl @ [e]) @ take (length blk - (dl_length dl + 2)) (dpl_rest dl)"
    unfolding items take_append using big by (simp only: take_all)
  then have parts: "dl_items dl' = b # dpl_list dl @ e # (take (length blk - (dl_length dl + 2)) (dpl_rest dl) @ drop (length (dl_items dl)) blk)"
    "length (dpl_list dl) = dl_length dl'"
    unfolding r(4) using dpl_room(2)[OF ok] r(5) by simp_all
  have "dl_length dl' \<le> dl_detent dl'" "0 < dl_detent dl'" using fits r(5) less_le_trans[OF sz(2) r(2)] by simp_all
  moreover have "dp_pgno (dl_items dl' ! 0) = 0" "dp_npages (dl_items dl' ! 0) = 1" "dp_pgno (dl_items dl' ! (dl_length dl' + 1)) = P_INVALID"
    unfolding dpl_listI(2,3)[OF parts] b_def e_def using ok by (simp_all add: dpl_ok_def)
  ultimately have "dpl_ok dl'"
    unfolding dpl_ok_def dpl_listI(1)[OF parts] using ok r(3,5,6) by (simp add: dpl_ok_def dpl_reserve_gap_eq)
  then show ?thesis using r dpl_listI(1)[OF parts] by auto
qed

lemma dpl_init_ok:
  assumes "2 * dl_detent dl + 18 \<le> length (dl_items dl)" "0 < dl_detent dl"
  shows "dpl_ok (dpl_init dl)" "dpl_list (dpl_init dl) = []" "dpl_counted (dpl_init dl)"
proof -
  obtain x y rest where items: "dl_items dl = x # y # rest"
    using assms(1) by (cases "dl_items dl"; cases "tl (dl_items dl)") auto
  show "dpl_list (dpl_init dl) = []" by (simp add: dpl_init_def dpl_setlen_def dpl_list_def Let_def)
  then show "dpl_counted (dpl_init dl)" by (simp add: dpl_counted_def dpl_init_def dpl_setlen_def Let_def)
  have "dl_items (dpl_init dl) = \<lparr>dp_ptr = dpl_stub_pageB, dp_pgno = 0, dp_npages = 1\<rparr> #
      \<lparr>dp_ptr = dpl_stub_pageE, dp_pgno = P_INVALID, dp_npages = 1\<rparr> # rest"
    by (simp add: dpl_init_def dpl_setlen_def Let_def items)
  moreover have "dl_length (dpl_init dl) = 0" "dl_sorted (dpl_init dl) = 0" "dl_detent (dpl_init dl) = dl_detent dl"
    by (simp_all add: dpl_init_def dpl_setlen_def Let_def)
  ultimately show "dpl_ok (dpl_init dl)"
    using assms items \<open>dpl_list (dpl_init dl) = []\<close> by (simp add: dpl_ok_def dpl_reserve_gap_eq)
qed

lemma txn_dpl_alloc_spec:
  assumes "dp_malloc_ok alloc" "0 < dp_initial" "0 < upper" "\<forall>dl. dirtylist = Some dl \<longrightarrow> dpl_ok dl"
  shows "case txn_dpl_alloc alloc nested dp_initial upper dirtylist of
      (err, dirtylist') \<Rightarrow> err = MDBX_ENOMEM \<and> dirtylist' = dirtylist \<or>
        err = MDBX_SUCCESS \<and> (\<exists>dl. dirtylist' = Some dl \<and> dpl_ok dl \<and> dpl_list dl = [] \<and> dpl_counted dl)"
proof -
  define wanna where "wanna = (if \<not> nested then if dp_initial < upper then dp_initial else upper else CURSOR_STACK_SIZE)"
  have w: "0 < min wanna PAGELIST_LIMIT"
    using assms(2,3) by (simp add: wanna_def CURSOR_STACK_SIZE_def PAGELIST_LIMIT_def MAX_PAGENO_def)
  show ?thesis
  proof (cases "case dirtylist of None \<Rightarrow> False | Some dl \<Rightarrow> \<not> (dl_detent dl < wanna \<or> wanna + wanna < dl_detent dl)")
    case True
    then obtain dl where dl: "dirtylist = Some dl" "dpl_ok dl" using assms(4) by (auto split: option.splits)
    then have "2 * dl_detent dl + 18 \<le> length (dl_items dl)" "0 < dl_detent dl" by (simp_all add: dpl_ok_def dpl_reserve_gap_eq)
    then show ?thesis using True dl(1) dpl_init_ok[of dl] by (simp add: txn_dpl_alloc_def wanna_def Let_def)
  next
    case False
    have m: "(if wanna < PAGELIST_LIMIT then wanna else PAGELIST_LIMIT) = min wanna PAGELIST_LIMIT" by simp
    show ?thesis
    proof (cases "alloc (dpl_size2bytes (min wanna PAGELIST_LIMIT))")
      case None
      then have "txn_dpl_reserve alloc dirtylist wanna = None" by (simp add: txn_dpl_reserve_def m)
      then show ?thesis using False unfolding txn_dpl_alloc_def wanna_def[symmetric] Let_def by simp
    next
      case (Some blk)
      obtain dl where "txn_dpl_reserve alloc dirtylist wanna = Some dl" "min wanna PAGELIST_LIMIT \<le> dl_detent dl"
        "2 * dl_detent dl + 18 \<le> length (dl_items dl)"
        using txn_dpl_reserve_items[OF assms(1) Some] by blast
      moreover have "0 < dl_detent dl" using w \<open>min wanna PAGELIST_LIMIT \<le> dl_detent dl\<close> by (rule less_le_trans)
      ultimately show ?thesis using False dpl_init_ok[of dl] unfolding txn_dpl_alloc_def wanna_def[symmetric] Let_def by simp
    qed
  qed
qed

subsection \<open>Removing\<close>

lemma txn_dpl_remove_ok:
  assumes ok: "dpl_ok dl" and i: "0 < i" "i \<le> dl_length dl"
  shows "\<exists>dl'. txn_dpl_remove i dl = Some dl' \<and> dpl_ok dl' \<and> dpl_list dl' = take (i - 1) (dpl_list dl) @ drop i (dpl_list dl) \<and>
    length (dl_items dl') = length (dl_items dl) \<and> (dpl_counted dl \<longrightarrow> dpl_counted dl')"
proof -
  define b where "b = dl_items dl ! 0"
  define e where "e = dl_items dl ! (dl_length dl + 1)"
  define as where "as = take (i - 1) (dpl_list dl)"
  define bs where "bs = drop i (dpl_list dl)"
  define d where "d = dpl_list dl ! (i - 1)"
  have ds: "dpl_list dl = as @ d # bs" "length as = i - 1" "length bs = dl_length dl - i"
    using id_take_nth_drop[of "i - 1" "dpl_list dl"] i dpl_room(2)[OF ok] by (simp_all add: as_def bs_def d_def)
  have items: "dl_items dl = (b # as) @ d # bs @ e # dpl_rest dl" using dpl_parts[OF ok] by (simp add: b_def e_def ds(1))
  have "drop (i + 1) (dl_items dl) = bs @ e # dpl_rest dl" unfolding items using i ds(2) by simp
  then have moved: "take (dl_length dl - 1 + 2 - i) (drop (i + 1) (dl_items dl)) = bs @ [e]" using i ds(3) by (simp add: Suc_diff_le)
  have n: "dl_length dl - 1 + 2 - i = length (bs @ [e])" using i ds(3) by simp
  have "overwritten i (bs @ [e]) (dl_items dl) = (b # as) @ overwritten 0 (bs @ [e]) (d # bs @ e # dpl_rest dl)"
    unfolding items by (rule overwritten_behind) (use i ds(2) in simp)
  also have "overwritten 0 (bs @ [e]) (d # bs @ e # dpl_rest dl) = bs @ e # e # dpl_rest dl" by (simp add: overwritten_def)
  finally have over: "overwrite i (bs @ [e]) (dl_items dl) = Some ((b # as) @ bs @ e # e # dpl_rest dl)"
    using i ds by (simp add: overwrite_def items)
  have inside: "\<not> length (dl_items dl) < i + 1 + length (bs @ [e])" using i ds by (simp add: items)
  define dl' where "dl' = dl\<lparr>dl_pages_including_loose := sub64 (dl_pages_including_loose dl) (dp_npages d),
    dl_sorted := dl_sorted dl - (if i \<le> dl_sorted dl then 1 else 0), dl_length := dl_length dl - 1,
    dl_items := (b # as) @ bs @ e # e # dpl_rest dl\<rparr>"
  have some: "txn_dpl_remove i dl = Some dl'"
    using dpl_nth[OF ok i] unfolding txn_dpl_remove_def txn_dpl_remove_ex_def Let_def moved unfolding n using over inside
    by (simp add: dl'_def dpl_npages_def d_def)
  have fields: "dl_length dl' = dl_length dl - 1" "dl_detent dl' = dl_detent dl"
    "dl_sorted dl' = dl_sorted dl - (if i \<le> dl_sorted dl then 1 else 0)"
    "dl_pages_including_loose dl' = sub64 (dl_pages_including_loose dl) (dp_npages d)" by (simp_all add: dl'_def)
  have parts: "dl_items dl' = b # (as @ bs) @ e # e # dpl_rest dl" "length (as @ bs) = dl_length dl'"
    using i ds by (simp_all add: dl'_def)
  have list: "dpl_list dl' = take (i - 1) (dpl_list dl) @ drop i (dpl_list dl)"
    using dpl_listI(1)[OF parts] by (simp only: as_def bs_def)
  have asc: "ascending (take (dl_sorted dl) (as @ d # bs))" using ok by (simp add: dpl_ok_def ds(1))
  have "ascending (take (dl_sorted dl') (as @ bs))"
  proof (cases "i \<le> dl_sorted dl")
    case True
    then obtain k where k: "dl_sorted dl = i + k" using le_Suc_ex by blast
    then show ?thesis using asc i ds(2) unfolding fields(3) by (simp add: sorted_wrt_append Suc_diff_le)
  next
    case False
    then show ?thesis using asc i ds(2) unfolding fields(3) by simp
  qed
  then have "dpl_ok dl'"
    by (intro dpl_okI[OF ok parts])
      (use ok i ds fields dpl_ok_parts(1)[OF ok] parts in \<open>auto simp: dpl_ok_def dpl_reserve_gap_eq b_def e_def\<close>)
  moreover have "dpl_counted dl'" if "dpl_counted dl"
    using that unfolding dpl_counted_def dpl_listI(1)[OF parts] fields(4) by (simp add: ds(1) sub64_def)
  moreover have "length (dl_items dl') = length (dl_items dl)" using parts(1) by (simp add: items)
  ultimately show ?thesis using some list by blast
qed

subsection \<open>Sifting\<close>

abbreviation sift_keys :: "nat \<Rightarrow> pgno list \<Rightarrow> pgno set" where "sift_keys spilled ps \<equiv> drop_bit spilled ` set ps"

text \<open>The first loop passes what stays and stops at the first entry to drop.\<close>

definition dpl_scanned :: "nat \<Rightarrow> nat \<Rightarrow> dp list \<Rightarrow> pgno list \<Rightarrow> (nat \<times> pgno list) option \<Rightarrow> bool" where
  "dpl_scanned spilled n vs ps res \<longleftrightarrow> (case res of
      None \<Rightarrow> \<forall>v \<in> set vs. dp_pgno v \<notin> sift_keys spilled ps
    | Some (r, ps') \<Rightarrow> \<exists>xs ys. vs = xs @ ys \<and> r = n + length xs + 1 \<and> ys \<noteq> [] \<and> (\<forall>v \<in> set xs. dp_pgno v \<notin> sift_keys spilled ps) \<and>
        (\<forall>v \<in> set ys. dp_pgno v \<in> sift_keys spilled ps \<longleftrightarrow> dp_pgno v \<in> sift_keys spilled ps') \<and>
        sorted (map (drop_bit spilled) ps'))"

lemma dpl_scanned_pass:
  assumes v: "dp_pgno v \<notin> sift_keys spilled ps" and s: "dpl_scanned spilled (Suc n) vs ps res"
  shows "dpl_scanned spilled n (v # vs) ps res"
proof (cases res)
  case None
  then show ?thesis using v s by (simp add: dpl_scanned_def)
next
  case (Some rp)
  obtain r ps' where rp: "rp = (r, ps')" by (cases rp)
  obtain xs ys where "vs = xs @ ys" "r = Suc n + length xs + 1" "ys \<noteq> []" "\<forall>v \<in> set xs. dp_pgno v \<notin> sift_keys spilled ps"
    "\<forall>v \<in> set ys. dp_pgno v \<in> sift_keys spilled ps \<longleftrightarrow> dp_pgno v \<in> sift_keys spilled ps'" "sorted (map (drop_bit spilled) ps')"
    using s unfolding Some rp dpl_scanned_def option.case prod.case by blast
  then show ?thesis unfolding Some rp dpl_scanned_def option.case prod.case
    by (intro exI[of _ "v # xs"] exI[of _ ys]) (simp add: v)
qed

lemma dpl_scanned_skip:
  assumes "\<forall>w \<in> set vs. dp_pgno w \<in> sift_keys spilled ps \<longleftrightarrow> dp_pgno w \<in> sift_keys spilled qs" "dpl_scanned spilled n vs qs res"
  shows "dpl_scanned spilled n vs ps res"
proof (cases res)
  case None
  then show ?thesis using assms by (simp add: dpl_scanned_def)
next
  case (Some rp)
  obtain r ps' where rp: "rp = (r, ps')" by (cases rp)
  obtain xs ys where "vs = xs @ ys" "r = n + length xs + 1" "ys \<noteq> []" "\<forall>v \<in> set xs. dp_pgno v \<notin> sift_keys spilled qs"
    "\<forall>v \<in> set ys. dp_pgno v \<in> sift_keys spilled qs \<longleftrightarrow> dp_pgno v \<in> sift_keys spilled ps'" "sorted (map (drop_bit spilled) ps')"
    using assms(2) unfolding Some rp dpl_scanned_def option.case prod.case by blast
  then show ?thesis unfolding Some rp dpl_scanned_def option.case prod.case using assms(1)
    by (intro exI[of _ xs] exI[of _ ys]) simp
qed

lemma dpl_sift_scan_spec:
  assumes "dl_items dl = b # us @ vs @ rest" "dl_length dl = length us + length vs"
    and "sorted (map (drop_bit spilled) ps)" "ascending vs"
  shows "dpl_scanned spilled (length us) vs ps (dpl_sift_scan spilled dl ps (length us + 1))"
  using assms
proof (induction "length vs + length ps" arbitrary: us vs ps rule: less_induct)
  case less
  show ?case
  proof (cases "ps = [] \<or> vs = []")
    case True
    then have "dpl_sift_scan spilled dl ps (length us + 1) = None"
      using less.prems(2) by (subst dpl_sift_scan.simps) (auto split: list.splits)
    then show ?thesis using True by (auto simp: dpl_scanned_def)
  next
    case False
    then obtain p qs v vs' where ps: "ps = p # qs" and vs: "vs = v # vs'" by (metis neq_Nil_conv)
    have r: "dl_items dl ! (length us + 1) = v" using less.prems(1) vs by (simp add: nth_append)
    have in_len: "\<not> dl_length dl < length us + 1" using less.prems(2) vs by simp
    have scan: "dpl_sift_scan spilled dl ps (length us + 1) =
        (if dp_pgno v = drop_bit spilled p then Some (length us + 1, ps)
         else if dp_pgno v < drop_bit spilled p then dpl_sift_scan spilled dl ps (length us + 1 + 1)
         else dpl_sift_scan spilled dl qs (length us + 1))"
      by (subst dpl_sift_scan.simps) (simp only: ps list.case in_len r Let_def if_False)
    consider "dp_pgno v = drop_bit spilled p" | "dp_pgno v < drop_bit spilled p" | "drop_bit spilled p < dp_pgno v" by linarith
    then show ?thesis
    proof cases
      case 1
      then show ?thesis using vs less.prems(3) unfolding scan by (auto simp: dpl_scanned_def intro!: exI[of _ "[]"])
    next
      case 2
      have "dpl_scanned spilled (length (us @ [v])) vs' ps (dpl_sift_scan spilled dl ps (length (us @ [v]) + 1))"
        by (rule less.hyps) (use less.prems vs in simp_all)
      moreover have "dp_pgno v \<notin> sift_keys spilled ps" using 2 less.prems(3) ps by auto
      ultimately show ?thesis unfolding scan using 2 by (simp add: vs dpl_scanned_pass)
    next
      case 3
      have "dpl_scanned spilled (length us) vs qs (dpl_sift_scan spilled dl qs (length us + 1))"
        by (rule less.hyps) (use less.prems ps in simp_all)
      moreover have "\<forall>w \<in> set vs. dp_pgno w \<in> sift_keys spilled ps \<longleftrightarrow> dp_pgno w \<in> sift_keys spilled qs"
        using 3 ps less.prems(4) vs by (auto simp: DP_SORT_CMP_def)
      ultimately have "dpl_scanned spilled (length us) vs ps (dpl_sift_scan spilled dl qs (length us + 1))"
        by (rule dpl_scanned_skip[rotated])
      then show ?thesis unfolding scan using 3 by simp
    qed
  qed
qed

text \<open>The second loop moves what stays to the front and gives the rest up.\<close>

definition dpl_sifted :: "dp \<Rightarrow> dp list \<Rightarrow> dp list \<Rightarrow> dp list \<Rightarrow> dp list \<Rightarrow> pgno set \<Rightarrow> nat \<Rightarrow> dp list \<Rightarrow> nat \<times> nat \<times> dp list \<times> nat \<times> dp list \<Rightarrow> bool" where
  "dpl_sifted b ks gap vs rest K pages released res \<longleftrightarrow>
     (let kept = filter (\<lambda>v. dp_pgno v \<notin> K) vs; dropped = filter (\<lambda>v. dp_pgno v \<in> K) vs
      in \<exists>gap'. length gap' = length gap + length dropped \<and>
        res = (length ks + length kept + 1, length ks + length gap + length vs + 1, b # (ks @ kept) @ gap' @ rest,
               foldl sub64 pages (map dp_npages dropped), released @ dropped))"

lemma dpl_sifted_keep:
  assumes "dp_pgno v \<notin> K" "length gap' = length gap" "dpl_sifted b (ks @ [v]) gap' vs rest K pages released res"
  shows "dpl_sifted b ks gap (v # vs) rest K pages released res"
  using assms by (simp add: dpl_sifted_def Let_def)

lemma dpl_sifted_drop:
  assumes "dp_pgno v \<in> K" "dpl_sifted b ks (gap @ [v]) vs rest K (sub64 pages (dp_npages v)) (released @ [v]) res"
  shows "dpl_sifted b ks gap (v # vs) rest K pages released res"
  using assms by (simp add: dpl_sifted_def Let_def)

lemma dpl_sifted_cong:
  assumes "\<forall>v \<in> set vs. dp_pgno v \<in> K \<longleftrightarrow> dp_pgno v \<in> L" "dpl_sifted b ks gap vs rest L pages released res"
  shows "dpl_sifted b ks gap vs rest K pages released res"
proof -
  have "filter (\<lambda>v. dp_pgno v \<in> K) vs = filter (\<lambda>v. dp_pgno v \<in> L) vs" "filter (\<lambda>v. dp_pgno v \<notin> K) vs = filter (\<lambda>v. dp_pgno v \<notin> L) vs"
    using assms(1) by (intro filter_cong; simp)+
  then show ?thesis using assms(2) unfolding dpl_sifted_def by simp
qed

lemma dpl_sift_move:
  "\<exists>gap'. (b # ks @ gap @ v # vs)[length ks + 1 := v] = b # (ks @ [v]) @ gap' @ vs \<and> length gap' = length gap"
proof (cases gap)
  case Nil
  then show ?thesis by (intro exI[of _ "[]"]) (simp add: list_update_append)
next
  case (Cons g gs)
  then show ?thesis by (intro exI[of _ "gs @ [v]"]) (simp add: list_update_append)
qed

lemma dpl_sift_update_spec:
  assumes "items = b # ks @ gap @ vs @ rest" "w = length ks + 1" "r = length ks + length gap + 1"
    and "len = length ks + length gap + length vs" "sorted (map (drop_bit spilled) ps)" "ascending vs"
  shows "dpl_sifted b ks gap vs rest (sift_keys spilled ps) pages released (dpl_sift_update spilled len ps w r items pages released)"
  using assms
proof (induction "length vs + length ps" arbitrary: ks gap vs ps w r items pages released rule: less_induct)
  case less
  let ?upd = "dpl_sift_update spilled len"
  show ?case
  proof (cases vs)
    case Nil
    then have "?upd ps w r items pages released = (w, r, items, pages, released)"
      using less.prems(3,4) by (subst dpl_sift_update.simps) simp
    then show ?thesis using Nil less.prems by (simp add: dpl_sifted_def)
  next
    case vs: (Cons v vs')
    have r: "items ! r = v" unfolding less.prems(1,3) by (simp add: vs nth_append)
    have in_len: "\<not> len < r" using less.prems(3,4) vs by simp
    note unfolded = dpl_sift_update.simps[of spilled len _ w r items pages released, unfolded r Let_def if_not_P[OF in_len]]
    have asc: "ascending vs'" "\<forall>x \<in> set vs'. dp_pgno v < dp_pgno x" using less.prems(6) vs by (simp_all add: DP_SORT_CMP_def)
    have keep: ?thesis if stays: "dp_pgno v \<notin> sift_keys spilled ps"
      and step: "?upd ps w r items pages released = ?upd ps (w + 1) (r + 1) (items[w := v]) pages released"
    proof -
      obtain gap' where g: "items[w := v] = b # (ks @ [v]) @ gap' @ vs' @ rest" "length gap' = length gap"
        using dpl_sift_move[of b ks gap v "vs' @ rest"] less.prems(1,2) vs by auto
      have "dpl_sifted b (ks @ [v]) gap' vs' rest (sift_keys spilled ps) pages released (?upd ps (w + 1) (r + 1) (items[w := v]) pages released)"
        by (rule less.hyps[OF _ g(1)]) (use less.prems vs g(2) asc in simp_all)
      then show ?thesis unfolding step vs by (rule dpl_sifted_keep[OF stays g(2)])
    qed
    show ?thesis
    proof (cases ps)
      case Nil
      have "?upd ps w r items pages released = ?upd ps (w + 1) (r + 1) (items[w := v]) pages released"
        unfolding Nil by (subst unfolded) simp
      then show ?thesis using keep Nil by simp
    next
      case ps: (Cons p qs)
      have qs: "sorted (map (drop_bit spilled) qs)" using less.prems(5) ps by simp
      consider "dp_pgno v < drop_bit spilled p" | "drop_bit spilled p < dp_pgno v" | "dp_pgno v = drop_bit spilled p" by linarith
      then show ?thesis
      proof cases
        case 1
        have "?upd ps w r items pages released = ?upd ps (w + 1) (r + 1) (items[w := v]) pages released"
          unfolding ps by (subst unfolded) (simp add: 1)
        moreover have "dp_pgno v \<notin> sift_keys spilled ps" using 1 less.prems(5) ps by auto
        ultimately show ?thesis using keep by blast
      next
        case 2
        have step: "?upd ps w r items pages released = ?upd qs w r items pages released"
          unfolding ps by (subst unfolded) (use 2 in simp)
        have "\<forall>x \<in> set vs. dp_pgno x \<in> sift_keys spilled ps \<longleftrightarrow> dp_pgno x \<in> sift_keys spilled qs"
          using 2 asc(2) ps vs by fastforce
        then show ?thesis unfolding step
          by (rule dpl_sifted_cong) (rule less.hyps[OF _ less.prems(1-4) qs less.prems(6)], simp add: ps)
      next
        case 3
        have step: "?upd ps w r items pages released = ?upd qs w (r + 1) items (sub64 pages (dp_npages v)) (released @ [v])"
          unfolding ps by (subst unfolded) (simp add: 3)
        have items: "items = b # ks @ (gap @ [v]) @ vs' @ rest" using less.prems(1) vs by simp
        have "dpl_sifted b ks (gap @ [v]) vs' rest (sift_keys spilled qs) (sub64 pages (dp_npages v)) (released @ [v]) (?upd ps w r items pages released)"
          unfolding step by (rule less.hyps[OF _ items]) (use less.prems vs qs asc in \<open>simp_all add: ps\<close>)
        moreover have "\<forall>x \<in> set vs'. dp_pgno x \<in> sift_keys spilled ps \<longleftrightarrow> dp_pgno x \<in> sift_keys spilled qs"
          using 3 asc(2) ps by fastforce
        ultimately have "dpl_sifted b ks (gap @ [v]) vs' rest (sift_keys spilled ps) (sub64 pages (dp_npages v)) (released @ [v]) (?upd ps w r items pages released)"
          by (rule dpl_sifted_cong[rotated])
        then show ?thesis unfolding vs by (rule dpl_sifted_drop[rotated]) (simp add: 3 ps)
      qed
    qed
  qed
qed

text \<open>What the loops leave, once the stub is put behind it.\<close>

lemma dpl_sifted_ok:
  assumes ok: "dpl_ok dl" and asc: "ascending (dpl_list dl)" and vs: "dpl_list dl = us @ vs" and out: "\<forall>u \<in> set us. dp_pgno u \<notin> K"
    and res: "dpl_sifted (dl_items dl ! 0) us [] vs ((dl_items dl ! (dl_length dl + 1)) # dpl_rest dl) K
      (dl_pages_including_loose dl) [] (w, r, items, pages, released)"
  defines "dl' \<equiv> (dpl_setlen (w - 1) (dl\<lparr>dl_items := items, dl_pages_including_loose := pages\<rparr>))\<lparr>dl_sorted := w - 1\<rparr>"
  shows "dpl_ok dl'" "dpl_list dl' = filter (\<lambda>d. dp_pgno d \<notin> K) (dpl_list dl)" "released = filter (\<lambda>d. dp_pgno d \<in> K) (dpl_list dl)"
    "r - w = length released" "dpl_counted dl \<Longrightarrow> dpl_counted dl'" "dl_sorted dl' = dl_length dl'"
proof -
  define b where "b = dl_items dl ! 0"
  define kept where "kept = filter (\<lambda>d. dp_pgno d \<notin> K) (dpl_list dl)"
  define stub where "stub = \<lparr>dp_ptr = dpl_stub_pageE, dp_pgno = P_INVALID, dp_npages = 1\<rparr>"
  let ?dropped = "filter (\<lambda>d. dp_pgno d \<in> K) (dpl_list dl)"
  let ?rest = "(dl_items dl ! (dl_length dl + 1)) # dpl_rest dl"
  have us: "filter (\<lambda>d. dp_pgno d \<notin> K) us = us" "filter (\<lambda>d. dp_pgno d \<in> K) us = []" using out by (simp_all add: filter_True filter_False)
  have len: "length us + length vs = dl_length dl" using dpl_room(2)[OF ok] vs by simp
  obtain gap where r: "w = length kept + 1" "r = dl_length dl + 1" "items = b # kept @ gap @ ?rest" "length gap = length ?dropped"
    "pages = foldl sub64 (dl_pages_including_loose dl) (map dp_npages ?dropped)" "released = ?dropped"
    using res len unfolding dpl_sifted_def Let_def by (auto simp: vs us kept_def b_def)
  have lens: "length kept + length ?dropped = dl_length dl"
    using sum_length_filter_compl[of "\<lambda>d. dp_pgno d \<in> K" "dpl_list dl"] dpl_room(2)[OF ok] by (simp add: kept_def)
  obtain x rest where x: "gap @ ?rest = x # rest" by (cases "gap @ ?rest") simp_all
  have "length rest = length gap + length (dpl_rest dl)" using arg_cong[OF x, of length] by simp
  then have lr: "length rest + 2 + length kept = length (dl_items dl)" using r(4) lens dpl_ok_parts(1)[OF ok] by simp
  have parts: "dl_items dl' = b # kept @ stub # rest" "length kept = dl_length dl'"
    unfolding dl'_def dpl_setlen_def r(1,3) x stub_def by (simp_all add: list_update_append)
  show rel: "released = ?dropped" by (rule r(6))
  show "r - w = length released" using r lens by simp
  show list: "dpl_list dl' = kept" by (rule dpl_listI(1)[OF parts])
  show full: "dl_sorted dl' = dl_length dl'" by (simp add: dl'_def dpl_setlen_def)
  have same: "dl_detent dl' = dl_detent dl" "dl_pages_including_loose dl' = pages" by (simp_all add: dl'_def dpl_setlen_def)
  have "distinct (map dp_pgno kept)" using ok by (simp add: kept_def dpl_ok_def distinct_map_filter)
  moreover have "ascending kept" using asc by (simp add: kept_def sorted_wrt_filter)
  ultimately show "dpl_ok dl'"
    by (intro dpl_okI[OF ok parts]) (use ok lens lr same full parts in \<open>auto simp: b_def stub_def kept_def dpl_ok_def dpl_reserve_gap_eq\<close>)
  show "dpl_counted dl'" if "dpl_counted dl"
  proof -
    have "sum_list (map dp_npages ?dropped) + sum_list (map dp_npages kept) = dl_pages_including_loose dl"
      using that sum_list_parts[of dp_npages "\<lambda>d. dp_pgno d \<in> K" "dpl_list dl"] by (simp add: dpl_counted_def kept_def)
    then show ?thesis using foldl_sub64[of "map dp_npages ?dropped" "dl_pages_including_loose dl"]
      by (simp add: dpl_counted_def list same(2) r(5))
  qed
qed

text \<open>Where the binary search splits a list that is sorted as a whole.\<close>

lemma dp_bsearch_splits:
  assumes ok: "dpl_ok dl" and full: "dl_sorted dl = dl_length dl"
  obtains us vs where "dpl_list dl = us @ vs" "dp_bsearch dl p = length us + 1" "dl_length dl = length us + length vs"
    "\<forall>u \<in> set us. dp_pgno u < p"
proof -
  define r where "r = dp_bsearch dl p"
  have pos: "1 \<le> r" "r \<le> dl_length dl + 1" using dp_bsearch_position(1,2)[OF ok, of p] full by (simp_all add: r_def)
  have "dp_pgno u < p" if u: "u \<in> set (take (r - 1) (dpl_list dl))" for u
  proof -
    obtain i where i: "i < r - 1" "u = dpl_list dl ! i" using u pos dpl_room(2)[OF ok] by (auto simp: in_set_conv_nth)
    have "u = dl_items dl ! (i + 1)" using i pos dpl_nth[OF ok, of "i + 1"] by simp
    moreover have "1 < r" using i(1) by linarith
    then have "dp_pgno (dl_items dl ! (r - 1)) < p" unfolding r_def by (intro dp_bsearch_position(3)[OF ok]) simp
    moreover have "i + 1 = r - 1 \<or> i + 1 < r - 1" using i(1) by linarith
    moreover have "r - 1 \<le> dl_sorted dl" using pos(2) full by linarith
    ultimately show ?thesis using dpl_nth_ascending[OF ok, of "i + 1" "r - 1"] by auto
  qed
  then show ?thesis
  proof (intro that[of "take (r - 1) (dpl_list dl)" "drop (r - 1) (dpl_list dl)"] ballI)
    show "dpl_list dl = take (r - 1) (dpl_list dl) @ drop (r - 1) (dpl_list dl)" by (rule append_take_drop_id[symmetric])
    show "dp_bsearch dl p = length (take (r - 1) (dpl_list dl)) + 1" using pos dpl_room(2)[OF ok] by (simp flip: r_def)
    show "dl_length dl = length (take (r - 1) (dpl_list dl)) + length (drop (r - 1) (dpl_list dl))"
      using pos dpl_room(2)[OF ok] by simp
  qed
qed

lemma txn_dpl_sift_spec:
  assumes ok: "dpl_ok dl" and pl: "pnl_ok pl" "sorted (rev (pnl_list pl))" and last: "\<forall>p \<in> set (pnl_list pl). drop_bit (of_bool spilled) p < P_INVALID"
  defines "K \<equiv> drop_bit (of_bool spilled) ` set (pnl_list pl)"
  shows "\<exists>dl' released. txn_dpl_sift pl spilled dirtyroom dl = Some (dl', dirtyroom + length released, released) \<and> dpl_ok dl' \<and>
    mset (dpl_list dl') = filter_mset (\<lambda>d. dp_pgno d \<notin> K) (mset (dpl_list dl)) \<and>
    mset released = filter_mset (\<lambda>d. dp_pgno d \<in> K) (mset (dpl_list dl)) \<and> (dpl_counted dl \<longrightarrow> dpl_counted dl')"
proof (cases "pnl_size pl = 0 \<or> dl_length dl = 0")
  case True
  then have "K = {} \<or> dpl_list dl = []" using dpl_room(2)[OF ok] by (auto simp: K_def pnl_list_def)
  then show ?thesis using True ok by (auto simp: txn_dpl_sift_def)
next
  case False
  let ?sh = "of_bool spilled :: nat" and ?ps = "rev (pnl_list pl)"
  have ne: "?ps \<noteq> []" using False length_pnl_list[OF pl(1)] by auto
  have ps: "sorted (map (drop_bit ?sh) ?ps)"
    using pl(2) unfolding sorted_map by (rule sorted_wrt_mono_rel[rotated]) (rule drop_bit_mono)
  have K: "sift_keys ?sh ?ps = K" by (simp add: K_def)
  obtain d1 where d1: "txn_dpl_sort dl = Some d1" "dpl_ok d1" "mset (dpl_list d1) = mset (dpl_list dl)" "ascending (dpl_list d1)"
    "dl_sorted d1 = dl_length d1" "dl_length d1 = dl_length dl" "dl_pages_including_loose d1 = dl_pages_including_loose dl"
    using txn_dpl_sort_spec[OF ok] by blast
  have counted: "dpl_counted dl \<longleftrightarrow> dpl_counted d1"
    using d1(3,7) by (simp add: dpl_counted_def) (metis mset_map sum_mset_sum_list)
  define p where "p = drop_bit ?sh (hd ?ps)"
  have p: "p < P_INVALID" using last ne by (simp add: p_def hd_rev)
  define r where "r = dp_bsearch d1 p"
  have found: "txn_dpl_search d1 p = Some (r, d1)" using txn_dpl_search_spec[OF d1(2) p] d1(5) by (auto simp: r_def)
  obtain us vs where list: "dpl_list d1 = us @ vs" "r = length us + 1" "dl_length d1 = length us + length vs" "\<forall>u \<in> set us. dp_pgno u < p"
    using dp_bsearch_splits[OF d1(2,5), of p] unfolding r_def by metis
  have "\<forall>q \<in> K. p \<le> q" using ps ne unfolding K[symmetric] p_def by (cases ?ps) auto
  then have low: "\<forall>u \<in> set us. dp_pgno u \<notin> K" using list(4) by (metis not_less)
  define e where "e = (dl_items d1 ! (dl_length d1 + 1)) # dpl_rest d1"
  have items: "dl_items d1 = (dl_items d1 ! 0) # us @ vs @ e" using dpl_parts[OF d1(2)] by (simp add: list(1) e_def)
  have asc: "ascending vs" using d1(4) by (simp add: list(1) sorted_wrt_append)
  have scan: "dpl_scanned ?sh (length us) vs ?ps (dpl_sift_scan ?sh d1 ?ps r)"
    using dpl_sift_scan_spec[OF items list(3) ps asc] list(2) by simp
  have sift: "txn_dpl_sift pl spilled dirtyroom dl =
      (case dpl_sift_scan ?sh d1 ?ps r of None \<Rightarrow> Some (d1, dirtyroom, [])
       | Some (r, ps) \<Rightarrow>
           (case dpl_sift_update ?sh (dl_length d1) ps r r (dl_items d1) (dl_pages_including_loose d1) [] of
              (w, r, items, pages, released) \<Rightarrow>
                Some ((dpl_setlen (w - 1) (d1\<lparr>dl_items := items, dl_pages_including_loose := pages\<rparr>))\<lparr>dl_sorted := w - 1\<rparr>,
                      dirtyroom + (r - w), released)))"
    using False unfolding txn_dpl_sift_def Let_def by (simp add: d1(1) p_def[symmetric] found)
  show ?thesis
  proof (cases "dpl_sift_scan ?sh d1 ?ps r")
    case None
    then have "\<forall>d \<in> set (dpl_list d1). dp_pgno d \<notin> K" using scan low unfolding dpl_scanned_def K by (auto simp: list(1))
    then have "filter_mset (\<lambda>d. dp_pgno d \<notin> K) (mset (dpl_list d1)) = mset (dpl_list d1)"
      "filter_mset (\<lambda>d. dp_pgno d \<in> K) (mset (dpl_list d1)) = {#}"
      by (simp_all flip: mset_filter add: filter_True filter_False)
    then show ?thesis using None d1 counted by (simp add: sift)
  next
    case (Some rp)
    obtain r' ps' where rp: "rp = (r', ps')" by (cases rp)
    obtain xs ys where s: "vs = xs @ ys" "r' = length us + length xs + 1" "\<forall>v \<in> set xs. dp_pgno v \<notin> K"
      "\<forall>v \<in> set ys. dp_pgno v \<in> K \<longleftrightarrow> dp_pgno v \<in> sift_keys ?sh ps'" "sorted (map (drop_bit ?sh) ps')"
      using scan unfolding Some rp dpl_scanned_def option.case prod.case K by blast
    obtain w q items' pages released where u:
      "dpl_sift_update ?sh (dl_length d1) ps' r' r' (dl_items d1) (dl_pages_including_loose d1) [] = (w, q, items', pages, released)"
      by (rule prod_cases5)
    have asc': "ascending ys" using asc by (simp add: s(1) sorted_wrt_append)
    have "dpl_sifted (dl_items d1 ! 0) (us @ xs) [] ys e (sift_keys ?sh ps') (dl_pages_including_loose d1) [] (w, q, items', pages, released)"
      unfolding u[symmetric] by (rule dpl_sift_update_spec) (use items s list asc' in simp_all)
    then have res: "dpl_sifted (dl_items d1 ! 0) (us @ xs) [] ys e K (dl_pages_including_loose d1) [] (w, q, items', pages, released)"
      by (rule dpl_sifted_cong[rotated]) (use s(4) in simp)
    have "dpl_list d1 = (us @ xs) @ ys" "\<forall>u \<in> set (us @ xs). dp_pgno u \<notin> K" using list(1) s low by auto
    note fin = dpl_sifted_ok[OF d1(2,4) this res[unfolded e_def]]
    show ?thesis
      unfolding sift Some rp option.case prod.case u using fin(1,2,3,4,5) counted d1(3)[symmetric] by (simp flip: mset_filter)
  qed
qed

subsection \<open>Runs of pages\<close>

text \<open>The runs of the entries do not overlap and end below the last page number.\<close>

definition dpl_apart :: "dpl \<Rightarrow> bool" where
  "dpl_apart dl \<longleftrightarrow> sorted_wrt (\<lambda>a b. dp_pgno a + dp_npages a \<le> dp_pgno b) (dpl_list dl) \<and>
     (\<forall>d \<in> set (dpl_list dl). 0 < dp_npages d \<and> dp_pgno d + dp_npages d \<le> P_INVALID)"

lemma dpl_apart_nth:
  assumes ok: "dpl_ok dl" and apart: "dpl_apart dl"
  shows "0 < i \<Longrightarrow> i < j \<Longrightarrow> j \<le> dl_length dl \<Longrightarrow> dp_pgno (dl_items dl ! i) + dp_npages (dl_items dl ! i) \<le> dp_pgno (dl_items dl ! j)"
    and "0 < i \<Longrightarrow> i \<le> dl_length dl \<Longrightarrow> 0 < dp_npages (dl_items dl ! i) \<and> dp_pgno (dl_items dl ! i) + dp_npages (dl_items dl ! i) \<le> P_INVALID"
proof -
  have runs: "sorted_wrt (\<lambda>a b. dp_pgno a + dp_npages a \<le> dp_pgno b) (dpl_list dl)" using apart by (simp add: dpl_apart_def)
  show "dp_pgno (dl_items dl ! i) + dp_npages (dl_items dl ! i) \<le> dp_pgno (dl_items dl ! j)" if "0 < i" "i < j" "j \<le> dl_length dl"
    using sorted_wrt_nth_less[OF runs, of "i - 1" "j - 1"] that dpl_nth[OF ok, of i] dpl_nth[OF ok, of j] dpl_room(2)[OF ok] by simp
  show "0 < dp_npages (dl_items dl ! i) \<and> dp_pgno (dl_items dl ! i) + dp_npages (dl_items dl ! i) \<le> P_INVALID" if "0 < i" "i \<le> dl_length dl"
    using apart that dpl_nth[OF ok that] dpl_room(2)[OF ok] by (simp add: dpl_apart_def)
qed

lemma dpl_endpgno_nth:
  assumes "dpl_ok dl" "dpl_apart dl" "i \<le> dl_length dl"
  shows "dpl_endpgno dl i = dp_pgno (dl_items dl ! i) + dp_npages (dl_items dl ! i)"
proof (cases "i = 0")
  case True
  then show ?thesis using assms(1) by (simp add: dpl_endpgno_def dpl_npages_def dpl_ok_def)
next
  case False
  then have "dp_pgno (dl_items dl ! i) + dp_npages (dl_items dl ! i) < 2 ^ 32"
    using dpl_apart_nth(2)[OF assms(1,2), of i] assms(3) by (simp add: P_INVALID_def)
  then show ?thesis by (simp add: dpl_endpgno_def dpl_npages_def add.commute)
qed

lemma txn_dpl_intersect_spec:
  assumes ok: "dpl_ok dl" "dl_sorted dl = dl_length dl" "dpl_apart dl" and range: "0 < pgno" "0 < npages" "pgno + npages \<le> P_INVALID"
  shows "txn_dpl_intersect dl pgno npages =
    Some (\<exists>j. 0 < j \<and> j \<le> dl_length dl \<and> dp_pgno (dl_items dl ! j) < pgno + npages \<and>
      pgno < dp_pgno (dl_items dl ! j) + dp_npages (dl_items dl ! j), dl)"
proof -
  define n where "n = dp_bsearch dl pgno"
  have p: "pgno < P_INVALID" using range by simp
  have found: "txn_dpl_search dl pgno = Some (n, dl)" using txn_dpl_search_spec[OF ok(1) p] ok(2) by (auto simp: n_def)
  have n: "1 \<le> n" "n \<le> dl_length dl + 1" "dp_pgno (dl_items dl ! (n - 1)) < pgno" "n \<le> dl_length dl \<Longrightarrow> pgno \<le> dp_pgno (dl_items dl ! n)"
    using dp_bsearch_position[OF ok(1), of pgno] ok(2) range(1) by (simp_all add: n_def)
  have stub: "dp_pgno (dl_items dl ! (dl_length dl + 1)) = P_INVALID" "dp_pgno (dl_items dl ! 0) = 0" "dp_npages (dl_items dl ! 0) = 1"
    using ok(1) by (simp_all add: dpl_ok_def)
  have last: "dpl_endpgno dl (n - 1) = dp_pgno (dl_items dl ! (n - 1)) + dp_npages (dl_items dl ! (n - 1))"
    by (rule dpl_endpgno_nth[OF ok(1,3)]) (use n in simp)
  note ascend = dpl_apart_nth[OF ok(1,3)]
  let ?hit = "\<lambda>j. 0 < j \<and> j \<le> dl_length dl \<and> dp_pgno (dl_items dl ! j) < pgno + npages \<and>
      pgno < dp_pgno (dl_items dl ! j) + dp_npages (dl_items dl ! j)"
  have "dp_pgno (dl_items dl ! n) < pgno + npages \<or> pgno < dpl_endpgno dl (n - 1)" if j: "?hit j" for j
  proof -
    consider "j < n - 1" | "j = n - 1" | "j = n" | "n < j" by linarith
    then show ?thesis
    proof cases
      case 1
      moreover have "n - 1 \<le> dl_length dl" using n(2) by simp
      ultimately show ?thesis using ascend(1)[of j "n - 1"] n(3) j by linarith
    next
      case 2
      then show ?thesis using j last by simp
    next
      case 3
      then show ?thesis using j by simp
    next
      case 4
      then show ?thesis using ascend(1)[of n j] n(1) j by simp
    qed
  qed
  moreover have "?hit n" if "dp_pgno (dl_items dl ! n) < pgno + npages"
  proof -
    have "n \<noteq> dl_length dl + 1" using that stub(1) range(3) by auto
    then have "n \<le> dl_length dl" using n(2) by simp
    then show ?thesis using that n ascend(2)[of n] by simp
  qed
  moreover have "?hit (n - 1)" if "pgno < dpl_endpgno dl (n - 1)"
  proof -
    have "n \<noteq> 1" using that last stub range(1) by auto
    then show ?thesis using that last n by simp
  qed
  ultimately have "(dp_pgno (dl_items dl ! n) < pgno + npages \<or> pgno < dpl_endpgno dl (n - 1)) \<longleftrightarrow> (\<exists>j. ?hit j)" by blast
  then show ?thesis by (simp add: txn_dpl_intersect_def found)
qed

subsection \<open>Properties\<close>

text \<open>
  C18. Sorting the list, by the merge with its head, as a whole or by the radix sort, puts its entries in the order of their
  page numbers, and nothing else changes in it. It never reads or writes a cell outside the block (which would be \<open>None\<close>), and the
  block keeps its length.
\<close>

theorem dpl_sort_ascends:
  assumes "dpl_ok dl"
  shows "\<exists>dl'. txn_dpl_sort dl = Some dl' \<and> dpl_ok dl' \<and> dpl_list dl' = sort_key dp_pgno (dpl_list dl) \<and>
    dl_sorted dl' = dl_length dl' \<and> dl_length dl' = dl_length dl \<and>
    dl_pages_including_loose dl' = dl_pages_including_loose dl \<and> length (dl_items dl') = length (dl_items dl)"
proof -
  obtain dl' where s: "txn_dpl_sort dl = Some dl'" "dpl_ok dl'" "mset (dpl_list dl') = mset (dpl_list dl)" "ascending (dpl_list dl')"
    "dl_sorted dl' = dl_length dl'" "dl_length dl' = dl_length dl"
    "dl_pages_including_loose dl' = dl_pages_including_loose dl" "length (dl_items dl') = length (dl_items dl)"
    using txn_dpl_sort_spec[OF assms] by blast
  have "inj_on dp_pgno (set (dpl_list dl))" using assms by (simp add: dpl_ok_def distinct_map)
  moreover have "sorted (map dp_pgno (dpl_list dl'))" using s(4) by (simp add: ascending_iff)
  ultimately have "dpl_list dl' = sort_key dp_pgno (dpl_list dl)" by (rule sort_key_inj_key_eq[OF s(3)[symmetric], symmetric])
  then show ?thesis using s by blast
qed

text \<open>A list with a sorted head of six and a tail of two, and room for twelve.\<close>

definition dirty_example :: dpl where
  "dirty_example = \<lparr>dl_sorted = 6, dl_length = 8, dl_pages_including_loose = 9, dl_detent = 12,
     dl_items = \<lparr>dp_ptr = 1, dp_pgno = 0, dp_npages = 1\<rparr> # map (\<lambda>p. \<lparr>dp_ptr = 100 + p, dp_pgno = p, dp_npages = if p = 20 then 2 else 1\<rparr>) [5, 7, 9, 12, 20, 30, 8, 3] @
       \<lparr>dp_ptr = 2, dp_pgno = P_INVALID, dp_npages = 1\<rparr> # replicate 40 \<lparr>dp_ptr = 0, dp_pgno = 0, dp_npages = 0\<rparr>\<rparr>"

lemma dirty_example_ok: "dpl_ok dirty_example"
  by (simp add: dirty_example_def dpl_ok_def dpl_list_def dpl_reserve_gap_eq P_INVALID_def DP_SORT_CMP_def)

lemma dirty_example_list: "map dp_pgno (dpl_list dirty_example) = [5, 7, 9, 12, 20, 30, 8, 3]"
  by (simp add: dirty_example_def dpl_list_def)

lemma dpl_sort_ascends_witness:
  "\<exists>dl'. txn_dpl_sort dirty_example = Some dl' \<and> dpl_ok dl' \<and> map dp_pgno (dpl_list dl') = [3, 5, 7, 8, 9, 12, 20, 30] \<and>
     length (dl_items dl') = 50"
proof -
  have "map dp_pgno (sort_key dp_pgno (dpl_list dirty_example)) = [3, 5, 7, 8, 9, 12, 20, 30]"
    by (simp add: dirty_example_def dpl_list_def)
  moreover have "length (dl_items dirty_example) = 50" by (simp add: dirty_example_def)
  ultimately show ?thesis using dpl_sort_ascends[OF dirty_example_ok] by metis
qed

text \<open>
  C17. Appending a page that is not in the list adds exactly it, wherever it goes, and keeps the list well formed; it fails
  only when the list is full, because of the limit or of the allocator, and then changes nothing.
\<close>

theorem dpl_append_adds:
  assumes ok: "dpl_ok dl" and alloc: "dp_malloc_ok alloc"
    and d: "dp_pgno d \<notin> dp_pgno ` set (dpl_list dl)" "0 < dp_pgno d" "dp_pgno d < P_INVALID"
  shows "case txn_dpl_append alloc d dl of (err, dl') \<Rightarrow>
      err = MDBX_SUCCESS \<and> dpl_ok dl' \<and> mset (dpl_list dl') = add_mset d (mset (dpl_list dl)) \<and>
        dl_pages_including_loose dl' = (dl_pages_including_loose dl + dp_npages d) mod 2 ^ 64 \<or>
      dl' = dl \<and> dl_length dl = dl_detent dl \<and>
        (err = MDBX_TXN_FULL \<and> PAGELIST_LIMIT \<le> dl_detent dl \<or> err = MDBX_ENOMEM \<and> (\<exists>bytes. alloc bytes = None))"
proof (cases "dl_length dl = dl_detent dl \<and> dl_detent dl < PAGELIST_LIMIT")
  case False
  have "dl_length dl \<le> dl_detent dl" using ok by (simp add: dpl_ok_def)
  then show ?thesis using False dpl_insert_ok[OF ok d] by (cases "dl_length dl = dl_detent dl") (simp_all add: txn_dpl_append_def)
next
  case full: True
  have m: "(if a < PAGELIST_LIMIT then a else PAGELIST_LIMIT) = min a PAGELIST_LIMIT" for a by simp
  define sz where "sz = (if dl_detent dl < MDBX_PNL_INITIAL * 42 then dl_detent dl + dl_detent dl else dl_detent dl + dl_detent dl div 2)"
  have pos: "0 < dl_detent dl" using ok by (simp add: dpl_ok_def)
  have sz: "dl_length dl < min sz PAGELIST_LIMIT"
    using full pos by (auto simp: sz_def MDBX_PNL_INITIAL_def MDBX_PNL_GRANULATE_def pnl_overhead_def)
  show ?thesis
  proof (cases "alloc (dpl_size2bytes (min sz PAGELIST_LIMIT))")
    case None
    then have "txn_dpl_reserve alloc (Some dl) sz = None" unfolding txn_dpl_reserve_def m by simp
    then show ?thesis using full None by (auto simp: txn_dpl_append_def sz_def[symmetric])
  next
    case (Some blk)
    obtain dl' where r: "txn_dpl_reserve alloc (Some dl) sz = Some dl'" "dpl_ok dl'" "dpl_list dl' = dpl_list dl" "dl_length dl' = dl_length dl"
      "dl_pages_including_loose dl' = dl_pages_including_loose dl" "min sz PAGELIST_LIMIT \<le> dl_detent dl'"
      using txn_dpl_reserve_ok[OF ok alloc Some] sz by auto
    have "dl_length dl' < dl_detent dl'" using sz r(4,6) by linarith
    then show ?thesis using dpl_insert_ok[OF r(2) d[folded r(3)]] full r(1,3,5) by (simp add: txn_dpl_append_def sz_def[symmetric])
  qed
qed

lemma dpl_append_adds_witness:
  "\<exists>dl'. txn_dpl_append (\<lambda>bytes. None) \<lparr>dp_ptr = 77, dp_pgno = 11, dp_npages = 1\<rparr> dirty_example = (MDBX_SUCCESS, dl') \<and>
     dpl_ok dl' \<and> set (map dp_pgno (dpl_list dl')) = {3, 5, 7, 8, 9, 11, 12, 20, 30}"
proof -
  let ?d = "\<lparr>dp_ptr = 77, dp_pgno = 11, dp_npages = 1\<rparr>" and ?none = "\<lambda>bytes. None"
  have new: "dp_pgno ?d \<notin> dp_pgno ` set (dpl_list dirty_example)" "0 < dp_pgno ?d" "dp_pgno ?d < P_INVALID"
    unfolding set_map[symmetric] dirty_example_list by (simp_all add: P_INVALID_def)
  obtain err dl' where r: "txn_dpl_append ?none ?d dirty_example = (err, dl')" by (rule prod.exhaust)
  have "dl_length dirty_example \<noteq> dl_detent dirty_example" by (simp add: dirty_example_def)
  then have "err = MDBX_SUCCESS \<and> dpl_ok dl' \<and> mset (dpl_list dl') = add_mset ?d (mset (dpl_list dirty_example))"
    using dpl_append_adds[OF dirty_example_ok _ new, of ?none] r by (simp add: dp_malloc_ok_def)
  moreover from this have "set (dpl_list dl') = insert ?d (set (dpl_list dirty_example))"
    by (metis set_mset_add_mset_insert set_mset_mset)
  then have "set (map dp_pgno (dpl_list dl')) = insert 11 (set (map dp_pgno (dpl_list dirty_example)))" by simp
  then have "set (map dp_pgno (dpl_list dl')) = {3, 5, 7, 8, 9, 11, 12, 20, 30}" unfolding dirty_example_list by auto
  ultimately show ?thesis using r by blast
qed

text \<open>
  C19. The search tells a page that is in the list, in the head or in the tail, from one that is not, and finds its entry;
  it may sort the list on the way but neither adds nor drops an entry.
\<close>

theorem dpl_exist_finds:
  assumes ok: "dpl_ok dl" and pgno: "pgno < P_INVALID"
  shows "\<exists>i dl'. txn_dpl_exist dl pgno = Some (i, dl') \<and> dpl_ok dl' \<and> mset (dpl_list dl') = mset (dpl_list dl) \<and>
    (if pgno \<in> dp_pgno ` set (dpl_list dl) then 0 < i \<and> i \<le> dl_length dl' \<and> dp_pgno (dl_items dl' ! i) = pgno else i = 0)"
proof -
  obtain i dl' where s: "txn_dpl_search dl pgno = Some (i, dl')" "dpl_ok dl'" "mset (dpl_list dl') = mset (dpl_list dl)" "dpl_index dl' pgno i"
    using txn_dpl_search_spec[OF ok pgno] by blast
  have "set (dpl_list dl') = set (dpl_list dl)" using s(3) by (rule mset_eq_setD)
  then show ?thesis using s by (auto simp: txn_dpl_exist_def dpl_index_def split: if_splits)
qed

lemma dpl_exist_finds_witness:
  "(\<exists>i dl'. txn_dpl_exist dirty_example 8 = Some (i, dl') \<and> 0 < i \<and> dp_pgno (dl_items dl' ! i) = 8) \<and>
   (\<exists>dl'. txn_dpl_exist dirty_example 10 = Some (0, dl'))"
proof -
  have "8 \<in> dp_pgno ` set (dpl_list dirty_example)" "10 \<notin> dp_pgno ` set (dpl_list dirty_example)"
    unfolding set_map[symmetric] dirty_example_list by simp_all
  then show ?thesis
    using dpl_exist_finds[OF dirty_example_ok, of 8] dpl_exist_finds[OF dirty_example_ok, of 10] by (auto simp: P_INVALID_def)
qed

text \<open>
  C21. On a sorted list of runs that do not overlap, the test of the two neighbours tells exactly whether a run of pages
  overlaps any entry.
\<close>

theorem dpl_intersect_exact:
  assumes "dpl_ok dl" "dl_sorted dl = dl_length dl" "dpl_apart dl" "0 < pgno" "0 < npages" "pgno + npages \<le> P_INVALID"
  shows "txn_dpl_intersect dl pgno npages =
    Some (\<exists>d \<in> set (dpl_list dl). dp_pgno d < pgno + npages \<and> pgno < dp_pgno d + dp_npages d, dl)"
proof -
  have nth: "(\<exists>j. 0 < j \<and> j \<le> dl_length dl \<and> P (dl_items dl ! j)) \<longleftrightarrow> (\<exists>d \<in> set (dpl_list dl). P d)" for P
  proof -
    have "(\<exists>d \<in> set (dpl_list dl). P d) \<longleftrightarrow> (\<exists>k < dl_length dl. P (dpl_list dl ! k))"
      using dpl_room(2)[OF assms(1)] by (metis in_set_conv_nth)
    then show ?thesis using dpl_nth[OF assms(1)] by (metis Suc_diff_1 Suc_le_eq diff_Suc_1 zero_less_Suc)
  qed
  show ?thesis
    using nth[of "\<lambda>d. dp_pgno d < pgno + npages \<and> pgno < dp_pgno d + dp_npages d"] txn_dpl_intersect_spec[OF assms] by simp
qed

definition sorted_example :: dpl where
  "sorted_example = \<lparr>dl_sorted = 2, dl_length = 2, dl_pages_including_loose = 5, dl_detent = 4,
     dl_items = \<lparr>dp_ptr = 1, dp_pgno = 0, dp_npages = 1\<rparr> # \<lparr>dp_ptr = 9, dp_pgno = 5, dp_npages = 4\<rparr> # \<lparr>dp_ptr = 8, dp_pgno = 20, dp_npages = 1\<rparr> #
       \<lparr>dp_ptr = 2, dp_pgno = P_INVALID, dp_npages = 1\<rparr> # replicate 40 \<lparr>dp_ptr = 0, dp_pgno = 0, dp_npages = 0\<rparr>\<rparr>"

lemma dpl_intersect_exact_witness:
  "txn_dpl_intersect sorted_example 8 3 = Some (True, sorted_example) \<and> txn_dpl_intersect sorted_example 9 11 = Some (False, sorted_example)"
proof -
  have ok: "dpl_ok sorted_example" "dl_sorted sorted_example = dl_length sorted_example" "dpl_apart sorted_example"
    by (simp_all add: sorted_example_def dpl_ok_def dpl_apart_def dpl_list_def dpl_reserve_gap_eq P_INVALID_def DP_SORT_CMP_def)
  have list: "map (\<lambda>d. (dp_pgno d, dp_npages d)) (dpl_list sorted_example) = [(5, 4), (20, 1)]" by (simp add: sorted_example_def dpl_list_def)
  show ?thesis
    using dpl_intersect_exact[OF ok, of 8 3] dpl_intersect_exact[OF ok, of 9 11] by (simp add: P_INVALID_def sorted_example_def dpl_list_def)
qed

text \<open>
  C20. Sifting drops from the list exactly the pages that a list of page numbers names, returns them, gives their room back
  and keeps the count of pages.
\<close>

theorem dpl_sift_drops:
  assumes "dpl_ok dl" "pnl_ok pl" "sorted (rev (pnl_list pl))" "\<forall>p \<in> set (pnl_list pl). drop_bit (of_bool spilled) p < P_INVALID"
  defines "K \<equiv> drop_bit (of_bool spilled) ` set (pnl_list pl)"
  shows "\<exists>dl' released. txn_dpl_sift pl spilled dirtyroom dl = Some (dl', dirtyroom + length released, released) \<and> dpl_ok dl' \<and>
    mset (dpl_list dl') = filter_mset (\<lambda>d. dp_pgno d \<notin> K) (mset (dpl_list dl)) \<and>
    mset released = filter_mset (\<lambda>d. dp_pgno d \<in> K) (mset (dpl_list dl)) \<and> (dpl_counted dl \<longrightarrow> dpl_counted dl')"
  unfolding K_def by (rule txn_dpl_sift_spec[OF assms(1-4)])

lemma dpl_sift_drops_witness:
  "\<exists>dl' released. txn_dpl_sift \<lparr>alloclen = 3, slots = [3, 60, 24, 16, 0, 0]\<rparr> True 100 dirty_example = Some (dl', 103, released) \<and>
     dpl_ok dl' \<and> dpl_counted dl' \<and> set (map dp_pgno (dpl_list dl')) = {5, 7, 9, 20, 3}"
proof -
  let ?pl = "\<lparr>alloclen = 3, slots = [3, 60, 24, 16, 0, 0]\<rparr>"
  let ?K = "drop_bit (of_bool True) ` set (pnl_list ?pl)"
  have pl: "pnl_ok ?pl" "sorted (rev (pnl_list ?pl))" "\<forall>p \<in> set (pnl_list ?pl). drop_bit (of_bool True) p < P_INVALID"
    by (simp_all add: pnl_ok_def pnl_list_def pnl_size_def P_INVALID_def drop_bit_eq_div)
  have K: "?K = {8, 12, 30}" by (auto simp: pnl_list_def pnl_size_def drop_bit_eq_div)
  have counted: "dpl_counted dirty_example" by (simp add: dirty_example_def dpl_counted_def dpl_list_def)
  obtain dl' released where s: "txn_dpl_sift ?pl True 100 dirty_example = Some (dl', 100 + length released, released)" "dpl_ok dl'"
    "mset (dpl_list dl') = filter_mset (\<lambda>d. dp_pgno d \<notin> ?K) (mset (dpl_list dirty_example))"
    "mset released = filter_mset (\<lambda>d. dp_pgno d \<in> ?K) (mset (dpl_list dirty_example))" "dpl_counted dl'"
    using dpl_sift_drops[OF dirty_example_ok pl, of 100] counted by blast
  have "length released = 3" using arg_cong[OF s(4), of size] unfolding K by (simp add: dirty_example_def dpl_list_def)
  moreover have "set (dpl_list dl') = {d \<in> set (dpl_list dirty_example). dp_pgno d \<notin> {8, 12, 30}}"
    using arg_cong[OF s(3), of set_mset] unfolding K set_mset_filter set_mset_mset by blast
  then have "set (map dp_pgno (dpl_list dl')) = set (filter (\<lambda>p. p \<notin> {8, 12, 30}) (map dp_pgno (dpl_list dirty_example)))" by auto
  then have "set (map dp_pgno (dpl_list dl')) = {5, 7, 9, 20, 3}" unfolding dirty_example_list by simp
  ultimately show ?thesis using s(1,2,5) by simp
qed

end
