(* ===== verification/Env.thy ===== *)
theory Env
  imports Prelude
begin

text \<open>
  The part of \<^verbatim>\<open>struct MDBX_env\<close> (\<^verbatim>\<open>src/libmdbx/mdbx.c\<close>) and of the process-wide \<^verbatim>\<open>globals\<close> that the modelled
  code reads and writes: page geometry and its derived limits, the tunable options, and the fields of
  the shared \<^verbatim>\<open>lck\<close> block that options touch. Pointers are read as booleans where the code only
  tests them for null. Also the packing of step sizes into 16 bits and the conversions between bytes
  and pages.
\<close>

unbundle bit_operations_syntax

subsection \<open>Process-wide values and the environment\<close>

record globals =
  sys_pagesize :: nat
  sys_allocation_granularity :: nat
  mmap_limit :: nat
  reasonable_db_maxsize :: nat
  running_on_WSL1 :: bool

record geo_in_bytes =
  gib_lower :: nat
  gib_upper :: nat
  gib_now :: nat
  gib_grow :: nat
  gib_shrink :: nat

record subpage_options =
  sp_limit :: nat
  sp_room_threshold :: nat
  sp_reserve_prereq :: nat
  sp_reserve_limit :: nat

record non_auto_flags =
  na_dp_limit :: bool
  na_rp_augment_limit :: bool
  na_prefault_write :: bool

record options =
  opt_dp_reserve_limit :: nat
  opt_rp_augment_limit :: nat
  opt_dp_limit :: nat
  opt_dp_initial :: nat
  opt_gc_time_limit :: nat
  opt_dp_loose_limit :: nat
  opt_spill_max_denominator :: nat
  opt_spill_min_denominator :: nat
  opt_spill_parent4child_denominator :: nat
  opt_merge_threshold_dot16 :: nat
  opt_split_reserve_dot16 :: nat
  opt_writethrough_threshold :: nat
  opt_prefault_write :: bool
  opt_prefer_waf_insteadof_balance :: bool
  opt_need_dp_limit_adjust :: bool
  opt_subpage :: subpage_options
  opt_non_auto :: non_auto_flags

record lck_options =
  lck_autosync_threshold :: nat
  lck_autosync_period :: nat
  lck_presync_threshold :: nat

record env =
  env_signed :: bool
  env_flags :: nat
  env_ps :: nat
  env_ps2ln :: nat
  env_mapped :: bool
  env_leaf_nodemax :: nat
  env_branch_nodemax :: nat
  env_subpage_limit :: nat
  env_subpage_room_threshold :: nat
  env_subpage_reserve_prereq :: nat
  env_subpage_reserve_limit :: nat
  env_merge_threshold :: nat
  env_max_readers :: nat
  env_max_dbi :: nat
  env_maxgc_large1page :: nat
  env_maxgc_per_branch :: nat
  env_madv_threshold :: nat
  env_options :: options
  env_geo :: geo_in_bytes
  env_incore :: bool
  env_txn :: bool
  env_basal_txn :: bool
  env_owned_wrtxn :: bool
  env_shadow_reserve_len :: nat
  env_lck :: "lck_options option"

definition MDBX_MIN_PAGESIZE :: nat where "MDBX_MIN_PAGESIZE = 256"
definition MDBX_MAX_PAGESIZE :: nat where "MDBX_MAX_PAGESIZE = 65536"
definition PAGEHDRSZ :: nat where "PAGEHDRSZ = 20"
definition NODESIZE :: nat where "NODESIZE = 8"
definition sizeof_tree :: nat where "sizeof_tree = 48"
definition sizeof_indx :: nat where "sizeof_indx = 2"
definition sizeof_pgno :: nat where "sizeof_pgno = 4"
definition sizeof_txnid :: nat where "sizeof_txnid = 8"
definition MIN_MAPSIZE :: nat where "MIN_MAPSIZE = MDBX_MIN_PAGESIZE * MIN_PAGENO"
definition MAX_MAPSIZE64 :: nat where "MAX_MAPSIZE64 = (MAX_PAGENO + 1) * MDBX_MAX_PAGESIZE"
definition MAX_MAPSIZE :: nat where "MAX_MAPSIZE = MAX_MAPSIZE64"
definition MAX_MAPSIZE32 :: nat where "MAX_MAPSIZE32 = 0x7f000000"
definition MEGABYTE :: nat where "MEGABYTE = 2 ^ 20"

named_theorems size_defs \<open>the numeric values of the size constants\<close>

declare MDBX_MIN_PAGESIZE_def [size_defs] MDBX_MAX_PAGESIZE_def [size_defs] PAGEHDRSZ_def [size_defs]
  NODESIZE_def [size_defs] sizeof_tree_def [size_defs] sizeof_indx_def [size_defs]
  sizeof_pgno_def [size_defs] sizeof_txnid_def [size_defs] MIN_MAPSIZE_def [size_defs]
  MAX_MAPSIZE64_def [size_defs] MAX_MAPSIZE_def [size_defs] MAX_MAPSIZE32_def [size_defs]
  MEGABYTE_def [size_defs] NUM_METAS_def [size_defs] MIN_PAGENO_def [size_defs]
  MAX_PAGENO_def [size_defs] PAGELIST_LIMIT_def [size_defs] P_INVALID_def [size_defs]

text \<open>\<^verbatim>\<open>x & (x - 1) == 0\<close>, with the wrap-around of \<^verbatim>\<open>0 - 1\<close>.\<close>

definition is_powerof2 :: "nat \<Rightarrow> bool" where
  "is_powerof2 x \<longleftrightarrow> x AND sub64 x 1 = 0"

text \<open>The bits of \<^verbatim>\<open>env->flags\<close>.\<close>

definition MDBX_RDONLY :: nat where "MDBX_RDONLY = 0x20000"
definition MDBX_WRITEMAP :: nat where "MDBX_WRITEMAP = 0x80000"
definition MDBX_NOMETASYNC :: nat where "MDBX_NOMETASYNC = 0x40000"
definition MDBX_SAFE_NOSYNC :: nat where "MDBX_SAFE_NOSYNC = 0x10000"
definition ENV_UNSYNC :: nat where "ENV_UNSYNC = MDBX_SAFE_NOSYNC"
definition ENV_ACTIVE :: nat where "ENV_ACTIVE = 0x20000000"
definition ENV_FATAL_ERROR :: nat where "ENV_FATAL_ERROR = 0x80000000"

definition has_flag :: "nat \<Rightarrow> nat \<Rightarrow> bool" where
  "has_flag flags f \<longleftrightarrow> flags AND f \<noteq> 0"

text \<open>\<^verbatim>\<open>check_env(env, false)\<close>: the handle is checked, its being active is not required.\<close>

definition check_env :: "env option \<Rightarrow> rc" where
  "check_env oenv =
     (case oenv of None \<Rightarrow> MDBX_EINVAL
      | Some env \<Rightarrow> (if \<not> env_signed env then MDBX_EBADSIGN
                      else if has_flag (env_flags env) ENV_FATAL_ERROR then MDBX_PANIC else MDBX_SUCCESS))"

subsection \<open>Steps packed into 16 bits\<close>

definition me2v :: "nat \<Rightarrow> nat \<Rightarrow> nat" where
  "me2v m e = (32768 + push_bit (e + 8) (m + 1)) mod 2 ^ 32"

definition v2me :: "nat \<Rightarrow> nat \<Rightarrow> nat" where
  "v2me v e =
     (let m = drop_bit (e + 8) (v - 32768 + push_bit (e + 8) 1 - 1);
          m = m - (if m > 0 then 1 else 0)
      in (0x8001 + push_bit 12 e + push_bit 1 m) mod 2 ^ 16)"

definition pv2pages :: "nat \<Rightarrow> nat" where
  "pv2pages pv =
     (if pv AND 0x8001 \<noteq> 0x8001 then pv
      else if pv = 65535 then 65536
      else me2v (drop_bit 1 pv AND 2047) (drop_bit 12 pv AND 7))"

definition pages2pv :: "nat \<Rightarrow> nat" where
  "pages2pv pages =
     (if pages < 32769 \<or> (pages < 65536 \<and> pages AND 1 = 0) then pages
      else if pages \<le> me2v 2047 0 then v2me pages 0
      else if pages \<le> me2v 2047 1 then v2me pages 1
      else if pages \<le> me2v 2047 2 then v2me pages 2
      else if pages \<le> me2v 2047 3 then v2me pages 3
      else if pages \<le> me2v 2047 4 then v2me pages 4
      else if pages \<le> me2v 2047 5 then v2me pages 5
      else if pages \<le> me2v 2047 6 then v2me pages 6
      else if pages < me2v 2046 7 then v2me pages 7 else 65533)"

definition pv2pages_verify :: bool where
  "pv2pages_verify =
     fold (\<lambda>i ok. let pages = pv2pages i; x = pages2pv pages; xp = pv2pages x
                  in if pages \<noteq> xp then False else ok) [0 ..< 65536] True"

subsection \<open>Bytes and pages\<close>

definition pgno2bytes :: "env \<Rightarrow> nat \<Rightarrow> nat" where
  "pgno2bytes env pgno = push_bit (env_ps2ln env) pgno mod 2 ^ 64"

definition bytes2pgno :: "env \<Rightarrow> nat \<Rightarrow> nat" where
  "bytes2pgno env bytes = drop_bit (env_ps2ln env) bytes mod 2 ^ 32"

definition bytes_ceil2sp_bytes :: "globals \<Rightarrow> env \<Rightarrow> nat \<Rightarrow> nat" where
  "bytes_ceil2sp_bytes g env bytes =
     ceil_powerof2 bytes (if sys_pagesize g < env_ps env then env_ps env else sys_pagesize g)"

definition bytes_ceil2sp_pgno :: "globals \<Rightarrow> env \<Rightarrow> nat \<Rightarrow> nat" where
  "bytes_ceil2sp_pgno g env bytes = bytes2pgno env (bytes_ceil2sp_bytes g env bytes)"

definition pgno_ceil2sp_bytes :: "globals \<Rightarrow> env \<Rightarrow> nat \<Rightarrow> nat" where
  "pgno_ceil2sp_bytes g env pgno = ceil_powerof2 (pgno2bytes env pgno) (sys_pagesize g)"

definition pgno_ceil2sp_pgno :: "globals \<Rightarrow> env \<Rightarrow> nat \<Rightarrow> nat" where
  "pgno_ceil2sp_pgno g env pgno = bytes2pgno env (pgno_ceil2sp_bytes g env pgno)"

text \<open>The build option \<^verbatim>\<open>MDBX_ROUNDING_TO_ALLOCATION_GRANULARITY\<close> is off by default.\<close>

definition MDBX_ROUNDING_TO_ALLOCATION_GRANULARITY :: bool where
  "MDBX_ROUNDING_TO_ALLOCATION_GRANULARITY = False"

definition sys_unit :: "globals \<Rightarrow> nat" where
  "sys_unit g = (if MDBX_ROUNDING_TO_ALLOCATION_GRANULARITY then sys_allocation_granularity g else sys_pagesize g)"

definition bytes_ceil2os_bytes :: "globals \<Rightarrow> env \<Rightarrow> nat \<Rightarrow> nat" where
  "bytes_ceil2os_bytes g env bytes =
     ceil_powerof2 bytes (if sys_unit g < env_ps env then env_ps env else sys_unit g)"

definition bytes_ceil2os_pgno :: "globals \<Rightarrow> env \<Rightarrow> nat \<Rightarrow> nat" where
  "bytes_ceil2os_pgno g env bytes = bytes2pgno env (bytes_ceil2os_bytes g env bytes)"

definition pgno_ceil2os_bytes :: "globals \<Rightarrow> env \<Rightarrow> nat \<Rightarrow> nat" where
  "pgno_ceil2os_bytes g env pgno = ceil_powerof2 (pgno2bytes env pgno) (sys_unit g)"

definition pgno_ceil2os_pgno :: "globals \<Rightarrow> env \<Rightarrow> nat \<Rightarrow> nat" where
  "pgno_ceil2os_pgno g env pgno = bytes2pgno env (pgno_ceil2os_bytes g env pgno)"

definition largechunk_npages :: "env \<Rightarrow> nat \<Rightarrow> nat" where
  "largechunk_npages env bytes = (bytes2pgno env (PAGEHDRSZ - 1 + bytes) + 1) mod 2 ^ 32"

end
