(* ===== verification/Units.thy ===== *)
theory Units
  imports Env
begin

text \<open>
  Proofs about the 16-bit packing of growth and shrink steps (\<^verbatim>\<open>pages2pv\<close>, \<^verbatim>\<open>pv2pages\<close>) and about the
  conversions between bytes and pages.
\<close>

unbundle bit_operations_syntax

lemma is_packed_iff: "n AND 32769 = 32769 \<longleftrightarrow> odd n \<and> odd (n div 32768)" for n :: nat
proof -
  have b: "bit (32769 :: nat) k \<longleftrightarrow> k = 0 \<or> k = 15" for k
  proof -
    have "(32769 :: nat) = set_bit 15 1" by (simp add: set_bit_eq_or push_bit_eq_mult)
    then show ?thesis by (simp only: bit_set_bit_iff bit_1_iff) auto
  qed
  have "n AND 32769 = 32769 \<longleftrightarrow> bit n 0 \<and> bit n 15"
    by (simp only: bit_eq_iff[of "n AND 32769"] bit_and_iff b) auto
  then show ?thesis by (simp add: bit_iff_odd)
qed

lemma me2v_eq: "m < 2048 \<Longrightarrow> e < 8 \<Longrightarrow> me2v m e = 32768 + (m + 1) * 2 ^ (e + 8)"
proof -
  assume m: "m < 2048" and e: "e < 8"
  have "(m + 1) * 2 ^ (e + 8) \<le> 2048 * 2 ^ (7 + 8)"
    using m e by (intro mult_le_mono power_increasing) auto
  then have "32768 + (m + 1) * 2 ^ (e + 8) < 2 ^ 32" by simp
  then show ?thesis by (simp only: me2v_def push_bit_eq_mult mod_less)
qed

lemma pv2pages_packed:
  assumes m: "m < 2048" and e: "e < 8" and "\<not> (m = 2047 \<and> e = 7)"
  shows "pv2pages (32769 + 4096 * e + 2 * m) = me2v m e"
proof -
  let ?p = "32769 + 4096 * e + 2 * m"
  have d: "?p div 32768 = 1" using m e by linarith
  have o: "odd ?p" by simp
  have "?p div 2 = m + 2048 * (8 + e)" by (intro div_nat_eqI) auto
  then have "?p div 2 mod 2048 = m" using m by (simp only: mod_mult_self2 mod_less)
  moreover have "?p div 4096 = 8 + e" using m by (intro div_nat_eqI) auto
  then have "?p div 4096 mod 8 = e" using e by simp
  moreover have "?p \<noteq> 65535" using assms by linarith
  moreover have a: "x AND 2047 = x mod 2048" "x AND 7 = x mod 8" for x :: nat
    using take_bit_eq_mask[of 11 x] take_bit_eq_mask[of 3 x]
    by (simp_all add: take_bit_eq_mod mask_eq_exp_minus_1)
  ultimately have "drop_bit 1 ?p AND 2047 = m" "drop_bit 12 ?p AND 7 = e" "?p \<noteq> 65535"
    using assms by (simp_all only: a drop_bit_eq_div power_one_right) auto
  moreover have "?p AND 0x8001 = 0x8001" using d o by (simp only: is_packed_iff) simp
  ultimately show ?thesis unfolding pv2pages_def by (simp only: if_False if_True simp_thms)
qed


lemma ceil_div_bounds:
  assumes "0 < (d :: nat)" "0 < (a :: nat)"
  shows "a \<le> (a + d - 1) div d * d" "(a + d - 1) div d * d < a + d" "0 < (a + d - 1) div d"
proof -
  have "(a + d - 1) div d * d + (a + d - 1) mod d = a + d - 1" by (rule div_mult_mod_eq)
  moreover have "(a + d - 1) mod d < d" using assms by simp
  ultimately show "a \<le> (a + d - 1) div d * d" "(a + d - 1) div d * d < a + d" using assms by linarith+
  then show "0 < (a + d - 1) div d" using assms by (cases "(a + d - 1) div d") auto
qed

lemma v2me_decode:
  assumes v: "32768 < v" and e: "e < 8" and le: "v \<le> me2v 2047 e" and l7: "e = 7 \<Longrightarrow> v \<le> me2v 2046 7"
  defines "q \<equiv> pv2pages (v2me v e)"
  shows "v \<le> q" "q < v + 2 ^ (e + 8)" "2 ^ (e + 8) dvd v - 32768 \<Longrightarrow> q = v"
    "2 ^ (e + 8) dvd q - 32768"
proof -
  let ?d = "2 ^ (e + 8) :: nat" and ?a = "v - 32768"
  define c where "c = (?a + ?d - 1) div ?d"
  have a: "0 < ?a" using v by simp
  note cb = ceil_div_bounds[of ?d ?a, folded c_def]
  have "?a \<le> 2048 * ?d" using le e me2v_eq[of 2047 e] by simp
  then have "c * ?d < 2049 * ?d" using cb(2)[OF _ a, simplified] by linarith
  then have c: "c \<le> 2048" by simp
  have c1: "0 < c" using cb(3)[OF _ a] by simp
  have c7: "c \<le> 2047" if "e = 7"
  proof -
    have "?a \<le> 2047 * ?d" using l7 that e me2v_eq[of 2046 7] by simp
    then have "c * ?d < 2048 * ?d" using cb(2)[OF _ a, simplified] by linarith
    then show ?thesis by simp
  qed
  define m where "m = c - 1"
  have m: "m < 2048" "\<not> (m = 2047 \<and> e = 7)" "m + 1 = c" using c c1 c7 by (auto simp: m_def)
  have "v2me v e = (0x8001 + push_bit 12 e + push_bit 1 m) mod 2 ^ 16"
    using c1 by (simp add: v2me_def Let_def drop_bit_eq_div push_bit_eq_mult m_def c_def)
  also have "\<dots> = 32769 + 4096 * e + 2 * m"
  proof -
    have "32769 + 4096 * e + 2 * m < 2 ^ 16" using m e by simp
    then show ?thesis by (simp add: push_bit_eq_mult mult.commute)
  qed
  finally have q: "q = 32768 + c * ?d"
    unfolding q_def using pv2pages_packed[OF m(1) e m(2)] me2v_eq[OF m(1) e] by (simp only: m(3))
  show vq: "v \<le> q" and qv: "q < v + ?d" using q cb(1,2)[OF _ a] v by auto
  show "q = v" if dv: "?d dvd ?a"
  proof -
    have "q - v = c * ?d - ?a" using q v by simp
    then have "?d dvd q - v" using dvd_diff_nat[OF dvd_triv_right dv] by simp
    moreover have "q - v < ?d" using vq qv by linarith
    ultimately have "q - v = 0" by (meson dvd_imp_le not_le zero_less_iff_neq_zero)
    then show ?thesis using q cb(1)[OF _ a] v by simp
  qed
  show "?d dvd q - 32768" by (simp add: q)
qed


lemma pv2pages_plain: "n < 32769 \<or> even n \<Longrightarrow> pv2pages n = n"
proof -
  assume "n < 32769 \<or> even n"
  then have "\<not> (odd n \<and> odd (n div 32768))"
  proof
    assume "n < 32769"
    then have "n div 32768 = 0 \<or> n = 32768" by (cases "n = 32768") auto
    then show ?thesis by auto
  qed simp
  then show ?thesis by (simp only: pv2pages_def is_packed_iff if_True not_False_eq_True)
qed

lemma me2v_values:
  "me2v 2047 0 = 557056" "me2v 2047 1 = 1081344" "me2v 2047 (Suc 0) = 1081344" "me2v 2047 2 = 2129920" "me2v 2047 3 = 4227072"
  "me2v 2047 4 = 8421376" "me2v 2047 5 = 16809984" "me2v 2047 6 = 33587200" "me2v 2046 7 = 67108864"
  "me2v 2047 7 = 67141632"
  by (simp_all add: me2v_eq)

text \<open>Which of its branches \<^verbatim>\<open>pages2pv\<close> takes, with the range of the argument there.\<close>

lemma pages2pv_cases:
  obtains (plain) "p < 32769 \<or> p < 65536 \<and> even p" "pages2pv p = p"
  | (packed) e where "e < 8" "32768 < p" "p \<le> me2v 2047 e" "e = 7 \<longrightarrow> p < me2v 2046 7"
      "0 < e \<longrightarrow> 2 ^ (e + 18) + 32768 < p" "odd p \<or> 65536 \<le> p" "pages2pv p = v2me p e"
  | (top) "67108864 \<le> p" "pages2pv p = 65533"
proof -
  consider "p < 32769 \<or> p < 65536 \<and> even p" | "\<not> (p < 32769 \<or> p < 65536 \<and> even p)" "p \<le> 557056"
    | "557056 < p" "p \<le> 1081344" | "1081344 < p" "p \<le> 2129920" | "2129920 < p" "p \<le> 4227072"
    | "4227072 < p" "p \<le> 8421376" | "8421376 < p" "p \<le> 16809984" | "16809984 < p" "p \<le> 33587200"
    | "33587200 < p" "p < 67108864" | "67108864 \<le> p"
    by linarith
  then show ?thesis
  proof cases
    case 1 then show ?thesis by (intro plain) (auto simp: pages2pv_def and_one_eq even_iff_mod_2_eq_zero)
  next
    case 2
    then have "pages2pv p = v2me p 0" by (auto simp: pages2pv_def and_one_eq me2v_values)
    then show ?thesis using 2 by (intro packed[of 0]) (auto simp: me2v_values)
  next
    case 3
    then have "pages2pv p = v2me p 1" by (simp add: pages2pv_def and_one_eq me2v_values)
    then show ?thesis using 3 by (intro packed[of 1]) (simp_all add: me2v_values)
  next
    case 4
    then have "pages2pv p = v2me p 2" by (simp add: pages2pv_def and_one_eq me2v_values)
    then show ?thesis using 4 by (intro packed[of 2]) (simp_all add: me2v_values)
  next
    case 5
    then have "pages2pv p = v2me p 3" by (simp add: pages2pv_def and_one_eq me2v_values)
    then show ?thesis using 5 by (intro packed[of 3]) (simp_all add: me2v_values)
  next
    case 6
    then have "pages2pv p = v2me p 4" by (simp add: pages2pv_def and_one_eq me2v_values)
    then show ?thesis using 6 by (intro packed[of 4]) (simp_all add: me2v_values)
  next
    case 7
    then have "pages2pv p = v2me p 5" by (simp add: pages2pv_def and_one_eq me2v_values)
    then show ?thesis using 7 by (intro packed[of 5]) (simp_all add: me2v_values)
  next
    case 8
    then have "pages2pv p = v2me p 6" by (simp add: pages2pv_def and_one_eq me2v_values)
    then show ?thesis using 8 by (intro packed[of 6]) (simp_all add: me2v_values)
  next
    case 9
    then have "pages2pv p = v2me p 7" by (simp add: pages2pv_def and_one_eq me2v_values)
    then show ?thesis using 9 by (intro packed[of 7]) (simp_all add: me2v_values)
  next
    case 10
    then have "pages2pv p = 65533" by (simp add: pages2pv_def and_one_eq me2v_values)
    then show ?thesis using 10 by (intro top)
  qed
qed

lemma pv2pages_top: "pv2pages 65533 = 67108864"
  using pv2pages_packed[of 2046 7] by (simp add: me2v_values)

lemma quant_step: "e < 8 \<Longrightarrow> 32768 < p \<Longrightarrow> (0 < e \<longrightarrow> 2 ^ (e + 18) + 32768 < p) \<Longrightarrow> 128 * 2 ^ (e + 8) \<le> (p :: nat) + 127"
proof (cases "0 < e")
  case True
  assume "0 < e \<longrightarrow> 2 ^ (e + 18) + 32768 < p"
  then have "2 ^ (e + 18) < p" using True by simp
  moreover have "128 * 2 ^ (e + 8) \<le> (2 :: nat) ^ (e + 18)" by (simp add: power_add)
  ultimately show ?thesis by linarith
qed simp

lemma packed_le_top:
  assumes "e < 8" "p \<le> me2v 2047 e" "e = 7 \<longrightarrow> p < me2v 2046 7"
  shows "p \<le> 67108864"
proof (cases "e = 7")
  case False
  then have "(2 :: nat) ^ (e + 8) \<le> 2 ^ 14" using assms(1) by (intro power_increasing) auto
  then have "me2v 2047 e \<le> me2v 2047 6" using assms(1) by (simp add: me2v_eq)
  then show ?thesis using assms(2) by (simp add: me2v_values)
qed (use assms in \<open>simp add: me2v_values\<close>)

text \<open>The quantisation never loses a power of two up to 256.\<close>

lemma pages2pv_dvd:
  assumes "2 ^ j dvd p" "j \<le> 8"
  shows "2 ^ j dvd pv2pages (pages2pv p)"
proof (cases rule: pages2pv_cases[of p])
  case plain
  then show ?thesis using assms(1) by (auto simp: pv2pages_plain)
next
  case (packed e)
  have l7: "e = 7 \<Longrightarrow> p \<le> me2v 2046 7" using packed(4) by simp
  note d = v2me_decode(1,4)[OF packed(2,1,3) l7]
  have "(2 :: nat) ^ j dvd 2 ^ (e + 8)" using assms(2) by (intro le_imp_power_dvd) simp
  then have "2 ^ j dvd pv2pages (v2me p e) - 32768" using d(2) by (rule dvd_trans)
  moreover have "(2 :: nat) ^ j dvd 2 ^ 15" using assms(2) by (intro le_imp_power_dvd) simp
  moreover have "32768 \<le> pv2pages (v2me p e)" using d(1) packed(2) by simp
  ultimately show ?thesis using dvd_add[of "2 ^ j" "pv2pages (v2me p e) - 32768" "2 ^ 15"] packed(7) by simp
next
  case top
  have "(2 :: nat) ^ j dvd 2 ^ 26" using assms(2) by (intro le_imp_power_dvd) simp
  then show ?thesis by (simp add: top(2) pv2pages_top)
qed

text \<open>
  \<^verbatim>\<open>pages2pv\<close> quantises a number of pages to at least that number, never more than 1/128 above it,
  and saturates at the largest representable step of 2^26 pages.
\<close>

theorem pages2pv_rounds_up:
  "min p 67108864 \<le> pv2pages (pages2pv p) \<and> 128 * (pv2pages (pages2pv p) - min p 67108864) \<le> p \<and>
   pv2pages (pages2pv (min p 67108864)) \<le> pv2pages (pages2pv p)"
proof (cases rule: pages2pv_cases[of p])
  case plain
  then have "min p 67108864 = p" by auto
  moreover have "pv2pages (pages2pv p) = p" using plain by (auto simp: pv2pages_plain)
  ultimately show ?thesis by simp
next
  case (packed e)
  have p: "min p 67108864 = p" using packed_le_top[OF packed(1,3,4)] by simp
  have l7: "e = 7 \<Longrightarrow> p \<le> me2v 2046 7" using packed(4) by simp
  note d = v2me_decode(1,2)[OF packed(2,1,3) l7]
  have "pv2pages (v2me p e) - p \<le> 2 ^ (e + 8) - 1" using d by linarith
  then have "128 * (pv2pages (v2me p e) - p) \<le> p" using quant_step[OF packed(1,2,5)] by linarith
  then show ?thesis using packed(7) d(1) by (simp add: p)
next
  case top
  have "pages2pv 67108864 = 65533" by (simp add: pages2pv_def me2v_values)
  then show ?thesis using top by (simp add: pv2pages_top)
qed

lemma pv2pages_fixed: "pv2pages (pages2pv (pv2pages i)) = pv2pages i" if i: "i < 65536"
proof -
  consider "i < 32769 \<or> even i" | "i = 65535" | m e where "m < 2048" "e < 8" "\<not> (m = 2047 \<and> e = 7)" "i = 32769 + 4096 * e + 2 * m"
  proof -
    assume *: "i < 32769 \<or> even i \<Longrightarrow> thesis" "i = 65535 \<Longrightarrow> thesis"
      "\<And>m e. m < 2048 \<Longrightarrow> e < 8 \<Longrightarrow> \<not> (m = 2047 \<and> e = 7) \<Longrightarrow> i = 32769 + 4096 * e + 2 * m \<Longrightarrow> thesis"
    show thesis
    proof (cases "i < 32769 \<or> even i \<or> i = 65535")
      case False
      define k where "k = (i - 32769) div 2"
      have k: "i = 32769 + 2 * k" using False by (auto simp: k_def elim!: oddE)
      have "k div 2048 < 8" using k i by (simp add: less_mult_imp_div_less)
      moreover have "\<not> (k mod 2048 = 2047 \<and> k div 2048 = 7)"
      proof
        assume "k mod 2048 = 2047 \<and> k div 2048 = 7"
        then have "k = 16383" using div_mult_mod_eq[of k 2048] by simp
        then show False using k False by simp
      qed
      moreover have "i = 32769 + 4096 * (k div 2048) + 2 * (k mod 2048)"
      proof -
        have "i = 32769 + 2 * (k div 2048 * 2048 + k mod 2048)" using k by (simp only: div_mult_mod_eq)
        then show ?thesis by (simp only: add_mult_distrib2 mult.assoc[symmetric] mult.commute[of 2048] add.assoc)
      qed
      ultimately show thesis using *(3)[of "k mod 2048" "k div 2048"] by simp
    qed (use * in blast)
  qed
  then show ?thesis
  proof cases
    case 1
    then have "pv2pages i = i" by (rule pv2pages_plain)
    moreover have "pages2pv i = i" using 1 i by (auto simp: pages2pv_def and_one_eq even_iff_mod_2_eq_zero)
    ultimately show ?thesis by simp
  next
    case 2
    have "pv2pages 65535 = 65536" by (simp add: pv2pages_def is_packed_iff)
    moreover have "pages2pv 65536 = v2me 65536 0" by (simp add: pages2pv_def me2v_values)
    moreover have "pv2pages (v2me 65536 0) = 65536"
      using v2me_decode(3)[of 65536 0] by (simp add: me2v_values)
    ultimately show ?thesis using 2 by simp
  next
    case (3 m e)
    let ?p = "me2v m e"
    have p: "pv2pages i = ?p" using pv2pages_packed[OF 3(1,2,3)] 3(4) by simp
    have v: "?p = 32768 + (m + 1) * 2 ^ (e + 8)" using me2v_eq[OF 3(1,2)] .
    have "pv2pages (pages2pv ?p) = ?p"
    proof (cases rule: pages2pv_cases[of ?p])
      case plain
      then show ?thesis by (auto simp: pv2pages_plain)
    next
      case (packed e')
      have "e' \<le> e"
      proof (rule ccontr)
        assume "\<not> e' \<le> e"
        then have "(2 :: nat) ^ (e + 19) \<le> 2 ^ (e' + 18)" by (intro power_increasing) auto
        moreover have "(m + 1) * 2 ^ (e + 8) \<le> 2048 * 2 ^ (e + 8)" using 3(1) by (intro mult_le_mono1) simp
        moreover have "2048 * 2 ^ (e + 8) = (2 :: nat) ^ (e + 19)" by (simp add: power_add)
        ultimately show False using packed(5) v \<open>\<not> e' \<le> e\<close> by linarith
      qed
      then have "(2 :: nat) ^ (e' + 8) dvd 2 ^ (e + 8)" by (intro le_imp_power_dvd) simp
      then have "2 ^ (e' + 8) dvd ?p - 32768" using v by (simp add: dvd_mult)
      moreover have "e' = 7 \<Longrightarrow> ?p \<le> me2v 2046 7" using packed(4) by simp
      ultimately show ?thesis using v2me_decode(3)[OF packed(2,1,3)] packed(7) by simp
    next
      case top
      have "(m + 1) * 2 ^ (e + 8) \<le> 2047 * 2 ^ 15"
      proof (cases "e = 7")
        case True
        then show ?thesis using 3(1,3) by simp
      next
        case False
        then have "(m + 1) * 2 ^ (e + 8) \<le> 2048 * 2 ^ 14"
          using 3(1,2) by (intro mult_le_mono power_increasing) auto
        then show ?thesis by simp
      qed
      then show ?thesis using top v by (simp add: pv2pages_top)
    qed
    then show ?thesis using p by simp
  qed
qed

text \<open>
  The self-check \<^verbatim>\<open>pv2pages_verify\<close> of the library succeeds: for each of the 65536 packed values,
  unpacking, packing again and unpacking gives the same number of pages.
\<close>

theorem pv2pages_verified: "pv2pages_verify"
proof -
  have "fold (\<lambda>i ok. let pages = pv2pages i; x = pages2pv pages; xp = pv2pages x in if pages \<noteq> xp then False else ok) xs True"
    if "\<forall>i\<in>set xs. i < 65536" for xs
    using that by (induction xs) (simp_all add: pv2pages_fixed)
  then show ?thesis unfolding pv2pages_verify_def by simp
qed

subsection \<open>Powers of two\<close>

lemma and_pred_even: "2 * a AND (2 * a - 1) = 2 * (a AND (a - 1))" for a :: nat
proof (cases a)
  case (Suc b)
  then have "2 * a - 1 = Suc (2 * b)" by simp
  moreover have "2 * a AND Suc (2 * b) = 2 * (a AND b)" by (simp add: and_nat_rec[of "2 * a"])
  ultimately show ?thesis using Suc by simp
qed simp

lemma is_powerof2_pow: "0 < x \<Longrightarrow> is_powerof2 x \<Longrightarrow> \<exists>k. x = 2 ^ k"
proof (induction x rule: less_induct)
  case (less x)
  have eq: "x AND (x - 1) = 0" using less.prems by (simp add: is_powerof2_def)
  show ?case
  proof (cases "even x")
    case True
    then obtain a where a: "x = 2 * a" by (auto elim: evenE)
    then have "a AND (a - 1) = 0" using eq and_pred_even[of a] by simp
    moreover have "0 < a" "a < x" using a less.prems by auto
    ultimately obtain k where "a = 2 ^ k" using less.IH[of a] by (auto simp: is_powerof2_def)
    then have "x = 2 ^ Suc k" using a by simp
    then show ?thesis by blast
  next
    case False
    then obtain a where a: "x = 2 * a + 1" by (auto elim: oddE)
    have "x AND 2 * a = 2 * a" using a by (simp add: and_nat_rec[of "Suc (2 * a)"])
    then have "x = 2 ^ 0" using a eq by simp
    then show ?thesis by blast
  qed
qed

lemma pow_is_powerof2 [simp]: "is_powerof2 (2 ^ k)"
proof (induction k)
  case (Suc k)
  have "(1 :: nat) \<le> 2 ^ k" by simp
  then show ?case using Suc and_pred_even[of "2 ^ k"] by (simp add: is_powerof2_def)
qed (simp add: is_powerof2_def)

end
