(* ===== verification/Limits.thy ===== *)
theory Limits
  imports Units
begin

text \<open>
  The size limits of libmdbx: the largest key, value and pair for a page size and a set of table flags,
  the size a node takes on a page, the flags a table may have, and the derived fields of the
  environment (\<^verbatim>\<open>env_setup_pagesize\<close>, the merge and sub-page thresholds).
  The lemmas show that a key within the limit always fits: no branch node of it exceeds the node limit,
  and two nodes of any size always share a page.
\<close>

unbundle bit_operations_syntax

subsection \<open>Table flags\<close>

definition MDBX_REVERSEKEY :: nat where "MDBX_REVERSEKEY = 0x02"
definition MDBX_DUPSORT :: nat where "MDBX_DUPSORT = 0x04"
definition MDBX_INTEGERKEY :: nat where "MDBX_INTEGERKEY = 0x08"
definition MDBX_DUPFIXED :: nat where "MDBX_DUPFIXED = 0x10"
definition MDBX_INTEGERDUP :: nat where "MDBX_INTEGERDUP = 0x20"
definition MDBX_REVERSEDUP :: nat where "MDBX_REVERSEDUP = 0x40"

named_theorems flag_defs \<open>the bits of the table flags\<close>

declare MDBX_REVERSEKEY_def [flag_defs] MDBX_DUPSORT_def [flag_defs] MDBX_INTEGERKEY_def [flag_defs]
  MDBX_DUPFIXED_def [flag_defs] MDBX_INTEGERDUP_def [flag_defs] MDBX_REVERSEDUP_def [flag_defs]

text \<open>\<open>flags AND NOT m\<close> on 32 bits.\<close>

definition clear_flags :: "nat \<Rightarrow> nat \<Rightarrow> nat" where
  "clear_flags flags m = flags AND (2 ^ 32 - 1 - m)"

definition check_table_flags :: "nat \<Rightarrow> bool" where
  "check_table_flags flags =
     (if clear_flags flags (MDBX_REVERSEKEY OR MDBX_INTEGERKEY) \<in>
         {MDBX_DUPSORT, MDBX_DUPSORT OR MDBX_REVERSEDUP, MDBX_DUPSORT OR MDBX_DUPFIXED,
          MDBX_DUPSORT OR MDBX_DUPFIXED OR MDBX_REVERSEDUP,
          MDBX_DUPSORT OR MDBX_DUPFIXED OR MDBX_INTEGERDUP,
          MDBX_DUPSORT OR MDBX_DUPFIXED OR MDBX_INTEGERDUP OR MDBX_REVERSEDUP, 0}
      then flags AND (MDBX_REVERSEKEY OR MDBX_INTEGERKEY) \<noteq> (MDBX_REVERSEKEY OR MDBX_INTEGERKEY)
      else False)"

definition flags_db2sub :: "nat \<Rightarrow> nat" where
  "flags_db2sub db_flags =
     (let sub_flags = db_flags AND MDBX_DUPFIXED;
          sub_flags = sub_flags OR drop_bit 2 (db_flags AND MDBX_INTEGERDUP);
          sub_flags = sub_flags OR drop_bit 5 (db_flags AND MDBX_REVERSEDUP)
      in sub_flags)"

subsection \<open>Node sizes\<close>

definition EVEN_CEIL :: "nat \<Rightarrow> nat" where "EVEN_CEIL n = (n + 1) div 2 * 2"
definition EVEN_FLOOR :: "nat \<Rightarrow> nat" where "EVEN_FLOOR n = n div 2 * 2"

definition PAGESPACE :: "nat \<Rightarrow> nat" where "PAGESPACE pagesize = pagesize - PAGEHDRSZ"

definition BRANCH_NODE_MAX :: "nat \<Rightarrow> nat" where
  "BRANCH_NODE_MAX pagesize = EVEN_FLOOR ((PAGESPACE pagesize - sizeof_indx - NODESIZE) div (3 - 1) - sizeof_indx)"

definition LEAF_NODE_MAX :: "nat \<Rightarrow> nat" where
  "LEAF_NODE_MAX pagesize = EVEN_FLOOR (PAGESPACE pagesize div 2) - sizeof_indx"

definition MAX_GC1OVPAGE :: "nat \<Rightarrow> nat" where
  "MAX_GC1OVPAGE pagesize = PAGESPACE pagesize div sizeof_pgno - 1"

definition page_space :: "env \<Rightarrow> nat" where "page_space env = env_ps env - PAGEHDRSZ"

definition node_size_len :: "nat \<Rightarrow> nat \<Rightarrow> nat" where
  "node_size_len key_len value_len = NODESIZE + EVEN_CEIL (key_len + value_len)"

definition leaf_size :: "env \<Rightarrow> nat \<Rightarrow> nat \<Rightarrow> nat" where
  "leaf_size env key_len data_len =
     (let node_bytes = node_size_len key_len data_len;
          node_bytes = (if env_leaf_nodemax env < node_bytes
                        then node_size_len key_len 0 + sizeof_pgno else node_bytes)
      in node_bytes + sizeof_indx)"

text \<open>\<open>None\<close> is the panic of \<^verbatim>\<open>branch_size\<close>.\<close>

definition branch_size :: "env \<Rightarrow> nat \<Rightarrow> nat option" where
  "branch_size env key_len =
     (let node_bytes = node_size_len key_len 0
      in if env_branch_nodemax env < node_bytes then None else Some (node_bytes + sizeof_indx))"

subsection \<open>Limits of keys and values\<close>

definition dup_flags :: nat where
  "dup_flags = MDBX_DUPSORT OR MDBX_DUPFIXED OR MDBX_REVERSEDUP OR MDBX_INTEGERDUP"

definition keysize_max :: "nat \<Rightarrow> nat \<Rightarrow> nat" where
  "keysize_max pagesize flags =
     (if flags AND MDBX_INTEGERKEY \<noteq> 0 then 8
      else let max_branch_key = BRANCH_NODE_MAX pagesize - NODESIZE
           in if flags AND dup_flags \<noteq> 0
              then let max_dupsort_leaf_key = LEAF_NODE_MAX pagesize - NODESIZE - sizeof_tree
                   in if max_branch_key < max_dupsort_leaf_key then max_branch_key else max_dupsort_leaf_key
              else max_branch_key)"

definition env_keysize_max :: "env \<Rightarrow> nat \<Rightarrow> nat" where
  "env_keysize_max env flags =
     (if flags AND MDBX_INTEGERKEY \<noteq> 0 then 8
      else let max_branch_key = env_branch_nodemax env - NODESIZE
           in if flags AND dup_flags \<noteq> 0
              then let max_dupsort_leaf_key = env_leaf_nodemax env - NODESIZE - sizeof_tree
                   in if max_branch_key < max_dupsort_leaf_key then max_branch_key else max_dupsort_leaf_key
              else max_branch_key)"

definition keysize_min :: "nat \<Rightarrow> nat" where
  "keysize_min flags = (if flags AND MDBX_INTEGERKEY \<noteq> 0 then 4 else 0)"

definition valsize_min :: "nat \<Rightarrow> nat" where
  "valsize_min flags =
     (if flags AND MDBX_INTEGERDUP \<noteq> 0 then 4
      else if flags AND MDBX_DUPFIXED \<noteq> 0 then sizeof_indx else 0)"

text \<open>\<^verbatim>\<open>__builtin_ctz\<close>: the index of the lowest set bit of a 32-bit value, undefined (here 32) for 0.\<close>

fun ctz_from :: "nat \<Rightarrow> nat \<Rightarrow> nat \<Rightarrow> nat" where
  "ctz_from 0 k v = k"
| "ctz_from (Suc n) k v = (if bit v k then k else ctz_from n (Suc k) v)"

definition log2n_powerof2 :: "nat \<Rightarrow> nat" where
  "log2n_powerof2 v = ctz_from 32 0 (v mod 2 ^ 32)"

definition valsize_hard :: "globals \<Rightarrow> nat \<Rightarrow> nat" where
  "valsize_hard g page_ln2 =
     (let hard = 0x7FF00000;
          hard_pages = drop_bit page_ln2 hard;
          pages_limit = PAGELIST_LIMIT div 4;
          limit = (if hard_pages < pages_limit then hard else push_bit page_ln2 pages_limit)
      in if limit < mmap_limit g div 2 then limit else mmap_limit g div 2)"

definition valsize_max :: "globals \<Rightarrow> nat \<Rightarrow> nat \<Rightarrow> nat" where
  "valsize_max g pagesize flags =
     (if flags AND MDBX_INTEGERDUP \<noteq> 0 then 8
      else if flags AND (MDBX_DUPSORT OR MDBX_DUPFIXED OR MDBX_REVERSEDUP) \<noteq> 0 then keysize_max pagesize 0
      else valsize_hard g (log2n_powerof2 pagesize))"

definition env_valsize_max :: "globals \<Rightarrow> env \<Rightarrow> nat \<Rightarrow> nat" where
  "env_valsize_max g env flags =
     (if flags AND MDBX_INTEGERDUP \<noteq> 0 then 8
      else if flags AND (MDBX_DUPSORT OR MDBX_DUPFIXED OR MDBX_REVERSEDUP) \<noteq> 0 then env_keysize_max env 0
      else valsize_hard g (env_ps2ln env))"

subsection \<open>The public limit functions\<close>

text \<open>\<open>ENSURE(is_powerof2(sys_pagesize))\<close> holds on every supported system.\<close>

definition mdbx_default_pagesize :: "globals \<Rightarrow> nat" where
  "mdbx_default_pagesize g =
     (let pagesize = sys_pagesize g;
          pagesize = (if MDBX_MIN_PAGESIZE \<le> pagesize then pagesize else MDBX_MIN_PAGESIZE);
          pagesize = (if pagesize \<le> MDBX_MAX_PAGESIZE then pagesize else MDBX_MAX_PAGESIZE)
      in pagesize)"

definition bad_pagesize :: "int \<Rightarrow> bool" where
  "bad_pagesize pagesize \<longleftrightarrow>
     pagesize < int MDBX_MIN_PAGESIZE \<or> pagesize > int MDBX_MAX_PAGESIZE \<or> \<not> is_powerof2 (nat pagesize)"

definition mdbx_limits_dbsize_min :: "globals \<Rightarrow> int \<Rightarrow> int" where
  "mdbx_limits_dbsize_min g pagesize =
     (if pagesize < 1 then int (MIN_PAGENO * mdbx_default_pagesize g)
      else if bad_pagesize pagesize then -1
      else int MIN_PAGENO * pagesize)"

definition mdbx_limits_dbsize_max :: "globals \<Rightarrow> int \<Rightarrow> int" where
  "mdbx_limits_dbsize_max g pagesize =
     (if pagesize \<ge> 1 \<and> bad_pagesize pagesize then -1
      else let pagesize = (if pagesize < 1 then mdbx_default_pagesize g else nat pagesize);
               limit = (1 + MAX_PAGENO) * pagesize
           in if limit < mmap_limit g then int limit else int (mmap_limit g))"

text \<open>\<^verbatim>\<open>(uint64_t)(PAGELIST_LIMIT / 1.618)\<close>, the quotient truncated.\<close>

definition mdbx_limits_txnsize_max :: "globals \<Rightarrow> int \<Rightarrow> int" where
  "mdbx_limits_txnsize_max g pagesize =
     (if pagesize \<ge> 1 \<and> bad_pagesize pagesize then -1
      else let pagesize = (if pagesize < 1 then mdbx_default_pagesize g else nat pagesize);
               pgl_limit = pagesize * (PAGELIST_LIMIT * 1000 div 1618);
               map_limit = drop_bit 10 (mmap_limit g) * 633
           in if pgl_limit < map_limit then int pgl_limit else int map_limit)"

definition mdbx_limits_keysize_max :: "globals \<Rightarrow> int \<Rightarrow> nat \<Rightarrow> int" where
  "mdbx_limits_keysize_max g pagesize flags =
     (let pagesize = (if pagesize < 1 then int (mdbx_default_pagesize g) else pagesize)
      in if bad_pagesize pagesize then -1 else int (keysize_max (nat pagesize) flags))"

definition mdbx_limits_keysize_min :: "nat \<Rightarrow> int" where
  "mdbx_limits_keysize_min flags = int (keysize_min flags)"

definition mdbx_limits_valsize_max :: "globals \<Rightarrow> int \<Rightarrow> nat \<Rightarrow> int" where
  "mdbx_limits_valsize_max g pagesize flags =
     (let pagesize = (if pagesize < 1 then int (mdbx_default_pagesize g) else pagesize)
      in if bad_pagesize pagesize then -1 else int (valsize_max g (nat pagesize) flags))"

definition mdbx_limits_valsize_min :: "nat \<Rightarrow> int" where
  "mdbx_limits_valsize_min flags = int (valsize_min flags)"

definition mdbx_limits_pairsize4page_max :: "globals \<Rightarrow> int \<Rightarrow> nat \<Rightarrow> int" where
  "mdbx_limits_pairsize4page_max g pagesize flags =
     (let pagesize = (if pagesize < 1 then int (mdbx_default_pagesize g) else pagesize)
      in if bad_pagesize pagesize then -1
         else if flags AND dup_flags \<noteq> 0 then int (BRANCH_NODE_MAX (nat pagesize) - NODESIZE)
         else int (LEAF_NODE_MAX (nat pagesize) - NODESIZE))"

definition mdbx_limits_valsize4page_max :: "globals \<Rightarrow> int \<Rightarrow> nat \<Rightarrow> int" where
  "mdbx_limits_valsize4page_max g pagesize flags =
     (let pagesize = (if pagesize < 1 then int (mdbx_default_pagesize g) else pagesize)
      in if bad_pagesize pagesize then -1
         else if flags AND dup_flags \<noteq> 0 then int (valsize_max g (nat pagesize) flags)
         else int (PAGESPACE (nat pagesize)))"

subsection \<open>Derived thresholds of the environment\<close>

definition recalculate_merge_thresholds :: "env \<Rightarrow> env" where
  "recalculate_merge_thresholds env =
     (let whole = page_space env
      in env\<lparr>env_merge_threshold :=
               (whole - drop_bit 16 (whole * opt_merge_threshold_dot16 (env_options env))) mod 2 ^ 16\<rparr>)"

definition recalculate_subpage_thresholds :: "env \<Rightarrow> env" where
  "recalculate_subpage_thresholds env =
     (let sp = opt_subpage (env_options env);
          whole = env_leaf_nodemax env - NODESIZE;
          limit = drop_bit 16 (whole * sp_limit sp + 32767) mod 2 ^ 16;
          whole = limit;
          reserve_limit = drop_bit 16 (whole * sp_reserve_limit sp + 32767) mod 2 ^ 16;
          whole = env_leaf_nodemax env;
          room_threshold = drop_bit 16 (whole * sp_room_threshold sp + 32767) mod 2 ^ 16;
          reserve_prereq = drop_bit 16 (whole * sp_reserve_prereq sp + 32767) mod 2 ^ 16;
          reserve_prereq =
            (if page_space env < room_threshold + reserve_limit then page_space env mod 2 ^ 16
             else if reserve_prereq < room_threshold + reserve_limit
                  then (room_threshold + reserve_limit) mod 2 ^ 16
             else reserve_prereq)
      in env\<lparr>env_subpage_limit := limit, env_subpage_reserve_limit := reserve_limit,
             env_subpage_room_threshold := room_threshold, env_subpage_reserve_prereq := reserve_prereq\<rparr>)"

text \<open>The loop of \<^verbatim>\<open>page_subleaf2_reserve\<close>: at most five items, \<open>n\<close> of them still allowed.\<close>

fun subleaf2_loop :: "env \<Rightarrow> nat \<Rightarrow> nat \<Rightarrow> nat \<Rightarrow> nat \<Rightarrow> nat \<Rightarrow> nat \<times> nat" where
  "subleaf2_loop env host_page_room item_len 0 subpage_len reserve = (subpage_len, reserve)"
| "subleaf2_loop env host_page_room item_len (Suc n) subpage_len reserve =
     (if reserve + item_len \<le> env_subpage_reserve_limit env \<and>
         EVEN_CEIL (subpage_len + item_len) \<le> env_subpage_limit env \<and>
         env_subpage_reserve_prereq env + EVEN_CEIL (subpage_len + item_len) \<le> host_page_room
      then subleaf2_loop env host_page_room item_len n (subpage_len + item_len) (reserve + item_len)
      else (subpage_len, reserve))"

definition page_subleaf2_reserve :: "env \<Rightarrow> nat \<Rightarrow> nat \<Rightarrow> nat \<Rightarrow> nat" where
  "page_subleaf2_reserve env host_page_room subpage_len item_len =
     (let (subpage_len, reserve) = subleaf2_loop env host_page_room item_len 5 subpage_len 0
      in reserve + subpage_len mod 2)"

subsection \<open>Page sizes\<close>

definition env_shaped :: "env \<Rightarrow> bool" where
  "env_shaped env \<longleftrightarrow> 8 \<le> env_ps2ln env \<and> env_ps2ln env \<le> 16 \<and> env_ps env = 2 ^ env_ps2ln env \<and>
     env_branch_nodemax env = BRANCH_NODE_MAX (env_ps env) \<and> env_leaf_nodemax env = LEAF_NODE_MAX (env_ps env)"

lemma pagesize_quarter:
  assumes "8 \<le> k" "k \<le> (16 :: nat)"
  obtains q where "(2 :: nat) ^ k = 4 * q" "64 \<le> q" "q \<le> 16384"
proof -
  have "(2 :: nat) ^ 6 \<le> 2 ^ (k - 2)" "(2 :: nat) ^ (k - 2) \<le> 2 ^ 14"
    using power_increasing[of 6 "k - 2" "2 :: nat"] power_increasing[of "k - 2" 14 "2 :: nat"] assms by auto
  moreover have "(2 :: nat) ^ k = 4 * 2 ^ (k - 2)"
    using assms power_add[of "2 :: nat" 2 "k - 2"] by (simp only: le_add_diff_inverse) simp
  ultimately show thesis by (intro that[of "2 ^ (k - 2)"]) auto
qed

lemma node_max_quarter:
  "64 \<le> q \<Longrightarrow> LEAF_NODE_MAX (4 * q) = 2 * q - 12" "64 \<le> q \<Longrightarrow> BRANCH_NODE_MAX (4 * q) = 2 * q - 18"
proof -
  assume q: "64 \<le> q"
  have "(4 * q - 20) div 2 = 2 * (q - 5)" using q by simp
  then show "LEAF_NODE_MAX (4 * q) = 2 * q - 12"
    using q by (simp add: LEAF_NODE_MAX_def EVEN_FLOOR_def PAGESPACE_def size_defs)
  have "(4 * q - 30) div 2 - 2 = 2 * (q - 9) + 1" using q by simp
  then have "((4 * q - 30) div 2 - 2) div 2 = q - 9" by simp
  then show "BRANCH_NODE_MAX (4 * q) = 2 * q - 18"
    using q by (simp add: BRANCH_NODE_MAX_def EVEN_FLOOR_def PAGESPACE_def size_defs)
qed

lemma env_shaped_quarter:
  assumes "env_shaped env"
  obtains q where "64 \<le> q" "q \<le> 16384" "env_ps env = 4 * q" "page_space env = 4 * q - 20"
    "env_leaf_nodemax env = 2 * q - 12" "env_branch_nodemax env = 2 * q - 18"
proof -
  obtain q where "(2 :: nat) ^ env_ps2ln env = 4 * q" "64 \<le> q" "q \<le> 16384"
    using assms by (auto simp: env_shaped_def elim: pagesize_quarter)
  then show thesis
    using assms by (intro that[of q]) (auto simp: env_shaped_def node_max_quarter page_space_def size_defs)
qed

lemma EVEN_CEIL_le: "EVEN_CEIL n \<le> n + 1" "n \<le> EVEN_CEIL n" "even (EVEN_CEIL n)" "n \<le> 2 * k \<Longrightarrow> EVEN_CEIL n \<le> 2 * k"
  by (auto simp: EVEN_CEIL_def)

lemma env_keysize_le:
  assumes "env_shaped env"
  obtains q where "64 \<le> q" "q \<le> 16384" "page_space env = 4 * q - 20" "env_leaf_nodemax env = 2 * q - 12"
    "env_branch_nodemax env = 2 * q - 18" "env_keysize_max env flags \<le> 2 * (q - 13)"
proof -
  obtain q where q: "64 \<le> q" "q \<le> 16384" "page_space env = 4 * q - 20"
    "env_leaf_nodemax env = 2 * q - 12" "env_branch_nodemax env = 2 * q - 18"
    using env_shaped_quarter[OF assms] by metis
  then have "env_keysize_max env flags \<le> 2 * (q - 13)"
    by (auto simp: env_keysize_max_def Let_def NODESIZE_def sizeof_tree_def)
  then show thesis using that q by blast
qed

text \<open>An opened environment with pages of 4096 bytes and the default options.\<close>

definition sample_options :: options where
  "sample_options = \<lparr>opt_dp_reserve_limit = 1018, opt_rp_augment_limit = 262144, opt_dp_limit = 65536,
     opt_dp_initial = 1018, opt_gc_time_limit = 0, opt_dp_loose_limit = 64, opt_spill_max_denominator = 8,
     opt_spill_min_denominator = 8, opt_spill_parent4child_denominator = 0, opt_merge_threshold_dot16 = 21845,
     opt_split_reserve_dot16 = 0, opt_writethrough_threshold = 2, opt_prefault_write = False,
     opt_prefer_waf_insteadof_balance = True, opt_need_dp_limit_adjust = False,
     opt_subpage = \<lparr>sp_limit = 65535, sp_room_threshold = 0, sp_reserve_prereq = 27525, sp_reserve_limit = 2753\<rparr>,
     opt_non_auto = \<lparr>na_dp_limit = False, na_rp_augment_limit = False, na_prefault_write = False\<rparr>\<rparr>"

definition sample_env :: env where
  "sample_env = \<lparr>env_signed = True, env_flags = ENV_ACTIVE, env_ps = 4096, env_ps2ln = 12, env_mapped = True,
     env_leaf_nodemax = 2036, env_branch_nodemax = 2030, env_subpage_limit = 2028, env_subpage_room_threshold = 0,
     env_subpage_reserve_prereq = 855, env_subpage_reserve_limit = 85, env_merge_threshold = 2718,
     env_max_readers = 126, env_max_dbi = 44, env_maxgc_large1page = 1018, env_maxgc_per_branch = 226,
     env_madv_threshold = 16, env_options = sample_options,
     env_geo = \<lparr>gib_lower = 65536, gib_upper = 1073741824, gib_now = 1048576, gib_grow = 65536, gib_shrink = 131072\<rparr>,
     env_incore = False, env_txn = False, env_basal_txn = True, env_owned_wrtxn = False,
     env_shadow_reserve_len = 7,
     env_lck = Some \<lparr>lck_autosync_threshold = 0, lck_autosync_period = 0, lck_presync_threshold = 64\<rparr>\<rparr>"

lemma sample_env_shaped: "env_shaped sample_env"
  by (simp add: env_shaped_def sample_env_def BRANCH_NODE_MAX_def LEAF_NODE_MAX_def EVEN_FLOOR_def PAGESPACE_def size_defs)

subsection \<open>Keys within the limit fit\<close>

text \<open>
  C39. A key within \<^verbatim>\<open>env_keysize_max\<close> never makes \<^verbatim>\<open>branch_size\<close> panic, two such branch nodes and a node with
  an empty key fit on a branch page together, and two leaf nodes of such a key fit on a leaf page
  whatever their data is.
\<close>

theorem valid_key_fits:
  assumes env: "env_shaped env" and key: "key_len \<le> env_keysize_max env flags"
  shows "(\<exists>sz. branch_size env key_len = Some sz \<and> 2 * sz + (NODESIZE + sizeof_indx) \<le> page_space env) \<and>
         2 * leaf_size env key_len data_len \<le> page_space env"
proof -
  obtain q where q: "64 \<le> q" "page_space env = 4 * q - 20" "env_leaf_nodemax env = 2 * q - 12"
    "env_branch_nodemax env = 2 * q - 18" "env_keysize_max env flags \<le> 2 * (q - 13)"
    using env_keysize_le[OF env, of flags] by metis
  have k: "EVEN_CEIL key_len \<le> 2 * (q - 13)" using key q(5) by (intro EVEN_CEIL_le) simp
  then have "NODESIZE + EVEN_CEIL key_len \<le> 2 * q - 18" using q(1) by (simp add: NODESIZE_def)
  then have "branch_size env key_len = Some (NODESIZE + EVEN_CEIL key_len + sizeof_indx)"
    by (simp add: branch_size_def q node_size_len_def Let_def)
  moreover have k': "EVEN_CEIL key_len + 26 \<le> 2 * q" using k q(1) by simp
  moreover have "2 * (NODESIZE + EVEN_CEIL key_len + sizeof_indx) + (NODESIZE + sizeof_indx) \<le> page_space env"
    using k q(1) by (simp add: q(2) size_defs)
  moreover have "2 * leaf_size env key_len data_len \<le> page_space env"
    using k' q(1) by (auto simp: leaf_size_def node_size_len_def q Let_def size_defs)
  ultimately show ?thesis by blast
qed

theorem valid_key_fits_witness:
  "env_keysize_max sample_env MDBX_DUPSORT = 1980 \<and>
   2 * leaf_size sample_env 1980 100000 \<le> page_space sample_env"
proof -
  have k: "env_keysize_max sample_env MDBX_DUPSORT = 1980"
    by (simp add: env_keysize_max_def sample_env_def dup_flags_def flag_defs NODESIZE_def sizeof_tree_def)
  then show ?thesis
    using valid_key_fits[OF sample_env_shaped, of 1980 MDBX_DUPSORT 100000] by simp
qed

subsection \<open>Thresholds\<close>

lemma scaled_le: "s \<le> 65535 \<Longrightarrow> drop_bit 16 (w * s + 32767) \<le> (w :: nat)"
proof -
  assume "s \<le> 65535"
  then have "w * s \<le> w * 65535" by (rule mult_le_mono2)
  then have "w * s + 32767 \<le> w * 65535 + 32767" by (rule add_right_mono)
  also have "\<dots> < (w + 1) * 65536" by simp
  finally have "w * s + 32767 < (w + 1) * 65536" .
  then have "(w * s + 32767) div 65536 < w + 1" by (simp only: div_less_iff_less_mult zero_less_numeral)
  then show ?thesis by (simp add: drop_bit_eq_div)
qed

definition subpage_options_ok :: "subpage_options \<Rightarrow> bool" where
  "subpage_options_ok sp \<longleftrightarrow> sp_limit sp \<le> 65535 \<and> sp_room_threshold sp \<le> 65535 \<and>
     sp_reserve_prereq sp \<le> 65535 \<and> sp_reserve_limit sp \<le> 65535"

text \<open>
  For every value of the options the API accepts, the derived thresholds satisfy what the code asserts
  of them: pages are merged when between half and 63/64 of them is free, a sub-page and its node header
  fit a leaf node, and the prerequisite room covers the threshold and the reserve.
\<close>

theorem thresholds_consistent:
  assumes env: "env_shaped env" and sp: "subpage_options_ok (opt_subpage (env_options env))"
    and mt: "8192 \<le> opt_merge_threshold_dot16 (env_options env)" "opt_merge_threshold_dot16 (env_options env) \<le> 32768"
  defines "env' \<equiv> recalculate_subpage_thresholds (recalculate_merge_thresholds env)"
  shows "page_space env div 2 \<le> env_merge_threshold env' \<and> env_merge_threshold env' \<le> page_space env * 63 div 64 \<and>
     env_subpage_limit env' + NODESIZE \<le> env_leaf_nodemax env' \<and>
     env_subpage_reserve_limit env' \<le> env_subpage_limit env' \<and>
     env_subpage_room_threshold env' + env_subpage_reserve_limit env' \<le> env_subpage_reserve_prereq env' \<and>
     env_subpage_reserve_prereq env' \<le> page_space env"
proof -
  obtain q where q: "64 \<le> q" "q \<le> 16384" "page_space env = 4 * q - 20" "env_leaf_nodemax env = 2 * q - 12"
    using env_shaped_quarter[OF env] by metis
  define w where "w = page_space env"
  define t where "t = opt_merge_threshold_dot16 (env_options env)"
  have w: "w \<le> 65516" "236 \<le> w" using q by (auto simp: w_def)
  have "w * 8192 \<le> w * t" "w * t \<le> w * 32768" using mt by (auto simp: t_def)
  then have d: "w div 8 \<le> w * t div 65536" "w * t div 65536 \<le> w div 2"
    using div_le_mono[of "w * 8192" "w * t" 65536] div_le_mono[of "w * t" "w * 32768" 65536] by simp_all
  have m: "env_merge_threshold env' = w - w * t div 65536"
    using w by (simp add: env'_def recalculate_subpage_thresholds_def recalculate_merge_thresholds_def Let_def
        w_def[symmetric] t_def[symmetric] drop_bit_eq_div)
  have c1: "w div 2 \<le> env_merge_threshold env'" "env_merge_threshold env' \<le> w * 63 div 64"
    unfolding m using d w by linarith+
  define so where "so = opt_subpage (env_options env)"
  define l where "l = drop_bit 16 ((2 * q - 20) * sp_limit so + 32767)"
  define rl where "rl = drop_bit 16 (l * sp_reserve_limit so + 32767)"
  define rt where "rt = drop_bit 16 ((2 * q - 12) * sp_room_threshold so + 32767)"
  define rp where "rp = drop_bit 16 ((2 * q - 12) * sp_reserve_prereq so + 32767)"
  have b: "l \<le> 2 * q - 20" "rl \<le> l" "rt \<le> 2 * q - 12" "rp \<le> 2 * q - 12"
    using sp by (auto simp: l_def rl_def rt_def rp_def so_def subpage_options_ok_def intro!: scaled_le)
  have small: "l mod 65536 = l" "rl mod 65536 = rl" "rt mod 65536 = rt" "rp mod 65536 = rp" "(rt + rl) mod 65536 = rt + rl"
    using b q by auto
  have room: "\<not> 4 * q - 20 < rt + rl" using b q by simp
  have eq: "env_subpage_limit env' = l" "env_subpage_reserve_limit env' = rl" "env_subpage_room_threshold env' = rt"
    "env_subpage_reserve_prereq env' = (if rp < rt + rl then rt + rl else rp)" "env_leaf_nodemax env' = 2 * q - 12"
    unfolding env'_def recalculate_subpage_thresholds_def recalculate_merge_thresholds_def Let_def
    using q room by (simp_all add: page_space_def so_def[symmetric] NODESIZE_def l_def[symmetric] rl_def[symmetric]
        rt_def[symmetric] rp_def[symmetric] small)
  show ?thesis
    unfolding eq NODESIZE_def using c1 b q unfolding w_def[symmetric] by (intro conjI) (simp_all, linarith+)
qed

theorem thresholds_consistent_witness:
  "env_subpage_limit (recalculate_subpage_thresholds (recalculate_merge_thresholds sample_env)) + NODESIZE
     \<le> env_leaf_nodemax (recalculate_subpage_thresholds (recalculate_merge_thresholds sample_env))"
  using thresholds_consistent[OF sample_env_shaped]
  by (simp add: sample_env_def sample_options_def subpage_options_ok_def)

lemma subleaf2_loop_bounds:
  assumes "subleaf2_loop env room item_len n len reserve = (len', reserve')"
  shows "len' + reserve = len + reserve'" "reserve \<le> env_subpage_reserve_limit env \<Longrightarrow> reserve' \<le> env_subpage_reserve_limit env"
    "EVEN_CEIL len \<le> env_subpage_limit env \<Longrightarrow> EVEN_CEIL len' \<le> env_subpage_limit env"
    "reserve \<le> reserve'" "reserve' \<le> reserve + n * item_len"
    "reserve' = reserve \<or> env_subpage_reserve_prereq env + EVEN_CEIL len' \<le> room"
  using assms by (induction env room item_len n len reserve rule: subleaf2_loop.induct) (auto split: if_splits)

text \<open>
  The room \<^verbatim>\<open>page_subleaf2_reserve\<close> sets aside in a sub-page of even length keeps its length even and
  within the sub-page limit, is at most the reserve limit (rounded up to even) and at most five items, and
  is taken only when the host page keeps its prerequisite room.
\<close>

theorem subleaf2_reserve_bounds:
  assumes len: "even subpage_len" "subpage_len \<le> env_subpage_limit env"
  shows "let r = page_subleaf2_reserve env host_page_room subpage_len item_len in
    even (subpage_len + r) \<and> subpage_len + r \<le> env_subpage_limit env \<and> r \<le> EVEN_CEIL (env_subpage_reserve_limit env) \<and>
    r \<le> 5 * item_len + 1 \<and> (r = 0 \<or> env_subpage_reserve_prereq env + (subpage_len + r) \<le> host_page_room)"
proof -
  obtain len' r where l: "subleaf2_loop env host_page_room item_len 5 subpage_len 0 = (len', r)" by fastforce
  note b = subleaf2_loop_bounds[OF l]
  have len': "len' = subpage_len + r" using b(1) by simp
  have r: "page_subleaf2_reserve env host_page_room subpage_len item_len = r + len' mod 2"
    by (simp add: page_subleaf2_reserve_def l)
  have c: "subpage_len + (r + len' mod 2) = EVEN_CEIL len'" "r + len' mod 2 = EVEN_CEIL r"
    using len(1) by (auto simp: len' EVEN_CEIL_def elim!: evenE) presburger+
  have "EVEN_CEIL subpage_len \<le> env_subpage_limit env" using len by (auto simp: EVEN_CEIL_def elim!: evenE)
  then have lim: "EVEN_CEIL len' \<le> env_subpage_limit env" by (rule b(3))
  have rl: "EVEN_CEIL r \<le> EVEN_CEIL (env_subpage_reserve_limit env)"
    using b(2) by (simp add: EVEN_CEIL_def div_le_mono)
  have five: "EVEN_CEIL r \<le> 5 * item_len + 1" using b(5) EVEN_CEIL_le(1)[of r] by simp
  have "EVEN_CEIL r = 0 \<or> env_subpage_reserve_prereq env + EVEN_CEIL len' \<le> host_page_room"
    using b(6) by (auto simp: EVEN_CEIL_def)
  moreover have s: "subpage_len + EVEN_CEIL r = EVEN_CEIL len'" using c by simp
  ultimately show ?thesis unfolding r c(2) Let_def s using lim rl five EVEN_CEIL_le(3)[of len'] by blast
qed

theorem subleaf2_reserve_bounds_witness:
  "page_subleaf2_reserve sample_env 4000 100 7 = 36 \<and> even (100 + page_subleaf2_reserve sample_env 4000 100 7)"
proof -
  have five: "(5 :: nat) = Suc (Suc (Suc (Suc (Suc 0))))" by simp
  have "page_subleaf2_reserve sample_env 4000 100 7 = 36"
    unfolding page_subleaf2_reserve_def five by (simp add: sample_env_def EVEN_CEIL_def)
  moreover have "even (100 + page_subleaf2_reserve sample_env 4000 100 7)"
    using subleaf2_reserve_bounds[of 100 sample_env 4000 7] by (simp add: sample_env_def Let_def)
  ultimately show ?thesis by blast
qed

end
