(* ===== verification/Options.thy ===== *)
theory Options
  imports Limits Pnl
begin

text \<open>
  The tunable options of an environment: their defaults, \<^verbatim>\<open>mdbx_env_set_option\<close> and
  \<^verbatim>\<open>mdbx_env_get_option\<close> with every guard of every option, the conversions of times between the 16.16
  fixed-point seconds of the API and nanoseconds, \<^verbatim>\<open>env_setup_pagesize\<close> and the re-adjustment of
  the automatic defaults. What the operating system answers is a parameter: the amount of memory
  (\<^verbatim>\<open>mdbx_get_sysraminfo\<close>), the result of taking the write lock (\<^verbatim>\<open>lck_txn_lock\<close>) and of flushing
  (\<^verbatim>\<open>env_sync\<close>).
\<close>

unbundle bit_operations_syntax

record os_answers =
  os_ram_pages :: "(nat \<times> nat) option"
  os_txn_lock :: rc
  os_env_sync :: rc

subsection \<open>Times\<close>

definition osal_16dot16_to_monotime :: "nat \<Rightarrow> nat" where
  "osal_16dot16_to_monotime seconds_16dot16 =
     (let ret = drop_bit 16 ((1000000000 * seconds_16dot16 + 32768) mod 2 ^ 64)
      in if ret \<noteq> 0 \<or> seconds_16dot16 = 0 then ret else 1)"

definition UINT32_MAX :: nat where "UINT32_MAX = 2 ^ 32 - 1"

text \<open>\<^verbatim>\<open>osal_init\<close> sets \<^verbatim>\<open>monotime_limit\<close>.\<close>

definition monotime_limit :: nat where
  "monotime_limit = osal_16dot16_to_monotime (UINT32_MAX - 1)"

definition osal_monotime_to_16dot16 :: "nat \<Rightarrow> nat" where
  "osal_monotime_to_16dot16 monotime =
     (if monotime_limit < monotime then UINT32_MAX
      else push_bit 7 monotime mod 2 ^ 64 div 1953125 mod 2 ^ 32)"

subsection \<open>Defaults\<close>

definition MAX_IO_BYTES :: nat where "MAX_IO_BYTES = 0x3f000000"
definition MDBX_MAX_DBI :: nat where "MDBX_MAX_DBI = 32765"
definition MDBX_READERS_LIMIT :: nat where "MDBX_READERS_LIMIT = 32767"
definition CORE_DBS :: nat where "CORE_DBS = 2"
definition MDBX_WRITETHROUGH_THRESHOLD_DEFAULT :: nat where "MDBX_WRITETHROUGH_THRESHOLD_DEFAULT = 2"
definition INT_MAX :: nat where "INT_MAX = 2 ^ 31 - 1"

named_theorems opt_consts \<open>the numeric constants of the options\<close>

declare CURSOR_STACK_SIZE_def [opt_consts] MAX_IO_BYTES_def [opt_consts] MDBX_MAX_DBI_def [opt_consts]
  MDBX_READERS_LIMIT_def [opt_consts] CORE_DBS_def [opt_consts] UINT32_MAX_def [opt_consts]
  MDBX_WRITETHROUGH_THRESHOLD_DEFAULT_def [opt_consts] INT_MAX_def [opt_consts] UINT64_MAX_def [opt_consts]
  PAGELIST_LIMIT_def [opt_consts] MAX_PAGENO_def [opt_consts] NUM_METAS_def [opt_consts]

definition env_max_pgno :: "globals \<Rightarrow> env \<Rightarrow> nat" where
  "env_max_pgno g env =
     (if env_ps env \<noteq> 0
      then bytes2pgno env (if gib_upper (env_geo env) \<noteq> 0 then gib_upper (env_geo env) else mmap_limit g)
      else PAGELIST_LIMIT)"

definition default_dp_limit :: "os_answers \<Rightarrow> globals \<Rightarrow> env \<Rightarrow> nat" where
  "default_dp_limit os g env =
     (let dp_limit =
            (case os_ram_pages os of None \<Rightarrow> 1024
             | Some (total_ram_pages, avail_ram_pages) \<Rightarrow>
                 (let estimate = (total_ram_pages + avail_ram_pages) div 42;
                      estimate =
                        (if env_ps env \<noteq> 0
                         then (if sys_pagesize g < env_ps env then estimate div (env_ps env div sys_pagesize g)
                               else if env_ps env < sys_pagesize g
                                    then estimate * (sys_pagesize g div env_ps env) mod 2 ^ 64
                               else estimate)
                         else estimate)
                  in estimate mod 2 ^ 32));
          dp_limit = (if dp_limit < PAGELIST_LIMIT then dp_limit else PAGELIST_LIMIT);
          max_pgno = env_max_pgno g env;
          dp_limit = (if sub32 max_pgno NUM_METAS < dp_limit then sub32 max_pgno NUM_METAS else dp_limit)
      in if CURSOR_STACK_SIZE * 4 < dp_limit then dp_limit else CURSOR_STACK_SIZE * 4)"

definition default_rp_augment_limit :: "env \<Rightarrow> nat" where
  "default_rp_augment_limit env =
     (let timeframe = push_bit 16 16;
          remain_1sec = (if opt_gc_time_limit (env_options env) < timeframe
                         then timeframe - opt_gc_time_limit (env_options env) else 0);
          minimum = (if MDBX_PNL_INITIAL < env_maxgc_large1page env * 2
                     then env_maxgc_large1page env * 2 else MDBX_PNL_INITIAL);
          one_third = drop_bit (env_ps2ln env) (gib_now (env_geo env) div 3);
          augment_limit = (if minimum < one_third
                           then minimum + (one_third - minimum) div timeframe * remain_1sec else minimum)
      in pnl_bytes2size (pnl_size2bytes augment_limit) mod 2 ^ 32)"

text \<open>\<^verbatim>\<open>MDBX_MMAP_INCOHERENT_FILE_WRITE\<close> is 0 outside OpenBSD.\<close>

definition default_prefault_write :: "env \<Rightarrow> bool" where
  "default_prefault_write env \<longleftrightarrow>
     \<not> env_incore env \<and> env_flags env AND (MDBX_WRITEMAP OR MDBX_RDONLY) = MDBX_WRITEMAP"

definition default_prefer_waf_insteadof_balance :: bool where "default_prefer_waf_insteadof_balance = True"
definition default_subpage_limit :: nat where "default_subpage_limit = 65535"
definition default_subpage_room_threshold :: nat where "default_subpage_room_threshold = 0"
definition default_subpage_reserve_prereq :: nat where "default_subpage_reserve_prereq = 27525"
definition default_subpage_reserve_limit :: nat where "default_subpage_reserve_limit = 2753"
definition default_merge_threshold_dot16 :: nat where "default_merge_threshold_dot16 = 65536 div 3"
definition default_dp_reserve_limit :: nat where "default_dp_reserve_limit = MDBX_PNL_INITIAL"
definition default_dp_initial :: nat where "default_dp_initial = MDBX_PNL_INITIAL"
definition default_spill_max_denominator :: nat where "default_spill_max_denominator = 8"
definition default_spill_min_denominator :: nat where "default_spill_min_denominator = 8"
definition default_spill_parent4child_denominator :: nat where "default_spill_parent4child_denominator = 0"
definition default_dp_loose_limit :: nat where "default_dp_loose_limit = 64"
definition default_presync_threshold_bytes :: nat where "default_presync_threshold_bytes = 256 * 1024"

named_theorems opt_defaults \<open>the values of the default options\<close>

declare default_prefer_waf_insteadof_balance_def [opt_defaults] default_subpage_limit_def [opt_defaults]
  default_subpage_room_threshold_def [opt_defaults] default_subpage_reserve_prereq_def [opt_defaults]
  default_subpage_reserve_limit_def [opt_defaults] default_merge_threshold_dot16_def [opt_defaults]
  default_dp_reserve_limit_def [opt_defaults] default_dp_initial_def [opt_defaults]
  default_spill_max_denominator_def [opt_defaults] default_spill_min_denominator_def [opt_defaults]
  default_spill_parent4child_denominator_def [opt_defaults] default_dp_loose_limit_def [opt_defaults]
  default_presync_threshold_bytes_def [opt_defaults]

definition lck_options_init_defaults :: "globals \<Rightarrow> env \<Rightarrow> lck_options \<Rightarrow> lck_options" where
  "lck_options_init_defaults g env lck =
     lck\<lparr>lck_presync_threshold := bytes_ceil2os_pgno g env default_presync_threshold_bytes\<rparr>"

text \<open>Updates of one group of fields inside the environment.\<close>

definition upd_options :: "(options \<Rightarrow> options) \<Rightarrow> env \<Rightarrow> env" where
  "upd_options f env = env\<lparr>env_options := f (env_options env)\<rparr>"

definition upd_subpage :: "(subpage_options \<Rightarrow> subpage_options) \<Rightarrow> env \<Rightarrow> env" where
  "upd_subpage f = upd_options (\<lambda>o'. o'\<lparr>opt_subpage := f (opt_subpage o')\<rparr>)"

definition upd_non_auto :: "(non_auto_flags \<Rightarrow> non_auto_flags) \<Rightarrow> env \<Rightarrow> env" where
  "upd_non_auto f = upd_options (\<lambda>o'. o'\<lparr>opt_non_auto := f (opt_non_auto o')\<rparr>)"

definition upd_lck :: "(lck_options \<Rightarrow> lck_options) \<Rightarrow> env \<Rightarrow> env" where
  "upd_lck f env = env\<lparr>env_lck := map_option f (env_lck env)\<rparr>"

lemmas upd_defs = upd_options_def upd_subpage_def upd_non_auto_def upd_lck_def

definition env_options_init :: "globals \<Rightarrow> env \<Rightarrow> env" where
  "env_options_init g env =
     (let rp = default_rp_augment_limit env
      in upd_options (\<lambda>o'. o'\<lparr>opt_rp_augment_limit := rp,
           opt_dp_reserve_limit := default_dp_reserve_limit,
           opt_dp_initial := default_dp_initial,
           opt_dp_limit := default_dp_initial * 42,
           opt_spill_max_denominator := default_spill_max_denominator,
           opt_spill_min_denominator := default_spill_min_denominator,
           opt_spill_parent4child_denominator := default_spill_parent4child_denominator,
           opt_dp_loose_limit := default_dp_loose_limit,
           opt_merge_threshold_dot16 := default_merge_threshold_dot16,
           opt_prefer_waf_insteadof_balance :=
             (if default_prefer_waf_insteadof_balance then True else opt_prefer_waf_insteadof_balance o'),
           opt_writethrough_threshold :=
             (if running_on_WSL1 g then MAX_PAGENO else MDBX_WRITETHROUGH_THRESHOLD_DEFAULT),
           opt_subpage := \<lparr>sp_limit = default_subpage_limit, sp_room_threshold = default_subpage_room_threshold,
             sp_reserve_prereq = default_subpage_reserve_prereq,
             sp_reserve_limit = default_subpage_reserve_limit\<rparr>\<rparr>) env)"

definition env_options_adjust_dp_limit :: "os_answers \<Rightarrow> globals \<Rightarrow> env \<Rightarrow> env" where
  "env_options_adjust_dp_limit os g env =
     (let o' = env_options env;
          dp_limit =
            (if \<not> na_dp_limit (opt_non_auto o') then default_dp_limit os g env
             else let max_pgno = env_max_pgno g env;
                      dp_limit = (if sub32 max_pgno NUM_METAS < opt_dp_limit o'
                                  then sub32 max_pgno NUM_METAS else opt_dp_limit o')
                  in if dp_limit < CURSOR_STACK_SIZE * 4 then CURSOR_STACK_SIZE * 4 else dp_limit);
          dp_initial = (if dp_limit < opt_dp_initial o' \<and> default_dp_initial < opt_dp_initial o'
                        then dp_limit else opt_dp_initial o')
      in upd_options (\<lambda>o'. o'\<lparr>opt_dp_limit := dp_limit, opt_dp_initial := dp_initial,
           opt_need_dp_limit_adjust := False\<rparr>) env)"

definition env_options_adjust_defaults :: "os_answers \<Rightarrow> globals \<Rightarrow> env \<Rightarrow> env" where
  "env_options_adjust_defaults os g env =
     (let env = (if \<not> na_rp_augment_limit (opt_non_auto (env_options env))
                 then let rp = default_rp_augment_limit env
                      in upd_options (\<lambda>o'. o'\<lparr>opt_rp_augment_limit := rp\<rparr>) env
                 else env);
          env = (if \<not> na_prefault_write (opt_non_auto (env_options env))
                 then let pw = default_prefault_write env
                      in upd_options (\<lambda>o'. o'\<lparr>opt_prefault_write := pw\<rparr>) env
                 else env);
          env = upd_options (\<lambda>o'. o'\<lparr>opt_need_dp_limit_adjust := True\<rparr>) env;
          env = (if \<not> env_txn env then env_options_adjust_dp_limit os g env else env);
          basis = gib_now (env_geo env);
          threshold = (if basis < push_bit 9 65536 then 65536
                       else if push_bit 9 (MEGABYTE * 4) < basis then MEGABYTE * 4
                       else drop_bit 9 basis);
          threshold = (if threshold < gib_shrink (env_geo env) \<or> gib_shrink (env_geo env) = 0
                       then threshold else gib_shrink (env_geo env))
      in env\<lparr>env_madv_threshold := bytes_ceil2os_pgno g env threshold\<rparr>)"

text \<open>
  The buffer for auxiliary pages, and the check that it could be had, are left out.
\<close>

definition env_setup_pagesize :: "os_answers \<Rightarrow> globals \<Rightarrow> env \<Rightarrow> nat \<Rightarrow> env" where
  "env_setup_pagesize os g env pagesize =
     (let env = env\<lparr>env_ps := pagesize,
                   env_maxgc_large1page := (pagesize - PAGEHDRSZ) div sizeof_pgno - 1,
                   env_maxgc_per_branch := (pagesize - PAGEHDRSZ) div (sizeof_indx + NODESIZE + sizeof_txnid),
                   env_leaf_nodemax := LEAF_NODE_MAX pagesize mod 2 ^ 16,
                   env_branch_nodemax := BRANCH_NODE_MAX pagesize mod 2 ^ 16,
                   env_ps2ln := log2n_powerof2 pagesize mod 2 ^ 8\<rparr>
      in env_options_adjust_dp_limit os g (recalculate_subpage_thresholds (recalculate_merge_thresholds env)))"

end
