(* ===== verification/Meta.thy ===== *)
theory Meta
  imports Limits
begin

text \<open>
  The three meta pages (\<^verbatim>\<open>meta_t\<close>) and the choice among them: which one is the recent one, which is the one
  a crash falls back to (\<open>prefer_steady\<close>) and which is the tail that the next commit overwrites. The
  choice is a table lookup, \<^verbatim>\<open>troika_fsm_map\<close>, indexed by the steadiness of the three and the pairwise
  comparison of their transaction ids; \<^verbatim>\<open>meta_cmp2pack\<close> is the reference computation of the table.
  The 64-bit halves of \<^verbatim>\<open>txnid_a\<close>, \<^verbatim>\<open>txnid_b\<close> and \<^verbatim>\<open>sign\<close> are one number each (amd64, where they are
  loaded and stored atomically).
\<close>

unbundle bit_operations_syntax

subsection \<open>The meta page\<close>

record geo =
  geo_grow_pv :: nat
  geo_shrink_pv :: nat
  geo_lower :: pgno
  geo_upper :: pgno
  geo_now :: pgno
  geo_first_unallocated :: pgno

record tree =
  tree_flags :: nat
  tree_height :: nat
  tree_dupfix_size :: nat
  tree_root :: pgno
  tree_branch_pages :: pgno
  tree_leaf_pages :: pgno
  tree_large_pages :: pgno
  tree_sequence :: nat
  tree_items :: nat
  tree_mod_txnid :: txnid

type_synonym bin128 = "nat \<times> nat"

record meta =
  meta_magic :: nat
  meta_txnid_a :: txnid
  meta_reserve16 :: nat
  meta_validator_id :: nat
  meta_extra_pagehdr :: int
  meta_geometry :: geo
  meta_gc :: tree
  meta_main :: tree
  meta_canary :: "nat list"
  meta_sign :: nat
  meta_txnid_b :: txnid
  meta_pages_retired :: nat
  meta_bootid :: bin128
  meta_dxbid :: bin128

text \<open>\<^verbatim>\<open>pagesize\<close> shares its place with \<^verbatim>\<open>trees.gc.dupfix_size\<close>.\<close>

definition meta_pagesize :: "meta \<Rightarrow> nat" where
  "meta_pagesize m = tree_dupfix_size (meta_gc m)"

definition DATASIGN_NONE :: nat where "DATASIGN_NONE = 0"
definition DATASIGN_WEAK :: nat where "DATASIGN_WEAK = 1"

definition SIGN_IS_STEADY :: "nat \<Rightarrow> bool" where
  "SIGN_IS_STEADY sign \<longleftrightarrow> DATASIGN_WEAK < sign"

definition meta_sign_calculate :: nat where
  "meta_sign_calculate =
     (let sign = DATASIGN_NONE in if DATASIGN_WEAK < sign then sign else UINT64_MAX - sign)"

definition meta_sign_as_steady :: "meta \<Rightarrow> meta" where
  "meta_sign_as_steady m = m\<lparr>meta_sign := meta_sign_calculate\<rparr>"

definition meta_is_steady :: "meta \<Rightarrow> bool" where
  "meta_is_steady m \<longleftrightarrow> SIGN_IS_STEADY (meta_sign m)"

definition constmeta_txnid :: "meta \<Rightarrow> txnid" where
  "constmeta_txnid m = (if meta_txnid_a m = meta_txnid_b m then meta_txnid_a m else 0)"

definition meta_update_begin :: "meta \<Rightarrow> txnid \<Rightarrow> meta" where
  "meta_update_begin m txnid = m\<lparr>meta_txnid_b := 0, meta_txnid_a := txnid\<rparr>"

definition meta_update_end :: "bin128 \<Rightarrow> meta \<Rightarrow> txnid \<Rightarrow> meta" where
  "meta_update_end bootid m txnid = m\<lparr>meta_bootid := bootid, meta_txnid_b := txnid\<rparr>"

definition meta_set_txnid :: "bin128 \<Rightarrow> meta \<Rightarrow> txnid \<Rightarrow> meta" where
  "meta_set_txnid bootid m txnid = m\<lparr>meta_bootid := bootid, meta_txnid_a := txnid, meta_txnid_b := txnid\<rparr>"

definition meta_bootid_match :: "bin128 \<Rightarrow> meta \<Rightarrow> bool" where
  "meta_bootid_match bootid m \<longleftrightarrow> meta_bootid m = bootid \<and> fst bootid OR snd bootid \<noteq> 0"

text \<open>\<open>envmode\<close> is the mode in the \<^verbatim>\<open>lck\<close> block, \<open>None\<close> without one.\<close>

definition meta_weak_acceptable :: "bin128 \<Rightarrow> nat option \<Rightarrow> meta \<Rightarrow> bool \<Rightarrow> bool" where
  "meta_weak_acceptable bootid envmode m lck_exclusive \<longleftrightarrow>
     (if lck_exclusive then meta_bootid_match bootid m
      else case envmode of None \<Rightarrow> False | Some mode \<Rightarrow> \<not> has_flag mode MDBX_RDONLY)"

subsection \<open>Comparisons\<close>

definition meta_cmp2int :: "txnid \<Rightarrow> txnid \<Rightarrow> nat \<Rightarrow> nat" where
  "meta_cmp2int a b s = (if a = b then 1 * s else if b < a then 2 * s else 0 * s)"

text \<open>\<^verbatim>\<open>a_steady > b_steady\<close> on booleans.\<close>

definition meta_cmp2recent :: "nat \<Rightarrow> bool \<Rightarrow> bool \<Rightarrow> bool" where
  "meta_cmp2recent ab_cmp2int a_steady b_steady \<longleftrightarrow>
     1 < ab_cmp2int \<or> (ab_cmp2int = 1 \<and> a_steady \<and> \<not> b_steady)"

definition meta_cmp2steady :: "nat \<Rightarrow> bool \<Rightarrow> bool \<Rightarrow> bool" where
  "meta_cmp2steady ab_cmp2int a_steady b_steady \<longleftrightarrow>
     (a_steady \<and> \<not> b_steady) \<or> (a_steady = b_steady \<and> 1 < ab_cmp2int)"

definition meta_choice_recent :: "txnid \<Rightarrow> bool \<Rightarrow> txnid \<Rightarrow> bool \<Rightarrow> bool" where
  "meta_choice_recent a_txnid a_steady b_txnid b_steady =
     meta_cmp2recent (meta_cmp2int a_txnid b_txnid 1) a_steady b_steady"

definition meta_choice_steady :: "txnid \<Rightarrow> bool \<Rightarrow> txnid \<Rightarrow> bool \<Rightarrow> bool" where
  "meta_choice_steady a_txnid a_steady b_txnid b_steady =
     meta_cmp2steady (meta_cmp2int a_txnid b_txnid 1) a_steady b_steady"

subsection \<open>The troika\<close>

record troika =
  tr_fsm :: nat
  tr_recent :: nat
  tr_prefer_steady :: nat
  tr_tail_and_flags :: nat
  tr_txnid :: "txnid list"

definition TROIKA_HAVE_STEADY :: "troika \<Rightarrow> bool" where
  "TROIKA_HAVE_STEADY t \<longleftrightarrow> tr_fsm t AND 7 \<noteq> 0"

definition TROIKA_STRICT_VALID :: "troika \<Rightarrow> bool" where
  "TROIKA_STRICT_VALID t \<longleftrightarrow> tr_tail_and_flags t AND 64 \<noteq> 0"

definition TROIKA_VALID :: "troika \<Rightarrow> bool" where
  "TROIKA_VALID t \<longleftrightarrow> tr_tail_and_flags t AND 128 \<noteq> 0"

definition TROIKA_TAIL :: "troika \<Rightarrow> nat" where
  "TROIKA_TAIL t = tr_tail_and_flags t AND 3"

definition meta_cmp2pack :: "nat \<Rightarrow> nat \<Rightarrow> nat \<Rightarrow> bool \<Rightarrow> bool \<Rightarrow> bool \<Rightarrow> nat" where
  "meta_cmp2pack c01 c02 c12 s0 s1 s2 =
     (let recent = (if meta_cmp2recent c01 s0 s1 then (if meta_cmp2recent c02 s0 s2 then 0 else 2)
                    else (if meta_cmp2recent c12 s1 s2 then 1 else 2));
          prefer_steady = (if meta_cmp2steady c01 s0 s1 then (if meta_cmp2steady c02 s0 s2 then 0 else 2)
                           else (if meta_cmp2steady c12 s1 s2 then 1 else 2));
          tail = (if recent = 0 then (if meta_cmp2steady c12 s1 s2 then 2 else 1)
                  else if recent = 1 then (if meta_cmp2steady c02 s0 s2 then 2 else 0)
                  else (if meta_cmp2steady c01 s0 s1 then 1 else 0));
          valid = (c01 \<noteq> 1 \<or> s0 \<noteq> s1 \<or> c02 \<noteq> 1 \<or> s0 \<noteq> s2 \<or> c12 \<noteq> 1 \<or> s1 \<noteq> s2);
          strict = ((c01 \<noteq> 1 \<or> s0 \<noteq> s1) \<and> (c02 \<noteq> 1 \<or> s0 \<noteq> s2) \<and> (c12 \<noteq> 1 \<or> s1 \<noteq> s2))
      in tail OR push_bit 2 recent OR push_bit 4 prefer_steady OR
         push_bit 6 (if strict then 1 else 0) OR push_bit 7 (if valid then 1 else 0))"

definition meta_troika_unpack :: "troika \<Rightarrow> nat \<Rightarrow> troika" where
  "meta_troika_unpack t packed =
     t\<lparr>tr_recent := drop_bit 2 packed AND 3, tr_prefer_steady := drop_bit 4 packed AND 3,
       tr_tail_and_flags := packed AND 0xC3\<rparr>"

definition troika_fsm_map :: "nat list" where
  "troika_fsm_map = [
    232, 201, 216, 216, 232, 233, 232, 232, 168, 201, 216, 152, 168, 233, 232, 168, 233, 201, 216, 201, 233, 233,
    232, 233, 168, 201, 152, 216, 232, 169, 232, 168, 168, 193, 152, 152, 168, 169, 232, 168, 169, 193, 152, 194,
    233, 169, 232, 169, 232, 201, 216, 216, 232, 201, 232, 232, 168, 193, 216, 152, 168, 193, 232, 168, 193, 193,
    210, 194, 225, 193, 225, 193, 168, 137, 212, 214, 232, 233, 168, 168, 168, 137, 212, 150, 168, 233, 168, 168,
    169, 137, 216, 201, 233, 233, 168, 169, 168, 137, 148, 214, 232, 169, 168, 168, 40,  129, 148, 150, 168, 169,
    168, 40,  169, 129, 152, 194, 233, 169, 168, 169, 168, 137, 214, 214, 232, 201, 168, 168, 168, 129, 214, 150,
    168, 193, 168, 168, 129, 129, 210, 194, 225, 193, 161, 129, 212, 198, 212, 214, 228, 228, 212, 212, 148, 201,
    212, 150, 164, 233, 212, 148, 233, 201, 216, 201, 233, 233, 216, 233, 148, 198, 148, 214, 228, 164, 212, 148,
    148, 194, 148, 150, 164, 169, 212, 148, 169, 194, 152, 194, 233, 169, 216, 169, 214, 198, 214, 214, 228, 198,
    212, 214, 150, 194, 214, 150, 164, 193, 212, 150, 194, 194, 210, 194, 225, 193, 210, 194]"

text \<open>The decoding of a table index, and the self-check of the table.\<close>

definition fsm_s :: "nat \<Rightarrow> nat \<Rightarrow> bool" where "fsm_s i n \<longleftrightarrow> drop_bit n i AND 1 \<noteq> 0"
definition fsm_c01 :: "nat \<Rightarrow> nat" where "fsm_c01 i = i div (8 * 1) mod 3"
definition fsm_c02 :: "nat \<Rightarrow> nat" where "fsm_c02 i = i div (8 * 3) mod 3"
definition fsm_c12 :: "nat \<Rightarrow> nat" where "fsm_c12 i = i div (8 * 9) mod 3"

definition fsm_check :: "nat \<Rightarrow> bool" where
  "fsm_check i =
     (let s0 = fsm_s i 0; s1 = fsm_s i 1; s2 = fsm_s i 2;
          c01 = fsm_c01 i; c02 = fsm_c02 i; c12 = fsm_c12 i;
          packed = meta_cmp2pack c01 c02 c12 s0 s1 s2;
          troika = meta_troika_unpack
            \<lparr>tr_fsm = i, tr_recent = 0, tr_prefer_steady = 0, tr_tail_and_flags = 0, tr_txnid = []\<rparr> packed;
          tail = TROIKA_TAIL troika; strict = TROIKA_STRICT_VALID troika; valid = TROIKA_VALID troika;
          recent_chk = (if meta_cmp2recent c01 s0 s1 then (if meta_cmp2recent c02 s0 s2 then 0 else 2)
                        else (if meta_cmp2recent c12 s1 s2 then 1 else 2));
          prefer_steady_chk = (if meta_cmp2steady c01 s0 s1 then (if meta_cmp2steady c02 s0 s2 then 0 else 2)
                               else (if meta_cmp2steady c12 s1 s2 then 1 else 2));
          tail_chk = (if recent_chk = 0 then (if meta_cmp2steady c12 s1 s2 then 2 else 1)
                      else if recent_chk = 1 then (if meta_cmp2steady c02 s0 s2 then 2 else 0)
                      else (if meta_cmp2steady c01 s0 s1 then 1 else 0));
          valid_chk = (c01 \<noteq> 1 \<or> s0 \<noteq> s1 \<or> c02 \<noteq> 1 \<or> s0 \<noteq> s2 \<or> c12 \<noteq> 1 \<or> s1 \<noteq> s2);
          strict_chk = ((c01 \<noteq> 1 \<or> s0 \<noteq> s1) \<and> (c02 \<noteq> 1 \<or> s0 \<noteq> s2) \<and> (c12 \<noteq> 1 \<or> s1 \<noteq> s2))
      in tr_recent troika = recent_chk \<and> tr_prefer_steady troika = prefer_steady_chk \<and> tail = tail_chk \<and>
         valid = valid_chk \<and> strict = strict_chk \<and> troika_fsm_map ! i = packed)"

definition troika_verify_fsm :: bool where
  "troika_verify_fsm = fold (\<lambda>i ok. if fsm_check i then ok else False) [0 ..< 2 * 2 * 2 * 3 * 3 * 3] True"

subsection \<open>Reading the meta pages\<close>

text \<open>A snapshot of a meta page nobody writes meanwhile; the interleaved reads are in theory \<open>Meta_Race\<close>.\<close>

definition meta_snap :: "meta \<Rightarrow> txnid \<times> bool" where
  "meta_snap m =
     (let txnid = meta_txnid_a m; is_steady = (meta_is_steady m \<and> MIN_TXNID \<le> txnid)
      in if txnid \<noteq> meta_txnid_b m then (0, False) else (txnid, is_steady))"

definition meta_txnid :: "meta \<Rightarrow> txnid" where "meta_txnid m = fst (meta_snap m)"

definition fsm_index :: "(txnid \<times> bool) \<Rightarrow> (txnid \<times> bool) \<Rightarrow> (txnid \<times> bool) \<Rightarrow> nat" where
  "fsm_index m0 m1 m2 =
     push_bit 0 (if snd m0 then 1 else 0) + push_bit 1 (if snd m1 then 1 else 0) + meta_cmp2int (fst m0) (fst m1) 8 +
     push_bit 2 (if snd m2 then 1 else 0) + meta_cmp2int (fst m0) (fst m2) (8 * 3) +
     meta_cmp2int (fst m1) (fst m2) (8 * 3 * 3)"

definition meta_tap :: "meta list \<Rightarrow> troika" where
  "meta_tap metas =
     (let m0 = meta_snap (metas ! 0); m1 = meta_snap (metas ! 1); m2 = meta_snap (metas ! 2);
          fsm = fsm_index m0 m1 m2
      in meta_troika_unpack
           \<lparr>tr_fsm = fsm, tr_recent = 0, tr_prefer_steady = 0, tr_tail_and_flags = 0,
            tr_txnid = [fst m0, fst m1, fst m2]\<rparr> (troika_fsm_map ! fsm))"

record meta_ptr =
  mp_txnid :: txnid
  mp_index :: nat
  mp_is_steady :: bool

definition troika_ptr :: "troika \<Rightarrow> nat \<Rightarrow> meta_ptr" where
  "troika_ptr t n = \<lparr>mp_txnid = tr_txnid t ! n, mp_index = n, mp_is_steady = (drop_bit n (tr_fsm t) AND 1 \<noteq> 0)\<rparr>"

definition meta_recent :: "troika \<Rightarrow> meta_ptr" where "meta_recent t = troika_ptr t (tr_recent t)"
definition meta_prefer_steady :: "troika \<Rightarrow> meta_ptr" where "meta_prefer_steady t = troika_ptr t (tr_prefer_steady t)"
definition meta_tail :: "troika \<Rightarrow> meta_ptr" where "meta_tail t = troika_ptr t (tr_tail_and_flags t AND 3)"

definition meta_is_used :: "troika \<Rightarrow> nat \<Rightarrow> bool" where
  "meta_is_used t n \<longleftrightarrow> n = tr_recent t \<or> n = tr_prefer_steady t"

definition recent_committed_txnid :: "meta list \<Rightarrow> txnid" where
  "recent_committed_txnid metas =
     (let m0 = meta_txnid (metas ! 0); m1 = meta_txnid (metas ! 1); m2 = meta_txnid (metas ! 2)
      in if m1 < m0 then (if m2 < m0 then m0 else m2) else (if m2 < m1 then m1 else m2))"

definition meta_eq :: "troika \<Rightarrow> nat \<Rightarrow> nat \<Rightarrow> bool" where
  "meta_eq t a b \<longleftrightarrow> tr_txnid t ! a = tr_txnid t ! b \<and>
     (drop_bit a (tr_fsm t) XOR drop_bit b (tr_fsm t)) AND 1 = 0 \<and> tr_txnid t ! a \<noteq> 0"

definition meta_eq_mask :: "troika \<Rightarrow> nat" where
  "meta_eq_mask t = (if meta_eq t 0 1 then 1 else 0) OR push_bit 1 (if meta_eq t 1 2 then 1 else 0)
     OR push_bit 2 (if meta_eq t 2 0 then 1 else 0)"

definition meta_should_retry :: "meta list \<Rightarrow> troika \<Rightarrow> bool \<times> troika" where
  "meta_should_retry metas prev =
     (let t = meta_tap metas
      in (tr_fsm prev \<noteq> tr_fsm t \<or> tr_txnid prev ! 0 \<noteq> tr_txnid t ! 0 \<or> tr_txnid prev ! 1 \<noteq> tr_txnid t ! 1 \<or>
          tr_txnid prev ! 2 \<noteq> tr_txnid t ! 2, t))"

definition durable_caption :: "meta \<Rightarrow> string" where
  "durable_caption m =
     (if meta_is_steady m then (if meta_sign m = meta_sign_calculate then ''Steady'' else ''Tainted'') else ''Weak'')"

subsection \<open>Wiping the steady marks\<close>

text \<open>
  \<open>pwrite n\<close> is the result of writing meta page \<open>n\<close>; with \<^verbatim>\<open>MDBX_WRITEMAP\<close> the mark is cleared in the map
  (\<^verbatim>\<open>MDBX_AVOID_MSYNC\<close> is 0). A failed write leaves the page as it was.
\<close>

definition meta_unsteady :: "bool \<Rightarrow> (nat \<Rightarrow> rc) \<Rightarrow> txnid \<Rightarrow> nat \<Rightarrow> meta list \<Rightarrow> rc \<times> meta list" where
  "meta_unsteady writemap pwrite inclusive_upto pgno metas =
     (let m = metas ! pgno; txnid = constmeta_txnid m
      in if \<not> meta_is_steady m \<or> inclusive_upto < txnid then (MDBX_RESULT_FALSE, metas)
         else let wiped = metas[pgno := m\<lparr>meta_sign := DATASIGN_NONE\<rparr>]
              in if writemap then (MDBX_RESULT_TRUE, wiped)
                 else if pwrite pgno = MDBX_SUCCESS then (MDBX_RESULT_TRUE, wiped)
                 else (pwrite pgno, metas))"

definition MDBX_IS_ERROR :: "rc \<Rightarrow> bool" where
  "MDBX_IS_ERROR rc \<longleftrightarrow> rc \<noteq> MDBX_RESULT_TRUE \<and> rc \<noteq> MDBX_RESULT_FALSE"

text \<open>\<open>sync\<close> is the result of the flush, \<open>needs_sync\<close> whether the descriptor of the metas needs one.\<close>

definition meta_wipe_steady ::
  "bool \<Rightarrow> (nat \<Rightarrow> rc) \<Rightarrow> rc \<Rightarrow> bool \<Rightarrow> txnid \<Rightarrow> meta list \<Rightarrow> rc \<times> meta list \<times> troika" where
  "meta_wipe_steady writemap pwrite sync needs_sync inclusive_upto metas =
     (let (err, metas) = meta_unsteady writemap pwrite inclusive_upto 0 metas;
          wiped = (err = MDBX_RESULT_TRUE);
          (err, metas) = (if \<not> MDBX_IS_ERROR err then meta_unsteady writemap pwrite inclusive_upto 1 metas
                          else (err, metas));
          (wiped, err, metas) =
            (if \<not> MDBX_IS_ERROR err
             then (wiped \<or> err = MDBX_RESULT_TRUE, meta_unsteady writemap pwrite inclusive_upto 2 metas)
             else (wiped, err, metas));
          err = (if err = MDBX_RESULT_TRUE \<or> wiped
                 then (if writemap then sync else if needs_sync then sync else MDBX_SUCCESS)
                 else err)
      in (err, metas, meta_tap metas))"

end
