(* ===== verification/Geometry.thy ===== *)
theory Geometry
  imports Options Meta
begin

text \<open>
  \<^verbatim>\<open>mdbx_env_set_geometry\<close>: how the six parameters of the caller, each a number, an automatic value or untouched,
  become the geometry of the database. The parameters are \<^verbatim>\<open>intptr_t\<close>, read as integers; where the code casts to
  an unsigned type or may overflow, \<open>u64\<close> and \<open>s64\<close> write it out. The stages follow the code; each error return
  is a value of the sum type and a failed \<^verbatim>\<open>ENSURE_OBJ\<close> is \<^const>\<open>None\<close>.
\<close>

record geo_params =
  gp_lower :: int
  gp_now :: int
  gp_upper :: int
  gp_grow :: int
  gp_shrink :: int
  gp_pagesize :: int

definition u64 :: "int \<Rightarrow> nat" where "u64 x = nat (x mod 2 ^ 64)"
definition s64 :: "int \<Rightarrow> int" where "s64 x = (x + 2 ^ 63) mod 2 ^ 64 - 2 ^ 63"

definition INT_MAX :: int where "INT_MAX = 2 ^ 31 - 1"
definition INTPTR_MAX :: int where "INTPTR_MAX = 2 ^ 63 - 1"
definition MDBX_WORDBITS :: int where "MDBX_WORDBITS = 64"

text \<open>\<^verbatim>\<open>ceil_powerof2\<close> on a parameter.\<close>

definition ceil_param :: "int \<Rightarrow> nat \<Rightarrow> int" where
  "ceil_param x unit = s64 (int (ceil_powerof2 (u64 x) unit))"

subsection \<open>The page size\<close>

text \<open>The page size is doubled until the file has few enough pages; a page size of zero would loop forever.\<close>

function grow_pagesize :: "int \<Rightarrow> int \<Rightarrow> int" where
  "grow_pagesize most pagesize =
     (if pagesize * (int MAX_PAGENO + 1) < most \<and> pagesize < int MDBX_MAX_PAGESIZE \<and> 0 < pagesize
      then grow_pagesize most (2 * pagesize) else pagesize)"
  by pat_completeness auto
termination by (relation "measure (\<lambda>(most, pagesize). nat (int MDBX_MAX_PAGESIZE - pagesize))") auto

declare grow_pagesize.simps [simp del]

definition choose_pagesize :: "globals \<Rightarrow> geo_params \<Rightarrow> int" where
  "choose_pagesize g a =
     (if INT_MAX \<le> gp_pagesize a then int MDBX_MAX_PAGESIZE
      else if gp_pagesize a = 0 then int MDBX_MIN_PAGESIZE
      else if gp_pagesize a < 0
      then let pagesize = (if MDBX_MAX_PAGESIZE < sys_pagesize g then int MDBX_MAX_PAGESIZE else int (sys_pagesize g));
               most = (if gp_lower a < gp_now a then gp_now a else gp_lower a);
               most = (if most < gp_upper a then gp_upper a else most);
               most = (if most < 0 then int (reasonable_db_maxsize g)
                      else if most = 0 then int MIN_MAPSIZE
                      else if int (mmap_limit g) \<le> most then int (mmap_limit g) else most)
           in grow_pagesize most pagesize
      else gp_pagesize a)"

definition bad_geo_pagesize :: "int \<Rightarrow> bool" where
  "bad_geo_pagesize pagesize \<longleftrightarrow> pagesize < int MDBX_MIN_PAGESIZE \<or> int MDBX_MAX_PAGESIZE < pagesize \<or> \<not> is_powerof2 (nat pagesize)"

subsection \<open>The sizes\<close>

text \<open>As many pages as there can be, instead of the suggested size.\<close>

definition reasonable_size :: "globals \<Rightarrow> int \<Rightarrow> int" where
  "reasonable_size g pagesize =
     (let size = int (reasonable_db_maxsize g)
      in if int MAX_PAGENO + 1 < size div pagesize then pagesize * (int MAX_PAGENO + 1) else size)"

definition geo_size_lower :: "globals \<Rightarrow> geo_params \<Rightarrow> int" where
  "geo_size_lower g a =
     (let pagesize = gp_pagesize a; size_lower = gp_lower a;
          size_lower = (if size_lower \<le> 0
                        then let size = (if size_lower = 0 then int MIN_MAPSIZE else pagesize * MDBX_WORDBITS)
                             in if size div pagesize < int MIN_PAGENO then int MIN_PAGENO * pagesize else size
                        else size_lower)
      in if INTPTR_MAX \<le> size_lower then reasonable_size g pagesize else size_lower)"

definition geo_size_now :: "globals \<Rightarrow> geo_params \<Rightarrow> int" where
  "geo_size_now g a = (if INTPTR_MAX \<le> gp_now a then reasonable_size g (gp_pagesize a) else gp_now a)"

text \<open>Both ends of the upper limit are cut to the number of pages and to the address space.\<close>

definition geo_cut_upper :: "globals \<Rightarrow> int \<Rightarrow> int \<Rightarrow> int" where
  "geo_cut_upper g pagesize size_upper =
     (let size = (if MAX_PAGENO + 1 < u64 size_upper div nat pagesize then pagesize * (int MAX_PAGENO + 1) else size_upper)
      in if mmap_limit g < u64 size then int (mmap_limit g) else size)"

definition geo_size_upper :: "globals \<Rightarrow> geo_params \<Rightarrow> int \<Rightarrow> int \<Rightarrow> int" where
  "geo_size_upper g a size_lower size_now =
     (let size_upper = gp_upper a in
      if size_upper \<le> 0
      then let size =
             (if (gp_grow a = 0 \<or> size_upper = 0) \<and> size_lower \<le> size_now then size_now
              else if size_now \<le> 0 \<or> int (reasonable_db_maxsize g) div 2 \<le> size_now then int (reasonable_db_maxsize g)
              else if MAX_MAPSIZE32 div 2 \<le> u64 size_now \<and> u64 size_now \<le> MAX_MAPSIZE32 div 4 * 3 then int MAX_MAPSIZE32
              else ceil_param (if u64 size_now < mmap_limit g div 4 then size_now + size_now else size_now + size_now div 2)
                     (nat (int MEGABYTE * MDBX_WORDBITS * MDBX_WORDBITS div 32)))
           in geo_cut_upper g (gp_pagesize a) size
      else if INTPTR_MAX \<le> size_upper then geo_cut_upper g (gp_pagesize a) (int (reasonable_db_maxsize g))
      else size_upper)"

text \<open>The checks between the choice of the sizes and their alignment.\<close>

definition geo_check :: "globals \<Rightarrow> geo_params \<Rightarrow> rc + geo_params" where
  "geo_check g a =
     (let pagesize = gp_pagesize a; size_lower = gp_lower a; size_now = gp_now a; size_upper = gp_upper a in
      if size_lower < int MIN_MAPSIZE \<or> size_upper < size_lower then Inl MDBX_EINVAL
      else let size_now = (if size_now \<le> 0
                           then (if size_lower \<le> size_upper \<and> size_upper < size_lower then size_upper else size_lower)
                           else size_now);
               few = u64 size_lower div nat pagesize < MIN_PAGENO;
               size_lower = (if few then pagesize * int MIN_PAGENO else size_lower)
           in if few \<and> size_upper < size_lower then Inl MDBX_EINVAL
              else let size_now = (if few \<and> size_now < size_lower then size_lower else size_now)
                   in if mmap_limit g < u64 size_upper \<or> MAX_PAGENO + 1 < u64 size_upper div nat pagesize
                      then Inl MDBX_TOO_LARGE
                      else Inr (a\<lparr>gp_lower := size_lower, gp_now := size_now, gp_upper := size_upper\<rparr>))"

subsection \<open>Alignment\<close>

definition unit_ps :: "globals \<Rightarrow> int \<Rightarrow> nat" where
  "unit_ps g pagesize = (if nat pagesize < sys_pagesize g then sys_pagesize g else nat pagesize)"

definition unit_ag :: "globals \<Rightarrow> int \<Rightarrow> int \<Rightarrow> nat" where
  "unit_ag g pagesize growth_step =
     (if unit_ps g pagesize < sys_allocation_granularity g \<and>
         (growth_step < 0 \<or> sys_allocation_granularity g \<le> u64 growth_step)
      then sys_allocation_granularity g else unit_ps g pagesize)"

text \<open>The upper limit is lowered until it fits; \<^verbatim>\<open>size_t\<close> throughout. A unit of zero would loop forever.\<close>

function fit_upper :: "globals \<Rightarrow> nat \<Rightarrow> nat \<Rightarrow> nat \<Rightarrow> nat \<Rightarrow> (nat \<times> nat) option" where
  "fit_upper g pagesize unit size_lower size_upper =
     (if mmap_limit g < size_upper \<or> MAX_PAGENO + 1 < size_upper div pagesize
      then (if size_upper < unit + MIN_MAPSIZE \<or> size_upper < pagesize * (MIN_PAGENO + 1) \<or> unit = 0 then None
            else let size_upper = size_upper - unit;
                     size_lower = (if size_upper < size_lower then size_upper else size_lower)
                 in fit_upper g pagesize unit size_lower size_upper)
      else Some (size_lower, size_upper))"
  by pat_completeness auto
termination by (relation "measure (\<lambda>(g, pagesize, unit, size_lower, size_upper). size_upper)") auto

declare fit_upper.simps [simp del]

definition geo_align :: "globals \<Rightarrow> geo_params \<Rightarrow> rc + geo_params" where
  "geo_align g a =
     (let ps = unit_ps g (gp_pagesize a); ag = unit_ag g (gp_pagesize a) (gp_grow a);
          size_lower = ceil_param (gp_lower a) ps; size_upper = ceil_param (gp_upper a) ag; size_now = ceil_param (gp_now a) ag
      in case fit_upper g (nat (gp_pagesize a)) ag (u64 size_lower) (u64 size_upper) of
           None \<Rightarrow> Inl MDBX_EINVAL
         | Some (lower, upper) \<Rightarrow>
             (let size_lower = s64 (int lower); size_upper = s64 (int upper);
                  size_now = (if size_now < size_lower then size_lower else size_now);
                  size_now = (if size_upper < size_now then size_upper else size_now)
              in Inr (a\<lparr>gp_lower := size_lower, gp_now := size_now, gp_upper := size_upper\<rparr>)))"

subsection \<open>The steps\<close>

definition auto_growth_step :: "bool \<Rightarrow> int \<Rightarrow> int \<Rightarrow> int" where
  "auto_growth_step size_lower_default size_lower size_upper =
     (let growth_step = (size_upper - size_lower) div 42;
          growth_step = (if \<not> size_lower_default \<and> size_lower < growth_step \<and> size_lower < int MEGABYTE then size_lower
                         else if 64 < growth_step div size_lower then s64 (size_lower * 64) else growth_step);
          growth_step = (if growth_step < 65536 then 65536 else growth_step);
          growth_step = (if 65536 < (size_upper - size_lower) div growth_step then (size_upper - size_lower) div 65536 else growth_step);
          growth_step_limit = int MEGABYTE * 4096
      in if growth_step_limit < growth_step then growth_step_limit else growth_step)"

definition geo_steps :: "bool \<Rightarrow> nat \<Rightarrow> geo_params \<Rightarrow> geo_params" where
  "geo_steps size_lower_default ag a =
     (let growth_step = (if gp_grow a < 0 then auto_growth_step size_lower_default (gp_lower a) (gp_upper a) else gp_grow a);
          growth_step = (if growth_step = 0 \<and> 0 < gp_shrink a then 1 else growth_step);
          growth_step = ceil_param growth_step ag;
          shrink_threshold = (if gp_shrink a < 0 then s64 (growth_step + growth_step) else gp_shrink a);
          shrink_threshold = ceil_param shrink_threshold ag
      in a\<lparr>gp_grow := growth_step, gp_shrink := shrink_threshold\<rparr>)"

text \<open>The whole derivation, from a valid page size on; \<^verbatim>\<open>unit_ag\<close> is chosen by the growth step as it was passed.\<close>

definition geo_derive :: "globals \<Rightarrow> geo_params \<Rightarrow> rc + geo_params" where
  "geo_derive g a =
     (if bad_geo_pagesize (gp_pagesize a) then Inl MDBX_EINVAL
      else let size_lower = geo_size_lower g a; size_now = geo_size_now g a;
               size_upper = geo_size_upper g a size_lower size_now
           in case geo_check g (a\<lparr>gp_lower := size_lower, gp_now := size_now, gp_upper := size_upper\<rparr>) of
                Inl rc \<Rightarrow> Inl rc
              | Inr b \<Rightarrow>
                  (case geo_align g b of
                     Inl rc \<Rightarrow> Inl rc
                   | Inr c \<Rightarrow> Inr (geo_steps (gp_lower a < 0) (unit_ag g (gp_pagesize a) (gp_grow a)) c)))"

subsection \<open>Before the database is opened\<close>

definition geo_ensured :: "globals \<Rightarrow> nat \<Rightarrow> geo_in_bytes \<Rightarrow> bool" where
  "geo_ensured g pagesize b \<longleftrightarrow>
     MIN_MAPSIZE \<le> gib_lower b \<and> MIN_PAGENO \<le> gib_lower b div pagesize \<and> gib_lower b mod pagesize = 0 \<and>
     gib_lower b mod sys_pagesize g = 0 \<and>
     gib_upper b \<le> MAX_MAPSIZE \<and> gib_upper b div pagesize \<le> MAX_PAGENO + 1 \<and> gib_upper b mod pagesize = 0 \<and>
     gib_upper b mod sys_pagesize g = 0 \<and>
     gib_lower b \<le> gib_now b \<and> gib_now b \<le> gib_upper b \<and> gib_now b mod pagesize = 0 \<and> gib_now b mod sys_pagesize g = 0 \<and>
     gib_grow b mod pagesize = 0 \<and> gib_grow b mod sys_pagesize g = 0 \<and>
     gib_shrink b mod pagesize = 0 \<and> gib_shrink b mod sys_pagesize g = 0"

definition step_bytes :: "env \<Rightarrow> int \<Rightarrow> nat" where
  "step_bytes env step = pgno2bytes env (pv2pages (pages2pv (bytes2pgno env (u64 step))))"

definition set_geometry_unmapped :: "os_answers \<Rightarrow> globals \<Rightarrow> env \<Rightarrow> geo_params \<Rightarrow> (rc \<times> env) option" where
  "set_geometry_unmapped os g env a =
     (if env_txn env then Some (MDBX_PANIC, env)
      else case geo_derive g (a\<lparr>gp_pagesize := choose_pagesize g a\<rparr>) of
             Inl rc \<Rightarrow> Some (rc, env)
           | Inr c \<Rightarrow>
               (let env = (if gp_pagesize c \<noteq> int (env_ps env) then env_setup_pagesize os g env (nat (gp_pagesize c)) else env);
                    env = env\<lparr>env_geo := \<lparr>gib_lower = u64 (gp_lower c), gib_upper = u64 (gp_upper c), gib_now = u64 (gp_now c),
                                gib_grow = step_bytes env (gp_grow c), gib_shrink = step_bytes env (gp_shrink c)\<rparr>\<rparr>;
                    env = env_options_adjust_defaults os g env
                in if geo_ensured g (nat (gp_pagesize c)) (env_geo env) then Some (MDBX_SUCCESS, env) else None))"


subsection \<open>On an open database\<close>

text \<open>
  The untouched parameters are taken from the current geometry; \<open>largest\<close> is the answer of
  \<^verbatim>\<open>mvcc_snapshot_largest\<close>, the end of the pages any reader may see.
\<close>

definition geo_mapped_params :: "globals \<Rightarrow> env \<Rightarrow> geo \<Rightarrow> pgno \<Rightarrow> geo_params \<Rightarrow> rc + geo_params" where
  "geo_mapped_params g env geo largest a =
     (let pagesize = (if gp_pagesize a \<le> 0 \<or> INT_MAX \<le> gp_pagesize a then int (env_ps env) else gp_pagesize a) in
      if pagesize \<noteq> int (env_ps env) then Inl MDBX_EINVAL
      else let size_lower = (if gp_lower a < 0
                             then int (if MDBX_ROUNDING_TO_ALLOCATION_GRANULARITY then pgno_ceil2os_bytes g env (geo_lower geo)
                                       else pgno2bytes env (geo_lower geo)) else gp_lower a);
               size_now = (if gp_now a < 0 then int (pgno_ceil2os_bytes g env (geo_now geo)) else gp_now a);
               size_upper = (if gp_upper a < 0 then int (pgno_ceil2os_bytes g env (geo_upper geo)) else gp_upper a);
               growth_step = (if gp_grow a < 0 then int (pgno2bytes env (pv2pages (geo_grow_pv geo))) else gp_grow a);
               shrink_threshold = (if gp_shrink a < 0 then int (pgno2bytes env (pv2pages (geo_shrink_pv geo))) else gp_shrink a);
               usedbytes = pgno_ceil2os_bytes g env largest
           in if u64 size_upper < usedbytes \<or> mmap_limit g < usedbytes then Inl MDBX_MAP_FULL
              else let size_now = (if u64 size_now < usedbytes then int usedbytes else size_now)
                   in Inr \<lparr>gp_lower = size_lower, gp_now = size_now, gp_upper = size_upper, gp_grow = growth_step,
                           gp_shrink = shrink_threshold, gp_pagesize = pagesize\<rparr>)"

definition new_geo :: "env \<Rightarrow> geo \<Rightarrow> geo_params \<Rightarrow> geo" where
  "new_geo env current_geo c =
     \<lparr>geo_grow_pv = pages2pv (bytes2pgno env (u64 (gp_grow c))), geo_shrink_pv = pages2pv (bytes2pgno env (u64 (gp_shrink c))),
      geo_lower = bytes2pgno env (u64 (gp_lower c)), geo_upper = bytes2pgno env (u64 (gp_upper c)),
      geo_now = bytes2pgno env (u64 (gp_now c)), geo_first_unallocated = geo_first_unallocated current_geo\<rparr>"

definition new_geo_ensured :: "globals \<Rightarrow> env \<Rightarrow> geo_params \<Rightarrow> geo \<Rightarrow> bool" where
  "new_geo_ensured g env c n \<longleftrightarrow>
     pgno_ceil2sp_bytes g env (geo_lower n) = u64 (gp_lower c) \<and> pgno_ceil2sp_bytes g env (geo_upper n) = u64 (gp_upper c) \<and>
     pgno_ceil2sp_bytes g env (geo_now n) = u64 (gp_now c) \<and>
     geo_grow_pv n = pages2pv (pv2pages (geo_grow_pv n)) \<and> geo_shrink_pv n = pages2pv (pv2pages (geo_shrink_pv n)) \<and>
     MIN_MAPSIZE \<le> u64 (gp_lower c) \<and> MIN_PAGENO \<le> geo_lower n \<and> u64 (gp_upper c) \<le> MAX_MAPSIZE \<and>
     geo_upper n \<le> MAX_PAGENO + 1 \<and> geo_first_unallocated n \<le> geo_now n \<and> geo_now n \<le> geo_upper n \<and> geo_lower n \<le> geo_now n"

text \<open>The geometry an open database is asked to take, \<^const>\<open>None\<close> when an assertion fails.\<close>

definition set_geometry_mapped :: "globals \<Rightarrow> env \<Rightarrow> geo \<Rightarrow> pgno \<Rightarrow> geo_params \<Rightarrow> (rc + geo) option" where
  "set_geometry_mapped g env geo largest a =
     (if has_flag (env_flags env) MDBX_RDONLY then Some (Inl MDBX_EACCESS)
      else case geo_mapped_params g env geo largest a of
             Inl rc \<Rightarrow> Some (Inl rc)
           | Inr b \<Rightarrow>
               (case geo_derive g b of
                  Inl rc \<Rightarrow> Some (Inl rc)
                | Inr c \<Rightarrow> (let n = new_geo env geo c in if new_geo_ensured g env c n then Some (Inr n) else None)))"

end
