(* ===== verification/Options_Set.thy ===== *)
theory Options_Set
  imports Options
begin

text \<open>
  \<^verbatim>\<open>mdbx_env_set_option\<close> and \<^verbatim>\<open>mdbx_env_get_option\<close>: one definition per case of the switch, each with
  the guards of that case in their order, and the two functions that dispatch to them. A setter returns
  the error code and the environment after the call.
\<close>

unbundle bit_operations_syntax

datatype MDBX_option =
    MDBX_opt_max_db | MDBX_opt_max_readers | MDBX_opt_sync_bytes | MDBX_opt_sync_period
  | MDBX_opt_rp_augment_limit | MDBX_opt_loose_limit | MDBX_opt_dp_reserve_limit
  | MDBX_opt_txn_dp_limit | MDBX_opt_txn_dp_initial | MDBX_opt_spill_max_denominator
  | MDBX_opt_spill_min_denominator | MDBX_opt_spill_parent4child_denominator
  | MDBX_opt_merge_threshold | MDBX_opt_writethrough_threshold | MDBX_opt_prefault_write_enable
  | MDBX_opt_gc_time_limit | MDBX_opt_prefer_waf_insteadof_balance | MDBX_opt_subpage_limit
  | MDBX_opt_subpage_room_threshold | MDBX_opt_subpage_reserve_prereq
  | MDBX_opt_subpage_reserve_limit | MDBX_opt_split_reserve | MDBX_opt_presync_threshold
  | MDBX_opt_unknown nat

text \<open>\<^verbatim>\<open>lock_needed\<close>: the environment is active and the calling thread does not hold the write lock.\<close>

definition lock_needed :: "env \<Rightarrow> bool" where
  "lock_needed env \<longleftrightarrow> has_flag (env_flags env) ENV_ACTIVE \<and> env_basal_txn env \<and> \<not> env_owned_wrtxn env"

definition value_or :: "nat \<Rightarrow> nat \<Rightarrow> nat" where
  "value_or dflt value = (if value = UINT64_MAX then dflt else value)"

text \<open>A flush that finds nothing to do is a success.\<close>

definition sync_result :: "os_answers \<Rightarrow> rc" where
  "sync_result os = (if os_env_sync os = MDBX_RESULT_TRUE then MDBX_SUCCESS else os_env_sync os)"

text \<open>An active environment has its \<^verbatim>\<open>lck\<close> block; without one the threshold reads as 0.\<close>

definition lck_autosync :: "(lck_options \<Rightarrow> nat) \<Rightarrow> env \<Rightarrow> nat" where
  "lck_autosync f env = (case env_lck env of None \<Rightarrow> 0 | Some l \<Rightarrow> f l)"

definition set_sync_bytes :: "os_answers \<Rightarrow> env \<Rightarrow> nat \<Rightarrow> rc \<times> env" where
  "set_sync_bytes os env value =
     (let value = value_or MAX_IO_BYTES value in
      if has_flag (env_flags env) MDBX_RDONLY then (MDBX_EACCESS, env)
      else if \<not> has_flag (env_flags env) ENV_ACTIVE then (MDBX_EPERM, env)
      else if UINT64_MAX - 65536 < value then (MDBX_EINVAL, env)
      else let value = bytes2pgno env (value + env_ps env - 1)
           in if value \<noteq> lck_autosync lck_autosync_threshold env
              then (if value \<noteq> 0 \<and> lock_needed env then sync_result os else MDBX_SUCCESS,
                    upd_lck (\<lambda>l. l\<lparr>lck_autosync_threshold := value\<rparr>) env)
              else (MDBX_SUCCESS, env))"

definition set_sync_period :: "os_answers \<Rightarrow> env \<Rightarrow> nat \<Rightarrow> rc \<times> env" where
  "set_sync_period os env value =
     (let value = value_or 2780315 value in
      if has_flag (env_flags env) MDBX_RDONLY then (MDBX_EACCESS, env)
      else if \<not> has_flag (env_flags env) ENV_ACTIVE then (MDBX_EPERM, env)
      else if UINT32_MAX < value then (MDBX_EINVAL, env)
      else let value = osal_16dot16_to_monotime value
           in if value \<noteq> lck_autosync lck_autosync_period env
              then (if value \<noteq> 0 \<and> lock_needed env then sync_result os else MDBX_SUCCESS,
                    upd_lck (\<lambda>l. l\<lparr>lck_autosync_period := value\<rparr>) env)
              else (MDBX_SUCCESS, env))"

definition set_max_db :: "env \<Rightarrow> nat \<Rightarrow> rc \<times> env" where
  "set_max_db env value =
     (let value = value_or 42 value in
      if MDBX_MAX_DBI < value then (MDBX_EINVAL, env)
      else if env_mapped env then (MDBX_EPERM, env)
      else (MDBX_SUCCESS, env\<lparr>env_max_dbi := value + CORE_DBS\<rparr>))"

definition set_max_readers :: "env \<Rightarrow> nat \<Rightarrow> rc \<times> env" where
  "set_max_readers env value =
     (let value = value_or MDBX_READERS_LIMIT value in
      if value < 1 \<or> MDBX_READERS_LIMIT < value then (MDBX_EINVAL, env)
      else if env_mapped env then (MDBX_EPERM, env)
      else (MDBX_SUCCESS, env\<lparr>env_max_readers := value\<rparr>))"

text \<open>The loop that frees the pages kept in reserve beyond the limit.\<close>

fun release_reserve :: "nat \<Rightarrow> nat \<Rightarrow> nat" where
  "release_reserve limit 0 = 0"
| "release_reserve limit (Suc n) = (if limit < Suc n then release_reserve limit n else Suc n)"

definition set_dp_reserve_limit :: "os_answers \<Rightarrow> env \<Rightarrow> nat \<Rightarrow> rc \<times> env" where
  "set_dp_reserve_limit os env value =
     (let value = value_or default_dp_reserve_limit value in
      if INT_MAX < value then (MDBX_EINVAL, env)
      else if opt_dp_reserve_limit (env_options env) \<noteq> value
           then (if lock_needed env \<and> os_txn_lock os \<noteq> MDBX_SUCCESS then (os_txn_lock os, env)
                 else (MDBX_SUCCESS,
                       (upd_options (\<lambda>o'. o'\<lparr>opt_dp_reserve_limit := value\<rparr>) env)
                          \<lparr>env_shadow_reserve_len := release_reserve value (env_shadow_reserve_len env)\<rparr>))
           else (MDBX_SUCCESS, env))"

definition set_rp_augment_limit :: "env \<Rightarrow> nat \<Rightarrow> rc \<times> env" where
  "set_rp_augment_limit env value =
     (if value = UINT64_MAX
      then let env = upd_non_auto (\<lambda>n. n\<lparr>na_rp_augment_limit := False\<rparr>) env;
               rp = default_rp_augment_limit env
           in (MDBX_SUCCESS, upd_options (\<lambda>o'. o'\<lparr>opt_rp_augment_limit := rp\<rparr>) env)
      else if PAGELIST_LIMIT < value then (MDBX_EINVAL, env)
      else (MDBX_SUCCESS,
            upd_options (\<lambda>o'. o'\<lparr>opt_rp_augment_limit := value\<rparr>)
              (upd_non_auto (\<lambda>n. n\<lparr>na_rp_augment_limit := True\<rparr>) env)))"

definition set_gc_time_limit :: "env \<Rightarrow> nat \<Rightarrow> rc \<times> env" where
  "set_gc_time_limit env value =
     (let value = value_or 0 value in
      if UINT32_MAX < value then (MDBX_EINVAL, env)
      else if has_flag (env_flags env) MDBX_RDONLY then (MDBX_EACCESS, env)
      else let value = osal_16dot16_to_monotime value
           in if value \<noteq> opt_gc_time_limit (env_options env)
              then (if env_txn env \<and> lock_needed env then (MDBX_EPERM, env)
                    else let env = upd_options (\<lambda>o'. o'\<lparr>opt_gc_time_limit := value\<rparr>) env
                         in (MDBX_SUCCESS,
                             if \<not> na_rp_augment_limit (opt_non_auto (env_options env))
                             then let rp = default_rp_augment_limit env
                                  in upd_options (\<lambda>o'. o'\<lparr>opt_rp_augment_limit := rp\<rparr>) env
                             else env))
              else (MDBX_SUCCESS, env))"

definition set_txn_dp_initial :: "globals \<Rightarrow> env \<Rightarrow> nat \<Rightarrow> env" where
  "set_txn_dp_initial g env value =
     (let max_pgno = env_max_pgno g env
      in if value = UINT64_MAX then upd_options (\<lambda>o'. o'\<lparr>opt_dp_initial := default_dp_initial\<rparr>) env
         else upd_options (\<lambda>o'. o'\<lparr>opt_dp_initial :=
                (if max_pgno < value
                 then (if CURSOR_STACK_SIZE * 4 < max_pgno then max_pgno else CURSOR_STACK_SIZE * 4)
                 else value)\<rparr>) env)"

definition set_txn_dp_limit :: "os_answers \<Rightarrow> globals \<Rightarrow> env \<Rightarrow> nat \<Rightarrow> env" where
  "set_txn_dp_limit os g env value =
     env_options_adjust_dp_limit os g
       (if value = UINT64_MAX then upd_non_auto (\<lambda>n. n\<lparr>na_dp_limit := False\<rparr>) env
        else upd_options (\<lambda>o'. o'\<lparr>opt_dp_limit := value\<rparr>)
               (upd_non_auto (\<lambda>n. n\<lparr>na_dp_limit := True\<rparr>) env))"

definition set_txn_dp :: "os_answers \<Rightarrow> globals \<Rightarrow> bool \<Rightarrow> env \<Rightarrow> nat \<Rightarrow> rc \<times> env" where
  "set_txn_dp os g initial env value =
     (if value \<noteq> UINT64_MAX \<and> (PAGELIST_LIMIT < value \<or> value < CURSOR_STACK_SIZE * 4) then (MDBX_EINVAL, env)
      else if has_flag (env_flags env) MDBX_RDONLY then (MDBX_EACCESS, env)
      else if lock_needed env \<and> os_txn_lock os \<noteq> MDBX_SUCCESS then (os_txn_lock os, env)
      else if env_txn env then (MDBX_EPERM, env)
      else (MDBX_SUCCESS, if initial then set_txn_dp_initial g env value else set_txn_dp_limit os g env value))"

text \<open>The four options held in one byte.\<close>

definition set_u8_option :: "(nat \<Rightarrow> options \<Rightarrow> options) \<Rightarrow> nat \<Rightarrow> env \<Rightarrow> nat \<Rightarrow> rc \<times> env" where
  "set_u8_option upd dflt env value =
     (let value = value_or dflt value in
      if 255 < value then (MDBX_EINVAL, env) else (MDBX_SUCCESS, upd_options (upd value) env))"

definition set_spill_max_denominator :: "env \<Rightarrow> nat \<Rightarrow> rc \<times> env" where
  "set_spill_max_denominator =
     set_u8_option (\<lambda>v o'. o'\<lparr>opt_spill_max_denominator := v\<rparr>) default_spill_max_denominator"

definition set_spill_min_denominator :: "env \<Rightarrow> nat \<Rightarrow> rc \<times> env" where
  "set_spill_min_denominator =
     set_u8_option (\<lambda>v o'. o'\<lparr>opt_spill_min_denominator := v\<rparr>) default_spill_min_denominator"

definition set_spill_parent4child_denominator :: "env \<Rightarrow> nat \<Rightarrow> rc \<times> env" where
  "set_spill_parent4child_denominator =
     set_u8_option (\<lambda>v o'. o'\<lparr>opt_spill_parent4child_denominator := v\<rparr>) default_spill_parent4child_denominator"

definition set_loose_limit :: "env \<Rightarrow> nat \<Rightarrow> rc \<times> env" where
  "set_loose_limit = set_u8_option (\<lambda>v o'. o'\<lparr>opt_dp_loose_limit := v\<rparr>) default_dp_loose_limit"

definition set_merge_threshold :: "env \<Rightarrow> nat \<Rightarrow> rc \<times> env" where
  "set_merge_threshold env value =
     (let value = value_or default_merge_threshold_dot16 value in
      if value < 8192 \<or> 32768 < value then (MDBX_EINVAL, env)
      else (MDBX_SUCCESS,
            recalculate_merge_thresholds (upd_options (\<lambda>o'. o'\<lparr>opt_merge_threshold_dot16 := value\<rparr>) env)))"

definition set_writethrough_threshold :: "env \<Rightarrow> nat \<Rightarrow> rc \<times> env" where
  "set_writethrough_threshold env value =
     (let value = value_or MDBX_WRITETHROUGH_THRESHOLD_DEFAULT value in
      if value \<noteq> value mod 2 ^ 32 then (MDBX_EINVAL, env)
      else (MDBX_SUCCESS, upd_options (\<lambda>o'. o'\<lparr>opt_writethrough_threshold := value\<rparr>) env))"

definition set_prefault_write :: "env \<Rightarrow> nat \<Rightarrow> rc \<times> env" where
  "set_prefault_write env value =
     (if value = UINT64_MAX
      then let pw = default_prefault_write env
           in (MDBX_SUCCESS, upd_non_auto (\<lambda>n. n\<lparr>na_prefault_write := False\<rparr>)
                 (upd_options (\<lambda>o'. o'\<lparr>opt_prefault_write := pw\<rparr>) env))
      else if 1 < value then (MDBX_EINVAL, env)
      else (MDBX_SUCCESS, upd_non_auto (\<lambda>n. n\<lparr>na_prefault_write := True\<rparr>)
              (upd_options (\<lambda>o'. o'\<lparr>opt_prefault_write := (value \<noteq> 0)\<rparr>) env)))"

definition set_prefer_waf :: "env \<Rightarrow> nat \<Rightarrow> rc \<times> env" where
  "set_prefer_waf env value =
     (if value = UINT64_MAX
      then (MDBX_SUCCESS, upd_options (\<lambda>o'. o'\<lparr>opt_prefer_waf_insteadof_balance := default_prefer_waf_insteadof_balance\<rparr>) env)
      else if 1 < value then (MDBX_EINVAL, env)
      else (MDBX_SUCCESS, upd_options (\<lambda>o'. o'\<lparr>opt_prefer_waf_insteadof_balance := (value \<noteq> 0)\<rparr>) env))"

text \<open>The four sub-page options differ in the field and its default only.\<close>

definition set_subpage_option ::
  "(nat \<Rightarrow> subpage_options \<Rightarrow> subpage_options) \<Rightarrow> nat \<Rightarrow> env \<Rightarrow> nat \<Rightarrow> rc \<times> env" where
  "set_subpage_option upd dflt env value =
     (if value = UINT64_MAX then (MDBX_SUCCESS, recalculate_subpage_thresholds (upd_subpage (upd dflt) env))
      else if 65535 < value then (MDBX_EINVAL, env)
      else (MDBX_SUCCESS, recalculate_subpage_thresholds (upd_subpage (upd value) env)))"

definition set_subpage_limit :: "env \<Rightarrow> nat \<Rightarrow> rc \<times> env" where
  "set_subpage_limit = set_subpage_option (\<lambda>v s. s\<lparr>sp_limit := v\<rparr>) default_subpage_limit"

definition set_subpage_room_threshold :: "env \<Rightarrow> nat \<Rightarrow> rc \<times> env" where
  "set_subpage_room_threshold = set_subpage_option (\<lambda>v s. s\<lparr>sp_room_threshold := v\<rparr>) default_subpage_room_threshold"

definition set_subpage_reserve_prereq :: "env \<Rightarrow> nat \<Rightarrow> rc \<times> env" where
  "set_subpage_reserve_prereq = set_subpage_option (\<lambda>v s. s\<lparr>sp_reserve_prereq := v\<rparr>) default_subpage_reserve_prereq"

definition set_subpage_reserve_limit :: "env \<Rightarrow> nat \<Rightarrow> rc \<times> env" where
  "set_subpage_reserve_limit = set_subpage_option (\<lambda>v s. s\<lparr>sp_reserve_limit := v\<rparr>) default_subpage_reserve_limit"

definition set_split_reserve :: "env \<Rightarrow> nat \<Rightarrow> rc \<times> env" where
  "set_split_reserve env value =
     (if value = UINT64_MAX then (MDBX_SUCCESS, upd_options (\<lambda>o'. o'\<lparr>opt_split_reserve_dot16 := 0\<rparr>) env)
      else if 32768 < value then (MDBX_EINVAL, env)
      else (MDBX_SUCCESS, upd_options (\<lambda>o'. o'\<lparr>opt_split_reserve_dot16 := value\<rparr>) env))"

definition set_presync_threshold :: "globals \<Rightarrow> env \<Rightarrow> nat \<Rightarrow> rc \<times> env" where
  "set_presync_threshold g env value =
     (if env_lck env = None then (MDBX_EPERM, env)
      else if value = UINT64_MAX
      then (MDBX_SUCCESS,
            upd_lck (\<lambda>l. l\<lparr>lck_presync_threshold := bytes_ceil2os_pgno g env default_presync_threshold_bytes\<rparr>) env)
      else if 0x80000000 < value then (MDBX_EINVAL, env)
      else (MDBX_SUCCESS,
            upd_lck (\<lambda>l. l\<lparr>lck_presync_threshold := max (bytes_ceil2os_pgno g env value) 1\<rparr>) env))"

subsection \<open>The switches\<close>

definition mdbx_env_set_option :: "os_answers \<Rightarrow> globals \<Rightarrow> env \<Rightarrow> MDBX_option \<Rightarrow> nat \<Rightarrow> rc \<times> env" where
  "mdbx_env_set_option os g env option value =
     (if check_env (Some env) \<noteq> MDBX_SUCCESS then (check_env (Some env), env)
      else case option of
        MDBX_opt_sync_bytes \<Rightarrow> set_sync_bytes os env value
      | MDBX_opt_sync_period \<Rightarrow> set_sync_period os env value
      | MDBX_opt_max_db \<Rightarrow> set_max_db env value
      | MDBX_opt_max_readers \<Rightarrow> set_max_readers env value
      | MDBX_opt_dp_reserve_limit \<Rightarrow> set_dp_reserve_limit os env value
      | MDBX_opt_rp_augment_limit \<Rightarrow> set_rp_augment_limit env value
      | MDBX_opt_gc_time_limit \<Rightarrow> set_gc_time_limit env value
      | MDBX_opt_txn_dp_limit \<Rightarrow> set_txn_dp os g False env value
      | MDBX_opt_txn_dp_initial \<Rightarrow> set_txn_dp os g True env value
      | MDBX_opt_spill_max_denominator \<Rightarrow> set_spill_max_denominator env value
      | MDBX_opt_spill_min_denominator \<Rightarrow> set_spill_min_denominator env value
      | MDBX_opt_spill_parent4child_denominator \<Rightarrow> set_spill_parent4child_denominator env value
      | MDBX_opt_loose_limit \<Rightarrow> set_loose_limit env value
      | MDBX_opt_merge_threshold \<Rightarrow> set_merge_threshold env value
      | MDBX_opt_writethrough_threshold \<Rightarrow> set_writethrough_threshold env value
      | MDBX_opt_prefault_write_enable \<Rightarrow> set_prefault_write env value
      | MDBX_opt_prefer_waf_insteadof_balance \<Rightarrow> set_prefer_waf env value
      | MDBX_opt_subpage_limit \<Rightarrow> set_subpage_limit env value
      | MDBX_opt_subpage_room_threshold \<Rightarrow> set_subpage_room_threshold env value
      | MDBX_opt_subpage_reserve_prereq \<Rightarrow> set_subpage_reserve_prereq env value
      | MDBX_opt_subpage_reserve_limit \<Rightarrow> set_subpage_reserve_limit env value
      | MDBX_opt_split_reserve \<Rightarrow> set_split_reserve env value
      | MDBX_opt_presync_threshold \<Rightarrow> set_presync_threshold g env value
      | MDBX_opt_unknown n \<Rightarrow> (MDBX_EINVAL, env))"

text \<open>The value is meaningful only with \<^const>\<open>MDBX_SUCCESS\<close>; on an error the code leaves \<^verbatim>\<open>*pvalue\<close> as it was (0 here).\<close>

definition mdbx_env_get_option :: "env \<Rightarrow> MDBX_option \<Rightarrow> rc \<times> nat" where
  "mdbx_env_get_option env option =
     (let o' = env_options env in
      if check_env (Some env) \<noteq> MDBX_SUCCESS then (check_env (Some env), 0)
      else case option of
        MDBX_opt_sync_bytes \<Rightarrow>
          (if \<not> has_flag (env_flags env) ENV_ACTIVE then (MDBX_EPERM, 0)
           else (MDBX_SUCCESS, pgno2bytes env (lck_autosync lck_autosync_threshold env)))
      | MDBX_opt_sync_period \<Rightarrow>
          (if \<not> has_flag (env_flags env) ENV_ACTIVE then (MDBX_EPERM, 0)
           else (MDBX_SUCCESS, osal_monotime_to_16dot16 (lck_autosync lck_autosync_period env)))
      | MDBX_opt_max_db \<Rightarrow> (MDBX_SUCCESS, sub32 (env_max_dbi env) CORE_DBS)
      | MDBX_opt_max_readers \<Rightarrow> (MDBX_SUCCESS, env_max_readers env)
      | MDBX_opt_dp_reserve_limit \<Rightarrow> (MDBX_SUCCESS, opt_dp_reserve_limit o')
      | MDBX_opt_rp_augment_limit \<Rightarrow> (MDBX_SUCCESS, opt_rp_augment_limit o')
      | MDBX_opt_gc_time_limit \<Rightarrow> (MDBX_SUCCESS, osal_monotime_to_16dot16 (opt_gc_time_limit o'))
      | MDBX_opt_txn_dp_limit \<Rightarrow> (MDBX_SUCCESS, opt_dp_limit o')
      | MDBX_opt_txn_dp_initial \<Rightarrow> (MDBX_SUCCESS, opt_dp_initial o')
      | MDBX_opt_spill_max_denominator \<Rightarrow> (MDBX_SUCCESS, opt_spill_max_denominator o')
      | MDBX_opt_spill_min_denominator \<Rightarrow> (MDBX_SUCCESS, opt_spill_min_denominator o')
      | MDBX_opt_spill_parent4child_denominator \<Rightarrow> (MDBX_SUCCESS, opt_spill_parent4child_denominator o')
      | MDBX_opt_loose_limit \<Rightarrow> (MDBX_SUCCESS, opt_dp_loose_limit o')
      | MDBX_opt_merge_threshold \<Rightarrow> (MDBX_SUCCESS, opt_merge_threshold_dot16 o')
      | MDBX_opt_writethrough_threshold \<Rightarrow> (MDBX_SUCCESS, opt_writethrough_threshold o')
      | MDBX_opt_prefault_write_enable \<Rightarrow> (MDBX_SUCCESS, if opt_prefault_write o' then 1 else 0)
      | MDBX_opt_prefer_waf_insteadof_balance \<Rightarrow>
          (MDBX_SUCCESS, if opt_prefer_waf_insteadof_balance o' then 1 else 0)
      | MDBX_opt_subpage_limit \<Rightarrow> (MDBX_SUCCESS, sp_limit (opt_subpage o'))
      | MDBX_opt_subpage_room_threshold \<Rightarrow> (MDBX_SUCCESS, sp_room_threshold (opt_subpage o'))
      | MDBX_opt_subpage_reserve_prereq \<Rightarrow> (MDBX_SUCCESS, sp_reserve_prereq (opt_subpage o'))
      | MDBX_opt_subpage_reserve_limit \<Rightarrow> (MDBX_SUCCESS, sp_reserve_limit (opt_subpage o'))
      | MDBX_opt_split_reserve \<Rightarrow> (MDBX_SUCCESS, opt_split_reserve_dot16 o')
      | MDBX_opt_presync_threshold \<Rightarrow>
          (MDBX_SUCCESS, case env_lck env of None \<Rightarrow> 0 | Some l \<Rightarrow> pgno2bytes env (lck_presync_threshold l))
      | MDBX_opt_unknown n \<Rightarrow> (MDBX_EINVAL, 0))"

named_theorems set_defs \<open>the setters of the single options\<close>

declare set_sync_bytes_def [set_defs] set_sync_period_def [set_defs] set_max_db_def [set_defs]
  set_max_readers_def [set_defs] set_dp_reserve_limit_def [set_defs] set_rp_augment_limit_def [set_defs]
  set_gc_time_limit_def [set_defs] set_txn_dp_def [set_defs] set_u8_option_def [set_defs]
  set_spill_max_denominator_def [set_defs] set_spill_min_denominator_def [set_defs]
  set_spill_parent4child_denominator_def [set_defs] set_loose_limit_def [set_defs]
  set_merge_threshold_def [set_defs] set_writethrough_threshold_def [set_defs]
  set_prefault_write_def [set_defs] set_prefer_waf_def [set_defs] set_subpage_option_def [set_defs]
  set_subpage_limit_def [set_defs] set_subpage_room_threshold_def [set_defs]
  set_subpage_reserve_prereq_def [set_defs] set_subpage_reserve_limit_def [set_defs]
  set_split_reserve_def [set_defs] set_presync_threshold_def [set_defs]

end
