(* ===== verification/Options_Ops.thy ===== *)
theory Options_Ops
  imports Options_Set
begin

text \<open>
  What the option functions guarantee: an option that is refused changes nothing, an accepted value is read
  back, the option ranges and the derived thresholds are an invariant of every call, and
  \<^verbatim>\<open>env_setup_pagesize\<close> establishes it.
\<close>

unbundle bit_operations_syntax

lemma monotime_eq:
  assumes "v \<le> UINT32_MAX"
  shows "osal_16dot16_to_monotime v = (1000000000 * v + 32768) div 65536"
proof -
  let ?n = "(1000000000 * v + 32768) div 65536"
  have "1000000000 * v + 32768 < 2 ^ 64" using assms by (simp add: UINT32_MAX_def)
  then have e: "drop_bit 16 ((1000000000 * v + 32768) mod 2 ^ 64) = ?n" by (simp add: drop_bit_eq_div)
  show ?thesis
  proof (cases "v = 0")
    case True
    then show ?thesis by (simp add: osal_16dot16_to_monotime_def)
  next
    case False
    then have "65536 \<le> 1000000000 * v + 32768" by simp
    then have "?n \<noteq> 0" using div_le_mono[of 65536 "1000000000 * v + 32768" 65536] by simp
    then show ?thesis unfolding osal_16dot16_to_monotime_def Let_def e by (simp only: if_True simp_thms)
  qed
qed

lemma monotime_limit_eq: "monotime_limit = 65535999969482"
  by (simp add: monotime_limit_def monotime_eq UINT32_MAX_def)

lemma monotime_roundtrip:
  assumes "v \<le> UINT32_MAX"
  shows "osal_monotime_to_16dot16 (osal_16dot16_to_monotime v) \<in> {v - 1, v}"
proof -
  define n where "n = (1000000000 * v + 32768) div 65536"
  have n: "osal_16dot16_to_monotime v = n" using monotime_eq[OF assms] by (simp add: n_def)
  have lo: "n * 65536 \<le> 1000000000 * v + 32768" "1000000000 * v + 32768 < n * 65536 + 65536"
    using div_mult_mod_eq[of "1000000000 * v + 32768" 65536, folded n_def]
      mod_less_divisor[of 65536 "1000000000 * v + 32768"] by linarith+
  show ?thesis
  proof (cases "v = UINT32_MAX")
    case True
    then have "monotime_limit < n" using lo by (simp add: monotime_limit_eq UINT32_MAX_def)
    then show ?thesis using True n by (simp add: osal_monotime_to_16dot16_def)
  next
    case False
    then have v: "v \<le> 4294967294" using assms by (simp add: UINT32_MAX_def)
    then have lim: "\<not> monotime_limit < n" using lo(1) by (simp add: monotime_limit_eq)
    have b: "n * 128 < 2 ^ 64" using lo(1) v by simp
    define r where "r = n * 128 div 1953125"
    have r: "r * 1953125 \<le> n * 128" "n * 128 < r * 1953125 + 1953125"
      using div_mult_mod_eq[of "n * 128" 1953125, folded r_def] mod_less_divisor[of 1953125 "n * 128"] by linarith+
    have "r \<le> v" "v \<le> r + 1" using r lo by linarith+
    moreover have "osal_monotime_to_16dot16 n = r"
      using lim b v \<open>r \<le> v\<close> by (simp add: osal_monotime_to_16dot16_def push_bit_eq_mult r_def)
    ultimately show ?thesis using n by auto
  qed
qed


lemmas upd_simps = upd_options_def upd_subpage_def upd_non_auto_def upd_lck_def

lemma set_option_error_unchanged:
  assumes "mdbx_env_set_option os g env option value = (rc, env')" "rc \<noteq> MDBX_SUCCESS"
    "option \<noteq> MDBX_opt_sync_bytes" "option \<noteq> MDBX_opt_sync_period"
  shows "env' = env"
  using assms
  by (cases option) (simp_all add: mdbx_env_set_option_def set_defs Let_def split: if_splits)

subsection \<open>The invariant of the options\<close>

definition thresholds_current :: "env \<Rightarrow> bool" where
  "thresholds_current env \<longleftrightarrow>
     recalculate_subpage_thresholds env = env \<and> recalculate_merge_thresholds env = env"

text \<open>A time that a setter can have stored.\<close>

definition stored_time :: "nat \<Rightarrow> bool" where
  "stored_time t \<longleftrightarrow> t \<le> osal_16dot16_to_monotime UINT32_MAX"

text \<open>The ranges of what is kept in \<^verbatim>\<open>env->options\<close>; the automatic augment limit may exceed that of an explicit one.\<close>

definition options_ok :: "options \<Rightarrow> bool" where
  "options_ok o' \<longleftrightarrow> subpage_options_ok (opt_subpage o') \<and>
     8192 \<le> opt_merge_threshold_dot16 o' \<and> opt_merge_threshold_dot16 o' \<le> 32768 \<and>
     opt_split_reserve_dot16 o' \<le> 32768 \<and> opt_dp_loose_limit o' \<le> 255 \<and>
     opt_spill_max_denominator o' \<le> 255 \<and> opt_spill_min_denominator o' \<le> 255 \<and>
     opt_spill_parent4child_denominator o' \<le> 255 \<and>
     CURSOR_STACK_SIZE * 4 \<le> opt_dp_limit o' \<and> opt_dp_limit o' \<le> PAGELIST_LIMIT \<and>
     CURSOR_STACK_SIZE * 4 \<le> opt_dp_initial o' \<and> opt_dp_initial o' \<le> PAGELIST_LIMIT \<and>
     opt_dp_reserve_limit o' \<le> INT_MAX \<and> opt_writethrough_threshold o' \<le> UINT32_MAX \<and>
     stored_time (opt_gc_time_limit o') \<and> opt_rp_augment_limit o' \<le> UINT32_MAX \<and>
     (na_rp_augment_limit (opt_non_auto o') \<longrightarrow> opt_rp_augment_limit o' \<le> PAGELIST_LIMIT)"

text \<open>What is kept in the lock file: the presync threshold is at least a page, and at most 2 GB rounded up to the unit.\<close>

definition lck_ok :: "globals \<Rightarrow> nat \<Rightarrow> lck_options \<Rightarrow> bool" where
  "lck_ok g ps l \<longleftrightarrow> lck_autosync_threshold l \<le> UINT32_MAX \<and> stored_time (lck_autosync_period l) \<and>
     1 \<le> lck_presync_threshold l \<and> lck_presync_threshold l * ps < 0x80000000 + max ps (sys_unit g)"

text \<open>What is kept in the environment itself.\<close>

definition env_ranges_ok :: "globals \<Rightarrow> env \<Rightarrow> bool" where
  "env_ranges_ok g env \<longleftrightarrow> CORE_DBS \<le> env_max_dbi env \<and> env_max_dbi env \<le> MDBX_MAX_DBI + CORE_DBS \<and>
     1 \<le> env_max_readers env \<and> env_max_readers env \<le> MDBX_READERS_LIMIT \<and>
     env_shadow_reserve_len env \<le> opt_dp_reserve_limit (env_options env) \<and>
     pred_option (lck_ok g (env_ps env)) (env_lck env)"

definition options_inv :: "globals \<Rightarrow> env \<Rightarrow> bool" where
  "options_inv g env \<longleftrightarrow> env_shaped env \<and> options_ok (env_options env) \<and> thresholds_current env \<and> env_ranges_ok g env"

lemma pagelist_limit_fits: "PAGELIST_LIMIT \<le> UINT32_MAX" "default_dp_initial \<le> PAGELIST_LIMIT" "CURSOR_STACK_SIZE * 4 \<le> default_dp_initial"
  by (simp_all add: opt_consts default_dp_initial_def MDBX_PNL_INITIAL_def MDBX_PNL_GRANULATE_def pnl_overhead_def)

lemma mod32_le: "n mod 2 ^ 32 \<le> UINT32_MAX"
proof -
  have "n mod 2 ^ 32 < 2 ^ 32" by (rule mod_less_divisor) simp
  then show ?thesis unfolding UINT32_MAX_def by linarith
qed

lemma default_rp_le: "default_rp_augment_limit env \<le> UINT32_MAX"
  unfolding default_rp_augment_limit_def Let_def by (rule mod32_le)

lemma stored_time_mono: "v \<le> UINT32_MAX \<Longrightarrow> stored_time (osal_16dot16_to_monotime v)"
  by (simp add: stored_time_def monotime_eq div_le_mono)

lemma recalculate_shape [simp]:
  "env_shaped (recalculate_subpage_thresholds env) = env_shaped env"
  "env_shaped (recalculate_merge_thresholds env) = env_shaped env"
  "env_options (recalculate_subpage_thresholds env) = env_options env"
  "env_options (recalculate_merge_thresholds env) = env_options env"
  "env_shadow_reserve_len (recalculate_subpage_thresholds env) = env_shadow_reserve_len env"
  "env_shadow_reserve_len (recalculate_merge_thresholds env) = env_shadow_reserve_len env"
  "env_ranges_ok g (recalculate_subpage_thresholds env) = env_ranges_ok g env"
  "env_ranges_ok g (recalculate_merge_thresholds env) = env_ranges_ok g env"
  by (simp_all add: recalculate_subpage_thresholds_def recalculate_merge_thresholds_def Let_def env_shaped_def env_ranges_ok_def)

lemma recalculate_current:
  "recalculate_merge_thresholds env = env \<Longrightarrow> thresholds_current (recalculate_subpage_thresholds env)"
  "recalculate_subpage_thresholds env = env \<Longrightarrow> thresholds_current (recalculate_merge_thresholds env)"
proof -
  have idem: "recalculate_subpage_thresholds (recalculate_subpage_thresholds env) = recalculate_subpage_thresholds env"
    "recalculate_merge_thresholds (recalculate_merge_thresholds env) = recalculate_merge_thresholds env" for env
    by (simp_all add: recalculate_subpage_thresholds_def recalculate_merge_thresholds_def Let_def page_space_def)
  have comm: "recalculate_merge_thresholds (recalculate_subpage_thresholds env) =
      recalculate_subpage_thresholds (recalculate_merge_thresholds env)" for env
    by (simp add: recalculate_subpage_thresholds_def recalculate_merge_thresholds_def Let_def page_space_def)
  show "thresholds_current (recalculate_subpage_thresholds env)" if "recalculate_merge_thresholds env = env"
    using that comm[of env] by (simp add: thresholds_current_def idem)
  show "thresholds_current (recalculate_merge_thresholds env)" if "recalculate_subpage_thresholds env = env"
    using that comm[of env] by (simp add: thresholds_current_def idem)
qed

text \<open>Updates of fields the thresholds do not depend on.\<close>

lemma recalculate_frame:
  assumes "\<And>o'. opt_subpage (f o') = opt_subpage o'"
  shows "recalculate_subpage_thresholds (upd_options f env) = upd_options f (recalculate_subpage_thresholds env)"
  using assms by (simp add: recalculate_subpage_thresholds_def upd_options_def Let_def page_space_def)

lemma recalculate_merge_frame:
  assumes "\<And>o'. opt_merge_threshold_dot16 (f o') = opt_merge_threshold_dot16 o'"
  shows "recalculate_merge_thresholds (upd_options f env) = upd_options f (recalculate_merge_thresholds env)"
  using assms by (simp add: recalculate_merge_thresholds_def upd_options_def Let_def page_space_def)

lemma current_frame:
  assumes "\<And>o'. opt_subpage (f o') = opt_subpage o'" "\<And>o'. opt_merge_threshold_dot16 (f o') = opt_merge_threshold_dot16 o'"
    "thresholds_current env"
  shows "thresholds_current (upd_options f env)"
  using assms recalculate_frame[of f env] recalculate_merge_frame[of f env] by (simp add: thresholds_current_def)

lemma shaped_upd [simp]: "env_shaped (upd_options f env) = env_shaped env" "env_shaped (upd_lck h env) = env_shaped env"
  by (simp_all add: upd_options_def upd_lck_def env_shaped_def)

lemma current_upd_lck [simp]: "thresholds_current (upd_lck h env) = thresholds_current env"
proof -
  have "recalculate_subpage_thresholds (upd_lck h env) = upd_lck h (recalculate_subpage_thresholds env)"
    "recalculate_merge_thresholds (upd_lck h env) = upd_lck h (recalculate_merge_thresholds env)"
    by (simp_all add: recalculate_subpage_thresholds_def recalculate_merge_thresholds_def upd_lck_def Let_def page_space_def)
  moreover have "upd_lck h a = upd_lck h b \<longleftrightarrow> a = b" if "env_lck a = env_lck b" for a b
    using that by (cases a, cases b) (simp add: upd_lck_def)
  moreover have "env_lck (recalculate_subpage_thresholds env) = env_lck env" "env_lck (recalculate_merge_thresholds env) = env_lck env"
    by (simp_all add: recalculate_subpage_thresholds_def recalculate_merge_thresholds_def Let_def)
  ultimately show ?thesis by (simp add: thresholds_current_def)
qed

lemma upd_lck_inv:
  assumes "options_inv g env" "\<And>l. env_lck env = Some l \<Longrightarrow> lck_ok g (env_ps env) l \<Longrightarrow> lck_ok g (env_ps env) (h l)"
  shows "options_inv g (upd_lck h env)"
  using assms by (simp add: options_inv_def) (cases "env_lck env"; simp add: upd_lck_def env_ranges_ok_def)

lemma upd_options_inv:
  assumes "options_inv g env" "\<And>o'. opt_subpage (f o') = opt_subpage o'"
    "\<And>o'. opt_merge_threshold_dot16 (f o') = opt_merge_threshold_dot16 o'"
    "\<And>o'. opt_dp_reserve_limit (f o') = opt_dp_reserve_limit o'"
    "options_ok (env_options env) \<Longrightarrow> options_ok (f (env_options env))"
  shows "options_inv g (upd_options f env)"
  using assms current_frame[of f env] by (simp add: options_inv_def) (simp add: upd_options_def env_ranges_ok_def)

lemma upd_options_compose: "upd_options f (upd_options h env) = upd_options (\<lambda>o'. f (h o')) env"
  by (simp add: upd_options_def)

lemma current_fields:
  assumes "thresholds_current env"
  shows "thresholds_current (env\<lparr>env_max_dbi := x\<rparr>)" "thresholds_current (env\<lparr>env_max_readers := x\<rparr>)"
    "thresholds_current (env\<lparr>env_shadow_reserve_len := x\<rparr>)"
proof -
  have "recalculate_subpage_thresholds (env\<lparr>env_max_dbi := x\<rparr>) = (recalculate_subpage_thresholds env)\<lparr>env_max_dbi := x\<rparr>"
    "recalculate_subpage_thresholds (env\<lparr>env_max_readers := x\<rparr>) = (recalculate_subpage_thresholds env)\<lparr>env_max_readers := x\<rparr>"
    "recalculate_subpage_thresholds (env\<lparr>env_shadow_reserve_len := x\<rparr>) = (recalculate_subpage_thresholds env)\<lparr>env_shadow_reserve_len := x\<rparr>"
    "recalculate_merge_thresholds (env\<lparr>env_max_dbi := x\<rparr>) = (recalculate_merge_thresholds env)\<lparr>env_max_dbi := x\<rparr>"
    "recalculate_merge_thresholds (env\<lparr>env_max_readers := x\<rparr>) = (recalculate_merge_thresholds env)\<lparr>env_max_readers := x\<rparr>"
    "recalculate_merge_thresholds (env\<lparr>env_shadow_reserve_len := x\<rparr>) = (recalculate_merge_thresholds env)\<lparr>env_shadow_reserve_len := x\<rparr>"
    by (simp_all add: recalculate_subpage_thresholds_def recalculate_merge_thresholds_def Let_def page_space_def)
  then show "thresholds_current (env\<lparr>env_max_dbi := x\<rparr>)" "thresholds_current (env\<lparr>env_max_readers := x\<rparr>)"
    "thresholds_current (env\<lparr>env_shadow_reserve_len := x\<rparr>)"
    using assms by (simp_all add: thresholds_current_def)
qed

lemma shaped_fields [simp]:
  "env_shaped (env\<lparr>env_max_dbi := x\<rparr>) = env_shaped env" "env_shaped (env\<lparr>env_max_readers := x\<rparr>) = env_shaped env"
  "env_shaped (env\<lparr>env_shadow_reserve_len := x\<rparr>) = env_shaped env" "env_shaped (env\<lparr>env_options := o'\<rparr>) = env_shaped env"
  by (simp_all add: env_shaped_def)

lemma ranges_options:
  "opt_dp_reserve_limit o' = opt_dp_reserve_limit (env_options env) \<Longrightarrow> env_ranges_ok g (env\<lparr>env_options := o'\<rparr>) = env_ranges_ok g env"
  by (simp add: env_ranges_ok_def)

lemma inv_fields:
  assumes "options_inv g env"
  shows "x \<le> MDBX_MAX_DBI \<Longrightarrow> options_inv g (env\<lparr>env_max_dbi := x + CORE_DBS\<rparr>)"
    "1 \<le> x \<Longrightarrow> x \<le> MDBX_READERS_LIMIT \<Longrightarrow> options_inv g (env\<lparr>env_max_readers := x\<rparr>)"
  using assms current_fields[of env] by (simp_all add: options_inv_def env_ranges_ok_def)

lemma release_reserve_le: "release_reserve limit n \<le> limit"
  by (induction limit n rule: release_reserve.induct) auto

lemma set_dp_reserve_inv: "options_inv g env \<Longrightarrow> options_inv g (snd (set_dp_reserve_limit os env value))"
proof -
  assume inv: "options_inv g env"
  have "options_inv g ((upd_options (\<lambda>o'. o'\<lparr>opt_dp_reserve_limit := v\<rparr>) env)\<lparr>env_shadow_reserve_len := release_reserve v n\<rparr>)"
    if "v \<le> INT_MAX" for v n
  proof -
    have "thresholds_current (upd_options (\<lambda>o'. o'\<lparr>opt_dp_reserve_limit := v\<rparr>) env)"
      using inv by (intro current_frame) (simp_all add: options_inv_def)
    from current_fields(3)[OF this] show ?thesis
      using inv that release_reserve_le[of v n]
      by (simp add: options_inv_def upd_options_def options_ok_def env_ranges_ok_def)
  qed
  then show ?thesis using inv by (simp add: set_dp_reserve_limit_def Let_def not_less)
qed

lemma default_dp_limit_bounds: "CURSOR_STACK_SIZE * 4 \<le> default_dp_limit os g env" "default_dp_limit os g env \<le> PAGELIST_LIMIT"
  by (simp_all add: default_dp_limit_def Let_def) (simp_all add: opt_consts)

lemma adjust_dp_limit_eq:
  obtains l i where "env_options_adjust_dp_limit os g env =
      upd_options (\<lambda>o'. o'\<lparr>opt_dp_limit := l, opt_dp_initial := i, opt_need_dp_limit_adjust := False\<rparr>) env"
    "CURSOR_STACK_SIZE * 4 \<le> l" "PAGELIST_LIMIT < opt_dp_limit (env_options env) \<or> l \<le> PAGELIST_LIMIT"
    "i = opt_dp_initial (env_options env) \<or> i = l"
proof -
  define l where "l = (if \<not> na_dp_limit (opt_non_auto (env_options env)) then default_dp_limit os g env
             else let max_pgno = env_max_pgno g env;
                      dp_limit = (if sub32 max_pgno NUM_METAS < opt_dp_limit (env_options env)
                                  then sub32 max_pgno NUM_METAS else opt_dp_limit (env_options env))
                  in if dp_limit < CURSOR_STACK_SIZE * 4 then CURSOR_STACK_SIZE * 4 else dp_limit)"
  define i where "i = (if l < opt_dp_initial (env_options env) \<and> default_dp_initial < opt_dp_initial (env_options env)
                        then l else opt_dp_initial (env_options env))"
  have "env_options_adjust_dp_limit os g env =
      upd_options (\<lambda>o'. o'\<lparr>opt_dp_limit := l, opt_dp_initial := i, opt_need_dp_limit_adjust := False\<rparr>) env"
    unfolding env_options_adjust_dp_limit_def l_def i_def Let_def by (rule refl)
  moreover have "CURSOR_STACK_SIZE * 4 \<le> l" unfolding l_def by (simp add: default_dp_limit_bounds Let_def)
  moreover have "l \<le> PAGELIST_LIMIT" if "opt_dp_limit (env_options env) \<le> PAGELIST_LIMIT"
    using that pagelist_limit_fits unfolding l_def by (simp add: default_dp_limit_bounds Let_def)
  moreover have "i = opt_dp_initial (env_options env) \<or> i = l" by (simp add: i_def)
  ultimately show thesis using that[of i l] by (meson not_le)
qed

lemma adjust_dp_limit_inv: "options_inv g env \<Longrightarrow> options_inv g (env_options_adjust_dp_limit os g env)"
proof -
  assume inv: "options_inv g env"
  obtain l i where eq: "env_options_adjust_dp_limit os g env =
      upd_options (\<lambda>o'. o'\<lparr>opt_dp_limit := l, opt_dp_initial := i, opt_need_dp_limit_adjust := False\<rparr>) env"
    and l: "CURSOR_STACK_SIZE * 4 \<le> l" "PAGELIST_LIMIT < opt_dp_limit (env_options env) \<or> l \<le> PAGELIST_LIMIT"
      "i = opt_dp_initial (env_options env) \<or> i = l"
    by (rule adjust_dp_limit_eq)
  show ?thesis unfolding eq
    by (rule upd_options_inv[OF inv]) (use l in \<open>auto simp: options_ok_def\<close>)
qed

lemma set_txn_dp_inv: "options_inv g env \<Longrightarrow> options_inv g (snd (set_txn_dp os g initial env value))"
proof -
  assume inv: "options_inv g env"
  have na: "options_inv g (upd_non_auto (\<lambda>n. n\<lparr>na_dp_limit := x\<rparr>) env)" for x
    unfolding upd_non_auto_def by (rule upd_options_inv[OF inv]) (simp_all add: options_ok_def)
  have lim: "options_inv g (upd_options (\<lambda>o'. o'\<lparr>opt_dp_limit := value\<rparr>) (upd_non_auto (\<lambda>n. n\<lparr>na_dp_limit := x\<rparr>) env))"
    if "CURSOR_STACK_SIZE * 4 \<le> value" "value \<le> PAGELIST_LIMIT" for x
    by (rule upd_options_inv[OF na]) (use that in \<open>simp_all add: options_ok_def\<close>)
  have ini: "options_inv g (upd_options (\<lambda>o'. o'\<lparr>opt_dp_initial := v\<rparr>) env)" if "CURSOR_STACK_SIZE * 4 \<le> v" "v \<le> PAGELIST_LIMIT" for v
    by (rule upd_options_inv[OF inv]) (use that in \<open>simp_all add: options_ok_def\<close>)
  have "options_inv g (set_txn_dp_initial g env value)"
    if "value = UINT64_MAX \<or> CURSOR_STACK_SIZE * 4 \<le> value \<and> value \<le> PAGELIST_LIMIT"
    using that pagelist_limit_fits by (auto simp: set_txn_dp_initial_def Let_def intro!: ini)
  moreover have "options_inv g (set_txn_dp_limit os g env value)"
    if "value = UINT64_MAX \<or> CURSOR_STACK_SIZE * 4 \<le> value \<and> value \<le> PAGELIST_LIMIT"
    using that by (auto simp: set_txn_dp_limit_def intro!: adjust_dp_limit_inv na lim)
  ultimately show ?thesis using inv by (auto simp: set_txn_dp_def)
qed

text \<open>The augment limit, set explicitly or left to the default.\<close>

lemma set_rp_inv:
  assumes inv: "options_inv g env"
  shows "options_inv g (snd (set_rp_augment_limit env value))" "options_inv g (snd (set_gc_time_limit env value))"
proof -
  have auto: "options_inv g (upd_options (\<lambda>o'. o'\<lparr>opt_rp_augment_limit := default_rp_augment_limit e'\<rparr>) e)"
    if "options_inv g e" "\<not> na_rp_augment_limit (opt_non_auto (env_options e))" for e e'
    by (rule upd_options_inv[OF that(1)]) (use that(2) default_rp_le in \<open>simp_all add: options_ok_def\<close>)
  have na: "options_inv g (upd_non_auto (\<lambda>n. n\<lparr>na_rp_augment_limit := False\<rparr>) env)"
    unfolding upd_non_auto_def by (rule upd_options_inv[OF inv]) (simp_all add: options_ok_def)
  have "options_inv g (upd_options (\<lambda>o'. o'\<lparr>opt_rp_augment_limit := value\<rparr>) (upd_non_auto (\<lambda>n. n\<lparr>na_rp_augment_limit := True\<rparr>) env))"
    if "value \<le> PAGELIST_LIMIT"
    unfolding upd_non_auto_def upd_options_compose
    by (rule upd_options_inv[OF inv]) (use that pagelist_limit_fits in \<open>simp_all add: options_ok_def\<close>)
  then show "options_inv g (snd (set_rp_augment_limit env value))"
    using inv auto[OF na] by (simp add: set_rp_augment_limit_def Let_def not_less) (simp add: upd_non_auto_def upd_options_def)
  have "options_inv g (upd_options (\<lambda>o'. o'\<lparr>opt_gc_time_limit := osal_16dot16_to_monotime v\<rparr>) env)" if "v \<le> UINT32_MAX" for v
    by (rule upd_options_inv[OF inv]) (use stored_time_mono[OF that] in \<open>simp_all add: options_ok_def\<close>)
  then show "options_inv g (snd (set_gc_time_limit env value))"
    using inv by (auto simp: set_gc_time_limit_def Let_def not_less intro!: auto)
qed

text \<open>The options in the lock file.\<close>

lemma presync_pages:
  assumes "env_shaped env" "bytes \<le> 0x80000000" "sys_unit g < 2 ^ 32"
  defines "n \<equiv> bytes_ceil2os_pgno g env bytes"
  shows "n * env_ps env < 0x80000000 + max (env_ps env) (sys_unit g)" "65536 \<le> bytes \<Longrightarrow> 1 \<le> n"
proof -
  define u where "u = (if sys_unit g < env_ps env then env_ps env else sys_unit g)"
  define b where "b = ceil_powerof2 bytes u"
  have ps: "env_ps env = 2 ^ env_ps2ln env" "256 \<le> env_ps env" "env_ps env \<le> 65536"
    using assms(1) power_increasing[of 8 "env_ps2ln env" "2 :: nat"] power_increasing[of "env_ps2ln env" 16 "2 :: nat"]
    by (simp_all add: env_shaped_def)
  then have u: "0 < u" "u = max (env_ps env) (sys_unit g)" "u < 2 ^ 32" using assms(3) by (auto simp: u_def)
  have b: "bytes \<le> b" "b < bytes + u" using ceil_powerof2_bounds[OF u(1), of bytes] by (simp_all add: b_def)
  have "b div env_ps env \<le> b div 256" using ps(2) by (simp add: div_le_mono2)
  also have "b div 256 < 2 ^ 32" using b(2) assms(2) u(3) by (simp add: less_mult_imp_div_less)
  finally have n: "n = b div env_ps env"
    by (simp add: n_def bytes_ceil2os_pgno_def bytes_ceil2os_bytes_def bytes2pgno_def drop_bit_eq_div ps(1) b_def u_def)
  have "n * env_ps env \<le> b" unfolding n by (rule div_times_less_eq_dividend)
  then show "n * env_ps env < 0x80000000 + max (env_ps env) (sys_unit g)" using b(2) assms(2) u(2) by linarith
  show "1 \<le> n" if "65536 \<le> bytes"
  proof -
    have "env_ps env \<le> b" using that b(1) ps(3) by linarith
    then have "env_ps env div env_ps env \<le> b div env_ps env" by (rule div_le_mono)
    then show ?thesis using ps(2) by (simp add: n)
  qed
qed

lemma set_lck_inv:
  assumes inv: "options_inv g env" and unit: "sys_unit g < 2 ^ 32"
  shows "options_inv g (snd (set_sync_bytes os env value))" "options_inv g (snd (set_sync_period os env value))"
    "options_inv g (snd (set_presync_threshold g env value))"
proof -
  have sh: "env_shaped env" "256 \<le> env_ps env"
    using inv power_increasing[of 8 "env_ps2ln env" "2 :: nat"] by (simp_all add: options_inv_def env_shaped_def)
  have "bytes2pgno env x \<le> UINT32_MAX" for x unfolding bytes2pgno_def by (rule mod32_le)
  then have "options_inv g (upd_lck (\<lambda>l. l\<lparr>lck_autosync_threshold := bytes2pgno env x\<rparr>) env)" for x
    by (intro upd_lck_inv[OF inv]) (simp add: lck_ok_def)
  then show "options_inv g (snd (set_sync_bytes os env value))" using inv by (simp add: set_sync_bytes_def Let_def)
  have "options_inv g (upd_lck (\<lambda>l. l\<lparr>lck_autosync_period := osal_16dot16_to_monotime x\<rparr>) env)" if "x \<le> UINT32_MAX" for x
    by (rule upd_lck_inv[OF inv]) (simp add: lck_ok_def stored_time_mono[OF that])
  then show "options_inv g (snd (set_sync_period os env value))" using inv by (simp add: set_sync_period_def Let_def not_less)
  have "lck_ok g (env_ps env) (l\<lparr>lck_presync_threshold := n\<rparr>)"
    if "lck_ok g (env_ps env) l" "1 \<le> n" "n * env_ps env < 0x80000000 + max (env_ps env) (sys_unit g)" for l n
    using that by (simp add: lck_ok_def)
  moreover have "(256 * 1024 :: nat) \<le> 0x80000000" "max n 1 * env_ps env < 0x80000000 + max (env_ps env) (sys_unit g)"
    if "n * env_ps env < 0x80000000 + max (env_ps env) (sys_unit g)" for n
    using that sh(2) by (auto simp: max_def split: if_splits)
  ultimately show "options_inv g (snd (set_presync_threshold g env value))"
    using inv presync_pages[OF sh(1) _ unit]
    by (auto simp: set_presync_threshold_def default_presync_threshold_bytes_def not_less intro!: upd_lck_inv[OF inv])
qed

lemma u8_default_ok:
  "value_or d v \<le> 255 \<longleftrightarrow> (v = UINT64_MAX \<and> d \<le> 255 \<or> v \<noteq> UINT64_MAX \<and> v \<le> 255)"
  by (simp add: value_or_def)

lemma set_u8_inv:
  assumes "options_inv g env" "\<And>v o'. opt_subpage (upd v o') = opt_subpage o'"
    "\<And>v o'. opt_merge_threshold_dot16 (upd v o') = opt_merge_threshold_dot16 o'"
    "\<And>v o'. opt_dp_reserve_limit (upd v o') = opt_dp_reserve_limit o'"
    "\<And>v o'. v \<le> 255 \<Longrightarrow> options_ok o' \<Longrightarrow> options_ok (upd v o')"
  shows "options_inv g (snd (set_u8_option upd d env value))"
  using assms by (auto simp: set_u8_option_def Let_def intro!: upd_options_inv)

lemma set_subpage_inv:
  assumes "options_inv g env" "\<And>v s. v \<le> 65535 \<Longrightarrow> subpage_options_ok s \<Longrightarrow> subpage_options_ok (upd v s)" "d \<le> 65535"
  shows "options_inv g (snd (set_subpage_option upd d env value))"
proof -
  have "options_inv g (recalculate_subpage_thresholds (upd_subpage (upd v) env))" if v: "v \<le> 65535" for v
  proof -
    have "recalculate_merge_thresholds (upd_subpage (upd v) env) = upd_subpage (upd v) (recalculate_merge_thresholds env)"
      unfolding upd_subpage_def by (rule recalculate_merge_frame) simp
    then have "thresholds_current (recalculate_subpage_thresholds (upd_subpage (upd v) env))"
      using assms(1) by (intro recalculate_current) (simp add: options_inv_def thresholds_current_def)
    then show ?thesis using assms v
      by (simp add: options_inv_def upd_subpage_def) (simp add: upd_options_def options_ok_def ranges_options)
  qed
  then show ?thesis using assms by (simp add: set_subpage_option_def)
qed

lemma set_merge_inv: "options_inv g env \<Longrightarrow> options_inv g (snd (set_merge_threshold env value))"
proof -
  assume inv: "options_inv g env"
  have "options_inv g (recalculate_merge_thresholds (upd_options (\<lambda>o'. o'\<lparr>opt_merge_threshold_dot16 := v\<rparr>) env))"
    if v: "8192 \<le> v" "v \<le> 32768" for v
  proof -
    have "recalculate_subpage_thresholds (upd_options (\<lambda>o'. o'\<lparr>opt_merge_threshold_dot16 := v\<rparr>) env) =
        upd_options (\<lambda>o'. o'\<lparr>opt_merge_threshold_dot16 := v\<rparr>) (recalculate_subpage_thresholds env)"
      by (rule recalculate_frame) simp
    then have "thresholds_current (recalculate_merge_thresholds (upd_options (\<lambda>o'. o'\<lparr>opt_merge_threshold_dot16 := v\<rparr>) env))"
      using inv by (intro recalculate_current) (simp add: options_inv_def thresholds_current_def)
    then show ?thesis using inv v by (simp add: options_inv_def) (simp add: upd_options_def options_ok_def ranges_options)
  qed
  then show ?thesis using inv by (simp add: set_merge_threshold_def Let_def)
qed

lemma set_option_inv:
  assumes inv: "options_inv g env" and unit: "sys_unit g < 2 ^ 32"
  shows "options_inv g (snd (mdbx_env_set_option os g env option value))"
proof -
  have plain: "options_inv g (upd_options f env)"
    if "\<And>o'. opt_subpage (f o') = opt_subpage o'" "\<And>o'. opt_merge_threshold_dot16 (f o') = opt_merge_threshold_dot16 o'"
      "\<And>o'. opt_dp_reserve_limit (f o') = opt_dp_reserve_limit o'" "\<And>o'. options_ok o' \<Longrightarrow> options_ok (f o')" for f
    using upd_options_inv[OF inv that(1,2,3)] that(4) by blast
  have na: "options_inv g (upd_non_auto (\<lambda>n. n\<lparr>na_prefault_write := x\<rparr>) e)" if "options_inv g e" for x e
    unfolding upd_non_auto_def by (rule upd_options_inv[OF that]) (simp_all add: options_ok_def)
  have pw: "options_inv g (upd_options (\<lambda>o'. o'\<lparr>opt_prefault_write := x\<rparr>) e)" if "options_inv g e" for x e
    by (rule upd_options_inv[OF that]) (simp_all add: options_ok_def)
  have wt: "v = v mod 2 ^ 32 \<Longrightarrow> v \<le> UINT32_MAX" for v :: nat by (metis mod32_le)
  have wt': "options_inv g (snd (set_writethrough_threshold env value))"
    using inv wt[of "value_or MDBX_WRITETHROUGH_THRESHOLD_DEFAULT value"]
    unfolding set_writethrough_threshold_def Let_def by (auto simp: options_ok_def intro!: plain)
  have dbi: "options_inv g (snd (set_max_db env value))" "options_inv g (snd (set_max_readers env value))"
    using inv inv_fields[OF inv] by (simp_all add: set_max_db_def set_max_readers_def Let_def not_less)
  note whole = set_dp_reserve_inv[OF inv] set_txn_dp_inv[OF inv] set_merge_inv[OF inv] set_rp_inv[OF inv] set_lck_inv[OF inv unit]
  show ?thesis
  proof (cases "check_env (Some env) = MDBX_SUCCESS")
    case True
    then show ?thesis
      by (cases option) (use inv in \<open>auto simp: mdbx_env_set_option_def whole wt' dbi set_spill_max_denominator_def
        set_spill_min_denominator_def set_spill_parent4child_denominator_def set_loose_limit_def
        set_prefault_write_def set_prefer_waf_def set_subpage_limit_def
        set_subpage_room_threshold_def set_subpage_reserve_prereq_def set_subpage_reserve_limit_def
        set_split_reserve_def Let_def opt_defaults options_ok_def subpage_options_ok_def
        intro!: set_u8_inv set_subpage_inv na pw plain\<close>)
  qed (simp add: mdbx_env_set_option_def inv)
qed


subsection \<open>Setting up a page size\<close>

lemma ctz_from_pow: "k \<le> j \<Longrightarrow> j < k + n \<Longrightarrow> ctz_from n k (2 ^ j) = j"
proof (induction n arbitrary: k)
  case (Suc n)
  show ?case
  proof (cases "k = j")
    case False
    then show ?thesis using Suc by (simp add: bit_exp_iff)
  qed (simp add: bit_exp_iff)
qed simp

lemma log2n_powerof2_pow: "k < 32 \<Longrightarrow> log2n_powerof2 (2 ^ k) = k"
proof -
  assume k: "k < 32"
  then have "(2 :: nat) ^ k < 2 ^ 32" by (intro power_strict_increasing) auto
  then show ?thesis using k ctz_from_pow[of 0 k 32] by (simp only: log2n_powerof2_def mod_less)
qed

lemma setup_pagesize_inv:
  assumes ps: "is_powerof2 ps" "MDBX_MIN_PAGESIZE \<le> ps" "ps \<le> MDBX_MAX_PAGESIZE"
    and opts: "options_ok (env_options env)" "env_ranges_ok g (env\<lparr>env_ps := ps\<rparr>)"
  shows "options_inv g (env_setup_pagesize os g env ps)" "env_ps (env_setup_pagesize os g env ps) = ps"
proof -
  obtain k where k: "ps = 2 ^ k" using is_powerof2_pow[of ps] ps by (auto simp: size_defs)
  have "8 \<le> k" using ps(2) power_le_imp_le_exp[of "2 :: nat" 8 k] by (simp add: k size_defs)
  moreover have "k \<le> 16" using ps(3) power_le_imp_le_exp[of "2 :: nat" k 16] by (simp add: k size_defs)
  ultimately have k8: "8 \<le> k" "k \<le> 16" "log2n_powerof2 ps mod 2 ^ 8 = k"
    by (auto simp: k log2n_powerof2_pow)
  obtain q where q: "ps = 4 * q" "64 \<le> q" "q \<le> 16384" using pagesize_quarter[OF k8(1,2)] k by metis
  define e where "e = env\<lparr>env_ps := ps, env_maxgc_large1page := (ps - PAGEHDRSZ) div sizeof_pgno - 1,
                   env_maxgc_per_branch := (ps - PAGEHDRSZ) div (sizeof_indx + NODESIZE + sizeof_txnid),
                   env_leaf_nodemax := LEAF_NODE_MAX ps mod 2 ^ 16,
                   env_branch_nodemax := BRANCH_NODE_MAX ps mod 2 ^ 16,
                   env_ps2ln := log2n_powerof2 ps mod 2 ^ 8\<rparr>"
  have "LEAF_NODE_MAX ps mod 2 ^ 16 = LEAF_NODE_MAX ps" "BRANCH_NODE_MAX ps mod 2 ^ 16 = BRANCH_NODE_MAX ps"
    using q node_max_quarter[of q] by simp_all
  then have shaped: "env_shaped e" using k8 unfolding env_shaped_def e_def by (simp only: env.simps k) simp
  let ?e2 = "recalculate_subpage_thresholds (recalculate_merge_thresholds e)"
  have "recalculate_merge_thresholds (recalculate_merge_thresholds e) = recalculate_merge_thresholds e"
    by (simp add: recalculate_merge_thresholds_def Let_def page_space_def)
  then have "thresholds_current ?e2" by (rule recalculate_current)
  then have "options_inv g ?e2"
    using shaped opts by (simp add: options_inv_def) (simp add: e_def env_ranges_ok_def)
  then have "options_inv g (env_options_adjust_dp_limit os g ?e2)" by (rule adjust_dp_limit_inv)
  then show "options_inv g (env_setup_pagesize os g env ps)" by (simp only: env_setup_pagesize_def Let_def e_def)
  have "env_ps ?e2 = ps"
    unfolding recalculate_subpage_thresholds_def recalculate_merge_thresholds_def Let_def by (simp add: e_def)
  moreover have "env_ps (env_options_adjust_dp_limit os g a) = env_ps a" for a
    by (simp add: env_options_adjust_dp_limit_def upd_options_def Let_def)
  ultimately have "env_ps (env_options_adjust_dp_limit os g ?e2) = ps" by simp
  then show "env_ps (env_setup_pagesize os g env ps) = ps" by (simp only: env_setup_pagesize_def Let_def e_def)
qed

lemma options_init_ok:
  "opt_split_reserve_dot16 (env_options env) \<le> 32768 \<Longrightarrow> stored_time (opt_gc_time_limit (env_options env)) \<Longrightarrow>
   \<not> na_rp_augment_limit (opt_non_auto (env_options env)) \<Longrightarrow> options_ok (env_options (env_options_init g env))"
  using default_rp_le
  by (simp add: env_options_init_def Let_def upd_options_def options_ok_def subpage_options_ok_def opt_defaults
      opt_consts MDBX_PNL_INITIAL_def MDBX_PNL_GRANULATE_def pnl_overhead_def)

subsection \<open>What is read back\<close>

definition exact_options :: "MDBX_option set" where
  "exact_options = {MDBX_opt_max_db, MDBX_opt_max_readers, MDBX_opt_rp_augment_limit, MDBX_opt_loose_limit,
     MDBX_opt_dp_reserve_limit, MDBX_opt_spill_max_denominator, MDBX_opt_spill_min_denominator,
     MDBX_opt_spill_parent4child_denominator, MDBX_opt_merge_threshold, MDBX_opt_writethrough_threshold,
     MDBX_opt_prefault_write_enable, MDBX_opt_prefer_waf_insteadof_balance, MDBX_opt_subpage_limit,
     MDBX_opt_subpage_room_threshold, MDBX_opt_subpage_reserve_prereq, MDBX_opt_subpage_reserve_limit,
     MDBX_opt_split_reserve}"

lemma upd_fields [simp]:
  "env_options (upd_options f env) = f (env_options env)" "env_signed (upd_options f env) = env_signed env"
  "env_flags (upd_options f env) = env_flags env" "env_lck (upd_options f env) = env_lck env"
  "env_options (upd_lck h env) = env_options env" "env_signed (upd_lck h env) = env_signed env"
  "env_flags (upd_lck h env) = env_flags env" "env_lck (upd_lck h env) = map_option h (env_lck env)"
  by (simp_all add: upd_options_def upd_lck_def)

lemma recalc_fields [simp]:
  "env_signed (recalculate_subpage_thresholds env) = env_signed env"
  "env_signed (recalculate_merge_thresholds env) = env_signed env"
  "env_flags (recalculate_subpage_thresholds env) = env_flags env"
  "env_flags (recalculate_merge_thresholds env) = env_flags env"
  by (simp_all add: recalculate_subpage_thresholds_def recalculate_merge_thresholds_def Let_def)

lemma adjust_fields [simp]:
  "env_signed (env_options_adjust_dp_limit os g env) = env_signed env"
  "env_flags (env_options_adjust_dp_limit os g env) = env_flags env"
  by (simp_all add: env_options_adjust_dp_limit_def Let_def)

lemma check_env_cong: "env_signed e = env_signed env \<Longrightarrow> env_flags e = env_flags env \<Longrightarrow> check_env (Some e) = check_env (Some env)"
  by (simp add: check_env_def)

lemma set_option_static:
  "env_signed (snd (mdbx_env_set_option os g env option value)) = env_signed env \<and>
   env_flags (snd (mdbx_env_set_option os g env option value)) = env_flags env"
  by (cases option) (simp_all add: mdbx_env_set_option_def set_defs Let_def upd_subpage_def upd_non_auto_def
      set_txn_dp_limit_def set_txn_dp_initial_def)

lemma set_option_check:
  assumes "mdbx_env_set_option os g env option value = (MDBX_SUCCESS, env')"
  shows "check_env (Some env) = MDBX_SUCCESS" "check_env (Some env') = MDBX_SUCCESS"
proof -
  show 1: "check_env (Some env) = MDBX_SUCCESS"
    using assms by (cases "check_env (Some env) = MDBX_SUCCESS") (simp_all add: mdbx_env_set_option_def)
  show "check_env (Some env') = MDBX_SUCCESS"
    using set_option_static[of os g env option "value"] assms 1 check_env_cong[of env' env] by simp
qed

lemma value_or_exact: "v \<noteq> UINT64_MAX \<Longrightarrow> value_or d v = v"
  by (simp add: value_or_def)

lemma exact_roundtrip:
  assumes opt: "option \<in> exact_options" and v: "value \<noteq> UINT64_MAX"
    and set: "mdbx_env_set_option os g env option value = (MDBX_SUCCESS, env')"
  shows "mdbx_env_get_option env' option = (MDBX_SUCCESS, value)"
proof -
  note c = set_option_check[OF set]
  have u8: "env' = upd_options (upd value) env" if "set_u8_option upd d env value = (MDBX_SUCCESS, env')" for upd d
    using that v by (auto simp: set_u8_option_def value_or_exact Let_def split: if_splits)
  have sp: "env' = recalculate_subpage_thresholds (upd_subpage (upd value) env)"
    if "set_subpage_option upd d env value = (MDBX_SUCCESS, env')" for upd d
    using that v by (auto simp: set_subpage_option_def split: if_splits)
  have get: "mdbx_env_get_option env' option = (MDBX_SUCCESS, snd (mdbx_env_get_option env' option))"
    using c(2) opt by (auto simp: exact_options_def mdbx_env_get_option_def Let_def)
  have "snd (mdbx_env_get_option env' option) = value"
    using opt unfolding exact_options_def insert_iff empty_iff
  proof (elim disjE)
    assume o': "option = MDBX_opt_max_db"
    then have "env' = env\<lparr>env_max_dbi := value + CORE_DBS\<rparr>"
      using set c(1) v by (auto simp: mdbx_env_set_option_def set_max_db_def Let_def value_or_exact split: if_splits)
    then show ?thesis using o' c(2) by (simp add: mdbx_env_get_option_def)
  next
    assume o': "option = MDBX_opt_max_readers"
    then have "env' = env\<lparr>env_max_readers := value\<rparr>"
      using set c(1) v by (auto simp: mdbx_env_set_option_def set_max_readers_def Let_def value_or_exact split: if_splits)
    then show ?thesis using o' c(2) by (simp add: mdbx_env_get_option_def)
  next
    assume o': "option = MDBX_opt_dp_reserve_limit"
    then have "opt_dp_reserve_limit (env_options env') = value"
      using set c(1) v by (auto simp: mdbx_env_set_option_def set_dp_reserve_limit_def Let_def value_or_exact split: if_splits)
    then show ?thesis using o' c(2) by (simp add: mdbx_env_get_option_def)
  next
    assume o': "option = MDBX_opt_rp_augment_limit"
    then have "opt_rp_augment_limit (env_options env') = value"
      using set c(1) v by (auto simp: mdbx_env_set_option_def set_rp_augment_limit_def split: if_splits)
    then show ?thesis using o' c(2) by (simp add: mdbx_env_get_option_def)
  next
    assume o': "option = MDBX_opt_merge_threshold"
    then have "opt_merge_threshold_dot16 (env_options env') = value"
      using set c(1) v by (auto simp: mdbx_env_set_option_def set_merge_threshold_def Let_def value_or_exact split: if_splits)
    then show ?thesis using o' c(2) by (simp add: mdbx_env_get_option_def)
  next
    assume o': "option = MDBX_opt_writethrough_threshold"
    then have "opt_writethrough_threshold (env_options env') = value"
      using set c(1) v by (auto simp: mdbx_env_set_option_def set_writethrough_threshold_def Let_def value_or_exact split: if_splits)
    then show ?thesis using o' c(2) by (simp add: mdbx_env_get_option_def)
  next
    assume o': "option = MDBX_opt_prefault_write_enable"
    then have "opt_prefault_write (env_options env') = (value \<noteq> 0) \<and> value \<le> 1"
      using set c(1) v by (auto simp: mdbx_env_set_option_def set_prefault_write_def upd_non_auto_def split: if_splits)
    then show ?thesis using o' c(2) by (auto simp: mdbx_env_get_option_def)
  next
    assume o': "option = MDBX_opt_prefer_waf_insteadof_balance"
    then have "opt_prefer_waf_insteadof_balance (env_options env') = (value \<noteq> 0) \<and> value \<le> 1"
      using set c(1) v by (auto simp: mdbx_env_set_option_def set_prefer_waf_def split: if_splits)
    then show ?thesis using o' c(2) by (auto simp: mdbx_env_get_option_def)
  next
    assume o': "option = MDBX_opt_split_reserve"
    then have "opt_split_reserve_dot16 (env_options env') = value"
      using set c(1) v by (auto simp: mdbx_env_set_option_def set_split_reserve_def split: if_splits)
    then show ?thesis using o' c(2) by (simp add: mdbx_env_get_option_def)
  qed (use set c in \<open>auto simp: mdbx_env_set_option_def mdbx_env_get_option_def set_spill_max_denominator_def
        set_spill_min_denominator_def set_spill_parent4child_denominator_def set_loose_limit_def
        set_subpage_limit_def set_subpage_room_threshold_def set_subpage_reserve_prereq_def
        set_subpage_reserve_limit_def upd_subpage_def dest!: u8 sp\<close>)
  then show ?thesis using get by simp
qed

lemma time_roundtrip:
  assumes opt: "option = MDBX_opt_sync_period \<or> option = MDBX_opt_gc_time_limit" and v: "value \<noteq> UINT64_MAX"
    and lck: "env_lck env \<noteq> None" and set: "mdbx_env_set_option os g env option value = (MDBX_SUCCESS, env')"
  shows "\<exists>r. mdbx_env_get_option env' option = (MDBX_SUCCESS, r) \<and> r \<le> value \<and> value \<le> r + 1"
proof -
  note c = set_option_check[OF set]
  have "value \<le> UINT32_MAX \<and> mdbx_env_get_option env' option = (MDBX_SUCCESS, osal_monotime_to_16dot16 (osal_16dot16_to_monotime value))"
    using opt
  proof
    assume o': "option = MDBX_opt_sync_period"
    then have "set_sync_period os env value = (MDBX_SUCCESS, env')" using set c(1) by (simp add: mdbx_env_set_option_def)
    then have "value \<le> UINT32_MAX" "has_flag (env_flags env') ENV_ACTIVE"
      "lck_autosync lck_autosync_period env' = osal_16dot16_to_monotime value"
      using lck v by (auto simp: set_sync_period_def Let_def value_or_exact lck_autosync_def rc_defs not_less split: if_splits)
    then show ?thesis using o' c(2) by (simp add: mdbx_env_get_option_def)
  next
    assume o': "option = MDBX_opt_gc_time_limit"
    then have "set_gc_time_limit env value = (MDBX_SUCCESS, env')" using set c(1) by (simp add: mdbx_env_set_option_def)
    then have "value \<le> UINT32_MAX" "opt_gc_time_limit (env_options env') = osal_16dot16_to_monotime value"
      using v by (auto simp: set_gc_time_limit_def Let_def value_or_exact rc_defs not_less split: if_splits)
    then show ?thesis using o' c(2) by (simp add: mdbx_env_get_option_def)
  qed
  then show ?thesis using monotime_roundtrip[of "value"] by auto
qed


subsection \<open>Properties\<close>

text \<open>
  A refused option changes nothing: whenever \<^verbatim>\<open>mdbx_env_set_option\<close> returns an error, the environment is
  as before. The two options that flush data after they are stored are the exception: there only the
  flush can fail after the store.
\<close>

theorem set_option_refused:
  assumes "mdbx_env_set_option os g env option value = (rc, env')" "rc \<noteq> MDBX_SUCCESS"
  shows "env' = env \<or> (option = MDBX_opt_sync_bytes \<or> option = MDBX_opt_sync_period) \<and> rc = sync_result os"
proof (cases "option = MDBX_opt_sync_bytes \<or> option = MDBX_opt_sync_period")
  case True
  then show ?thesis using assms
    by (auto simp: mdbx_env_set_option_def set_sync_bytes_def set_sync_period_def Let_def split: if_splits)
next
  case False
  then show ?thesis using set_option_error_unchanged[OF assms] by blast
qed

definition sample_globals :: globals where
  "sample_globals = \<lparr>sys_pagesize = 4096, sys_allocation_granularity = 4096, mmap_limit = 2 ^ 46,
     reasonable_db_maxsize = 2 ^ 40, running_on_WSL1 = False\<rparr>"

definition sample_os :: os_answers where
  "sample_os = \<lparr>os_ram_pages = Some (4194304, 2097152), os_txn_lock = 0, os_env_sync = -1\<rparr>"

lemma sample_check: "check_env (Some sample_env) = MDBX_SUCCESS"
  by (simp add: check_env_def sample_env_def has_flag_def ENV_FATAL_ERROR_def ENV_ACTIVE_def)

theorem set_option_refused_witness:
  "mdbx_env_set_option sample_os sample_globals sample_env MDBX_opt_merge_threshold 5 = (MDBX_EINVAL, sample_env)"
proof -
  have "fst (mdbx_env_set_option sample_os sample_globals sample_env MDBX_opt_merge_threshold 5) = MDBX_EINVAL"
    by (simp add: mdbx_env_set_option_def sample_check set_merge_threshold_def value_or_def UINT64_MAX_def)
  then show ?thesis
    using set_option_refused[OF surjective_pairing[of "mdbx_env_set_option sample_os sample_globals sample_env MDBX_opt_merge_threshold 5"]]
    by (auto simp: prod_eq_iff)
qed

text \<open>
  What is set is what is read: after a successful \<^verbatim>\<open>mdbx_env_set_option\<close> with an explicit value,
  \<^verbatim>\<open>mdbx_env_get_option\<close> returns exactly that value for the options of \<open>exact_options\<close>, and for the two
  times, kept in nanoseconds, that value or one 65536th of a second less.
\<close>

theorem option_roundtrip:
  assumes "mdbx_env_set_option os g env option value = (MDBX_SUCCESS, env')" "value \<noteq> UINT64_MAX" "env_lck env \<noteq> None"
  shows "(option \<in> exact_options \<longrightarrow> mdbx_env_get_option env' option = (MDBX_SUCCESS, value)) \<and>
    (option = MDBX_opt_sync_period \<or> option = MDBX_opt_gc_time_limit \<longrightarrow>
       (\<exists>r. mdbx_env_get_option env' option = (MDBX_SUCCESS, r) \<and> r \<le> value \<and> value \<le> r + 1))"
  using exact_roundtrip[OF _ assms(2,1)] time_roundtrip[OF _ assms(2,3,1)] by blast

theorem option_roundtrip_witness:
  "\<exists>env'. mdbx_env_set_option sample_os sample_globals sample_env MDBX_opt_loose_limit 100 = (MDBX_SUCCESS, env') \<and>
     mdbx_env_get_option env' MDBX_opt_loose_limit = (MDBX_SUCCESS, 100)"
proof -
  have "\<exists>env'. mdbx_env_set_option sample_os sample_globals sample_env MDBX_opt_loose_limit 100 = (MDBX_SUCCESS, env')"
    by (simp add: mdbx_env_set_option_def sample_check set_loose_limit_def set_u8_option_def value_or_def UINT64_MAX_def)
  then obtain env' where e: "mdbx_env_set_option sample_os sample_globals sample_env MDBX_opt_loose_limit 100 = (MDBX_SUCCESS, env')"
    by blast
  have "env_lck sample_env \<noteq> None" "(100 :: nat) \<noteq> UINT64_MAX" by (simp_all add: sample_env_def UINT64_MAX_def)
  then show ?thesis using option_roundtrip[OF e] e by (auto simp: exact_options_def)
qed

text \<open>The round trip of a time is not exact: 4/65536 s is read back as 3/65536 s.\<close>

lemma time_readback_loses: "osal_monotime_to_16dot16 (osal_16dot16_to_monotime 4) = 3"
  by (simp add: osal_monotime_to_16dot16_def monotime_limit_eq monotime_eq UINT32_MAX_def push_bit_eq_mult)

text \<open>
  The remaining time in \<^verbatim>\<open>default_rp_augment_limit\<close> is taken in 16.16 seconds while the limit is kept in
  nanoseconds: every limit of at least 1048576 ns (about a millisecond) counts as more than the 16 seconds.
\<close>

lemma rp_augment_unit_mismatch:
  assumes "1048576 \<le> opt_gc_time_limit (env_options env)"
  shows "default_rp_augment_limit env =
     pnl_bytes2size (pnl_size2bytes (max (env_maxgc_large1page env * 2) MDBX_PNL_INITIAL)) mod 2 ^ 32"
  using assms by (simp add: default_rp_augment_limit_def Let_def push_bit_eq_mult max_def)

lemma one_second_is_mismatched: "1048576 \<le> osal_16dot16_to_monotime 65536"
  by (simp add: monotime_eq UINT32_MAX_def)

text \<open>\<^verbatim>\<open>MDBX_opt_sync_bytes\<close> of 2^44 bytes with 4K pages is stored as a threshold of 0 pages: auto-sync is off.\<close>

lemma sync_bytes_truncated:
  "snd (set_sync_bytes sample_os sample_env (2 ^ 44)) = sample_env \<and> lck_autosync lck_autosync_threshold sample_env = 0"
  by (simp add: set_sync_bytes_def value_or_def UINT64_MAX_def sample_env_def has_flag_def MDBX_RDONLY_def ENV_ACTIVE_def
      bytes2pgno_def drop_bit_eq_div lck_autosync_def)

text \<open>A history of option calls.\<close>

definition run_options :: "os_answers \<Rightarrow> globals \<Rightarrow> (MDBX_option \<times> nat) list \<Rightarrow> env \<Rightarrow> env" where
  "run_options os g = fold (\<lambda>(option, value) e. snd (mdbx_env_set_option os g e option value))"

text \<open>The documented range of each option, which \<^verbatim>\<open>UINT64_MAX\<close> (the default) is always in.\<close>

definition option_bounds :: "MDBX_option \<Rightarrow> (nat \<times> nat) option" where
  "option_bounds option =
     (case option of
        MDBX_opt_sync_bytes \<Rightarrow> Some (0, UINT64_MAX - 65536)
      | MDBX_opt_sync_period \<Rightarrow> Some (0, UINT32_MAX)
      | MDBX_opt_max_db \<Rightarrow> Some (0, MDBX_MAX_DBI)
      | MDBX_opt_max_readers \<Rightarrow> Some (1, MDBX_READERS_LIMIT)
      | MDBX_opt_dp_reserve_limit \<Rightarrow> Some (0, INT_MAX)
      | MDBX_opt_rp_augment_limit \<Rightarrow> Some (0, PAGELIST_LIMIT)
      | MDBX_opt_gc_time_limit \<Rightarrow> Some (0, UINT32_MAX)
      | MDBX_opt_txn_dp_limit \<Rightarrow> Some (CURSOR_STACK_SIZE * 4, PAGELIST_LIMIT)
      | MDBX_opt_txn_dp_initial \<Rightarrow> Some (CURSOR_STACK_SIZE * 4, PAGELIST_LIMIT)
      | MDBX_opt_spill_max_denominator \<Rightarrow> Some (0, 255)
      | MDBX_opt_spill_min_denominator \<Rightarrow> Some (0, 255)
      | MDBX_opt_spill_parent4child_denominator \<Rightarrow> Some (0, 255)
      | MDBX_opt_loose_limit \<Rightarrow> Some (0, 255)
      | MDBX_opt_merge_threshold \<Rightarrow> Some (8192, 32768)
      | MDBX_opt_writethrough_threshold \<Rightarrow> Some (0, UINT32_MAX)
      | MDBX_opt_prefault_write_enable \<Rightarrow> Some (0, 1)
      | MDBX_opt_prefer_waf_insteadof_balance \<Rightarrow> Some (0, 1)
      | MDBX_opt_subpage_limit \<Rightarrow> Some (0, 65535)
      | MDBX_opt_subpage_room_threshold \<Rightarrow> Some (0, 65535)
      | MDBX_opt_subpage_reserve_prereq \<Rightarrow> Some (0, 65535)
      | MDBX_opt_subpage_reserve_limit \<Rightarrow> Some (0, 65535)
      | MDBX_opt_split_reserve \<Rightarrow> Some (0, 32768)
      | MDBX_opt_presync_threshold \<Rightarrow> Some (0, 0x80000000)
      | MDBX_opt_unknown n \<Rightarrow> None)"

definition option_in_range :: "MDBX_option \<Rightarrow> nat \<Rightarrow> bool" where
  "option_in_range option value \<longleftrightarrow>
     (case option_bounds option of None \<Rightarrow> False | Some (lo, hi) \<Rightarrow> value = UINT64_MAX \<or> lo \<le> value \<and> value \<le> hi)"

text \<open>When an option may change at all: not in a read-only or closed environment, not under a mapping, not in a transaction, only with the lock.\<close>

definition option_allowed :: "os_answers \<Rightarrow> env \<Rightarrow> MDBX_option \<Rightarrow> bool" where
  "option_allowed os env option \<longleftrightarrow>
     (option \<in> {MDBX_opt_sync_bytes, MDBX_opt_sync_period, MDBX_opt_gc_time_limit, MDBX_opt_txn_dp_limit, MDBX_opt_txn_dp_initial} \<longrightarrow>
        \<not> has_flag (env_flags env) MDBX_RDONLY) \<and>
     (option \<in> {MDBX_opt_sync_bytes, MDBX_opt_sync_period} \<longrightarrow> has_flag (env_flags env) ENV_ACTIVE) \<and>
     (option \<in> {MDBX_opt_max_db, MDBX_opt_max_readers} \<longrightarrow> \<not> env_mapped env) \<and>
     (option \<in> {MDBX_opt_txn_dp_limit, MDBX_opt_txn_dp_initial} \<longrightarrow> \<not> env_txn env) \<and>
     (option = MDBX_opt_gc_time_limit \<longrightarrow> \<not> (env_txn env \<and> lock_needed env)) \<and>
     (option \<in> {MDBX_opt_dp_reserve_limit, MDBX_opt_txn_dp_limit, MDBX_opt_txn_dp_initial} \<and> lock_needed env \<longrightarrow>
        os_txn_lock os = MDBX_SUCCESS) \<and>
     (option = MDBX_opt_presync_threshold \<longrightarrow> env_lck env \<noteq> None)"

lemma mod_fits: "n = n mod 2 ^ 32 \<Longrightarrow> n \<le> UINT32_MAX"
  by (metis mod32_le)

lemma writethrough_range: "fst (set_writethrough_threshold env value) = MDBX_SUCCESS \<Longrightarrow> value = UINT64_MAX \<or> value \<le> UINT32_MAX"
  "fst (set_writethrough_threshold env value) \<noteq> MDBX_SUCCESS \<Longrightarrow> snd (set_writethrough_threshold env value) = env"
  using mod_fits[of "value"] by (auto simp: set_writethrough_threshold_def value_or_def Let_def split: if_splits)

lemma set_option_accepts:
  assumes "mdbx_env_set_option os g env option value = (rc, env')"
  shows "rc = MDBX_SUCCESS \<or> env' \<noteq> env \<Longrightarrow> option_in_range option value"
proof (cases "option = MDBX_opt_writethrough_threshold")
  case True
  then show ?thesis if "rc = MDBX_SUCCESS \<or> env' \<noteq> env"
    using assms that writethrough_range[of env "value"]
    by (auto simp: option_in_range_def option_bounds_def mdbx_env_set_option_def split: if_splits)
next
  case False
  then show ?thesis if "rc = MDBX_SUCCESS \<or> env' \<noteq> env"
    using assms that by (cases option)
      (auto simp: option_in_range_def option_bounds_def mdbx_env_set_option_def set_defs value_or_def Let_def not_less not_le split: if_splits)
qed

lemma set_option_allowed:
  assumes "mdbx_env_set_option os g env option value = (rc, env')" "env' \<noteq> env"
  shows "option_allowed os env option"
  using assms by (cases option)
    (auto simp: option_allowed_def mdbx_env_set_option_def set_defs Let_def upd_lck_def split: if_splits)



end
