(* ===== verification/Geometry_Ops.thy ===== *)
theory Geometry_Ops
  imports Geometry Options_Ops
begin

text \<open>
  What \<^verbatim>\<open>mdbx_env_set_geometry\<close> guarantees. Each stage of the derivation has its invariant: \<open>geo_checked\<close> after
  the checks, \<open>geo_aligned\<close> after the alignment, \<open>geo_derived\<close> at the end; together they give the assertions the
  code makes before it returns. The last lemma is a request on an open database that fails one of them.
\<close>

subsection \<open>Units\<close>

text \<open>
  What the code asserts of the process-wide values when the library starts: powers of two, the page of the system at
  most 64K, the granularity at most 4M, and an address space between 1G and the largest map.
\<close>

definition globals_ok :: "globals \<Rightarrow> bool" where
  "globals_ok g \<longleftrightarrow> is_powerof2 (sys_pagesize g) \<and> 0 < sys_pagesize g \<and> sys_pagesize g \<le> 2 ^ 16 \<and>
     is_powerof2 (sys_allocation_granularity g) \<and> sys_pagesize g \<le> sys_allocation_granularity g \<and>
     sys_allocation_granularity g \<le> 2 ^ 22 \<and> 2 ^ 30 \<le> mmap_limit g \<and> mmap_limit g \<le> MAX_MAPSIZE \<and>
     reasonable_db_maxsize g \<le> mmap_limit g"

lemma pow_dvd_of_le: "(2 :: nat) ^ a \<le> 2 ^ b \<Longrightarrow> (2 :: nat) ^ a dvd 2 ^ b"
  by (meson le_imp_power_dvd one_less_numeral_iff power_le_imp_le_exp semiring_norm(76))

lemma powerof2_dvd:
  assumes "is_powerof2 a" "0 < a" "is_powerof2 b" "a \<le> b"
  shows "a dvd b"
proof -
  obtain i where "a = 2 ^ i" using is_powerof2_pow[OF assms(2,1)] by blast
  moreover obtain j where "b = 2 ^ j" using is_powerof2_pow[of b] assms by auto
  ultimately show ?thesis using assms(4) pow_dvd_of_le by simp
qed

text \<open>A page size the code accepts.\<close>

lemma pagesize_accepted:
  assumes "\<not> bad_geo_pagesize pagesize"
  defines "ps \<equiv> nat pagesize"
  shows "pagesize = int ps" "256 \<le> ps" "ps \<le> 2 ^ 16" "is_powerof2 ps"
  using assms by (auto simp: bad_geo_pagesize_def size_defs)

lemma globals_okD:
  assumes "globals_ok g"
  shows "is_powerof2 (sys_pagesize g)" "0 < sys_pagesize g" "sys_pagesize g \<le> 2 ^ 16"
    "is_powerof2 (sys_allocation_granularity g)" "sys_pagesize g \<le> sys_allocation_granularity g"
    "sys_allocation_granularity g \<le> 2 ^ 22" "2 ^ 30 \<le> mmap_limit g" "mmap_limit g \<le> MAX_MAPSIZE"
    "reasonable_db_maxsize g \<le> mmap_limit g"
  using assms by (simp_all add: globals_ok_def)

lemma unit_ps_ok:
  assumes "globals_ok g" "256 \<le> ps" "ps \<le> 2 ^ 16" "is_powerof2 ps"
  shows "is_powerof2 (unit_ps g (int ps))" "256 \<le> unit_ps g (int ps)" "unit_ps g (int ps) \<le> 2 ^ 16"
    "ps dvd unit_ps g (int ps)" "sys_pagesize g dvd unit_ps g (int ps)"
  using globals_okD[OF assms(1)] assms(2-4) by (auto simp: unit_ps_def intro: powerof2_dvd)

lemma unit_ag_ok:
  assumes "globals_ok g" "256 \<le> ps" "ps \<le> 2 ^ 16" "is_powerof2 ps"
  shows "is_powerof2 (unit_ag g (int ps) step)" "unit_ps g (int ps) \<le> unit_ag g (int ps) step"
    "unit_ag g (int ps) step \<le> 2 ^ 22" "unit_ps g (int ps) dvd unit_ag g (int ps) step"
  using globals_okD[OF assms(1)] unit_ps_ok[OF assms] by (auto simp: unit_ag_def intro: powerof2_dvd)

lemma ceil_powerof2_mono:
  assumes "0 < u" "u dvd w" "v \<le> w" "a \<le> v"
  shows "ceil_powerof2 a u \<le> w"
proof -
  obtain k l where kl: "ceil_powerof2 a u = u * k" "w = u * l"
    using ceil_powerof2_bounds(3)[OF assms(1), of a] assms(2) unfolding dvd_def by blast
  have "u * k < u * (l + 1)" using ceil_powerof2_bounds(2)[OF assms(1), of a] assms(3,4) kl by simp
  then have "k < l + 1" by (simp only: mult_less_cancel1)
  then show ?thesis unfolding kl by (intro mult_le_mono) simp_all
qed

lemma u64_nat [simp]: "x < 2 ^ 64 \<Longrightarrow> u64 (int x) = x"
  by (simp add: u64_def nat_mod_as_int flip: of_nat_power)

lemma s64_small [simp]: "- (2 ^ 63) \<le> x \<Longrightarrow> x < 2 ^ 63 \<Longrightarrow> s64 x = x"
  by (simp add: s64_def)

lemma s64_range: "- (2 ^ 63) \<le> s64 x" "s64 x < 2 ^ 63"
  by (simp_all add: s64_def)

lemma s64_dvd:
  assumes "u dvd 2 ^ 63" "u dvd x"
  shows "u dvd s64 (x :: int)"
proof -
  have "u dvd 2 ^ 64" using assms(1) by (rule dvd_trans) (intro le_imp_power_dvd, simp)
  moreover have "u dvd x + 2 ^ 63" using assms by simp
  ultimately have "u dvd (x + 2 ^ 63) mod 2 ^ 64" by (simp add: dvd_mod)
  then show ?thesis unfolding s64_def using assms(1) by (rule dvd_diff)
qed

lemma ceil_param_small:
  assumes "0 \<le> x" "x \<le> 2 ^ 62" "0 < u" "u \<le> 2 ^ 22"
  shows "ceil_param x u = int (ceil_powerof2 (nat x) u)" "ceil_powerof2 (nat x) u < 2 ^ 63"
proof -
  have u: "u64 x = nat x" using u64_nat[of "nat x"] assms(1,2) by simp
  have "nat x \<le> 2 ^ 62" using assms(1,2) by (simp add: nat_le_iff)
  then show lt: "ceil_powerof2 (nat x) u < 2 ^ 63" using ceil_powerof2_bounds(2)[OF assms(3), of "nat x"] assms(4) by simp
  show "ceil_param x u = int (ceil_powerof2 (nat x) u)" unfolding ceil_param_def u using lt by simp
qed

lemma ceil_param_dvd:
  assumes "is_powerof2 u" "0 < u" "u \<le> 2 ^ 22" 
  shows "int u dvd ceil_param x u"
proof -
  have "u dvd 2 ^ 63" using assms(3) by (intro powerof2_dvd[OF assms(1,2)] pow_is_powerof2) simp
  then have "int u dvd 2 ^ 63" by (metis of_nat_dvd_iff of_nat_numeral of_nat_power)
  moreover have "int u dvd int (ceil_powerof2 (u64 x) u)" using ceil_powerof2_bounds(3)[OF assms(2)] by (simp only: of_nat_dvd_iff)
  ultimately show ?thesis unfolding ceil_param_def by (rule s64_dvd)
qed


subsection \<open>The checked sizes\<close>

text \<open>What holds between the checks and the alignment, \<open>aligned\<close> after it.\<close>

definition geo_checked :: "globals \<Rightarrow> nat \<Rightarrow> geo_params \<Rightarrow> bool" where
  "geo_checked g ps a \<longleftrightarrow> int MIN_MAPSIZE \<le> gp_lower a \<and> int (ps * MIN_PAGENO) \<le> gp_lower a \<and> gp_lower a \<le> gp_upper a \<and>
     gp_upper a \<le> int (mmap_limit g) \<and> gp_upper a div int ps \<le> int MAX_PAGENO + 1"

lemma geo_check_ok:
  assumes g: "globals_ok g" and ps: "gp_pagesize a = int ps" "256 \<le> ps" "ps \<le> 2 ^ 16" and r: "geo_check g a = Inr b"
    and range: "gp_upper a < 2 ^ 63"
  shows "geo_checked g ps b" "gp_pagesize b = int ps" "gp_grow b = gp_grow a" "gp_shrink b = gp_shrink a"
proof -
  define few where "few \<longleftrightarrow> u64 (gp_lower a) div ps < MIN_PAGENO"
  define lower where "lower = (if few then int ps * int MIN_PAGENO else gp_lower a)"
  have c: "int MIN_MAPSIZE \<le> gp_lower a" "gp_lower a \<le> gp_upper a" "\<not> (few \<and> gp_upper a < lower)"
    "u64 (gp_upper a) \<le> mmap_limit g" "u64 (gp_upper a) div ps \<le> MAX_PAGENO + 1"
    and b: "gp_lower b = lower" "gp_upper b = gp_upper a" "gp_pagesize b = gp_pagesize a" "gp_grow b = gp_grow a" "gp_shrink b = gp_shrink a"
    using r ps(1) by (auto simp: geo_check_def Let_def few_def lower_def split: if_splits)
  have pos: "0 < gp_lower a" using c(1) by (simp add: size_defs)
  then have u: "u64 (gp_lower a) = nat (gp_lower a)" "u64 (gp_upper a) = nat (gp_upper a)"
    using c(2) range u64_nat[of "nat (gp_lower a)"] u64_nat[of "nat (gp_upper a)"] by simp_all
  have "int (ps * MIN_PAGENO) \<le> lower"
  proof (cases few)
    case False
    then have "MIN_PAGENO \<le> nat (gp_lower a) div ps" by (simp add: few_def u)
    then have "ps * MIN_PAGENO \<le> nat (gp_lower a)" using ps(2) by (simp add: less_eq_div_iff_mult_less_eq mult.commute)
    then have "int (ps * MIN_PAGENO) \<le> gp_lower a" using pos by (subst (asm) le_nat_iff) simp_all
    then show ?thesis using False by (simp add: lower_def)
  qed (simp add: lower_def)
  moreover have "int MIN_MAPSIZE \<le> lower" using c(1) ps(2) by (simp add: lower_def size_defs)
  moreover have "lower \<le> gp_upper a" using c(2,3) by (auto simp: lower_def)
  moreover have "gp_upper a \<le> int (mmap_limit g)" using c(4) u(2) by linarith
  moreover have "gp_upper a div int ps \<le> int MAX_PAGENO + 1"
  proof -
    have "gp_upper a div int ps = int (nat (gp_upper a) div ps)" using pos c(2) by (simp add: zdiv_int)
    then show ?thesis using c(5) u(2) by simp
  qed
  ultimately show "geo_checked g ps b" by (simp add: geo_checked_def b)
  show "gp_pagesize b = int ps" "gp_grow b = gp_grow a" "gp_shrink b = gp_shrink a" by (simp_all add: b ps(1))
qed

subsection \<open>The aligned sizes\<close>

definition fit_inv :: "nat \<Rightarrow> nat \<Rightarrow> nat \<Rightarrow> nat \<Rightarrow> nat \<Rightarrow> bool" where
  "fit_inv ps unit_lo unit lower upper \<longleftrightarrow> MIN_MAPSIZE \<le> lower \<and> ps * MIN_PAGENO \<le> lower \<and> lower \<le> upper \<and>
     unit_lo dvd lower \<and> unit dvd upper"

lemma fit_upper_ok:
  assumes "fit_inv ps unit_lo unit lower upper" "unit_lo dvd unit" "0 < unit" "unit \<le> 2 ^ 22" "256 \<le> ps" "ps \<le> 2 ^ 16"
    "2 ^ 30 \<le> mmap_limit g" "fit_upper g ps unit lower upper = Some (l, u)"
  shows "fit_inv ps unit_lo unit l u \<and> u \<le> upper \<and> u \<le> mmap_limit g \<and> u div ps \<le> MAX_PAGENO + 1"
  using assms
proof (induction g ps unit lower upper rule: fit_upper.induct)
  case (1 g ps unit lower upper)
  show ?case
  proof (cases "mmap_limit g < upper \<or> MAX_PAGENO + 1 < upper div ps")
    case False
    then show ?thesis using "1.prems" by (subst (asm) fit_upper.simps) auto
  next
    case True
    let ?u = "upper - unit" and ?l = "if upper - unit < lower then upper - unit else lower"
    have big: "2 ^ 30 < upper"
    proof (rule ccontr)
      assume "\<not> 2 ^ 30 < upper"
      then have "upper div ps \<le> 2 ^ 30" by (meson div_le_dividend le_trans not_less)
      then show False using True \<open>\<not> 2 ^ 30 < upper\<close> "1.prems"(7) by (simp add: MAX_PAGENO_def)
    qed
    have g: "\<not> (upper < unit + MIN_MAPSIZE \<or> upper < ps * (MIN_PAGENO + 1) \<or> unit = 0)"
      and r: "fit_upper g ps unit ?l ?u = Some (l, u)"
      using "1.prems"(8)[unfolded fit_upper.simps[of g ps unit lower upper]] True by (auto simp: Let_def split: if_splits)
    have "fit_inv ps unit_lo unit ?l ?u"
    proof -
      have "ps * MIN_PAGENO \<le> 2 ^ 16 * 3" using "1.prems"(6) by (simp add: size_defs)
      then have "ps * MIN_PAGENO \<le> ?u" using big "1.prems"(4) by simp
      moreover have "unit dvd ?u" "unit_lo dvd ?u" using "1.prems"(1,2) by (auto simp: fit_inv_def intro: dvd_diff_nat dvd_trans)
      moreover have "MIN_MAPSIZE \<le> ?u" using g by linarith
      ultimately show ?thesis using "1.prems"(1) by (auto simp: fit_inv_def)
    qed
    from "1.IH"[OF True g refl refl this "1.prems"(2-7) r] show ?thesis
      by (meson diff_le_self le_trans)
  qed
qed


definition geo_aligned :: "globals \<Rightarrow> nat \<Rightarrow> geo_params \<Rightarrow> bool" where
  "geo_aligned g ps a \<longleftrightarrow> geo_checked g ps a \<and> int (unit_ps g (int ps)) dvd gp_lower a \<and>
     int (unit_ps g (int ps)) dvd gp_upper a \<and> int (unit_ps g (int ps)) dvd gp_now a \<and>
     gp_lower a \<le> gp_now a \<and> gp_now a \<le> gp_upper a"

lemma geo_align_ok:
  assumes g: "globals_ok g" and ps: "gp_pagesize a = int ps" "256 \<le> ps" "ps \<le> 2 ^ 16" "is_powerof2 ps"
    and c: "geo_checked g ps a" and r: "geo_align g a = Inr b"
  shows "geo_aligned g ps b" "gp_pagesize b = int ps" "gp_grow b = gp_grow a" "gp_shrink b = gp_shrink a"
proof -
  note unit_ps = unit_ps_ok[OF g ps(2-4)] and unit_ag = unit_ag_ok[OF g ps(2-4), where step = "gp_grow a"]
  let ?p = "unit_ps g (int ps)" and ?q = "unit_ag g (int ps) (gp_grow a)"
  have pq: "0 < ?p" "0 < ?q" "?p \<le> 2 ^ 22" "?q \<le> 2 ^ 22" using unit_ps(2,3) unit_ag(2,3) by linarith+
  have c': "int MIN_MAPSIZE \<le> gp_lower a" "int (ps * MIN_PAGENO) \<le> gp_lower a" "gp_lower a \<le> gp_upper a"
    "gp_upper a \<le> int (mmap_limit g)"
    using c by (simp_all add: geo_checked_def)
  have "int (mmap_limit g) \<le> 2 ^ 62" using globals_okD(8)[OF g] by (simp add: size_defs)
  then have range: "0 \<le> gp_lower a" "gp_lower a \<le> 2 ^ 62" "0 \<le> gp_upper a" "gp_upper a \<le> 2 ^ 62"
    using c' by (simp_all add: size_defs)
  define lo up where "lo = ceil_powerof2 (nat (gp_lower a)) ?p" and "up = ceil_powerof2 (nat (gp_upper a)) ?q"
  note lo = ceil_param_small[OF range(1,2) pq(1,3), folded lo_def] and up = ceil_param_small[OF range(3,4) pq(2,4), folded up_def]
  have u: "u64 (int lo) = lo" "u64 (int up) = up" using lo(2) up(2) by simp_all
  have up_dvd: "?p dvd up" using ceil_powerof2_bounds(3)[OF pq(2)] unit_ag(4) unfolding up_def by (rule dvd_trans[rotated])
  have "fit_inv ps ?p ?q lo up"
  proof -
    have "nat (gp_lower a) \<le> lo" "?p dvd lo" unfolding lo_def by (rule ceil_powerof2_bounds[OF pq(1)])+
    moreover have "nat (gp_upper a) \<le> up" "?q dvd up" unfolding up_def by (rule ceil_powerof2_bounds[OF pq(2)])+
    moreover have "lo \<le> up" unfolding lo_def
      using ceil_powerof2_mono[OF pq(1) up_dvd \<open>nat (gp_upper a) \<le> up\<close>] c'(3) by (simp add: nat_mono)
    moreover have "MIN_MAPSIZE \<le> nat (gp_lower a)" "ps * MIN_PAGENO \<le> nat (gp_lower a)" using c'(1,2) by (simp_all add: le_nat_iff range(1))
    ultimately show ?thesis by (simp add: fit_inv_def)
  qed
  moreover obtain l u where fit: "fit_upper g ps ?q lo up = Some (l, u)"
    using r by (auto simp: geo_align_def Let_def ps(1) lo(1) up(1) u split: option.splits)
  ultimately have f: "fit_inv ps ?p ?q l u" "u \<le> up" "u \<le> mmap_limit g" "u div ps \<le> MAX_PAGENO + 1"
    using fit_upper_ok[OF _ unit_ag(4) pq(2,4) ps(2,3) globals_okD(7)[OF g], of lo up l u] by simp_all
  have inv: "MIN_MAPSIZE \<le> l" "ps * MIN_PAGENO \<le> l" "l \<le> u" "?p dvd l" "?p dvd u"
    using f(1) unit_ag(4) by (auto simp: fit_inv_def intro: dvd_trans)
  have s: "s64 (int l) = int l" "s64 (int u) = int u" using inv(3) f(2) up(2) by simp_all
  define now where "now = ceil_param (gp_now a) ?q"
  define now' where "now' = (let n = (if now < int l then int l else now) in if int u < n then int u else n)"
  have b: "b = a\<lparr>gp_lower := int l, gp_now := now', gp_upper := int u\<rparr>"
    using r unfolding geo_align_def Let_def ps(1) lo(1) up(1) u nat_int fit option.case prod.case s now_def[symmetric]
    by (simp add: now'_def Let_def)
  have "int ?p dvd now" unfolding now_def
    using ceil_param_dvd[OF unit_ag(1) pq(2,4)] unit_ag(4) by (meson dvd_trans of_nat_dvd_iff)
  then have "int ?p dvd now'" using inv(4,5) by (auto simp: now'_def Let_def)
  moreover have "int l \<le> now'" "now' \<le> int u" using inv(3) by (auto simp: now'_def Let_def)
  moreover have "int u div int ps = int (u div ps)" by (simp add: zdiv_int)
  moreover have "int (ps * MIN_PAGENO) \<le> int l" using inv(2) by (simp only: of_nat_le_iff)
  ultimately show "geo_aligned g ps b" using inv f(3,4) by (simp add: geo_aligned_def geo_checked_def b)
  show "gp_pagesize b = int ps" "gp_grow b = gp_grow a" "gp_shrink b = gp_shrink a" by (simp_all add: b ps(1))
qed

subsection \<open>The whole derivation\<close>

text \<open>The parameters are in the range of their type.\<close>

definition intptr :: "int \<Rightarrow> bool" where "intptr x \<longleftrightarrow> - (2 ^ 63) \<le> x \<and> x < 2 ^ 63"

definition geo_params_ok :: "geo_params \<Rightarrow> bool" where
  "geo_params_ok a \<longleftrightarrow> intptr (gp_lower a) \<and> intptr (gp_now a) \<and> intptr (gp_upper a) \<and> intptr (gp_grow a) \<and>
     intptr (gp_shrink a) \<and> intptr (gp_pagesize a)"

lemma reasonable_size_range: "globals_ok g \<Longrightarrow> reasonable_size g (int ps) < 2 ^ 63" if "0 < ps" "ps \<le> 2 ^ 16"
  using that by (auto simp: reasonable_size_def Let_def globals_ok_def size_defs)

lemma geo_size_upper_range:
  assumes g: "globals_ok g" and a: "intptr (gp_upper a)" "size_now < 2 ^ 63"
    and ps: "gp_pagesize a = int ps" "0 < ps" "ps \<le> 2 ^ 16"
  shows "geo_size_upper g a size_lower size_now < 2 ^ 63"
proof -
  have m: "mmap_limit g < 2 ^ 62" "reasonable_db_maxsize g < 2 ^ 62" using g by (simp_all add: globals_ok_def size_defs)
  have cut: "geo_cut_upper g (int ps) x < 2 ^ 63" if "x < 2 ^ 63" for x
    using that m(1) ps(2,3) by (auto simp: geo_cut_upper_def Let_def size_defs)
  show ?thesis unfolding geo_size_upper_def Let_def ps(1)
    using cut a m s64_range(2) by (auto simp: intptr_def ceil_param_def size_defs INTPTR_MAX_def split: if_splits)
qed

lemma geo_steps_fields:
  "gp_lower (geo_steps d u a) = gp_lower a" "gp_now (geo_steps d u a) = gp_now a" "gp_upper (geo_steps d u a) = gp_upper a"
  "gp_pagesize (geo_steps d u a) = gp_pagesize a"
  by (simp_all add: geo_steps_def Let_def)

lemma geo_steps_dvd:
  assumes "is_powerof2 u" "0 < u" "u \<le> 2 ^ 22"
  shows "int u dvd gp_grow (geo_steps d u a)" "int u dvd gp_shrink (geo_steps d u a)"
  unfolding geo_steps_def Let_def by (simp_all add: ceil_param_dvd[OF assms])

definition geo_derived :: "globals \<Rightarrow> nat \<Rightarrow> geo_params \<Rightarrow> bool" where
  "geo_derived g ps a \<longleftrightarrow> geo_aligned g ps a \<and> gp_pagesize a = int ps \<and> 256 \<le> ps \<and> ps \<le> 2 ^ 16 \<and> is_powerof2 ps \<and>
     int (unit_ps g (int ps)) dvd gp_grow a \<and> int (unit_ps g (int ps)) dvd gp_shrink a"

lemma geo_derive_ok:
  assumes g: "globals_ok g" and a: "geo_params_ok a" and r: "geo_derive g a = Inr c"
  shows "geo_derived g (nat (gp_pagesize a)) c"
proof -
  have ok: "\<not> bad_geo_pagesize (gp_pagesize a)" using r by (auto simp: geo_derive_def)
  define ps where "ps = nat (gp_pagesize a)"
  note ps = pagesize_accepted[OF ok, folded ps_def]
  define now where "now = geo_size_now g a"
  define a' where "a' = a\<lparr>gp_lower := geo_size_lower g a, gp_now := now, gp_upper := geo_size_upper g a (geo_size_lower g a) now\<rparr>"
  obtain b d where b: "geo_check g a' = Inr b" and d: "geo_align g b = Inr d"
    and c: "c = geo_steps (gp_lower a < 0) (unit_ag g (gp_pagesize a) (gp_grow a)) d"
    using r ok by (auto simp: geo_derive_def Let_def a'_def now_def split: sum.splits)
  have "now < 2 ^ 63" using a reasonable_size_range[OF _ _ g, of ps] ps
    by (auto simp: now_def geo_size_now_def geo_params_ok_def intptr_def split: if_splits)
  then have "geo_size_upper g a (geo_size_lower g a) now < 2 ^ 63"
    using a ps by (intro geo_size_upper_range[OF g _ _ ps(1)]) (auto simp: geo_params_ok_def)
  then have range: "gp_upper a' < 2 ^ 63" by (simp add: a'_def)
  have "gp_pagesize a' = int ps" using ps(1) by (simp add: a'_def)
  note ck = geo_check_ok[OF g this ps(2,3) b range]
  note al = geo_align_ok[OF g ck(2) ps(2,3,4) ck(1) d]
  note unit_ps = unit_ps_ok[OF g ps(2-4)] and unit_ag = unit_ag_ok[OF g ps(2-4), where step = "gp_grow a"]
  have "0 < unit_ag g (int ps) (gp_grow a)" using unit_ps(2) unit_ag(2) by linarith
  note st = geo_steps_dvd[OF unit_ag(1) this unit_ag(3), of "gp_lower a < 0" d]
  have "int (unit_ps g (int ps)) dvd gp_grow c" "int (unit_ps g (int ps)) dvd gp_shrink c"
    using st unit_ag(4) unfolding c ps(1) by (meson dvd_trans of_nat_dvd_iff)+
  moreover have "geo_aligned g ps c" using al(1) by (simp add: c geo_aligned_def geo_checked_def geo_steps_fields)
  ultimately show ?thesis unfolding ps_def[symmetric] using al(2) ps by (simp add: geo_derived_def c geo_steps_fields)
qed


subsection \<open>The geometry of an environment\<close>

lemma step_bytes_dvd:
  assumes ps: "env_ps env = 2 ^ env_ps2ln env" "8 \<le> env_ps2ln env" "env_ps2ln env \<le> 16" and g: "globals_ok g"
    and st: "int (unit_ps g (int (env_ps env))) dvd step"
  shows "env_ps env dvd step_bytes env step" "sys_pagesize g dvd step_bytes env step"
proof -
  define k where "k = env_ps2ln env"
  have k: "env_ps env = 2 ^ k" "8 \<le> k" "k \<le> 16" using ps by (simp_all add: k_def)
  have ps': "256 \<le> env_ps env" "env_ps env \<le> 2 ^ 16" "is_powerof2 (env_ps env)"
    using power_increasing[OF k(2), of "2 :: nat"] power_increasing[OF k(3), of "2 :: nat"] unfolding k(1) by simp_all
  obtain u where u: "unit_ps g (int (env_ps env)) = 2 ^ u" using is_powerof2_pow[of "unit_ps g (int (env_ps env))"] unit_ps_ok(1,2)[OF g ps'] by auto
  have "(2 :: nat) ^ u \<le> 2 ^ 16" using unit_ps_ok(3)[OF g ps'] u by simp
  then have u16: "u \<le> 16" by (rule power_le_imp_le_exp[rotated]) simp
  have ku: "k \<le> u" using unit_ps_ok(4)[OF g ps'] u unfolding k(1) by (metis dvd_imp_le one_less_numeral_iff power_le_imp_le_exp semiring_norm(76) zero_less_numeral zero_less_power)
  define pages where "pages = bytes2pgno env (u64 step)"
  have "2 ^ u dvd u64 step"
  proof -
    have "(2 :: int) ^ u dvd step" using st unfolding u by simp
    moreover have "(2 :: int) ^ u dvd 2 ^ 64" using u16 by (intro le_imp_power_dvd) simp
    ultimately have "(2 :: int) ^ u dvd step mod 2 ^ 64" by (rule dvd_mod)
    then have "int (2 ^ u) dvd int (u64 step)" by (simp add: u64_def)
    then show ?thesis by (simp only: of_nat_dvd_iff)
  qed
  then obtain n where n: "u64 step = 2 ^ u * n" by (auto elim: dvdE)
  have "u64 step div 2 ^ k = 2 ^ (u - k) * n"
  proof -
    have "(2 :: nat) ^ u = 2 ^ k * 2 ^ (u - k)" using ku by (simp flip: power_add)
    then show ?thesis unfolding n by (simp only: mult.assoc) simp
  qed
  moreover have "(2 :: nat) ^ (u - k) dvd 2 ^ 32" using u16 by (intro le_imp_power_dvd) simp
  ultimately have "2 ^ (u - k) dvd pages" by (simp add: pages_def bytes2pgno_def drop_bit_eq_div k_def dvd_mod)
  then have "2 ^ (u - k) dvd pv2pages (pages2pv pages)" using u16 k(2) by (intro pages2pv_dvd) simp_all
  then have "2 ^ k * 2 ^ (u - k) dvd push_bit k (pv2pages (pages2pv pages))"
    by (simp add: push_bit_eq_mult mult.commute mult_dvd_mono)
  then have "2 ^ u dvd push_bit k (pv2pages (pages2pv pages))" using ku by (simp flip: power_add)
  moreover have "(2 :: nat) ^ u dvd 2 ^ 64" using u16 by (intro le_imp_power_dvd) simp
  ultimately have d: "2 ^ u dvd step_bytes env step"
    unfolding step_bytes_def pages_def[symmetric] pgno2bytes_def k_def[symmetric] by (rule dvd_mod)
  show "env_ps env dvd step_bytes env step" "sys_pagesize g dvd step_bytes env step"
    using unit_ps_ok(4,5)[OF g ps'] d unfolding u by (blast intro: dvd_trans)+
qed

lemma adjust_defaults_geo:
  "env_geo (env_options_adjust_defaults os g env) = env_geo env"
  by (simp add: env_options_adjust_defaults_def Let_def env_options_adjust_dp_limit_def upd_options_def)

text \<open>The environment after its page size is set.\<close>

definition geo_env :: "os_answers \<Rightarrow> globals \<Rightarrow> env \<Rightarrow> nat \<Rightarrow> env" where
  "geo_env os g env ps = (if int ps \<noteq> int (env_ps env) then env_setup_pagesize os g env ps else env)"

lemma setup_pagesize_ln:
  assumes "256 \<le> ps" "ps \<le> 2 ^ 16" "is_powerof2 ps"
  shows "env_ps (env_setup_pagesize os g env ps) = ps" "ps = 2 ^ env_ps2ln (env_setup_pagesize os g env ps)"
    "8 \<le> env_ps2ln (env_setup_pagesize os g env ps)" "env_ps2ln (env_setup_pagesize os g env ps) \<le> 16"
proof -
  obtain k where k: "ps = 2 ^ k" using is_powerof2_pow[of ps] assms by auto
  have "(2 :: nat) ^ 8 \<le> 2 ^ k" "(2 :: nat) ^ k \<le> 2 ^ 16" using assms(1,2) by (simp_all add: k)
  then have k8: "8 \<le> k" "k \<le> 16" by (meson one_less_numeral_iff power_le_imp_le_exp semiring_norm(76))+
  have ln: "log2n_powerof2 ps mod 2 ^ 8 = k" using k8 by (simp add: k log2n_powerof2_pow)
  have "env_ps (env_setup_pagesize os g env ps) = ps" "env_ps2ln (env_setup_pagesize os g env ps) = k"
    unfolding env_setup_pagesize_def Let_def ln
    by (simp_all add: env_options_adjust_dp_limit_def upd_options_def Let_def recalculate_subpage_thresholds_def
        recalculate_merge_thresholds_def)
  then show "env_ps (env_setup_pagesize os g env ps) = ps" "ps = 2 ^ env_ps2ln (env_setup_pagesize os g env ps)"
    "8 \<le> env_ps2ln (env_setup_pagesize os g env ps)" "env_ps2ln (env_setup_pagesize os g env ps) \<le> 16"
    using k k8 by simp_all
qed


lemma geo_derived_ensured:
  assumes g: "globals_ok g" and c: "geo_derived g ps c" and e: "env_ps env = ps" "ps = 2 ^ env_ps2ln env" "8 \<le> env_ps2ln env" "env_ps2ln env \<le> 16"
  shows "geo_ensured g ps \<lparr>gib_lower = u64 (gp_lower c), gib_upper = u64 (gp_upper c), gib_now = u64 (gp_now c),
    gib_grow = step_bytes env (gp_grow c), gib_shrink = step_bytes env (gp_shrink c)\<rparr>"
proof -
  have d: "geo_aligned g ps c" "256 \<le> ps" "ps \<le> 2 ^ 16" "is_powerof2 ps" "int (unit_ps g (int ps)) dvd gp_grow c"
    "int (unit_ps g (int ps)) dvd gp_shrink c" using c by (simp_all add: geo_derived_def)
  have a: "int MIN_MAPSIZE \<le> gp_lower c" "int (ps * MIN_PAGENO) \<le> gp_lower c" "gp_upper c \<le> int (mmap_limit g)"
    "gp_upper c div int ps \<le> int MAX_PAGENO + 1" "int (unit_ps g (int ps)) dvd gp_lower c" "int (unit_ps g (int ps)) dvd gp_upper c"
    "int (unit_ps g (int ps)) dvd gp_now c" "gp_lower c \<le> gp_now c" "gp_now c \<le> gp_upper c"
    using d(1) by (simp_all add: geo_aligned_def geo_checked_def)
  have pos: "0 \<le> gp_lower c" using a(1) by linarith
  obtain l n u where lnu: "gp_lower c = int l" "gp_now c = int n" "gp_upper c = int u"
    using pos a(8,9) by (metis nonneg_int_cases order_trans)
  have u47: "u \<le> 2 ^ 47" using a(3) globals_okD(8)[OF g] by (simp add: lnu size_defs)
  then have u: "u64 (gp_lower c) = l" "u64 (gp_now c) = n" "u64 (gp_upper c) = u" using a(8,9) by (simp_all add: lnu)
  note up = unit_ps_ok[OF g d(2-4)]
  have dv: "ps dvd x \<and> sys_pagesize g dvd x" if "unit_ps g (int ps) dvd x" for x using that up(4,5) by (blast intro: dvd_trans)
  have "ps dvd l" "sys_pagesize g dvd l" "ps dvd n" "sys_pagesize g dvd n" "ps dvd u" "sys_pagesize g dvd u"
    using dv[of l] dv[of n] dv[of u] a(5-7) by (simp_all add: lnu)
  moreover have "env_ps env = 2 ^ env_ps2ln env" using e by simp
  note st = step_bytes_dvd[OF this e(3,4) g, unfolded e(1)]
  have "MIN_PAGENO \<le> l div ps"
    using a(2) d(2) unfolding lnu of_nat_le_iff by (simp add: less_eq_div_iff_mult_less_eq mult.commute)
  moreover have "u div ps \<le> MAX_PAGENO + 1" using a(4) by (simp add: lnu flip: zdiv_int of_nat_Suc)
  ultimately show ?thesis
    using a(1,3,8,9) st[OF d(5)] st[OF d(6)] globals_okD(8)[OF g] lnu
    unfolding geo_ensured_def geo_in_bytes.simps u mod_eq_0_iff_dvd by simp
qed

text \<open>
  C34. Setting the geometry before the database is opened never trips one of the sixteen assertions at its end,
  whatever numbers and automatic values the caller passes: a refused request leaves the environment unchanged, and
  an accepted one gives sizes that are ordered, aligned to the page of the database and of the system, and inside the
  limits on the map and on the number of pages.
\<close>

theorem set_geometry_total:
  assumes "globals_ok g" "geo_params_ok a" "env_ps env = 2 ^ env_ps2ln env" "8 \<le> env_ps2ln env" "env_ps2ln env \<le> 16"
  shows "\<exists>rc env'. set_geometry_unmapped os g env a = Some (rc, env') \<and>
    (if rc = MDBX_SUCCESS then geo_ensured g (env_ps env') (env_geo env') else env' = env)"
proof (cases "env_txn env")
  case False
  let ?a = "a\<lparr>gp_pagesize := choose_pagesize g a\<rparr>"
  show ?thesis
  proof (cases "geo_derive g ?a")
    case (Inl rc)
    have "rc \<noteq> MDBX_SUCCESS"
      using Inl by (auto simp: geo_derive_def geo_check_def geo_align_def Let_def split: if_splits sum.splits option.splits)
    then show ?thesis using Inl False by (simp add: set_geometry_unmapped_def)
  next
    case (Inr c)
    have ok: "\<not> bad_geo_pagesize (gp_pagesize ?a)" using Inr by (auto simp: geo_derive_def)
    define ps where "ps = nat (gp_pagesize ?a)"
    note ps = pagesize_accepted[OF ok, folded ps_def]
    have "geo_params_ok ?a" using assms(2) ps by (auto simp: geo_params_ok_def intptr_def)
    then have d: "geo_derived g ps c" using geo_derive_ok[OF assms(1) _ Inr] by (simp only: ps_def)
    then have cps: "gp_pagesize c = int ps" by (simp add: geo_derived_def)
    define e where "e = (if int ps \<noteq> int (env_ps env) then env_setup_pagesize os g env ps else env)"
    have e: "env_ps e = ps" "ps = 2 ^ env_ps2ln e" "8 \<le> env_ps2ln e" "env_ps2ln e \<le> 16"
      using assms(3-5) setup_pagesize_ln[OF ps(2-4), of os g env] by (auto simp: e_def)
    let ?b = "\<lparr>gib_lower = u64 (gp_lower c), gib_upper = u64 (gp_upper c), gib_now = u64 (gp_now c),
      gib_grow = step_bytes e (gp_grow c), gib_shrink = step_bytes e (gp_shrink c)\<rparr>"
    have en: "geo_ensured g ps ?b" by (rule geo_derived_ensured[OF assms(1) d e])
    let ?e' = "env_options_adjust_defaults os g (e\<lparr>env_geo := ?b\<rparr>)"
    have "env_ps ?e' = ps"
      using e(1) by (simp add: env_options_adjust_defaults_def Let_def env_options_adjust_dp_limit_def upd_options_def)
    moreover have "set_geometry_unmapped os g env a = Some (MDBX_SUCCESS, ?e')"
      unfolding set_geometry_unmapped_def Let_def Inr sum.case cps nat_int e_def[symmetric]
      using False en by (simp add: adjust_defaults_geo)
    ultimately show ?thesis using en by (intro exI[of _ MDBX_SUCCESS] exI[of _ ?e']) (simp add: adjust_defaults_geo)
  qed
qed (simp add: set_geometry_unmapped_def)

definition sample_geo_params :: geo_params where
  "sample_geo_params = \<lparr>gp_lower = -1, gp_now = 1000000, gp_upper = 2 ^ 40 + 1, gp_grow = 12345, gp_shrink = -1, gp_pagesize = 4096\<rparr>"

theorem set_geometry_total_witness:
  "\<exists>rc env'. set_geometry_unmapped sample_os sample_globals sample_env sample_geo_params = Some (rc, env') \<and>
    (if rc = MDBX_SUCCESS then geo_ensured sample_globals (env_ps env') (env_geo env') else env' = sample_env)"
proof (rule set_geometry_total)
  have "is_powerof2 4096" using pow_is_powerof2[of 12] by simp
  then show "globals_ok sample_globals" by (simp add: globals_ok_def sample_globals_def size_defs)
  show "geo_params_ok sample_geo_params" by (simp add: geo_params_ok_def intptr_def sample_geo_params_def)
qed (simp_all add: sample_env_def)

text \<open>
  On an open database the maximal size, \<^verbatim>\<open>INTPTR_MAX\<close>, passes the check against the used pages and is only then
  replaced by the suggested size: on a database that uses more, the assertion that the used pages fit fails.
\<close>

definition sample_geo :: geo where
  "sample_geo = \<lparr>geo_grow_pv = 0, geo_shrink_pv = 0, geo_lower = 16, geo_upper = 2 ^ 21, geo_now = 2 ^ 20, geo_first_unallocated = 2 ^ 20\<rparr>"

definition maximal_size :: geo_params where
  "maximal_size = \<lparr>gp_lower = -1, gp_now = -1, gp_upper = INTPTR_MAX, gp_grow = -1, gp_shrink = -1, gp_pagesize = -1\<rparr>"

lemma set_geometry_maximal_fails:
  "set_geometry_mapped (sample_globals\<lparr>reasonable_db_maxsize := 2 ^ 30\<rparr>) sample_env sample_geo (2 ^ 20) maximal_size = None"
proof -
  let ?g = "sample_globals\<lparr>reasonable_db_maxsize := 2 ^ 30\<rparr>"
  have p: "geo_mapped_params ?g sample_env sample_geo (2 ^ 20) maximal_size =
    Inr \<lparr>gp_lower = 65536, gp_now = 2 ^ 32, gp_upper = INTPTR_MAX, gp_grow = 0, gp_shrink = 0, gp_pagesize = 4096\<rparr>"
    by (simp add: geo_mapped_params_def maximal_size_def sample_geo_def sample_globals_def sample_env_def Let_def INT_MAX_def
        MDBX_ROUNDING_TO_ALLOCATION_GRANULARITY_def pgno2bytes_def pgno_ceil2os_bytes_def sys_unit_def ceil_powerof2_def
        floor_powerof2_def push_bit_eq_mult u64_def INTPTR_MAX_def pv2pages_def)
  have ps: "\<not> bad_geo_pagesize 4096" using pow_is_powerof2[of 12] by (simp add: bad_geo_pagesize_def size_defs)
  have d: "geo_derive ?g \<lparr>gp_lower = 65536, gp_now = 2 ^ 32, gp_upper = INTPTR_MAX, gp_grow = 0, gp_shrink = 0, gp_pagesize = 4096\<rparr> =
    Inr \<lparr>gp_lower = 65536, gp_now = 2 ^ 30, gp_upper = 2 ^ 30, gp_grow = 0, gp_shrink = 0, gp_pagesize = 4096\<rparr>"
    using ps by (simp add: geo_derive_def Let_def geo_size_lower_def geo_size_now_def geo_size_upper_def geo_cut_upper_def
        INTPTR_MAX_def sample_globals_def u64_def size_defs geo_check_def geo_align_def ceil_param_def s64_def
        ceil_powerof2_def floor_powerof2_def unit_ps_def unit_ag_def fit_upper.simps geo_steps_def)
  have w: "\<not> has_flag (env_flags sample_env) MDBX_RDONLY"
    by (simp add: sample_env_def has_flag_def MDBX_RDONLY_def ENV_ACTIVE_def)
  show ?thesis unfolding set_geometry_mapped_def if_not_P[OF w] p sum.case d Let_def
    by (simp add: new_geo_def new_geo_ensured_def sample_geo_def u64_def bytes2pgno_def sample_env_def drop_bit_eq_div)
qed

end
