(* ===== verification/Meta_Choice.thy ===== *)
theory Meta_Choice
  imports Meta
begin

text \<open>
  The table \<^verbatim>\<open>troika_fsm_map\<close> is what \<^verbatim>\<open>meta_cmp2pack\<close> computes (all 216 entries, by evaluation), and what
  the choice read from it means: the head is maximal in the order "newer", the fallback is maximal in the
  order "steadier", the tail is neither. The two orders are instances of one locale, \<open>ranking\<close>, in
  which choosing the best of three and re-choosing after one of them has changed are proved once.
\<close>

unbundle bit_operations_syntax

subsection \<open>The table\<close>

lemmas fsm_defs = fsm_check_def Let_def fsm_s_def fsm_c01_def fsm_c02_def fsm_c12_def meta_cmp2pack_def
  meta_cmp2recent_def meta_cmp2steady_def meta_troika_unpack_def TROIKA_TAIL_def TROIKA_STRICT_VALID_def
  TROIKA_VALID_def troika_fsm_map_def

text \<open>One lemma for each combination of the comparisons \<open>c02\<close> and \<open>c12\<close>: 24 entries of the table.\<close>

lemma fsm_check_0: "list_all fsm_check [0, 1, 2, 3, 4, 5, 6, 7, 8, 9, 10, 11, 12, 13, 14, 15, 16, 17, 18, 19, 20, 21, 22, 23]"
  by (simp only: list.pred_inject simp_thms; intro conjI; simp add: fsm_defs)

lemma fsm_check_1: "list_all fsm_check [24, 25, 26, 27, 28, 29, 30, 31, 32, 33, 34, 35, 36, 37, 38, 39, 40, 41, 42, 43, 44, 45, 46, 47]"
  by (simp only: list.pred_inject simp_thms; intro conjI; simp add: fsm_defs)

lemma fsm_check_2: "list_all fsm_check [48, 49, 50, 51, 52, 53, 54, 55, 56, 57, 58, 59, 60, 61, 62, 63, 64, 65, 66, 67, 68, 69, 70, 71]"
  by (simp only: list.pred_inject simp_thms; intro conjI; simp add: fsm_defs)

lemma fsm_check_3: "list_all fsm_check [72, 73, 74, 75, 76, 77, 78, 79, 80, 81, 82, 83, 84, 85, 86, 87, 88, 89, 90, 91, 92, 93, 94, 95]"
  by (simp only: list.pred_inject simp_thms; intro conjI; simp add: fsm_defs)

lemma fsm_check_4: "list_all fsm_check [96, 97, 98, 99, 100, 101, 102, 103, 104, 105, 106, 107, 108, 109, 110, 111, 112, 113, 114, 115, 116, 117, 118, 119]"
  by (simp only: list.pred_inject simp_thms; intro conjI; simp add: fsm_defs)

lemma fsm_check_5: "list_all fsm_check [120, 121, 122, 123, 124, 125, 126, 127, 128, 129, 130, 131, 132, 133, 134, 135, 136, 137, 138, 139, 140, 141, 142, 143]"
  by (simp only: list.pred_inject simp_thms; intro conjI; simp add: fsm_defs)

lemma fsm_check_6: "list_all fsm_check [144, 145, 146, 147, 148, 149, 150, 151, 152, 153, 154, 155, 156, 157, 158, 159, 160, 161, 162, 163, 164, 165, 166, 167]"
  by (simp only: list.pred_inject simp_thms; intro conjI; simp add: fsm_defs)

lemma fsm_check_7: "list_all fsm_check [168, 169, 170, 171, 172, 173, 174, 175, 176, 177, 178, 179, 180, 181, 182, 183, 184, 185, 186, 187, 188, 189, 190, 191]"
  by (simp only: list.pred_inject simp_thms; intro conjI; simp add: fsm_defs)

lemma fsm_check_8: "list_all fsm_check [192, 193, 194, 195, 196, 197, 198, 199, 200, 201, 202, 203, 204, 205, 206, 207, 208, 209, 210, 211, 212, 213, 214, 215]"
  by (simp only: list.pred_inject simp_thms; intro conjI; simp add: fsm_defs)

lemma upt_216: "[0 ..< 216] = [0, 1, 2, 3, 4, 5, 6, 7, 8, 9, 10, 11, 12, 13, 14, 15, 16, 17, 18, 19, 20, 21, 22, 23] @
    [24, 25, 26, 27, 28, 29, 30, 31, 32, 33, 34, 35, 36, 37, 38, 39, 40, 41, 42, 43, 44, 45, 46, 47] @
    [48, 49, 50, 51, 52, 53, 54, 55, 56, 57, 58, 59, 60, 61, 62, 63, 64, 65, 66, 67, 68, 69, 70, 71] @
    [72, 73, 74, 75, 76, 77, 78, 79, 80, 81, 82, 83, 84, 85, 86, 87, 88, 89, 90, 91, 92, 93, 94, 95] @
    [96, 97, 98, 99, 100, 101, 102, 103, 104, 105, 106, 107, 108, 109, 110, 111, 112, 113, 114, 115, 116, 117, 118, 119] @
    [120, 121, 122, 123, 124, 125, 126, 127, 128, 129, 130, 131, 132, 133, 134, 135, 136, 137, 138, 139, 140, 141, 142, 143] @
    [144, 145, 146, 147, 148, 149, 150, 151, 152, 153, 154, 155, 156, 157, 158, 159, 160, 161, 162, 163, 164, 165, 166, 167] @
    [168, 169, 170, 171, 172, 173, 174, 175, 176, 177, 178, 179, 180, 181, 182, 183, 184, 185, 186, 187, 188, 189, 190, 191] @
    [192, 193, 194, 195, 196, 197, 198, 199, 200, 201, 202, 203, 204, 205, 206, 207, 208, 209, 210, 211, 212, 213, 214, 215]"
  by (simp add: upt_rec)

lemma fsm_check_all: "i < 216 \<Longrightarrow> fsm_check i"
proof -
  assume i: "i < 216"
  have "list_all fsm_check [0 ..< 216]"
    unfolding upt_216 list_all_append
    using fsm_check_0 fsm_check_1 fsm_check_2 fsm_check_3 fsm_check_4 fsm_check_5 fsm_check_6 fsm_check_7 fsm_check_8
    by (intro conjI)
  then show ?thesis using i by (simp only: list_all_iff set_upt) simp
qed

text \<open>
  C9. The self-check \<^verbatim>\<open>troika_verify_fsm\<close> of the library succeeds: every one of the 216 bytes of
  \<^verbatim>\<open>troika_fsm_map\<close> is what \<^verbatim>\<open>meta_cmp2pack\<close> computes for its index, and unpacks to the head, fallback, tail and
  validity computed directly.
\<close>

theorem troika_fsm_verified: "troika_verify_fsm"
proof -
  have "fold (\<lambda>i ok. if fsm_check i then ok else False) xs True" if "\<forall>i\<in>set xs. i < 216" for xs
    using that by (induction xs) (simp_all add: fsm_check_all)
  then show ?thesis unfolding troika_verify_fsm_def by simp
qed


subsection \<open>The index\<close>

lemma meta_cmp2int_scale: "meta_cmp2int a b s = meta_cmp2int a b 1 * s" "meta_cmp2int a b 1 < 3"
  by (simp_all add: meta_cmp2int_def)

lemma fsm_index_eq:
  "fsm_index m0 m1 m2 = (if snd m0 then 1 else 0) + 2 * (if snd m1 then 1 else 0) + 4 * (if snd m2 then 1 else 0) +
     8 * (meta_cmp2int (fst m0) (fst m1) 1 + 3 * meta_cmp2int (fst m0) (fst m2) 1 + 9 * meta_cmp2int (fst m1) (fst m2) 1)"
  unfolding fsm_index_def meta_cmp2int_scale(1)[of _ _ 8] meta_cmp2int_scale(1)[of _ _ "8 * 3"]
    meta_cmp2int_scale(1)[of _ _ "8 * 3 * 3"] push_bit_eq_mult by simp

lemma index_decode:
  fixes a b c :: bool and x y z :: nat
  assumes "x < 3" "y < 3" "z < 3"
  defines "i \<equiv> (if a then 1 else 0) + 2 * (if b then 1 else 0) + 4 * (if c then 1 else 0) + 8 * (x + 3 * y + 9 * z)"
  shows "i < 216" "fsm_s i 0 = a" "fsm_s i 1 = b" "fsm_s i 2 = c" "fsm_c01 i = x" "fsm_c02 i = y" "fsm_c12 i = z"
proof -
  define l where "l = (if a then 1 else 0) + 2 * (if b then 1 else 0) + 4 * (if c then 1 else (0 :: nat))"
  have l: "l < 8" by (simp add: l_def)
  have i: "i = l + 8 * (x + 3 * y + 9 * z)" by (simp add: i_def l_def)
  show "i < 216" using l assms(1-3) by (simp add: i)
  have "i div 8 = x + 3 * (y + 3 * z)" using l by (simp add: i)
  then show "fsm_c01 i = x"
    using assms(1) by (simp only: fsm_c01_def mult_1_right mod_mult_self2 mod_less)
  have "i div 24 = y + 3 * z" using l assms(1) by (simp add: i div_nat_eqI)
  then show "fsm_c02 i = y" using assms(2) by (simp add: fsm_c02_def)
  have "i div 72 = z" using l assms(1,2) by (simp add: i div_nat_eqI)
  then show "fsm_c12 i = z" using assms(3) by (simp add: fsm_c12_def)
  have dl: "drop_bit n i AND 1 = drop_bit n l AND 1" if "n < 3" for n
  proof -
    have "i mod 8 = l" using l by (simp only: i mod_mult_self2 mod_less)
    then have "take_bit 3 i = l" by (simp add: take_bit_eq_mod)
    then have "bit i n = bit l n" using that by (metis bit_take_bit_iff)
    then show ?thesis by (simp add: and_one_eq bit_iff_odd_drop_bit mod_2_eq_odd)
  qed
  have n3: "0 < (3 :: nat)" "1 < (3 :: nat)" "2 < (3 :: nat)" by simp_all
  show "fsm_s i 0 = a" unfolding fsm_s_def dl[OF n3(1)] l_def by (cases a; cases b; cases c; simp add: drop_bit_eq_div)
  show "fsm_s i 1 = b" unfolding fsm_s_def dl[OF n3(2)] l_def by (cases a; cases b; cases c; simp add: drop_bit_eq_div)
  show "fsm_s i 2 = c" unfolding fsm_s_def dl[OF n3(3)] l_def by (cases a; cases b; cases c; simp add: drop_bit_eq_div)
qed


subsection \<open>The best of three\<close>

text \<open>The nested conditional by which the code picks one of three.\<close>

definition pick3 :: "('a \<Rightarrow> 'a \<Rightarrow> bool) \<Rightarrow> 'a list \<Rightarrow> nat" where
  "pick3 better xs = (if better (xs ! 0) (xs ! 1) then (if better (xs ! 0) (xs ! 2) then 0 else 2)
                     else (if better (xs ! 1) (xs ! 2) then 1 else 2))"

lemma less_3_cases: "(\<forall>n<3. P n) \<longleftrightarrow> P 0 \<and> P 1 \<and> P (2 :: nat)"
proof
  assume "P 0 \<and> P 1 \<and> P 2"
  moreover have "n < 3 \<Longrightarrow> n = 0 \<or> n = 1 \<or> n = 2" for n :: nat by linarith
  ultimately show "\<forall>n<3. P n" by blast
qed simp

lemma less_3_disj: "n < 3 \<Longrightarrow> n = 0 \<or> n = 1 \<or> n = (2 :: nat)"
  by linarith

locale ranking =
  fixes better :: "'a \<Rightarrow> 'a \<Rightarrow> bool"
  assumes better_irrefl: "\<not> better a a"
    and better_trans: "better a b \<Longrightarrow> better b c \<Longrightarrow> better a c"
    and better_negtrans: "\<not> better a b \<Longrightarrow> \<not> better b c \<Longrightarrow> \<not> better a c"
begin

lemma better_asym: "better a b \<Longrightarrow> \<not> better b a"
  using better_trans better_irrefl by blast

lemma pick3_less: "pick3 better xs < 3"
  by (simp add: pick3_def)

lemma pick3_max: "n < 3 \<Longrightarrow> \<not> better (xs ! n) (xs ! pick3 better xs)"
proof -
  have "\<forall>n<3. \<not> better (xs ! n) (xs ! pick3 better xs)"
    unfolding less_3_cases pick3_def
    using better_irrefl[of "xs ! 0"] better_irrefl[of "xs ! 1"] better_irrefl[of "xs ! 2"] better_asym[of "xs ! 0" "xs ! 1"]
      better_asym[of "xs ! 0" "xs ! 2"] better_asym[of "xs ! 1" "xs ! 2"] better_trans[of "xs ! 0" "xs ! 1" "xs ! 2"]
      better_negtrans[of "xs ! 0" "xs ! 1" "xs ! 2"]
    by (cases "better (xs ! 0) (xs ! 1)"; cases "better (xs ! 1) (xs ! 2)"; cases "better (xs ! 0) (xs ! 2)"; simp)
  then show "n < 3 \<Longrightarrow> \<not> better (xs ! n) (xs ! pick3 better xs)" by blast
qed

text \<open>Lowering one that is not the best below the best does not change the choice.\<close>

lemma pick3_lower:
  assumes "length xs = 3" "n < 3" "n \<noteq> pick3 better xs" "better (xs ! pick3 better xs) z"
  shows "pick3 better (xs[n := z]) = pick3 better xs"
  using less_3_disj[OF assms(2)] assms better_asym[of "xs ! 0" z] better_asym[of "xs ! 1" z] better_asym[of "xs ! 2" z]
    better_trans[of "xs ! 0" "xs ! 1" "xs ! 2"] better_negtrans[of "xs ! 0" "xs ! 1" "xs ! 2"]
    better_negtrans[of "xs ! 1" "xs ! 0" "xs ! 2"] better_asym[of "xs ! 0" "xs ! 1"]
  unfolding pick3_def
  by (cases "better (xs ! 0) (xs ! 1)"; cases "better (xs ! 1) (xs ! 2)"; cases "better (xs ! 0) (xs ! 2)"; auto split: if_splits)

text \<open>Raising one above the others makes it the choice.\<close>

lemma pick3_raise:
  assumes "length xs = 3" "n < 3" "\<And>k. k < 3 \<Longrightarrow> k \<noteq> n \<Longrightarrow> better z (xs ! k)"
  shows "pick3 better (xs[n := z]) = n"
  using less_3_disj[OF assms(2)] assms(1) assms(3)[of 0] assms(3)[of 1] assms(3)[of 2]
    better_asym[of z "xs ! 0"] better_asym[of z "xs ! 1"]
  unfolding pick3_def by auto

end

text \<open>
  The two orders the choice is about: \<open>newer\<close> compares the transaction first and the steadiness second,
  \<open>steadier\<close> the other way round.
\<close>

definition newer :: "txnid \<times> bool \<Rightarrow> txnid \<times> bool \<Rightarrow> bool" where
  "newer a b \<longleftrightarrow> fst b < fst a \<or> (fst a = fst b \<and> snd a \<and> \<not> snd b)"

definition steadier :: "txnid \<times> bool \<Rightarrow> txnid \<times> bool \<Rightarrow> bool" where
  "steadier a b \<longleftrightarrow> (snd a \<and> \<not> snd b) \<or> (snd a = snd b \<and> fst b < fst a)"

interpretation by_newer: ranking newer
  by unfold_locales (auto simp: newer_def)

interpretation by_steadier: ranking steadier
  by unfold_locales (auto simp: steadier_def)

lemma cmp_newer: "meta_cmp2recent (meta_cmp2int (fst a) (fst b) 1) (snd a) (snd b) = newer a b"
  by (auto simp: meta_cmp2recent_def meta_cmp2int_def newer_def)

lemma cmp_steadier: "meta_cmp2steady (meta_cmp2int (fst a) (fst b) 1) (snd a) (snd b) = steadier a b"
  by (auto simp: meta_cmp2steady_def meta_cmp2int_def steadier_def)

lemma cmp_tie: "(meta_cmp2int (fst a) (fst b) 1 \<noteq> 1 \<or> snd a \<noteq> snd b) = (a \<noteq> b)"
  by (auto simp: meta_cmp2int_def prod_eq_iff)

definition snaps :: "meta list \<Rightarrow> (txnid \<times> bool) list" where
  "snaps metas = [meta_snap (metas ! 0), meta_snap (metas ! 1), meta_snap (metas ! 2)]"

lemma meta_tap_fields:
  fixes metas
  defines "m0 \<equiv> meta_snap (metas ! 0)" and "m1 \<equiv> meta_snap (metas ! 1)" and "m2 \<equiv> meta_snap (metas ! 2)"
    and "t \<equiv> meta_tap metas"
  shows "tr_recent t = (if newer m0 m1 then (if newer m0 m2 then 0 else 2) else (if newer m1 m2 then 1 else 2))"
    "tr_prefer_steady t =
       (if steadier m0 m1 then (if steadier m0 m2 then 0 else 2) else (if steadier m1 m2 then 1 else 2))"
    "TROIKA_TAIL t = (if tr_recent t = 0 then (if steadier m1 m2 then 2 else 1)
       else if tr_recent t = 1 then (if steadier m0 m2 then 2 else 0) else (if steadier m0 m1 then 1 else 0))"
    "TROIKA_VALID t = (m0 \<noteq> m1 \<or> m0 \<noteq> m2 \<or> m1 \<noteq> m2)"
    "TROIKA_STRICT_VALID t = (m0 \<noteq> m1 \<and> m0 \<noteq> m2 \<and> m1 \<noteq> m2)"
    "tr_txnid t = [fst m0, fst m1, fst m2]"
    "drop_bit 0 (tr_fsm t) AND 1 \<noteq> 0 \<longleftrightarrow> snd m0" "drop_bit 1 (tr_fsm t) AND 1 \<noteq> 0 \<longleftrightarrow> snd m1"
    "drop_bit 2 (tr_fsm t) AND 1 \<noteq> 0 \<longleftrightarrow> snd m2"
proof -
  define i where "i = fsm_index m0 m1 m2"
  have c: "meta_cmp2int (fst m0) (fst m1) 1 < 3" "meta_cmp2int (fst m0) (fst m2) 1 < 3" "meta_cmp2int (fst m1) (fst m2) 1 < 3"
    by (rule meta_cmp2int_scale(2))+
  note d = index_decode[OF c, of "snd m0" "snd m1" "snd m2", folded fsm_index_eq, folded i_def]
  have chk: "fsm_check i" using d(1) by (rule fsm_check_all)
  note chk' = chk[unfolded fsm_check_def Let_def d cmp_newer cmp_steadier]
  have t: "t = meta_troika_unpack \<lparr>tr_fsm = i, tr_recent = 0, tr_prefer_steady = 0, tr_tail_and_flags = 0,
      tr_txnid = [fst m0, fst m1, fst m2]\<rparr> (troika_fsm_map ! i)"
    by (simp add: t_def meta_tap_def Let_def i_def m0_def m1_def m2_def)
  let ?u = "\<lparr>tr_fsm = i, tr_recent = 0, tr_prefer_steady = 0, tr_tail_and_flags = 0, tr_txnid = []\<rparr>"
  have u: "tr_recent t = tr_recent (meta_troika_unpack ?u p)" "tr_prefer_steady t = tr_prefer_steady (meta_troika_unpack ?u p)"
    "TROIKA_TAIL t = TROIKA_TAIL (meta_troika_unpack ?u p)" "TROIKA_VALID t = TROIKA_VALID (meta_troika_unpack ?u p)"
    "TROIKA_STRICT_VALID t = TROIKA_STRICT_VALID (meta_troika_unpack ?u p)" if "troika_fsm_map ! i = p" for p
    using that by (simp_all add: t meta_troika_unpack_def TROIKA_TAIL_def TROIKA_VALID_def TROIKA_STRICT_VALID_def)
  note k = conjunct1[OF chk'] conjunct1[OF conjunct2[OF chk']] conjunct1[OF conjunct2[OF conjunct2[OF chk']]]
    conjunct1[OF conjunct2[OF conjunct2[OF conjunct2[OF chk']]]]
    conjunct1[OF conjunct2[OF conjunct2[OF conjunct2[OF conjunct2[OF chk']]]]]
    conjunct2[OF conjunct2[OF conjunct2[OF conjunct2[OF conjunct2[OF chk']]]]]
  note u' = u[OF k(6)]
  show r: "tr_recent t = (if newer m0 m1 then (if newer m0 m2 then 0 else 2) else (if newer m1 m2 then 1 else 2))"
    by (rule trans[OF u'(1) k(1)])
  show "tr_prefer_steady t =
       (if steadier m0 m1 then (if steadier m0 m2 then 0 else 2) else (if steadier m1 m2 then 1 else 2))"
    by (rule trans[OF u'(2) k(2)])
  show "TROIKA_TAIL t = (if tr_recent t = 0 then (if steadier m1 m2 then 2 else 1)
       else if tr_recent t = 1 then (if steadier m0 m2 then 2 else 0) else (if steadier m0 m1 then 1 else 0))"
    unfolding r by (rule trans[OF u'(3) k(3)])
  show "TROIKA_VALID t = (m0 \<noteq> m1 \<or> m0 \<noteq> m2 \<or> m1 \<noteq> m2)"
    unfolding cmp_tie[symmetric] disj_assoc by (rule trans[OF u'(4) k(4)])
  show "TROIKA_STRICT_VALID t = (m0 \<noteq> m1 \<and> m0 \<noteq> m2 \<and> m1 \<noteq> m2)"
    unfolding cmp_tie[symmetric] by (rule trans[OF u'(5) k(5)])
  show "tr_txnid t = [fst m0, fst m1, fst m2]" by (simp add: t meta_troika_unpack_def)
  have f: "tr_fsm t = i" by (simp add: t meta_troika_unpack_def)
  show "drop_bit 0 (tr_fsm t) AND 1 \<noteq> 0 \<longleftrightarrow> snd m0" "drop_bit 1 (tr_fsm t) AND 1 \<noteq> 0 \<longleftrightarrow> snd m1"
    "drop_bit 2 (tr_fsm t) AND 1 \<noteq> 0 \<longleftrightarrow> snd m2"
    using d(2,3,4) unfolding f fsm_s_def by simp_all
qed


lemma length_snaps [simp]: "length (snaps metas) = 3"
  by (simp add: snaps_def)

lemma snaps_nth: "n < 3 \<Longrightarrow> snaps metas ! n = meta_snap (metas ! n)"
  using less_3_disj[of n] by (auto simp: snaps_def)

lemma recent_pick: "tr_recent (meta_tap metas) = pick3 newer (snaps metas)"
  by (simp add: meta_tap_fields(1) pick3_def snaps_def)

lemma prefer_pick: "tr_prefer_steady (meta_tap metas) = pick3 steadier (snaps metas)"
  by (simp add: meta_tap_fields(2) pick3_def snaps_def)

lemma tail_unused:
  "TROIKA_TAIL (meta_tap metas) < 3 \<and> TROIKA_TAIL (meta_tap metas) \<noteq> tr_recent (meta_tap metas) \<and>
   TROIKA_TAIL (meta_tap metas) \<noteq> tr_prefer_steady (meta_tap metas)"
proof -
  define t where "t = meta_tap metas"
  note f = meta_tap_fields[of metas, folded t_def]
  have "TROIKA_TAIL t < 3 \<and> TROIKA_TAIL t \<noteq> tr_recent t" unfolding f(3) by auto
  moreover have "TROIKA_TAIL t \<noteq> tr_prefer_steady t"
    unfolding f(2,3)
    using by_steadier.better_trans[of "meta_snap (metas ! 0)" "meta_snap (metas ! 1)" "meta_snap (metas ! 2)"]
      by_steadier.better_negtrans[of "meta_snap (metas ! 0)" "meta_snap (metas ! 1)" "meta_snap (metas ! 2)"]
    by (cases "steadier (meta_snap (metas ! 0)) (meta_snap (metas ! 1))";
        cases "steadier (meta_snap (metas ! 1)) (meta_snap (metas ! 2))";
        cases "steadier (meta_snap (metas ! 0)) (meta_snap (metas ! 2))"; simp)
  ultimately show ?thesis by (simp flip: t_def)
qed

text \<open>
  C12. The head that \<^verbatim>\<open>meta_tap\<close> chooses is a meta no other is newer than, the fallback \<open>prefer_steady\<close> is one no
  other is steadier than, and the tail, which the next commit overwrites, is never the head and never the
  fallback.
\<close>

theorem meta_tap_choice:
  "let t = meta_tap metas; ms = snaps metas in
     tr_recent t < 3 \<and> list_all (\<lambda>m. \<not> newer m (ms ! tr_recent t)) ms \<and>
     tr_prefer_steady t < 3 \<and> list_all (\<lambda>m. \<not> steadier m (ms ! tr_prefer_steady t)) ms \<and>
     TROIKA_TAIL t < 3 \<and> \<not> meta_is_used t (TROIKA_TAIL t)"
proof -
  define t where "t = meta_tap metas"
  have "list_all (\<lambda>m. \<not> newer m (snaps metas ! tr_recent t)) (snaps metas)"
    unfolding t_def recent_pick list_all_length using by_newer.pick3_max by simp
  moreover have "list_all (\<lambda>m. \<not> steadier m (snaps metas ! tr_prefer_steady t)) (snaps metas)"
    unfolding t_def prefer_pick list_all_length using by_steadier.pick3_max by simp
  moreover have "tr_recent t < 3" "tr_prefer_steady t < 3"
    unfolding t_def recent_pick prefer_pick by (rule by_newer.pick3_less by_steadier.pick3_less)+
  ultimately show ?thesis using tail_unused[of metas] by (simp add: Let_def meta_is_used_def flip: t_def)
qed

end
