(* ===== verification/Meta_Commit.thy ===== *)
theory Meta_Commit
  imports Meta_Choice
begin

text \<open>
  Updating a meta page (\<^verbatim>\<open>dxb_sync_locked\<close>): what the data is flushed to and how the new meta is signed, which page
  is overwritten, and the writes themselves, as one list of stores in the order the code makes them with
  \<^verbatim>\<open>MDBX_WRITEMAP\<close>, and as one \<^verbatim>\<open>pwrite\<close> with its undo otherwise. The central result is about a crash
  of the writer between any two stores: the head and the fallback stay what they were until the last
  half of the two-phase update, and from then on the head is the new meta, complete.
\<close>

unbundle bit_operations_syntax

subsection \<open>Step 1: the data and the sign\<close>

record sync_state =
  ss_pending :: meta
  ss_unsynced_pages :: nat
  ss_eoos_timestamp :: nat

definition MDBX_SYNC_NONE :: nat where "MDBX_SYNC_NONE = 0"
definition MDBX_SYNC_DATA :: nat where "MDBX_SYNC_DATA = 1"
definition MDBX_SYNC_SIZE :: nat where "MDBX_SYNC_SIZE = 2"
definition MDBX_SYNC_IODQ :: nat where "MDBX_SYNC_IODQ = 4"

text \<open>
  \<open>flush\<close> is \<^verbatim>\<open>dxb_msync\<close> or \<^verbatim>\<open>dxb_fsync\<close> with the mode it is called with; \<open>fallback_now\<close> is the size
  recorded in the fallback meta. The result is an error, or the state with the meta to be written.
\<close>

definition sync_steady :: "sync_state \<Rightarrow> sync_state" where
  "sync_steady st = st\<lparr>ss_pending := meta_sign_as_steady (ss_pending st), ss_eoos_timestamp := 0, ss_unsynced_pages := 0\<rparr>"

definition sync_weak :: "sync_state \<Rightarrow> sync_state" where
  "sync_weak st = st\<lparr>ss_pending := (ss_pending st)\<lparr>meta_sign := DATASIGN_WEAK\<rparr>\<rparr>"

definition sync_mode_bits :: "nat \<Rightarrow> pgno \<Rightarrow> pgno \<Rightarrow> nat" where
  "sync_mode_bits flags first_unallocated fallback_now =
     (if has_flag flags ENV_UNSYNC then MDBX_SYNC_NONE
      else let mode_bits = MDBX_SYNC_DATA;
               mode_bits = (if fallback_now < first_unallocated then mode_bits OR MDBX_SYNC_SIZE else mode_bits)
           in if has_flag flags MDBX_NOMETASYNC then mode_bits else mode_bits OR MDBX_SYNC_IODQ)"

definition sync_data :: "nat \<Rightarrow> bool \<Rightarrow> pgno \<Rightarrow> (nat \<Rightarrow> rc) \<Rightarrow> sync_state \<Rightarrow> rc + sync_state" where
  "sync_data flags incore fallback_now flush st =
     (if ss_unsynced_pages st = 0 then Inr (sync_steady st)
      else if ss_unsynced_pages st = 1 \<and> has_flag flags MDBX_NOMETASYNC then Inr st
      else if has_flag flags ENV_UNSYNC \<and> incore then Inr (sync_weak st)
      else let rc = flush (sync_mode_bits flags (geo_first_unallocated (meta_geometry (ss_pending st))) fallback_now)
           in if rc \<noteq> MDBX_SUCCESS then Inl rc
              else if has_flag flags ENV_UNSYNC then Inr (sync_weak st) else Inr (sync_steady st))"

subsection \<open>The page to overwrite\<close>

text \<open>\<open>Goal_panic\<close> is a failed \<^verbatim>\<open>ENSURE_OBJ\<close>.\<close>

datatype sync_goal = Goal_skip | Goal_head nat | Goal_tail nat | Goal_panic

definition legal4overwrite :: "meta list \<Rightarrow> troika \<Rightarrow> meta \<Rightarrow> bool" where
  "legal4overwrite metas t pending \<longleftrightarrow>
     (let head = metas ! mp_index (meta_recent t)
      in mp_txnid (meta_recent t) = meta_txnid_a pending \<and> meta_gc head = meta_gc pending \<and>
         meta_main head = meta_main pending \<and> meta_canary head = meta_canary pending \<and>
         meta_geometry head = meta_geometry pending)"

definition sync_goal :: "meta list \<Rightarrow> troika \<Rightarrow> meta \<Rightarrow> sync_goal" where
  "sync_goal metas t pending =
     (let head = meta_recent t in
      if mp_txnid head = meta_txnid_a pending
      then (if \<not> legal4overwrite metas t pending then Goal_panic
            else if \<not> mp_is_steady head \<and> meta_is_steady pending then Goal_head (mp_index head)
            else Goal_skip)
      else let troika_tail = tr_tail_and_flags t AND 3
           in if \<not> (troika_tail < NUM_METAS \<and> troika_tail \<noteq> tr_recent t \<and> troika_tail \<noteq> tr_prefer_steady t)
              then Goal_panic
              else if constmeta_txnid (metas ! troika_tail) < meta_txnid_a pending then Goal_tail troika_tail
              else Goal_panic)"

subsection \<open>Step 2: the writes\<close>

text \<open>The stores into the mapped tail page, in program order.\<close>

definition commit_stores :: "bin128 \<Rightarrow> meta \<Rightarrow> (meta \<Rightarrow> meta) list" where
  "commit_stores bootid pending =
     [\<lambda>m. m\<lparr>meta_txnid_b := 0\<rparr>,
      \<lambda>m. m\<lparr>meta_txnid_a := meta_txnid_a pending\<rparr>,
      \<lambda>m. m\<lparr>meta_sign := DATASIGN_WEAK\<rparr>,
      \<lambda>m. m\<lparr>meta_geometry := meta_geometry pending\<rparr>,
      \<lambda>m. m\<lparr>meta_gc := meta_gc pending\<rparr>,
      \<lambda>m. m\<lparr>meta_main := meta_main pending\<rparr>,
      \<lambda>m. m\<lparr>meta_canary := meta_canary pending\<rparr>,
      \<lambda>m. m\<lparr>meta_pages_retired := meta_pages_retired pending\<rparr>,
      \<lambda>m. m\<lparr>meta_bootid := bootid\<rparr>,
      \<lambda>m. m\<lparr>meta_txnid_b := meta_txnid_b pending\<rparr>,
      \<lambda>m. m\<lparr>meta_sign := meta_sign pending\<rparr>]"

definition run_stores :: "(meta \<Rightarrow> meta) list \<Rightarrow> meta \<Rightarrow> meta" where
  "run_stores fs m = fold (\<lambda>f m. f m) fs m"

text \<open>The same update in the code's own terms.\<close>

definition commit_writemap :: "bin128 \<Rightarrow> meta \<Rightarrow> meta \<Rightarrow> meta" where
  "commit_writemap bootid pending target =
     (let target = meta_update_begin target (meta_txnid_a pending);
          target = target\<lparr>meta_sign := DATASIGN_WEAK\<rparr>;
          target = target\<lparr>meta_geometry := meta_geometry pending, meta_gc := meta_gc pending,
                     meta_main := meta_main pending, meta_canary := meta_canary pending,
                     meta_pages_retired := meta_pages_retired pending\<rparr>;
          target = meta_update_end bootid target (meta_txnid_b pending)
      in target\<lparr>meta_sign := meta_sign pending\<rparr>)"

lemma run_all_stores: "run_stores (commit_stores bootid pending) m = commit_writemap bootid pending m"
  by (simp add: run_stores_def commit_stores_def commit_writemap_def meta_update_begin_def meta_update_end_def Let_def)

subsection \<open>A crash between two stores\<close>

lemma take_stores:
  "run_stores (take 0 (commit_stores bootid p)) m = m"
  "1 \<le> k \<Longrightarrow> k < 10 \<Longrightarrow> meta_txnid_b (run_stores (take k (commit_stores bootid p)) m) = 0"
  "1 \<le> k \<Longrightarrow> k < 10 \<Longrightarrow> meta_txnid_a (run_stores (take k (commit_stores bootid p)) m) \<in> {meta_txnid_a m, meta_txnid_a p}"
proof -
  assume "1 \<le> k" "k < 10"
  then have "k = 1 \<or> k = 2 \<or> k = 3 \<or> k = 4 \<or> k = 5 \<or> k = 6 \<or> k = 7 \<or> k = 8 \<or> k = 9" by linarith
  then show "meta_txnid_b (run_stores (take k (commit_stores bootid p)) m) = 0"
    "meta_txnid_a (run_stores (take k (commit_stores bootid p)) m) \<in> {meta_txnid_a m, meta_txnid_a p}"
    by (auto simp: run_stores_def commit_stores_def)
qed (simp add: run_stores_def)

definition same_payload :: "meta \<Rightarrow> meta \<Rightarrow> bool" where
  "same_payload a b \<longleftrightarrow> meta_geometry a = meta_geometry b \<and> meta_gc a = meta_gc b \<and> meta_main a = meta_main b \<and>
     meta_canary a = meta_canary b \<and> meta_pages_retired a = meta_pages_retired b"

lemma late_stores:
  assumes "10 \<le> k"
  shows "meta_txnid_a (run_stores (take k (commit_stores bootid p)) m) = meta_txnid_a p"
    "meta_txnid_b (run_stores (take k (commit_stores bootid p)) m) = meta_txnid_b p"
    "same_payload (run_stores (take k (commit_stores bootid p)) m) p"
    "k \<noteq> 10 \<Longrightarrow> meta_sign (run_stores (take k (commit_stores bootid p)) m) = meta_sign p"
proof -
  have "k = 10 \<or> 11 \<le> k" using assms by linarith
  then have "take k (commit_stores bootid p) = take 10 (commit_stores bootid p) \<or>
      k \<noteq> 10 \<and> take k (commit_stores bootid p) = commit_stores bootid p"
    by (auto simp: commit_stores_def)
  then show "meta_txnid_a (run_stores (take k (commit_stores bootid p)) m) = meta_txnid_a p"
    "meta_txnid_b (run_stores (take k (commit_stores bootid p)) m) = meta_txnid_b p"
    "same_payload (run_stores (take k (commit_stores bootid p)) m) p"
    by (auto simp: run_stores_def commit_stores_def same_payload_def)
  assume "k \<noteq> 10"
  then have "take k (commit_stores bootid p) = commit_stores bootid p" using assms by (simp add: commit_stores_def)
  then show "meta_sign (run_stores (take k (commit_stores bootid p)) m) = meta_sign p"
    by (simp add: run_stores_def commit_stores_def)
qed

lemma snap_torn: "meta_txnid_b m = 0 \<Longrightarrow> meta_snap m = (0, False)"
  by (simp add: meta_snap_def Let_def MIN_TXNID_def)

lemma snap_whole: "meta_txnid_a m = T \<Longrightarrow> meta_txnid_b m = T \<Longrightarrow> 1 \<le> T \<Longrightarrow> meta_snap m = (T, meta_is_steady m)"
  by (simp add: meta_snap_def Let_def MIN_TXNID_def)

lemma snaps_update: "length metas = 3 \<Longrightarrow> n < 3 \<Longrightarrow> snaps (metas[n := m]) = (snaps metas)[n := meta_snap m]"
  using less_3_disj[of n] by (auto simp: snaps_def)

lemma recent_txnid: "mp_txnid (meta_recent (meta_tap metas)) = fst (snaps metas ! tr_recent (meta_tap metas))"
proof -
  have "tr_txnid (meta_tap metas) = map fst (snaps metas)" by (simp add: meta_tap_fields(6) snaps_def)
  moreover have "tr_recent (meta_tap metas) < length (snaps metas)"
    unfolding length_snaps recent_pick by (rule by_newer.pick3_less)
  ultimately show ?thesis by (simp add: meta_recent_def troika_ptr_def)
qed

text \<open>The head has a transaction, so it and the fallback outrank a torn page.\<close>

lemma recent_steady: "mp_is_steady (meta_recent (meta_tap metas)) = snd (snaps metas ! tr_recent (meta_tap metas))"
proof -
  have "tr_recent (meta_tap metas) < 3" unfolding recent_pick by (rule by_newer.pick3_less)
  from less_3_disj[OF this] show ?thesis
    using meta_tap_fields(7,8,9)[of metas] by (auto simp: meta_recent_def troika_ptr_def snaps_def)
qed

lemma head_outranks:
  assumes "1 \<le> mp_txnid (meta_recent (meta_tap metas))"
  shows "newer (snaps metas ! pick3 newer (snaps metas)) (0, False)"
    "steadier (snaps metas ! pick3 steadier (snaps metas)) (0, False)"
proof -
  let ?r = "snaps metas ! pick3 newer (snaps metas)"
  have r: "1 \<le> fst ?r" using assms by (simp add: recent_txnid recent_pick)
  then show "newer ?r (0, False)" by (simp add: newer_def)
  have "steadier ?r (0, False)" using r by (auto simp: steadier_def)
  moreover have "\<not> steadier ?r (snaps metas ! pick3 steadier (snaps metas))"
    by (rule by_steadier.pick3_max[OF by_newer.pick3_less])
  ultimately show "steadier (snaps metas ! pick3 steadier (snaps metas)) (0, False)"
    using by_steadier.better_negtrans by blast
qed

lemma tail_facts:
  fixes metas :: "meta list"
  defines "t \<equiv> meta_tap metas"
  shows "TROIKA_TAIL t < 3" "TROIKA_TAIL t \<noteq> tr_recent t" "TROIKA_TAIL t \<noteq> tr_prefer_steady t"
proof -
  have "TROIKA_TAIL t < 3 \<and> TROIKA_TAIL t \<noteq> tr_recent t \<and> TROIKA_TAIL t \<noteq> tr_prefer_steady t"
    unfolding t_def by (rule tail_unused)
  then show "TROIKA_TAIL t < 3" "TROIKA_TAIL t \<noteq> tr_recent t" "TROIKA_TAIL t \<noteq> tr_prefer_steady t" by auto
qed

lemma torn_tail:
  assumes len: "length metas = 3" and head: "1 \<le> mp_txnid (meta_recent (meta_tap metas))" and snap: "meta_snap m = (0, False)"
  shows "tr_recent (meta_tap (metas[TROIKA_TAIL (meta_tap metas) := m])) = tr_recent (meta_tap metas)"
    "tr_prefer_steady (meta_tap (metas[TROIKA_TAIL (meta_tap metas) := m])) = tr_prefer_steady (meta_tap metas)"
proof -
  let ?n = "TROIKA_TAIL (meta_tap metas)"
  note n = tail_facts[of metas]
  have s: "snaps (metas[?n := m]) = (snaps metas)[?n := (0, False)]" using snaps_update[OF len n(1)] snap by simp
  show "tr_recent (meta_tap (metas[?n := m])) = tr_recent (meta_tap metas)"
    unfolding recent_pick s
    by (rule by_newer.pick3_lower) (use n head_outranks[OF head] in \<open>auto simp: recent_pick\<close>)
  show "tr_prefer_steady (meta_tap (metas[?n := m])) = tr_prefer_steady (meta_tap metas)"
    unfolding prefer_pick s
    by (rule by_steadier.pick3_lower) (use n head_outranks[OF head] in \<open>auto simp: prefer_pick\<close>)
qed

lemma new_tail:
  assumes len: "length metas = 3" and T: "mp_txnid (meta_recent (meta_tap metas)) < T" and snap: "meta_snap m = (T, st)"
  defines "n \<equiv> TROIKA_TAIL (meta_tap metas)"
  shows "tr_recent (meta_tap (metas[n := m])) = n" "mp_txnid (meta_recent (meta_tap (metas[n := m]))) = T"
    "mp_is_steady (meta_recent (meta_tap (metas[n := m]))) = st"
proof -
  note n = tail_facts(1)[of metas, folded n_def]
  have sn: "snaps (metas[n := m]) = (snaps metas)[n := (T, st)]" using snaps_update[OF len n] snap by simp
  have "newer (T, st) (snaps metas ! j)" if "j < 3" for j
  proof -
    have "\<not> newer (snaps metas ! j) (snaps metas ! tr_recent (meta_tap metas))"
      unfolding recent_pick by (rule by_newer.pick3_max[OF that])
    then have "fst (snaps metas ! j) < T" using T by (auto simp: newer_def recent_txnid)
    then show ?thesis by (simp add: newer_def)
  qed
  then show r: "tr_recent (meta_tap (metas[n := m])) = n"
    unfolding recent_pick sn by (intro by_newer.pick3_raise n length_snaps)
  show "mp_txnid (meta_recent (meta_tap (metas[n := m]))) = T" "mp_is_steady (meta_recent (meta_tap (metas[n := m]))) = st"
    unfolding recent_txnid recent_steady r sn using n by simp_all
qed

text \<open>
  C4. Crash safety of the two-phase update: when a writer of transaction \<open>T\<close>, newer than the head, stops after any
  number \<open>k\<close> of its eleven stores into the tail page, then either the head and the fallback are the same pages as
  before, unchanged, or (from the tenth store on, which completes the second transaction id) the head is the new
  meta with all of its payload, and the old head is still intact. With all eleven stores the new meta is exactly as
  steady as it was signed.
\<close>

theorem commit_crash_safe:
  fixes k :: nat and bootid :: bin128
  assumes len: "length metas = 3" and head: "1 \<le> mp_txnid (meta_recent (meta_tap metas))"
    and T: "meta_txnid_a pending = T" "meta_txnid_b pending = T" "mp_txnid (meta_recent (meta_tap metas)) < T"
  defines "t \<equiv> meta_tap metas"
  defines "n \<equiv> TROIKA_TAIL t"
  defines "metas' \<equiv> metas[n := run_stores (take k (commit_stores bootid pending)) (metas ! n)]"
  shows "metas' ! tr_recent t = metas ! tr_recent t \<and> metas' ! tr_prefer_steady t = metas ! tr_prefer_steady t \<and>
    (if k < 10
     then tr_recent (meta_tap metas') = tr_recent t \<and> tr_prefer_steady (meta_tap metas') = tr_prefer_steady t
     else tr_recent (meta_tap metas') = n \<and> same_payload (metas' ! n) pending \<and>
          (10 < k \<longrightarrow> mp_is_steady (meta_recent (meta_tap metas')) = meta_is_steady pending))"
proof -
  note n = tail_facts[of metas, folded t_def, folded n_def]
  have keep: "metas' ! tr_recent t = metas ! tr_recent t" "metas' ! tr_prefer_steady t = metas ! tr_prefer_steady t"
    using n by (auto simp: metas'_def)
  let ?m = "run_stores (take k (commit_stores bootid pending)) (metas ! n)"
  show ?thesis
  proof (cases "k < 10")
    case True
    have "tr_recent (meta_tap metas') = tr_recent t \<and> tr_prefer_steady (meta_tap metas') = tr_prefer_steady t"
    proof (cases "k = 0")
      case True
      then have "metas' = metas" by (simp add: metas'_def run_stores_def)
      then show ?thesis by (simp add: t_def)
    next
      case False
      then have "meta_snap ?m = (0, False)" using \<open>k < 10\<close> by (intro snap_torn take_stores(2)) auto
      then show ?thesis using torn_tail[OF len head] by (simp add: metas'_def t_def n_def)
    qed
    then show ?thesis using True keep by simp
  next
    case False
    then have k: "10 \<le> k" by simp
    have snap: "meta_snap ?m = (T, meta_is_steady ?m)"
      using late_stores(1,2)[OF k] T head by (intro snap_whole) auto
    have at_n: "metas' ! n = ?m" using n(1) len by (simp add: metas'_def)
    note r = new_tail[OF len T(3) snap, folded t_def, folded n_def, folded metas'_def]
    have "meta_is_steady ?m = meta_is_steady pending" if "10 < k"
      using late_stores(4)[OF k] that by (simp add: meta_is_steady_def)
    then show ?thesis using False keep r late_stores(3)[OF k] at_n by simp
  qed
qed

subsection \<open>The choice of the target\<close>

lemma constmeta_snap: "constmeta_txnid m = meta_txnid m"
  by (simp add: constmeta_txnid_def meta_txnid_def meta_snap_def Let_def)

lemma goal_new:
  assumes "mp_txnid (meta_recent (meta_tap metas)) < meta_txnid_a pending"
  shows "sync_goal metas (meta_tap metas) pending = Goal_tail (TROIKA_TAIL (meta_tap metas))"
proof -
  note n = tail_facts[of metas]
  have "\<not> newer (snaps metas ! TROIKA_TAIL (meta_tap metas)) (snaps metas ! tr_recent (meta_tap metas))"
    unfolding recent_pick by (rule by_newer.pick3_max[OF n(1)])
  then have "constmeta_txnid (metas ! TROIKA_TAIL (meta_tap metas)) < meta_txnid_a pending"
    using assms by (auto simp: newer_def recent_txnid constmeta_snap meta_txnid_def snaps_nth[OF n(1)])
  then show ?thesis using assms n by (simp add: sync_goal_def Let_def TROIKA_TAIL_def NUM_METAS_def)
qed

subsection \<open>A concrete environment\<close>

definition sample_tree :: tree where
  "sample_tree = \<lparr>tree_flags = 0, tree_height = 0, tree_dupfix_size = 0, tree_root = 0xFFFFFFFF, tree_branch_pages = 0,
     tree_leaf_pages = 0, tree_large_pages = 0, tree_sequence = 0, tree_items = 0, tree_mod_txnid = 0\<rparr>"

definition sample_meta :: "txnid \<Rightarrow> nat \<Rightarrow> meta" where
  "sample_meta txnid sign =
     \<lparr>meta_magic = 0, meta_txnid_a = txnid, meta_reserve16 = 0, meta_validator_id = 0, meta_extra_pagehdr = 0,
      meta_geometry = \<lparr>geo_grow_pv = 0, geo_shrink_pv = 0, geo_lower = 16, geo_upper = 256, geo_now = 16,
        geo_first_unallocated = 3 + txnid\<rparr>,
      meta_gc = sample_tree, meta_main = sample_tree, meta_canary = [0, 0, 0, 0], meta_sign = sign,
      meta_txnid_b = txnid, meta_pages_retired = 0, meta_bootid = (1, 2), meta_dxbid = (3, 4)\<rparr>"

definition sample_metas :: "meta list" where
  "sample_metas = [sample_meta 5 UINT64_MAX, sample_meta 6 DATASIGN_WEAK, sample_meta 4 UINT64_MAX]"

lemma sample_tap:
  "tr_recent (meta_tap sample_metas) = 1" "tr_prefer_steady (meta_tap sample_metas) = 0"
  "TROIKA_TAIL (meta_tap sample_metas) = 2" "mp_txnid (meta_recent (meta_tap sample_metas)) = 6"
  by (simp_all add: meta_tap_def sample_metas_def sample_meta_def meta_snap_def Let_def meta_is_steady_def SIGN_IS_STEADY_def
      DATASIGN_WEAK_def UINT64_MAX_def MIN_TXNID_def fsm_index_def meta_cmp2int_def troika_fsm_map_def meta_troika_unpack_def
      TROIKA_TAIL_def meta_recent_def troika_ptr_def)

theorem commit_crash_safe_witness:
  "tr_recent (meta_tap (sample_metas[2 := run_stores (take 9 (commit_stores (1, 2) (sample_meta 7 UINT64_MAX))) (sample_metas ! 2)])) = 1 \<and>
   tr_recent (meta_tap (sample_metas[2 := run_stores (take 10 (commit_stores (1, 2) (sample_meta 7 UINT64_MAX))) (sample_metas ! 2)])) = 2"
proof -
  have "length sample_metas = 3" "meta_txnid_a (sample_meta 7 UINT64_MAX) = 7" "meta_txnid_b (sample_meta 7 UINT64_MAX) = 7"
    by (simp_all add: sample_metas_def sample_meta_def)
  note crash = commit_crash_safe[OF this(1) _ this(2,3), of _ "(1, 2)", unfolded sample_tap]
  show ?thesis using crash[of 9] crash[of 10] by simp
qed

subsection \<open>Wiping\<close>

lemma wiped_not_steady: "\<not> meta_is_steady (m\<lparr>meta_sign := DATASIGN_NONE\<rparr>)"
  by (simp add: meta_is_steady_def SIGN_IS_STEADY_def DATASIGN_NONE_def DATASIGN_WEAK_def)

lemma unsteady_other: "i \<noteq> n \<Longrightarrow> snd (meta_unsteady wm pw lim n metas) ! i = metas ! i"
  by (simp add: meta_unsteady_def Let_def)

lemma unsteady_length: "length (snd (meta_unsteady wm pw lim n metas)) = length metas"
  by (simp add: meta_unsteady_def Let_def)

text \<open>A page is left unwiped only with an error.\<close>

definition wiped_below :: "txnid \<Rightarrow> meta \<Rightarrow> bool" where
  "wiped_below lim m \<longleftrightarrow> \<not> meta_is_steady m \<or> lim < constmeta_txnid m"

lemma wipe_steady_leaves:
  assumes "length metas = 3" "wm \<or> (\<forall>n. pw n = MDBX_SUCCESS)" "i < 3"
  shows "wiped_below lim (fst (snd (meta_wipe_steady wm pw sync ns lim metas)) ! i)"
proof -
  obtain e0 m0 where u0: "meta_unsteady wm pw lim 0 metas = (e0, m0)" by fastforce
  obtain e1 m1 where u1: "meta_unsteady wm pw lim (Suc 0) m0 = (e1, m1)" by fastforce
  obtain e2 m2 where u2: "meta_unsteady wm pw lim 2 m1 = (e2, m2)" by fastforce
  have ne: "\<not> MDBX_IS_ERROR (fst (meta_unsteady wm pw lim n ms))" for n ms
    using assms(2) by (auto simp: meta_unsteady_def Let_def MDBX_IS_ERROR_def rc_defs)
  have len: "length m0 = 3" "length m1 = 3"
    using unsteady_length[of wm pw lim 0 metas] unsteady_length[of wm pw lim "Suc 0" m0] u0 u1 assms(1) by auto
  have e: "\<not> MDBX_IS_ERROR e0" "\<not> MDBX_IS_ERROR e1" using ne[of 0 metas] ne[of "Suc 0" m0] u0 u1 by auto
  have pass: "wiped_below lim (snd (meta_unsteady wm pw lim n ms) ! n)" if "n < length ms" for n ms
    using that assms(2) by (auto simp: meta_unsteady_def Let_def wiped_below_def wiped_not_steady)
  have other: "i \<noteq> n \<Longrightarrow> snd (meta_unsteady wm pw lim n ms) ! i = ms ! i" for i n ms by (rule unsteady_other)
  have "wiped_below lim (m2 ! i)"
    using less_3_disj[OF assms(3)] pass[of 0 metas] pass[of "Suc 0" m0] pass[of 2 m1] other[of 0 "Suc 0" m0] other[of 0 2 m1]
      other[of 1 2 m1] u0 u1 u2 len assms(1) by auto
  then show ?thesis using e by (simp add: meta_wipe_steady_def Let_def u0 u1 u2 case_prod_beta)
qed

text \<open>A failed write to meta 1 after meta 0 was wiped is reported as success, and meta 2 is not tried.\<close>

lemma wipe_error_swallowed:
  "\<exists>pw metas. pw 1 = MDBX_EACCESS \<and> fst (meta_wipe_steady False pw MDBX_SUCCESS False 9 metas) = MDBX_SUCCESS \<and>
     meta_is_steady (fst (snd (meta_wipe_steady False pw MDBX_SUCCESS False 9 metas)) ! 1)"
proof (intro exI conjI)
  let ?pw = "\<lambda>n :: nat. if n = 1 then MDBX_EACCESS else MDBX_SUCCESS"
  let ?metas = "[sample_meta 4 UINT64_MAX, sample_meta 5 UINT64_MAX, sample_meta 6 UINT64_MAX]"
  have s: "meta_is_steady (sample_meta t UINT64_MAX)" for t
    by (simp add: meta_is_steady_def SIGN_IS_STEADY_def sample_meta_def UINT64_MAX_def DATASIGN_WEAK_def)
  have c: "constmeta_txnid (sample_meta t s) = t" for t s by (simp add: constmeta_txnid_def sample_meta_def)
  have "meta_unsteady False ?pw 9 0 ?metas = (MDBX_RESULT_TRUE, ?metas[0 := (sample_meta 4 UINT64_MAX)\<lparr>meta_sign := DATASIGN_NONE\<rparr>])"
    by (simp add: meta_unsteady_def s c rc_defs)
  moreover have "meta_unsteady False ?pw 9 1 (?metas[0 := m]) = (MDBX_EACCESS, ?metas[0 := m])" for m
    by (simp add: meta_unsteady_def s c rc_defs MDBX_EACCESS_def)
  moreover have "MDBX_IS_ERROR MDBX_EACCESS" "\<not> MDBX_IS_ERROR MDBX_RESULT_TRUE" by (simp_all add: MDBX_IS_ERROR_def rc_defs MDBX_EACCESS_def)
  ultimately show "fst (meta_wipe_steady False ?pw MDBX_SUCCESS False 9 ?metas) = MDBX_SUCCESS"
    "meta_is_steady (fst (snd (meta_wipe_steady False ?pw MDBX_SUCCESS False 9 ?metas)) ! 1)"
    by (simp_all add: meta_wipe_steady_def Let_def s)
qed simp

end
