(* ===== verification/Coherency.thy ===== *)
theory Coherency
  imports Meta_Commit Options
begin

text \<open>
  Taking a snapshot from a meta page. The page is in shared memory and the writer of another process may be
  overwriting it, so \<^verbatim>\<open>coherency_fetch_head\<close> copies the geometry, the two core trees and the canary, checks
  that they are plausible, and then checks that the page still carries the transaction id it had before. First the
  functions as they run when nothing else happens; the interleaving with the writer is in \<^verbatim>\<open>Meta_Race\<close>.
\<close>

definition MDBX_DATA_MAGIC :: nat where "MDBX_DATA_MAGIC = 0x59659DBDEF4C11 * 256 + 3"
definition INT32_MAX :: nat where "INT32_MAX = 2 ^ 31 - 1"
definition DB_PERSISTENT_FLAGS :: nat where
  "DB_PERSISTENT_FLAGS = MDBX_REVERSEKEY OR MDBX_DUPSORT OR MDBX_INTEGERKEY OR MDBX_DUPFIXED OR MDBX_INTEGERDUP OR MDBX_REVERSEDUP"

text \<open>
  What the check reads of the environment: whether the file is mapped, the size of a page, the limit of the map, and
  the transaction ids in the headers of the pages.
\<close>

record view =
  v_mapped :: bool
  v_ps :: nat
  v_limit :: nat
  v_page_txnid :: "pgno \<Rightarrow> txnid"

definition root_page :: "view \<Rightarrow> tree \<Rightarrow> meta \<Rightarrow> bool" where
  "root_page v t m \<longleftrightarrow> v_mapped v \<and> tree_root t < geo_now (meta_geometry m)"

text \<open>The three conditions under which a tree is refused.\<close>

definition bad_root :: "tree \<Rightarrow> meta \<Rightarrow> bool" where
  "bad_root t m \<longleftrightarrow> tree_root t \<noteq> P_INVALID \<and> geo_now (meta_geometry m) \<le> tree_root t"

definition bad_mod_txnid :: "view \<Rightarrow> txnid \<Rightarrow> tree \<Rightarrow> meta \<Rightarrow> bool" where
  "bad_mod_txnid v txnid t m \<longleftrightarrow>
     txnid < tree_mod_txnid t \<or> (tree_mod_txnid t = 0 \<and> root_page v t m \<and> meta_magic m = MDBX_DATA_MAGIC)"

definition bad_root_txnid :: "view \<Rightarrow> tree \<Rightarrow> meta \<Rightarrow> bool" where
  "bad_root_txnid v t m \<longleftrightarrow>
     root_page v t m \<and> tree_mod_txnid t \<noteq> 0 \<and> tree_root t * v_ps v < v_limit v \<and>
     v_page_txnid v (tree_root t) \<noteq> tree_mod_txnid t"

definition count_incoherence :: "bool \<Rightarrow> nat \<Rightarrow> nat" where
  "count_incoherence counted n = (if counted then (if INT32_MAX \<le> n then INT32_MAX else n + 1) else n)"

text \<open>The result, and the counter \<^verbatim>\<open>pgops.incoherence\<close>.\<close>

definition coherency_check :: "view \<Rightarrow> txnid \<Rightarrow> tree \<Rightarrow> tree \<Rightarrow> meta \<Rightarrow> bool \<Rightarrow> nat \<Rightarrow> bool \<times> nat" where
  "coherency_check v txnid gc main m report incoherence =
     (let ok = True;
          ok = (if bad_root gc m then False else ok);
          ok = (if bad_root main m then False else ok);
          ok = (if bad_mod_txnid v txnid gc m then False else ok);
          ok = (if bad_mod_txnid v txnid main m then False else ok);
          ok = (if bad_root_txnid v gc m then False else ok);
          ok = (if bad_root_txnid v main m then False else ok)
      in (ok, count_incoherence (\<not> ok \<and> report) incoherence))"

text \<open>
  \<open>None\<close> is the null pointer; \<open>now\<close> is the monotonic clock, whose differences wrap around. With a result that is not
  an error the caller tries again.
\<close>

definition coherency_timeout :: "nat \<Rightarrow> nat option \<Rightarrow> rc \<times> nat option" where
  "coherency_timeout now timestamp =
     (if timestamp = Some 0 then (MDBX_RESULT_TRUE, Some now)
      else if (case timestamp of None \<Rightarrow> True | Some t \<Rightarrow> osal_16dot16_to_monotime (65536 div 10) < sub64 now t)
      then (MDBX_PROBLEM, timestamp) else (MDBX_RESULT_TRUE, timestamp))"

subsection \<open>Fetching the snapshot\<close>

text \<open>The part of the transaction that the snapshot fills.\<close>

record snapshot =
  sn_txnid :: txnid
  sn_geo :: geo
  sn_gc :: tree
  sn_main :: tree
  sn_canary :: "nat list"

definition accept_head :: "snapshot \<Rightarrow> meta \<Rightarrow> rc \<times> snapshot" where
  "accept_head txn m =
     (if tree_flags (sn_gc txn) \<noteq> MDBX_INTEGERKEY
      then if tree_flags (sn_gc txn) AND DB_PERSISTENT_FLAGS \<noteq> MDBX_INTEGERKEY \<or> meta_magic m = MDBX_DATA_MAGIC
           then (MDBX_INCOMPATIBLE, txn)
           else (MDBX_SUCCESS, txn\<lparr>sn_gc := (sn_gc txn)\<lparr>tree_flags := tree_flags (sn_gc txn) AND DB_PERSISTENT_FLAGS\<rparr>\<rparr>)
      else (MDBX_SUCCESS, txn))"

definition coherency_fetch_head ::
  "view \<Rightarrow> nat \<Rightarrow> txnid \<Rightarrow> meta \<Rightarrow> nat \<Rightarrow> nat \<Rightarrow> rc \<times> snapshot \<times> nat \<times> nat" where
  "coherency_fetch_head v now head_txnid m timestamp incoherence =
     (let txn = \<lparr>sn_txnid = head_txnid, sn_geo = meta_geometry m, sn_gc = meta_gc m, sn_main = meta_main m,
                 sn_canary = meta_canary m\<rparr>;
          (ok, incoherence) = coherency_check v head_txnid (sn_gc txn) (sn_main txn) m (timestamp = 0) incoherence
      in if \<not> ok \<or> sn_txnid txn \<noteq> meta_txnid m
         then (let (rc, t) = coherency_timeout now (Some timestamp) in (rc, txn, the t, incoherence))
         else (let (rc, txn) = accept_head txn m in (rc, txn, timestamp, incoherence)))"

subsection \<open>Checking what a commit has written\<close>

definition coherency_check_written ::
  "view \<Rightarrow> nat \<Rightarrow> txnid \<Rightarrow> meta \<Rightarrow> nat option \<Rightarrow> nat \<Rightarrow> rc \<times> nat option \<times> nat" where
  "coherency_check_written v now txnid m timestamp incoherence =
     (let report = (case timestamp of None \<Rightarrow> True | Some t \<Rightarrow> t = 0);
          head_txnid = meta_txnid m;
          retry = (\<lambda>incoherence. case coherency_timeout now timestamp of (rc, t) \<Rightarrow> (rc, t, incoherence))
      in if MIN_TXNID \<le> head_txnid \<and> txnid \<le> head_txnid
         then (case coherency_check v head_txnid (meta_gc m) (meta_main m) m report incoherence of
                 (ok, incoherence) \<Rightarrow> if ok then (MDBX_SUCCESS, timestamp, incoherence) else retry incoherence)
         else retry (count_incoherence report incoherence))"

definition coherency_check_meta :: "view \<Rightarrow> nat \<Rightarrow> meta \<Rightarrow> bool \<Rightarrow> nat \<Rightarrow> bool \<times> nat" where
  "coherency_check_meta v now m report incoherence =
     (case coherency_check_written v now 0 m (if report then Some 0 else None) incoherence of
        (rc, _, incoherence) \<Rightarrow> (rc = MDBX_SUCCESS, incoherence))"

subsection \<open>Flags of durability\<close>

definition MDBX_UTTERLY_NOSYNC :: nat where "MDBX_UTTERLY_NOSYNC = MDBX_SAFE_NOSYNC OR 0x100000"
definition DEPRECATED_MAPASYNC :: nat where "DEPRECATED_MAPASYNC = 0x100000"

definition F_ISSET :: "nat \<Rightarrow> nat \<Rightarrow> bool" where "F_ISSET w f \<longleftrightarrow> w AND f = f"

definition avoid_false_utterly :: "nat \<Rightarrow> nat \<Rightarrow> nat \<Rightarrow> nat" where
  "avoid_false_utterly a b r =
     (if F_ISSET r MDBX_UTTERLY_NOSYNC \<and> \<not> F_ISSET a MDBX_UTTERLY_NOSYNC \<and> \<not> F_ISSET b MDBX_UTTERLY_NOSYNC
      then (r - MDBX_UTTERLY_NOSYNC) OR MDBX_SAFE_NOSYNC else r)"

definition combine_durability_flags :: "nat \<Rightarrow> nat \<Rightarrow> nat" where
  "combine_durability_flags a b =
     (let r = a OR b;
          r = avoid_false_utterly a b r;
          r = (if r AND (MDBX_WRITEMAP OR DEPRECATED_MAPASYNC) = MDBX_WRITEMAP OR DEPRECATED_MAPASYNC \<and>
                 \<not> F_ISSET r MDBX_UTTERLY_NOSYNC
               then (r - DEPRECATED_MAPASYNC) OR MDBX_SAFE_NOSYNC else r)
      in if r AND (MDBX_SAFE_NOSYNC OR MDBX_UTTERLY_NOSYNC) \<noteq> 0 then r OR MDBX_NOMETASYNC else r)"

end
