(* ===== verification/Meta_Race.thy ===== *)
theory Meta_Race
  imports Coherency
begin

text \<open>
  The snapshot of a reader against the stores of the writer. The writer overwrites the oldest meta page in the map
  (\<^const>\<open>commit_stores\<close>), a reader of another process may be copying the same page. The steps are a relation: each store
  of a commit is a step, each access of the reader (\<^verbatim>\<open>meta_snap\<close> and \<^verbatim>\<open>coherency_fetch_head\<close>) is a step, in any
  order. Loads and stores happen in program order, as the fences of the code demand; a transaction id is one load.
  A structure is not copied at once: while a commit stores it, the page may hold anything there (\<open>part_of_store\<close>), and
  a reader whose copying overlaps a later commit, which is when the page no longer carries the transaction id it has
  read, may get anything (the second alternative of the \<open>copy\<close> rules). The history \<open>rs_published\<close> says what was
  committed under each transaction id; no step reads it.
\<close>

subsection \<open>States and steps\<close>

definition snapshot_of :: "meta \<Rightarrow> snapshot" where
  "snapshot_of m = \<lparr>sn_txnid = meta_txnid_a m, sn_geo = meta_geometry m, sn_gc = meta_gc m, sn_main = meta_main m,
     sn_canary = meta_canary m\<rparr>"

datatype pc = Tap_a | Tap_b | Copy_geo | Copy_gc | Copy_main | Copy_canary | Check | Check_a | Check_b | Accepted

record race =
  rs_page :: meta
  rs_commit :: "(nat \<times> bin128 \<times> meta) option"
  rs_published :: "txnid \<Rightarrow> snapshot option"
  rs_pc :: pc
  rs_txn :: snapshot
  rs_seen :: txnid

definition whole :: "meta \<Rightarrow> bool" where
  "whole m \<longleftrightarrow> meta_txnid_a m = meta_txnid_b m \<and> 1 \<le> meta_txnid_a m"

definition race_init :: "meta \<Rightarrow> race" where
  "race_init m = \<lparr>rs_page = m, rs_commit = None, rs_published = [meta_txnid_a m \<mapsto> snapshot_of m], rs_pc = Tap_a,
     rs_txn = snapshot_of m, rs_seen = 0\<rparr>"

inductive race_step :: "view \<Rightarrow> race \<Rightarrow> race \<Rightarrow> bool" for v where
  begin_commit:
    "rs_commit s = None \<Longrightarrow> constmeta_txnid (rs_page s) < meta_txnid_a p \<Longrightarrow> meta_txnid_b p = meta_txnid_a p \<Longrightarrow>
     race_step v s (s\<lparr>rs_commit := Some (0, bootid, p), rs_published := (rs_published s)(meta_txnid_a p \<mapsto> snapshot_of p)\<rparr>)"
| store:
    "rs_commit s = Some (k, bootid, p) \<Longrightarrow>
     race_step v s (s\<lparr>rs_page := (commit_stores bootid p ! k) (rs_page s),
       rs_commit := (if Suc k < length (commit_stores bootid p) then Some (Suc k, bootid, p) else None)\<rparr>)"
| part_of_store:
    "rs_commit s = Some (k, bootid, p) \<Longrightarrow> 3 \<le> k \<Longrightarrow> k \<le> 6 \<Longrightarrow>
     (commit_stores bootid p ! k) m = (commit_stores bootid p ! k) (rs_page s) \<Longrightarrow> race_step v s (s\<lparr>rs_page := m\<rparr>)"
| sign_head:
    "rs_commit s = None \<Longrightarrow> race_step v s (s\<lparr>rs_page := (rs_page s)\<lparr>meta_sign := sign\<rparr>\<rparr>)"
| tap_a:
    "rs_pc s = Tap_a \<Longrightarrow>
     race_step v s (s\<lparr>rs_txn := (rs_txn s)\<lparr>sn_txnid := meta_txnid_a (rs_page s)\<rparr>, rs_pc := Tap_b\<rparr>)"
| tap_b:
    "rs_pc s = Tap_b \<Longrightarrow>
     race_step v s (s\<lparr>rs_pc := (if meta_txnid_b (rs_page s) = sn_txnid (rs_txn s) \<and> MIN_TXNID \<le> sn_txnid (rs_txn s)
       then Copy_geo else Tap_a)\<rparr>)"
| copy_geo:
    "rs_pc s = Copy_geo \<Longrightarrow> g = meta_geometry (rs_page s) \<or> meta_txnid_b (rs_page s) \<noteq> sn_txnid (rs_txn s) \<Longrightarrow>
     race_step v s (s\<lparr>rs_txn := (rs_txn s)\<lparr>sn_geo := g\<rparr>, rs_pc := Copy_gc\<rparr>)"
| copy_gc:
    "rs_pc s = Copy_gc \<Longrightarrow> t = meta_gc (rs_page s) \<or> meta_txnid_b (rs_page s) \<noteq> sn_txnid (rs_txn s) \<Longrightarrow>
     race_step v s (s\<lparr>rs_txn := (rs_txn s)\<lparr>sn_gc := t\<rparr>, rs_pc := Copy_main\<rparr>)"
| copy_main:
    "rs_pc s = Copy_main \<Longrightarrow> t = meta_main (rs_page s) \<or> meta_txnid_b (rs_page s) \<noteq> sn_txnid (rs_txn s) \<Longrightarrow>
     race_step v s (s\<lparr>rs_txn := (rs_txn s)\<lparr>sn_main := t\<rparr>, rs_pc := Copy_canary\<rparr>)"
| copy_canary:
    "rs_pc s = Copy_canary \<Longrightarrow> c = meta_canary (rs_page s) \<or> meta_txnid_b (rs_page s) \<noteq> sn_txnid (rs_txn s) \<Longrightarrow>
     race_step v s (s\<lparr>rs_txn := (rs_txn s)\<lparr>sn_canary := c\<rparr>, rs_pc := Check\<rparr>)"
| check:
    "rs_pc s = Check \<Longrightarrow>
     race_step v s (s\<lparr>rs_pc := (if fst (coherency_check v (sn_txnid (rs_txn s)) (sn_gc (rs_txn s)) (sn_main (rs_txn s))
       (rs_page s) True 0) then Check_a else Tap_a)\<rparr>)"
| check_a:
    "rs_pc s = Check_a \<Longrightarrow> race_step v s (s\<lparr>rs_seen := meta_txnid_a (rs_page s), rs_pc := Check_b\<rparr>)"
| check_b:
    "rs_pc s = Check_b \<Longrightarrow>
     race_step v s (s\<lparr>rs_pc := (if (if rs_seen s \<noteq> meta_txnid_b (rs_page s) then 0 else rs_seen s) = sn_txnid (rs_txn s)
       then Accepted else Tap_a)\<rparr>)"

inductive race_reachable :: "view \<Rightarrow> meta \<Rightarrow> race \<Rightarrow> bool" for v m where
  init: "whole m \<Longrightarrow> race_reachable v m (race_init m)"
| step: "race_reachable v m s \<Longrightarrow> race_step v s s' \<Longrightarrow> race_reachable v m s'"

subsection \<open>The writer\<close>

definition published_page :: "race \<Rightarrow> bool" where
  "published_page s \<longleftrightarrow> whole (rs_page s) \<and> rs_published s (meta_txnid_a (rs_page s)) = Some (snapshot_of (rs_page s))"

definition written :: "nat \<Rightarrow> meta \<Rightarrow> meta \<Rightarrow> bool" where
  "written k p m \<longleftrightarrow> meta_txnid_b m = 0 \<and> (2 \<le> k \<longrightarrow> meta_txnid_a m = meta_txnid_a p) \<and>
     (4 \<le> k \<longrightarrow> meta_geometry m = meta_geometry p) \<and> (5 \<le> k \<longrightarrow> meta_gc m = meta_gc p) \<and>
     (6 \<le> k \<longrightarrow> meta_main m = meta_main p) \<and> (7 \<le> k \<longrightarrow> meta_canary m = meta_canary p)"

definition known_upto :: "race \<Rightarrow> txnid \<Rightarrow> bool" where
  "known_upto s t \<longleftrightarrow> (\<forall>u. rs_published s u \<noteq> None \<longrightarrow> u \<le> t)"

definition writer_ok :: "race \<Rightarrow> bool" where
  "writer_ok s \<longleftrightarrow>
     (case rs_commit s of
        None \<Rightarrow> published_page s \<and> known_upto s (meta_txnid_a (rs_page s))
      | Some (k, bootid, p) \<Rightarrow>
          k \<le> 10 \<and> 1 \<le> meta_txnid_a p \<and> meta_txnid_b p = meta_txnid_a p \<and> known_upto s (meta_txnid_a p) \<and>
          rs_published s (meta_txnid_a p) = Some (snapshot_of p) \<and>
          (if k = 0 then published_page s \<and> meta_txnid_a (rs_page s) < meta_txnid_a p
           else if k < 10 then written k p (rs_page s)
           else meta_txnid_b (rs_page s) = meta_txnid_a p \<and> snapshot_of (rs_page s) = snapshot_of p))"

lemma snapshot_of_eq:
  "snapshot_of a = snapshot_of b \<longleftrightarrow> meta_txnid_a a = meta_txnid_a b \<and> meta_geometry a = meta_geometry b \<and>
     meta_gc a = meta_gc b \<and> meta_main a = meta_main b \<and> meta_canary a = meta_canary b"
  by (simp add: snapshot_of_def)

text \<open>A page that carries a transaction id in its last field is the page of that transaction.\<close>

lemma writer_ok_whole:
  assumes "writer_ok s" "meta_txnid_b (rs_page s) = t" "1 \<le> t"
  shows "rs_published s t = Some (snapshot_of (rs_page s))" "meta_txnid_a (rs_page s) = t"
  using assms
  by (auto simp: writer_ok_def published_page_def whole_def written_def snapshot_of_eq split: option.splits if_splits)

lemma length_commit_stores: "length (commit_stores bootid p) = 11"
  by (simp add: commit_stores_def)

lemma le_10_cases: "k \<le> (10 :: nat) \<Longrightarrow> k = 0 \<or> k = 1 \<or> k = 2 \<or> k = 3 \<or> k = 4 \<or> k = 5 \<or> k = 6 \<or> k = 7 \<or> k = 8 \<or> k = 9 \<or> k = 10"
  by presburger

lemma writer_ok_store:
  assumes "writer_ok s" "rs_commit s = Some (k, bootid, p)"
  shows "writer_ok (s\<lparr>rs_page := (commit_stores bootid p ! k) (rs_page s),
    rs_commit := (if Suc k < length (commit_stores bootid p) then Some (Suc k, bootid, p) else None)\<rparr>)"
proof -
  have "k \<le> 10" using assms by (simp add: writer_ok_def)
  from le_10_cases[OF this] show ?thesis
    by (elim disjE)
      (use assms in \<open>simp_all add: writer_ok_def length_commit_stores commit_stores_def written_def snapshot_of_eq
        published_page_def whole_def known_upto_def snapshot_of_def\<close>)
qed

lemma part_of_store_keeps:
  assumes "3 \<le> k" "k \<le> 6" "(commit_stores bootid p ! k) m = (commit_stores bootid p ! k) m'"
  shows "written k q m \<longleftrightarrow> written k q m'" "meta_txnid_b m = meta_txnid_b m'"
proof -
  have same: "f ((commit_stores bootid p ! k) m) = f ((commit_stores bootid p ! k) m')" for f using assms(3) by simp
  have "k = 3 \<or> k = 4 \<or> k = 5 \<or> k = 6" using assms by linarith
  then show "written k q m \<longleftrightarrow> written k q m'" "meta_txnid_b m = meta_txnid_b m'"
    using same[of meta_txnid_b] same[of meta_txnid_a] same[of meta_geometry] same[of meta_gc] same[of meta_main]
    by (elim disjE; simp add: commit_stores_def written_def)+
qed

lemma writer_ok_reader [simp]:
  "writer_ok (s\<lparr>rs_pc := pc\<rparr>) \<longleftrightarrow> writer_ok s" "writer_ok (s\<lparr>rs_txn := t\<rparr>) \<longleftrightarrow> writer_ok s"
  "writer_ok (s\<lparr>rs_seen := u\<rparr>) \<longleftrightarrow> writer_ok s"
  by (cases "rs_commit s"; auto simp: writer_ok_def published_page_def known_upto_def)+

lemma writer_ok_step: "race_step v s s' \<Longrightarrow> writer_ok s \<Longrightarrow> writer_ok s'"
proof (induction rule: race_step.induct)
  case (begin_commit s p bootid)
  then show ?case
    by (auto simp: writer_ok_def published_page_def whole_def constmeta_txnid_def known_upto_def intro: less_imp_le)
next
  case (store s k bootid p)
  then show ?case by (intro writer_ok_store)
next
  case (part_of_store s k bootid p m)
  then show ?case using part_of_store_keeps(1)[of k bootid p m "rs_page s"] by (simp add: writer_ok_def known_upto_def)
next
  case (sign_head s sign)
  then show ?case by (auto simp: writer_ok_def published_page_def whole_def known_upto_def snapshot_of_def)
qed simp_all

subsection \<open>The reader\<close>

fun pc_index :: "pc \<Rightarrow> nat" where
  "pc_index Tap_a = 0" | "pc_index Tap_b = 1" | "pc_index Copy_geo = 2" | "pc_index Copy_gc = 3" | "pc_index Copy_main = 4"
| "pc_index Copy_canary = 5" | "pc_index Check = 6" | "pc_index Check_a = 7" | "pc_index Check_b = 8" | "pc_index Accepted = 9"

definition copied :: "race \<Rightarrow> bool" where
  "copied s \<longleftrightarrow> (let i = pc_index (rs_pc s); m = rs_page s; t = rs_txn s in
     (3 \<le> i \<longrightarrow> sn_geo t = meta_geometry m) \<and> (4 \<le> i \<longrightarrow> sn_gc t = meta_gc m) \<and> (5 \<le> i \<longrightarrow> sn_main t = meta_main m) \<and>
     (6 \<le> i \<longrightarrow> sn_canary t = meta_canary m))"

text \<open>
  While the reader copies, the transaction is a published one; it is not the one a commit is writing (unless that commit
  has already stored its last field); and as long as the page carries it, what was copied is what the page holds.
\<close>

definition reader_ok :: "race \<Rightarrow> bool" where
  "reader_ok s \<longleftrightarrow>
     (rs_pc s = Accepted \<longrightarrow> rs_published s (sn_txnid (rs_txn s)) = Some (rs_txn s)) \<and>
     (2 \<le> pc_index (rs_pc s) \<and> rs_pc s \<noteq> Accepted \<longrightarrow>
        1 \<le> sn_txnid (rs_txn s) \<and> rs_published s (sn_txnid (rs_txn s)) \<noteq> None \<and>
        (\<forall>k bootid p. rs_commit s = Some (k, bootid, p) \<and> k \<le> 9 \<longrightarrow> sn_txnid (rs_txn s) < meta_txnid_a p) \<and>
        (meta_txnid_b (rs_page s) = sn_txnid (rs_txn s) \<longrightarrow> copied s))"


lemmas reader_fields = reader_ok_def copied_def Let_def

lemma reader_tap:
  assumes "writer_ok s" "meta_txnid_b (rs_page s) = t" "1 \<le> t"
  shows "rs_published s t \<noteq> None" "rs_commit s = Some (k, bootid, p) \<Longrightarrow> k \<le> 9 \<Longrightarrow> t < meta_txnid_a p"
  using writer_ok_whole[OF assms] assms
  by (auto simp: writer_ok_def written_def split: if_splits)

lemma store_seen:
  assumes "writer_ok s" "rs_commit s = Some (k, bootid, p)" "1 \<le> t" "k \<le> 9 \<Longrightarrow> t < meta_txnid_a p"
    "meta_txnid_b ((commit_stores bootid p ! k) (rs_page s)) = t"
  shows "meta_txnid_b (rs_page s) = t \<and> snapshot_of ((commit_stores bootid p ! k) (rs_page s)) = snapshot_of (rs_page s)"
proof -
  have "k \<le> 10" using assms by (simp add: writer_ok_def)
  from le_10_cases[OF this] show ?thesis
    by (elim disjE) (use assms in \<open>simp_all add: writer_ok_def commit_stores_def written_def snapshot_of_def\<close>)
qed

lemma copied_snapshot:
  "copied s \<Longrightarrow> snapshot_of m = snapshot_of (rs_page s) \<Longrightarrow> rs_txn s' = rs_txn s \<Longrightarrow> rs_pc s' = rs_pc s \<Longrightarrow> rs_page s' = m \<Longrightarrow> copied s'"
  by (simp add: copied_def Let_def snapshot_of_eq)

lemma reader_ok_step: "race_step v s s' \<Longrightarrow> writer_ok s \<Longrightarrow> reader_ok s \<Longrightarrow> reader_ok s'"
proof (induction rule: race_step.induct)
  case (begin_commit s p bootid)
  then have w: "known_upto s (meta_txnid_a (rs_page s))" "meta_txnid_a (rs_page s) < meta_txnid_a p"
    by (auto simp: writer_ok_def published_page_def whole_def constmeta_txnid_def)
  then have "rs_published s t \<noteq> None \<Longrightarrow> t < meta_txnid_a p" for t by (meson known_upto_def le_less_trans)
  moreover from this have "rs_published s (meta_txnid_a p) = None" by blast
  ultimately show ?case using begin_commit by (auto simp: reader_fields)
next
  case (store s k bootid p)
  let ?s = "s\<lparr>rs_page := (commit_stores bootid p ! k) (rs_page s),
    rs_commit := (if Suc k < length (commit_stores bootid p) then Some (Suc k, bootid, p) else None)\<rparr>"
  show ?case
  proof (cases "2 \<le> pc_index (rs_pc s) \<and> rs_pc s \<noteq> Accepted")
    case True
    have t: "1 \<le> sn_txnid (rs_txn s)" "k \<le> 9 \<Longrightarrow> sn_txnid (rs_txn s) < meta_txnid_a p"
      and pub: "rs_published s (sn_txnid (rs_txn s)) \<noteq> None"
      using True store by (auto simp: reader_ok_def)
    have "copied ?s" if "meta_txnid_b (rs_page ?s) = sn_txnid (rs_txn s)"
    proof -
      have seen: "meta_txnid_b (rs_page s) = sn_txnid (rs_txn s) \<and> snapshot_of (rs_page ?s) = snapshot_of (rs_page s)"
        using store_seen[OF store(2,1) t(1)] t(2) that by simp
      then have "copied s" using store(3) True by (simp add: reader_ok_def)
      then show ?thesis by (rule copied_snapshot[where m = "rs_page ?s"]) (use seen in simp_all)
    qed
    then show ?thesis unfolding reader_ok_def using t pub True by (simp add: length_commit_stores)
  qed (use store(3) in \<open>auto simp: reader_ok_def\<close>)
next
  case (part_of_store s k bootid p m)
  then have "meta_txnid_b (rs_page s) = 0" by (auto simp: writer_ok_def written_def split: if_splits)
  then have "meta_txnid_b m = 0" using part_of_store_keeps(2)[of k bootid p m "rs_page s"] part_of_store by simp
  then show ?case using part_of_store by (auto simp: reader_ok_def)
next
  case (tap_b s)
  then show ?case using reader_tap[of s "sn_txnid (rs_txn s)"] by (auto simp: reader_fields MIN_TXNID_def)
next
  case (check_b s)
  let ?t = "sn_txnid (rs_txn s)"
  show ?case
  proof (cases "(if rs_seen s \<noteq> meta_txnid_b (rs_page s) then 0 else rs_seen s) = ?t")
    case True
    have t: "1 \<le> ?t" using check_b by (simp add: reader_ok_def)
    then have b: "meta_txnid_b (rs_page s) = ?t" using True by (auto split: if_splits)
    have "rs_published s ?t = Some (snapshot_of (rs_page s))" "meta_txnid_a (rs_page s) = ?t"
      using writer_ok_whole[OF check_b(2) b t] by simp_all
    moreover have "rs_txn s = snapshot_of (rs_page s)"
      using check_b b calculation(2) by (cases "rs_txn s") (simp add: reader_fields snapshot_of_def)
    ultimately show ?thesis using True by (simp add: reader_ok_def)
  next
    case False
    then show ?thesis by (simp add: reader_ok_def)
  qed
qed (auto simp: reader_fields)

lemma race_reachable_ok: "race_reachable v m s \<Longrightarrow> writer_ok s \<and> reader_ok s"
proof (induction rule: race_reachable.induct)
  case init
  then show ?case
    by (simp add: race_init_def writer_ok_def published_page_def known_upto_def reader_ok_def)
next
  case (step s s')
  then show ?case using writer_ok_step reader_ok_step by blast
qed


subsection \<open>A reader that is not disturbed\<close>

text \<open>Without steps of the writer the relation runs as \<^const>\<open>coherency_fetch_head\<close> does.\<close>

lemma fetch_head_whole:
  assumes "whole m" "fst (coherency_check v (meta_txnid_a m) (meta_gc m) (meta_main m) m (timestamp = 0) n)"
  shows "coherency_fetch_head v now (meta_txnid_a m) m timestamp n =
    (let (rc, txn) = accept_head (snapshot_of m) m
     in (rc, txn, timestamp, snd (coherency_check v (meta_txnid_a m) (meta_gc m) (meta_main m) m (timestamp = 0) n)))"
proof -
  have "meta_txnid m = meta_txnid_a m" using assms(1) by (simp add: meta_txnid_def meta_snap_def Let_def whole_def)
  then show ?thesis using assms(2)
    by (cases "coherency_check v (meta_txnid_a m) (meta_gc m) (meta_main m) m (timestamp = 0) n")
      (simp add: coherency_fetch_head_def snapshot_of_def Let_def)
qed

lemma coherency_check_fst: "fst (coherency_check v t gc main m r n) = fst (coherency_check v t gc main m True 0)"
  by (simp add: coherency_check_def Let_def)

lemma snapshot_full: "t\<lparr>sn_txnid := a, sn_geo := b, sn_gc := c, sn_main := d, sn_canary := e\<rparr> =
    \<lparr>sn_txnid = a, sn_geo = b, sn_gc = c, sn_main = d, sn_canary = e\<rparr>"
  by (cases t) simp

lemma reader_alone:
  assumes "race_reachable v m s" "rs_pc s = Tap_a" "whole (rs_page s)"
    "fst (coherency_check v (meta_txnid_a (rs_page s)) (meta_gc (rs_page s)) (meta_main (rs_page s)) (rs_page s) True 0)"
  shows "race_reachable v m (s\<lparr>rs_txn := snapshot_of (rs_page s), rs_seen := meta_txnid_a (rs_page s), rs_pc := Accepted\<rparr>)"
proof -
  let ?m = "rs_page s" and ?t = "meta_txnid_a (rs_page s)"
  have w: "meta_txnid_b ?m = ?t" "1 \<le> ?t" using assms(3) by (simp_all add: whole_def)
  have "race_reachable v m (s\<lparr>rs_txn := (rs_txn s)\<lparr>sn_txnid := ?t\<rparr>, rs_pc := Tap_b\<rparr>)"
    using race_reachable.step[OF assms(1) race_step.tap_a[OF assms(2)]] .
  from race_reachable.step[OF this race_step.tap_b]
  have "race_reachable v m (s\<lparr>rs_txn := (rs_txn s)\<lparr>sn_txnid := ?t\<rparr>, rs_pc := Copy_geo\<rparr>)"
    using w by (simp add: MIN_TXNID_def)
  from race_reachable.step[OF this race_step.copy_geo[of _ "meta_geometry ?m"]]
  have "race_reachable v m (s\<lparr>rs_txn := (rs_txn s)\<lparr>sn_txnid := ?t, sn_geo := meta_geometry ?m\<rparr>, rs_pc := Copy_gc\<rparr>)"
    by simp
  from race_reachable.step[OF this race_step.copy_gc[of _ "meta_gc ?m"]]
  have "race_reachable v m (s\<lparr>rs_txn := (rs_txn s)\<lparr>sn_txnid := ?t, sn_geo := meta_geometry ?m, sn_gc := meta_gc ?m\<rparr>,
      rs_pc := Copy_main\<rparr>)" by simp
  from race_reachable.step[OF this race_step.copy_main[of _ "meta_main ?m"]]
  have "race_reachable v m (s\<lparr>rs_txn := (rs_txn s)\<lparr>sn_txnid := ?t, sn_geo := meta_geometry ?m, sn_gc := meta_gc ?m,
      sn_main := meta_main ?m\<rparr>, rs_pc := Copy_canary\<rparr>)" by simp
  from race_reachable.step[OF this race_step.copy_canary[of _ "meta_canary ?m"]]
  have "race_reachable v m (s\<lparr>rs_txn := (rs_txn s)\<lparr>sn_txnid := ?t, sn_geo := meta_geometry ?m, sn_gc := meta_gc ?m,
      sn_main := meta_main ?m, sn_canary := meta_canary ?m\<rparr>, rs_pc := Check\<rparr>)" by simp
  then have "race_reachable v m (s\<lparr>rs_txn := snapshot_of ?m, rs_pc := Check\<rparr>)" by (simp only: snapshot_of_def snapshot_full)
  from race_reachable.step[OF this race_step.check]
  have "race_reachable v m (s\<lparr>rs_txn := snapshot_of ?m, rs_pc := Check_a\<rparr>)"
    using assms(4) by (simp add: snapshot_of_def)
  from race_reachable.step[OF this race_step.check_a]
  have "race_reachable v m (s\<lparr>rs_txn := snapshot_of ?m, rs_seen := ?t, rs_pc := Check_b\<rparr>)" by simp
  from race_reachable.step[OF this race_step.check_b] show ?thesis using w by (simp add: snapshot_of_def)
qed

text \<open>
  C6. A reader never uses a torn snapshot: however its copying is interleaved with the stores of commits into the same
  meta page, when it accepts what it has copied, that is the geometry, the trees and the canary that were committed
  under the transaction id it has.
\<close>

theorem accepted_snapshot_published:
  assumes "race_reachable v m s" and "rs_pc s = Accepted"
  shows "rs_published s (sn_txnid (rs_txn s)) = Some (rs_txn s)"
  using race_reachable_ok[OF assms(1)] assms(2) by (simp add: reader_ok_def)


theorem accepted_snapshot_published_witness:
  "race_reachable (\<lparr>v_mapped = False, v_ps = 4096, v_limit = 0, v_page_txnid = \<lambda>_. 0\<rparr>) (sample_meta 5 DATASIGN_WEAK)
     ((race_init (sample_meta 5 DATASIGN_WEAK))\<lparr>rs_txn := snapshot_of (sample_meta 5 DATASIGN_WEAK), rs_seen := 5, rs_pc := Accepted\<rparr>) \<and>
   rs_published (race_init (sample_meta 5 DATASIGN_WEAK)) 5 = Some (snapshot_of (sample_meta 5 DATASIGN_WEAK))"
proof -
  let ?v = "\<lparr>v_mapped = False, v_ps = 4096, v_limit = 0, v_page_txnid = \<lambda>_. 0\<rparr> :: view"
  let ?m = "sample_meta 5 DATASIGN_WEAK"
  let ?s = "(race_init ?m)\<lparr>rs_txn := snapshot_of ?m, rs_seen := 5, rs_pc := Accepted\<rparr>"
  have w: "whole ?m" by (simp add: whole_def sample_meta_def)
  have "fst (coherency_check ?v (meta_txnid_a ?m) (meta_gc ?m) (meta_main ?m) ?m True 0)"
    by (simp add: coherency_check_def bad_root_def bad_mod_txnid_def bad_root_txnid_def root_page_def sample_meta_def sample_tree_def P_INVALID_def)
  then have "race_reachable ?v ?m ?s"
    using reader_alone[OF race_reachable.init[OF w], of ?v] w by (simp add: race_init_def sample_meta_def)
  then show ?thesis using accepted_snapshot_published[of ?v ?m ?s] by (simp add: snapshot_of_def sample_meta_def)
qed

end
