(* ===== verification/Meta_Sync.thy ===== *)
theory Meta_Sync
  imports Coherency
begin

text \<open>
  The second half of \<^verbatim>\<open>dxb_sync_locked\<close>: the new meta goes to its page, through the map or with
  \<^verbatim>\<open>pwrite\<close>, and is flushed; an error up to here writes the old page back where it can. Then the code looks at the
  page through the map until \<^verbatim>\<open>coherency_check_written\<close> finds the new meta there (a workaround for kernels
  whose page cache lags behind the file). A look that finds something else is repeated until a tenth of a second has
  passed, and then the update fails; so does the shrinking of the file after it. The page is not written back in
  these two cases: the update reports an error and marks the environment as broken, with the new meta in place. The
  results below keep the two kinds of failure apart.
\<close>

subsection \<open>The writes\<close>

text \<open>
  What the update depends on: the mode of the environment, whether the descriptor of the metas is the lazy one, and
  the answers of the operating system. \<open>mi_pwrite old new\<close> is the result of a write and what the page holds
  after it, \<open>mi_sync\<close> the result of the flush, \<open>mi_looks k\<close> what the \<open>k\<close>-th look at the page through the map finds
  and when, and \<open>mi_shrink\<close> the result of \<^verbatim>\<open>dxb_resize\<close> where the file is to be shrunk.
\<close>

record look =
  lk_view :: view
  lk_now :: nat
  lk_meta :: meta

record meta_io =
  mi_writemap :: bool
  mi_incore :: bool
  mi_nometasync :: bool
  mi_lazy_fd :: bool
  mi_bootid :: bin128
  mi_pwrite :: "meta \<Rightarrow> meta \<Rightarrow> rc \<times> meta"
  mi_sync :: rc
  mi_looks :: "nat \<Rightarrow> look"
  mi_shrink :: "rc option"

text \<open>The result, what the metas hold, and the counter of unsynced pages. The code goes on to the looks on success only.\<close>

definition write_meta :: "meta_io \<Rightarrow> meta list \<Rightarrow> nat \<Rightarrow> nat \<Rightarrow> bool \<Rightarrow> meta \<Rightarrow> rc \<times> meta list \<times> nat" where
  "write_meta io metas unsynced n is_head pending =
     (let target = metas ! n;
          outcome = (\<lambda>rc m u. (rc, metas[n := m], u))
      in if mi_writemap io
         then (let target = (if is_head then target\<lparr>meta_sign := meta_sign pending\<rparr>
                             else commit_writemap (mi_bootid io) pending target)
               in outcome (if mi_incore io then MDBX_SUCCESS else mi_sync io) target unsynced)
         else (let (rc, written) = mi_pwrite io target pending in
               if rc \<noteq> MDBX_SUCCESS then outcome rc (snd (mi_pwrite io written target)) unsynced
               else if mi_lazy_fd io \<and> \<not> mi_incore io
                    then (if mi_nometasync io then outcome MDBX_SUCCESS written (unsynced + 1)
                          else if mi_sync io \<noteq> MDBX_SUCCESS
                               then outcome (mi_sync io) (snd (mi_pwrite io written target)) unsynced
                               else outcome MDBX_SUCCESS written unsynced)
                    else outcome MDBX_SUCCESS written unsynced))"

subsection \<open>The looks\<close>

text \<open>
  The loop, with the timestamp of the first failed look and the counter of incoherent pages. It has no bound of its
  own: \<open>None\<close> is a loop that goes on for ever.
\<close>

partial_function (option) check_written ::
  "(nat \<Rightarrow> look) \<Rightarrow> txnid \<Rightarrow> nat \<Rightarrow> nat option \<Rightarrow> nat \<Rightarrow> (rc \<times> nat) option" where
  "check_written looks txnid k timestamp incoherence =
     (case coherency_check_written (lk_view (looks k)) (lk_now (looks k)) txnid (lk_meta (looks k)) timestamp incoherence of
        (rc, timestamp, incoherence) \<Rightarrow>
          if rc = MDBX_SUCCESS then Some (MDBX_SUCCESS, incoherence)
          else if rc \<noteq> MDBX_RESULT_TRUE then Some (rc, incoherence)
          else check_written looks txnid (k + 1) timestamp incoherence)"

subsection \<open>The update\<close>

record sync_outcome =
  so_rc :: rc
  so_metas :: "meta list"
  so_unsynced_pages :: nat
  so_incoherence :: nat
  so_fatal :: bool

text \<open>\<open>Sync_panic\<close> is a failed assertion.\<close>

datatype sync_result = Sync_panic | Sync_return sync_outcome

definition shrink_tolerated :: "rc \<Rightarrow> bool" where
  "shrink_tolerated rc \<longleftrightarrow> rc = MDBX_SUCCESS \<or> rc = MDBX_EPERM \<or> rc = MDBX_UNABLE_EXTEND_MAPSIZE"

definition update_meta ::
  "meta_io \<Rightarrow> meta list \<Rightarrow> nat \<Rightarrow> nat \<Rightarrow> nat \<Rightarrow> bool \<Rightarrow> meta \<Rightarrow> sync_outcome option" where
  "update_meta io metas unsynced incoherence n is_head pending =
     (case write_meta io metas unsynced n is_head pending of (rc, metas, unsynced) \<Rightarrow>
        let leave = (\<lambda>rc inc. \<lparr>so_rc = rc, so_metas = metas, so_unsynced_pages = unsynced, so_incoherence = inc,
                               so_fatal = (rc \<noteq> MDBX_SUCCESS)\<rparr>)
        in if rc \<noteq> MDBX_SUCCESS then Some (leave rc incoherence)
           else case check_written (mi_looks io) (meta_txnid_a pending) 0 (Some 0) incoherence of
                  None \<Rightarrow> None
                | Some (rc, incoherence) \<Rightarrow>
                    Some (if rc \<noteq> MDBX_SUCCESS then leave rc incoherence
                          else case mi_shrink io of
                                 None \<Rightarrow> leave MDBX_SUCCESS incoherence
                               | Some rc \<Rightarrow> leave (if shrink_tolerated rc then MDBX_SUCCESS else rc) incoherence))"

text \<open>\<^const>\<open>Goal_skip\<close> is the early return.\<close>

definition sync_meta :: "meta_io \<Rightarrow> meta list \<Rightarrow> troika \<Rightarrow> nat \<Rightarrow> nat \<Rightarrow> meta \<Rightarrow> sync_result option" where
  "sync_meta io metas t unsynced incoherence pending =
     (case sync_goal metas t pending of
        Goal_panic \<Rightarrow> Some Sync_panic
      | Goal_skip \<Rightarrow> Some (Sync_return \<lparr>so_rc = MDBX_SUCCESS, so_metas = metas, so_unsynced_pages = unsynced,
                                      so_incoherence = incoherence, so_fatal = False\<rparr>)
      | Goal_head n \<Rightarrow> map_option Sync_return (update_meta io metas unsynced incoherence n True pending)
      | Goal_tail n \<Rightarrow> map_option Sync_return (update_meta io metas unsynced incoherence n False pending))"

subsection \<open>What a write leaves\<close>

text \<open>What the code relies on in \<^verbatim>\<open>pwrite\<close>: a write that succeeds has written the page.\<close>

definition pwrite_ok :: "meta_io \<Rightarrow> bool" where
  "pwrite_ok io \<longleftrightarrow> (\<forall>old new. fst (mi_pwrite io old new) = MDBX_SUCCESS \<longrightarrow> snd (mi_pwrite io old new) = new)"

lemma pwrite_okD: "pwrite_ok io \<Longrightarrow> mi_pwrite io old new = (MDBX_SUCCESS, w) \<Longrightarrow> w = new"
  unfolding pwrite_ok_def by (metis fst_conv snd_conv)

text \<open>What a successful update leaves, whichever way it was written.\<close>

definition published :: "meta list \<Rightarrow> meta \<Rightarrow> bool" where
  "published metas pending \<longleftrightarrow>
     (let t = meta_tap metas in
      mp_txnid (meta_recent t) = meta_txnid_a pending \<and> mp_is_steady (meta_recent t) = meta_is_steady pending \<and>
      same_payload (metas ! mp_index (meta_recent t)) pending)"

lemma published_tail:
  assumes "length metas = 3" "1 \<le> meta_txnid_a pending" "mp_txnid (meta_recent (meta_tap metas)) < meta_txnid_a pending"
    "meta_txnid_a m = meta_txnid_a pending" "meta_txnid_b m = meta_txnid_a pending" "meta_sign m = meta_sign pending"
    "same_payload m pending"
  shows "published (metas[TROIKA_TAIL (meta_tap metas) := m]) pending"
proof -
  let ?n = "TROIKA_TAIL (meta_tap metas)"
  have "meta_snap m = (meta_txnid_a pending, meta_is_steady pending)"
    using snap_whole[OF assms(4,5,2)] assms(6) by (simp add: meta_is_steady_def)
  note h = new_tail[OF assms(1,3) this]
  have "mp_index (meta_recent (meta_tap (metas[?n := m]))) = ?n" using h(1) by (simp add: meta_recent_def troika_ptr_def)
  then show ?thesis using h assms(1,7) tail_facts(1)[of metas] by (simp add: published_def Let_def)
qed

lemma published_writemap:
  assumes "length metas = 3" "1 \<le> meta_txnid_a pending" "mp_txnid (meta_recent (meta_tap metas)) < meta_txnid_a pending"
    "meta_txnid_b pending = meta_txnid_a pending"
  shows "published (metas[TROIKA_TAIL (meta_tap metas) := commit_writemap b pending m]) pending"
  using assms(4)
  by (intro published_tail assms(1,2,3))
     (simp_all add: commit_writemap_def meta_update_begin_def meta_update_end_def Let_def same_payload_def)

lemma write_meta_cases:
  assumes "pwrite_ok io" and r: "write_meta io metas unsynced n False pending = (rc, metas', u)"
  shows "rc = MDBX_SUCCESS \<Longrightarrow>
       metas' = metas[n := commit_writemap (mi_bootid io) pending (metas ! n)] \<or> metas' = metas[n := pending]"
    "rc \<noteq> MDBX_SUCCESS \<Longrightarrow> \<not> mi_writemap io \<Longrightarrow>
       fst (mi_pwrite io (snd (mi_pwrite io (metas ! n) pending)) (metas ! n)) = MDBX_SUCCESS \<Longrightarrow> metas' = metas"
proof -
  obtain e v where pw: "mi_pwrite io (metas ! n) pending = (e, v)" by fastforce
  obtain e' v' where pw': "mi_pwrite io v (metas ! n) = (e', v')" by fastforce
  show "metas' = metas[n := commit_writemap (mi_bootid io) pending (metas ! n)] \<or> metas' = metas[n := pending]"
    if "rc = MDBX_SUCCESS"
    using that r pwrite_okD[OF assms(1)] pw by (auto simp: write_meta_def Let_def split: if_splits)
  show "metas' = metas"
    if "rc \<noteq> MDBX_SUCCESS" "\<not> mi_writemap io"
      "fst (mi_pwrite io (snd (mi_pwrite io (metas ! n) pending)) (metas ! n)) = MDBX_SUCCESS"
  proof -
    have "e' = MDBX_SUCCESS" using that(3) pw pw' by simp
    then have "v' = metas ! n" using pwrite_okD[OF assms(1)] pw' by simp
    then show ?thesis using that(1,2) pw pw' r by (auto simp: write_meta_def Let_def split: if_splits)
  qed
qed

lemma write_meta_published:
  assumes "length metas = 3" "1 \<le> meta_txnid_a pending" "meta_txnid_b pending = meta_txnid_a pending"
    "mp_txnid (meta_recent (meta_tap metas)) < meta_txnid_a pending" "pwrite_ok io"
    "write_meta io metas unsynced (TROIKA_TAIL (meta_tap metas)) False pending = (MDBX_SUCCESS, metas', u)"
  shows "published metas' pending"
  using write_meta_cases(1)[OF assms(5,6) refl]
proof
  assume "metas' = metas[TROIKA_TAIL (meta_tap metas) :=
    commit_writemap (mi_bootid io) pending (metas ! TROIKA_TAIL (meta_tap metas))]"
  then show ?thesis using published_writemap[OF assms(1,2,4,3)] by simp
next
  assume "metas' = metas[TROIKA_TAIL (meta_tap metas) := pending]"
  then show ?thesis using published_tail[OF assms(1,2,4) refl assms(3) refl] by (simp add: same_payload_def)
qed

subsection \<open>The looks end\<close>

text \<open>A look that finds the page written: a plausible meta of this transaction or a later one.\<close>

definition seen_written :: "look \<Rightarrow> txnid \<Rightarrow> bool" where
  "seen_written lk T \<longleftrightarrow>
     (let m = lk_meta lk in
      MIN_TXNID \<le> meta_txnid m \<and> T \<le> meta_txnid m \<and>
      fst (coherency_check (lk_view lk) (meta_txnid m) (meta_gc m) (meta_main m) m True 0))"

text \<open>The clock runs: it has a value at the first look, and some look comes after the time allowed.\<close>

definition clock_runs :: "(nat \<Rightarrow> look) \<Rightarrow> bool" where
  "clock_runs looks \<longleftrightarrow> lk_now (looks 0) \<noteq> 0 \<and>
     (\<exists>j > 0. osal_16dot16_to_monotime (65536 div 10) < sub64 (lk_now (looks j)) (lk_now (looks 0)))"

lemma check_report: "fst (coherency_check v t gc main m report inc) = fst (coherency_check v t gc main m True 0)"
  by (simp add: coherency_check_def Let_def)

lemma look_codes:
  assumes "coherency_check_written (lk_view lk) (lk_now lk) T (lk_meta lk) ts inc = (rc, ts', inc')"
  shows "seen_written lk T \<Longrightarrow> rc = MDBX_SUCCESS" "\<not> seen_written lk T \<Longrightarrow> (rc, ts') = coherency_timeout (lk_now lk) ts"
proof -
  define m where "m = lk_meta lk"
  define ok where "ok = fst (coherency_check (lk_view lk) (meta_txnid m) (meta_gc m) (meta_main m) m True 0)"
  obtain inc'' where cc: "coherency_check (lk_view lk) (meta_txnid m) (meta_gc m) (meta_main m) m
    (case ts of None \<Rightarrow> True | Some t \<Rightarrow> t = 0) inc = (ok, inc'')"
    unfolding ok_def by (metis check_report prod.collapse)
  have s: "seen_written lk T \<longleftrightarrow> MIN_TXNID \<le> meta_txnid m \<and> T \<le> meta_txnid m \<and> ok"
    by (simp add: seen_written_def Let_def m_def ok_def)
  note c = assms[folded m_def, unfolded coherency_check_written_def Let_def, unfolded cc]
  show "seen_written lk T \<Longrightarrow> rc = MDBX_SUCCESS" using c s by simp
  show "\<not> seen_written lk T \<Longrightarrow> (rc, ts') = coherency_timeout (lk_now lk) ts"
    using c s by (auto split: if_splits prod.splits)
qed

lemma check_written_seen: "seen_written (looks k) T \<Longrightarrow> \<exists>inc'. check_written looks T k ts inc = Some (MDBX_SUCCESS, inc')"
  using look_codes(1)[of "looks k" T ts inc] by (subst check_written.simps) (auto split: prod.splits)

text \<open>Until the time is over a look that fails is followed by the next one, with the same timestamp.\<close>

lemma check_written_ends:
  assumes "t0 \<noteq> 0" "osal_16dot16_to_monotime (65536 div 10) < sub64 (lk_now (looks (k + d))) t0"
  shows "\<exists>rc inc'. check_written looks T k (Some t0) inc = Some (rc, inc') \<and>
    (if rc = MDBX_SUCCESS then \<exists>i. seen_written (looks i) T else rc = MDBX_PROBLEM)"
  using assms(2)
proof (induction d arbitrary: k inc)
  case 0
  obtain rc ts inc' where c: "coherency_check_written (lk_view (looks k)) (lk_now (looks k)) T (lk_meta (looks k)) (Some t0) inc =
    (rc, ts, inc')" by (metis prod_cases3)
  show ?case
  proof (cases "seen_written (looks k) T")
    case True
    then show ?thesis using check_written_seen[of looks k T "Some t0" inc] by auto
  next
    case False
    then have "rc = MDBX_PROBLEM" using look_codes(2)[OF c] 0 assms(1) by (simp add: coherency_timeout_def)
    then show ?thesis using c by (subst check_written.simps) simp
  qed
next
  case (Suc d)
  obtain rc ts inc' where c: "coherency_check_written (lk_view (looks k)) (lk_now (looks k)) T (lk_meta (looks k)) (Some t0) inc =
    (rc, ts, inc')" by (metis prod_cases3)
  show ?case
  proof (cases "seen_written (looks k) T")
    case True
    then show ?thesis using check_written_seen[of looks k T "Some t0" inc] by auto
  next
    case False
    then have "rc = MDBX_PROBLEM \<or> rc = MDBX_RESULT_TRUE \<and> ts = Some t0"
      using look_codes(2)[OF c] assms(1) by (auto simp: coherency_timeout_def split: if_splits)
    moreover have "\<exists>rc inc''. check_written looks T (k + 1) (Some t0) inc' = Some (rc, inc'') \<and>
      (if rc = MDBX_SUCCESS then \<exists>i. seen_written (looks i) T else rc = MDBX_PROBLEM)"
      using Suc.prems by (intro Suc.IH) simp
    ultimately show ?thesis using c by (subst check_written.simps) auto
  qed
qed

lemma check_written_returns:
  assumes "clock_runs looks"
  obtains rc inc' where "check_written looks T 0 (Some 0) inc = Some (rc, inc')"
    "if rc = MDBX_SUCCESS then \<exists>i. seen_written (looks i) T else rc = MDBX_PROBLEM"
    "seen_written (looks 0) T \<Longrightarrow> rc = MDBX_SUCCESS"
proof (cases "seen_written (looks 0) T")
  case True
  obtain inc' where "check_written looks T 0 (Some 0) inc = Some (MDBX_SUCCESS, inc')"
    using check_written_seen[of looks 0, OF True] by blast
  then show ?thesis by (rule that) (use True in auto)
next
  case False
  obtain rc ts inc' where c: "coherency_check_written (lk_view (looks 0)) (lk_now (looks 0)) T (lk_meta (looks 0)) (Some 0) inc =
    (rc, ts, inc')" by (metis prod_cases3)
  from look_codes(2)[OF c False] have "rc = MDBX_RESULT_TRUE" "ts = Some (lk_now (looks 0))"
    by (auto simp: coherency_timeout_def)
  then have r: "check_written looks T 0 (Some 0) inc = check_written looks T 1 (Some (lk_now (looks 0))) inc'"
    using c by (subst check_written.simps) simp
  obtain j where j: "lk_now (looks 0) \<noteq> 0" "0 < j"
    "osal_16dot16_to_monotime (65536 div 10) < sub64 (lk_now (looks j)) (lk_now (looks 0))"
    using assms by (auto simp: clock_runs_def)
  then have "osal_16dot16_to_monotime (65536 div 10) < sub64 (lk_now (looks (1 + (j - 1)))) (lk_now (looks 0))" by simp
  from check_written_ends[where looks = looks and T = T and inc = inc', OF j(1) this] obtain rc' inc'' where
    e: "check_written looks T 1 (Some (lk_now (looks 0))) inc' = Some (rc', inc'')"
      "if rc' = MDBX_SUCCESS then \<exists>i. seen_written (looks i) T else rc' = MDBX_PROBLEM" by blast
  show ?thesis by (rule that[of rc' inc'']) (use e r False in simp_all)
qed

text \<open>The result of an update, from the results of its three parts.\<close>

definition update_rc :: "rc \<Rightarrow> rc \<Rightarrow> rc option \<Rightarrow> rc" where
  "update_rc rc rc' shrink =
     (if rc \<noteq> MDBX_SUCCESS then rc else if rc' \<noteq> MDBX_SUCCESS then rc'
      else case shrink of None \<Rightarrow> MDBX_SUCCESS | Some e \<Rightarrow> if shrink_tolerated e then MDBX_SUCCESS else e)"

lemma update_meta_run:
  assumes "write_meta io metas unsynced n h pending = (rc, metas', u)"
    "check_written (mi_looks io) (meta_txnid_a pending) 0 (Some 0) inc = Some (rc', inc')"
  shows "\<exists>r. update_meta io metas unsynced inc n h pending = Some r \<and> so_rc r = update_rc rc rc' (mi_shrink io) \<and>
    so_metas r = metas' \<and> so_fatal r = (so_rc r \<noteq> MDBX_SUCCESS)"
  using assms by (cases "mi_shrink io") (simp_all add: update_meta_def update_rc_def Let_def)

text \<open>
  C8. Publishing a transaction newer than the head never trips an assertion, and it returns as long as the clock runs;
  the environment is marked as broken exactly on an error. If the write or the flush fails, the result is that error,
  and without \<^verbatim>\<open>MDBX_WRITEMAP\<close> the metas are as before, provided the undo write succeeds. If both
  succeed, the head is the new meta with its payload and its steadiness, whatever the result: success, which needs a look that
  found the new meta through the map; \<^const>\<open>MDBX_PROBLEM\<close> when no look did so in time; or the error of shrinking
  the file. A first look that finds it, with nothing to shrink, is success.
\<close>

theorem sync_meta_publishes:
  assumes "length metas = 3" "1 \<le> meta_txnid_a pending" "meta_txnid_b pending = meta_txnid_a pending"
    "mp_txnid (meta_recent (meta_tap metas)) < meta_txnid_a pending" "pwrite_ok io" "clock_runs (mi_looks io)"
  defines "n \<equiv> TROIKA_TAIL (meta_tap metas)" and "T \<equiv> meta_txnid_a pending"
  shows "\<exists>r. sync_meta io metas (meta_tap metas) unsynced inc pending = Some (Sync_return r) \<and>
    so_fatal r = (so_rc r \<noteq> MDBX_SUCCESS) \<and>
    (if fst (write_meta io metas unsynced n False pending) \<noteq> MDBX_SUCCESS
     then so_rc r = fst (write_meta io metas unsynced n False pending) \<and>
          (\<not> mi_writemap io \<and> fst (mi_pwrite io (snd (mi_pwrite io (metas ! n) pending)) (metas ! n)) = MDBX_SUCCESS \<longrightarrow>
             so_metas r = metas)
     else published (so_metas r) pending \<and>
          (so_rc r = MDBX_SUCCESS \<longrightarrow> (\<exists>k. seen_written (mi_looks io k) T)) \<and>
          so_rc r \<in> {MDBX_SUCCESS, MDBX_PROBLEM} \<union> set_option (mi_shrink io) \<and>
          (seen_written (mi_looks io 0) T \<and> mi_shrink io = None \<longrightarrow> so_rc r = MDBX_SUCCESS))"
proof -
  obtain rc metas' u where w: "write_meta io metas unsynced n False pending = (rc, metas', u)" by (metis prod_cases3)
  obtain rc' inc' where c: "check_written (mi_looks io) T 0 (Some 0) inc = Some (rc', inc')"
    "if rc' = MDBX_SUCCESS then \<exists>i. seen_written (mi_looks io i) T else rc' = MDBX_PROBLEM"
    "seen_written (mi_looks io 0) T \<Longrightarrow> rc' = MDBX_SUCCESS"
    using check_written_returns[OF assms(6)] by metis
  obtain r where r: "update_meta io metas unsynced inc n False pending = Some r" "so_metas r = metas'"
    "so_rc r = update_rc rc rc' (mi_shrink io)" "so_fatal r = (so_rc r \<noteq> MDBX_SUCCESS)"
    using update_meta_run[OF w c(1)[unfolded T_def]] by blast
  have "sync_meta io metas (meta_tap metas) unsynced inc pending = Some (Sync_return r)"
    using goal_new[OF assms(4)] r by (simp add: sync_meta_def n_def)
  moreover have "so_rc r = rc" if "rc \<noteq> MDBX_SUCCESS" using that r by (simp add: update_rc_def)
  moreover have "(so_rc r = MDBX_SUCCESS \<longrightarrow> (\<exists>k. seen_written (mi_looks io k) T)) \<and>
      so_rc r \<in> {MDBX_SUCCESS, MDBX_PROBLEM} \<union> set_option (mi_shrink io) \<and>
      (seen_written (mi_looks io 0) T \<and> mi_shrink io = None \<longrightarrow> so_rc r = MDBX_SUCCESS)" if "rc = MDBX_SUCCESS"
    using that r(3) c(2,3) by (cases "mi_shrink io") (auto simp: update_rc_def split: if_splits)
  moreover have "published metas' pending" if "rc = MDBX_SUCCESS"
    using write_meta_published[OF assms(1-5)] w that by (simp add: n_def)
  ultimately show ?thesis using write_meta_cases(2)[OF assms(5) w] w r(2,4) by (intro exI[of _ r]) simp
qed

subsection \<open>A concrete environment\<close>

text \<open>The map shows the old page for ever: the update ends with an error, and the new meta is published.\<close>

definition sample_io :: meta_io where
  "sample_io = \<lparr>mi_writemap = False, mi_incore = False, mi_nometasync = False, mi_lazy_fd = True, mi_bootid = (1, 2),
     mi_pwrite = (\<lambda>old new. (MDBX_SUCCESS, new)), mi_sync = MDBX_SUCCESS,
     mi_looks = (\<lambda>k. \<lparr>lk_view = \<lparr>v_mapped = True, v_ps = 4096, v_limit = 0, v_page_txnid = (\<lambda>_. 0)\<rparr>,
                     lk_now = 1 + k * 10 ^ 9, lk_meta = sample_meta 4 UINT64_MAX\<rparr>),
     mi_shrink = None\<rparr>"

lemma sample_clock: "clock_runs (mi_looks sample_io)"
  by (auto simp: clock_runs_def sample_io_def sub64_def osal_16dot16_to_monotime_def intro!: exI[of _ 1])

theorem sync_meta_publishes_witness:
  "\<exists>r. sync_meta sample_io sample_metas (meta_tap sample_metas) 0 0 (sample_meta 7 UINT64_MAX) = Some (Sync_return r) \<and>
     so_rc r = MDBX_PROBLEM \<and> so_fatal r \<and> published (so_metas r) (sample_meta 7 UINT64_MAX)"
proof -
  have pending: "length sample_metas = 3" "1 \<le> meta_txnid_a (sample_meta 7 UINT64_MAX)"
    "meta_txnid_b (sample_meta 7 UINT64_MAX) = meta_txnid_a (sample_meta 7 UINT64_MAX)"
    "mp_txnid (meta_recent (meta_tap sample_metas)) < meta_txnid_a (sample_meta 7 UINT64_MAX)"
    by (simp add: sample_metas_def, simp_all only: sample_tap, simp_all add: sample_meta_def)
  have io: "pwrite_ok sample_io" "fst (write_meta sample_io sample_metas 0 n False p) = MDBX_SUCCESS" for n p
    by (simp_all add: pwrite_ok_def sample_io_def write_meta_def Let_def)
  have "\<not> seen_written (mi_looks sample_io k) (meta_txnid_a (sample_meta 7 UINT64_MAX))" for k
    by (simp add: seen_written_def sample_io_def sample_meta_def meta_txnid_def meta_snap_def Let_def)
  moreover have "mi_shrink sample_io = None" by (simp add: sample_io_def)
  ultimately show ?thesis
    using sync_meta_publishes[OF pending io(1) sample_clock, of 0 0] io(2) by auto
qed

end
