(* ===== verification/Numeric.thy ===== *)
theory Numeric
  imports Prelude
begin

text \<open>
  The arithmetic helpers of libmdbx, each against what it is meant to compute: the logarithms by de Bruijn
  multiplication (the fallbacks for compilers without built-ins) against the definition by powers of two, the
  mixer \<^verbatim>\<open>rrxmrrxmsx_0\<close>, a bijection on 64-bit words, the schoolbook 128-bit product against the product of
  the natural numbers, and the printing of fractions by \<^verbatim>\<open>ratio2digits\<close>, exact to within half a unit of the last
  digit inside its bounds, with the lemmas at the end on what happens outside of them.
\<close>

unbundle bit_operations_syntax

subsection \<open>Smearing the highest bit\<close>

text \<open>\<^verbatim>\<open>value |= value >> s\<close>; after the shifts 1, 2, 4, ... all bits below the highest one are set.\<close>

definition smear_step :: "nat \<Rightarrow> nat \<Rightarrow> nat" where
  "smear_step s v = v OR drop_bit s v"

lemma bit_smear_step:
  assumes "\<And>n. bit w n \<longleftrightarrow> (\<exists>d<k. bit v (n + d))"
  shows "bit (smear_step k w) n \<longleftrightarrow> (\<exists>d<2 * k. bit (v :: nat) (n + d))"
proof -
  have "(\<exists>d<k. bit v (n + d)) \<or> (\<exists>d<k. bit v (n + k + d)) \<longleftrightarrow> (\<exists>d<2 * k. bit v (n + d))" (is "?l \<longleftrightarrow> ?r")
  proof
    assume ?l then show ?r
    proof (elim disjE exE conjE)
      fix d assume "d < k" "bit v (n + d)" then show ?r by (intro exI[of _ d]) auto
    next
      fix d assume "d < k" "bit v (n + k + d)" then show ?r by (intro exI[of _ "k + d"]) (auto simp: ac_simps)
    qed
  next
    assume ?r
    then obtain d where d: "d < 2 * k" "bit v (n + d)" by blast
    then show ?l
    proof (cases "d < k")
      case False
      then show ?thesis using d by (intro disjI2 exI[of _ "d - k"]) auto
    qed auto
  qed
  then show ?thesis by (simp add: smear_step_def bit_or_iff bit_drop_bit_eq assms add.commute[of k])
qed

definition smear32 :: "nat \<Rightarrow> nat" where
  "smear32 v = smear_step 16 (smear_step 8 (smear_step 4 (smear_step 2 (smear_step 1 v))))"

lemma bit_smear32: "bit (smear32 v) n \<longleftrightarrow> (\<exists>d<32. bit v (n + d))"
proof -
  have "bit v m \<longleftrightarrow> (\<exists>d<1. bit v (m + d))" for m by simp
  from bit_smear_step[OF this]
  have "bit (smear_step 1 v) m \<longleftrightarrow> (\<exists>d<2. bit v (m + d))" for m by simp
  from bit_smear_step[OF this]
  have "bit (smear_step 2 (smear_step 1 v)) m \<longleftrightarrow> (\<exists>d<4. bit v (m + d))" for m by simp
  from bit_smear_step[OF this]
  have "bit (smear_step 4 (smear_step 2 (smear_step 1 v))) m \<longleftrightarrow> (\<exists>d<8. bit v (m + d))" for m by simp
  from bit_smear_step[OF this]
  have "bit (smear_step 8 (smear_step 4 (smear_step 2 (smear_step 1 v)))) m \<longleftrightarrow> (\<exists>d<16. bit v (m + d))" for m by simp
  from bit_smear_step[OF this] show ?thesis by (simp add: smear32_def)
qed

definition smear64 :: "nat \<Rightarrow> nat" where "smear64 v = smear_step 32 (smear32 v)"

lemma bit_smear64: "bit (smear64 v) n \<longleftrightarrow> (\<exists>d<64. bit v (n + d))"
  using bit_smear_step[OF bit_smear32, of v n] by (simp add: smear64_def)

lemma bit_high:
  assumes "2 ^ k \<le> v" "v < 2 ^ Suc k"
  shows "bit (v :: nat) k"
proof -
  have "v div 2 ^ k = 1" using assms by (intro div_nat_eqI) simp_all
  then show ?thesis by (simp add: bit_iff_odd)
qed

lemma no_bit_above:
  assumes "v < 2 ^ Suc k" "k < n"
  shows "\<not> bit (v :: nat) n"
proof -
  have "(2 :: nat) ^ Suc k \<le> 2 ^ n" using assms(2) by (intro power_increasing) simp_all
  then have "v div 2 ^ n = 0" using assms(1) by simp
  then show ?thesis by (simp add: bit_iff_odd)
qed

lemma smear_high:
  assumes "2 ^ k \<le> v" "v < 2 ^ Suc k"
  shows "k < 32 \<Longrightarrow> smear32 v = mask (Suc k)" "k < 64 \<Longrightarrow> smear64 v = mask (Suc k)"
proof -
  have eq: "(\<exists>d<w. bit v (n + d)) \<longleftrightarrow> n < Suc k" if "k < w" for n w
  proof
    assume "\<exists>d<w. bit v (n + d)"
    then obtain d where d: "bit v (n + d)" by blast
    then have "\<not> k < n + d" using no_bit_above[OF assms(2)] by blast
    then show "n < Suc k" by simp
  next
    assume "n < Suc k"
    then show "\<exists>d<w. bit v (n + d)" using that bit_high[OF assms] by (intro exI[of _ "k - n"]) simp
  qed
  show "k < 32 \<Longrightarrow> smear32 v = mask (Suc k)" by (rule bit_eqI) (simp add: bit_smear32 eq bit_mask_iff)
  show "k < 64 \<Longrightarrow> smear64 v = mask (Suc k)" by (rule bit_eqI) (simp add: bit_smear64 eq bit_mask_iff)
qed

lemma high_bit_exists: "0 < (v :: nat) \<Longrightarrow> \<exists>k. 2 ^ k \<le> v \<and> v < 2 ^ Suc k"
proof (induction v rule: less_induct)
  case (less v)
  show ?case
  proof (cases "v = 1")
    case False
    then have "0 < v div 2" "v div 2 < v" using less.prems by auto
    then obtain k where "2 ^ k \<le> v div 2" "v div 2 < 2 ^ Suc k" using less.IH by blast
    then have "2 ^ Suc k \<le> v" "v < 2 ^ Suc (Suc k)" by auto
    then show ?thesis by blast
  qed (auto intro: exI[of _ 0])
qed

subsection \<open>Logarithms\<close>

definition debruijn_ctz32 :: "nat list" where
  "debruijn_ctz32 = [0,  1,  28, 2,  29, 14, 24, 3, 30, 22, 20, 15, 25, 17, 4,  8,
                     31, 27, 13, 23, 21, 19, 16, 7, 26, 12, 18, 6,  11, 5,  10, 9]"

definition log2n_debruijn :: "nat \<Rightarrow> nat" where
  "log2n_debruijn value_uint32 = debruijn_ctz32 ! drop_bit 27 (value_uint32 * 0x077CB531 mod 2 ^ 32)"

lemma ctz32_table: "list_all (\<lambda>k. log2n_debruijn (2 ^ k) = k) [0..<32]"
  by (simp add: log2n_debruijn_def debruijn_ctz32_def upt_rec drop_bit_eq_div)

definition ceil_log2n :: "nat \<Rightarrow> nat" where
  "ceil_log2n v = log2n_debruijn (smear32 (v - 1) + 1)"

definition debruijn_clz64 :: "nat list" where
  "debruijn_clz64 = [63, 16, 62, 7,  15, 36, 61, 3,  6,  14, 22, 26, 35, 47, 60, 2,
                     9,  5,  28, 11, 13, 21, 42, 19, 25, 31, 34, 40, 46, 52, 59, 1,
                     17, 8,  37, 4,  23, 27, 48, 10, 29, 12, 43, 20, 32, 41, 53, 18,
                     38, 24, 49, 30, 44, 33, 54, 39, 50, 45, 55, 51, 56, 57, 58, 0]"

definition clz64 :: "nat \<Rightarrow> nat" where
  "clz64 v = debruijn_clz64 ! drop_bit 58 (smear64 v * 0x03F79D71B4CB0A89 mod 2 ^ 64)"

lemma clz64_table: "list_all (\<lambda>k. debruijn_clz64 ! drop_bit 58 (mask (Suc k) * 0x03F79D71B4CB0A89 mod 2 ^ 64) = 63 - k) [0..<64]"
  by (simp add: debruijn_clz64_def upt_rec drop_bit_eq_div mask_eq_exp_minus_1)


lemma smear32_lt: "v < 2 ^ 31 \<Longrightarrow> 0 < v \<Longrightarrow> \<exists>k<31. 2 ^ k \<le> v \<and> v < 2 ^ Suc k \<and> smear32 v = 2 ^ Suc k - 1"
proof -
  assume v: "v < 2 ^ 31" "0 < v"
  obtain k where k: "2 ^ k \<le> v" "v < 2 ^ Suc k" using high_bit_exists[OF v(2)] by blast
  have "(2 :: nat) ^ k < 2 ^ 31" using k(1) v(1) by (rule le_less_trans)
  then have "k < 31" using power_less_imp_less_exp[of "2 :: nat" k 31] by simp
  then show ?thesis using k smear_high(1)[OF k] by (auto simp: mask_eq_exp_minus_1)
qed

lemma log2n_debruijn_pow: "k < 32 \<Longrightarrow> log2n_debruijn (2 ^ k) = k"
  using ctz32_table by (simp add: list_all_iff)

lemma ceil_log2n_bounds:
  assumes "1 < v" "v < 2 ^ 31"
  shows "v \<le> 2 ^ ceil_log2n v" "2 ^ (ceil_log2n v - 1) < v" "0 < ceil_log2n v"
proof -
  obtain k where k: "k < 31" "2 ^ k \<le> v - 1" "v - 1 < 2 ^ Suc k" "smear32 (v - 1) = 2 ^ Suc k - 1"
    using smear32_lt[of "v - 1"] assms by (metis less_imp_diff_less zero_less_diff)
  have c: "ceil_log2n v = Suc k"
    using k(1,4) log2n_debruijn_pow[of "Suc k"] by (simp add: ceil_log2n_def del: power_Suc)
  show "v \<le> 2 ^ ceil_log2n v" "0 < ceil_log2n v" using c k(3) by (simp_all only: c)
  show "2 ^ (ceil_log2n v - 1) < v" using c k(2) assms(1) by simp
qed

lemma ceil_log2n_least:
  assumes "0 < v" "v < 2 ^ 31"
  shows "ceil_log2n v = (LEAST n. v \<le> 2 ^ n)"
proof (cases "v = 1")
  case True
  then show ?thesis by (simp add: ceil_log2n_def smear32_def smear_step_def log2n_debruijn_def debruijn_ctz32_def)
next
  case False
  then have v: "1 < v" using assms(1) by simp
  note b = ceil_log2n_bounds[OF v assms(2)]
  show ?thesis
  proof (rule Least_equality[symmetric])
    show "v \<le> 2 ^ ceil_log2n v" by (rule b(1))
    fix n assume n: "v \<le> 2 ^ n"
    show "ceil_log2n v \<le> n"
    proof (rule ccontr)
      assume "\<not> ceil_log2n v \<le> n"
      then have "(2 :: nat) ^ n \<le> 2 ^ (ceil_log2n v - 1)" by (intro power_increasing) auto
      then show False using n b(2) by linarith
    qed
  qed
qed

lemma clz64_spec:
  assumes "0 < v" "v < 2 ^ 64"
  shows "clz64 v < 64 \<and> 2 ^ (63 - clz64 v) \<le> v \<and> v < 2 ^ (64 - clz64 v)"
proof -
  obtain k where k: "2 ^ k \<le> v" "v < 2 ^ Suc k" using high_bit_exists[OF assms(1)] by blast
  have "(2 :: nat) ^ k < 2 ^ 64" using k(1) assms(2) by (rule le_less_trans)
  then have k64: "k < 64" using power_less_imp_less_exp[of "2 :: nat" k 64] by simp
  have "clz64 v = 63 - k"
    using clz64_table k64 smear_high(2)[OF k k64] by (simp add: clz64_def list_all_iff)
  moreover have "64 - (63 - k) = Suc k" "63 - (63 - k) = k" using k64 by simp_all
  ultimately show ?thesis using k k64 by simp
qed

subsection \<open>The mixer\<close>

definition rrxmrrxmsx_0 :: "64 word \<Rightarrow> 64 word" where
  "rrxmrrxmsx_0 v =
     (let v = v XOR ((push_bit 39 v OR drop_bit 25 v) XOR (push_bit 14 v OR drop_bit 50 v));
          v = v * 0xA24BAED4963EE407;
          v = v XOR ((push_bit 40 v OR drop_bit 24 v) XOR (push_bit 15 v OR drop_bit 49 v));
          v = v * 0x9FB21C651E98DF25
      in v XOR drop_bit 28 v)"

lemma rot_eq: "0 < n \<Longrightarrow> n < 64 \<Longrightarrow> push_bit n v OR drop_bit (64 - n) v = word_rotl n (v :: 64 word)"
proof (rule bit_word_eqI)
  fix i assume n: "0 < n" "n < 64" and i: "i < LENGTH(64)"
  have "(i + 64 - n) mod 64 = (if n \<le> i then i - n else 64 - n + i)"
    using n i by (auto simp: le_mod_geq)
  then show "bit (push_bit n v OR drop_bit (64 - n) v) i = bit (word_rotl n v) i"
    using n i by (auto simp: bit_or_iff bit_push_bit_iff bit_drop_bit_eq bit_word_rotl_iff dest: bit_imp_le_length)
qed

lemma rotl_rotl: "word_rotl m (word_rotl n w) = word_rotl ((m + n) mod 64) (w :: 64 word)"
proof (rule bit_word_eqI)
  fix i assume "i < LENGTH(64)"
  then have i: "i < 64" by simp
  define a b where "a = m mod 64" and "b = n mod 64"
  have ab: "a < 64" "b < 64" by (simp_all add: a_def b_def)
  have "(m + n) mod 64 = (a + b) mod 64" by (simp add: a_def b_def mod_simps)
  also have "\<dots> = (if a + b < 64 then a + b else a + b - 64)" using ab by (simp add: le_mod_geq)
  finally have sum: "(m + n) mod 64 = (if a + b < 64 then a + b else a + b - 64)" .
  have "((i + (64 - a)) mod 64 + (64 - b)) mod 64 = (i + (64 - a) + (64 - b)) mod 64" by (simp add: mod_simps)
  also have "\<dots> = (i + (64 - (m + n) mod 64)) mod 64"
  proof (cases "a + b < 64")
    case True
    then have "i + (64 - a) + (64 - b) = i + (64 - (a + b)) + 64" using ab by linarith
    then show ?thesis using True by (simp only: sum if_True mod_add_self2)
  next
    case False
    then have "i + (64 - a) + (64 - b) = i + (64 - (a + b - 64))" using ab by linarith
    then show ?thesis using False by (simp only: sum if_False)
  qed
  finally have "((i + (64 - m mod 64)) mod 64 + (64 - n mod 64)) mod 64 = (i + (64 - (m + n) mod 64)) mod 64"
    by (simp only: a_def b_def)
  then show "bit (word_rotl m (word_rotl n w)) i = bit (word_rotl ((m + n) mod 64) w) i"
    using i by (simp add: bit_word_rotl_iff)
qed

lemma rotl_0 [simp]: "word_rotl 0 w = (w :: 64 word)"
  by (rule bit_word_eqI) (auto simp: bit_word_rotl_iff dest: bit_imp_le_length)

definition mix_rot :: "nat \<Rightarrow> nat \<Rightarrow> 64 word \<Rightarrow> 64 word" where
  "mix_rot a b v = v XOR (word_rotl a v XOR word_rotl b v)"

lemma mix_rot_twice: "mix_rot a b (mix_rot a b v) = mix_rot ((a + a) mod 64) ((b + b) mod 64) v"
  by (simp add: mix_rot_def word_rot_logs rotl_rotl add.commute[of b a] ac_simps)

lemma mix_rot_step: "inj (mix_rot ((a + a) mod 64) ((b + b) mod 64)) \<Longrightarrow> inj (mix_rot a b)"
  by (rule injI) (metis injD mix_rot_twice)

lemma inj_mix_rot: "inj (mix_rot a b)"
proof -
  have "k \<le> 6 \<Longrightarrow> inj (mix_rot (2 ^ (6 - k) * a mod 64) (2 ^ (6 - k) * b mod 64))" for k
  proof (induction k)
    case 0
    show ?case by (auto simp: mix_rot_def intro: injI)
  next
    case (Suc k)
    then have k: "6 - k = Suc (6 - Suc k)" by simp
    have double: "(2 ^ (6 - Suc k) * c mod 64 + 2 ^ (6 - Suc k) * c mod 64) mod 64 = 2 ^ (6 - k) * c mod 64" for c :: nat
    proof -
      have "2 ^ (6 - Suc k) * c mod 64 + 2 ^ (6 - Suc k) * c mod 64 = 2 * (2 ^ (6 - Suc k) * c mod 64)" by simp
      also have "\<dots> mod 64 = 2 * (2 ^ (6 - Suc k) * c) mod 64" by (rule mod_mult_right_eq)
      finally show ?thesis unfolding k power_Suc by (simp only: mult.assoc)
    qed
    have "inj (mix_rot (2 ^ (6 - k) * a mod 64) (2 ^ (6 - k) * b mod 64))" using Suc by (meson Suc_leD)
    then have "inj (mix_rot ((2 ^ (6 - Suc k) * a mod 64 + 2 ^ (6 - Suc k) * a mod 64) mod 64)
        ((2 ^ (6 - Suc k) * b mod 64 + 2 ^ (6 - Suc k) * b mod 64) mod 64))"
      by (simp only: double)
    then show ?case by (rule mix_rot_step)
  qed
  from this[of 6] have "inj (mix_rot (a mod 64) (b mod 64))" by simp
  moreover have "mix_rot (a mod 64) (b mod 64) = mix_rot a b"
    by (simp add: mix_rot_def fun_eq_iff word_rotl_eq_word_rotr)
  ultimately show ?thesis by simp
qed

lemma inj_shift_mix: "inj (\<lambda>v :: 64 word. v XOR drop_bit 28 v)"
proof -
  let ?L = "\<lambda>n (v :: 64 word). v XOR drop_bit n v"
  have twice: "?L n (?L n v) = ?L (n + n) v" for n v
    by (rule bit_word_eqI) (auto simp: bit_xor_iff bit_drop_bit_eq ac_simps)
  have zero: "drop_bit 112 v = 0" for v :: "64 word"
    by (rule bit_word_eqI) (auto simp: bit_drop_bit_eq dest: bit_imp_le_length)
  have four: "?L 28 (?L 28 (?L 28 (?L 28 v))) = v" for v
    using twice[where n = 28] twice[where n = 56] zero by (simp only: numeral_plus_numeral add_num_simps xor.right_neutral)
  show ?thesis by (rule inj_on_inverseI[where g = "\<lambda>v. ?L 28 (?L 28 (?L 28 v))"]) (rule four)
qed

lemma inj_times: "(c :: 64 word) * d = 1 \<Longrightarrow> inj (\<lambda>v. v * c)"
proof (rule injI)
  fix x y assume inv: "c * d = 1" and "x * c = y * c"
  then have "x * c * d = y * c * d" by simp
  then show "x = y" by (simp only: mult.assoc inv mult_1_right)
qed

lemma rrxmrrxmsx_bij: "bij rrxmrrxmsx_0"
proof -
  have eq: "rrxmrrxmsx_0 = (\<lambda>v. v XOR drop_bit 28 v) \<circ> (\<lambda>v. v * 0x9FB21C651E98DF25) \<circ> mix_rot 40 15 \<circ>
    (\<lambda>v. v * 0xA24BAED4963EE407) \<circ> mix_rot 39 14"
    using rot_eq[of 39] rot_eq[of 14] rot_eq[of 40] rot_eq[of 15]
    by (simp add: rrxmrrxmsx_0_def mix_rot_def fun_eq_iff Let_def)
  have "(0x9FB21C651E98DF25 :: 64 word) * 0x2ab9c720d1024ad = 1" "(0xA24BAED4963EE407 :: 64 word) * 0x8b951323f69349b7 = 1" by simp_all
  then have "inj rrxmrrxmsx_0" unfolding eq by (intro inj_compose inj_mix_rot inj_shift_mix inj_times)
  then show ?thesis by (simp add: bij_def finite_UNIV_inj_surj)
qed

subsection \<open>The 128-bit product\<close>

text \<open>All intermediate values are 64 bits wide; the result is the pair of the low and the high half.\<close>

definition mul64x64_128_fallback :: "nat \<Rightarrow> nat \<Rightarrow> nat \<times> nat" where
  "mul64x64_128_fallback x y =
     (let xl = x AND 0xFFFFFFFF; xh = drop_bit 32 x; yl = y AND 0xFFFFFFFF; yh = drop_bit 32 y;
          ll = xl * yl mod 2 ^ 64; hh = xh * yh mod 2 ^ 64;
          hl = (xh * yl mod 2 ^ 64 + drop_bit 32 ll) mod 2 ^ 64;
          lh = (xl * yh mod 2 ^ 64 + (hl AND 0xFFFFFFFF)) mod 2 ^ 64
      in (push_bit 32 lh mod 2 ^ 64 OR (ll AND 0xFFFFFFFF),
          ((hh + drop_bit 32 hl) mod 2 ^ 64 + drop_bit 32 lh) mod 2 ^ 64))"

lemma and_low32: "(v :: nat) AND 0xFFFFFFFF = v mod 2 ^ 32"
  using take_bit_eq_mask[of 32 v] by (simp add: mask_eq_exp_minus_1 take_bit_eq_mod)

lemma or_low32:
  assumes "(b :: nat) < 2 ^ 32"
  shows "a * 2 ^ 32 OR b = a * 2 ^ 32 + b"
proof -
  have "push_bit 32 a AND b = 0"
  proof (rule bit_eqI)
    fix n
    show "bit (push_bit 32 a AND b) n = bit 0 n"
    proof (cases "n < 32")
      case False
      then have "(2 :: nat) ^ 32 \<le> 2 ^ n" by (intro power_increasing) simp_all
      then have "b div 2 ^ n = 0" using assms by simp
      then show ?thesis by (simp add: bit_and_iff bit_iff_odd[of b])
    qed (simp add: bit_and_iff bit_push_bit_iff)
  qed
  then show ?thesis using disjunctive_add_eq_or[of "push_bit 32 a" b] by (simp add: push_bit_eq_mult)
qed

text \<open>The product of two 32-bit digits and a carry fits into 64 bits.\<close>

lemma digit_product:
  assumes "a < 2 ^ 32" "b < 2 ^ 32" "c < (2 :: nat) ^ 32"
  shows "a * b + c < 2 ^ 64" "a * b < 2 ^ 64"
proof -
  have "a * b \<le> (2 ^ 32 - 1) * (2 ^ 32 - 1)" using assms by (intro mult_le_mono) simp_all
  then show "a * b + c < 2 ^ 64" "a * b < 2 ^ 64" using assms(3) by simp_all
qed

lemma schoolbook:
  fixes xl xh yl yh B :: nat
  defines "ll \<equiv> xl * yl"
  defines "hl \<equiv> xh * yl + ll div B"
  defines "lh \<equiv> xl * yh + hl mod B"
  shows "(xh * B + xl) * (yh * B + yl) = (xh * yh + hl div B + lh div B) * (B * B) + (lh mod B * B + ll mod B)"
proof -
  have ll: "xl * yl = ll div B * B + ll mod B" by (simp add: ll_def)
  have hl: "(xh * yl + ll div B) * B = hl div B * (B * B) + hl mod B * B"
    unfolding hl_def[symmetric] mult.assoc[symmetric] add_mult_distrib[symmetric] by simp
  have lh: "(xl * yh + hl mod B) * B = lh div B * (B * B) + lh mod B * B"
    unfolding lh_def[symmetric] mult.assoc[symmetric] add_mult_distrib[symmetric] by simp
  have "(xh * B + xl) * (yh * B + yl) = xh * yh * (B * B) + (xh * yl + xl * yh) * B + xl * yl"
    by (simp add: algebra_simps)
  also have "\<dots> = xh * yh * (B * B) + (xh * yl + ll div B) * B + xl * yh * B + ll mod B"
    by (simp add: ll algebra_simps)
  also have "\<dots> = xh * yh * (B * B) + hl div B * (B * B) + (xl * yh + hl mod B) * B + ll mod B"
    unfolding hl by (simp add: algebra_simps)
  also have "\<dots> = (xh * yh + hl div B + lh div B) * (B * B) + (lh mod B * B + ll mod B)"
    unfolding lh by (simp add: algebra_simps)
  finally show ?thesis .
qed

lemma high_half_lt:
  fixes h B l x y :: nat
  assumes "x * y = h * (B * B) + l" "x < B * B" "y < B * B"
  shows "h < B * B"
proof (rule ccontr)
  assume "\<not> h < B * B"
  then have "B * B * (B * B) \<le> h * (B * B)" by simp
  also have "\<dots> \<le> x * y" by (simp add: assms(1))
  also have "\<dots> < B * B * (B * B)" using assms(2,3) by (intro mult_strict_mono) (auto intro: gr0I)
  finally show False by simp
qed

text \<open>The schoolbook product of two 64-bit numbers, computed with 64-bit operations only, is the exact product.\<close>

theorem mul64x64_exact:
  assumes "x < 2 ^ 64" "y < 2 ^ 64"
  defines "r \<equiv> mul64x64_128_fallback x y"
  shows "fst r < 2 ^ 64 \<and> snd r < 2 ^ 64 \<and> snd r * 2 ^ 64 + fst r = x * y"
proof -
  define B :: nat where "B = 2 ^ 32"
  have BB: "2 ^ 64 = B * B" by (simp add: B_def)
  define xl xh yl yh where d: "xl = x mod B" "xh = x div B" "yl = y mod B" "yh = y div B"
  have lt: "xl < 2 ^ 32" "xh < 2 ^ 32" "yl < 2 ^ 32" "yh < 2 ^ 32"
    using assms(1,2) by (simp_all add: d B_def less_mult_imp_div_less)
  define ll where "ll = xl * yl"
  define hl where "hl = xh * yl + ll div B"
  define lh where "lh = xl * yh + hl mod B"
  define h where "h = xh * yh + hl div B + lh div B"
  have ll: "ll < 2 ^ 64" using digit_product(2)[OF lt(1,3), of 0] by (simp add: ll_def)
  then have "ll div B < 2 ^ 32" by (simp add: B_def less_mult_imp_div_less)
  then have hl: "hl < 2 ^ 64" "xh * yl < 2 ^ 64" using digit_product[OF lt(2,3)] by (simp_all add: hl_def)
  have lh: "lh < 2 ^ 64" "xl * yh < 2 ^ 64" using digit_product[OF lt(1,4), of "hl mod B"] by (simp_all add: lh_def B_def)
  have hh: "xh * yh < 2 ^ 64" using digit_product(2)[OF lt(2,4), of 0] by simp
  have prod: "x * y = h * (B * B) + (lh mod B * B + ll mod B)"
    using schoolbook[of xh B xl yh yl] unfolding h_def lh_def hl_def ll_def by (simp add: d)
  have hlt: "h < 2 ^ 64" using high_half_lt[OF prod] assms(1,2) by (simp only: BB)
  have low: "lh mod B * B + ll mod B < 2 ^ 64"
  proof -
    have "lh mod B * 2 ^ 32 \<le> (2 ^ 32 - 1) * 2 ^ 32" by (intro mult_le_mono1) (simp add: B_def less_Suc_eq_le[symmetric])
    moreover have "ll mod B < 2 ^ 32" by (simp add: B_def)
    ultimately show ?thesis by (simp add: B_def)
  qed
  have "push_bit 32 lh mod 2 ^ 64 = lh mod B * B"
    using mult_mod_left[of lh B B] by (simp add: push_bit_eq_mult B_def)
  then have "push_bit 32 lh mod 2 ^ 64 OR ll mod B = lh mod B * B + ll mod B"
    using or_low32[of "ll mod B" "lh mod B"] by (simp add: B_def)
  moreover have h1: "xh * yh + hl div B < 2 ^ 64" using hlt by (simp add: h_def)
  moreover have "r = (push_bit 32 lh mod 2 ^ 64 OR ll mod B, h)"
    unfolding r_def mul64x64_128_fallback_def Let_def and_low32 drop_bit_eq_div B_def[symmetric] d[symmetric]
      ll_def[symmetric] mod_less[OF ll] mod_less[OF hl(2)] hl_def[symmetric] mod_less[OF hl(1)] mod_less[OF lh(2)]
      lh_def[symmetric] mod_less[OF lh(1)] mod_less[OF hh] mod_less[OF h1] h_def[symmetric] mod_less[OF hlt] ..
  ultimately have "r = (lh mod B * B + ll mod B, h)" by simp
  then show ?thesis using low hlt prod BB by simp
qed

theorem mul64x64_exact_witness:
  "snd (mul64x64_128_fallback UINT64_MAX UINT64_MAX) * 2 ^ 64 + fst (mul64x64_128_fallback UINT64_MAX UINT64_MAX) =
     (2 ^ 64 - 1) * (2 ^ 64 - 1)"
  using mul64x64_exact[of UINT64_MAX UINT64_MAX] by (simp add: UINT64_MAX_def)

subsection \<open>Fractions as decimal digits\<close>

text \<open>
  The buffer has 42 characters, the decimal point stands at index 21, and \<open>tail\<close> is the index of the last character
  written. The digits are kept as numbers and turned into characters at the end.
\<close>

lemma half_less: "c < f \<Longrightarrow> drop_bit (Suc 0) f < (f :: nat)"
  by (simp add: drop_bit_eq_div)

function scale_down :: "nat \<Rightarrow> nat \<Rightarrow> nat \<times> nat" where
  "scale_down f m = (if UINT64_MAX div 10 < f then scale_down (drop_bit 1 f) (drop_bit 1 m) else (f, m))"
  by pat_completeness auto
termination by (relation "measure fst") (simp_all add: half_less)

declare scale_down.simps [simp del]

text \<open>The \<^verbatim>\<open>do ... while (--precision && tail < ARRAY_END(buffer->string) - 1)\<close> loop.\<close>

fun frac_loop :: "nat \<Rightarrow> nat \<Rightarrow> nat \<Rightarrow> nat \<Rightarrow> nat list \<times> nat \<times> nat \<times> nat" where
  "frac_loop 0 tail f m = ([], tail, f, m)"
| "frac_loop (Suc precision) tail f m =
     (let (f, m) = scale_down f m; f = f * 10 mod 2 ^ 64; tail = tail + 1; digit = f div m; f = f mod m
      in if precision \<noteq> 0 \<and> tail < 41
         then (let (digits, rest) = frac_loop precision tail f m in (digit # digits, rest))
         else ([digit], tail, f, m))"

text \<open>The carry runs backwards over the digits, so they are given in reverse.\<close>

fun carry_digits :: "bool \<Rightarrow> nat list \<Rightarrow> bool \<times> nat list" where
  "carry_digits carry [] = (carry, [])"
| "carry_digits carry (d # ds) =
     (if \<not> carry then (False, d # ds)
      else let (carry', ds') = carry_digits (d = 9) ds in (carry', (if d = 9 then 0 else d + 1) # ds'))"

fun int_digits :: "nat \<Rightarrow> nat list" where
  "int_digits i = (if 9 < i then int_digits (i div 10) @ [i mod 10] else [i])"

declare int_digits.simps [simp del]

definition digit_char :: "nat \<Rightarrow> char" where "digit_char d = char_of (48 + d)"

text \<open>The string, and the index at which its terminating zero is stored.\<close>

definition ratio2digits :: "nat \<Rightarrow> nat \<Rightarrow> int \<Rightarrow> string \<times> nat" where
  "ratio2digits v d precision =
     (let dot = 21; i = v div d; f = v mod d; m = d;
          (digits, tail, f, m) = (if 0 < precision then frac_loop (nat precision) dot f m else ([], dot, f, m));
          carry = (sub64 m f < m div 2);
          (carry, rev_digits) = carry_digits carry (rev digits);
          i = (i + (if carry then 1 else 0)) mod 2 ^ 64
      in (List.map digit_char (int_digits i) @ (if 0 < precision then CHR ''.'' # List.map digit_char (rev rev_digits) else []),
          tail + 1))"

function percent_scale :: "nat \<Rightarrow> nat \<Rightarrow> nat \<times> nat" where
  "percent_scale v w = (if UINT64_MAX div 100 < v then percent_scale (drop_bit 1 v) (drop_bit 1 w) else (v, w))"
  by pat_completeness auto
termination by (relation "measure fst") (simp_all add: half_less)

declare percent_scale.simps [simp del]

definition ratio2percent :: "nat \<Rightarrow> nat \<Rightarrow> string \<times> nat" where
  "ratio2percent v w =
     (let (v, w) = percent_scale v w; rough = (v \<le> w \<and> (v = 0 \<or> w div 16 < v))
      in ratio2digits (v * 100) w (if rough then 1 else 2))"

text \<open>The number a string of digits stands for, the point left out.\<close>

definition read_digits :: "string \<Rightarrow> nat" where
  "read_digits s = foldl (\<lambda>n c. if c = CHR ''.'' then n else 10 * n + (of_char c - 48)) 0 s"

definition digits_value :: "nat list \<Rightarrow> nat" where "digits_value ds = foldl (\<lambda>n d. 10 * n + d) 0 ds"

lemma digits_value_simps [simp]:
  "digits_value [] = 0" "digits_value (ds @ [d]) = 10 * digits_value ds + d"
  by (simp_all add: digits_value_def)

lemma digits_value_append: "digits_value (as @ bs) = digits_value as * 10 ^ length bs + digits_value bs"
  by (induction bs rule: rev_induct) (simp_all add: algebra_simps flip: append_assoc)

lemma digits_value_Cons: "digits_value (d # ds) = d * 10 ^ length ds + digits_value ds"
  using digits_value_append[of "[d]" ds] by (simp add: digits_value_def)

lemma digit_char_value:
  assumes "d \<le> 9"
  shows "of_char (digit_char d) - 48 = d" "digit_char d \<noteq> CHR ''.''"
proof -
  have c: "of_char (digit_char d) = 48 + d" using assms by (simp add: digit_char_def)
  then show "of_char (digit_char d) - 48 = d" by simp
  show "digit_char d \<noteq> CHR ''.''"
  proof
    assume "digit_char d = CHR ''.''"
    then have "48 + d = of_char (CHR ''.'')" using c by simp
    then show False by simp
  qed
qed

lemma read_digits_value:
  assumes "\<forall>d \<in> set ds. d \<le> 9" "\<forall>d \<in> set es. d \<le> 9"
  shows "read_digits (List.map digit_char ds @ CHR ''.'' # List.map digit_char es) = digits_value (ds @ es)"
    "read_digits (List.map digit_char ds) = digits_value ds"
proof -
  have step: "\<forall>d \<in> set ds. d \<le> 9 \<Longrightarrow> foldl (\<lambda>n c. if c = CHR ''.'' then n else 10 * n + (of_char c - 48)) n (List.map digit_char ds) =
      foldl (\<lambda>n d. 10 * n + d) n ds" for n ds
    by (induction ds arbitrary: n) (simp_all add: digit_char_value)
  show "read_digits (List.map digit_char ds @ CHR ''.'' # List.map digit_char es) = digits_value (ds @ es)"
    "read_digits (List.map digit_char ds) = digits_value ds"
    using assms by (simp_all add: read_digits_def digits_value_def step)
qed

lemma int_digits_value: "digits_value (int_digits i) = i \<and> (\<forall>d \<in> set (int_digits i). d \<le> 9)"
  by (induction i rule: int_digits.induct) (subst (1 2) int_digits.simps, auto simp: digits_value_Cons)

lemma carry_digits_value:
  fixes c :: bool
  assumes "\<forall>d \<in> set ds. d \<le> 9"
  defines "r \<equiv> carry_digits c ds"
  shows "digits_value (rev (snd r)) + (if fst r then 10 ^ length ds else 0) = digits_value (rev ds) + (if c then 1 else 0) \<and>
    length (snd r) = length ds \<and> (\<forall>d \<in> set (snd r). d \<le> 9)"
  unfolding r_def using assms(1)
proof (induction c ds rule: carry_digits.induct)
  case (2 carry d ds)
  then show ?case by (cases carry; cases "d = 9") (auto simp: split_beta Let_def)
qed simp

lemma digit_shift: "(a * m + r) * p = a * p * m + r * (p :: nat)"
  by (simp add: algebra_simps)

lemma frac_loop_value:
  assumes "f < m" "m \<le> UINT64_MAX div 10" "tail + precision \<le> 41"
  shows "\<exists>ds f'. frac_loop precision tail f m = (ds, tail + precision, f', m) \<and> length ds = precision \<and>
    (\<forall>d \<in> set ds. d \<le> 9) \<and> f * 10 ^ precision = digits_value ds * m + f' \<and> f' < m"
  using assms
proof (induction precision arbitrary: tail f)
  case (Suc precision)
  have s: "scale_down f m = (f, m)" using Suc.prems by (subst scale_down.simps) simp
  have lt: "f * 10 < 2 ^ 64" using Suc.prems(1,2) by (simp add: UINT64_MAX_def)
  let ?d = "f * 10 div m" and ?r = "f * 10 mod m"
  have d9: "?d \<le> 9" using Suc.prems(1) by (simp add: less_Suc_eq_le[symmetric] div_less_iff_less_mult)
  have r: "?r < m" using Suc.prems(1) by simp
  obtain ds f' where ih: "frac_loop precision (tail + 1) ?r m = (ds, tail + 1 + precision, f', m)" "length ds = precision"
    "\<forall>d \<in> set ds. d \<le> 9" "?r * 10 ^ precision = digits_value ds * m + f'" "f' < m"
    using Suc.IH[OF r Suc.prems(2), of "tail + 1"] Suc.prems(3) by auto
  have "frac_loop (Suc precision) tail f m = (?d # ds, tail + Suc precision, f', m)"
  proof (cases "precision = 0")
    case True
    then show ?thesis using ih s lt by (simp add: Let_def)
  next
    case False
    then have "Suc tail < 41" using Suc.prems(3) by simp
    then show ?thesis using ih(1) s lt False by (simp add: Let_def)
  qed
  moreover have "f * 10 ^ Suc precision = digits_value (?d # ds) * m + f'"
  proof -
    have "f * 10 ^ Suc precision = (?d * m + ?r) * 10 ^ precision"
      by (simp only: div_mult_mod_eq power_Suc mult.assoc)
    also have "\<dots> = ?d * 10 ^ precision * m + ?r * 10 ^ precision" by (rule digit_shift)
    also have "\<dots> = ?d * 10 ^ precision * m + (digits_value ds * m + f')" unfolding ih(4) ..
    also have "\<dots> = digits_value (?d # ds) * m + f'" using ih(2) by (simp add: digits_value_Cons algebra_simps)
    finally show ?thesis .
  qed
  ultimately show ?case using ih d9 by (intro exI[of _ "?d # ds"] exI[of _ f']) simp
qed simp


text \<open>
  The digits are the fraction, rounded: read without the point they are a number \<open>N\<close> that differs from
  \<open>v * 10^precision / d\<close> by at most \<open>(1 + 1/d) / 2\<close> of the last digit; there are \<open>precision\<close> digits after the
  point, and the terminating zero stays inside the buffer of 42 characters.
\<close>

theorem ratio2digits_rounds:
  assumes "0 < d" "d \<le> UINT64_MAX div 10" "v < UINT64_MAX" "precision < 20"
  defines "r \<equiv> ratio2digits v d (int precision)"
  shows "\<bar>int (read_digits (fst r) * d) - int (v * 10 ^ precision)\<bar> * 2 \<le> int d + 1 \<and>
    (if precision = 0 then CHR ''.'' \<notin> set (fst r) else rev (fst r) ! precision = CHR ''.'') \<and> snd r < 42"
proof -
  obtain ds f' where loop: "(if 0 < int precision then frac_loop (nat (int precision)) 21 (v mod d) d else ([], 21, v mod d, d)) = (ds, 21 + precision, f', d)"
    "length ds = precision" "\<forall>d \<in> set ds. d \<le> 9" "v mod d * 10 ^ precision = digits_value ds * d + f'" "f' < d"
    using frac_loop_value[of "v mod d" d 21 precision] assms(1,2,4) by (cases "precision = 0") auto
  define c where "c \<longleftrightarrow> d - f' < d div 2"
  have c64: "sub64 d f' < d div 2 \<longleftrightarrow> c" using loop(5) by (simp add: c_def)
  obtain cc rs where carry: "carry_digits c (rev ds) = (cc, rs)" by fastforce
  have cv: "digits_value (rev rs) + (if cc then 10 ^ precision else 0) = digits_value ds + (if c then 1 else 0)"
    "length rs = precision" "\<forall>d \<in> set rs. d \<le> 9"
    using carry_digits_value[of "rev ds" c] carry loop(2,3) by auto
  define i where "i = v div d + (if cc then 1 else 0)"
  have vd: "v div d < UINT64_MAX" using assms(3) by (rule le_less_trans[OF div_le_dividend])
  have i64: "(v div d + (if cc then 1 else 0)) mod 2 ^ 64 = i"
    using vd unfolding i_def by (intro mod_less) (auto simp: UINT64_MAX_def)
  have r: "r = (List.map digit_char (int_digits i) @ (if 0 < precision then CHR ''.'' # List.map digit_char (rev rs) else []), 22 + precision)"
    unfolding r_def ratio2digits_def Let_def loop(1) prod.case c64 carry i64 by simp
  have n: "read_digits (fst r) = i * 10 ^ precision + digits_value (rev rs)"
  proof (cases "precision = 0")
    case True
    then show ?thesis using int_digits_value[of i] cv(2) read_digits_value(2)[of "int_digits i" "[]"] by (simp add: r)
  next
    case False
    then show ?thesis using int_digits_value[of i] cv(2,3) read_digits_value(1)[of "int_digits i" "rev rs"] by (simp add: r digits_value_append)
  qed
  have "read_digits (fst r) + 0 = v div d * 10 ^ precision + (digits_value ds + (if c then 1 else 0))"
    using cv(1) by (simp add: n i_def algebra_simps split: if_splits)
  then have N: "read_digits (fst r) * d = v div d * 10 ^ precision * d + digits_value ds * d + (if c then d else 0)"
    by (simp add: algebra_simps)
  have "v * 10 ^ precision = (v div d * d + v mod d) * 10 ^ precision" by (simp only: div_mult_mod_eq)
  also have "\<dots> = v div d * 10 ^ precision * d + (digits_value ds * d + f')" unfolding loop(4)[symmetric] by (rule digit_shift)
  finally have V: "v * 10 ^ precision = v div d * 10 ^ precision * d + digits_value ds * d + f'" by simp
  have "\<bar>int (read_digits (fst r) * d) - int (v * 10 ^ precision)\<bar> * 2 \<le> int d + 1"
  proof (cases c)
    case True
    then have "2 * (d - f') \<le> d" by (simp add: c_def)
    then show ?thesis unfolding N V using True loop(5) by simp
  next
    case False
    then have "d div 2 \<le> d - f'" by (simp add: c_def)
    then have "2 * f' \<le> d + 1" using loop(5) by linarith
    then show ?thesis unfolding N V using False by simp
  qed
  moreover have "CHR ''.'' \<notin> set (fst r)" if "precision = 0"
    using that int_digits_value[of i] digit_char_value(2) by (auto simp: r) (metis digit_char_value(2))
  moreover have "rev (fst r) ! precision = CHR ''.''" if "precision \<noteq> 0"
    using that cv(2) by (simp add: r nth_append)
  ultimately show ?thesis using assms(4) by (simp add: r)
qed



text \<open>The defined equations, ready for evaluation at literal arguments.\<close>

lemmas ratio_eval = ratio2digits_def Let_def scale_down.simps UINT64_MAX_def int_digits.simps digit_char_def
  drop_bit_eq_div sub64_def

lemma char_of_codes:
  "char_of (48 :: nat) = CHR ''0''" "char_of (49 :: nat) = CHR ''1''" "char_of (51 :: nat) = CHR ''3''"
  "char_of (52 :: nat) = CHR ''4''" "char_of (54 :: nat) = CHR ''6''" "char_of (58 :: nat) = CHR '':''"
  using char_of_char[of "CHR ''0''"] char_of_char[of "CHR ''1''"] char_of_char[of "CHR ''3''"]
    char_of_char[of "CHR ''4''"] char_of_char[of "CHR ''6''"] char_of_char[of "CHR '':''"] by simp_all

lemma ratio2digits_22_7: "ratio2digits 22 7 3 = (''3.143'', 25)"
proof -
  have "frac_loop 3 t f m = frac_loop (Suc (Suc (Suc 0))) t f m" for t f m by (simp only: numeral_3_eq_3)
  then show ?thesis by (simp add: ratio_eval char_of_codes)
qed

theorem ratio2digits_rounds_witness:
  "ratio2digits 22 7 3 = (''3.143'', 25) \<and> \<bar>int (3143 * 7) - int (22 * 10 ^ 3)\<bar> * 2 \<le> int 7 + 1"
  using ratio2digits_rounds[of 7 22 3] ratio2digits_22_7 by (simp add: UINT64_MAX_def read_digits_def)

text \<open>
  Outside these bounds: two thirds with one digit are rounded down; a fraction close to one whose terms exceed
  \<open>2^60\<close> gets the digit \<open>10\<close>, printed as a colon; from twenty digits on the terminating zero is stored behind the
  buffer; and a whole that the scaling of \<^verbatim>\<open>ratio2percent\<close> shifts out becomes a division by zero.
\<close>

lemma ratio2digits_two_thirds: "fst (ratio2digits 2 3 1) = ''0.6''"
  by (simp add: ratio_eval char_of_codes)

lemma ratio2digits_colon: "fst (ratio2digits (UINT64_MAX - 1) UINT64_MAX 1) = ''0.:''"
  by (simp add: ratio_eval char_of_codes)

lemma frac_loop_tail: "fst (snd (frac_loop p t f m)) = (if p = 0 then t else max (t + 1) (min (t + p) 41))"
  by (induction p t f m rule: frac_loop.induct) (auto simp: Let_def split_beta)

lemma ratio2digits_overrun: "20 \<le> p \<Longrightarrow> snd (ratio2digits v d p) = 42"
  using frac_loop_tail[of "nat p" 21 "v mod d" d] by (auto simp: ratio2digits_def Let_def split_beta)

lemma percent_scale_zero: "percent_scale UINT64_MAX 1 = (2 ^ 57 - 1, 0)"
  by (simp add: percent_scale.simps UINT64_MAX_def drop_bit_eq_div)


end
