(* ===== verification/Keys.thy ===== *)
theory Keys
  imports Numeric
begin

text \<open>
  The conversions between numbers and keys (\<^verbatim>\<open>mdbx_key_from_double\<close>, \<^verbatim>\<open>mdbx_key_from_jsonInteger\<close>,
  \<^verbatim>\<open>mdbx_key_from_int64\<close> and their inverses). The specification is the meaning of an IEEE 754 pattern as a
  number; the lemmas show that keys are ordered as numbers, that the key of an integer is the key of the double
  nearest to it, and which integers survive the round trip.
\<close>

unbundle bit_operations_syntax

subsection \<open>Floating-point numbers by their bits\<close>

text \<open>
  A double is its 64-bit pattern, as the code reads it through \<^verbatim>\<open>int64_t\<close>. \<open>ieee_scaled\<close> is what a finite
  pattern without the sign means, times \<open>2^1074\<close>: the exponent zero marks the subnormal numbers, otherwise there is
  an implicit leading bit. \<open>ieee_value\<close> puts the sign back.
\<close>

definition key2double :: "64 word \<Rightarrow> 64 word" where
  "key2double key = (if key <s 0 then key + 0x8000000000000000 else 0xffffFFFFffffFFFF - key)"

definition double2key :: "64 word \<Rightarrow> 64 word" where
  "double2key i64 = (if i64 <s 0 then 0xffffFFFFffffFFFF - i64 else i64 + 0x8000000000000000)"

definition key2float :: "32 word \<Rightarrow> 32 word" where
  "key2float key = (if key <s 0 then key + 0x80000000 else 0xffffFFFF - key)"

definition float2key :: "32 word \<Rightarrow> 32 word" where
  "float2key i32 = (if i32 <s 0 then 0xffffFFFF - i32 else i32 + 0x80000000)"

definition mdbx_key_from_int64 :: "64 word \<Rightarrow> 64 word" where "mdbx_key_from_int64 i64 = 0x8000000000000000 + i64"
definition mdbx_key_from_int32 :: "32 word \<Rightarrow> 32 word" where "mdbx_key_from_int32 i32 = 0x80000000 + i32"
definition mdbx_int64_from_key :: "64 word \<Rightarrow> 64 word" where "mdbx_int64_from_key v = v - 0x8000000000000000"
definition mdbx_int32_from_key :: "32 word \<Rightarrow> 32 word" where "mdbx_int32_from_key v = v - 0x80000000"

definition ieee_scaled :: "nat \<Rightarrow> nat \<Rightarrow> nat" where
  "ieee_scaled mant b =
     (let e = b div 2 ^ mant; m = b mod 2 ^ mant in if e = 0 then m else (2 ^ mant + m) * 2 ^ (e - 1))"

definition ieee_value :: "nat \<Rightarrow> nat \<Rightarrow> nat \<Rightarrow> int" where
  "ieee_value w mant b = (if b < 2 ^ (w - 1) then int (ieee_scaled mant b) else - int (ieee_scaled mant (b - 2 ^ (w - 1))))"

lemma ieee_scaled_eq: "m < 2 ^ k \<Longrightarrow> ieee_scaled k (e * 2 ^ k + m) = (if e = 0 then m else (2 ^ k + m) * 2 ^ (e - 1))"
  by (simp add: ieee_scaled_def Let_def)

text \<open>The distance to the next number is the unit in the last place.\<close>

lemma ieee_scaled_Suc: "ieee_scaled k (Suc b) = ieee_scaled k b + 2 ^ (b div 2 ^ k - 1)"
proof -
  define e m where "e = b div 2 ^ k" and "m = b mod 2 ^ k"
  have m: "m < 2 ^ k" by (simp add: m_def)
  have b: "b = e * 2 ^ k + m" unfolding e_def m_def by (rule div_mult_mod_eq[symmetric])
  have sb: "ieee_scaled k b = (if e = 0 then m else (2 ^ k + m) * 2 ^ (e - 1))"
    unfolding b by (rule ieee_scaled_eq[OF m])
  have "ieee_scaled k (Suc b) = ieee_scaled k b + 2 ^ (e - 1)"
  proof (cases "Suc m < 2 ^ k")
    case True
    have "ieee_scaled k (Suc b) = (if e = 0 then Suc m else (2 ^ k + Suc m) * 2 ^ (e - 1))"
      using ieee_scaled_eq[OF True, of e] by (simp add: b)
    then show ?thesis by (simp add: sb)
  next
    case False
    then have sm: "Suc m = 2 ^ k" using m by simp
    then have "Suc b = Suc e * 2 ^ k + 0" by (simp add: b)
    then have "ieee_scaled k (Suc b) = 2 ^ k * 2 ^ e" using ieee_scaled_eq[of 0 k "Suc e"] by simp
    moreover have "ieee_scaled k b + 2 ^ (e - 1) = 2 ^ k * 2 ^ e"
    proof (cases e)
      case (Suc e')
      have "ieee_scaled k b + 2 ^ (e - 1) = (2 ^ k + Suc m) * 2 ^ e'" using Suc by (simp add: sb)
      then show ?thesis using Suc sm by simp
    qed (use sm in \<open>simp add: sb\<close>)
    ultimately show ?thesis by simp
  qed
  then show ?thesis by (simp add: e_def)
qed

lemma ieee_scaled_step: "ieee_scaled k b < ieee_scaled k (Suc b)"
  by (simp add: ieee_scaled_Suc)

lemma ieee_scaled_less: "ieee_scaled k a < ieee_scaled k b \<longleftrightarrow> a < b"
  using strict_mono_Suc_iff[of "ieee_scaled k"] ieee_scaled_step strict_mono_less by blast

lemma ieee_scaled_0 [simp]: "ieee_scaled k 0 = 0"
  by (simp add: ieee_scaled_def)

lemma ieee_scaled_pos: "0 < ieee_scaled k b \<longleftrightarrow> 0 < b"
  using ieee_scaled_less[of k 0 b] by simp

subsection \<open>The order of the keys\<close>

lemma unat_lt: "unat (b :: 64 word) < 2 ^ 64" "unat (c :: 32 word) < 2 ^ 32"
proof -
  have "unat b < 2 ^ LENGTH(64)" "unat c < 2 ^ LENGTH(32)" by (rule unsigned_less)+
  then show "unat (b :: 64 word) < 2 ^ 64" "unat (c :: 32 word) < 2 ^ 32" by simp_all
qed

lemma top_bit:
  assumes "(n :: nat) < 2 ^ Suc k"
  shows "bit n k \<longleftrightarrow> 2 ^ k \<le> n"
proof
  assume "bit n k"
  then have "n div 2 ^ k \<noteq> 0" by (auto simp: bit_iff_odd intro: ccontr)
  then show "2 ^ k \<le> n" by (simp add: div_eq_0_iff)
qed (rule bit_high[OF _ assms])

lemma word_neg64: "(b :: 64 word) <s 0 \<longleftrightarrow> 2 ^ 63 \<le> unat b"
proof -
  have "b <s 0 \<longleftrightarrow> bit b 63" using bit_last_iff[of b] by (simp add: word_sless_alt)
  also have "\<dots> \<longleftrightarrow> bit (unat b) 63" by (simp add: bit_unsigned_iff)
  finally show ?thesis using top_bit[of "unat b" 63] unat_lt(1)[of b] by simp
qed

lemma word_neg32: "(b :: 32 word) <s 0 \<longleftrightarrow> 2 ^ 31 \<le> unat b"
proof -
  have "b <s 0 \<longleftrightarrow> bit b 31" using bit_last_iff[of b] by (simp add: word_sless_alt)
  also have "\<dots> \<longleftrightarrow> bit (unat b) 31" by (simp add: bit_unsigned_iff)
  finally show ?thesis using top_bit[of "unat b" 31] unat_lt(2)[of b] by simp
qed

text \<open>The keys as numbers: the sign bit of a positive number is set, all bits of a negative one are flipped.\<close>

lemma double2key_unat:
  "unat (double2key b) = (if unat b < 2 ^ 63 then unat b + 2 ^ 63 else 2 ^ 64 - 1 - unat b)"
proof (cases "unat b < 2 ^ 63")
  case True
  then have "unat (b + 0x8000000000000000) = unat b + 2 ^ 63" by (subst unat_add_lem[THEN iffD1]) simp_all
  then show ?thesis using True by (simp add: double2key_def word_neg64)
next
  case False
  have "unat (0xffffFFFFffffFFFF - b) = 2 ^ 64 - 1 - unat b"
    by (subst unat_sub) (use unat_lt(1)[of b] in \<open>auto simp: word_le_nat_alt\<close>)
  then show ?thesis using False by (simp add: double2key_def word_neg64)
qed

lemma float2key_unat:
  "unat (float2key b) = (if unat b < 2 ^ 31 then unat b + 2 ^ 31 else 2 ^ 32 - 1 - unat b)"
proof (cases "unat b < 2 ^ 31")
  case True
  then have "unat (b + 0x80000000) = unat b + 2 ^ 31" by (subst unat_add_lem[THEN iffD1]) simp_all
  then show ?thesis using True by (simp add: float2key_def word_neg32)
next
  case False
  have "unat (0xffffFFFF - b) = 2 ^ 32 - 1 - unat b"
    by (subst unat_sub) (use unat_lt(2)[of b] in \<open>auto simp: word_le_nat_alt\<close>)
  then show ?thesis using False by (simp add: float2key_def word_neg32)
qed

lemma double_key_roundtrip: "key2double (double2key b) = b \<and> key2float (float2key c) = c"
proof -
  have "key2double (double2key b) = b"
    using double2key_unat[of b] unat_lt(1)[of b] by (auto simp: key2double_def word_neg64 double2key_def split: if_splits)
  moreover have "key2float (float2key c) = c"
    using float2key_unat[of c] unat_lt(2)[of c] by (auto simp: key2float_def word_neg32 float2key_def split: if_splits)
  ultimately show ?thesis ..
qed

text \<open>
  The order of the patterns: by value, and negative zero before zero. \<open>w\<close> is the width, \<open>k\<close> the bits of the mantissa.
\<close>

definition ieee_less :: "nat \<Rightarrow> nat \<Rightarrow> nat \<Rightarrow> nat \<Rightarrow> bool" where
  "ieee_less w k a b \<longleftrightarrow> ieee_value w k a < ieee_value w k b \<or>
     (ieee_value w k a = ieee_value w k b \<and> a = 2 ^ (w - 1) \<and> b = 0)"

lemma ieee_less_code:
  fixes h :: nat
  assumes h: "2 ^ (w - 1) = h" and lt: "a < h + h" "b < h + h"
  shows "(if a < h then a + h else h + h - 1 - a) < (if b < h then b + h else h + h - 1 - b) \<longleftrightarrow> ieee_less w k a b"
proof -
  define code where "code = (\<lambda>b. if b < h then b + h else h + h - 1 - b)"
  have v: "ieee_value w k b = (if b < h then int (ieee_scaled k b) else - int (ieee_scaled k (b - h)))" for b
    unfolding ieee_value_def h ..
  have l: "ieee_less w k a b \<longleftrightarrow> ieee_value w k a < ieee_value w k b \<or>
      (ieee_value w k a = ieee_value w k b \<and> a = h \<and> b = 0)"
    unfolding ieee_less_def h ..
  have "code a < code b \<longleftrightarrow> ieee_less w k a b"
  proof -
  note less = ieee_scaled_less[of k]
  consider "a < h" "b < h" | "a < h" "\<not> b < h" | "\<not> a < h" "b < h" | "\<not> a < h" "\<not> b < h" by blast
  then show ?thesis
  proof cases
    case 1
    then show ?thesis by (simp add: code_def l v less)
  next
    case 2
    then have "\<not> ieee_less w k a b" by (auto simp: l v)
    then show ?thesis using 2 lt by (simp add: code_def)
  next
    case 3
    have "ieee_less w k a b"
    proof (cases "a = h \<and> b = 0")
      case True
      then show ?thesis unfolding l using 3 by (simp add: v)
    next
      case False
      then have "0 < a - h \<or> 0 < b" using 3 by auto
      then have "0 < ieee_scaled k (a - h) \<or> 0 < ieee_scaled k b" by (simp add: ieee_scaled_pos)
      then show ?thesis using 3 by (auto simp: l v)
    qed
    moreover have "code a < code b" using 3 lt by (simp add: code_def)
    ultimately show ?thesis by simp
  next
    case 4
    have "0 < h" unfolding h[symmetric] by simp
    then have "ieee_less w k a b \<longleftrightarrow> b - h < a - h" using 4 by (auto simp: l v less)
    moreover have "code a < code b \<longleftrightarrow> b < a" using 4 lt by (auto simp: code_def)
    moreover have "b - h < a - h \<longleftrightarrow> b < a" using 4 by linarith
    ultimately show ?thesis by simp
  qed
qed
  then show ?thesis by (simp only: code_def)
qed

text \<open>
  C37. The keys of doubles compare as the doubles do: by the value of the number, with negative zero before zero. It
  holds for all patterns, the infinities and the NaN patterns being read as the numbers their exponent denotes.
\<close>

theorem double_keys_ordered:
  "(unat (double2key a) < unat (double2key b)) = ieee_less 64 52 (unat a) (unat b)"
proof -
  have c: "unat (double2key b) = (if unat b < 2 ^ 63 then unat b + 2 ^ 63 else 2 ^ 63 + 2 ^ 63 - 1 - unat b)" for b
    by (simp add: double2key_unat)
  show ?thesis unfolding c by (rule ieee_less_code) (use unat_lt(1)[of a] unat_lt(1)[of b] in simp_all)
qed

lemma float_keys_ordered:
  "(unat (float2key a) < unat (float2key b)) = ieee_less 32 23 (unat a) (unat b)"
proof -
  have c: "unat (float2key b) = (if unat b < 2 ^ 31 then unat b + 2 ^ 31 else 2 ^ 31 + 2 ^ 31 - 1 - unat b)" for b
    by (simp add: float2key_unat)
  show ?thesis unfolding c by (rule ieee_less_code) (use unat_lt(2)[of a] unat_lt(2)[of b] in simp_all)
qed

lemma int_keys_roundtrip: "mdbx_int64_from_key (mdbx_key_from_int64 i) = i" "mdbx_int32_from_key (mdbx_key_from_int32 j) = j"
  by (simp_all add: mdbx_int64_from_key_def mdbx_key_from_int64_def mdbx_int32_from_key_def mdbx_key_from_int32_def)

lemma int64_key_uint: "uint (mdbx_key_from_int64 i) = sint i + 2 ^ 63"
proof -
  have "uint i = sint i mod 2 ^ 64" using uint_sint[of i] by (simp add: take_bit_eq_mod)
  then have "uint (mdbx_key_from_int64 i) = (2 ^ 63 + sint i) mod 2 ^ 64"
    by (simp add: mdbx_key_from_int64_def uint_word_ariths mod_simps)
  moreover have "0 \<le> 2 ^ 63 + sint i" "2 ^ 63 + sint i < 2 ^ 64" using sint_ge[of i] sint_lt[of i] by simp_all
  ultimately show ?thesis by simp
qed

lemma int32_key_uint: "uint (mdbx_key_from_int32 i) = sint i + 2 ^ 31"
proof -
  have "uint i = sint i mod 2 ^ 32" using uint_sint[of i] by (simp add: take_bit_eq_mod)
  then have "uint (mdbx_key_from_int32 i) = (2 ^ 31 + sint i) mod 2 ^ 32"
    by (simp add: mdbx_key_from_int32_def uint_word_ariths mod_simps)
  moreover have "0 \<le> 2 ^ 31 + sint i" "2 ^ 31 + sint i < 2 ^ 32" using sint_ge[of i] sint_lt[of i] by simp_all
  ultimately show ?thesis by simp
qed


subsection \<open>Integers as keys of doubles\<close>

text \<open>
  \<^verbatim>\<open>uint64_t\<close> is a natural number with the wrap-around written out; \<^verbatim>\<open>int64_t\<close> is an integer. For a negative count
  the first shift is undefined in C and its value is not used, so it is not computed here.
\<close>

definition round_mantissa :: "nat \<Rightarrow> int \<Rightarrow> nat" where
  "round_mantissa u64 shift =
     (let shift = nat (- shift); half = push_bit (shift - 1) 1; lsb = 1 AND drop_bit shift u64; tie2even = 1 XOR lsb
      in drop_bit shift ((u64 + half - tie2even) mod 2 ^ 64))"

definition IEEE754_DOUBLE_IMPLICIT_LEAD :: nat where "IEEE754_DOUBLE_IMPLICIT_LEAD = 0x0010000000000000"
definition IEEE754_DOUBLE_MANTISSA_AMAX :: nat where "IEEE754_DOUBLE_MANTISSA_AMAX = 0x001FFFFFFFFFFFFF"
definition IEEE754_DOUBLE_MANTISSA_MASK :: nat where "IEEE754_DOUBLE_MANTISSA_MASK = 0x000FFFFFFFFFFFFF"

definition json_scale :: "nat \<Rightarrow> int \<times> nat" where
  "json_scale u64 =
     (let shift = int (clz64 u64) - (64 - 52 - 1)
      in if shift < 0
         then let mantissa = round_mantissa u64 shift
              in if IEEE754_DOUBLE_MANTISSA_AMAX < mantissa
                 then let shift = shift - 1 in (shift, round_mantissa u64 shift)
                 else (shift, mantissa)
         else (shift, push_bit (nat shift) u64 mod 2 ^ 64))"

definition mdbx_key_from_jsonInteger :: "int \<Rightarrow> nat" where
  "mdbx_key_from_jsonInteger json_integer =
     (let bias = 0x8000000000000000 in
      if 0 < json_integer
      then let (shift, mantissa) = json_scale (nat json_integer); exponent = nat (0x3FF + 52 - shift)
           in (bias + push_bit 52 exponent + (mantissa - IEEE754_DOUBLE_IMPLICIT_LEAD)) mod 2 ^ 64
      else if json_integer < 0
      then let (shift, mantissa) = json_scale (nat (- json_integer)); exponent = nat (0x3FF + 52 - shift)
           in sub64 (sub64 (bias - 1) (push_bit 52 exponent mod 2 ^ 64)) (mantissa - IEEE754_DOUBLE_IMPLICIT_LEAD)
      else bias)"

definition INT64_MAX :: int where "INT64_MAX = 2 ^ 63 - 1"
definition INT64_MIN :: int where "INT64_MIN = - (2 ^ 63)"

definition mdbx_jsonInteger_from_key :: "nat \<Rightarrow> int" where
  "mdbx_jsonInteger_from_key key =
     (let bias = 0x8000000000000000;
          covalent = (if bias < key then key - bias else sub64 (bias - key) 1);
          shift = 0x3FF + 63 - int (0x7FF AND drop_bit 52 covalent)
      in if shift < 1 then (if key < bias then INT64_MIN else INT64_MAX)
         else if 63 < shift then 0
         else let unscaled = (push_bit 11 (covalent AND IEEE754_DOUBLE_MANTISSA_MASK) + bias) mod 2 ^ 64;
                  absolute = int (drop_bit (nat shift) unscaled)
              in if key < bias then - absolute else absolute)"

lemma tie_bit: "(1 :: nat) XOR (1 AND q) = 1 - q mod 2"
proof -
  have "1 AND q = q mod 2" by (simp add: and.commute and_one_eq)
  moreover have "q mod 2 = 0 \<or> q mod 2 = 1" by auto
  ultimately show ?thesis by auto
qed

text \<open>Rounding to the nearest, ties to even, as a case distinction on the remainder.\<close>

lemma round_mantissa_cases:
  assumes "1 \<le> s" "s \<le> 12" "0 < u" "u \<le> 2 ^ 63"
  defines "q \<equiv> u div 2 ^ s" and "r \<equiv> u mod 2 ^ s" and "h \<equiv> 2 ^ (s - 1)"
  shows "round_mantissa u (- int s) = (if r + h - (1 - q mod 2) < 2 * h then q else q + 1)"
proof -
  have two: "2 ^ s = 2 * h" using assms(1) by (simp add: h_def flip: power_Suc)
  have h: "1 \<le> h" "h \<le> 2 ^ 11" using assms(2) power_increasing[of "s - 1" 11 "2 :: nat"] by (simp_all add: h_def)
  have rlt: "r < 2 * h" by (simp add: r_def flip: two)
  have u: "u = q * (2 * h) + r" unfolding q_def r_def two[symmetric] by (rule div_mult_mod_eq[symmetric])
  let ?t = "1 - q mod 2"
  have "?t \<le> h" using h(1) by simp
  then have sum: "u + h - ?t = q * (2 * h) + (r + h - ?t)" by (simp add: u)
  have "u + h - ?t < 2 ^ 64" using assms(4) h(2) by simp
  moreover have "round_mantissa u (- int s) = (u + h - ?t) mod 2 ^ 64 div 2 ^ s"
    unfolding round_mantissa_def Let_def minus_minus nat_int drop_bit_eq_div push_bit_eq_mult tie_bit mult_1 q_def h_def ..
  ultimately have "round_mantissa u (- int s) = (q * (2 * h) + (r + h - ?t)) div (2 * h)"
    by (simp only: two mod_less flip: sum)
  also have "\<dots> = q + (r + h - ?t) div (2 * h)" using h(1) by (intro div_mult_self3) simp
  also have "(r + h - ?t) div (2 * h) = (if r + h - ?t < 2 * h then 0 else 1)"
  proof (cases "r + h - ?t < 2 * h")
    case False
    then have "(r + h - ?t) div (2 * h) = 1" using rlt by (intro div_nat_eqI) simp_all
    then show ?thesis using False by simp
  qed simp
  finally show ?thesis by simp
qed


lemma clz64_high:
  assumes "2 ^ k \<le> v" "v < 2 ^ Suc k" "k \<le> 63"
  shows "clz64 v = 63 - k"
  using clz64_table smear_high(2)[OF assms(1,2)] assms(3) by (simp add: clz64_def list_all_iff)

lemma round_mantissa_near:
  assumes "1 \<le> s" "s \<le> 12" "0 < u" "u \<le> 2 ^ 63"
  defines "v \<equiv> round_mantissa u (- int s)"
  shows "2 * \<bar>int (v * 2 ^ s) - int u\<bar> \<le> 2 ^ s" "u div 2 ^ s \<le> v" "v \<le> u div 2 ^ s + 1"
proof -
  define q r h where d: "q = u div 2 ^ s" "r = u mod 2 ^ s" "h = (2 :: nat) ^ (s - 1)"
  have two: "2 ^ s = 2 * h" using assms(1) by (simp add: d flip: power_Suc)
  have v: "v = (if r + h - (1 - q mod 2) < 2 * h then q else q + 1)"
    unfolding v_def d by (rule round_mantissa_cases[OF assms(1-4)])
  have u: "u = q * (2 * h) + r" unfolding d(1,2) two[symmetric] by (rule div_mult_mod_eq[symmetric])
  have rlt: "r < 2 * h" by (simp add: d(2) flip: two)
  show "2 * \<bar>int (v * 2 ^ s) - int u\<bar> \<le> 2 ^ s"
  proof (cases "r + h - (1 - q mod 2) < 2 * h")
    case True
    then have "r \<le> h" by linarith
    moreover have "int (v * 2 ^ s) - int u = - int r" using True unfolding two u by (simp add: v)
    moreover have "(2 :: int) ^ s = 2 * int h" using two by (metis of_nat_mult of_nat_numeral of_nat_power)
    ultimately show ?thesis by simp
  next
    case False
    then have "h \<le> r" by linarith
    moreover have "int (v * 2 ^ s) - int u = 2 * int h - int r" using False unfolding two u by (simp add: v algebra_simps)
    moreover have "(2 :: int) ^ s = 2 * int h" using two by (metis of_nat_mult of_nat_numeral of_nat_power)
    ultimately show ?thesis using rlt by simp
  qed
  show "u div 2 ^ s \<le> v" "v \<le> u div 2 ^ s + 1" by (simp_all add: v flip: d(1))
qed

text \<open>What \<^verbatim>\<open>json_scale\<close> computes: a mantissa of 53 bits whose value is within half a unit of the integer.\<close>

lemma json_scale_small:
  assumes "2 ^ k \<le> u" "u < 2 ^ Suc k" "k \<le> 52"
  shows "json_scale u = (52 - int k, u * 2 ^ (52 - k))" "2 ^ 52 \<le> u * 2 ^ (52 - k)" "u * 2 ^ (52 - k) < 2 ^ 53"
proof -
  have k: "clz64 u = 63 - k" using clz64_high[OF assms(1,2)] assms(3) by simp
  have s: "int (63 - k) - (64 - 52 - 1) = 52 - int k" using assms(3) by simp
  have p: "2 ^ k * 2 ^ (52 - k) = (2 :: nat) ^ 52" "2 ^ Suc k * 2 ^ (52 - k) = (2 :: nat) ^ 53"
    using assms(3) by (simp_all flip: power_add)
  show b: "2 ^ 52 \<le> u * 2 ^ (52 - k)" "u * 2 ^ (52 - k) < 2 ^ 53"
    using mult_le_mono1[OF assms(1), of "2 ^ (52 - k)"] mult_strict_right_mono[OF assms(2), of "2 ^ (52 - k)"]
    unfolding p by simp_all
  have "nat (52 - int k) = 52 - k" "\<not> 52 - int k < 0" using assms(3) by simp_all
  then show "json_scale u = (52 - int k, u * 2 ^ (52 - k))"
    using b by (simp add: json_scale_def Let_def k s push_bit_eq_mult)
qed

lemma too_low:
  fixes A P u :: int
  assumes "A \<le> (2 ^ 52 - 1) * (2 * P)" "2 * \<bar>A - u\<bar> \<le> 2 * P" "2 * \<bar>2 ^ 53 * P - u\<bar> \<le> P" "0 < P"
  shows False
  using assms by (simp add: algebra_simps)

lemma json_scale_large:
  assumes "2 ^ k \<le> u" "u < 2 ^ Suc k" "53 \<le> k" "u \<le> 2 ^ 63"
  shows "\<exists>K m. json_scale u = (52 - int K, m) \<and> 2 ^ 52 \<le> m \<and> m < 2 ^ 53 \<and> (K = k \<or> K = Suc k \<and> m = 2 ^ 52) \<and>
    2 * \<bar>int (m * 2 ^ (K - 52)) - int u\<bar> \<le> 2 ^ (k - 52)"
proof -
  define s where "s = k - 52"
  have k63: "k \<le> 63"
  proof (rule ccontr)
    assume "\<not> k \<le> 63"
    then have "(2 :: nat) ^ 64 \<le> 2 ^ k" by (intro power_increasing) simp_all
    then show False using assms(1,4) by simp
  qed
  have s: "1 \<le> s" "s \<le> 11" "k = 52 + s" using assms(3) k63 by (simp_all add: s_def)
  have c: "clz64 u = 63 - k" using clz64_high[OF assms(1,2) k63] .
  have sh: "int (63 - k) - (64 - 52 - 1) = - int s" using k63 s(3) by simp
  let ?m = "round_mantissa u (- int s)"
  have u0: "0 < u" using assms(1) by (metis le_zero_eq not_gr0 power_not_zero zero_neq_numeral)
  note near = round_mantissa_near[OF s(1) _ u0 assms(4)]
  have p: "2 ^ k = 2 ^ 52 * (2 :: nat) ^ s" "2 ^ Suc k = 2 ^ 53 * (2 :: nat) ^ s" by (simp_all add: s(3) power_add)
  have q: "2 ^ 52 \<le> u div 2 ^ s" "u div 2 ^ s < 2 ^ 53"
    using assms(1,2) unfolding p by (simp_all add: less_eq_div_iff_mult_less_eq div_less_iff_less_mult)
  have lo: "2 ^ 52 \<le> ?m" "?m \<le> 2 ^ 53" using near(2,3) q s(2) by simp_all
  show ?thesis
  proof (cases "?m = 2 ^ 53")
    case False
    then have "\<not> IEEE754_DOUBLE_MANTISSA_AMAX < ?m" using lo by (simp add: IEEE754_DOUBLE_MANTISSA_AMAX_def)
    then have "json_scale u = (52 - int k, ?m)" using s(1,3) unfolding json_scale_def Let_def c sh by simp
    then show ?thesis using False lo near(1) s by (intro exI[of _ k] exI[of _ ?m]) simp
  next
    case True
    have "IEEE754_DOUBLE_MANTISSA_AMAX < ?m" by (simp add: True IEEE754_DOUBLE_MANTISSA_AMAX_def)
    moreover have sh2: "- int s - 1 = - int (Suc s)" by simp
    ultimately have js: "json_scale u = (52 - int (Suc k), round_mantissa u (- int (Suc s)))"
      using s(1,3) unfolding json_scale_def Let_def c sh sh2 by simp
    have "round_mantissa u (- int (Suc s)) = 2 ^ 52"
    proof -
      let ?v = "round_mantissa u (- int (Suc s))" and ?P = "(2 :: int) ^ s"
      have P: "0 < ?P" by simp
      have n: "2 * \<bar>int ?v * (2 * ?P) - int u\<bar> \<le> 2 * ?P" "?v \<le> u div 2 ^ Suc s + 1"
        using round_mantissa_near[OF _ _ u0 assms(4), of "Suc s"] s(2) by simp_all
      have u: "2 * \<bar>2 ^ 53 * ?P - int u\<bar> \<le> ?P" using near(1) s(2) by (simp add: True)
      have "\<not> ?v \<le> 2 ^ 52 - 1"
      proof
        assume "?v \<le> 2 ^ 52 - 1"
        then have "int ?v \<le> 2 ^ 52 - 1" by simp
        then have "int ?v * (2 * ?P) \<le> (2 ^ 52 - 1) * (2 * ?P)" using P by (intro mult_right_mono) simp_all
        then show False using n(1) u P by (rule too_low)
      qed
      moreover have "u div 2 ^ Suc s < 2 ^ 52"
        using assms(2) by (simp add: s(3) div_less_iff_less_mult power_add)
      ultimately show ?thesis using n(2) by simp
    qed
    then show ?thesis using js True near(1) s by (intro exI[of _ "Suc k"] exI[of _ "2 ^ 52"]) (simp add: power_add)
  qed
qed


subsection \<open>The key is the nearest double\<close>

text \<open>The pattern of the double with the exponent \<open>1023 + K\<close> and the mantissa \<open>m\<close>, implicit bit included.\<close>

definition json_pattern :: "nat \<Rightarrow> nat \<Rightarrow> nat" where
  "json_pattern K m = (1023 + K) * 2 ^ 52 + (m - 2 ^ 52)"

lemma json_scale_total:
  assumes "0 < u" "u \<le> 2 ^ 63"
  shows "\<exists>k K m. 2 ^ k \<le> u \<and> u < 2 ^ Suc k \<and> K \<le> 64 \<and> json_scale u = (52 - int K, m) \<and> 2 ^ 52 \<le> m \<and> m < 2 ^ 53 \<and>
    (if k \<le> 52 then K = k \<and> m = u * 2 ^ (52 - k)
     else (K = k \<or> K = Suc k \<and> m = 2 ^ 52) \<and> 2 * \<bar>int (m * 2 ^ (K - 52)) - int u\<bar> \<le> 2 ^ (k - 52))"
proof -
  obtain k where k: "2 ^ k \<le> u" "u < 2 ^ Suc k" using high_bit_exists[OF assms(1)] by blast
  have k63: "k \<le> 63"
  proof (rule ccontr)
    assume "\<not> k \<le> 63"
    then have "(2 :: nat) ^ 64 \<le> 2 ^ k" by (intro power_increasing) simp_all
    then show False using k(1) assms(2) by simp
  qed
  show ?thesis
  proof (cases "k \<le> 52")
    case True
    then show ?thesis using json_scale_small[OF k True] k by (intro exI[of _ k] exI[of _ "u * 2 ^ (52 - k)"]) simp
  next
    case False
    then obtain K m where "json_scale u = (52 - int K, m)" "2 ^ 52 \<le> m" "m < 2 ^ 53" "K = k \<or> K = Suc k \<and> m = 2 ^ 52"
      "2 * \<bar>int (m * 2 ^ (K - 52)) - int u\<bar> \<le> 2 ^ (k - 52)"
      using json_scale_large[OF k _ assms(2)] by auto
    then show ?thesis using False k k63 by (intro exI[of _ k] exI[of _ K] exI[of _ m]) auto
  qed
qed

lemma json_pattern_bounds: "2 ^ 52 \<le> m \<Longrightarrow> m < 2 ^ 53 \<Longrightarrow> K \<le> 64 \<Longrightarrow> 0 < json_pattern K m \<and> json_pattern K m < 2 ^ 63"
proof -
  assume m: "2 ^ 52 \<le> m" "m < 2 ^ 53" and K: "K \<le> 64"
  have "(1023 + K) * 2 ^ 52 \<le> 1087 * 2 ^ 52" using K by (intro mult_le_mono1) simp
  then show "0 < json_pattern K m \<and> json_pattern K m < 2 ^ 63" using m by (simp add: json_pattern_def)
qed

lemma json_key_pattern:
  assumes "json_scale u = (52 - int K, m)" "2 ^ 52 \<le> m" "m < 2 ^ 53" "K \<le> 64" "0 < u"
  shows "mdbx_key_from_jsonInteger (int u) = 2 ^ 63 + json_pattern K m"
    "mdbx_key_from_jsonInteger (- int u) = 2 ^ 63 - 1 - json_pattern K m"
proof -
  have e: "nat (0x3FF + 52 - (52 - int K)) = 1023 + K" by simp
  note b = json_pattern_bounds[OF assms(2,3,4)]
  show "mdbx_key_from_jsonInteger (int u) = 2 ^ 63 + json_pattern K m"
    using assms(5) b unfolding mdbx_key_from_jsonInteger_def Let_def nat_int assms(1) prod.case e
    by (simp add: push_bit_eq_mult json_pattern_def IEEE754_DOUBLE_IMPLICIT_LEAD_def)
  have "(1023 + K) * 2 ^ 52 \<le> 1087 * 2 ^ 52" using assms(4) by (intro mult_le_mono1) simp
  then show "mdbx_key_from_jsonInteger (- int u) = 2 ^ 63 - 1 - json_pattern K m"
    using assms(2,3,5) unfolding mdbx_key_from_jsonInteger_def Let_def minus_minus nat_int assms(1) prod.case e
    by (simp add: push_bit_eq_mult json_pattern_def IEEE754_DOUBLE_IMPLICIT_LEAD_def sub64_def)
qed

lemma json_pattern_value:
  assumes "2 ^ 52 \<le> m" "m < 2 ^ 53"
  shows "ieee_scaled 52 (json_pattern K m) = m * 2 ^ (1022 + K)"
proof -
  have "m - 2 ^ 52 < 2 ^ 52" using assms by simp
  from ieee_scaled_eq[OF this, of "1023 + K"] show ?thesis using assms(1) by (simp add: json_pattern_def)
qed

text \<open>No double is nearer: the neighbours are too far away, and everything else is beyond them.\<close>

lemma beyond_neighbour:
  fixes V U S x :: int
  assumes "2 * \<bar>V - x\<bar> \<le> U"
  shows "V + U \<le> S \<Longrightarrow> \<bar>V - x\<bar> \<le> \<bar>S - x\<bar>" "S \<le> V - U \<Longrightarrow> \<bar>V - x\<bar> \<le> \<bar>S - x\<bar>"
  using assms by arith+

lemma json_pattern_nearest:
  assumes "0 < u" "2 ^ k \<le> u" "u < 2 ^ Suc k" "2 ^ 52 \<le> m" "m < 2 ^ 53"
    "if k \<le> 52 then K = k \<and> m = u * 2 ^ (52 - k)
     else (K = k \<or> K = Suc k \<and> m = 2 ^ 52) \<and> 2 * \<bar>int (m * 2 ^ (K - 52)) - int u\<bar> \<le> 2 ^ (k - 52)"
  shows "\<bar>int (ieee_scaled 52 (json_pattern K m)) - int u * 2 ^ 1074\<bar> \<le> \<bar>int (ieee_scaled 52 c) - int u * 2 ^ 1074\<bar>"
proof -
  define b x where "b = json_pattern K m" and "x = int u * 2 ^ 1074"
  define V where "V = int (ieee_scaled 52 b)"
  have V: "V = int m * 2 ^ (1022 + K)" by (simp add: V_def b_def json_pattern_value[OF assms(4,5)])
  show ?thesis
  proof (cases "k \<le> 52")
    case True
    then have K: "K = k" "m = u * 2 ^ (52 - k)" using assms(6) by simp_all
    have "(52 - k) + (1022 + k) = 1074" using True by simp
    then have "V = x" unfolding V K x_def by (simp add: mult.assoc flip: power_add)
    then show ?thesis unfolding b_def[symmetric] V_def[symmetric] x_def[symmetric] by simp
  next
    case False
    define U :: int where "U = 2 ^ (1022 + k)"
    have near: "(K = k \<or> K = Suc k \<and> m = 2 ^ 52)" "2 * \<bar>int (m * 2 ^ (K - 52)) - int u\<bar> \<le> 2 ^ (k - 52)"
      using assms(6) False by auto
    have e: "(K - 52) + 1074 = 1022 + K" "(k - 52) + 1074 = 1022 + k" using near(1) False by auto
    have pos: "(0 :: int) \<le> 2 ^ 1074" by (rule zero_le_power) simp
    have "2 * \<bar>V - x\<bar> = 2 * \<bar>(int (m * 2 ^ (K - 52)) - int u) * 2 ^ 1074\<bar>"
      unfolding V x_def e(1)[symmetric] by (simp only: power_add of_nat_mult of_nat_power of_nat_numeral left_diff_distrib mult.assoc)
    also have "\<dots> = 2 * \<bar>int (m * 2 ^ (K - 52)) - int u\<bar> * 2 ^ 1074"
      unfolding abs_mult_pos[OF pos, symmetric] mult.assoc ..
    also have "\<dots> \<le> 2 ^ (k - 52) * 2 ^ 1074" using near(2) by (intro mult_right_mono) simp_all
    also have "\<dots> = U" unfolding U_def e(2)[symmetric] by (rule power_add[symmetric])
    finally have half: "2 * \<bar>V - x\<bar> \<le> U" .
    have kK: "U \<le> 2 ^ (1022 + K)" unfolding U_def using near(1) by (intro power_increasing) auto
    have mono: "i \<le> j \<Longrightarrow> int (ieee_scaled 52 i) \<le> int (ieee_scaled 52 j)" for i j
      using ieee_scaled_less[of 52 j i] by linarith
    have bdiv: "b div 2 ^ 52 = 1023 + K"
      unfolding b_def json_pattern_def using assms(4,5) by (intro div_nat_eqI) simp_all
    have "\<bar>V - x\<bar> \<le> \<bar>int (ieee_scaled 52 c) - x\<bar>"
    proof (cases "b < c")
      case True
      have "int (ieee_scaled 52 (Suc b)) = V + 2 ^ (1022 + K)" unfolding ieee_scaled_Suc bdiv V_def by simp
      then have "V + U \<le> int (ieee_scaled 52 c)" using mono[of "Suc b" c] True kK by simp
      then show ?thesis by (rule beyond_neighbour(1)[OF half])
    next
      case not_above: False
      show ?thesis
      proof (cases "c = b")
        case False
        then have c: "c \<le> b - 1" "Suc (b - 1) = b" using not_above by auto
        have Vb: "V = int (ieee_scaled 52 (b - 1)) + 2 ^ ((b - 1) div 2 ^ 52 - 1)"
          using ieee_scaled_Suc[of 52 "b - 1"] unfolding c(2) by (simp add: V_def)
        show ?thesis
        proof (cases "m = 2 ^ 52 \<and> K = k")
          case True
          have "2 ^ k * 2 ^ 1074 \<le> x" unfolding x_def using assms(2) by (intro mult_right_mono) (simp_all flip: of_nat_power)
          moreover have "V = 2 ^ k * 2 ^ 1074" 
          proof -
            have "V = (2 :: int) ^ (52 + (1022 + k))" unfolding V power_add using True by simp
            also have "52 + (1022 + k) = k + 1074" by simp
            finally show ?thesis by (simp only: power_add)
          qed
          ultimately have "V \<le> x" by simp
          moreover have "int (ieee_scaled 52 c) \<le> V" using mono[of c b] c by (simp add: V_def)
          ultimately show ?thesis by simp
        next
          case False
          have "(b - 1) div 2 ^ 52 - 1 = 1022 + k"
          proof (cases "m = 2 ^ 52")
            case True
            then have "K = Suc k" using False near(1) by simp
            then have "b - 1 = (1023 + k) * 2 ^ 52 + (2 ^ 52 - 1)" using True by (simp add: b_def json_pattern_def)
            then have "(b - 1) div 2 ^ 52 = 1023 + k" by (intro div_nat_eqI) simp_all
            then show ?thesis by simp
          next
            case m: False
            then have "K = k" using near(1) by simp
            moreover have "b - 1 = (1023 + K) * 2 ^ 52 + (m - 2 ^ 52 - 1)" using m assms(4) by (simp add: b_def json_pattern_def)
            then have "(b - 1) div 2 ^ 52 = 1023 + K" using assms(5) by (intro div_nat_eqI) simp_all
            ultimately show ?thesis by simp
          qed
          then have "V = int (ieee_scaled 52 (b - 1)) + U" using Vb by (simp add: U_def)
          then have "int (ieee_scaled 52 c) \<le> V - U" using mono[OF c(1)] by simp
          then show ?thesis by (rule beyond_neighbour(2)[OF half])
        qed
      qed (simp add: V_def)
    qed
    then show ?thesis by (simp only: b_def V_def x_def)
  qed
qed


lemma json_sign_nearest:
  fixes V W x :: int
  assumes "0 \<le> x" "\<bar>V - x\<bar> \<le> \<bar>0 - x\<bar>" "0 \<le> W"
  shows "\<bar>V - x\<bar> \<le> \<bar>- W - x\<bar>" "\<bar>- V + x\<bar> \<le> \<bar>W + x\<bar>"
  using assms by linarith+

text \<open>
  C38. The key of an integer is the key of the double nearest to it: no pattern of a double, the infinities included,
  is nearer. So the keys of integers and of doubles can be mixed, and by \<open>double_keys_ordered\<close> they compare as the
  doubles do.
\<close>

theorem json_key_nearest:
  assumes "- (2 ^ 63) < j" "j < 2 ^ 63"
  shows "\<exists>b :: 64 word. mdbx_key_from_jsonInteger j = unat (double2key b) \<and>
    (\<forall>c :: 64 word. \<bar>ieee_value 64 52 (unat b) - j * 2 ^ 1074\<bar> \<le> \<bar>ieee_value 64 52 (unat c) - j * 2 ^ 1074\<bar>)"
proof (cases "j = 0")
  case True
  then show ?thesis
    by (intro exI[of _ 0]) (simp add: mdbx_key_from_jsonInteger_def double2key_unat ieee_value_def)
next
  case False
  define u where "u = nat \<bar>j\<bar>"
  have u: "0 < u" "u \<le> 2 ^ 63" "int u = \<bar>j\<bar>" using False assms by (simp_all add: u_def)
  obtain k K m where s: "2 ^ k \<le> u" "u < 2 ^ Suc k" "K \<le> 64" "json_scale u = (52 - int K, m)" "2 ^ 52 \<le> m" "m < 2 ^ 53"
    "if k \<le> 52 then K = k \<and> m = u * 2 ^ (52 - k)
     else (K = k \<or> K = Suc k \<and> m = 2 ^ 52) \<and> 2 * \<bar>int (m * 2 ^ (K - 52)) - int u\<bar> \<le> 2 ^ (k - 52)"
    using json_scale_total[OF u(1,2)] by blast
  define p where "p = json_pattern K m"
  note pb = json_pattern_bounds[OF s(5,6,3), folded p_def]
  note key = json_key_pattern[OF s(4,5,6,3) u(1), folded p_def]
  define V where "V = int (ieee_scaled 52 p)"
  have near: "\<bar>V - int u * 2 ^ 1074\<bar> \<le> \<bar>int (ieee_scaled 52 c) - int u * 2 ^ 1074\<bar>" for c
    unfolding V_def p_def by (rule json_pattern_nearest[OF u(1) s(1,2,5,6,7)])
  define x where "x = int u * 2 ^ 1074"
  have x0: "0 \<le> x" unfolding x_def by (intro mult_nonneg_nonneg) simp_all
  note near = near[folded x_def]
  have zero: "\<bar>V - x\<bar> \<le> \<bar>0 - x\<bar>" using near[of 0] by simp
  note sign = json_sign_nearest[OF x0 zero]
  have val: "ieee_value 64 52 n = int (ieee_scaled 52 n) \<or> ieee_value 64 52 n = - int (ieee_scaled 52 (n - 2 ^ 63))" for n
    by (simp add: ieee_value_def)
  have pos: "\<bar>V - x\<bar> \<le> \<bar>ieee_value 64 52 n - x\<bar>" for n
    using val[of n] near[of n] sign(1)[of "int (ieee_scaled 52 (n - 2 ^ 63))"] by (metis of_nat_0_le_iff)
  have neg: "\<bar>- V + x\<bar> \<le> \<bar>ieee_value 64 52 n + x\<bar>" for n
    using val[of n] near[of "n - 2 ^ 63"] sign(2)[of "int (ieee_scaled 52 n)"] by (elim disjE) simp_all
  show ?thesis
  proof (cases "0 < j")
    case True
    define b :: "64 word" where "b = word_of_nat p"
    have b: "unat b = p" using pb by (simp add: b_def unsigned_of_nat take_bit_nat_eq_self)
    have "mdbx_key_from_jsonInteger j = unat (double2key b)" using key(1) u(3) True pb by (simp add: double2key_unat b)
    moreover have "ieee_value 64 52 (unat b) = V" using pb by (simp add: ieee_value_def b V_def)
    moreover have "j * 2 ^ 1074 = x" unfolding x_def u(3) using True by simp
    ultimately show ?thesis using pos by (intro exI[of _ b]) simp
  next
    case nonpos: False
    define b :: "64 word" where "b = word_of_nat (2 ^ 63 + p)"
    have "2 ^ 63 + p < 2 ^ LENGTH(64)" using pb by simp
    then have b: "unat b = 2 ^ 63 + p" unfolding b_def unsigned_of_nat of_nat_id by (rule take_bit_nat_eq_self)
    have "j = - int u" using nonpos False u(3) by simp
    then have "mdbx_key_from_jsonInteger j = unat (double2key b)" using key(2) pb by (simp add: double2key_unat b)
    moreover have "ieee_value 64 52 (unat b) = - V" using pb by (simp add: ieee_value_def b V_def)
    moreover have "j * 2 ^ 1074 = - x" unfolding x_def \<open>j = - int u\<close> by simp
    ultimately show ?thesis using neg by (intro exI[of _ b]) simp
  qed
qed


theorem json_key_nearest_witness:
  "\<exists>b :: 64 word. mdbx_key_from_jsonInteger (2 ^ 53 + 1) = unat (double2key b) \<and>
    \<bar>ieee_value 64 52 (unat b) - (2 ^ 53 + 1) * 2 ^ 1074\<bar> \<le> \<bar>ieee_value 64 52 0 - (2 ^ 53 + 1) * 2 ^ 1074\<bar>"
proof -
  obtain b :: "64 word" where b: "mdbx_key_from_jsonInteger (2 ^ 53 + 1) = unat (double2key b)"
    "\<forall>c :: 64 word. \<bar>ieee_value 64 52 (unat b) - (2 ^ 53 + 1) * 2 ^ 1074\<bar> \<le> \<bar>ieee_value 64 52 (unat c) - (2 ^ 53 + 1) * 2 ^ 1074\<bar>"
    using json_key_nearest[of "2 ^ 53 + 1"] by auto
  then show ?thesis using b(2)[rule_format, of 0] by (intro exI[of _ b]) (simp only: unsigned_0)
qed

subsection \<open>And back\<close>

text \<open>The key of the pattern is decoded to its value, the fraction cut off.\<close>

lemma json_decode:
  assumes "2 ^ 52 \<le> m" "m < 2 ^ 53" "K \<le> 62"
  defines "v \<equiv> int (m * 2 ^ 11 div 2 ^ (63 - K))"
  shows "mdbx_jsonInteger_from_key (2 ^ 63 + json_pattern K m) = v"
    "mdbx_jsonInteger_from_key (2 ^ 63 - 1 - json_pattern K m) = - v"
proof -
  let ?p = "json_pattern K m"
  have pb: "0 < ?p" "?p < 2 ^ 63" using json_pattern_bounds[OF assms(1,2)] assms(3) by simp_all
  have dv: "drop_bit 52 ?p = 1023 + K" unfolding json_pattern_def drop_bit_eq_div using assms(1,2) by (intro div_nat_eqI) simp_all
  have "?p mod 2 ^ 52 = (m - 2 ^ 52) mod 2 ^ 52" unfolding json_pattern_def by (rule mod_mult_self3)
  also have "\<dots> = m - 2 ^ 52" using assms(1,2) by simp
  finally have "?p mod 2 ^ 52 = m - 2 ^ 52" .
  then have mask: "?p AND IEEE754_DOUBLE_MANTISSA_MASK = m - 2 ^ 52"
    using take_bit_eq_mask[of 52 ?p] by (simp add: IEEE754_DOUBLE_MANTISSA_MASK_def mask_eq_exp_minus_1 take_bit_eq_mod)
  have "(1023 + K) < 2 ^ 11" using assms(3) by simp
  then have e: "0x7FF AND (1023 + K) = 1023 + K"
    using take_bit_eq_mask[of 11 "1023 + K"] by (simp add: mask_eq_exp_minus_1 take_bit_nat_eq_self and.commute)
  have un: "(push_bit 11 (m - 2 ^ 52) + 0x8000000000000000) mod 2 ^ 64 = m * 2 ^ 11"
    using assms(1,2) by (simp add: push_bit_eq_mult)
  have sh: "0x3FF + 63 - int (1023 + K) = int (63 - K)" "\<not> int (63 - K) < 1" "\<not> 63 < int (63 - K)" using assms(3) by simp_all
  have c1: "(if 0x8000000000000000 < 2 ^ 63 + ?p then 2 ^ 63 + ?p - 0x8000000000000000
      else sub64 (0x8000000000000000 - (2 ^ 63 + ?p)) 1) = ?p" using pb by simp
  have c2: "(if 0x8000000000000000 < 2 ^ 63 - 1 - ?p then 2 ^ 63 - 1 - ?p - 0x8000000000000000
      else sub64 (0x8000000000000000 - (2 ^ 63 - 1 - ?p)) 1) = ?p" using pb by (simp add: sub64_def)
  show "mdbx_jsonInteger_from_key (2 ^ 63 + ?p) = v"
    unfolding mdbx_jsonInteger_from_key_def Let_def c1 dv e sh(1) mask un nat_int using sh(2,3)
    by (simp add: v_def drop_bit_eq_div)
  have "2 ^ 63 - 1 - ?p < 0x8000000000000000" using pb by simp
  then show "mdbx_jsonInteger_from_key (2 ^ 63 - 1 - ?p) = - v"
    unfolding mdbx_jsonInteger_from_key_def Let_def c2 dv e sh(1) mask un nat_int using sh(2,3)
    by (simp add: v_def drop_bit_eq_div)
qed

text \<open>
  Every integer but zero whose magnitude is at most \<open>2^53\<close>, the range for which the documentation promises it,
  survives the way into a key and back.
\<close>

theorem json_roundtrip:
  assumes "j \<noteq> 0" "\<bar>j\<bar> \<le> 2 ^ 53"
  shows "mdbx_jsonInteger_from_key (mdbx_key_from_jsonInteger j) = j"
proof -
  define u where "u = nat \<bar>j\<bar>"
  have u: "0 < u" "u \<le> 2 ^ 53" "j = int u \<or> j = - int u" using assms by (auto simp: u_def)
  have "\<exists>K m. json_scale u = (52 - int K, m) \<and> 2 ^ 52 \<le> m \<and> m < 2 ^ 53 \<and> K \<le> 53 \<and> m * 2 ^ 11 = u * 2 ^ (63 - K)"
  proof (cases "u = 2 ^ 53")
    case True
    have "clz64 (2 ^ 53) = 10" using clz64_high[of 53 "2 ^ 53"] by simp
    then have "json_scale u = (52 - int 53, 2 ^ 52)"
      by (simp add: True json_scale_def Let_def round_mantissa_def IEEE754_DOUBLE_MANTISSA_AMAX_def drop_bit_eq_div)
    then show ?thesis by (intro exI[of _ 53] exI[of _ "2 ^ 52"]) (simp add: True)
  next
    case False
    obtain k where k: "2 ^ k \<le> u" "u < 2 ^ Suc k" using high_bit_exists[OF u(1)] by blast
    have "(2 :: nat) ^ k < 2 ^ 53" using k(1) u(2) False by simp
    then have k52: "k \<le> 52" using power_less_imp_less_exp[of "2 :: nat" k 53] by simp
    then have "(52 - k) + 11 = 63 - k" by simp
    then have "u * 2 ^ (52 - k) * 2 ^ 11 = u * 2 ^ (63 - k)" by (metis mult.assoc power_add)
    then show ?thesis using json_scale_small[OF k k52] k52 by (intro exI[of _ k] exI[of _ "u * 2 ^ (52 - k)"]) simp
  qed
  then obtain K m where s: "json_scale u = (52 - int K, m)" "2 ^ 52 \<le> m" "m < 2 ^ 53" "K \<le> 53" "m * 2 ^ 11 = u * 2 ^ (63 - K)"
    by blast
  have "m * 2 ^ 11 div 2 ^ (63 - K) = u" unfolding s(5) by simp
  moreover have "K \<le> 62" "K \<le> 64" using s(4) by simp_all
  ultimately show ?thesis
    using u(3) json_decode[OF s(2,3), of K] json_key_pattern[OF s(1,2,3) _ u(1)] by auto
qed

theorem json_roundtrip_witness: "mdbx_jsonInteger_from_key (mdbx_key_from_jsonInteger (- 9007199254740992)) = - 9007199254740992"
  by (rule json_roundtrip) simp_all

text \<open>Zero is the exception: its key is decoded as the largest integer.\<close>

lemma json_zero_lost: "mdbx_jsonInteger_from_key (mdbx_key_from_jsonInteger 0) = INT64_MAX"
  by (simp add: mdbx_key_from_jsonInteger_def mdbx_jsonInteger_from_key_def Let_def sub64_def drop_bit_eq_div)

end
