(* ===== verification/Mvcc.thy ===== *)
theory Mvcc
  imports Coherency
begin

text \<open>
  The table of readers. Every reader publishes the transaction it looks at in a slot of the shared lock file, and the
  writer scans the slots for the oldest one: pages that were retired before it may be used again. The functions here
  run alone (\<^verbatim>\<open>atomic_load\<close> and \<^verbatim>\<open>atomic_store\<close> are the access itself, a value read twice is the same); the
  interleaving of readers with the scan is in \<^verbatim>\<open>Mvcc_Race\<close>. Atomics are 64 bits wide (amd64), so the \<^verbatim>\<open>safe64\<close>
  functions are single accesses. Processes are numbered by \<open>nat\<close>, \<open>0\<close> is a free slot.
\<close>

subsection \<open>Slots\<close>

definition MDBX_READERS_FULL :: rc where "MDBX_READERS_FULL = -30790"
definition MDBX_BAD_RSLOT :: rc where "MDBX_BAD_RSLOT = -30783"
definition MDBX_OUSTED :: rc where "MDBX_OUSTED = -30411"
definition MDBX_MVCC_RETARDED :: rc where "MDBX_MVCC_RETARDED = -30410"

definition SAFE64_INVALID_THRESHOLD :: nat where "SAFE64_INVALID_THRESHOLD = 0xFFFFFFFF00000000"
definition MDBX_TID_TXN_OUSTED :: nat where "MDBX_TID_TXN_OUSTED = UINT64_MAX - 1"
definition MDBX_TID_TXN_PARKED :: nat where "MDBX_TID_TXN_PARKED = UINT64_MAX"

definition safe64_txnid_next :: "nat \<Rightarrow> nat" where "safe64_txnid_next txnid = (txnid + 1) mod 2 ^ 64"
definition safe64_reset :: nat where "safe64_reset = UINT64_MAX"
definition safe64_reset_compare :: "nat \<Rightarrow> nat \<Rightarrow> bool \<times> nat" where
  "safe64_reset_compare p compare = (if p = compare then (True, UINT64_MAX) else (False, p))"

record reader_slot =
  sl_txnid :: txnid
  sl_tid :: nat
  sl_pid :: nat
  sl_pages_used :: pgno
  sl_pages_retired :: nat

text \<open>The table has \<^verbatim>\<open>max_readers\<close> slots, of which \<^verbatim>\<open>rdt_length\<close> were ever used.\<close>

record readers =
  rt_slots :: "reader_slot list"
  rt_length :: nat
  rt_refresh :: nat
  rt_cached_oldest :: txnid
  rt_cached_oldest_retired :: nat
  rt_check_timestamp :: nat
  rt_max_reader_lag :: nat
  rt_max_retained_pages :: nat
  rt_kicks :: nat

definition NOTHING_CHANGED_SIGNATURE :: nat where "NOTHING_CHANGED_SIGNATURE = 0x4E6F6E65"

definition rt_slot :: "readers \<Rightarrow> nat \<Rightarrow> reader_slot" where "rt_slot rt i = rt_slots rt ! i"

definition set_slot :: "nat \<Rightarrow> (reader_slot \<Rightarrow> reader_slot) \<Rightarrow> readers \<Rightarrow> readers" where
  "set_slot i f rt = rt\<lparr>rt_slots := (rt_slots rt)[i := f (rt_slot rt i)]\<rparr>"

subsection \<open>A sorted list of processes\<close>

text \<open>\<^verbatim>\<open>list[0]\<close> is the length; \<open>list[i]\<close> is \<open>pids ! (i - 1)\<close>. The value is the last difference and the cursor.\<close>

function pid_search :: "nat list \<Rightarrow> nat \<Rightarrow> nat \<Rightarrow> nat \<Rightarrow> nat \<Rightarrow> int \<Rightarrow> (int \<times> nat) option" where
  "pid_search pids pid base n cursor val =
     (if 0 < n
      then let pivot = n div 2; cursor = base + pivot + 1; val = int pid - int (pids ! (cursor - 1))
           in if val < 0 then pid_search pids pid base pivot cursor val
              else if 0 < val then pid_search pids pid cursor (n - (pivot + 1)) cursor val
              else None
      else Some (val, cursor))"
  by pat_completeness auto
termination by (relation "measure (\<lambda>(pids, pid, base, n, cursor, val). n)") auto

declare pid_search.simps [simp del]

definition pid_insert :: "nat list \<Rightarrow> nat \<Rightarrow> nat list option" where
  "pid_insert pids pid =
     (case pid_search pids pid 0 (length pids) 1 0 of
        None \<Rightarrow> None
      | Some (val, cursor) \<Rightarrow>
          (let cursor = (if 0 < val then cursor + 1 else cursor)
           in Some (take (cursor - 1) pids @ pid # drop (cursor - 1) pids)))"

subsection \<open>Clearing the slots of dead processes\<close>

text \<open>
  What the operating system answers: \<open>alive\<close> is \<^verbatim>\<open>lck_rpid_check\<close> before and \<open>alive'\<close> after the table is locked,
  \<open>lock\<close> the result of locking it, \<open>others\<close> what other processes did to the table in the meantime, \<open>malloc\<close> whether
  there is memory for a long list of processes.
\<close>

record cleanup_io =
  ci_env :: rc
  ci_pid :: nat
  ci_alive :: "nat \<Rightarrow> rc"
  ci_alive' :: "nat \<Rightarrow> rc"
  ci_lock :: rc
  ci_others :: "readers \<Rightarrow> readers"
  ci_malloc :: bool
  ci_now :: nat

text \<open>The loop that clears the slots of one process, from slot \<open>i\<close> on.\<close>

fun clear_slots :: "nat \<Rightarrow> nat list \<Rightarrow> readers \<Rightarrow> nat \<Rightarrow> readers \<times> nat" where
  "clear_slots pid [] rt n = (rt, n)"
| "clear_slots pid (ii # is) rt n =
     (if sl_pid (rt_slot rt ii) = pid
      then clear_slots pid is (set_slot ii (\<lambda>s. s\<lparr>sl_pid := 0\<rparr>) (rt\<lparr>rt_refresh := 1\<rparr>)) (n + 1)
      else clear_slots pid is rt n)"

record cleanup =
  cl_rc :: rc
  cl_locked :: int
  cl_pids :: "nat list"
  cl_count :: nat
  cl_table :: readers

text \<open>The body for slot \<open>i\<close> with a process that is found dead: \<open>True\<close> leaves the loop.\<close>

definition cleanup_stale :: "cleanup_io \<Rightarrow> nat \<Rightarrow> nat \<Rightarrow> nat \<Rightarrow> cleanup \<Rightarrow> bool \<times> cleanup" where
  "cleanup_stale io n i pid c =
     (let clear = (\<lambda>c. case clear_slots pid [i..<n] (cl_table c) (cl_count c) of
                         (rt, k) \<Rightarrow> (False, c\<lparr>cl_table := rt, cl_count := k\<rparr>))
      in if cl_locked c = 0
         then if MDBX_IS_ERROR (ci_lock io) then (True, c\<lparr>cl_rc := ci_lock io\<rparr>)
              else let c = c\<lparr>cl_locked := -1, cl_table := ci_others io (cl_table c)\<rparr>
                   in if ci_lock io = MDBX_RESULT_TRUE then (True, c\<lparr>cl_rc := MDBX_RESULT_TRUE\<rparr>)
                      else if sl_pid (rt_slot (cl_table c) i) \<noteq> pid then (False, c)
                      else if MDBX_IS_ERROR (ci_alive' io pid) then (True, c\<lparr>cl_rc := ci_alive' io pid\<rparr>)
                      else if ci_alive' io pid \<noteq> MDBX_SUCCESS then (False, c)
                      else clear c
         else clear c)"

fun cleanup_loop :: "cleanup_io \<Rightarrow> nat \<Rightarrow> nat list \<Rightarrow> cleanup \<Rightarrow> cleanup" where
  "cleanup_loop io n [] c = c"
| "cleanup_loop io n (i # is) c =
     (let pid = sl_pid (rt_slot (cl_table c) i)
      in if pid = 0 \<or> pid = ci_pid io then cleanup_loop io n is c
         else case pid_insert (cl_pids c) pid of
                None \<Rightarrow> cleanup_loop io n is c
              | Some pids \<Rightarrow>
                  (let c = c\<lparr>cl_pids := pids\<rparr>; err = ci_alive io pid
                   in if err = MDBX_RESULT_TRUE then cleanup_loop io n is c
                      else if err \<noteq> MDBX_SUCCESS then c\<lparr>cl_rc := err\<rparr>
                      else case cleanup_stale io n i pid c of
                             (True, c) \<Rightarrow> c
                           | (False, c) \<Rightarrow> cleanup_loop io n is c))"

text \<open>\<open>None\<close> is an environment without a lock file. The result is the code, the number of slots and the table.\<close>

definition mvcc_cleanup_dead :: "cleanup_io \<Rightarrow> int \<Rightarrow> readers option \<Rightarrow> rc \<times> nat \<times> readers option" where
  "mvcc_cleanup_dead io rdt_locked lck =
     (if ci_env io \<noteq> MDBX_SUCCESS then (ci_env io, 0, lck)
      else case lck of
             None \<Rightarrow> (MDBX_SUCCESS, 0, None)
           | Some rt \<Rightarrow>
               (if \<not> (rt_length rt < 142) \<and> \<not> ci_malloc io then (MDBX_ENOMEM, 0, lck)
                else let c = cleanup_loop io (rt_length rt) [0..<rt_length rt]
                               \<lparr>cl_rc = ci_env io, cl_locked = rdt_locked, cl_pids = [], cl_count = 0, cl_table = rt\<rparr>;
                         rt = (if \<not> MDBX_IS_ERROR (cl_rc c) then (cl_table c)\<lparr>rt_check_timestamp := ci_now io\<rparr> else cl_table c)
                     in (cl_rc c, cl_count c, Some rt)))"

subsection \<open>Binding a slot\<close>

record bind_io =
  bi_lock :: rc
  bi_fatal :: bool
  bi_mapped :: bool
  bi_registered_pid :: nat
  bi_pid :: nat
  bi_rpid_set :: rc
  bi_max_readers :: nat
  bi_tid :: nat
  bi_cleanup :: cleanup_io

fun first_free :: "readers \<Rightarrow> nat list \<Rightarrow> nat \<Rightarrow> nat" where
  "first_free rt [] n = n"
| "first_free rt (i # is) n = (if sl_pid (rt_slot rt i) = 0 then i else first_free rt is n)"

definition claim_slot :: "bind_io \<Rightarrow> nat \<Rightarrow> readers \<Rightarrow> readers" where
  "claim_slot io slot rt =
     (let n = rt_length rt;
          rt = set_slot slot (\<lambda>s. s\<lparr>sl_pid := 0, sl_txnid := safe64_reset\<rparr>) rt;
          rt = (if slot = n then rt\<lparr>rt_length := n + 1\<rparr> else rt)
      in set_slot slot (\<lambda>s. s\<lparr>sl_tid := bi_tid io, sl_pid := bi_pid io\<rparr>) rt)"

text \<open>The loop is endless in the code; \<open>None\<close> would be a loop that does not end.\<close>

partial_function (option) bind_loop :: "bind_io \<Rightarrow> readers \<Rightarrow> ((rc \<times> nat option) \<times> readers) option" where
  "bind_loop io rt =
     (let slot = first_free rt [0..<rt_length rt] (rt_length rt)
      in if slot < bi_max_readers io then Some ((MDBX_SUCCESS, Some slot), claim_slot io slot rt)
         else case mvcc_cleanup_dead (bi_cleanup io) 1 (Some rt) of
                (err, _, lck) \<Rightarrow>
                  if err \<noteq> MDBX_RESULT_TRUE
                  then Some ((if err = MDBX_SUCCESS then MDBX_READERS_FULL else err, None), the lck)
                  else bind_loop io (the lck))"

text \<open>The result, the slot, the table and \<^verbatim>\<open>registered_reader_pid\<close>.\<close>

definition mvcc_bind_slot :: "bind_io \<Rightarrow> readers \<Rightarrow> ((rc \<times> nat option) \<times> readers \<times> nat) option" where
  "mvcc_bind_slot io rt =
     (if MDBX_IS_ERROR (bi_lock io) then Some ((bi_lock io, None), rt, bi_registered_pid io)
      else if bi_fatal io then Some ((MDBX_PANIC, None), rt, bi_registered_pid io)
      else if \<not> bi_mapped io then Some ((MDBX_EPERM, None), rt, bi_registered_pid io)
      else if bi_registered_pid io \<noteq> bi_pid io \<and> bi_rpid_set io \<noteq> MDBX_SUCCESS
           then Some ((bi_rpid_set io, None), rt, bi_registered_pid io)
      else map_option (\<lambda>(r, rt). (r, rt, bi_pid io)) (bind_loop io rt))"

subsection \<open>The oldest transaction in use\<close>

text \<open>For a reader; \<open>recent\<close> is \<^const>\<open>recent_committed_txnid\<close>, \<open>pid\<close> is \<^verbatim>\<open>registered_reader_pid\<close>.\<close>

record orsi_ro =
  or_nreaders :: nat
  or_thisprocess_oldest :: txnid
  or_oldest :: txnid
  or_recent :: txnid

fun scan_oldest_ro :: "nat \<Rightarrow> reader_slot list \<Rightarrow> orsi_ro \<Rightarrow> orsi_ro" where
  "scan_oldest_ro this_pid [] r = r"
| "scan_oldest_ro this_pid (s # ss) r =
     (if sl_pid s = 0 then scan_oldest_ro this_pid ss r
      else let reader_txnid = sl_txnid s;
               r = r\<lparr>or_oldest := (if reader_txnid < or_oldest r then reader_txnid else or_oldest r)\<rparr>;
               r = (if sl_pid s = this_pid \<and> reader_txnid < or_thisprocess_oldest r
                    then r\<lparr>or_thisprocess_oldest := reader_txnid\<rparr> else r)
           in scan_oldest_ro this_pid ss r)"

definition mvcc_snapshot_oldest_ro :: "nat \<Rightarrow> txnid \<Rightarrow> bool \<Rightarrow> readers \<Rightarrow> orsi_ro" where
  "mvcc_snapshot_oldest_ro pid recent need_thisprocess_oldest rt =
     (let r = \<lparr>or_nreaders = rt_length rt, or_thisprocess_oldest = recent, or_oldest = recent, or_recent = recent\<rparr>
      in if \<not> need_thisprocess_oldest \<and> rt_refresh rt = NOTHING_CHANGED_SIGNATURE
         then r\<lparr>or_oldest := rt_cached_oldest rt\<rparr>
         else scan_oldest_ro pid (take (rt_length rt) (rt_slots rt)) r)"

text \<open>
  For the writer. A slot below the previous oldest one belongs to a reader that is about to start again; if nothing
  else has changed it is reset. Reaching the previous oldest ends the scan.
\<close>

fun scan_oldest_rw :: "txnid \<Rightarrow> nat list \<Rightarrow> readers \<Rightarrow> txnid \<times> nat \<Rightarrow> readers \<times> txnid \<times> nat" where
  "scan_oldest_rw prev [] rt r = (rt, r)"
| "scan_oldest_rw prev (i # is) rt (oldest, retired) =
     (let s = rt_slot rt i
      in if sl_pid s = 0 then scan_oldest_rw prev is rt (oldest, retired)
         else if sl_txnid s < prev
         then scan_oldest_rw prev is
                (if rt_refresh rt = NOTHING_CHANGED_SIGNATURE
                 then set_slot i (\<lambda>s. s\<lparr>sl_txnid := snd (safe64_reset_compare (sl_txnid s) (sl_txnid s))\<rparr>) rt else rt)
                (oldest, retired)
         else if sl_txnid s < oldest
         then if sl_txnid s = prev then (rt, sl_txnid s, sl_pages_retired s)
              else scan_oldest_rw prev is rt (sl_txnid s, sl_pages_retired s)
         else scan_oldest_rw prev is rt (oldest, retired))"

text \<open>The metas of the writer: transaction id and count of retired pages of the steady and of the recent one.\<close>

record writer_metas =
  wm_steady :: txnid
  wm_steady_retired :: nat
  wm_recent :: txnid
  wm_recent_retired :: nat

definition update_oldest :: "writer_metas \<Rightarrow> txnid \<Rightarrow> nat \<Rightarrow> readers \<Rightarrow> readers" where
  "update_oldest wm oldest retired rt =
     (let rt = rt\<lparr>rt_cached_oldest := oldest, rt_cached_oldest_retired := retired\<rparr>;
          reader_lag = sub64 (wm_recent wm) oldest;
          rt = (if rt_max_reader_lag rt < reader_lag
                then rt\<lparr>rt_max_reader_lag := (if reader_lag < UINT32_MAX then reader_lag else UINT32_MAX)\<rparr> else rt)
      in if retired < wm_recent_retired wm
         then let retained = wm_recent_retired wm - retired
              in if rt_max_retained_pages rt < retained
                 then rt\<lparr>rt_max_retained_pages := (if retained < UINT32_MAX then retained else UINT32_MAX)\<rparr> else rt
         else rt)"

definition mvcc_snapshot_oldest_rw :: "writer_metas \<Rightarrow> readers \<Rightarrow> txnid \<times> readers" where
  "mvcc_snapshot_oldest_rw wm rt =
     (let prev = rt_cached_oldest rt;
          (rt, oldest, retired) =
            (if rt_refresh rt \<noteq> NOTHING_CHANGED_SIGNATURE
             then scan_oldest_rw prev [0..<rt_length rt] (rt\<lparr>rt_refresh := NOTHING_CHANGED_SIGNATURE\<rparr>)
                    (wm_steady wm, wm_steady_retired wm)
             else (rt, prev, rt_cached_oldest_retired rt))
      in (oldest, if oldest \<noteq> prev then update_oldest wm oldest retired rt else rt))"

text \<open>The end of the pages that some reader may look at.\<close>

fun mvcc_snapshot_largest :: "txnid \<Rightarrow> reader_slot list \<Rightarrow> pgno \<Rightarrow> pgno" where
  "mvcc_snapshot_largest basal [] last_used = last_used"
| "mvcc_snapshot_largest basal (s # ss) last_used =
     mvcc_snapshot_largest basal ss
       (if sl_pid s \<noteq> 0 \<and> last_used < sl_pages_used s \<and> sl_txnid s \<le> basal then sl_pages_used s else last_used)"

fun mvcc_largest_this :: "nat \<Rightarrow> txnid \<Rightarrow> reader_slot list \<Rightarrow> pgno \<Rightarrow> pgno" where
  "mvcc_largest_this pid cached_oldest [] largest = largest"
| "mvcc_largest_this pid cached_oldest (s # ss) largest =
     mvcc_largest_this pid cached_oldest ss
       (if sl_pid s = pid \<and> largest < sl_pages_used s \<and> cached_oldest \<le> sl_txnid s \<and> sl_txnid s \<le> MAX_TXNID
        then sl_pages_used s else largest)"

subsection \<open>Kicking a reader that holds the writer up\<close>

text \<open>
  The scan for the reader at the oldest transaction: a parked one is ousted, of the others the last one is kept
  with its count of retired pages and its thread.
\<close>

fun find_stuck :: "txnid \<Rightarrow> nat list \<Rightarrow> readers \<Rightarrow> (nat \<times> nat \<times> nat) option \<Rightarrow> readers \<times> (nat \<times> nat \<times> nat) option" where
  "find_stuck oldest [] rt stuck = (rt, stuck)"
| "find_stuck oldest (i # is) rt stuck =
     (let s = rt_slot rt i
      in if sl_txnid s = oldest \<and> sl_pid s \<noteq> 0
         then if sl_tid s = MDBX_TID_TXN_PARKED
              then find_stuck oldest is
                     (set_slot i (\<lambda>s. s\<lparr>sl_tid := MDBX_TID_TXN_OUSTED,
                        sl_txnid := snd (safe64_reset_compare (sl_txnid s) oldest)\<rparr>) rt) stuck
              else find_stuck oldest is rt (Some (i, sl_pages_retired s, sl_tid s))
         else find_stuck oldest is rt stuck)"

text \<open>
  The user's callback gets the process, the thread, the transaction, its lag, the space it holds and the number of
  the attempt; it may change the table (kill the reader). \<open>None\<close> is no callback.
\<close>

type_synonym hsr = "nat \<Rightarrow> nat \<Rightarrow> txnid \<Rightarrow> nat \<Rightarrow> nat \<Rightarrow> int \<Rightarrow> readers \<Rightarrow> int \<times> readers"

record kick_io =
  ki_metas :: writer_metas
  ki_lck :: bool
  ki_cleanup :: "nat \<Rightarrow> cleanup_io"
  ki_callback :: "hsr option"
  ki_ps :: nat

record kick =
  kk_table :: readers
  kk_oldest :: txnid
  kk_notify :: bool
  kk_obstacle :: "nat \<times> nat \<times> txnid"

definition UINT_MAX :: nat where "UINT_MAX = 2 ^ 32 - 1"
definition INT_MAX :: nat where "INT_MAX = 2 ^ 31 - 1"

definition cap_uint :: "nat \<Rightarrow> nat" where "cap_uint n = (if n < UINT_MAX then n else UINT_MAX)"

definition kick_answer :: "nat \<Rightarrow> txnid \<Rightarrow> int \<Rightarrow> kick \<Rightarrow> bool \<times> kick" where
  "kick_answer i straggler rc k =
     (if rc < 0 then (True, k)
      else if 0 < rc
      then (False, k\<lparr>kk_table :=
              (if rc = 1 then set_slot i (\<lambda>s. s\<lparr>sl_txnid := snd (safe64_reset_compare (sl_txnid s) straggler)\<rparr>) (kk_table k)
               else set_slot i (\<lambda>s. s\<lparr>sl_txnid := safe64_reset, sl_tid := MDBX_TID_TXN_OUSTED, sl_pid := 0\<rparr>) (kk_table k))\<rparr>)
      else if \<not> kk_notify k
      then (False, k\<lparr>kk_table := (kk_table k)\<lparr>rt_kicks := rt_kicks (kk_table k) + 1\<rparr>, kk_notify := True\<rparr>)
      else (False, k))"

definition kick_stuck :: "kick_io \<Rightarrow> txnid \<Rightarrow> nat \<Rightarrow> nat \<times> nat \<times> nat \<Rightarrow> kick \<Rightarrow> bool \<times> kick" where
  "kick_stuck io straggler retry stuck k =
     (case stuck of (i, stuck_retired, stuck_tid) \<Rightarrow>
        (let s = rt_slot (kk_table k) i; pid = sl_pid s
         in if sl_txnid s \<noteq> straggler \<or> sl_tid s \<noteq> stuck_tid \<or> pid = 0 then (False, k)
            else let k = k\<lparr>kk_obstacle := (pid, stuck_tid, straggler)\<rparr>
                 in case ki_callback io of
                      None \<Rightarrow> (True, k)
                    | Some callback \<Rightarrow>
                        (let lag = sub64 (wm_recent (ki_metas io)) straggler;
                             recent_retired = wm_recent_retired (ki_metas io);
                             space = (if stuck_retired < recent_retired
                                      then (recent_retired - stuck_retired) mod 2 ^ 32 * ki_ps io else 0);
                             (rc, rt) = callback pid stuck_tid straggler (cap_uint lag) space (int retry) (kk_table k)
                         in kick_answer i straggler rc (k\<lparr>kk_table := rt\<rparr>))))"

text \<open>One round: \<open>True\<close> leaves the loop.\<close>

definition kick_round :: "kick_io \<Rightarrow> txnid \<Rightarrow> nat \<Rightarrow> kick \<Rightarrow> bool \<times> kick" where
  "kick_round io straggler retry k =
     (let (oldest, rt) = mvcc_snapshot_oldest_rw (ki_metas io) ((kk_table k)\<lparr>rt_refresh := 1\<rparr>);
          k = k\<lparr>kk_table := rt, kk_oldest := oldest\<rparr>
      in if oldest = wm_steady (ki_metas io) \<or> straggler < oldest \<or> \<not> ki_lck io then (True, k)
         else case mvcc_cleanup_dead (ki_cleanup io retry) 0 (Some rt) of
                (err, _, lck) \<Rightarrow>
                  (let k = k\<lparr>kk_table := the lck\<rparr>
                   in if MDBX_IS_ERROR err then (True, k)
                      else case find_stuck oldest [0..<rt_length (kk_table k)] (kk_table k) None of
                             (rt, None) \<Rightarrow> (True, k\<lparr>kk_table := rt\<rparr>)
                           | (rt, Some stuck) \<Rightarrow> kick_stuck io straggler retry stuck (k\<lparr>kk_table := rt\<rparr>)))"

function kick_loop :: "kick_io \<Rightarrow> txnid \<Rightarrow> nat \<Rightarrow> kick \<Rightarrow> nat \<times> kick" where
  "kick_loop io straggler retry k =
     (case kick_round io straggler retry k of
        (True, k) \<Rightarrow> (retry, k)
      | (False, k) \<Rightarrow> if Suc retry < INT_MAX then kick_loop io straggler (Suc retry) k else (Suc retry, k))"
  by pat_completeness auto
termination by (relation "measure (\<lambda>(io, straggler, retry, k). INT_MAX - retry)") auto

declare kick_loop.simps [simp del]

definition mvcc_kick_laggards :: "kick_io \<Rightarrow> txnid \<Rightarrow> readers \<Rightarrow> bool \<times> readers \<times> (nat \<times> nat \<times> txnid)" where
  "mvcc_kick_laggards io straggler rt =
     (let (retry, k) = kick_loop io straggler 0 \<lparr>kk_table = rt, kk_oldest = 0, kk_notify = False, kk_obstacle = (0, 0, 0)\<rparr>;
          rt = (if kk_notify k
                then (case ki_callback io of
                        None \<Rightarrow> kk_table k
                      | Some callback \<Rightarrow>
                          snd (callback 0 0 straggler (cap_uint (sub64 (kk_oldest k) straggler)) 0 (- int retry) (kk_table k)))
                else kk_table k)
      in (straggler < kk_oldest k, rt, kk_obstacle k))"

end
