(* ===== verification/Mvcc_Ops.thy ===== *)
theory Mvcc_Ops
  imports Mvcc
begin

text \<open>
  The table of readers, one function at a time: the sorted list of processes, the clearing of the slots of dead
  processes, the binding of a slot, and the scan for the oldest transaction in use.
\<close>

subsection \<open>The sorted list of processes\<close>

lemma pid_search_spec:
  assumes "sorted_wrt (<) es" "base + n \<le> length es" "\<And>i. i < base \<Longrightarrow> es ! i < pid"
    "\<And>i. base + n \<le> i \<Longrightarrow> i < length es \<Longrightarrow> pid < es ! i" "n = 0 \<Longrightarrow> cursor = (if 0 < val then base else base + 1)"
  shows "case pid_search es pid base n cursor val of
           None \<Rightarrow> pid \<in> set es
         | Some (v, c) \<Rightarrow> (let p = (if 0 < v then c + 1 else c) - 1
             in p \<le> length es \<and> (\<forall>i < p. es ! i < pid) \<and> (\<forall>i. p \<le> i \<and> i < length es \<longrightarrow> pid < es ! i))"
  using assms
proof (induction es pid base n cursor val rule: pid_search.induct)
  case (1 es pid base n cursor val)
  show ?case
  proof (cases "0 < n")
    case False
    then show ?thesis using "1.prems" by (subst pid_search.simps) (auto simp: Let_def)
  next
    case True
    let ?p = "base + n div 2"
    have p: "?p < length es" "n div 2 < n" using True "1.prems"(2) by simp_all
    have less: "es ! i < es ! j" if "i < j" "j < length es" for i j
      using "1.prems"(1) that by (simp add: sorted_wrt_iff_nth_less)
    consider "pid < es ! ?p" | "es ! ?p < pid" | "es ! ?p = pid" by linarith
    then show ?thesis
    proof cases
      case 1
      have "case pid_search es pid base (n div 2) (?p + 1) (int pid - int (es ! ?p)) of
           None \<Rightarrow> pid \<in> set es
         | Some (v, c) \<Rightarrow> (let p = (if 0 < v then c + 1 else c) - 1
             in p \<le> length es \<and> (\<forall>i < p. es ! i < pid) \<and> (\<forall>i. p \<le> i \<and> i < length es \<longrightarrow> pid < es ! i))"
      proof (rule "1.IH"(1)[OF True refl refl])
        show "pid < es ! i" if "base + n div 2 \<le> i" "i < length es" for i
          using 1 less[of ?p i] that by (cases "i = ?p") auto
      qed (use 1 "1.prems" p in simp_all)
      then show ?thesis using 1 True by (subst pid_search.simps) (simp add: Let_def)
    next
      case 2
      have "case pid_search es pid (?p + 1) (n - (n div 2 + 1)) (?p + 1) (int pid - int (es ! ?p)) of
           None \<Rightarrow> pid \<in> set es
         | Some (v, c) \<Rightarrow> (let p = (if 0 < v then c + 1 else c) - 1
             in p \<le> length es \<and> (\<forall>i < p. es ! i < pid) \<and> (\<forall>i. p \<le> i \<and> i < length es \<longrightarrow> pid < es ! i))"
      proof (rule "1.IH"(2)[OF True refl refl])
        show "es ! i < pid" if "i < ?p + 1" for i
          using 2 less[of i ?p] that p by (cases "i = ?p") auto
        show "pid < es ! i" if "?p + 1 + (n - (n div 2 + 1)) \<le> i" "i < length es" for i
          using "1.prems"(4)[of i] that p by simp
      qed (use 2 "1.prems" p in simp_all)
      then show ?thesis using 2 True by (subst pid_search.simps) (simp add: Let_def)
    next
      case 3
      then have "pid \<in> set es" using p by auto
      then show ?thesis using 3 True by (subst pid_search.simps) (simp add: Let_def)
    qed
  qed
qed

lemma pid_insert_spec:
  assumes "sorted_wrt (<) es"
  shows "pid_insert es pid = None \<longleftrightarrow> pid \<in> set es"
    and "pid_insert es pid = Some es' \<Longrightarrow> sorted_wrt (<) es' \<and> set es' = insert pid (set es)"
proof -
  have spec: "case pid_search es pid 0 (length es) 1 0 of
           None \<Rightarrow> pid \<in> set es
         | Some (v, c) \<Rightarrow> (let p = (if 0 < v then c + 1 else c) - 1
             in p \<le> length es \<and> (\<forall>i < p. es ! i < pid) \<and> (\<forall>i. p \<le> i \<and> i < length es \<longrightarrow> pid < es ! i))"
    by (rule pid_search_spec) (use assms in simp_all)
  have found: "pid_insert es pid = Some (take p es @ pid # drop p es) \<and> p \<le> length es \<and> (\<forall>i < p. es ! i < pid) \<and>
      (\<forall>i. p \<le> i \<and> i < length es \<longrightarrow> pid < es ! i)"
    if "pid_search es pid 0 (length es) 1 0 = Some (v, c)" "p = (if 0 < v then c + 1 else c) - 1" for v c p
    using spec that by (simp add: pid_insert_def Let_def)
  show "pid_insert es pid = None \<longleftrightarrow> pid \<in> set es"
  proof (cases "pid_search es pid 0 (length es) 1 0")
    case None
    then show ?thesis using spec by (simp add: pid_insert_def)
  next
    case (Some vc)
    then obtain v c where "pid_search es pid 0 (length es) 1 0 = Some (v, c)" by (cases vc) auto
    note f = found[OF this refl]
    have "pid \<noteq> es ! i" if "i < length es" for i
      using f that by (cases "i < (if 0 < v then c + 1 else c) - 1") (auto simp: not_less)
    then show ?thesis using f by (auto simp: in_set_conv_nth)
  qed
  assume r: "pid_insert es pid = Some es'"
  then obtain v c where vc: "pid_search es pid 0 (length es) 1 0 = Some (v, c)"
    by (cases "pid_search es pid 0 (length es) 1 0") (auto simp: pid_insert_def)
  define p where "p = (if 0 < v then c + 1 else c) - 1"
  have es': "es' = take p es @ pid # drop p es" and p: "p \<le> length es"
    and lo: "\<forall>i < p. es ! i < pid" and hi: "\<forall>i. p \<le> i \<and> i < length es \<longrightarrow> pid < es ! i"
    using found[OF vc p_def] r by auto
  have lo': "\<forall>x \<in> set (take p es). x < pid" using lo p by (auto simp: in_set_conv_nth)
  have hi': "\<forall>x \<in> set (drop p es). pid < x" using hi p by (auto simp: in_set_conv_nth)
  have "sorted_wrt (<) (take p es @ drop p es)" using assms by simp
  then have "sorted_wrt (<) (take p es)" "sorted_wrt (<) (drop p es)" by (simp_all only: sorted_wrt_append)
  then have "sorted_wrt (<) es'" using lo' hi' unfolding es' by (force simp: sorted_wrt_append)
  moreover have "set es' = insert pid (set es)" unfolding es' by (metis append_take_drop_id list.simps(15) set_append Un_insert_right)
  ultimately show "sorted_wrt (<) es' \<and> set es' = insert pid (set es)" by simp
qed

subsection \<open>Clearing the slots of a process\<close>

lemma set_slot_fields [simp]:
  "rt_length (set_slot i f rt) = rt_length rt" "length (rt_slots (set_slot i f rt)) = length (rt_slots rt)"
  "rt_cached_oldest (set_slot i f rt) = rt_cached_oldest rt" "rt_refresh (set_slot i f rt) = rt_refresh rt"
  by (simp_all add: set_slot_def)

lemma rt_slot_set_slot: "i < length (rt_slots rt) \<Longrightarrow> rt_slot (set_slot i f rt) j = (if j = i then f (rt_slot rt i) else rt_slot rt j)"
  by (simp add: set_slot_def rt_slot_def)

definition clear_pid :: "reader_slot \<Rightarrow> reader_slot" where "clear_pid s = s\<lparr>sl_pid := 0\<rparr>"

lemma clear_pid_simps [simp]: "sl_pid (clear_pid s) = 0" "clear_pid (clear_pid s) = clear_pid s"
  by (simp_all add: clear_pid_def)

lemma clear_slots_spec:
  assumes "clear_slots pid is rt n = (rt', n')" "pid \<noteq> 0" "distinct is" "list_all (\<lambda>i. i < length (rt_slots rt)) is"
  shows "rt_length rt' = rt_length rt \<and> length (rt_slots rt') = length (rt_slots rt) \<and> rt_cached_oldest rt' = rt_cached_oldest rt \<and>
    (\<forall>j. rt_slot rt' j = (if j \<in> set is \<and> sl_pid (rt_slot rt j) = pid then clear_pid (rt_slot rt j) else rt_slot rt j)) \<and>
    n' = n + length (filter (\<lambda>j. sl_pid (rt_slot rt j) = pid) is)"
  using assms
proof (induction pid "is" rt n arbitrary: rt' n' rule: clear_slots.induct)
  case (2 pid ii "is" rt n)
  let ?rt = "set_slot ii (\<lambda>s. s\<lparr>sl_pid := 0\<rparr>) (rt\<lparr>rt_refresh := 1\<rparr>)"
  have slot: "rt_slot ?rt j = (if j = ii then clear_pid (rt_slot rt ii) else rt_slot rt j)" for j
    using 2(6) by (subst rt_slot_set_slot) (simp_all add: clear_pid_def rt_slot_def)
  show ?case
  proof (cases "sl_pid (rt_slot rt ii) = pid")
    case True
    then have rec: "clear_slots pid is ?rt (n + 1) = (rt', n')" using 2(3) by simp
    have fl: "filter (\<lambda>j. sl_pid (rt_slot ?rt j) = pid) is = filter (\<lambda>j. sl_pid (rt_slot rt j) = pid) is"
      using 2(5) slot by (intro filter_cong) auto
    have len: "list_all (\<lambda>i. i < length (rt_slots ?rt)) is" using 2(6) by simp
    note ih = 2(1)[OF True rec 2(4) _ len, unfolded fl, unfolded slot]
    show ?thesis using ih 2(5) True by auto
  next
    case False
    then show ?thesis using 2(2)[OF False] 2(3-6) by auto
  qed
qed simp


subsection \<open>Clearing the slots of dead processes\<close>

definition cleaned :: "cleanup_io \<Rightarrow> reader_slot \<Rightarrow> reader_slot" where
  "cleaned io s = (if sl_pid s \<noteq> 0 \<and> sl_pid s \<noteq> ci_pid io \<and> ci_alive io (sl_pid s) = MDBX_SUCCESS then clear_pid s else s)"

text \<open>The table \<open>c\<close> has, after the processes \<^const>\<open>cl_pids\<close> of the slots before \<open>i\<close>, for the original slots \<open>S\<close>.\<close>

definition cleanup_inv :: "cleanup_io \<Rightarrow> nat \<Rightarrow> (nat \<Rightarrow> reader_slot) \<Rightarrow> nat \<Rightarrow> cleanup \<Rightarrow> bool" where
  "cleanup_inv io n S i c \<longleftrightarrow>
     sorted_wrt (<) (cl_pids c) \<and> 0 \<notin> set (cl_pids c) \<and> ci_pid io \<notin> set (cl_pids c) \<and>
     (\<forall>j. rt_slot (cl_table c) j = (if j < n \<and> sl_pid (S j) \<in> set (cl_pids c) then cleaned io (S j) else S j)) \<and>
     (\<forall>j < i. sl_pid (S j) = 0 \<or> sl_pid (S j) = ci_pid io \<or> sl_pid (S j) \<in> set (cl_pids c)) \<and>
     n \<le> length (rt_slots (cl_table c))"

lemma cleanup_inv_dead:
  assumes inv: "cleanup_inv io n S i c" and i: "i < n" and p: "sl_pid (rt_slot (cl_table c) i) = p" "p \<noteq> 0" "p \<noteq> ci_pid io"
    and new: "p \<notin> set (cl_pids c)" and pids: "sorted_wrt (<) pids" "set pids = insert p (set (cl_pids c))"
    and dead: "ci_alive io p = MDBX_SUCCESS" and clear: "clear_slots p [i..<n] (cl_table c) m = (rt, m')"
  shows "cleanup_inv io n S (Suc i) (c\<lparr>cl_pids := pids, cl_table := rt, cl_count := m'\<rparr>)"
proof -
  have slots: "rt_slot (cl_table c) j = (if j < n \<and> sl_pid (S j) \<in> set (cl_pids c) then cleaned io (S j) else S j)" for j
    using inv by (simp add: cleanup_inv_def)
  have cleaned_pid: "sl_pid (cleaned io s) = 0 \<or> cleaned io s = s" for s by (simp add: cleaned_def clear_pid_def)
  have eq: "sl_pid (rt_slot (cl_table c) j) = p \<longleftrightarrow> sl_pid (S j) = p" for j
    using cleaned_pid[of "S j"] new p(2) by (auto simp: slots)
  have before: "sl_pid (S j) \<noteq> p" if "j < i" for j
    using inv that new p by (auto simp: cleanup_inv_def)
  have rt: "length (rt_slots rt) = length (rt_slots (cl_table c))"
    "rt_slot rt j = (if j \<in> set [i..<n] \<and> sl_pid (rt_slot (cl_table c) j) = p then clear_pid (rt_slot (cl_table c) j) else rt_slot (cl_table c) j)" for j
    using clear_slots_spec[OF clear p(2)] inv by (auto simp: cleanup_inv_def list_all_iff)
  have "rt_slot rt j = (if j < n \<and> sl_pid (S j) \<in> set pids then cleaned io (S j) else S j)" for j
    unfolding rt(2) eq slots using before[of j] new p dead pids(2) by (cases "i \<le> j") (auto simp: cleaned_def)
  moreover have "sl_pid (S j) = 0 \<or> sl_pid (S j) = ci_pid io \<or> sl_pid (S j) \<in> set pids" if "j < Suc i" for j
    using that inv eq[of i] p(1) pids(2) by (cases "j = i") (auto simp: cleanup_inv_def less_Suc_eq)
  ultimately show ?thesis using inv rt(1) p pids by (simp add: cleanup_inv_def)
qed

lemma cleanup_inv_live:
  assumes inv: "cleanup_inv io n S i c" and i: "i < n" and p: "sl_pid (rt_slot (cl_table c) i) = p" "p \<noteq> 0" "p \<noteq> ci_pid io"
    and new: "p \<notin> set (cl_pids c)" and pids: "sorted_wrt (<) pids" "set pids = insert p (set (cl_pids c))"
    and live: "ci_alive io p = MDBX_RESULT_TRUE"
  shows "cleanup_inv io n S (Suc i) (c\<lparr>cl_pids := pids\<rparr>)"
proof -
  have slots: "rt_slot (cl_table c) j = (if j < n \<and> sl_pid (S j) \<in> set (cl_pids c) then cleaned io (S j) else S j)" for j
    using inv by (simp add: cleanup_inv_def)
  have here: "sl_pid (S i) = p" using slots[of i] p i by (auto simp: cleaned_def split: if_splits)
  have same: "cleaned io s = s" if "sl_pid s = p" for s
    using live that by (simp add: cleaned_def MDBX_RESULT_TRUE_def MDBX_SUCCESS_def)
  have "rt_slot (cl_table c) j = (if j < n \<and> sl_pid (S j) \<in> set pids then cleaned io (S j) else S j)" for j
    using slots[of j] same[of "S j"] new pids(2) by (cases "sl_pid (S j) = p") simp_all
  moreover have "sl_pid (S j) = 0 \<or> sl_pid (S j) = ci_pid io \<or> sl_pid (S j) \<in> set pids" if "j < Suc i" for j
    using that inv here pids(2) by (cases "j = i") (auto simp: cleanup_inv_def less_Suc_eq)
  ultimately show ?thesis using inv p pids by (simp add: cleanup_inv_def)
qed

lemma cleanup_loop_spec:
  assumes "cleanup_inv io n S i c" "i \<le> n" "cl_locked c \<noteq> 0" "\<And>p. ci_alive io p \<in> {MDBX_SUCCESS, MDBX_RESULT_TRUE}"
  shows "cl_rc (cleanup_loop io n [i..<n] c) = cl_rc c \<and> cleanup_inv io n S n (cleanup_loop io n [i..<n] c)"
  using assms
proof (induction "n - i" arbitrary: i c)
  case 0
  then show ?case by simp
next
  case (Suc k)
  then have i: "i < n" and upt: "[i..<n] = i # [Suc i..<n]" by (simp_all add: upt_conv_Cons)
  let ?pid = "sl_pid (rt_slot (cl_table c) i)"
  have step: "cl_rc (cleanup_loop io n [Suc i..<n] c') = cl_rc c \<and> cleanup_inv io n S n (cleanup_loop io n [Suc i..<n] c')"
    if "cleanup_inv io n S (Suc i) c'" "cl_rc c' = cl_rc c" "cl_locked c' \<noteq> 0" for c'
    using Suc.hyps(1)[of "Suc i" c'] Suc.hyps(2) i that Suc.prems(4) by simp
  have slot: "rt_slot (cl_table c) i = (if sl_pid (S i) \<in> set (cl_pids c) then cleaned io (S i) else S i)"
    using Suc.prems(1) i by (simp add: cleanup_inv_def)
  have sorted: "sorted_wrt (<) (cl_pids c)" using Suc.prems(1) by (simp add: cleanup_inv_def)
  show ?case
  proof (cases "?pid = 0 \<or> ?pid = ci_pid io")
    case True
    have "sl_pid (S i) = 0 \<or> sl_pid (S i) = ci_pid io \<or> sl_pid (S i) \<in> set (cl_pids c)"
      using True slot by (auto split: if_splits)
    then have "cleanup_inv io n S (Suc i) c" using Suc.prems(1) by (auto simp: cleanup_inv_def less_Suc_eq)
    then show ?thesis using step[of c] True Suc.prems(3) unfolding upt by (simp add: Let_def)
  next
    case False
    show ?thesis
    proof (cases "pid_insert (cl_pids c) ?pid")
      case None
      then have "?pid \<in> set (cl_pids c)" using pid_insert_spec(1)[OF sorted] by blast
      then have "sl_pid (S i) \<in> set (cl_pids c)" using slot False by (auto split: if_splits)
      then have "cleanup_inv io n S (Suc i) c" using Suc.prems(1) by (auto simp: cleanup_inv_def less_Suc_eq)
      then show ?thesis using step[of c] False None Suc.prems(3) unfolding upt by (simp add: Let_def)
    next
      case (Some pids)
      have pids: "sorted_wrt (<) pids" "set pids = insert ?pid (set (cl_pids c))" "?pid \<notin> set (cl_pids c)"
        using pid_insert_spec(1)[OF sorted, of ?pid] pid_insert_spec(2)[OF sorted Some] Some by auto
      show ?thesis
      proof (cases "ci_alive io ?pid = MDBX_RESULT_TRUE")
        case True
        have "cleanup_inv io n S (Suc i) (c\<lparr>cl_pids := pids\<rparr>)"
          by (rule cleanup_inv_live[OF Suc.prems(1) i refl _ _ pids(3,1,2)]) (use False True in \<open>simp_all\<close>)
        then show ?thesis using step[of "c\<lparr>cl_pids := pids\<rparr>"] False Some True Suc.prems(3) unfolding upt by (simp add: Let_def)
      next
        case dead: False
        then have d: "ci_alive io ?pid = MDBX_SUCCESS" using Suc.prems(4)[of ?pid] by simp
        obtain rt m' where cs: "clear_slots ?pid [i..<n] (cl_table c) (cl_count c) = (rt, m')" by fastforce
        let ?c = "c\<lparr>cl_pids := pids, cl_table := rt, cl_count := m'\<rparr>"
        have "cleanup_inv io n S (Suc i) ?c"
          by (rule cleanup_inv_dead[OF Suc.prems(1) i refl _ _ pids(3,1,2) d cs]) (use False in simp_all)
        moreover have "cleanup_stale io n i ?pid (c\<lparr>cl_pids := pids\<rparr>) = (False, ?c)"
          using cs Suc.prems(3) by (simp add: cleanup_stale_def)
        ultimately show ?thesis using step[of ?c] False Some d dead Suc.prems(3) unfolding upt by (simp add: Let_def)
      qed
    qed
  qed
qed

text \<open>
  With the table locked and the system telling for every process whether it lives, the slots of the dead ones are
  freed and no other slot is touched; the code is \<^verbatim>\<open>MDBX_SUCCESS\<close>, whether any slot was freed or not.
\<close>

lemma cleanup_dead_frees:
  assumes "ci_env io = MDBX_SUCCESS" "rt_length rt \<le> length (rt_slots rt)" "rt_length rt < 142 \<or> ci_malloc io"
    "\<And>p. ci_alive io p \<in> {MDBX_SUCCESS, MDBX_RESULT_TRUE}"
  obtains count rt' where "mvcc_cleanup_dead io 1 (Some rt) = (MDBX_SUCCESS, count, Some rt')"
    "\<And>j. rt_slot rt' j = (if j < rt_length rt then cleaned io (rt_slot rt j) else rt_slot rt j)"
proof -
  define c where "c = cleanup_loop io (rt_length rt) [0..<rt_length rt]
    \<lparr>cl_rc = ci_env io, cl_locked = 1, cl_pids = [], cl_count = 0, cl_table = rt\<rparr>"
  have *: "cl_rc c = MDBX_SUCCESS \<and> cleanup_inv io (rt_length rt) (rt_slot rt) (rt_length rt) c"
    unfolding c_def using cleanup_loop_spec[of io "rt_length rt" "rt_slot rt" 0] assms by (simp add: cleanup_inv_def)
  have "rt_slot (cl_table c) j = (if j < rt_length rt then cleaned io (rt_slot rt j) else rt_slot rt j)" for j
    using * by (auto simp: cleanup_inv_def cleaned_def)
  moreover have "mvcc_cleanup_dead io 1 (Some rt) =
      (cl_rc c, cl_count c, Some (if \<not> MDBX_IS_ERROR (cl_rc c) then (cl_table c)\<lparr>rt_check_timestamp := ci_now io\<rparr> else cl_table c))"
    using assms(1,3) by (auto simp: mvcc_cleanup_dead_def Let_def c_def)
  then have "mvcc_cleanup_dead io 1 (Some rt) = (MDBX_SUCCESS, cl_count c, Some ((cl_table c)\<lparr>rt_check_timestamp := ci_now io\<rparr>))"
    using * by (simp add: MDBX_IS_ERROR_def MDBX_SUCCESS_def MDBX_RESULT_FALSE_def)
  ultimately show thesis using that by (simp add: rt_slot_def)
qed

lemma cleanup_loop_locked_rc:
  "cl_locked c \<noteq> 0 \<Longrightarrow> cl_rc c \<noteq> MDBX_RESULT_TRUE \<Longrightarrow> cl_rc (cleanup_loop io n is c) \<noteq> MDBX_RESULT_TRUE"
  by (induction io n "is" c rule: cleanup_loop.induct)
    (auto simp: Let_def cleanup_stale_def split: option.splits prod.splits)

text \<open>So under the lock the code never says that it has cleared a slot.\<close>

lemma cleanup_locked_rc: "fst (mvcc_cleanup_dead io 1 lck) = MDBX_RESULT_TRUE \<Longrightarrow> ci_env io = MDBX_RESULT_TRUE"
  using cleanup_loop_locked_rc[of "\<lparr>cl_rc = ci_env io, cl_locked = 1, cl_pids = [], cl_count = 0, cl_table = the lck\<rparr>" io]
  by (auto simp: mvcc_cleanup_dead_def Let_def MDBX_SUCCESS_def MDBX_ENOMEM_def MDBX_RESULT_TRUE_def split: if_splits option.splits)


subsection \<open>Binding a slot\<close>

lemma first_free_cases:
  "first_free rt is n = n \<and> list_all (\<lambda>i. sl_pid (rt_slot rt i) \<noteq> 0) is \<or>
   first_free rt is n \<in> set is \<and> sl_pid (rt_slot rt (first_free rt is n)) = 0"
  by (induction rt "is" n rule: first_free.induct) auto

lemma bind_loop_ends:
  assumes "ci_env (bi_cleanup io) \<noteq> MDBX_RESULT_TRUE"
  shows "bind_loop io rt =
    (let slot = first_free rt [0..<rt_length rt] (rt_length rt); (err, _, lck) = mvcc_cleanup_dead (bi_cleanup io) 1 (Some rt)
     in Some (if slot < bi_max_readers io then ((MDBX_SUCCESS, Some slot), claim_slot io slot rt)
              else ((if err = MDBX_SUCCESS then MDBX_READERS_FULL else err, None), the lck)))"
  using cleanup_locked_rc[of "bi_cleanup io" "Some rt"] assms
  by (subst bind_loop.simps) (auto simp: Let_def split: prod.splits)

lemma claim_slot_effect:
  assumes "slot < length (rt_slots rt)"
  shows "rt_slot (claim_slot io slot rt) j =
      (if j = slot then (rt_slot rt slot)\<lparr>sl_pid := bi_pid io, sl_txnid := safe64_reset, sl_tid := bi_tid io\<rparr> else rt_slot rt j)"
    and "rt_length (claim_slot io slot rt) = (if slot = rt_length rt then rt_length rt + 1 else rt_length rt)"
  using assms by (auto simp: claim_slot_def Let_def set_slot_def rt_slot_def)

text \<open>
  Although every slot belongs to a dead process and all of them are freed, the caller is told that the table is full:
  \<^verbatim>\<open>mvcc_cleanup_dead\<close> returns \<^verbatim>\<open>MDBX_SUCCESS\<close>, the loop goes on for \<^verbatim>\<open>MDBX_RESULT_TRUE\<close> only.
\<close>

lemma bind_slot_full_of_dead:
  assumes io: "\<not> MDBX_IS_ERROR (bi_lock io)" "\<not> bi_fatal io" "bi_mapped io" "bi_rpid_set io = MDBX_SUCCESS"
    and table: "rt_length rt = bi_max_readers io" "length (rt_slots rt) = bi_max_readers io" "bi_max_readers io < 142"
    and env: "ci_env (bi_cleanup io) = MDBX_SUCCESS" "\<And>p. ci_alive (bi_cleanup io) p \<in> {MDBX_SUCCESS, MDBX_RESULT_TRUE}"
    and dead: "\<And>i. i < rt_length rt \<Longrightarrow> sl_pid (rt_slot rt i) \<noteq> 0 \<and> sl_pid (rt_slot rt i) \<noteq> ci_pid (bi_cleanup io) \<and>
      ci_alive (bi_cleanup io) (sl_pid (rt_slot rt i)) = MDBX_SUCCESS"
  shows "\<exists>rt'. mvcc_bind_slot io rt = Some ((MDBX_READERS_FULL, None), rt', bi_pid io) \<and>
    (\<forall>i < rt_length rt. sl_pid (rt_slot rt' i) = 0)"
proof -
  obtain count rt' where c: "mvcc_cleanup_dead (bi_cleanup io) 1 (Some rt) = (MDBX_SUCCESS, count, Some rt')"
    and slots: "\<And>j. rt_slot rt' j = (if j < rt_length rt then cleaned (bi_cleanup io) (rt_slot rt j) else rt_slot rt j)"
    using cleanup_dead_frees[of "bi_cleanup io" rt] env table by (metis order_refl)
  have "first_free rt [0..<rt_length rt] (rt_length rt) = rt_length rt"
    using first_free_cases[of rt "[0..<rt_length rt]" "rt_length rt"] dead[of "first_free rt [0..<rt_length rt] (rt_length rt)"] by auto
  then have "bind_loop io rt = Some ((MDBX_READERS_FULL, None), rt')"
    using bind_loop_ends[of io rt] c env(1) table by (simp add: MDBX_SUCCESS_def MDBX_RESULT_TRUE_def)
  then have "mvcc_bind_slot io rt = Some ((MDBX_READERS_FULL, None), rt', bi_pid io)"
    using io by (simp add: mvcc_bind_slot_def)
  moreover have "sl_pid (rt_slot rt' i) = 0" if "i < rt_length rt" for i using dead[OF that] that by (simp add: slots cleaned_def)
  ultimately show ?thesis by blast
qed

text \<open>
  C11. Binding a slot always ends, although its loop has no bound: the clearing of dead processes under the lock never
  asks for another round. On success the slot was free, it now belongs to the process and the thread, shows no
  transaction yet, and no other slot has changed; otherwise there is no slot.
\<close>

theorem bind_slot_ends:
  assumes "ci_env (bi_cleanup io) \<noteq> MDBX_RESULT_TRUE" and "rt_length rt \<le> length (rt_slots rt)"
    and "length (rt_slots rt) = bi_max_readers io"
  shows "\<exists>rc slot rt' registered. mvcc_bind_slot io rt = Some ((rc, slot), rt', registered) \<and>
    (case slot of
       None \<Rightarrow> rc \<noteq> MDBX_SUCCESS
     | Some i \<Rightarrow> rc = MDBX_SUCCESS \<and> registered = bi_pid io \<and> i < bi_max_readers io \<and> i \<le> rt_length rt \<and>
         (i < rt_length rt \<longrightarrow> sl_pid (rt_slot rt i) = 0) \<and> i < rt_length rt' \<and>
         (\<forall>j. rt_slot rt' j = (if j = i then (rt_slot rt i)\<lparr>sl_pid := bi_pid io, sl_txnid := UINT64_MAX, sl_tid := bi_tid io\<rparr>
                               else rt_slot rt j)))"
proof -
  let ?i = "first_free rt [0..<rt_length rt] (rt_length rt)"
  have i: "?i \<le> rt_length rt" "?i < rt_length rt \<longrightarrow> sl_pid (rt_slot rt ?i) = 0"
    using first_free_cases[of rt "[0..<rt_length rt]" "rt_length rt"] by auto
  obtain err count lck where c: "mvcc_cleanup_dead (bi_cleanup io) 1 (Some rt) = (err, count, lck)" by (metis prod_cases3)
  have full: "(if err = MDBX_SUCCESS then MDBX_READERS_FULL else err) \<noteq> MDBX_SUCCESS"
    by (simp add: MDBX_READERS_FULL_def MDBX_SUCCESS_def)
  note loop = bind_loop_ends[OF assms(1), of rt, unfolded c Let_def prod.case]
  consider "MDBX_IS_ERROR (bi_lock io) \<or> bi_fatal io \<or> \<not> bi_mapped io \<or> bi_registered_pid io \<noteq> bi_pid io \<and> bi_rpid_set io \<noteq> MDBX_SUCCESS"
    | "\<not> MDBX_IS_ERROR (bi_lock io)" "\<not> bi_fatal io" "bi_mapped io" "\<not> (bi_registered_pid io \<noteq> bi_pid io \<and> bi_rpid_set io \<noteq> MDBX_SUCCESS)" by blast
  then show ?thesis
  proof cases
    case 1
    then show ?thesis
      by (auto simp: mvcc_bind_slot_def MDBX_IS_ERROR_def MDBX_PANIC_def MDBX_EPERM_def MDBX_SUCCESS_def MDBX_RESULT_FALSE_def)
  next
    case 2
    then have bind: "mvcc_bind_slot io rt = map_option (\<lambda>(r, rt). (r, rt, bi_pid io)) (bind_loop io rt)"
      by (auto simp: mvcc_bind_slot_def)
    show ?thesis
    proof (cases "?i < bi_max_readers io")
      case True
      then have len: "?i < length (rt_slots rt)" using assms(3) by simp
      show ?thesis unfolding bind loop using True i claim_slot_effect[OF len, of io]
        by (auto simp: safe64_reset_def split: if_splits)
    next
      case False
      then show ?thesis unfolding bind loop using full by simp
    qed
  qed
qed


theorem bind_slot_ends_witness:
  "\<exists>rc slot rt' registered.
     mvcc_bind_slot \<lparr>bi_lock = 0, bi_fatal = False, bi_mapped = True, bi_registered_pid = 7, bi_pid = 7, bi_rpid_set = 0,
         bi_max_readers = 1, bi_tid = 0,
         bi_cleanup = \<lparr>ci_env = 0, ci_pid = 7, ci_alive = \<lambda>_. 0, ci_alive' = \<lambda>_. 0, ci_lock = 0, ci_others = \<lambda>rt. rt,
           ci_malloc = True, ci_now = 0\<rparr>\<rparr>
       \<lparr>rt_slots = [\<lparr>sl_txnid = 5, sl_tid = 0, sl_pid = 3, sl_pages_used = 0, sl_pages_retired = 0\<rparr>], rt_length = 1,
         rt_refresh = 1, rt_cached_oldest = 4, rt_cached_oldest_retired = 0, rt_check_timestamp = 0, rt_max_reader_lag = 0,
         rt_max_retained_pages = 0, rt_kicks = 0\<rparr> = Some ((rc, slot), rt', registered)"
  using bind_slot_ends[of "\<lparr>bi_lock = 0, bi_fatal = False, bi_mapped = True, bi_registered_pid = 7, bi_pid = 7, bi_rpid_set = 0,
         bi_max_readers = 1, bi_tid = 0,
         bi_cleanup = \<lparr>ci_env = 0, ci_pid = 7, ci_alive = \<lambda>_. 0, ci_alive' = \<lambda>_. 0, ci_lock = 0, ci_others = \<lambda>rt. rt,
           ci_malloc = True, ci_now = 0\<rparr>\<rparr>"
       "\<lparr>rt_slots = [\<lparr>sl_txnid = 5, sl_tid = 0, sl_pid = 3, sl_pages_used = 0, sl_pages_retired = 0\<rparr>], rt_length = 1,
         rt_refresh = 1, rt_cached_oldest = 4, rt_cached_oldest_retired = 0, rt_check_timestamp = 0, rt_max_reader_lag = 0,
         rt_max_retained_pages = 0, rt_kicks = 0\<rparr>"]
  by (simp add: MDBX_RESULT_TRUE_def) blast

subsection \<open>The oldest transaction in use\<close>

text \<open>The transactions that count: of the slots in use, those that are not below the previous oldest one.\<close>

definition active_txnids :: "txnid \<Rightarrow> reader_slot list \<Rightarrow> txnid list" where
  "active_txnids prev ss = map sl_txnid (filter (\<lambda>s. sl_pid s \<noteq> 0 \<and> prev \<le> sl_txnid s) ss)"

lemma map_rt_slot: "n \<le> length (rt_slots rt) \<Longrightarrow> map (rt_slot rt) [0..<n] = take n (rt_slots rt)"
  by (simp add: list_eq_iff_nth_eq rt_slot_def)

lemma Min_insert_prev: "finite A \<Longrightarrow> prev \<in> A \<Longrightarrow> (\<And>x. x \<in> A \<Longrightarrow> prev \<le> x) \<Longrightarrow> Min A = (prev :: nat)"
  by (rule Min_eqI)

lemma Min_insert_above: "finite A \<Longrightarrow> x \<le> y \<Longrightarrow> Min (insert y (insert x A)) = Min (insert x A :: nat set)"
  by (subst Min_insert) (auto intro!: min_absorb2 le_trans[OF Min_le])

lemma active_ge: "x \<in> set (active_txnids prev ss) \<Longrightarrow> prev \<le> x" by (auto simp: active_txnids_def)

lemma scan_oldest_rw_min:
  assumes "scan_oldest_rw prev is rt (oldest, retired) = (rt', oldest', retired')" "prev \<le> oldest" "distinct is"
    "list_all (\<lambda>i. i < length (rt_slots rt)) is"
  shows "oldest' = Min (insert oldest (set (active_txnids prev (map (rt_slot rt) is)))) \<and>
    rt_cached_oldest rt' = rt_cached_oldest rt \<and> rt_refresh rt' = rt_refresh rt"
  using assms
proof (induction prev "is" rt "(oldest, retired)" arbitrary: oldest retired rule: scan_oldest_rw.induct)
  case (2 prev i "is" rt oldest retired)
  let ?s = "rt_slot rt i" and ?A = "set (active_txnids prev (map (rt_slot rt) is))"
  have cons: "set (active_txnids prev (map (rt_slot rt) (i # is))) =
      (if sl_pid ?s \<noteq> 0 \<and> prev \<le> sl_txnid ?s then insert (sl_txnid ?s) ?A else ?A)"
    by (simp add: active_txnids_def)
  consider "sl_pid ?s = 0" | "sl_pid ?s \<noteq> 0" "sl_txnid ?s < prev"
    | "sl_pid ?s \<noteq> 0" "prev \<le> sl_txnid ?s" "sl_txnid ?s < oldest" "sl_txnid ?s = prev"
    | "sl_pid ?s \<noteq> 0" "prev \<le> sl_txnid ?s" "sl_txnid ?s < oldest" "sl_txnid ?s \<noteq> prev"
    | "sl_pid ?s \<noteq> 0" "prev \<le> sl_txnid ?s" "oldest \<le> sl_txnid ?s" by linarith
  then show ?case
  proof cases
    case 1
    then show ?thesis using 2(1)[OF refl 1] 2(5-8) cons by (simp add: Let_def)
  next
    case 2
    let ?rt = "if rt_refresh rt = NOTHING_CHANGED_SIGNATURE
      then set_slot i (\<lambda>s. s\<lparr>sl_txnid := snd (safe64_reset_compare (sl_txnid s) (sl_txnid s))\<rparr>) rt else rt"
    have other: "map (rt_slot ?rt) is = map (rt_slot rt) is"
      using "2.prems"(3,4) by (auto simp: rt_slot_set_slot)
    have "scan_oldest_rw prev is ?rt (oldest, retired) = (rt', oldest', retired')" using "2.prems"(1) 2 by (simp add: Let_def)
    then show ?thesis using "2.hyps"(2)[OF refl 2] "2.prems"(2-4) cons 2 other by (simp add: Let_def)
  next
    case 3
    then have "oldest' = prev" "rt' = rt" using "2.prems"(1) by (simp_all add: Let_def)
    moreover have "Min (insert oldest (insert prev ?A)) = prev"
      using "2.prems"(2) by (intro Min_insert_prev) (auto dest: active_ge)
    ultimately show ?thesis using cons 3 by simp
  next
    case 4
    have "scan_oldest_rw prev is rt (sl_txnid ?s, sl_pages_retired ?s) = (rt', oldest', retired')"
      using "2.prems"(1) 4 by (simp add: Let_def)
    then have "oldest' = Min (insert (sl_txnid ?s) ?A) \<and> rt_cached_oldest rt' = rt_cached_oldest rt \<and> rt_refresh rt' = rt_refresh rt"
      using "2.hyps"(3)[OF refl] 4 "2.prems"(3,4) by simp
    moreover have "Min (insert oldest (insert (sl_txnid ?s) ?A)) = Min (insert (sl_txnid ?s) ?A)"
      using 4 by (intro Min_insert_above) simp_all
    ultimately show ?thesis using cons 4 by simp
  next
    case 5
    have "scan_oldest_rw prev is rt (oldest, retired) = (rt', oldest', retired')"
      using "2.prems"(1) 5 by (simp add: Let_def)
    then have "oldest' = Min (insert oldest ?A) \<and> rt_cached_oldest rt' = rt_cached_oldest rt \<and> rt_refresh rt' = rt_refresh rt"
      using "2.hyps"(4)[OF refl] 5 "2.prems"(2-4) by simp
    moreover have "Min (insert oldest (insert (sl_txnid ?s) ?A)) = Min (insert oldest ?A)"
      using 5 by (subst insert_commute) (intro Min_insert_above, simp_all)
    ultimately show ?thesis using cons 5 by simp
  qed
qed (simp add: active_txnids_def)


text \<open>
  C10. The writer's scan, which leaves off at the first reader at the previous oldest transaction, finds exactly the
  least of the steady transaction and the transactions in the table that are not below the previous oldest; it is
  remembered for the next scan, is never less than before, and every reader that counts is at it or after it.
\<close>

theorem oldest_rw_exact:
  assumes "rt_refresh rt \<noteq> NOTHING_CHANGED_SIGNATURE" and "rt_cached_oldest rt \<le> wm_steady wm"
    and "rt_length rt \<le> length (rt_slots rt)"
  shows "fst (mvcc_snapshot_oldest_rw wm rt) =
      Min (set (wm_steady wm # active_txnids (rt_cached_oldest rt) (take (rt_length rt) (rt_slots rt)))) \<and>
    rt_cached_oldest (snd (mvcc_snapshot_oldest_rw wm rt)) = fst (mvcc_snapshot_oldest_rw wm rt) \<and>
    rt_cached_oldest rt \<le> fst (mvcc_snapshot_oldest_rw wm rt) \<and>
    rt_refresh (snd (mvcc_snapshot_oldest_rw wm rt)) = NOTHING_CHANGED_SIGNATURE \<and>
    list_all (\<lambda>t. fst (mvcc_snapshot_oldest_rw wm rt) \<le> t) (active_txnids (rt_cached_oldest rt) (take (rt_length rt) (rt_slots rt)))"
proof -
  let ?rt = "rt\<lparr>rt_refresh := NOTHING_CHANGED_SIGNATURE\<rparr>" and ?prev = "rt_cached_oldest rt"
  let ?A = "set (wm_steady wm # active_txnids ?prev (take (rt_length rt) (rt_slots rt)))"
  obtain rt' oldest retired where
    scan: "scan_oldest_rw ?prev [0..<rt_length rt] ?rt (wm_steady wm, wm_steady_retired wm) = (rt', oldest, retired)"
    by (metis prod_cases3)
  have "map (rt_slot ?rt) [0..<rt_length rt] = take (rt_length rt) (rt_slots rt)"
    using map_rt_slot[of "rt_length rt" ?rt] assms(3) by simp
  then have spec: "oldest = Min ?A" "rt_cached_oldest rt' = ?prev" "rt_refresh rt' = NOTHING_CHANGED_SIGNATURE"
    using scan_oldest_rw_min[OF scan assms(2)] assms(3) by (simp_all add: list_all_iff)
  have eq: "mvcc_snapshot_oldest_rw wm rt = (oldest, if oldest \<noteq> ?prev then update_oldest wm oldest retired rt' else rt')"
    using assms(1) scan by (simp add: mvcc_snapshot_oldest_rw_def Let_def)
  have "?prev \<le> Min ?A" by (rule Min.boundedI) (use assms(2) active_ge in auto)
  moreover have "Min ?A \<le> t" if "t \<in> ?A" for t using that by (intro Min_le) simp_all
  ultimately show ?thesis using spec unfolding eq by (auto simp: update_oldest_def Let_def list_all_iff)
qed

theorem oldest_rw_exact_witness:
  "fst (mvcc_snapshot_oldest_rw \<lparr>wm_steady = 9, wm_steady_retired = 0, wm_recent = 9, wm_recent_retired = 0\<rparr>
     \<lparr>rt_slots = [\<lparr>sl_txnid = 7, sl_tid = 0, sl_pid = 3, sl_pages_used = 0, sl_pages_retired = 0\<rparr>,
        \<lparr>sl_txnid = 5, sl_tid = 0, sl_pid = 0, sl_pages_used = 0, sl_pages_retired = 0\<rparr>], rt_length = 2,
        rt_refresh = 1, rt_cached_oldest = 4, rt_cached_oldest_retired = 0, rt_check_timestamp = 0, rt_max_reader_lag = 0,
        rt_max_retained_pages = 0, rt_kicks = 0\<rparr>) = 7"
  using oldest_rw_exact[of "\<lparr>rt_slots = [\<lparr>sl_txnid = 7, sl_tid = 0, sl_pid = 3, sl_pages_used = 0, sl_pages_retired = 0\<rparr>,
        \<lparr>sl_txnid = 5, sl_tid = 0, sl_pid = 0, sl_pages_used = 0, sl_pages_retired = 0\<rparr>], rt_length = 2,
        rt_refresh = 1, rt_cached_oldest = 4, rt_cached_oldest_retired = 0, rt_check_timestamp = 0, rt_max_reader_lag = 0,
        rt_max_retained_pages = 0, rt_kicks = 0\<rparr>" "\<lparr>wm_steady = 9, wm_steady_retired = 0, wm_recent = 9, wm_recent_retired = 0\<rparr>"]
  by (simp add: NOTHING_CHANGED_SIGNATURE_def active_txnids_def)

end
