(* ===== verification/Mvcc_Race.thy ===== *)
theory Mvcc_Race
  imports Mvcc_Ops
begin

text \<open>
  Readers against the writer's scan of their slots. Nobody takes a lock: a reader publishes the transaction it is going
  to read in its slot, raises the flag, looks whether this still is the recent transaction and starts over if not; the
  writer clears the flag, scans the slots, and stores the least transaction. Every access to shared memory is a step
  here, so that a reader may publish before, behind or ahead of the scan. The meta pages are abstract: the recent and the
  steady transaction, which the theories on meta pages show to be read and published as one value each.
  The steps are \<^verbatim>\<open>mvcc_bind_slot\<close> (under its lock, one step), \<^verbatim>\<open>ro_seize\<close>, \<^verbatim>\<open>ro_slot_clean\<close>, the death of a process
  and \<^verbatim>\<open>mvcc_cleanup_dead\<close> on one side, \<^verbatim>\<open>mvcc_snapshot_oldest_rw\<close>, commits and aborts on the other. Parked readers
  and readers that a user's callback declares dead are not among the readers here: they give up their snapshot.
\<close>

subsection \<open>States and steps\<close>

datatype reader =
  Free
| Gone
| Idle
| Tapped txnid
| Reset txnid
| Published txnid
| Flagged txnid
| Checked txnid
| Fetched txnid
| Aged txnid
| Running txnid

text \<open>
  The writer: outside of a transaction, inside one (with the steady transaction of its metas), and in
  \<^verbatim>\<open>mvcc_snapshot_oldest_rw\<close>: testing the flag, reading the length, at a slot, reading the transaction of a slot,
  about to reset a slot it has seen below the previous oldest, and about to store the result.
\<close>

datatype writer =
  Outside
| Inside txnid
| Test txnid txnid txnid
| Clear txnid txnid
| Len txnid txnid
| Scan txnid txnid nat nat txnid
| Look txnid txnid nat nat txnid
| Kick txnid txnid nat nat txnid txnid
| Store txnid txnid txnid

record mvcc =
  mv_recent :: txnid
  mv_steady :: txnid
  mv_cached :: txnid
  mv_changed :: bool
  mv_length :: nat
  mv_slot :: "nat \<Rightarrow> txnid"
  mv_reader :: "nat \<Rightarrow> reader"
  mv_writer :: writer

definition mvcc_init :: "txnid \<Rightarrow> mvcc" where
  "mvcc_init t = \<lparr>mv_recent = t, mv_steady = t, mv_cached = t, mv_changed = True, mv_length = 0,
     mv_slot = (\<lambda>_. safe64_reset), mv_reader = (\<lambda>_. Free), mv_writer = Outside\<rparr>"

definition to_state :: "mvcc \<Rightarrow> nat \<Rightarrow> reader \<Rightarrow> mvcc" where
  "to_state s i r = s\<lparr>mv_reader := (mv_reader s)(i := r)\<rparr>"

definition store_slot :: "mvcc \<Rightarrow> nat \<Rightarrow> txnid \<Rightarrow> mvcc" where
  "store_slot s i t = s\<lparr>mv_slot := (mv_slot s)(i := t)\<rparr>"

text \<open>The reader in slot \<open>i\<close>: \<^verbatim>\<open>mvcc_bind_slot\<close>, \<^verbatim>\<open>ro_seize\<close> and \<^verbatim>\<open>ro_slot_clean\<close>.\<close>

inductive reader_step :: "nat \<Rightarrow> mvcc \<Rightarrow> mvcc \<Rightarrow> bool" for i where
  bind: "mv_reader s i = Free \<Longrightarrow> i \<le> mv_length s \<Longrightarrow>
    reader_step i s ((store_slot (to_state s i Idle) i safe64_reset)\<lparr>mv_length := max (mv_length s) (i + 1)\<rparr>)"
| tap: "mv_reader s i = Idle \<Longrightarrow> reader_step i s (to_state s i (Tapped (mv_recent s)))"
| reset: "mv_reader s i = Tapped t \<Longrightarrow> reader_step i s (store_slot (to_state s i (Reset t)) i safe64_reset)"
| publish: "mv_reader s i = Reset t \<Longrightarrow> reader_step i s (store_slot (to_state s i (Published t)) i t)"
| flag: "mv_reader s i = Published t \<Longrightarrow> reader_step i s ((to_state s i (Flagged t))\<lparr>mv_changed := True\<rparr>)"
| recheck: "mv_reader s i = Flagged t \<Longrightarrow> mv_recent s = t \<Longrightarrow> reader_step i s (to_state s i (Checked t))"
| retry: "mv_reader s i = Flagged t \<Longrightarrow> reader_step i s (to_state s i (Tapped (mv_recent s)))"
| fetch: "mv_reader s i = Checked t \<Longrightarrow> reader_step i s (to_state s i (Fetched t))"
| incoherent: "mv_reader s i = Checked t \<Longrightarrow> reader_step i s (to_state s i (Tapped t))"
| age: "mv_reader s i = Fetched t \<Longrightarrow>
    reader_step i s (to_state s i (if t < mv_cached s then Tapped t else Aged t))"
| run: "mv_reader s i = Aged t \<Longrightarrow>
    reader_step i s (to_state s i (if t = mv_slot s i then Running t else Tapped t))"
| give_up: "mv_reader s i = Tapped t \<Longrightarrow>
    reader_step i s ((store_slot (to_state s i Idle) i safe64_reset)\<lparr>mv_changed := True\<rparr>)"
| finish: "mv_reader s i = Running t \<Longrightarrow>
    reader_step i s ((store_slot (to_state s i Idle) i safe64_reset)\<lparr>mv_changed := True\<rparr>)"
| release: "mv_reader s i = Idle \<Longrightarrow> reader_step i s (to_state s i Free)"
| die: "mv_reader s i \<noteq> Free \<Longrightarrow> reader_step i s (to_state s i Gone)"
| cleanup: "mv_reader s i = Gone \<Longrightarrow> reader_step i s ((to_state s i Free)\<lparr>mv_changed := True\<rparr>)"

inductive writer_step :: "mvcc \<Rightarrow> mvcc \<Rightarrow> bool" where
  begin_txn: "mv_writer s = Outside \<Longrightarrow> writer_step s (s\<lparr>mv_writer := Inside (mv_steady s)\<rparr>)"
| oldest: "mv_writer s = Inside st \<Longrightarrow> writer_step s (s\<lparr>mv_writer := Test st (mv_cached s) (mv_cached s)\<rparr>)"
| test: "mv_writer s = Test st prev t \<Longrightarrow>
    writer_step s (s\<lparr>mv_writer := (if mv_changed s then Clear st prev else Store st prev t)\<rparr>)"
| clear_flag: "mv_writer s = Clear st prev \<Longrightarrow> writer_step s (s\<lparr>mv_changed := False, mv_writer := Len st prev\<rparr>)"
| read_length: "mv_writer s = Len st prev \<Longrightarrow> writer_step s (s\<lparr>mv_writer := Scan st prev 0 (mv_length s) st\<rparr>)"
| scan_end: "mv_writer s = Scan st prev k n t \<Longrightarrow> n \<le> k \<Longrightarrow> writer_step s (s\<lparr>mv_writer := Test st prev t\<rparr>)"
| scan_pid: "mv_writer s = Scan st prev k n t \<Longrightarrow> k < n \<Longrightarrow>
    writer_step s (s\<lparr>mv_writer := (if mv_reader s k = Free then Scan st prev (k + 1) n t else Look st prev k n t)\<rparr>)"
| look: "mv_writer s = Look st prev k n t \<Longrightarrow> u = mv_slot s k \<Longrightarrow>
    writer_step s (s\<lparr>mv_writer :=
      (if u < prev then (if mv_changed s then Scan st prev (k + 1) n t else Kick st prev k n t u)
       else if u < t then (if u = prev then Test st prev u else Scan st prev (k + 1) n u)
       else Scan st prev (k + 1) n t)\<rparr>)"
| kick: "mv_writer s = Kick st prev k n t u \<Longrightarrow>
    writer_step s ((store_slot s k (snd (safe64_reset_compare (mv_slot s k) u)))\<lparr>mv_writer := Scan st prev (k + 1) n t\<rparr>)"
| store_oldest: "mv_writer s = Store st prev t \<Longrightarrow>
    writer_step s (s\<lparr>mv_cached := (if t \<noteq> prev then t else mv_cached s), mv_writer := Inside st\<rparr>)"
| refresh_metas: "mv_writer s = Inside st \<Longrightarrow> writer_step s (s\<lparr>mv_writer := Inside (mv_steady s)\<rparr>)"
| commit: "mv_writer s = Inside st \<Longrightarrow> mv_recent s \<le> t \<Longrightarrow> mv_steady s \<le> st' \<Longrightarrow> st' \<le> t \<Longrightarrow>
    writer_step s (s\<lparr>mv_recent := t, mv_steady := st', mv_writer := Outside\<rparr>)"

inductive mvcc_reachable :: "txnid \<Rightarrow> mvcc \<Rightarrow> bool" for t where
  start: "mvcc_reachable t (mvcc_init t)"
| reader: "mvcc_reachable t s \<Longrightarrow> reader_step i s s' \<Longrightarrow> mvcc_reachable t s'"
| writer: "mvcc_reachable t s \<Longrightarrow> writer_step s s' \<Longrightarrow> mvcc_reachable t s'"

subsection \<open>The writer's scan\<close>

fun scan_ok :: "mvcc \<Rightarrow> writer \<Rightarrow> bool" where
  "scan_ok s Outside = True"
| "scan_ok s (Inside st) \<longleftrightarrow> mv_cached s \<le> st \<and> st \<le> mv_steady s"
| "scan_ok s (Test st prev t) \<longleftrightarrow> prev = mv_cached s \<and> prev \<le> t \<and> t \<le> st \<and> st \<le> mv_steady s"
| "scan_ok s (Clear st prev) \<longleftrightarrow> prev = mv_cached s \<and> prev \<le> st \<and> st \<le> mv_steady s"
| "scan_ok s (Len st prev) \<longleftrightarrow> prev = mv_cached s \<and> prev \<le> st \<and> st \<le> mv_steady s"
| "scan_ok s (Scan st prev k n t) \<longleftrightarrow> prev = mv_cached s \<and> prev \<le> t \<and> t \<le> st \<and> st \<le> mv_steady s \<and> n \<le> mv_length s"
| "scan_ok s (Look st prev k n t) \<longleftrightarrow> prev = mv_cached s \<and> prev \<le> t \<and> t \<le> st \<and> st \<le> mv_steady s \<and> n \<le> mv_length s"
| "scan_ok s (Kick st prev k n t u) \<longleftrightarrow>
     prev = mv_cached s \<and> prev \<le> t \<and> t \<le> st \<and> st \<le> mv_steady s \<and> n \<le> mv_length s \<and> u < prev"
| "scan_ok s (Store st prev t) \<longleftrightarrow> prev = mv_cached s \<and> prev \<le> t \<and> t \<le> st \<and> st \<le> mv_steady s"

definition writer_inv :: "mvcc \<Rightarrow> bool" where
  "writer_inv s \<longleftrightarrow> mv_cached s \<le> mv_steady s \<and> mv_steady s \<le> mv_recent s \<and> scan_ok s (mv_writer s)"

text \<open>The result of the scan will not pass the transaction \<open>t\<close> of the reader in slot \<open>i\<close>.\<close>

fun covered :: "writer \<Rightarrow> nat \<Rightarrow> txnid \<Rightarrow> bool" where
  "covered (Test st prev o') i t \<longleftrightarrow> o' \<le> t"
| "covered (Scan st prev k n o') i t \<longleftrightarrow> (i < k \<or> n \<le> i \<longrightarrow> o' \<le> t)"
| "covered (Look st prev k n o') i t \<longleftrightarrow> (i < k \<or> n \<le> i \<longrightarrow> o' \<le> t)"
| "covered (Kick st prev k n o' u) i t \<longleftrightarrow> (i \<le> k \<or> n \<le> i \<longrightarrow> o' \<le> t)"
| "covered (Store st prev o') i t \<longleftrightarrow> o' \<le> t"
| "covered _ i t = True"

definition protected :: "mvcc \<Rightarrow> nat \<Rightarrow> txnid \<Rightarrow> bool" where
  "protected s i t \<longleftrightarrow> i < mv_length s \<and> mv_slot s i = t \<and> mv_cached s \<le> t \<and> t \<le> mv_recent s \<and> covered (mv_writer s) i t"

fun reader_ok :: "mvcc \<Rightarrow> nat \<Rightarrow> reader \<Rightarrow> bool" where
  "reader_ok s i Free = True"
| "reader_ok s i Gone \<longleftrightarrow> i < mv_length s"
| "reader_ok s i Idle \<longleftrightarrow> i < mv_length s"
| "reader_ok s i (Tapped t) \<longleftrightarrow> i < mv_length s \<and> t \<le> mv_recent s"
| "reader_ok s i (Reset t) \<longleftrightarrow> i < mv_length s \<and> t \<le> mv_recent s"
| "reader_ok s i (Published t) \<longleftrightarrow> i < mv_length s \<and> t \<le> mv_recent s \<and> (mv_slot s i = t \<or> t < mv_recent s)"
| "reader_ok s i (Flagged t) \<longleftrightarrow> i < mv_length s \<and> t \<le> mv_recent s \<and> (mv_slot s i = t \<or> t < mv_recent s)"
| "reader_ok s i (Checked t) = protected s i t"
| "reader_ok s i (Fetched t) = protected s i t"
| "reader_ok s i (Aged t) = protected s i t"
| "reader_ok s i (Running t) = protected s i t"

definition mvcc_inv :: "mvcc \<Rightarrow> bool" where
  "mvcc_inv s \<longleftrightarrow> writer_inv s \<and> (\<forall>i. reader_ok s i (mv_reader s i))"

lemma reader_fields [simp]:
  "mv_recent (to_state s i r) = mv_recent s" "mv_steady (to_state s i r) = mv_steady s" "mv_cached (to_state s i r) = mv_cached s"
  "mv_length (to_state s i r) = mv_length s" "mv_slot (to_state s i r) = mv_slot s" "mv_writer (to_state s i r) = mv_writer s"
  "mv_changed (to_state s i r) = mv_changed s" "mv_reader (to_state s i r) = (mv_reader s)(i := r)"
  "mv_recent (store_slot s i t) = mv_recent s" "mv_steady (store_slot s i t) = mv_steady s" "mv_cached (store_slot s i t) = mv_cached s"
  "mv_length (store_slot s i t) = mv_length s" "mv_slot (store_slot s i t) = (mv_slot s)(i := t)" "mv_writer (store_slot s i t) = mv_writer s"
  "mv_changed (store_slot s i t) = mv_changed s" "mv_reader (store_slot s i t) = mv_reader s"
  by (simp_all add: to_state_def store_slot_def)

text \<open>The invariants look at a few fields only.\<close>

lemma reader_ok_cong:
  assumes "mv_recent s' = mv_recent s" "mv_cached s' = mv_cached s" "mv_writer s' = mv_writer s" "mv_slot s' i = mv_slot s i"
    "mv_length s \<le> mv_length s'" "reader_ok s i r"
  shows "reader_ok s' i r"
  using assms by (cases r) (auto simp: protected_def)

lemma scan_ok_cong:
  assumes "mv_cached s' = mv_cached s" "mv_steady s' = mv_steady s" "mv_length s \<le> mv_length s'" "scan_ok s w"
  shows "scan_ok s' w"
  using assms by (cases w) auto

lemma covered_recent: "writer_inv s \<Longrightarrow> mv_recent s \<le> t \<Longrightarrow> covered (mv_writer s) i t"
  by (cases "mv_writer s") (auto simp: writer_inv_def)

text \<open>A step of a reader changes its own state and slot; the flag matters to no invariant.\<close>

lemma reader_step_frame:
  assumes "mvcc_inv s" "mv_recent s' = mv_recent s" "mv_steady s' = mv_steady s" "mv_cached s' = mv_cached s"
    "mv_writer s' = mv_writer s" "mv_length s \<le> mv_length s'" "\<And>j. j \<noteq> i \<Longrightarrow> mv_slot s' j = mv_slot s j"
    "\<And>j. j \<noteq> i \<Longrightarrow> mv_reader s' j = mv_reader s j" "reader_ok s i (mv_reader s i) \<Longrightarrow> reader_ok s' i (mv_reader s' i)"
  shows "mvcc_inv s'"
proof -
  have "reader_ok s' j (mv_reader s' j)" for j
  proof (cases "j = i")
    case False
    then have "reader_ok s' j (mv_reader s j)" using assms by (intro reader_ok_cong[of s' s j]) (simp_all add: mvcc_inv_def)
    then show ?thesis using assms(8)[OF False] by simp
  qed (use assms in \<open>simp add: mvcc_inv_def\<close>)
  moreover have "scan_ok s' (mv_writer s')" using assms scan_ok_cong[of s' s "mv_writer s"] by (simp add: mvcc_inv_def writer_inv_def)
  ultimately show ?thesis using assms by (simp add: mvcc_inv_def writer_inv_def)
qed

lemma reader_step_inv: "reader_step i s s' \<Longrightarrow> mvcc_inv s \<Longrightarrow> mvcc_inv s'"
proof (induction rule: reader_step.induct)
  case (recheck s t)
  then have "reader_ok s i (Flagged t)" "writer_inv s" by (metis mvcc_inv_def)+
  then have "protected s i t"
    using recheck(2) covered_recent[of s t i] by (auto simp: protected_def writer_inv_def)
  then show ?case by (intro reader_step_frame[OF recheck(3), where i = i]) (auto simp: protected_def)
next
  case (die s)
  then have "reader_ok s i (mv_reader s i)" by (simp add: mvcc_inv_def)
  then have "i < mv_length s" using die(1) by (cases "mv_reader s i") (auto simp: protected_def)
  then show ?case by (intro reader_step_frame[OF die(2), where i = i]) auto
qed (erule reader_step_frame[where i = i]; auto simp: protected_def)+


text \<open>A step of the writer leaves the readers alone, but for the slot it resets.\<close>

lemma writer_step_frame:
  assumes "mvcc_inv s" "mv_reader s' = mv_reader s" "mv_length s' = mv_length s" "mv_recent s \<le> mv_recent s'"
    "writer_inv s \<Longrightarrow> writer_inv s'"
    "\<And>i. mv_slot s' i = mv_slot s i \<or> mv_slot s i < mv_recent s"
    "\<And>i t. writer_inv s \<Longrightarrow> mv_reader s i \<noteq> Free \<Longrightarrow> protected s i t \<Longrightarrow> protected s' i t"
  shows "mvcc_inv s'"
proof -
  have w: "writer_inv s" using assms(1) by (simp add: mvcc_inv_def)
  have "reader_ok s' i (mv_reader s i)" for i
  proof -
    have "reader_ok s i (mv_reader s i)" using assms(1) by (simp add: mvcc_inv_def)
    then show ?thesis using assms(3,4) assms(6)[of i] assms(7)[OF w, of i] by (cases "mv_reader s i") auto
  qed
  then show ?thesis using assms(2,5) w by (simp add: mvcc_inv_def)
qed

lemma writer_step_inv: "writer_step s s' \<Longrightarrow> mvcc_inv s \<Longrightarrow> mvcc_inv s'"
proof (induction rule: writer_step.induct)
  case (scan_pid s st prev k n t)
  show ?case
    by (rule writer_step_frame[OF scan_pid(3)])
      (use scan_pid(1,2) in \<open>auto simp: writer_inv_def protected_def less_Suc_eq split: if_splits\<close>)
next
  case (look s st prev k n t u)
  let ?w = "if u < prev then (if mv_changed s then Scan st prev (k + 1) n t else Kick st prev k n t u)
       else if u < t then (if u = prev then Test st prev u else Scan st prev (k + 1) n u) else Scan st prev (k + 1) n t"
  show ?case
  proof (rule writer_step_frame[OF look(3)])
    fix i r assume w: "writer_inv s" and p: "protected s i r"
    have "prev \<le> r" "mv_slot s i = r" "i < k \<or> n \<le> i \<longrightarrow> t \<le> r"
      using w p look(1) by (simp_all add: writer_inv_def protected_def)
    then have "covered ?w i r" using look(2) by (cases "i = k") auto
    then show "protected (s\<lparr>mv_writer := ?w\<rparr>) i r" using p unfolding protected_def by simp
  qed (use look(1,2) in \<open>auto simp: writer_inv_def\<close>)
next
  case (kick s st prev k n t u)
  have "writer_inv s" using kick(2) by (simp add: mvcc_inv_def)
  then have "u < mv_recent s" using kick(1) by (simp add: writer_inv_def)
  then show ?case
    by (intro writer_step_frame[OF kick(2)])
      (use kick(1) in \<open>auto simp: writer_inv_def protected_def safe64_reset_compare_def less_Suc_eq_le split: if_splits\<close>)
qed (erule writer_step_frame; auto simp: writer_inv_def protected_def)+

lemma mvcc_reachable_inv: "mvcc_reachable t s \<Longrightarrow> mvcc_inv s"
proof (induction rule: mvcc_reachable.induct)
  case start
  then show ?case by (simp add: mvcc_inv_def writer_inv_def mvcc_init_def)
next
  case (reader s i s')
  then show ?case using reader_step_inv by blast
next
  case (writer s s')
  then show ?case using writer_step_inv by blast
qed


subsection \<open>Readers get through\<close>

text \<open>A reader that is not disturbed starts with the recent transaction, whatever the writer is doing.\<close>

lemma reader_starts:
  assumes "mvcc_reachable t0 s" "mv_reader s i = Free" "i \<le> mv_length s"
  shows "\<exists>s'. mvcc_reachable t0 s' \<and> mv_reader s' i = Running (mv_recent s) \<and> mv_writer s' = mv_writer s \<and> mv_cached s' = mv_cached s"
proof -
  let ?t = "mv_recent s"
  have le: "mv_cached s \<le> ?t" using mvcc_reachable_inv[OF assms(1)] by (simp add: mvcc_inv_def writer_inv_def)
  define s1 where "s1 = (store_slot (to_state s i Idle) i safe64_reset)\<lparr>mv_length := max (mv_length s) (i + 1)\<rparr>"
  define s2 where "s2 = to_state s1 i (Tapped ?t)"
  define s3 where "s3 = store_slot (to_state s2 i (Reset ?t)) i safe64_reset"
  define s4 where "s4 = store_slot (to_state s3 i (Published ?t)) i ?t"
  define s5 where "s5 = (to_state s4 i (Flagged ?t))\<lparr>mv_changed := True\<rparr>"
  define s6 where "s6 = to_state s5 i (Checked ?t)"
  define s7 where "s7 = to_state s6 i (Fetched ?t)"
  define s8 where "s8 = to_state s7 i (Aged ?t)"
  define s9 where "s9 = to_state s8 i (Running ?t)"
  note defs = s1_def s2_def s3_def s4_def s5_def s6_def s7_def s8_def s9_def
  have "mvcc_reachable t0 s1" unfolding s1_def by (rule mvcc_reachable.reader[OF assms(1) reader_step.bind]) (use assms in simp_all)
  then have "mvcc_reachable t0 s2"
    by (rule mvcc_reachable.reader) (use reader_step.tap[of s1 i] in \<open>simp add: defs\<close>)
  then have "mvcc_reachable t0 s3"
    unfolding s3_def by (rule mvcc_reachable.reader) (rule reader_step.reset, simp add: s2_def)
  then have "mvcc_reachable t0 s4"
    unfolding s4_def by (rule mvcc_reachable.reader) (rule reader_step.publish, simp add: s3_def)
  then have "mvcc_reachable t0 s5"
    unfolding s5_def by (rule mvcc_reachable.reader) (rule reader_step.flag, simp add: s4_def)
  then have "mvcc_reachable t0 s6"
    unfolding s6_def by (rule mvcc_reachable.reader) (rule reader_step.recheck, simp_all add: defs)
  then have "mvcc_reachable t0 s7"
    unfolding s7_def by (rule mvcc_reachable.reader) (rule reader_step.fetch, simp add: s6_def)
  then have "mvcc_reachable t0 s8"
    by (rule mvcc_reachable.reader) (use reader_step.age[of s7 i ?t] le in \<open>simp add: defs\<close>)
  then have "mvcc_reachable t0 s9"
    by (rule mvcc_reachable.reader) (use reader_step.run[of s8 i ?t] in \<open>simp add: defs\<close>)
  moreover have "mv_reader s9 i = Running ?t \<and> mv_writer s9 = mv_writer s \<and> mv_cached s9 = mv_cached s" by (simp add: defs)
  ultimately show ?thesis by blast
qed

text \<open>
  C5. A running reader is safe from the writer. However readers that bind slots, start, end, retry and die are
  interleaved with the scans, commits and aborts of writers, as long as a reader runs, its slot shows its transaction,
  and the oldest transaction that the writer remembers or is about to store does not pass it: pages of its snapshot
  are not reused.
\<close>

theorem running_reader_protected:
  assumes "mvcc_reachable t0 s" and "mv_reader s i = Running t"
  shows "mv_slot s i = t \<and> mv_cached s \<le> t \<and> t \<le> mv_recent s \<and>
    (case mv_writer s of Store st prev oldest \<Rightarrow> oldest \<le> t | _ \<Rightarrow> True)"
proof -
  have "reader_ok s i (Running t)" using mvcc_reachable_inv[OF assms(1)] assms(2) by (metis mvcc_inv_def)
  then show ?thesis by (cases "mv_writer s") (simp_all add: protected_def)
qed

theorem running_reader_protected_witness:
  "\<exists>s. mvcc_reachable 5 s \<and> mv_reader s 0 = Running 5 \<and> mv_slot s 0 = 5 \<and> mv_cached s \<le> 5"
proof -
  obtain s where "mvcc_reachable 5 s" "mv_reader s 0 = Running 5"
    using reader_starts[of 5 "mvcc_init 5" 0, OF mvcc_reachable.start] by (auto simp: mvcc_init_def)
  then show ?thesis using running_reader_protected[of 5 s 0 5] by auto
qed

end
