(* ===== verification/Cmp.thy ===== *)
theory Cmp
  imports Limits
begin

text \<open>
  The comparators of keys and values. A \<^verbatim>\<open>MDBX_val\<close> is the list of its bytes; \<^verbatim>\<open>memcmp\<close> is the function of the C
  library, the difference of the first bytes that differ. The machine is little-endian and allows unaligned access
  (\<^verbatim>\<open>MDBX_UNALIGNED_OK\<close> is 8), so the aligned variants of the integer comparators are the unaligned one.
\<close>

unbundle bit_operations_syntax

subsection \<open>Bytes\<close>

type_synonym bytes = "nat list"

definition is_bytes :: "bytes \<Rightarrow> bool" where "is_bytes xs \<longleftrightarrow> list_all (\<lambda>b. b < 256) xs"

fun memcmp :: "bytes \<Rightarrow> bytes \<Rightarrow> int" where
  "memcmp (a # as) (b # bs) = (if a = b then memcmp as bs else int a - int b)"
| "memcmp _ _ = 0"

text \<open>Reading a little-endian number of \<open>n\<close> bytes at an offset.\<close>

fun le_value :: "bytes \<Rightarrow> nat" where
  "le_value [] = 0"
| "le_value (b # bs) = b + 256 * le_value bs"

definition peek :: "nat \<Rightarrow> bytes \<Rightarrow> nat \<Rightarrow> nat" where
  "peek n p offset = le_value (take n (drop offset p))"

definition CMP2INT :: "nat \<Rightarrow> nat \<Rightarrow> int" where
  "CMP2INT a b = (if a \<noteq> b then (if a < b then -1 else 1) else 0)"

subsection \<open>Integers\<close>

definition cmp_uint32_unchecked :: "bytes \<Rightarrow> bytes \<Rightarrow> int" where
  "cmp_uint32_unchecked a b = CMP2INT (peek 4 a 0) (peek 4 b 0)"

definition cmp_uint64_unchecked :: "bytes \<Rightarrow> bytes \<Rightarrow> int" where
  "cmp_uint64_unchecked a b = CMP2INT (peek 8 a 0) (peek 8 b 0)"

definition cmp_uint :: "bytes \<Rightarrow> bytes \<Rightarrow> int" where
  "cmp_uint a b =
     (if length a = length b
      then if length a = 8 then cmp_uint64_unchecked a b
           else if length a = 4 then cmp_uint32_unchecked a b else 0
      else 0)"

definition cmp_uint32 :: "bytes \<Rightarrow> bytes \<Rightarrow> int" where
  "cmp_uint32 a b = (if length a = length b \<and> length a = 4 then cmp_uint32_unchecked a b else 0)"

definition cmp_uint64 :: "bytes \<Rightarrow> bytes \<Rightarrow> int" where
  "cmp_uint64 a b = (if length a = length b \<and> length a = 8 then cmp_uint64_unchecked a b else 0)"

subsection \<open>Bytes in order and in reverse order\<close>

definition cmp_len :: "nat \<Rightarrow> nat \<Rightarrow> int" where "cmp_len a b = int a - int b"

definition cmp_lexical :: "bytes \<Rightarrow> bytes \<Rightarrow> int" where
  "cmp_lexical a b =
     (let diff_len = cmp_len (length a) (length b);
          shortest = (if length a < length b then length a else length b);
          diff_data = (if shortest \<noteq> 0 then memcmp (take shortest a) (take shortest b) else 0)
      in if diff_data \<noteq> 0 then diff_data else diff_len)"

text \<open>\<^verbatim>\<open>p\<close> points at \<open>offset\<close>.\<close>

definition tail3le :: "bytes \<Rightarrow> nat \<Rightarrow> nat \<Rightarrow> nat" where
  "tail3le p offset l =
     p ! offset OR push_bit 8 (p ! (offset + drop_bit 1 l)) OR push_bit 16 (p ! (offset + l - 1))"

text \<open>The word loop: a result, or the pointers and the length that is left.\<close>

function cmp_reverse_words :: "bytes \<Rightarrow> bytes \<Rightarrow> nat \<Rightarrow> nat \<Rightarrow> nat \<Rightarrow> int + nat \<times> nat \<times> nat" where
  "cmp_reverse_words a b pa pb left =
     (if 8 \<le> left
      then let pa = pa - 8; pb = pb - 8; left = left - 8; xa = peek 8 a pa; xb = peek 8 b pb
           in if xa \<noteq> xb then Inl (if xa < xb then -1 else 1) else cmp_reverse_words a b pa pb left
      else Inr (pa, pb, left))"
  by pat_completeness auto
termination by (relation "measure (\<lambda>(a, b, pa, pb, left). left)") auto

declare cmp_reverse_words.simps [simp del]

definition cmp_reverse_half :: "bytes \<Rightarrow> bytes \<Rightarrow> nat \<Rightarrow> nat \<Rightarrow> nat \<Rightarrow> int + nat \<times> nat \<times> nat" where
  "cmp_reverse_half a b pa pb left =
     (if 4 \<le> left
      then let pa = pa - 4; pb = pb - 4; left = left - 4; xa = peek 4 a pa; xb = peek 4 b pb
           in if xa \<noteq> xb then Inl (if xa < xb then -1 else 1) else Inr (pa, pb, left)
      else Inr (pa, pb, left))"

definition cmp_reverse_tail :: "bytes \<Rightarrow> bytes \<Rightarrow> nat \<Rightarrow> nat \<Rightarrow> nat \<Rightarrow> int + unit" where
  "cmp_reverse_tail a b pa pb left =
     (if left \<noteq> 0
      then let xa = tail3le a (pa - left) left; xb = tail3le b (pb - left) left
           in if xa \<noteq> xb then Inl (if xa < xb then -1 else 1) else Inr ()
      else Inr ())"

definition cmp_reverse :: "bytes \<Rightarrow> bytes \<Rightarrow> int" where
  "cmp_reverse a b =
     (let left = (if length a < length b then length a else length b);
          done = (if left \<noteq> 0
                  then case cmp_reverse_words a b (length a) (length b) left of
                         Inl r \<Rightarrow> Inl r
                       | Inr (pa, pb, left) \<Rightarrow>
                           (case cmp_reverse_half a b pa pb left of
                              Inl r \<Rightarrow> Inl r
                            | Inr (pa, pb, left) \<Rightarrow> cmp_reverse_tail a b pa pb left)
                  else Inr ())
      in case done of Inl r \<Rightarrow> r | Inr _ \<Rightarrow> cmp_len (length a) (length b))"

definition cmp_lenfast :: "bytes \<Rightarrow> bytes \<Rightarrow> int" where
  "cmp_lenfast a b =
     (let diff = cmp_len (length a) (length b)
      in if diff \<noteq> 0 \<or> length a = 0 then diff else memcmp a b)"

subsection \<open>Equality\<close>

definition eq_fast_slowpath :: "bytes \<Rightarrow> bytes \<Rightarrow> nat \<Rightarrow> bool" where
  "eq_fast_slowpath a b l =
     (if 3 < l
      then if l < 9 then (sub32 (peek 4 a 0) (peek 4 b 0) OR sub32 (peek 4 a (l - 4)) (peek 4 b (l - 4))) = 0
           else if l < 17 then (sub64 (peek 8 a 0) (peek 8 b 0) OR sub64 (peek 8 a (l - 8)) (peek 8 b (l - 8))) = 0
           else memcmp (take l a) (take l b) = 0
      else if l \<noteq> 0 then tail3le a 0 l = tail3le b 0 l else True)"

definition eq_fast :: "bytes \<Rightarrow> bytes \<Rightarrow> bool" where
  "eq_fast a b \<longleftrightarrow> length a = length b \<and> eq_fast_slowpath a b (length a)"

definition ncmp_equal_or_greater :: "bytes \<Rightarrow> bytes \<Rightarrow> int" where "ncmp_equal_or_greater a b = (if eq_fast a b then 0 else 1)"
definition ncmp_equal_or_wrong :: "bytes \<Rightarrow> bytes \<Rightarrow> int" where "ncmp_equal_or_wrong a b = (if eq_fast a b then 0 else -1)"

subsection \<open>The choice of a comparator\<close>

text \<open>
  The comparators give the difference of two lengths as an integer; the code has it in an \<^verbatim>\<open>int\<close>, which is the same for
  keys and values up to \<^verbatim>\<open>INT_MAX\<close> bytes, and the limits on both are far below.
\<close>

definition builtin_keycmp :: "nat \<Rightarrow> bytes \<Rightarrow> bytes \<Rightarrow> int" where
  "builtin_keycmp flags =
     (if has_flag flags MDBX_INTEGERKEY then cmp_uint
      else if \<not> has_flag flags MDBX_REVERSEKEY then cmp_lexical else cmp_reverse)"

definition builtin_datacmp :: "nat \<Rightarrow> bytes \<Rightarrow> bytes \<Rightarrow> int" where
  "builtin_datacmp flags =
     (if has_flag flags MDBX_DUPSORT
      then if has_flag flags MDBX_INTEGERDUP then cmp_uint
           else if has_flag flags MDBX_REVERSEDUP then cmp_reverse else cmp_lexical
      else cmp_lenfast)"

end
