(* ===== verification/Page.thy ===== *)
theory Page
  imports Cmp
begin

text \<open>
  Pages of the tree and their nodes. A page is its header and the bytes after it: the \<^verbatim>\<open>entries\<close> grow from the front,
  the nodes they point to from the end, \<^verbatim>\<open>lower\<close> and \<^verbatim>\<open>upper\<close> bound the gap. Offsets are relative to the end of the
  header. In memory the entries lie over the bytes; here they are an array of their own, with as many places as there is
  room, and the bytes below \<^verbatim>\<open>upper\<close> have no meaning. An entry in use is in front of \<^verbatim>\<open>lower\<close>, so storing it touches
  no byte of a node; the one store that can reach a node, opening a gap in a page without room, writes the bytes as well. A node has a header of eight bytes (size of the data or page
  number of the child, flags, size of the key), the key, and the data. A page of values of one size
  (\<^verbatim>\<open>P_DUPFIX\<close>) has the values at the front instead of entries.
\<close>

unbundle bit_operations_syntax

subsection \<open>Bytes\<close>

definition blit :: "nat \<Rightarrow> bytes \<Rightarrow> bytes \<Rightarrow> bytes" where
  "blit offset src d = take offset d @ src @ drop (offset + length src) d"

definition memmove :: "nat \<Rightarrow> nat \<Rightarrow> nat \<Rightarrow> bytes \<Rightarrow> bytes" where
  "memmove dst src n d = blit dst (take n (drop src d)) d"

fun le_bytes :: "nat \<Rightarrow> nat \<Rightarrow> bytes" where
  "le_bytes 0 v = []"
| "le_bytes (Suc n) v = v mod 256 # le_bytes n (v div 256)"

definition poke :: "nat \<Rightarrow> nat \<Rightarrow> nat \<Rightarrow> bytes \<Rightarrow> bytes" where
  "poke n offset v d = blit offset (le_bytes n v) d"

subsection \<open>Pages\<close>

definition P_BRANCH :: nat where "P_BRANCH = 0x01"
definition P_LEAF :: nat where "P_LEAF = 0x02"
definition P_LARGE :: nat where "P_LARGE = 0x04"
definition P_DUPFIX :: nat where "P_DUPFIX = 0x20"
definition P_SUBP :: nat where "P_SUBP = 0x40"

definition N_BIG :: nat where "N_BIG = 0x01"
definition N_TREE :: nat where "N_TREE = 0x02"
definition N_DUP :: nat where "N_DUP = 0x04"
definition MDBX_RESERVE :: nat where "MDBX_RESERVE = 0x10000"
definition MDBX_PAGE_FULL :: rc where "MDBX_PAGE_FULL = -30786"

record page =
  pg_txnid :: txnid
  pg_ksize :: nat
  pg_flags :: nat
  pg_lower :: nat
  pg_upper :: nat
  pg_pgno :: pgno
  pg_entries :: "nat list"
  pg_data :: bytes

definition is_leaf :: "page \<Rightarrow> bool" where "is_leaf mp \<longleftrightarrow> pg_flags mp AND P_LEAF \<noteq> 0"
definition is_dupfix_leaf :: "page \<Rightarrow> bool" where "is_dupfix_leaf mp \<longleftrightarrow> pg_flags mp AND P_DUPFIX \<noteq> 0"
definition is_branch :: "page \<Rightarrow> bool" where "is_branch mp \<longleftrightarrow> pg_flags mp AND P_BRANCH \<noteq> 0"
definition is_largepage :: "page \<Rightarrow> bool" where "is_largepage mp \<longleftrightarrow> pg_flags mp AND P_LARGE \<noteq> 0"
definition is_subpage :: "page \<Rightarrow> bool" where "is_subpage mp \<longleftrightarrow> pg_flags mp AND P_SUBP \<noteq> 0"

definition page_numkeys :: "page \<Rightarrow> nat" where "page_numkeys mp = drop_bit 1 (pg_lower mp)"
definition page_room :: "page \<Rightarrow> nat" where "page_room mp = pg_upper mp - pg_lower mp"
definition page_used :: "env \<Rightarrow> page \<Rightarrow> nat" where "page_used env mp = page_space env - page_room mp"
definition page_fill_percentum_x10 :: "env \<Rightarrow> page \<Rightarrow> nat" where
  "page_fill_percentum_x10 env mp = (let space = page_space env in (page_used env mp * 1000 + space div 2) div space)"

text \<open>The offset of node \<open>i\<close>.\<close>

definition page_node :: "page \<Rightarrow> nat \<Rightarrow> nat" where "page_node mp i = pg_entries mp ! i"

definition page_dupfix_ptr :: "page \<Rightarrow> nat \<Rightarrow> nat" where "page_dupfix_ptr mp i = pg_ksize mp * (i mod 2 ^ 16)"

definition page_dupfix_key :: "page \<Rightarrow> nat \<Rightarrow> bytes" where
  "page_dupfix_key mp i = take (pg_ksize mp) (drop (page_dupfix_ptr mp i) (pg_data mp))"

subsection \<open>Nodes\<close>

text \<open>A node is an offset into the bytes of its page.\<close>

definition node_pgno :: "bytes \<Rightarrow> nat \<Rightarrow> pgno" where "node_pgno d node = peek 4 d node"
definition node_ds :: "bytes \<Rightarrow> nat \<Rightarrow> nat" where "node_ds d node = peek 4 d node"
definition node_flags :: "bytes \<Rightarrow> nat \<Rightarrow> nat" where "node_flags d node = peek 1 d (node + 4)"
definition node_ks :: "bytes \<Rightarrow> nat \<Rightarrow> nat" where "node_ks d node = peek 2 d (node + 6)"

definition node_set_pgno :: "nat \<Rightarrow> pgno \<Rightarrow> bytes \<Rightarrow> bytes" where "node_set_pgno node v = poke 4 node v"
definition node_set_ds :: "nat \<Rightarrow> nat \<Rightarrow> bytes \<Rightarrow> bytes" where "node_set_ds node v = poke 4 node v"
definition node_set_flags :: "nat \<Rightarrow> nat \<Rightarrow> bytes \<Rightarrow> bytes" where "node_set_flags node v = poke 1 (node + 4) v"
definition node_set_extra :: "nat \<Rightarrow> nat \<Rightarrow> bytes \<Rightarrow> bytes" where "node_set_extra node v = poke 1 (node + 5) v"
definition node_set_ks :: "nat \<Rightarrow> nat \<Rightarrow> bytes \<Rightarrow> bytes" where "node_set_ks node v = poke 2 (node + 6) v"

definition node_key :: "nat \<Rightarrow> nat" where "node_key node = node + NODESIZE"
definition node_data :: "bytes \<Rightarrow> nat \<Rightarrow> nat" where "node_data d node = node_key node + node_ks d node"

definition get_key :: "bytes \<Rightarrow> nat \<Rightarrow> bytes" where "get_key d node = take (node_ks d node) (drop (node_key node) d)"

definition node_largedata_pgno :: "bytes \<Rightarrow> nat \<Rightarrow> pgno" where "node_largedata_pgno d node = peek 4 d (node_data d node)"

text \<open>
  The value of a node: the bytes on the page, or of the large page; \<open>large\<close> reads a large page, with its number of
  pages and its bytes.
\<close>

definition node_read_bigdata :: "env \<Rightarrow> (pgno \<Rightarrow> rc \<times> nat \<times> bytes) \<Rightarrow> bytes \<Rightarrow> nat \<Rightarrow> rc + bytes" where
  "node_read_bigdata env large d node =
     (case large (node_largedata_pgno d node) of (err, pages, payload) \<Rightarrow>
        if err \<noteq> MDBX_SUCCESS then Inl err
        else if pages < largechunk_npages env (node_ds d node) then Inl MDBX_CORRUPTED
        else Inr (take (node_ds d node) payload))"

definition node_read :: "env \<Rightarrow> (pgno \<Rightarrow> rc \<times> nat \<times> bytes) \<Rightarrow> bytes \<Rightarrow> nat \<Rightarrow> rc + bytes" where
  "node_read env large d node =
     (if node_flags d node \<noteq> N_BIG then Inr (take (node_ds d node) (drop (node_data d node) d))
      else node_read_bigdata env large d node)"

subsection \<open>Adding a node\<close>

text \<open>
  The result of an insertion: the code, whether the transaction is marked with an error, the page, the large page
  with what was written to it, and the place that was reserved for the caller's data: in the page or on a large page.
\<close>

record added =
  ad_rc :: rc
  ad_txn_error :: bool
  ad_page :: page
  ad_large :: "(pgno \<times> bytes) option"
  ad_reserved :: "(nat + pgno) option"

definition finished :: "rc \<Rightarrow> page \<Rightarrow> added" where
  "finished rc mp = \<lparr>ad_rc = rc, ad_txn_error = False, ad_page = mp, ad_large = None, ad_reserved = None\<rparr>"

definition full :: "page \<Rightarrow> added" where
  "full mp = (finished MDBX_PAGE_FULL mp)\<lparr>ad_txn_error := True\<rparr>"

text \<open>
  Opening a gap in the entries. The first step of the loop stores the last entry behind the others, over the two bytes at
  \<^verbatim>\<open>lower\<close>: these are free where there is room for an entry, and the first ones of the nodes where the gap is empty.
\<close>

definition store_behind :: "nat \<Rightarrow> page \<Rightarrow> page" where
  "store_behind indx mp =
     (let nkeys = page_numkeys mp
      in if indx < nkeys then mp\<lparr>pg_data := poke 2 (2 * nkeys) (page_node mp (nkeys - 1)) (pg_data mp)\<rparr> else mp)"

definition move_entries_up :: "nat \<Rightarrow> page \<Rightarrow> page" where
  "move_entries_up indx mp =
     (store_behind indx mp)\<lparr>pg_entries := copy_bwd (pg_entries mp) (indx + 1) indx (page_numkeys mp - indx)\<rparr>"

definition node_add_dupfix :: "page \<Rightarrow> nat \<Rightarrow> bytes \<Rightarrow> added" where
  "node_add_dupfix mp indx key =
     (let ksize = length key; nkeys = page_numkeys mp;
          lower = int (pg_lower mp) + 2; upper = int (pg_upper mp) - (int ksize - 2)
      in if upper < lower then full mp
         else let mp = mp\<lparr>pg_lower := nat lower, pg_upper := nat upper\<rparr>;
                  ptr = page_dupfix_ptr mp indx;
                  diff = nkeys - indx;
                  d = (if 0 < diff then memmove (ptr + ksize) ptr (diff * ksize) (pg_data mp) else pg_data mp)
              in finished MDBX_SUCCESS (mp\<lparr>pg_data := blit ptr key d\<rparr>))"

text \<open>\<open>None\<close> is the panic of \<^verbatim>\<open>branch_size\<close>; the key of the first node of a branch page is absent.\<close>

definition node_add_branch :: "env \<Rightarrow> page \<Rightarrow> nat \<Rightarrow> bytes option \<Rightarrow> pgno \<Rightarrow> added option" where
  "node_add_branch env mp indx key pgno =
     (case branch_size env (case key of None \<Rightarrow> 0 | Some k \<Rightarrow> length k) of
        None \<Rightarrow> None
      | Some branch_bytes \<Rightarrow> Some
          (let lower = int (pg_lower mp) + 2; upper = int (pg_upper mp) - (int branch_bytes - 2)
           in if upper < lower then full mp
              else let mp = move_entries_up indx mp;
                       mp = mp\<lparr>pg_lower := nat lower, pg_upper := nat upper, pg_entries := (pg_entries mp)[indx := nat upper]\<rparr>;
                       node = page_node mp indx;
                       d = node_set_pgno node pgno (pg_data mp);
                       d = node_set_flags node 0 d;
                       d = node_set_extra node 0 d;
                       d = node_set_ks node 0 d;
                       d = (case key of None \<Rightarrow> d
                            | Some k \<Rightarrow> blit (node_key node) k (node_set_ks node (length k) d))
                   in finished MDBX_SUCCESS (mp\<lparr>pg_data := d\<rparr>)))"

text \<open>
  Writing a node of a leaf. The value is the bytes at \<^verbatim>\<open>iov_base\<close> and the length \<^verbatim>\<open>iov_len\<close>: with \<^verbatim>\<open>N_BIG\<close> the
  length is that of the value on the large page, and the bytes are its page number; with \<^verbatim>\<open>MDBX_RESERVE\<close> the caller
  writes the bytes later. A large page that was just allocated comes with its number.
\<close>

definition write_leaf :: "page \<Rightarrow> nat \<Rightarrow> bytes \<Rightarrow> nat \<Rightarrow> bytes \<Rightarrow> nat \<Rightarrow> pgno option \<Rightarrow> added" where
  "write_leaf mp indx key data_len data flags largepage =
     (let node = page_node mp indx;
          d = node_set_ks node (length key) (pg_data mp);
          d = node_set_flags node (flags mod 256) d;
          d = node_set_extra node 0 d;
          d = node_set_ds node data_len d;
          d = blit (node_key node) key d;
          nodedata = node_data d node
      in case largepage of
           None \<Rightarrow>
             (if flags AND N_BIG \<noteq> 0 then finished MDBX_SUCCESS (mp\<lparr>pg_data := blit nodedata (take 4 data) d\<rparr>)
              else if flags AND MDBX_RESERVE \<noteq> 0
              then (finished MDBX_SUCCESS (mp\<lparr>pg_data := d\<rparr>))\<lparr>ad_reserved := Some (Inl nodedata)\<rparr>
              else finished MDBX_SUCCESS (mp\<lparr>pg_data := blit nodedata (take data_len data) d\<rparr>))
         | Some pgno \<Rightarrow>
             (let mp = mp\<lparr>pg_data := poke 4 nodedata pgno d\<rparr>
              in if flags AND MDBX_RESERVE \<noteq> 0
                 then (finished MDBX_SUCCESS mp)\<lparr>ad_large := Some (pgno, []), ad_reserved := Some (Inr pgno)\<rparr>
                 else (finished MDBX_SUCCESS mp)\<lparr>ad_large := Some (pgno, take data_len data)\<rparr>))"

text \<open>The entries are moved before the room is checked.\<close>

definition insert_leaf :: "page \<Rightarrow> nat \<Rightarrow> nat \<Rightarrow> bytes \<Rightarrow> nat \<Rightarrow> bytes \<Rightarrow> nat \<Rightarrow> pgno option \<Rightarrow> added" where
  "insert_leaf mp indx node_bytes key data_len data flags largepage =
     (let mp = move_entries_up indx mp;
          lower = int (pg_lower mp) + 2; upper = int (pg_upper mp) - (int node_bytes - 2)
      in if upper < lower then full mp
         else write_leaf (mp\<lparr>pg_lower := nat lower, pg_upper := nat upper, pg_entries := (pg_entries mp)[indx := nat upper]\<rparr>)
                indx key data_len data flags largepage)"

text \<open>\<open>new_large\<close> allocates the pages of a large value.\<close>

definition node_add_leaf ::
  "env \<Rightarrow> nat \<Rightarrow> (nat \<Rightarrow> rc \<times> pgno) \<Rightarrow> page \<Rightarrow> nat \<Rightarrow> bytes \<Rightarrow> nat \<Rightarrow> bytes \<Rightarrow> nat \<Rightarrow> added" where
  "node_add_leaf env tree_flags new_large mp indx key data_len data flags =
     (let big_bytes = node_size_len (length key) 0 + sizeof_pgno + sizeof_indx
      in if flags AND N_BIG \<noteq> 0 then insert_leaf mp indx big_bytes key data_len data flags None
         else if env_leaf_nodemax env < node_size_len (length key) data_len
         then if has_flag tree_flags MDBX_DUPSORT then finished MDBX_PROBLEM mp
              else if flags AND (N_DUP OR N_TREE) \<noteq> 0 then finished MDBX_PROBLEM mp
              else case new_large (largechunk_npages env data_len) of
                     (err, pgno) \<Rightarrow>
                       if err \<noteq> MDBX_SUCCESS then finished err mp
                       else insert_leaf mp indx big_bytes key data_len data (flags OR N_BIG) (Some pgno)
         else insert_leaf mp indx (node_size_len (length key) data_len + sizeof_indx) key data_len data flags None)"

subsection \<open>Deleting a node\<close>

text \<open>The loop over the entries: \<open>r\<close> reads, \<open>w\<close> writes, \<open>n\<close> are left.\<close>

fun del_entries :: "nat \<Rightarrow> nat \<Rightarrow> nat \<Rightarrow> nat list \<Rightarrow> nat \<Rightarrow> nat \<Rightarrow> nat \<Rightarrow> nat list" where
  "del_entries hole hole_offset hole_size es r w 0 = es"
| "del_entries hole hole_offset hole_size es r w (Suc n) =
     (if r \<noteq> hole
      then del_entries hole hole_offset hole_size
             (es[w := (if es ! r < hole_offset then es ! r + hole_size else es ! r)]) (r + 1) (w + 1) n
      else del_entries hole hole_offset hole_size es (r + 1) w n)"

definition node_del :: "page \<Rightarrow> nat \<Rightarrow> nat \<Rightarrow> page" where
  "node_del mp hole ksize =
     (let nkeys = page_numkeys mp in
      if is_dupfix_leaf mp
      then let diff = nkeys - 1 - hole; base = page_dupfix_ptr mp hole;
               d = (if diff \<noteq> 0 then memmove base (base + ksize) (diff * ksize) (pg_data mp) else pg_data mp)
           in mp\<lparr>pg_data := d, pg_lower := pg_lower mp - 2, pg_upper := pg_upper mp + (ksize - 2)\<rparr>
      else let node = page_node mp hole; d = pg_data mp;
               hole_size = NODESIZE + node_ks d node;
               hole_size = (if is_leaf mp
                            then hole_size + (if node_flags d node AND N_BIG \<noteq> 0 then sizeof_pgno else node_ds d node)
                            else hole_size);
               hole_size = EVEN_CEIL hole_size;
               hole_offset = pg_entries mp ! hole
           in mp\<lparr>pg_entries := del_entries hole hole_offset hole_size (pg_entries mp) 0 0 nkeys,
                 pg_data := memmove (pg_upper mp + hole_size) (pg_upper mp) (hole_offset - pg_upper mp) d,
                 pg_lower := pg_lower mp - 2, pg_upper := pg_upper mp + hole_size\<rparr>)"

end
