(* ===== verification/Cmp_Ops.thy ===== *)
theory Cmp_Ops
  imports Cmp
begin

text \<open>
  The comparators meet their contract: each has the sign of the order of the bytes, read from the first byte or from
  the last, although the code compares words of eight and four bytes and the last three bytes as one number. The
  contract of a comparator with the tree is the locale \<open>comparator\<close>; every comparator of the code interprets it.
\<close>

subsection \<open>The order of bytes\<close>

text \<open>The specification: the first difference decides, and a proper prefix is less.\<close>

fun byte_order :: "bytes \<Rightarrow> bytes \<Rightarrow> int" where
  "byte_order [] [] = 0"
| "byte_order [] (_ # _) = -1"
| "byte_order (_ # _) [] = 1"
| "byte_order (a # as) (b # bs) = (if a < b then -1 else if b < a then 1 else byte_order as bs)"

text \<open>
  The contract a comparator has with the B+tree: on the values it is used for, it is a linear order. Searching and
  inserting only look at the sign of the result.
\<close>

locale comparator =
  fixes cmp :: "bytes \<Rightarrow> bytes \<Rightarrow> int" and valid :: "bytes \<Rightarrow> bool"
  assumes antisym: "valid a \<Longrightarrow> valid b \<Longrightarrow> sgn (cmp b a) = - sgn (cmp a b)"
    and eq_zero: "valid a \<Longrightarrow> valid b \<Longrightarrow> cmp a b = 0 \<longleftrightarrow> a = b"
    and trans: "valid a \<Longrightarrow> valid b \<Longrightarrow> valid c \<Longrightarrow> cmp a b < 0 \<Longrightarrow> cmp b c < 0 \<Longrightarrow> cmp a c < 0"
begin

lemma less_or_greater: "valid a \<Longrightarrow> valid b \<Longrightarrow> a \<noteq> b \<Longrightarrow> cmp a b < 0 \<or> cmp b a < 0"
  using antisym[of a b] eq_zero[of a b] by (auto simp: sgn_if split: if_splits)

lemma not_both: "valid a \<Longrightarrow> valid b \<Longrightarrow> cmp a b < 0 \<Longrightarrow> \<not> cmp b a < 0"
  using antisym[of a b] by (auto simp: sgn_if split: if_splits)

text \<open>Strictly ascending keys are distinct and determine the position of each of them.\<close>

lemma ascending_distinct:
  assumes "sorted_wrt (\<lambda>a b. cmp a b < 0) ks" "list_all valid ks"
  shows "distinct ks"
  using assms
proof (induction ks)
  case (Cons k ks)
  then have "\<not> cmp k k < 0" using not_both[of k k] by auto
  then show ?case using Cons by auto
qed simp

lemma ascending_unique:
  assumes "sorted_wrt (\<lambda>a b. cmp a b < 0) xs" "sorted_wrt (\<lambda>a b. cmp a b < 0) ys" "list_all valid xs" "list_all valid ys"
    "set xs = set ys"
  shows "xs = ys"
  using assms
proof (induction xs arbitrary: ys)
  case (Cons x xs)
  then obtain y ys' where ys: "ys = y # ys'" by (cases ys) auto
  have "x = y"
  proof (rule ccontr)
    assume "x \<noteq> y"
    then have "x \<in> set ys'" "y \<in> set xs" using Cons.prems(5) by (auto simp: ys)
    then have "cmp x y < 0" "cmp y x < 0" using Cons.prems(1,2) by (simp_all add: ys)
    then show False using not_both[of x y] Cons.prems(3,4) by (simp add: ys)
  qed
  moreover have "x \<notin> set xs" "y \<notin> set ys'"
    using ascending_distinct[OF Cons.prems(1,3)] ascending_distinct[OF Cons.prems(2,4)] by (simp_all add: ys)
  ultimately have "set xs = set ys'" using Cons.prems(5) by (auto simp: ys)
  then show ?case using Cons.IH[of ys'] Cons.prems \<open>x = y\<close> by (simp add: ys)
qed simp

end

lemma byte_order_range: "byte_order a b \<in> {-1, 0, 1}"
  by (induction a b rule: byte_order.induct) auto

lemma byte_order_antisym: "byte_order b a = - byte_order a b"
  by (induction a b rule: byte_order.induct) auto

lemma byte_order_eq: "byte_order a b = 0 \<longleftrightarrow> a = b"
  by (induction a b rule: byte_order.induct) auto

lemma byte_order_trans: "byte_order a b < 0 \<Longrightarrow> byte_order b c < 0 \<Longrightarrow> byte_order a c < 0"
proof (induction a b arbitrary: c rule: byte_order.induct)
  case (2 b bs)
  then show ?case by (cases c) auto
next
  case (4 a as b bs)
  show ?case
  proof (cases c)
    case (Cons d ds)
    have "byte_order as bs < 0 \<Longrightarrow> byte_order bs ds < 0 \<Longrightarrow> a = b \<Longrightarrow> byte_order as ds < 0" using 4(1) by simp
    then show ?thesis using 4(2,3) by (cases a b rule: linorder_cases; cases b d rule: linorder_cases) (simp_all add: Cons)
  qed (use 4 in simp)
qed simp_all

text \<open>Any function with the signs of the order of some injective image is a comparator.\<close>

lemma comparatorI:
  assumes "\<And>a b. valid a \<Longrightarrow> valid b \<Longrightarrow> sgn (cmp a b) = byte_order (f a) (f b)" "\<And>a b. valid a \<Longrightarrow> valid b \<Longrightarrow> f a = f b \<Longrightarrow> a = b"
  shows "comparator cmp valid"
proof
  fix a b c assume v: "valid a" "valid b"
  show "sgn (cmp b a) = - sgn (cmp a b)" using assms(1)[OF v] assms(1)[OF v(2,1)] byte_order_antisym[of "f a" "f b"] by simp
  show "cmp a b = 0 \<longleftrightarrow> a = b" using assms(1)[OF v] assms(2)[OF v] byte_order_eq[of "f a" "f b"] by (auto simp: sgn_0_0)
  assume "valid c" "cmp a b < 0" "cmp b c < 0"
  then have "byte_order (f a) (f b) < 0" "byte_order (f b) (f c) < 0" using assms(1) v by (metis sgn_less)+
  then have "byte_order (f a) (f c) < 0" by (rule byte_order_trans)
  then show "cmp a c < 0" using assms(1)[OF v(1) \<open>valid c\<close>] by (metis sgn_less)
qed

subsection \<open>Splitting at a position\<close>

lemma byte_order_append:
  "length a = length b \<Longrightarrow> byte_order (a @ c) (b @ d) = (if a = b then byte_order c d else byte_order a b)"
  by (induction a b rule: byte_order.induct) (auto split: if_splits)

lemma sgn_memcmp: "length a = length b \<Longrightarrow> sgn (memcmp a b) = byte_order a b"
  by (induction a b rule: memcmp.induct) (auto simp: neq_Nil_conv)

lemma sgn_cmp_lexical: "sgn (cmp_lexical a b) = byte_order a b"
proof -
  define n where "n = min (length a) (length b)"
  have n: "(if length a < length b then length a else length b) = n" by (simp add: n_def)
  define t where "t = (if n \<noteq> 0 then memcmp (take n a) (take n b) else 0)"
  have len: "length (take n a) = length (take n b)" by (simp add: n_def)
  have t: "sgn t = byte_order (take n a) (take n b)" using sgn_memcmp[OF len] by (simp add: t_def)
  have "byte_order a b = (if take n a = take n b then byte_order (drop n a) (drop n b) else byte_order (take n a) (take n b))"
    using byte_order_append[OF len, of "drop n a" "drop n b"] by simp
  also have "byte_order (drop n a) (drop n b) = sgn (cmp_len (length a) (length b))"
    by (cases "length a" "length b" rule: linorder_cases; cases "drop n a"; cases "drop n b")
      (auto simp: cmp_len_def n_def sgn_if dest: arg_cong[of _ _ length])
  finally have "byte_order a b = (if t = 0 then sgn (cmp_len (length a) (length b)) else sgn t)"
    using t byte_order_eq[of "take n a" "take n b"] by (auto simp: sgn_0_0)
  then show ?thesis unfolding cmp_lexical_def Let_def n t_def[symmetric] by simp
qed

lemma sgn_cmp_lenfast: "sgn (cmp_lenfast a b) = (if length a \<noteq> length b then sgn (int (length a) - int (length b)) else byte_order a b)"
  using sgn_memcmp[of a b] by (auto simp: cmp_lenfast_def Let_def cmp_len_def)

subsection \<open>Little-endian numbers\<close>

lemma le_value_append: "le_value (a @ b) = le_value a + 256 ^ length a * le_value b"
  by (induction a) (simp_all add: algebra_simps)

lemma le_value_lt: "is_bytes a \<Longrightarrow> le_value a < 256 ^ length a"
  by (induction a) (auto simp: is_bytes_def)

lemma is_bytes_append [simp]: "is_bytes (a @ b) \<longleftrightarrow> is_bytes a \<and> is_bytes b" "is_bytes (x # a) \<longleftrightarrow> x < 256 \<and> is_bytes a" "is_bytes []"
  by (auto simp: is_bytes_def)

lemma is_bytes_take_drop: "is_bytes a \<Longrightarrow> is_bytes (take n a)" "is_bytes a \<Longrightarrow> is_bytes (drop n a)"
  by (auto simp: is_bytes_def list_all_iff dest: in_set_takeD in_set_dropD)

lemma CMP2INT_add: "CMP2INT (x + k) (y + k) = CMP2INT x y" by (simp add: CMP2INT_def)

text \<open>Comparing numbers is comparing their bytes from the last to the first.\<close>

lemma CMP2INT_le_value:
  assumes "length a = length b" "is_bytes a" "is_bytes b"
  shows "CMP2INT (le_value a) (le_value b) = byte_order (rev a) (rev b)"
  using assms
proof (induction a b rule: rev_induct2)
  case (4 a as b bs)
  then have ih: "CMP2INT (le_value as) (le_value bs) = byte_order (rev as) (rev bs)" and len: "length as = length bs"
    and lt: "le_value as < 256 ^ length as" "le_value bs < 256 ^ length as"
    using le_value_lt[of as] le_value_lt[of bs] by simp_all
  show ?case
  proof (cases "a = b")
    case True
    then show ?thesis using ih len by (simp add: le_value_append CMP2INT_add)
  next
    case False
    then consider "Suc a \<le> b" | "Suc b \<le> a" by linarith
    then show ?thesis
    proof cases
      case 1
      have "256 ^ length as * Suc a \<le> 256 ^ length as * b" using 1 by (intro mult_le_mono) simp_all
      then have "le_value (as @ [a]) < le_value (bs @ [b])" using lt len by (simp add: le_value_append)
      then show ?thesis using 1 by (simp add: CMP2INT_def)
    next
      case 2
      have "256 ^ length as * Suc b \<le> 256 ^ length as * a" using 2 by (intro mult_le_mono) simp_all
      then have "le_value (bs @ [b]) < le_value (as @ [a])" using lt len by (simp add: le_value_append)
      then show ?thesis using 2 by (simp add: CMP2INT_def)
    qed
  qed
qed (simp_all add: CMP2INT_def)


lemma peek_window:
  assumes "w \<le> length a - i" "w \<le> length b - j" "is_bytes a" "is_bytes b"
  shows "CMP2INT (peek w a i) (peek w b j) = byte_order (rev (take w (drop i a))) (rev (take w (drop j b)))"
  unfolding peek_def by (rule CMP2INT_le_value) (use assms in \<open>simp_all add: is_bytes_take_drop\<close>)

lemma CMP2INT_eq: "CMP2INT x y = 0 \<longleftrightarrow> x = y" by (simp add: CMP2INT_def)

subsection \<open>Integers\<close>

lemma cmp_uint_order:
  assumes "is_bytes a" "is_bytes b" "length a = length b" "length a = 4 \<or> length a = 8"
  shows "cmp_uint a b = byte_order (rev a) (rev b)"
  using assms peek_window[of 4 a 0 b 0] peek_window[of 8 a 0 b 0]
  by (auto simp: cmp_uint_def cmp_uint32_unchecked_def cmp_uint64_unchecked_def)

subsection \<open>Bytes from the last to the first\<close>

text \<open>What the loops still have to compare: the bytes before the two pointers.\<close>

definition rest_order :: "bytes \<Rightarrow> bytes \<Rightarrow> nat \<Rightarrow> nat \<Rightarrow> int" where
  "rest_order a b pa pb = byte_order (rev (take pa a)) (rev (take pb b))"

lemma rev_take_window:
  assumes "w \<le> pa" "pa \<le> length a"
  shows "rev (take pa a) = rev (take w (drop (pa - w) a)) @ rev (take (pa - w) a)"
proof -
  have "take pa a = take (pa - w) a @ take w (drop (pa - w) a)" using assms take_add[of "pa - w" w a] by simp
  then show ?thesis by (simp only: rev_append)
qed

lemma rest_order_window:
  assumes "w \<le> pa" "w \<le> pb" "pa \<le> length a" "pb \<le> length b"
  shows "rest_order a b pa pb =
    (if take w (drop (pa - w) a) = take w (drop (pb - w) b) then rest_order a b (pa - w) (pb - w)
     else byte_order (rev (take w (drop (pa - w) a))) (rev (take w (drop (pb - w) b))))"
  unfolding rest_order_def rev_take_window[OF assms(1,3)] rev_take_window[OF assms(2,4)]
  by (subst byte_order_append) (use assms in simp_all)

lemma rest_order_peek:
  assumes "w \<le> pa" "w \<le> pb" "pa \<le> length a" "pb \<le> length b" "is_bytes a" "is_bytes b"
  shows "rest_order a b pa pb =
    (if peek w a (pa - w) = peek w b (pb - w) then rest_order a b (pa - w) (pb - w)
     else CMP2INT (peek w a (pa - w)) (peek w b (pb - w)))"
proof -
  have "CMP2INT (peek w a (pa - w)) (peek w b (pb - w)) =
      byte_order (rev (take w (drop (pa - w) a))) (rev (take w (drop (pb - w) b)))"
    by (rule peek_window) (use assms in simp_all)
  then show ?thesis unfolding rest_order_window[OF assms(1-4)]
    by (metis CMP2INT_eq byte_order_eq rev_rev_ident)
qed

text \<open>Each part either decides the order or leaves a shorter problem with the same answer.\<close>

fun leaves :: "bytes \<Rightarrow> bytes \<Rightarrow> nat \<Rightarrow> nat \<Rightarrow> nat \<Rightarrow> int + nat \<times> nat \<times> nat \<Rightarrow> bool" where
  "leaves a b pa pb left (Inl r) \<longleftrightarrow> r = rest_order a b pa pb"
| "leaves a b pa pb left (Inr (pa', pb', left')) \<longleftrightarrow>
     rest_order a b pa' pb' = rest_order a b pa pb \<and> left' \<le> left \<and> pa + left' = pa' + left \<and> pb + left' = pb' + left"

lemma cmp_reverse_words_left: "cmp_reverse_words a b pa pb left = Inr (pa', pb', left') \<Longrightarrow> left' < 8"
proof (induction a b pa pb left rule: cmp_reverse_words.induct)
  case (1 a b pa pb left)
  show ?case
  proof (cases "8 \<le> left \<and> peek 8 a (pa - 8) = peek 8 b (pb - 8)")
    case True
    then have "cmp_reverse_words a b (pa - 8) (pb - 8) (left - 8) = Inr (pa', pb', left')"
      using "1.prems" by (subst (asm) cmp_reverse_words.simps) (simp add: Let_def)
    then show ?thesis using "1.IH" True by blast
  next
    case False
    then show ?thesis using "1.prems" by (subst (asm) cmp_reverse_words.simps) (simp add: Let_def split: if_splits)
  qed
qed

lemma cmp_reverse_words_leaves:
  assumes "is_bytes a" "is_bytes b" "left \<le> pa" "left \<le> pb" "pa \<le> length a" "pb \<le> length b"
  shows "leaves a b pa pb left (cmp_reverse_words a b pa pb left)"
  using assms
proof (induction a b pa pb left rule: cmp_reverse_words.induct)
  case (1 a b pa pb left)
  show ?case
  proof (cases "8 \<le> left")
    case True
    have step: "rest_order a b pa pb = (if peek 8 a (pa - 8) = peek 8 b (pb - 8) then rest_order a b (pa - 8) (pb - 8)
        else CMP2INT (peek 8 a (pa - 8)) (peek 8 b (pb - 8)))"
      by (rule rest_order_peek) (use "1.prems" True in simp_all)
    show ?thesis
    proof (cases "peek 8 a (pa - 8) = peek 8 b (pb - 8)")
      case eq: True
      have "leaves a b (pa - 8) (pb - 8) (left - 8) (cmp_reverse_words a b (pa - 8) (pb - 8) (left - 8))"
        by (rule "1.IH") (use "1.prems" True eq in simp_all)
      moreover have "cmp_reverse_words a b pa pb left = cmp_reverse_words a b (pa - 8) (pb - 8) (left - 8)"
        by (subst cmp_reverse_words.simps) (simp add: True eq Let_def)
      ultimately show ?thesis using True "1.prems" eq step
        by (cases "cmp_reverse_words a b (pa - 8) (pb - 8) (left - 8)") (auto, linarith+)
    next
      case False
      then show ?thesis using True step by (subst cmp_reverse_words.simps) (simp add: CMP2INT_def Let_def)
    qed
  next
    case False
    then show ?thesis by (subst cmp_reverse_words.simps) simp
  qed
qed

lemma cmp_reverse_half_leaves:
  assumes "is_bytes a" "is_bytes b" "left \<le> pa" "left \<le> pb" "pa \<le> length a" "pb \<le> length b" "left < 8"
  shows "leaves a b pa pb left (cmp_reverse_half a b pa pb left)"
    and "cmp_reverse_half a b pa pb left = Inr (pa', pb', left') \<Longrightarrow> left' < 4"
proof -
  show "leaves a b pa pb left (cmp_reverse_half a b pa pb left)"
  proof (cases "4 \<le> left")
    case True
    have "rest_order a b pa pb = (if peek 4 a (pa - 4) = peek 4 b (pb - 4) then rest_order a b (pa - 4) (pb - 4)
        else CMP2INT (peek 4 a (pa - 4)) (peek 4 b (pb - 4)))"
      by (rule rest_order_peek) (use assms True in simp_all)
    then show ?thesis using assms True by (auto simp: cmp_reverse_half_def Let_def CMP2INT_def)
  qed (simp add: cmp_reverse_half_def)
  show "cmp_reverse_half a b pa pb left = Inr (pa', pb', left') \<Longrightarrow> left' < 4"
    using assms by (auto simp: cmp_reverse_half_def Let_def split: if_splits)
qed


lemma length_less_4: "0 < n \<Longrightarrow> n < 4 \<Longrightarrow> n = 1 \<or> n = 2 \<or> n = (3::nat)" by linarith

lemma or_push_bit_add:
  assumes "a < 2 ^ n" shows "a OR push_bit n b = a + push_bit n (b :: nat)"
proof -
  have "\<not> (bit a k \<and> n \<le> k)" for k
    using assms by (metis bit_take_bit_iff leD take_bit_nat_eq_self)
  then have "a AND push_bit n b = 0" by (auto simp: bit_eq_iff bit_and_iff bit_push_bit_iff)
  then show ?thesis by (simp add: disjunctive_add_eq_or)
qed

lemma tail3le_value:
  assumes "is_bytes p" "0 < l" "l < 4" "i + l \<le> length p"
  shows "tail3le p i l = le_value [p ! i, p ! (i + l div 2), p ! (i + l - 1)]"
proof -
  have b: "p ! k < 256" if "k < length p" for k using assms(1) that by (simp add: is_bytes_def list_all_length)
  have "p ! i < 256" "p ! (i + l div 2) < 256" by (rule b; use assms in simp)+
  then have "tail3le p i l = p ! i + push_bit 8 (p ! (i + l div 2)) + push_bit 16 (p ! (i + l - 1))"
    unfolding tail3le_def drop_bit_eq_div or.assoc[symmetric] using or_push_bit_add[of "p ! i" 8 "p ! (i + l div 2)"]
      or_push_bit_add[of "p ! i + push_bit 8 (p ! (i + l div 2))" 16 "p ! (i + l - 1)"]
    by (simp add: push_bit_eq_mult)
  then show ?thesis by (simp add: push_bit_eq_mult)
qed

lemma tail3le_order:
  assumes "is_bytes a" "is_bytes b" "0 < l" "l < 4" "i + l \<le> length a" "j + l \<le> length b"
  shows "CMP2INT (tail3le a i l) (tail3le b j l) = byte_order (rev (take l (drop i a))) (rev (take l (drop j b)))"
proof -
  have b: "a ! k < 256" if "k < length a" for k using assms(1) that by (simp add: is_bytes_def list_all_length)
  have b': "b ! k < 256" if "k < length b" for k using assms(2) that by (simp add: is_bytes_def list_all_length)
  have "CMP2INT (tail3le a i l) (tail3le b j l) =
      byte_order (rev [a ! i, a ! (i + l div 2), a ! (i + l - 1)]) (rev [b ! j, b ! (j + l div 2), b ! (j + l - 1)])"
    using assms by (subst (1 2) tail3le_value, simp_all only:) (rule CMP2INT_le_value, simp_all add: b b')
  moreover have "take l (drop i a) = map (\<lambda>k. a ! (i + k)) [0..<l]" "take l (drop j b) = map (\<lambda>k. b ! (j + k)) [0..<l]"
    using assms by (simp_all add: list_eq_iff_nth_eq)
  ultimately show ?thesis using length_less_4[OF assms(3,4)] by (elim disjE) (simp_all add: upt_rec)
qed

lemma cmp_reverse_tail_order:
  assumes "is_bytes a" "is_bytes b" "left \<le> pa" "left \<le> pb" "pa \<le> length a" "pb \<le> length b" "left < 4"
  shows "cmp_reverse_tail a b pa pb left = Inl r \<Longrightarrow> r = rest_order a b pa pb"
    and "cmp_reverse_tail a b pa pb left = Inr u \<Longrightarrow> rest_order a b pa pb = rest_order a b (pa - left) (pb - left)"
proof -
  have *: "rest_order a b pa pb =
      (if tail3le a (pa - left) left = tail3le b (pb - left) left then rest_order a b (pa - left) (pb - left)
       else CMP2INT (tail3le a (pa - left) left) (tail3le b (pb - left) left))" if "left \<noteq> 0"
  proof -
    have "CMP2INT (tail3le a (pa - left) left) (tail3le b (pb - left) left) =
        byte_order (rev (take left (drop (pa - left) a))) (rev (take left (drop (pb - left) b)))"
      by (rule tail3le_order) (use assms that in simp_all)
    then show ?thesis unfolding rest_order_window[OF assms(3-6)] by (metis CMP2INT_eq byte_order_eq rev_rev_ident)
  qed
  show "cmp_reverse_tail a b pa pb left = Inl r \<Longrightarrow> r = rest_order a b pa pb"
    using * by (auto simp: cmp_reverse_tail_def Let_def CMP2INT_def split: if_splits)
  show "cmp_reverse_tail a b pa pb left = Inr u \<Longrightarrow> rest_order a b pa pb = rest_order a b (pa - left) (pb - left)"
    using * by (auto simp: cmp_reverse_tail_def Let_def split: if_splits)
qed

lemma rest_order_end: "pa = 0 \<or> pb = 0 \<Longrightarrow> pa \<le> length a \<Longrightarrow> pb \<le> length b \<Longrightarrow> rest_order a b pa pb = sgn (int pa - int pb)"
  by (cases "rev (take pa a)"; cases "rev (take pb b)") (auto simp: rest_order_def sgn_if)

lemma sgn_cmp_reverse:
  assumes "is_bytes a" "is_bytes b"
  shows "sgn (cmp_reverse a b) = byte_order (rev a) (rev b)"
proof -
  define n where "n = (if length a < length b then length a else length b)"
  have n: "n \<le> length a" "n \<le> length b" by (simp_all add: n_def)
  have all: "byte_order (rev a) (rev b) = rest_order a b (length a) (length b)" by (simp add: rest_order_def)
  have last: "rest_order a b (length a - n) (length b - n) = sgn (cmp_len (length a) (length b))"
    using rest_order_end[of "length a - n" "length b - n" a b] by (auto simp: n_def cmp_len_def sgn_if split: if_splits)
  have range: "sgn (rest_order a b pa pb) = rest_order a b pa pb" for pa pb
    using byte_order_range[of "rev (take pa a)" "rev (take pb b)"] by (auto simp: rest_order_def)
  show ?thesis
  proof (cases "n = 0")
    case True
    then show ?thesis using all last by (simp add: cmp_reverse_def Let_def flip: n_def)
  next
    case False
    note words = cmp_reverse_words_leaves[OF assms n order_refl order_refl]
    show ?thesis
    proof (cases "cmp_reverse_words a b (length a) (length b) n")
      case (Inl r)
      then show ?thesis using words all range False by (simp add: cmp_reverse_def Let_def flip: n_def)
    next
      case (Inr x)
      obtain pa pb left where x: "x = (pa, pb, left)" by (cases x)
      have w: "rest_order a b pa pb = rest_order a b (length a) (length b)" "left \<le> n" "length a + left = pa + n"
        "length b + left = pb + n" "left < 8" using words Inr cmp_reverse_words_left by (simp_all add: x)
      have h0: "left \<le> pa" "left \<le> pb" "pa \<le> length a" "pb \<le> length b" using w n by linarith+
      note half = cmp_reverse_half_leaves[OF assms h0 w(5)]
      show ?thesis
      proof (cases "cmp_reverse_half a b pa pb left")
        case (Inl r)
        then show ?thesis using half(1) all range False Inr x w by (simp add: cmp_reverse_def Let_def flip: n_def)
      next
        case inr: (Inr y)
        obtain qa qb rest where y: "y = (qa, qb, rest)" by (cases y)
        have h: "rest_order a b qa qb = rest_order a b pa pb" "rest \<le> left" "pa + rest = qa + left" "pb + rest = qb + left"
          "rest < 4" using half inr by (simp_all add: y)
        have t0: "rest \<le> qa" "rest \<le> qb" "qa \<le> length a" "qb \<le> length b" using h h0 by linarith+
        note tail = cmp_reverse_tail_order[OF assms t0 h(5)]
        have e: "qa - rest = length a - n" "qb - rest = length b - n" using h w n t0 by linarith+
        show ?thesis
        proof (cases "cmp_reverse_tail a b qa qb rest")
          case (Inl r)
          then show ?thesis using tail(1) all range False Inr x w inr y h by (simp add: cmp_reverse_def Let_def flip: n_def)
        next
          case (Inr u)
          then show ?thesis using tail(2) all last False \<open>cmp_reverse_words _ _ _ _ _ = _\<close> x w inr y h e
            by (simp add: cmp_reverse_def Let_def flip: n_def)
        qed
      qed
    qed
  qed
qed


subsection \<open>The comparators of the code meet the contract\<close>

interpretation lexical: comparator cmp_lexical is_bytes
  by (rule comparatorI[where f = id]) (simp_all add: sgn_cmp_lexical)

interpretation reverse: comparator cmp_reverse is_bytes
  by (rule comparatorI[where f = rev]) (simp_all add: sgn_cmp_reverse)

lemma sgn_byte_order [simp]: "sgn (byte_order a b) = byte_order a b"
  using byte_order_range[of a b] by auto

interpretation uint32: comparator cmp_uint "\<lambda>a. is_bytes a \<and> length a = 4"
  by (rule comparatorI[where f = rev]) (simp_all add: cmp_uint_order)

interpretation uint64: comparator cmp_uint "\<lambda>a. is_bytes a \<and> length a = 8"
  by (rule comparatorI[where f = rev]) (simp_all add: cmp_uint_order)

lemma lenfast_less:
  "cmp_lenfast a b < 0 \<longleftrightarrow> length a < length b \<or> length a = length b \<and> byte_order a b < 0"
  using sgn_cmp_lenfast[of a b] sgn_less[of "cmp_lenfast a b"] by (auto split: if_splits)

interpretation lenfast: comparator cmp_lenfast is_bytes
proof
  fix a b c
  show "sgn (cmp_lenfast b a) = - sgn (cmp_lenfast a b)"
    unfolding sgn_cmp_lenfast using byte_order_antisym[of b a] by (simp add: sgn_if)
  show "cmp_lenfast a b = 0 \<longleftrightarrow> a = b"
    unfolding sgn_0_0[of "cmp_lenfast a b", symmetric] sgn_cmp_lenfast using byte_order_eq[of a b] by (auto simp: sgn_if)
  show "cmp_lenfast a b < 0 \<Longrightarrow> cmp_lenfast b c < 0 \<Longrightarrow> cmp_lenfast a c < 0"
    unfolding lenfast_less using byte_order_trans[of a b c] by auto
qed

subsection \<open>Equality\<close>

lemma memcmp_eq: "length a = length b \<Longrightarrow> memcmp a b = 0 \<longleftrightarrow> a = b"
  using sgn_memcmp[of a b] byte_order_eq[of a b] by (metis sgn_eq_0_iff)

lemma peek_eq:
  assumes "is_bytes a" "is_bytes b" "w \<le> length a - i" "w \<le> length b - i"
  shows "peek w a i = peek w b i \<longleftrightarrow> take w (drop i a) = take w (drop i b)"
  unfolding CMP2INT_eq[symmetric] peek_window[OF assms(3,4,1,2)] byte_order_eq rev_is_rev_conv ..

lemma peek_lt: "is_bytes a \<Longrightarrow> w \<le> length a - i \<Longrightarrow> peek w a i < 256 ^ w"
  unfolding peek_def using le_value_lt[of "take w (drop i a)"] by (simp add: is_bytes_take_drop)

text \<open>Two windows that overlap cover everything.\<close>

lemma windows_cover:
  assumes "length a = l" "length b = l" "w \<le> l" "l \<le> 2 * w"
  shows "take w a = take w b \<and> take w (drop (l - w) a) = take w (drop (l - w) b) \<longleftrightarrow> a = b"
proof
  assume "take w a = take w b \<and> take w (drop (l - w) a) = take w (drop (l - w) b)"
  then have 1: "take w a = take w b" and 2: "drop (l - w) a = drop (l - w) b" using assms by simp_all
  have "drop w a = drop (w - (l - w)) (drop (l - w) a)" "drop w b = drop (w - (l - w)) (drop (l - w) b)"
    using assms by simp_all
  then have "drop w a = drop w b" unfolding 2 by simp
  then have "take w a @ drop w a = take w b @ drop w b" using 1 by simp
  then show "a = b" by simp
qed simp

lemma sub32_zero: "x < 256 ^ 4 \<Longrightarrow> y < 256 ^ 4 \<Longrightarrow> sub32 x y = 0 \<longleftrightarrow> x = y"
  by (auto simp: sub32_def)

lemma sub64_zero: "x < 256 ^ 8 \<Longrightarrow> y < 256 ^ 8 \<Longrightarrow> sub64 x y = 0 \<longleftrightarrow> x = y"
  by (auto simp: sub64_def)

lemma eq_fast_slowpath_iff:
  assumes b: "is_bytes a" "is_bytes b" and l: "length a = l" "length b = l"
  shows "eq_fast_slowpath a b l \<longleftrightarrow> a = b"
proof -
  have two: "peek w a 0 = peek w b 0 \<and> peek w a (l - w) = peek w b (l - w) \<longleftrightarrow> a = b" if "w \<le> l" "l \<le> 2 * w" for w
  proof -
    have "peek w a 0 = peek w b 0 \<longleftrightarrow> take w a = take w b" using peek_eq[OF b, of w 0] that l by simp
    moreover have "peek w a (l - w) = peek w b (l - w) \<longleftrightarrow> take w (drop (l - w) a) = take w (drop (l - w) b)"
      by (rule peek_eq[OF b]) (use that l in simp_all)
    ultimately show ?thesis using windows_cover[OF l that] by simp
  qed
  have lt: "peek w a i < 256 ^ w" "peek w b i < 256 ^ w" if "w \<le> l - i" for w i
    using peek_lt[OF b(1), of w i] peek_lt[OF b(2), of w i] that l by simp_all
  consider "l = 0" | "0 < l" "l < 4" | "3 < l" "l < 9" | "8 < l" "l < 17" | "16 < l" by linarith
  then show ?thesis
  proof cases
    case 1
    then show ?thesis using l by (simp add: eq_fast_slowpath_def)
  next
    case 2
    have "CMP2INT (tail3le a 0 l) (tail3le b 0 l) = byte_order (rev a) (rev b)"
      using tail3le_order[OF b 2, of 0 0] l by simp
    then show ?thesis using 2 CMP2INT_eq byte_order_eq by (simp add: eq_fast_slowpath_def) (metis rev_rev_ident)
  next
    case 3
    then show ?thesis using two[of 4] lt[of 4 0] lt[of 4 "l - 4"]
      by (simp add: eq_fast_slowpath_def or_eq_0_iff sub32_zero)
  next
    case 4
    then show ?thesis using two[of 8] lt[of 8 0] lt[of 8 "l - 8"]
      by (simp add: eq_fast_slowpath_def or_eq_0_iff sub64_zero)
  next
    case 5
    then show ?thesis using memcmp_eq[of a b] l by (simp add: eq_fast_slowpath_def)
  qed
qed

lemma eq_fast_iff: "is_bytes a \<Longrightarrow> is_bytes b \<Longrightarrow> eq_fast a b \<longleftrightarrow> a = b"
  using eq_fast_slowpath_iff[of a b "length a"] by (auto simp: eq_fast_def)


subsection \<open>Keys and values of a table\<close>

text \<open>
  The keys a table with these flags accepts: a table of integers holds numbers of one size, \<open>l\<close>, which
  \<^verbatim>\<open>cursor_put\<close> and \<^verbatim>\<open>dbi_open\<close> enforce. The order of its keys is that of the bytes, from the first or from the last.
\<close>

definition key_ok :: "nat \<Rightarrow> nat \<Rightarrow> bytes \<Rightarrow> bool" where
  "key_ok flags l k \<longleftrightarrow> is_bytes k \<and> (has_flag flags MDBX_INTEGERKEY \<longrightarrow> length k = l)"

definition key_image :: "nat \<Rightarrow> bytes \<Rightarrow> bytes" where
  "key_image flags k = (if has_flag flags MDBX_INTEGERKEY \<or> has_flag flags MDBX_REVERSEKEY then rev k else k)"

definition value_ok :: "nat \<Rightarrow> nat \<Rightarrow> bytes \<Rightarrow> bool" where
  "value_ok flags l v \<longleftrightarrow> is_bytes v \<and> (has_flag flags MDBX_DUPSORT \<and> has_flag flags MDBX_INTEGERDUP \<longrightarrow> length v = l)"

lemma builtin_keycmp_order:
  assumes "l = 4 \<or> l = 8" "key_ok flags l a" "key_ok flags l b"
  shows "sgn (builtin_keycmp flags a b) = byte_order (key_image flags a) (key_image flags b)"
  using assms by (auto simp: builtin_keycmp_def key_ok_def key_image_def cmp_uint_order sgn_cmp_lexical sgn_cmp_reverse)

lemma builtin_keycmp_comparator: "l = 4 \<or> l = 8 \<Longrightarrow> comparator (builtin_keycmp flags) (key_ok flags l)"
  by (rule comparatorI[where f = "key_image flags"], rule builtin_keycmp_order) (auto simp: key_image_def split: if_splits)

lemma builtin_datacmp_comparator:
  assumes "l = 4 \<or> l = 8"
  shows "comparator (builtin_datacmp flags) (value_ok flags l)"
proof (cases "has_flag flags MDBX_DUPSORT")
  case True
  have "comparator (builtin_datacmp flags) (value_ok flags l)"
    by (rule comparatorI[where f = "if has_flag flags MDBX_INTEGERDUP \<or> has_flag flags MDBX_REVERSEDUP then rev else id"])
      (use assms True in \<open>auto simp: builtin_datacmp_def value_ok_def cmp_uint_order sgn_cmp_lexical sgn_cmp_reverse split: if_splits\<close>)
  then show ?thesis .
next
  case False
  then have "builtin_datacmp flags = cmp_lenfast" "value_ok flags l = is_bytes"
    by (auto simp: builtin_datacmp_def value_ok_def fun_eq_iff)
  then show ?thesis using lenfast.comparator_axioms by simp
qed

text \<open>
  C30. The comparator of the keys of a table is a linear order of the keys that the table accepts: its sign is that of
  the order of the bytes (from the first, or from the last for the reverse order and for integers), it is zero for equal
  keys only, it changes its sign with the order of the arguments, and it is transitive.
\<close>

theorem keycmp_linear_order:
  assumes "l = 4 \<or> l = 8" and "list_all (key_ok flags l) [a, b, c]"
  shows "sgn (builtin_keycmp flags a b) = byte_order (key_image flags a) (key_image flags b) \<and>
    (builtin_keycmp flags a b = 0 \<longleftrightarrow> a = b) \<and>
    sgn (builtin_keycmp flags b a) = - sgn (builtin_keycmp flags a b) \<and>
    (builtin_keycmp flags a b < 0 \<and> builtin_keycmp flags b c < 0 \<longrightarrow> builtin_keycmp flags a c < 0)"
  using builtin_keycmp_order[OF assms(1), of flags a b] comparator.eq_zero[OF builtin_keycmp_comparator[OF assms(1)], of flags a b]
    comparator.antisym[OF builtin_keycmp_comparator[OF assms(1)], of flags a b]
    comparator.trans[OF builtin_keycmp_comparator[OF assms(1)], of flags a b c] assms(2)
  by auto

theorem keycmp_linear_order_witness:
  "sgn (builtin_keycmp MDBX_REVERSEKEY [9, 9, 1] [1, 2]) = -1 \<and> builtin_keycmp MDBX_REVERSEKEY [9, 9, 1] [3] < 0"
proof -
  have keys: "list_all (key_ok MDBX_REVERSEKEY 4) [[9, 9, 1], [1, 2], [3]]" "list_all (key_ok MDBX_REVERSEKEY 4) [[1, 2], [3], [3]]"
    and image: "key_image MDBX_REVERSEKEY k = rev k" for k
    by (simp_all add: key_ok_def key_image_def is_bytes_def has_flag_def MDBX_INTEGERKEY_def MDBX_REVERSEKEY_def)
  have "sgn (builtin_keycmp MDBX_REVERSEKEY [1, 2] [3]) = -1"
    using keycmp_linear_order[OF disjI1[OF refl] keys(2)] by (simp add: image)
  moreover have "sgn (builtin_keycmp MDBX_REVERSEKEY [9, 9, 1] [1, 2]) = -1"
    using keycmp_linear_order[OF disjI1[OF refl] keys(1)] by (simp add: image)
  ultimately show ?thesis
    using keycmp_linear_order[OF disjI1[OF refl] keys(1)] sgn_less[of "builtin_keycmp MDBX_REVERSEKEY _ _"] by (metis neg_less_0_iff_less zero_less_one)
qed

text \<open>
  The fast test of equality, which compares two overlapping words instead of the bytes, holds exactly for equal
  byte strings, whatever their length.
\<close>

theorem eq_fast_exact:
  assumes "is_bytes a" and "is_bytes b"
  shows "eq_fast a b \<longleftrightarrow> a = b"
  using eq_fast_iff[OF assms] .

theorem eq_fast_exact_witness: "eq_fast [1, 2, 3, 4, 5] [1, 2, 3, 4, 5] \<and> \<not> eq_fast [1, 2, 3, 4, 5] [1, 2, 3, 4, 6]"
  using eq_fast_exact[of "[1, 2, 3, 4, 5]" "[1, 2, 3, 4, 5]"] eq_fast_exact[of "[1, 2, 3, 4, 5]" "[1, 2, 3, 4, 6]"] by simp

end
