(* ===== verification/Page_Wf.thy ===== *)
theory Page_Wf
  imports Page Cmp_Ops
begin

text \<open>
  Pages of well-formed nodes. The image of a node is the bytes it occupies; a page stands for the list of the images of
  its nodes, and is well-formed when they lie behind the gap, inside of the page, aligned and apart from each other.
  \<open>wf_nodes_shift\<close> says what moving nodes keeps, \<open>insert_node\<close> what putting one in front of them does.
\<close>

unbundle bit_operations_syntax

subsection \<open>Bytes\<close>

lemma length_le_bytes [simp]: "length (le_bytes n v) = n" by (induction n v rule: le_bytes.induct) simp_all

lemma le_value_le_bytes: "v < 256 ^ n \<Longrightarrow> le_value (le_bytes n v) = v"
  by (induction n v rule: le_bytes.induct) (auto simp: less_mult_imp_div_less)

lemma is_bytes_le_bytes [simp]: "is_bytes (le_bytes n v)"
  by (induction n v rule: le_bytes.induct) (simp_all add: is_bytes_def)

lemma length_blit [simp]: "off + length src \<le> length d \<Longrightarrow> length (blit off src d) = length d"
  by (simp add: blit_def)

declare is_bytes_take_drop [simp]

lemma is_bytes_blit [simp]: "is_bytes src \<Longrightarrow> is_bytes d \<Longrightarrow> is_bytes (blit off src d)"
  by (simp add: blit_def)

text \<open>A slice of the bytes.\<close>

definition slice :: "nat \<Rightarrow> nat \<Rightarrow> bytes \<Rightarrow> bytes" where "slice o' n d = take n (drop o' d)"

lemma length_slice [simp]: "o' + n \<le> length d \<Longrightarrow> length (slice o' n d) = n" by (simp add: slice_def)

lemma slice_blit_same: "o' + length src \<le> length d \<Longrightarrow> n = length src \<Longrightarrow> slice o' n (blit o' src d) = src"
  by (simp add: slice_def blit_def)

lemma slice_blit_before: "o' + n \<le> off \<Longrightarrow> off + length src \<le> length d \<Longrightarrow> slice o' n (blit off src d) = slice o' n d"
proof -
  assume "o' + n \<le> off" "off + length src \<le> length d"
  then have "slice o' n (blit off src d) = take n (drop o' (take off d))" by (simp add: slice_def blit_def)
  also have "\<dots> = take (min n (off - o')) (drop o' d)" by (simp only: drop_take take_take)
  finally show ?thesis using \<open>o' + n \<le> off\<close> by (simp add: slice_def min_def)
qed

lemma slice_blit_behind: "off + length src \<le> o' \<Longrightarrow> off + length src \<le> length d \<Longrightarrow> slice o' n (blit off src d) = slice o' n d"
  by (simp add: slice_def blit_def)

lemma slice_blit_other:
  "o' + n \<le> off \<or> off + length src \<le> o' \<Longrightarrow> off + length src \<le> length d \<Longrightarrow> slice o' n (blit off src d) = slice o' n d"
  using slice_blit_before slice_blit_behind by blast

text \<open>A slice inside of what was written.\<close>

lemma slice_blit_inside:
  assumes "off \<le> o'" "o' + n \<le> off + length src" "off + length src \<le> length d"
  shows "slice o' n (blit off src d) = slice (o' - off) n src"
  using assms by (simp add: slice_def blit_def min_def)

lemma slice_slice: "i + m \<le> n \<Longrightarrow> slice i m (slice o' n d) = slice (o' + i) m d"
  by (simp add: slice_def min_def add.commute take_drop)

lemma peek_slice: "peek n d o' = le_value (slice o' n d)" by (simp add: peek_def slice_def)

lemma slice_poke_same: "o' + n \<le> length d \<Longrightarrow> slice o' n (poke n o' v d) = le_bytes n v"
  unfolding poke_def by (rule slice_blit_same) simp_all

lemma peek_poke_same: "o' + n \<le> length d \<Longrightarrow> v < 256 ^ n \<Longrightarrow> peek n (poke n o' v d) o' = v"
  by (simp add: peek_slice slice_poke_same le_value_le_bytes)

lemma slice_poke_other:
  "o' + m \<le> off \<or> off + n \<le> o' \<Longrightarrow> off + n \<le> length d \<Longrightarrow> slice o' m (poke n off v d) = slice o' m d"
  unfolding poke_def by (rule slice_blit_other) simp_all

lemma length_poke [simp]: "off + n \<le> length d \<Longrightarrow> length (poke n off v d) = length d"
  by (simp add: poke_def)

lemma is_bytes_poke [simp]: "is_bytes d \<Longrightarrow> is_bytes (poke n off v d)" by (simp add: poke_def)


subsection \<open>The image of a node\<close>

definition node_len :: "bool \<Rightarrow> bytes \<Rightarrow> nat \<Rightarrow> nat" where
  "node_len leaf d node = EVEN_CEIL (NODESIZE + node_ks d node +
     (if leaf then (if node_flags d node AND N_BIG \<noteq> 0 then sizeof_pgno else node_ds d node) else 0))"

definition node_image :: "bool \<Rightarrow> bytes \<Rightarrow> nat \<Rightarrow> bytes" where
  "node_image leaf d node = slice node (node_len leaf d node) d"

lemma node_header_slice:
  assumes "slice a 8 d = slice b 8 d'"
  shows "node_ks d a = node_ks d' b" "node_ds d a = node_ds d' b" "node_flags d a = node_flags d' b" "node_pgno d a = node_pgno d' b"
proof -
  have "slice (a + i) m d = slice (b + i) m d'" if "i + m \<le> 8" for i m
    using that slice_slice[of i m 8 a d] slice_slice[of i m 8 b d'] assms by simp
  from this[of 6 2] this[of 0 4] this[of 4 1]
  show "node_ks d a = node_ks d' b" "node_ds d a = node_ds d' b" "node_flags d a = node_flags d' b" "node_pgno d a = node_pgno d' b"
    by (simp_all add: node_ks_def node_ds_def node_flags_def node_pgno_def peek_slice)
qed

lemma node_image_cong:
  assumes "slice a m d = slice b m d'" "8 \<le> m" "node_len leaf d a \<le> m"
  shows "node_len leaf d' b = node_len leaf d a" "node_image leaf d' b = node_image leaf d a"
proof -
  have "slice a 8 d = slice b 8 d'" using assms slice_slice[of 0 8 m a d] slice_slice[of 0 8 m b d'] by simp
  note h = node_header_slice[OF this]
  show len: "node_len leaf d' b = node_len leaf d a" by (simp add: node_len_def h)
  show "node_image leaf d' b = node_image leaf d a"
    unfolding node_image_def len using assms slice_slice[of 0 "node_len leaf d a" m a d] slice_slice[of 0 "node_len leaf d a" m b d']
    by simp
qed

lemma node_len_ge: "8 \<le> node_len leaf d node" "even (node_len leaf d node)"
  by (auto simp: node_len_def EVEN_CEIL_def NODESIZE_def)

subsection \<open>Well-formed pages\<close>

text \<open>
  The entries of a page point to nodes that lie behind the gap, inside of the page, and do not overlap. The sizes are
  even, so the nodes are aligned.
\<close>

definition apart :: "nat \<Rightarrow> nat \<Rightarrow> nat \<Rightarrow> nat \<Rightarrow> bool" where
  "apart a m b n \<longleftrightarrow> a + m \<le> b \<or> b + n \<le> a"

definition wf_nodes :: "bool \<Rightarrow> nat \<Rightarrow> nat list \<Rightarrow> bytes \<Rightarrow> bool" where
  "wf_nodes leaf upper es d \<longleftrightarrow>
     list_all (\<lambda>e. even e \<and> upper \<le> e \<and> e + node_len leaf d e \<le> length d) es \<and>
     sorted_wrt (\<lambda>a b. apart a (node_len leaf d a) b (node_len leaf d b)) es"

definition used_entries :: "page \<Rightarrow> nat list" where
  "used_entries mp = take (page_numkeys mp) (pg_entries mp)"

definition wf_page :: "page \<Rightarrow> bool" where
  "wf_page mp \<longleftrightarrow>
     \<not> is_dupfix_leaf mp \<and> even (pg_lower mp) \<and> even (pg_upper mp) \<and> pg_lower mp \<le> pg_upper mp \<and>
     pg_upper mp \<le> length (pg_data mp) \<and> length (pg_data mp) < 2 ^ 16 \<and> length (pg_entries mp) = length (pg_data mp) div 2 \<and>
     is_bytes (pg_data mp) \<and> wf_nodes (is_leaf mp) (pg_upper mp) (used_entries mp) (pg_data mp)"

text \<open>What a page stands for: the list of its nodes.\<close>

definition page_nodes :: "page \<Rightarrow> bytes list" where
  "page_nodes mp = map (node_image (is_leaf mp) (pg_data mp)) (used_entries mp)"

lemma wf_page_numkeys: "wf_page mp \<Longrightarrow> page_numkeys mp \<le> length (pg_entries mp) \<and> 2 * page_numkeys mp = pg_lower mp"
  by (auto simp: wf_page_def page_numkeys_def drop_bit_eq_div)

lemma length_used_entries: "wf_page mp \<Longrightarrow> length (used_entries mp) = page_numkeys mp"
  using wf_page_numkeys by (simp add: used_entries_def)

lemma wf_nodes_shift:
  assumes wf: "wf_nodes leaf upper es d"
    and same: "\<And>e. e \<in> set es \<Longrightarrow> slice (f e) (node_len leaf d e) d' = slice e (node_len leaf d e) d"
    and inside: "\<And>e. e \<in> set es \<Longrightarrow> even (f e) \<and> upper' \<le> f e \<and> f e + node_len leaf d e \<le> length d'"
    and apart: "\<And>a b. a \<in> set es \<Longrightarrow> b \<in> set es \<Longrightarrow> apart a (node_len leaf d a) b (node_len leaf d b) \<Longrightarrow>
      apart (f a) (node_len leaf d a) (f b) (node_len leaf d b)"
  shows "wf_nodes leaf upper' (map f es) d' \<and> map (node_image leaf d') (map f es) = map (node_image leaf d) es \<and>
    (\<forall>e \<in> set es. node_len leaf d' (f e) = node_len leaf d e)"
proof -
  have keep: "node_len leaf d' (f e) = node_len leaf d e" "node_image leaf d' (f e) = node_image leaf d e" if "e \<in> set es" for e
    using node_image_cong[OF same[OF that, symmetric] node_len_ge(1) order_refl] by simp_all
  have "sorted_wrt (\<lambda>a b. apart (f a) (node_len leaf d' (f a)) (f b) (node_len leaf d' (f b))) es"
  proof (rule sorted_wrt_mono_rel)
    show "sorted_wrt (\<lambda>a b. apart a (node_len leaf d a) b (node_len leaf d b)) es" using wf by (simp add: wf_nodes_def)
  qed (simp add: keep apart)
  then have "wf_nodes leaf upper' (map f es) d'"
    using inside by (simp add: wf_nodes_def list_all_iff sorted_wrt_map keep)
  moreover have "map (node_image leaf d') (map f es) = map (node_image leaf d) es" by (simp add: keep)
  ultimately show ?thesis using keep by simp
qed


subsection \<open>Reading back what was written\<close>

lemma length_node_set [simp]:
  "u + 8 \<le> length d \<Longrightarrow> length (node_set_ks u v d) = length d"
  "u + 8 \<le> length d \<Longrightarrow> length (node_set_ds u v d) = length d"
  "u + 8 \<le> length d \<Longrightarrow> length (node_set_pgno u v d) = length d"
  "u + 8 \<le> length d \<Longrightarrow> length (node_set_flags u v d) = length d"
  "u + 8 \<le> length d \<Longrightarrow> length (node_set_extra u v d) = length d"
  by (simp_all add: node_set_ks_def node_set_ds_def node_set_pgno_def node_set_flags_def node_set_extra_def)

lemma is_bytes_node_set [simp]:
  "is_bytes d \<Longrightarrow> is_bytes (node_set_ks u v d)" "is_bytes d \<Longrightarrow> is_bytes (node_set_ds u v d)"
  "is_bytes d \<Longrightarrow> is_bytes (node_set_pgno u v d)" "is_bytes d \<Longrightarrow> is_bytes (node_set_flags u v d)"
  "is_bytes d \<Longrightarrow> is_bytes (node_set_extra u v d)"
  by (simp_all add: node_set_ks_def node_set_ds_def node_set_pgno_def node_set_flags_def node_set_extra_def)

lemma slice_node_set [simp]:
  "u + 8 \<le> length d \<Longrightarrow> u + 8 \<le> a \<Longrightarrow> slice a n (node_set_ks u v d) = slice a n d"
  "u + 8 \<le> length d \<Longrightarrow> u + 8 \<le> a \<Longrightarrow> slice a n (node_set_ds u v d) = slice a n d"
  "u + 8 \<le> length d \<Longrightarrow> u + 8 \<le> a \<Longrightarrow> slice a n (node_set_pgno u v d) = slice a n d"
  "u + 8 \<le> length d \<Longrightarrow> u + 8 \<le> a \<Longrightarrow> slice a n (node_set_flags u v d) = slice a n d"
  "u + 8 \<le> length d \<Longrightarrow> u + 8 \<le> a \<Longrightarrow> slice a n (node_set_extra u v d) = slice a n d"
  by (simp_all add: node_set_ks_def node_set_ds_def node_set_pgno_def node_set_flags_def node_set_extra_def slice_poke_other)

lemmas node_get_defs = node_ks_def node_ds_def node_flags_def node_pgno_def peek_slice

lemmas node_set_defs = node_set_ks_def node_set_ds_def node_set_pgno_def node_set_flags_def node_set_extra_def

lemma node_get_same [simp]:
  "u + 8 \<le> length d \<Longrightarrow> v < 2 ^ 16 \<Longrightarrow> node_ks (node_set_ks u v d) u = v"
  "u + 8 \<le> length d \<Longrightarrow> v < 2 ^ 32 \<Longrightarrow> node_ds (node_set_ds u v d) u = v"
  "u + 8 \<le> length d \<Longrightarrow> v < 2 ^ 32 \<Longrightarrow> node_pgno (node_set_pgno u v d) u = v"
  "u + 8 \<le> length d \<Longrightarrow> v < 256 \<Longrightarrow> node_flags (node_set_flags u v d) u = v"
  by (simp_all add: node_get_defs node_set_defs slice_poke_same le_value_le_bytes)

lemma node_get_other [simp]:
  assumes "u + 8 \<le> length d"
  shows "node_ks (node_set_ds u v d) u = node_ks d u" "node_ks (node_set_pgno u v d) u = node_ks d u"
    "node_ks (node_set_flags u v d) u = node_ks d u" "node_ks (node_set_extra u v d) u = node_ks d u"
    "node_ds (node_set_ks u v d) u = node_ds d u" "node_ds (node_set_flags u v d) u = node_ds d u" "node_ds (node_set_extra u v d) u = node_ds d u"
    "node_pgno (node_set_ks u v d) u = node_pgno d u" "node_pgno (node_set_flags u v d) u = node_pgno d u"
    "node_pgno (node_set_extra u v d) u = node_pgno d u"
    "node_flags (node_set_ks u v d) u = node_flags d u" "node_flags (node_set_ds u v d) u = node_flags d u"
    "node_flags (node_set_pgno u v d) u = node_flags d u" "node_flags (node_set_extra u v d) u = node_flags d u"
  using assms by (simp_all add: node_get_defs node_set_defs slice_poke_other)

lemma node_get_blit [simp]:
  assumes "u + 8 \<le> a" "a + length src \<le> length d"
  shows "node_ks (blit a src d) u = node_ks d u" "node_ds (blit a src d) u = node_ds d u"
    "node_flags (blit a src d) u = node_flags d u" "node_pgno (blit a src d) u = node_pgno d u"
  using assms by (simp_all add: node_get_defs slice_blit_before)

subsection \<open>Inserting an entry\<close>

lemma sorted_wrt_insert:
  assumes "sorted_wrt R xs" "\<And>x. x \<in> set (take i xs) \<Longrightarrow> R x u" "\<And>x. x \<in> set (drop i xs) \<Longrightarrow> R u x"
  shows "sorted_wrt R (take i xs @ u # drop i xs)"
proof -
  have "sorted_wrt R (take i xs @ drop i xs)" using assms(1) by simp
  then show ?thesis using assms(2,3) by (simp only: sorted_wrt_append sorted_wrt.simps) auto
qed

lemma move_entries_up_insert:
  assumes "indx \<le> n" "n < length es"
  shows "take (Suc n) ((copy_bwd es (indx + 1) indx (n - indx))[indx := u]) = take indx (take n es) @ u # drop indx (take n es)"
proof (rule nth_equalityI)
  show "length (take (Suc n) ((copy_bwd es (indx + 1) indx (n - indx))[indx := u])) = length (take indx (take n es) @ u # drop indx (take n es))"
    using assms by simp
  fix i assume "i < length (take (Suc n) ((copy_bwd es (indx + 1) indx (n - indx))[indx := u]))"
  then have i: "i \<le> n" using assms by simp
  show "take (Suc n) ((copy_bwd es (indx + 1) indx (n - indx))[indx := u]) ! i = (take indx (take n es) @ u # drop indx (take n es)) ! i"
    using assms i by (cases i indx rule: linorder_cases) (auto simp: nth_append nth_copy_bwd nth_list_update nth_Cons' min_def)
qed

text \<open>
  A node of \<open>m\<close> bytes is written before the others; nothing behind the old \<^verbatim>\<open>upper\<close> changes.
\<close>

lemma insert_node:
  assumes wf: "wf_page mp" and indx: "indx \<le> page_numkeys mp"
    and m: "even m" "pg_lower mp + 2 + m \<le> pg_upper mp" and u: "u = pg_upper mp - m"
    and d': "length d' = length (pg_data mp)" "is_bytes d'" "\<And>a n. pg_upper mp \<le> a \<Longrightarrow> slice a n d' = slice a n (pg_data mp)"
      "node_len (is_leaf mp) d' u = m"
    and mp': "mp' = mp\<lparr>pg_lower := pg_lower mp + 2, pg_upper := u,
      pg_entries := (copy_bwd (pg_entries mp) (indx + 1) indx (page_numkeys mp - indx))[indx := u], pg_data := d'\<rparr>"
  shows "wf_page mp'"
    and "page_nodes mp' = take indx (page_nodes mp) @ node_image (is_leaf mp) d' u # drop indx (page_nodes mp)"
    and "page_room mp' + m + 2 = page_room mp"
proof -
  let ?n = "page_numkeys mp" and ?leaf = "is_leaf mp" and ?d = "pg_data mp" and ?es = "used_entries mp"
  have flags: "is_leaf mp' = ?leaf" "is_dupfix_leaf mp' = is_dupfix_leaf mp" by (simp_all add: mp' is_leaf_def is_dupfix_leaf_def)
  have n: "2 * ?n = pg_lower mp" "?n < length (pg_entries mp)"
    using wf_page_numkeys[OF wf] m wf by (auto simp: wf_page_def)
  have num: "page_numkeys mp' = Suc ?n" using n(1) by (simp add: page_numkeys_def mp' drop_bit_eq_div)
  have used: "used_entries mp' = take indx ?es @ u # drop indx ?es"
    unfolding used_entries_def num using move_entries_up_insert[OF indx n(2), of u] by (simp add: mp')
  have wfn: "wf_nodes ?leaf (pg_upper mp) ?es ?d" using wf by (simp add: wf_page_def)
  have ge: "pg_upper mp \<le> e \<and> even e \<and> e + node_len ?leaf ?d e \<le> length ?d" if "e \<in> set ?es" for e
    using wfn that by (simp add: wf_nodes_def list_all_iff)
  have keep: "wf_nodes ?leaf u ?es d' \<and> map (node_image ?leaf d') ?es = map (node_image ?leaf ?d) ?es \<and>
      (\<forall>e \<in> set ?es. node_len ?leaf d' e = node_len ?leaf ?d e)"
  proof -
    have "wf_nodes ?leaf u (map (\<lambda>e. e) ?es) d' \<and> map (node_image ?leaf d') (map (\<lambda>e. e) ?es) = map (node_image ?leaf ?d) ?es \<and>
      (\<forall>e \<in> set ?es. node_len ?leaf d' e = node_len ?leaf ?d e)"
    proof (rule wf_nodes_shift[OF wfn])
      fix e assume "e \<in> set ?es"
      with ge d'(3) show "slice e (node_len ?leaf ?d e) d' = slice e (node_len ?leaf ?d e) ?d" by blast
      from ge[OF \<open>e \<in> set ?es\<close>] show "even e \<and> u \<le> e \<and> e + node_len ?leaf ?d e \<le> length d'"
        using d'(1) u by auto
    qed
    then show ?thesis by simp
  qed
  have up: "u + m = pg_upper mp" using m u by simp
  have "set ?es = set (take indx ?es) \<union> set (drop indx ?es)" by (metis append_take_drop_id set_append)
  then have apart: "apart u m e (node_len ?leaf d' e)" "apart e (node_len ?leaf d' e) u m" if "e \<in> set (take indx ?es) \<or> e \<in> set (drop indx ?es)" for e
    using ge[of e] that up by (auto simp: apart_def)
  have sorted: "sorted_wrt (\<lambda>a b. apart a (node_len ?leaf d' a) b (node_len ?leaf d' b)) (take indx ?es @ u # drop indx ?es)"
    using keep apart d'(4) by (intro sorted_wrt_insert) (simp_all add: wf_nodes_def)
  have "even u" "u + m \<le> length d'" using wf m u d'(1) up by (auto simp: wf_page_def)
  moreover have "\<forall>e \<in> set (take indx ?es) \<union> set (drop indx ?es). even e \<and> u \<le> e \<and> e + node_len ?leaf d' e \<le> length d'"
    using keep by (auto simp: wf_nodes_def list_all_iff dest: in_set_takeD in_set_dropD)
  ultimately have "wf_nodes ?leaf u (take indx ?es @ u # drop indx ?es) d'"
    unfolding wf_nodes_def using sorted d'(4) by (simp add: list_all_iff)
  moreover have lower: "pg_lower mp + 2 \<le> u" "u \<le> length (pg_data mp)" using m u wf by (auto simp: wf_page_def)
  ultimately show "wf_page mp'"
    using wf d' \<open>even u\<close> lower unfolding wf_page_def flags used by (simp add: mp')
  have "page_nodes mp' = map (node_image ?leaf d') (take indx ?es @ u # drop indx ?es)"
    unfolding page_nodes_def flags used by (simp add: mp')
  also have "\<dots> = take indx (map (node_image ?leaf d') ?es) @ node_image ?leaf d' u # drop indx (map (node_image ?leaf d') ?es)"
    by (simp add: take_map drop_map)
  finally show "page_nodes mp' = take indx (page_nodes mp) @ node_image ?leaf d' u # drop indx (page_nodes mp)"
    using keep by (simp add: page_nodes_def)
  show "page_room mp' + m + 2 = page_room mp" using m u by (simp add: page_room_def mp')
qed

subsection \<open>The entry stored behind the others\<close>

lemma store_behind_fields [simp]:
  "pg_lower (store_behind indx mp) = pg_lower mp" "pg_upper (store_behind indx mp) = pg_upper mp"
  "pg_entries (store_behind indx mp) = pg_entries mp" "pg_flags (store_behind indx mp) = pg_flags mp"
  "is_leaf (store_behind indx mp) = is_leaf mp" "is_dupfix_leaf (store_behind indx mp) = is_dupfix_leaf mp"
  "page_numkeys (store_behind indx mp) = page_numkeys mp" "page_room (store_behind indx mp) = page_room mp"
  "used_entries (store_behind indx mp) = used_entries mp"
  by (simp_all add: store_behind_def Let_def is_leaf_def is_dupfix_leaf_def page_numkeys_def page_room_def used_entries_def)

text \<open>With room for an entry it lies in the gap, and the page stands for the same nodes.\<close>

lemma store_behind_gap:
  assumes wf: "wf_page mp" and room: "2 \<le> page_room mp"
  shows "pg_upper mp \<le> a \<Longrightarrow> slice a n (pg_data (store_behind indx mp)) = slice a n (pg_data mp)"
    "length (pg_data (store_behind indx mp)) = length (pg_data mp)"
    "wf_page (store_behind indx mp)" "page_nodes (store_behind indx mp) = page_nodes mp"
proof -
  let ?mp = "store_behind indx mp"
  have at: "2 * page_numkeys mp + 2 \<le> pg_upper mp" "pg_upper mp \<le> length (pg_data mp)"
    using wf_page_numkeys[OF wf] wf room by (auto simp: wf_page_def page_room_def)
  show len: "length (pg_data ?mp) = length (pg_data mp)" using at by (simp add: store_behind_def Let_def)
  have same: "slice a n (pg_data ?mp) = slice a n (pg_data mp)" if "pg_upper mp \<le> a" for a n
    using that at by (simp add: store_behind_def Let_def slice_poke_other)
  then show "pg_upper mp \<le> a \<Longrightarrow> slice a n (pg_data ?mp) = slice a n (pg_data mp)" by simp
  have wfn: "wf_nodes (is_leaf mp) (pg_upper mp) (used_entries mp) (pg_data mp)" using wf by (simp add: wf_page_def)
  have "wf_nodes (is_leaf mp) (pg_upper mp) (map (\<lambda>e. e) (used_entries mp)) (pg_data ?mp) \<and>
      map (node_image (is_leaf mp) (pg_data ?mp)) (map (\<lambda>e. e) (used_entries mp)) = map (node_image (is_leaf mp) (pg_data mp)) (used_entries mp) \<and>
      (\<forall>e \<in> set (used_entries mp). node_len (is_leaf mp) (pg_data ?mp) e = node_len (is_leaf mp) (pg_data mp) e)"
    by (rule wf_nodes_shift[OF wfn]) (use wfn same len in \<open>auto simp: wf_nodes_def list_all_iff\<close>)
  then have shift: "wf_nodes (is_leaf mp) (pg_upper mp) (used_entries mp) (pg_data ?mp)"
    "map (node_image (is_leaf mp) (pg_data ?mp)) (used_entries mp) = map (node_image (is_leaf mp) (pg_data mp)) (used_entries mp)" by simp_all
  have "is_bytes (pg_data ?mp)" using wf by (simp add: wf_page_def store_behind_def Let_def)
  then show "wf_page ?mp" using wf shift(1) len by (simp add: wf_page_def)
  show "page_nodes ?mp = page_nodes mp" using shift(2) by (simp add: page_nodes_def)
qed

text \<open>What the bytes behind the gap are after it, with room and without.\<close>

lemma store_behind_nodes:
  assumes wf: "wf_page mp"
  shows "drop (pg_upper mp) (pg_data (store_behind indx mp)) =
    (if pg_lower mp = pg_upper mp \<and> indx < page_numkeys mp
     then le_bytes 2 (page_node mp (page_numkeys mp - 1)) @ drop (pg_upper mp + 2) (pg_data mp)
     else drop (pg_upper mp) (pg_data mp))"
proof (cases "pg_lower mp = pg_upper mp")
  case True
  then have "2 * page_numkeys mp = pg_upper mp" "pg_upper mp \<le> length (pg_data mp)"
    using wf_page_numkeys[OF wf] wf by (auto simp: wf_page_def)
  then show ?thesis using True by (simp add: store_behind_def Let_def poke_def blit_def)
next
  case False
  moreover have "even (pg_lower mp)" "even (pg_upper mp)" "pg_lower mp \<le> pg_upper mp" using wf by (simp_all add: wf_page_def)
  ultimately have room: "2 \<le> page_room mp" unfolding page_room_def by presburger
  have whole: "drop a d = slice a (length d - a) d" for a and d :: bytes by (simp add: slice_def)
  show ?thesis using False store_behind_gap(1,2)[OF wf room, where indx = indx] by (simp add: whole)
qed

end
