(* ===== verification/Page_Ops.thy ===== *)
theory Page_Ops
  imports Page_Wf Limits
begin

text \<open>
  The operations on pages, over the list a page stands for: adding a node to a leaf or a branch inserts it, deleting
  one removes it, pages of values of one size are lists of values; every code of an insertion; and a value that was
  added is read back. \<open>leaf_node\<close> and \<open>branch_node\<close> are the views of a node the properties are stated with.
\<close>

unbundle bit_operations_syntax

subsection \<open>Adding a node to a leaf\<close>

text \<open>
  What a node of a leaf stands for: its key, flags, the size of its value, and the bytes behind the key: the value or the
  number of the large page.
\<close>

type_synonym leaf_node = "bytes \<times> nat \<times> nat \<times> bytes"

definition leaf_node :: "bytes \<Rightarrow> nat \<Rightarrow> leaf_node" where
  "leaf_node d node = (get_key d node, node_flags d node, node_ds d node,
     slice (node_data d node) (if node_flags d node AND N_BIG \<noteq> 0 then sizeof_pgno else node_ds d node) d)"

definition page_leaves :: "page \<Rightarrow> leaf_node list" where
  "page_leaves mp = map (leaf_node (pg_data mp)) (used_entries mp)"

lemma leaf_node_image: "leaf_node d node = leaf_node (node_image True d node) 0"
proof -
  let ?i = "node_image True d node"
  have len: "8 + node_ks d node + (if node_flags d node AND N_BIG \<noteq> 0 then sizeof_pgno else node_ds d node) \<le> node_len True d node"
    using EVEN_CEIL_le(2) by (simp add: node_len_def NODESIZE_def)
  have s: "slice i m ?i = slice (node + i) m d" if "i + m \<le> node_len True d node" for i m
    unfolding node_image_def by (rule slice_slice[OF that])
  have "slice 0 8 ?i = slice node 8 d" using s[of 0 8] node_len_ge(1) by simp
  note h = node_header_slice[OF this]
  have "slice 8 (node_ks d node) ?i = slice (node + 8) (node_ks d node) d" using len by (intro s) simp
  moreover have "slice (8 + node_ks d node) (if node_flags d node AND N_BIG \<noteq> 0 then sizeof_pgno else node_ds d node) ?i =
      slice (node + (8 + node_ks d node)) (if node_flags d node AND N_BIG \<noteq> 0 then sizeof_pgno else node_ds d node) d"
    using len by (intro s) simp
  ultimately show ?thesis
    by (simp add: leaf_node_def h get_key_def node_key_def node_data_def NODESIZE_def add.assoc split: if_splits flip: slice_def)
qed

lemma page_leaves_nodes: "is_leaf mp \<Longrightarrow> page_leaves mp = map (\<lambda>i. leaf_node i 0) (page_nodes mp)"
  by (simp add: page_leaves_def page_nodes_def o_def flip: leaf_node_image)

lemma blit_slice: "a + n \<le> length d \<Longrightarrow> blit a (slice a n d) d = d"
  by (simp add: blit_def slice_def flip: drop_drop) (metis append_take_drop_id drop_drop add.commute)

text \<open>The header of a node, its key and the bytes behind it, as they are written.\<close>

definition leaf_bytes :: "nat \<Rightarrow> bytes \<Rightarrow> nat \<Rightarrow> nat \<Rightarrow> bytes \<Rightarrow> bytes \<Rightarrow> bytes" where
  "leaf_bytes u key flags ds payload d =
     blit (u + 8 + length key) payload
       (blit (u + 8) key (node_set_ds u ds (node_set_extra u 0 (node_set_flags u flags (node_set_ks u (length key) d)))))"

lemma leaf_bytes_reads:
  assumes fits: "u + 8 + length key + length payload \<le> length d"
    and small: "length key < 2 ^ 16" "ds < 2 ^ 32" "flags < 256"
  defines "d' \<equiv> leaf_bytes u key flags ds payload d"
  shows "length d' = length d" "node_ks d' u = length key" "node_flags d' u = flags" "node_ds d' u = ds"
    "get_key d' u = key" "slice (node_data d' u) (length payload) d' = payload"
    "u + 8 + length key + length payload \<le> a \<Longrightarrow> slice a n d' = slice a n d"
proof -
  show get: "node_ks d' u = length key" "node_flags d' u = flags" "node_ds d' u = ds" and len: "length d' = length d"
    using fits small by (simp_all add: d'_def leaf_bytes_def)
  show "get_key d' u = key" using fits
    unfolding get_key_def get node_key_def NODESIZE_def slice_def[symmetric]
    by (simp add: d'_def leaf_bytes_def slice_blit_before slice_blit_same)
  show "slice (node_data d' u) (length payload) d' = payload" using fits
    unfolding node_data_def get node_key_def NODESIZE_def by (simp add: d'_def leaf_bytes_def slice_blit_same)
  assume "u + 8 + length key + length payload \<le> a"
  then show "slice a n d' = slice a n d" using fits by (simp add: d'_def leaf_bytes_def slice_blit_behind)
qed

lemma leaf_bytes_is_bytes: "is_bytes d \<Longrightarrow> is_bytes key \<Longrightarrow> is_bytes payload \<Longrightarrow> is_bytes (leaf_bytes u key flags ds payload d)"
  by (simp add: leaf_bytes_def)

lemma write_leaf_page:
  assumes "u = page_node mp indx" "u + 8 \<le> length (pg_data mp)" "length key < 2 ^ 16" "u + 8 + length key + length payload \<le> length (pg_data mp)"
    and res: "largepage = None \<Longrightarrow> flags AND N_BIG = 0 \<Longrightarrow> u + 8 + length key + data_len \<le> length (pg_data mp)"
    and payload: "payload = (case largepage of Some pgno \<Rightarrow> le_bytes 4 pgno
      | None \<Rightarrow> if flags AND N_BIG \<noteq> 0 then take 4 data
                else if flags AND MDBX_RESERVE \<noteq> 0 then slice (u + 8 + length key) data_len (pg_data mp) else take data_len data)"
    and r: "r = write_leaf mp indx key data_len data flags largepage"
  shows "ad_rc r = MDBX_SUCCESS \<and> \<not> ad_txn_error r \<and>
    ad_page r = mp\<lparr>pg_data := leaf_bytes u key (flags mod 256) data_len payload (pg_data mp)\<rparr> \<and>
    ad_large r = (case largepage of None \<Rightarrow> None | Some pgno \<Rightarrow> Some (pgno, if flags AND MDBX_RESERVE \<noteq> 0 then [] else take data_len data))"
proof -
  let ?d = "node_set_ds u data_len (node_set_extra u 0 (node_set_flags u (flags mod 256) (node_set_ks u (length key) (pg_data mp))))"
  have len: "length ?d = length (pg_data mp)" using assms(2) by simp
  have nd: "node_data (blit (u + 8) key ?d) u = u + 8 + length key"
    using assms len by (simp add: node_data_def node_key_def NODESIZE_def)
  have keep: "blit (u + 8 + length key) (slice (u + 8 + length key) n (pg_data mp)) (blit (u + 8) key ?d) = blit (u + 8) key ?d"
    if "u + 8 + length key + n \<le> length (pg_data mp)" for n
  proof -
    have "slice (u + 8 + length key) n (blit (u + 8) key ?d) = slice (u + 8 + length key) n (pg_data mp)"
      using assms(2,4) len by (simp add: slice_blit_behind)
    then show ?thesis using blit_slice[of "u + 8 + length key" n "blit (u + 8) key ?d"] assms(2,4) len that by simp
  qed
  show ?thesis
    using res keep unfolding r write_leaf_def Let_def assms(1)[symmetric] node_key_def NODESIZE_def nd
    by (simp add: payload leaf_bytes_def finished_def poke_def nd split: option.split)
qed

text \<open>What lies behind the key of the new node.\<close>

definition leaf_payload :: "page \<Rightarrow> nat \<Rightarrow> bytes \<Rightarrow> nat \<Rightarrow> bytes \<Rightarrow> nat \<Rightarrow> pgno option \<Rightarrow> bytes" where
  "leaf_payload mp u key data_len data flags largepage =
     (case largepage of Some pgno \<Rightarrow> le_bytes 4 pgno
      | None \<Rightarrow> if flags AND N_BIG \<noteq> 0 then take 4 data
                else if flags AND MDBX_RESERVE \<noteq> 0 then slice (u + 8 + length key) data_len (pg_data mp) else take data_len data)"

lemma N_BIG_mod: "(flags mod 256) AND N_BIG = flags AND N_BIG"
  by (simp add: N_BIG_def and_one_eq mod_mod_cancel)

text \<open>The insertion once the room is known: the entries are moved, the node is written.\<close>

definition insert_room :: "page \<Rightarrow> nat \<Rightarrow> nat \<Rightarrow> bytes \<Rightarrow> nat \<Rightarrow> bytes \<Rightarrow> nat \<Rightarrow> pgno option \<Rightarrow> added" where
  "insert_room mp indx node_bytes key data_len data flags largepage =
     write_leaf (mp\<lparr>pg_lower := nat (int (pg_lower mp) + 2), pg_upper := nat (int (pg_upper mp) - (int node_bytes - 2)),
             pg_entries := (copy_bwd (pg_entries mp) (indx + 1) indx (page_numkeys mp - indx))
               [indx := nat (int (pg_upper mp) - (int node_bytes - 2))]\<rparr>) indx key data_len data flags largepage"

lemma insert_leaf_unfold:
  "insert_leaf mp indx node_bytes key data_len data flags largepage =
     (if int (pg_upper mp) - (int node_bytes - 2) < int (pg_lower mp) + 2 then full (move_entries_up indx mp)
      else insert_room (store_behind indx mp) indx node_bytes key data_len data flags largepage)"
  by (simp add: insert_leaf_def insert_room_def move_entries_up_def Let_def)

lemma insert_room_spec:
  assumes wf: "wf_page mp" "is_leaf mp" and indx: "indx \<le> page_numkeys mp"
    and kd: "is_bytes key" "is_bytes data" "length key < 2 ^ 16" "data_len < 2 ^ 32"
    and big: "largepage \<noteq> None \<Longrightarrow> flags AND N_BIG \<noteq> 0"
    and given: "largepage = None \<Longrightarrow> flags AND N_BIG \<noteq> 0 \<Longrightarrow> length data = 4"
    and node_bytes: "node_bytes = EVEN_CEIL (8 + length key + (if flags AND N_BIG \<noteq> 0 then sizeof_pgno else data_len)) + 2"
    and data: "flags AND N_BIG = 0 \<Longrightarrow> flags AND MDBX_RESERVE = 0 \<Longrightarrow> length data = data_len"
    and room: "node_bytes \<le> page_room mp"
    and r: "r = insert_room mp indx node_bytes key data_len data flags largepage"
    and u: "u = pg_upper mp + 2 - node_bytes"
  shows "ad_rc r = MDBX_SUCCESS" "\<not> ad_txn_error r" "wf_page (ad_page r)" "is_leaf (ad_page r)"
    "page_leaves (ad_page r) = take indx (page_leaves mp) @
       (key, flags mod 256, data_len, leaf_payload mp u key data_len data flags largepage) # drop indx (page_leaves mp)"
    "page_room (ad_page r) + node_bytes = page_room mp"
    "ad_large r = (case largepage of None \<Rightarrow> None | Some pgno \<Rightarrow> Some (pgno, if flags AND MDBX_RESERVE \<noteq> 0 then [] else take data_len data))"
    "page_node (ad_page r) indx = u"
proof -
  let ?d = "pg_data mp" and ?p = "leaf_payload mp u key data_len data flags largepage"
    and ?plen = "if flags AND N_BIG \<noteq> 0 then sizeof_pgno else data_len"
  let ?d' = "leaf_bytes u key (flags mod 256) data_len ?p ?d" and ?m = "node_bytes - 2"
  have n: "page_numkeys mp < length (pg_entries mp)"
    using wf_page_numkeys[OF wf(1)] wf room node_bytes EVEN_CEIL_le(2)[of "8 + length key + ?plen"]
    by (auto simp: wf_page_def page_room_def)
  have m: "even ?m" "8 + length key + ?plen \<le> ?m" "?m + 2 = node_bytes"
    using EVEN_CEIL_le(2,3)[of "8 + length key + ?plen"] node_bytes by auto
  have up: "pg_lower mp + 2 + ?m \<le> pg_upper mp" "u + ?m = pg_upper mp" "u = pg_upper mp - ?m" "pg_upper mp \<le> length ?d"
    using room m wf u by (auto simp: page_room_def wf_page_def)
  have fits: "u + 8 + length key + ?plen \<le> length ?d" using up m by linarith
  have plen: "length ?p = ?plen"
    using fits given big data by (auto simp: leaf_payload_def sizeof_pgno_def split: option.splits)
  let ?mp = "mp\<lparr>pg_lower := pg_lower mp + 2, pg_upper := u,
    pg_entries := (copy_bwd (pg_entries mp) (indx + 1) indx (page_numkeys mp - indx))[indx := u]\<rparr>"
  have ins: "r = write_leaf ?mp indx key data_len data flags largepage"
  proof -
    have "nat (int (pg_lower mp) + 2) = pg_lower mp + 2" "nat (int (pg_upper mp) - (int node_bytes - 2)) = u"
      using up m by linarith+
    then show ?thesis unfolding r insert_room_def by simp
  qed
  have w: "ad_rc r = MDBX_SUCCESS \<and> \<not> ad_txn_error r \<and> ad_page r = ?mp\<lparr>pg_data := leaf_bytes u key (flags mod 256) data_len ?p (pg_data ?mp)\<rparr> \<and>
    ad_large r = (case largepage of None \<Rightarrow> None | Some pgno \<Rightarrow> Some (pgno, if flags AND MDBX_RESERVE \<noteq> 0 then [] else take data_len data))"
  proof (rule write_leaf_page[OF _ _ kd(3) _ _ _ ins])
    show "u = page_node ?mp indx" using indx n by (simp add: page_node_def)
  qed (use fits plen in \<open>auto simp: leaf_payload_def split: option.splits\<close>)
  then show "ad_rc r = MDBX_SUCCESS" "\<not> ad_txn_error r" 
    "ad_large r = (case largepage of None \<Rightarrow> None | Some pgno \<Rightarrow> Some (pgno, if flags AND MDBX_RESERVE \<noteq> 0 then [] else take data_len data))"
    by simp_all
  note reads = leaf_bytes_reads[of u key ?p ?d data_len "flags mod 256", unfolded plen, OF fits kd(3,4)]
  have bytes: "is_bytes ?p" using kd wf by (auto simp: leaf_payload_def slice_def wf_page_def split: option.split)
  have mp': "ad_page r = mp\<lparr>pg_lower := pg_lower mp + 2, pg_upper := u,
      pg_entries := (copy_bwd (pg_entries mp) (indx + 1) indx (page_numkeys mp - indx))[indx := u], pg_data := ?d'\<rparr>"
    using w by simp
  have len: "node_len (is_leaf mp) ?d' u = ?m"
    using wf m node_bytes reads(2-4) by (simp add: node_len_def NODESIZE_def N_BIG_mod)
  have same: "slice a n ?d' = slice a n ?d" if "pg_upper mp \<le> a" for a n
    using that up m by (intro reads(7)) auto
  note node = insert_node[OF wf(1) indx m(1) up(1,3) _ _ same len mp']
  show "wf_page (ad_page r)" using bytes kd wf reads(1) by (intro node) (simp_all add: leaf_bytes_is_bytes wf_page_def)
  show leaf: "is_leaf (ad_page r)" using wf by (simp add: mp' is_leaf_def)
  have "page_room (ad_page r) + ?m + 2 = page_room mp" using bytes kd wf reads(1) by (intro node) (simp_all add: leaf_bytes_is_bytes wf_page_def)
  then show "page_room (ad_page r) + node_bytes = page_room mp" using m by simp
  show "page_node (ad_page r) indx = u" using indx n by (simp add: page_node_def mp')
  have "page_nodes (ad_page r) = take indx (page_nodes mp) @ node_image (is_leaf mp) ?d' u # drop indx (page_nodes mp)"
    using bytes kd wf reads(1) by (intro node) (simp_all add: leaf_bytes_is_bytes wf_page_def)
  moreover have "leaf_node ?d' u = (key, flags mod 256, data_len, ?p)"
    using reads(2-6) by (auto simp: leaf_node_def N_BIG_mod)
  then have "leaf_node (node_image (is_leaf mp) ?d' u) 0 = (key, flags mod 256, data_len, ?p)"
    using wf leaf_node_image[of ?d' u] by simp
  ultimately show "page_leaves (ad_page r) = take indx (page_leaves mp) @ (key, flags mod 256, data_len, ?p) # drop indx (page_leaves mp)"
    using page_leaves_nodes[OF leaf] page_leaves_nodes[OF wf(2)] by (simp add: take_map drop_map)
qed

lemma page_leaves_store_behind:
  assumes "wf_page mp" "2 \<le> page_room mp"
  shows "is_leaf mp \<Longrightarrow> page_leaves (store_behind indx mp) = page_leaves mp"
  using page_leaves_nodes[of mp] page_leaves_nodes[of "store_behind indx mp"] store_behind_gap(4)[OF assms] by simp

lemma insert_leaf_spec:
  assumes wf: "wf_page mp" "is_leaf mp" and indx: "indx \<le> page_numkeys mp"
    and kd: "is_bytes key" "is_bytes data" "length key < 2 ^ 16" "data_len < 2 ^ 32"
    and big: "largepage \<noteq> None \<Longrightarrow> flags AND N_BIG \<noteq> 0"
    and given: "largepage = None \<Longrightarrow> flags AND N_BIG \<noteq> 0 \<Longrightarrow> length data = 4"
    and node_bytes: "node_bytes = EVEN_CEIL (8 + length key + (if flags AND N_BIG \<noteq> 0 then sizeof_pgno else data_len)) + 2"
    and data: "flags AND N_BIG = 0 \<Longrightarrow> flags AND MDBX_RESERVE = 0 \<Longrightarrow> length data = data_len"
    and room: "node_bytes \<le> page_room mp"
    and r: "r = insert_leaf mp indx node_bytes key data_len data flags largepage"
    and u: "u = pg_upper mp + 2 - node_bytes"
  shows "ad_rc r = MDBX_SUCCESS" "\<not> ad_txn_error r" "wf_page (ad_page r)" "is_leaf (ad_page r)"
    "page_leaves (ad_page r) = take indx (page_leaves mp) @
       (key, flags mod 256, data_len, leaf_payload mp u key data_len data flags largepage) # drop indx (page_leaves mp)"
    "page_room (ad_page r) + node_bytes = page_room mp"
    "ad_large r = (case largepage of None \<Rightarrow> None | Some pgno \<Rightarrow> Some (pgno, if flags AND MDBX_RESERVE \<noteq> 0 then [] else take data_len data))"
    "page_node (ad_page r) indx = u"
proof -
  let ?plen = "if flags AND N_BIG \<noteq> 0 then sizeof_pgno else data_len"
  have m: "8 + length key + ?plen + 2 \<le> node_bytes" using EVEN_CEIL_le(2)[of "8 + length key + ?plen"] node_bytes by simp
  have gap: "2 \<le> page_room mp" using m room by simp
  have "\<not> int (pg_upper mp) - (int node_bytes - 2) < int (pg_lower mp) + 2"
    using room m wf unfolding page_room_def wf_page_def by linarith
  then have r': "r = insert_room (store_behind indx mp) indx node_bytes key data_len data flags largepage"
    unfolding r insert_leaf_unfold by (simp only: if_False)
  note spec = insert_room_spec[OF store_behind_gap(3)[OF wf(1) gap], unfolded store_behind_fields,
    OF wf(2) indx kd big given node_bytes data room r' u]
  have free: "slice (u + 8 + length key) data_len (pg_data (store_behind indx mp)) = slice (u + 8 + length key) data_len (pg_data mp)"
    if "flags AND N_BIG = 0"
  proof -
    have "2 * page_numkeys mp + 2 \<le> u + 8 + length key"
      using wf_page_numkeys[OF wf(1)] room u m by (auto simp: page_room_def)
    moreover have "2 * page_numkeys mp + 2 \<le> length (pg_data mp)"
      using wf_page_numkeys[OF wf(1)] gap wf(1) by (auto simp: page_room_def wf_page_def)
    ultimately show ?thesis by (simp add: store_behind_def Let_def slice_poke_other)
  qed
  have payload: "leaf_payload (store_behind indx mp) u key data_len data flags largepage = leaf_payload mp u key data_len data flags largepage"
    using free by (auto simp: leaf_payload_def split: option.split)
  show "ad_rc r = MDBX_SUCCESS" "\<not> ad_txn_error r" "wf_page (ad_page r)" "is_leaf (ad_page r)"
    "page_room (ad_page r) + node_bytes = page_room mp" "page_node (ad_page r) indx = u"
    "ad_large r = (case largepage of None \<Rightarrow> None | Some pgno \<Rightarrow> Some (pgno, if flags AND MDBX_RESERVE \<noteq> 0 then [] else take data_len data))"
    using spec by blast+
  show "page_leaves (ad_page r) = take indx (page_leaves mp) @
       (key, flags mod 256, data_len, leaf_payload mp u key data_len data flags largepage) # drop indx (page_leaves mp)"
    using spec(5) unfolding payload page_leaves_store_behind[OF wf(1) gap wf(2)] .
qed

lemma insert_leaf_success:
  "ad_rc (insert_leaf mp indx node_bytes key data_len data flags largepage) = MDBX_SUCCESS \<Longrightarrow> node_bytes \<le> page_room mp"
  unfolding insert_leaf_unfold page_room_def
  by (cases "int (pg_upper mp) - (int node_bytes - 2) < int (pg_lower mp) + 2")
    (simp_all add: full_def finished_def MDBX_PAGE_FULL_def MDBX_SUCCESS_def)

lemma node_bytes_eqs:
  "node_size_len k 0 + sizeof_pgno + sizeof_indx = EVEN_CEIL (8 + k + sizeof_pgno) + 2"
  "node_size_len k v + sizeof_indx = EVEN_CEIL (8 + k + v) + 2"
  unfolding node_size_len_def EVEN_CEIL_def NODESIZE_def sizeof_pgno_def sizeof_indx_def by presburger+

text \<open>The three ways to insert: the node's flags, the large page, the bytes needed.\<close>

definition goes_large :: "env \<Rightarrow> bytes \<Rightarrow> nat \<Rightarrow> nat \<Rightarrow> bool" where
  "goes_large env key data_len flags \<longleftrightarrow> flags AND N_BIG = 0 \<and> env_leaf_nodemax env < node_size_len (length key) data_len"

lemma node_add_leaf_cases:
  assumes "r = node_add_leaf env tree_flags new_large mp indx key data_len data flags"
  obtains (small) "\<not> goes_large env key data_len flags"
      "r = insert_leaf mp indx (EVEN_CEIL (8 + length key + (if flags AND N_BIG \<noteq> 0 then sizeof_pgno else data_len)) + 2) key data_len data flags None"
  | (large) pgno where "goes_large env key data_len flags" "new_large (largechunk_npages env data_len) = (MDBX_SUCCESS, pgno)"
      "flags AND (N_DUP OR N_TREE) = 0" "\<not> has_flag tree_flags MDBX_DUPSORT"
      "r = insert_leaf mp indx (EVEN_CEIL (8 + length key + sizeof_pgno) + 2) key data_len data (flags OR N_BIG) (Some pgno)"
  | (error) "goes_large env key data_len flags" "r = finished (ad_rc r) mp" "ad_rc r \<noteq> MDBX_SUCCESS"
      "ad_rc r = (if has_flag tree_flags MDBX_DUPSORT \<or> flags AND (N_DUP OR N_TREE) \<noteq> 0 then MDBX_PROBLEM
        else fst (new_large (largechunk_npages env data_len)))"
proof (cases "goes_large env key data_len flags")
  case False
  then show thesis using that(1) assms
    unfolding node_add_leaf_def Let_def node_bytes_eqs goes_large_def by (auto split: if_splits)
next
  case True
  then have b: "flags AND N_BIG = 0" "env_leaf_nodemax env < node_size_len (length key) data_len" by (simp_all add: goes_large_def)
  obtain err pgno where e: "new_large (largechunk_npages env data_len) = (err, pgno)" by fastforce
  show thesis
  proof (cases "has_flag tree_flags MDBX_DUPSORT \<or> flags AND (N_DUP OR N_TREE) \<noteq> 0")
    case True
    then have "r = finished MDBX_PROBLEM mp" using assms b unfolding node_add_leaf_def Let_def by (auto split: if_splits)
    then show thesis using True by (intro that(3)[OF \<open>goes_large env key data_len flags\<close>]) (simp_all add: finished_def MDBX_PROBLEM_def MDBX_SUCCESS_def)
  next
    case nodup: False
    show thesis
    proof (cases "err = MDBX_SUCCESS")
      case ok: True
      have "r = insert_leaf mp indx (EVEN_CEIL (8 + length key + sizeof_pgno) + 2) key data_len data (flags OR N_BIG) (Some pgno)"
        unfolding assms node_add_leaf_def Let_def node_bytes_eqs using b nodup e ok by simp
      then show thesis using that(2) True nodup e ok by simp
    next
      case bad: False
      have "r = finished err mp" unfolding assms node_add_leaf_def Let_def using b nodup e bad by simp
      then show thesis using nodup e bad True by (intro that(3)) (simp_all add: finished_def)
    qed
  qed
qed

lemma or_N_BIG: "(flags OR N_BIG) AND N_BIG \<noteq> 0" by (simp add: N_BIG_def and_one_eq mod2_eq_if even_or_iff)

lemma RESERVE_N_BIG: "(flags OR N_BIG) AND MDBX_RESERVE = flags AND MDBX_RESERVE"
proof (rule bit_eqI)
  fix n
  have "\<not> (bit N_BIG n \<and> bit MDBX_RESERVE n)" by (cases n) (simp_all add: N_BIG_def MDBX_RESERVE_def bit_0 bit_Suc_0_iff)
  then show "bit ((flags OR N_BIG) AND MDBX_RESERVE) n = bit (flags AND MDBX_RESERVE) n" by (auto simp: bit_and_iff bit_or_iff)
qed

lemma node_add_leaf_spec:
  assumes wf: "wf_page mp" "is_leaf mp" and indx: "indx \<le> page_numkeys mp"
    and key: "is_bytes key" "is_bytes data" "length key < 2 ^ 16" "data_len < 2 ^ 32"
    and data: "flags AND MDBX_RESERVE = 0" "length data = (if flags AND N_BIG \<noteq> 0 then 4 else data_len)"
    and r: "r = node_add_leaf env tree_flags new_large mp indx key data_len data flags" and ok: "ad_rc r = MDBX_SUCCESS"
    and entry: "entry = (if goes_large env key data_len flags
      then (key, (flags OR N_BIG) mod 256, data_len, le_bytes 4 (snd (new_large (largechunk_npages env data_len))))
      else (key, flags mod 256, data_len, data))"
  shows "wf_page (ad_page r) \<and> page_leaves (ad_page r) = take indx (page_leaves mp) @ entry # drop indx (page_leaves mp) \<and>
    page_room (ad_page r) + (if flags AND N_BIG \<noteq> 0 then node_size_len (length key) 0 + sizeof_pgno + sizeof_indx
      else leaf_size env (length key) data_len) = page_room mp \<and>
    ad_large r = (if goes_large env key data_len flags then Some (snd (new_large (largechunk_npages env data_len)), take data_len data) else None) \<and> is_leaf (ad_page r)"
  using r
proof (cases rule: node_add_leaf_cases)
  case small
  note spec = insert_leaf_spec[OF wf indx key, of None flags, OF _ _ refl _ insert_leaf_success small(2) refl]
  show ?thesis using spec(3-7) small data ok
    by (simp add: entry leaf_payload_def goes_large_def leaf_size_def node_bytes_eqs split: if_splits)
next
  case (large pgno)
  note spec = insert_leaf_spec[OF wf indx key, of "Some pgno" "flags OR N_BIG", OF _ _ _ _ insert_leaf_success large(5) refl]
  show ?thesis using spec(3-7) large data ok or_N_BIG[of flags] RESERVE_N_BIG[of flags]
    by (simp add: entry leaf_payload_def goes_large_def leaf_size_def node_bytes_eqs split: if_splits)
next
  case error
  then show ?thesis using ok by simp
qed

text \<open>
  C25. What \<^verbatim>\<open>node_add_leaf\<close> does when it succeeds: the page stays well-formed, and the list of its nodes has one
  more, at the index given, with the key, the size of the value, and the value itself or the number of the large page
  that was allocated for it; exactly the bytes accounted for are gone from the room. The nodes that were there are as
  they were.
\<close>

theorem node_add_leaf_inserts:
  assumes wf: "wf_page mp" "is_leaf mp" and indx: "indx \<le> page_numkeys mp"
    and key: "is_bytes key" "is_bytes data" "length key < 2 ^ 16" "data_len < 2 ^ 32"
    and data: "flags AND MDBX_RESERVE = 0" "length data = (if flags AND N_BIG \<noteq> 0 then 4 else data_len)"
    and r: "r = node_add_leaf env tree_flags new_large mp indx key data_len data flags" and ok: "ad_rc r = MDBX_SUCCESS"
    and entry: "entry = (if goes_large env key data_len flags
      then (key, (flags OR N_BIG) mod 256, data_len, le_bytes 4 (snd (new_large (largechunk_npages env data_len))))
      else (key, flags mod 256, data_len, data))"
  shows "wf_page (ad_page r) \<and> page_leaves (ad_page r) = take indx (page_leaves mp) @ entry # drop indx (page_leaves mp) \<and>
    page_room (ad_page r) + (if flags AND N_BIG \<noteq> 0 then node_size_len (length key) 0 + sizeof_pgno + sizeof_indx
      else leaf_size env (length key) data_len) = page_room mp"
  using node_add_leaf_spec[OF assms] by simp

subsection \<open>Deleting a node\<close>

definition shifted :: "nat \<Rightarrow> nat \<Rightarrow> nat \<Rightarrow> nat" where
  "shifted hole_offset hole_size e = (if e < hole_offset then e + hole_size else e)"

lemma length_del_entries [simp]: "length (del_entries hole off sz es r w n) = length es"
  by (induction n arbitrary: es r w) simp_all

lemma del_entries_run:
  assumes "w \<le> r" "r + n \<le> length es" "hole < r \<or> r + n \<le> hole"
  shows "take (w + n) (del_entries hole off sz es r w n) = take w es @ map (shifted off sz) (take n (drop r es)) \<and>
    drop (w + n) (del_entries hole off sz es r w n) = drop (w + n) es"
  using assms
proof (induction n arbitrary: es r w)
  case 0 then show ?case by simp
next
  case (Suc n)
  let ?es = "es[w := shifted off sz (es ! r)]"
  have "take (Suc w + n) (del_entries hole off sz ?es (Suc r) (Suc w) n) = take (Suc w) ?es @ map (shifted off sz) (take n (drop (Suc r) ?es)) \<and>
    drop (Suc w + n) (del_entries hole off sz ?es (Suc r) (Suc w) n) = drop (Suc w + n) ?es"
    using Suc.prems by (intro Suc.IH) auto
  moreover have "take (Suc w) ?es = take w es @ [shifted off sz (es ! r)]"
    using Suc.prems by (simp add: take_Suc_conv_app_nth)
  moreover have "drop (Suc r) ?es = drop (Suc r) es" "drop (Suc w + n) ?es = drop (Suc w + n) es" using Suc.prems by simp_all
  moreover have "take (Suc n) (drop r es) = es ! r # take n (drop (Suc r) es)" using Suc.prems by (simp add: Cons_nth_drop_Suc[symmetric])
  moreover have "r \<noteq> hole" using Suc.prems by auto
  ultimately show ?case by (simp add: shifted_def)
qed

lemma del_entries_add:
  "r + a \<le> hole \<Longrightarrow> del_entries hole off sz es r w (a + b) = del_entries hole off sz (del_entries hole off sz es r w a) (r + a) (w + a) b"
proof (induction a arbitrary: es r w)
  case (Suc a)
  then have "r \<noteq> hole" by simp
  then show ?case using Suc by simp
qed simp

lemma del_entries_deletes:
  assumes "hole < n" "n \<le> length es"
  shows "take (n - 1) (del_entries hole off sz es 0 0 n) = map (shifted off sz) (take hole es @ drop (Suc hole) (take n es))"
proof -
  let ?b = "n - Suc hole"
  let ?one = "del_entries hole off sz es 0 0 hole"
  have one: "take hole ?one = map (shifted off sz) (take hole es)" "drop hole ?one = drop hole es"
    using del_entries_run[of 0 0 hole es hole off sz] assms by simp_all
  have "del_entries hole off sz es 0 0 n = del_entries hole off sz ?one hole hole (Suc ?b)"
    using del_entries_add[of 0 hole hole off sz es 0 "Suc ?b"] assms by simp
  also have "\<dots> = del_entries hole off sz ?one (Suc hole) hole ?b" by simp
  finally have "take (hole + ?b) (del_entries hole off sz es 0 0 n) = take hole ?one @ map (shifted off sz) (take ?b (drop (Suc hole) ?one))"
    using del_entries_run[of hole "Suc hole" ?b ?one hole off sz] assms by simp
  moreover have "drop (Suc hole) ?one = drop (Suc hole) es" using one(2) by (metis drop_Suc tl_drop)
  moreover have "hole + ?b = n - 1" using assms by simp
  ultimately show ?thesis using one by (simp add: drop_take)
qed

lemma wf_nodes_remove:
  assumes "wf_nodes leaf upper es d" "i < length es" "es' = take i es @ drop (Suc i) es" "h = es ! i"
  shows "wf_nodes leaf upper es' d" "upper \<le> h" "even h" "h + node_len leaf d h \<le> length d"
    "e \<in> set es' \<Longrightarrow> apart e (node_len leaf d e) h (node_len leaf d h)"
proof -
  have es: "es = take i es @ h # drop (Suc i) es" using assms id_take_nth_drop by blast
  have wf: "wf_nodes leaf upper (take i es @ h # drop (Suc i) es) d" using assms(1) es by simp
  then show "upper \<le> h" "even h" "h + node_len leaf d h \<le> length d" by (simp_all add: wf_nodes_def)
  have sym: "apart a m b n \<longleftrightarrow> apart b n a m" for a m b n by (auto simp: apart_def)
  show "wf_nodes leaf upper es' d" unfolding assms(3) using wf by (simp add: wf_nodes_def sorted_wrt_append)
  show "apart e (node_len leaf d e) h (node_len leaf d h)" if "e \<in> set es'"
    using wf that sym unfolding assms(3) by (auto simp: wf_nodes_def sorted_wrt_append)
qed

lemma slice_memmove_moved:
  assumes "dst + n \<le> length d" "src \<le> a" "a + m \<le> src + n" "src \<le> dst"
  shows "slice (a + (dst - src)) m (memmove dst src n d) = slice a m d"
proof -
  have len: "length (take n (drop src d)) = n" using assms by simp
  have "slice (a + (dst - src)) m (memmove dst src n d) = slice (a - src) m (take n (drop src d))"
    unfolding memmove_def using assms len by (subst slice_blit_inside) simp_all
  also have "\<dots> = slice a m d" using assms slice_slice[of "a - src" m n src d] by (simp add: slice_def)
  finally show ?thesis .
qed

lemma node_del_unfold:
  assumes "\<not> is_dupfix_leaf mp"
  shows "node_del mp hole ksize = (let off = pg_entries mp ! hole; sz = node_len (is_leaf mp) (pg_data mp) off in
    mp\<lparr>pg_entries := del_entries hole off sz (pg_entries mp) 0 0 (page_numkeys mp),
       pg_data := memmove (pg_upper mp + sz) (pg_upper mp) (off - pg_upper mp) (pg_data mp),
       pg_lower := pg_lower mp - 2, pg_upper := pg_upper mp + sz\<rparr>)"
  using assms by (simp add: node_del_def node_len_def page_node_def Let_def)

lemma is_bytes_memmove [simp]: "is_bytes d \<Longrightarrow> is_bytes (memmove dst src n d)"
  by (simp add: memmove_def)

text \<open>
  C26. Deleting a node, of a leaf or a branch, on a page of well-formed nodes: the page stays well-formed although all
  the bytes below the hole and the entries that point to them are moved, the list of its nodes is without the deleted
  one, and its bytes and its entry are given back to the room.
\<close>

theorem node_del_removes:
  assumes wf: "wf_page mp" and hole: "hole < page_numkeys mp" and mp': "mp' = node_del mp hole ksize"
  shows "wf_page mp' \<and> page_nodes mp' = take hole (page_nodes mp) @ drop (Suc hole) (page_nodes mp) \<and>
    page_room mp' = page_room mp + node_len (is_leaf mp) (pg_data mp) (page_node mp hole) + 2"
proof -
  let ?leaf = "is_leaf mp" and ?d = "pg_data mp" and ?es = "used_entries mp" and ?n = "page_numkeys mp" and ?u = "pg_upper mp"
  let ?off = "page_node mp hole"
  let ?sz = "node_len ?leaf ?d ?off" and ?rest = "take hole ?es @ drop (Suc hole) ?es"
  let ?d' = "memmove (?u + ?sz) ?u (?off - ?u) ?d"
  have n: "2 * ?n = pg_lower mp" "?n \<le> length (pg_entries mp)" using wf_page_numkeys[OF wf] by simp_all
  have del: "mp' = mp\<lparr>pg_entries := del_entries hole ?off ?sz (pg_entries mp) 0 0 ?n, pg_data := ?d',
      pg_lower := pg_lower mp - 2, pg_upper := ?u + ?sz\<rparr>"
    using wf node_del_unfold[of mp hole ksize] by (simp add: mp' Let_def page_node_def wf_page_def)
  have flags: "is_leaf mp' = ?leaf" "is_dupfix_leaf mp' = is_dupfix_leaf mp" by (simp_all add: del is_leaf_def is_dupfix_leaf_def)
  have num: "page_numkeys mp' = ?n - 1" using n hole by (simp add: page_numkeys_def del drop_bit_eq_div)
  have used: "used_entries mp' = map (shifted ?off ?sz) ?rest"
    unfolding used_entries_def num using del_entries_deletes[OF hole n(2), of ?off ?sz] hole
    by (simp add: del min_def)
  have wfn: "wf_nodes ?leaf ?u ?es ?d" using wf by (simp add: wf_page_def)
  have h: "?off = ?es ! hole" "hole < length ?es" using hole n by (simp_all add: used_entries_def page_node_def)
  note rem = wf_nodes_remove[OF wfn h(2) refl h(1)]
  have in_rest: "?u \<le> e \<and> even e \<and> e + node_len ?leaf ?d e \<le> length ?d" if "e \<in> set ?rest" for e
    using rem(1) that unfolding wf_nodes_def list_all_iff by blast
  have side: "e < ?off \<and> e + node_len ?leaf ?d e \<le> ?off \<or> ?off + ?sz \<le> e" if "e \<in> set ?rest" for e
    using rem(5)[OF that] node_len_ge(1)[of ?leaf ?d e] by (auto simp: apart_def)
  have len: "length ?d' = length ?d" using rem(2,4) by (simp add: memmove_def)
  have moved: "wf_nodes ?leaf (?u + ?sz) (map (shifted ?off ?sz) ?rest) ?d' \<and>
      map (node_image ?leaf ?d') (map (shifted ?off ?sz) ?rest) = map (node_image ?leaf ?d) ?rest \<and>
      (\<forall>e \<in> set ?rest. node_len ?leaf ?d' (shifted ?off ?sz e) = node_len ?leaf ?d e)"
  proof (rule wf_nodes_shift[OF rem(1)])
    fix e assume e: "e \<in> set ?rest"
    let ?l = "node_len ?leaf ?d e"
    show "slice (shifted ?off ?sz e) ?l ?d' = slice e ?l ?d"
    proof (cases "e < ?off")
      case True
      then have "e + ?l \<le> ?off" using side[OF e] by auto
      then show ?thesis using slice_memmove_moved[of "?u + ?sz" "?off - ?u" ?d ?u e ?l] in_rest[OF e] rem(2,4) True
        by (simp add: shifted_def)
    next
      case False
      then have "?off + ?sz \<le> e" using side[OF e] by auto
      then show ?thesis using False rem(2,4) unfolding memmove_def by (simp add: shifted_def slice_blit_behind)
    qed
    show "even (shifted ?off ?sz e) \<and> ?u + ?sz \<le> shifted ?off ?sz e \<and> shifted ?off ?sz e + ?l \<le> length ?d'"
      using in_rest[OF e] side[OF e] rem(2,4) len node_len_ge(2)[of ?leaf ?d ?off] by (auto simp: shifted_def)
  next
    fix a b assume ab: "a \<in> set ?rest" "b \<in> set ?rest" "apart a (node_len ?leaf ?d a) b (node_len ?leaf ?d b)"
    show "apart (shifted ?off ?sz a) (node_len ?leaf ?d a) (shifted ?off ?sz b) (node_len ?leaf ?d b)"
      using ab(3) side[OF ab(1)] side[OF ab(2)] unfolding apart_def shifted_def by auto
  qed
  have room: "page_room mp' = page_room mp + ?sz + 2" using wf n hole by (auto simp: page_room_def del wf_page_def)
  have "?u + ?sz \<le> length ?d" "pg_lower mp - 2 \<le> ?u + ?sz" "even (?u + ?sz)" using wf rem(2,4) node_len_ge(2)[of ?leaf ?d ?off] by (auto simp: wf_page_def)
  then have "wf_page mp'"
    using wf moved len n hole unfolding wf_page_def flags used by (simp add: del)
  moreover have "page_nodes mp' = map (node_image ?leaf ?d) ?rest" using moved unfolding page_nodes_def flags used by (simp add: del)
  ultimately show ?thesis using room by (simp add: page_nodes_def take_map drop_map)
qed

subsection \<open>The codes of an insertion, and the value read back\<close>

lemma insert_leaf_code:
  "let r = insert_leaf mp indx node_bytes key data_len data flags largepage in
     if page_room mp < node_bytes \<or> node_bytes = 0 \<and> pg_upper mp + 2 < pg_lower mp + 2 then r = full (move_entries_up indx mp)
     else ad_rc r = MDBX_SUCCESS \<and> \<not> ad_txn_error r"
proof -
  have "int (pg_upper mp) - (int node_bytes - 2) < int (pg_lower mp) + 2 \<longleftrightarrow>
    page_room mp < node_bytes \<or> node_bytes = 0 \<and> pg_upper mp + 2 < pg_lower mp + 2"
    unfolding page_room_def by linarith
  then show ?thesis unfolding insert_leaf_unfold Let_def
    by (auto simp: insert_room_def write_leaf_def finished_def Let_def split: option.split)
qed

definition leaf_needed :: "env \<Rightarrow> bytes \<Rightarrow> nat \<Rightarrow> nat \<Rightarrow> nat" where
  "leaf_needed env key data_len flags = (if flags AND N_BIG \<noteq> 0 then node_size_len (length key) 0 + sizeof_pgno + sizeof_indx
    else leaf_size env (length key) data_len)"

lemma leaf_needed_eq: "leaf_needed env key data_len flags = (if goes_large env key data_len flags then EVEN_CEIL (8 + length key + sizeof_pgno) + 2
    else EVEN_CEIL (8 + length key + (if flags AND N_BIG \<noteq> 0 then sizeof_pgno else data_len)) + 2)"
  unfolding leaf_needed_def goes_large_def leaf_size_def Let_def by (auto simp: node_bytes_eqs)

lemma add_codes_ne: "MDBX_PAGE_FULL \<noteq> MDBX_SUCCESS" "MDBX_PROBLEM \<noteq> MDBX_SUCCESS"
  by (simp_all add: MDBX_PAGE_FULL_def MDBX_SUCCESS_def MDBX_PROBLEM_def)

lemma node_add_leaf_codes_of:
  assumes r: "r = node_add_leaf env tree_flags new_large mp indx key data_len data flags"
  shows "(ad_rc r, ad_txn_error r) =
      (if goes_large env key data_len flags \<and> (has_flag tree_flags MDBX_DUPSORT \<or> flags AND (N_DUP OR N_TREE) \<noteq> 0) then (MDBX_PROBLEM, False)
       else if goes_large env key data_len flags \<and> fst (new_large (largechunk_npages env data_len)) \<noteq> MDBX_SUCCESS
       then (fst (new_large (largechunk_npages env data_len)), False)
       else if page_room mp < leaf_needed env key data_len flags then (MDBX_PAGE_FULL, True)
       else (MDBX_SUCCESS, False)) \<and>
      (ad_rc r = MDBX_SUCCESS \<or> ad_page r = (if ad_txn_error r then move_entries_up indx mp else mp) \<and> ad_large r = None)"
  using r
proof (cases rule: node_add_leaf_cases)
  case small
  then show ?thesis unfolding leaf_needed_eq
    using insert_leaf_code[of mp indx "EVEN_CEIL (8 + length key + (if flags AND N_BIG \<noteq> 0 then sizeof_pgno else data_len)) + 2" key data_len data flags None]
    by (auto simp: full_def finished_def Let_def add_codes_ne)
next
  case (large pgno)
  then show ?thesis unfolding leaf_needed_eq
    using insert_leaf_code[of mp indx "EVEN_CEIL (8 + length key + sizeof_pgno) + 2" key data_len data "flags OR N_BIG" "Some pgno"]
    by (auto simp: full_def finished_def Let_def add_codes_ne)
next
  case error
  have "ad_page r = mp" "ad_large r = None" "\<not> ad_txn_error r" by (subst error(2), simp add: finished_def)+
  then show ?thesis using error(1,3,4) by (auto split: if_splits)
qed

text \<open>The bytes of the nodes after a failed insertion.\<close>

definition nodes_after_full :: "page \<Rightarrow> nat \<Rightarrow> bytes" where
  "nodes_after_full mp indx =
     (if pg_lower mp = pg_upper mp \<and> indx < page_numkeys mp
      then le_bytes 2 (page_node mp (page_numkeys mp - 1)) @ drop (pg_upper mp + 2) (pg_data mp)
      else drop (pg_upper mp) (pg_data mp))"

lemma moved_nodes:
  "wf_page mp \<Longrightarrow> drop (pg_upper (move_entries_up indx mp)) (pg_data (move_entries_up indx mp)) = nodes_after_full mp indx"
  by (simp add: move_entries_up_def nodes_after_full_def store_behind_nodes)

text \<open>
  C28. The code of \<^verbatim>\<open>node_add_leaf\<close>, in every case: a large value on a table of duplicates or with flags of
  duplicates or sub-trees is refused; a large page that cannot be allocated gives its error; too little room gives
  \<^verbatim>\<open>MDBX_PAGE_FULL\<close> and marks the transaction. A refusal and a failed allocation leave the page as it was. On a full
  page the bounds of the gap stay, but the entries behind the index were moved already: where the gap is not empty, or the
  index is behind the last entry, no byte of a node has changed; where it is empty, the first two bytes of the nodes are now the
  last entry, and the others are as before.
\<close>

theorem node_add_leaf_codes:
  "let r = node_add_leaf env tree_flags new_large mp indx key data_len data flags;
      allocated = fst (new_large (largechunk_npages env data_len))
    in (ad_rc r, ad_txn_error r) =
      (if goes_large env key data_len flags \<and> (has_flag tree_flags MDBX_DUPSORT \<or> flags AND (N_DUP OR N_TREE) \<noteq> 0) then (MDBX_PROBLEM, False)
       else if goes_large env key data_len flags \<and> allocated \<noteq> MDBX_SUCCESS then (allocated, False)
       else if page_room mp < leaf_needed env key data_len flags then (MDBX_PAGE_FULL, True)
       else (MDBX_SUCCESS, False)) \<and>
      (ad_rc r = MDBX_SUCCESS \<or> ad_large r = None \<and> ad_page r = (if ad_txn_error r then move_entries_up indx mp else mp)) \<and>
      (wf_page mp \<longrightarrow> ad_rc r = MDBX_SUCCESS \<or>
         pg_lower (ad_page r) = pg_lower mp \<and> pg_upper (ad_page r) = pg_upper mp \<and>
         drop (pg_upper mp) (pg_data (ad_page r)) =
           (if ad_txn_error r then nodes_after_full mp indx else drop (pg_upper mp) (pg_data mp)))"
proof -
  define r where "r = node_add_leaf env tree_flags new_large mp indx key data_len data flags"
  note codes = node_add_leaf_codes_of[OF r_def]
  have "pg_lower (move_entries_up indx mp) = pg_lower mp" "pg_upper (move_entries_up indx mp) = pg_upper mp"
    by (simp_all add: move_entries_up_def)
  then show ?thesis using codes moved_nodes[of mp indx] unfolding Let_def r_def[symmetric] by auto
qed

lemma leaf_at:
  assumes "wf_page mp" "i < page_numkeys mp"
  shows "page_leaves mp ! i = leaf_node (pg_data mp) (page_node mp i)" "length (page_leaves mp) = page_numkeys mp"
  using assms wf_page_numkeys[OF assms(1)] length_used_entries[OF assms(1)]
  by (simp_all add: page_leaves_def used_entries_def page_node_def)

lemma node_read_leaf:
  assumes "leaf_node d node = (key, flags, ds, p)" "flags AND N_BIG = 0 \<or> flags = N_BIG"
  shows "node_read env large d node = (if flags = N_BIG then (case large (le_value p) of (err, pages, payload) \<Rightarrow>
      if err \<noteq> MDBX_SUCCESS then Inl err else if pages < largechunk_npages env ds then Inl MDBX_CORRUPTED else Inr (take ds payload)) else Inr p)"
proof -
  have N: "N_BIG AND N_BIG \<noteq> 0" by (simp add: N_BIG_def)
  have h: "node_flags d node = flags" "node_ds d node = ds" "p = slice (node_data d node) (if flags AND N_BIG \<noteq> 0 then sizeof_pgno else ds) d"
    using assms(1) by (auto simp: leaf_node_def)
  show ?thesis
  proof (cases "flags = N_BIG")
    case True
    then have "node_largedata_pgno d node = le_value p" using h N by (simp add: node_largedata_pgno_def peek_slice sizeof_pgno_def)
    then show ?thesis using h True unfolding node_read_def node_read_bigdata_def by (cases "large (le_value p)") simp
  next
    case False
    then have "p = take ds (drop (node_data d node) d)" using h assms(2) by (simp add: slice_def)
    then show ?thesis using False h by (simp add: node_read_def)
  qed
qed

text \<open>
  C27. A value that was added is what \<^verbatim>\<open>node_read\<close> returns for its node, whether it went to the page or to a large
  page: there, if the allocator gave a page number that fits, and the large page read is the one that was written,
  with at least the pages that were asked for.
\<close>

theorem added_leaf_is_read:
  assumes wf: "wf_page mp" "is_leaf mp" and indx: "indx \<le> page_numkeys mp"
    and key: "is_bytes key" "is_bytes data" "length key < 2 ^ 16" "length data < 2 ^ 32"
    and flags: "flags \<in> {0, N_DUP, N_TREE, N_DUP OR N_TREE}"
    and r: "r = node_add_leaf env tree_flags new_large mp indx key (length data) data flags" and ok: "ad_rc r = MDBX_SUCCESS"
    and alloc: "\<And>npages. snd (new_large npages) < 2 ^ 32"
    and large: "\<And>pgno payload. ad_large r = Some (pgno, payload) \<Longrightarrow>
      \<exists>pages. large pgno = (MDBX_SUCCESS, pages, payload) \<and> largechunk_npages env (length data) \<le> pages"
  shows "node_read env large (pg_data (ad_page r)) (page_node (ad_page r) indx) = Inr data"
proof -
  let ?mp = "ad_page r"
  have f: "flags AND MDBX_RESERVE = 0" "flags AND N_BIG = 0" "flags mod 256 = flags" "flags AND N_BIG = 0 \<or> flags = N_BIG" "flags \<noteq> N_BIG"
    using flags by (auto simp: N_DUP_def N_TREE_def N_BIG_def MDBX_RESERVE_def)
  have len: "length data = (if flags AND N_BIG \<noteq> 0 then 4 else length data)" using f(2) by simp
  define entry where "entry = (if goes_large env key (length data) flags
      then (key, (flags OR N_BIG) mod 256, length data, le_bytes 4 (snd (new_large (largechunk_npages env (length data)))))
      else (key, flags mod 256, length data, data))"
  note spec = node_add_leaf_spec[OF wf indx key(1-4) f(1) len r ok entry_def]
  have "page_leaves ?mp = take indx (page_leaves mp) @ entry # drop indx (page_leaves mp)" and wf': "wf_page ?mp" using spec by simp_all
  moreover have "length (page_leaves mp) = page_numkeys mp" using wf length_used_entries by (simp add: page_leaves_def)
  ultimately have at: "page_leaves ?mp ! indx = entry" "length (page_leaves ?mp) = Suc (page_numkeys mp)"
    using indx by (simp_all add: nth_append)
  have "indx < page_numkeys ?mp" using at(2) indx wf' length_used_entries by (simp add: page_leaves_def)
  then have node: "leaf_node (pg_data ?mp) (page_node ?mp indx) = entry" using leaf_at(1)[OF wf'] at(1) by simp
  show ?thesis
  proof (cases "goes_large env key (length data) flags")
    case False
    then have "leaf_node (pg_data ?mp) (page_node ?mp indx) = (key, flags, length data, data)" using node f(3) by (simp add: entry_def)
    from node_read_leaf[OF this] show ?thesis using f(2,5) by simp
  next
    case True
    let ?pgno = "snd (new_large (largechunk_npages env (length data)))"
    have "flags = 0" using r ok
    proof (cases rule: node_add_leaf_cases)
      case (large pgno) then show ?thesis using flags by (auto simp: N_DUP_def N_TREE_def)
    qed (use True ok in simp_all)
    then have "leaf_node (pg_data ?mp) (page_node ?mp indx) = (key, N_BIG, length data, le_bytes 4 ?pgno)"
      using node True by (simp add: entry_def N_BIG_def)
    moreover have "le_value (le_bytes 4 ?pgno) = ?pgno" using alloc by (intro le_value_le_bytes) simp
    moreover obtain pages where "large ?pgno = (MDBX_SUCCESS, pages, data)" "largechunk_npages env (length data) \<le> pages"
      using large spec True by auto
    ultimately show ?thesis by (simp add: node_read_leaf)
  qed
qed

subsection \<open>Adding a node to a branch\<close>

definition branch_node :: "bytes \<Rightarrow> nat \<Rightarrow> bytes \<times> pgno" where
  "branch_node d node = (get_key d node, node_pgno d node)"

definition page_branches :: "page \<Rightarrow> (bytes \<times> pgno) list" where
  "page_branches mp = map (branch_node (pg_data mp)) (used_entries mp)"

lemma branch_node_image: "branch_node d node = branch_node (node_image False d node) 0"
proof -
  let ?i = "node_image False d node"
  have len: "8 + node_ks d node \<le> node_len False d node" using EVEN_CEIL_le(2) by (simp add: node_len_def NODESIZE_def)
  have s: "slice i m ?i = slice (node + i) m d" if "i + m \<le> node_len False d node" for i m
    unfolding node_image_def by (rule slice_slice[OF that])
  have "slice 0 8 ?i = slice node 8 d" using s[of 0 8] node_len_ge(1) by simp
  note h = node_header_slice[OF this]
  have "slice 8 (node_ks d node) ?i = slice (node + 8) (node_ks d node) d" using len by (intro s) simp
  then show ?thesis by (simp add: branch_node_def h get_key_def node_key_def NODESIZE_def flip: slice_def)
qed

lemma page_branches_nodes: "\<not> is_leaf mp \<Longrightarrow> page_branches mp = map (\<lambda>i. branch_node i 0) (page_nodes mp)"
  by (simp add: page_branches_def page_nodes_def o_def flip: branch_node_image)

lemma slice_0: "slice a 0 d = []" by (simp add: slice_def)

definition branch_bytes :: "nat \<Rightarrow> bytes option \<Rightarrow> pgno \<Rightarrow> bytes \<Rightarrow> bytes" where
  "branch_bytes u key pgno d =
     (let d = node_set_ks u 0 (node_set_extra u 0 (node_set_flags u 0 (node_set_pgno u pgno d)))
      in case key of None \<Rightarrow> d | Some k \<Rightarrow> blit (u + 8) k (node_set_ks u (length k) d))"

text \<open>The key as it is on the page: the first node of a branch page has none.\<close>

definition key_bytes :: "bytes option \<Rightarrow> bytes" where "key_bytes key = (case key of None \<Rightarrow> [] | Some k \<Rightarrow> k)"

lemma branch_bytes_reads:
  assumes "u + 8 + length (key_bytes key) \<le> length d" "length (key_bytes key) < 2 ^ 16" "pgno < 2 ^ 32"
  defines "d' \<equiv> branch_bytes u key pgno d"
  shows "length d' = length d" "node_ks d' u = length (key_bytes key)" "branch_node d' u = (key_bytes key, pgno)"
    "u + 8 + length (key_bytes key) \<le> a \<Longrightarrow> slice a n d' = slice a n d"
proof -
  show len: "length d' = length d" and ks: "node_ks d' u = length (key_bytes key)"
    using assms by (auto simp: d'_def branch_bytes_def key_bytes_def Let_def split: option.splits)
  have "node_pgno d' u = pgno" using assms by (auto simp: d'_def branch_bytes_def key_bytes_def Let_def split: option.splits)
  moreover have "get_key d' u = key_bytes key" using assms
    unfolding get_key_def ks node_key_def NODESIZE_def slice_def[symmetric]
    by (auto simp: d'_def branch_bytes_def key_bytes_def Let_def slice_blit_same slice_0 split: option.splits)
  ultimately show "branch_node d' u = (key_bytes key, pgno)" by (simp add: branch_node_def)
  assume "u + 8 + length (key_bytes key) \<le> a"
  then show "slice a n d' = slice a n d" using assms
    by (auto simp: d'_def branch_bytes_def key_bytes_def Let_def slice_blit_behind split: option.splits)
qed

lemma node_add_branch_unfold:
  assumes "branch_size env (length (key_bytes key)) = Some sz" "indx < length (pg_entries mp)"
  shows "node_add_branch env mp indx key pgno = Some
     (if int (pg_upper mp) - (int sz - 2) < int (pg_lower mp) + 2 then full mp
      else finished MDBX_SUCCESS ((store_behind indx mp)\<lparr>pg_lower := nat (int (pg_lower mp) + 2), pg_upper := nat (int (pg_upper mp) - (int sz - 2)),
             pg_entries := (copy_bwd (pg_entries mp) (indx + 1) indx (page_numkeys mp - indx))[indx := nat (int (pg_upper mp) - (int sz - 2))],
             pg_data := branch_bytes (nat (int (pg_upper mp) - (int sz - 2))) key pgno (pg_data (store_behind indx mp))\<rparr>))"
  using assms
  by (simp add: node_add_branch_def key_bytes_def branch_bytes_def move_entries_up_def page_node_def node_key_def NODESIZE_def
      Let_def split: option.splits)

text \<open>
  \<^verbatim>\<open>node_add_branch\<close> with a key that \<^verbatim>\<open>branch_size\<close> accepts: with enough room the page stays
  well-formed and has one more child at the index, with the key (or none, for the first one) and the page number, and
  the others as before; otherwise it reports \<^verbatim>\<open>MDBX_PAGE_FULL\<close>, marks the transaction, and leaves the page as it
  was.
\<close>

theorem node_add_branch_inserts:
  assumes wf: "wf_page mp" "\<not> is_leaf mp" and indx: "indx \<le> page_numkeys mp" "indx < length (pg_entries mp)"
    and key: "is_bytes (key_bytes key)" "length (key_bytes key) < 2 ^ 16" "pgno < 2 ^ 32"
    and sz: "branch_size env (length (key_bytes key)) = Some sz"
  shows "\<exists>r. node_add_branch env mp indx key pgno = Some r \<and>
    (if page_room mp < sz then r = full mp
     else ad_rc r = MDBX_SUCCESS \<and> wf_page (ad_page r) \<and> page_room (ad_page r) + sz = page_room mp \<and>
       page_branches (ad_page r) = take indx (page_branches mp) @ (key_bytes key, pgno) # drop indx (page_branches mp))"
proof -
  let ?d = "pg_data mp" and ?m = "sz - 2"
  let ?len = "length (key_bytes key)"
  have "sz = node_size_len ?len 0 + sizeof_indx" using sz by (simp add: branch_size_def Let_def split: if_splits)
  then have node_bytes: "sz = EVEN_CEIL (8 + ?len) + 2" using node_bytes_eqs(2)[of ?len 0] by simp
  have full: "int (pg_upper mp) - (int sz - 2) < int (pg_lower mp) + 2 \<longleftrightarrow> page_room mp < sz"
    using node_bytes wf by (auto simp: page_room_def wf_page_def)
  note unf = node_add_branch_unfold[OF sz indx(2), of pgno]
  show ?thesis
  proof (cases "page_room mp < sz")
    case True
    then show ?thesis using unf full by simp
  next
    case False
    define u where "u = pg_upper mp - ?m"
    let ?mp = "store_behind indx mp"
    let ?d' = "branch_bytes u key pgno (pg_data ?mp)"
    have m: "even ?m" "8 + ?len \<le> ?m" "?m + 2 = sz" using EVEN_CEIL_le(2,3)[of "8 + ?len"] node_bytes by auto
    have up: "pg_lower mp + 2 + ?m \<le> pg_upper mp" "u + ?m = pg_upper mp" "pg_upper mp \<le> length ?d" "2 \<le> page_room mp"
      using False m wf by (auto simp: page_room_def wf_page_def u_def)
    note gap = store_behind_gap[OF wf(1) up(4), where indx = indx]
    have fits: "u + 8 + ?len \<le> length (pg_data ?mp)" using up m gap(2) by linarith
    note reads = branch_bytes_reads[OF fits key(2,3)]
    define mp' where "mp' = ?mp\<lparr>pg_lower := pg_lower ?mp + 2, pg_upper := u,
      pg_entries := (copy_bwd (pg_entries ?mp) (indx + 1) indx (page_numkeys ?mp - indx))[indx := u], pg_data := ?d'\<rparr>"
    have "nat (int (pg_lower mp) + 2) = pg_lower mp + 2" "nat (int (pg_upper mp) - (int sz - 2)) = u" using up m u_def by linarith+
    then have r: "node_add_branch env mp indx key pgno = Some (finished MDBX_SUCCESS mp')"
      using unf full False unfolding mp'_def by simp
    have len: "node_len (is_leaf ?mp) ?d' u = ?m" using wf node_bytes reads(2) by (simp add: node_len_def NODESIZE_def)
    have same: "slice a n ?d' = slice a n (pg_data ?mp)" if "pg_upper ?mp \<le> a" for a n using that up m by (intro reads(4)) auto
    have bytes: "is_bytes ?d'" using key(1) gap(3) by (auto simp: branch_bytes_def Let_def key_bytes_def wf_page_def split: option.split)
    note node = insert_node[OF gap(3) _ m(1) _ _ reads(1) bytes same len mp'_def, unfolded store_behind_fields, OF indx(1) up(1) u_def]
    have "branch_node (node_image (is_leaf mp) ?d' u) 0 = (key_bytes key, pgno)"
      using wf reads(3) branch_node_image[of ?d' u] by simp
    moreover have "\<not> is_leaf mp'" using wf by (simp add: mp'_def is_leaf_def)
    ultimately have "page_branches mp' = take indx (page_branches mp) @ (key_bytes key, pgno) # drop indx (page_branches mp)"
      using node(2) page_branches_nodes wf(2) gap(4) by (simp add: take_map drop_map)
    then show ?thesis using node(1,3) m False by (auto simp: r finished_def)
  qed
qed

subsection \<open>Pages of values of one size\<close>

definition wf_dupfix :: "page \<Rightarrow> bool" where
  "wf_dupfix mp \<longleftrightarrow>
     is_dupfix_leaf mp \<and> 0 < pg_ksize mp \<and> even (pg_lower mp) \<and> pg_lower mp \<le> pg_upper mp \<and>
     pg_upper mp + pg_ksize mp * page_numkeys mp = length (pg_data mp) + pg_lower mp \<and> length (pg_data mp) < 2 ^ 16"

definition dupfix_values :: "page \<Rightarrow> bytes list" where
  "dupfix_values mp = map (page_dupfix_key mp) [0..<page_numkeys mp]"

lemma wf_dupfix_fits:
  assumes "wf_dupfix mp"
  shows "pg_ksize mp * page_numkeys mp + page_room mp = length (pg_data mp)" "page_numkeys mp < 2 ^ 16"
    "2 * page_numkeys mp = pg_lower mp"
proof -
  show fit: "pg_ksize mp * page_numkeys mp + page_room mp = length (pg_data mp)" using assms by (auto simp: wf_dupfix_def page_room_def)
  have "1 * page_numkeys mp \<le> pg_ksize mp * page_numkeys mp" using assms by (intro mult_le_mono1) (simp add: wf_dupfix_def)
  then show "page_numkeys mp < 2 ^ 16" using fit assms unfolding wf_dupfix_def by linarith
  show "2 * page_numkeys mp = pg_lower mp" using assms by (simp add: wf_dupfix_def page_numkeys_def drop_bit_eq_div)
qed

lemma dupfix_value_slice: "i < 2 ^ 16 \<Longrightarrow> page_dupfix_key mp i = slice (pg_ksize mp * i) (pg_ksize mp) (pg_data mp)"
  by (simp add: page_dupfix_key_def page_dupfix_ptr_def slice_def)

lemma mult_slot_le: "i < n \<Longrightarrow> k * i + k \<le> k * (n :: nat)"
  using mult_le_mono2[of "Suc i" n k] by (simp add: Suc_le_eq)

lemma slice_memmove_other: "a + m \<le> dst \<or> dst + n \<le> a \<Longrightarrow> dst + n \<le> length d \<Longrightarrow> src + n \<le> length d \<Longrightarrow>
  slice a m (memmove dst src n d) = slice a m d"
  unfolding memmove_def by (rule slice_blit_other) simp_all

lemma slice_memmove_inside: "dst \<le> a \<Longrightarrow> a + m \<le> dst + n \<Longrightarrow> dst + n \<le> length d \<Longrightarrow> src + n \<le> length d \<Longrightarrow>
  slice a m (memmove dst src n d) = slice (src + (a - dst)) m d"
proof -
  assume a: "dst \<le> a" "a + m \<le> dst + n" "dst + n \<le> length d" "src + n \<le> length d"
  then have "slice a m (memmove dst src n d) = slice (a - dst) m (take n (drop src d))"
    unfolding memmove_def by (intro slice_blit_inside) simp_all
  also have "\<dots> = slice (src + (a - dst)) m d" using a slice_slice[of "a - dst" m n src d] by (simp add: slice_def)
  finally show ?thesis .
qed

lemma length_memmove [simp]: "dst + n \<le> length d \<Longrightarrow> src + n \<le> length d \<Longrightarrow> length (memmove dst src n d) = length d"
  by (simp add: memmove_def)

text \<open>
  A value is added to a page of values of one size: with room for it the page stays well-formed and has the value
  at the index, the later ones moved by one; otherwise \<^verbatim>\<open>MDBX_PAGE_FULL\<close>, and the page as it was.
\<close>

lemma node_add_dupfix_inserts:
  assumes wf: "wf_dupfix mp" and indx: "indx \<le> page_numkeys mp" and key: "length key = pg_ksize mp"
    and r: "r = node_add_dupfix mp indx key"
  shows "if page_room mp < pg_ksize mp then r = full mp
    else ad_rc r = MDBX_SUCCESS \<and> wf_dupfix (ad_page r) \<and> page_room (ad_page r) + pg_ksize mp = page_room mp \<and>
      dupfix_values (ad_page r) = take indx (dupfix_values mp) @ key # drop indx (dupfix_values mp)"
proof -
  let ?k = "pg_ksize mp" and ?n = "page_numkeys mp" and ?d = "pg_data mp"
  note fits = wf_dupfix_fits[OF wf]
  have full: "int (pg_upper mp) - (int ?k - 2) < int (pg_lower mp) + 2 \<longleftrightarrow> page_room mp < ?k"
    using wf by (auto simp: page_room_def wf_dupfix_def)
  show ?thesis
  proof (cases "page_room mp < ?k")
    case True
    then show ?thesis using full by (simp add: r node_add_dupfix_def key)
  next
    case False
    have ptr: "page_dupfix_ptr (mp\<lparr>pg_lower := a, pg_upper := b\<rparr>) indx = ?k * indx" for a b
      using indx fits(2) by (simp add: page_dupfix_ptr_def)
    have sizes: "?k * indx + ?k + (?n - indx) * ?k \<le> length ?d" "?k * indx + (?n - indx) * ?k = ?k * ?n"
    proof -
      show "?k * indx + (?n - indx) * ?k = ?k * ?n" using indx by (metis add_mult_distrib2 le_add_diff_inverse mult.commute)
      then show "?k * indx + ?k + (?n - indx) * ?k \<le> length ?d" using fits(1) False by linarith
    qed
    define moved where "moved = memmove (?k * indx + ?k) (?k * indx) ((?n - indx) * ?k) ?d"
    have len: "length moved = length ?d" using sizes by (simp add: moved_def)
    have no_move: "moved = ?d" if "\<not> 0 < ?n - indx"
      using sizes that by (simp add: moved_def memmove_def blit_def)
    define d' where "d' = blit (?k * indx) key moved"
    define mp' where "mp' = mp\<lparr>pg_lower := pg_lower mp + 2, pg_upper := pg_upper mp + 2 - ?k, pg_data := d'\<rparr>"
    have "nat (int (pg_lower mp) + 2) = pg_lower mp + 2" "nat (int (pg_upper mp) - (int ?k - 2)) = pg_upper mp + 2 - ?k"
      using False by (auto simp: page_room_def)
    then have r': "r = finished MDBX_SUCCESS mp'"
      using full False no_move by (cases "0 < ?n - indx") (simp_all add: r node_add_dupfix_def key Let_def ptr mp'_def d'_def moved_def)
    have len': "length d' = length ?d" using sizes len key by (simp add: d'_def)
    have n': "page_numkeys mp' = Suc ?n" "pg_ksize mp' = ?k" using fits(3) by (simp_all add: page_numkeys_def mp'_def drop_bit_eq_div)
    have room: "page_room mp' + ?k = page_room mp" using False by (auto simp: mp'_def page_room_def)
    have wf': "wf_dupfix mp'"
      using wf n' len' False by (auto simp: wf_dupfix_def mp'_def is_dupfix_leaf_def page_room_def)
    have low: "slice (?k * i) ?k d' = slice (?k * i) ?k ?d" if "i < indx" for i
    proof -
      have b: "?k * i + ?k \<le> ?k * indx" using that by (rule mult_slot_le)
      then have "slice (?k * i) ?k d' = slice (?k * i) ?k moved" unfolding d'_def using sizes len key by (intro slice_blit_before) simp_all
      also have "\<dots> = slice (?k * i) ?k ?d" unfolding moved_def using b sizes by (intro slice_memmove_other disjI1) linarith+
      finally show ?thesis .
    qed
    have at: "slice (?k * indx) ?k d' = key" unfolding d'_def using sizes len key by (simp add: slice_blit_same)
    have high: "slice (?k * Suc i) ?k d' = slice (?k * i) ?k ?d" if "indx \<le> i" "i < ?n" for i
    proof -
      have b: "?k * indx \<le> ?k * i" "?k * i + ?k \<le> ?k * ?n" using that by (simp_all add: mult_slot_le)
      have "slice (?k * Suc i) ?k d' = slice (?k * Suc i) ?k moved" unfolding d'_def using b sizes len key
        by (intro slice_blit_behind) simp_all
      also have "\<dots> = slice (?k * i) ?k ?d" unfolding moved_def using b sizes
        by (subst slice_memmove_inside) simp_all
      finally show ?thesis .
    qed
    have "dupfix_values mp' = take indx (dupfix_values mp) @ key # drop indx (dupfix_values mp)"
    proof (rule nth_equalityI)
      show "length (dupfix_values mp') = length (take indx (dupfix_values mp) @ key # drop indx (dupfix_values mp))"
        using indx by (simp add: dupfix_values_def n')
      fix i assume "i < length (dupfix_values mp')"
      then have i: "i < Suc ?n" by (simp add: dupfix_values_def n')
      then have "dupfix_values mp' ! i = slice (?k * i) ?k d'"
        using wf_dupfix_fits(2)[OF wf'] n' by (simp add: dupfix_values_def dupfix_value_slice mp'_def del: upt_Suc)
      also have "\<dots> = (take indx (dupfix_values mp) @ key # drop indx (dupfix_values mp)) ! i"
      proof -
        have v: "dupfix_values mp ! j = slice (?k * j) ?k ?d" "j < length (dupfix_values mp)" if "j < ?n" for j
          using that fits(2) by (simp_all add: dupfix_values_def dupfix_value_slice)
        consider "i < indx" | "i = indx" | j where "i = Suc j" "indx \<le> j" "j < ?n" using i by (cases i) (auto, linarith)
        then show ?thesis using low at high v indx
          by cases (simp_all add: nth_append dupfix_values_def min_def Suc_diff_le)
      qed
      finally show "dupfix_values mp' ! i = (take indx (dupfix_values mp) @ key # drop indx (dupfix_values mp)) ! i" .
    qed
    then show ?thesis using False wf' room by (simp add: r' finished_def)
  qed
qed

text \<open>Deleting a value of such a page removes exactly that one, and the page stays well-formed.\<close>

lemma node_del_dupfix_removes:
  assumes wf: "wf_dupfix mp" and hole: "hole < page_numkeys mp" and mp': "mp' = node_del mp hole (pg_ksize mp)"
    and fits16: "2 \<le> pg_ksize mp"
  shows "wf_dupfix mp' \<and> page_room mp' = page_room mp + pg_ksize mp \<and>
    dupfix_values mp' = take hole (dupfix_values mp) @ drop (Suc hole) (dupfix_values mp)"
proof -
  let ?k = "pg_ksize mp" and ?n = "page_numkeys mp" and ?d = "pg_data mp"
  let ?diff = "?n - 1 - hole"
  note fits = wf_dupfix_fits[OF wf]
  have sizes: "?k * hole + ?k + ?diff * ?k = ?k * ?n" "?k * ?n \<le> length ?d"
  proof -
    have "?k * (hole + 1 + ?diff) = ?k * ?n" using hole by simp
    then show "?k * hole + ?k + ?diff * ?k = ?k * ?n" by (simp add: algebra_simps)
  qed (use fits(1) in linarith)
  define d' where "d' = memmove (?k * hole) (?k * hole + ?k) (?diff * ?k) ?d"
  have no_move: "d' = ?d" if "?diff = 0" using that sizes by (simp add: d'_def memmove_def blit_def)
  have ptr: "page_dupfix_ptr mp hole = ?k * hole" using hole fits(2) by (simp add: page_dupfix_ptr_def)
  have r: "mp' = mp\<lparr>pg_data := d', pg_lower := pg_lower mp - 2, pg_upper := pg_upper mp + (?k - 2)\<rparr>"
    using wf no_move by (cases "?diff = 0") (simp_all add: mp' node_del_def wf_dupfix_def Let_def ptr d'_def)
  have len': "length d' = length ?d" unfolding d'_def by (rule length_memmove) (use sizes in linarith)+
  have n': "page_numkeys mp' = ?n - 1" "pg_ksize mp' = ?k" using fits(3) by (simp_all add: page_numkeys_def r drop_bit_eq_div)
  have kn: "?k * (?n - 1) + ?k = ?k * ?n" using hole by (metis Suc_diff_1 add.commute gr_implies_not_zero mult_Suc_right not_gr_zero)
  have wf': "wf_dupfix mp'" using wf fits(3) hole n' len' kn fits16 by (auto simp: wf_dupfix_def r is_dupfix_leaf_def)
  have room: "page_room mp' = page_room mp + ?k" using wf fits(3) hole fits16 by (auto simp: r page_room_def wf_dupfix_def)
  have low: "slice (?k * i) ?k d' = slice (?k * i) ?k ?d" if "i < hole" for i
  proof -
    have "?k * i + ?k \<le> ?k * hole" using that by (rule mult_slot_le)
    then show ?thesis unfolding d'_def using sizes by (intro slice_memmove_other disjI1) linarith+
  qed
  have high: "slice (?k * i) ?k d' = slice (?k * Suc i) ?k ?d" if "hole \<le> i" "i < ?n - 1" for i
  proof -
    have b: "?k * hole \<le> ?k * i" "?k * Suc i + ?k \<le> ?k * ?n" using that by (simp, intro mult_slot_le) simp
    have "slice (?k * i) ?k d' = slice (?k * hole + ?k + (?k * i - ?k * hole)) ?k ?d"
      unfolding d'_def using b sizes by (intro slice_memmove_inside) simp_all
    also have "?k * hole + ?k + (?k * i - ?k * hole) = ?k * Suc i" using b by simp
    finally show ?thesis .
  qed
  have "dupfix_values mp' = take hole (dupfix_values mp) @ drop (Suc hole) (dupfix_values mp)"
  proof (rule nth_equalityI)
    show "length (dupfix_values mp') = length (take hole (dupfix_values mp) @ drop (Suc hole) (dupfix_values mp))"
      using hole by (simp add: dupfix_values_def n')
    fix i assume "i < length (dupfix_values mp')"
    then have i: "i < ?n - 1" by (simp add: dupfix_values_def n')
    have v: "dupfix_values mp ! j = slice (?k * j) ?k ?d" if "j < ?n" for j
      using that fits(2) by (simp add: dupfix_values_def dupfix_value_slice)
    have "dupfix_values mp' ! i = slice (?k * i) ?k d'"
      using i wf_dupfix_fits(2)[OF wf'] n' by (simp add: dupfix_values_def dupfix_value_slice r)
    also have "\<dots> = (take hole (dupfix_values mp) @ drop (Suc hole) (dupfix_values mp)) ! i"
    proof (cases "i < hole")
      case True
      then show ?thesis using low v hole by (simp add: nth_append dupfix_values_def min_def)
    next
      case False
      then have "(take hole (dupfix_values mp) @ drop (Suc hole) (dupfix_values mp)) ! i = dupfix_values mp ! Suc i"
        using hole i by (simp add: nth_append dupfix_values_def min_def)
      then show ?thesis using high[of i] v[of "Suc i"] False i by simp
    qed
    finally show "dupfix_values mp' ! i = (take hole (dupfix_values mp) @ drop (Suc hole) (dupfix_values mp)) ! i" .
  qed
  then show ?thesis using wf' room by simp
qed

subsection \<open>Witnesses\<close>

definition empty_page :: "nat \<Rightarrow> nat \<Rightarrow> page" where
  "empty_page flags space = \<lparr>pg_txnid = 7, pg_ksize = 2, pg_flags = flags, pg_lower = 0, pg_upper = space, pg_pgno = 5,
     pg_entries = replicate (space div 2) 0, pg_data = replicate space 0\<rparr>"

lemma empty_page_wf:
  assumes "even space" "space < 2 ^ 16" "flags AND P_DUPFIX = 0"
  shows "wf_page (empty_page flags space)" "page_leaves (empty_page flags space) = []" "page_branches (empty_page flags space) = []"
    "page_numkeys (empty_page flags space) = 0" "page_room (empty_page flags space) = space" "is_leaf (empty_page flags space) \<longleftrightarrow> flags AND P_LEAF \<noteq> 0"
proof -
  show n: "page_numkeys (empty_page flags space) = 0" by (simp add: page_numkeys_def empty_page_def)
  then have u: "used_entries (empty_page flags space) = []" by (simp add: used_entries_def)
  show "wf_page (empty_page flags space)" using assms unfolding wf_page_def u
    by (simp add: empty_page_def is_dupfix_leaf_def is_bytes_def wf_nodes_def list_all_iff)
  show "page_leaves (empty_page flags space) = []" "page_branches (empty_page flags space) = []" using u by (simp_all add: page_leaves_def page_branches_def)
  show "page_room (empty_page flags space) = space" "is_leaf (empty_page flags space) \<longleftrightarrow> flags AND P_LEAF \<noteq> 0"
    by (simp_all add: page_room_def is_leaf_def empty_page_def)
qed

abbreviation sample_leaf :: page where "sample_leaf \<equiv> empty_page P_LEAF 64"

definition sample_added :: added where
  "sample_added = node_add_leaf sample_env 0 (\<lambda>npages. (MDBX_SUCCESS, 9)) sample_leaf 0 [1, 2] 3 [7, 8, 9] 0"

lemma sample_leaf_wf:
  "wf_page sample_leaf" "page_leaves sample_leaf = []" "page_numkeys sample_leaf = 0" "page_room sample_leaf = 64" "is_leaf sample_leaf"
  using empty_page_wf[of 64 P_LEAF] by (simp_all add: P_LEAF_def P_DUPFIX_def)

lemma sample_not_large: "\<not> goes_large sample_env [1, 2] 3 0"
  by (simp add: goes_large_def node_size_len_def sample_env_def EVEN_CEIL_def NODESIZE_def)

lemma sample_added_ok: "ad_rc sample_added = MDBX_SUCCESS"
  using node_add_leaf_codes_of[OF sample_added_def] sample_not_large
  by (simp add: sample_leaf_wf leaf_needed_def leaf_size_def node_size_len_def sample_env_def EVEN_CEIL_def NODESIZE_def sizeof_indx_def Let_def split: if_splits)

lemma sample_added_spec:
  "wf_page (ad_page sample_added)" "page_leaves (ad_page sample_added) = [([1, 2], 0, 3, [7, 8, 9])]" "ad_large sample_added = None"
  "is_leaf (ad_page sample_added)" "page_numkeys (ad_page sample_added) = 1"
proof -
  have "wf_page (ad_page sample_added) \<and> page_leaves (ad_page sample_added) = [([1, 2], 0, 3, [7, 8, 9])] \<and> ad_large sample_added = None \<and>
      is_leaf (ad_page sample_added)"
    using node_add_leaf_spec[OF sample_leaf_wf(1,5) _ _ _ _ _ _ _ sample_added_def sample_added_ok, of "([1, 2], 0, 3, [7, 8, 9])"] sample_not_large
    by (simp add: sample_leaf_wf is_bytes_def)
  then show "wf_page (ad_page sample_added)" "page_leaves (ad_page sample_added) = [([1, 2], 0, 3, [7, 8, 9])]" "ad_large sample_added = None"
    "is_leaf (ad_page sample_added)" by simp_all
  then show "page_numkeys (ad_page sample_added) = 1" using length_used_entries by (metis length_map length_Cons list.size(3) page_leaves_def One_nat_def)
qed

theorem node_add_leaf_inserts_witness:
  "wf_page (ad_page sample_added) \<and> page_leaves (ad_page sample_added) = [([1, 2], 0, 3, [7, 8, 9])]"
  using node_add_leaf_inserts[OF sample_leaf_wf(1,5) _ _ _ _ _ _ _ sample_added_def sample_added_ok, of "([1, 2], 0, 3, [7, 8, 9])"] sample_not_large
  by (simp add: sample_leaf_wf is_bytes_def)

text \<open>
  A page whose gap is empty: one node of 14 bytes on 16. Adding a second one in front of it fails, and the size of the value of the
  first, 3, has become its entry, 2.
\<close>

definition packed_leaf :: page where
  "packed_leaf = (empty_page P_LEAF 16)\<lparr>pg_lower := 2, pg_upper := 2, pg_entries := [2, 0, 0, 0, 0, 0, 0, 0],
     pg_data := [0, 0, 3, 0, 0, 0, 0, 0, 2, 0, 1, 2, 7, 8, 9, 0]\<rparr>"

lemma packed_leaf_wf: "wf_page packed_leaf"
proof -
  have "is_leaf packed_leaf" "\<not> is_dupfix_leaf packed_leaf"
    by (simp_all add: is_leaf_def is_dupfix_leaf_def packed_leaf_def empty_page_def P_LEAF_def P_DUPFIX_def)
  moreover have "used_entries packed_leaf = [2]" by (simp add: used_entries_def page_numkeys_def packed_leaf_def)
  moreover have "node_len True (pg_data packed_leaf) 2 = 14"
    by (simp add: node_len_def node_ks_def node_flags_def node_ds_def peek_def packed_leaf_def EVEN_CEIL_def NODESIZE_def N_BIG_def)
  ultimately show ?thesis by (simp add: wf_page_def wf_nodes_def packed_leaf_def is_bytes_def)
qed

theorem node_add_leaf_codes_witness:
  "node_ds (pg_data packed_leaf) (page_node packed_leaf 0) = 3 \<and>
   node_ds (pg_data (ad_page (node_add_leaf sample_env 0 (\<lambda>npages. (MDBX_SUCCESS, 9)) packed_leaf 0 [1, 2] 3 [7, 8, 9] 0))) 2 = 2"
proof -
  let ?r = "node_add_leaf sample_env 0 (\<lambda>npages. (MDBX_SUCCESS, 9)) packed_leaf 0 [1, 2] 3 [7, 8, 9] 0"
  have p: "pg_lower packed_leaf = 2" "pg_upper packed_leaf = 2" "page_numkeys packed_leaf = 1" "page_node packed_leaf 0 = 2"
    "drop 4 (pg_data packed_leaf) = [0, 0, 0, 0, 2, 0, 1, 2, 7, 8, 9, 0]" "page_room packed_leaf = 0"
    by (simp_all add: packed_leaf_def page_numkeys_def page_node_def page_room_def)
  have "leaf_needed sample_env [1, 2] 3 0 = 16"
    by (simp add: leaf_needed_def leaf_size_def node_size_len_def sample_env_def EVEN_CEIL_def NODESIZE_def sizeof_indx_def)
  then have full: "page_room packed_leaf < leaf_needed sample_env [1, 2] 3 0" using p by simp
  define r where "r = ?r"
  note codes = node_add_leaf_codes[of sample_env 0 "\<lambda>npages. (MDBX_SUCCESS, 9)" packed_leaf 0 "[1, 2]" 3 "[7, 8, 9]" 0,
    unfolded Let_def, folded r_def]
  have rc: "ad_rc r \<noteq> MDBX_SUCCESS" "ad_txn_error r" using conjunct1[OF codes] sample_not_large full add_codes_ne by simp_all
  have "drop 2 (pg_data (ad_page ?r)) = nodes_after_full packed_leaf 0"
    using conjunct2[OF conjunct2[OF codes]] packed_leaf_wf rc p(2) by (simp add: r_def)
  also have "nodes_after_full packed_leaf 0 = [2, 0] @ [0, 0, 0, 0, 2, 0, 1, 2, 7, 8, 9, 0]"
  proof -
    have "le_bytes 2 2 = [2, 0]" by (simp add: numeral_2_eq_2)
    then show ?thesis using p by (simp add: nodes_after_full_def)
  qed
  finally have "take 4 (drop 2 (pg_data (ad_page ?r))) = [2, 0, 0, 0]" by simp
  then show ?thesis by (simp add: node_ds_def peek_def packed_leaf_def page_node_def)
qed

theorem added_leaf_is_read_witness:
  "node_read sample_env (\<lambda>pgno. (MDBX_CORRUPTED, 0, [])) (pg_data (ad_page sample_added)) (page_node (ad_page sample_added) 0) = Inr [7, 8, 9]"
proof (rule added_leaf_is_read[OF sample_leaf_wf(1,5) _ _ _ _ _ _ _ sample_added_ok, of 0 "[1, 2]" _ 0])
  show "sample_added = node_add_leaf sample_env 0 (\<lambda>npages. (MDBX_SUCCESS, 9)) sample_leaf 0 [1, 2] (length [7, 8, 9 :: nat]) [7, 8, 9] 0"
    by (simp add: sample_added_def numeral_3_eq_3)
qed (simp_all add: sample_added_spec is_bytes_def)

theorem node_del_removes_witness:
  "wf_page (node_del (ad_page sample_added) 0 0) \<and> page_nodes (node_del (ad_page sample_added) 0 0) = []"
  using node_del_removes[OF sample_added_spec(1) _ refl, of 0 0] sample_added_spec(5) length_used_entries[OF sample_added_spec(1)]
  by (simp add: page_nodes_def)

abbreviation sample_branch :: page where "sample_branch \<equiv> empty_page P_BRANCH 64"

theorem node_add_branch_inserts_witness:
  "\<exists>r. node_add_branch sample_env sample_branch 0 None 9 = Some r \<and> wf_page (ad_page r) \<and> page_branches (ad_page r) = [([], 9)]"
proof -
  have wf: "wf_page sample_branch" "page_branches sample_branch = []" "page_numkeys sample_branch = 0" "page_room sample_branch = 64" "\<not> is_leaf sample_branch"
    using empty_page_wf[of 64 P_BRANCH] by (simp_all add: P_BRANCH_def P_LEAF_def P_DUPFIX_def)
  have "branch_size sample_env 0 = Some 10"
    by (simp add: branch_size_def node_size_len_def sample_env_def EVEN_CEIL_def NODESIZE_def sizeof_indx_def)
  then show ?thesis
    using node_add_branch_inserts[OF wf(1,5), of 0 None 9 sample_env 10] wf by (auto simp: key_bytes_def is_bytes_def empty_page_def)
qed

end
