(* ===== verification/Node_Search.thy ===== *)
theory Node_Search
  imports Page
begin

text \<open>
  Searching a page for a key: the search without branches on the result of the comparison, as it is generated for leaf
  and branch pages and for every comparator; the older search it is checked against; and the choice of the variant for a
  cursor. Sizes and indices are signed numbers, as in the code. With unaligned access allowed, the comparators for a
  known alignment are the general one.
\<close>

unbundle bit_operations_syntax

subsection \<open>The search without branches\<close>

text \<open>\<open>CMP >>= 63\<close>: all bits are the sign of the result.\<close>

definition sign_mask :: "int \<Rightarrow> int" where "sign_mask cmp = drop_bit 63 cmp"

text \<open>
  The loop: \<open>cmp_at\<close> compares the key of an index with the key sought. The result is the index, whether the key is
  there, the lower bound, and the number of comparisons.
\<close>

record search_result =
  sr_it :: int
  sr_exact :: bool
  sr_lo :: int
  sr_steps :: nat

lemma scope_decreases:
  assumes "0 < drop_bit 1 (scope - 1) + (x AND (scope - 1) AND 1)"
  shows "drop_bit 1 (scope - 1) + (x AND (scope - 1) AND 1) < (scope :: int)"
proof -
  define y where "y = x AND (scope - 1) AND 1"
  have "y \<le> (scope - 1) AND 1" unfolding y_def by (rule AND_upper2) simp
  then have "y \<le> (scope - 1) mod 2" by (simp add: and_one_eq)
  moreover have "0 < (scope - 1) div 2 + y" using assms by (simp add: drop_bit_eq_div flip: y_def)
  ultimately have "(scope - 1) div 2 + y < scope" by presburger
  then show ?thesis by (simp add: drop_bit_eq_div flip: y_def)
qed

function search_cycle :: "(int \<Rightarrow> int) \<Rightarrow> int \<Rightarrow> int \<Rightarrow> nat \<Rightarrow> search_result" where
  "search_cycle cmp_at lower scope steps =
     (let adjust = scope - 1; half = drop_bit 1 adjust;
          adjust = adjust AND 1;
          it = lower + half;
          cmp = cmp_at it
      in if cmp = 0 then \<lparr>sr_it = it, sr_exact = True, sr_lo = lower, sr_steps = steps + 1\<rparr>
         else let cmp = sign_mask cmp;
                  lower = lower + ((half + 1) AND cmp);
                  scope' = half + (cmp AND adjust)
              in if 0 < scope' then search_cycle cmp_at lower scope' (steps + 1)
                 else \<lparr>sr_it = it + (cmp AND 1), sr_exact = False, sr_lo = lower, sr_steps = steps + 1\<rparr>)"
  by pat_completeness auto

termination
proof (relation "measure (\<lambda>(_, _, scope, _). nat scope)", goal_cases)
  case (2 cmp_at lower scope steps adjust half adjust' it cmp cmp' lower' scope')
  then show ?case using scope_decreases[of scope cmp'] by (simp add: ac_simps)
qed simp

declare search_cycle.simps [simp del]

subsection \<open>Searching a page\<close>

text \<open>A node that was found: its index, the mark for a page of values of one size, or none.\<close>

datatype node_ptr = Null_node | Fake_node | Node_at int

text \<open>What a search gives: the index for the cursor, the node, whether it is exact, the comparisons.\<close>

record found =
  fd_ki :: nat
  fd_node :: node_ptr
  fd_exact :: bool
  fd_steps :: nat

definition not_searched :: found where
  "not_searched = \<lparr>fd_ki = 0, fd_node = Null_node, fd_exact = False, fd_steps = 0\<rparr>"

definition node_found :: "int \<Rightarrow> (int \<Rightarrow> node_ptr) \<Rightarrow> search_result \<Rightarrow> found" where
  "node_found nkeys node_of r =
     \<lparr>fd_ki = nat (sr_it r mod 2 ^ 16),
      fd_node = (if sr_exact r then node_of (sr_it r) else if sr_it r < nkeys then node_of (sr_it r) else Null_node),
      fd_exact = sr_exact r, fd_steps = sr_steps r\<rparr>"

definition key_at :: "page \<Rightarrow> int \<Rightarrow> bytes" where
  "key_at mp i = get_key (pg_data mp) (page_node mp (nat i))"

definition search_foliage ::
  "(bytes \<Rightarrow> bytes \<Rightarrow> int) \<Rightarrow> (bytes \<Rightarrow> bytes \<Rightarrow> int) \<Rightarrow> bool \<Rightarrow> bool \<Rightarrow> page \<Rightarrow> bytes \<Rightarrow> found" where
  "search_foliage branch_cmp leaf_cmp different_cmps dupfixed mp key =
     (let nkeys = int (page_numkeys mp); lo = int (pg_flags mp AND P_BRANCH); hi = nkeys - 1
      in if hi < lo then not_searched
         else let scope = nkeys - lo
              in if 0 < lo \<or> \<not> (different_cmps \<or> dupfixed)
                 then node_found nkeys Node_at (search_cycle (\<lambda>it. branch_cmp (key_at mp it) key) lo scope 0)
                 else if dupfixed
                 then node_found nkeys (\<lambda>_. Fake_node) (search_cycle (\<lambda>it. leaf_cmp (page_dupfix_key mp (nat it)) key) lo scope 0)
                 else node_found nkeys Node_at (search_cycle (\<lambda>it. leaf_cmp (key_at mp it) key) lo scope 0))"

text \<open>The child of a branch page to go to, and the comparisons.\<close>

definition search_branch :: "(bytes \<Rightarrow> bytes \<Rightarrow> int) \<Rightarrow> page \<Rightarrow> bytes \<Rightarrow> nat \<times> nat" where
  "search_branch cmp mp key =
     (let nkeys = int (page_numkeys mp); lo = 1; scope = nkeys - lo
      in if 1 < nkeys
         then let r = search_cycle (\<lambda>it. cmp (key_at mp it) key) lo scope 0
              in (nat (if sr_exact r then sr_it r else sr_lo r - 1), sr_steps r)
         else (nat (lo - 1), 0))"

subsection \<open>The older search\<close>

function old_cycle :: "(int \<Rightarrow> int) \<Rightarrow> int \<Rightarrow> int \<Rightarrow> nat \<Rightarrow> int \<times> bool \<times> nat" where
  "old_cycle cmp_with lo hi steps =
     (let i = drop_bit 1 (lo + hi); cmp = cmp_with i
      in if 0 < cmp
         then if i + 1 \<le> hi then old_cycle cmp_with (i + 1) hi (steps + 1) else (i + 1, False, steps + 1)
         else if cmp < 0
         then if lo \<le> i - 1 then old_cycle cmp_with lo (i - 1) (steps + 1) else (i, False, steps + 1)
         else (i, True, steps + 1))"
  by pat_completeness auto
termination by (relation "measure (\<lambda>(_, lo, hi, _). nat (hi + 1 - lo))") (auto simp: drop_bit_eq_div)

declare old_cycle.simps [simp del]

definition old_node_search :: "(bytes \<Rightarrow> bytes \<Rightarrow> int) \<Rightarrow> page \<Rightarrow> bytes \<Rightarrow> found" where
  "old_node_search cmp mp key =
     (let nkeys = int (page_numkeys mp); lo = int (pg_flags mp AND P_BRANCH); hi = nkeys - 1
      in if hi < lo then not_searched
         else if is_dupfix_leaf mp
         then case old_cycle (\<lambda>i. cmp key (page_dupfix_key mp (nat i))) lo hi 0 of (i, exact, steps) \<Rightarrow>
                \<lparr>fd_ki = nat (i mod 2 ^ 16), fd_node = (if i < nkeys then Fake_node else Null_node), fd_exact = exact, fd_steps = steps\<rparr>
         else case old_cycle (\<lambda>i. cmp key (key_at mp i)) lo hi 0 of (i, exact, steps) \<Rightarrow>
                \<lparr>fd_ki = nat (i mod 2 ^ 16), fd_node = (if i < nkeys then Node_at i else Null_node), fd_exact = exact, fd_steps = steps\<rparr>)"

definition old_branch_search :: "(bytes \<Rightarrow> bytes \<Rightarrow> int) \<Rightarrow> page \<Rightarrow> bytes \<Rightarrow> nat \<times> nat" where
  "old_branch_search cmp mp key =
     (let nsr = old_node_search cmp mp key
      in (nat (if fd_node nsr = Null_node then int (page_numkeys mp) - 1 else int (fd_ki nsr) + of_bool (fd_exact nsr) - 1), fd_steps nsr))"

subsection \<open>The variant for a cursor\<close>

datatype cmp_func = Ncmp_lexical | Ncmp_reverse | Ncmp_lenfast | Ncmp_uint_unaligned | Custom "bytes \<Rightarrow> bytes \<Rightarrow> int"

text \<open>The generated variants, by their comparator.\<close>

datatype variant = V_lexical | V_reverse | V_lenfast | V_ordinal | V_uint32 | V_uint64 | V_custom

fun run_cmp :: "cmp_func \<Rightarrow> bytes \<Rightarrow> bytes \<Rightarrow> int" where
  "run_cmp Ncmp_lexical = cmp_lexical"
| "run_cmp Ncmp_reverse = cmp_reverse"
| "run_cmp Ncmp_lenfast = cmp_lenfast"
| "run_cmp Ncmp_uint_unaligned = cmp_uint"
| "run_cmp (Custom cmp) = cmp"

text \<open>The comparator compiled into a variant; the custom one calls the function of the table.\<close>

fun variant_cmp :: "cmp_func \<Rightarrow> variant \<Rightarrow> bytes \<Rightarrow> bytes \<Rightarrow> int" where
  "variant_cmp f V_lexical = cmp_lexical"
| "variant_cmp f V_reverse = cmp_reverse"
| "variant_cmp f V_lenfast = cmp_lenfast"
| "variant_cmp f V_ordinal = cmp_uint"
| "variant_cmp f V_uint32 = cmp_uint32_unchecked"
| "variant_cmp f V_uint64 = cmp_uint64_unchecked"
| "variant_cmp f V_custom = run_cmp f"

text \<open>The comparator and the limits of the length of keys.\<close>

record clc =
  clc_cmp :: cmp_func
  clc_lmin :: nat
  clc_lmax :: nat

definition ordinal_variant :: "bool \<Rightarrow> clc \<Rightarrow> nat \<Rightarrow> variant option" where
  "ordinal_variant validation k keylen =
     (let ordinal = (if clc_cmp k = Ncmp_uint_unaligned then keylen else 0)
      in if ordinal = 0 then None
         else if \<not> validation \<and> ordinal = clc_lmin k \<and> ordinal = clc_lmax k
         then if ordinal = 4 then Some V_uint32 else if ordinal = 8 then Some V_uint64 else Some V_ordinal
         else Some V_ordinal)"

text \<open>
  The result says whether it is a variant for pages of values of one size, and the limits, which are narrowed there to
  the size.
\<close>

definition cursor_to_search_foliage :: "bool \<Rightarrow> nat \<Rightarrow> bool \<Rightarrow> nat \<Rightarrow> clc \<Rightarrow> page \<Rightarrow> bool \<times> variant \<times> clc" where
  "cursor_to_search_foliage validation tree_flags inner dupfix_size k mp =
     (case clc_cmp k of
        Ncmp_lexical \<Rightarrow> (has_flag tree_flags MDBX_DUPFIXED \<and> inner, V_lexical, k)
      | Ncmp_reverse \<Rightarrow> (has_flag tree_flags MDBX_DUPFIXED \<and> inner, V_reverse, k)
      | Ncmp_lenfast \<Rightarrow> (has_flag tree_flags MDBX_DUPFIXED \<and> inner, V_lenfast, k)
      | _ \<Rightarrow>
        if has_flag tree_flags MDBX_DUPFIXED \<and> inner
        then if has_flag tree_flags MDBX_INTEGERKEY
             then let keylen = dupfix_size;
                      k = (if clc_lmin k \<le> keylen \<and> keylen \<le> clc_lmax k \<and> (keylen = 4 \<or> keylen = 8)
                           then k\<lparr>clc_lmin := keylen, clc_lmax := keylen\<rparr> else k)
                  in case ordinal_variant validation k keylen of None \<Rightarrow> (True, V_custom, k) | Some v \<Rightarrow> (True, v, k)
             else (True, V_custom, k)
        else if has_flag tree_flags MDBX_INTEGERKEY
             then case ordinal_variant validation k (node_ks (pg_data mp) (page_node mp 0)) of
                    None \<Rightarrow> (False, V_custom, k) | Some v \<Rightarrow> (False, v, k)
             else (False, V_custom, k))"

definition cursor_to_search_branch :: "bool \<Rightarrow> nat \<Rightarrow> clc \<Rightarrow> page \<Rightarrow> variant" where
  "cursor_to_search_branch validation tree_flags k mp =
     (case clc_cmp k of
        Ncmp_lexical \<Rightarrow> V_lexical
      | Ncmp_reverse \<Rightarrow> V_reverse
      | Ncmp_lenfast \<Rightarrow> V_lenfast
      | _ \<Rightarrow>
        if has_flag tree_flags MDBX_INTEGERKEY
        then let keylen = (if is_dupfix_leaf mp then pg_ksize mp else node_ks (pg_data mp) (page_node mp (pg_flags mp AND P_BRANCH)))
             in case ordinal_variant validation k keylen of None \<Rightarrow> V_custom | Some v \<Rightarrow> v
        else V_custom)"

text \<open>The search with the variant chosen.\<close>

definition tree_search_foliage :: "bool \<Rightarrow> nat \<Rightarrow> bool \<Rightarrow> nat \<Rightarrow> clc \<Rightarrow> page \<Rightarrow> bytes \<Rightarrow> found" where
  "tree_search_foliage validation tree_flags inner dupfix_size k mp key =
     (case cursor_to_search_foliage validation tree_flags inner dupfix_size k mp of (dupfixed, v, k') \<Rightarrow>
        search_foliage (variant_cmp (clc_cmp k) v) (variant_cmp (clc_cmp k) v) False dupfixed mp key)"

definition tree_search_branch :: "bool \<Rightarrow> nat \<Rightarrow> clc \<Rightarrow> page \<Rightarrow> bytes \<Rightarrow> nat" where
  "tree_search_branch validation tree_flags k mp key =
     fst (search_branch (variant_cmp (clc_cmp k) (cursor_to_search_branch validation tree_flags k mp)) mp key)"

end
