(* ===== verification/Cursor.thy ===== *)
theory Cursor
  imports Node_Search
begin

text \<open>
  Cursors: the state packed into one 32-bit word (flags, depth of the stack, and how much of the stack is stashed behind
  it), the stack of pages, and getting a page of the tree: from the list of dirty pages of the transaction or of one
  that encloses it, or from the map, with the checks of its header. Numbers have the width they have in the code; a
  cursor for the values of a key is the inner one of a couple.
\<close>

unbundle bit_operations_syntax

subsection \<open>The state of a cursor\<close>

definition s8 :: "int \<Rightarrow> int" where "s8 x = (x + 2 ^ 7) mod 2 ^ 8 - 2 ^ 7"
definition s16 :: "int \<Rightarrow> int" where "s16 x = (x + 2 ^ 15) mod 2 ^ 16 - 2 ^ 15"
definition s32 :: "int \<Rightarrow> int" where "s32 x = (x + 2 ^ 31) mod 2 ^ 32 - 2 ^ 31"

definition z_inner :: int where "z_inner = 0x01"
definition z_gcu_preparation :: int where "z_gcu_preparation = 0x02"
definition z_fresh :: int where "z_fresh = 0x04"
definition z_after_delete :: int where "z_after_delete = 0x08"
definition z_disable_tree_search_fastpath :: int where "z_disable_tree_search_fastpath = 0x10"
definition z_eof_soft :: int where "z_eof_soft = 0x20"
definition z_eof_hard :: int where "z_eof_hard = 0x40"
definition z_hollow :: int where "z_hollow = -128"
definition z_clear_mask :: int where "z_clear_mask = z_inner OR z_gcu_preparation"
definition z_poor_mark :: int where "z_poor_mark = z_eof_hard OR z_hollow OR z_disable_tree_search_fastpath"
definition z_fresh_mark :: int where "z_fresh_mark = z_poor_mark OR z_fresh"

record cursor_state =
  cs_flags :: int
  cs_top :: int
  cs_stash :: int

definition top_and_stash :: "cursor_state \<Rightarrow> int" where
  "top_and_stash c = s16 (cs_top c mod 2 ^ 8 + 2 ^ 8 * (cs_stash c mod 2 ^ 8))"

definition set_top_and_stash :: "int \<Rightarrow> cursor_state \<Rightarrow> cursor_state" where
  "set_top_and_stash v c = c\<lparr>cs_top := s8 v, cs_stash := s8 (drop_bit 8 v)\<rparr>"

definition combo_state :: "cursor_state \<Rightarrow> int" where
  "combo_state c = s32 (cs_flags c mod 2 ^ 16 + 2 ^ 16 * (top_and_stash c mod 2 ^ 16))"

definition set_combo_state :: "int \<Rightarrow> cursor_state \<Rightarrow> cursor_state" where
  "set_combo_state v c = set_top_and_stash (s16 (drop_bit 16 v)) (c\<lparr>cs_flags := s16 v\<rparr>)"

definition is_inner :: "cursor_state \<Rightarrow> bool" where "is_inner c \<longleftrightarrow> cs_flags c AND z_inner \<noteq> 0"
definition is_poor :: "cursor_state \<Rightarrow> bool" where "is_poor c \<longleftrightarrow> cs_top c < 0"
definition is_pointed :: "cursor_state \<Rightarrow> bool" where "is_pointed c \<longleftrightarrow> 0 \<le> cs_top c"
definition is_hollow :: "cursor_state \<Rightarrow> bool" where "is_hollow c \<longleftrightarrow> cs_flags c < 0"
definition is_eof :: "cursor_state \<Rightarrow> bool" where "is_eof c \<longleftrightarrow> z_eof_soft \<le> cs_flags c mod 2 ^ 8"
definition is_filled :: "cursor_state \<Rightarrow> bool" where "is_filled c \<longleftrightarrow> cs_flags c mod 2 ^ 8 < z_eof_hard"

definition mark_poor :: "cursor_state \<Rightarrow> cursor_state" where
  "mark_poor c = set_combo_state (combo_state c OR z_poor_mark) c"

definition mark_filled :: "cursor_state \<Rightarrow> cursor_state" where
  "mark_filled c = c\<lparr>cs_flags := s16 (cs_flags c AND z_clear_mask)\<rparr>"

definition push_top :: "cursor_state \<Rightarrow> cursor_state" where
  "push_top c = set_top_and_stash (s16 (cs_top c + 1)) c"

definition cursor_eject :: "cursor_state \<Rightarrow> cursor_state" where
  "cursor_eject c = set_top_and_stash (s16 (cs_top c - 1)) c"

definition cursor_enroot :: "int \<Rightarrow> cursor_state \<Rightarrow> cursor_state" where
  "cursor_enroot step c = (let delta = s16 (push_bit 8 step - step) in set_top_and_stash (s16 (top_and_stash c + delta)) c)"

definition cursor_undo_enroot :: "int \<Rightarrow> cursor_state \<Rightarrow> cursor_state" where
  "cursor_undo_enroot step c = (let delta = s16 (push_bit 8 step - step) in set_top_and_stash (s16 (top_and_stash c - delta)) c)"

text \<open>
  The other stores of the code to the state of a cursor, each with the check that goes with it: bits that are set, cleared
  or subtracted; the flags behind the last key and those of a poor cursor that is moved; a depth that is stored together
  with an empty stash; the loop that makes the stack writable; and the stores to the depth or the stash alone, when a
  root is split or dropped and when a page is kept behind the top. \<open>OR\<close> and \<open>AND\<close> of numbers of 16 bits are numbers
  of 16 bits.
\<close>

definition be_poor_state :: "cursor_state \<Rightarrow> cursor_state" where
  "be_poor_state c = (if is_inner c then set_combo_state (z_inner OR z_poor_mark) c else mark_poor c)"

definition push_or_poor :: "cursor_state \<Rightarrow> cursor_state" where
  "push_or_poor c = (if int CURSOR_STACK_SIZE \<le> cs_top c + 1 then be_poor_state c else push_top c)"

definition raise_flags :: "int \<Rightarrow> cursor_state \<Rightarrow> cursor_state" where
  "raise_flags m c = c\<lparr>cs_flags := cs_flags c OR m\<rparr>"

definition clear_flags :: "int \<Rightarrow> cursor_state \<Rightarrow> cursor_state" where
  "clear_flags m c = c\<lparr>cs_flags := cs_flags c AND NOT m\<rparr>"

definition end_preparation :: "cursor_state \<Rightarrow> cursor_state" where
  "end_preparation c = c\<lparr>cs_flags := s16 (cs_flags c - z_gcu_preparation)\<rparr>"

definition past_end_flags :: "cursor_state \<Rightarrow> cursor_state" where
  "past_end_flags c = c\<lparr>cs_flags := z_eof_soft OR z_eof_hard OR (cs_flags c AND z_clear_mask)\<rparr>"

definition unset_flags :: "cursor_state \<Rightarrow> cursor_state" where
  "unset_flags c = c\<lparr>cs_flags := (if is_inner c then z_inner OR z_poor_mark else z_poor_mark)\<rparr>"

definition set_level :: "int \<Rightarrow> cursor_state \<Rightarrow> cursor_state" where
  "set_level level c = set_top_and_stash (s16 level) c"

definition touch_level :: "nat \<Rightarrow> cursor_state \<Rightarrow> cursor_state" where
  "touch_level n c = (let i = push_bit 8 (cs_top c) + int n * (1 - 2 ^ 8) in set_top_and_stash (s16 i) c)"

definition compacting_down :: "int \<Rightarrow> cursor_state \<Rightarrow> rc \<times> cursor_state" where
  "compacting_down deep_limit c =
     (let c = set_top_and_stash (s16 (cs_top c + 1)) c
      in (if deep_limit \<le> cs_top c then MDBX_CURSOR_FULL else MDBX_SUCCESS, c))"

definition split_root :: "cursor_state \<Rightarrow> cursor_state" where
  "split_root c = c\<lparr>cs_top := 1\<rparr>"

definition shift_root :: "cursor_state \<Rightarrow> cursor_state" where
  "shift_root c = c\<lparr>cs_top := s8 (cs_top c + 1)\<rparr>"

definition drop_root :: "cursor_state \<Rightarrow> cursor_state" where
  "drop_root c = (let c = c\<lparr>cs_top := s8 (cs_top c - 1)\<rparr> in if cs_top c < 0 then be_poor_state c else c)"

definition stash_page :: "cursor_state \<Rightarrow> rc \<times> cursor_state" where
  "stash_page c =
     (let c = c\<lparr>cs_stash := s8 (cs_stash c + 1)\<rparr>
      in if int CURSOR_STACK_SIZE \<le> cs_top c + cs_stash c then (MDBX_CURSOR_FULL, be_poor_state c) else (MDBX_SUCCESS, c))"

definition unstash_page :: "cursor_state \<Rightarrow> cursor_state" where
  "unstash_page c = c\<lparr>cs_stash := s8 (cs_stash c - 1)\<rparr>"

definition drop_stash :: "cursor_state \<Rightarrow> cursor_state" where
  "drop_stash c = c\<lparr>cs_stash := 0\<rparr>"

subsection \<open>Cursors\<close>


text \<open>
  What a cursor reads of its table: the handle, the flags, the size of values of one size and the time of the last change
  of the tree, the comparators and limits of keys and of values, and whether the record of the table is out of date. The root is a field of the cursor.
\<close>

record table =
  tb_dbi :: nat
  tb_flags :: nat
  tb_dupfix_size :: nat
  tb_mod_txnid :: txnid
  tb_clc :: clc
  tb_vals :: clc
  tb_stale :: bool

text \<open>
  The state, the stack, the bits of the type a leaf has, the root of the tree and its table; for an outer cursor also the
  root of the nested tree and the state of the inner cursor of the couple.
\<close>

record cursor =
  mc_state :: cursor_state
  mc_pg :: "page list"
  mc_ki :: "nat list"
  mc_checking :: nat
  mc_root :: pgno
  mc_table :: table
  mc_inner_root :: pgno
  mc_inner_state :: cursor_state

definition mc_top :: "cursor \<Rightarrow> nat" where "mc_top mc = nat (cs_top (mc_state mc))"
definition top_page :: "cursor \<Rightarrow> page" where "top_page mc = mc_pg mc ! mc_top mc"
definition top_ki :: "cursor \<Rightarrow> nat" where "top_ki mc = mc_ki mc ! mc_top mc"
definition set_top_ki :: "nat \<Rightarrow> cursor \<Rightarrow> cursor" where "set_top_ki ki mc = mc\<lparr>mc_ki := (mc_ki mc)[mc_top mc := ki]\<rparr>"

definition inner_gone_unconditional :: "cursor \<Rightarrow> cursor" where
  "inner_gone_unconditional mc =
     mc\<lparr>mc_inner_root := 0, mc_inner_state := set_combo_state (z_inner OR z_poor_mark) (mc_inner_state mc)\<rparr>"

definition be_poor :: "cursor \<Rightarrow> cursor" where
  "be_poor mc =
     (if is_inner (mc_state mc)
      then mc\<lparr>mc_root := 0, mc_state := set_combo_state (z_inner OR z_poor_mark) (mc_state mc)\<rparr>
      else inner_gone_unconditional (mc\<lparr>mc_state := mark_poor (mc_state mc)\<rparr>))"

definition be_filled :: "cursor \<Rightarrow> cursor" where "be_filled mc = mc\<lparr>mc_state := mark_filled (mc_state mc)\<rparr>"

definition page_type :: "page \<Rightarrow> nat" where "page_type mp = pg_flags mp mod 2 ^ 8"

definition check_leaf_type :: "cursor \<Rightarrow> page \<Rightarrow> bool" where
  "check_leaf_type mc mp \<longleftrightarrow> (page_type mp XOR mc_checking mc) AND (P_BRANCH OR P_LEAF OR P_LARGE OR P_DUPFIX) = 0"

subsection \<open>Getting a page\<close>

definition MDBX_TXN_FINISHED :: nat where "MDBX_TXN_FINISHED = 0x01"
definition MDBX_TXN_ERROR :: nat where "MDBX_TXN_ERROR = 0x02"
definition MDBX_TXN_DIRTY :: nat where "MDBX_TXN_DIRTY = 0x04"
definition MDBX_TXN_SPILLS :: nat where "MDBX_TXN_SPILLS = 0x08"
definition MDBX_TXN_HAS_CHILD :: nat where "MDBX_TXN_HAS_CHILD = 0x10"
definition MDBX_TXN_PARKED :: nat where "MDBX_TXN_PARKED = 0x20"
definition MDBX_TXN_BLOCKED :: nat where
  "MDBX_TXN_BLOCKED = MDBX_TXN_FINISHED OR MDBX_TXN_ERROR OR MDBX_TXN_HAS_CHILD OR MDBX_TXN_PARKED"
definition txn_ro_flat :: nat where "txn_ro_flat = 0x20000"

text \<open>
  A transaction as one of a chain: whether it spilled a page, its dirty pages by number, the tables it changed, and the
  id that its pages have.
\<close>

record layer =
  ly_flags :: nat
  ly_spilled :: "pgno \<Rightarrow> bool"
  ly_dirty :: "pgno \<Rightarrow> page option"
  ly_dbi_dirty :: "nat \<Rightarrow> bool"
  ly_front_txnid :: txnid

text \<open>\<open>tx_layers\<close> are the transaction and those that enclose it, \<open>tx_map\<close> the pages of the file.\<close>

record txn =
  tx_flags :: nat
  tx_txnid :: txnid
  tx_front_txnid :: txnid
  tx_first_unallocated :: pgno
  tx_ps :: nat
  tx_map :: "pgno \<Rightarrow> page"
  tx_layers :: "layer list"

definition txn_error :: "txn \<Rightarrow> txn" where "txn_error txn = txn\<lparr>tx_flags := tx_flags txn OR MDBX_TXN_ERROR\<rparr>"

definition P_SPILLED :: nat where "P_SPILLED = 0x2000"
definition P_ILL_BITS :: nat where
  "P_ILL_BITS = 0xFFFF - (P_BRANCH OR P_LEAF OR P_DUPFIX OR P_LARGE OR P_SPILLED)"

text \<open>The number of pages of a large page lies over \<^verbatim>\<open>lower\<close> and \<^verbatim>\<open>upper\<close>.\<close>

definition page_pages :: "page \<Rightarrow> nat" where "page_pages mp = pg_lower mp + 2 ^ 16 * pg_upper mp"

definition check_page_header :: "nat \<Rightarrow> page \<Rightarrow> txn \<Rightarrow> txnid \<Rightarrow> rc" where
  "check_page_header ILL page txn front =
     (if pg_flags page AND ILL \<noteq> 0 then MDBX_CORRUPTED
      else if front < pg_txnid page \<and> (tx_front_txnid txn < pg_txnid page \<or> front < tx_txnid txn) then MDBX_CORRUPTED
      else if (ILL AND P_LARGE \<noteq> 0 \<or> \<not> is_largepage page) \<and> ILL AND (P_BRANCH OR P_LEAF OR P_DUPFIX) = 0
      then if pg_upper page < pg_lower page \<or> pg_lower page AND 1 \<noteq> 0 \<or> tx_ps txn < PAGEHDRSZ + pg_upper page
           then MDBX_CORRUPTED else MDBX_SUCCESS
      else if ILL AND P_LARGE = 0
      then let npages = page_pages page
           in if npages < 1 \<or> MAX_PAGENO div 2 \<le> npages then MDBX_CORRUPTED
              else if tx_first_unallocated txn < (pg_pgno page + npages) mod 2 ^ 32 then MDBX_CORRUPTED
              else MDBX_SUCCESS
      else MDBX_SUCCESS)"

text \<open>The loop over the spillers: \<open>None\<close> stands for the page in the map.\<close>

fun find_dirty :: "layer list \<Rightarrow> pgno \<Rightarrow> page option" where
  "find_dirty [] pgno = None"
| "find_dirty (spiller # parents) pgno =
     (if ly_flags spiller AND MDBX_TXN_SPILLS \<noteq> 0 \<and> ly_spilled spiller pgno then None
      else if ly_flags spiller AND MDBX_TXN_DIRTY \<noteq> 0
      then case ly_dirty spiller pgno of Some mp \<Rightarrow> Some mp | None \<Rightarrow> find_dirty parents pgno
      else find_dirty parents pgno)"

definition page_get_unchecked :: "txn \<Rightarrow> pgno \<Rightarrow> rc \<times> page option" where
  "page_get_unchecked txn pgno =
     (if tx_first_unallocated txn \<le> pgno then (MDBX_PAGE_NOTFOUND, None)
      else let page = (if tx_flags txn AND (txn_ro_flat OR MDBX_WRITEMAP) = 0
                       then case find_dirty (tx_layers txn) pgno of Some mp \<Rightarrow> mp | None \<Rightarrow> tx_map txn pgno
                       else tx_map txn pgno)
           in (if pg_pgno page \<noteq> pgno then MDBX_CORRUPTED else MDBX_SUCCESS, Some page))"

definition z_pagecheck :: nat where "z_pagecheck = 0x80"

text \<open>\<open>page_check\<close> is the complete check of the content of a page, for \<^verbatim>\<open>MDBX_VALIDATION\<close>.\<close>

definition page_get_inline :: "(cursor \<Rightarrow> page \<Rightarrow> rc) \<Rightarrow> nat \<Rightarrow> cursor \<Rightarrow> txn \<Rightarrow> pgno \<Rightarrow> txnid \<Rightarrow> rc \<times> page option \<times> txn" where
  "page_get_inline page_check ILL mc txn pgno front =
     (case page_get_unchecked txn pgno of
        (err, None) \<Rightarrow> (err, None, txn_error txn)
      | (err, Some page) \<Rightarrow>
          if err \<noteq> MDBX_SUCCESS then (err, Some page, txn_error txn)
          else let err = check_page_header ILL page txn front;
                   err = (if err = MDBX_SUCCESS \<and> mc_checking mc AND z_pagecheck \<noteq> 0 then page_check mc page else err)
               in (err, Some page, if err = MDBX_SUCCESS then txn else txn_error txn))"

definition page_get_any :: "(cursor \<Rightarrow> page \<Rightarrow> rc) \<Rightarrow> cursor \<Rightarrow> txn \<Rightarrow> pgno \<Rightarrow> txnid \<Rightarrow> rc \<times> page option \<times> txn" where
  "page_get_any page_check = page_get_inline page_check P_ILL_BITS"

definition page_get_three :: "(cursor \<Rightarrow> page \<Rightarrow> rc) \<Rightarrow> cursor \<Rightarrow> txn \<Rightarrow> pgno \<Rightarrow> txnid \<Rightarrow> rc \<times> page option \<times> txn" where
  "page_get_three page_check = page_get_inline page_check (P_ILL_BITS OR P_LARGE)"

definition page_get_large :: "(cursor \<Rightarrow> page \<Rightarrow> rc) \<Rightarrow> cursor \<Rightarrow> txn \<Rightarrow> pgno \<Rightarrow> txnid \<Rightarrow> rc \<times> page option \<times> txn" where
  "page_get_large page_check = page_get_inline page_check (P_ILL_BITS OR P_BRANCH OR P_LEAF OR P_DUPFIX)"

end
