(* ===== verification/Tree_Search.thy ===== *)
theory Tree_Search
  imports Cursor
begin

text \<open>
  Walking the tree with a cursor: the search from the root to the leaf of a key, to the first or the last leaf, and the
  step from a page to its sibling, which goes up the stack as far as needed and down again. The pages of the stack are
  what reading them gave. What the search calls beside is a parameter: the complete check of a page, making the page on
  the top of the stack writable, and bringing the record of a table up to date.
\<close>

unbundle bit_operations_syntax

subsection \<open>Parameters\<close>

definition MDBX_BAD_DBI :: rc where "MDBX_BAD_DBI = - 30780"

text \<open>
  \<open>touch_page\<close> gives the code, the pages of the stack, the root and the transaction; \<open>refresh_tbl\<close> the code, the record
  of the table, its root and the transaction; \<open>read_large\<close> the code, the number of pages and the bytes of a large page.
\<close>

record calls =
  check_page :: "cursor \<Rightarrow> page \<Rightarrow> rc"
  touch_page :: "cursor \<Rightarrow> txn \<Rightarrow> rc \<times> page list \<times> pgno \<times> txn"
  refresh_tbl :: "cursor \<Rightarrow> txn \<Rightarrow> rc \<times> table \<times> pgno \<times> txn"
  read_large :: "pgno \<Rightarrow> rc \<times> nat \<times> bytes"
  the_env :: env

type_synonym step = "rc \<times> cursor \<times> txn"

text \<open>\<open>bailout\<close>: the cursor is left poor.\<close>

fun bailout :: "step \<Rightarrow> step" where "bailout (err, mc, txn) = (err, be_poor mc, txn)"

definition page_get :: "calls \<Rightarrow> cursor \<Rightarrow> txn \<Rightarrow> pgno \<Rightarrow> txnid \<Rightarrow> rc \<times> page option \<times> txn" where
  "page_get p = page_get_three (check_page p)"

definition page_touch :: "calls \<Rightarrow> cursor \<Rightarrow> txn \<Rightarrow> step" where
  "page_touch p mc txn = (case touch_page p mc txn of (err, pg, root, txn) \<Rightarrow> (err, mc\<lparr>mc_pg := pg, mc_root := root\<rparr>, txn))"

definition tbl_refresh_absent2baddbi :: "calls \<Rightarrow> cursor \<Rightarrow> txn \<Rightarrow> step" where
  "tbl_refresh_absent2baddbi p mc txn =
     (case refresh_tbl p mc txn of (rc, tb, root, txn) \<Rightarrow>
        (if rc \<noteq> MDBX_NOTFOUND then rc else MDBX_BAD_DBI, mc\<lparr>mc_table := tb, mc_root := root\<rparr>, txn))"

subsection \<open>Down the tree\<close>

definition Z_MODIFY :: nat where "Z_MODIFY = 1"
definition Z_ROOTONLY :: nat where "Z_ROOTONLY = 2"
definition Z_FIRST :: nat where "Z_FIRST = 4"
definition Z_LAST :: nat where "Z_LAST = 8"

definition cursor_push :: "page \<Rightarrow> nat \<Rightarrow> cursor \<Rightarrow> txn \<Rightarrow> step" where
  "cursor_push mp ki mc txn =
     (let new_top = cs_top (mc_state mc) + 1
      in if new_top < 0 \<or> int CURSOR_STACK_SIZE \<le> new_top then (MDBX_CURSOR_FULL, be_poor mc, txn_error txn)
         else (MDBX_SUCCESS,
               mc\<lparr>mc_state := push_top (mc_state mc), mc_pg := (mc_pg mc)[nat new_top := mp],
                  mc_ki := (mc_ki mc)[nat new_top := ki]\<rparr>, txn))"

text \<open>The index of the last node, as a number of 16 bits.\<close>

definition last_ki :: "page \<Rightarrow> nat" where "last_ki mp = (page_numkeys mp + 2 ^ 16 - 1) mod 2 ^ 16"

text \<open>
  One step down, as both loops have it: get the child, push it with the index that it shall have, and make it writable
  if that is asked for.
\<close>

definition step_down :: "calls \<Rightarrow> nat \<Rightarrow> pgno \<Rightarrow> txnid \<Rightarrow> (page \<Rightarrow> nat) \<Rightarrow> cursor \<Rightarrow> txn \<Rightarrow> step" where
  "step_down p flags pgno front ki_of mc txn =
     (case page_get p mc txn pgno front of
        (err, None, txn) \<Rightarrow> bailout (err, mc, txn)
      | (err, Some mp, txn) \<Rightarrow>
          if err \<noteq> MDBX_SUCCESS then bailout (err, mc, txn)
          else case cursor_push mp (ki_of mp) mc txn of (err, mc, txn) \<Rightarrow>
            if err \<noteq> MDBX_SUCCESS then bailout (err, mc, txn)
            else if flags AND Z_MODIFY \<noteq> 0
            then case page_touch p mc txn of (err, mc, txn) \<Rightarrow>
              if err \<noteq> MDBX_SUCCESS then bailout (err, mc, txn) else (MDBX_SUCCESS, mc, txn)
            else (MDBX_SUCCESS, mc, txn))"

definition leaf_reached :: "cursor \<Rightarrow> txn \<Rightarrow> step" where
  "leaf_reached mc txn =
     (if check_leaf_type mc (top_page mc) then (MDBX_SUCCESS, mc, txn) else bailout (MDBX_CORRUPTED, mc, txn))"

text \<open>The child that the node at an index of a branch page points to.\<close>

definition child_pgno :: "page \<Rightarrow> nat \<Rightarrow> pgno" where "child_pgno mp i = node_pgno (pg_data mp) (page_node mp i)"

lemma push_top_counts: "- 1 \<le> cs_top c \<Longrightarrow> cs_top c + 1 < 32 \<Longrightarrow> cs_top (push_top c) = cs_top c + 1"
  by (simp add: push_top_def set_top_and_stash_def s16_def s8_def)

lemma page_get_none: "page_get p mc txn pgno front = (err, None, txn') \<Longrightarrow> err \<noteq> MDBX_SUCCESS"
  by (auto simp: page_get_def page_get_three_def page_get_inline_def page_get_unchecked_def Let_def MDBX_PAGE_NOTFOUND_def MDBX_SUCCESS_def
      split: prod.splits option.splits if_splits)

lemma step_down_deeper:
  assumes "(MDBX_SUCCESS, mc', txn') = step_down p flags pgno front ki_of mc txn"
  shows "cs_top (mc_state mc') = cs_top (mc_state mc) + 1 \<and> cs_top (mc_state mc') < int CURSOR_STACK_SIZE"
proof -
  have pushed: "cs_top (mc_state mc1) = cs_top (mc_state mc) + 1 \<and> cs_top (mc_state mc1) < int CURSOR_STACK_SIZE"
    if "cursor_push mp ki mc txn1 = (MDBX_SUCCESS, mc1, txn2)" for mp ki txn1 mc1 txn2
    using that push_top_counts[of "mc_state mc"]
    by (auto simp: cursor_push_def Let_def CURSOR_STACK_SIZE_def MDBX_CURSOR_FULL_def MDBX_SUCCESS_def split: if_splits)
  show ?thesis using assms
    by (auto simp: step_down_def page_touch_def dest!: pushed page_get_none[of p mc txn pgno front MDBX_SUCCESS] split: prod.splits option.splits if_splits)
qed

function search_loop :: "calls \<Rightarrow> bytes \<Rightarrow> nat \<Rightarrow> cursor \<Rightarrow> txn \<Rightarrow> step" where
  "search_loop p key flags mc txn =
     (let mp = top_page mc; tb = mc_table mc
      in if \<not> is_branch mp then leaf_reached mc txn
         else let ki = tree_search_branch True (tb_flags tb) (tb_clc tb) mp key
              in case step_down p flags (child_pgno mp ki) (pg_txnid mp) (\<lambda>_. 0) (set_top_ki (ki mod 2 ^ 16) mc) txn of
                   (err, mc', txn') \<Rightarrow> if err \<noteq> MDBX_SUCCESS then (err, mc', txn') else search_loop p key flags mc' txn')"
  by pat_completeness auto
termination
  by (relation "measure (\<lambda>(p, key, flags, mc, txn). nat (32 - cs_top (mc_state mc)))")
    (auto dest!: step_down_deeper simp: set_top_ki_def CURSOR_STACK_SIZE_def)

declare search_loop.simps [simp del]

function tree_deepen_edge :: "calls \<Rightarrow> nat \<Rightarrow> cursor \<Rightarrow> txn \<Rightarrow> step" where
  "tree_deepen_edge p flags mc txn =
     (let mp = top_page mc
      in if \<not> is_branch mp then leaf_reached mc txn
         else case step_down p flags (child_pgno mp (top_ki mc)) (pg_txnid mp)
                     (\<lambda>mp. if flags AND Z_FIRST \<noteq> 0 then 0 else last_ki mp) mc txn of
                (err, mc', txn') \<Rightarrow> if err \<noteq> MDBX_SUCCESS then (err, mc', txn') else tree_deepen_edge p flags mc' txn')"
  by pat_completeness auto
termination
  by (relation "measure (\<lambda>(p, flags, mc, txn). nat (32 - cs_top (mc_state mc)))")
    (auto dest!: step_down_deeper simp: CURSOR_STACK_SIZE_def)

declare tree_deepen_edge.simps [simp del]

definition tree_deepen_lowest :: "calls \<Rightarrow> cursor \<Rightarrow> txn \<Rightarrow> step" where
  "tree_deepen_lowest p mc txn =
     (let mp = top_page mc
      in case page_get p mc txn (child_pgno mp 0) (pg_txnid mp) of
           (err, None, txn) \<Rightarrow> (err, mc, txn)
         | (err, Some mp, txn) \<Rightarrow>
             if err \<noteq> MDBX_SUCCESS then (err, mc, txn)
             else case cursor_push mp 0 (set_top_ki 0 mc) txn of (err, mc, txn) \<Rightarrow>
               if err \<noteq> MDBX_SUCCESS then (err, mc, txn) else tree_deepen_edge p Z_FIRST mc txn)"

subsection \<open>The search\<close>

definition MAIN_DBI :: nat where "MAIN_DBI = 1"

text \<open>The loop over the transaction and those that enclose it.\<close>

fun root_front :: "layer list \<Rightarrow> nat \<Rightarrow> txnid option" where
  "root_front [] dbi = None"
| "root_front (scan # parents) dbi =
     (if ly_flags scan AND MDBX_TXN_DIRTY \<noteq> 0 \<and> (dbi = MAIN_DBI \<or> ly_dbi_dirty scan dbi) then Some (ly_front_txnid scan)
      else root_front parents dbi)"

definition tbl_root_txnid :: "txn \<Rightarrow> table \<Rightarrow> txnid" where
  "tbl_root_txnid txn tb =
     (case if tx_flags txn AND txn_ro_flat = 0 then root_front (tx_layers txn) (tb_dbi tb) else None of
        Some front \<Rightarrow> front
      | None \<Rightarrow> if tb_mod_txnid tb \<noteq> 0 then tb_mod_txnid tb else tx_txnid txn)"

text \<open>The root of the tree on the bottom of the stack.\<close>

definition root_on_stack :: "calls \<Rightarrow> cursor \<Rightarrow> txn \<Rightarrow> step" where
  "root_on_stack p mc txn =
     (if cs_top (mc_state mc) < 0 \<or> pg_pgno (mc_pg mc ! 0) \<noteq> mc_root mc
      then case page_get p mc txn (mc_root mc) (tbl_root_txnid txn (mc_table mc)) of
             (err, None, txn) \<Rightarrow> (err, mc, txn)
           | (err, Some mp, txn) \<Rightarrow> (err, mc\<lparr>mc_pg := (mc_pg mc)[0 := mp]\<rparr>, txn)
      else (MDBX_SUCCESS, mc, txn))"

text \<open>From the root on: \<open>None\<close> as a key stands for the null pointer that is passed with the flags for an edge.\<close>

definition search_from_root :: "calls \<Rightarrow> bytes option \<Rightarrow> nat \<Rightarrow> cursor \<Rightarrow> txn \<Rightarrow> step" where
  "search_from_root p key flags mc txn =
     (let mc = mc\<lparr>mc_state := set_top_and_stash 0 (mc_state mc)\<rparr>;
          mc = mc\<lparr>mc_ki := (mc_ki mc)[0 := if flags AND Z_LAST \<noteq> 0 then last_ki (mc_pg mc ! 0) else 0]\<rparr>
      in case if flags AND Z_MODIFY \<noteq> 0 then page_touch p mc txn else (MDBX_SUCCESS, mc, txn) of (err, mc, txn) \<Rightarrow>
           if err \<noteq> MDBX_SUCCESS then bailout (err, mc, txn)
           else if flags AND Z_ROOTONLY \<noteq> 0 then (MDBX_SUCCESS, mc, txn)
           else if flags AND (Z_FIRST OR Z_LAST) \<noteq> 0 then tree_deepen_edge p flags mc txn
           else search_loop p (case key of Some k \<Rightarrow> k | None \<Rightarrow> []) flags mc txn)"

definition tree_search :: "calls \<Rightarrow> bytes option \<Rightarrow> nat \<Rightarrow> cursor \<Rightarrow> txn \<Rightarrow> step" where
  "tree_search p key flags mc txn =
     (if tx_flags txn AND MDBX_TXN_BLOCKED \<noteq> 0 then bailout (MDBX_BAD_TXN, mc, txn)
      else case if tb_stale (mc_table mc) then tbl_refresh_absent2baddbi p mc txn else (MDBX_SUCCESS, mc, txn) of
        (err, mc, txn) \<Rightarrow>
          if err \<noteq> MDBX_SUCCESS then bailout (err, mc, txn)
          else if mc_root mc = P_INVALID then (MDBX_NOTFOUND, mc, txn)
          else case root_on_stack p mc txn of (err, mc, txn) \<Rightarrow>
            if err \<noteq> MDBX_SUCCESS then bailout (err, mc, txn)
            else search_from_root p key flags mc txn)"

subsection \<open>Siblings\<close>

text \<open>
  The end of a level: the cursor stays on its last page, at the edge; on the right it is marked to be behind the data.
  The two directions are \<open>cursor_sibling_right\<close> and \<open>cursor_sibling_left\<close>, around the step \<open>sibling\<close>.
\<close>

fun sibling_end :: "bool \<Rightarrow> step \<Rightarrow> step" where
  "sibling_end right (err, mc, txn) =
     (if err \<noteq> MDBX_NOTFOUND then (err, mc, txn)
      else if right
      then let mc = set_top_ki (last_ki (top_page mc)) mc
           in (MDBX_NOTFOUND,
               mc\<lparr>mc_state := (mc_state mc)\<lparr>cs_flags := z_eof_soft OR z_eof_hard OR (cs_flags (mc_state mc) AND z_clear_mask)\<rparr>\<rparr>, txn)
      else (MDBX_NOTFOUND, set_top_ki 0 mc, txn))"

definition no_more_keys :: "bool \<Rightarrow> cursor \<Rightarrow> bool" where
  "no_more_keys right mc = (if right then page_numkeys (top_page mc) \<le> top_ki mc + 1 else top_ki mc = 0)"

text \<open>Down again on the other side: the page the parent points to now.\<close>

definition push_sibling :: "calls \<Rightarrow> bool \<Rightarrow> cursor \<Rightarrow> txn \<Rightarrow> step" where
  "push_sibling p right mc txn =
     (let mp = top_page mc
      in case page_get p mc txn (child_pgno mp (top_ki mc)) (pg_txnid mp) of
           (err, None, txn) \<Rightarrow> bailout (err, mc, txn)
         | (err, Some mp, txn) \<Rightarrow>
             if err \<noteq> MDBX_SUCCESS then bailout (err, mc, txn)
             else case cursor_push mp (if right then 0 else last_ki mp) mc txn of (err, mc, txn) \<Rightarrow>
               if err \<noteq> MDBX_SUCCESS then bailout (err, mc, txn) else (err, mc, txn))"

definition enroot1 :: "cursor \<Rightarrow> cursor" where "enroot1 mc = mc\<lparr>mc_state := cursor_enroot 1 (mc_state mc)\<rparr>"

lemma s8_mod: "x mod 256 = y mod 256 \<Longrightarrow> s8 x = s8 y" using mod_add_cong[of x 256 y 128 128] by (simp add: s8_def)

lemma s16_mod_256: "s16 x mod 256 = x mod 256"
proof -
  have "s16 x = x + 256 * (128 - 256 * ((x + 2 ^ 15) div 2 ^ 16) - 128)"
    unfolding s16_def by (simp add: minus_div_mult_eq_mod [symmetric])
  then show ?thesis by (metis mod_mult_self2)
qed

lemma enroot1_up: "1 \<le> cs_top (mc_state mc) \<Longrightarrow> nat (cs_top (mc_state (enroot1 mc))) < nat (cs_top (mc_state mc))"
proof -
  let ?c = "mc_state mc"
  assume t: "1 \<le> cs_top ?c"
  have "s16 (s16 (cs_top ?c mod 256 + 256 * (cs_stash ?c mod 256)) + 255) mod 256 = (cs_top ?c - 1) mod 256"
  proof -
    let ?x = "cs_top ?c mod 256 + 256 * (cs_stash ?c mod 256)"
    have "s16 (s16 ?x + 255) mod 256 = (s16 ?x mod 256 + 255) mod 256" unfolding s16_mod_256[of "s16 ?x + 255"] by (simp only: mod_add_left_eq)
    also have "\<dots> = (?x mod 256 + 255) mod 256" unfolding s16_mod_256[of ?x] by (rule refl)
    also have "?x mod 256 = cs_top ?c mod 256" by (simp only: mod_mult_self2 mod_mod_trivial)
    also have "(cs_top ?c mod 256 + 255) mod 256 = (cs_top ?c - 1 + 256) mod 256" using mod_add_left_eq[of "cs_top ?c" 256 255] by (simp add: algebra_simps)
    also have "\<dots> = (cs_top ?c - 1) mod 256" by (rule mod_add_self2)
    finally show ?thesis .
  qed
  note s8_mod[OF this]
  then have "cs_top (mc_state (enroot1 mc)) = s8 (cs_top ?c - 1)"
    by (simp add: enroot1_def cursor_enroot_def set_top_and_stash_def top_and_stash_def s16_def[of 255])
  moreover have "(cs_top ?c - 1 + 128) mod 256 \<le> cs_top ?c - 1 + 128" using t by (intro zmod_le_nonneg_dividend) simp
  then have "s8 (cs_top ?c - 1) \<le> cs_top ?c - 1" by (simp add: s8_def)
  ultimately show ?thesis using t by simp
qed

function sibling :: "calls \<Rightarrow> bool \<Rightarrow> cursor \<Rightarrow> txn \<Rightarrow> step" where
  "sibling p right mc txn =
     (if cs_top (mc_state mc) < 1 then (MDBX_NOTFOUND, mc, txn)
      else let mc = enroot1 mc
           in if no_more_keys right mc
              then case sibling_end right (sibling p right mc txn) of (err, mc, txn) \<Rightarrow>
                if err = MDBX_NOTFOUND then (err, mc\<lparr>mc_state := cursor_undo_enroot 1 (mc_state mc)\<rparr>, txn)
                else if err \<noteq> MDBX_SUCCESS then bailout (err, mc, txn)
                else push_sibling p right mc txn
              else push_sibling p right (set_top_ki ((if right then top_ki mc + 1 else top_ki mc - 1) mod 2 ^ 16) mc) txn)"
  by pat_completeness auto
termination by (relation "measure (\<lambda>(p, right, mc, txn). nat (cs_top (mc_state mc)))") (auto intro: enroot1_up simp del: nat_mono_iff zless_nat_conj)

declare sibling.simps [simp del]

definition cursor_sibling_right :: "calls \<Rightarrow> cursor \<Rightarrow> txn \<Rightarrow> step" where
  "cursor_sibling_right p mc txn = sibling_end True (sibling p True mc txn)"

definition cursor_sibling_left :: "calls \<Rightarrow> cursor \<Rightarrow> txn \<Rightarrow> step" where
  "cursor_sibling_left p mc txn = sibling_end False (sibling p False mc txn)"

end
