(* ===== verification/Cursor_Ops.thy ===== *)
theory Cursor_Ops
  imports Cursor
begin

text \<open>
  The packed state of a cursor: what each operation does to the flags, the depth and the stash, that every state which
  is reached by the stores of the code is either poor or within the stack, and that the single comparisons the code makes
  tell which.
\<close>

unbundle bit_operations_syntax

subsection \<open>Arithmetic of the packed state\<close>

lemma s8_id: "- 128 \<le> x \<Longrightarrow> x < 128 \<Longrightarrow> s8 x = x" by (simp add: s8_def)
lemma s16_id: "- 32768 \<le> x \<Longrightarrow> x < 32768 \<Longrightarrow> s16 x = x" by (simp add: s16_def)
lemma s16_cong: "x mod 2 ^ 16 = y mod 2 ^ 16 \<Longrightarrow> s16 x = s16 y" unfolding s16_def by (metis mod_add_left_eq)

lemma s32_mod: "s32 x mod 2 ^ 16 = x mod 2 ^ 16"
proof -
  have "s32 x mod 2 ^ 16 = ((x + 2 ^ 31) mod 2 ^ 32 mod 2 ^ 16 - 2 ^ 31) mod 2 ^ 16" unfolding s32_def by (simp only: mod_diff_left_eq)
  also have "(x + 2 ^ 31) mod 2 ^ 32 mod 2 ^ 16 = (x + 2 ^ 31) mod 2 ^ 16" by (rule mod_mod_cancel) (simp add: le_imp_power_dvd)
  also have "((x + 2 ^ 31) mod 2 ^ 16 - 2 ^ 31) mod 2 ^ 16 = (x + 2 ^ 31 - 2 ^ 31) mod 2 ^ 16" by (simp only: mod_diff_left_eq)
  finally show ?thesis by simp
qed

lemma z_values: "z_poor_mark = -48" "z_inner OR z_poor_mark = -47" "z_fresh_mark = -44" "z_clear_mask = 3" "z_fresh_mark OR z_inner = -43"
  by (simp_all add: z_poor_mark_def z_fresh_mark_def z_clear_mask_def z_inner_def z_gcu_preparation_def z_eof_hard_def z_hollow_def
      z_disable_tree_search_fastpath_def z_fresh_def)

text \<open>
  The states a cursor can have: a poor one, with both numbers and the flags negative; one with a stack of at most 32
  pages, of which those behind the top are stashed; or, for a cursor whose walk was just given up, the depth 32. The flags
  are a number of 8 bits with its sign.
\<close>

definition cs_ok :: "cursor_state \<Rightarrow> bool" where
  "cs_ok c \<longleftrightarrow> - 128 \<le> cs_flags c \<and> cs_flags c < 128 \<and>
     (cs_top c = -1 \<and> cs_stash c = -1 \<and> cs_flags c < 0 \<or>
      0 \<le> cs_top c \<and> 0 \<le> cs_stash c \<and> cs_top c + cs_stash c < int CURSOR_STACK_SIZE \<or>
      cs_top c = int CURSOR_STACK_SIZE \<and> cs_stash c = 0)"

lemma stack_size: "CURSOR_STACK_SIZE = 32" by (simp add: CURSOR_STACK_SIZE_def)

lemma top_and_stash_small:
  "0 \<le> cs_top c \<Longrightarrow> 0 \<le> cs_stash c \<Longrightarrow> cs_top c + cs_stash c \<le> 32 \<Longrightarrow> top_and_stash c = cs_top c + 256 * cs_stash c"
  unfolding top_and_stash_def by (simp add: s16_id)

lemma set_top_and_stash_small:
  assumes "0 \<le> t" "0 \<le> s" "t + s \<le> 32"
  shows "set_top_and_stash (t + 256 * s) c = c\<lparr>cs_top := t, cs_stash := s\<rparr>"
proof -
  have "(t + 256 * s) div 256 = s" using assms by simp
  moreover have "s8 (t + 256 * s) = t"
  proof -
    have "t + 256 * s + 128 = (t + 128) + s * 256" by simp
    then have "(t + 256 * s + 128) mod 256 = (t + 128) mod 256" by (simp only: mod_mult_self1)
    then have "(t + 256 * s + 128) mod 256 = t + 128" using assms by simp
    then show ?thesis by (simp add: s8_def)
  qed
  ultimately show ?thesis using assms by (simp add: set_top_and_stash_def drop_bit_eq_div s8_id)
qed

lemma set_top_and_stash_minus_one: "set_top_and_stash (- 1) c = c\<lparr>cs_top := -1, cs_stash := -1\<rparr>"
  by (simp add: set_top_and_stash_def s8_def)

lemma mark_poor_state:
  assumes "- 32768 \<le> cs_flags c" "cs_flags c < 32768"
  shows "mark_poor c = \<lparr>cs_flags = cs_flags c OR z_poor_mark, cs_top = -1, cs_stash = -1\<rparr>"
    and "- 48 \<le> cs_flags c OR z_poor_mark" "cs_flags c OR z_poor_mark < 0"
proof -
  let ?f = "cs_flags c OR z_poor_mark"
  show neg: "?f < 0" by (simp add: z_values)
  show low: "- 48 \<le> ?f" 
  proof -
    have "NOT ?f = NOT (cs_flags c) AND 47" by (simp add: z_values bit.de_Morgan_disj)
    also have "\<dots> \<le> 47" by (rule AND_upper2) simp
    finally show ?thesis unfolding not_int_def by linarith
  qed
  let ?v = "combo_state c OR z_poor_mark"
  have "drop_bit 16 ?v = -1" by (simp add: z_values drop_bit_or)
  have "take_bit 16 ?v = take_bit 16 ?f"
  proof -
    have "take_bit 16 (combo_state c) = take_bit 16 (cs_flags c)"
      unfolding combo_state_def take_bit_eq_mod s32_mod by simp
    then show ?thesis by (simp add: take_bit_or)
  qed
  then have "s16 ?v = ?f" using s16_cong[of ?v ?f] s16_id[of ?f] neg low by (simp add: take_bit_eq_mod)
  then show "mark_poor c = \<lparr>cs_flags = ?f, cs_top = -1, cs_stash = -1\<rparr>"
    unfolding mark_poor_def set_combo_state_def \<open>drop_bit 16 ?v = -1\<close>
    using set_top_and_stash_minus_one[of "c\<lparr>cs_flags := s16 ?v\<rparr>"] by (simp add: s16_id)
qed

lemma set_poor_state: "set_combo_state (z_inner OR z_poor_mark) c = \<lparr>cs_flags = -47, cs_top = -1, cs_stash = -1\<rparr>"
  unfolding set_combo_state_def z_values(2) using set_top_and_stash_minus_one[of "c\<lparr>cs_flags := -47\<rparr>"] by (simp add: s16_id)

lemma push_top_state:
  assumes "- 1 \<le> cs_top c" "cs_top c + 1 < int CURSOR_STACK_SIZE"
  shows "push_top c = c\<lparr>cs_top := cs_top c + 1, cs_stash := 0\<rparr>"
  using assms set_top_and_stash_small[of "cs_top c + 1" 0 c] by (simp add: push_top_def stack_size s16_id)

lemma eject_state:
  assumes "0 < cs_top c" "cs_top c < int CURSOR_STACK_SIZE"
  shows "cursor_eject c = c\<lparr>cs_top := cs_top c - 1, cs_stash := 0\<rparr>"
  using assms set_top_and_stash_small[of "cs_top c - 1" 0 c] by (simp add: cursor_eject_def stack_size s16_id)

lemma enroot_state:
  assumes "0 \<le> step" "step \<le> cs_top c" "0 \<le> cs_stash c" "cs_top c + cs_stash c \<le> int CURSOR_STACK_SIZE"
  shows "cursor_enroot step c = c\<lparr>cs_top := cs_top c - step, cs_stash := cs_stash c + step\<rparr>"
proof -
  have "s16 (push_bit 8 step - step) = 255 * step" using assms by (simp add: push_bit_eq_mult stack_size s16_id)
  moreover have "top_and_stash c = cs_top c + 256 * cs_stash c" using assms by (intro top_and_stash_small) (simp_all add: stack_size)
  ultimately have "s16 (top_and_stash c + s16 (push_bit 8 step - step)) = (cs_top c - step) + 256 * (cs_stash c + step)"
    using assms by (simp add: s16_id stack_size)
  then show ?thesis using assms set_top_and_stash_small[of "cs_top c - step" "cs_stash c + step" c] by (simp add: cursor_enroot_def Let_def stack_size)
qed

lemma undo_enroot_state:
  assumes "0 \<le> step" "0 \<le> cs_top c" "step \<le> cs_stash c" "cs_top c + cs_stash c \<le> int CURSOR_STACK_SIZE"
  shows "cursor_undo_enroot step c = c\<lparr>cs_top := cs_top c + step, cs_stash := cs_stash c - step\<rparr>"
proof -
  have "s16 (push_bit 8 step - step) = 255 * step" using assms by (simp add: push_bit_eq_mult stack_size s16_id)
  moreover have "top_and_stash c = cs_top c + 256 * cs_stash c" using assms by (intro top_and_stash_small) (simp_all add: stack_size)
  ultimately have "s16 (top_and_stash c - s16 (push_bit 8 step - step)) = (cs_top c + step) + 256 * (cs_stash c - step)"
    using assms by (simp add: s16_id stack_size)
  then show ?thesis using assms set_top_and_stash_small[of "cs_top c + step" "cs_stash c - step" c] by (simp add: cursor_undo_enroot_def Let_def stack_size)
qed

subsection \<open>The states that are reached\<close>

text \<open>
  Every store of the code to the state of a cursor (lines of \<^verbatim>\<open>mdbx.c\<close>), under the condition that the code tests or
  asserts there:

  \<^item> \<open>initial\<close>: the whole word is set, when a cursor is made, unset or bound to a page (2901, 2909, 2917, 3165-3172,
    14732, 14747, 14818, 14836, 14869, 15930, 15958, 22950, 42570). A copy of another cursor (14879 and the clones) has
    the state of that one.
  \<^item> \<open>poor\<close> (2914-2921) and \<open>filled\<close> (2930, with a top).
  \<^item> \<open>raised\<close>: bits are set (10765, 10767, 10863, 10864, 15061, 15080, 15103, 16159, 16221, 16238, 16307, 16424, 16426, 23706,
    37988, 38974); \<open>cleared\<close>: bits are cleared (6707, 6708, 6769, 6770, 15415, 16718, 16719); \<open>prepared\<close>: the bit that
    was set is subtracted (23708).
  \<^item> \<open>past_end\<close>: 15017 and 16431, both on a cursor with a top; \<open>unset\<close>: 15167.
  \<^item> \<open>push\<close> (3010-3016); \<open>eject\<close> (3027) with a page below the top, which both its callers have (5278, 37860);
    \<open>enroot\<close> (3036) and \<open>undo\<close> (3045).
  \<^item> \<open>levelled\<close>: the depth is set and nothing is stashed: to 0 (5157, 9240, 39328), to a level that is not above the top
    (17008, 17123, 17162, 37906, 37965), to the depth before a merge (38913, asserted to be within the stack).
  \<^item> \<open>touched\<close>: the loop of 14627-14634; \<open>compacting\<close>: 5251-5255, whose limit is one more than the depth of the first
    leaf (5168), and which gives the walk up at it.
  \<^item> a page is stashed (35010-35014, with 35172) and unstashed (35080); the stash is dropped (38908).
  \<^item> \<open>root_split\<close> (34658) and \<open>root_shifted\<close> (35125) make room for a new root under a stack. The code does not test that
    there is room: 32 levels are more than a tree of \<^verbatim>\<open>MAX_PAGENO\<close> pages has when each page has two children.
    \<open>root_dropped\<close>: 39011-39013.

  The constant of 7492 goes to a local cursor that only tests the layout.
\<close>

inductive cursor_reached :: "cursor_state \<Rightarrow> bool" where
  initial: "m \<in> {z_fresh_mark, z_fresh_mark OR z_inner, z_poor_mark, z_inner OR z_poor_mark, z_inner, z_disable_tree_search_fastpath} \<Longrightarrow>
     cursor_reached (set_combo_state m c)"
| poor: "cursor_reached c \<Longrightarrow> cursor_reached (be_poor_state c)"
| filled: "cursor_reached c \<Longrightarrow> is_pointed c \<Longrightarrow> cursor_reached (mark_filled c)"
| raised: "cursor_reached c \<Longrightarrow> m \<in> {z_eof_hard, z_eof_soft, z_after_delete, z_eof_hard OR z_eof_soft OR z_after_delete, z_hollow, z_gcu_preparation} \<Longrightarrow>
     cursor_reached (raise_flags m c)"
| cleared: "cursor_reached c \<Longrightarrow> m \<in> {z_eof_hard, z_after_delete} \<Longrightarrow> cursor_reached (clear_flags m c)"
| prepared: "cursor_reached c \<Longrightarrow> cs_flags c AND z_gcu_preparation \<noteq> 0 \<Longrightarrow> cursor_reached (end_preparation c)"
| past_end: "cursor_reached c \<Longrightarrow> is_pointed c \<Longrightarrow> cursor_reached (past_end_flags c)"
| unset: "cursor_reached c \<Longrightarrow> is_poor c \<Longrightarrow> cursor_reached (unset_flags c)"
| push: "cursor_reached c \<Longrightarrow> cursor_reached (push_or_poor c)"
| eject: "cursor_reached c \<Longrightarrow> 0 < cs_top c \<Longrightarrow> cursor_reached (cursor_eject c)"
| enroot: "cursor_reached c \<Longrightarrow> cs_top c < int CURSOR_STACK_SIZE \<Longrightarrow> 0 \<le> step \<Longrightarrow> step \<le> cs_top c \<Longrightarrow> cursor_reached (cursor_enroot step c)"
| undo: "cursor_reached c \<Longrightarrow> is_pointed c \<Longrightarrow> 0 \<le> step \<Longrightarrow> step \<le> cs_stash c \<Longrightarrow> cursor_reached (cursor_undo_enroot step c)"
| levelled: "cursor_reached c \<Longrightarrow> 0 \<le> level \<Longrightarrow> level < int CURSOR_STACK_SIZE \<Longrightarrow> cursor_reached (set_level level c)"
| touched: "cursor_reached c \<Longrightarrow> is_pointed c \<Longrightarrow> cs_top c < int CURSOR_STACK_SIZE \<Longrightarrow> int n \<le> cs_top c \<Longrightarrow> cursor_reached (touch_level n c)"
| compacting: "cursor_reached c \<Longrightarrow> is_pointed c \<Longrightarrow> cs_top c < deep_limit \<Longrightarrow> deep_limit \<le> int CURSOR_STACK_SIZE \<Longrightarrow>
     cursor_reached (snd (compacting_down deep_limit c))"
| stashed: "cursor_reached c \<Longrightarrow> is_pointed c \<Longrightarrow> cursor_reached (snd (stash_page c))"
| unstashed: "cursor_reached c \<Longrightarrow> is_pointed c \<Longrightarrow> 0 < cs_stash c \<Longrightarrow> cursor_reached (unstash_page c)"
| stash_dropped: "cursor_reached c \<Longrightarrow> is_pointed c \<Longrightarrow> cursor_reached (drop_stash c)"
| root_split: "cursor_reached c \<Longrightarrow> cs_top c = 0 \<Longrightarrow> cs_stash c + 1 < int CURSOR_STACK_SIZE \<Longrightarrow> cursor_reached (split_root c)"
| root_shifted: "cursor_reached c \<Longrightarrow> is_pointed c \<Longrightarrow> cs_top c + cs_stash c + 1 < int CURSOR_STACK_SIZE \<Longrightarrow> cursor_reached (shift_root c)"
| root_dropped: "cursor_reached c \<Longrightarrow> cursor_reached (drop_root c)"

text \<open>Numbers of 8 bits with their sign are closed under the operations on bits.\<close>

lemma byte_or:
  assumes "- 128 \<le> x" "x < 128" "- 128 \<le> m" "m < 128" shows "- 128 \<le> x OR m \<and> x OR m < (128 :: int)"
proof -
  have "signed_take_bit 7 (x OR m) = signed_take_bit 7 x OR signed_take_bit 7 m"
    by (rule bit_eqI) (simp add: bit_signed_take_bit_iff bit_or_iff)
  also have "\<dots> = x OR m" using assms by (simp add: signed_take_bit_int_eq_self)
  finally show ?thesis using signed_take_bit_int_eq_self_iff[of 7 "x OR m"] by simp
qed

lemma byte_and:
  assumes "- 128 \<le> x" "x < 128" "- 128 \<le> m" "m < 128" shows "- 128 \<le> x AND m \<and> x AND m < (128 :: int)"
proof -
  have "signed_take_bit 7 (x AND m) = signed_take_bit 7 x AND signed_take_bit 7 m"
    by (rule bit_eqI) (simp add: bit_signed_take_bit_iff bit_and_iff)
  also have "\<dots> = x AND m" using assms by (simp add: signed_take_bit_int_eq_self)
  finally show ?thesis using signed_take_bit_int_eq_self_iff[of 7 "x AND m"] by simp
qed

lemma flag_values:
  "z_inner = 1" "z_gcu_preparation = 2" "z_after_delete = 8" "z_disable_tree_search_fastpath = 16" "z_eof_soft = 32" "z_eof_hard = 64"
  "z_hollow = - 128" "z_eof_hard OR z_eof_soft OR z_after_delete = 104"
  by (simp_all add: z_inner_def z_gcu_preparation_def z_after_delete_def z_disable_tree_search_fastpath_def z_eof_soft_def z_eof_hard_def z_hollow_def)

lemma unset_value: "z_inner OR - 48 = -47" by (simp add: flag_values)

text \<open>What each store keeps: the place of the flags, and a place on the stack.\<close>

lemma ok_flags: "cs_ok c \<Longrightarrow> - 128 \<le> cs_flags c \<and> cs_flags c < 128" by (simp add: cs_ok_def)

lemma ok_new_flags:
  "cs_ok c \<Longrightarrow> - 128 \<le> f \<Longrightarrow> f < 128 \<Longrightarrow> cs_flags c < 0 \<and> cs_top c < 0 \<longrightarrow> f < 0 \<Longrightarrow> cs_ok (c\<lparr>cs_flags := f\<rparr>)"
  by (auto simp: cs_ok_def)

lemma ok_new_place:
  "cs_ok c \<Longrightarrow> 0 \<le> t \<Longrightarrow> 0 \<le> s \<Longrightarrow> t + s < 32 \<or> t = 32 \<and> s = 0 \<Longrightarrow> cs_ok (c\<lparr>cs_top := t, cs_stash := s\<rparr>)"
  by (auto simp: cs_ok_def stack_size)

lemma ok_poor: "- 128 \<le> f \<Longrightarrow> f < 0 \<Longrightarrow> cs_ok \<lparr>cs_flags = f, cs_top = -1, cs_stash = -1\<rparr>" by (simp add: cs_ok_def)

lemma be_poor_state_ok:
  assumes "- 128 \<le> cs_flags c" "cs_flags c < 128" shows "cs_ok (be_poor_state c)"
  using mark_poor_state[of c] assms by (auto simp: be_poor_state_def set_poor_state intro!: ok_poor)

lemma initial_ok:
  assumes "m \<in> {z_fresh_mark, z_fresh_mark OR z_inner, z_poor_mark, z_inner OR z_poor_mark, z_inner, z_disable_tree_search_fastpath}"
  shows "cs_ok (set_combo_state m c)"
proof -
  have m: "m \<in> {-44, -43, -48, -47, 1, 16}" using assms by (simp add: z_values flag_values)
  then have "drop_bit 16 m = (if m < 0 then -1 else 0)" "s16 m = m" by (auto simp: s16_id)
  then show ?thesis using m set_top_and_stash_minus_one[of "c\<lparr>cs_flags := m\<rparr>"] set_top_and_stash_small[of 0 0 "c\<lparr>cs_flags := m\<rparr>"]
    unfolding set_combo_state_def by (auto simp: s16_id cs_ok_def stack_size)
qed

lemma mark_filled_state:
  assumes "0 \<le> cs_top c"
  shows "cs_flags (mark_filled c) \<in> {0..3}" "cs_top (mark_filled c) = cs_top c" "cs_stash (mark_filled c) = cs_stash c"
proof -
  have b: "0 \<le> cs_flags c AND 3" "cs_flags c AND 3 \<le> 3" by (simp, rule AND_upper2, simp)
  then have "s16 (cs_flags c AND 3) = cs_flags c AND 3" by (intro s16_id) linarith+
  then show "cs_flags (mark_filled c) \<in> {0..3}" using b by (simp add: mark_filled_def z_values(4))
qed (simp_all add: mark_filled_def)

lemma raise_flags_ok:
  assumes "cs_ok c" "m \<in> {z_eof_hard, z_eof_soft, z_after_delete, z_eof_hard OR z_eof_soft OR z_after_delete, z_hollow, z_gcu_preparation}"
  shows "cs_ok (raise_flags m c)"
proof -
  have "m \<in> {64, 32, 8, 104, -128, 2}" using assms(2) by (simp add: flag_values)
  then have "- 128 \<le> m" "m < 128" by auto
  then show ?thesis using byte_or[of "cs_flags c" m] ok_flags[OF assms(1)] assms(1) unfolding raise_flags_def by (intro ok_new_flags) auto
qed

lemma clear_flags_ok:
  assumes "cs_ok c" "m \<in> {z_eof_hard, z_after_delete}" shows "cs_ok (clear_flags m c)"
proof -
  have "NOT m \<in> {-65, -9}" using assms(2) unfolding flag_values by auto
  then have "- 128 \<le> NOT m" "NOT m < 0" "NOT m < 128" by (elim insertE emptyE; linarith)+
  moreover from this have "- 128 \<le> cs_flags c AND NOT m \<and> cs_flags c AND NOT m < 128"
    using ok_flags[OF assms(1)] by (intro byte_and) (simp_all only:)
  ultimately show ?thesis using assms(1) unfolding clear_flags_def by (intro ok_new_flags) (simp_all add: and_negative_int_iff del: not_negative_int_iff)
qed

lemma end_preparation_ok:
  assumes "cs_ok c" "cs_flags c AND z_gcu_preparation \<noteq> 0" shows "cs_ok (end_preparation c)"
proof -
  have f: "- 128 \<le> cs_flags c" "cs_flags c < 128" using ok_flags[OF assms(1)] by simp_all
  have "cs_flags c \<noteq> -128" "cs_flags c \<noteq> -127" using assms(2) by (auto simp: flag_values)
  then have "s16 (cs_flags c - 2) = cs_flags c - 2" using f by (intro s16_id) linarith+
  then show ?thesis using assms(1) f \<open>cs_flags c \<noteq> -128\<close> \<open>cs_flags c \<noteq> -127\<close> unfolding end_preparation_def flag_values
    by (intro ok_new_flags) auto
qed

lemma past_end_ok:
  assumes "cs_ok c" "is_pointed c" shows "cs_ok (past_end_flags c)"
proof -
  have "0 \<le> cs_flags c AND 3" "cs_flags c AND 3 \<le> 3" by (simp, rule AND_upper2, simp)
  then have "- 128 \<le> 96 OR (cs_flags c AND 3) \<and> 96 OR (cs_flags c AND 3) < 128" by (intro byte_or) linarith+
  moreover have "z_eof_soft OR z_eof_hard OR (cs_flags c AND z_clear_mask) = 96 OR (cs_flags c AND 3)"
    unfolding z_values flag_values by (simp add: or.assoc[symmetric])
  ultimately show ?thesis using assms unfolding past_end_flags_def by (intro ok_new_flags) (auto simp: is_pointed_def)
qed

lemma push_or_poor_ok: assumes "cs_ok c" shows "cs_ok (push_or_poor c)"
proof (cases "int CURSOR_STACK_SIZE \<le> cs_top c + 1")
  case True then show ?thesis using be_poor_state_ok[of c] ok_flags[OF assms] by (simp add: push_or_poor_def)
next
  case False
  moreover have "- 1 \<le> cs_top c" using assms by (auto simp: cs_ok_def)
  ultimately show ?thesis using push_top_state[of c] assms ok_new_place[of c "cs_top c + 1" 0] by (auto simp: push_or_poor_def stack_size)
qed

lemma eject_ok: assumes "cs_ok c" "0 < cs_top c" shows "cs_ok (cursor_eject c)"
proof -
  have "cs_top c \<le> 32" using assms by (auto simp: cs_ok_def stack_size)
  then have "cursor_eject c = c\<lparr>cs_top := cs_top c - 1, cs_stash := 0\<rparr>"
    using assms(2) set_top_and_stash_small[of "cs_top c - 1" 0 c] by (simp add: cursor_eject_def s16_id)
  then show ?thesis using assms ok_new_place[of c "cs_top c - 1" 0] \<open>cs_top c \<le> 32\<close> by simp
qed

lemma set_level_ok:
  assumes "cs_ok c" "0 \<le> level" "level < int CURSOR_STACK_SIZE" shows "cs_ok (set_level level c)"
  using assms set_top_and_stash_small[of level 0 c] ok_new_place[of c level 0] by (simp add: set_level_def s16_id stack_size)

lemma touch_level_ok:
  assumes "cs_ok c" "is_pointed c" "cs_top c < int CURSOR_STACK_SIZE" "int n \<le> cs_top c" shows "cs_ok (touch_level n c)"
proof -
  have i: "push_bit 8 (cs_top c) + int n * (1 - 2 ^ 8) = int n + 256 * (cs_top c - int n)" by (simp add: push_bit_eq_mult)
  moreover have "s16 (int n + 256 * (cs_top c - int n)) = int n + 256 * (cs_top c - int n)"
    using assms(3,4) by (intro s16_id) (simp_all add: stack_size)
  ultimately have "touch_level n c = c\<lparr>cs_top := int n, cs_stash := cs_top c - int n\<rparr>"
    using assms(3,4) set_top_and_stash_small[of "int n" "cs_top c - int n" c]
    unfolding touch_level_def Let_def i by (simp add: stack_size)
  then show ?thesis using assms ok_new_place[of c "int n" "cs_top c - int n"] by (simp add: stack_size)
qed

lemma compacting_down_ok:
  assumes "cs_ok c" "is_pointed c" "cs_top c < deep_limit" "deep_limit \<le> int CURSOR_STACK_SIZE"
  shows "cs_ok (snd (compacting_down deep_limit c))"
  using assms set_top_and_stash_small[of "cs_top c + 1" 0 c] ok_new_place[of c "cs_top c + 1" 0]
  by (cases "cs_top c < 31") (simp_all add: compacting_down_def is_pointed_def s16_id stack_size Let_def)

lemma stash_page_ok: assumes "cs_ok c" "is_pointed c" shows "cs_ok (snd (stash_page c))"
proof -
  have s: "s8 (cs_stash c + 1) = cs_stash c + 1" using assms by (intro s8_id) (auto simp: cs_ok_def is_pointed_def stack_size)
  show ?thesis
    using assms ok_flags[OF assms(1)] be_poor_state_ok[of "c\<lparr>cs_stash := cs_stash c + 1\<rparr>"] ok_new_place[of c "cs_top c" "cs_stash c + 1"]
    by (auto simp: stash_page_def s Let_def is_pointed_def stack_size cs_ok_def)
qed

lemma stack_stores_ok:
  assumes "cs_ok c"
  shows "is_pointed c \<Longrightarrow> 0 < cs_stash c \<Longrightarrow> cs_ok (unstash_page c)"
    and "is_pointed c \<Longrightarrow> cs_ok (drop_stash c)"
    and "cs_top c = 0 \<Longrightarrow> cs_stash c + 1 < int CURSOR_STACK_SIZE \<Longrightarrow> cs_ok (split_root c)"
    and "is_pointed c \<Longrightarrow> cs_top c + cs_stash c + 1 < int CURSOR_STACK_SIZE \<Longrightarrow> cs_ok (shift_root c)"
  using assms
  by (auto simp: cs_ok_def unstash_page_def drop_stash_def split_root_def shift_root_def is_pointed_def stack_size s8_id)

lemma drop_root_ok: assumes "cs_ok c" shows "cs_ok (drop_root c)"
proof -
  have t: "s8 (cs_top c - 1) = cs_top c - 1" using assms by (intro s8_id) (auto simp: cs_ok_def stack_size)
  show ?thesis
  proof (cases "cs_top c - 1 < 0")
    case True
    then show ?thesis using be_poor_state_ok[of "c\<lparr>cs_top := cs_top c - 1\<rparr>"] ok_flags[OF assms] by (simp add: drop_root_def t Let_def)
  next
    case False
    then show ?thesis using assms by (auto simp: drop_root_def t Let_def cs_ok_def stack_size)
  qed
qed

lemma cursor_reached_ok: "cursor_reached c \<Longrightarrow> cs_ok c"
proof (induction rule: cursor_reached.induct)
  case (initial m c) then show ?case by (rule initial_ok)
next
  case (poor c) then show ?case using ok_flags[of c] by (intro be_poor_state_ok) simp_all
next
  case (filled c) then show ?case using mark_filled_state[of c] by (auto simp: cs_ok_def is_pointed_def)
next
  case (raised c m) then show ?case by (intro raise_flags_ok)
next
  case (cleared c m) then show ?case by (intro clear_flags_ok)
next
  case (prepared c) then show ?case by (intro end_preparation_ok)
next
  case (past_end c) then show ?case by (intro past_end_ok)
next
  case (unset c) then show ?case unfolding unset_flags_def by (intro ok_new_flags) (auto simp: z_values(1) unset_value)
next
  case (push c) then show ?case by (intro push_or_poor_ok)
next
  case (eject c) then show ?case by (intro eject_ok)
next
  case (enroot c step)
  then show ?case using enroot_state[of step c] by (auto simp: cs_ok_def stack_size)
next
  case (undo c step)
  then show ?case using undo_enroot_state[of step c] by (auto simp: cs_ok_def is_pointed_def stack_size)
next
  case (levelled c level) then show ?case by (intro set_level_ok)
next
  case (touched c n) then show ?case by (intro touch_level_ok)
next
  case (compacting c deep_limit) then show ?case by (intro compacting_down_ok)
next
  case (stashed c) then show ?case by (intro stash_page_ok)
qed (simp_all add: stack_stores_ok drop_root_ok)

lemma combo_negative:
  assumes "cs_ok c"
  shows "combo_state c < 0 \<longleftrightarrow> cs_top c < 0"
proof (cases "cs_top c < 0")
  case True
  then have "top_and_stash c = -1" using assms by (auto simp: cs_ok_def top_and_stash_def s16_def)
  moreover have "0 \<le> cs_flags c mod 65536" "cs_flags c mod 65536 < 65536" by simp_all
  moreover have "s32 (x + 65536 * 65535) < 0" if "0 \<le> x" "x < 65536" for x :: int
  proof -
    have "x + 65536 * 65535 + 2 ^ 31 = (x + 2147418112) + 2 ^ 32" by simp
    then have "(x + 65536 * 65535 + 2 ^ 31) mod 2 ^ 32 = (x + 2147418112) mod 2 ^ 32" by (simp only: mod_add_self2)
    then show ?thesis using that unfolding s32_def by simp
  qed
  ultimately show ?thesis using True by (simp add: combo_state_def)
next
  case False
  then have t: "0 \<le> cs_top c" "0 \<le> cs_stash c" "cs_top c + cs_stash c \<le> 32" using assms by (auto simp: cs_ok_def stack_size)
  then have "top_and_stash c = cs_top c + 256 * cs_stash c" by (rule top_and_stash_small)
  moreover have "0 \<le> cs_flags c mod 65536" "cs_flags c mod 65536 < 65536" by simp_all
  ultimately show ?thesis using t False by (simp add: combo_state_def s32_def)
qed

lemma mod_byte: "- 128 \<le> x \<Longrightarrow> x < 0 \<Longrightarrow> x mod 256 = x + (256 :: int)" by presburger

lemma flags_of_byte:
  assumes "cs_ok c"
  shows "is_filled c \<longleftrightarrow> 0 \<le> cs_flags c \<and> cs_flags c < z_eof_hard" "is_hollow c \<Longrightarrow> is_eof c"
proof -
  have "cs_flags c mod 2 ^ 8 = (if cs_flags c < 0 then cs_flags c + 256 else cs_flags c)" using ok_flags[OF assms] by (simp add: mod_pos_pos_trivial mod_byte)
  then show "is_filled c \<longleftrightarrow> 0 \<le> cs_flags c \<and> cs_flags c < z_eof_hard" "is_hollow c \<Longrightarrow> is_eof c"
    using ok_flags[OF assms] by (auto simp: is_filled_def is_hollow_def is_eof_def flag_values)
qed



end
