(* ===== verification/Tree_Path.thy ===== *)
theory Tree_Path
  imports Tree_Search Cursor_Ops
begin

text \<open>
  Trees of pages, and cursors on them. A tree is the pages it is made of; a path is the list of the indices from the
  root, and the paths of a level are listed from left to right. \<open>wf_tree\<close> says that the pages make a tree the code can
  walk, \<open>at_path\<close> that the stack of a cursor holds the pages of a path.
\<close>

unbundle bit_operations_syntax

subsection \<open>Trees and paths\<close>

text \<open>A tree as the pages it is made of. A path is the list of the indices to follow from the root.\<close>

datatype tree = Leaf_page (tpage: page) | Branch_page (tpage: page) (children: "tree list")
  where "children (Leaf_page mp) = []"

fun sub :: "tree \<Rightarrow> nat list \<Rightarrow> tree" where
  "sub t [] = t"
| "sub t (i # ks) = sub (children t ! i) ks"

fun paths :: "nat \<Rightarrow> tree \<Rightarrow> nat list list" where
  "paths 0 t = [[]]"
| "paths (Suc d) t = concat (map (\<lambda>i. map ((#) i) (paths d (children t ! i))) [0..<length (children t)])"

lemma sub_append [simp]: "sub t (ks @ ls) = sub (sub t ks) ls"
  by (induction ks arbitrary: t) simp_all

lemma length_paths: "ks \<in> set (paths d t) \<Longrightarrow> length ks = d"
  by (induction d arbitrary: t ks) auto

text \<open>The paths of a level, seen from the level above.\<close>

definition below :: "tree \<Rightarrow> nat list \<Rightarrow> nat list list" where
  "below t ks = map (\<lambda>i. ks @ [i]) [0..<length (children (sub t ks))]"

lemma concat_map_concat: "concat (map f (concat (map g xs))) = concat (map (\<lambda>x. concat (map f (g x))) xs)"
  by (induction xs) simp_all

lemma paths_snoc: "paths (Suc d) t = concat (map (below t) (paths d t))"
proof (induction d arbitrary: t)
  case 0 show ?case by (simp add: below_def concat_map_singleton map_concat comp_def)
next
  case (Suc d)
  have "map ((#) i) (paths (Suc d) (children t ! i)) = concat (map (below t) (map ((#) i) (paths d (children t ! i))))" for i
    unfolding Suc.IH[of "children t ! i"] by (simp add: map_concat comp_def below_def)
  then have "paths (Suc (Suc d)) t = concat (map (\<lambda>i. concat (map (below t) (map ((#) i) (paths d (children t ! i))))) [0..<length (children t)])"
    unfolding paths.simps(2)[of "Suc d"] by simp
  also have "\<dots> = concat (map (below t) (paths (Suc d) t))" unfolding paths.simps(2)[of d] by (rule concat_map_concat [symmetric])
  finally show ?case .
qed

subsection \<open>Neighbours in a list\<close>

definition next_to :: "bool \<Rightarrow> 'a list \<Rightarrow> 'a \<Rightarrow> 'a \<Rightarrow> bool" where
  "next_to right xs a b \<longleftrightarrow> (\<exists>us vs. xs = us @ (if right then [a, b] else [b, a]) @ vs)"

definition end_of :: "bool \<Rightarrow> 'a list \<Rightarrow> 'a" where "end_of right xs = (if right then last xs else hd xs)"

lemma next_to_set: "next_to right xs a b \<Longrightarrow> a \<in> set xs \<and> b \<in> set xs"
  by (auto simp: next_to_def split: if_splits)

lemma next_to_embed: "next_to right xs a b \<Longrightarrow> next_to right (us @ xs @ vs) a b"
  unfolding next_to_def by (metis append.assoc)

text \<open>Neighbours in a list of lists: in one of them, or at the ends of neighbours.\<close>

lemma concat_next_inside:
  assumes "x \<in> set xs" "next_to right (f x) a b"
  shows "next_to right (concat (map f xs)) a b"
proof -
  obtain us vs where "xs = us @ x # vs" using assms(1) by (auto simp: in_set_conv_decomp)
  then show ?thesis using next_to_embed[OF assms(2)] by simp
qed

lemma concat_next_across:
  assumes "next_to right xs x y" "f x \<noteq> []" "f y \<noteq> []"
  shows "next_to right (concat (map f xs)) (end_of right (f x)) (end_of (\<not> right) (f y))"
proof -
  obtain us vs where xs: "xs = us @ (if right then [x, y] else [y, x]) @ vs" using assms(1) by (auto simp: next_to_def)
  show ?thesis
  proof (cases right)
    case True
    obtain as a b bs where "f x = as @ [a]" "f y = b # bs" using assms(2,3) by (metis rev_exhaust list.exhaust)
    then have "concat (map f xs) = (concat (map f us) @ as) @ [a, b] @ (bs @ concat (map f vs))" "a = last (f x)" "b = hd (f y)"
      using xs True by simp_all
    then show ?thesis using True unfolding next_to_def end_of_def
      by (intro exI[of _ "concat (map f us) @ as"] exI[of _ "bs @ concat (map f vs)"]) simp
  next
    case False
    obtain as a b bs where "f y = as @ [a]" "f x = b # bs" using assms(2,3) by (metis rev_exhaust list.exhaust)
    then have "concat (map f xs) = (concat (map f us) @ as) @ [a, b] @ (bs @ concat (map f vs))" "a = last (f y)" "b = hd (f x)"
      using xs False by simp_all
    then show ?thesis using False unfolding next_to_def end_of_def
      by (intro exI[of _ "concat (map f us) @ as"] exI[of _ "bs @ concat (map f vs)"]) simp
  qed
qed

lemma concat_end:
  assumes "xs \<noteq> []" "\<And>x. x \<in> set xs \<Longrightarrow> f x \<noteq> []"
  shows "end_of right (concat (map f xs)) = end_of right (f (end_of right xs))"
proof (cases right)
  case True
  obtain ys y where xs: "xs = ys @ [y]" using assms(1) rev_exhaust by blast
  then have "f y \<noteq> []" using assms(2) by simp
  then show ?thesis using True xs by (simp add: end_of_def last_append)
next
  case False
  then show ?thesis using assms by (cases xs) (auto simp: end_of_def hd_append)
qed

text \<open>Whatever is in a list has a neighbour or is at the end.\<close>

lemma next_or_end: "a \<in> set xs \<Longrightarrow> a = end_of right xs \<or> (\<exists>b. next_to right xs a b)"
proof -
  assume "a \<in> set xs"
  then obtain us vs where xs: "xs = us @ a # vs" by (auto simp: in_set_conv_decomp)
  show ?thesis
  proof (cases right)
    case True
    show ?thesis
    proof (cases vs)
      case (Cons b ws)
      then have "next_to right xs a b" using xs True by (auto simp: next_to_def)
      then show ?thesis by blast
    qed (use xs True in \<open>simp add: end_of_def\<close>)
  next
    case False
    show ?thesis
    proof (cases us rule: rev_cases)
      case (snoc ws b)
      then have "next_to right xs a b" using xs False by (auto simp: next_to_def)
      then show ?thesis by blast
    qed (use xs False in \<open>simp add: end_of_def\<close>)
  qed
qed

subsection \<open>Well-formed trees\<close>

definition readable :: "calls \<Rightarrow> nat \<Rightarrow> txn \<Rightarrow> pgno \<Rightarrow> txnid \<Rightarrow> page \<Rightarrow> bool" where
  "readable p chk txn pgno front mp \<longleftrightarrow>
     (\<forall>mc. mc_checking mc = chk \<longrightarrow> page_get p mc txn pgno front = (MDBX_SUCCESS, Some mp, txn))"

text \<open>
  All leaves have the same depth, the type that the cursor expects, and at least one key; a branch has at least two
  children, and reading what its nodes point to gives their pages.
\<close>

fun wf_tree :: "calls \<Rightarrow> nat \<Rightarrow> txn \<Rightarrow> nat \<Rightarrow> tree \<Rightarrow> bool" where
  "wf_tree p chk txn 0 t \<longleftrightarrow>
     children t = [] \<and> \<not> is_branch (tpage t) \<and> (page_type (tpage t) XOR chk) AND (P_BRANCH OR P_LEAF OR P_LARGE OR P_DUPFIX) = 0 \<and>
     0 < page_numkeys (tpage t) \<and> page_numkeys (tpage t) < 2 ^ 16"
| "wf_tree p chk txn (Suc h) t \<longleftrightarrow>
     is_branch (tpage t) \<and> 2 \<le> length (children t) \<and> length (children t) < 2 ^ 16 \<and> page_numkeys (tpage t) = length (children t) \<and>
     (\<forall>i < length (children t). wf_tree p chk txn h (children t ! i) \<and>
        readable p chk txn (child_pgno (tpage t) i) (pg_txnid (tpage t)) (tpage (children t ! i)))"

lemma in_paths_Suc: "k # js \<in> set (paths (Suc d) t) \<longleftrightarrow> k < length (children t) \<and> js \<in> set (paths d (children t ! k))"
  by auto

lemma wf_sub:
  assumes "wf_tree p chk txn h t" "ks \<in> set (paths d t)" "d \<le> h"
  shows "wf_tree p chk txn (h - d) (sub t ks)"
  using assms
proof (induction d arbitrary: t h ks)
  case (Suc d)
  then obtain h' where h: "h = Suc h'" by (cases h) auto
  from Suc.prems(2) obtain i js where i: "i < length (children t)" "ks = i # js" "js \<in> set (paths d (children t ! i))" by auto
  then have "wf_tree p chk txn h' (children t ! i)" using Suc.prems(1) h by simp
  from Suc.IH[OF this i(3)] show ?case using Suc.prems(3) h i(2) by simp
qed simp

lemma paths_append: "ks \<in> set (paths d t) \<Longrightarrow> js \<in> set (paths e (sub t ks)) \<Longrightarrow> ks @ js \<in> set (paths (d + e) t)"
proof (induction d arbitrary: t ks)
  case (Suc d)
  then obtain i is' where "ks = i # is'" "i < length (children t)" "is' \<in> set (paths d (children t ! i))" by auto
  then show ?case using Suc.IH[of is' "children t ! i"] Suc.prems(2) in_paths_Suc by simp
qed simp

lemma below_in: "ks \<in> set (paths d t) \<Longrightarrow> i < length (children (sub t ks)) \<Longrightarrow> ks @ [i] \<in> set (paths (Suc d) t)"
  using paths_append[of ks d t "[i]" 1] by simp

lemma paths_ne:
  assumes "wf_tree p chk txn h t" "d \<le> h"
  shows "paths d t \<noteq> []"
  using assms
proof (induction d arbitrary: h t)
  case (Suc d)
  then obtain h' where h: "h = Suc h'" by (cases h) auto
  then have "0 < length (children t)" using Suc.prems(1) by auto
  moreover from this have "wf_tree p chk txn h' (children t ! 0)" using Suc.prems(1) h by simp
  then have "paths d (children t ! 0) \<noteq> []" using Suc.IH h Suc.prems(2) by simp
  then obtain js where "js \<in> set (paths d (children t ! 0))" by (meson last_in_set)
  ultimately have "0 # js \<in> set (paths (Suc d) t)" unfolding in_paths_Suc by simp
  then show ?case by (metis empty_iff list.set(1))
qed simp

lemma distinct_paths: "distinct (paths d t)"
proof (induction d arbitrary: t)
  case (Suc d)
  have "distinct (concat (map (\<lambda>i. map ((#) i) (paths d (children t ! i))) is'))" if "distinct is'" for is'
    using that Suc by (induction is') (auto simp: distinct_map)
  then show ?case by simp
qed simp

subsection \<open>A cursor on a path\<close>

definition at_path :: "nat \<Rightarrow> tree \<Rightarrow> nat list \<Rightarrow> cursor \<Rightarrow> bool" where
  "at_path chk t ks mc \<longleftrightarrow>
     cs_top (mc_state mc) = int (length ks) \<and> 0 \<le> cs_stash (mc_state mc) \<and>
     cs_top (mc_state mc) + cs_stash (mc_state mc) < int CURSOR_STACK_SIZE \<and>
     length (mc_pg mc) = CURSOR_STACK_SIZE \<and> length (mc_ki mc) = CURSOR_STACK_SIZE \<and> mc_checking mc = chk \<and>
     (\<forall>i \<le> length ks. mc_pg mc ! i = tpage (sub t (take i ks))) \<and> (\<forall>i < length ks. mc_ki mc ! i = ks ! i)"

text \<open>What moving a cursor leaves: everything but the depth and the stack.\<close>

definition moved :: "cursor \<Rightarrow> cursor \<Rightarrow> bool" where
  "moved mc mc' \<longleftrightarrow> (\<exists>s pg ki. mc' = mc\<lparr>mc_state := s, mc_pg := pg, mc_ki := ki\<rparr> \<and> cs_flags s = cs_flags (mc_state mc))"

lemma moved_refl [simp]: "moved mc mc"
  unfolding moved_def by (intro exI[of _ "mc_state mc"] exI[of _ "mc_pg mc"] exI[of _ "mc_ki mc"]) simp

lemma moved_trans: "moved a b \<Longrightarrow> moved b c \<Longrightarrow> moved a c"
  unfolding moved_def by force

lemma moved_same:
  "moved mc mc' \<Longrightarrow> mc_checking mc' = mc_checking mc \<and> mc_table mc' = mc_table mc \<and> mc_root mc' = mc_root mc \<and>
     cs_flags (mc_state mc') = cs_flags (mc_state mc)"
  by (auto simp: moved_def)

lemma at_path_top:
  assumes "at_path chk t ks mc"
  shows "mc_top mc = length ks" "top_page mc = tpage (sub t ks)" "top_ki mc = mc_ki mc ! length ks" "length ks < 32"
  using assms by (auto simp: at_path_def mc_top_def top_page_def top_ki_def stack_size)

lemma set_top_ki_at:
  assumes "at_path chk t ks mc"
  shows "at_path chk t ks (set_top_ki k mc)" "top_ki (set_top_ki k mc) = k" "moved mc (set_top_ki k mc)"
proof -
  note top = at_path_top[OF assms]
  show "at_path chk t ks (set_top_ki k mc)" using assms by (auto simp: at_path_def set_top_ki_def top)
  show "top_ki (set_top_ki k mc) = k"
    using assms top by (simp add: top_ki_def mc_top_def set_top_ki_def at_path_def stack_size)
  show "moved mc (set_top_ki k mc)" unfolding moved_def set_top_ki_def
    by (intro exI[of _ "mc_state mc"] exI[of _ "mc_pg mc"] exI[of _ "(mc_ki mc)[mc_top mc := k]"]) simp
qed

lemma push_at:
  assumes at: "at_path chk t ks mc" and k: "top_ki mc = k" and deep: "length ks < 31"
  shows "\<exists>mc'. cursor_push (tpage (sub t (ks @ [k]))) ki mc txn = (MDBX_SUCCESS, mc', txn) \<and>
    at_path chk t (ks @ [k]) mc' \<and> top_ki mc' = ki \<and> moved mc mc'"
proof -
  let ?n = "length ks" and ?mp = "tpage (sub t (ks @ [k]))"
  let ?mc' = "mc\<lparr>mc_state := push_top (mc_state mc), mc_pg := (mc_pg mc)[Suc ?n := ?mp], mc_ki := (mc_ki mc)[Suc ?n := ki]\<rparr>"
  have top: "cs_top (mc_state mc) = int ?n" using at by (simp add: at_path_def)
  then have n: "nat (cs_top (mc_state mc) + 1) = Suc ?n" "\<not> cs_top (mc_state mc) + 1 < 0" by simp_all
  have eq: "cursor_push ?mp ki mc txn = (MDBX_SUCCESS, ?mc', txn)"
    using top deep unfolding cursor_push_def Let_def n(1) by (simp add: stack_size)
  have st: "push_top (mc_state mc) = (mc_state mc)\<lparr>cs_top := int (Suc ?n), cs_stash := 0\<rparr>"
    using top deep push_top_state[of "mc_state mc"] by (simp add: stack_size)
  have len: "length (mc_pg mc) = 32" "length (mc_ki mc) = 32" using at by (simp_all add: at_path_def stack_size)
  have pg: "?mc' = mc\<lparr>mc_state := push_top (mc_state mc), mc_pg := mc_pg ?mc', mc_ki := mc_ki ?mc'\<rparr>" by simp
  have "at_path chk t (ks @ [k]) ?mc'"
    unfolding at_path_def
  proof (intro conjI allI impI)
    fix i assume "i \<le> length (ks @ [k])"
    then consider "i \<le> ?n" | "i = Suc ?n" by fastforce
    then show "mc_pg ?mc' ! i = tpage (sub t (take i (ks @ [k])))"
      using at deep len by cases (auto simp: at_path_def)
  next
    fix i assume "i < length (ks @ [k])"
    then consider "i < ?n" | "i = ?n" by fastforce
    then show "mc_ki ?mc' ! i = (ks @ [k]) ! i"
      using at deep len k at_path_top(3)[OF at] by cases (auto simp: at_path_def nth_append)
  qed (use at deep st len in \<open>auto simp: at_path_def stack_size\<close>)
  moreover have "top_ki ?mc' = ki"
  proof -
    have "nat (1 + int ?n) = Suc ?n" by simp
    then show ?thesis using st len deep by (simp add: top_ki_def mc_top_def)
  qed
  moreover have "moved mc ?mc'"
    unfolding moved_def using st
    by (intro exI[of _ "push_top (mc_state mc)"] exI[of _ "(mc_pg mc)[Suc ?n := ?mp]"] exI[of _ "(mc_ki mc)[Suc ?n := ki]"]) simp
  ultimately show ?thesis using eq by blast
qed

lemma readable_get: "readable p chk txn pgno front mp \<Longrightarrow> mc_checking mc = chk \<Longrightarrow> page_get p mc txn pgno front = (MDBX_SUCCESS, Some mp, txn)"
  by (simp add: readable_def)

lemma step_down_at:
  assumes at: "at_path chk t ks mc" "top_ki mc = k" "length ks < 31" and flags: "flags AND Z_MODIFY = 0"
    and r: "readable p chk txn pgno front (tpage (sub t (ks @ [k])))"
  shows "\<exists>mc'. step_down p flags pgno front ki_of mc txn = (MDBX_SUCCESS, mc', txn) \<and>
    at_path chk t (ks @ [k]) mc' \<and> top_ki mc' = ki_of (tpage (sub t (ks @ [k]))) \<and> moved mc mc'"
proof -
  obtain mc' where mc': "cursor_push (tpage (sub t (ks @ [k]))) (ki_of (tpage (sub t (ks @ [k])))) mc txn = (MDBX_SUCCESS, mc', txn)"
    "at_path chk t (ks @ [k]) mc'" "top_ki mc' = ki_of (tpage (sub t (ks @ [k])))" "moved mc mc'"
    using push_at[OF at] by blast
  have "mc_checking mc = chk" using at(1) by (simp add: at_path_def)
  then have "step_down p flags pgno front ki_of mc txn = (MDBX_SUCCESS, mc', txn)"
    using mc'(1) flags readable_get[OF r] by (simp add: step_down_def)
  then show ?thesis using mc' by blast
qed

lemma leaf_reached_at:
  assumes "at_path chk t ks mc" "wf_tree p chk txn 0 (sub t ks)"
  shows "leaf_reached mc txn = (MDBX_SUCCESS, mc, txn)"
  using assms at_path_top[OF assms(1)] by (auto simp: leaf_reached_def check_leaf_type_def at_path_def)

lemma last_ki_small: "0 < page_numkeys mp \<Longrightarrow> page_numkeys mp < 2 ^ 16 \<Longrightarrow> last_ki mp = page_numkeys mp - 1"
proof -
  assume a: "0 < page_numkeys mp" "page_numkeys mp < 2 ^ 16"
  then have "page_numkeys mp + 2 ^ 16 - 1 = (page_numkeys mp - 1) + 2 ^ 16" by simp
  then show ?thesis using a unfolding last_ki_def by (simp only: mod_add_self2) simp
qed

end
