(* ===== verification/Node_Search_Ops.thy ===== *)
theory Node_Search_Ops
  imports Node_Search Cmp_Ops
begin

text \<open>
  Searching a page. The search without branches and the older one are in step, whatever the page holds; on keys in order
  both find the lower bound. The contract used of a comparator is the locale \<open>comparator\<close>; the lemmas about the position
  of a key are proved in it, and hold for the comparators of the code by its interpretations.
\<close>

unbundle bit_operations_syntax

subsection \<open>One step of the loop\<close>

definition intptr :: "int \<Rightarrow> bool" where "intptr c \<longleftrightarrow> - (2 ^ 63) \<le> c \<and> c < 2 ^ 63"

lemma sign_mask: "intptr c \<Longrightarrow> sign_mask c = (if c < 0 then -1 else 0)"
  by (auto simp: intptr_def sign_mask_def drop_bit_eq_div div_eq_minus1 div_pos_pos_trivial) 

lemma search_cycle_step:
  assumes "intptr (cmp_at it)" "it = lower + half" "half = (scope - 1) div 2"
  shows "search_cycle cmp_at lower scope steps =
    (if cmp_at it = 0 then \<lparr>sr_it = it, sr_exact = True, sr_lo = lower, sr_steps = steps + 1\<rparr>
     else if cmp_at it < 0
     then if it + 1 < lower + scope then search_cycle cmp_at (it + 1) (scope - 1 - half) (steps + 1)
          else \<lparr>sr_it = it + 1, sr_exact = False, sr_lo = it + 1, sr_steps = steps + 1\<rparr>
     else if 0 < half then search_cycle cmp_at lower half (steps + 1)
          else \<lparr>sr_it = it, sr_exact = False, sr_lo = lower, sr_steps = steps + 1\<rparr>)"
proof -
  have half: "drop_bit 1 (scope - 1) = half" by (simp add: assms(3) drop_bit_eq_div)
  have rest: "half + ((scope - 1) AND 1) = scope - 1 - half" unfolding assms(3) and_one_eq by presburger
  have mask: "sign_mask (cmp_at it) = (if cmp_at it < 0 then -1 else 0)" using assms(1) by (rule sign_mask)
  have it: "lower + half = it" using assms(2) by simp
  have unf: "search_cycle cmp_at lower scope steps =
     (if cmp_at it = 0 then \<lparr>sr_it = it, sr_exact = True, sr_lo = lower, sr_steps = steps + 1\<rparr>
      else let m = sign_mask (cmp_at it); lower' = lower + ((half + 1) AND m); scope' = half + (m AND ((scope - 1) AND 1))
           in if 0 < scope' then search_cycle cmp_at lower' scope' (steps + 1)
              else \<lparr>sr_it = it + (m AND 1), sr_exact = False, sr_lo = lower', sr_steps = steps + 1\<rparr>)"
    by (subst search_cycle.simps) (simp only: Let_def half it)
  consider "cmp_at it = 0" | "cmp_at it < 0" | "0 < cmp_at it" by linarith
  then show ?thesis
  proof cases
    case 2
    then have "sign_mask (cmp_at it) = -1" using mask by simp
    then have "search_cycle cmp_at lower scope steps = (if 0 < scope - 1 - half
        then search_cycle cmp_at (lower + (half + 1)) (scope - 1 - half) (steps + 1)
        else \<lparr>sr_it = it + 1, sr_exact = False, sr_lo = lower + (half + 1), sr_steps = steps + 1\<rparr>)"
      unfolding unf using 2 by (simp add: Let_def rest)
    moreover have e: "lower + (half + 1) = it + 1" and "0 < scope - 1 - half \<longleftrightarrow> it + 1 < lower + scope" using it by linarith+
    ultimately show ?thesis using 2 by (simp only: e if_True less_irrefl if_False) simp
  next
    case 3
    then show ?thesis unfolding unf using mask by simp
  qed (simp add: unf)
qed

lemma old_cycle_step:
  assumes "i = lo + (hi - lo) div 2"
  shows "old_cycle cmp_with lo hi steps =
    (if 0 < cmp_with i then if i + 1 \<le> hi then old_cycle cmp_with (i + 1) hi (steps + 1) else (i + 1, False, steps + 1)
     else if cmp_with i < 0 then if lo \<le> i - 1 then old_cycle cmp_with lo (i - 1) (steps + 1) else (i, False, steps + 1)
     else (i, True, steps + 1))"
proof -
  have "drop_bit 1 (lo + hi) = i" unfolding assms by (simp add: drop_bit_eq_div)
  then show ?thesis by (subst old_cycle.simps) (simp only: Let_def)
qed

text \<open>The searches take the same steps: the loops are in step, and end together.\<close>

lemma cycles_agree:
  assumes "0 < scope" "\<And>i. lo \<le> i \<Longrightarrow> i < lo + scope \<Longrightarrow> intptr (cmp_at i) \<and> sgn (cmp_with i) = - sgn (cmp_at i)"
  shows "old_cycle cmp_with lo (lo + scope - 1) steps =
    (let r = search_cycle cmp_at lo scope steps in (sr_it r, sr_exact r, sr_steps r))"
  using assms
proof (induction "nat scope" arbitrary: lo scope steps rule: less_induct)
  case less
  define half where "half = (scope - 1) div 2"
  define it where "it = lo + half"
  have it: "it = lo + (lo + scope - 1 - lo) div 2" by (simp add: it_def half_def)
  have half: "0 \<le> half" "half < scope" using less.prems(1) by (auto simp: half_def)
  have in_range: "intptr (cmp_at it)" using less.prems(2)[of it] half by (simp add: it_def)
  have sign: "0 < cmp_with it \<longleftrightarrow> cmp_at it < 0" "cmp_with it < 0 \<longleftrightarrow> 0 < cmp_at it" "cmp_with it = 0 \<longleftrightarrow> cmp_at it = 0"
    using less.prems(2)[of it] half by (auto simp: sgn_if it_def split: if_splits)
  note new = search_cycle_step[where cmp_at = cmp_at and steps = steps, OF in_range it_def half_def]
  note old = old_cycle_step[where cmp_with = cmp_with and steps = steps, OF it]
  consider "cmp_at it = 0" | "cmp_at it < 0" | "0 < cmp_at it" by linarith
  then show ?case
  proof cases
    case 1 then show ?thesis unfolding new old using sign by (simp add: Let_def)
  next
    case 2
    have ih: "0 < scope - 1 - half \<Longrightarrow> old_cycle cmp_with (it + 1) (it + 1 + (scope - 1 - half) - 1) (steps + 1) =
        (let r = search_cycle cmp_at (it + 1) (scope - 1 - half) (steps + 1) in (sr_it r, sr_exact r, sr_steps r))"
      using half less.prems(2) by (intro less.hyps) (auto simp: it_def)
    have "it + 1 + (scope - 1 - half) - 1 = lo + scope - 1" by (simp add: it_def)
    then show ?thesis unfolding new old using sign 2 ih by (auto simp: Let_def it_def)
  next
    case 3
    have ih: "0 < half \<Longrightarrow> old_cycle cmp_with lo (lo + half - 1) (steps + 1) =
        (let r = search_cycle cmp_at lo half (steps + 1) in (sr_it r, sr_exact r, sr_steps r))"
      using half less.prems(2) by (intro less.hyps) (auto simp: it_def)
    have "it - 1 = lo + half - 1" "lo \<le> it - 1 \<longleftrightarrow> 0 < half" by (simp_all add: it_def)
    then show ?thesis unfolding new old using sign 3 ih by (auto simp: Let_def)
  qed
qed

text \<open>What the loop computes on keys in order.\<close>

definition ascending_at :: "(int \<Rightarrow> int) \<Rightarrow> int \<Rightarrow> int \<Rightarrow> bool" where
  "ascending_at cmp_at lo hi \<longleftrightarrow>
     (\<forall>i j. lo \<le> i \<and> i < j \<and> j < hi \<longrightarrow> (cmp_at j \<le> 0 \<longrightarrow> cmp_at i < 0) \<and> (0 \<le> cmp_at i \<longrightarrow> 0 < cmp_at j))"

lemma ascending_at_sub:
  assumes "ascending_at cmp_at lo hi" "lo \<le> lo'" "hi' \<le> hi"
  shows "ascending_at cmp_at lo' hi'"
  unfolding ascending_at_def
proof (intro allI impI)
  fix i j assume "lo' \<le> i \<and> i < j \<and> j < hi'"
  then have "lo \<le> i \<and> i < j \<and> j < hi" using assms(2,3) by linarith
  then show "(cmp_at j \<le> 0 \<longrightarrow> cmp_at i < 0) \<and> (0 \<le> cmp_at i \<longrightarrow> 0 < cmp_at j)" using assms(1) unfolding ascending_at_def by blast
qed

definition cycle_finds :: "(int \<Rightarrow> int) \<Rightarrow> int \<Rightarrow> int \<Rightarrow> nat \<Rightarrow> search_result \<Rightarrow> bool" where
  "cycle_finds cmp_at lo hi steps r \<longleftrightarrow>
     lo \<le> sr_it r \<and> sr_it r \<le> hi \<and> sr_exact r = (\<exists>i \<in> {lo ..< hi}. cmp_at i = 0) \<and>
     (\<forall>i. lo \<le> i \<and> i < sr_it r \<longrightarrow> cmp_at i < 0) \<and>
     (if sr_exact r then sr_it r < hi \<and> cmp_at (sr_it r) = 0
      else sr_lo r = sr_it r \<and> (\<forall>i. sr_it r \<le> i \<and> i < hi \<longrightarrow> 0 < cmp_at i)) \<and>
     steps < sr_steps r \<and> 2 ^ (sr_steps r - steps) \<le> 2 * (hi - lo)"

lemma steps_double:
  assumes "steps + 1 < (s :: nat)" "2 ^ (s - (steps + 1)) \<le> 2 * n" "2 * n \<le> (m :: int)"
  shows "steps < s \<and> 2 ^ (s - steps) \<le> 2 * m"
proof -
  have "s - steps = Suc (s - (steps + 1))" using assms(1) by simp
  then have "(2 :: int) ^ (s - steps) = 2 * 2 ^ (s - (steps + 1))" by (simp only: power_Suc)
  then show ?thesis using assms by linarith
qed

lemma bex_cong_range:
  assumes "(lo :: int) \<le> lo'" "hi' \<le> hi" "\<And>i. i \<in> {lo ..< hi} \<Longrightarrow> i \<notin> {lo' ..< hi'} \<Longrightarrow> \<not> P i"
  shows "(\<exists>i \<in> {lo ..< hi}. P i) = (\<exists>i \<in> {lo' ..< hi'}. P i)"
proof
  assume "\<exists>i \<in> {lo' ..< hi'}. P i"
  then obtain i where "i \<in> {lo' ..< hi'}" "P i" by blast
  then show "\<exists>i \<in> {lo ..< hi}. P i" using assms(1,2) by (intro bexI[of _ i]) auto
qed (use assms(3) in blast)

lemma cycle_finds_right:
  assumes r: "cycle_finds cmp_at (it + 1) hi (steps + 1) r" and lo: "lo \<le> it" and below: "\<And>i. lo \<le> i \<Longrightarrow> i \<le> it \<Longrightarrow> cmp_at i < 0"
    and half: "2 * (hi - (it + 1)) \<le> hi - lo"
  shows "cycle_finds cmp_at lo hi steps r"
proof -
  note r = r[unfolded cycle_finds_def]
  have "(\<exists>i \<in> {lo ..< hi}. cmp_at i = 0) = (\<exists>i \<in> {it + 1 ..< hi}. cmp_at i = 0)" 
  proof (rule bex_cong_range)
    show "cmp_at i \<noteq> 0" if "i \<in> {lo ..< hi}" "i \<notin> {it + 1 ..< hi}" for i using below[of i] that by auto
  qed (use lo in auto)
  moreover have "cmp_at i < 0" if "lo \<le> i" "i < sr_it r" for i using r below that by (cases "i \<le> it") auto
  moreover have "steps < sr_steps r \<and> 2 ^ (sr_steps r - steps) \<le> 2 * (hi - lo)" using r half by (intro steps_double[of _ _ "hi - (it + 1)"]) simp_all
  ultimately show ?thesis using r lo unfolding cycle_finds_def by auto
qed

lemma cycle_finds_left:
  assumes r: "cycle_finds cmp_at lo it (steps + 1) r" and hi: "it \<le> hi" and above: "\<And>i. it \<le> i \<Longrightarrow> i < hi \<Longrightarrow> 0 < cmp_at i"
    and half: "2 * (it - lo) \<le> hi - lo"
  shows "cycle_finds cmp_at lo hi steps r"
proof -
  note r = r[unfolded cycle_finds_def]
  have "(\<exists>i \<in> {lo ..< hi}. cmp_at i = 0) = (\<exists>i \<in> {lo ..< it}. cmp_at i = 0)" 
  proof (rule bex_cong_range[OF order_refl hi])
    show "cmp_at i \<noteq> 0" if "i \<in> {lo ..< hi}" "i \<notin> {lo ..< it}" for i using above[of i] that by auto
  qed
  moreover have "0 < cmp_at i" if "\<not> sr_exact r" "sr_it r \<le> i" "i < hi" for i using r above that by (cases "i < it") auto
  moreover have "steps < sr_steps r \<and> 2 ^ (sr_steps r - steps) \<le> 2 * (hi - lo)" using r half by (intro steps_double[of _ _ "it - lo"]) simp_all
  ultimately show ?thesis using r hi unfolding cycle_finds_def by auto
qed

lemma search_cycle_finds:
  assumes "0 < scope" "\<And>i. lo \<le> i \<Longrightarrow> i < lo + scope \<Longrightarrow> intptr (cmp_at i)" "ascending_at cmp_at lo (lo + scope)"
  shows "cycle_finds cmp_at lo (lo + scope) steps (search_cycle cmp_at lo scope steps)"
  using assms
proof (induction "nat scope" arbitrary: lo scope steps rule: less_induct)
  case less
  define half where "half = (scope - 1) div 2"
  define it where "it = lo + half"
  have half: "0 \<le> half" "half < scope" "2 * half < scope" "2 * (scope - 1 - half) \<le> scope" using less.prems(1) by (auto simp: half_def)
  have asc: "(cmp_at j \<le> 0 \<longrightarrow> cmp_at i < 0) \<and> (0 \<le> cmp_at i \<longrightarrow> 0 < cmp_at j)" if "lo \<le> i" "i < j" "j < lo + scope" for i j
    using less.prems(3) that unfolding ascending_at_def by blast
  have in_range: "intptr (cmp_at it)" using less.prems(2)[of it] half by (simp add: it_def)
  note new = search_cycle_step[where cmp_at = cmp_at and steps = steps, OF in_range it_def half_def]
  consider "cmp_at it = 0" | "cmp_at it < 0" | "0 < cmp_at it" by linarith
  then show ?case
  proof cases
    case 1
    have "cmp_at i < 0" if "lo \<le> i" "i < it" for i using 1 asc[of i it] that half by (simp add: it_def)
    then show ?thesis unfolding new using 1 half by (auto simp: cycle_finds_def it_def)
  next
    case 2
    have below: "cmp_at i < 0" if "lo \<le> i" "i \<le> it" for i using 2 asc[of i it] that half by (cases "i = it") (auto simp: it_def)
    show ?thesis
    proof (cases "it + 1 < lo + scope")
      case True
      have eq: "it + 1 + (scope - 1 - half) = lo + scope" by (simp add: it_def)
      have "cycle_finds cmp_at (it + 1) (it + 1 + (scope - 1 - half)) (steps + 1) (search_cycle cmp_at (it + 1) (scope - 1 - half) (steps + 1))"
        using half True by (intro less.hyps ascending_at_sub[OF less.prems(3)] less.prems(2)) (simp_all add: it_def)
      then have f: "cycle_finds cmp_at (it + 1) (lo + scope) (steps + 1) (search_cycle cmp_at (it + 1) (scope - 1 - half) (steps + 1))"
        unfolding eq .
      have step: "search_cycle cmp_at lo scope steps = search_cycle cmp_at (it + 1) (scope - 1 - half) (steps + 1)"
        using new 2 True by simp
      show ?thesis unfolding step by (rule cycle_finds_right[OF f _ below]) (use half in \<open>simp_all add: it_def\<close>)
    next
      case False
      then have "it + 1 = lo + scope" using half by (simp add: it_def)
      then show ?thesis unfolding new using 2 below half less.prems(1) by (force simp: cycle_finds_def)
    qed
  next
    case 3
    have above: "0 < cmp_at i" if "it \<le> i" "i < lo + scope" for i using 3 asc[of it i] that half by (cases "i = it") (auto simp: it_def)
    show ?thesis
    proof (cases "0 < half")
      case True
      have "cycle_finds cmp_at lo (lo + half) (steps + 1) (search_cycle cmp_at lo half (steps + 1))"
        using half True by (intro less.hyps ascending_at_sub[OF less.prems(3)] less.prems(2)) simp_all
      then have f: "cycle_finds cmp_at lo it (steps + 1) (search_cycle cmp_at lo half (steps + 1))" unfolding it_def .
      have step: "search_cycle cmp_at lo scope steps = search_cycle cmp_at lo half (steps + 1)"
        using new 3 True by simp
      show ?thesis unfolding step by (rule cycle_finds_left[OF f _ above]) (use half in \<open>simp_all add: it_def\<close>)
    next
      case False
      then have "it = lo" using half by (simp add: it_def)
      then show ?thesis unfolding new using 3 False above half less.prems(1) by (force simp: cycle_finds_def)
    qed
  qed
qed

subsection \<open>The variants compare as the function of the table\<close>

lemma cmp_uint_checked:
  assumes "length a = length b" "length a = 4 \<or> length a = 8"
  shows "cmp_uint a b = (if length a = 4 then cmp_uint32_unchecked a b else cmp_uint64_unchecked a b)"
  using assms by (auto simp: cmp_uint_def)

lemma ordinal_variant_cmp:
  assumes "ordinal_variant validation k keylen = Some v"
    and "clc_lmin k \<le> length a" "length a \<le> clc_lmax k" "clc_lmin k \<le> length b" "length b \<le> clc_lmax k"
  shows "variant_cmp (clc_cmp k) v a b = run_cmp (clc_cmp k) a b"
  using assms by (auto simp: ordinal_variant_def Let_def cmp_uint_checked split: if_splits)

lemma search_branch_variant:
  assumes "clc_lmin k \<le> length a" "length a \<le> clc_lmax k" "clc_lmin k \<le> length b" "length b \<le> clc_lmax k"
  shows "variant_cmp (clc_cmp k) (cursor_to_search_branch validation tree_flags k mp) a b = run_cmp (clc_cmp k) a b"
  unfolding cursor_to_search_branch_def
  using ordinal_variant_cmp[OF _ assms]
  by (auto simp: Let_def split: cmp_func.split option.split)

lemma search_foliage_variant:
  assumes "cursor_to_search_foliage validation tree_flags inner dupfix_size k mp = (dupfixed, v, k')"
    and "clc_lmin k \<le> length a" "length a \<le> clc_lmax k" "clc_lmin k \<le> length b" "length b \<le> clc_lmax k"
    and "has_flag tree_flags MDBX_DUPFIXED \<Longrightarrow> inner \<Longrightarrow> length a = dupfix_size \<and> length b = dupfix_size"
  shows "variant_cmp (clc_cmp k) v a b = run_cmp (clc_cmp k) a b" "dupfixed = (has_flag tree_flags MDBX_DUPFIXED \<and> inner)"
proof -
  let ?dup = "has_flag tree_flags MDBX_DUPFIXED \<and> inner"
  define k'' where "k'' = (if clc_lmin k \<le> dupfix_size \<and> dupfix_size \<le> clc_lmax k \<and> (dupfix_size = 4 \<or> dupfix_size = 8)
      then k\<lparr>clc_lmin := dupfix_size, clc_lmax := dupfix_size\<rparr> else k)"
  have narrowed: "ordinal_variant validation k'' dupfix_size = Some v' \<Longrightarrow> ?dup \<Longrightarrow> variant_cmp (clc_cmp k) v' a b = run_cmp (clc_cmp k) a b" for v'
    using ordinal_variant_cmp[of validation k'' dupfix_size v' a b] assms by (auto simp: k''_def split: if_splits)
  have usual: "ordinal_variant validation k keylen = Some v' \<Longrightarrow> variant_cmp (clc_cmp k) v' a b = run_cmp (clc_cmp k) a b" for v' keylen
    using ordinal_variant_cmp[OF _ assms(2-5)] .
  show "variant_cmp (clc_cmp k) v a b = run_cmp (clc_cmp k) a b"
    using assms(1) narrowed usual unfolding cursor_to_search_foliage_def Let_def k''_def[symmetric]
    by (auto split: cmp_func.splits option.splits if_splits)
  show "dupfixed = ?dup"
    using assms(1) unfolding cursor_to_search_foliage_def Let_def
    by (auto split: cmp_func.splits option.splits if_splits)
qed

subsection \<open>The keys of a page\<close>

definition page_keys :: "page \<Rightarrow> bytes list" where
  "page_keys mp = map (\<lambda>i. if is_dupfix_leaf mp then page_dupfix_key mp i else key_at mp (int i)) [0..<page_numkeys mp]"

text \<open>The position of a key: how many keys are less.\<close>

definition lower_bound :: "(bytes \<Rightarrow> bytes \<Rightarrow> int) \<Rightarrow> bytes list \<Rightarrow> bytes \<Rightarrow> nat" where
  "lower_bound cmp ks key = length (takeWhile (\<lambda>k. cmp k key < 0) ks)"

lemma lower_bound_unique:
  assumes "n \<le> length ks" "\<And>i. i < n \<Longrightarrow> cmp (ks ! i) key < 0" "n < length ks \<Longrightarrow> \<not> cmp (ks ! n) key < 0"
  shows "lower_bound cmp ks key = n"
proof -
  have "takeWhile (\<lambda>k. cmp k key < 0) ks = take n ks" using assms
  proof (intro takeWhile_eq_take_P_nth)
  qed auto
  then show ?thesis using assms(1) by (simp add: lower_bound_def)
qed

context comparator
begin

lemma ascending_cmp_at:
  assumes sorted: "sorted_wrt (\<lambda>a b. cmp a b < 0) ks" and valid: "list_all valid (key # ks)"
    and c: "\<And>i. i < length ks \<Longrightarrow> c (lo + int i) = cmp (ks ! i) key"
  shows "ascending_at c lo (lo + int (length ks))"
  unfolding ascending_at_def
proof (intro allI impI)
  fix i j :: int assume ij: "lo \<le> i \<and> i < j \<and> j < lo + int (length ks)"
  let ?a = "ks ! nat (i - lo)" and ?b = "ks ! nat (j - lo)"
  have ci: "c i = cmp ?a key" and cj: "c j = cmp ?b key" using c[of "nat (i - lo)"] c[of "nat (j - lo)"] ij by auto
  have v: "valid ?a" "valid ?b" "valid key" using valid ij by (auto simp: list_all_iff)
  have ab: "cmp ?a ?b < 0" using sorted_wrt_nth_less[OF sorted, of "nat (i - lo)" "nat (j - lo)"] ij by auto
  have "c i < 0" if "c j \<le> 0"
    using trans[OF v ab] that eq_zero[OF v(2,3)] ab unfolding ci cj by (cases "cmp ?b key = 0") auto
  then show "(c j \<le> 0 \<longrightarrow> c i < 0) \<and> (0 \<le> c i \<longrightarrow> 0 < c j)" by (metis not_le)
qed

lemma search_cycle_keys:
  assumes sorted: "sorted_wrt (\<lambda>a b. cmp a b < 0) ks" and valid: "list_all valid (key # ks)" and ks: "ks \<noteq> []"
    and c: "\<And>i. i < length ks \<Longrightarrow> intptr (cmp (ks ! i) key) \<and> c (lo + int i) = cmp (ks ! i) key"
    and r: "r = search_cycle c lo (int (length ks)) 0"
  shows "sr_it r = lo + int (lower_bound cmp ks key)" "sr_exact r = (key \<in> set ks)"
    "\<not> sr_exact r \<Longrightarrow> sr_lo r = sr_it r" "0 < sr_steps r" "2 ^ sr_steps r \<le> 2 * length ks"
    "sr_exact r \<Longrightarrow> lower_bound cmp ks key < length ks"
proof -
  let ?n = "length ks"
  have at: "intptr (c i)" "c i = cmp (ks ! nat (i - lo)) key" if "lo \<le> i" "i < lo + int ?n" for i
    using c[of "nat (i - lo)"] that by auto
  have "ascending_at c lo (lo + int ?n)" using c by (intro ascending_cmp_at[OF sorted valid]) simp
  then have "cycle_finds c lo (lo + int ?n) 0 r" using at(1) ks unfolding r by (intro search_cycle_finds) auto
  note f = this[unfolded cycle_finds_def]
  define m where "m = nat (sr_it r - lo)"
  have m: "sr_it r = lo + int m" "m \<le> ?n" using f by (auto simp: m_def)
  have less: "cmp (ks ! i) key < 0" if "i < m" for i
    using f c[of i] that m by (auto dest: spec[of _ "lo + int i"])
  have not_less: "\<not> cmp (ks ! m) key < 0" if "m < ?n"
    using f c[of m] that m by (cases "sr_exact r") auto
  have "lower_bound cmp ks key = m" using m less not_less by (intro lower_bound_unique) auto
  then show "sr_it r = lo + int (lower_bound cmp ks key)" "sr_exact r \<Longrightarrow> lower_bound cmp ks key < ?n"
    using m f by (simp, cases "sr_exact r") auto
  show "\<not> sr_exact r \<Longrightarrow> sr_lo r = sr_it r" "0 < sr_steps r" using f by auto
  have "(2 :: int) ^ sr_steps r \<le> 2 * int ?n" using f by simp
  then show "2 ^ sr_steps r \<le> 2 * ?n" by (metis of_nat_le_iff of_nat_mult of_nat_numeral of_nat_power)
  have zero: "cmp k key = 0 \<longleftrightarrow> k = key" if "k \<in> set ks" for k using eq_zero[of k key] valid that by (auto simp: list_all_iff)
  have "sr_exact r \<longleftrightarrow> (\<exists>i \<in> {lo ..< lo + int ?n}. c i = 0)" using f by blast
  also have "\<dots> \<longleftrightarrow> key \<in> set ks"
  proof
    assume "\<exists>i \<in> {lo ..< lo + int ?n}. c i = 0"
    then obtain i where i: "lo \<le> i" "i < lo + int ?n" "c i = 0" by auto
    then have "ks ! nat (i - lo) \<in> set ks" "ks ! nat (i - lo) = key" using at(2)[of i] zero[of "ks ! nat (i - lo)"] by auto
    then show "key \<in> set ks" by simp
  next
    assume "key \<in> set ks"
    then obtain i where i: "i < ?n" "ks ! i = key" unfolding in_set_conv_nth by blast
    then have "c (lo + int i) = 0" using c[OF i(1)] zero[OF nth_mem[OF i(1)]] i(2) by simp
    then show "\<exists>i \<in> {lo ..< lo + int ?n}. c i = 0" using i by (intro bexI[of _ "lo + int i"]) auto
  qed
  finally show "sr_exact r = (key \<in> set ks)" .
qed

end

text \<open>What is asked of the keys that are compared with the key sought.\<close>

definition searchable :: "clc \<Rightarrow> (bytes \<Rightarrow> bool) \<Rightarrow> bytes list \<Rightarrow> bytes \<Rightarrow> bool" where
  "searchable k valid ks key \<longleftrightarrow>
     list_all valid (key # ks) \<and> list_all (\<lambda>x. clc_lmin k \<le> length x \<and> length x \<le> clc_lmax k) (key # ks) \<and>
     sorted_wrt (\<lambda>a b. run_cmp (clc_cmp k) a b < 0) ks \<and> list_all (\<lambda>x. intptr (run_cmp (clc_cmp k) x key)) ks \<and>
     length ks < 2 ^ 16 - 1"

lemma tree_search_foliage_finds:
  assumes cmp: "comparator (run_cmp (clc_cmp k)) valid" and keys: "searchable k valid (page_keys mp) key"
    and leaf: "pg_flags mp AND P_BRANCH = 0" "is_dupfix_leaf mp = (has_flag tree_flags MDBX_DUPFIXED \<and> inner)"
    and dup: "is_dupfix_leaf mp \<Longrightarrow> list_all (\<lambda>x. length x = dupfix_size) (key # page_keys mp)"
    and r: "r = tree_search_foliage validation tree_flags inner dupfix_size k mp key"
  shows "fd_ki r = lower_bound (run_cmp (clc_cmp k)) (page_keys mp) key" "fd_exact r = (key \<in> set (page_keys mp))"
    "fd_node r = (if fd_ki r < page_numkeys mp then if is_dupfix_leaf mp then Fake_node else Node_at (int (fd_ki r)) else Null_node)"
    "page_numkeys mp = 0 \<or> 2 ^ fd_steps r \<le> 2 * page_numkeys mp"
proof -
  let ?cmp = "run_cmp (clc_cmp k)" and ?ks = "page_keys mp" and ?n = "page_numkeys mp"
  let ?dup = "is_dupfix_leaf mp"
  obtain dupfixed v k' where sel: "cursor_to_search_foliage validation tree_flags inner dupfix_size k mp = (dupfixed, v, k')"
    by (metis prod_cases3)
  have len: "length ?ks = ?n" by (simp add: page_keys_def)
  have same: "variant_cmp (clc_cmp k) v x key = ?cmp x key" if "x \<in> set ?ks" for x
    using search_foliage_variant(1)[OF sel, of x key] that keys dup leaf(2) unfolding searchable_def by (simp add: list_all_iff)
  have "dupfixed = ?dup"
    using search_foliage_variant(2)[OF sel, of key key] keys dup leaf(2) unfolding searchable_def by (simp add: list_all_iff)
  define c where "c = (\<lambda>it. variant_cmp (clc_cmp k) v (if ?dup then page_dupfix_key mp (nat it) else key_at mp it) key)"
  define node_of where "node_of = (\<lambda>i. if ?dup then Fake_node else Node_at i)"
  have r': "r = (if ?n = 0 then not_searched else node_found (int ?n) node_of (search_cycle c 0 (int (length ?ks)) 0))"
    unfolding r tree_search_foliage_def sel search_foliage_def Let_def c_def node_of_def len using leaf(1) \<open>dupfixed = ?dup\<close>
    by simp
  have c: "intptr (?cmp (?ks ! i) key) \<and> c (0 + int i) = ?cmp (?ks ! i) key" if "i < length ?ks" for i
  proof -
    have "?ks ! i \<in> set ?ks" using that by simp
    moreover have "?ks ! i = (if ?dup then page_dupfix_key mp i else key_at mp (int i))" using that len by (simp add: page_keys_def)
    ultimately show ?thesis using same[of "?ks ! i"] keys by (auto simp: c_def searchable_def list_all_iff)
  qed
  have small: "?n < 2 ^ 16 - 1" using keys len by (simp add: searchable_def)
  have "fd_ki r = lower_bound ?cmp ?ks key \<and> fd_exact r = (key \<in> set ?ks) \<and>
      fd_node r = (if fd_ki r < ?n then if ?dup then Fake_node else Node_at (int (fd_ki r)) else Null_node) \<and>
      (?n = 0 \<or> 2 ^ fd_steps r \<le> 2 * ?n)"
  proof (cases "?n = 0")
    case True
    then have "?ks = []" using len by simp
    then show ?thesis using True by (simp add: r' not_searched_def lower_bound_def)
  next
    case False
    then have "?ks \<noteq> []" using len by auto
    note f = comparator.search_cycle_keys[OF cmp _ _ this c refl]
    let ?r = "search_cycle c 0 (int (length ?ks)) 0" and ?b = "lower_bound ?cmp ?ks key"
    have f: "sr_it ?r = int ?b" "sr_exact ?r = (key \<in> set ?ks)" "sr_exact ?r \<Longrightarrow> ?b < ?n" "2 ^ sr_steps ?r \<le> 2 * ?n"
      using f keys len unfolding searchable_def by simp_all
    have b: "?b \<le> ?n" unfolding len[symmetric] lower_bound_def by (rule length_takeWhile_le)
    have mod: "nat (int ?b mod 65536) = ?b" using b small by simp
    show ?thesis
      using False f mod b by (auto simp: r' node_found_def node_of_def)
  qed
  then show "fd_ki r = lower_bound ?cmp ?ks key" "fd_exact r = (key \<in> set ?ks)"
    "fd_node r = (if fd_ki r < ?n then if ?dup then Fake_node else Node_at (int (fd_ki r)) else Null_node)"
    "?n = 0 \<or> 2 ^ fd_steps r \<le> 2 * ?n" by simp_all
qed


text \<open>The child for a key: the last one whose key is not greater; the first child has none.\<close>

definition child_index :: "(bytes \<Rightarrow> bytes \<Rightarrow> int) \<Rightarrow> bytes list \<Rightarrow> bytes \<Rightarrow> nat" where
  "child_index cmp ks key = length (takeWhile (\<lambda>k. cmp k key \<le> 0) ks)"

context comparator
begin

lemma child_index_lower_bound:
  assumes sorted: "sorted_wrt (\<lambda>a b. cmp a b < 0) ks" and valid: "list_all valid (key # ks)"
  shows "child_index cmp ks key = lower_bound cmp ks key + of_bool (key \<in> set ks)"
  using assms
proof (induction ks)
  case (Cons k ks)
  have v: "valid k" "valid key" "list_all valid ks" using Cons.prems(2) by simp_all
  have ih: "child_index cmp ks key = lower_bound cmp ks key + of_bool (key \<in> set ks)" using Cons by simp
  consider "cmp k key < 0" | "k = key" | "0 < cmp k key" using eq_zero[OF v(1,2)] by force
  then show ?case
  proof cases
    case 1
    then have "k \<noteq> key" using eq_zero[OF v(1,2)] by auto
    then show ?thesis using 1 ih by (auto simp: child_index_def lower_bound_def)
  next
    case 2
    have "\<not> cmp x key \<le> 0" if "x \<in> set ks" for x
    proof
      assume le: "cmp x key \<le> 0"
      have x: "valid x" "cmp key x < 0" using that v Cons.prems 2 by (auto simp: list_all_iff)
      then show False using not_both[of key x] eq_zero[of x key] v le 2 by force
    qed
    then have "takeWhile (\<lambda>k. cmp k key \<le> 0) ks = []" by (cases ks) auto
    then show ?thesis using 2 eq_zero[OF v(2,2)] by (simp add: child_index_def lower_bound_def)
  next
    case 3
    have "key \<notin> set ks"
    proof
      assume "key \<in> set ks"
      then have "cmp k key < 0" using Cons.prems(1) by simp
      then show False using 3 by simp
    qed
    moreover have "k \<noteq> key" using 3 eq_zero[OF v(1,2)] by auto
    ultimately show ?thesis using 3 by (auto simp: child_index_def lower_bound_def)
  qed
qed (simp add: child_index_def lower_bound_def)

end

lemma tree_search_branch_finds:
  assumes cmp: "comparator (run_cmp (clc_cmp k)) valid" and keys: "searchable k valid (tl (page_keys mp)) key"
    and branch: "\<not> is_dupfix_leaf mp" "0 < page_numkeys mp"
  shows "tree_search_branch validation tree_flags k mp key = child_index (run_cmp (clc_cmp k)) (tl (page_keys mp)) key"
proof -
  let ?cmp = "run_cmp (clc_cmp k)" and ?ks = "tl (page_keys mp)" and ?n = "page_numkeys mp"
  let ?v = "cursor_to_search_branch validation tree_flags k mp"
  have len: "length ?ks = ?n - 1" by (simp add: page_keys_def)
  have idx: "child_index ?cmp ?ks key = lower_bound ?cmp ?ks key + of_bool (key \<in> set ?ks)"
    using keys unfolding searchable_def by (intro comparator.child_index_lower_bound[OF cmp]) simp_all
  show ?thesis
  proof (cases "1 < ?n")
    case False
    then have "?ks = []" using len by (simp flip: length_0_conv)
    then show ?thesis using False by (simp add: tree_search_branch_def search_branch_def child_index_def Let_def)
  next
    case True
    then have ne: "?ks \<noteq> []" using len by (metis list.size(3) less_numeral_extra(3) zero_less_diff)
    define c where "c = (\<lambda>it. variant_cmp (clc_cmp k) ?v (key_at mp it) key)"
    have c: "intptr (?cmp (?ks ! i) key) \<and> c (1 + int i) = ?cmp (?ks ! i) key" if i: "i < length ?ks" for i
    proof -
      have in_ks: "?ks ! i \<in> set ?ks" using that by simp
      have "?ks ! i = key_at mp (1 + int i)" using i len branch by (simp add: page_keys_def nth_tl)
      moreover have "variant_cmp (clc_cmp k) ?v (?ks ! i) key = ?cmp (?ks ! i) key"
        using search_branch_variant[of k "?ks ! i" key validation tree_flags mp] keys in_ks by (simp add: searchable_def list_all_iff)
      ultimately show ?thesis using keys in_ks by (auto simp: c_def searchable_def list_all_iff)
    qed
    let ?r = "search_cycle c 1 (int (length ?ks)) 0"
    have f: "sr_it ?r = 1 + int (lower_bound ?cmp ?ks key)" "sr_exact ?r = (key \<in> set ?ks)" "\<not> sr_exact ?r \<Longrightarrow> sr_lo ?r = sr_it ?r"
      using comparator.search_cycle_keys[OF cmp _ _ ne c refl] keys unfolding searchable_def by simp_all
    have "int ?n - 1 = int (length ?ks)" using True len by simp
    then have "tree_search_branch validation tree_flags k mp key = nat (if sr_exact ?r then sr_it ?r else sr_lo ?r - 1)"
      using True by (simp add: tree_search_branch_def search_branch_def Let_def c_def)
    also have "\<dots> = lower_bound ?cmp ?ks key + of_bool (key \<in> set ?ks)" using f by auto
    finally show ?thesis using idx by simp
  qed
qed

subsection \<open>The searches\<close>

lemma cycle_miss_lo:
  assumes "0 < scope" "\<And>i. lo \<le> i \<Longrightarrow> i < lo + scope \<Longrightarrow> intptr (cmp_at i)"
  shows "let r = search_cycle cmp_at lo scope steps in
    lo \<le> sr_it r \<and> sr_it r \<le> lo + scope \<and> (if sr_exact r then sr_it r < lo + scope else sr_lo r = sr_it r)"
  using assms
proof (induction "nat scope" arbitrary: lo scope steps rule: less_induct)
  case less
  define half where "half = (scope - 1) div 2"
  define it where "it = lo + half"
  have half: "0 \<le> half" "half < scope" using less.prems(1) by (auto simp: half_def)
  have in_range: "intptr (cmp_at it)" using less.prems(2)[of it] half by (simp add: it_def)
  note new = search_cycle_step[where cmp_at = cmp_at and steps = steps, OF in_range it_def half_def]
  have right: "let r = search_cycle cmp_at (it + 1) (scope - 1 - half) (steps + 1) in
      it + 1 \<le> sr_it r \<and> sr_it r \<le> it + 1 + (scope - 1 - half) \<and> (if sr_exact r then sr_it r < it + 1 + (scope - 1 - half) else sr_lo r = sr_it r)"
    if "0 < scope - 1 - half" using that half less.prems(2) by (intro less.hyps) (auto simp: it_def)
  have left: "let r = search_cycle cmp_at lo half (steps + 1) in
      lo \<le> sr_it r \<and> sr_it r \<le> lo + half \<and> (if sr_exact r then sr_it r < lo + half else sr_lo r = sr_it r)"
    if "0 < half" using that half less.prems(2) by (intro less.hyps) auto
  consider "cmp_at it = 0" | "cmp_at it < 0" | "0 < cmp_at it" by linarith
  then show ?case
  proof cases
    case 2
    then show ?thesis unfolding new using right half by (auto simp: Let_def it_def split: if_splits)
  next
    case 3
    then show ?thesis unfolding new using left half by (auto simp: Let_def it_def split: if_splits)
  qed (use new half in \<open>simp add: Let_def it_def\<close>)
qed

text \<open>
  C29. The search without branches does what the older search does, for every page and every comparator whose sign
  changes with the order of its arguments, whether the keys are in order or not: the same index, node and answer, by
  the same number of comparisons. So the self-check that compares the two searches can not fail, for leaves and for
  branches.
\<close>

theorem search_matches_old:
  assumes "page_numkeys mp < 2 ^ 16" and "is_dupfix_leaf mp \<Longrightarrow> pg_flags mp AND P_BRANCH = 0"
    and "list_all (\<lambda>k. intptr (cmp k key) \<and> sgn (cmp key k) = - sgn (cmp k key)) (page_keys mp)"
  shows "search_foliage cmp cmp False (is_dupfix_leaf mp) mp key = old_node_search cmp mp key \<and>
    (is_branch mp \<and> 1 < page_numkeys mp \<longrightarrow> search_branch cmp mp key = old_branch_search cmp mp key)"
proof -
  let ?n = "int (page_numkeys mp)" and ?lo = "int (pg_flags mp AND P_BRANCH)"
  define at where "at = (\<lambda>i. if is_dupfix_leaf mp then page_dupfix_key mp (nat i) else key_at mp i)"
  have keys: "intptr (cmp (at i) key) \<and> sgn (cmp key (at i)) = - sgn (cmp (at i) key)" if "0 \<le> i" "i < ?n" for i
  proof -
    have "at i = page_keys mp ! nat i" "nat i < length (page_keys mp)" using that by (auto simp: at_def page_keys_def)
    then show ?thesis using assms(3) by (simp add: list_all_length)
  qed
  define r where "r = search_cycle (\<lambda>i. cmp (at i) key) ?lo (?n - ?lo) 0"
  have r: "old_cycle (\<lambda>i. cmp key (at i)) ?lo (?n - 1) 0 = (sr_it r, sr_exact r, sr_steps r)"
    "?lo \<le> sr_it r" "sr_it r \<le> ?n" "sr_exact r \<Longrightarrow> sr_it r < ?n" "\<not> sr_exact r \<Longrightarrow> sr_lo r = sr_it r" if "?lo < ?n"
    using that keys cycles_agree[of "?n - ?lo" ?lo "\<lambda>i. cmp (at i) key" "\<lambda>i. cmp key (at i)" 0]
      cycle_miss_lo[of "?n - ?lo" ?lo "\<lambda>i. cmp (at i) key" 0] unfolding r_def[symmetric] by (simp_all add: Let_def)
  have small: "nat (sr_it r mod 65536) = nat (sr_it r)" "0 \<le> sr_it r" if "?lo < ?n" using r(2,3)[OF that] assms(1) by simp_all
  have foliage: "search_foliage cmp cmp False (is_dupfix_leaf mp) mp key = old_node_search cmp mp key"
  proof (cases "?lo < ?n")
    case False then show ?thesis by (simp add: search_foliage_def old_node_search_def Let_def)
  next
    case True
    have "0 < ?lo \<Longrightarrow> \<not> is_dupfix_leaf mp" using assms(2) by auto
    then have "search_foliage cmp cmp False (is_dupfix_leaf mp) mp key =
        node_found ?n (if is_dupfix_leaf mp then (\<lambda>_. Fake_node) else Node_at) r"
      using True by (auto simp: search_foliage_def Let_def r_def at_def)
    also have "\<dots> = old_node_search cmp mp key"
      using True r(1)[OF True] r(4)[OF True] by (auto simp: old_node_search_def node_found_def Let_def at_def)
    finally show ?thesis .
  qed
  moreover have "search_branch cmp mp key = old_branch_search cmp mp key" if b: "is_branch mp" "1 < page_numkeys mp"
  proof -
    have "pg_flags mp AND P_BRANCH = 1" using b(1) by (auto simp: is_branch_def P_BRANCH_def and_one_eq)
    then have lo: "?lo = 1" "?lo < ?n" "\<not> is_dupfix_leaf mp" using b assms(2) by auto
    have "old_node_search cmp mp key = node_found ?n Node_at r"
      using foliage lo unfolding search_foliage_def Let_def r_def at_def by simp
    then have "old_branch_search cmp mp key = (nat (if sr_it r < ?n then sr_it r + of_bool (sr_exact r) - 1 else ?n - 1), sr_steps r)"
      using small[OF lo(2)] r(4)[OF lo(2)] by (auto simp: old_branch_search_def node_found_def Let_def)
    moreover have "search_branch cmp mp key = (nat (if sr_exact r then sr_it r else sr_lo r - 1), sr_steps r)"
      using b lo unfolding search_branch_def Let_def r_def at_def by simp
    ultimately show ?thesis using r(3-5)[OF lo(2)] by auto
  qed
  ultimately show ?thesis by blast
qed

text \<open>
  Searching a leaf for a key, with the variant chosen for the cursor: on keys in the order of the comparator of the
  table, the index is the number of keys that are less, the answer is exact if and only if the key is on the page, the
  node is that of the index, and at most \<open>1 + log2 n\<close> keys are compared. This holds for every built-in comparator and
  for any function of the user that is a linear order.
\<close>

theorem search_foliage_position:
  assumes "comparator (run_cmp (clc_cmp k)) valid" and "searchable k valid (page_keys mp) key"
    and "pg_flags mp AND P_BRANCH = 0" and "is_dupfix_leaf mp = (has_flag tree_flags MDBX_DUPFIXED \<and> inner)"
    and "is_dupfix_leaf mp \<Longrightarrow> list_all (\<lambda>x. length x = dupfix_size) (key # page_keys mp)"
  shows "let r = tree_search_foliage validation tree_flags inner dupfix_size k mp key in
    fd_ki r = lower_bound (run_cmp (clc_cmp k)) (page_keys mp) key \<and> fd_exact r = (key \<in> set (page_keys mp)) \<and>
    fd_node r = (if fd_ki r < page_numkeys mp then if is_dupfix_leaf mp then Fake_node else Node_at (int (fd_ki r)) else Null_node) \<and>
    (page_numkeys mp = 0 \<or> 2 ^ fd_steps r \<le> 2 * page_numkeys mp)"
  using tree_search_foliage_finds[OF assms(1-4) _ refl] assms(5) by (simp add: Let_def)

text \<open>
  Searching a branch page goes to the last child whose key is not greater than the key sought, or to the first
  child, whose key is not looked at.
\<close>

theorem search_branch_child:
  assumes "comparator (run_cmp (clc_cmp k)) valid" and "searchable k valid (tl (page_keys mp)) key"
    and "\<not> is_dupfix_leaf mp" and "0 < page_numkeys mp"
  shows "tree_search_branch validation tree_flags k mp key = child_index (run_cmp (clc_cmp k)) (tl (page_keys mp)) key \<and>
    tree_search_branch validation tree_flags k mp key < page_numkeys mp"
proof -
  have "child_index (run_cmp (clc_cmp k)) (tl (page_keys mp)) key \<le> length (tl (page_keys mp))"
    unfolding child_index_def by (rule length_takeWhile_le)
  then show ?thesis using tree_search_branch_finds[OF assms] assms(4) by (simp add: page_keys_def)
qed

subsection \<open>Witnesses\<close>

text \<open>A page with the keys 3 and 5.\<close>

definition two_keys :: "nat \<Rightarrow> page" where
  "two_keys flags = \<lparr>pg_txnid = 7, pg_ksize = 0, pg_flags = flags, pg_lower = 4, pg_upper = 8, pg_pgno = 5,
     pg_entries = [18, 8, 0, 0], pg_data = replicate 8 0 @ [0, 0, 0, 0, 0, 0, 1, 0, 5, 0] @ [0, 0, 0, 0, 0, 0, 1, 0, 3, 0]\<rparr>"

lemma two_keys_page:
  assumes "flags AND P_DUPFIX = 0"
  shows "page_numkeys (two_keys flags) = 2" "\<not> is_dupfix_leaf (two_keys flags)" "page_keys (two_keys flags) = [[3], [5]]"
proof -
  show n: "page_numkeys (two_keys flags) = 2" by (simp add: page_numkeys_def two_keys_def)
  show d: "\<not> is_dupfix_leaf (two_keys flags)" using assms by (simp add: is_dupfix_leaf_def two_keys_def)
  show "page_keys (two_keys flags) = [[3], [5]]" unfolding page_keys_def n using d
    by (simp add: key_at_def two_keys_def get_key_def node_ks_def node_key_def NODESIZE_def page_node_def peek_def numeral_2_eq_2 upt_rec)
qed

definition lexical_keys :: clc where "lexical_keys = \<lparr>clc_cmp = Ncmp_lexical, clc_lmin = 0, clc_lmax = 100\<rparr>"

lemma cmp_lexical_small: "cmp_lexical [a] [b] = int a - int b"
  by (simp add: cmp_lexical_def cmp_len_def)

theorem search_foliage_position_witness:
  "fd_exact (tree_search_foliage False 0 False 0 lexical_keys (two_keys P_LEAF) [5]) \<and>
   fd_ki (tree_search_foliage False 0 False 0 lexical_keys (two_keys P_LEAF) [5]) = 1"
proof -
  note p = two_keys_page[of P_LEAF]
  have "comparator (run_cmp (clc_cmp lexical_keys)) is_bytes" using lexical.comparator_axioms by (simp add: lexical_keys_def)
  moreover have "searchable lexical_keys is_bytes (page_keys (two_keys P_LEAF)) [5]"
    using p by (simp add: searchable_def lexical_keys_def is_bytes_def cmp_lexical_small intptr_def P_LEAF_def P_DUPFIX_def)
  ultimately show ?thesis
    using search_foliage_position[of lexical_keys is_bytes "two_keys P_LEAF" "[5]" 0 False 0 False] p
    by (simp add: Let_def P_LEAF_def P_DUPFIX_def P_BRANCH_def two_keys_def lower_bound_def lexical_keys_def cmp_lexical_small has_flag_def)
qed

theorem search_branch_child_witness:
  "tree_search_branch False 0 lexical_keys (two_keys P_BRANCH) [4] = 0"
proof -
  note p = two_keys_page[of P_BRANCH]
  have "comparator (run_cmp (clc_cmp lexical_keys)) is_bytes" using lexical.comparator_axioms by (simp add: lexical_keys_def)
  moreover have "searchable lexical_keys is_bytes (tl (page_keys (two_keys P_BRANCH))) [4]"
    using p by (simp add: searchable_def lexical_keys_def is_bytes_def cmp_lexical_small intptr_def P_BRANCH_def P_DUPFIX_def)
  ultimately show ?thesis
    using search_branch_child[of lexical_keys is_bytes "two_keys P_BRANCH" "[4]" False 0] p
    by (simp add: P_BRANCH_def P_DUPFIX_def child_index_def lexical_keys_def cmp_lexical_small)
qed

theorem search_matches_old_witness:
  "search_branch cmp_lexical (two_keys P_BRANCH) [4] = old_branch_search cmp_lexical (two_keys P_BRANCH) [4]"
  using search_matches_old[of "two_keys P_BRANCH" cmp_lexical "[4]"] two_keys_page[of P_BRANCH]
  by (simp add: cmp_lexical_small intptr_def P_BRANCH_def P_DUPFIX_def is_branch_def two_keys_def)

end
