(* ===== verification/Tree_Walk.thy ===== *)
theory Tree_Walk
  imports Tree_Path Node_Search_Ops
begin

text \<open>
  Walking the tree, step by step: the loops down the tree follow the path that a choice of a child on every page gives, a
  step aside goes to the neighbour on the level, and in an ordered tree the choice by the key separates the leaves.
\<close>

unbundle bit_operations_syntax

subsection \<open>Down the tree\<close>

text \<open>The path that a choice of a child on every page gives.\<close>

fun route :: "(page \<Rightarrow> nat) \<Rightarrow> nat \<Rightarrow> tree \<Rightarrow> nat list" where
  "route choice 0 t = []"
| "route choice (Suc h) t = choice (tpage t) # route choice h (children t ! choice (tpage t))"

lemma length_route [simp]: "length (route choice h t) = h" by (induction choice h t rule: route.induct) simp_all

lemma search_loop_at:
  assumes "wf_tree p chk txn h (sub t ks)" "at_path chk t ks mc" "length ks + h < 32" "flags AND Z_MODIFY = 0"
    and tb: "mc_table mc = tb" and choice: "choice = (\<lambda>mp. tree_search_branch True (tb_flags tb) (tb_clc tb) mp key)"
    and inside: "\<And>js. is_branch (tpage (sub t (ks @ js))) \<Longrightarrow> js \<in> set (paths (length js) (sub t ks)) \<Longrightarrow>
      choice (tpage (sub t (ks @ js))) < length (children (sub t (ks @ js)))"
    and start: "top_ki mc = 0"
  shows "\<exists>mc'. search_loop p key flags mc txn = (MDBX_SUCCESS, mc', txn) \<and>
    at_path chk t (ks @ route choice h (sub t ks)) mc' \<and> moved mc mc' \<and> top_ki mc' = 0"
  using assms(1-3) tb inside start
proof (induction h arbitrary: ks mc)
  case 0
  then have "search_loop p key flags mc txn = (MDBX_SUCCESS, mc, txn)"
    using leaf_reached_at[OF 0(2,1)] at_path_top[OF 0(2)] by (subst search_loop.simps) (auto simp: Let_def)
  then show ?case using 0 by auto
next
  case (Suc h)
  note top = at_path_top[OF Suc.prems(2)]
  let ?t = "sub t ks" let ?k = "choice (tpage ?t)" let ?c = "sub t (ks @ [?k])"
  have br: "is_branch (tpage ?t)" "length (children ?t) < 65536" using Suc.prems(1) by auto
  have k: "?k < length (children ?t)" using Suc.prems(5)[of "[]"] br by simp
  then have wf: "wf_tree p chk txn h ?c" "readable p chk txn (child_pgno (tpage ?t) ?k) (pg_txnid (tpage ?t)) (tpage ?c)"
    using Suc.prems(1) by auto
  have "?k mod 65536 = ?k" using k br by simp
  then obtain mc1 where mc1: "set_top_ki (?k mod 65536) mc = mc1" "at_path chk t ks mc1" "top_ki mc1 = ?k" "moved mc mc1"
    using set_top_ki_at[OF Suc.prems(2), of ?k] by simp
  obtain mc2 where mc2: "step_down p flags (child_pgno (tpage ?t) ?k) (pg_txnid (tpage ?t)) (\<lambda>_. 0) mc1 txn = (MDBX_SUCCESS, mc2, txn)"
    "at_path chk t (ks @ [?k]) mc2" "moved mc1 mc2" "top_ki mc2 = 0"
    using step_down_at[OF mc1(2,3) _ assms(4) wf(2), of "\<lambda>_. 0"] Suc.prems(3) by auto
  have tb2: "mc_table mc2 = tb" using moved_same[OF mc2(3)] moved_same[OF mc1(4)] Suc.prems(4) by simp
  have "choice (tpage (sub t ((ks @ [?k]) @ js))) < length (children (sub t ((ks @ [?k]) @ js)))"
    if "is_branch (tpage (sub t ((ks @ [?k]) @ js)))" "js \<in> set (paths (length js) ?c)" for js
    using Suc.prems(5)[of "?k # js"] that k in_paths_Suc[of ?k js "length js" ?t] by simp
  from Suc.IH[OF wf(1) mc2(2) _ tb2 this mc2(4)] Suc.prems(3) obtain mc3 where mc3:
    "search_loop p key flags mc2 txn = (MDBX_SUCCESS, mc3, txn)" "at_path chk t ((ks @ [?k]) @ route choice h ?c) mc3" "moved mc2 mc3" "top_ki mc3 = 0"
    by auto
  have "search_loop p key flags mc txn = (MDBX_SUCCESS, mc3, txn)"
    using mc3(1) mc2(1) mc1(1) br Suc.prems(4) top(2) by (subst search_loop.simps) (simp add: Let_def choice)
  moreover have "moved mc mc3" using mc3(3) mc2(3) mc1(4) moved_trans by blast
  moreover have "at_path chk t (ks @ route choice (Suc h) ?t) mc3" using mc3(2) by simp
  ultimately show ?case using mc3(4) by blast
qed

definition edge_ki :: "bool \<Rightarrow> page \<Rightarrow> nat" where "edge_ki first mp = (if first then 0 else last_ki mp)"

lemma edge_ki_inside: "0 < page_numkeys mp \<Longrightarrow> page_numkeys mp < 2 ^ 16 \<Longrightarrow> edge_ki first mp < page_numkeys mp"
  using last_ki_small[of mp] by (simp add: edge_ki_def)

lemma edge_ki_child: "wf_tree p chk txn (Suc h) t \<Longrightarrow> edge_ki first (tpage t) < length (children t)"
proof -
  assume "wf_tree p chk txn (Suc h) t"
  then have "page_numkeys (tpage t) = length (children t)" "0 < length (children t)" "length (children t) < 2 ^ 16" by auto
  then show ?thesis using edge_ki_inside[of "tpage t" first] by simp
qed

lemma tree_deepen_edge_at:
  assumes "wf_tree p chk txn h (sub t ks)" "at_path chk t ks mc" "length ks + h < 32" "flags AND Z_MODIFY = 0"
    and start: "top_ki mc = edge_ki (flags AND Z_FIRST \<noteq> 0) (tpage (sub t ks))"
  shows "\<exists>mc'. tree_deepen_edge p flags mc txn = (MDBX_SUCCESS, mc', txn) \<and>
    at_path chk t (ks @ route (edge_ki (flags AND Z_FIRST \<noteq> 0)) h (sub t ks)) mc' \<and> moved mc mc' \<and>
    top_ki mc' = edge_ki (flags AND Z_FIRST \<noteq> 0) (top_page mc')"
  using assms(1-3) start
proof (induction h arbitrary: ks mc)
  case 0
  note top = at_path_top[OF 0(2)]
  have "tree_deepen_edge p flags mc txn = (MDBX_SUCCESS, mc, txn)"
    using leaf_reached_at[OF 0(2,1)] top 0(1) by (subst tree_deepen_edge.simps) (auto simp: Let_def)
  then show ?case using 0 top by auto
next
  case (Suc h)
  let ?first = "flags AND Z_FIRST \<noteq> 0"
  note top = at_path_top[OF Suc.prems(2)]
  let ?t = "sub t ks" let ?k = "edge_ki ?first (tpage ?t)" let ?c = "sub t (ks @ [?k])"
  have br: "is_branch (tpage ?t)" "length (children ?t) < 65536" using Suc.prems(1) by auto
  have k: "?k < length (children ?t)" using Suc.prems(1) by (rule edge_ki_child)
  then have wf: "wf_tree p chk txn h ?c" "readable p chk txn (child_pgno (tpage ?t) ?k) (pg_txnid (tpage ?t)) (tpage ?c)"
    using Suc.prems(1) by auto
  have eq: "(\<lambda>mp. if ?first then 0 else last_ki mp) = edge_ki ?first" by (simp add: edge_ki_def fun_eq_iff)
  obtain mc2 where mc2: "step_down p flags (child_pgno (tpage ?t) ?k) (pg_txnid (tpage ?t)) (edge_ki ?first) mc txn = (MDBX_SUCCESS, mc2, txn)"
    "at_path chk t (ks @ [?k]) mc2" "moved mc mc2" "top_ki mc2 = edge_ki ?first (tpage ?c)"
    using step_down_at[OF Suc.prems(2,4) _ assms(4) wf(2), of "edge_ki ?first"] Suc.prems(3) by auto
  from Suc.IH[OF wf(1) mc2(2) _ mc2(4)] Suc.prems(3) obtain mc3 where mc3:
    "tree_deepen_edge p flags mc2 txn = (MDBX_SUCCESS, mc3, txn)"
    "at_path chk t ((ks @ [?k]) @ route (edge_ki ?first) h ?c) mc3" "moved mc2 mc3" "top_ki mc3 = edge_ki ?first (top_page mc3)"
    by auto
  have "tree_deepen_edge p flags mc txn = (MDBX_SUCCESS, mc3, txn)"
    unfolding tree_deepen_edge.simps[of p flags mc txn] Let_def top(2) eq Suc.prems(4) using mc3(1) mc2(1) br by simp
  moreover have "moved mc mc3" using mc3(3) mc2(3) moved_trans by blast
  moreover have "at_path chk t (ks @ route (edge_ki ?first) (Suc h) ?t) mc3" using mc3(2) by simp
  ultimately show ?case using mc3(4) by blast
qed

lemma route_in_paths:
  assumes "wf_tree p chk txn h t"
    and "\<And>js. is_branch (tpage (sub t js)) \<Longrightarrow> js \<in> set (paths (length js) t) \<Longrightarrow>
      choice (tpage (sub t js)) < length (children (sub t js))"
  shows "route choice h t \<in> set (paths h t)"
  using assms
proof (induction h arbitrary: t)
  case (Suc h)
  let ?k = "choice (tpage t)"
  have k: "?k < length (children t)" using Suc.prems(1) Suc.prems(2)[of "[]"] by simp
  moreover have "route choice h (children t ! ?k) \<in> set (paths h (children t ! ?k))"
  proof (rule Suc.IH)
    show "wf_tree p chk txn h (children t ! ?k)" using Suc.prems(1) k by simp
    fix js assume "is_branch (tpage (sub (children t ! ?k) js))" "js \<in> set (paths (length js) (children t ! ?k))"
    then show "choice (tpage (sub (children t ! ?k) js)) < length (children (sub (children t ! ?k) js))"
      using Suc.prems(2)[of "?k # js"] k in_paths_Suc[of ?k js "length js" t] by simp
  qed
  ultimately show ?case using in_paths_Suc by simp
qed simp

text \<open>The first and the last leaf.\<close>

lemma route_edge:
  assumes "wf_tree p chk txn h t"
  shows "route (edge_ki first) h t = end_of (\<not> first) (paths h t)"
  using assms
proof (induction h arbitrary: t)
  case 0 show ?case by (simp add: end_of_def)
next
  case (Suc h)
  let ?n = "length (children t)" let ?k = "edge_ki first (tpage t)" let ?f = "\<lambda>i. map ((#) i) (paths h (children t ! i))"
  have n: "0 < ?n" "page_numkeys (tpage t) = ?n" "?n < 2 ^ 16" using Suc.prems by auto
  have k: "?k = end_of (\<not> first) [0..<?n]" using n last_ki_small[of "tpage t"] by (auto simp: edge_ki_def end_of_def hd_upt)
  have "?k < ?n" using n edge_ki_inside[of "tpage t" first] by simp
  then have "wf_tree p chk txn h (children t ! ?k)" "paths h (children t ! ?k) \<noteq> []" using Suc.prems paths_ne by auto
  then have "route (edge_ki first) (Suc h) t = end_of (\<not> first) (?f ?k)"
    using Suc.IH by (auto simp: end_of_def last_map list.map_sel)
  also have "\<dots> = end_of (\<not> first) (concat (map ?f [0..<?n]))"
    unfolding k using n Suc.prems paths_ne by (intro concat_end [symmetric]) auto
  finally show ?case by simp
qed

subsection \<open>The search\<close>

text \<open>What is asked of a transaction and a cursor for a search.\<close>

definition searches :: "calls \<Rightarrow> nat \<Rightarrow> txn \<Rightarrow> nat \<Rightarrow> tree \<Rightarrow> cursor \<Rightarrow> bool" where
  "searches p chk txn h t mc \<longleftrightarrow>
     tx_flags txn AND MDBX_TXN_BLOCKED = 0 \<and> \<not> tb_stale (mc_table mc) \<and> mc_root mc \<noteq> P_INVALID \<and>
     length (mc_pg mc) = CURSOR_STACK_SIZE \<and> length (mc_ki mc) = CURSOR_STACK_SIZE \<and> mc_checking mc = chk \<and>
     (0 \<le> cs_top (mc_state mc) \<and> pg_pgno (mc_pg mc ! 0) = mc_root mc \<longrightarrow> mc_pg mc ! 0 = tpage t) \<and>
     readable p chk txn (mc_root mc) (tbl_root_txnid txn (mc_table mc)) (tpage t) \<and> wf_tree p chk txn h t \<and>
     h < CURSOR_STACK_SIZE"

lemma tree_search_descends:
  assumes s: "searches p chk txn h t mc" and flags: "flags AND Z_MODIFY = 0" "flags AND Z_ROOTONLY = 0"
  shows "\<exists>mc'. at_path chk t [] mc' \<and> moved mc mc' \<and> top_ki mc' = edge_ki (flags AND Z_LAST = 0) (tpage t) \<and>
    tree_search p key flags mc txn =
      (if flags AND (Z_FIRST OR Z_LAST) \<noteq> 0 then tree_deepen_edge p flags mc' txn
       else search_loop p (case key of Some k \<Rightarrow> k | None \<Rightarrow> []) flags mc' txn)"
proof -
  have root: "page_get p mc txn (mc_root mc) (tbl_root_txnid txn (mc_table mc)) = (MDBX_SUCCESS, Some (tpage t), txn)"
    using s by (auto simp: searches_def intro: readable_get)
  define mc1 where "mc1 = mc\<lparr>mc_pg := (mc_pg mc)[0 := tpage t]\<rparr>"
  have on: "root_on_stack p mc txn = (MDBX_SUCCESS, mc1, txn)"
    using s root unfolding root_on_stack_def mc1_def searches_def by (auto simp: list_update_same_conv stack_size)
  define k where "k = (if flags AND Z_LAST \<noteq> 0 then last_ki (tpage t) else 0)"
  let ?st = "(mc_state mc)\<lparr>cs_top := 0, cs_stash := 0\<rparr>"
  define mc2 where "mc2 = mc\<lparr>mc_pg := (mc_pg mc)[0 := tpage t], mc_state := ?st, mc_ki := (mc_ki mc)[0 := k]\<rparr>"
  have len: "length (mc_pg mc) = 32" "length (mc_ki mc) = 32" using s by (simp_all add: searches_def stack_size)
  have st: "set_top_and_stash 0 (mc_state mc) = ?st" using set_top_and_stash_small[of 0 0 "mc_state mc"] by simp
  have fr: "search_from_root p key flags mc1 txn = (if flags AND (Z_FIRST OR Z_LAST) \<noteq> 0 then tree_deepen_edge p flags mc2 txn
       else search_loop p (case key of Some k \<Rightarrow> k | None \<Rightarrow> []) flags mc2 txn)"
    using flags len unfolding search_from_root_def Let_def mc1_def mc2_def k_def by (simp add: st)
  have eq: "tree_search p key flags mc txn = search_from_root p key flags mc1 txn"
    using s on unfolding tree_search_def searches_def by simp
  have "at_path chk t [] mc2" using s len by (simp add: at_path_def mc2_def searches_def stack_size)
  moreover have "moved mc mc2" unfolding moved_def mc2_def
    by (intro exI[of _ ?st] exI[of _ "(mc_pg mc)[0 := tpage t]"] exI[of _ "(mc_ki mc)[0 := k]"]) simp
  moreover have "top_ki mc2 = edge_ki (flags AND Z_LAST = 0) (tpage t)"
    using len by (simp add: top_ki_def mc_top_def mc2_def edge_ki_def k_def)
  ultimately show ?thesis using eq fr by metis
qed

subsection \<open>Siblings\<close>

lemma enroot1_at:
  assumes at: "at_path chk t (ks @ [k]) mc"
  shows "at_path chk t ks (enroot1 mc)" "top_ki (enroot1 mc) = k" "moved mc (enroot1 mc)"
    "mc_state (enroot1 mc) = (mc_state mc)\<lparr>cs_top := int (length ks), cs_stash := cs_stash (mc_state mc) + 1\<rparr>"
    "mc_pg (enroot1 mc) = mc_pg mc" "mc_ki (enroot1 mc) = mc_ki mc"
proof -
  show st: "mc_state (enroot1 mc) = (mc_state mc)\<lparr>cs_top := int (length ks), cs_stash := cs_stash (mc_state mc) + 1\<rparr>"
    using at enroot_state[of 1 "mc_state mc"] by (simp add: enroot1_def at_path_def stack_size)
  show "mc_pg (enroot1 mc) = mc_pg mc" "mc_ki (enroot1 mc) = mc_ki mc" by (simp_all add: enroot1_def)
  have "mc_pg mc ! i = tpage (sub t (take i ks))" if "i \<le> length ks" for i
    using at that unfolding at_path_def by (auto dest!: spec[of _ i])
  moreover have "mc_ki mc ! i = ks ! i" if "i < length ks" for i
    using at that unfolding at_path_def by (auto simp: nth_append dest!: spec[of _ i])
  ultimately show "at_path chk t ks (enroot1 mc)" unfolding at_path_def st using at by (simp add: at_path_def enroot1_def)
  show "top_ki (enroot1 mc) = k" using at st by (auto simp: top_ki_def mc_top_def at_path_def enroot1_def nth_append)
  show "moved mc (enroot1 mc)" unfolding moved_def
    by (intro exI[of _ "mc_state (enroot1 mc)"] exI[of _ "mc_pg mc"] exI[of _ "mc_ki mc"]) (simp add: enroot1_def st[unfolded enroot1_def])
qed

lemma push_sibling_at:
  assumes at: "at_path chk t ks mc" "top_ki mc = k" "length ks < 31"
    and wf: "wf_tree p chk txn (Suc h) (sub t ks)" "k < length (children (sub t ks))"
  shows "\<exists>mc'. push_sibling p right mc txn = (MDBX_SUCCESS, mc', txn) \<and> at_path chk t (ks @ [k]) mc' \<and> moved mc mc' \<and>
    top_ki mc' = edge_ki right (top_page mc')"
proof -
  let ?mp = "tpage (sub t (ks @ [k]))"
  obtain mc' where mc': "cursor_push ?mp (edge_ki right ?mp) mc txn = (MDBX_SUCCESS, mc', txn)"
    "at_path chk t (ks @ [k]) mc'" "top_ki mc' = edge_ki right ?mp" "moved mc mc'"
    using push_at[OF at] by blast
  have "readable p chk txn (child_pgno (tpage (sub t ks)) k) (pg_txnid (tpage (sub t ks))) ?mp" using wf by simp
  then have "page_get p mc txn (child_pgno (tpage (sub t ks)) k) (pg_txnid (tpage (sub t ks))) = (MDBX_SUCCESS, Some ?mp, txn)"
    using at(1) by (intro readable_get) (simp_all add: at_path_def)
  then have "push_sibling p right mc txn = (MDBX_SUCCESS, mc', txn)"
    using mc'(1) at(2) at_path_top(2)[OF at(1)] unfolding push_sibling_def Let_def by (cases right) (simp_all add: edge_ki_def)
  moreover have "top_ki mc' = edge_ki right (top_page mc')" using mc'(3) at_path_top(2)[OF mc'(2)] by simp
  ultimately show ?thesis using mc' by blast
qed

definition with_flags :: "int \<Rightarrow> cursor \<Rightarrow> cursor" where
  "with_flags f mc = mc\<lparr>mc_state := (mc_state mc)\<lparr>cs_flags := f\<rparr>\<rparr>"

text \<open>The end of a level, on a page where the index is at the edge already.\<close>

lemma sibling_end_at_edge:
  assumes "at_path chk t ks mc" "top_ki mc = edge_ki (\<not> right) (top_page mc)"
  shows "\<exists>f. sibling_end right (MDBX_NOTFOUND, mc, txn) = (MDBX_NOTFOUND, with_flags f mc, txn)"
proof -
  have "set_top_ki (top_ki mc) mc = mc" by (simp add: set_top_ki_def top_ki_def)
  then have "right \<Longrightarrow> set_top_ki (last_ki (top_page mc)) mc = mc" "\<not> right \<Longrightarrow> set_top_ki 0 mc = mc"
    using assms(2) by (simp_all add: edge_ki_def)
  then show ?thesis
    by (cases right) (auto simp: with_flags_def Let_def intro: exI[of _ "cs_flags (mc_state mc)"])
qed

lemma undo_enroot1:
  assumes at: "at_path chk t (ks @ [k]) mc"
  shows "(with_flags f (enroot1 mc))\<lparr>mc_state := cursor_undo_enroot 1 (mc_state (with_flags f (enroot1 mc)))\<rparr> = with_flags f mc"
proof -
  have "cursor_undo_enroot 1 (mc_state (with_flags f (enroot1 mc))) = (mc_state mc)\<lparr>cs_flags := f\<rparr>"
    using at unfolding with_flags_def by (subst undo_enroot_state) (auto simp: enroot1_at(4)[OF at] at_path_def stack_size)
  then show ?thesis by (simp add: with_flags_def enroot1_def)
qed

lemma no_more_keys_at:
  assumes "at_path chk t ks mc" "wf_tree p chk txn (Suc h) (sub t ks)" "top_ki mc = k" "k < length (children (sub t ks))"
  shows "no_more_keys right mc \<longleftrightarrow> k = edge_ki (\<not> right) (tpage (sub t ks))"
    "edge_ki (\<not> right) (tpage (sub t ks)) = end_of right [0..<length (children (sub t ks))]"
proof -
  let ?mp = "tpage (sub t ks)"
  have n: "page_numkeys ?mp = length (children (sub t ks))" "0 < page_numkeys ?mp" "page_numkeys ?mp < 2 ^ 16" using assms(2) by auto
  then show "no_more_keys right mc \<longleftrightarrow> k = edge_ki (\<not> right) ?mp"
    using assms(3,4) at_path_top(2)[OF assms(1)] last_ki_small[of ?mp] by (auto simp: no_more_keys_def edge_ki_def)
  show "edge_ki (\<not> right) ?mp = end_of right [0..<length (children (sub t ks))]"
    using n last_ki_small[of ?mp] by (auto simp: edge_ki_def end_of_def)
qed

lemma end_of_below: "children (sub t ks) \<noteq> [] \<Longrightarrow> end_of right (below t ks) = ks @ [end_of right [0..<length (children (sub t ks))]]"
  by (simp add: end_of_def below_def last_map hd_map)

lemma next_to_below:
  assumes "k < n" "k \<noteq> end_of right [0..<n]" "k' = (if right then k + 1 else k - 1)"
  shows "next_to right (map (\<lambda>i. ks @ [i]) [0..<n]) (ks @ [k]) (ks @ [k'])" "k' < n"
proof -
  have n: "0 < n" using assms(1) by simp
  define a where "a = (if right then k else k')"
  have a: "a + 1 < n" "[k, k'] = (if right then [a, a + 1] else [a + 1, a])"
    using assms n by (auto simp: end_of_def a_def hd_upt split: if_splits)
  have "[0..<n] = [0..<a] @ [a, a + 1] @ [a + 2..<n]"
    using a(1) upt_add_eq_append[of 0 a "n - a"] by (simp add: upt_conv_Cons)
  then show "next_to right (map (\<lambda>i. ks @ [i]) [0..<n]) (ks @ [k]) (ks @ [k'])" unfolding next_to_def using a(2)
    by (intro exI[of _ "map (\<lambda>i. ks @ [i]) [0..<a]"] exI[of _ "map (\<lambda>i. ks @ [i]) [a + 2..<n]"]) (auto split: if_splits)
  show "k' < n" using a by (auto split: if_splits)
qed

lemma below_ne: "wf_tree p chk txn (Suc h) (sub t ks) \<Longrightarrow> below t ks \<noteq> []" by (auto simp: below_def)

lemma sibling_at:
  assumes "wf_tree p chk txn h t" "h < 32" "d \<le> h" "ks \<in> set (paths d t)" "at_path chk t ks mc"
  shows "(ks = end_of right (paths d t) \<and> (\<exists>f. sibling p right mc txn = (MDBX_NOTFOUND, with_flags f mc, txn))) \<or>
    (\<exists>ks' mc'. next_to right (paths d t) ks ks' \<and> sibling p right mc txn = (MDBX_SUCCESS, mc', txn) \<and>
       at_path chk t ks' mc' \<and> moved mc mc' \<and> top_ki mc' = edge_ki right (top_page mc'))"
  using assms(3-5)
proof (induction d arbitrary: ks mc)
  case 0
  then have "sibling p right mc txn = (MDBX_NOTFOUND, with_flags (cs_flags (mc_state mc)) mc, txn)"
    by (subst sibling.simps) (simp add: at_path_def with_flags_def)
  then show ?case using 0 by (auto simp: end_of_def)
next
  case (Suc d)
  then obtain ks0 k where ks: "ks = ks0 @ [k]" "ks0 \<in> set (paths d t)" "k < length (children (sub t ks0))"
    unfolding paths_snoc by (auto simp: below_def)
  then have len: "length ks0 = d" "d < 31" using length_paths[of ks0 d t] Suc.prems(1) assms(2) by auto
  obtain r where r: "h - d = Suc r" using Suc.prems(1) by (metis Suc_diff_Suc less_eq_Suc_le)
  have wf: "wf_tree p chk txn (Suc r) (sub t js)" if "js \<in> set (paths d t)" for js
    using wf_sub[OF assms(1) that] Suc.prems(1) r by simp
  let ?mc = "enroot1 mc" and ?n = "length (children (sub t ks0))"
  note at = Suc.prems(3)[unfolded ks(1)]
  note up = enroot1_at[OF at]
  have not_root: "\<not> cs_top (mc_state mc) < 1" using at by (simp add: at_path_def)
  note more = no_more_keys_at[OF up(1) wf[OF ks(2)] up(2) ks(3), of right]
  show ?case
  proof (cases "k = end_of right [0..<?n]")
    case False
    define k' where "k' = (if right then k + 1 else k - 1)"
    have nx: "next_to right (below t ks0) (ks0 @ [k]) (ks0 @ [k'])" "k' < ?n"
      unfolding below_def using next_to_below[OF ks(3) False k'_def] by simp_all
    have "?n < 2 ^ 16" using wf[OF ks(2)] by simp
    then have "k' mod 65536 = k'" using nx(2) by simp
    note ki = set_top_ki_at[OF up(1), of k']
    obtain mc' where mc': "push_sibling p right (set_top_ki k' ?mc) txn = (MDBX_SUCCESS, mc', txn)" "at_path chk t (ks0 @ [k']) mc'"
      "moved (set_top_ki k' ?mc) mc'" "top_ki mc' = edge_ki right (top_page mc')"
      using push_sibling_at[OF ki(1,2) _ wf[OF ks(2)] nx(2)] len by auto
    have "sibling p right mc txn = (MDBX_SUCCESS, mc', txn)"
      using mc'(1) False more not_root up(2) \<open>k' mod 65536 = k'\<close> unfolding sibling.simps[of p right mc txn] Let_def k'_def
      by (cases right) simp_all
    moreover have "next_to right (paths (Suc d) t) ks (ks0 @ [k'])"
      unfolding paths_snoc ks(1) using nx(1) ks(2) by (rule concat_next_inside[rotated])
    moreover have "moved mc mc'" using mc'(3) ki(3) up(3) moved_trans by blast
    ultimately show ?thesis using mc'(2,4) by blast
  next
    case True
    have edge: "top_ki ?mc = edge_ki (\<not> right) (top_page ?mc)" using True more up(2) at_path_top(2)[OF up(1)] by simp
    have ne: "\<And>js. js \<in> set (paths d t) \<Longrightarrow> below t js \<noteq> []" using wf below_ne by blast
    have last: "ks = end_of right (below t ks0)" using True ks wf[OF ks(2)] by (subst end_of_below) auto
    consider f where "ks0 = end_of right (paths d t)" "sibling p right ?mc txn = (MDBX_NOTFOUND, with_flags f ?mc, txn)"
      | ks1 mc1 where "next_to right (paths d t) ks0 ks1" "sibling p right ?mc txn = (MDBX_SUCCESS, mc1, txn)"
          "at_path chk t ks1 mc1" "moved ?mc mc1" "top_ki mc1 = edge_ki right (top_page mc1)"
      using Suc.IH[OF _ ks(2) up(1)] Suc.prems(1) by auto
    then show ?thesis
    proof cases
      case (1 f)
      have at1: "at_path chk t ks0 (with_flags f ?mc)" using up(1) by (simp add: at_path_def with_flags_def)
      have "top_ki (with_flags f ?mc) = edge_ki (\<not> right) (top_page (with_flags f ?mc))"
        using edge by (simp add: with_flags_def top_ki_def top_page_def mc_top_def)
      from sibling_end_at_edge[OF at1 this] obtain f' where
        "sibling_end right (MDBX_NOTFOUND, with_flags f ?mc, txn) = (MDBX_NOTFOUND, with_flags f' ?mc, txn)"
        by (auto simp: with_flags_def)
      then have "sibling p right mc txn = (MDBX_NOTFOUND, with_flags f' mc, txn)"
        using 1(2) True more not_root undo_enroot1[OF at, of f'] by (subst sibling.simps) (simp add: Let_def)
      moreover have "ks = end_of right (paths (Suc d) t)"
        unfolding paths_snoc last 1(1) using ne ks(2) by (subst concat_end) auto
      ultimately show ?thesis by blast
    next
      case (2 ks1 mc1)
      have ks1: "ks1 \<in> set (paths d t)" using next_to_set[OF 2(1)] by blast
      define k' where "k' = edge_ki right (tpage (sub t ks1))"
      have k': "k' < length (children (sub t ks1))" "top_ki mc1 = k'"
        using edge_ki_child[OF wf[OF ks1]] 2(5) at_path_top(2)[OF 2(3)] by (simp_all add: k'_def)
      obtain mc' where mc': "push_sibling p right mc1 txn = (MDBX_SUCCESS, mc', txn)" "at_path chk t (ks1 @ [k']) mc'"
        "moved mc1 mc'" "top_ki mc' = edge_ki right (top_page mc')"
        using push_sibling_at[OF 2(3) k'(2) _ wf[OF ks1] k'(1)] len length_paths[OF ks1] by auto
      have "MDBX_SUCCESS \<noteq> MDBX_NOTFOUND" by (simp add: MDBX_SUCCESS_def MDBX_NOTFOUND_def)
      then have "sibling p right mc txn = (MDBX_SUCCESS, mc', txn)"
        using mc'(1) 2(2) True more not_root by (subst sibling.simps) (simp add: Let_def)
      moreover have "ks1 @ [k'] = end_of (\<not> right) (below t ks1)"
        using no_more_keys_at(2)[OF 2(3) wf[OF ks1] k'(2,1), of "\<not> right"] wf[OF ks1] by (subst end_of_below) (auto simp: k'_def)
      then have "next_to right (paths (Suc d) t) ks (ks1 @ [k'])"
        unfolding paths_snoc last using concat_next_across[OF 2(1) ne[OF ks(2)] ne[OF ks1]] by simp
      moreover have "moved mc mc'" using mc'(3) 2(4) up(3) moved_trans by blast
      ultimately show ?thesis using mc'(2,4) by blast
    qed
  qed
qed

subsection \<open>Ordered trees\<close>

context comparator
begin

lemma less_le_trans: "valid a \<Longrightarrow> valid b \<Longrightarrow> valid c \<Longrightarrow> cmp a b < 0 \<Longrightarrow> cmp b c \<le> 0 \<Longrightarrow> cmp a c < 0"
  using trans[of a b c] eq_zero[of b c] by fastforce

lemma less_not_less_trans: "valid a \<Longrightarrow> valid b \<Longrightarrow> valid c \<Longrightarrow> 0 < cmp b a \<Longrightarrow> \<not> cmp c b < 0 \<Longrightarrow> cmp a c < 0"
proof -
  assume v: "valid a" "valid b" "valid c" and ba: "0 < cmp b a" and cb: "\<not> cmp c b < 0"
  have "cmp a b < 0" "cmp b c \<le> 0"
    using antisym[OF v(1,2)] antisym[OF v(2,3)] ba cb by (auto simp: sgn_if split: if_splits)
  then show ?thesis using less_le_trans v by blast
qed

lemma child_index_splits:
  assumes sorted: "sorted_wrt (\<lambda>a b. cmp a b < 0) ks" and valid: "list_all valid (key # ks)"
  shows "j < child_index cmp ks key \<Longrightarrow> cmp (ks ! j) key \<le> 0"
    "child_index cmp ks key \<le> j \<Longrightarrow> j < length ks \<Longrightarrow> 0 < cmp (ks ! j) key"
proof -
  let ?c = "child_index cmp ks key"
  show "cmp (ks ! j) key \<le> 0" if "j < ?c"
    using that nth_mem[of j "takeWhile (\<lambda>k. cmp k key \<le> 0) ks"] takeWhile_nth[of j "\<lambda>k. cmp k key \<le> 0" ks]
    by (auto simp: child_index_def dest: set_takeWhileD)
  assume j: "?c \<le> j" "j < length ks"
  then have c: "0 < cmp (ks ! ?c) key" using nth_length_takeWhile[of "\<lambda>k. cmp k key \<le> 0" ks] by (simp add: child_index_def)
  show "0 < cmp (ks ! j) key"
  proof (cases "?c = j")
    case False
    then have less: "cmp (ks ! ?c) (ks ! j) < 0" using j sorted_wrt_nth_less[OF sorted, of ?c j] by simp
    have v: "valid key" "valid (ks ! ?c)" "valid (ks ! j)" using valid j by (auto simp: list_all_iff)
    have "cmp key (ks ! ?c) < 0" using antisym[OF v(1,2)] c by (auto simp: sgn_if split: if_splits)
    then have "cmp key (ks ! j) < 0" using trans[OF v(1,2,3)] less by blast
    then show ?thesis using antisym[OF v(1,3)] by (auto simp: sgn_if split: if_splits)
  qed (use c in simp)
qed

end

text \<open>The keys of all leaves, from left to right.\<close>

definition leaf_keys :: "nat \<Rightarrow> tree \<Rightarrow> bytes list" where
  "leaf_keys h t = concat (map (\<lambda>ks. page_keys (tpage (sub t ks))) (paths h t))"

text \<open>
  The keys of a branch ascend, and the keys under a child are not less than the key of its node (the first has none) and
  less than the key of the next.
\<close>

fun ordered :: "clc \<Rightarrow> (bytes \<Rightarrow> bool) \<Rightarrow> bytes \<Rightarrow> nat \<Rightarrow> tree \<Rightarrow> bool" where
  "ordered k valid key 0 t \<longleftrightarrow> list_all valid (page_keys (tpage t))"
| "ordered k valid key (Suc h) t \<longleftrightarrow>
     \<not> is_dupfix_leaf (tpage t) \<and> searchable k valid (tl (page_keys (tpage t))) key \<and>
     (\<forall>i < length (children t). ordered k valid key h (children t ! i) \<and>
        (\<forall>x \<in> set (leaf_keys h (children t ! i)). valid x \<and>
           (0 < i \<longrightarrow> \<not> run_cmp (clc_cmp k) x (page_keys (tpage t) ! i) < 0) \<and>
           (i + 1 < length (children t) \<longrightarrow> run_cmp (clc_cmp k) x (page_keys (tpage t) ! (i + 1)) < 0)))"

text \<open>A path that separates the leaves: the keys to the left of it are less than a key, those to the right greater.\<close>

definition separates :: "(bytes \<Rightarrow> bytes \<Rightarrow> int) \<Rightarrow> bytes \<Rightarrow> nat \<Rightarrow> tree \<Rightarrow> nat list \<Rightarrow> bool" where
  "separates cmp key h t ks \<longleftrightarrow>
     (\<exists>us vs. paths h t = us @ ks # vs \<and> (\<forall>js \<in> set us. \<forall>x \<in> set (page_keys (tpage (sub t js))). cmp x key < 0) \<and>
       (\<forall>js \<in> set vs. \<forall>x \<in> set (page_keys (tpage (sub t js))). cmp key x < 0))"

lemma branch_choice:
  assumes cmp: "comparator (run_cmp (clc_cmp k)) valid" and wf: "wf_tree p chk txn (Suc h) t" and ord: "ordered k valid key (Suc h) t"
    and c: "c = tree_search_branch validation flags k (tpage t) key"
  shows "c < length (children t)" "0 < j \<Longrightarrow> j \<le> c \<Longrightarrow> run_cmp (clc_cmp k) (page_keys (tpage t) ! j) key \<le> 0"
    "c < j \<Longrightarrow> j < length (children t) \<Longrightarrow> 0 < run_cmp (clc_cmp k) (page_keys (tpage t) ! j) key"
    "0 < j \<Longrightarrow> j < length (children t) \<Longrightarrow> valid (page_keys (tpage t) ! j)" "valid key"
proof -
  let ?cmp = "run_cmp (clc_cmp k)" and ?ks = "page_keys (tpage t)"
  have n: "page_numkeys (tpage t) = length (children t)" "0 < length (children t)" using wf by auto
  have len: "length ?ks = length (children t)" using n by (simp add: page_keys_def)
  have s: "\<not> is_dupfix_leaf (tpage t)" "searchable k valid (tl ?ks) key" using ord by simp_all
  have ci: "c = child_index ?cmp (tl ?ks) key" unfolding c using tree_search_branch_finds[OF cmp s(2,1)] n by simp
  then have "c \<le> length (tl ?ks)" unfolding child_index_def using length_takeWhile_le by blast
  then show cn: "c < length (children t)" using len n by (simp add: less_eq_Suc_le)
  have tl: "?ks ! j = tl ?ks ! (j - 1)" if "0 < j" "j < length (children t)" for j using that len by (simp add: nth_tl)
  note srt = s(2)[unfolded searchable_def]
  show v: "valid key" "0 < j \<Longrightarrow> j < length (children t) \<Longrightarrow> valid (?ks ! j)"
    using srt tl[of j] len by (auto simp: list_all_iff intro!: nth_mem)
  note split = comparator.child_index_splits[OF cmp conjunct1[OF conjunct2[OF conjunct2[OF srt]]] conjunct1[OF srt]]
  show "?cmp (?ks ! j) key \<le> 0" if "0 < j" "j \<le> c" using split(1)[of "j - 1"] that tl[of j] ci cn by auto
  show "0 < ?cmp (?ks ! j) key" if "c < j" "j < length (children t)" using split(2)[of "j - 1"] that tl[of j] ci len by auto
qed

lemma leaf_keys_in: "js \<in> set (paths h t) \<Longrightarrow> x \<in> set (page_keys (tpage (sub t js))) \<Longrightarrow> x \<in> set (leaf_keys h t)"
  by (auto simp: leaf_keys_def)

lemma route_separates:
  assumes cmp: "comparator (run_cmp (clc_cmp k)) valid" and choice: "choice = (\<lambda>mp. tree_search_branch validation flags k mp key)"
    and "wf_tree p chk txn h t" "ordered k valid key h t"
  shows "separates (run_cmp (clc_cmp k)) key h t (route choice h t)"
  using assms(3,4)
proof (induction h arbitrary: t)
  case 0 show ?case unfolding separates_def by (intro exI[of _ "[]"]) simp
next
  case (Suc h)
  let ?cmp = "run_cmp (clc_cmp k)" and ?c = "choice (tpage t)" and ?n = "length (children t)"
  let ?f = "\<lambda>i. map ((#) i) (paths h (children t ! i))"
  have "?c = tree_search_branch validation flags k (tpage t) key" by (simp add: choice)
  note bc = branch_choice[OF cmp Suc.prems this]
  have child: "valid x \<and> (0 < i \<longrightarrow> \<not> ?cmp x (page_keys (tpage t) ! i) < 0) \<and> (i + 1 < ?n \<longrightarrow> ?cmp x (page_keys (tpage t) ! (i + 1)) < 0)"
    if "i < ?n" "x \<in> set (leaf_keys h (children t ! i))" for i x
    using Suc.prems(2) that unfolding ordered.simps by blast
  obtain us vs where IH: "paths h (children t ! ?c) = us @ route choice h (children t ! ?c) # vs"
    "\<And>js x. js \<in> set us \<Longrightarrow> x \<in> set (page_keys (tpage (sub (children t ! ?c) js))) \<Longrightarrow> ?cmp x key < 0"
    "\<And>js x. js \<in> set vs \<Longrightarrow> x \<in> set (page_keys (tpage (sub (children t ! ?c) js))) \<Longrightarrow> ?cmp key x < 0"
    using Suc.IH[of "children t ! ?c"] Suc.prems bc(1) unfolding separates_def by auto
  have "[0..<?n] = [0..<?c] @ ?c # [?c + 1..<?n]" using bc(1) upt_add_eq_append[of 0 ?c "?n - ?c"] by (simp add: upt_conv_Cons)
  then have "paths (Suc h) t = (concat (map ?f [0..<?c]) @ map ((#) ?c) us) @ route choice (Suc h) t # (map ((#) ?c) vs @ concat (map ?f [?c + 1..<?n]))"
    by (simp add: IH(1))
  moreover have "?cmp x key < 0"
    if js: "js \<in> set (concat (map ?f [0..<?c]) @ map ((#) ?c) us)" and x: "x \<in> set (page_keys (tpage (sub t js)))" for js x
  proof -
    from js consider i js' where "i < ?c" "js = i # js'" "js' \<in> set (paths h (children t ! i))"
      | js' where "js = ?c # js'" "js' \<in> set us" by auto
    then show ?thesis
    proof cases
      case (1 i js')
      then have in_leaf: "x \<in> set (leaf_keys h (children t ! i))" using x by (auto intro: leaf_keys_in)
      have i: "i < ?n" "i + 1 < ?n" using 1(1) bc(1) by simp_all
      then have "valid x" "?cmp x (page_keys (tpage t) ! (i + 1)) < 0"
        using child[OF i(1) in_leaf] i(2) by blast+
      moreover have "valid (page_keys (tpage t) ! (i + 1))" "?cmp (page_keys (tpage t) ! (i + 1)) key \<le> 0"
        using bc(2,4)[of "i + 1"] 1(1) i(2) by simp_all
      ultimately show ?thesis using comparator.less_le_trans[OF cmp] bc(5) by blast
    qed (use IH(2) x in auto)
  qed
  moreover have "?cmp key x < 0"
    if js: "js \<in> set (map ((#) ?c) vs @ concat (map ?f [?c + 1..<?n]))" and x: "x \<in> set (page_keys (tpage (sub t js)))" for js x
  proof -
    from js consider i js' where "?c < i" "i < ?n" "js = i # js'" "js' \<in> set (paths h (children t ! i))"
      | js' where "js = ?c # js'" "js' \<in> set vs" by auto
    then show ?thesis
    proof cases
      case (1 i js')
      then have in_leaf: "x \<in> set (leaf_keys h (children t ! i))" using x by (auto intro: leaf_keys_in)
      then have "valid x" "\<not> ?cmp x (page_keys (tpage t) ! i) < 0"
        using child[OF 1(2) in_leaf] 1(1) by simp_all
      moreover have "valid (page_keys (tpage t) ! i)" "0 < ?cmp (page_keys (tpage t) ! i) key"
        using bc(3,4)[of i] 1(1,2) by simp_all
      ultimately show ?thesis using comparator.less_not_less_trans[OF cmp] bc(5) by blast
    qed (use IH(3) x in auto)
  qed
  ultimately show ?case unfolding separates_def by blast
qed

end
