(* ===== verification/Tree_Search_Ops.thy ===== *)
theory Tree_Search_Ops
  imports Tree_Walk
begin

text \<open>
  The search of the tree and the step to a sibling, as the caller sees them: the search ends on the leaf that separates
  the keys at the one sought, the search for an edge on the first or the last leaf, and the siblings are the neighbours
  on a level.
\<close>

unbundle bit_operations_syntax

subsection \<open>The properties\<close>

lemma choice_inside:
  assumes "wf_tree p chk txn h t" "ordered k valid key h t" "comparator (run_cmp (clc_cmp k)) valid"
    and "js \<in> set (paths (length js) t)" "is_branch (tpage (sub t js))"
  shows "tree_search_branch validation flags k (tpage (sub t js)) key < length (children (sub t js))"
  using assms(1,2,4,5)
proof (induction js arbitrary: t h)
  case Nil
  then obtain h' where "h = Suc h'" by (cases h) auto
  then show ?case using branch_choice(1)[OF assms(3)] Nil by auto
next
  case (Cons j js)
  then have j: "j < length (children t)" "js \<in> set (paths (length js) (children t ! j))" by auto
  then obtain h' where h: "h = Suc h'" using Cons.prems(1) by (cases h) auto
  then have "wf_tree p chk txn h' (children t ! j)" "ordered k valid key h' (children t ! j)" using Cons.prems j by auto
  then show ?case using Cons.IH j(2) Cons.prems(4) by simp
qed

lemma separates_in: "separates cmp key h t ks \<Longrightarrow> ks \<in> set (paths h t)" by (auto simp: separates_def)

lemma separated_key:
  assumes "comparator cmp valid" "valid key" "separates cmp key h t ks"
  shows "key \<in> set (leaf_keys h t) \<longleftrightarrow> key \<in> set (page_keys (tpage (sub t ks)))"
proof -
  have "\<not> cmp key key < 0" using comparator.eq_zero[OF assms(1,2,2)] by simp
  then show ?thesis using assms(3) by (fastforce simp: separates_def leaf_keys_def)
qed

lemma tree_search_spec:
  assumes s: "searches p chk txn h t mc" and k: "k = tb_clc (mc_table mc)" "comparator (run_cmp (clc_cmp k)) valid"
    and ord: "ordered k valid key h t"
  shows "\<exists>mc' ks. tree_search p (Some key) 0 mc txn = (MDBX_SUCCESS, mc', txn) \<and> at_path chk t ks mc' \<and> moved mc mc' \<and>
    top_ki mc' = 0 \<and> separates (run_cmp (clc_cmp k)) key h t ks"
proof -
  have wf: "wf_tree p chk txn h t" "h < 32" using s by (simp_all add: searches_def stack_size)
  let ?choice = "\<lambda>mp. tree_search_branch True (tb_flags (mc_table mc)) k mp key"
  obtain mc1 where mc1: "at_path chk t [] mc1" "moved mc mc1" "top_ki mc1 = 0"
    "tree_search p (Some key) 0 mc txn = search_loop p key 0 mc1 txn"
    using tree_search_descends[OF s, of 0 "Some key"] by (auto simp: edge_ki_def)
  have tb: "mc_table mc1 = mc_table mc" using moved_same[OF mc1(2)] by simp
  have inside: "?choice (tpage (sub t ([] @ js))) < length (children (sub t ([] @ js)))"
    if "is_branch (tpage (sub t ([] @ js)))" "js \<in> set (paths (length js) (sub t []))" for js
    using choice_inside[OF wf(1) ord k(2)] that by simp
  obtain mc2 where mc2: "search_loop p key 0 mc1 txn = (MDBX_SUCCESS, mc2, txn)" "at_path chk t (route ?choice h t) mc2"
    "moved mc1 mc2" "top_ki mc2 = 0"
    using search_loop_at[of p chk txn h t "[]" mc1 0 "mc_table mc" ?choice key, OF _ mc1(1) _ _ tb _ inside mc1(3)] wf k(1) by auto
  have "separates (run_cmp (clc_cmp k)) key h t (route ?choice h t)"
    by (rule route_separates[OF k(2) refl wf(1) ord])
  then show ?thesis using mc2 mc1(2,4) moved_trans by metis
qed

text \<open>
  C7. On a tree that is well-formed, of fewer levels than a cursor has room for, with its keys in order, the search for
  a key ends on a leaf that separates the tree: all keys of the leaves to the left are less, those to the right greater,
  so the key is in the tree if and only if it is on this leaf. The stack of the cursor is the path to it.
\<close>

theorem tree_search_finds_leaf:
  assumes "searches p chk txn h t mc" and "k = tb_clc (mc_table mc)" and "comparator (run_cmp (clc_cmp k)) valid"
    and "ordered k valid key h t" and "valid key"
  shows "\<exists>mc' ks. tree_search p (Some key) 0 mc txn = (MDBX_SUCCESS, mc', txn) \<and> at_path chk t ks mc' \<and>
    separates (run_cmp (clc_cmp k)) key h t ks \<and> (key \<in> set (leaf_keys h t) \<longleftrightarrow> key \<in> set (page_keys (top_page mc')))"
  using tree_search_spec[OF assms(1-4)] separated_key[OF assms(3,5)] at_path_top(2) by metis

lemma tree_search_edge_spec:
  assumes s: "searches p chk txn h t mc"
  shows "\<exists>mc'. tree_search p key (if first then Z_FIRST else Z_LAST) mc txn = (MDBX_SUCCESS, mc', txn) \<and>
    at_path chk t (end_of (\<not> first) (paths h t)) mc' \<and> moved mc mc' \<and>
    top_ki mc' = edge_ki first (top_page mc')"
proof -
  let ?flags = "if first then Z_FIRST else Z_LAST"
  have z: "?flags AND Z_MODIFY = 0" "?flags AND Z_ROOTONLY = 0" "(?flags AND Z_LAST = 0) = first" "(?flags AND Z_FIRST \<noteq> 0) = first"
    "?flags AND (Z_FIRST OR Z_LAST) \<noteq> 0"
    by (simp_all add: Z_MODIFY_def Z_ROOTONLY_def Z_FIRST_def Z_LAST_def)
  have wf: "wf_tree p chk txn h t" "h < 32" using s by (simp_all add: searches_def stack_size)
  obtain mc1 where mc1: "at_path chk t [] mc1" "moved mc mc1" "top_ki mc1 = edge_ki first (tpage t)"
    "tree_search p key ?flags mc txn = tree_deepen_edge p ?flags mc1 txn"
    using tree_search_descends[OF s z(1,2), of key] z(3,5) by auto
  obtain mc2 where "tree_deepen_edge p ?flags mc1 txn = (MDBX_SUCCESS, mc2, txn)"
    "at_path chk t (route (edge_ki first) h t) mc2" "moved mc1 mc2" "top_ki mc2 = edge_ki first (top_page mc2)"
    using tree_deepen_edge_at[of p chk txn h t "[]" mc1 ?flags] mc1(1,3) wf z(1,4) by auto
  then show ?thesis using mc1(2,4) moved_trans route_edge[OF wf(1), of first] by metis
qed

lemma leaf_numkeys: "wf_tree p chk txn h t \<Longrightarrow> ks \<in> set (paths h t) \<Longrightarrow> 0 < page_numkeys (tpage (sub t ks)) \<and> page_numkeys (tpage (sub t ks)) < 2 ^ 16"
  using wf_sub[of p chk txn h t ks h] by simp

text \<open>
  The search for an edge ends on the first key of the first leaf, or on the last key of the last.
\<close>

theorem tree_search_edges:
  assumes "searches p chk txn h t mc"
  shows "\<exists>first_leaf last_leaf. tree_search p key Z_FIRST mc txn = (MDBX_SUCCESS, first_leaf, txn) \<and>
      at_path chk t (hd (paths h t)) first_leaf \<and> top_ki first_leaf = 0 \<and>
    tree_search p key Z_LAST mc txn = (MDBX_SUCCESS, last_leaf, txn) \<and>
      at_path chk t (last (paths h t)) last_leaf \<and> top_ki last_leaf = page_numkeys (top_page last_leaf) - 1"
proof -
  have wf: "wf_tree p chk txn h t" using assms by (simp add: searches_def)
  then have ne: "paths h t \<noteq> []" using paths_ne by blast
  obtain a b where "tree_search p key Z_FIRST mc txn = (MDBX_SUCCESS, a, txn)" "at_path chk t (hd (paths h t)) a" "top_ki a = 0"
    "tree_search p key Z_LAST mc txn = (MDBX_SUCCESS, b, txn)" "at_path chk t (last (paths h t)) b" "top_ki b = last_ki (top_page b)"
    using tree_search_edge_spec[OF assms, of key True] tree_search_edge_spec[OF assms, of key False] by (auto simp: end_of_def edge_ki_def)
  moreover from this have "last_ki (top_page b) = page_numkeys (top_page b) - 1"
    using leaf_numkeys[OF wf last_in_set[OF ne]] at_path_top(2) by (intro last_ki_small) auto
  ultimately show ?thesis by metis
qed

lemma next_to_nth:
  assumes "distinct xs" "j < length xs" "next_to right xs (xs ! j) b"
  shows "if right then j + 1 < length xs \<and> b = xs ! (j + 1) else 0 < j \<and> b = xs ! (j - 1)"
proof -
  define a where "a = xs ! j"
  obtain us vs where xs: "xs = us @ (if right then [a, b] else [b, a]) @ vs"
    using assms(3) unfolding next_to_def a_def[symmetric] by blast
  define i where "i = length us + of_bool (\<not> right)"
  have "i < length xs" "xs ! i = a" unfolding xs i_def by (simp_all add: nth_append)
  then have "i = j" using assms(1,2) nth_eq_iff_index_eq a_def by metis
  moreover have "if right then i + 1 < length xs \<and> xs ! (i + 1) = b else 0 < i \<and> xs ! (i - 1) = b"
    unfolding xs i_def by (simp add: nth_append)
  ultimately show ?thesis by auto
qed

lemma end_of_nth: "xs \<noteq> [] \<Longrightarrow> end_of right xs = xs ! (if right then length xs - 1 else 0)"
  by (simp add: end_of_def last_conv_nth hd_conv_nth)

lemma nth_end_of: "distinct xs \<Longrightarrow> j < length xs \<Longrightarrow> xs ! j = end_of right xs \<Longrightarrow> j = (if right then length xs - 1 else 0)"
  using end_of_nth[of xs right] by (cases xs) (auto simp: nth_eq_iff_index_eq)

lemma sibling_end_success: "sibling_end right (MDBX_SUCCESS, mc, txn) = (MDBX_SUCCESS, mc, txn)"
  by (simp add: MDBX_SUCCESS_def MDBX_NOTFOUND_def)

lemma cursor_sibling_spec:
  assumes wf: "wf_tree p chk txn h t" "h < 32" "d \<le> h" and at: "j < length (paths d t)" "at_path chk t (paths d t ! j) mc"
  shows "if (if right then j + 1 < length (paths d t) else 0 < j)
    then \<exists>mc'. sibling_end right (sibling p right mc txn) = (MDBX_SUCCESS, mc', txn) \<and> moved mc mc' \<and>
      at_path chk t (paths d t ! (if right then j + 1 else j - 1)) mc' \<and> top_ki mc' = edge_ki right (top_page mc')
    else \<exists>mc'. sibling_end right (sibling p right mc txn) = (MDBX_NOTFOUND, mc', txn) \<and> at_path chk t (paths d t ! j) mc' \<and>
      top_ki mc' = edge_ki (\<not> right) (top_page mc') \<and> mc_table mc' = mc_table mc \<and> mc_root mc' = mc_root mc \<and>
      (right \<longrightarrow> cs_flags (mc_state mc') = z_eof_soft OR z_eof_hard OR (cs_flags (mc_state mc') AND z_clear_mask))"
proof -
  let ?ps = "paths d t"
  consider (last) f where "?ps ! j = end_of right ?ps" "sibling p right mc txn = (MDBX_NOTFOUND, with_flags f mc, txn)"
    | (more) ks' mc' where "next_to right ?ps (?ps ! j) ks'" "sibling p right mc txn = (MDBX_SUCCESS, mc', txn)"
       "at_path chk t ks' mc'" "moved mc mc'" "top_ki mc' = edge_ki right (top_page mc')"
    using sibling_at[OF wf nth_mem[OF at(1)] at(2), of right] by blast
  then show ?thesis
  proof cases
    case last
    have j: "j = (if right then length ?ps - 1 else 0)" using nth_end_of[OF distinct_paths at(1) last(1)] .
    let ?mc = "with_flags f mc"
    have at': "at_path chk t (?ps ! j) ?mc" using at(2) by (simp add: at_path_def with_flags_def)
    note top = at_path_top(2)[OF at'] set_top_ki_at[OF at', of "edge_ki (\<not> right) (top_page ?mc)"]
    have idem: "(f AND m) AND m = f AND m" for f m :: int by (simp add: and.assoc)
    have "z_eof_soft AND z_clear_mask = 0" "z_eof_hard AND z_clear_mask = 0"
      by (simp_all add: z_eof_soft_def z_eof_hard_def z_values)
    then have clear: "(z_eof_soft OR z_eof_hard OR (g AND z_clear_mask)) AND z_clear_mask = g AND z_clear_mask" for g
      by (simp add: bit.conj_disj_distrib2 idem)
    obtain mc' where mc': "sibling_end right (MDBX_NOTFOUND, ?mc, txn) = (MDBX_NOTFOUND, mc', txn)"
      "mc' = (if right then with_flags (z_eof_soft OR z_eof_hard OR (f AND z_clear_mask)) (set_top_ki (edge_ki (\<not> right) (top_page ?mc)) ?mc)
        else set_top_ki (edge_ki (\<not> right) (top_page ?mc)) ?mc)"
      by (cases right) (simp_all add: edge_ki_def Let_def with_flags_def set_top_ki_def)
    have at2: "at_path chk t (?ps ! j) mc'" using top(2) unfolding mc'(2) by (auto simp: at_path_def with_flags_def)
    moreover have "top_ki mc' = edge_ki (\<not> right) (top_page mc')"
      using top(3) at_path_top(2)[OF at2] top(1) unfolding mc'(2) by (auto simp: top_ki_def mc_top_def with_flags_def)
    moreover have "mc_table mc' = mc_table mc \<and> mc_root mc' = mc_root mc" unfolding mc'(2) by (simp add: with_flags_def set_top_ki_def)
    moreover have "right \<longrightarrow> cs_flags (mc_state mc') = z_eof_soft OR z_eof_hard OR (cs_flags (mc_state mc') AND z_clear_mask)"
      unfolding mc'(2) using clear by (simp add: with_flags_def)
    moreover have "\<not> (if right then j + 1 < length ?ps else 0 < j)" using j at(1) by (cases right) auto
    ultimately show ?thesis using mc'(1) last(2) by (cases right) auto
  next
    case more
    have nx: "if right then j + 1 < length ?ps \<and> ks' = ?ps ! (j + 1) else 0 < j \<and> ks' = ?ps ! (j - 1)"
      using next_to_nth[OF distinct_paths at(1) more(1)] .
    then show ?thesis using more sibling_end_success[of right mc' txn] by (cases right) auto
  qed
qed

lemma eof_flags:
  fixes f :: int
  shows "z_eof_soft OR z_eof_hard OR (f AND z_clear_mask) \<in> {96..99}"
proof -
  have "0 \<le> f AND 3" "f AND 3 \<le> 3" by (simp, rule AND_upper2, simp)
  then consider "f AND 3 = 0" | "f AND 3 = 1" | "f AND 3 = 2" | "f AND 3 = 3" by linarith
  then show ?thesis by cases (simp_all add: z_eof_soft_def z_eof_hard_def z_values)
qed

text \<open>
  On every level, the page to the right of a page is the next one of the level, at its first index, and the page to
  the left the one before, at its last index, however far up the two have a common branch page. At the end of the level
  the cursor stays where it is, at the edge; on the right it is then behind the data.
\<close>

theorem sibling_moves:
  assumes "wf_tree p chk txn h t" "h < CURSOR_STACK_SIZE" "d \<le> h"
    and "j < length (paths d t)" "at_path chk t (paths d t ! j) mc"
  shows "\<exists>r l. (if j + 1 < length (paths d t)
       then cursor_sibling_right p mc txn = (MDBX_SUCCESS, r, txn) \<and> at_path chk t (paths d t ! (j + 1)) r \<and> top_ki r = 0
       else cursor_sibling_right p mc txn = (MDBX_NOTFOUND, r, txn) \<and> at_path chk t (paths d t ! j) r \<and>
         is_eof (mc_state r) \<and> \<not> is_filled (mc_state r)) \<and>
     (if 0 < j
       then cursor_sibling_left p mc txn = (MDBX_SUCCESS, l, txn) \<and> at_path chk t (paths d t ! (j - 1)) l \<and> top_ki l = last_ki (top_page l)
       else cursor_sibling_left p mc txn = (MDBX_NOTFOUND, l, txn) \<and> at_path chk t (paths d t ! j) l \<and> top_ki l = 0)"
proof -
  have eof: "is_eof c \<and> \<not> is_filled c" if "cs_flags c = z_eof_soft OR z_eof_hard OR (cs_flags c AND z_clear_mask)" for c
    using eof_flags[of "cs_flags c"] that by (auto simp: is_eof_def is_filled_def z_eof_soft_def z_eof_hard_def)
  note spec = cursor_sibling_spec[OF assms(1) assms(2)[unfolded stack_size] assms(3-5)]
  obtain r where "if j + 1 < length (paths d t)
       then cursor_sibling_right p mc txn = (MDBX_SUCCESS, r, txn) \<and> at_path chk t (paths d t ! (j + 1)) r \<and> top_ki r = 0
       else cursor_sibling_right p mc txn = (MDBX_NOTFOUND, r, txn) \<and> at_path chk t (paths d t ! j) r \<and>
         is_eof (mc_state r) \<and> \<not> is_filled (mc_state r)"
    using spec[of True] eof unfolding cursor_sibling_right_def edge_ki_def by (auto split: if_splits)
  moreover obtain l where "if 0 < j
       then cursor_sibling_left p mc txn = (MDBX_SUCCESS, l, txn) \<and> at_path chk t (paths d t ! (j - 1)) l \<and> top_ki l = last_ki (top_page l)
       else cursor_sibling_left p mc txn = (MDBX_NOTFOUND, l, txn) \<and> at_path chk t (paths d t ! j) l \<and> top_ki l = 0"
    using spec[of False] unfolding cursor_sibling_left_def edge_ki_def by (auto split: if_splits)
  ultimately show ?thesis by blast
qed

subsection \<open>Witnesses\<close>

text \<open>A tree of a root, page 3, and two leaves, pages 4 and 5, with the keys 3 and 5.\<close>

definition small_leaf :: "pgno \<Rightarrow> nat \<Rightarrow> page" where
  "small_leaf pgno b = \<lparr>pg_txnid = 7, pg_ksize = 0, pg_flags = P_LEAF, pg_lower = 2, pg_upper = 18, pg_pgno = pgno,
     pg_entries = [18, 0, 0, 0], pg_data = replicate 18 0 @ [1, 0, 0, 0, 0, 0, 1, 0, b, 9]\<rparr>"

definition small_root :: page where
  "small_root = \<lparr>pg_txnid = 7, pg_ksize = 0, pg_flags = P_BRANCH, pg_lower = 4, pg_upper = 8, pg_pgno = 3,
     pg_entries = [18, 8, 0, 0], pg_data = replicate 8 0 @ [5, 0, 0, 0, 0, 0, 1, 0, 5, 0] @ [4, 0, 0, 0, 0, 0, 0, 0, 0, 0]\<rparr>"

abbreviation small_tree :: tree where
  "small_tree \<equiv> Branch_page small_root [Leaf_page (small_leaf 4 3), Leaf_page (small_leaf 5 5)]"

definition small_txn :: txn where
  "small_txn = \<lparr>tx_flags = 0, tx_txnid = 8, tx_front_txnid = 9, tx_first_unallocated = 6, tx_ps = 48,
     tx_map = (\<lambda>pgno. if pgno = 3 then small_root else small_leaf pgno (2 * pgno - 5)), tx_layers = []\<rparr>"

definition small_calls :: calls where
  "small_calls = \<lparr>check_page = (\<lambda>_ _. MDBX_SUCCESS), touch_page = (\<lambda>mc txn. (MDBX_SUCCESS, mc_pg mc, mc_root mc, txn)),
     refresh_tbl = (\<lambda>mc txn. (MDBX_SUCCESS, mc_table mc, mc_root mc, txn)), read_large = (\<lambda>pgno. (MDBX_CORRUPTED, 0, [])),
     the_env = sample_env\<rparr>"

definition small_cursor :: cursor where
  "small_cursor = \<lparr>mc_state = \<lparr>cs_flags = z_fresh_mark, cs_top = -1, cs_stash = -1\<rparr>, mc_pg = replicate 32 small_root,
     mc_ki = replicate 32 0, mc_checking = P_LEAF, mc_root = 3,
     mc_table = \<lparr>tb_dbi = 2, tb_flags = 0, tb_dupfix_size = 0, tb_mod_txnid = 7, tb_clc = lexical_keys, tb_vals = lexical_keys, tb_stale = False\<rparr>,
     mc_inner_root = 0, mc_inner_state = \<lparr>cs_flags = z_inner OR z_poor_mark, cs_top = -1, cs_stash = -1\<rparr>\<rparr>"

lemma small_pages:
  "page_numkeys small_root = 2" "page_numkeys (small_leaf pgno b) = 1" "is_branch small_root" "\<not> is_branch (small_leaf pgno b)"
  "\<not> is_dupfix_leaf small_root" "\<not> is_dupfix_leaf (small_leaf pgno b)"
  by (simp_all add: small_root_def small_leaf_def page_numkeys_def is_branch_def is_dupfix_leaf_def P_BRANCH_def P_LEAF_def P_DUPFIX_def)

lemma small_keys: "page_keys (small_leaf pgno b) = [[b]]" "tl (page_keys small_root) = [[5]]" "page_keys small_root ! 1 = [5]"
proof -
  have "key_at (small_leaf pgno b) 0 = [b]" "key_at small_root 1 = [5]"
    by (simp_all add: small_root_def small_leaf_def key_at_def get_key_def node_ks_def node_key_def NODESIZE_def page_node_def peek_def)
  then show "page_keys (small_leaf pgno b) = [[b]]" "tl (page_keys small_root) = [[5]]" "page_keys small_root ! 1 = [5]"
    by (simp_all add: page_keys_def small_pages upt_rec numeral_2_eq_2)
qed

lemma small_children: "child_pgno small_root 0 = 4" "child_pgno small_root 1 = 5" "pg_txnid small_root = 7"
  by (simp_all add: child_pgno_def small_root_def node_pgno_def page_node_def peek_def numeral_eq_Suc)

lemma small_readable:
  assumes "pgno \<in> {3, 4, 5}"
  shows "readable small_calls P_LEAF small_txn pgno 7 (tx_map small_txn pgno)"
proof -
  have "page_get_unchecked small_txn pgno = (MDBX_SUCCESS, Some (tx_map small_txn pgno))"
    using assms by (auto simp: page_get_unchecked_def small_txn_def small_root_def small_leaf_def txn_ro_flat_def MDBX_WRITEMAP_def)
  moreover have "check_page_header (P_ILL_BITS OR P_LARGE) (tx_map small_txn pgno) small_txn 7 = MDBX_SUCCESS"
    using assms by (auto simp: check_page_header_def small_txn_def small_root_def small_leaf_def P_ILL_BITS_def P_BRANCH_def P_LEAF_def
        P_DUPFIX_def P_LARGE_def P_SPILLED_def PAGEHDRSZ_def is_largepage_def)
  ultimately show ?thesis
    by (simp add: readable_def page_get_def page_get_three_def page_get_inline_def z_pagecheck_def P_LEAF_def)
qed

lemma small_leaf_wf: "wf_tree small_calls P_LEAF small_txn 0 (Leaf_page (small_leaf pgno b))"
proof -
  have "page_type (small_leaf pgno b) = P_LEAF" by (simp add: page_type_def small_leaf_def P_LEAF_def)
  then show ?thesis by (simp add: small_pages)
qed

lemma small_wf: "wf_tree small_calls P_LEAF small_txn 1 small_tree"
proof -
  have "readable small_calls P_LEAF small_txn 4 7 (small_leaf 4 3)" "readable small_calls P_LEAF small_txn 5 7 (small_leaf 5 5)"
    using small_readable[of 4] small_readable[of 5] by (simp_all add: small_txn_def)
  then have "wf_tree small_calls P_LEAF small_txn 0 (children small_tree ! i) \<and>
      readable small_calls P_LEAF small_txn (child_pgno small_root i) 7 (tpage (children small_tree ! i))" if "i < 2" for i
    using that small_children small_leaf_wf by (auto simp: less_2_cases_iff simp del: wf_tree.simps)
  then show ?thesis unfolding One_nat_def wf_tree.simps(2) using small_pages small_children(3) by (simp del: wf_tree.simps)
qed

lemma small_searches: "searches small_calls P_LEAF small_txn 1 small_tree small_cursor"
  using small_wf small_readable[of 3]
  by (simp add: searches_def small_cursor_def small_txn_def MDBX_TXN_BLOCKED_def P_INVALID_def stack_size tbl_root_txnid_def
      txn_ro_flat_def)

lemma small_paths: "paths (Suc 0) small_tree = [[0], [Suc 0]]"
  by (simp add: upt_rec)

lemma small_leaf_keys: "leaf_keys 1 small_tree = [[3], [5]]"
  unfolding leaf_keys_def One_nat_def small_paths by (simp add: small_keys)

lemma lexical_keys_cmp: "comparator (run_cmp (clc_cmp lexical_keys)) is_bytes"
  using lexical.comparator_axioms by (simp add: lexical_keys_def)

lemma small_ordered: "b < 256 \<Longrightarrow> ordered lexical_keys is_bytes [b] 1 small_tree"
proof -
  assume b: "b < 256"
  have "ordered lexical_keys is_bytes [b] 0 (Leaf_page (small_leaf 4 3))" "ordered lexical_keys is_bytes [b] 0 (Leaf_page (small_leaf 5 5))"
    by (simp_all add: small_keys is_bytes_def)
  moreover have "leaf_keys 0 (Leaf_page (small_leaf 4 3)) = [[3]]" "leaf_keys 0 (Leaf_page (small_leaf 5 5)) = [[5]]"
    by (simp_all add: leaf_keys_def small_keys)
  moreover have "searchable lexical_keys is_bytes [[5]] [b]"
    using b by (simp add: searchable_def lexical_keys_def is_bytes_def cmp_lexical_small intptr_def)
  ultimately show ?thesis unfolding One_nat_def ordered.simps
    using small_keys small_pages by (auto simp: less_2_cases_iff numeral_2_eq_2 less_Suc_eq lexical_keys_def cmp_lexical_small is_bytes_def)
qed

theorem tree_search_finds_leaf_witness:
  "\<exists>mc ks. tree_search small_calls (Some [5]) 0 small_cursor small_txn = (MDBX_SUCCESS, mc, small_txn) \<and>
     at_path P_LEAF small_tree ks mc \<and> [5] \<in> set (page_keys (top_page mc))"
  using tree_search_finds_leaf[OF small_searches _ lexical_keys_cmp small_ordered[of 5]] small_leaf_keys
  by (auto simp: small_cursor_def is_bytes_def)

theorem tree_search_edges_witness:
  "\<exists>mc. tree_search small_calls None Z_LAST small_cursor small_txn = (MDBX_SUCCESS, mc, small_txn) \<and>
     at_path P_LEAF small_tree [1] mc"
  using tree_search_edges[OF small_searches, of None] by (auto simp: small_paths simp del: paths.simps)

theorem sibling_moves_witness:
  "\<exists>a b. tree_search small_calls None Z_FIRST small_cursor small_txn = (MDBX_SUCCESS, a, small_txn) \<and>
     cursor_sibling_right small_calls a small_txn = (MDBX_SUCCESS, b, small_txn) \<and> at_path P_LEAF small_tree [1] b"
proof -
  obtain a where a: "tree_search small_calls None Z_FIRST small_cursor small_txn = (MDBX_SUCCESS, a, small_txn)"
    "at_path P_LEAF small_tree (paths 1 small_tree ! 0) a"
    using tree_search_edge_spec[OF small_searches, of None True] by (auto simp: small_paths end_of_def simp del: paths.simps)
  show ?thesis using a(1) sibling_moves[OF small_wf _ _ _ a(2)] by (auto simp: small_paths stack_size simp del: paths.simps)
qed

end
