(* ===== verification/Cursor_Step.thy ===== *)
theory Cursor_Step
  imports Tree_Search
begin

text \<open>
  Reading and moving with a cursor that has no cursor nested in it: the cursor of a table without duplicates, and the
  inner cursor of a table with them (\<open>inner\<close>), which walks the values of one key. Landing on data, the first and the last
  entry, the step to the next and the previous one, seeking a key with the fast path for a key on the page the cursor
  stands on, and the operations of the public interface. A result is the code, the key and the value that are stored
  through the pointers, the cursor and the transaction; \<open>want\<close> says whether there is a pointer for the value.
\<close>

unbundle bit_operations_syntax

definition MDBX_ENODATA :: rc where "MDBX_ENODATA = 61"
definition MDBX_BAD_VALSIZE :: rc where "MDBX_BAD_VALSIZE = -30781"

subsection \<open>Operations\<close>

datatype cursor_op =
    MDBX_FIRST | MDBX_FIRST_DUP | MDBX_GET_BOTH | MDBX_GET_BOTH_RANGE | MDBX_GET_CURRENT | MDBX_GET_MULTIPLE
  | MDBX_LAST | MDBX_LAST_DUP | MDBX_NEXT | MDBX_NEXT_DUP | MDBX_NEXT_MULTIPLE | MDBX_NEXT_NODUP
  | MDBX_PREV | MDBX_PREV_DUP | MDBX_PREV_NODUP | MDBX_SET | MDBX_SET_KEY | MDBX_SET_RANGE | MDBX_PREV_MULTIPLE
  | MDBX_SET_LOWERBOUND | MDBX_SET_UPPERBOUND
  | MDBX_TO_KEY_LESSER_THAN | MDBX_TO_KEY_LESSER_OR_EQUAL | MDBX_TO_KEY_EQUAL | MDBX_TO_KEY_GREATER_OR_EQUAL
  | MDBX_TO_KEY_GREATER_THAN
  | MDBX_TO_EXACT_KEY_VALUE_LESSER_THAN | MDBX_TO_EXACT_KEY_VALUE_LESSER_OR_EQUAL | MDBX_TO_EXACT_KEY_VALUE_EQUAL
  | MDBX_TO_EXACT_KEY_VALUE_GREATER_OR_EQUAL | MDBX_TO_EXACT_KEY_VALUE_GREATER_THAN
  | MDBX_TO_PAIR_LESSER_THAN | MDBX_TO_PAIR_LESSER_OR_EQUAL | MDBX_TO_PAIR_EQUAL | MDBX_TO_PAIR_GREATER_OR_EQUAL
  | MDBX_TO_PAIR_GREATER_THAN | MDBX_SEEK_AND_GET_MULTIPLE

text \<open>The comparisons of operations by their number in the enumeration.\<close>

definition at_most_both_range :: "cursor_op \<Rightarrow> bool" where
  "at_most_both_range op \<longleftrightarrow> op \<in> {MDBX_FIRST, MDBX_FIRST_DUP, MDBX_GET_BOTH, MDBX_GET_BOTH_RANGE}"

definition below_set_key :: "cursor_op \<Rightarrow> bool" where
  "below_set_key op \<longleftrightarrow> at_most_both_range op \<or>
     op \<in> {MDBX_GET_CURRENT, MDBX_GET_MULTIPLE, MDBX_LAST, MDBX_LAST_DUP, MDBX_NEXT, MDBX_NEXT_DUP, MDBX_NEXT_MULTIPLE,
       MDBX_NEXT_NODUP, MDBX_PREV, MDBX_PREV_DUP, MDBX_PREV_NODUP, MDBX_SET}"

definition below_set_range :: "cursor_op \<Rightarrow> bool" where
  "below_set_range op \<longleftrightarrow> below_set_key op \<or> op = MDBX_SET_KEY"

subsection \<open>Landing\<close>

type_synonym got = "rc \<times> bytes option \<times> bytes option \<times> cursor \<times> txn"

fun fail :: "step \<Rightarrow> got" where "fail (err, mc, txn) = (err, None, None, mc, txn)"

definition set_flags :: "int \<Rightarrow> cursor \<Rightarrow> cursor" where
  "set_flags f mc = mc\<lparr>mc_state := (mc_state mc)\<lparr>cs_flags := f\<rparr>\<rparr>"

definition unexpected_dupsort :: "cursor \<Rightarrow> txn \<Rightarrow> step" where
  "unexpected_dupsort mc txn = (MDBX_CORRUPTED, be_poor mc, txn_error txn)"

text \<open>A large page that cannot be read marks the transaction.\<close>

definition read_value :: "calls \<Rightarrow> page \<Rightarrow> nat \<Rightarrow> txn \<Rightarrow> (rc + bytes) \<times> txn" where
  "read_value p mp node txn =
     (let d = pg_data mp
      in (node_read (the_env p) (read_large p) d node,
          if node_flags d node = N_BIG \<and> fst (read_large p (node_largedata_pgno d node)) \<noteq> MDBX_SUCCESS then txn_error txn else txn))"

definition cursor_bring :: "calls \<Rightarrow> bool \<Rightarrow> bool \<Rightarrow> bool \<Rightarrow> cursor \<Rightarrow> txn \<Rightarrow> got" where
  "cursor_bring p inner want eof mc txn =
     (let mp = top_page mc; ki = top_ki mc;
          landed = (\<lambda>mc. let mc = be_filled mc in if eof then set_flags (cs_flags (mc_state mc) OR z_eof_soft) mc else mc)
      in if \<not> check_leaf_type mc mp then fail (MDBX_CORRUPTED, mc, txn)
         else if inner \<and> is_dupfix_leaf mp then (MDBX_SUCCESS, Some (page_dupfix_key mp ki), None, landed mc, txn)
         else let node = page_node mp ki
              in if \<not> inner \<and> node_flags (pg_data mp) node AND N_DUP \<noteq> 0 then fail (unexpected_dupsort mc txn)
                 else let key = Some (get_key (pg_data mp) node)
                      in if want
                         then case read_value p mp node txn of
                             (Inl err, txn) \<Rightarrow> fail (err, mc, txn)
                           | (Inr v, txn) \<Rightarrow> (MDBX_SUCCESS, key, Some v, landed mc, txn)
                         else (MDBX_SUCCESS, key, None, landed mc, txn))"

text \<open>The first or the last entry.\<close>

definition cursor_brim :: "calls \<Rightarrow> bool \<Rightarrow> bool \<Rightarrow> bool \<Rightarrow> cursor \<Rightarrow> txn \<Rightarrow> got" where
  "cursor_brim p inner tend2first want mc txn =
     (case if cs_top (mc_state mc) \<noteq> 0 then tree_search p None (if tend2first then Z_FIRST else Z_LAST) mc txn
           else (MDBX_SUCCESS, mc, txn) of
        (err, mc, txn) \<Rightarrow>
          if err \<noteq> MDBX_SUCCESS then fail (err, mc, txn)
          else cursor_bring p inner want (\<not> tend2first) (set_top_ki (if tend2first then 0 else last_ki (top_page mc)) mc) txn)"

subsection \<open>Stepping\<close>

text \<open>The move itself, then landing.\<close>

definition cursor_turn :: "calls \<Rightarrow> bool \<Rightarrow> bool \<Rightarrow> bool \<Rightarrow> cursor \<Rightarrow> txn \<Rightarrow> got" where
  "cursor_turn p inner forward want mc txn =
     (let ki = (if forward then int (top_ki mc) + 1 else int (top_ki mc) - 1)
      in case if (if forward then ki < int (page_numkeys (top_page mc)) else 0 \<le> ki)
              then (MDBX_SUCCESS, set_top_ki (nat ki mod 2 ^ 16) mc, txn)
              else if forward then cursor_sibling_right p mc txn else cursor_sibling_left p mc txn of
           (err, mc, txn) \<Rightarrow>
             if err \<noteq> MDBX_SUCCESS then fail (err, mc, txn) else cursor_bring p inner want False mc txn)"

definition cursor_step :: "calls \<Rightarrow> bool \<Rightarrow> bool \<Rightarrow> bool \<Rightarrow> cursor_op \<Rightarrow> cursor \<Rightarrow> txn \<Rightarrow> got" where
  "cursor_step p inner forward want op mc txn =
     (let flags = cs_flags (mc_state mc);
          state = (flags AND (z_after_delete OR z_hollow OR z_eof_hard OR z_eof_soft)) mod 2 ^ 8;
          dup = (op = (if forward then MDBX_NEXT_DUP else MDBX_PREV_DUP))
      in if is_poor (mc_state mc)
         then if flags AND z_fresh \<noteq> 0 then cursor_brim p inner forward want mc txn
              else fail (if flags AND z_after_delete \<noteq> 0 then MDBX_NOTFOUND else MDBX_ENODATA,
                         set_flags (if inner then z_inner OR z_poor_mark else z_poor_mark) mc, txn)
         else if state = 0
         then if \<not> inner \<and> dup then fail (MDBX_NOTFOUND, mc, txn) else cursor_turn p inner forward want mc txn
         else if flags AND z_hollow \<noteq> 0 then fail (MDBX_ENODATA, mc, txn)
         else if \<not> inner \<and> dup then fail (MDBX_NOTFOUND, mc, txn)
         else if forward
         then if state AND z_after_delete \<noteq> 0
              then if top_ki mc < page_numkeys (top_page mc) then cursor_bring p inner want False mc txn
                   else cursor_turn p inner forward want mc txn
              else fail (MDBX_NOTFOUND, mc, txn)
         else if state AND z_eof_hard \<noteq> 0 then cursor_bring p inner want False (set_top_ki (last_ki (top_page mc)) mc) txn
         else cursor_turn p inner forward want mc txn)"

definition inner_first :: "calls \<Rightarrow> cursor \<Rightarrow> txn \<Rightarrow> got" where "inner_first p = cursor_brim p True True False"
definition inner_last :: "calls \<Rightarrow> cursor \<Rightarrow> txn \<Rightarrow> got" where "inner_last p = cursor_brim p True False False"
definition outer_first :: "calls \<Rightarrow> bool \<Rightarrow> cursor \<Rightarrow> txn \<Rightarrow> got" where "outer_first p = cursor_brim p False True"
definition outer_last :: "calls \<Rightarrow> bool \<Rightarrow> cursor \<Rightarrow> txn \<Rightarrow> got" where "outer_last p = cursor_brim p False False"
definition inner_next :: "calls \<Rightarrow> cursor \<Rightarrow> txn \<Rightarrow> got" where "inner_next p = cursor_step p True True False MDBX_NEXT"
definition inner_prev :: "calls \<Rightarrow> cursor \<Rightarrow> txn \<Rightarrow> got" where "inner_prev p = cursor_step p True False False MDBX_PREV"
definition outer_next :: "calls \<Rightarrow> bool \<Rightarrow> cursor_op \<Rightarrow> cursor \<Rightarrow> txn \<Rightarrow> got" where "outer_next p = cursor_step p False True"
definition outer_prev :: "calls \<Rightarrow> bool \<Rightarrow> cursor_op \<Rightarrow> cursor \<Rightarrow> txn \<Rightarrow> got" where "outer_prev p = cursor_step p False False"

subsection \<open>Seeking a key\<close>

text \<open>The answer of a search: the code, whether the key was found, and what was read.\<close>

type_synonym csr = "rc \<times> bool \<times> bytes option \<times> bytes option \<times> cursor \<times> txn"

definition check_key :: "table \<Rightarrow> bytes \<Rightarrow> rc" where
  "check_key tb key =
     (let k = tb_clc tb; n = length key
      in if n < clc_lmin k \<or> clc_lmax k < n \<and> clc_lmin k = clc_lmax k then MDBX_BAD_VALSIZE
         else if has_flag (tb_flags tb) MDBX_INTEGERKEY \<and> n \<noteq> 8 \<and> n \<noteq> 4 then MDBX_BAD_VALSIZE
         else MDBX_SUCCESS)"

definition target_not_found :: "bool \<Rightarrow> cursor \<Rightarrow> txn \<Rightarrow> csr" where
  "target_not_found exact mc txn =
     (MDBX_NOTFOUND, exact, None, None, set_flags (cs_flags (mc_state mc) OR z_hollow) mc, txn)"

text \<open>
  The value at the position, for the operations that compare it with one that is given: \<open>Inl\<close> is the end of the search.
\<close>

definition seek_value :: "calls \<Rightarrow> bytes \<Rightarrow> cursor_op \<Rightarrow> bool \<Rightarrow> nat \<Rightarrow> cursor \<Rightarrow> txn \<Rightarrow> csr + bytes \<times> txn" where
  "seek_value p given op exact node mc txn =
     (let tb = mc_table mc; n = length given; both = at_most_both_range op
      in if both \<and> (n < clc_lmin (tb_vals tb) \<or> clc_lmax (tb_vals tb) < n \<or> has_flag (tb_flags tb) MDBX_INTEGERDUP \<and> n \<noteq> 8 \<and> n \<noteq> 4)
         then Inl (MDBX_BAD_VALSIZE, exact, None, None, mc, txn)
         else case read_value p (top_page mc) node txn of
             (Inl err, txn) \<Rightarrow> Inl (err, exact, None, None, mc, txn)
           | (Inr actual, txn) \<Rightarrow>
               let cmp = run_cmp (clc_cmp (tb_vals tb)) given actual
               in if both \<and> cmp \<noteq> 0 \<and> op \<noteq> MDBX_GET_BOTH_RANGE then Inl (target_not_found exact mc txn)
                  else if both \<and> 0 < cmp then Inl (MDBX_NOTFOUND, exact, None, None, mc, txn)
                  else Inr (actual, txn))"

definition got_node :: "calls \<Rightarrow> bytes option \<Rightarrow> cursor_op \<Rightarrow> bool \<Rightarrow> cursor \<Rightarrow> txn \<Rightarrow> csr" where
  "got_node p data op exact mc txn =
     (let mp = top_page mc; ki = top_ki mc
      in if \<not> check_leaf_type mc mp then (MDBX_CORRUPTED, exact, None, None, mc, txn)
         else if is_dupfix_leaf mp
         then (MDBX_SUCCESS, exact, if below_set_key op then None else Some (page_dupfix_key mp ki), None, be_filled mc, txn)
         else let node = page_node mp ki; key = (if below_set_key op then None else Some (get_key (pg_data mp) node))
              in if node_flags (pg_data mp) node AND N_DUP \<noteq> 0
                 then case unexpected_dupsort mc txn of (err, mc, txn) \<Rightarrow> (err, exact, None, None, mc, txn)
                 else case data of
                     None \<Rightarrow> (MDBX_SUCCESS, exact, key, None, be_filled mc, txn)
                   | Some given \<Rightarrow>
                       case seek_value p given op exact node mc txn of
                         Inl r \<Rightarrow> r
                       | Inr (v, txn) \<Rightarrow> (MDBX_SUCCESS, exact, key, Some v, be_filled mc, txn))"

text \<open>
  On the page: by binary search, or at the first entry of the page to the right. The search is the one with the checks of
  \<^verbatim>\<open>MDBX_VALIDATION\<close>, which only adds refusals of corrupted pages.
\<close>

definition search_node :: "calls \<Rightarrow> bytes \<Rightarrow> bytes option \<Rightarrow> cursor_op \<Rightarrow> cursor \<Rightarrow> txn \<Rightarrow> csr" where
  "search_node p key data op mc txn =
     (let tb = mc_table mc;
          sr = tree_search_foliage True (tb_flags tb) (is_inner (mc_state mc)) (tb_dupfix_size tb) (tb_clc tb) (top_page mc) key;
          mc = set_top_ki (fd_ki sr) mc; exact = fd_exact sr
      in if \<not> exact \<and> below_set_range op then target_not_found exact mc txn
         else case if \<not> exact \<and> fd_node sr = Null_node then cursor_sibling_right p mc txn else (MDBX_SUCCESS, mc, txn) of
           (err, mc, txn) \<Rightarrow>
             if err \<noteq> MDBX_SUCCESS then (err, exact, None, None, mc, txn) else got_node p data op exact mc txn)"

definition continue_other_pages :: "calls \<Rightarrow> bytes \<Rightarrow> bytes option \<Rightarrow> cursor_op \<Rightarrow> cursor \<Rightarrow> txn \<Rightarrow> csr" where
  "continue_other_pages p key data op mc txn =
     (case tree_search p (Some key) 0 mc txn of (err, mc, txn) \<Rightarrow>
        if err \<noteq> MDBX_SUCCESS then (err, False, None, None, mc, txn) else search_node p key data op mc txn)"

text \<open>Whether the stack has pages to the right of the one it ends with.\<close>

definition pages_aside :: "cursor \<Rightarrow> bool" where
  "pages_aside mc \<longleftrightarrow> list_ex (\<lambda>i. mc_ki mc ! i + 1 < page_numkeys (mc_pg mc ! i)) [0..<mc_top mc]"

text \<open>The key of an entry, as it is compared on the page where the cursor stands.\<close>

definition entry_key :: "page \<Rightarrow> nat \<Rightarrow> bytes" where
  "entry_key mp i = (if is_dupfix_leaf mp then page_dupfix_key mp i else key_at mp (int i))"

definition seek_here :: "calls \<Rightarrow> bytes \<Rightarrow> bytes option \<Rightarrow> cursor_op \<Rightarrow> cursor \<Rightarrow> txn \<Rightarrow> csr" where
  "seek_here p key data op mc txn =
     (let mp = top_page mc; ki = top_ki mc; nkeys = page_numkeys mp; cmp = run_cmp (clc_cmp (tb_clc (mc_table mc)));
          c = cmp key (entry_key mp 0); c_last = cmp key (entry_key mp (nkeys - 1))
      in if c = 0 then got_node p data op True (set_top_ki 0 mc) txn
         else if 0 < c \<and> 1 < nkeys \<and> c_last \<le> 0
         then if c_last = 0 then got_node p data op True (set_top_ki ((nkeys - 1) mod 2 ^ 16) mc) txn
              else if 0 < ki \<and> ki < nkeys - 1 \<and> cmp key (entry_key mp ki) = 0 then got_node p data op True mc txn
              else search_node p key data op mc txn
         else if 0 < c
         then if pages_aside mc then continue_other_pages p key data op mc txn
              else let mc = set_top_ki (nkeys mod 2 ^ 16) mc
                   in if below_set_range op then target_not_found False mc txn
                      else (MDBX_NOTFOUND, False, None, None,
                            set_flags (z_eof_soft OR z_eof_hard OR (cs_flags (mc_state mc) AND z_clear_mask)) mc, txn)
         else if cs_top (mc_state mc) = 0
         then let mc = set_top_ki 0 mc
              in if below_set_range op then target_not_found False mc txn else got_node p data op False mc txn
         else continue_other_pages p key data op mc txn)"

definition cursor_seek :: "calls \<Rightarrow> bytes \<Rightarrow> bytes option \<Rightarrow> cursor_op \<Rightarrow> cursor \<Rightarrow> txn \<Rightarrow> csr" where
  "cursor_seek p key data op mc txn =
     (let err = check_key (mc_table mc) key
      in if err \<noteq> MDBX_SUCCESS then (err, False, None, None, mc, txn)
         else if is_pointed (mc_state mc)
         then if page_numkeys (top_page mc) = 0 then (MDBX_NOTFOUND, False, None, None, mc, txn)
              else seek_here p key data op mc txn
         else continue_other_pages p key data op mc txn)"

subsection \<open>The operations of the interface\<close>

text \<open>
  A null pointer for the key or the value is \<open>None\<close>. The cursor is that of a table without duplicates, so the operations
  on several values of a key are refused.
\<close>

fun csr_got :: "csr \<Rightarrow> got" where "csr_got (err, exact, key, val, mc, txn) = (err, key, val, mc, txn)"

definition get_current :: "calls \<Rightarrow> bytes option \<Rightarrow> cursor \<Rightarrow> txn \<Rightarrow> got" where
  "get_current p data mc txn =
     (let mp = top_page mc; filled = is_filled (mc_state mc); want = (data \<noteq> None)
      in if \<not> filled \<and> is_hollow (mc_state mc) then fail (MDBX_ENODATA, mc, txn)
         else if \<not> filled \<and> page_numkeys mp \<le> top_ki mc then fail (MDBX_NOTFOUND, mc, txn)
         else if cs_flags (mc_state mc) AND z_after_delete \<noteq> 0 then outer_next p want MDBX_NEXT_NODUP mc txn
         else let node = page_node mp (top_ki mc); key = Some (get_key (pg_data mp) node)
              in if \<not> want then (MDBX_SUCCESS, key, None, mc, txn)
                 else if node_flags (pg_data mp) node AND N_DUP \<noteq> 0
                 then case unexpected_dupsort mc txn of (err, mc, txn) \<Rightarrow> (err, key, None, mc, txn)
                 else case read_value p mp node txn of
                     (Inl err, txn) \<Rightarrow> (err, key, None, mc, txn)
                   | (Inr v, txn) \<Rightarrow> (MDBX_SUCCESS, key, Some v, mc, txn))"

text \<open>After a step forward the mark of a position behind the data is not shown to the caller.\<close>

definition drop_eof_hard :: "got \<Rightarrow> got" where
  "drop_eof_hard r =
     (case r of (rc, key, val, mc, txn) \<Rightarrow>
        (rc, key, val, (set_flags (cs_flags (mc_state mc) AND NOT z_eof_hard) mc)
           \<lparr>mc_inner_state := (mc_inner_state mc)\<lparr>cs_flags := cs_flags (mc_inner_state mc) AND NOT z_eof_hard\<rparr>\<rparr>, txn))"

definition first_or_last_dup :: "calls \<Rightarrow> bytes option \<Rightarrow> cursor \<Rightarrow> txn \<Rightarrow> got" where
  "first_or_last_dup p data mc txn =
     (if data = None then fail (MDBX_EINVAL, mc, txn)
      else if \<not> is_filled (mc_state mc) then fail (MDBX_ENODATA, mc, txn)
      else let mp = top_page mc; node = page_node mp (top_ki mc); key = Some (get_key (pg_data mp) node)
           in if node_flags (pg_data mp) node AND N_DUP = 0
              then case read_value p mp node txn of
                  (Inl err, txn) \<Rightarrow> (err, key, None, mc, txn)
                | (Inr v, txn) \<Rightarrow> (MDBX_SUCCESS, key, Some v, mc, txn)
              else case unexpected_dupsort mc txn of (err, mc, txn) \<Rightarrow> (err, key, None, mc, txn))"

definition set_bound :: "calls \<Rightarrow> bool \<Rightarrow> bytes \<Rightarrow> bytes \<Rightarrow> cursor \<Rightarrow> txn \<Rightarrow> got" where
  "set_bound p upper key data mc txn =
     (case cursor_seek p key (Some data) MDBX_SET_RANGE mc txn of (rc, exact, k, v, mc, txn) \<Rightarrow>
        let rc = (if rc = MDBX_SUCCESS \<and> \<not> exact then MDBX_RESULT_TRUE else rc)
        in if upper \<and> rc = MDBX_RESULT_TRUE then (MDBX_SUCCESS, k, v, mc, txn)
           else if upper \<and> rc = MDBX_SUCCESS then outer_next p True MDBX_NEXT mc txn
           else (rc, k, v, mc, txn))"

definition to_key :: "calls \<Rightarrow> cursor_op \<Rightarrow> bytes \<Rightarrow> bytes option \<Rightarrow> cursor \<Rightarrow> txn \<Rightarrow> got" where
  "to_key p op key data mc txn =
     (case cursor_seek p key data MDBX_SET_RANGE mc txn of (rc, exact, k, v, mc, txn) \<Rightarrow>
        let want = (data \<noteq> None)
        in if exact
           then if op = MDBX_TO_KEY_LESSER_THAN then outer_prev p want MDBX_PREV_NODUP mc txn
                else if op = MDBX_TO_KEY_GREATER_THAN then outer_next p want MDBX_NEXT_NODUP mc txn
                else (rc, k, v, mc, txn)
           else if op \<in> {MDBX_TO_KEY_LESSER_THAN, MDBX_TO_KEY_LESSER_OR_EQUAL} \<and> (rc = MDBX_NOTFOUND \<or> rc = MDBX_SUCCESS)
           then outer_prev p want MDBX_PREV_NODUP mc txn
           else if op = MDBX_TO_KEY_EQUAL \<and> rc = MDBX_SUCCESS then (MDBX_NOTFOUND, k, v, mc, txn)
           else (rc, k, v, mc, txn))"

text \<open>Whether a comparison of the value that is there with the one given is what an operation asks for.\<close>

definition value_matches :: "cursor_op \<Rightarrow> int \<Rightarrow> bool" where
  "value_matches op cmp \<longleftrightarrow>
     (if op \<in> {MDBX_TO_EXACT_KEY_VALUE_LESSER_THAN, MDBX_TO_PAIR_LESSER_THAN} then cmp < 0
      else if op \<in> {MDBX_TO_EXACT_KEY_VALUE_LESSER_OR_EQUAL, MDBX_TO_PAIR_LESSER_OR_EQUAL} then cmp \<le> 0
      else if op \<in> {MDBX_TO_EXACT_KEY_VALUE_EQUAL, MDBX_TO_PAIR_EQUAL} then cmp = 0
      else if op \<in> {MDBX_TO_EXACT_KEY_VALUE_GREATER_OR_EQUAL, MDBX_TO_PAIR_GREATER_OR_EQUAL} then 0 \<le> cmp
      else 0 < cmp)"

definition to_exact_key_value :: "calls \<Rightarrow> cursor_op \<Rightarrow> bytes \<Rightarrow> bytes \<Rightarrow> cursor \<Rightarrow> txn \<Rightarrow> got" where
  "to_exact_key_value p op key data mc txn =
     (case cursor_seek p key (Some data) MDBX_SET_KEY mc txn of (rc, exact, k, v, mc, txn) \<Rightarrow>
        if rc = MDBX_SUCCESS
        then let cmp = run_cmp (clc_cmp (tb_vals (mc_table mc))) (case v of Some d \<Rightarrow> d | None \<Rightarrow> data) data
             in (if value_matches op cmp then MDBX_SUCCESS else MDBX_NOTFOUND, k, v, mc, txn)
        else (rc, k, v, mc, txn))"

definition to_pair :: "calls \<Rightarrow> cursor_op \<Rightarrow> bytes \<Rightarrow> bytes \<Rightarrow> cursor \<Rightarrow> txn \<Rightarrow> got" where
  "to_pair p op key data mc txn =
     (case cursor_seek p key (Some data) MDBX_SET_RANGE mc txn of (rc, exact, k, v, mc, txn) \<Rightarrow>
        let lesser = op \<in> {MDBX_TO_PAIR_LESSER_THAN, MDBX_TO_PAIR_LESSER_OR_EQUAL}
        in if exact
           then let cmp = run_cmp (clc_cmp (tb_vals (mc_table mc))) (case v of Some d \<Rightarrow> d | None \<Rightarrow> data) data
                in if op = MDBX_TO_PAIR_EQUAL then (if cmp = 0 then MDBX_SUCCESS else MDBX_NOTFOUND, k, v, mc, txn)
                   else if value_matches op cmp then (rc, k, v, mc, txn)
                   else if lesser then outer_prev p True MDBX_PREV mc txn
                   else outer_next p True MDBX_NEXT mc txn
           else if lesser \<and> (rc = MDBX_NOTFOUND \<or> rc = MDBX_SUCCESS) then outer_prev p True MDBX_PREV_NODUP mc txn
           else if op = MDBX_TO_PAIR_EQUAL \<and> rc = MDBX_SUCCESS then (MDBX_NOTFOUND, k, v, mc, txn)
           else (rc, k, v, mc, txn))"

definition cursor_ops :: "calls \<Rightarrow> bytes option \<Rightarrow> bytes option \<Rightarrow> cursor_op \<Rightarrow> cursor \<Rightarrow> txn \<Rightarrow> got" where
  "cursor_ops p key data op mc txn =
     (let want = (data \<noteq> None); k = (case key of Some k \<Rightarrow> k | None \<Rightarrow> []); d = (case data of Some d \<Rightarrow> d | None \<Rightarrow> []);
          einval = fail (MDBX_EINVAL, mc, txn); incompatible = fail (MDBX_INCOMPATIBLE, mc, txn)
      in case op of
           MDBX_GET_CURRENT \<Rightarrow> get_current p data mc txn
         | MDBX_GET_BOTH \<Rightarrow> if data = None then einval else incompatible
         | MDBX_GET_BOTH_RANGE \<Rightarrow> if data = None then einval else incompatible
         | MDBX_SET \<Rightarrow> if key = None then einval else csr_got (cursor_seek p k data op mc txn)
         | MDBX_SET_KEY \<Rightarrow> if key = None then einval else csr_got (cursor_seek p k data op mc txn)
         | MDBX_SET_RANGE \<Rightarrow> if key = None then einval else csr_got (cursor_seek p k data op mc txn)
         | MDBX_SEEK_AND_GET_MULTIPLE \<Rightarrow>
             if key = None then einval
             else (case csr_got (cursor_seek p k data MDBX_SET mc txn) of (rc, k, v, mc, txn) \<Rightarrow>
               if rc \<noteq> MDBX_SUCCESS then (rc, k, v, mc, txn)
               else (if data = None then MDBX_EINVAL else MDBX_INCOMPATIBLE, k, v, mc, txn))
         | MDBX_GET_MULTIPLE \<Rightarrow> if data = None then einval else incompatible
         | MDBX_NEXT_MULTIPLE \<Rightarrow> if data = None then einval else incompatible
         | MDBX_PREV_MULTIPLE \<Rightarrow> if data = None then einval else incompatible
         | MDBX_NEXT \<Rightarrow> drop_eof_hard (outer_next p want op mc txn)
         | MDBX_NEXT_DUP \<Rightarrow> drop_eof_hard (outer_next p want op mc txn)
         | MDBX_NEXT_NODUP \<Rightarrow> drop_eof_hard (outer_next p want op mc txn)
         | MDBX_PREV \<Rightarrow> outer_prev p want op mc txn
         | MDBX_PREV_DUP \<Rightarrow> outer_prev p want op mc txn
         | MDBX_PREV_NODUP \<Rightarrow> outer_prev p want op mc txn
         | MDBX_FIRST \<Rightarrow> outer_first p want mc txn
         | MDBX_LAST \<Rightarrow> outer_last p want mc txn
         | MDBX_FIRST_DUP \<Rightarrow> first_or_last_dup p data mc txn
         | MDBX_LAST_DUP \<Rightarrow> first_or_last_dup p data mc txn
         | MDBX_SET_LOWERBOUND \<Rightarrow> if key = None \<or> data = None then einval else set_bound p False k d mc txn
         | MDBX_SET_UPPERBOUND \<Rightarrow> if key = None \<or> data = None then einval else set_bound p True k d mc txn
         | _ \<Rightarrow>
             if op \<in> {MDBX_TO_KEY_LESSER_THAN, MDBX_TO_KEY_LESSER_OR_EQUAL, MDBX_TO_KEY_EQUAL, MDBX_TO_KEY_GREATER_OR_EQUAL,
                 MDBX_TO_KEY_GREATER_THAN}
             then if key = None then einval else to_key p op k data mc txn
             else if key = None \<or> data = None then einval
             else if op \<in> {MDBX_TO_EXACT_KEY_VALUE_LESSER_THAN, MDBX_TO_EXACT_KEY_VALUE_LESSER_OR_EQUAL,
                 MDBX_TO_EXACT_KEY_VALUE_EQUAL, MDBX_TO_EXACT_KEY_VALUE_GREATER_OR_EQUAL, MDBX_TO_EXACT_KEY_VALUE_GREATER_THAN}
             then to_exact_key_value p op k d mc txn
             else to_pair p op k d mc txn)"

end
