(* ===== verification/Cursor_Walk.thy ===== *)
theory Cursor_Walk
  imports Tree_Search_Ops Cursor_Step
begin

text \<open>
  Stepping through a tree with the cursor of \<open>Cursor_Step\<close>. The entries of a tree are the paths of its leaves with the
  indexes on them; landing, a step and the jump to an edge are shown to go from entry to entry, so that a scan gives
  every key once and in order.
\<close>

unbundle bit_operations_syntax

subsection \<open>The stores to the state of the cursor\<close>

text \<open>
  What the operations of the cursor store to its state are the stores of \<open>cursor_reached\<close>: a state that is reached is
  left by a reached one.
\<close>

lemma operation_stores:
  "mc_state (set_flags (cs_flags (mc_state mc) OR m) mc) = raise_flags m (mc_state mc)"
  "mc_state (set_flags (cs_flags (mc_state mc) AND NOT m) mc) = clear_flags m (mc_state mc)"
  "mc_state (set_flags (z_eof_soft OR z_eof_hard OR (cs_flags (mc_state mc) AND z_clear_mask)) mc) = past_end_flags (mc_state mc)"
  "mc_state (set_flags (if is_inner (mc_state mc) then z_inner OR z_poor_mark else z_poor_mark) mc) = unset_flags (mc_state mc)"
  "mc_state (be_poor mc) = be_poor_state (mc_state mc)" "mc_state (be_filled mc) = mark_filled (mc_state mc)"
  "mc_state (enroot1 mc) = cursor_enroot 1 (mc_state mc)"
  "- 1 \<le> cs_top (mc_state mc) \<Longrightarrow> mc_state (fst (snd (cursor_push mp ki mc txn))) = push_or_poor (mc_state mc)"
  by (simp_all add: set_flags_def raise_flags_def clear_flags_def past_end_flags_def unset_flags_def be_poor_def be_poor_state_def
      inner_gone_unconditional_def be_filled_def enroot1_def cursor_push_def push_or_poor_def Let_def)

lemma push_reached:
  "cursor_reached (mc_state mc) \<Longrightarrow> cursor_reached (mc_state (fst (snd (cursor_push mp ki mc txn))))"
  using cursor_reached_ok[of "mc_state mc"] by (subst operation_stores(8)) (auto simp: cs_ok_def intro: cursor_reached.push)

lemma root_reached: "cursor_reached (mc_state mc) \<Longrightarrow> cursor_reached (set_top_and_stash 0 (mc_state mc))"
  using cursor_reached.levelled[of "mc_state mc" 0] by (simp add: set_level_def stack_size s16_def)

lemma bring_reached:
  assumes "cursor_reached (mc_state mc)" "is_pointed (mc_state mc)"
  shows "cursor_reached (mc_state (let mc = be_filled mc in if eof then set_flags (cs_flags (mc_state mc) OR z_eof_soft) mc else mc))"
  using assms operation_stores(1)[of "be_filled mc" z_eof_soft]
  by (cases eof) (simp_all only: Let_def if_True if_False, simp_all add: operation_stores(6) cursor_reached.filled cursor_reached.raised)

subsection \<open>Entries\<close>

text \<open>The entries of a tree: the path of the leaf and the index on it; their keys and values.\<close>

definition entries :: "nat \<Rightarrow> tree \<Rightarrow> (nat list \<times> nat) list" where
  "entries h t = concat (map (\<lambda>ks. map (Pair ks) [0..<page_numkeys (tpage (sub t ks))]) (paths h t))"

definition ekey :: "tree \<Rightarrow> nat list \<times> nat \<Rightarrow> bytes" where
  "ekey t e = entry_key (tpage (sub t (fst e))) (snd e)"

definition evalue :: "calls \<Rightarrow> tree \<Rightarrow> nat list \<times> nat \<Rightarrow> bytes" where
  "evalue p t e = (let mp = tpage (sub t (fst e))
     in case node_read (the_env p) (read_large p) (pg_data mp) (page_node mp (snd e)) of Inr v \<Rightarrow> v | Inl _ \<Rightarrow> [])"

definition edata :: "calls \<Rightarrow> bool \<Rightarrow> tree \<Rightarrow> nat list \<times> nat \<Rightarrow> bytes option" where
  "edata p want t e = (if want then Some (evalue p t e) else None)"

lemma leaf_keys_entries: "leaf_keys h t = map (ekey t) (entries h t)"
  by (simp add: leaf_keys_def entries_def map_concat comp_def page_keys_def ekey_def entry_key_def)

lemma in_entries: "e \<in> set (entries h t) \<longleftrightarrow> fst e \<in> set (paths h t) \<and> snd e < page_numkeys (tpage (sub t (fst e)))"
  by (cases e) (force simp: entries_def)

lemma distinct_entries: "distinct (entries h t)"
proof -
  have "distinct (concat (map (\<lambda>ks. map (Pair ks) [0..<page_numkeys (tpage (sub t ks))]) kss))" if "distinct kss" for kss
    using that by (induction kss) (auto simp: distinct_map inj_on_def)
  then show ?thesis unfolding entries_def using distinct_paths by blast
qed

text \<open>
  What a cursor without a nested one asks of the entries: no node has duplicates, and the values that are wanted can be
  read; an inner cursor may also be on pages of values of one size.
\<close>

definition plain :: "calls \<Rightarrow> bool \<Rightarrow> bool \<Rightarrow> txn \<Rightarrow> nat \<Rightarrow> tree \<Rightarrow> bool" where
  "plain p inner want txn h t \<longleftrightarrow> (\<forall>e \<in> set (entries h t).
     let mp = tpage (sub t (fst e)); node = page_node mp (snd e)
     in if is_dupfix_leaf mp then inner \<and> \<not> want
        else node_flags (pg_data mp) node AND N_DUP = 0 \<and> (want \<longrightarrow> (\<exists>v. read_value p mp node txn = (Inr v, txn))))"

definition at_entry :: "nat \<Rightarrow> nat \<Rightarrow> tree \<Rightarrow> nat list \<times> nat \<Rightarrow> cursor \<Rightarrow> bool" where
  "at_entry chk h t e mc \<longleftrightarrow> e \<in> set (entries h t) \<and> at_path chk t (fst e) mc \<and> top_ki mc = snd e"

text \<open>The bits of the state that a step looks at.\<close>

definition z_bits :: "cursor \<Rightarrow> int" where
  "z_bits mc = cs_flags (mc_state mc) AND (z_after_delete OR z_hollow OR z_eof_hard OR z_eof_soft)"

lemma z_mask: "z_after_delete OR z_hollow OR z_eof_hard OR z_eof_soft = -24"
  by (simp add: z_after_delete_def z_hollow_def z_eof_hard_def z_eof_soft_def)

lemma and_3_small: "s16 (f AND 3) = f AND 3" "(f AND 3) AND -24 = 0" "((f AND 3) OR 32) AND -24 = (32 :: int)"
proof -
  have "0 \<le> f AND 3" "f AND 3 \<le> 3" by (simp, rule AND_upper2, simp)
  then have "f AND 3 \<in> {0..3}" by simp
  moreover have "{0..3 :: int} = {0, 1, 2, 3}" by auto
  ultimately consider "f AND 3 = 0" | "f AND 3 = 1" | "f AND 3 = 2" | "f AND 3 = 3" by blast
  then show "s16 (f AND 3) = f AND 3" "(f AND 3) AND -24 = 0" "((f AND 3) OR 32) AND -24 = (32 :: int)"
    by (cases; simp add: s16_def)+
qed

text \<open>What landing makes of the cursor.\<close>

definition landed :: "bool \<Rightarrow> cursor \<Rightarrow> cursor" where
  "landed eof mc = (let mc = be_filled mc in if eof then set_flags (cs_flags (mc_state mc) OR z_eof_soft) mc else mc)"

lemma landed_at:
  assumes "at_entry chk h t e mc"
  shows "at_entry chk h t e (landed eof mc)" "z_bits (landed eof mc) = (if eof then z_eof_soft else 0)"
    "mc_table (landed eof mc) = mc_table mc" "mc_root (landed eof mc) = mc_root mc"
    "is_inner (mc_state (landed eof mc)) = is_inner (mc_state mc)"
proof -
  have l: "landed eof mc = mc\<lparr>mc_state := (mc_state mc)\<lparr>cs_flags := (let f = cs_flags (mc_state mc) AND 3 in if eof then f OR z_eof_soft else f)\<rparr>\<rparr>"
    by (simp add: landed_def be_filled_def mark_filled_def set_flags_def z_values and_3_small(1) Let_def)
  show "at_entry chk h t e (landed eof mc)" using assms unfolding l by (auto simp: at_entry_def at_path_def top_ki_def mc_top_def)
  show "z_bits (landed eof mc) = (if eof then z_eof_soft else 0)" unfolding l
    using and_3_small(2,3)[of "cs_flags (mc_state mc)"] unfolding z_bits_def z_mask by (simp add: z_eof_soft_def)
  show "mc_table (landed eof mc) = mc_table mc" "mc_root (landed eof mc) = mc_root mc" unfolding l by simp_all
  have "((f AND 3) OR 32) AND 1 = f AND 1" "(f AND 3) AND 1 = f AND 1" for f :: int
    by (simp_all add: and.assoc bit.conj_disj_distrib2)
  then show "is_inner (mc_state (landed eof mc)) = is_inner (mc_state mc)" unfolding l
    by (simp add: is_inner_def z_inner_def z_eof_soft_def Let_def)
qed

lemma leaf_type_ok:
  assumes "wf_tree p chk txn h t" "at_path chk t ks mc" "ks \<in> set (paths h t)"
  shows "check_leaf_type mc (top_page mc)" "top_page mc = tpage (sub t ks)"
proof -
  show "top_page mc = tpage (sub t ks)" using assms at_path_top by blast
  then show "check_leaf_type mc (top_page mc)"
    using wf_sub[OF assms(1,3)] assms(2) by (simp add: check_leaf_type_def at_path_def)
qed

lemma cursor_bring_at:
  assumes wf: "wf_tree p chk txn h t" and pl: "plain p inner want txn h t" and at: "at_entry chk h t e mc"
  shows "cursor_bring p inner want eof mc txn = (MDBX_SUCCESS, Some (ekey t e), edata p want t e, landed eof mc, txn)"
proof -
  have path: "at_path chk t (fst e) mc" "fst e \<in> set (paths h t)" "top_ki mc = snd e"
    using at in_entries by (auto simp: at_entry_def)
  note ok = leaf_type_ok[OF wf path(1,2)]
  have pe: "let mp = tpage (sub t (fst e)); node = page_node mp (snd e)
     in if is_dupfix_leaf mp then inner \<and> \<not> want
        else node_flags (pg_data mp) node AND N_DUP = 0 \<and> (want \<longrightarrow> (\<exists>v. read_value p mp node txn = (Inr v, txn)))"
    using pl at unfolding plain_def at_entry_def by blast
  show ?thesis
  proof (cases "is_dupfix_leaf (tpage (sub t (fst e)))")
    case True
    then show ?thesis using pe ok path(3)
      by (simp add: cursor_bring_def landed_def ekey_def entry_key_def edata_def Let_def)
  next
    case False
    show ?thesis
    proof (cases want)
      case True
      then obtain v where v: "read_value p (tpage (sub t (fst e))) (page_node (tpage (sub t (fst e))) (snd e)) txn = (Inr v, txn)"
        using pe False by (auto simp: Let_def)
      then have "node_read (the_env p) (read_large p) (pg_data (tpage (sub t (fst e)))) (page_node (tpage (sub t (fst e))) (snd e)) = Inr v"
        by (simp add: read_value_def Let_def)
      then show ?thesis using pe ok path(3) False True v
        by (auto simp: cursor_bring_def landed_def ekey_def entry_key_def edata_def evalue_def key_at_def Let_def)
    next
      case False
      then show ?thesis using pe ok path(3) \<open>\<not> is_dupfix_leaf (tpage (sub t (fst e)))\<close>
        by (auto simp: cursor_bring_def landed_def ekey_def entry_key_def edata_def key_at_def Let_def)
    qed
  qed
qed

subsection \<open>Stepping\<close>

lemma entries_next_inside:
  assumes "ks \<in> set (paths h t)" "next_to right [0..<page_numkeys (tpage (sub t ks))] i j"
  shows "next_to right (entries h t) (ks, i) (ks, j)"
proof -
  let ?f = "\<lambda>ks. map (Pair ks) [0..<page_numkeys (tpage (sub t ks))]"
  obtain us vs where "[0..<page_numkeys (tpage (sub t ks))] = us @ (if right then [i, j] else [j, i]) @ vs"
    using assms(2) by (auto simp: next_to_def)
  then have "next_to right (?f ks) (ks, i) (ks, j)" unfolding next_to_def
    by (intro exI[of _ "map (Pair ks) us"] exI[of _ "map (Pair ks) vs"]) simp
  then show ?thesis unfolding entries_def by (rule concat_next_inside[OF assms(1)])
qed

lemma next_to_upt:
  assumes "k < n" "if right then k + 1 < n else 0 < k"
  shows "next_to right [0..<n] k (if right then k + 1 else k - 1)"
proof -
  define a where "a = (if right then k else k - 1)"
  have a: "a + 1 < n" "(if right then [k, if right then k + 1 else k - 1] else [if right then k + 1 else k - 1, k]) = [a, a + 1]"
    using assms by (auto simp: a_def)
  have "[0..<n] = [0..<a] @ [a, a + 1] @ [a + 2..<n]"
    using a(1) upt_add_eq_append[of 0 a "n - a"] by (simp add: upt_conv_Cons)
  then show ?thesis unfolding next_to_def a(2) by blast
qed

lemma entries_next_across:
  assumes "wf_tree p chk txn h t" "next_to right (paths h t) ks ks'"
  shows "next_to right (entries h t) (ks, if right then page_numkeys (tpage (sub t ks)) - 1 else 0)
    (ks', if right then 0 else page_numkeys (tpage (sub t ks')) - 1)"
proof -
  let ?f = "\<lambda>ks. map (Pair ks) [0..<page_numkeys (tpage (sub t ks))]"
  have n: "0 < page_numkeys (tpage (sub t ks))" "0 < page_numkeys (tpage (sub t ks'))"
    using next_to_set[OF assms(2)] leaf_numkeys[OF assms(1)] by auto
  have "next_to right (concat (map ?f (paths h t))) (end_of right (?f ks)) (end_of (\<not> right) (?f ks'))"
    by (rule concat_next_across[OF assms(2)]) (use n in auto)
  moreover have "end_of right (?f ks) = (ks, if right then page_numkeys (tpage (sub t ks)) - 1 else 0)"
    "end_of (\<not> right) (?f ks') = (ks', if right then 0 else page_numkeys (tpage (sub t ks')) - 1)"
    using n by (simp_all add: end_of_def last_map hd_map)
  ultimately show ?thesis unfolding entries_def by simp
qed

lemma entries_end:
  assumes "wf_tree p chk txn h t"
  shows "end_of right (entries h t) = (end_of right (paths h t),
    if right then page_numkeys (tpage (sub t (end_of right (paths h t)))) - 1 else 0)"
proof -
  let ?f = "\<lambda>ks. map (Pair ks) [0..<page_numkeys (tpage (sub t ks))]" let ?e = "end_of right (paths h t)"
  have ne: "paths h t \<noteq> []" using paths_ne[OF assms] by simp
  then have "?e \<in> set (paths h t)" by (simp add: end_of_def)
  then have n: "0 < page_numkeys (tpage (sub t ?e))" using leaf_numkeys[OF assms] by blast
  have "end_of right (concat (map ?f (paths h t))) = end_of right (?f ?e)"
    by (rule concat_end[OF ne]) (use leaf_numkeys[OF assms] in auto)
  then show ?thesis using n by (auto simp: entries_def end_of_def last_map hd_map)
qed

lemma at_entry_numkeys:
  assumes "wf_tree p chk txn h t" "at_entry chk h t e mc"
  shows "top_page mc = tpage (sub t (fst e))" "snd e < page_numkeys (top_page mc)" "page_numkeys (top_page mc) < 2 ^ 16"
    "fst e \<in> set (paths h t)" "0 \<le> cs_top (mc_state mc)"
proof -
  have e: "fst e \<in> set (paths h t)" "snd e < page_numkeys (tpage (sub t (fst e)))" "at_path chk t (fst e) mc"
    using assms(2) in_entries by (auto simp: at_entry_def)
  show top: "top_page mc = tpage (sub t (fst e))" using at_path_top(2)[OF e(3)] .
  show "snd e < page_numkeys (top_page mc)" "page_numkeys (top_page mc) < 2 ^ 16" "fst e \<in> set (paths h t)"
    using e leaf_numkeys[OF assms(1) e(1)] by (simp_all add: top)
  show "0 \<le> cs_top (mc_state mc)" using e(3) by (simp add: at_path_def)
qed

text \<open>One move: to the neighbour, or the cursor stays at the end.\<close>

lemma cursor_turn_at:
  assumes wf: "wf_tree p chk txn h t" "h < 32" and pl: "plain p inner want txn h t" and at: "at_entry chk h t e mc"
  shows "(e = end_of forward (entries h t) \<and> (\<exists>mc'. cursor_turn p inner forward want mc txn = fail (MDBX_NOTFOUND, mc', txn) \<and>
        at_entry chk h t e mc' \<and> mc_table mc' = mc_table mc \<and> mc_root mc' = mc_root mc)) \<or>
    (\<exists>e' mc'. next_to forward (entries h t) e e' \<and> at_entry chk h t e' mc' \<and> moved mc mc' \<and>
       cursor_turn p inner forward want mc txn = (MDBX_SUCCESS, Some (ekey t e'), edata p want t e', landed False mc', txn))"
proof -
  obtain ks i where e: "e = (ks, i)" by (cases e)
  note nk = at_entry_numkeys[OF wf(1) at]
  let ?n = "page_numkeys (top_page mc)"
  have path: "at_path chk t ks mc" "ks \<in> set (paths h t)" "top_ki mc = i" using at in_entries by (auto simp: at_entry_def e)
  show ?thesis
  proof (cases "if forward then i + 1 < ?n else 0 < i")
    case True
    define i' where "i' = (if forward then i + 1 else i - 1)"
    have i': "i' < ?n" "i' mod 65536 = i'" using True nk(2,3) by (auto simp: i'_def e)
    have nx: "next_to forward (entries h t) (ks, i) (ks, i')"
      using entries_next_inside[OF path(2)] next_to_upt[of i ?n forward] True nk(1,2) by (auto simp: e i'_def)
    let ?mc = "set_top_ki i' mc"
    have at': "at_entry chk h t (ks, i') ?mc" "moved mc ?mc"
      using set_top_ki_at[OF path(1), of i'] in_entries[of "(ks, i')"] path(2) i'(1) nk(1) by (auto simp: at_entry_def e)
    have "cursor_turn p inner forward want mc txn = cursor_bring p inner want False ?mc txn"
      using True i'(2) path(3) unfolding cursor_turn_def Let_def i'_def by (cases forward) (auto simp: nat_diff_distrib nat_add_distrib)
    then have "cursor_turn p inner forward want mc txn =
        (MDBX_SUCCESS, Some (ekey t (ks, i')), edata p want t (ks, i'), landed False ?mc, txn)"
      using cursor_bring_at[OF wf(1) pl at'(1), of False] by simp
    then show ?thesis unfolding e using nx at' by (intro disjI2 exI[of _ "(ks, i')"] exI[of _ ?mc]) simp
  next
    case False
    have last: "i = (if forward then ?n - 1 else 0)" using False nk(2) by (auto simp: e split: if_splits)
    obtain j where j: "j < length (paths h t)" "paths h t ! j = ks" using path(2) by (auto simp: in_set_conv_nth)
    have step: "cursor_turn p inner forward want mc txn = (case sibling_end forward (sibling p forward mc txn) of (err, mc, txn) \<Rightarrow>
        if err \<noteq> MDBX_SUCCESS then fail (err, mc, txn) else cursor_bring p inner want False mc txn)"
      using False path(3) unfolding cursor_turn_def Let_def
      by (cases forward) (auto simp: cursor_sibling_right_def cursor_sibling_left_def)
    note spec = cursor_sibling_spec[OF wf(1,2) order_refl j(1), of mc forward, unfolded j(2), OF path(1)]
    show ?thesis
    proof (cases "if forward then j + 1 < length (paths h t) else 0 < j")
      case True
      define ks' where "ks' = paths h t ! (if forward then j + 1 else j - 1)"
      obtain mc' where mc': "sibling_end forward (sibling p forward mc txn) = (MDBX_SUCCESS, mc', txn)" "moved mc mc'"
        "at_path chk t ks' mc'" "top_ki mc' = edge_ki forward (top_page mc')"
        using spec unfolding if_P[OF True] ks'_def by blast
      have nx: "next_to forward (paths h t) ks ks'"
      proof -
        define a where "a = (if forward then j else j - 1)"
        have a: "a + 1 < length (paths h t)" "(if forward then [ks, ks'] else [ks', ks]) = [paths h t ! a, paths h t ! (a + 1)]"
          using True j by (auto simp: a_def ks'_def)
        have "paths h t = take a (paths h t) @ [paths h t ! a, paths h t ! (a + 1)] @ drop (a + 2) (paths h t)"
          using a(1) by (metis Cons_nth_drop_Suc Suc_eq_plus1 add_2_eq_Suc' append_Cons append_Nil append_take_drop_id add_lessD1)
        then show ?thesis unfolding next_to_def a(2) by blast
      qed
      then have in': "ks' \<in> set (paths h t)" using next_to_set by fast
      define e' where "e' = (ks', if forward then 0 else page_numkeys (tpage (sub t ks')) - 1)"
      have n': "0 < page_numkeys (tpage (sub t ks'))" "page_numkeys (tpage (sub t ks')) < 2 ^ 16" using leaf_numkeys[OF wf(1) in'] by blast+
      have "at_entry chk h t e' mc'"
        using mc'(3,4) at_path_top(2)[OF mc'(3)] in_entries[of e'] in' n' last_ki_small[OF n']
        by (auto simp: at_entry_def e'_def edge_ki_def)
      moreover have "next_to forward (entries h t) e e'"
        using entries_next_across[OF wf(1) nx] last nk(1) by (cases forward) (simp_all add: e e'_def)
      moreover have "cursor_turn p inner forward want mc txn = cursor_bring p inner want False mc' txn" using step mc'(1) by simp
      ultimately show ?thesis using mc'(2) cursor_bring_at[OF wf(1) pl] by metis
    next
      case False
      obtain mc' where mc': "sibling_end forward (sibling p forward mc txn) = (MDBX_NOTFOUND, mc', txn)" "at_path chk t ks mc'"
        "top_ki mc' = edge_ki (\<not> forward) (top_page mc')" "mc_table mc' = mc_table mc" "mc_root mc' = mc_root mc"
        using spec unfolding if_not_P[OF False] by blast
      have top': "top_page mc' = top_page mc" using at_path_top(2)[OF mc'(2)] at_path_top(2)[OF path(1)] by simp
      have "top_ki mc' = i" using mc'(3) last nk(2,3) last_ki_small[of "top_page mc"] by (auto simp: edge_ki_def top')
      then have "at_entry chk h t e mc'" using at mc'(2) by (simp add: at_entry_def e)
      moreover have "j = (if forward then length (paths h t) - 1 else 0)" "0 < length (paths h t)" using False j(1) by auto
      then have "ks = end_of forward (paths h t)" using j(2) end_of_nth[of "paths h t" forward] by simp
      then have "e = end_of forward (entries h t)" using entries_end[OF wf(1), of forward] last nk(1) by (simp add: e)
      moreover have "MDBX_NOTFOUND \<noteq> MDBX_SUCCESS" by (simp add: MDBX_NOTFOUND_def MDBX_SUCCESS_def)
      then have "cursor_turn p inner forward want mc txn = fail (MDBX_NOTFOUND, mc', txn)" using step mc'(1) by simp
      ultimately show ?thesis using mc'(4,5) by blast
    qed
  qed
qed

text \<open>A step from an entry, with a cursor that landed on it; after the last entry was asked for, a step backward.\<close>

lemma cursor_step_turns:
  assumes "0 \<le> cs_top (mc_state mc)" "z_bits mc = 0 \<or> \<not> forward \<and> z_bits mc = z_eof_soft"
    and "inner \<or> op \<noteq> (if forward then MDBX_NEXT_DUP else MDBX_PREV_DUP)"
  shows "cursor_step p inner forward want op mc txn = cursor_turn p inner forward want mc txn"
proof -
  have hollow: "cs_flags (mc_state mc) AND z_hollow = 0"
  proof -
    have "z_bits mc AND z_hollow = cs_flags (mc_state mc) AND z_hollow"
      unfolding z_bits_def z_mask by (simp add: z_hollow_def and.assoc)
    then show ?thesis using assms(2) by (auto simp: z_eof_soft_def z_hollow_def)
  qed
  have "z_bits mc = 0 \<or> z_bits mc = z_eof_soft \<and> \<not> forward" using assms(2) by blast
  then show ?thesis
    using assms(1,3) hollow unfolding cursor_step_def Let_def z_bits_def[symmetric]
    by (auto simp: is_poor_def z_eof_soft_def z_eof_hard_def)
qed

lemma cursor_brim_at:
  assumes s: "searches p chk txn h t mc" and pl: "plain p inner want txn h t" and top: "cs_top (mc_state mc) \<noteq> 0"
  shows "\<exists>mc'. cursor_brim p inner first want mc txn =
      (MDBX_SUCCESS, Some (ekey t (end_of (\<not> first) (entries h t))), edata p want t (end_of (\<not> first) (entries h t)), landed (\<not> first) mc', txn) \<and>
    at_entry chk h t (end_of (\<not> first) (entries h t)) mc' \<and> moved mc mc'"
proof -
  have wf: "wf_tree p chk txn h t" using s by (simp add: searches_def)
  let ?ks = "end_of (\<not> first) (paths h t)" let ?e = "end_of (\<not> first) (entries h t)"
  obtain mc1 where mc1: "tree_search p None (if first then Z_FIRST else Z_LAST) mc txn = (MDBX_SUCCESS, mc1, txn)" "at_path chk t ?ks mc1"
    "moved mc mc1" "top_ki mc1 = edge_ki first (top_page mc1)"
    using tree_search_edge_spec[OF s, of None first] by blast
  let ?mc = "set_top_ki (if first then 0 else last_ki (top_page mc1)) mc1"
  have "?ks \<in> set (paths h t)" using paths_ne[OF wf order_refl] by (simp add: end_of_def)
  then have n: "0 < page_numkeys (top_page mc1)" "page_numkeys (top_page mc1) < 2 ^ 16"
    using leaf_numkeys[OF wf] at_path_top(2)[OF mc1(2)] by auto
  have e: "?e = (?ks, if first then 0 else last_ki (top_page mc1))"
    using entries_end[OF wf, of "\<not> first"] last_ki_small[OF n] at_path_top(2)[OF mc1(2)] by (cases first) auto
  have "at_entry chk h t ?e ?mc" "moved mc1 ?mc"
    using set_top_ki_at[OF mc1(2)] in_entries[of ?e] \<open>?ks \<in> set (paths h t)\<close> n last_ki_small[OF n] at_path_top(2)[OF mc1(2)]
    by (auto simp: at_entry_def e)
  moreover have "cursor_brim p inner first want mc txn = cursor_bring p inner want (\<not> first) ?mc txn"
    using mc1(1) top by (simp add: cursor_brim_def)
  ultimately show ?thesis using cursor_bring_at[OF wf pl] mc1(3) moved_trans by metis
qed

subsection \<open>Scanning a tree\<close>

text \<open>Steps until one fails: the keys and values, and the code of the last step.\<close>

fun scan :: "(cursor \<Rightarrow> txn \<Rightarrow> got) \<Rightarrow> nat \<Rightarrow> cursor \<Rightarrow> txn \<Rightarrow> (bytes \<times> bytes option) list \<times> rc" where
  "scan step 0 mc txn = ([], MDBX_SUCCESS)"
| "scan step (Suc n) mc txn =
     (case step mc txn of
        (rc, Some key, val, mc, txn) \<Rightarrow> (case scan step n mc txn of (xs, rc) \<Rightarrow> ((key, val) # xs, rc))
      | (rc, None, val, mc, txn) \<Rightarrow> ([], rc))"

definition in_order :: "bool \<Rightarrow> 'a list \<Rightarrow> 'a list" where "in_order forward xs = (if forward then xs else rev xs)"

lemma next_in_order: "next_to forward xs a b \<Longrightarrow> next_to True (in_order forward xs) a b"
proof (cases forward)
  case False
  assume "next_to forward xs a b"
  then obtain us vs where "xs = us @ [b, a] @ vs" using False by (auto simp: next_to_def)
  then have "rev xs = rev vs @ [a, b] @ rev us" by simp
  then show ?thesis unfolding next_to_def in_order_def using False by (intro exI[of _ "rev vs"] exI[of _ "rev us"]) simp
qed (simp add: in_order_def)

lemma end_in_order: "xs \<noteq> [] \<Longrightarrow> end_of forward xs = last (in_order forward xs) \<and> end_of (\<not> forward) xs = hd (in_order forward xs)"
  by (simp add: end_of_def in_order_def last_rev hd_rev)

lemma in_order_simps: "length (in_order forward xs) = length xs" "distinct (in_order forward xs) = distinct xs"
  by (simp_all add: in_order_def)

definition step_op :: "bool \<Rightarrow> cursor_op" where "step_op forward = (if forward then MDBX_NEXT else MDBX_PREV)"

lemma scan_rest:
  assumes wf: "wf_tree p chk txn h t" "h < 32" and pl: "plain p inner want txn h t"
    and xs: "xs = in_order forward (entries h t)"
  shows "j < length xs \<Longrightarrow> at_entry chk h t (xs ! j) mc \<Longrightarrow> z_bits mc = 0 \<or> \<not> forward \<and> z_bits mc = z_eof_soft \<Longrightarrow> n = length xs - j \<Longrightarrow>
    scan (cursor_step p inner forward want (step_op forward)) n mc txn =
      (map (\<lambda>e. (ekey t e, edata p want t e)) (drop (j + 1) xs), MDBX_NOTFOUND)"
proof (induction n arbitrary: j mc)
  case (Suc n)
  let ?step = "cursor_step p inner forward want (step_op forward)" and ?f = "\<lambda>e. (ekey t e, edata p want t e)"
  have dist: "distinct xs" unfolding xs in_order_simps by (rule distinct_entries)
  have "0 \<le> cs_top (mc_state mc)" using at_entry_numkeys(5)[OF wf(1) Suc.prems(2)] .
  then have step: "?step mc txn = cursor_turn p inner forward want mc txn"
    using Suc.prems(3) by (intro cursor_step_turns) (auto simp: step_op_def)
  consider (last) mc' where "xs ! j = end_of forward (entries h t)" "cursor_turn p inner forward want mc txn = fail (MDBX_NOTFOUND, mc', txn)"
    | (more) e' mc' where "next_to forward (entries h t) (xs ! j) e'" "at_entry chk h t e' mc'"
      "cursor_turn p inner forward want mc txn = (MDBX_SUCCESS, Some (ekey t e'), edata p want t e', landed False mc', txn)"
    using cursor_turn_at[OF wf pl Suc.prems(2), of forward] by blast
  then show ?case
  proof cases
    case last
    have "entries h t \<noteq> []" using Suc.prems(1) by (cases forward) (auto simp: xs in_order_def)
    then have "xs ! j = last xs" "xs \<noteq> []" using last(1) end_in_order[of "entries h t" forward] by (auto simp: xs in_order_def)
    then have "j = length xs - 1" using dist Suc.prems(1) by (simp add: last_conv_nth nth_eq_iff_index_eq)
    then show ?thesis using step last(2) by simp
  next
    case more
    have nx: "j + 1 < length xs" "e' = xs ! (j + 1)"
      using next_to_nth[OF dist Suc.prems(1), of True e'] next_in_order[OF more(1)] by (auto simp: xs)
    note l = landed_at[OF more(2), of False]
    have "scan ?step n (landed False mc') txn = (map ?f (drop (j + 1 + 1) xs), MDBX_NOTFOUND)"
      using nx l Suc.prems(4) by (intro Suc.IH) auto
    moreover have "map ?f (drop (j + 1) xs) = ?f e' # map ?f (drop (j + 1 + 1) xs)"
      unfolding nx(2) Cons_nth_drop_Suc[OF nx(1), symmetric] by simp
    ultimately show ?thesis using step more(3) by simp
  qed
qed simp

text \<open>
  C2. With a fresh cursor, stepping forward until the end of the data gives every key of the tree once, in the order of
  the leaves and on them, each with its value, and then reports that there is no more; stepping backward gives the
  same in the opposite order.
\<close>

theorem full_scan:
  assumes "searches p chk txn h t mc" and "plain p inner want txn h t"
    and "is_poor (mc_state mc)" and "cs_flags (mc_state mc) AND z_fresh \<noteq> 0"
  shows "scan (cursor_step p inner True want MDBX_NEXT) (length (entries h t) + 1) mc txn =
      (map (\<lambda>e. (ekey t e, edata p want t e)) (entries h t), MDBX_NOTFOUND) \<and>
    scan (cursor_step p inner False want MDBX_PREV) (length (entries h t) + 1) mc txn =
      (map (\<lambda>e. (ekey t e, edata p want t e)) (rev (entries h t)), MDBX_NOTFOUND) \<and>
    map (ekey t) (entries h t) = leaf_keys h t"
proof -
  have wf: "wf_tree p chk txn h t" "h < 32" using assms(1) by (simp_all add: searches_def stack_size)
  have ne: "entries h t \<noteq> []"
  proof -
    obtain ks where "ks \<in> set (paths h t)" using paths_ne[OF wf(1) order_refl] by (meson last_in_set)
    then have "(ks, 0) \<in> set (entries h t)" using leaf_numkeys[OF wf(1)] by (simp add: in_entries)
    then show ?thesis by auto
  qed
  have scan: "scan (cursor_step p inner forward want (step_op forward)) (length (entries h t) + 1) mc txn =
      (map (\<lambda>e. (ekey t e, edata p want t e)) (in_order forward (entries h t)), MDBX_NOTFOUND)" for forward
  proof -
    let ?xs = "in_order forward (entries h t)" let ?e = "end_of (\<not> forward) (entries h t)"
    have top: "cs_top (mc_state mc) \<noteq> 0" using assms(3) by (simp add: is_poor_def)
    obtain mc' where mc': "cursor_brim p inner forward want mc txn =
        (MDBX_SUCCESS, Some (ekey t ?e), edata p want t ?e, landed (\<not> forward) mc', txn)" "at_entry chk h t ?e mc'"
      using cursor_brim_at[OF assms(1,2) top, of forward] by blast
    have first: "cursor_step p inner forward want (step_op forward) mc txn = cursor_brim p inner forward want mc txn"
      using assms(3,4) by (simp add: cursor_step_def Let_def)
    have hd: "?e = ?xs ! 0" "0 < length ?xs" using ne end_in_order[OF ne, of forward] by (simp_all add: hd_conv_nth in_order_def)
    note l = landed_at[OF mc'(2), of "\<not> forward"]
    have "scan (cursor_step p inner forward want (step_op forward)) (length ?xs) (landed (\<not> forward) mc') txn =
        (map (\<lambda>e. (ekey t e, edata p want t e)) (drop (0 + 1) ?xs), MDBX_NOTFOUND)"
      using l hd by (intro scan_rest[OF wf assms(2) refl]) auto
    moreover have "map (\<lambda>e. (ekey t e, edata p want t e)) ?xs = (ekey t ?e, edata p want t ?e) # map (\<lambda>e. (ekey t e, edata p want t e)) (drop (0 + 1) ?xs)"
      using hd by (cases ?xs) simp_all
    ultimately show ?thesis using first mc'(1) by (simp add: in_order_simps)
  qed
  show ?thesis using scan[of True] scan[of False] leaf_keys_entries[of h t] by (simp add: step_op_def in_order_def)
qed

lemma small_entries: "entries 1 small_tree = [([0], 0), ([1], 0)]"
  unfolding entries_def One_nat_def small_paths by (simp add: small_pages)

lemma small_nodes:
  "node_flags (pg_data (small_leaf pgno b)) (page_node (small_leaf pgno b) 0) = 0"
  "read_value small_calls (small_leaf pgno b) (page_node (small_leaf pgno b) 0) small_txn = (Inr [9], small_txn)"
  by (simp_all add: read_value_def node_read_def small_leaf_def page_node_def node_flags_def peek_def N_BIG_def node_ds_def
      node_data_def node_key_def node_ks_def NODESIZE_def numeral_eq_Suc)

lemma small_values: "e \<in> set (entries 1 small_tree) \<Longrightarrow> edata small_calls want small_tree e = (if want then Some [9] else None)"
  using small_nodes unfolding small_entries by (auto simp: edata_def evalue_def read_value_def Let_def)

lemma small_plain: "plain small_calls False want small_txn 1 small_tree"
  unfolding plain_def small_entries using small_nodes by (auto simp: small_pages)

theorem full_scan_witness:
  "scan (outer_next small_calls True MDBX_NEXT) 3 small_cursor small_txn = ([([3], Some [9]), ([5], Some [9])], MDBX_NOTFOUND)"
proof -
  have poor: "is_poor (mc_state small_cursor)" "cs_flags (mc_state small_cursor) AND z_fresh \<noteq> 0"
    by (simp_all add: small_cursor_def is_poor_def z_values z_fresh_def)
  have "scan (cursor_step small_calls False True True MDBX_NEXT) (length (entries 1 small_tree) + 1) small_cursor small_txn =
      (map (\<lambda>e. (ekey small_tree e, edata small_calls True small_tree e)) (entries 1 small_tree), MDBX_NOTFOUND)"
    using full_scan[OF small_searches small_plain poor] by blast
  then show ?thesis using leaf_keys_entries[of 1 small_tree] small_leaf_keys small_values[of _ True] unfolding small_entries outer_next_def
    by (simp add: numeral_3_eq_3)
qed

end
