(* ===== verification/Cursor_Seek.thy ===== *)
theory Cursor_Seek
  imports Cursor_Walk
begin

text \<open>
  Seeking a key: where the key is among the entries of the tree, and that \<open>cursor_seek\<close> finds this place whichever way
  it takes: through the tree, on the page where the cursor stands, or at the ends of that page.
\<close>

unbundle bit_operations_syntax

subsection \<open>The position of a key among the entries\<close>

lemma lower_bound_all: "(\<And>x. x \<in> set xs \<Longrightarrow> cmp x key < 0) \<Longrightarrow> lower_bound cmp (xs @ ys) key = length xs + lower_bound cmp ys key"
  by (simp add: lower_bound_def takeWhile_append2)

lemma lower_bound_inside: "lower_bound cmp xs key < length xs \<Longrightarrow> lower_bound cmp (xs @ ys) key = lower_bound cmp xs key"
proof -
  assume l: "lower_bound cmp xs key < length xs"
  then have "takeWhile (\<lambda>k. cmp k key < 0) xs \<noteq> xs" unfolding lower_bound_def by (metis less_irrefl)
  then obtain x where "x \<in> set xs" "\<not> cmp x key < 0" unfolding takeWhile_eq_all_conv by blast
  then have "takeWhile (\<lambda>k. cmp k key < 0) (xs @ ys) = takeWhile (\<lambda>k. cmp k key < 0) xs" by (rule takeWhile_append1)
  then show ?thesis by (simp add: lower_bound_def)
qed

lemma lower_bound_le: "lower_bound cmp xs key \<le> length xs"
  unfolding lower_bound_def by (rule length_takeWhile_le)

lemma lower_bound_none: "(\<And>x. x \<in> set xs \<Longrightarrow> \<not> cmp x key < 0) \<Longrightarrow> lower_bound cmp xs key = 0"
  by (cases xs) (auto simp: lower_bound_def)

lemma lower_bound_full: "lower_bound cmp xs key = length xs \<Longrightarrow> x \<in> set xs \<Longrightarrow> cmp x key < 0"
proof -
  assume "lower_bound cmp xs key = length xs" "x \<in> set xs"
  then have "takeWhile (\<lambda>k. cmp k key < 0) xs = xs" using takeWhile_eq_take[of "\<lambda>k. cmp k key < 0" xs] by (simp add: lower_bound_def)
  then show ?thesis using \<open>x \<in> set xs\<close> by (metis set_takeWhileD)
qed

text \<open>The entry that a separating leaf leads to: on it, or the first of the next leaf.\<close>

lemma separated_position:
  assumes cmp: "comparator cmp valid" "valid key" and sep: "separates cmp key h t ks" "list_all valid (leaf_keys h t)"
    and wf: "wf_tree p chk txn h t" and L: "L = page_keys (tpage (sub t ks))"
  defines "pos \<equiv> lower_bound cmp (leaf_keys h t) key"
  shows "lower_bound cmp L key < length L \<Longrightarrow> pos < length (entries h t) \<and> entries h t ! pos = (ks, lower_bound cmp L key)"
    "lower_bound cmp L key = length L \<Longrightarrow> next_to True (paths h t) ks ks' \<Longrightarrow> pos < length (entries h t) \<and> entries h t ! pos = (ks', 0)"
    "lower_bound cmp L key = length L \<Longrightarrow> ks = end_of True (paths h t) \<Longrightarrow> pos = length (entries h t)"
proof -
  obtain us vs where ps: "paths h t = us @ ks # vs" and us: "\<forall>js \<in> set us. \<forall>x \<in> set (page_keys (tpage (sub t js))). cmp x key < 0"
    and vs: "\<forall>js \<in> set vs. \<forall>x \<in> set (page_keys (tpage (sub t js))). cmp key x < 0"
    using sep(1) by (auto simp: separates_def)
  let ?e = "\<lambda>js. map (Pair js) [0..<page_numkeys (tpage (sub t js))]" let ?k = "\<lambda>js. page_keys (tpage (sub t js))"
  let ?A = "concat (map ?e us)" let ?B = "concat (map ?e vs)" let ?n = "length L"
  have n: "page_numkeys (tpage (sub t ks)) = ?n" by (simp add: L page_keys_def)
  have len: "length (concat (map ?k js)) = length (concat (map ?e js))" for js by (induction js) (simp_all add: page_keys_def)
  have ent: "entries h t = ?A @ ?e ks @ ?B" by (simp add: entries_def ps)
  have keys: "leaf_keys h t = concat (map ?k us) @ L @ concat (map ?k vs)" by (simp add: leaf_keys_def ps L)
  have "pos = length ?A + lower_bound cmp (L @ concat (map ?k vs)) key"
    unfolding pos_def keys len[symmetric] by (rule lower_bound_all) (use us in auto)
  moreover have right: "\<not> cmp x key < 0" if "x \<in> set (concat (map ?k vs))" for x
  proof -
    have "cmp key x < 0" "valid x" using that vs sep(2) unfolding keys by (auto simp: list_all_iff)
    then show ?thesis using comparator.not_both[OF cmp(1,2)] by blast
  qed
  ultimately have pos: "lower_bound cmp L key < ?n \<Longrightarrow> pos = length ?A + lower_bound cmp L key"
    "lower_bound cmp L key = ?n \<Longrightarrow> pos = length ?A + ?n"
    using lower_bound_inside[of cmp L key "concat (map ?k vs)"] lower_bound_all[of L cmp key "concat (map ?k vs)"]
      lower_bound_none[of "concat (map ?k vs)" cmp key] right lower_bound_full[of cmp L key] by auto
  show "pos < length (entries h t) \<and> entries h t ! pos = (ks, lower_bound cmp L key)" if "lower_bound cmp L key < ?n"
    using pos(1)[OF that] that n unfolding ent by (simp add: nth_append)
  show "pos < length (entries h t) \<and> entries h t ! pos = (ks', 0)" if full: "lower_bound cmp L key = ?n" and nx: "next_to True (paths h t) ks ks'"
  proof -
    have i: "paths h t ! length us = ks" "length us < length (paths h t)" by (simp_all add: ps)
    have "length us + 1 < length (paths h t) \<and> ks' = paths h t ! (length us + 1)"
      using next_to_nth[OF distinct_paths i(2), of True ks'] nx i(1) by simp
    then obtain ws where ws: "vs = ks' # ws" by (cases vs) (auto simp: ps nth_append)
    then have "0 < page_numkeys (tpage (sub t ks'))" using leaf_numkeys[OF wf, of ks'] by (simp add: ps)
    then show ?thesis using pos(2)[OF full] n unfolding ent ws by (simp add: nth_append)
  qed
  show "pos = length (entries h t)" if full: "lower_bound cmp L key = ?n" and last: "ks = end_of True (paths h t)"
  proof -
    have "vs = []"
    proof (rule ccontr)
      assume "vs \<noteq> []"
      then have "ks \<in> set vs" using last by (simp add: end_of_def ps)
      then show False using distinct_paths[of h t] by (simp add: ps)
    qed
    then show ?thesis using pos(2)[OF full] n unfolding ent by simp
  qed
qed

text \<open>Between two keys of a leaf, or on them.\<close>

lemma sorted_separates:
  assumes cmp: "comparator cmp valid" "valid key" "list_all valid (leaf_keys h t)" "sorted_wrt (\<lambda>a b. cmp a b < 0) (leaf_keys h t)"
    and ks: "ks \<in> set (paths h t)" and L: "L = page_keys (tpage (sub t ks))"
    and x: "x \<in> set L" "cmp x key \<le> 0" and y: "y \<in> set L" "\<not> cmp y key < 0"
  shows "separates cmp key h t ks"
proof -
  obtain us vs where ps: "paths h t = us @ ks # vs" using ks by (auto simp: in_set_conv_decomp)
  let ?k = "\<lambda>js. page_keys (tpage (sub t js))"
  have keys: "leaf_keys h t = concat (map ?k us) @ L @ concat (map ?k vs)" by (simp add: leaf_keys_def ps L)
  have v: "valid z" if "z \<in> set (leaf_keys h t)" for z using that cmp(3) by (simp add: list_all_iff)
  have "cmp z key < 0" if "js \<in> set us" "z \<in> set (?k js)" for js z
  proof -
    have "cmp z x < 0" "valid z" "valid x" using cmp(4) that x(1) v unfolding keys by (auto simp: sorted_wrt_append)
    then show ?thesis using comparator.less_le_trans[OF cmp(1)] cmp(2) x(2) by blast
  qed
  moreover have "cmp key z < 0" if "js \<in> set vs" "z \<in> set (?k js)" for js z
  proof -
    have yz: "cmp y z < 0" "valid y" "valid z" using cmp(4) that y(1) v unfolding keys by (auto simp: sorted_wrt_append)
    have "cmp key y \<le> 0" using comparator.antisym[OF cmp(1) yz(2) cmp(2)] y(2) by (auto simp: sgn_if split: if_splits)
    then have "cmp key y < 0 \<or> key = y" using comparator.eq_zero[OF cmp(1,2) yz(2)] by linarith
    then show ?thesis using comparator.trans[OF cmp(1,2) yz(2,3)] yz(1) by blast
  qed
  ultimately show ?thesis unfolding separates_def using ps by blast
qed

text \<open>A path that turns to the last child everywhere leads to the last leaf.\<close>

lemma last_path:
  assumes "wf_tree p chk txn h t" "ks \<in> set (paths h t)"
    and "\<And>i. i < length ks \<Longrightarrow> page_numkeys (tpage (sub t (take i ks))) \<le> ks ! i + 1"
  shows "ks = end_of True (paths h t)"
proof -
  have "ks = route (edge_ki False) h t" using assms
  proof (induction h arbitrary: t ks)
    case (Suc h)
    then obtain k js where ks: "ks = k # js" "k < length (children t)" "js \<in> set (paths h (children t ! k))" by auto
    have n: "page_numkeys (tpage t) = length (children t)" "0 < length (children t)" "length (children t) < 2 ^ 16" using Suc.prems(1) by auto
    have "page_numkeys (tpage t) \<le> k + 1" using Suc.prems(3)[of 0] ks(1) by simp
    then have k: "edge_ki False (tpage t) = k" using n ks(2) last_ki_small[of "tpage t"] by (simp add: edge_ki_def)
    have "js = route (edge_ki False) h (children t ! k)"
    proof (rule Suc.IH[OF _ ks(3)])
      show "wf_tree p chk txn h (children t ! k)" using Suc.prems(1) ks(2) by simp
      show "page_numkeys (tpage (sub (children t ! k) (take i js))) \<le> js ! i + 1" if "i < length js" for i
        using Suc.prems(3)[of "Suc i"] that ks(1) by simp
    qed
    then show ?case using k ks(1) by simp
  qed simp
  then show ?thesis using route_edge[OF assms(1), of False] by simp
qed

subsection \<open>Seeking\<close>

text \<open>
  What is asked for a search with a cursor whose table is \<open>tb\<close>: the tree is ordered and its keys ascend, over all leaves
  and on each; the key sought is acceptable; the nodes are plain.
\<close>

definition seekable :: "calls \<Rightarrow> bool \<Rightarrow> bool \<Rightarrow> nat \<Rightarrow> txn \<Rightarrow> nat \<Rightarrow> tree \<Rightarrow> table \<Rightarrow> (bytes \<Rightarrow> bool) \<Rightarrow> bytes \<Rightarrow> bool" where
  "seekable p inner want chk txn h t tb valid key \<longleftrightarrow>
     (let k = tb_clc tb; cmp = run_cmp (clc_cmp k) in
      comparator cmp valid \<and> wf_tree p chk txn h t \<and> h < CURSOR_STACK_SIZE \<and> plain p inner want txn h t \<and>
      check_key tb key = MDBX_SUCCESS \<and> valid key \<and> ordered k valid key h t \<and>
      list_all valid (leaf_keys h t) \<and> sorted_wrt (\<lambda>a b. cmp a b < 0) (leaf_keys h t) \<and>
      (\<forall>ks \<in> set (paths h t). let mp = tpage (sub t ks) in
         searchable k valid (page_keys mp) key \<and> is_dupfix_leaf mp = (has_flag (tb_flags tb) MDBX_DUPFIXED \<and> inner) \<and>
         pg_flags mp AND P_BRANCH = 0 \<and> (is_dupfix_leaf mp \<longrightarrow> list_all (\<lambda>x. length x = tb_dupfix_size tb) (key # page_keys mp))))"

text \<open>Behind the data: on the last leaf, with the marks of the end.\<close>

definition behind :: "nat \<Rightarrow> nat \<Rightarrow> tree \<Rightarrow> cursor \<Rightarrow> bool" where
  "behind chk h t mc \<longleftrightarrow> at_path chk t (end_of True (paths h t)) mc \<and> z_bits mc = z_eof_soft OR z_eof_hard \<and>
     is_eof (mc_state mc) \<and> \<not> is_filled (mc_state mc)"

text \<open>The answer of a search, in terms of the entries: the first one whose key is not less, if there is one.\<close>

definition sought :: "calls \<Rightarrow> bytes option \<Rightarrow> cursor_op \<Rightarrow> nat \<Rightarrow> txn \<Rightarrow> nat \<Rightarrow> tree \<Rightarrow> clc \<Rightarrow> bytes \<Rightarrow> csr \<Rightarrow> bool" where
  "sought p data op chk txn h t k key r \<longleftrightarrow>
     (let pos = lower_bound (run_cmp (clc_cmp k)) (leaf_keys h t) key; exact = (key \<in> set (leaf_keys h t));
          e = entries h t ! pos
      in if exact \<or> \<not> below_set_range op \<and> pos < length (entries h t)
         then \<exists>mc'. r = (MDBX_SUCCESS, exact, if below_set_key op then None else Some (ekey t e), edata p (data \<noteq> None) t e, mc', txn) \<and>
           at_entry chk h t e mc' \<and> z_bits mc' = 0
         else \<exists>mc'. r = (MDBX_NOTFOUND, False, None, None, mc', txn) \<and>
           (if below_set_range op then is_hollow (mc_state mc') else behind chk h t mc'))"

lemma got_node_at:
  assumes wf: "wf_tree p chk txn h t" and pl: "plain p inner (data \<noteq> None) txn h t" and at: "at_entry chk h t e mc"
    and op: "\<not> at_most_both_range op"
  shows "got_node p data op exact mc txn =
    (MDBX_SUCCESS, exact, if below_set_key op then None else Some (ekey t e), edata p (data \<noteq> None) t e, landed False mc, txn)"
proof -
  have path: "at_path chk t (fst e) mc" "fst e \<in> set (paths h t)" "top_ki mc = snd e"
    using at in_entries by (auto simp: at_entry_def)
  note ok = leaf_type_ok[OF wf path(1,2)]
  let ?mp = "tpage (sub t (fst e))"
  have pe: "if is_dupfix_leaf ?mp then inner \<and> data = None
        else node_flags (pg_data ?mp) (page_node ?mp (snd e)) AND N_DUP = 0 \<and>
          (data \<noteq> None \<longrightarrow> (\<exists>v. read_value p ?mp (page_node ?mp (snd e)) txn = (Inr v, txn)))"
    using pl at unfolding plain_def at_entry_def by (auto simp: Let_def)
  show ?thesis
  proof (cases "is_dupfix_leaf ?mp")
    case True
    then show ?thesis using pe ok path(3)
      by (simp add: got_node_def landed_def ekey_def entry_key_def edata_def Let_def)
  next
    case False
    then have nd: "node_flags (pg_data ?mp) (page_node ?mp (snd e)) AND N_DUP = 0" using pe by auto
    show ?thesis
    proof (cases data)
      case None
      then show ?thesis using nd ok path(3) False
        by (simp add: got_node_def landed_def ekey_def entry_key_def edata_def key_at_def Let_def)
    next
      case (Some given)
      then obtain v where v: "read_value p ?mp (page_node ?mp (snd e)) txn = (Inr v, txn)"
        using pe False by (auto simp: Let_def)
      then have "node_read (the_env p) (read_large p) (pg_data ?mp) (page_node ?mp (snd e)) = Inr v"
        by (simp add: read_value_def Let_def)
      then show ?thesis using nd ok path(3) False Some v op
        by (simp add: got_node_def seek_value_def landed_def ekey_def entry_key_def edata_def evalue_def key_at_def Let_def)
    qed
  qed
qed

lemma at_path_leaf:
  assumes "wf_tree p chk txn h t" "h < 32" "ks \<in> set (paths h t)" "at_path chk t ks mc"
  obtains j where "j < length (paths h t)" "paths h t ! j = ks" "h \<le> h"
  using assms by (auto simp: in_set_conv_nth)

lemma set_top_ki_entry:
  assumes "at_path chk t ks mc" "ks \<in> set (paths h t)" "i < page_numkeys (tpage (sub t ks))"
  shows "at_entry chk h t (ks, i) (set_top_ki i mc)"
  using set_top_ki_at[OF assms(1), of i] assms(2,3) by (simp add: at_entry_def in_entries)

lemma not_found_at:
  "\<exists>mc'. target_not_found False mc txn = (MDBX_NOTFOUND, False, None, None, mc', txn) \<and> is_hollow (mc_state mc')"
  by (simp add: target_not_found_def set_flags_def is_hollow_def z_hollow_def)

lemma seekableD:
  assumes "seekable p inner want chk txn h t tb valid key"
  shows "comparator (run_cmp (clc_cmp (tb_clc tb))) valid" "wf_tree p chk txn h t" "h < 32" "plain p inner want txn h t"
    "check_key tb key = MDBX_SUCCESS" "valid key" "ordered (tb_clc tb) valid key h t" "list_all valid (leaf_keys h t)"
    "sorted_wrt (\<lambda>a b. run_cmp (clc_cmp (tb_clc tb)) a b < 0) (leaf_keys h t)"
  using assms unfolding seekable_def Let_def by (simp_all add: stack_size)

lemma seekable_leaf:
  assumes "seekable p inner want chk txn h t tb valid key" "ks \<in> set (paths h t)"
  shows "searchable (tb_clc tb) valid (page_keys (tpage (sub t ks))) key"
    "is_dupfix_leaf (tpage (sub t ks)) = (has_flag (tb_flags tb) MDBX_DUPFIXED \<and> inner)"
    "pg_flags (tpage (sub t ks)) AND P_BRANCH = 0"
    "is_dupfix_leaf (tpage (sub t ks)) \<Longrightarrow> list_all (\<lambda>x. length x = tb_dupfix_size tb) (key # page_keys (tpage (sub t ks)))"
  using assms unfolding seekable_def Let_def by blast+

text \<open>On the entry at the position, the node was got.\<close>

lemma sought_here:
  assumes s: "seekable p inner (data \<noteq> None) chk txn h t tb valid key" and op: "\<not> at_most_both_range op"
    and at: "at_entry chk h t e mc"
    and pos: "lower_bound (run_cmp (clc_cmp (tb_clc tb))) (leaf_keys h t) key < length (entries h t)"
      "entries h t ! lower_bound (run_cmp (clc_cmp (tb_clc tb))) (leaf_keys h t) key = e"
    and exact: "exact = (key \<in> set (leaf_keys h t))" "exact \<or> \<not> below_set_range op"
  shows "sought p data op chk txn h t (tb_clc tb) key (got_node p data op exact mc txn)"
  using got_node_at[OF seekableD(2,4)[OF s] at op, of exact] landed_at[OF at, of False] pos exact
  unfolding sought_def Let_def by (auto simp del: not_None_eq)

lemma not_sought:
  assumes "\<not> exact" "exact = (key \<in> set (leaf_keys h t))"
    and "below_set_range op \<or> lower_bound (run_cmp (clc_cmp k)) (leaf_keys h t) key = length (entries h t)"
    and "r = (MDBX_NOTFOUND, False, None, None, mc', txn)"
      "if below_set_range op then is_hollow (mc_state mc') else behind chk h t mc'"
  shows "sought p data op chk txn h t k key r"
  using assms unfolding sought_def Let_def by auto

lemma eof_state:
  assumes "cs_flags (mc_state mc) = z_eof_soft OR z_eof_hard OR (f AND z_clear_mask)" "at_path chk t (end_of True (paths h t)) mc"
  shows "behind chk h t mc"
proof -
  have "96 \<le> cs_flags (mc_state mc)" "cs_flags (mc_state mc) \<le> 99" using eof_flags[of f] assms(1) by simp_all
  moreover from this have "cs_flags (mc_state mc) \<in> {96, 97, 98, 99}" by auto
  then have "z_bits mc = z_eof_soft OR z_eof_hard"
    unfolding z_bits_def z_mask by (auto simp: z_eof_soft_def z_eof_hard_def)
  ultimately show ?thesis using assms(2) by (simp add: behind_def is_eof_def is_filled_def z_eof_soft_def z_eof_hard_def)
qed

lemma search_node_at:
  assumes s: "seekable p inner (data \<noteq> None) chk txn h t tb valid key" and op: "\<not> at_most_both_range op"
    and at: "at_path chk t ks mc" and tb: "mc_table mc = tb" "is_inner (mc_state mc) = inner"
    and sep: "separates (run_cmp (clc_cmp (tb_clc tb))) key h t ks"
  shows "sought p data op chk txn h t (tb_clc tb) key (search_node p key data op mc txn)"
proof -
  let ?cmp = "run_cmp (clc_cmp (tb_clc tb))" let ?mp = "tpage (sub t ks)" let ?L = "page_keys ?mp"
  let ?lb = "lower_bound ?cmp ?L key" and ?exact = "key \<in> set (leaf_keys h t)"
  note d = seekableD[OF s]
  have ks: "ks \<in> set (paths h t)" using sep by (rule separates_in)
  note leaf = seekable_leaf[OF s ks]
  have n: "length ?L = page_numkeys ?mp" by (simp add: page_keys_def)
  have top: "top_page mc = ?mp" using at_path_top(2)[OF at] .
  define sr where "sr = tree_search_foliage True (tb_flags tb) inner (tb_dupfix_size tb) (tb_clc tb) ?mp key"
  have sr: "fd_ki sr = ?lb" "fd_exact sr = (key \<in> set ?L)" "fd_node sr = Null_node \<longleftrightarrow> ?lb = page_numkeys ?mp"
    using tree_search_foliage_finds[OF d(1) leaf(1,3,2,4) sr_def] lower_bound_le[of ?cmp ?L key] n by (auto split: if_splits)
  have exact: "fd_exact sr = ?exact" using sr(2) separated_key[OF d(1,6) sep] by simp
  note pos = separated_position[OF d(1,6) sep d(8,2) refl]
  let ?mc = "set_top_ki ?lb mc"
  have node: "search_node p key data op mc txn =
      (if \<not> ?exact \<and> below_set_range op then target_not_found ?exact ?mc txn
       else case if \<not> ?exact \<and> ?lb = page_numkeys ?mp then cursor_sibling_right p ?mc txn else (MDBX_SUCCESS, ?mc, txn) of
         (err, mc, txn) \<Rightarrow> if err \<noteq> MDBX_SUCCESS then (err, ?exact, None, None, mc, txn) else got_node p data op ?exact mc txn)"
    unfolding search_node_def Let_def tb top sr_def[symmetric] exact sr(1,3) by (rule refl)
  consider (no) "\<not> ?exact" "below_set_range op" | (here) "?exact \<or> \<not> below_set_range op" "?lb < page_numkeys ?mp"
    | (beyond) "\<not> ?exact" "\<not> below_set_range op" "?lb = page_numkeys ?mp"
  proof -
    have "?lb < page_numkeys ?mp" if ?exact
    proof (rule ccontr)
      assume "\<not> ?lb < page_numkeys ?mp"
      then have "?lb = length ?L" using lower_bound_le[of ?cmp ?L key] n by simp
      then have "?cmp key key < 0" using lower_bound_full that sr(2) exact by blast
      then show False using comparator.eq_zero[OF d(1,6,6)] by simp
    qed
    then show ?thesis using that lower_bound_le[of ?cmp ?L key] n by (metis nat_less_le)
  qed
  then show ?thesis
  proof cases
    case no
    then have "search_node p key data op mc txn = target_not_found False ?mc txn" by (simp add: node)
    then obtain mc' where "search_node p key data op mc txn = (MDBX_NOTFOUND, False, None, None, mc', txn)" "is_hollow (mc_state mc')"
      using not_found_at[of ?mc txn] by auto
    then show ?thesis using no by (intro not_sought[OF no(1) refl]) simp_all
  next
    case here
    have e: "at_entry chk h t (ks, ?lb) ?mc" using set_top_ki_entry[OF at ks here(2)] .
    have "search_node p key data op mc txn = got_node p data op ?exact ?mc txn" using here by (auto simp: node)
    then show ?thesis using sought_here[OF s op e _ _ refl here(1)] pos(1) here(2) n by simp
  next
    case beyond
    obtain j where j: "j < length (paths h t)" "paths h t ! j = ks" using ks by (auto simp: in_set_conv_nth)
    have at': "at_path chk t (paths h t ! j) ?mc" using set_top_ki_at[OF at, of ?lb] j(2) by simp
    note spec = cursor_sibling_spec[OF d(2,3) order_refl j(1) at', of True]
    show ?thesis
    proof (cases "j + 1 < length (paths h t)")
      case True
      then obtain mc' where mc': "cursor_sibling_right p ?mc txn = (MDBX_SUCCESS, mc', txn)"
        "at_path chk t (paths h t ! (j + 1)) mc'" "top_ki mc' = 0"
        using spec by (auto simp: cursor_sibling_right_def edge_ki_def)
      have nx: "next_to True (paths h t) ks (paths h t ! (j + 1))" unfolding next_to_def
        using True j(2) id_take_nth_drop[OF j(1)] Cons_nth_drop_Suc[of "j + 1" "paths h t"]
        by (intro exI[of _ "take j (paths h t)"] exI[of _ "drop (j + 2) (paths h t)"]) simp
      have "paths h t ! (j + 1) \<in> set (paths h t)" using True by simp
      then have e: "at_entry chk h t (paths h t ! (j + 1), 0) mc'"
        using mc'(2,3) leaf_numkeys[OF d(2)] by (simp add: at_entry_def in_entries)
      have "search_node p key data op mc txn = got_node p data op ?exact mc' txn" using beyond mc'(1) by (simp add: node)
      then show ?thesis using sought_here[OF s op e _ _ refl] pos(2)[OF _ nx] beyond n by simp
    next
      case False
      then obtain mc' where mc': "cursor_sibling_right p ?mc txn = (MDBX_NOTFOUND, mc', txn)"
        "cs_flags (mc_state mc') = z_eof_soft OR z_eof_hard OR (cs_flags (mc_state mc') AND z_clear_mask)" "at_path chk t ks mc'"
        using spec j(2) by (auto simp: cursor_sibling_right_def)
      have "j = length (paths h t) - 1" "paths h t \<noteq> []" using False j(1) by auto
      then have "ks = end_of True (paths h t)" using j(2) end_of_nth[of "paths h t" True] by simp
      then have "lower_bound ?cmp (leaf_keys h t) key = length (entries h t)" using pos(3) beyond(3) n by simp
      moreover have "MDBX_NOTFOUND \<noteq> MDBX_SUCCESS" by (simp add: MDBX_NOTFOUND_def MDBX_SUCCESS_def)
      then have "search_node p key data op mc txn = (MDBX_NOTFOUND, False, None, None, mc', txn)" using beyond mc'(1) by (simp add: node)
      ultimately show ?thesis using beyond eof_state[OF mc'(2), of chk t h] mc'(3) \<open>ks = end_of True (paths h t)\<close> by (intro not_sought[OF _ refl]) auto
    qed
  qed
qed

lemma continue_at:
  assumes s: "seekable p inner (data \<noteq> None) chk txn h t tb valid key" and op: "\<not> at_most_both_range op"
    and search: "searches p chk txn h t mc" and tb: "mc_table mc = tb" "is_inner (mc_state mc) = inner"
  shows "sought p data op chk txn h t (tb_clc tb) key (continue_other_pages p key data op mc txn)"
proof -
  note d = seekableD[OF s]
  obtain mc' ks where mc': "tree_search p (Some key) 0 mc txn = (MDBX_SUCCESS, mc', txn)" "at_path chk t ks mc'" "moved mc mc'"
    "separates (run_cmp (clc_cmp (tb_clc tb))) key h t ks"
    using tree_search_spec[OF search _ d(1)] d(7) tb(1) by metis
  have "mc_table mc' = tb" "is_inner (mc_state mc') = inner" using moved_same[OF mc'(3)] tb by (simp_all add: is_inner_def)
  then show ?thesis using search_node_at[OF s op mc'(2) _ _ mc'(4)] mc'(1) by (simp add: continue_other_pages_def)
qed

lemma keys_of_leaf:
  assumes "ks \<in> set (paths h t)" "L = page_keys (tpage (sub t ks))"
  shows "length L = page_numkeys (tpage (sub t ks))" "i < length L \<Longrightarrow> entry_key (tpage (sub t ks)) i = L ! i" "set L \<subseteq> set (leaf_keys h t)"
  using assms by (auto simp: page_keys_def entry_key_def leaf_keys_def)

text \<open>The key is the one at an index of the page.\<close>

lemma exact_here:
  assumes s: "seekable p inner (data \<noteq> None) chk txn h t tb valid key" and op: "\<not> at_most_both_range op"
    and at: "at_path chk t ks mc" "ks \<in> set (paths h t)" and L: "L = page_keys (tpage (sub t ks))" "i < length L" "L ! i = key"
  shows "sought p data op chk txn h t (tb_clc tb) key (got_node p data op True (set_top_ki i mc) txn)"
proof -
  let ?cmp = "run_cmp (clc_cmp (tb_clc tb))"
  note d = seekableD[OF s]
  note k = keys_of_leaf[OF at(2) L(1)]
  have self: "?cmp key key = 0" using comparator.eq_zero[OF d(1,6,6)] by simp
  have "key \<in> set L" using L(2,3) nth_mem by blast
  then have sep: "separates ?cmp key h t ks" and ex: "key \<in> set (leaf_keys h t)"
    using sorted_separates[OF d(1,6,8,9) at(2) L(1), of key key] self k(3) by auto
  have "sorted_wrt (\<lambda>a b. ?cmp a b < 0) L" using seekable_leaf(1)[OF s at(2)] L(1) by (simp add: searchable_def)
  then have "lower_bound ?cmp L key = i"
    using L(2,3) self sorted_wrt_nth_less[of "\<lambda>a b. ?cmp a b < 0" L] by (intro lower_bound_unique) auto
  then have "lower_bound ?cmp (leaf_keys h t) key < length (entries h t)" "entries h t ! lower_bound ?cmp (leaf_keys h t) key = (ks, i)"
    using separated_position(1)[OF d(1,6) sep d(8,2) L(1)] L(2) by auto
  then show ?thesis using sought_here[OF s op set_top_ki_entry[OF at]] L(2) k(1) ex by simp
qed

lemma cmp_flip: "comparator cmp valid \<Longrightarrow> valid a \<Longrightarrow> valid b \<Longrightarrow> (0 < cmp a b \<longleftrightarrow> cmp b a < 0)"
  using comparator.antisym[of cmp valid a b] by (auto simp: sgn_if split: if_splits)

text \<open>All keys are less: the cursor goes behind the last one.\<close>

lemma behind_all:
  assumes s: "seekable p inner (data \<noteq> None) chk txn h t tb valid key"
    and last: "ks = end_of True (paths h t)" and less: "\<And>x. x \<in> set (page_keys (tpage (sub t ks))) \<Longrightarrow> run_cmp (clc_cmp (tb_clc tb)) x key < 0"
  shows "key \<notin> set (leaf_keys h t)" "lower_bound (run_cmp (clc_cmp (tb_clc tb))) (leaf_keys h t) key = length (entries h t)"
proof -
  let ?cmp = "run_cmp (clc_cmp (tb_clc tb))" let ?k = "\<lambda>js. page_keys (tpage (sub t js))"
  note d = seekableD[OF s]
  have ne: "paths h t \<noteq> []" using paths_ne[OF d(2) order_refl] .
  then obtain us where ps: "paths h t = us @ [ks]" using last by (metis append_butlast_last_id end_of_def)
  then have ks: "ks \<in> set (paths h t)" by simp
  have keys: "leaf_keys h t = concat (map ?k us) @ ?k ks" by (simp add: leaf_keys_def ps)
  have "0 < length (?k ks)" using leaf_numkeys[OF d(2) ks] by (simp add: page_keys_def)
  then have x: "?k ks ! 0 \<in> set (?k ks)" by simp
  have all: "?cmp z key < 0" if z: "z \<in> set (leaf_keys h t)" for z
  proof (cases "z \<in> set (?k ks)")
    case False
    then have "?cmp z (?k ks ! 0) < 0" using d(9) z x unfolding keys by (auto simp: sorted_wrt_append)
    moreover have "valid z" "valid (?k ks ! 0)" using d(8) z x unfolding keys by (auto simp: list_all_iff)
    ultimately show ?thesis using comparator.trans[OF d(1)] d(6) less[OF x] by blast
  qed (rule less)
  then show "key \<notin> set (leaf_keys h t)" using comparator.eq_zero[OF d(1,6,6)] by fastforce
  show "lower_bound ?cmp (leaf_keys h t) key = length (entries h t)"
    using lower_bound_all[of "leaf_keys h t" ?cmp key "[]"] all leaf_keys_entries[of h t] by (simp add: lower_bound_def)
qed

lemma not_aside:
  assumes wf: "wf_tree p chk txn h t" and at: "at_path chk t ks mc" "ks \<in> set (paths h t)" and no: "\<not> pages_aside mc"
  shows "ks = end_of True (paths h t)"
proof (rule last_path[OF wf at(2)])
  fix i assume i: "i < length ks"
  then have "\<not> mc_ki mc ! i + 1 < page_numkeys (mc_pg mc ! i)"
    using no at_path_top(1)[OF at(1)] by (auto simp: pages_aside_def list_ex_iff)
  then show "page_numkeys (tpage (sub t (take i ks))) \<le> ks ! i + 1" using at(1) i by (simp add: at_path_def)
qed

lemma seek_here_at:
  assumes s: "seekable p inner (data \<noteq> None) chk txn h t tb valid key" and op: "\<not> at_most_both_range op"
    and search: "searches p chk txn h t mc" and tb: "mc_table mc = tb" "is_inner (mc_state mc) = inner"
    and at: "at_path chk t ks mc" "ks \<in> set (paths h t)"
  shows "sought p data op chk txn h t (tb_clc tb) key (seek_here p key data op mc txn)"
proof -
  let ?cmp = "run_cmp (clc_cmp (tb_clc tb))"
  define mp where "mp = tpage (sub t ks)"
  define L where "L = page_keys mp"
  define n where "n = page_numkeys mp"
  define here where "here = seek_here p key data op mc txn"
  note d = seekableD[OF s]
  note k = keys_of_leaf[OF at(2) L_def[unfolded mp_def], folded mp_def, folded n_def]
  have n: "0 < n" "n < 2 ^ 16" using leaf_numkeys[OF d(2) at(2)] by (simp_all add: n_def mp_def)
  have top: "top_page mc = mp" using at_path_top(2)[OF at(1)] by (simp add: mp_def)
  have valid: "valid x" if "x \<in> set L" for x using that k(3) d(8) by (auto simp: list_all_iff)
  have sorted: "sorted_wrt (\<lambda>a b. ?cmp a b < 0) L" using seekable_leaf(1)[OF s at(2)] by (simp add: L_def mp_def searchable_def)
  have mem: "L ! i \<in> set L" "valid (L ! i)" if "i < n" for i using that k(1) valid by simp_all
  note exact = exact_here[OF s op at L_def[unfolded mp_def]]
  have eq: "?cmp key (L ! i) = 0 \<longleftrightarrow> L ! i = key" if "i < n" for i using comparator.eq_zero[OF d(1,6) mem(2)[OF that]] by auto
  have flip: "0 < ?cmp key (L ! i) \<longleftrightarrow> ?cmp (L ! i) key < 0" "?cmp key (L ! i) < 0 \<longleftrightarrow> 0 < ?cmp (L ! i) key" if "i < n" for i
    using cmp_flip[OF d(1,6) mem(2)[OF that]] cmp_flip[OF d(1) mem(2)[OF that] d(6)] by auto
  have code: "here =
      (if ?cmp key (L ! 0) = 0 then got_node p data op True (set_top_ki 0 mc) txn
       else if 0 < ?cmp key (L ! 0) \<and> 1 < n \<and> ?cmp key (L ! (n - 1)) \<le> 0
       then if ?cmp key (L ! (n - 1)) = 0 then got_node p data op True (set_top_ki ((n - 1) mod 2 ^ 16) mc) txn
            else if 0 < top_ki mc \<and> top_ki mc < n - 1 \<and> ?cmp key (L ! top_ki mc) = 0 then got_node p data op True mc txn
            else search_node p key data op mc txn
       else if 0 < ?cmp key (L ! 0)
       then if pages_aside mc then continue_other_pages p key data op mc txn
            else let mc = set_top_ki (n mod 2 ^ 16) mc
                 in if below_set_range op then target_not_found False mc txn
                    else (MDBX_NOTFOUND, False, None, None,
                          set_flags (z_eof_soft OR z_eof_hard OR (cs_flags (mc_state mc) AND z_clear_mask)) mc, txn)
       else if cs_top (mc_state mc) = 0
       then let mc = set_top_ki 0 mc
            in if below_set_range op then target_not_found False mc txn else got_node p data op False mc txn
       else continue_other_pages p key data op mc txn)"
  proof -
    have "entry_key mp 0 = L ! 0" "entry_key mp (n - 1) = L ! (n - 1)" using k(1,2) n(1) by simp_all
    moreover have "(0 < top_ki mc \<and> top_ki mc < n - 1 \<and> ?cmp key (entry_key mp (top_ki mc)) = 0) =
        (0 < top_ki mc \<and> top_ki mc < n - 1 \<and> ?cmp key (L ! top_ki mc) = 0)" using k(1,2) by auto
    ultimately show ?thesis unfolding here_def seek_here_def Let_def top tb n_def[symmetric] by simp
  qed
  have "sought p data op chk txn h t (tb_clc tb) key here"
  proof -
    consider (first) "L ! 0 = key"
      | (between) "0 < ?cmp key (L ! 0)" "1 < n" "?cmp key (L ! (n - 1)) \<le> 0"
      | (greater) "0 < ?cmp key (L ! 0)" "1 < n \<longrightarrow> 0 < ?cmp key (L ! (n - 1))"
      | (less) "?cmp key (L ! 0) < 0"
      using eq[of 0] n(1) by fastforce
    then show ?thesis
    proof cases
      case first
      then show ?thesis using exact[of 0] k(1) n(1) eq[of 0] unfolding code by simp
    next
      case between
      show ?thesis
      proof (cases "?cmp key (L ! (n - 1)) = 0")
        case True
        then have "L ! (n - 1) = key" using eq[of "n - 1"] n(1) by simp
        then show ?thesis using exact[of "n - 1"] k(1) n between True unfolding code by simp
      next
        case False
        then have sep: "separates ?cmp key h t ks"
          using sorted_separates[OF d(1,6,8,9) at(2) L_def[unfolded mp_def], of "L ! 0" "L ! (n - 1)"] mem(1) between n(1) flip[of 0] flip[of "n - 1"]
          by simp
        have cur: "got_node p data op True mc txn = got_node p data op True (set_top_ki (top_ki mc) mc) txn"
          by (simp add: set_top_ki_def top_ki_def)
        have "top_ki mc < n - 1 \<Longrightarrow> ?cmp key (L ! top_ki mc) = 0 \<Longrightarrow> sought p data op chk txn h t (tb_clc tb) key (got_node p data op True mc txn)"
          unfolding cur using eq[of "top_ki mc"] k(1) by (intro exact) auto
        then show ?thesis using between False search_node_at[OF s op at(1) tb sep] unfolding code by simp
      qed
    next
      case greater
      have all: "?cmp x key < 0" if x: "x \<in> set L" for x
      proof -
        have lt: "?cmp (L ! (n - 1)) key < 0" using greater flip(1)[of "n - 1"] flip(1)[of 0] n(1) by (cases "n = 1") auto
        obtain i where i: "i < n" "x = L ! i" using x k(1) by (auto simp: in_set_conv_nth)
        show ?thesis
        proof (cases "i = n - 1")
          case False
          then have "?cmp x (L ! (n - 1)) < 0" using i sorted_wrt_nth_less[OF sorted, of i "n - 1"] k(1) by simp
          then show ?thesis using comparator.trans[OF d(1) _ _ d(6)] mem(2) i lt n(1) by (metis diff_less zero_less_one)
        qed (use lt i in simp)
      qed
      show ?thesis
      proof (cases "pages_aside mc")
        case True
        then show ?thesis using greater continue_at[OF s op search tb] unfolding code by auto
      next
        case False
        let ?mc = "set_top_ki (n mod 2 ^ 16) mc"
        have "ks = end_of True (paths h t)" using not_aside[OF d(2) at False] .
        note out = behind_all[OF s this, folded mp_def, folded L_def, OF all]
        have here: "here = (if below_set_range op then target_not_found False ?mc txn
            else (MDBX_NOTFOUND, False, None, None, set_flags (z_eof_soft OR z_eof_hard OR (cs_flags (mc_state ?mc) AND z_clear_mask)) ?mc, txn))"
          using greater False unfolding code Let_def by auto
        have "at_path chk t ks (set_flags f ?mc)" for f
          using set_top_ki_at(1)[OF at(1), of "n mod 2 ^ 16"] by (simp add: at_path_def set_flags_def)
        then have eof: "behind chk h t (set_flags (z_eof_soft OR z_eof_hard OR (f AND z_clear_mask)) ?mc)" for f
          using eof_state[of "set_flags (z_eof_soft OR z_eof_hard OR (f AND z_clear_mask)) ?mc" f] \<open>ks = end_of True (paths h t)\<close>
          by (simp add: set_flags_def)
        show ?thesis
        proof (cases "below_set_range op")
          case True
          then obtain mc' where "here = (MDBX_NOTFOUND, False, None, None, mc', txn)" "is_hollow (mc_state mc')"
            using here not_found_at[of ?mc txn] by auto
          then show ?thesis using out True by (intro not_sought[OF _ refl]) simp_all
        next
          case False
          then show ?thesis using here out eof by (intro not_sought[OF _ refl]) simp_all
        qed
      qed
    next
      case less
      show ?thesis
      proof (cases "cs_top (mc_state mc) = 0")
        case False
        then show ?thesis using less continue_at[OF s op search tb] unfolding code by auto
      next
        case True
        then have "ks = []" using at(1) by (simp add: at_path_def)
        then have root: "ks = []" "h = 0" using length_paths[OF at(2)] by auto
        have sep: "separates ?cmp key h t ks" unfolding separates_def root by (intro exI[of _ "[]"]) simp
        have out: "key \<notin> set L"
        proof
          assume "key \<in> set L"
          then obtain i where i: "i < n" "key = L ! i" using k(1) by (auto simp: in_set_conv_nth)
          then have "i \<noteq> 0" using less comparator.eq_zero[OF d(1,6,6)] by (metis less_irrefl)
          then have "?cmp (L ! 0) key < 0" using i sorted_wrt_nth_less[OF sorted, of 0 i] k(1) by simp
          then show False using less flip(2)[of 0] n(1) by simp
        qed
        have ex: "key \<notin> set (leaf_keys h t)" using separated_key[OF d(1,6) sep] out by (simp add: L_def mp_def)
        have lb: "lower_bound ?cmp L key = 0" using less flip(2)[of 0] n(1) k(1) by (intro lower_bound_unique) auto
        have pos: "lower_bound ?cmp (leaf_keys h t) key < length (entries h t)" "entries h t ! lower_bound ?cmp (leaf_keys h t) key = (ks, 0)"
          using separated_position(1)[OF d(1,6) sep d(8,2) L_def[unfolded mp_def]] lb n(1) k(1) by auto
        have here: "here = (if below_set_range op then target_not_found False (set_top_ki 0 mc) txn else got_node p data op False (set_top_ki 0 mc) txn)"
          using less True unfolding code Let_def by auto
        show ?thesis
        proof (cases "below_set_range op")
          case True
          then obtain mc' where "here = (MDBX_NOTFOUND, False, None, None, mc', txn)" "is_hollow (mc_state mc')"
            using here not_found_at[of "set_top_ki 0 mc" txn] by auto
          then show ?thesis using ex True by (intro not_sought[OF _ refl]) simp_all
        next
          case False
          then show ?thesis using here sought_here[OF s op set_top_ki_entry[OF at] pos, of False] ex n(1) by (simp add: n_def mp_def)
        qed
      qed
    qed
  qed
  then show ?thesis by (simp add: here_def)
qed

lemma cursor_seek_spec:
  assumes "seekable p inner (data \<noteq> None) chk txn h t (mc_table mc) valid key" and "searches p chk txn h t mc"
    and "is_inner (mc_state mc) = inner" and "op \<in> {MDBX_SET, MDBX_SET_KEY, MDBX_SET_RANGE}"
    and "is_poor (mc_state mc) \<or> (\<exists>ks \<in> set (paths h t). at_path chk t ks mc)"
  shows "sought p data op chk txn h t (tb_clc (mc_table mc)) key (cursor_seek p key data op mc txn)"
proof -
  have op: "\<not> at_most_both_range op" using assms(4) by (auto simp: at_most_both_range_def)
  note d = seekableD[OF assms(1)]
  show ?thesis
  proof (cases "is_pointed (mc_state mc)")
    case False
    then show ?thesis using continue_at[OF assms(1) op assms(2) refl assms(3)] d(5) by (simp add: cursor_seek_def)
  next
    case True
    then obtain ks where ks: "ks \<in> set (paths h t)" "at_path chk t ks mc" using assms(5) by (auto simp: is_poor_def is_pointed_def)
    then have "page_numkeys (top_page mc) \<noteq> 0" using leaf_numkeys[OF d(2) ks(1)] at_path_top(2)[OF ks(2)] by simp
    then show ?thesis using seek_here_at[OF assms(1) op assms(2) refl assms(3) ks(2,1)] True d(5) by (simp add: cursor_seek_def)
  qed
qed

text \<open>
  C1. Seeking a key finds its place among all keys of the tree, whether it goes through the tree or takes the short way on
  the page where the cursor stands: with a range, the first entry whose key is not less, and whether it is the key; for
  the key itself, its entry. If there is none, the cursor is hollow, or behind the data for a range.
\<close>

theorem cursor_seek_finds:
  assumes "seekable p inner (data \<noteq> None) chk txn h t (mc_table mc) valid key" and "searches p chk txn h t mc"
    and "is_inner (mc_state mc) = inner" and "op \<in> {MDBX_SET, MDBX_SET_KEY, MDBX_SET_RANGE}"
    and "is_poor (mc_state mc) \<or> (\<exists>ks \<in> set (paths h t). at_path chk t ks mc)"
  shows "sought p data op chk txn h t (tb_clc (mc_table mc)) key (cursor_seek p key data op mc txn)"
  using assms by (rule cursor_seek_spec)

lemma small_seekable:
  assumes "b < 256"
  shows "seekable small_calls False want P_LEAF small_txn 1 small_tree (mc_table small_cursor) is_bytes [b]"
proof -
  have tb: "tb_clc (mc_table small_cursor) = lexical_keys" "tb_flags (mc_table small_cursor) = 0" by (simp_all add: small_cursor_def)
  have "check_key (mc_table small_cursor) [b] = MDBX_SUCCESS"
    by (simp add: check_key_def small_cursor_def lexical_keys_def has_flag_def)
  moreover have "searchable lexical_keys is_bytes (page_keys (small_leaf pgno c)) [b]" if "c < 256" for pgno c
    using assms that by (simp add: small_keys searchable_def lexical_keys_def is_bytes_def cmp_lexical_small intptr_def)
  moreover have "pg_flags (small_leaf pgno c) AND P_BRANCH = 0" for pgno c by (simp add: small_leaf_def P_LEAF_def P_BRANCH_def)
  moreover have "sorted_wrt (\<lambda>x y. run_cmp (clc_cmp lexical_keys) x y < 0) [[3], [5]]"
    by (simp add: lexical_keys_def cmp_lexical_small)
  ultimately show ?thesis
    unfolding seekable_def Let_def tb using assms small_wf small_plain[of want] lexical_keys_cmp small_ordered[OF assms]
    by (simp add: small_leaf_keys[unfolded One_nat_def] small_paths stack_size small_pages is_bytes_def has_flag_def
        del: ordered.simps wf_tree.simps)
qed


lemma small_fresh:
  "\<not> is_inner (mc_state small_cursor)" "is_inner (mc_state small_cursor) = False" "is_poor (mc_state small_cursor)"
  by (simp_all add: small_cursor_def is_inner_def is_poor_def z_values z_inner_def)

theorem cursor_seek_finds_witness:
  "\<exists>mc. cursor_seek small_calls [4] None MDBX_SET_RANGE small_cursor small_txn = (MDBX_SUCCESS, False, Some [5], None, mc, small_txn) \<and>
     at_entry P_LEAF 1 small_tree ([1], 0) mc"
proof -
  have k: "tb_clc (mc_table small_cursor) = lexical_keys" by (simp add: small_cursor_def)
  have lb: "lower_bound (run_cmp (clc_cmp lexical_keys)) [[3], [5]] [4] = 1"
    by (simp add: lower_bound_def lexical_keys_def cmp_lexical_small)
  have "ekey small_tree ([1], 0) = [5]" using leaf_keys_entries[of 1 small_tree] unfolding small_leaf_keys small_entries by simp
  then show ?thesis
    using cursor_seek_finds[OF small_seekable[of 4] small_searches small_fresh(2), of MDBX_SET_RANGE None] small_fresh(3)
    unfolding sought_def Let_def k small_leaf_keys lb small_entries
    by (auto simp: below_set_range_def below_set_key_def at_most_both_range_def edata_def)
qed

end
