(* ===== verification/Cursor_To_Key.thy ===== *)
theory Cursor_To_Key
  imports Cursor_Seek
begin

text \<open>
  The operations of the interface that go to a key with a comparison, refined to an abstract choice: the entry nearest to
  the key among those that compare as asked. They are a seek followed by at most one step, also from behind the data.
\<close>

unbundle bit_operations_syntax

subsection \<open>Going to a key\<close>

text \<open>How a sorted list splits at the position of a key.\<close>

lemma split_at_position:
  assumes cmp: "comparator cmp valid" "valid key" and xs: "list_all valid (map f xs)" "sorted_wrt (\<lambda>a b. cmp a b < 0) (map f xs)"
    and pos: "pos = lower_bound cmp (map f xs) key"
  shows "x \<in> set (take pos xs) \<Longrightarrow> cmp (f x) key < 0"
    "key \<notin> f ` set xs \<Longrightarrow> x \<in> set (drop pos xs) \<Longrightarrow> 0 < cmp (f x) key"
    "key \<in> f ` set xs \<Longrightarrow> pos < length xs \<and> f (xs ! pos) = key"
    "key \<in> f ` set xs \<Longrightarrow> x \<in> set (drop (Suc pos) xs) \<Longrightarrow> 0 < cmp (f x) key"
proof -
  let ?P = "\<lambda>x. cmp (f x) key < 0"
  have valid: "valid (f x)" if "x \<in> set xs" for x using that xs(1) by (simp add: list_all_iff)
  have tw: "takeWhile ?P xs = take pos xs" and dw: "dropWhile ?P xs = drop pos xs"
    unfolding pos lower_bound_def takeWhile_map comp_def length_map
    by (simp_all add: takeWhile_eq_take[symmetric] dropWhile_eq_drop[symmetric] comp_def)
  show "cmp (f x) key < 0" if "x \<in> set (take pos xs)" for x using that unfolding tw[symmetric] by (rule set_takeWhileD[THEN conjunct2])
  have nonneg: "0 \<le> cmp (f x) key" if x: "x \<in> set (drop pos xs)" for x
  proof -
    have ne: "drop pos xs \<noteq> []" using x by auto
    define y where "y = hd (drop pos xs)"
    obtain ys where ys: "drop pos xs = y # ys" using ne by (cases "drop pos xs") (auto simp: y_def)
    have y: "\<not> ?P y" using hd_dropWhile[of ?P xs] ne unfolding dw y_def by simp
    have yin: "y \<in> set xs" by (rule in_set_dropD[of y pos]) (simp add: ys)
    show ?thesis
    proof (cases "x = y")
      case False
      have "sorted_wrt (\<lambda>a b. cmp a b < 0) (map f (drop pos xs))" using xs(2) by (simp add: drop_map[symmetric] sorted_wrt_drop)
      then have "cmp (f y) (f x) < 0" using x False by (simp add: ys)
      moreover have "valid (f y)" "valid (f x)" using valid yin in_set_dropD[OF x] by blast+
      moreover have "cmp key (f y) \<le> 0" using cmp_flip[OF cmp(1,2) valid[OF yin]] y by linarith
      ultimately have "cmp key (f x) < 0" using comparator.trans[OF cmp(1) cmp(2)] comparator.eq_zero[OF cmp(1,2)] by (metis order_le_less)
      then show ?thesis using cmp_flip[OF cmp(1) \<open>valid (f x)\<close> cmp(2)] by linarith
    qed (use y in simp)
  qed
  show "0 < cmp (f x) key" if "key \<notin> f ` set xs" "x \<in> set (drop pos xs)" for x
    using nonneg[OF that(2)] comparator.eq_zero[OF cmp(1) valid cmp(2)] that in_set_dropD[OF that(2)] by (metis image_eqI order_le_less)
  assume key: "key \<in> f ` set xs"
  have self: "cmp key key = 0" using comparator.eq_zero[OF cmp(1,2,2)] by simp
  obtain y where y: "y \<in> set xs" "f y = key" using key by auto
  have "y \<in> set (drop pos xs)"
    using y \<open>\<And>x. x \<in> set (take pos xs) \<Longrightarrow> cmp (f x) key < 0\<close>[of y] self append_take_drop_id[of pos xs] by (metis Un_iff less_irrefl set_append)
  moreover have pos_less: "pos < length xs" using calculation by (cases "pos < length xs") auto
  have drop: "drop pos xs = xs ! pos # drop (Suc pos) xs" using Cons_nth_drop_Suc[OF pos_less] by simp
  have sorted: "sorted_wrt (\<lambda>a b. cmp a b < 0) (f (xs ! pos) # map f (drop (Suc pos) xs))"
  proof -
    have "sorted_wrt (\<lambda>a b. cmp a b < 0) (map f (drop pos xs))" using xs(2) by (simp add: drop_map[symmetric] sorted_wrt_drop)
    then show ?thesis unfolding drop by simp
  qed
  have hd: "f (xs ! pos) = key"
  proof (rule ccontr)
    assume "f (xs ! pos) \<noteq> key"
    then have "y \<in> set (drop (Suc pos) xs)" using calculation y(2) by (auto simp: drop)
    then have "cmp (f (xs ! pos)) key < 0" using sorted y(2) by auto
    then show False using nonneg[of "xs ! pos"] by (simp add: drop)
  qed
  then show "pos < length xs \<and> f (xs ! pos) = key" using pos_less by simp
  assume x: "x \<in> set (drop (Suc pos) xs)"
  then have "cmp key (f x) < 0" using sorted hd by auto
  then show "0 < cmp (f x) key" using cmp_flip[OF cmp(1) valid[OF in_set_dropD[OF x]] cmp(2)] by simp
qed

text \<open>A step from the entry at an index, and backward from behind the data.\<close>

lemma step_at:
  assumes wf: "wf_tree p chk txn h t" "h < 32" and pl: "plain p False want txn h t"
    and i: "i < length (entries h t)" "at_entry chk h t (entries h t ! i) mc" "z_bits mc = 0"
    and op: "op \<noteq> (if forward then MDBX_NEXT_DUP else MDBX_PREV_DUP)"
  shows "if if forward then i + 1 < length (entries h t) else 0 < i
    then let e = entries h t ! (if forward then i + 1 else i - 1)
      in \<exists>mc'. cursor_step p False forward want op mc txn = (MDBX_SUCCESS, Some (ekey t e), edata p want t e, mc', txn) \<and> at_entry chk h t e mc'
    else \<exists>mc'. cursor_step p False forward want op mc txn = (MDBX_NOTFOUND, None, None, mc', txn)"
proof -
  have turn: "cursor_step p False forward want op mc txn = cursor_turn p False forward want mc txn"
    using at_entry_numkeys(5)[OF wf(1) i(2)] i(3) op by (intro cursor_step_turns) auto
  consider (last) mc' where "entries h t ! i = end_of forward (entries h t)" "cursor_turn p False forward want mc txn = fail (MDBX_NOTFOUND, mc', txn)"
    | (more) e' mc' where "next_to forward (entries h t) (entries h t ! i) e'" "at_entry chk h t e' mc'"
      "cursor_turn p False forward want mc txn = (MDBX_SUCCESS, Some (ekey t e'), edata p want t e', landed False mc', txn)"
    using cursor_turn_at[OF wf pl i(2), of forward] by blast
  then show ?thesis
  proof cases
    case last
    have "i = (if forward then length (entries h t) - 1 else 0)" by (rule nth_end_of[OF distinct_entries i(1) last(1)])
    then show ?thesis using turn last(2) by auto
  next
    case more
    then show ?thesis using next_to_nth[OF distinct_entries i(1) more(1)] turn landed_at(1)[OF more(2)] by (auto simp: Let_def)
  qed
qed

lemma back_from_behind:
  assumes wf: "wf_tree p chk txn h t" and pl: "plain p False want txn h t" and mc: "behind chk h t mc" and op: "op \<noteq> MDBX_PREV_DUP"
  defines "e \<equiv> last (entries h t)"
  shows "\<exists>mc'. cursor_step p False False want op mc txn = (MDBX_SUCCESS, Some (ekey t e), edata p want t e, mc', txn) \<and> at_entry chk h t e mc'"
proof -
  let ?ks = "end_of True (paths h t)"
  have at: "at_path chk t ?ks mc" "z_bits mc = 96" using mc by (simp_all add: behind_def z_eof_soft_def z_eof_hard_def)
  have ks: "?ks \<in> set (paths h t)" using paths_ne[OF wf order_refl] by (simp add: end_of_def)
  have n: "0 < page_numkeys (top_page mc)" "page_numkeys (top_page mc) < 2 ^ 16" "top_page mc = tpage (sub t ?ks)"
    using leaf_numkeys[OF wf ks] at_path_top(2)[OF at(1)] by auto
  let ?mc = "set_top_ki (last_ki (top_page mc)) mc"
  have e: "e = (?ks, last_ki (top_page mc))"
    using entries_end[OF wf, of True] last_ki_small[OF n(1,2)] n(3) by (simp add: e_def end_of_def)
  have ate: "at_entry chk h t e ?mc" unfolding e
    by (rule set_top_ki_entry[OF at(1) ks]) (use last_ki_small[OF n(1,2)] n in simp)
  have "z_bits mc AND z_hollow = cs_flags (mc_state mc) AND z_hollow" unfolding z_bits_def z_mask by (simp add: z_hollow_def and.assoc)
  then have "cs_flags (mc_state mc) AND z_hollow = 0" using at(2) by (simp add: z_hollow_def)
  moreover have "0 \<le> cs_top (mc_state mc)" using at(1) by (simp add: at_path_def)
  ultimately have "cursor_step p False False want op mc txn = cursor_bring p False want False ?mc txn"
    using at(2) op unfolding cursor_step_def Let_def z_bits_def[symmetric] by (simp add: is_poor_def z_eof_hard_def)
  then show ?thesis using cursor_bring_at[OF wf pl ate, of False] landed_at(1)[OF ate, of False] by auto
qed

text \<open>The entries that an operation may go to, and the one it takes: the nearest to the key.\<close>

definition asked :: "cursor_op \<Rightarrow> int \<Rightarrow> bool" where
  "asked op c \<longleftrightarrow>
     (if op = MDBX_TO_KEY_LESSER_THAN then c < 0 else if op = MDBX_TO_KEY_LESSER_OR_EQUAL then c \<le> 0
      else if op = MDBX_TO_KEY_EQUAL then c = 0 else if op = MDBX_TO_KEY_GREATER_OR_EQUAL then 0 \<le> c else 0 < c)"

definition nearest :: "cursor_op \<Rightarrow> (bytes \<Rightarrow> bytes \<Rightarrow> int) \<Rightarrow> nat \<Rightarrow> tree \<Rightarrow> bytes \<Rightarrow> (nat list \<times> nat) option" where
  "nearest op cmp h t key =
     (let es = filter (\<lambda>e. asked op (cmp (ekey t e) key)) (entries h t)
      in if es = [] then None
         else Some (if op \<in> {MDBX_TO_KEY_LESSER_THAN, MDBX_TO_KEY_LESSER_OR_EQUAL} then last es else hd es))"

definition goes_to :: "calls \<Rightarrow> bool \<Rightarrow> nat \<Rightarrow> nat \<Rightarrow> tree \<Rightarrow> txn \<Rightarrow> (nat list \<times> nat) option \<Rightarrow> got \<Rightarrow> bool" where
  "goes_to p want chk h t txn target r \<longleftrightarrow>
     (case target of
        None \<Rightarrow> \<exists>k v mc'. r = (MDBX_NOTFOUND, k, v, mc', txn)
      | Some e \<Rightarrow> \<exists>mc'. r = (MDBX_SUCCESS, Some (ekey t e), edata p want t e, mc', txn) \<and> at_entry chk h t e mc')"

abbreviation to_key_ops :: "cursor_op set" where
  "to_key_ops \<equiv> {MDBX_TO_KEY_LESSER_THAN, MDBX_TO_KEY_LESSER_OR_EQUAL, MDBX_TO_KEY_EQUAL, MDBX_TO_KEY_GREATER_OR_EQUAL,
    MDBX_TO_KEY_GREATER_THAN}"

lemma nearest_position:
  assumes cmp: "comparator cmp valid" "valid key" and ks: "list_all valid (leaf_keys h t)" "sorted_wrt (\<lambda>a b. cmp a b < 0) (leaf_keys h t)"
    and op: "op \<in> to_key_ops"
  defines "xs \<equiv> entries h t" and "pos \<equiv> lower_bound cmp (leaf_keys h t) key" and "exact \<equiv> key \<in> set (leaf_keys h t)"
  shows "pos \<le> length xs" "exact \<Longrightarrow> pos < length xs"
    "nearest op cmp h t key =
     (if op = MDBX_TO_KEY_LESSER_THAN \<or> op = MDBX_TO_KEY_LESSER_OR_EQUAL \<and> \<not> exact then if pos = 0 then None else Some (xs ! (pos - 1))
      else if op = MDBX_TO_KEY_LESSER_OR_EQUAL then Some (xs ! pos)
      else if op = MDBX_TO_KEY_EQUAL then if exact then Some (xs ! pos) else None
      else if op = MDBX_TO_KEY_GREATER_THAN \<and> exact then if pos + 1 < length xs then Some (xs ! (pos + 1)) else None
      else if pos < length xs then Some (xs ! pos) else None)"
proof -
  have keys: "leaf_keys h t = map (ekey t) xs" by (simp add: leaf_keys_entries xs_def)
  note sp = split_at_position[OF cmp ks[unfolded keys] meta_eq_to_obj_eq[OF pos_def, unfolded keys]]
  have ex: "exact \<longleftrightarrow> key \<in> ekey t ` set xs" by (simp add: exact_def keys)
  show le: "pos \<le> length xs" unfolding pos_def keys using lower_bound_le[of cmp "map (ekey t) xs" key] by simp
  show lt: "exact \<Longrightarrow> pos < length xs" using sp(3) ex by blast
  have self: "cmp key key = 0" using comparator.eq_zero[OF cmp(1,2,2)] by simp
  let ?F = "filter (\<lambda>e. asked op (cmp (ekey t e) key))"
  have split: "?F xs = ?F (take pos xs) @ ?F (drop pos xs)" by (metis append_take_drop_id filter_append)
  let ?down = "op \<in> {MDBX_TO_KEY_LESSER_THAN, MDBX_TO_KEY_LESSER_OR_EQUAL}"
  have left: "?F (take pos xs) = (if ?down then take pos xs else [])"
  proof -
    have "asked op (cmp (ekey t e) key) = ?down" if "e \<in> set (take pos xs)" for e using sp(1)[OF that] op by (auto simp: asked_def)
    then show ?thesis by (simp add: filter_id_conv filter_empty_conv del: insert_iff)
  qed
  have right: "?F (drop pos xs) = (if exact then (if op \<in> {MDBX_TO_KEY_LESSER_THAN, MDBX_TO_KEY_GREATER_THAN} then [] else [xs ! pos]) @
      (if op \<in> {MDBX_TO_KEY_GREATER_OR_EQUAL, MDBX_TO_KEY_GREATER_THAN} then drop (Suc pos) xs else [])
    else if op \<in> {MDBX_TO_KEY_GREATER_OR_EQUAL, MDBX_TO_KEY_GREATER_THAN} then drop pos xs else [])"
  proof -
    let ?up = "op \<in> {MDBX_TO_KEY_GREATER_OR_EQUAL, MDBX_TO_KEY_GREATER_THAN}"
    have up: "asked op c = ?up" if "0 < c" for c using that op by (auto simp: asked_def)
    have all: "?F ys = (if ?up then ys else [])" if "\<And>e. e \<in> set ys \<Longrightarrow> 0 < cmp (ekey t e) key" for ys
      using up that by (simp add: filter_id_conv filter_empty_conv del: insert_iff)
    show ?thesis
    proof (cases exact)
      case True
      then have pos: "pos < length xs" "ekey t (xs ! pos) = key" using sp(3) ex by auto
      have "?F (drop (Suc pos) xs) = (if ?up then drop (Suc pos) xs else [])" using sp(4) True ex by (intro all) blast
      moreover have "asked op (cmp (ekey t (xs ! pos)) key) = (op \<notin> {MDBX_TO_KEY_LESSER_THAN, MDBX_TO_KEY_GREATER_THAN})"
        using op by (auto simp: asked_def pos(2) self)
      ultimately show ?thesis using True by (simp add: Cons_nth_drop_Suc[OF pos(1), symmetric])
    next
      case False
      then show ?thesis using all[of "drop pos xs"] sp(2) ex by auto
    qed
  qed
  have last: "last (take pos xs) = xs ! (pos - 1)" if "pos \<noteq> 0" using that le last_conv_nth[of "take pos xs"] by (cases xs) auto
  have empty: "take pos xs = [] \<longleftrightarrow> pos = 0" using le by (cases xs) auto
  show "nearest op cmp h t key =
     (if op = MDBX_TO_KEY_LESSER_THAN \<or> op = MDBX_TO_KEY_LESSER_OR_EQUAL \<and> \<not> exact then if pos = 0 then None else Some (xs ! (pos - 1))
      else if op = MDBX_TO_KEY_LESSER_OR_EQUAL then Some (xs ! pos)
      else if op = MDBX_TO_KEY_EQUAL then if exact then Some (xs ! pos) else None
      else if op = MDBX_TO_KEY_GREATER_THAN \<and> exact then if pos + 1 < length xs then Some (xs ! (pos + 1)) else None
      else if pos < length xs then Some (xs ! pos) else None)"
    using op lt le last empty unfolding nearest_def Let_def xs_def[symmetric] split left right
    by (auto simp: hd_drop_conv_nth hd_conv_nth)
qed

text \<open>
  C3. Going to a key lands on the nearest entry that is asked for: the last one below the key, the last one that is not
  above it, its own, the first one that is not below it, or the first one above it. There is none exactly if
  the operation reports so.
\<close>

theorem to_key_lands_nearest:
  assumes "seekable p False (data \<noteq> None) chk txn h t (mc_table mc) valid key" and "searches p chk txn h t mc"
    and "\<not> is_inner (mc_state mc)" and "op \<in> to_key_ops"
    and "is_poor (mc_state mc) \<or> (\<exists>ks \<in> set (paths h t). at_path chk t ks mc)"
  shows "goes_to p (data \<noteq> None) chk h t txn (nearest op (run_cmp (clc_cmp (tb_clc (mc_table mc)))) h t key)
    (cursor_ops p (Some key) data op mc txn)"
proof -
  let ?cmp = "run_cmp (clc_cmp (tb_clc (mc_table mc)))" let ?xs = "entries h t" let ?want = "data \<noteq> None"
  let ?pos = "lower_bound ?cmp (leaf_keys h t) key" let ?exact = "key \<in> set (leaf_keys h t)"
  note d = seekableD[OF assms(1)]
  note near = nearest_position[OF d(1,6,8,9) assms(4)]
  have codes: "MDBX_NOTFOUND \<noteq> MDBX_SUCCESS" by (simp add: MDBX_NOTFOUND_def MDBX_SUCCESS_def)
  have ops: "cursor_ops p (Some key) data op mc txn = to_key p op key data mc txn" using assms(4) by (auto simp: cursor_ops_def)
  have sought: "sought p data MDBX_SET_RANGE chk txn h t (tb_clc (mc_table mc)) key (cursor_seek p key data MDBX_SET_RANGE mc txn)"
    by (rule cursor_seek_spec[OF assms(1,2) _ _ assms(5)]) (use assms(3) in auto)
  have range: "\<not> below_set_range MDBX_SET_RANGE" "\<not> below_set_key MDBX_SET_RANGE"
    by (simp_all add: below_set_range_def below_set_key_def at_most_both_range_def)
  show ?thesis
  proof (cases "?pos < length ?xs")
    case True
    let ?e = "?xs ! ?pos"
    obtain mc' where mc': "cursor_seek p key data MDBX_SET_RANGE mc txn =
        (MDBX_SUCCESS, ?exact, Some (ekey t ?e), edata p ?want t ?e, mc', txn)" "at_entry chk h t ?e mc'" "z_bits mc' = 0"
      using sought True range near(2) unfolding sought_def Let_def by auto
    note step = step_at[OF d(2,3,4) True mc'(2,3)]
    note prev = step[where forward = False and op = MDBX_PREV_NODUP, folded outer_prev_def]
    note nxt = step[where forward = True and op = MDBX_NEXT_NODUP, folded outer_next_def]
    show ?thesis unfolding ops goes_to_def near(3) to_key_def mc'(1)
      using assms(4) True mc'(2) prev nxt codes by (auto simp: Let_def split: if_splits)
  next
    case False
    then have pos: "?pos = length ?xs" "\<not> ?exact" using near(1,2) by auto
    obtain mc' where mc': "cursor_seek p key data MDBX_SET_RANGE mc txn = (MDBX_NOTFOUND, False, None, None, mc', txn)" "behind chk h t mc'"
      using sought pos range unfolding sought_def Let_def by auto
    have "paths h t \<noteq> []" using paths_ne[OF d(2) order_refl] .
    have ne: "?xs \<noteq> []"
    proof -
      obtain ks where "ks \<in> set (paths h t)" using \<open>paths h t \<noteq> []\<close> by (meson last_in_set)
      then have "(ks, 0) \<in> set ?xs" using leaf_numkeys[OF d(2)] by (simp add: in_entries)
      then show ?thesis by auto
    qed
    obtain mc2 where "outer_prev p ?want MDBX_PREV_NODUP mc' txn = (MDBX_SUCCESS, Some (ekey t (last ?xs)), edata p ?want t (last ?xs), mc2, txn)"
      "at_entry chk h t (last ?xs) mc2"
      using back_from_behind[OF d(2,4) mc'(2), of MDBX_PREV_NODUP] by (auto simp: outer_prev_def)
    moreover have "last ?xs = ?xs ! (?pos - 1)" using ne pos by (simp add: last_conv_nth)
    ultimately show ?thesis unfolding ops goes_to_def near(3) to_key_def mc'(1)
      using assms(4) pos ne codes by (auto simp: Let_def split: if_splits)
  qed
qed

subsection \<open>Witnesses\<close>

theorem to_key_lands_nearest_witness:
  "\<exists>mc. cursor_ops small_calls (Some [4]) (Some []) MDBX_TO_KEY_LESSER_THAN small_cursor small_txn =
     (MDBX_SUCCESS, Some [3], Some [9], mc, small_txn)"
proof -
  have k: "tb_clc (mc_table small_cursor) = lexical_keys" by (simp add: small_cursor_def)
  have keys: "ekey small_tree ([0], 0) = [3]" "ekey small_tree ([1], 0) = [5]"
    using leaf_keys_entries[of 1 small_tree] unfolding small_leaf_keys small_entries by simp_all
  have "nearest MDBX_TO_KEY_LESSER_THAN (run_cmp (clc_cmp lexical_keys)) 1 small_tree [4] = Some ([0], 0)"
    unfolding nearest_def small_entries by (simp add: keys keys[unfolded One_nat_def] asked_def lexical_keys_def cmp_lexical_small)
  then show ?thesis
    using to_key_lands_nearest[OF small_seekable[of 4] small_searches small_fresh(1), of MDBX_TO_KEY_LESSER_THAN "Some []"] small_fresh(3)
      small_values[of "([0], 0)"]
    by (auto simp: k goes_to_def keys small_entries small_entries[unfolded One_nat_def])
qed

end
