(* ===== verification/Spec2Isabelle.thy ===== *)
theory Spec2Isabelle
  imports Rkl_Ops Pnl_Ops Pnl_Sort Dpl_Ops Geometry_Ops Meta_Race Meta_Sync Keys Mvcc_Race Page_Ops Cursor_To_Key
begin

text \<open>
  A verification development for libmdbx, the storage engine that \<^verbatim>\<open>mdbx-go\<close> embeds
  (\<^verbatim>\<open>src/libmdbx/mdbx.c\<close>, with \<^verbatim>\<open>mdbx-internals.h\<close> and \<^verbatim>\<open>mdbx.h\<close>). The engine is a
  copy-on-write B+tree in a memory-mapped file. A writer takes pages from the garbage collector (GC), which it must
  not reuse while a reader can see them, builds new versions of the pages it changes, and publishes the new roots by
  overwriting the oldest of three meta pages; readers choose the most recent complete meta page. The development
  follows these parts bottom up. Everything is a shallow embedding: the code's functions are HOL functions with the
  code's names, on records with the code's fields.

  The parts, and where they are.

  \<^item> \<^verbatim>\<open>Prelude\<close>: the scalar types (page number, transaction id, return code) as numbers with the wrap-around of their
    width written out (\<open>sub32\<close>, \<open>sub64\<close>, \<open>dec64\<close>), the return codes, the copy loops on arrays. \<^verbatim>\<open>Search\<close>: the
    macro \<^verbatim>\<open>SEARCH_IMPL\<close>, its loop bounded by the length of the range.
  \<^item> \<^verbatim>\<open>Rkl\<close>, \<^verbatim>\<open>Rkl_Set\<close>, \<^verbatim>\<open>Rkl_Ops\<close>: the set of transaction ids (\<^verbatim>\<open>rkl_t\<close>: a solid interval and a sorted
    list of the rest). \<^verbatim>\<open>Rkl_Set\<close> has the representation invariant and the abstraction to a set of numbers,
    \<^verbatim>\<open>Rkl_Ops\<close> that every operation keeps the one and acts as the set operation on the other.
  \<^item> \<^verbatim>\<open>Pnl\<close>, \<^verbatim>\<open>Pnl_Set\<close>, \<^verbatim>\<open>Pnl_Ops\<close>: the page number lists (\<^verbatim>\<open>pnl_t\<close>) of GC records and of the reclaimed
    pages, sorted downwards: growth, appending, merging, searching, and the search for runs of pages.
  \<^item> \<^verbatim>\<open>Env\<close>, \<^verbatim>\<open>Units\<close>, \<^verbatim>\<open>Limits\<close>: the environment's configuration (\<^verbatim>\<open>MDBX_env\<close>), page and byte units and
    the packed 16-bit steps (\<^verbatim>\<open>pages2pv\<close>), node sizes, and the limits on keys and values. \<^verbatim>\<open>Options\<close>,
    \<^verbatim>\<open>Options_Set\<close>, \<^verbatim>\<open>Options_Ops\<close>: the defaults, \<^verbatim>\<open>mdbx_env_set_option\<close> and
    \<^verbatim>\<open>mdbx_env_get_option\<close>, with the range of every option (\<open>options_ok\<close>, \<open>option_bounds\<close>), the invariant that any
    sequence of calls keeps, and which calls are refused.
  \<^item> \<^verbatim>\<open>Meta\<close>, \<^verbatim>\<open>Meta_Choice\<close>, \<^verbatim>\<open>Meta_Commit\<close>: the meta pages, the choice of the recent, the steady and the tail
    page by a table of 216 entries (\<^verbatim>\<open>meta_tap\<close>), checked against the orders it stands for, and the two-phase
    update of the tail page (\<^verbatim>\<open>dxb_sync_locked\<close>) as a list of stores, with a crash allowed between any two.
    \<^verbatim>\<open>Meta_Sync\<close> is the writing itself: \<^verbatim>\<open>dxb_sync_locked\<close> from the choice of the target on, with the failures of the
    system calls, the undo, and the loop that reads the written page back until it is coherent. That loop is a
    \<open>partial_function\<close>, and the theorem has a clock that runs as the reason why it ends.
  \<^item> \<^verbatim>\<open>Numeric\<close>, \<^verbatim>\<open>Keys\<close>: the arithmetic helpers, and the keys that numbers are turned into so that they compare
    as bytes, against the meaning of IEEE 754 patterns.
  \<^item> \<^verbatim>\<open>Coherency\<close>, \<^verbatim>\<open>Meta_Race\<close>: a reader takes its snapshot from a meta page (\<^verbatim>\<open>coherency_fetch_head\<close>); the
    interleaving of its copying with the stores of commits, as a step relation with a history of what was published.
  \<^item> \<^verbatim>\<open>Mvcc\<close>, \<^verbatim>\<open>Mvcc_Ops\<close>, \<^verbatim>\<open>Mvcc_Race\<close>: the table of readers: binding a slot, clearing the slots of dead
    processes, the scan for the oldest transaction in use, kicking laggards; and the lock-free protocol between
    readers and the writer's scan as a step relation.
  \<^item> \<^verbatim>\<open>Geometry\<close>, \<^verbatim>\<open>Geometry_Ops\<close>: \<^verbatim>\<open>mdbx_env_set_geometry\<close>, which derives the sizes and steps of the file from
    six parameters, with its assertions. \<^verbatim>\<open>Cmp\<close>, \<^verbatim>\<open>Cmp_Ops\<close>: the comparators of keys and values, against the order
    of bytes, and the locale of the contract they have with the tree.
  \<^item> \<^verbatim>\<open>Page\<close>, \<^verbatim>\<open>Page_Wf\<close>, \<^verbatim>\<open>Page_Ops\<close>: a page with its header, its array of entries and its bytes, kept as two
    arrays of the model (the one store that can reach from the first into the second, the entry that \<^verbatim>\<open>node_add_leaf\<close> moves
    before it checks the room, writes the bytes too: \<open>store_behind\<close>); \<^verbatim>\<open>node_add_leaf\<close>, \<^verbatim>\<open>node_add_branch\<close>, \<^verbatim>\<open>node_add_dupfix\<close>, \<^verbatim>\<open>node_del\<close> and reading a
    node, with the invariant that the nodes are apart and fill the used space. \<open>None\<close> of an operation is a panic of it.
  \<^item> \<^verbatim>\<open>Node_Search\<close>, \<^verbatim>\<open>Node_Search_Ops\<close>: the binary search of a key on a page, with its variants for the kinds
    of pages and keys, against the number of keys that are less.
  \<^item> \<^verbatim>\<open>Cursor\<close>, \<^verbatim>\<open>Cursor_Ops\<close>: the cursor, its packed state (flags and depth in one 32-bit word), the stack of
    pages, and getting a page with the checks of its header. \<open>cursor_reached\<close> has every store of the code to the state of a
    cursor, those of operations that are not modelled too. What is on the stack is the content that was read.
  \<^item> \<^verbatim>\<open>Tree_Search\<close>: \<^verbatim>\<open>tree_search\<close> by key and for the edges, going down, and the step to a sibling. \<^verbatim>\<open>Tree_Path\<close>
    has the abstract tree (\<open>Branch_page\<close>, \<open>Leaf_page\<close>), its paths and the cursors that stand on them, \<^verbatim>\<open>Tree_Walk\<close> the loops
    on such cursors, \<^verbatim>\<open>Tree_Search_Ops\<close> that the search ends on the leaf that separates the keys. A loop of a
    search is bounded by the stack of 32 pages, that to a sibling by the depth; a full stack is the code's error.
  \<^item> \<^verbatim>\<open>Cursor_Step\<close>: landing, stepping, seeking, and \<^verbatim>\<open>cursor_ops\<close>, for cursors without a nested one.
    \<^verbatim>\<open>Cursor_Walk\<close> shows that steps go through all entries in order, \<^verbatim>\<open>Cursor_Seek\<close> that a seek finds the place of
    the key, \<^verbatim>\<open>Cursor_To_Key\<close> that the operations with a comparison land on the nearest entry.
  \<^item> \<^verbatim>\<open>Sort\<close>, \<^verbatim>\<open>Sort_Network\<close>, \<^verbatim>\<open>Sort_Ops\<close>: the template \<^verbatim>\<open>SORT_IMPL\<close>, quicksort with an explicit stack and networks
    for up to eight elements; \<^verbatim>\<open>Radix\<close>, \<^verbatim>\<open>Radix_Ops\<close>: \<^verbatim>\<open>RADIXSORT_IMPL\<close>; \<^verbatim>\<open>Pnl_Sort\<close>: both on the code's lists. A
    result \<open>None\<close> would be an access outside the array or an overflow of the stack, which is shown not to occur.
  \<^item> \<^verbatim>\<open>Dpl\<close>: the list of dirty pages of a writing transaction (\<^verbatim>\<open>dpl_t\<close>, \<^verbatim>\<open>txn_dpl_append\<close> and the others): a head that
    is sorted, a tail that is not, and stubs on both sides; a store outside the block of the list is \<open>None\<close>. \<^verbatim>\<open>Dpl_Set\<close> has its invariant and shows that the merge of
    the tail into the head, the other sorts and the search are right, \<^verbatim>\<open>Dpl_Ops\<close> what each operation does to the entries.
  What the lemmas show. For the sets and lists: representation invariants and the abstract effect of each operation,
  error results included. For configuration: the ranges that assertions of the code rely on, round trips, and that a
  refused option changes nothing. For the metas: the choice is the maximum of an order, the tail is never in use, and a
  crash leaves the old or the new head. For numbers: equality with the mathematical function inside stated bounds.
  For the tree: nodes are added and deleted without touching the others, the search on a page and through the tree finds
  the position of a key, and the moves of a cursor visit every entry once and in order.
  For readers: every accepted snapshot is one that was committed, and the writer never reclaims what a running reader
  sees, in every interleaving, by invariants of the step relations. Locales state the interfaces: the laws of an order
  that the search, the tree and the choice of a meta need, interpreted on the code's own comparisons.

  Parameters. What is not code of the repository is an argument of the definitions that use it, with what the code
  relies on as a named hypothesis: the answers of the allocator (growing a list), of the operating system (writing and
  flushing, the size of memory, locks) and the clock. Loops run by structural recursion or with a termination proof;
  the search loop is bounded by the number of elements, so no result depends on fuel; the loop that waits for a written
  meta to be seen is a \<open>partial_function\<close>, shown to end.

  Choices of the build. Linux on amd64: 64-bit, little-endian, a 64-bit load is atomic; \<^verbatim>\<open>MDBX_DEBUG\<close> and
  \<^verbatim>\<open>MDBX_CHECKING\<close> are 0 (assertions that remain, \<^verbatim>\<open>ENSURE\<close>, are modelled as failures), \<^verbatim>\<open>MDBX_PNL_ASCENDING\<close>
  is 0, \<^verbatim>\<open>MDBX_ENABLE_REFUND\<close> is 1, \<^verbatim>\<open>MDBX_AVOID_MSYNC\<close> is 0.

  The tree that a cursor reads. \<open>wf_tree\<close> says that the pages of the transaction are those of an abstract tree and can
  be read, \<open>ordered\<close> and \<open>seekable\<close> that its keys ascend and the separators are between them; they are hypotheses, as the code
  that would establish them is not modelled. Making a page writable (\<^verbatim>\<open>page_touch\<close>) and refreshing a table's record
  are parameters of the cursor's operations. Where \<^verbatim>\<open>page_get\<close> fails the code stores a null pointer on the stack of a
  cursor that it marks poor; the model keeps the page that was there.

  Not modelled. What changes the B+tree (\<^verbatim>\<open>cursor_put\<close>, \<^verbatim>\<open>cursor_del\<close>, copying, splitting and merging of pages),
  the nested trees of keys with many values, and the update of the GC at commit,
  which work on page images through several cursors; the state of transactions beyond the snapshot of a reader and the list of dirty pages, spilling and nesting; pure I/O and the operating system
  layer (\<^verbatim>\<open>osal\<close>, \<^verbatim>\<open>lck\<close>), Windows; printing and \<^verbatim>\<open>mdbx_env_chk\<close>; the command line tools, the C++ interface and
  the Go bindings, which call this code.
\<close>

end
